(* ===== verification/Prelude.thy ===== *)
theory Prelude
  imports Main "HOL-Library.Word" "HOL-Library.Monad_Syntax" "HOL-Library.Signed_Division"
begin

section \<open>Shared types, automation and generic lemmas\<close>

text \<open>
  The machine types of the C sources, extensionality of words bit by bit (so that masks
  and shifts are decided by the simplifier), and the small total-correctness calculus
  the buffer engines are verified with: \<open>ok m Q\<close> says that the option computation \<open>m\<close>
  does not fail (no access outside an array) and that its result satisfies \<open>Q\<close>.
\<close>

unbundle bit_operations_syntax

declare of_nat_unat [simp del]

type_synonym u8 = "8 word"
type_synonym u16 = "16 word"
type_synonym u32 = "32 word"

named_theorems ok_simps \<open>weakest preconditions of the primitive array accesses\<close>
named_theorems wf_defs \<open>definitions of the well-formedness predicates\<close>

subsection \<open>Words, bit by bit\<close>

lemma less_8_iff: "(n::nat) < 8 \<longleftrightarrow> n \<in> {0, 1, 2, 3, 4, 5, 6, 7}"
  by auto

lemma less_16_iff:
  "(n::nat) < 16 \<longleftrightarrow> n \<in> {0, 1, 2, 3, 4, 5, 6, 7, 8, 9, 10, 11, 12, 13, 14, 15}"
  by (simp only: insert_iff empty_iff) presburger

lemma u8_eq_iff:
  "(x::u8) = y \<longleftrightarrow>
     bit x 0 = bit y 0 \<and> bit x 1 = bit y 1 \<and> bit x 2 = bit y 2 \<and> bit x 3 = bit y 3 \<and>
     bit x 4 = bit y 4 \<and> bit x 5 = bit y 5 \<and> bit x 6 = bit y 6 \<and> bit x 7 = bit y 7"
proof
  assume b: "bit x 0 = bit y 0 \<and> bit x 1 = bit y 1 \<and> bit x 2 = bit y 2 \<and> bit x 3 = bit y 3 \<and>
     bit x 4 = bit y 4 \<and> bit x 5 = bit y 5 \<and> bit x 6 = bit y 6 \<and> bit x 7 = bit y 7"
  show "x = y"
  proof (rule bit_word_eqI)
    fix n :: nat
    assume "n < LENGTH(8)"
    then have "n \<in> {0, 1, 2, 3, 4, 5, 6, 7}" by auto
    with b show "bit x n = bit y n" by auto
  qed
qed simp

lemma u16_eq_iff:
  "(x::u16) = y \<longleftrightarrow>
     bit x 0 = bit y 0 \<and> bit x 1 = bit y 1 \<and> bit x 2 = bit y 2 \<and> bit x 3 = bit y 3 \<and>
     bit x 4 = bit y 4 \<and> bit x 5 = bit y 5 \<and> bit x 6 = bit y 6 \<and> bit x 7 = bit y 7 \<and>
     bit x 8 = bit y 8 \<and> bit x 9 = bit y 9 \<and> bit x 10 = bit y 10 \<and> bit x 11 = bit y 11 \<and>
     bit x 12 = bit y 12 \<and> bit x 13 = bit y 13 \<and> bit x 14 = bit y 14 \<and> bit x 15 = bit y 15"
  (is "_ \<longleftrightarrow> ?B")
proof
  assume b: ?B
  show "x = y"
  proof (rule bit_word_eqI)
    fix n :: nat
    assume "n < LENGTH(16)"
    then have "n < 16" by simp
    then have "n \<in> {0, 1, 2, 3, 4, 5, 6, 7, 8, 9, 10, 11, 12, 13, 14, 15}"
      by (simp only: less_16_iff)
    with b show "bit x n = bit y n" by auto
  qed
qed simp

lemma unat_and_mask_less: "unat (s AND mask n :: 'a::len word) < 2 ^ n"
proof -
  have "unat (s AND mask n) = take_bit n (unat s)"
    by (simp add: unsigned_take_bit_eq flip: take_bit_eq_mask)
  then show ?thesis by simp
qed

lemma unat_and_15_less [simp]: "unat (s AND 15 :: u8) < 16"
  using unat_and_mask_less[of s 4] by (simp add: mask_numeral)

lemma word_xor_eq_0_iff: "(x::'a::len word) XOR y = 0 \<longleftrightarrow> x = y"
proof
  assume "x XOR y = 0"
  then have "bit (x XOR y) n = bit (0::'a word) n" for n by simp
  then show "x = y" by (intro bit_eqI) (simp add: bit_xor_iff)
qed simp

lemma unat_exp_less:
  assumes "n < LENGTH('a)"
  shows "unat (2 ^ n :: 'a::len word) = 2 ^ n"
proof -
  have "unat (word_of_nat (2 ^ n) :: 'a word) = 2 ^ n"
    using assms by (simp only: unsigned_of_nat take_bit_nat_eq_self_iff) simp
  then show ?thesis by simp
qed

lemma u8_split_nibbles: "(s AND 0xf0) OR (s AND 0x0f) = (s::u8)"
  by (simp add: u8_eq_iff bit_simps)

text \<open>Quantification over the small words is finite; a closed goal is decided by evaluation.\<close>

lemma u8_all_upt: "(\<forall>s::u8. P s) \<longleftrightarrow> (\<forall>n\<in>set [0..<256]. P (word_of_nat n))"
proof
  assume "\<forall>n\<in>set [0..<256]. P (word_of_nat n)"
  moreover have "unat s \<in> set [0..<256]" for s :: u8
    using unsigned_less[of s, where 'a = nat] by simp
  ultimately have "P (word_of_nat (unat s))" for s :: u8
    by blast
  then have "P s" for s :: u8
    by (simp only: of_nat_unat ucast_id)
  then show "\<forall>s. P s" by simp
qed simp

subsection \<open>Lists\<close>

lemma list_update_all: "\<lbrakk>\<forall>x\<in>set xs. P x; P y\<rbrakk> \<Longrightarrow> \<forall>x\<in>set (xs[i := y]). P x"
  by (auto dest!: set_update_subset_insert[THEN subsetD])

lemma nth_all: "\<lbrakk>\<forall>x\<in>set xs. P x; i < length xs\<rbrakk> \<Longrightarrow> P (xs ! i)"
  by simp

subsection \<open>Checked array accesses and their weakest preconditions\<close>

text \<open>
  \<open>rd\<close> and \<open>wr\<close> are the reads and writes of a C array: outside the array the behaviour of
  the program is undefined, which is the value \<open>None\<close> here.
\<close>

definition rd :: "'a list \<Rightarrow> nat \<Rightarrow> 'a option" where
  "rd xs i = (if i < length xs then Some (xs ! i) else None)"

definition wr :: "'a list \<Rightarrow> nat \<Rightarrow> 'a \<Rightarrow> 'a list option" where
  "wr xs i v = (if i < length xs then Some (xs[i := v]) else None)"

definition ok :: "'a option \<Rightarrow> ('a \<Rightarrow> bool) \<Rightarrow> bool" where
  "ok m Q \<longleftrightarrow> (\<exists>r. m = Some r \<and> Q r)"

lemma ok_Some [ok_simps]: "ok (Some x) Q \<longleftrightarrow> Q x"
  by (simp add: ok_def)

lemma ok_None [ok_simps]: "\<not> ok None Q"
  by (simp add: ok_def)

lemma ok_bind [ok_simps]: "ok (m \<bind> f) Q \<longleftrightarrow> ok m (\<lambda>x. ok (f x) Q)"
  by (cases m) (simp_all add: ok_def)

lemma ok_rd [ok_simps]: "ok (rd xs i) Q \<longleftrightarrow> i < length xs \<and> Q (xs ! i)"
  by (simp add: rd_def ok_def)

lemma ok_wr [ok_simps]: "ok (wr xs i v) Q \<longleftrightarrow> i < length xs \<and> Q (xs[i := v])"
  by (simp add: wr_def ok_def)

lemma ok_if [ok_simps]: "ok (if b then m else m') Q \<longleftrightarrow> (if b then ok m Q else ok m' Q)"
  by simp

lemma ok_let [ok_simps]: "ok (let x = e in m x) Q \<longleftrightarrow> (let x = e in ok (m x) Q)"
  by simp

lemma ok_mono: "ok m Q \<Longrightarrow> (\<And>x. Q x \<Longrightarrow> Q' x) \<Longrightarrow> ok m Q'"
  by (auto simp: ok_def)

lemma ok_conj: "ok m P \<Longrightarrow> ok m Q \<Longrightarrow> ok m (\<lambda>x. P x \<and> Q x)"
  by (auto simp: ok_def)

lemma ok_det: "ok m P \<Longrightarrow> m = Some r \<Longrightarrow> P r"
  by (simp add: ok_def)

lemma ok_SomeE: "ok m Q \<Longrightarrow> (\<And>r. m = Some r \<Longrightarrow> Q r \<Longrightarrow> R) \<Longrightarrow> R"
  by (auto simp: ok_def)

text \<open>
  \<open>for_list is f s\<close> runs the body \<open>f i\<close> for the loop counters \<open>is\<close> in order, from the state
  \<open>s\<close>; it stops with \<open>None\<close> at the first undefined access.
\<close>

primrec for_list :: "'i list \<Rightarrow> ('i \<Rightarrow> 's \<Rightarrow> 's option) \<Rightarrow> 's \<Rightarrow> 's option" where
  "for_list [] f s = Some s"
| "for_list (i # is) f s = f i s \<bind> for_list is f"

abbreviation for_range :: "nat \<Rightarrow> nat \<Rightarrow> (nat \<Rightarrow> 's \<Rightarrow> 's option) \<Rightarrow> 's \<Rightarrow> 's option" where
  "for_range a b \<equiv> for_list [a..<b]"

lemma for_list_append: "for_list (is @ js) f s = for_list is f s \<bind> for_list js f"
  by (induction "is" arbitrary: s) (simp_all split: bind_splits)

lemma for_list_inv:
  assumes "I s" and "\<And>i s. \<lbrakk>i \<in> set is; I s\<rbrakk> \<Longrightarrow> ok (f i s) I"
  shows "ok (for_list is f s) I"
  using assms
proof (induction "is" arbitrary: s)
  case Nil
  then show ?case by (simp add: ok_simps)
next
  case (Cons i "is")
  have "ok (f i s) I" using Cons.prems by simp
  then have "ok (f i s) (\<lambda>s'. ok (for_list is f s') I)"
    by (rule ok_mono) (rule Cons.IH, use Cons.prems in auto)
  then show ?case by (simp add: ok_simps)
qed

text \<open>The rule for a counting loop: an invariant indexed by the counter.\<close>

lemma for_range_inv:
  assumes "a \<le> b" and "I a s"
    and "\<And>i s. \<lbrakk>a \<le> i; i < b; I i s\<rbrakk> \<Longrightarrow> ok (f i s) (I (Suc i))"
  shows "ok (for_range a b f s) (I b)"
  using assms
proof (induction "b - a" arbitrary: a s)
  case 0
  then show ?case by (simp add: ok_simps)
next
  case (Suc n)
  from Suc.hyps(2) have "a < b" by simp
  then have eq: "[a..<b] = a # [Suc a..<b]" by (rule upt_conv_Cons)
  have "ok (f a s) (I (Suc a))" using \<open>a < b\<close> Suc.prems by simp
  then have "ok (f a s) (\<lambda>s'. ok (for_range (Suc a) b f s') (I b))"
  proof (rule ok_mono)
    fix s' assume "I (Suc a) s'"
    then show "ok (for_range (Suc a) b f s') (I b)"
      using Suc.hyps \<open>a < b\<close> Suc.prems by (intro Suc.hyps(1)) auto
  qed
  then show ?case by (simp add: eq ok_simps)
qed

lemma for_range_post:
  assumes "a \<le> b" and "I a s"
    and "\<And>i s. \<lbrakk>a \<le> i; i < b; I i s\<rbrakk> \<Longrightarrow> ok (f i s) (I (Suc i))"
    and "\<And>s'. I b s' \<Longrightarrow> Q s'"
  shows "ok (for_range a b f s) Q"
  using for_range_inv[of a b I s f] assms by (blast intro: ok_mono)

subsection \<open>Gates\<close>

text \<open>
  Every record that can arrive from the card or from a zeroed config block passes a
  sanitizing gate before it is used. The contract of such a gate: it makes any value of
  the right shape usable, and it leaves what can be observed of a usable value alone.
\<close>

locale gate =
  fixes san :: "'a \<Rightarrow> 'a"
    and shape :: "'a \<Rightarrow> bool"
    and good :: "'a \<Rightarrow> bool"
    and view :: "'a \<Rightarrow> 'v"
  assumes san_good: "shape x \<Longrightarrow> good (san x)"
    and good_shape: "good x \<Longrightarrow> shape x"
    and san_view: "good x \<Longrightarrow> view (san x) = view x"
begin

lemma san_twice: "shape x \<Longrightarrow> view (san (san x)) = view (san x)"
  by (rule san_view) (rule san_good)

lemma san_iter: "shape x \<Longrightarrow> view ((san ^^ Suc n) x) = view (san x) \<and> good ((san ^^ Suc n) x)"
  by (induction n) (simp_all add: san_good san_view good_shape)

end

end
