(* ===== verification/BendModel.thy ===== *)
theory BendModel
  imports Prelude
begin

section \<open>The routing matrix (include/bend.h, core/bend.c)\<close>

text \<open>
  The patchbay of the bend engine: the encoding of a source as one byte, the record
  \<open>bend_t\<close>, and the operations that build, repair and edit a matrix: \<open>bend_reset\<close>,
  \<open>bend_is_identity\<close>, \<open>bend_sanitize\<close>, the presets, \<open>bend_src_invert\<close>,
  \<open>bend_simplify\<close>, the pseudo-random generator \<open>xs32\<close>, \<open>bend_random\<close> and
  \<open>bend_mutate\<close>, and the two-character names. An \<open>unsigned char\<close> is a \<open>u8\<close>, an
  \<open>unsigned\<close> a \<open>u32\<close>, a \<open>signed char\<close> a \<open>u8\<close> read with \<open>sint\<close>; loop counters and
  array indices, which never leave \<open>0..15\<close>, are \<open>nat\<close>.
\<close>

subsection \<open>Constants and the record\<close>

definition BEND_MAX_BITS :: nat where "BEND_MAX_BITS = 16"

definition BSRC_DATA :: "nat \<Rightarrow> u8" where "BSRC_DATA n = 0x00 OR word_of_nat n"
definition BSRC_NDATA :: "nat \<Rightarrow> u8" where "BSRC_NDATA n = 0x10 OR word_of_nat n"
definition BSRC_LOW :: u8 where "BSRC_LOW = 0x20"
definition BSRC_HIGH :: u8 where "BSRC_HIGH = 0x21"
definition BSRC_BUS :: "nat \<Rightarrow> u8" where "BSRC_BUS k = 0x30 OR word_of_nat k"
definition BSRC_NBUS :: "nat \<Rightarrow> u8" where "BSRC_NBUS k = 0x40 OR word_of_nat k"
definition BSRC_CLASS :: "u8 \<Rightarrow> u8" where "BSRC_CLASS s = s AND 0xf0"
definition BSRC_IDX :: "u8 \<Rightarrow> nat" where "BSRC_IDX s = unat (s AND 0x0f)"

abbreviation (input) BSRC_C_DATA :: u8 where "BSRC_C_DATA \<equiv> 0x00"
abbreviation (input) BSRC_C_NDATA :: u8 where "BSRC_C_NDATA \<equiv> 0x10"
abbreviation (input) BSRC_C_TIE :: u8 where "BSRC_C_TIE \<equiv> 0x20"
abbreviation (input) BSRC_C_BUS :: u8 where "BSRC_C_BUS \<equiv> 0x30"
abbreviation (input) BSRC_C_NBUS :: u8 where "BSRC_C_NBUS \<equiv> 0x40"

abbreviation (input) BUS_HCLK :: nat where "BUS_HCLK \<equiv> 0"
abbreviation (input) BUS_HCLKN :: nat where "BUS_HCLKN \<equiv> 1"
abbreviation (input) BUS_VCLK :: nat where "BUS_VCLK \<equiv> 2"
abbreviation (input) BUS_VCLKN :: nat where "BUS_VCLKN \<equiv> 3"
abbreviation (input) BUS_FRAME :: nat where "BUS_FRAME \<equiv> 4"
abbreviation (input) BUS_DIAG :: nat where "BUS_DIAG \<equiv> 5"
abbreviation (input) BUS_OB :: nat where "BUS_OB \<equiv> 6"
abbreviation (input) BUS_NOISE :: nat where "BUS_NOISE \<equiv> 7"
abbreviation (input) BUS_HOLD :: nat where "BUS_HOLD \<equiv> 8"
abbreviation (input) BUS_VHOLD :: nat where "BUS_VHOLD \<equiv> 9"
abbreviation (input) BUS_PARITY :: nat where "BUS_PARITY \<equiv> 10"
abbreviation (input) BUS_TAP :: nat where "BUS_TAP \<equiv> 11"
abbreviation (input) BUS_COUNT :: nat where "BUS_COUNT \<equiv> 12"

abbreviation (input) TRASH_LFSR :: u8 where "TRASH_LFSR \<equiv> 0"
abbreviation (input) TRASH_LFSRN :: u8 where "TRASH_LFSRN \<equiv> 1"
abbreviation (input) TRASH_RAMP :: u8 where "TRASH_RAMP \<equiv> 2"
abbreviation (input) TRASH_BURST :: u8 where "TRASH_BURST \<equiv> 3"
abbreviation (input) TRASH_SEED :: u8 where "TRASH_SEED \<equiv> 4"
abbreviation (input) TRASH_COUNT :: nat where "TRASH_COUNT \<equiv> 5"

record bend_t =
  b_route :: "u8 list"
  b_nbits :: u8
  b_bayer :: u8
  b_row_period :: u8
  b_hdiv :: u8
  b_vdiv :: u8
  b_trash_type :: u8
  b_trash_rate :: u8
  b_depth :: u8
  b_tap_dx :: u8
  b_tap_dy :: u8
  b_pad :: "u8 list"
  b_seed :: u32

text \<open>The shape the C type guarantees: a 16 entry route and two bytes of padding.\<close>

definition bend_shape :: "bend_t \<Rightarrow> bool" where
  "bend_shape b \<longleftrightarrow> length (b_route b) = BEND_MAX_BITS \<and> length (b_pad b) = 2"

subsection \<open>The pseudo-random step\<close>

definition xs32 :: "u32 \<Rightarrow> u32" where
  "xs32 s =
     (let s = (if s = 0 then 0x9e3779b9 else s);
          s = s XOR push_bit 13 s;
          s = s XOR drop_bit 17 s
      in s XOR push_bit 5 s)"

subsection \<open>Reset, identity and the gate every foreign matrix goes through\<close>

definition bend_reset :: "bend_t \<Rightarrow> nat \<Rightarrow> bend_t" where
  "bend_reset b nbits = b
     \<lparr> b_route := map BSRC_DATA [0..<BEND_MAX_BITS],
       b_nbits := word_of_nat nbits,
       b_bayer := 0, b_row_period := 0, b_hdiv := 3, b_vdiv := 3,
       b_trash_type := TRASH_LFSR, b_trash_rate := 0, b_depth := 3,
       b_tap_dx := 17, b_tap_dy := - 3, b_pad := [0, 0], b_seed := 0x5eed1e55 \<rparr>"

definition bend_is_identity :: "bend_t \<Rightarrow> bool" where
  "bend_is_identity b \<longleftrightarrow>
     (\<forall>i\<in>set [0..<min (unat (b_nbits b)) BEND_MAX_BITS]. b_route b ! i = BSRC_DATA i)"

definition sanitize_src :: "nat \<Rightarrow> nat \<Rightarrow> u8 \<Rightarrow> u8" where
  "sanitize_src nb i src =
     (let idx = BSRC_IDX src; cls = BSRC_CLASS src in
      if cls = BSRC_C_DATA \<or> cls = BSRC_C_NDATA then
        (if nb \<le> idx then cls OR word_of_nat (nb - 1) else src)
      else if cls = BSRC_C_TIE then (if odd idx then BSRC_HIGH else BSRC_LOW)
      else if cls = BSRC_C_BUS \<or> cls = BSRC_C_NBUS then
        (if BUS_COUNT \<le> idx then cls OR word_of_nat BUS_NOISE else src)
      else BSRC_DATA (if i < nb then i else nb - 1))"

definition bend_sanitize :: "bend_t \<Rightarrow> nat \<Rightarrow> bend_t" where
  "bend_sanitize b nbits =
     (if b_nbits b < 2 \<or> word_of_nat BEND_MAX_BITS < b_nbits b then bend_reset b nbits
      else b
        \<lparr> b_route := map (\<lambda>i. sanitize_src (unat (b_nbits b)) i (b_route b ! i)) [0..<BEND_MAX_BITS],
          b_bayer := (if 4 < b_bayer b then 0 else b_bayer b),
          b_hdiv := (if 12 < b_hdiv b then 3 else b_hdiv b),
          b_vdiv := (if 12 < b_vdiv b then 3 else b_vdiv b),
          b_trash_type := (if TRASH_COUNT \<le> unat (b_trash_type b) then TRASH_LFSR
                           else b_trash_type b),
          b_trash_rate := (if 12 < b_trash_rate b then 0 else b_trash_rate b),
          b_depth := (if b_depth b < 1 \<or> word_of_nat BEND_MAX_BITS < b_depth b then 3
                      else b_depth b),
          b_seed := (if b_seed b = 0 then 0x5eed1e55 else b_seed b) \<rparr>)"

subsection \<open>Reading a source byte\<close>

text \<open>
  What a byte names, as data: the abstract side of the encoding. \<open>Stray\<close> is a byte of a
  class the encoding does not use.
\<close>

datatype src = Data nat | NData nat | Tie bool | Bus nat | NBus nat | Stray u8

definition decode_src :: "u8 \<Rightarrow> src" where
  "decode_src s =
     (if BSRC_CLASS s = BSRC_C_DATA then Data (BSRC_IDX s)
      else if BSRC_CLASS s = BSRC_C_NDATA then NData (BSRC_IDX s)
      else if BSRC_CLASS s = BSRC_C_TIE then Tie (odd (BSRC_IDX s))
      else if BSRC_CLASS s = BSRC_C_BUS then Bus (BSRC_IDX s)
      else if BSRC_CLASS s = BSRC_C_NBUS then NBus (BSRC_IDX s)
      else Stray s)"

fun src_fits :: "nat \<Rightarrow> src \<Rightarrow> bool" where
  "src_fits nb (Data n) = (n < nb)"
| "src_fits nb (NData n) = (n < nb)"
| "src_fits nb (Tie h) = True"
| "src_fits nb (Bus k) = (k < BUS_COUNT)"
| "src_fits nb (NBus k) = (k < BUS_COUNT)"
| "src_fits nb (Stray s) = False"

definition src_ok :: "nat \<Rightarrow> u8 \<Rightarrow> bool" where
  "src_ok nb s \<longleftrightarrow> src_fits nb (decode_src s) \<and>
     (BSRC_CLASS s = BSRC_C_TIE \<longrightarrow> s = BSRC_LOW \<or> s = BSRC_HIGH)"

text \<open>
  A usable matrix: what \<open>bend_sanitize\<close> promises. The pins below \<open>nbits\<close> are the ones the
  engine reads.
\<close>

definition bend_ok :: "bend_t \<Rightarrow> bool" where
  "bend_ok b \<longleftrightarrow> bend_shape b \<and> 2 \<le> unat (b_nbits b) \<and> unat (b_nbits b) \<le> BEND_MAX_BITS \<and>
     (\<forall>i < unat (b_nbits b). src_ok (unat (b_nbits b)) (b_route b ! i)) \<and>
     b_bayer b \<le> 4 \<and> b_hdiv b \<le> 12 \<and> b_vdiv b \<le> 12 \<and>
     unat (b_trash_type b) < TRASH_COUNT \<and> b_trash_rate b \<le> 12 \<and>
     1 \<le> b_depth b \<and> unat (b_depth b) \<le> BEND_MAX_BITS \<and> b_seed b \<noteq> 0"

declare bend_shape_def [wf_defs] bend_ok_def [wf_defs] src_ok_def [wf_defs]

lemma BSRC_IDX_less [simp]: "BSRC_IDX s < 16"
  by (simp add: BSRC_IDX_def)

lemma BSRC_CLASS_or: "k < 16 \<Longrightarrow> BSRC_CLASS (c OR word_of_nat k) = c AND 0xf0"
  by (auto simp: less_16_iff BSRC_CLASS_def u8_eq_iff bit_simps)

lemma BSRC_IDX_or: "k < 16 \<Longrightarrow> BSRC_IDX (c OR word_of_nat k) = unat ((c AND 0x0f) OR word_of_nat k)"
proof -
  assume "k < 16"
  then have "(c OR word_of_nat k) AND 0x0f = (c AND 0x0f) OR (word_of_nat k :: u8)"
    by (auto simp: less_16_iff u8_eq_iff bit_simps)
  then show ?thesis by (simp add: BSRC_IDX_def)
qed

lemma unat_word_of_nat_16 [simp]: "k < 16 \<Longrightarrow> unat (word_of_nat k :: u8) = k"
  by (simp add: unat_of_nat)

lemma BSRC_CLASS_idem [simp]: "BSRC_CLASS s AND 0xf0 = BSRC_CLASS s" "BSRC_CLASS s AND 0x0f = 0"
  by (simp_all add: BSRC_CLASS_def u8_eq_iff bit_simps)

lemma BSRC_CLASS_mk [simp]:
  assumes "k < 16"
  shows "BSRC_CLASS (BSRC_DATA k) = BSRC_C_DATA" "BSRC_CLASS (BSRC_NDATA k) = BSRC_C_NDATA"
    "BSRC_CLASS (BSRC_BUS k) = BSRC_C_BUS" "BSRC_CLASS (BSRC_NBUS k) = BSRC_C_NBUS"
    "BSRC_CLASS (BSRC_CLASS s OR word_of_nat k) = BSRC_CLASS s"
  unfolding BSRC_DATA_def BSRC_NDATA_def BSRC_BUS_def BSRC_NBUS_def
  using assms by (simp_all only: BSRC_CLASS_or BSRC_CLASS_idem) simp_all

lemma BSRC_IDX_mk [simp]:
  assumes "k < 16"
  shows "BSRC_IDX (BSRC_DATA k) = k" "BSRC_IDX (BSRC_NDATA k) = k"
    "BSRC_IDX (BSRC_BUS k) = k" "BSRC_IDX (BSRC_NBUS k) = k"
    "BSRC_IDX (BSRC_CLASS s OR word_of_nat k) = k"
  unfolding BSRC_DATA_def BSRC_NDATA_def BSRC_BUS_def BSRC_NBUS_def
  using assms by (simp_all only: BSRC_IDX_or BSRC_CLASS_idem) simp_all

lemma tie_simps [simp]:
  "BSRC_CLASS BSRC_LOW = BSRC_C_TIE" "BSRC_CLASS BSRC_HIGH = BSRC_C_TIE"
  "BSRC_IDX BSRC_LOW = 0" "BSRC_IDX BSRC_HIGH = 1"
  by (simp_all add: BSRC_CLASS_def BSRC_IDX_def BSRC_LOW_def BSRC_HIGH_def)

lemma decode_mk [simp]:
  assumes "k < 16"
  shows "decode_src (BSRC_DATA k) = Data k" "decode_src (BSRC_NDATA k) = NData k"
    "decode_src (BSRC_BUS k) = Bus k" "decode_src (BSRC_NBUS k) = NBus k"
  using assms by (simp_all add: decode_src_def)

lemma decode_tie [simp]:
  "decode_src BSRC_LOW = Tie False" "decode_src BSRC_HIGH = Tie True"
  by (simp_all add: decode_src_def)

lemma src_eqI: "BSRC_CLASS s = BSRC_CLASS t \<Longrightarrow> BSRC_IDX s = BSRC_IDX t \<Longrightarrow> s = t"
  by (metis BSRC_CLASS_def BSRC_IDX_def u8_split_nibbles unsigned_word_eqI)

lemma src_ok_mk [simp]:
  assumes "k < 16"
  shows "src_ok nb (BSRC_DATA k) \<longleftrightarrow> k < nb" "src_ok nb (BSRC_NDATA k) \<longleftrightarrow> k < nb"
    "src_ok nb (BSRC_BUS k) \<longleftrightarrow> k < BUS_COUNT" "src_ok nb (BSRC_NBUS k) \<longleftrightarrow> k < BUS_COUNT"
  using assms by (simp_all add: src_ok_def)

lemma src_ok_tie [simp]: "src_ok nb BSRC_LOW" "src_ok nb BSRC_HIGH"
  by (simp_all add: src_ok_def)

lemma src_ok_cases:
  assumes "src_ok nb s" and "nb \<le> 16"
  obtains (data) k where "s = BSRC_DATA k" "k < nb"
  | (ndata) k where "s = BSRC_NDATA k" "k < nb"
  | (low) "s = BSRC_LOW" | (high) "s = BSRC_HIGH"
  | (bus) k where "s = BSRC_BUS k" "k < BUS_COUNT"
  | (nbus) k where "s = BSRC_NBUS k" "k < BUS_COUNT"
proof -
  have l: "BSRC_IDX s < 16" by simp
  note mk = BSRC_CLASS_mk(1-4)[OF l] BSRC_IDX_mk(1-4)[OF l]
  consider "BSRC_CLASS s = BSRC_C_DATA" | "BSRC_CLASS s = BSRC_C_NDATA" | "BSRC_CLASS s = BSRC_C_TIE"
    | "BSRC_CLASS s = BSRC_C_BUS" | "BSRC_CLASS s = BSRC_C_NBUS"
    using assms(1) by (auto simp: src_ok_def decode_src_def split: if_splits)
  then show thesis
  proof cases
    case 1
    have eq: "s = BSRC_DATA (BSRC_IDX s)" by (rule src_eqI) (simp_all add: mk 1)
    from 1 assms show thesis by (intro data[OF eq]) (auto simp: src_ok_def decode_src_def)
  next
    case 2
    have eq: "s = BSRC_NDATA (BSRC_IDX s)" by (rule src_eqI) (simp_all add: mk 2)
    from 2 assms show thesis by (intro ndata[OF eq]) (auto simp: src_ok_def decode_src_def)
  next
    case 3
    with assms(1) low high show thesis by (auto simp: src_ok_def)
  next
    case 4
    have eq: "s = BSRC_BUS (BSRC_IDX s)" by (rule src_eqI) (simp_all add: mk 4)
    from 4 assms show thesis by (intro bus[OF eq]) (auto simp: src_ok_def decode_src_def)
  next
    case 5
    have eq: "s = BSRC_NBUS (BSRC_IDX s)" by (rule src_eqI) (simp_all add: mk 5)
    from 5 assms show thesis by (intro nbus[OF eq]) (auto simp: src_ok_def decode_src_def)
  qed
qed

subsection \<open>Presets and polarity\<close>

definition swap_list :: "'a list \<Rightarrow> nat \<Rightarrow> nat \<Rightarrow> 'a list" where
  "swap_list xs i j = xs[i := xs ! j, j := xs ! i]"

definition bend_preset_swap :: "bend_t \<Rightarrow> int \<Rightarrow> int \<Rightarrow> bend_t" where
  "bend_preset_swap b a c =
     (let n = int (unat (b_nbits b)) in
      if a < 0 \<or> c < 0 \<or> n \<le> a \<or> n \<le> c \<or> a = c then b
      else b\<lparr>b_route := swap_list (b_route b) (nat a) (nat c)\<rparr>)"

definition bend_preset_rotate :: "bend_t \<Rightarrow> int \<Rightarrow> bend_t" where
  "bend_preset_rotate b k =
     (let n = unat (b_nbits b); old = b_route b in
      b\<lparr>b_route :=
          map (\<lambda>i. old ! nat (((int i - k) smod int n + int n) smod int n)) [0..<n] @ drop n old\<rparr>)"

definition bend_preset_reverse :: "bend_t \<Rightarrow> bend_t" where
  "bend_preset_reverse b =
     (let n = unat (b_nbits b); old = b_route b in
      b\<lparr>b_route := map (\<lambda>i. old ! (n - 1 - i)) [0..<n] @ drop n old\<rparr>)"

definition bend_src_invert :: "u8 \<Rightarrow> u8" where
  "bend_src_invert src =
     (let idx = BSRC_IDX src; cls = BSRC_CLASS src in
      if cls = BSRC_C_DATA then BSRC_NDATA idx
      else if cls = BSRC_C_NDATA then BSRC_DATA idx
      else if cls = BSRC_C_TIE then (if odd idx then BSRC_LOW else BSRC_HIGH)
      else if cls = BSRC_C_BUS then BSRC_NBUS idx
      else if cls = BSRC_C_NBUS then BSRC_BUS idx
      else src)"

definition bend_preset_xor :: "bend_t \<Rightarrow> u32 \<Rightarrow> bend_t" where
  "bend_preset_xor b msk =
     (let n = unat (b_nbits b); old = b_route b in
      b\<lparr>b_route :=
          map (\<lambda>i. if msk AND push_bit i 1 = 0 then old ! i else bend_src_invert (old ! i)) [0..<n]
          @ drop n old\<rparr>)"

definition bend_preset_tie :: "bend_t \<Rightarrow> int \<Rightarrow> bool \<Rightarrow> bend_t" where
  "bend_preset_tie b a high =
     (if a < 0 \<or> int (unat (b_nbits b)) \<le> a then b
      else b\<lparr>b_route := (b_route b)[nat a := (if high then BSRC_HIGH else BSRC_LOW)]\<rparr>)"

text \<open>\<open>bend_simplify\<close> returns the matrix and the number of pins it changed.\<close>

definition is_bus_class :: "u8 \<Rightarrow> bool" where
  "is_bus_class s \<longleftrightarrow> BSRC_CLASS s = BSRC_C_BUS \<or> BSRC_CLASS s = BSRC_C_NBUS"

definition simplify_src :: "nat \<Rightarrow> nat \<Rightarrow> u8 \<Rightarrow> u8" where
  "simplify_src n i src =
     (if \<not> is_bus_class src then src
      else let pin = (if i < n then i else n - 1) in
        (if BSRC_CLASS src = BSRC_C_NBUS then BSRC_NDATA pin else BSRC_DATA pin))"

definition bend_simplify :: "bend_t \<Rightarrow> bend_t \<times> nat" where
  "bend_simplify b =
     (let n = (if 2 \<le> unat (b_nbits b) \<and> unat (b_nbits b) \<le> BEND_MAX_BITS
               then unat (b_nbits b) else BEND_MAX_BITS) in
      (b\<lparr>b_route := map (\<lambda>i. simplify_src n i (b_route b ! i)) [0..<BEND_MAX_BITS]\<rparr>,
       length (filter (\<lambda>i. is_bus_class (b_route b ! i)) [0..<BEND_MAX_BITS])))"

subsection \<open>Trash generators\<close>

definition bend_trash_seed :: "bend_t \<Rightarrow> u32 \<Rightarrow> u32 \<Rightarrow> u32" where
  "bend_trash_seed b row ob =
     (if b_trash_type b = TRASH_SEED
      then xs32 (b_seed b XOR (row * 0x9e3779b9) XOR push_bit 16 ob XOR ob)
      else xs32 (b_seed b XOR (row * 0x9e3779b9)))"

text \<open>The step returns the new state and the noise word.\<close>

definition bend_trash_step :: "bend_t \<Rightarrow> u32 \<Rightarrow> u32 \<Rightarrow> u32 \<times> u32" where
  "bend_trash_step b state pos =
     (let rate = unat (b_trash_rate b AND 15); t = b_trash_type b in
      if t = TRASH_LFSRN then
        (let state = (if pos AND (push_bit rate 1 - 1) = 0 then xs32 state else state)
         in (state, state))
      else if t = TRASH_RAMP then (state, drop_bit rate pos)
      else if t = TRASH_BURST then
        (let state = xs32 state
         in (state, if drop_bit (rate + 5) pos AND 1 \<noteq> 0 then state else 0))
      else (let state = xs32 state in (state, state)))"

subsection \<open>The gate establishes a usable matrix and respects one\<close>

lemma sanitize_src_ok:
  assumes "2 \<le> nb" "nb \<le> 16" "i < 16"
  shows "src_ok nb (sanitize_src nb i s)"
proof -
  have cls: "src_ok nb (BSRC_CLASS s OR word_of_nat k)"
    if "k < 16" "BSRC_CLASS s = BSRC_C_DATA \<or> BSRC_CLASS s = BSRC_C_NDATA" "k < nb" for k
    using that src_ok_mk(1,2)[of k nb] by (auto simp: BSRC_DATA_def BSRC_NDATA_def)
  have bus: "src_ok nb (BSRC_CLASS s OR word_of_nat 7)"
    if "BSRC_CLASS s = BSRC_C_BUS \<or> BSRC_CLASS s = BSRC_C_NBUS"
    using that src_ok_mk(3,4)[of 7 nb] by (auto simp: BSRC_BUS_def BSRC_NBUS_def)
  show ?thesis
    using assms cls[of "nb - 1"] bus
    by (auto simp: sanitize_src_def Let_def src_ok_def[of nb s] decode_src_def[of s])
qed

lemma sanitize_src_id:
  assumes "src_ok nb s" "nb \<le> 16"
  shows "sanitize_src nb i s = s"
  using assms
proof (cases rule: src_ok_cases)
qed (use assms(2) in \<open>simp_all add: sanitize_src_def Let_def\<close>)

lemma length_route_reset [simp]: "length (b_route (bend_reset b nb)) = BEND_MAX_BITS"
  by (simp add: bend_reset_def)

lemma bend_reset_ok: "2 \<le> nb \<Longrightarrow> nb \<le> 16 \<Longrightarrow> bend_ok (bend_reset b nb)"
  by (auto simp: wf_defs bend_reset_def BEND_MAX_BITS_def unat_of_nat)

lemma nbits_range_iff:
  "\<not> (b_nbits b < 2 \<or> word_of_nat BEND_MAX_BITS < b_nbits b) \<longleftrightarrow>
     2 \<le> unat (b_nbits b) \<and> unat (b_nbits b) \<le> 16"
  by (simp add: BEND_MAX_BITS_def word_less_nat_alt not_less)

lemma bend_sanitize_ok:
  assumes "2 \<le> nb" "nb \<le> 16" "bend_shape b"
  shows "bend_ok (bend_sanitize b nb)"
proof (cases "b_nbits b < 2 \<or> word_of_nat BEND_MAX_BITS < b_nbits b")
  case True
  with assms show ?thesis by (simp add: bend_sanitize_def bend_reset_ok)
next
  case False
  then have r: "2 \<le> unat (b_nbits b)" "unat (b_nbits b) \<le> 16"
    using nbits_range_iff by blast+
  have "unat (if b_depth b < 1 \<or> word_of_nat BEND_MAX_BITS < b_depth b then 3 else b_depth b)
          \<le> BEND_MAX_BITS"
    by (simp add: BEND_MAX_BITS_def word_less_nat_alt)
  with False r assms(3) show ?thesis
    by (auto simp: bend_sanitize_def bend_ok_def bend_shape_def BEND_MAX_BITS_def sanitize_src_ok
        word_le_nat_alt word_less_nat_alt)
qed

lemma bend_ok_shape: "bend_ok b \<Longrightarrow> bend_shape b"
  by (simp add: bend_ok_def)

definition bend_view :: "bend_t \<Rightarrow> bend_t" where
  "bend_view b = b\<lparr>b_route := take (unat (b_nbits b)) (b_route b)\<rparr>"

lemma bend_sanitize_view:
  assumes "bend_ok b"
  shows "bend_view (bend_sanitize b nb) = bend_view b"
proof -
  have r: "\<not> (b_nbits b < 2 \<or> word_of_nat BEND_MAX_BITS < b_nbits b)"
    using assms by (simp only: nbits_range_iff) (simp add: bend_ok_def BEND_MAX_BITS_def)
  have n16: "unat (b_nbits b) \<le> 16" "length (b_route b) = 16"
    using assms by (simp_all add: bend_ok_def bend_shape_def BEND_MAX_BITS_def)
  have "take (unat (b_nbits b)) (map (\<lambda>i. sanitize_src (unat (b_nbits b)) i (b_route b ! i)) [0..<16])
      = take (unat (b_nbits b)) (b_route b)"
    using n16 assms by (intro nth_equalityI) (auto simp: bend_ok_def sanitize_src_id)
  moreover have "\<not> 4 < b_bayer b" "\<not> 12 < b_hdiv b" "\<not> 12 < b_vdiv b" "\<not> 5 \<le> unat (b_trash_type b)"
    "\<not> 12 < b_trash_rate b" "\<not> (b_depth b < 1 \<or> word_of_nat BEND_MAX_BITS < b_depth b)" "b_seed b \<noteq> 0"
    using assms by (auto simp: bend_ok_def word_le_nat_alt word_less_nat_alt BEND_MAX_BITS_def)
  ultimately show ?thesis
    using r by (simp add: bend_sanitize_def bend_view_def BEND_MAX_BITS_def)
qed

interpretation bend_gate: gate "\<lambda>(nb, b). (nb, bend_sanitize b nb)"
  "\<lambda>(nb, b). 2 \<le> nb \<and> nb \<le> 16 \<and> bend_shape b"
  "\<lambda>(nb, b). 2 \<le> nb \<and> nb \<le> 16 \<and> bend_ok b"
  "\<lambda>(nb, b). bend_view b"
  by unfold_locales (auto simp: bend_sanitize_ok bend_sanitize_view bend_ok_shape)

subsection \<open>Edits of the route keep a usable matrix usable\<close>

lemma bend_ok_route:
  assumes "bend_ok b" "length r = BEND_MAX_BITS"
    and "\<And>i. i < unat (b_nbits b) \<Longrightarrow> src_ok (unat (b_nbits b)) (r ! i)"
  shows "bend_ok (b\<lparr>b_route := r\<rparr>)"
  using assms by (simp add: bend_ok_def bend_shape_def)

lemma bend_okD:
  assumes "bend_ok b"
  shows "unat (b_nbits b) \<le> 16" "2 \<le> unat (b_nbits b)" "length (b_route b) = 16"
    "\<And>i. i < unat (b_nbits b) \<Longrightarrow> src_ok (unat (b_nbits b)) (b_route b ! i)"
  using assms by (simp_all add: bend_ok_def bend_shape_def BEND_MAX_BITS_def)

lemma length_swap_list [simp]: "length (swap_list xs i j) = length xs"
  by (simp add: swap_list_def)

lemma nth_swap_list:
  "\<lbrakk>i < length xs; j < length xs; k < length xs\<rbrakk> \<Longrightarrow>
     swap_list xs i j ! k = (if k = j then xs ! i else if k = i then xs ! j else xs ! k)"
  by (simp add: swap_list_def nth_list_update)

lemma swap_list_twice: "\<lbrakk>i < length xs; j < length xs\<rbrakk> \<Longrightarrow> swap_list (swap_list xs i j) i j = xs"
  by (rule nth_equalityI) (auto simp: nth_swap_list)

lemma bend_preset_swap_ok: "bend_ok b \<Longrightarrow> bend_ok (bend_preset_swap b a c)"
  using bend_okD[of b]
  by (auto simp: bend_preset_swap_def Let_def nth_swap_list BEND_MAX_BITS_def intro!: bend_ok_route)

lemma bend_preset_swap_twice:
  "bend_ok b \<Longrightarrow> bend_preset_swap (bend_preset_swap b a c) a c = b"
  using bend_okD[of b]
  by (cases "a < 0 \<or> c < 0 \<or> int (unat (b_nbits b)) \<le> a \<or> int (unat (b_nbits b)) \<le> c \<or> a = c")
     (auto simp: bend_preset_swap_def Let_def swap_list_twice)

lemma smod_wrap:
  assumes "0 < (n::int)"
  shows "(z smod n + n) smod n = z mod n"
proof -
  have "(z smod n) mod n = z mod n"
  proof (cases "0 \<le> z")
    case True
    with assms show ?thesis by (simp add: smod_mod_positive)
  next
    case False
    with assms have "z smod n = - ((- z) mod n)"
      by (simp add: signed_modulo_int_def)
    then show ?thesis by (simp add: mod_minus_eq)
  qed
  moreover have "0 \<le> z smod n + n"
    using smod_int_range[of n z] assms by auto
  ultimately show ?thesis
    using assms by (simp add: smod_mod_positive)
qed

lemma nth_rotate_route:
  assumes "i < unat (b_nbits b)" "unat (b_nbits b) \<le> length (b_route b)"
  shows "b_route (bend_preset_rotate b k) ! i = b_route b ! nat ((int i - k) mod int (unat (b_nbits b)))"
  using assms by (simp add: bend_preset_rotate_def Let_def nth_append smod_wrap)

lemma length_rotate_route [simp]:
  "unat (b_nbits b) \<le> length (b_route b) \<Longrightarrow>
     length (b_route (bend_preset_rotate b k)) = length (b_route b)"
  by (simp add: bend_preset_rotate_def Let_def)

lemma rotate_frame [simp]:
  "b_nbits (bend_preset_rotate b k) = b_nbits b"
  "bend_preset_rotate b k = b\<lparr>b_route := b_route (bend_preset_rotate b k)\<rparr>"
  "drop (unat (b_nbits b)) (b_route (bend_preset_rotate b k)) = drop (unat (b_nbits b)) (b_route b)"
  by (simp_all add: bend_preset_rotate_def Let_def)

declare rotate_frame(2) [simp del]

lemma bend_preset_rotate_ok:
  assumes "bend_ok b"
  shows "bend_ok (bend_preset_rotate b k)"
proof -
  note d = bend_okD[OF assms]
  have "bend_ok (b\<lparr>b_route := b_route (bend_preset_rotate b k)\<rparr>)"
    using assms d by (intro bend_ok_route) (simp_all add: nth_rotate_route nat_less_iff BEND_MAX_BITS_def)
  then show ?thesis by (simp flip: rotate_frame(2))
qed

lemma route_eqI:
  assumes "length r = length r'" "n \<le> length r" "\<And>i. i < n \<Longrightarrow> r ! i = r' ! i" "drop n r = drop n r'"
  shows "r = r'"
proof (rule nth_equalityI)
  fix i assume i: "i < length r"
  show "r ! i = r' ! i"
  proof (cases "i < n")
    case False
    have "r ! i = drop n r ! (i - n)" using False assms(2) by simp
    also have "\<dots> = r' ! i" using False assms(1,2,4) by simp
    finally show ?thesis .
  qed (rule assms(3))
qed (rule assms(1))

lemma bend_preset_rotate_add:
  assumes "bend_ok b"
  shows "bend_preset_rotate (bend_preset_rotate b k) l = bend_preset_rotate b (k + l)"
proof -
  note d = bend_okD[OF assms]
  define n where "n = unat (b_nbits b)"
  have pos: "0 < int n" using d by (simp add: n_def)
  have "b_route (bend_preset_rotate (bend_preset_rotate b k) l) = b_route (bend_preset_rotate b (k + l))"
  proof (rule route_eqI[where n = n])
    fix i assume i: "i < n"
    define j where "j = nat ((int i - l) mod int n)"
    have j: "j < n" "int j = (int i - l) mod int n"
      using pos by (simp_all add: j_def nat_less_iff)
    have "((int i - l) mod int n - k) mod int n = (int i - (k + l)) mod int n"
      by (simp add: mod_diff_left_eq algebra_simps)
    then show "b_route (bend_preset_rotate (bend_preset_rotate b k) l) ! i =
        b_route (bend_preset_rotate b (k + l)) ! i"
      using i j d by (simp add: nth_rotate_route n_def[symmetric] j_def[symmetric])
  qed (use d in \<open>simp_all add: n_def\<close>,
       metis rotate_frame(1) rotate_frame(3))
  then show ?thesis
    by (metis (no_types, lifting) rotate_frame(2) bend_t.surjective bend_t.update_convs(1))
qed

lemma bend_preset_rotate_0: "bend_ok b \<Longrightarrow> bend_preset_rotate b 0 = b"
proof -
  assume a: "bend_ok b"
  note d = bend_okD[OF a]
  have "b_route (bend_preset_rotate b 0) = b_route b"
  proof (rule route_eqI[where n = "unat (b_nbits b)"])
    fix i assume "i < unat (b_nbits b)"
    then show "b_route (bend_preset_rotate b 0) ! i = b_route b ! i"
      using d(1,3) by (simp add: nth_rotate_route flip: of_nat_mod)
  qed (use d in simp_all)
  then show ?thesis by (simp add: bend_preset_rotate_def Let_def)
qed

lemma bend_preset_reverse_ok: "bend_ok b \<Longrightarrow> bend_ok (bend_preset_reverse b)"
  using bend_okD[of b]
  by (auto simp: bend_preset_reverse_def Let_def nth_append BEND_MAX_BITS_def intro!: bend_ok_route)

lemma bend_preset_reverse_twice:
  assumes "bend_ok b"
  shows "bend_preset_reverse (bend_preset_reverse b) = b"
proof -
  note d = bend_okD[OF assms]
  have "b_route (bend_preset_reverse (bend_preset_reverse b)) = b_route b"
    using d by (intro nth_equalityI) (auto simp: bend_preset_reverse_def Let_def nth_append)
  then show ?thesis by (simp add: bend_preset_reverse_def Let_def)
qed

subsection \<open>Inversion is total, closed and its own inverse\<close>

fun flip_src :: "src \<Rightarrow> src" where
  "flip_src (Data n) = NData n"
| "flip_src (NData n) = Data n"
| "flip_src (Tie h) = Tie (\<not> h)"
| "flip_src (Bus k) = NBus k"
| "flip_src (NBus k) = Bus k"
| "flip_src (Stray s) = Stray s"

lemma decode_bend_src_invert: "decode_src (bend_src_invert s) = flip_src (decode_src s)"
  by (auto simp: bend_src_invert_def Let_def decode_src_def[of s])

lemma bend_src_invert_ok: "src_ok nb s \<Longrightarrow> nb \<le> 16 \<Longrightarrow> src_ok nb (bend_src_invert s)"
  by (erule (1) src_ok_cases) (simp_all add: bend_src_invert_def Let_def)

lemma bend_src_invert_twice: "src_ok nb s \<Longrightarrow> nb \<le> 16 \<Longrightarrow> bend_src_invert (bend_src_invert s) = s"
  by (erule (1) src_ok_cases) (simp_all add: bend_src_invert_def Let_def)

lemma nth_xor_route:
  assumes "i < unat (b_nbits b)" "unat (b_nbits b) \<le> length (b_route b)"
  shows "b_route (bend_preset_xor b m) ! i =
    (if m AND push_bit i 1 = 0 then b_route b ! i else bend_src_invert (b_route b ! i))"
  using assms by (simp add: bend_preset_xor_def Let_def nth_append)

lemma xor_frame [simp]:
  "b_nbits (bend_preset_xor b m) = b_nbits b"
  "unat (b_nbits b) \<le> length (b_route b) \<Longrightarrow>
     length (b_route (bend_preset_xor b m)) = length (b_route b)"
  "drop (unat (b_nbits b)) (b_route (bend_preset_xor b m)) = drop (unat (b_nbits b)) (b_route b)"
  by (simp_all add: bend_preset_xor_def Let_def)

lemma bend_preset_xor_ok:
  assumes "bend_ok b"
  shows "bend_ok (bend_preset_xor b m)"
proof -
  note d = bend_okD[OF assms]
  have "bend_ok (b\<lparr>b_route := b_route (bend_preset_xor b m)\<rparr>)"
    using assms d by (intro bend_ok_route) (simp_all add: nth_xor_route bend_src_invert_ok BEND_MAX_BITS_def)
  then show ?thesis by (simp add: bend_preset_xor_def Let_def)
qed

lemma bend_preset_xor_twice:
  assumes "bend_ok b"
  shows "bend_preset_xor (bend_preset_xor b m) m = b"
proof -
  note d = bend_okD[OF assms]
  have "b_route (bend_preset_xor (bend_preset_xor b m) m) = b_route b"
  proof (rule route_eqI[where n = "unat (b_nbits b)"])
    fix i assume "i < unat (b_nbits b)"
    then show "b_route (bend_preset_xor (bend_preset_xor b m) m) ! i = b_route b ! i"
      using d by (simp add: nth_xor_route) (metis bend_src_invert_twice)
  qed (use d in \<open>simp_all\<close>, metis xor_frame(1,3))
  then show ?thesis by (simp add: bend_preset_xor_def Let_def)
qed

lemma bend_preset_tie_ok: "bend_ok b \<Longrightarrow> bend_ok (bend_preset_tie b a h)"
  using bend_okD[of b]
  by (auto simp: bend_preset_tie_def nth_list_update BEND_MAX_BITS_def intro!: bend_ok_route)

subsection \<open>Restricting a matrix to the pure sources\<close>

lemma simplify_src_pure: "i < 16 \<Longrightarrow> n \<le> 16 \<Longrightarrow> \<not> is_bus_class (simplify_src n i s)"
  by (auto simp: simplify_src_def Let_def is_bus_class_def)

lemma simplify_src_ok:
  "\<lbrakk>src_ok nb s; i < nb; nb \<le> 16\<rbrakk> \<Longrightarrow> src_ok nb (simplify_src nb i s)"
  by (simp add: simplify_src_def Let_def)

lemma simplify_src_id: "\<not> is_bus_class s \<Longrightarrow> simplify_src n i s = s"
  by (simp add: simplify_src_def)

lemma simplify_frame [simp]:
  "b_nbits (fst (bend_simplify b)) = b_nbits b"
  "length (b_route (fst (bend_simplify b))) = BEND_MAX_BITS"
  by (simp_all add: bend_simplify_def Let_def)

lemma nth_simplify_route:
  "\<lbrakk>2 \<le> unat (b_nbits b); unat (b_nbits b) \<le> 16; i < 16\<rbrakk> \<Longrightarrow>
     b_route (fst (bend_simplify b)) ! i = simplify_src (unat (b_nbits b)) i (b_route b ! i)"
  by (simp add: bend_simplify_def Let_def BEND_MAX_BITS_def)

lemma bend_simplify_ok: "bend_ok b \<Longrightarrow> bend_ok (fst (bend_simplify b))"
  using bend_okD[of b]
  by (auto simp: bend_simplify_def Let_def BEND_MAX_BITS_def simplify_src_ok intro!: bend_ok_route)

lemma bend_simplify_pure:
  "i < 16 \<Longrightarrow> \<not> is_bus_class (b_route (fst (bend_simplify b)) ! i)"
  by (auto simp: bend_simplify_def Let_def BEND_MAX_BITS_def simplify_src_pure)

lemma bend_simplify_fix:
  assumes "length (b_route b) = 16" "\<And>i. i < 16 \<Longrightarrow> \<not> is_bus_class (b_route b ! i)"
  shows "bend_simplify b = (b, 0)"
proof -
  have "map (\<lambda>i. simplify_src n i (b_route b ! i)) [0..<16] = b_route b" for n
    using assms by (intro nth_equalityI) (auto simp: simplify_src_id)
  moreover have "filter (\<lambda>i. is_bus_class (b_route b ! i)) [0..<16] = []"
    using assms(2) by (auto simp: filter_empty_conv)
  ultimately show ?thesis
    by (simp add: bend_simplify_def Let_def BEND_MAX_BITS_def)
qed

end
