(* ===== verification/BendRandom.thy ===== *)
theory BendRandom
  imports BendModel
begin

section \<open>Random matrices and source names (core/bend.c)\<close>

text \<open>
  \<open>bend_random\<close>, \<open>bend_mutate\<close> and \<open>bend_src_name\<close>. The C remainder by zero is undefined,
  and \<open>bend_random\<close> takes a remainder by \<open>n - 2\<close>: the generator is therefore an option,
  \<open>None\<close> where the divisor is zero. The theorems say when that happens (\<open>n = 2\<close> only) and
  that otherwise every seed gives a usable matrix, pure when the buses are not allowed.
\<close>

subsection \<open>The generator\<close>

definition random_bit :: "nat \<Rightarrow> u32 \<Rightarrow> (nat \<times> u32) option" where
  "random_bit n s =
     (let s = xs32 s; pin = unat (s mod word_of_nat n) in
      if n - 2 \<le> pin then
        (let s = xs32 s in
         if s AND 3 \<noteq> 0 then
           (if n = 2 then None else Some (unat (s mod word_of_nat (n - 2)), s))
         else Some (pin, s))
      else Some (pin, s))"

definition tame_buses :: "nat list" where
  "tame_buses = [BUS_HCLK, BUS_HCLKN, BUS_VCLK, BUS_VCLKN, BUS_DIAG, BUS_OB, BUS_HOLD, BUS_VHOLD]"

definition set_pin :: "nat \<Rightarrow> u8 \<Rightarrow> bend_t \<Rightarrow> bend_t" where
  "set_pin i s b = b\<lparr>b_route := (b_route b)[i := s]\<rparr>"

definition random_apply :: "nat \<Rightarrow> nat \<Rightarrow> nat \<Rightarrow> bend_t \<Rightarrow> u32 \<Rightarrow> bend_t \<times> u32" where
  "random_apply n pin roll b s =
     (if roll < 45 then
        (let s = xs32 s; j = unat (s mod word_of_nat n)
         in (b\<lparr>b_route := swap_list (b_route b) pin j\<rparr>, s))
      else if roll < 63 then (set_pin pin (bend_src_invert (b_route b ! pin)) b, s)
      else if roll < 80 then
        (let s = xs32 s in (set_pin pin (if s AND 1 \<noteq> 0 then BSRC_HIGH else BSRC_LOW) b, s))
      else if roll < 94 then
        (let s = xs32 s in (set_pin pin (BSRC_BUS (tame_buses ! unat (s mod 8))) b, s))
      else
        (let s = xs32 s;
             b = set_pin pin (BSRC_BUS (if s AND 1 \<noteq> 0 then BUS_NOISE else BUS_TAP)) b;
             s = xs32 s;
             b = b\<lparr>b_trash_type := ucast (s mod word_of_nat TRASH_COUNT)\<rparr>;
             s = xs32 s
         in (b\<lparr>b_trash_rate := ucast (s mod 6)\<rparr>, s)))"

definition random_edge :: "nat \<Rightarrow> bool \<Rightarrow> bend_t \<times> u32 \<Rightarrow> (bend_t \<times> u32) option" where
  "random_edge n allow_bus = (\<lambda>(b, s). do {
     (pin, s) \<leftarrow> random_bit n s;
     let s = xs32 s;
     let roll = unat (s mod 100);
     let roll = (if allow_bus then roll else roll * 80 div 100);
     Some (random_apply n pin roll b s)
   })"

definition random_knobs :: "bend_t \<times> u32 \<Rightarrow> bend_t \<times> u32" where
  "random_knobs = (\<lambda>(b, s).
     (let s = xs32 s; b = b\<lparr>b_hdiv := ucast (1 + s mod 6)\<rparr>;
          s = xs32 s; b = b\<lparr>b_vdiv := ucast (1 + s mod 6)\<rparr>;
          s = xs32 s; b = b\<lparr>b_tap_dx := word_of_int (int (unat (s mod 64)) - 32)\<rparr>;
          s = xs32 s; b = b\<lparr>b_tap_dy := word_of_int (int (unat (s mod 8)) - 4)\<rparr>
      in (b, s)))"

text \<open>The outer loop: at most eight attempts, leaving at the first matrix that does something.\<close>

primrec random_guard ::
    "nat \<Rightarrow> nat \<Rightarrow> nat \<Rightarrow> bool \<Rightarrow> bend_t \<times> u32 \<Rightarrow> (bend_t \<times> u32) option" where
  "random_guard 0 n depth allow_bus st = Some st"
| "random_guard (Suc g) n depth allow_bus st = do {
     let (b, s) = st;
     let b = (bend_reset b n)\<lparr>b_nbits := word_of_nat n, b_seed := s, b_depth := word_of_nat depth\<rparr>;
     st \<leftarrow> for_range 0 depth (\<lambda>_. random_edge n allow_bus) (b, s);
     let (b, s) = random_knobs st;
     if \<not> bend_is_identity b then Some (b, s)
     else random_guard g n depth allow_bus (b, xs32 s)
   }"

definition bend_random :: "bend_t \<Rightarrow> u32 \<Rightarrow> int \<Rightarrow> bool \<Rightarrow> (bend_t \<times> u32) option" where
  "bend_random b seed depth allow_bus =
     (let s = (if seed \<noteq> 0 then seed else 0x1234567); n = unat (b_nbits b) in
      if n < 2 then Some (b, s)
      else let depth = (if depth < 1 then 1 else depth);
               depth = (if int n < depth then int n else depth)
           in random_guard 8 n (nat depth) allow_bus (b, s))"

definition bend_mutate :: "bend_t \<Rightarrow> u32 \<Rightarrow> bool \<Rightarrow> bend_t" where
  "bend_mutate b seed allow_bus =
     (let s = xs32 seed; n = unat (b_nbits b) in
      if n < 2 then b
      else let pin = unat (s mod word_of_nat n);
               s = xs32 s;
               roll = unat (s mod 100);
               roll = (if allow_bus then roll else roll * 90 div 100)
           in if roll < 50 then
                (let s = xs32 s; j = unat (s mod word_of_nat n)
                 in b\<lparr>b_route := swap_list (b_route b) pin j\<rparr>)
              else if roll < 75 then set_pin pin (bend_src_invert (b_route b ! pin)) b
              else if roll < 90 then set_pin pin (BSRC_DATA pin) b
              else (let s = xs32 s in set_pin pin (BSRC_BUS (unat (s mod word_of_nat BUS_COUNT))) b))"

subsection \<open>The generator's step never reaches zero\<close>

lemma xor_push_bit_nonzero:
  fixes x :: "'a::len word"
  assumes "x \<noteq> 0" "0 < k"
  shows "x XOR push_bit k x \<noteq> 0"
proof
  assume "x XOR push_bit k x = 0"
  then have eq: "x = push_bit k x" by (simp add: word_xor_eq_0_iff)
  have "\<not> bit x n" for n
  proof (induction n rule: less_induct)
    case (less n)
    show ?case
    proof (cases "k \<le> n")
      case True
      have "bit x n \<longleftrightarrow> bit (push_bit k x) n" using eq by simp
      with less[of "n - k"] assms True show ?thesis by (simp add: bit_push_bit_iff)
    next
      case False
      have "bit x n \<longleftrightarrow> bit (push_bit k x) n" using eq by simp
      with False show ?thesis by (simp add: bit_push_bit_iff)
    qed
  qed
  then have "x = 0" by (intro bit_eqI) simp
  with assms show False by simp
qed

lemma xor_drop_bit_nonzero:
  fixes x :: "'a::len word"
  assumes "x \<noteq> 0" "0 < k"
  shows "x XOR drop_bit k x \<noteq> 0"
proof
  assume "x XOR drop_bit k x = 0"
  then have eq: "x = drop_bit k x" by (simp add: word_xor_eq_0_iff)
  have step: "bit x n \<longleftrightarrow> bit x (n + k)" for n
    using eq bit_drop_bit_eq[of k x] by (metis add.commute comp_apply)
  have "bit x n \<longleftrightarrow> bit x (n + j * k)" for n j
    by (induction j) (simp_all add: step[of "n + _"] algebra_simps)
  moreover have "\<not> bit x (n + LENGTH('a) * k)" for n
    using assms(2) by (intro impossible_bit) (simp add: trans_le_add2 possible_bit_def not_less)
  ultimately have "\<not> bit x n" for n by blast
  then have "x = 0" by (intro bit_eqI) simp
  with assms show False by simp
qed

lemma xs32_nonzero [simp]: "xs32 s \<noteq> 0"
  unfolding xs32_def Let_def
  by (intro xor_push_bit_nonzero xor_drop_bit_nonzero) simp_all

lemma unat_mod_word_of_nat: "\<lbrakk>0 < n; n < 2 ^ 32\<rbrakk> \<Longrightarrow> unat ((s::u32) mod word_of_nat n) < n"
  by (simp add: unat_mod unat_of_nat)

subsection \<open>Every edit keeps the matrix usable, and pure when no bus is drawn\<close>

definition pure_route :: "bend_t \<Rightarrow> bool" where
  "pure_route b \<longleftrightarrow> (\<forall>s\<in>set (b_route b). \<not> is_bus_class s)"

lemma set_pin_simps [simp]:
  "b_nbits (set_pin i s b) = b_nbits b" "b_route (set_pin i s b) = (b_route b)[i := s]"
  by (simp_all add: set_pin_def)

lemma set_pin_ok:
  "\<lbrakk>bend_ok b; i < unat (b_nbits b); src_ok (unat (b_nbits b)) s\<rbrakk> \<Longrightarrow> bend_ok (set_pin i s b)"
  using bend_okD[of b]
  by (auto simp: set_pin_def nth_list_update BEND_MAX_BITS_def intro!: bend_ok_route)

lemma swap_pins_ok:
  "\<lbrakk>bend_ok b; i < unat (b_nbits b); j < unat (b_nbits b)\<rbrakk> \<Longrightarrow>
     bend_ok (b\<lparr>b_route := swap_list (b_route b) i j\<rparr>)"
  using bend_okD[of b]
  by (auto simp: nth_swap_list BEND_MAX_BITS_def intro!: bend_ok_route)

lemma set_pin_pure: "pure_route b \<Longrightarrow> \<not> is_bus_class s \<Longrightarrow> pure_route (set_pin i s b)"
  unfolding pure_route_def set_pin_simps by (rule list_update_all)

lemma swap_list_all:
  "\<lbrakk>\<forall>x\<in>set xs. P x; i < length xs; j < length xs\<rbrakk> \<Longrightarrow> \<forall>x\<in>set (swap_list xs i j). P x"
  unfolding swap_list_def by (intro list_update_all) simp_all

lemma swap_pins_pure:
  "\<lbrakk>pure_route b; i < length (b_route b); j < length (b_route b)\<rbrakk> \<Longrightarrow>
     pure_route (b\<lparr>b_route := swap_list (b_route b) i j\<rparr>)"
  using swap_list_all[of "b_route b" "\<lambda>s. \<not> is_bus_class s" i j] by (simp add: pure_route_def)

lemma invert_not_bus: "\<not> is_bus_class s \<Longrightarrow> \<not> is_bus_class (bend_src_invert s)"
  by (auto simp: is_bus_class_def bend_src_invert_def Let_def)

lemma src_not_bus [simp]:
  "k < 16 \<Longrightarrow> \<not> is_bus_class (BSRC_DATA k)" "k < 16 \<Longrightarrow> \<not> is_bus_class (BSRC_NDATA k)"
  "\<not> is_bus_class BSRC_LOW" "\<not> is_bus_class BSRC_HIGH"
  by (simp_all add: is_bus_class_def)

lemma trash_fields_ok:
  "bend_ok b \<Longrightarrow> t < 5 \<Longrightarrow> bend_ok (b\<lparr>b_trash_type := ucast (t::u32)\<rparr>)"
  "bend_ok b \<Longrightarrow> r \<le> 12 \<Longrightarrow> bend_ok (b\<lparr>b_trash_rate := ucast (r::u32)\<rparr>)"
  by (auto simp: bend_ok_def bend_shape_def word_less_nat_alt word_le_nat_alt unsigned_ucast_eq
      take_bit_nat_eq_self)

lemma word_mod_less: "0 < m \<Longrightarrow> (s::u32) mod m < m"
  by (simp add: word_less_nat_alt unat_mod)

lemma tame_bus_less: "i < 8 \<Longrightarrow> tame_buses ! i < BUS_COUNT"
  by (auto simp: less_8_iff tame_buses_def)

lemma random_bit_total:
  assumes "3 \<le> n" "n \<le> 16"
  shows "ok (random_bit n s) (\<lambda>(pin, s'). pin < n)"
proof -
  have n: "unat (t mod word_of_nat n) < n" for t :: u32
    using assms by (intro unat_mod_word_of_nat) simp_all
  have "unat (t mod word_of_nat (n - 2)) < n - 2" for t :: u32
    by (rule unat_mod_word_of_nat) (use assms in simp_all)
  then have n2: "unat (t mod word_of_nat (n - 2)) < n" for t :: u32
    using less_le_trans diff_le_self by blast
  from assms show ?thesis
    unfolding random_bit_def Let_def by (simp add: ok_simps n n2 del: of_nat_diff)
qed

lemma random_apply_ok:
  assumes b: "bend_ok b" "unat (b_nbits b) = n" "pin < n" and n: "2 \<le> n"
  shows "bend_ok (fst (random_apply n pin roll b s))"
proof -
  have n16: "n \<le> 16" using bend_okD(1)[OF b(1)] b(2) by simp
  have j: "unat (t mod word_of_nat n) < n" for t :: u32
    using n n16 by (intro unat_mod_word_of_nat) simp_all
  have inv: "src_ok n (bend_src_invert (b_route b ! pin))"
    using b bend_okD(4)[OF b(1)] n16 by (simp add: bend_src_invert_ok)
  have t8: "unat (t mod 8) < 8" for t :: u32 by (simp add: unat_mod)
  have tame: "src_ok n (BSRC_BUS (tame_buses ! unat (t mod 8)))" for t :: u32
    using tame_bus_less[OF t8[of t]] by simp
  have b7: "src_ok n (BSRC_BUS 7)" "src_ok n (BSRC_BUS 11)" by simp_all
  have m: "t mod 5 < 5" "t mod 6 \<le> 12" for t :: u32
    using word_mod_less[of 5 t] word_mod_less[of 6 t] by simp_all (simp add: word_less_nat_alt word_le_nat_alt)
  show ?thesis
    using b j[of "xs32 s"] inv tame b7 m
    by (auto simp: random_apply_def Let_def intro!: swap_pins_ok set_pin_ok trash_fields_ok)
qed

lemma random_apply_nbits [simp]: "b_nbits (fst (random_apply n pin roll b s)) = b_nbits b"
  by (simp add: random_apply_def Let_def)

lemma length_random_apply [simp]:
  "length (b_route (fst (random_apply n pin roll b s))) = length (b_route b)"
  by (simp add: random_apply_def Let_def)

lemma random_apply_nonzero: "s \<noteq> 0 \<Longrightarrow> snd (random_apply n pin roll b s) \<noteq> 0"
  by (simp add: random_apply_def Let_def)

lemma random_apply_pure:
  assumes "pure_route b" "length (b_route b) = 16" "pin < n" "n \<le> 16" "2 \<le> n" "roll < 80"
  shows "pure_route (fst (random_apply n pin roll b s))"
proof -
  have j: "unat (t mod word_of_nat n) < 16" for t :: u32
    using assms unat_mod_word_of_nat[of n t] by simp
  have "\<not> is_bus_class (b_route b ! pin)" using assms by (simp add: pure_route_def)
  then show ?thesis
    using assms j[of "xs32 s"]
    by (auto simp: random_apply_def Let_def invert_not_bus intro!: set_pin_pure swap_pins_pure)
qed

definition rand_inv :: "nat \<Rightarrow> bool \<Rightarrow> bend_t \<times> u32 \<Rightarrow> bool" where
  "rand_inv n allow_bus = (\<lambda>(b, s).
     bend_ok b \<and> unat (b_nbits b) = n \<and> s \<noteq> 0 \<and> (\<not> allow_bus \<longrightarrow> pure_route b))"

lemma random_edge_inv:
  assumes "3 \<le> n" "n \<le> 16" "rand_inv n allow_bus st"
  shows "ok (random_edge n allow_bus st) (rand_inv n allow_bus)"
proof -
  obtain b s where st: "st = (b, s)" by (cases st)
  have inv: "bend_ok b" "unat (b_nbits b) = n" "\<not> allow_bus \<Longrightarrow> pure_route b"
    using assms(3) by (simp_all add: rand_inv_def st)
  have l: "length (b_route b) = 16" using bend_okD(3)[OF inv(1)] .
  have roll: "unat (t mod 100) * 80 div 100 < 80" for t :: u32
    using word_mod_less[of 100 t] by (simp add: word_less_nat_alt)
  obtain pin s' where rb: "random_bit n s = Some (pin, s')" "pin < n"
    using random_bit_total[OF assms(1,2), of s] by (auto simp: ok_def)
  show ?thesis
    using assms(1,2) inv l roll rb
    by (simp add: random_edge_def st Let_def rand_inv_def ok_simps split_beta random_apply_ok
        random_apply_nonzero random_apply_pure)
qed

lemma random_start_inv:
  assumes "2 \<le> n" "n \<le> 16" "1 \<le> depth" "depth \<le> n" "s \<noteq> 0"
  shows "rand_inv n allow_bus
    ((bend_reset b n)\<lparr>b_nbits := word_of_nat n, b_seed := s, b_depth := word_of_nat depth\<rparr>, s)"
proof -
  have "bend_ok (bend_reset b n)" using assms by (simp add: bend_reset_ok)
  moreover have "b_nbits (bend_reset b n) = word_of_nat n" by (simp add: bend_reset_def)
  moreover have "unat (word_of_nat n :: u8) = n" "unat (word_of_nat depth :: u8) = depth"
    using assms by (simp_all add: unat_of_nat)
  moreover have "pure_route (bend_reset b n)"
    by (auto simp: pure_route_def bend_reset_def BEND_MAX_BITS_def)
  ultimately show ?thesis
    using assms
    by (simp add: rand_inv_def bend_ok_def bend_shape_def pure_route_def word_le_nat_alt BEND_MAX_BITS_def)
qed

lemma random_knobs_inv:
  assumes "rand_inv n allow_bus st"
  shows "rand_inv n allow_bus (random_knobs st)"
proof -
  have "unat (ucast (1 + t mod 6) :: u8) \<le> 12" for t :: u32
  proof -
    have "unat (t mod 6) < 6" using word_mod_less[of 6 t] by (simp add: word_less_nat_alt)
    then have "unat (1 + t mod 6) \<le> 6" by (simp add: unat_word_ariths)
    then show ?thesis by (simp add: unsigned_ucast_eq take_bit_nat_eq_self)
  qed
  then have le: "(ucast (1 + t mod 6) :: u8) \<le> 12" for t :: u32
    by (simp add: word_le_nat_alt)
  obtain b s where st: "st = (b, s)" by (cases st)
  from assms le show ?thesis
    by (auto simp: rand_inv_def random_knobs_def Let_def bend_ok_def bend_shape_def pure_route_def st)
qed

lemma random_guard_inv:
  assumes "3 \<le> n" "n \<le> 16" "1 \<le> depth" "depth \<le> n" "s \<noteq> 0"
  shows "ok (random_guard (Suc g) n depth allow_bus (b, s)) (rand_inv n allow_bus)"
  using assms(5)
proof (induction g arbitrary: b s)
  case (0 b s)
  let ?b = "(bend_reset b n)\<lparr>b_nbits := word_of_nat n, b_seed := s, b_depth := word_of_nat depth\<rparr>"
  have "ok (for_range 0 depth (\<lambda>_. random_edge n allow_bus) (?b, s)) (rand_inv n allow_bus)"
    using assms 0 by (intro for_list_inv random_start_inv random_edge_inv) simp_all
  moreover have "ok (let (b, s) = random_knobs st in
       if \<not> bend_is_identity b then Some (b, s)
       else random_guard 0 n depth allow_bus (b, xs32 s)) (rand_inv n allow_bus)"
    if "rand_inv n allow_bus st" for st
    using random_knobs_inv[OF that]
    by (cases "random_knobs st") (simp add: ok_simps rand_inv_def)
  ultimately show ?case
    by (simp only: random_guard.simps(2)[of 0] prod.case Let_def ok_bind)
       (erule ok_mono, simp add: Let_def split_beta)
next
  case (Suc g b s)
  let ?b = "(bend_reset b n)\<lparr>b_nbits := word_of_nat n, b_seed := s, b_depth := word_of_nat depth\<rparr>"
  have "ok (for_range 0 depth (\<lambda>_. random_edge n allow_bus) (?b, s)) (rand_inv n allow_bus)"
    using assms Suc.prems by (intro for_list_inv random_start_inv random_edge_inv) simp_all
  moreover have "ok (let (b, s) = random_knobs st in
       if \<not> bend_is_identity b then Some (b, s)
       else random_guard (Suc g) n depth allow_bus (b, xs32 s)) (rand_inv n allow_bus)"
    if "rand_inv n allow_bus st" for st
    using random_knobs_inv[OF that] Suc.IH
    by (cases "random_knobs st") (simp add: ok_simps)
  ultimately show ?case
    by (simp only: random_guard.simps(2)[of "Suc g"] prod.case Let_def ok_bind)
       (erule ok_mono, simp add: Let_def split_beta)
qed

lemma bend_random_inv:
  assumes "3 \<le> unat (b_nbits b)" "unat (b_nbits b) \<le> 16"
  shows "ok (bend_random b seed depth allow_bus) (rand_inv (unat (b_nbits b)) allow_bus)"
proof -
  have "Suc 7 = 8" by simp
  with assms have "ok (random_guard 8 (unat (b_nbits b)) d allow_bus (b, s))
      (rand_inv (unat (b_nbits b)) allow_bus)"
    if "1 \<le> d" "d \<le> unat (b_nbits b)" "s \<noteq> 0" for d s
    using random_guard_inv[OF assms that, of 7] by simp
  with assms show ?thesis
    unfolding bend_random_def Let_def by auto
qed

lemma bend_mutate_ok:
  assumes "bend_ok b"
  shows "bend_ok (bend_mutate b seed allow_bus)"
proof -
  define n where "n = unat (b_nbits b)"
  have n: "2 \<le> n" "n \<le> 16" using bend_okD[OF assms] by (simp_all add: n_def)
  have j: "unat (t mod word_of_nat n) < n" "unat (t mod word_of_nat 12) < 12" for t :: u32
    using n unat_mod_word_of_nat[of n t] unat_mod_word_of_nat[of 12 t] by simp_all
  have inv: "i < n \<Longrightarrow> src_ok n (bend_src_invert (b_route b ! i))" for i
    using bend_okD(4)[OF assms] n by (simp add: n_def bend_src_invert_ok)
  have bus: "src_ok n (BSRC_BUS (unat (t mod word_of_nat 12)))" for t :: u32
    using j(2)[of t] by simp
  have dat: "src_ok n (BSRC_DATA (unat (t mod word_of_nat n)))" for t :: u32
    using n j(1)[of t] by simp
  show ?thesis
    using assms j inv bus dat n
    unfolding bend_mutate_def Let_def n_def[symmetric]
    by (auto simp: n_def[symmetric] simp del: of_nat_numeral intro!: swap_pins_ok set_pin_ok)
qed

lemma bend_mutate_pure:
  assumes "bend_ok b" "pure_route b"
  shows "pure_route (bend_mutate b seed False)"
proof -
  define n where "n = unat (b_nbits b)"
  have n: "2 \<le> n" "n \<le> 16" "length (b_route b) = 16"
    using bend_okD[OF assms(1)] by (simp_all add: n_def)
  have j: "unat (t mod word_of_nat n) < n" for t :: u32
    using n unat_mod_word_of_nat[of n t] by simp
  have j16: "unat (t mod word_of_nat n) < 16" for t :: u32
    using j[of t] n by simp
  have inv: "\<not> is_bus_class (bend_src_invert (b_route b ! i))" if "i < 16" for i
    using that assms(2) n by (simp add: pure_route_def invert_not_bus)
  have roll: "unat (t mod 100) * 90 div 100 < 90" for t :: u32
    using word_mod_less[of 100 t] by (simp add: word_less_nat_alt)
  show ?thesis
    using assms n j16 inv roll
    unfolding bend_mutate_def Let_def n_def[symmetric]
    by (auto intro!: swap_pins_pure set_pin_pure)
qed

subsection \<open>The division by zero\<close>

text \<open>
  With two bits every pin is one of "the top two", so three seeds in four reach the
  remainder by \<open>n - 2 = 0\<close>.
\<close>

lemma random_bit_two:
  "random_bit 2 s =
     (if xs32 (xs32 s) AND 3 \<noteq> 0 then None
      else Some (unat (xs32 s mod 2), xs32 (xs32 s)))"
  by (simp add: random_bit_def Let_def)

lemma random_edge_two_None: "xs32 (xs32 s) AND 3 \<noteq> 0 \<Longrightarrow> random_edge 2 allow_bus (b, s) = None"
  by (simp add: random_edge_def random_bit_two)

subsection \<open>Source names\<close>

definition bus_short :: "string list" where
  "bus_short = [''HC'', ''Hc'', ''VC'', ''Vc'', ''FR'', ''DG'', ''OB'', ''NZ'', ''SH'', ''VH'', ''PY'', ''TP'']"

definition bend_bus_names :: "string list" where
  "bend_bus_names = [''Pixel clock'', ''Pixel clock /N'', ''Line clock'', ''Line clock /N'', ''Frame'',
     ''Diagonal'', ''Black level'', ''Noise'', ''Sample+hold'', ''Line memory'', ''Bus parity'', ''Tap'']"

definition bend_trash_names :: "string list" where
  "bend_trash_names = [''White'', ''Blocky'', ''Ramp'', ''Burst'', ''Sensor seed'']"

definition pin_digit :: "nat \<Rightarrow> char" where
  "pin_digit idx = char_of (if idx < 10 then 48 + idx else 97 + idx - 10)"

text \<open>The characters written before the terminating zero.\<close>

definition bend_src_name :: "u8 \<Rightarrow> string" where
  "bend_src_name src =
     (let idx = BSRC_IDX src; cls = BSRC_CLASS src in
      if cls = BSRC_C_DATA then [CHR ''d'', pin_digit idx]
      else if cls = BSRC_C_NDATA then [CHR ''~'', pin_digit idx]
      else if cls = BSRC_C_TIE then (if odd idx then ''HI'' else ''LO'')
      else if cls = BSRC_C_BUS \<or> cls = BSRC_C_NBUS then
        (if cls = BSRC_C_NBUS then ''~'' else []) @ bus_short ! (if idx < BUS_COUNT then idx else BUS_NOISE)
      else ''?'')"

lemma bus_short_lookup:
  "distinct bus_short" "length bus_short = BUS_COUNT"
  "i < BUS_COUNT \<Longrightarrow> length (bus_short ! i) = 2"
  by (simp_all add: bus_short_def) (auto simp: less_Suc_eq numeral_eq_Suc)

end
