(* ===== verification/BendCompile.thy ===== *)
theory BendCompile
  imports BendModel
begin

section \<open>Compiling and evaluating a bend (core/bend.c)\<close>

text \<open>
  \<open>bend_compile\<close> turns a matrix into a lookup table and the masks of the bus-fed bits, at a
  bit depth that may differ from the one the matrix was authored for; \<open>bend_eval\<close> reads
  them for one pixel. The specification is \<open>line_value\<close>: what the wire named for an output
  bit carries. \<open>eval_compile\<close> is the refinement: evaluating the compiled form gives, bit
  by bit, the value of the line the matrix names.
\<close>

subsection \<open>The compiled form\<close>

record bend_cc_t =
  c_lut :: "u16 list"
  c_dyn_mask :: u32
  c_bus_inv :: u32
  c_bus_bits :: "u32 list"
  c_bus_used :: u32
  c_mask :: u32
  c_nbits :: nat
  c_hdiv :: nat
  c_vdiv :: nat
  c_is_pure :: bool
  c_is_identity :: bool

record bend_src_t =
  s_prev :: u32
  s_above :: u32
  s_ob :: u32
  s_tap :: u32
  s_noise :: u32
  s_frame :: u32

definition bend_remap_raw :: "int \<Rightarrow> int \<Rightarrow> int \<Rightarrow> int" where
  "bend_remap_raw i from to =
     (let d = from - 1 - i; r = to - 1 - d in if r < 0 \<or> to - 1 < r then - 1 else r)"

definition bend_remap :: "int \<Rightarrow> int \<Rightarrow> int \<Rightarrow> int" where
  "bend_remap i from to =
     (let r = bend_remap_raw i from to in
      if r < 0 then (if to < from then 0 else to - 1) else r)"

text \<open>\<open>1u << i\<close>\<close>

definition obit :: "nat \<Rightarrow> u32" where
  "obit i = push_bit i 1"

text \<open>The locals of the compile loop.\<close>

record pass =
  p_pin :: "nat list"
  p_inv :: "bool list"
  p_tie_high :: u32
  p_tie_mask :: u32
  p_data_mask :: u32
  p_dyn_mask :: u32
  p_bus_inv :: u32
  p_bus_bits :: "u32 list"
  p_bus_used :: u32

definition pass_init :: pass where
  "pass_init = \<lparr>p_pin = [0..<BEND_MAX_BITS], p_inv = replicate BEND_MAX_BITS False,
     p_tie_high = 0, p_tie_mask = 0, p_data_mask = 0, p_dyn_mask = 0, p_bus_inv = 0,
     p_bus_bits = replicate BUS_COUNT 0, p_bus_used = 0\<rparr>"

definition pass_data :: "nat \<Rightarrow> nat \<Rightarrow> pass \<Rightarrow> pass" where
  "pass_data i pin p =
     p\<lparr>p_pin := (p_pin p)[i := pin], p_data_mask := p_data_mask p OR obit i\<rparr>"

definition pass_bus :: "nat \<Rightarrow> nat \<Rightarrow> pass \<Rightarrow> pass" where
  "pass_bus i idx p =
     (let bus = (if BUS_COUNT \<le> idx then BUS_NOISE else idx) in
      p\<lparr>p_dyn_mask := p_dyn_mask p OR obit i,
        p_bus_bits := (p_bus_bits p)[bus := p_bus_bits p ! bus OR obit i],
        p_bus_used := p_bus_used p OR obit bus\<rparr>)"

definition compile_bit :: "bend_t \<Rightarrow> nat \<Rightarrow> nat \<Rightarrow> nat \<Rightarrow> pass \<Rightarrow> pass" where
  "compile_bit b from nbits i p =
     (let ai = bend_remap_raw (int i) (int nbits) (int from) in
      if ai < 0 then pass_data i i p
      else
        let src = b_route b ! nat ai; idx = BSRC_IDX src; cls = BSRC_CLASS src;
            pin = nat (bend_remap (int idx) (int from) (int nbits)) in
        if cls = BSRC_C_NDATA then pass_data i pin (p\<lparr>p_inv := (p_inv p)[i := True]\<rparr>)
        else if cls = BSRC_C_DATA then pass_data i pin p
        else if cls = BSRC_C_TIE then
          p\<lparr>p_tie_mask := p_tie_mask p OR obit i,
            p_tie_high := (if odd idx then p_tie_high p OR obit i else p_tie_high p)\<rparr>
        else if cls = BSRC_C_NBUS then pass_bus i idx (p\<lparr>p_bus_inv := p_bus_inv p OR obit i\<rparr>)
        else if cls = BSRC_C_BUS then pass_bus i idx p
        else pass_data i i p)"

definition lut_step :: "pass \<Rightarrow> u32 \<Rightarrow> nat \<Rightarrow> u32 \<Rightarrow> u32" where
  "lut_step p v i out =
     (if p_data_mask p AND obit i = 0 then out
      else let bv = drop_bit (p_pin p ! i) v AND 1;
               bv = (if p_inv p ! i then bv XOR 1 else bv)
           in if bv \<noteq> 0 then out OR obit i else out)"

definition lut_entry :: "pass \<Rightarrow> nat \<Rightarrow> u32 \<Rightarrow> u32" where
  "lut_entry p nbits v = fold (lut_step p v) [0..<nbits] (p_tie_high p)"

definition from_bits :: "bend_t \<Rightarrow> nat \<Rightarrow> nat" where
  "from_bits b nbits = (if b_nbits b \<noteq> 0 then unat (b_nbits b) else nbits)"

definition bend_compile :: "bend_t \<Rightarrow> nat \<Rightarrow> bend_cc_t" where
  "bend_compile b nbits =
     (let from = from_bits b nbits;
          size = push_bit nbits 1 :: u32;
          msk = size - 1;
          p = fold (compile_bit b from nbits) [0..<nbits] pass_init;
          pure = (p_dyn_mask p = 0)
      in \<lparr>c_lut = map (\<lambda>v. ucast (lut_entry p nbits (word_of_nat v) AND msk)) [0..<unat size],
          c_dyn_mask = p_dyn_mask p, c_bus_inv = p_bus_inv p, c_bus_bits = p_bus_bits p,
          c_bus_used = p_bus_used p, c_mask = msk, c_nbits = nbits,
          c_hdiv = unat (b_hdiv b), c_vdiv = unat (b_vdiv b), c_is_pure = pure,
          c_is_identity = (pure \<and> p_tie_mask p = 0 \<and>
             (\<forall>i\<in>set [0..<nbits]. p_pin p ! i = i \<and> \<not> p_inv p ! i))\<rparr>)"

subsection \<open>Evaluation\<close>

definition bend_parity :: "u32 \<Rightarrow> u32" where
  "bend_parity v =
     (let v = v XOR drop_bit 8 v; v = v XOR drop_bit 4 v; v = v XOR drop_bit 2 v;
          v = v XOR drop_bit 1 v
      in v AND 1)"

definition bus_if :: "bend_cc_t \<Rightarrow> nat \<Rightarrow> bool \<Rightarrow> u32 \<Rightarrow> u32" where
  "bus_if cc k live r = (if c_bus_used cc AND obit k \<noteq> 0 \<and> live then r OR c_bus_bits cc ! k else r)"

definition bus_word :: "bend_cc_t \<Rightarrow> nat \<Rightarrow> u32 \<Rightarrow> u32 \<Rightarrow> u32" where
  "bus_word cc k w r =
     (if c_bus_used cc AND obit k \<noteq> 0 then r OR (w AND c_bus_bits cc ! k) else r)"

definition bend_busval :: "bend_cc_t \<Rightarrow> u32 \<Rightarrow> int \<Rightarrow> int \<Rightarrow> bend_src_t \<Rightarrow> u32" where
  "bend_busval cc v x y s =
     (let r = 0;
          r = bus_if cc BUS_HCLK (x AND 1 \<noteq> 0) r;
          r = bus_if cc BUS_HCLKN (drop_bit (c_hdiv cc) x AND 1 \<noteq> 0) r;
          r = bus_if cc BUS_VCLK (y AND 1 \<noteq> 0) r;
          r = bus_if cc BUS_VCLKN (drop_bit (c_vdiv cc) y AND 1 \<noteq> 0) r;
          r = bus_if cc BUS_FRAME (s_frame s AND 1 \<noteq> 0) r;
          r = bus_if cc BUS_DIAG ((x XOR y) AND 1 \<noteq> 0) r;
          r = bus_if cc BUS_PARITY (bend_parity (v AND c_mask cc) \<noteq> 0) r;
          r = bus_word cc BUS_OB (s_ob s) r;
          r = bus_word cc BUS_NOISE (s_noise s) r;
          r = bus_word cc BUS_HOLD (s_prev s) r;
          r = bus_word cc BUS_VHOLD (s_above s) r
      in bus_word cc BUS_TAP (s_tap s) r)"

definition bend_eval :: "bend_cc_t \<Rightarrow> u32 \<Rightarrow> int \<Rightarrow> int \<Rightarrow> bend_src_t \<Rightarrow> u32" where
  "bend_eval cc v x y s =
     (let out = ucast (c_lut cc ! unat (v AND c_mask cc));
          out = (if c_dyn_mask cc \<noteq> 0
                 then let bv = bend_busval cc v x y s XOR c_bus_inv cc
                      in (out AND NOT (c_dyn_mask cc)) OR (bv AND c_dyn_mask cc)
                 else out)
      in out AND c_mask cc)"

subsection \<open>Specification: the line each output bit is wired to\<close>

text \<open>
  \<open>wire b from nbits i\<close> is the source of output bit \<open>i\<close> in the target domain: data pins are
  carried over by their distance from the top bit, a bit with no counterpart in the authored
  matrix is straight through, and a bus number that does not exist is the noise bus.
\<close>

definition retarget :: "nat \<Rightarrow> nat \<Rightarrow> nat \<Rightarrow> nat" where
  "retarget from nbits n = nat (bend_remap (int n) (int from) (int nbits))"

definition wire :: "bend_t \<Rightarrow> nat \<Rightarrow> nat \<Rightarrow> nat \<Rightarrow> src" where
  "wire b from nbits i =
     (if i + from < nbits then Data i
      else case decode_src (b_route b ! (i + from - nbits)) of
          Data n \<Rightarrow> Data (retarget from nbits n)
        | NData n \<Rightarrow> NData (retarget from nbits n)
        | Tie h \<Rightarrow> Tie h
        | Bus k \<Rightarrow> Bus (if BUS_COUNT \<le> k then BUS_NOISE else k)
        | NBus k \<Rightarrow> NBus (if BUS_COUNT \<le> k then BUS_NOISE else k)
        | Stray _ \<Rightarrow> Data i)"

definition bus_value :: "bend_t \<Rightarrow> nat \<Rightarrow> u32 \<Rightarrow> int \<Rightarrow> int \<Rightarrow> bend_src_t \<Rightarrow> nat \<Rightarrow> nat \<Rightarrow> bool" where
  "bus_value b nbits v x y s k i =
     [odd x, bit x (unat (b_hdiv b)), odd y, bit y (unat (b_vdiv b)), bit (s_frame s) 0,
      odd x \<noteq> odd y, bit (s_ob s) i, bit (s_noise s) i, bit (s_prev s) i, bit (s_above s) i,
      odd (length (filter (bit v) [0..<nbits])), bit (s_tap s) i] ! k"

fun line_value ::
    "bend_t \<Rightarrow> nat \<Rightarrow> u32 \<Rightarrow> int \<Rightarrow> int \<Rightarrow> bend_src_t \<Rightarrow> nat \<Rightarrow> src \<Rightarrow> bool" where
  "line_value b nbits v x y s i (Data n) = bit v n"
| "line_value b nbits v x y s i (NData n) = (\<not> bit v n)"
| "line_value b nbits v x y s i (Tie h) = h"
| "line_value b nbits v x y s i (Bus k) = bus_value b nbits v x y s k i"
| "line_value b nbits v x y s i (NBus k) = (\<not> bus_value b nbits v x y s k i)"
| "line_value b nbits v x y s i (Stray _) = bit v i"

subsection \<open>Single bit masks\<close>

lemma bit_obit: "i < 32 \<Longrightarrow> bit (obit i) j \<longleftrightarrow> j = i"
  by (auto simp: obit_def bit_exp_iff)

lemma and_obit_eq_0: "i < 32 \<Longrightarrow> w AND obit i = 0 \<longleftrightarrow> \<not> bit w i"
proof
  assume i: "i < 32" and "w AND obit i = 0"
  then have "\<not> bit (w AND obit i) i" by simp
  with i show "\<not> bit w i" by (simp add: bit_and_iff bit_obit)
next
  assume i: "i < 32" and n: "\<not> bit w i"
  show "w AND obit i = 0"
    by (rule bit_eqI) (use i n in \<open>auto simp: bit_and_iff bit_obit\<close>)
qed

lemma bit_and_1_neq_0: "w AND 1 \<noteq> 0 \<longleftrightarrow> bit (w::'a::len word) 0"
  by (simp add: and_one_eq mod2_eq_if bit_0)

subsection \<open>What one step of the compile loop does\<close>

fun is_data :: "src \<Rightarrow> bool" where
  "is_data (Data _) = True" | "is_data (NData _) = True" | "is_data _ = False"

fun pin_of :: "src \<Rightarrow> nat" where
  "pin_of (Data n) = n" | "pin_of (NData n) = n" | "pin_of _ = 0"

fun is_neg :: "src \<Rightarrow> bool" where
  "is_neg (NData _) = True" | "is_neg (NBus _) = True" | "is_neg _ = False"

fun bus_of :: "src \<Rightarrow> nat option" where
  "bus_of (Bus k) = Some k" | "bus_of (NBus k) = Some k" | "bus_of _ = None"

fun pass_src :: "nat \<Rightarrow> src \<Rightarrow> pass \<Rightarrow> pass" where
  "pass_src i (Data n) p = pass_data i n p"
| "pass_src i (NData n) p = pass_data i n (p\<lparr>p_inv := (p_inv p)[i := True]\<rparr>)"
| "pass_src i (Tie h) p =
     p\<lparr>p_tie_mask := p_tie_mask p OR obit i,
       p_tie_high := (if h then p_tie_high p OR obit i else p_tie_high p)\<rparr>"
| "pass_src i (Bus k) p = pass_bus i k p"
| "pass_src i (NBus k) p = pass_bus i k (p\<lparr>p_bus_inv := p_bus_inv p OR obit i\<rparr>)"
| "pass_src i (Stray s) p = p"

lemma bend_remap_raw_up:
  "i < nbits \<Longrightarrow> bend_remap_raw (int i) (int nbits) (int from) =
     (if i + from < nbits then - 1 else int (i + from - nbits))"
  by (auto simp: bend_remap_raw_def Let_def)

lemma pass_bus_clamp: "pass_bus i (if BUS_COUNT \<le> k then BUS_NOISE else k) p = pass_bus i k p"
  by (simp add: pass_bus_def)

lemma compile_bit_eq:
  assumes "i < nbits"
  shows "compile_bit b from nbits i p = pass_src i (wire b from nbits i) p"
proof (cases "i + from < nbits")
  case True
  with assms show ?thesis by (simp add: compile_bit_def bend_remap_raw_up wire_def)
next
  case False
  define m where "m = i + from - nbits"
  have raw: "bend_remap_raw (int i) (int nbits) (int from) = int m"
    using assms False by (simp add: bend_remap_raw_up m_def)
  from False show ?thesis
    by (simp add: compile_bit_def raw wire_def m_def[symmetric] decode_src_def retarget_def Let_def
        pass_bus_clamp)
qed

text \<open>The state of the locals after the first \<open>k\<close> output bits.\<close>

definition pass_inv :: "(nat \<Rightarrow> src) \<Rightarrow> nat \<Rightarrow> pass \<Rightarrow> bool" where
  "pass_inv R k p \<longleftrightarrow>
     length (p_pin p) = 16 \<and> length (p_inv p) = 16 \<and> length (p_bus_bits p) = 12 \<and>
     (\<forall>j. bit (p_data_mask p) j \<longleftrightarrow> j < k \<and> is_data (R j)) \<and>
     (\<forall>j. bit (p_tie_mask p) j \<longleftrightarrow> j < k \<and> (\<exists>h. R j = Tie h)) \<and>
     (\<forall>j. bit (p_tie_high p) j \<longleftrightarrow> j < k \<and> R j = Tie True) \<and>
     (\<forall>j. bit (p_dyn_mask p) j \<longleftrightarrow> j < k \<and> bus_of (R j) \<noteq> None) \<and>
     (\<forall>j. bit (p_bus_inv p) j \<longleftrightarrow> j < k \<and> bus_of (R j) \<noteq> None \<and> is_neg (R j)) \<and>
     (\<forall>m<12. \<forall>j. bit (p_bus_bits p ! m) j \<longleftrightarrow> j < k \<and> bus_of (R j) = Some m) \<and>
     (\<forall>m. bit (p_bus_used p) m \<longleftrightarrow> (\<exists>j<k. bus_of (R j) = Some m)) \<and>
     (\<forall>j<16. p_pin p ! j = (if j < k \<and> is_data (R j) then pin_of (R j) else j)) \<and>
     (\<forall>j<16. p_inv p ! j \<longleftrightarrow> j < k \<and> is_data (R j) \<and> is_neg (R j))"

lemma pass_invD:
  assumes "pass_inv R k p"
  shows "bit (p_tie_mask p) j \<longleftrightarrow> j < k \<and> (\<exists>h. R j = Tie h)"
    "bit (p_dyn_mask p) j \<longleftrightarrow> j < k \<and> bus_of (R j) \<noteq> None"
    "j < 16 \<Longrightarrow> p_pin p ! j = (if j < k \<and> is_data (R j) then pin_of (R j) else j)"
    "j < 16 \<Longrightarrow> p_inv p ! j \<longleftrightarrow> j < k \<and> is_data (R j) \<and> is_neg (R j)"
  using assms unfolding pass_inv_def by simp_all

fun wire_ok :: "src \<Rightarrow> bool" where
  "wire_ok (Bus k) = (k < BUS_COUNT)"
| "wire_ok (NBus k) = (k < BUS_COUNT)"
| "wire_ok (Stray _) = False"
| "wire_ok _ = True"

lemma wire_ok_wire: "wire_ok (wire b from nbits i)"
  by (auto simp: wire_def split: src.splits)

lemma pass_inv_init: "pass_inv R 0 pass_init"
  by (auto simp: pass_inv_def pass_init_def BEND_MAX_BITS_def nth_replicate)

lemma pass_inv_step:
  assumes "pass_inv R k p" "k < 16" "wire_ok (R k)"
  shows "pass_inv R (Suc k) (pass_src k (R k) p)"
proof (cases "R k")
  case (Data n)
  with assms show ?thesis
    by (auto simp: pass_inv_def pass_data_def bit_or_iff bit_obit less_Suc_eq nth_list_update)
next
  case (NData n)
  with assms show ?thesis
    by (auto simp: pass_inv_def pass_data_def bit_or_iff bit_obit less_Suc_eq nth_list_update)
next
  case (Tie h)
  with assms show ?thesis
    by (auto simp: pass_inv_def bit_or_iff bit_obit less_Suc_eq nth_list_update)
next
  case (Bus m)
  with assms show ?thesis
    by (auto simp: pass_inv_def pass_bus_def bit_or_iff bit_obit less_Suc_eq nth_list_update)
next
  case (NBus m)
  with assms show ?thesis
    by (auto simp: pass_inv_def pass_bus_def bit_or_iff bit_obit less_Suc_eq nth_list_update)
qed (use assms in simp)

lemma pass_inv_fold:
  "k \<le> 16 \<Longrightarrow> (\<And>i. i < k \<Longrightarrow> wire_ok (R i)) \<Longrightarrow>
     pass_inv R k (fold (\<lambda>i. pass_src i (R i)) [0..<k] pass_init)"
  by (induction k) (simp_all add: pass_inv_init pass_inv_step)

subsection \<open>The table and the buses, bit by bit\<close>

lemma shifted_bit:
  "drop_bit n v AND 1 = 0 \<longleftrightarrow> \<not> bit (v::u32) n"
  "(drop_bit n v AND 1) XOR 1 = 0 \<longleftrightarrow> bit (v::u32) n"
  by (simp_all add: and_one_eq mod2_eq_if bit_iff_odd_drop_bit)

lemma lut_step_bit:
  assumes "i < 32"
  shows "bit (lut_step p v i w) j \<longleftrightarrow>
    bit w j \<or> (j = i \<and> bit (p_data_mask p) i \<and> (bit v (p_pin p ! i) \<noteq> p_inv p ! i))"
  using assms by (auto simp: lut_step_def Let_def and_obit_eq_0 shifted_bit bit_or_iff bit_obit)

lemma lut_entry_bit:
  assumes "nbits \<le> 32"
  shows "bit (lut_entry p nbits v) j \<longleftrightarrow> bit (p_tie_high p) j \<or>
    (j < nbits \<and> bit (p_data_mask p) j \<and> (bit v (p_pin p ! j) \<noteq> p_inv p ! j))"
  using assms unfolding lut_entry_def
  by (induction nbits) (auto simp: lut_step_bit less_Suc_eq)

lemma size_mask: "push_bit nbits 1 - 1 = (mask nbits :: u32)"
  by (simp add: mask_eq_decr_exp)

lemma c_mask_compile [simp]: "c_mask (bend_compile b nbits) = mask nbits"
  by (simp add: bend_compile_def Let_def mask_eq_decr_exp)

lemma lut_lookup:
  fixes b nbits v
  defines "from \<equiv> from_bits b nbits"
  assumes "nbits \<le> 16"
  shows "c_lut (bend_compile b nbits) ! unat (v AND mask nbits) =
    ucast (lut_entry (fold (compile_bit b from nbits) [0..<nbits] pass_init) nbits (v AND mask nbits)
      AND mask nbits)"
proof -
  have "unat (2 ^ nbits :: u32) = 2 ^ nbits"
    using assms(2) by (simp add: unat_exp_less)
  moreover have "unat (v AND mask nbits) < 2 ^ nbits" by (rule unat_and_mask_less)
  moreover have "word_of_nat (unat (v AND mask nbits)) = v AND mask nbits"
    by (simp only: of_nat_unat ucast_id)
  ultimately show ?thesis
    by (simp add: bend_compile_def Let_def from_def mask_eq_decr_exp[symmetric])
qed

lemma compile_pass_inv:
  fixes b nbits
  defines "from \<equiv> from_bits b nbits"
  assumes "nbits \<le> 16"
  shows "pass_inv (wire b from nbits) nbits (fold (compile_bit b from nbits) [0..<nbits] pass_init)"
proof -
  have "fold (compile_bit b from nbits) [0..<nbits] pass_init =
      fold (\<lambda>i. pass_src i (wire b from nbits i)) [0..<nbits] pass_init"
    by (rule List.fold_cong) (auto simp: compile_bit_eq fun_eq_iff)
  then show ?thesis
    using assms(2) by (simp add: pass_inv_fold wire_ok_wire)
qed

lemma odd_filter_xor:
  "odd (length (filter (\<lambda>i. A i \<noteq> B i) xs)) \<longleftrightarrow>
     odd (length (filter A xs)) \<noteq> odd (length (filter B xs))"
  by (induction xs) auto

definition par :: "nat \<Rightarrow> u32 \<Rightarrow> bool" where
  "par n w = odd (length (filter (bit w) [0..<n]))"

lemma par_fold: "par k (w XOR drop_bit k w) = par (k + k) w"
proof -
  have "[0..<k + k] = [0..<k] @ map (\<lambda>i. i + k) [0..<k]"
    by (simp only: upt_add_eq_append[of 0 k k] map_add_upt le0)
  then have "par (k + k) w \<longleftrightarrow> (par k w \<noteq> odd (length (filter (\<lambda>i. bit w (i + k)) [0..<k])))"
    by (simp only: par_def filter_append filter_map length_append length_map comp_def even_add) blast
  moreover have "bit (w XOR drop_bit k w) = (\<lambda>i. bit w i \<noteq> bit w (i + k))"
    by (simp add: fun_eq_iff bit_xor_iff bit_drop_bit_eq add.commute)
  ultimately show ?thesis
    by (simp only: par_def odd_filter_xor)
qed

lemma par_1: "par 1 w = bit w 0"
  by (simp add: par_def)

lemma bend_parity_odd:
  assumes "nbits \<le> 16"
  shows "bend_parity (v AND mask nbits) \<noteq> 0 \<longleftrightarrow> odd (length (filter (bit v) [0..<nbits]))"
proof -
  define w where "w = v AND mask nbits"
  have w: "bit w i \<longleftrightarrow> i < nbits \<and> bit v i" for i
    using assms by (auto simp: w_def bit_and_iff bit_mask_iff)
  have "bend_parity w \<noteq> 0 \<longleftrightarrow> par 16 w"
  proof -
    define w8 where "w8 = w XOR drop_bit 8 w"
    define w4 where "w4 = w8 XOR drop_bit 4 w8"
    define w2 where "w2 = w4 XOR drop_bit 2 w4"
    define w1 where "w1 = w2 XOR drop_bit 1 w2"
    have "bend_parity w = w1 AND 1"
      by (simp only: bend_parity_def Let_def w1_def w2_def w4_def w8_def)
    then have "bend_parity w \<noteq> 0 \<longleftrightarrow> par 1 w1" by (simp only: bit_and_1_neq_0 par_1)
    also have "\<dots> \<longleftrightarrow> par 2 w2" using par_fold[of 1 w2] by (simp only: w1_def one_add_one)
    also have "\<dots> \<longleftrightarrow> par 4 w4" using par_fold[of 2 w4] by (simp only: w2_def) simp
    also have "\<dots> \<longleftrightarrow> par 8 w8" using par_fold[of 4 w8] by (simp only: w4_def) simp
    also have "\<dots> \<longleftrightarrow> par 16 w" using par_fold[of 8 w] by (simp only: w8_def) simp
    finally show ?thesis .
  qed
  also have "filter (bit w) [0..<16] = filter (bit v) [0..<nbits]"
  proof -
    have "[0..<16] = [0..<nbits] @ [nbits..<16]" using assms upt_add_eq_append[of 0 nbits "16 - nbits"] by simp
    moreover have "filter (bit w) [nbits..<16] = []" using w by (auto simp: filter_empty_conv)
    moreover have "filter (bit w) [0..<nbits] = filter (bit v) [0..<nbits]"
      using w by (intro filter_cong) auto
    ultimately show ?thesis by simp
  qed
  then have "par 16 w \<longleftrightarrow> odd (length (filter (bit v) [0..<nbits]))" by (simp add: par_def)
  finally show ?thesis by (simp add: w_def)
qed

text \<open>Bus \<open>k\<close> is in use and feeds output bit \<open>j\<close>.\<close>

definition bus_hits :: "bend_cc_t \<Rightarrow> nat \<Rightarrow> nat \<Rightarrow> bool" where
  "bus_hits cc k j \<longleftrightarrow> bit (c_bus_used cc) k \<and> bit (c_bus_bits cc ! k) j"

lemma bus_if_bit:
  "k < 32 \<Longrightarrow> bit (bus_if cc k live r) j \<longleftrightarrow> bit r j \<or> (bus_hits cc k j \<and> live)"
  by (auto simp: bus_if_def and_obit_eq_0 bit_or_iff bus_hits_def)

lemma bus_word_bit:
  "k < 32 \<Longrightarrow> bit (bus_word cc k w r) j \<longleftrightarrow> bit r j \<or> (bus_hits cc k j \<and> bit w j)"
  by (auto simp: bus_word_def and_obit_eq_0 bit_or_iff bit_and_iff bus_hits_def)

lemma busval_bit:
  assumes hits: "\<And>m. m < 12 \<Longrightarrow> bus_hits cc m i \<longleftrightarrow> m = k"
    and n: "nbits \<le> 16" and k: "k < BUS_COUNT"
    and cc: "c_mask cc = mask nbits" "c_hdiv cc = unat (b_hdiv b)" "c_vdiv cc = unat (b_vdiv b)"
  shows "bit (bend_busval cc v x y s) i \<longleftrightarrow> bus_value b nbits v x y s k i"
proof -
  have odd_and: "z AND 1 \<noteq> 0 \<longleftrightarrow> odd z" for z :: int
    by (simp add: and_one_eq odd_iff_mod_2_eq_one)
  have live: "odd (x XOR y) \<longleftrightarrow> odd x \<noteq> odd y"
    using bit_xor_iff[of x y 0] by (simp add: bit_0)
  have "k \<in> {0, 1, 2, 3, 4, 5, 6, 7, 8, 9, 10, 11}"
    using k by (simp only: insert_iff empty_iff) presburger
  then show ?thesis
    unfolding bend_busval_def Let_def odd_and bit_and_1_neq_0 bend_parity_odd[OF n] cc live
      bit_iff_odd_drop_bit[symmetric]
    by (elim insertE emptyE; hypsubst)
       (simp_all add: bus_if_bit bus_word_bit hits bus_value_def)
qed

subsection \<open>The compiled form computes the wiring\<close>

abbreviation compile_pass :: "bend_t \<Rightarrow> nat \<Rightarrow> pass" where
  "compile_pass b nbits \<equiv> fold (compile_bit b (from_bits b nbits) nbits) [0..<nbits] pass_init"

lemma compile_fields [simp]:
  "c_dyn_mask (bend_compile b nbits) = p_dyn_mask (compile_pass b nbits)"
  "c_bus_inv (bend_compile b nbits) = p_bus_inv (compile_pass b nbits)"
  "c_bus_bits (bend_compile b nbits) = p_bus_bits (compile_pass b nbits)"
  "c_bus_used (bend_compile b nbits) = p_bus_used (compile_pass b nbits)"
  "c_hdiv (bend_compile b nbits) = unat (b_hdiv b)"
  "c_vdiv (bend_compile b nbits) = unat (b_vdiv b)"
  "c_nbits (bend_compile b nbits) = nbits"
  by (simp_all add: bend_compile_def Let_def)

lemma table_bit:
  assumes "nbits \<le> 16"
  shows "bit (ucast (c_lut (bend_compile b nbits) ! unat (v AND mask nbits)) :: u32) i \<longleftrightarrow>
    i < nbits \<and> bit (lut_entry (compile_pass b nbits) nbits (v AND mask nbits)) i"
proof -
  have "bit (mask nbits :: u32) i \<longleftrightarrow> i < nbits" using assms by (auto simp: bit_mask_iff)
  with assms show ?thesis
    by (auto simp: lut_lookup bit_unsigned_iff bit_and_iff)
qed

lemma pure_bits:
  assumes p: "pass_inv R nbits p" and n: "nbits \<le> 16" and i: "i < nbits" and ok: "wire_ok (R i)"
    and nb: "bus_of (R i) = None" and pins: "is_data (R i) \<Longrightarrow> pin_of (R i) < nbits"
  shows "bit (lut_entry p nbits (v AND mask nbits)) i \<longleftrightarrow> line_value b nbits v x y s i (R i)"
proof -
  have m: "bit (v AND mask nbits) j \<longleftrightarrow> bit v j" if "j < nbits" for j
    using n that by (auto simp: bit_and_iff bit_mask_iff)
  have i16: "i < 16" using i n by simp
  show ?thesis
  proof (cases "R i")
    case (Data k)
    with p i i16 n pins show ?thesis
      by (auto simp: lut_entry_bit pass_inv_def m)
  next
    case (NData k)
    with p i i16 n pins show ?thesis
      by (auto simp: lut_entry_bit pass_inv_def m)
  next
    case (Tie h)
    with p i i16 n show ?thesis
      by (auto simp: lut_entry_bit pass_inv_def)
  qed (use nb ok in simp_all)
qed

lemma retarget_less: "0 < nbits \<Longrightarrow> n < 16 \<Longrightarrow> retarget from nbits n < nbits"
  by (auto simp: retarget_def bend_remap_def bend_remap_raw_def Let_def nat_less_iff)

lemma pin_of_wire:
  "\<lbrakk>i < nbits; is_data (wire b from nbits i)\<rbrakk> \<Longrightarrow> pin_of (wire b from nbits i) < nbits"
  by (auto simp: wire_def decode_src_def retarget_less split: if_splits)

theorem eval_compile_bit:
  assumes n: "nbits \<le> 16" and i: "i < nbits"
  shows "bit (bend_eval (bend_compile b nbits) v x y s) i \<longleftrightarrow>
    line_value b nbits v x y s i (wire b (from_bits b nbits) nbits i)"
proof -
  let ?R = "wire b (from_bits b nbits) nbits" and ?p = "compile_pass b nbits"
  let ?cc = "bend_compile b nbits"
  have p: "pass_inv ?R nbits ?p" using n by (rule compile_pass_inv)
  have msk: "bit (mask nbits :: u32) i" using n i by (auto simp: bit_mask_iff)
  have dyn: "bit (p_dyn_mask ?p) i \<longleftrightarrow> bus_of (?R i) \<noteq> None" using p i by (simp add: pass_inv_def)
  show ?thesis
  proof (cases "bus_of (?R i)")
    case None
    have "bit (bend_eval ?cc v x y s) i \<longleftrightarrow> bit (lut_entry ?p nbits (v AND mask nbits)) i"
      using msk dyn None i n
      by (simp add: bend_eval_def Let_def bit_and_iff bit_or_iff bit_not_iff table_bit[OF n])
    also have "\<dots> \<longleftrightarrow> line_value b nbits v x y s i (?R i)"
      using p n i None by (intro pure_bits) (simp_all add: wire_ok_wire pin_of_wire)
    finally show ?thesis .
  next
    case (Some k)
    have k: "k < BUS_COUNT" using wire_ok_wire[of b "from_bits b nbits" nbits i] Some
      by (cases "?R i") auto
    have hits: "bus_hits ?cc m i \<longleftrightarrow> m = k" if "m < 12" for m
      using p i Some that by (auto simp: bus_hits_def pass_inv_def)
    have d0: "p_dyn_mask ?p \<noteq> 0" using dyn Some by auto
    have inv: "bit (p_bus_inv ?p) i \<longleftrightarrow> is_neg (?R i)" using p i Some by (simp add: pass_inv_def)
    have "bit (bend_eval ?cc v x y s) i \<longleftrightarrow> bit (bend_busval ?cc v x y s) i \<noteq> is_neg (?R i)"
      using msk dyn Some d0 inv
      by (simp add: bend_eval_def Let_def bit_and_iff bit_or_iff bit_not_iff bit_xor_iff)
    also have "\<dots> \<longleftrightarrow> line_value b nbits v x y s i (?R i)"
      using Some busval_bit[OF hits n k, where b = b and v = v and x = x and y = y and s = s] by (cases "?R i") auto
    finally show ?thesis .
  qed
qed

lemma bend_eval_mask: "bend_eval cc v x y s AND c_mask cc = bend_eval cc v x y s"
  by (simp add: bend_eval_def Let_def and.assoc)

lemma bend_eval_high:
  assumes "nbits \<le> j"
  shows "\<not> bit (bend_eval (bend_compile b nbits) v x y s) j"
proof -
  have "bit (bend_eval (bend_compile b nbits) v x y s AND mask nbits) j \<longleftrightarrow>
      bit (bend_eval (bend_compile b nbits) v x y s) j"
    using bend_eval_mask[of "bend_compile b nbits" v x y s] by simp
  with assms show ?thesis by (simp add: bit_and_iff bit_mask_iff)
qed

text \<open>At the depth the matrix was authored for, a usable matrix is wired exactly as it reads.\<close>

lemma wire_same_depth:
  assumes "bend_ok b" "unat (b_nbits b) = nbits" "i < nbits"
  shows "wire b (from_bits b nbits) nbits i = decode_src (b_route b ! i)"
proof -
  have fr: "from_bits b nbits = nbits"
    using assms bend_okD(2)[OF assms(1)] by (simp add: from_bits_def)
  have rt: "retarget nbits nbits k = k" if "k < nbits" for k
    using that by (simp add: retarget_def bend_remap_def bend_remap_raw_def Let_def)
  have "src_fits nbits (decode_src (b_route b ! i))"
    using bend_okD(4)[OF assms(1)] assms by (simp add: src_ok_def)
  then show ?thesis
    using assms(3) by (cases "decode_src (b_route b ! i)") (simp_all add: wire_def fr rt)
qed

subsection \<open>Purity and identity\<close>

lemma is_pure_iff:
  assumes "nbits \<le> 16"
  shows "c_is_pure (bend_compile b nbits) \<longleftrightarrow>
    (\<forall>i<nbits. bus_of (wire b (from_bits b nbits) nbits i) = None)"
proof -
  have "p_dyn_mask (compile_pass b nbits) = 0 \<longleftrightarrow> (\<forall>i. \<not> bit (p_dyn_mask (compile_pass b nbits)) i)"
    by (auto intro: bit_eqI)
  then show ?thesis
    using compile_pass_inv[OF assms, of b] by (auto simp: bend_compile_def Let_def pass_inv_def)
qed

lemma pure_eval_const:
  assumes "c_is_pure (bend_compile b nbits)"
  shows "bend_eval (bend_compile b nbits) v x y s =
    ucast (c_lut (bend_compile b nbits) ! unat (v AND mask nbits)) AND mask nbits"
proof -
  have "c_dyn_mask (bend_compile b nbits) = 0"
    using assms by (simp add: bend_compile_def Let_def)
  then show ?thesis by (simp add: bend_eval_def)
qed

lemma identity_wires:
  assumes "c_is_identity (bend_compile b nbits)" "nbits \<le> 16" "i < nbits"
  shows "wire b (from_bits b nbits) nbits i = Data i"
proof -
  let ?R = "wire b (from_bits b nbits) nbits" and ?p = "compile_pass b nbits"
  have p: "pass_inv ?R nbits ?p" using assms(2) by (rule compile_pass_inv)
  have id: "p_dyn_mask ?p = 0" "p_tie_mask ?p = 0" "p_pin ?p ! i = i" "\<not> p_inv ?p ! i"
    using assms by (simp_all add: bend_compile_def Let_def)
  from p assms(3) have "bit (p_dyn_mask ?p) i \<longleftrightarrow> bus_of (?R i) \<noteq> None"
    "bit (p_tie_mask ?p) i \<longleftrightarrow> (\<exists>h. ?R i = Tie h)"
    "p_pin ?p ! i = (if is_data (?R i) then pin_of (?R i) else i)"
    "p_inv ?p ! i \<longleftrightarrow> is_data (?R i) \<and> is_neg (?R i)"
    using assms(2) unfolding pass_inv_def by simp_all
  with id wire_ok_wire[of b "from_bits b nbits" nbits i] show ?thesis
    by (cases "?R i") auto
qed

lemma identity_eval:
  assumes "c_is_identity (bend_compile b nbits)" "nbits \<le> 16"
  shows "bend_eval (bend_compile b nbits) v x y s = v AND mask nbits"
proof (rule bit_eqI)
  fix j
  show "bit (bend_eval (bend_compile b nbits) v x y s) j \<longleftrightarrow> bit (v AND mask nbits) j"
  proof (cases "j < nbits")
    case True
    with assms show ?thesis
      by (simp add: eval_compile_bit identity_wires bit_and_iff bit_mask_iff)
  next
    case False
    with assms show ?thesis by (simp add: bend_eval_high bit_and_iff bit_mask_iff)
  qed
qed

lemma identity_iff_wires:
  assumes "nbits \<le> 16"
  shows "c_is_identity (bend_compile b nbits) \<longleftrightarrow>
    (\<forall>i<nbits. wire b (from_bits b nbits) nbits i = Data i)"
proof
  assume w: "\<forall>i<nbits. wire b (from_bits b nbits) nbits i = Data i"
  let ?p = "compile_pass b nbits"
  have p: "pass_inv (wire b (from_bits b nbits) nbits) nbits ?p" using assms by (rule compile_pass_inv)
  have "\<not> bit (p_dyn_mask ?p) j" "\<not> bit (p_tie_mask ?p) j" for j
    using w by (auto simp: pass_invD(1,2)[OF p])
  then have "p_dyn_mask ?p = 0" "p_tie_mask ?p = 0"
    by (simp_all add: bit_eqI)
  moreover have "\<forall>i<nbits. p_pin ?p ! i = i \<and> \<not> p_inv ?p ! i"
    using w assms by (simp add: pass_invD(3,4)[OF p])
  ultimately show "c_is_identity (bend_compile b nbits)"
    by (simp add: bend_compile_def Let_def)
qed (use assms in \<open>simp add: identity_wires\<close>)

end
