(* ===== verification/BendSeg.thy ===== *)
theory BendSeg
  imports BendModel
begin

section \<open>Segment geometry (core/bend.c, include/bend.h)\<close>

text \<open>
  The layouts that split a frame into regions, one row at a time: \<open>bend_seg_spans\<close> cuts a
  row into spans, \<open>bseg_emit\<close> appends one span, \<open>bend_seg_at\<close> reads one pixel's region.
  A C \<open>int\<close> is an \<open>int\<close>: the divisions are C's truncating ones (\<open>sdiv\<close>, \<open>smod\<close>), the
  shifts are arithmetic, and the stores into the \<open>unsigned char\<close> and \<open>unsigned short\<close>
  arrays reduce modulo \<open>256\<close> and \<open>65536\<close>. The two arrays and their count are one list
  of pairs (region, end).
\<close>

abbreviation (input) BSEG_OFF :: int where "BSEG_OFF \<equiv> 0"
abbreviation (input) BSEG_HALF_H :: int where "BSEG_HALF_H \<equiv> 1"
abbreviation (input) BSEG_HALF_V :: int where "BSEG_HALF_V \<equiv> 2"
abbreviation (input) BSEG_QUAD :: int where "BSEG_QUAD \<equiv> 3"
abbreviation (input) BSEG_CIRCLE :: int where "BSEG_CIRCLE \<equiv> 4"
abbreviation (input) BSEG_RINGS :: int where "BSEG_RINGS \<equiv> 5"
abbreviation (input) BSEG_DIAG :: int where "BSEG_DIAG \<equiv> 6"
abbreviation (input) BSEG_WEDGE :: int where "BSEG_WEDGE \<equiv> 7"
abbreviation (input) BSEG_BANDS :: int where "BSEG_BANDS \<equiv> 8"
abbreviation (input) BSEG_BARS :: int where "BSEG_BARS \<equiv> 9"
abbreviation (input) BSEG_CHECKER :: int where "BSEG_CHECKER \<equiv> 10"
abbreviation (input) BSEG_WARP :: int where "BSEG_WARP \<equiv> 11"
abbreviation (input) BSEG_ZIGZAG :: int where "BSEG_ZIGZAG \<equiv> 12"
abbreviation (input) BSEG_TRUCHET :: int where "BSEG_TRUCHET \<equiv> 13"
abbreviation (input) BSEG_LINEWAVE :: int where "BSEG_LINEWAVE \<equiv> 14"
abbreviation (input) BSEG_CHECKS :: int where "BSEG_CHECKS \<equiv> 15"
abbreviation (input) BSEG_MIRROR :: int where "BSEG_MIRROR \<equiv> 16"
abbreviation (input) BSEG_COUNT :: int where "BSEG_COUNT \<equiv> 17"
abbreviation (input) BEND_SEG_MAX :: nat where "BEND_SEG_MAX \<equiv> 4"
abbreviation (input) BEND_SEG_SPANS :: nat where "BEND_SEG_SPANS \<equiv> 192"
abbreviation (input) BEND_SEG_MINCELL :: int where "BEND_SEG_MINCELL \<equiv> 18"

definition BSEG_IS_PATTERN :: "int \<Rightarrow> bool" where
  "BSEG_IS_PATTERN l \<longleftrightarrow> BSEG_WARP \<le> l \<and> l < BSEG_COUNT"

subsection \<open>Tables\<close>

definition bseg_names :: "string list" where
  "bseg_names = [''Off'', ''Top / bottom'', ''Left / right'', ''Quarters'', ''Centre circle'', ''Rings'',
     ''Diagonal'', ''Wedges - X'', ''Bands ---'', ''Bars |||'', ''Checkerboard'', ''Warped lines'',
     ''Zigzag'', ''Truchet'', ''Wave lines'', ''Checks'', ''Mirror tiles'']"

definition bseg_labels :: "string list list" where
  "bseg_labels =
     [[''whole frame'', [], [], []], [''top'', ''bottom'', [], []], [''left'', ''right'', [], []],
      [''top left'', ''top right'', ''bottom left'', ''bottom right''],
      [''circle'', ''around it'', [], []], [''centre'', ''ring'', ''outside'', []],
      [''upper right'', ''lower left'', [], []], [''top'', ''right'', ''bottom'', ''left''],
      [''band 1'', ''band 2'', ''band 3'', ''band 4''], [''bar 1'', ''bar 2'', ''bar 3'', ''bar 4''],
      [''square 1'', ''square 2'', ''square 3'', ''square 4''],
      [''black'', ''white'', [], []], [''black'', ''white'', [], []], [''black'', ''white'', [], []],
      [''black'', ''white'', [], []], [''black'', ''white'', [], []], [''black'', ''white'', [], []]]"

definition bseg_counts :: "int list" where
  "bseg_counts = [1, 2, 2, 4, 2, 3, 2, 4, 4, 4, 4, 2, 2, 2, 2, 2, 2]"

definition bend_seg_has_size :: "int \<Rightarrow> bool" where
  "bend_seg_has_size layout \<longleftrightarrow> layout = BSEG_CIRCLE \<or> layout = BSEG_RINGS \<or> layout = BSEG_BANDS \<or>
     layout = BSEG_BARS \<or> layout = BSEG_CHECKER \<or> BSEG_IS_PATTERN layout"

definition bend_seg_cuts_rows :: "int \<Rightarrow> bool" where
  "bend_seg_cuts_rows layout \<longleftrightarrow>
     \<not> (layout = BSEG_OFF \<or> layout = BSEG_HALF_H \<or> layout = BSEG_BANDS)"

definition bend_seg_count :: "int \<Rightarrow> int" where
  "bend_seg_count layout =
     (if layout < 0 \<or> BSEG_COUNT \<le> layout then 1 else bseg_counts ! nat layout)"

definition bend_seg_name :: "int \<Rightarrow> string" where
  "bend_seg_name layout =
     (let layout = (if layout < 0 \<or> BSEG_COUNT \<le> layout then BSEG_OFF else layout)
      in bseg_names ! nat layout)"

definition bend_seg_label :: "int \<Rightarrow> int \<Rightarrow> string" where
  "bend_seg_label layout seg =
     (let layout = (if layout < 0 \<or> BSEG_COUNT \<le> layout then BSEG_OFF else layout);
          seg = (if seg < 0 \<or> int BEND_SEG_MAX \<le> seg then 0 else seg)
      in bseg_labels ! nat layout ! nat seg)"

subsection \<open>The segment set and its gate\<close>

record bend_segs_t =
  g_layout :: u8
  g_active :: u8
  g_size :: u8
  g_pad :: u8
  g_slot :: "u8 list"
  g_b :: "bend_t list"

definition segs_shape :: "bend_segs_t \<Rightarrow> bool" where
  "segs_shape s \<longleftrightarrow> length (g_slot s) = BEND_SEG_MAX \<and> length (g_b s) = BEND_SEG_MAX - 1 \<and>
     (\<forall>b\<in>set (g_b s). bend_shape b)"

definition bend_seg_sanitize :: "bend_segs_t \<Rightarrow> nat \<Rightarrow> bend_segs_t" where
  "bend_seg_sanitize s nbits =
     (let s = (if BSEG_COUNT \<le> int (unat (g_layout s)) then s\<lparr>g_layout := 0\<rparr> else s);
          s = (if g_size s = 0 then s\<lparr>g_size := 50\<rparr> else s);
          s = (if 100 < g_size s then s\<lparr>g_size := 100\<rparr> else s);
          n = bend_seg_count (int (unat (g_layout s)));
          s = (if n \<le> int (unat (g_active s)) then s\<lparr>g_active := 0\<rparr> else s);
          s = s\<lparr>g_slot := map (\<lambda>v. if 100 < v then 0 else v) (g_slot s)\<rparr>
      in s\<lparr>g_b := map (\<lambda>b. bend_sanitize b nbits) (g_b s)\<rparr>)"

definition segs_ok :: "bend_segs_t \<Rightarrow> bool" where
  "segs_ok s \<longleftrightarrow> segs_shape s \<and> int (unat (g_layout s)) < BSEG_COUNT \<and>
     1 \<le> g_size s \<and> g_size s \<le> 100 \<and>
     int (unat (g_active s)) < bend_seg_count (int (unat (g_layout s))) \<and>
     (\<forall>v\<in>set (g_slot s). v \<le> 100) \<and> (\<forall>b\<in>set (g_b s). bend_ok b)"

lemma segs_ok_shape: "segs_ok s \<Longrightarrow> segs_shape s"
  by (simp add: segs_ok_def)

definition segs_view :: "bend_segs_t \<Rightarrow> bend_segs_t" where
  "segs_view s = s\<lparr>g_b := map bend_view (g_b s)\<rparr>"

lemma bend_seg_count_range: "1 \<le> bend_seg_count l \<and> bend_seg_count l \<le> int BEND_SEG_MAX"
proof (cases "l < 0 \<or> BSEG_COUNT \<le> l")
  case False
  moreover have "\<forall>n\<in>set bseg_counts. 1 \<le> n \<and> n \<le> 4" by (simp add: bseg_counts_def)
  moreover have "length bseg_counts = 17" by (simp add: bseg_counts_def)
  moreover have "nat l < 17" using False by auto
  ultimately show ?thesis by (simp add: bend_seg_count_def)
qed (simp add: bend_seg_count_def)

lemma bend_seg_sanitize_ok:
  assumes "segs_shape s" "2 \<le> nb" "nb \<le> 16"
  shows "segs_ok (bend_seg_sanitize s nb)"
  using assms bend_seg_count_range[of 0] bend_seg_count_range[of "int (unat (g_layout s))"]
  by (auto simp: bend_seg_sanitize_def Let_def segs_ok_def segs_shape_def bend_sanitize_ok bend_ok_shape
      word_le_nat_alt word_less_nat_alt not_less unat_gt_0 Suc_le_eq)

lemma bend_seg_sanitize_view:
  assumes "segs_ok s"
  shows "segs_view (bend_seg_sanitize s nb) = segs_view s"
proof -
  have "map (\<lambda>v. if 100 < v then 0 else v) (g_slot s) = g_slot s"
    using assms by (intro map_idI) (auto simp: segs_ok_def)
  moreover have "map (bend_view \<circ> (\<lambda>b. bend_sanitize b nb)) (g_b s) = map bend_view (g_b s)"
    using assms by (simp add: segs_ok_def bend_sanitize_view)
  moreover have "g_size s \<noteq> 0" "\<not> 100 < g_size s"
    using assms by (auto simp: segs_ok_def not_less word_le_nat_alt)
  ultimately show ?thesis
    using assms by (simp add: bend_seg_sanitize_def segs_view_def segs_ok_def)
qed

interpretation segs_gate: gate "\<lambda>(nb, s). (nb, bend_seg_sanitize s nb)"
  "\<lambda>(nb, s). 2 \<le> nb \<and> nb \<le> 16 \<and> segs_shape s"
  "\<lambda>(nb, s). 2 \<le> nb \<and> nb \<le> 16 \<and> segs_ok s"
  "\<lambda>(nb, s). segs_view s"
  by unfold_locales (auto simp: bend_seg_sanitize_ok bend_seg_sanitize_view segs_ok_shape)

subsection \<open>Integer square root and chords\<close>

text \<open>
  The bit-at-a-time square root of an \<open>unsigned\<close>. None of its sums leaves 32 bits (\<open>root\<close>
  stays below \<open>2 ^ 31\<close> and \<open>bit\<close> at or below \<open>2 ^ 30\<close>), so it is stated on \<open>nat\<close>.
\<close>

fun isqrt_scale :: "nat \<Rightarrow> nat \<Rightarrow> nat" where
  "isqrt_scale rem bt = (if rem < bt then isqrt_scale rem (bt div 4) else bt)"

fun isqrt_loop :: "nat \<Rightarrow> nat \<Rightarrow> nat \<Rightarrow> nat" where
  "isqrt_loop rem root bt =
     (if bt = 0 then root
      else if root + bt \<le> rem then isqrt_loop (rem - (root + bt)) (root div 2 + bt) (bt div 4)
      else isqrt_loop rem (root div 2) (bt div 4))"

declare isqrt_scale.simps [simp del] isqrt_loop.simps [simp del]

definition bseg_isqrt :: "nat \<Rightarrow> nat" where
  "bseg_isqrt v = isqrt_loop v 0 (isqrt_scale v (2 ^ 30))"

definition bseg_chord :: "int \<Rightarrow> int \<Rightarrow> int" where
  "bseg_chord r dy =
     (let dy = (if dy < 0 then - dy else dy) in
      if r \<le> 0 \<or> r \<le> dy then 0 else int (bseg_isqrt (nat (r * r - dy * dy))))"

lemma isqrt_loop_correct:
  assumes "p ^ 2 \<le> v" "v < (p + 2 ^ m) ^ 2"
  shows "let r = isqrt_loop (v - p ^ 2) (p * 2 ^ m) (if m = 0 then 0 else 4 ^ (m - 1))
    in r ^ 2 \<le> v \<and> v < (r + 1) ^ 2"
  using assms
proof (induction m arbitrary: p)
  case 0
  then show ?case by (simp add: isqrt_loop.simps)
next
  case (Suc m)
  have sq: "(p + 2 ^ m) ^ 2 = p ^ 2 + (p * 2 ^ Suc m + 4 ^ m)"
    by (simp add: power2_eq_square algebra_simps flip: power_mult_distrib)
  have half: "p * 2 ^ Suc m div 2 = p * 2 ^ m" by simp
  have quarter: "(4::nat) ^ m div 4 = (if m = 0 then 0 else 4 ^ (m - 1))"
    by (cases m) simp_all
  have next_root: "p * 2 ^ m + 4 ^ m = (p + 2 ^ m) * (2 ^ m :: nat)"
    by (simp add: algebra_simps flip: power_mult_distrib)
  show ?case
  proof (cases "p * 2 ^ Suc m + 4 ^ m \<le> v - p ^ 2")
    case True
    have "isqrt_loop (v - p ^ 2) (p * 2 ^ Suc m) (4 ^ m) =
        isqrt_loop (v - (p + 2 ^ m) ^ 2) ((p + 2 ^ m) * 2 ^ m) (if m = 0 then 0 else 4 ^ (m - 1))"
      using True by (subst isqrt_loop.simps) (simp only: sq half quarter next_root, simp)
    moreover have "(p + 2 ^ m) ^ 2 \<le> v" using True Suc.prems(1) by (simp only: sq)
    moreover have "v < (p + 2 ^ m + 2 ^ m) ^ 2" using Suc.prems(2) by (simp add: mult_2 add.assoc)
    ultimately show ?thesis using Suc.IH[of "p + 2 ^ m"] by simp
  next
    case False
    have "isqrt_loop (v - p ^ 2) (p * 2 ^ Suc m) (4 ^ m) =
        isqrt_loop (v - p ^ 2) (p * 2 ^ m) (if m = 0 then 0 else 4 ^ (m - 1))"
      using False by (subst isqrt_loop.simps) (simp only: half quarter, simp)
    moreover have "v < (p + 2 ^ m) ^ 2" using False Suc.prems(1) by (simp only: sq)
    ultimately show ?thesis using Suc.IH[of p] Suc.prems(1) by simp
  qed
qed

lemma isqrt_scale_correct:
  "v < 4 ^ Suc k \<Longrightarrow> \<exists>m. isqrt_scale v (4 ^ k) = (if m = 0 then 0 else 4 ^ (m - 1)) \<and> v < 4 ^ m"
proof (induction k)
  case 0
  show ?case
  proof (cases "v < 1")
    case True
    have "isqrt_scale 0 0 = 0" by (simp add: isqrt_scale.simps)
    with True show ?thesis by (intro exI[of _ 0]) (simp add: isqrt_scale.simps[of 0 "Suc 0"])
  next
    case False
    with 0 show ?thesis by (intro exI[of _ 1]) (simp add: isqrt_scale.simps)
  qed
next
  case (Suc k)
  show ?case
  proof (cases "v < 4 ^ Suc k")
    case True
    then have "isqrt_scale v (4 ^ Suc k) = isqrt_scale v (4 ^ k)"
      by (subst isqrt_scale.simps) simp
    with Suc.IH[OF True] show ?thesis by simp
  next
    case False
    then have "isqrt_scale v (4 ^ Suc k) = 4 ^ Suc k" by (subst isqrt_scale.simps) simp
    with Suc.prems show ?thesis by (intro exI[of _ "Suc (Suc k)"]) simp
  qed
qed

theorem bseg_isqrt_floor:
  assumes "v < 2 ^ 32"
  shows "bseg_isqrt v ^ 2 \<le> v \<and> v < (bseg_isqrt v + 1) ^ 2"
proof -
  have "v < 4 ^ Suc 15" using assms by simp
  then obtain m where m: "isqrt_scale v (4 ^ 15) = (if m = 0 then 0 else 4 ^ (m - 1))" "v < 4 ^ m"
    using isqrt_scale_correct by blast
  have "v < (0 + 2 ^ m) ^ 2" using m(2) by (simp add: power2_eq_square flip: power_mult_distrib)
  with isqrt_loop_correct[of 0 v m] m(1) show ?thesis
    by (simp add: bseg_isqrt_def Let_def)
qed

subsection \<open>Hashes, value noise and the cheap sine\<close>

definition bseg_hash :: "int \<Rightarrow> int \<Rightarrow> int" where
  "bseg_hash x y =
     (let h = word_of_int x * 374761393 + word_of_int y * 668265263 :: u32;
          h = (h XOR drop_bit 13 h) * 1274126177
      in uint ((h XOR drop_bit 16 h) AND 0xFF))"

definition bseg_vnoise :: "int \<Rightarrow> int \<Rightarrow> int" where
  "bseg_vnoise px py =
     (let i = drop_bit 8 px; j = drop_bit 8 py; fx = px AND 0xFF; fy = py AND 0xFF;
          ux = drop_bit 16 (fx * fx * (768 - 2 * fx));
          uy = drop_bit 16 (fy * fy * (768 - 2 * fy));
          a = bseg_hash i j; b = bseg_hash (i + 1) j;
          c = bseg_hash i (j + 1); d = bseg_hash (i + 1) (j + 1);
          ab = a + drop_bit 8 ((b - a) * ux);
          cd = c + drop_bit 8 ((d - c) * ux)
      in ab + drop_bit 8 ((cd - ab) * uy))"

definition bseg_sin :: "int \<Rightarrow> int" where
  "bseg_sin a =
     (let x = (a AND 255) * 2; x = (if 256 \<le> x then x - 512 else x)
      in (x * (256 - (if x < 0 then - x else x))) sdiv 64)"

definition bseg_cos :: "int \<Rightarrow> int" where
  "bseg_cos a = bseg_sin (a + 64)"

definition BSEG_WARP_TURN :: int where "BSEG_WARP_TURN = 64"
definition BSEG_WARP_SPAN_X :: int where "BSEG_WARP_SPAN_X = 10 * 256"
definition BSEG_WARP_SPAN_Y :: int where "BSEG_WARP_SPAN_Y = 3 * 256"
definition BSEG_TWO_PI :: int where "BSEG_TWO_PI = 1608"

subsection \<open>The per-shot re-roll\<close>

text \<open>The static variables of the pattern layouts.\<close>

record pat_state =
  bseg_seed :: u32
  bseg_seed_cur :: u32
  bseg_ox :: int
  bseg_oy :: int
  bseg_inv :: int
  bseg_nx :: int
  bseg_ny :: int

definition pat_boot :: pat_state where
  "pat_boot = \<lparr>bseg_seed = 0x5eed1e55, bseg_seed_cur = 0, bseg_ox = 0, bseg_oy = 0, bseg_inv = 0,
     bseg_nx = 0, bseg_ny = 0\<rparr>"

definition bseg_mix :: "u32 \<Rightarrow> u32 \<Rightarrow> u32" where
  "bseg_mix s k =
     (let s = s XOR (k * 2654435761); s = s XOR drop_bit 15 s; s = s * 2246822519
      in s XOR drop_bit 13 s)"

definition bend_seg_set_seed :: "pat_state \<Rightarrow> u32 \<Rightarrow> pat_state" where
  "bend_seg_set_seed st s = st\<lparr>bseg_seed := (if s \<noteq> 0 then s else 0x5eed1e55)\<rparr>"

definition bseg_pat_prep :: "pat_state \<Rightarrow> pat_state" where
  "bseg_pat_prep st =
     (if bseg_seed_cur st = bseg_seed st then st
      else let s = bseg_seed st in
        st\<lparr>bseg_seed_cur := s,
           bseg_ox := uint (bseg_mix s 1 AND 255), bseg_oy := uint (bseg_mix s 2 AND 255),
           bseg_inv := uint (bseg_mix s 3 AND 1),
           bseg_nx := uint (bseg_mix s 4 AND 1023), bseg_ny := uint (bseg_mix s 5 AND 1023)\<rparr>)"

definition bseg_pat_zoom :: "int \<Rightarrow> int" where
  "bseg_pat_zoom sz = 2 + (sz * 10) sdiv 100"

definition bseg_pat_nstr :: "int \<Rightarrow> int" where
  "bseg_pat_nstr sz = 8 + (sz * 56) sdiv 100"

definition bseg_pat_step :: "int \<Rightarrow> int \<Rightarrow> int \<Rightarrow> int" where
  "bseg_pat_step layout sz w =
     (let feats = (if layout = BSEG_WARP then bseg_pat_nstr sz * 4 else bseg_pat_zoom sz * 16);
          s = (if 0 < feats then w sdiv feats else 1)
      in if s < 1 then 1 else s)"

subsection \<open>The six patterns\<close>

definition pat_warp :: "pat_state \<Rightarrow> int \<Rightarrow> int \<Rightarrow> int \<Rightarrow> bool" where
  "pat_warp st sz sx sy =
     (let nstr = bseg_pat_nstr sz;
          pux = (sy * BSEG_WARP_SPAN_X) sdiv 256;
          puy = (sx * BSEG_WARP_SPAN_Y) sdiv 256;
          ang = drop_bit 8 (bseg_vnoise (pux + bseg_nx st) (puy + bseg_ny st) * BSEG_WARP_TURN);
          rx = drop_bit 8 (pux * bseg_cos ang - puy * bseg_sin ang)
      in ((rx * nstr) sdiv BSEG_WARP_SPAN_X) AND 1 \<noteq> 0)"

definition pat_zigzag :: "int \<Rightarrow> int \<Rightarrow> int \<Rightarrow> bool" where
  "pat_zigzag zoom sx sy =
     (let tx = sx * zoom; ty = sy * 2 * zoom;
          (tx, ty) = (if drop_bit 8 ty AND 1 \<noteq> 0 then (tx + 128, 256 - ty) else (tx, ty));
          fx = tx AND 255; fy = ty AND 255;
          x2 = fx * 2;
          a = (if drop_bit 8 x2 AND 1 \<noteq> 0 then False else True);
          f = x2 AND 255;
          pct = (if a then 256 - f else f)
      in pct < fy)"

definition pat_truchet :: "int \<Rightarrow> int \<Rightarrow> int \<Rightarrow> bool" where
  "pat_truchet zoom sx sy =
     (let tx = (sx * zoom) AND 255; ty = (sy * zoom) AND 255;
          tx2 = tx * 2; ty2 = ty * 2;
          idx = (drop_bit 8 tx2 AND 1) + push_bit 1 (drop_bit 8 ty2 AND 1);
          fx = tx2 AND 255; fy = ty2 AND 255;
          (rx, ry) = (if idx = 1 then (256 - fy, fx)
                      else if idx = 2 then (fy, 256 - fx)
                      else if idx = 3 then (256 - fx, 256 - fy)
                      else (fx, fy))
      in rx \<le> ry)"

definition pat_linewave :: "int \<Rightarrow> int \<Rightarrow> int \<Rightarrow> int \<Rightarrow> int \<Rightarrow> bool" where
  "pat_linewave zoom w h sx sy =
     (let sxa = (if 0 < h then (sx * w) sdiv h else sx);
          X = sxa * zoom; Y = sy * zoom;
          a = ((X * 3) * 256) sdiv BSEG_TWO_PI;
          Y = Y + bseg_cos a;
          u = bseg_sin (drop_bit 1 Y);
          u = (if u < 0 then - u else u)
      in u \<le> 128)"

definition pat_checks :: "int \<Rightarrow> int \<Rightarrow> int \<Rightarrow> bool" where
  "pat_checks zoom sx sy =
     (let tx = (sx * zoom) AND 255; ty = (sy * zoom) AND 255;
          dx = tx - 128; dy = ty - 128;
          rx = 128 + (dx * 181 - dy * 181) sdiv 256;
          ry = 128 + (dx * 181 + dy * 181) sdiv 256
      in 38 < rx \<and> rx < 218 \<and> 38 < ry \<and> ry < 218)"

definition pat_mirror :: "int \<Rightarrow> int \<Rightarrow> int \<Rightarrow> bool" where
  "pat_mirror zoom sx sy =
     (let tx = sx * zoom; ty = sy * zoom;
          ty = (if drop_bit 8 ty AND 1 \<noteq> 0 then 256 - ty else ty);
          fx = tx AND 255; fy = ty AND 255;
          pct = 128 + (bseg_sin fx * 115) sdiv 256
      in pct < fy)"

definition bseg_pat_at :: "pat_state \<Rightarrow> int \<Rightarrow> int \<Rightarrow> int \<Rightarrow> int \<Rightarrow> int \<Rightarrow> int \<Rightarrow> int" where
  "bseg_pat_at st layout x y w h sz =
     (let sx = (if 0 < w then (x * 256) sdiv w + bseg_ox st else 0);
          sy = (if 0 < h then (y * 256) sdiv h + bseg_oy st else 0);
          zoom = bseg_pat_zoom sz;
          v = (if layout = BSEG_WARP then pat_warp st sz sx sy
               else if layout = BSEG_ZIGZAG then pat_zigzag zoom sx sy
               else if layout = BSEG_TRUCHET then pat_truchet zoom sx sy
               else if layout = BSEG_LINEWAVE then pat_linewave zoom w h sx sy
               else if layout = BSEG_CHECKS then pat_checks zoom sx sy
               else pat_mirror zoom sx sy)
      in of_bool (if bseg_inv st \<noteq> 0 then \<not> v else v))"

subsection \<open>Cutting a row into spans\<close>

type_synonym spans = "(int \<times> int) list"

definition span_end :: "spans \<Rightarrow> int" where
  "span_end sp = (if sp \<noteq> [] then snd (last sp) else 0)"

definition set_last_end :: "spans \<Rightarrow> int \<Rightarrow> spans" where
  "set_last_end sp x = butlast sp @ [(fst (last sp), x mod 65536)]"

definition bseg_emit :: "spans \<Rightarrow> int \<Rightarrow> int \<Rightarrow> int \<Rightarrow> spans" where
  "bseg_emit sp s x w =
     (let x = (if w < x then w else x) in
      if x \<le> span_end sp then sp
      else if sp \<noteq> [] \<and> fst (last sp) = s mod 256 then set_last_end sp x
      else if BEND_SEG_SPANS \<le> length sp then set_last_end sp x
      else sp @ [(s mod 256, x mod 65536)])"

text \<open>
  The values of a loop counter \<open>for (x = x0; x < w; x += step)\<close>. Every caller's step is at
  least 1; the test of it here makes the recursion well-founded and never decides.
\<close>

function strides :: "int \<Rightarrow> int \<Rightarrow> int \<Rightarrow> int list" where
  "strides x step w = (if x < w \<and> 0 < step then x # strides (x + step) step w else [])"
  by pat_completeness auto
termination
  by (relation "measure (\<lambda>(x, step, w). nat (w - x))") auto

declare strides.simps [simp del]

definition pat_sample :: "(int \<Rightarrow> int) \<Rightarrow> int \<Rightarrow> int \<Rightarrow> int \<times> spans \<Rightarrow> int \<times> spans" where
  "pat_sample at w x = (\<lambda>(cur, sp).
     (let s = at x in if s \<noteq> cur then (s, bseg_emit sp cur x w) else (cur, sp)))"

definition pat_spans :: "(int \<Rightarrow> int) \<Rightarrow> int \<Rightarrow> int \<Rightarrow> spans" where
  "pat_spans at step w =
     (let (cur, sp) = fold (pat_sample at w) (strides step step w) (at 0, [])
      in bseg_emit sp cur w w)"

definition layout_spans :: "pat_state \<Rightarrow> int \<Rightarrow> int \<Rightarrow> int \<Rightarrow> int \<Rightarrow> int \<Rightarrow> spans" where
  "layout_spans st layout sz y w h =
     (let cx = w sdiv 2; cy = h sdiv 2; rmax = (if w < h then w else h) sdiv 2;
          emit = (\<lambda>s x sp. bseg_emit sp s x w) in
      if layout = BSEG_HALF_H then emit (if y < cy then 0 else 1) w []
      else if layout = BSEG_HALF_V then emit 1 w (emit 0 cx [])
      else if layout = BSEG_QUAD then
        (let top = (if y < cy then 0 else 2) in emit (top + 1) w (emit top cx []))
      else if layout = BSEG_CIRCLE then
        (let r = rmax * sz sdiv 100; c = bseg_chord r (y - cy)
         in emit 1 w (emit 0 (cx + c) (emit 1 (cx - c) [])))
      else if layout = BSEG_RINGS then
        (let ro = rmax * sz sdiv 100; ri = ro sdiv 2;
             co = bseg_chord ro (y - cy); ci = bseg_chord ri (y - cy)
         in emit 2 w (emit 1 (cx + co) (emit 0 (cx + ci) (emit 1 (cx - ci) (emit 2 (cx - co) [])))))
      else if layout = BSEG_DIAG then
        (let xb = (w * y) sdiv (if 0 < h then h else 1) in emit 0 w (emit 1 xb []))
      else if layout = BSEG_WEDGE then
        (let d1 = (w * y) sdiv (if 0 < h then h else 1); d2 = w - d1;
             lo = (if d1 < d2 then d1 else d2); hi = (if d1 < d2 then d2 else d1);
             mid = (if y < cy then 0 else 2)
         in emit 1 w (emit mid hi (emit 3 lo [])))
      else if layout = BSEG_BANDS then
        (let band = (h * sz sdiv 100) sdiv int BEND_SEG_MAX;
             yy = (if y < 0 then 0 else y);
             band = (if band < 1 then 1 else band)
         in emit ((yy sdiv band) smod int BEND_SEG_MAX) w [])
      else if layout = BSEG_BARS then
        (let bar = (w * sz sdiv 100) sdiv int BEND_SEG_MAX;
             bar = (if bar < w sdiv BEND_SEG_MINCELL then w sdiv BEND_SEG_MINCELL else bar);
             bar = (if bar < 1 then 1 else bar)
         in fold (\<lambda>x. emit ((x sdiv bar) smod int BEND_SEG_MAX) (x + bar)) (strides 0 bar w) [])
      else if layout = BSEG_CHECKER then
        (let cell = (rmax * 2 * sz sdiv 100) sdiv int BEND_SEG_MAX;
             cell = (if cell < w sdiv BEND_SEG_MINCELL then w sdiv BEND_SEG_MINCELL else cell);
             cell = (if cell < 1 then 1 else cell);
             row = (if y < 0 then 0 else y) sdiv cell
         in fold (\<lambda>x. emit ((x sdiv cell + row) smod int BEND_SEG_MAX) (x + cell)) (strides 0 cell w) [])
      else if BSEG_IS_PATTERN layout then
        (let yy = (if y < 0 then 0 else y)
         in pat_spans (\<lambda>x. bseg_pat_at st layout x yy w h sz) (bseg_pat_step layout sz w) w)
      else emit 0 w [])"

definition bend_seg_spans ::
    "pat_state \<Rightarrow> int \<Rightarrow> int \<Rightarrow> int \<Rightarrow> int \<Rightarrow> int \<Rightarrow> pat_state \<times> spans" where
  "bend_seg_spans st layout sz y w h =
     (if w \<le> 0 then (st, [(0, 0)])
      else
        let layout = (if layout < 0 \<or> BSEG_COUNT \<le> layout then BSEG_OFF else layout);
            sz = (if sz < 1 then 1 else sz);
            sz = (if 100 < sz then 100 else sz);
            st = (if BSEG_IS_PATTERN layout then bseg_pat_prep st else st);
            sp = layout_spans st layout sz y w h
        in (st, if sp = [] then [(0, w mod 65536)] else sp))"

fun span_at :: "spans \<Rightarrow> int \<Rightarrow> int" where
  "span_at [] x = 0"
| "span_at [(s, e)] x = s"
| "span_at ((s, e) # sp) x = (if x < e then s else span_at sp x)"

definition bend_seg_at ::
    "pat_state \<Rightarrow> int \<Rightarrow> int \<Rightarrow> int \<Rightarrow> int \<Rightarrow> int \<Rightarrow> int \<Rightarrow> pat_state \<times> int" where
  "bend_seg_at st layout sz x y w h =
     (let (st, sp) = bend_seg_spans st layout sz y w h in (st, span_at sp x))"

subsection \<open>Every row is tiled\<close>

text \<open>
  \<open>rising sp\<close>: the ends rise strictly from above \<open>lo\<close>. \<open>spans_inv\<close> is what every list of
  spans under construction satisfies; \<open>tiles\<close> is what a finished row satisfies.
\<close>

fun rising :: "int \<Rightarrow> spans \<Rightarrow> bool" where
  "rising lo [] = True"
| "rising lo ((s, e) # sp) = (lo < e \<and> rising e sp)"

definition spans_inv :: "int \<Rightarrow> int \<Rightarrow> spans \<Rightarrow> bool" where
  "spans_inv w n sp \<longleftrightarrow> rising 0 sp \<and> span_end sp \<le> w \<and> length sp \<le> BEND_SEG_SPANS \<and>
     (\<forall>(s, e)\<in>set sp. 0 \<le> s \<and> s < n)"

definition tiles :: "int \<Rightarrow> int \<Rightarrow> spans \<Rightarrow> bool" where
  "tiles w n sp \<longleftrightarrow> sp \<noteq> [] \<and> rising 0 sp \<and> span_end sp = w \<and> length sp \<le> BEND_SEG_SPANS \<and>
     (\<forall>(s, e)\<in>set sp. 0 \<le> s \<and> s < n)"

lemma span_end_simps [simp]:
  "span_end [] = 0" "span_end (sp @ [(s, e)]) = e" "sp \<noteq> [] \<Longrightarrow> span_end (set_last_end sp x) = x mod 65536"
  by (simp_all add: span_end_def set_last_end_def)

lemma rising_append: "rising lo (sp @ [(s, e)]) \<longleftrightarrow> rising lo sp \<and> (if sp = [] then lo else span_end sp) < e"
  by (induction lo sp rule: rising.induct) (auto simp: span_end_def)

lemma rising_set_last:
  "\<lbrakk>rising lo sp; sp \<noteq> []; span_end sp < x mod 65536\<rbrakk> \<Longrightarrow> rising lo (set_last_end sp x)"
proof (induction sp rule: rev_induct)
  case (snoc a sp)
  then show ?case
    by (cases a) (auto simp: set_last_end_def rising_append split: if_splits)
qed simp

lemma spans_inv_Nil [simp]: "0 \<le> w \<Longrightarrow> spans_inv w n []"
  by (simp add: spans_inv_def)

lemma set_last_regions:
  "\<lbrakk>\<forall>(s, e)\<in>set sp. P s; sp \<noteq> []\<rbrakk> \<Longrightarrow> \<forall>(s, e)\<in>set (set_last_end sp x). P s"
  by (induction sp rule: rev_induct) (auto simp: set_last_end_def)

lemma bseg_emit_inv:
  assumes "spans_inv w n sp" "0 \<le> s" "s < n" "n \<le> 256" "w < 65536"
  shows "spans_inv w n (bseg_emit sp s x w)"
    and "span_end (bseg_emit sp s x w) = max (span_end sp) (min x w)"
proof -
  define x' where "x' = min x w"
  have x': "(if w < x then w else x) = x'" by (simp add: x'_def)
  have s: "s mod 256 = s" using assms by simp
  have nonneg: "0 \<le> span_end sp"
    using assms(1) by (induction sp rule: rev_induct)
      (auto simp: spans_inv_def rising_append split: if_splits)
  have m: "x' mod 65536 = x'" if "span_end sp < x'"
    using that assms nonneg by (simp add: x'_def)
  have last: "spans_inv w n (set_last_end sp x')" if "span_end sp < x'" "sp \<noteq> []"
  proof -
    have "\<forall>(s, e)\<in>set sp. 0 \<le> s \<and> s < n" using assms(1) by (simp add: spans_inv_def)
    from set_last_regions[OF this that(2)]
    have regions: "\<forall>(s, e)\<in>set (set_last_end sp x'). 0 \<le> s \<and> s < n" .
    have "rising 0 (set_last_end sp x')"
      using assms(1) that m by (intro rising_set_last) (simp_all add: spans_inv_def)
    moreover have "length (set_last_end sp x') = length sp"
      using that by (simp add: set_last_end_def)
    ultimately show ?thesis
      using assms(1) that m regions by (simp add: spans_inv_def x'_def)
  qed
  have app: "spans_inv w n (sp @ [(s, x')])" if "span_end sp < x'" "length sp < 192"
    using assms that by (auto simp: spans_inv_def rising_append x'_def span_end_def)
  show "spans_inv w n (bseg_emit sp s x w)"
    using assms(1) last app m unfolding bseg_emit_def Let_def x' s
    by (cases "sp = []") (auto simp: not_le)
  show "span_end (bseg_emit sp s x w) = max (span_end sp) (min x w)"
    using m nonneg unfolding bseg_emit_def Let_def x' s x'_def[symmetric]
    by (cases "sp = []") (auto simp: not_le span_end_def[of "[(a, b)]" for a b] max_def)
qed

lemma bseg_emit_full:
  assumes "spans_inv w n sp" "0 \<le> s" "s < n" "n \<le> 256" "w < 65536" "w \<le> x"
  shows "span_end (bseg_emit sp s x w) = w"
  using bseg_emit_inv(2)[OF assms(1-5), of x] assms(1,6) by (simp add: spans_inv_def)

lemma strides_emit:
  assumes "\<And>x. 0 \<le> x \<Longrightarrow> 0 \<le> f x \<and> f x < n" "n \<le> 256" "w < 65536" "0 < step"
    "spans_inv w n sp" "0 \<le> x"
  shows "spans_inv w n (fold (\<lambda>x sp. bseg_emit sp (f x) (x + step) w) (strides x step w) sp) \<and>
    (x < w \<longrightarrow> span_end (fold (\<lambda>x sp. bseg_emit sp (f x) (x + step) w) (strides x step w) sp) = w)"
  using assms(3-6)
proof (induction x step w arbitrary: sp rule: strides.induct)
  case (1 x step w)
  show ?case
  proof (cases "x < w")
    case True
    have e: "spans_inv w n (bseg_emit sp (f x) (x + step) w)"
      using bseg_emit_inv(1)[OF 1(4) _ _ assms(2) 1(2)] assms(1)[OF 1(5)] by blast
    have st: "strides x step w = x # strides (x + step) step w"
      using True 1 by (simp add: strides.simps[of x])
    have nil: "strides (x + step) step w = []" if "w \<le> x + step"
      using that by (simp add: strides.simps[of "x + step"])
    show ?thesis
      using 1(1)[OF _ 1(2,3) e] True e 1(2-5) bseg_emit_full[of w n sp "f x" "x + step"] assms(1)[of x] assms(2)
      by (cases "x + step < w") (auto simp: st nil)
  next
    case False
    then show ?thesis using 1 by (simp add: strides.simps[of x])
  qed
qed

lemma bseg_emit_0 [simp]: "0 \<le> w \<Longrightarrow> spans_inv w n [(s, e)] \<longleftrightarrow> 0 < e \<and> e \<le> w \<and> 0 \<le> s \<and> s < n"
  by (simp add: spans_inv_def span_end_def)

lemma pat_spans_inv:
  assumes "\<And>x. 0 \<le> at x \<and> at x < n" "n \<le> 256" "0 < w" "w < 65536"
  shows "spans_inv w n (pat_spans at step w)" "span_end (pat_spans at step w) = w"
proof -
  define good where "good = (\<lambda>(cur, sp). 0 \<le> cur \<and> cur < n \<and> spans_inv w n sp)"
  have step: "good (pat_sample at w x cs)" if "good cs" for x cs
    using that assms bseg_emit_inv(1)[of w n "snd cs" "fst cs" x]
    by (auto simp: good_def pat_sample_def Let_def split: prod.splits)
  have "good (fold (pat_sample at w) xs cs)" if "good cs" for xs cs
    using that by (induction xs arbitrary: cs) (simp_all add: step)
  from this[of "(at 0, [])" "strides step step w"]
  obtain cur sp where f: "fold (pat_sample at w) (strides step step w) (at 0, []) = (cur, sp)"
    and g: "0 \<le> cur" "cur < n" "spans_inv w n sp"
    using assms by (cases "fold (pat_sample at w) (strides step step w) (at 0, [])")
      (auto simp: good_def)
  show "spans_inv w n (pat_spans at step w)" "span_end (pat_spans at step w) = w"
    using bseg_emit_inv(1) bseg_emit_full g assms by (simp_all add: pat_spans_def f)
qed

text \<open>The chains of \<open>bseg_emit\<close> that the fixed layouts are.\<close>

lemma emit_chain:
  assumes "spans_inv w n sp" "0 \<le> s" "s < n" "n \<le> 256" "w < 65536"
  shows "spans_inv w n (bseg_emit sp s x w) \<and> span_end (bseg_emit sp s w w) = w"
  using bseg_emit_inv(1)[OF assms] bseg_emit_full[OF assms] by simp

lemma region_mod4: "0 \<le> (a::int) \<Longrightarrow> 0 \<le> a smod 4 \<and> a smod 4 < 4"
  by (simp add: signed_modulo_int_def sgn_if)

lemma sdiv_nonneg: "\<lbrakk>0 \<le> (a::int); 0 < b\<rbrakk> \<Longrightarrow> 0 \<le> a sdiv b"
  by (simp add: signed_divide_int_def sgn_if pos_imp_zdiv_nonneg_iff)

lemmas emit_inv = emit_chain[THEN conjunct1]
lemmas emit_end = bseg_emit_full[OF _ _ _ _ _ order_refl]

lemma fixed_layout_tiles:
  assumes "0 < w" "w < 65536" "0 \<le> layout" "layout < 8"
  shows "spans_inv w (bend_seg_count layout) (layout_spans st layout sz y w h) \<and>
    span_end (layout_spans st layout sz y w h) = w"
proof -
  consider "layout = 0" | "layout = 1" | "layout = 2" | "layout = 3" | "layout = 4" | "layout = 5"
    | "layout = 6" | "layout = 7"
    using assms(3,4) by linarith
  then show ?thesis
    using assms(1,2)
    by cases (simp_all add: layout_spans_def Let_def bend_seg_count_def bseg_counts_def
        BSEG_IS_PATTERN_def emit_inv emit_end[where n = 4])
qed

lemma stripes:
  assumes "0 < w" "w < 65536" "0 < b" "0 \<le> r"
  shows "spans_inv w 4 (fold (\<lambda>x sp. bseg_emit sp ((x sdiv b + r) smod 4) (x + b) w) (strides 0 b w) []) \<and>
    span_end (fold (\<lambda>x sp. bseg_emit sp ((x sdiv b + r) smod 4) (x + b) w) (strides 0 b w) []) = w"
proof -
  have "0 \<le> (x sdiv b + r) smod 4 \<and> (x sdiv b + r) smod 4 < 4" if "0 \<le> x" for x
    using that assms by (intro region_mod4 add_nonneg_nonneg sdiv_nonneg) auto
  then show ?thesis
    using strides_emit[of "\<lambda>x. (x sdiv b + r) smod 4" 4 w b "[]" 0] assms by simp
qed

lemma repeat_layout_tiles:
  assumes "0 < w" "w < 65536" "8 \<le> layout" "layout < 17"
  shows "spans_inv w (bend_seg_count layout) (layout_spans st layout sz y w h) \<and>
    span_end (layout_spans st layout sz y w h) = w"
proof -
  consider "layout = 8" | "layout = 9" | "layout = 10" | "11 \<le> layout" "layout < 17"
    using assms(3,4) by linarith
  then show ?thesis
  proof cases
    case 1
    have "0 \<le> ((if y < 0 then 0 else y) sdiv b) smod 4 \<and> ((if y < 0 then 0 else y) sdiv b) smod 4 < 4"
      if "0 < b" for b
      using that by (intro region_mod4 sdiv_nonneg) auto
    then show ?thesis
      using assms(1,2) 1
      by (simp add: layout_spans_def Let_def bend_seg_count_def bseg_counts_def emit_inv emit_end[where n = 4])
  next
    case 2
    show ?thesis
      using assms(1,2) 2 stripes[of w 1] stripes[of w _ 0]
      by (simp add: layout_spans_def Let_def bend_seg_count_def bseg_counts_def)
  next
    case 3
    have row: "0 \<le> (if y < 0 then 0 else y) sdiv b" if "0 < b" for b
      using that by (intro sdiv_nonneg) auto
    show ?thesis
      using assms(1,2) 3 stripes[of w 1] stripes row
      by (simp add: layout_spans_def Let_def bend_seg_count_def bseg_counts_def)
  next
    case 4
    then have count: "bend_seg_count layout = 2"
    proof -
      consider "layout = 11" | "layout = 12" | "layout = 13" | "layout = 14" | "layout = 15" | "layout = 16"
        using 4 by linarith
      then show ?thesis by cases (simp_all add: bend_seg_count_def bseg_counts_def)
    qed
    have "0 \<le> bseg_pat_at st layout x y' w h sz \<and> bseg_pat_at st layout x y' w h sz < 2" for x y'
      unfolding bseg_pat_at_def Let_def by (simp add: of_bool_def)
    with pat_spans_inv[of "\<lambda>x. bseg_pat_at st layout x (if y < 0 then 0 else y) w h sz" 2 w] assms(1,2) 4
    show ?thesis
      by (simp add: layout_spans_def Let_def BSEG_IS_PATTERN_def count)
  qed
qed

theorem bend_seg_spans_tiles:
  assumes "0 < w" "w < 65536"
  shows "tiles w (bend_seg_count layout) (snd (bend_seg_spans st layout sz y w h))"
proof -
  define l where "l = (if layout < 0 \<or> BSEG_COUNT \<le> layout then BSEG_OFF else layout)"
  have l: "0 \<le> l" "l < 17" and count: "bend_seg_count layout = bend_seg_count l"
    by (auto simp: l_def bend_seg_count_def bseg_counts_def)
  have t: "spans_inv w (bend_seg_count l) (layout_spans st' l sz' y w h) \<and>
      span_end (layout_spans st' l sz' y w h) = w" for st' sz'
    using fixed_layout_tiles[OF assms l(1)] repeat_layout_tiles[OF assms _ l(2)]
    by (cases "l < 8") (simp_all add: not_less)
  then have ne: "layout_spans st' l sz' y w h \<noteq> []" for st' sz'
    using assms(1) by (metis span_end_simps(1) less_irrefl)
  show ?thesis
    using t ne assms(1)
    by (simp add: bend_seg_spans_def Let_def count tiles_def spans_inv_def l_def[symmetric])
qed

subsection \<open>What a column is given\<close>

text \<open>
  Emission, seen from a column: a column left of the end already written keeps its region, the
  columns from there to the new end get the region being emitted. It needs a free span, because
  at 192 spans the last one is extended whatever the region.
\<close>

lemma span_at_append:
  "rising lo sp \<Longrightarrow> span_at (sp @ [(s, e)]) x = (if sp \<noteq> [] \<and> x < span_end sp then span_at sp x else s)"
proof (induction lo sp rule: rising.induct)
  case (2 lo t f sp)
  show ?case
  proof (cases sp)
    case Nil then show ?thesis by (simp add: span_end_def)
  next
    case (Cons p ps)
    have grow: "f < span_end sp" if "rising f sp" "sp \<noteq> []" for f sp
      using that by (induction sp rule: rev_induct) (auto simp: rising_append split: if_splits)
    have "f < span_end sp" using grow 2 Cons by simp
    moreover have "span_end ((t, f) # sp) = span_end sp" using Cons by (simp add: span_end_def)
    ultimately show ?thesis using 2 Cons by (cases p) auto
  qed
qed simp

lemma span_at_set_last: "span_at (set_last_end (sp @ [(s, e)]) x') x = span_at (sp @ [(s, e)]) x"
proof -
  have "span_at (sp @ [(s, a)]) x = span_at (sp @ [(s, b)]) x" for a b
  proof (induction sp)
    case (Cons p sp) then show ?case by (cases p; cases sp) auto
  qed simp
  then show ?thesis by (simp add: set_last_end_def)
qed

lemma span_at_emit:
  assumes "spans_inv w n sp" "0 \<le> s" "s < n" "n \<le> 256" "length sp < BEND_SEG_SPANS" "0 \<le> x"
    "x < max (span_end sp) (min x' w)"
  shows "span_at (bseg_emit sp s x' w) x = (if x < span_end sp then span_at sp x else s)"
proof (cases sp rule: rev_cases)
  case Nil
  then show ?thesis using assms by (auto simp: bseg_emit_def Let_def)
next
  case (snoc ps p)
  obtain t e where p: "p = (t, e)" by (cases p)
  have rise: "rising 0 ps" "rising 0 sp" using assms(1) by (auto simp: snoc p spans_inv_def rising_append)
  have sp: "span_at sp x = t" if "\<not> x < span_end sp"
    using that assms(1)
    by (auto simp: span_at_append[OF rise(1)] snoc p spans_inv_def rising_append split: if_splits)
  have mod: "s mod 256 = s" using assms by simp
  have last: "span_at (set_last_end sp y) x = span_at sp x" for y
    by (simp add: snoc p span_at_set_last)
  have ne: "sp \<noteq> []" "fst (last sp) = t" by (simp_all add: snoc p)
  show ?thesis
  proof (cases "min x' w \<le> span_end sp")
    case True
    then show ?thesis using assms(7) ne(1) by (simp add: bseg_emit_def Let_def min_def split: if_splits)
  next
    case False
    have m: "(if w < x' then w else x') = min x' w" by simp
    show ?thesis
      using False assms(5) sp ne
      by (simp add: bseg_emit_def Let_def m mod last span_at_append[OF rise(2)])
  qed
qed

lemma chord_bounds:
  assumes "0 \<le> r" "r < 2 ^ 16"
  shows "0 \<le> bseg_chord r dy \<and> bseg_chord r dy \<le> r \<and>
    (\<forall>d\<ge>1. d \<le> bseg_chord r dy \<longleftrightarrow> d\<^sup>2 + dy\<^sup>2 \<le> r\<^sup>2)"
proof (cases "r \<le> \<bar>dy\<bar>")
  case True
  then have "r\<^sup>2 \<le> dy\<^sup>2" using assms by (metis abs_le_square_iff abs_of_nonneg)
  then have "\<forall>d\<ge>1. \<not> d\<^sup>2 + dy\<^sup>2 \<le> r\<^sup>2"
    by (smt (verit) zero_less_power)
  with True assms show ?thesis by (auto simp: bseg_chord_def Let_def)
next
  case False
  define v where "v = nat (r\<^sup>2 - dy\<^sup>2)"
  have le: "dy\<^sup>2 \<le> r\<^sup>2" using False assms by (metis abs_le_square_iff abs_of_nonneg linear)
  have v: "int v = r\<^sup>2 - dy\<^sup>2" using le by (simp add: v_def)
  have "r\<^sup>2 < (2 ^ 16)\<^sup>2" using assms by (intro power_strict_mono) auto
  then have "v < 2 ^ 32" using le by (simp add: v_def nat_less_iff) (smt (verit) zero_le_power2)
  from bseg_isqrt_floor[OF this]
  have q: "int (bseg_isqrt v) ^ 2 \<le> int v" "int v < (int (bseg_isqrt v) + 1) ^ 2"
    by (metis of_nat_le_iff of_nat_power, metis of_nat_less_iff of_nat_power of_nat_Suc Suc_eq_plus1 add.commute)
  have c: "bseg_chord r dy = int (bseg_isqrt v)"
    using False by (simp add: bseg_chord_def Let_def v_def power2_eq_square abs_if split: if_splits)
  have iff: "d \<le> int (bseg_isqrt v) \<longleftrightarrow> d\<^sup>2 \<le> int v" if "0 \<le> d" for d
  proof
    assume "d \<le> int (bseg_isqrt v)"
    then have "d\<^sup>2 \<le> int (bseg_isqrt v) ^ 2" using that by (intro power_mono) auto
    with q(1) show "d\<^sup>2 \<le> int v" by (rule order_trans[rotated])
  next
    assume "d\<^sup>2 \<le> int v"
    with q(2) have "d\<^sup>2 < (int (bseg_isqrt v) + 1)\<^sup>2" by (rule le_less_trans[rotated])
    then have "d < int (bseg_isqrt v) + 1" by (rule power2_less_imp_less) simp
    then show "d \<le> int (bseg_isqrt v)" by simp
  qed
  have "int (bseg_isqrt v) \<le> r"
  proof -
    have "int (bseg_isqrt v) ^ 2 \<le> r\<^sup>2" using q v by (smt (verit) zero_le_power2)
    then show ?thesis using assms(1) power2_le_imp_le by blast
  qed
  then show ?thesis using iff v by (auto simp: c)
qed

text \<open>
  The circle layout is a disc: a pixel belongs to region 0 exactly when the far edge of its
  column, at distance \<open>d\<close> from the centre line, is within the radius.
\<close>

lemma circle_disc:
  assumes "0 < w" "w < 65536" "0 \<le> x" "x < w" "1 \<le> sz" "sz \<le> 100" "0 \<le> h"
  defines "cx \<equiv> w div 2" and "cy \<equiv> h div 2"
  defines "r \<equiv> (min w h div 2) * sz div 100"
  defines "d \<equiv> (if x < cx then cx - x else x - cx + 1)"
  shows "snd (bend_seg_at st BSEG_CIRCLE sz x y w h) = (if d\<^sup>2 + (y - cy)\<^sup>2 \<le> r\<^sup>2 then 0 else 1)"
proof -
  define m where "m = min w h div 2"
  have m: "0 \<le> m" "m \<le> w div 2" using assms(1,7) by (auto simp: m_def min_def)
  have r: "0 \<le> r" "r \<le> m"
    unfolding r_def m_def[symmetric] using m(1) assms(5,6)
    by (simp_all add: pos_imp_zdiv_nonneg_iff) (smt (verit) mult_left_mono zdiv_mono1 nonzero_mult_div_cancel_right)
  define c where "c = bseg_chord r (y - cy)"
  have "r < 2 ^ 16" using r m assms(2) by simp
  from chord_bounds[OF r(1) this, of "y - cy"]
  have c: "0 \<le> c" "c \<le> r" and disc: "1 \<le> d \<Longrightarrow> d \<le> c \<longleftrightarrow> d\<^sup>2 + (y - cy)\<^sup>2 \<le> r\<^sup>2" for d
    by (simp_all add: c_def)
  have sd: "w sdiv 2 = cx" "h sdiv 2 = cy" "(if w < h then w else h) sdiv 2 = m" "m * sz sdiv 100 = r"
    using assms(1,5,7) m by (simp_all add: signed_divide_int_def cx_def cy_def m_def r_def min_def sgn_if)
  define a where "a = bseg_emit [] 1 (cx - c) w"
  define b where "b = bseg_emit a 0 (cx + c) w"
  define e where "e = bseg_emit b 1 w w"
  have n: "spans_inv w 2 []" using assms(1) by simp
  have cx: "c \<le> cx" "cx + c \<le> w" using c r m by (auto simp: cx_def)
  note inv = bseg_emit_inv[OF _ _ _ _ assms(2)]
  have ia: "spans_inv w 2 a" "span_end a = cx - c"
    using inv[OF n, of 1 "cx - c"] cx c by (auto simp: a_def)
  have ib: "spans_inv w 2 b" "span_end b = cx + c"
    using inv[OF ia(1), of 0 "cx + c"] cx c ia(2) by (auto simp: b_def)
  have len: "length (bseg_emit sp s x' w) \<le> Suc (length sp)" for sp s x'
    by (simp add: bseg_emit_def Let_def set_last_end_def)
  have la: "length a \<le> 1" "length b \<le> 2"
    using len[of "[]" 1 "cx - c"] len[of a 0 "cx + c"] by (auto simp: a_def b_def)
  have "span_at e x = (if x < cx + c then if x < cx - c then 1 else 0 else 1)"
    using span_at_emit[OF ib(1), of 1 x w] span_at_emit[OF ia(1), of 0 x "cx + c"]
      span_at_emit[OF n, of 1 x "cx - c"] ia ib la assms(3,4) cx c
    by (auto simp: e_def b_def[symmetric] a_def[symmetric])
  also have "\<dots> = (if d \<le> c then 0 else 1)" using c by (auto simp: d_def)
  also have "\<dots> = (if d\<^sup>2 + (y - cy)\<^sup>2 \<le> r\<^sup>2 then 0 else 1)" using disc[of d] by (auto simp: d_def)
  finally have at: "span_at e x = (if d\<^sup>2 + (y - cy)\<^sup>2 \<le> r\<^sup>2 then 0 else 1)" .
  have lay: "layout_spans st BSEG_CIRCLE sz y w h = e"
    by (simp add: layout_spans_def Let_def sd e_def b_def a_def c_def)
  have ne: "e \<noteq> []"
    using bseg_emit_full[OF ib(1) _ _ _ assms(2) order_refl, of 1] assms(1) by (auto simp: e_def)
  have sz: "(if 100 < (if sz < 1 then 1 else sz) then 100 else if sz < 1 then 1 else sz) = sz"
    using assms(5,6) by simp
  show ?thesis
    using at lay ne assms(1,5,6) by (simp add: bend_seg_at_def bend_seg_spans_def BSEG_IS_PATTERN_def)
qed

text \<open>Every column of a tiled row lies in exactly one span, and \<open>span_at\<close> names its region.\<close>

definition span_start :: "spans \<Rightarrow> nat \<Rightarrow> int" where
  "span_start sp i = (if i = 0 then 0 else snd (sp ! (i - 1)))"

lemma rising_nth: "rising lo sp \<Longrightarrow> i < j \<Longrightarrow> j < length sp \<Longrightarrow> snd (sp ! i) < snd (sp ! j)"
proof (induction lo sp arbitrary: i j rule: rising.induct)
  case (2 lo s e sp)
  have above: "\<forall>p\<in>set sp. lo < snd p" if "rising lo sp" for lo and sp :: spans
    using that by (induction lo sp rule: rising.induct) force+
  show ?case using 2 above[of e sp] by (cases i; cases j) auto
qed simp

lemma span_at_nth:
  "rising lo sp \<Longrightarrow> i < length sp \<Longrightarrow> x < snd (sp ! i) \<Longrightarrow> (\<forall>j<i. snd (sp ! j) \<le> x) \<Longrightarrow>
    span_at sp x = fst (sp ! i)"
proof (induction lo sp arbitrary: i rule: rising.induct)
  case (2 lo s e sp)
  show ?case
  proof (cases i)
    case 0 then show ?thesis using 2 by (cases sp) auto
  next
    case (Suc k)
    then have "e \<le> x" using 2(5) by (auto dest: spec[of _ 0])
    moreover have "span_at sp x = fst (sp ! k)"
    proof (rule 2(1))
      show "rising e sp" "k < length sp" "x < snd (sp ! k)" using 2 Suc by simp_all
      show "\<forall>j<k. snd (sp ! j) \<le> x" 
      proof (intro allI impI)
        fix j assume "j < k" then show "snd (sp ! j) \<le> x" using 2(5) Suc by (auto dest: spec[of _ "Suc j"])
      qed
    qed
    ultimately show ?thesis using Suc 2 by (cases sp) auto
  qed
qed simp

lemma tiles_cell:
  assumes "tiles w n sp" "0 \<le> x" "x < w"
  shows "\<exists>!i. i < length sp \<and> span_start sp i \<le> x \<and> x < snd (sp ! i)"
    and "\<And>i. \<lbrakk>i < length sp; span_start sp i \<le> x; x < snd (sp ! i)\<rbrakk> \<Longrightarrow>
      span_at sp x = fst (sp ! i) \<and> 0 \<le> fst (sp ! i) \<and> fst (sp ! i) < n"
proof -
  have rise: "rising 0 sp" and ne: "sp \<noteq> []" and last: "snd (last sp) = w"
    using assms(1) by (auto simp: tiles_def span_end_def)
  define i where "i = (LEAST i. i < length sp \<and> x < snd (sp ! i))"
  have "length sp - 1 < length sp \<and> x < snd (sp ! (length sp - 1))"
    using ne last assms(3) by (simp add: last_conv_nth)
  then have i: "i < length sp" "x < snd (sp ! i)" unfolding i_def by (metis (mono_tags, lifting) LeastI)+
  have before: "snd (sp ! j) \<le> x" if "j < i" for j
    using not_less_Least[of j "\<lambda>i. i < length sp \<and> x < snd (sp ! i)"] that i(1) by (auto simp: i_def[symmetric] not_less)
  have start: "span_start sp i \<le> x"
    using before[of "i - 1"] assms(2) by (auto simp: span_start_def)
  have uniq: "j = i" if j: "j < length sp" "span_start sp j \<le> x" "x < snd (sp ! j)" for j
  proof (rule ccontr)
    assume "j \<noteq> i"
    moreover have "\<not> j < i" using before[of j] j(3) by auto
    ultimately have ij: "i \<le> j - 1" "j \<noteq> 0" by auto
    then have "snd (sp ! i) \<le> snd (sp ! (j - 1))"
      using rising_nth[OF rise, of i "j - 1"] j(1) by (cases "i = j - 1") (simp, linarith)
    with ij j(2) i(2) show False by (simp add: span_start_def)
  qed
  show "\<exists>!i. i < length sp \<and> span_start sp i \<le> x \<and> x < snd (sp ! i)"
    using i start uniq by blast
  fix j assume j: "j < length sp" "span_start sp j \<le> x" "x < snd (sp ! j)"
  have "span_at sp x = fst (sp ! i)"
    using span_at_nth[OF rise i(1,2)] before by blast
  moreover have "sp ! i \<in> set sp" using i(1) by simp
  ultimately show "span_at sp x = fst (sp ! j) \<and> 0 \<le> fst (sp ! j) \<and> fst (sp ! j) < n"
    using uniq[OF j] assms(1) by (auto simp: tiles_def)
qed

end
