(* ===== verification/BendX.thy ===== *)
theory BendX
  imports BendModel
begin

text \<open>
  Experimental profiles (\<open>include/bendx.h\<close>, the first half of \<open>core/bendx.c\<close>): the profile
  record and its knobs, the gate every profile passes, the names and the amount label, and
  the chain of up to four profiles with its locked and live slots. The effects themselves
  are in \<open>BxBuf\<close> and the theories above it.
\<close>

section \<open>Profiles\<close>

abbreviation (input) BX_OFF :: int where "BX_OFF \<equiv> 0"
abbreviation (input) BX_ENDIAN :: int where "BX_ENDIAN \<equiv> 1"
abbreviation (input) BX_SLIP :: int where "BX_SLIP \<equiv> 2"
abbreviation (input) BX_TEAR :: int where "BX_TEAR \<equiv> 3"
abbreviation (input) BX_ADDR :: int where "BX_ADDR \<equiv> 4"
abbreviation (input) BX_COLADDR :: int where "BX_COLADDR \<equiv> 5"
abbreviation (input) BX_STRIDE :: int where "BX_STRIDE \<equiv> 6"
abbreviation (input) BX_REFRESH :: int where "BX_REFRESH \<equiv> 7"
abbreviation (input) BX_ECHO :: int where "BX_ECHO \<equiv> 8"
abbreviation (input) BX_LINEMEM :: int where "BX_LINEMEM \<equiv> 9"
abbreviation (input) BX_FIELD :: int where "BX_FIELD \<equiv> 10"
abbreviation (input) BX_ROMBUS :: int where "BX_ROMBUS \<equiv> 11"
abbreviation (input) BX_CLOCK :: int where "BX_CLOCK \<equiv> 12"
abbreviation (input) BX_CFA :: int where "BX_CFA \<equiv> 13"
abbreviation (input) BX_CLAMP :: int where "BX_CLAMP \<equiv> 14"
abbreviation (input) BX_BLOOM :: int where "BX_BLOOM \<equiv> 15"
abbreviation (input) BX_SORT :: int where "BX_SORT \<equiv> 16"
abbreviation (input) BX_LOCK :: int where "BX_LOCK \<equiv> 17"
abbreviation (input) BX_JPGBUS :: int where "BX_JPGBUS \<equiv> 18"
abbreviation (input) BX_COUNT :: int where "BX_COUNT \<equiv> 19"

abbreviation (input) BXMIX_SET :: int where "BXMIX_SET \<equiv> 0"
abbreviation (input) BXMIX_XOR :: int where "BXMIX_XOR \<equiv> 1"
abbreviation (input) BXMIX_OR :: int where "BXMIX_OR \<equiv> 2"
abbreviation (input) BXMIX_AND :: int where "BXMIX_AND \<equiv> 3"
abbreviation (input) BXMIX_COUNT :: int where "BXMIX_COUNT \<equiv> 4"

abbreviation (input) BENDX_CHAIN_MAX :: nat where "BENDX_CHAIN_MAX \<equiv> 4"
abbreviation (input) BENDX_SCRATCH_ROWS :: u32 where "BENDX_SCRATCH_ROWS \<equiv> 2"
abbreviation (input) BX_SORT_BUCKETS :: u32 where "BX_SORT_BUCKETS \<equiv> 4096"

record bendx_t =
  x_kind :: u8
  x_amount :: u8
  x_reach :: u8
  x_lanes :: u8
  x_mix :: u8
  x_rowmod :: u8
  x_pad :: "u8 list"
  x_seed :: u32

text \<open>The values that exist as a C struct, with its two pad bytes.\<close>

definition bendx_shape :: "bendx_t \<Rightarrow> bool" where
  "bendx_shape x \<longleftrightarrow> length (x_pad x) = 2"

subsection \<open>Ranges\<close>

definition bendx_amount_max :: "int \<Rightarrow> int" where
  "bendx_amount_max kind = (
     if kind = BX_ENDIAN then 4
     else if kind = BX_SLIP then 15
     else if kind = BX_TEAR then 15
     else if kind = BX_ADDR then 11
     else if kind = BX_COLADDR then 11
     else if kind = BX_STRIDE then 63
     else if kind = BX_REFRESH then 15
     else if kind = BX_ECHO then 63
     else if kind = BX_LINEMEM then 63
     else if kind = BX_FIELD then 63
     else if kind = BX_ROMBUS then 7
     else if kind = BX_CLOCK then 15
     else if kind = BX_CFA then 7
     else if kind = BX_CLAMP then 15
     else if kind = BX_BLOOM then 15
     else if kind = BX_SORT then 15
     else if kind = BX_LOCK then 15
     else if kind = BX_JPGBUS then 7
     else 0)"

definition bendx_reach_max :: "int \<Rightarrow> int" where
  "bendx_reach_max kind = (
     if kind = BX_SLIP then 32
     else if kind = BX_TEAR then 32
     else if kind = BX_STRIDE then 15
     else if kind = BX_ECHO then 15
     else if kind = BX_LINEMEM then 15
     else if kind = BX_ROMBUS then 15
     else if kind = BX_CLOCK then 7
     else if kind = BX_CFA then 7
     else if kind = BX_CLAMP then 15
     else if kind = BX_BLOOM then 15
     else if kind = BX_SORT then 15
     else if kind = BX_LOCK then 15
     else if kind = BX_JPGBUS then 15
     else 0)"

definition bendx_is_slow :: "int \<Rightarrow> bool" where
  "bendx_is_slow kind \<longleftrightarrow> kind = BX_CLOCK \<or> kind = BX_CFA \<or> kind = BX_CLAMP \<or> kind = BX_BLOOM \<or> kind = BX_SORT"

definition bendx_needs_env :: "int \<Rightarrow> bool" where
  "bendx_needs_env kind \<longleftrightarrow> kind = BX_ROMBUS \<or> kind = BX_JPGBUS"

definition bendx_scratch_bytes :: "int \<Rightarrow> u32 \<Rightarrow> u32" where
  "bendx_scratch_bytes kind rowlen =
     (let two = rowlen * BENDX_SCRATCH_ROWS; hist = BX_SORT_BUCKETS * 2 in
      if kind = BX_SORT then (if two < hist then hist else two) else two)"

subsection \<open>Names\<close>

definition bendx_mix_names :: "string list" where
  "bendx_mix_names = [''Replace'', ''XOR'', ''OR'', ''AND'']"

definition bx_names :: "string list" where
  "bx_names =
    [''Off'', ''Byte order'', ''Bit slip'', ''Sync tear'', ''Row addr'', ''Col addr'',
     ''DMA stride'', ''Refresh'', ''Bus echo'', ''Line mem'', ''Field flip'', ''ROM bus'',
     ''Clock slip'', ''CFA phase'', ''Clamp run'', ''Bloom'', ''Pixel sort'', ''Lock loss'',
     ''JPEG bus'']"

definition bx_descs :: "string list" where
  "bx_descs =
    [''No experimental profile'', ''Bytes latched in the wrong order'',
     ''Row read back off its bit boundary'', ''Bit slip growing down the frame'',
     ''A row address line stuck'', ''A column address line stuck'',
     ''DMA stride mis-programmed'', ''DRAM refresh missed - bits decay'',
     ''The bus reflected back on itself'', ''Line memory holding the last row'',
     ''Field phase inverted'', ''Program ROM on the data lanes'',
     ''Pixel clock at the wrong rate'', ''Demosaic on the wrong Bayer phase'',
     ''Black level clamp loop unlocked'', ''Saturation into the V register'',
     ''Runs sorted along the row'', ''Timing losing lock and re-finding'',
     ''The JPEG buffer on the data lanes'']"

definition bendx_name :: "int \<Rightarrow> string" where
  "bendx_name kind = bx_names ! nat (if kind < 0 \<or> BX_COUNT \<le> kind then BX_OFF else kind)"

definition bendx_desc :: "int \<Rightarrow> string" where
  "bendx_desc kind = bx_descs ! nat (if kind < 0 \<or> BX_COUNT \<le> kind then BX_OFF else kind)"

subsection \<open>The gate\<close>

definition bendx_reset :: "bendx_t \<Rightarrow> bendx_t" where
  "bendx_reset x = x\<lparr>x_kind := 0, x_amount := 0, x_reach := 0, x_lanes := 0, x_mix := 0,
     x_rowmod := 0, x_pad := [0, 0], x_seed := 0xb1a5ed\<rparr>"

definition bendx_is_off :: "bendx_t \<Rightarrow> bool" where
  "bendx_is_off x \<longleftrightarrow> uint (x_kind x) = BX_OFF \<or> BX_COUNT \<le> uint (x_kind x)"

definition bendx_sanitize :: "bendx_t \<Rightarrow> bendx_t" where
  "bendx_sanitize x =
     (if BX_COUNT \<le> uint (x_kind x) then bendx_reset x
      else
        let m = bendx_amount_max (uint (x_kind x));
            x = (if m < uint (x_amount x) then x\<lparr>x_amount := word_of_int m\<rparr> else x);
            m = bendx_reach_max (uint (x_kind x));
            x = (if m < uint (x_reach x) then x\<lparr>x_reach := word_of_int m\<rparr> else x);
            x = (if BXMIX_COUNT \<le> uint (x_mix x) then x\<lparr>x_mix := word_of_int BXMIX_SET\<rparr> else x);
            x = (if 64 < x_rowmod x then x\<lparr>x_rowmod := 0\<rparr> else x)
        in if x_seed x = 0 then x\<lparr>x_seed := 0xb1a5ed\<rparr> else x)"

definition bendx_set_kind :: "bendx_t \<Rightarrow> int \<Rightarrow> bendx_t" where
  "bendx_set_kind x kind =
     (let keep = x_seed x;
          kind = (if kind < 0 \<or> BX_COUNT \<le> kind then BX_OFF else kind);
          x = bendx_reset x;
          x = x\<lparr>x_seed := (if keep \<noteq> 0 then keep else x_seed x)\<rparr>;
          x = x\<lparr>x_kind := word_of_int kind\<rparr>;
          x = (if bendx_needs_env kind then x\<lparr>x_mix := word_of_int BXMIX_XOR\<rparr> else x)
      in bendx_sanitize x)"

text \<open>A usable profile: every knob within the range of its effect.\<close>

definition bendx_ok :: "bendx_t \<Rightarrow> bool" where
  "bendx_ok x \<longleftrightarrow> bendx_shape x \<and> uint (x_kind x) < BX_COUNT \<and>
     uint (x_amount x) \<le> bendx_amount_max (uint (x_kind x)) \<and>
     uint (x_reach x) \<le> bendx_reach_max (uint (x_kind x)) \<and>
     uint (x_mix x) < BXMIX_COUNT \<and> x_rowmod x \<le> 64 \<and> x_seed x \<noteq> 0"

lemma amount_max_range: "0 \<le> bendx_amount_max k \<and> bendx_amount_max k \<le> 63"
  by (simp add: bendx_amount_max_def)

lemma reach_max_range: "0 \<le> bendx_reach_max k \<and> bendx_reach_max k \<le> 32"
  by (simp add: bendx_reach_max_def)

lemma uint_word_of_int_u8 [simp]: "\<lbrakk>0 \<le> m; m < 256\<rbrakk> \<Longrightarrow> uint (word_of_int m :: u8) = m"
  by (simp add: uint_word_of_int)

lemma uint_amount_max [simp]: "uint (word_of_int (bendx_amount_max k) :: u8) = bendx_amount_max k"
  using amount_max_range[of k] by simp

lemma uint_reach_max [simp]: "uint (word_of_int (bendx_reach_max k) :: u8) = bendx_reach_max k"
  using reach_max_range[of k] by simp

lemma bendx_reset_shape [simp]: "bendx_shape (bendx_reset x)"
  by (simp add: bendx_shape_def bendx_reset_def)

lemma bendx_reset_ok [simp]: "bendx_ok (bendx_reset x)"
  by (simp add: bendx_ok_def bendx_shape_def bendx_reset_def bendx_amount_max_def bendx_reach_max_def)

lemma bendx_reset_off [simp]: "bendx_is_off (bendx_reset x)"
  by (simp add: bendx_is_off_def bendx_reset_def)

lemma bendx_sanitize_ok: "bendx_shape x \<Longrightarrow> bendx_ok (bendx_sanitize x)"
  by (cases "BX_COUNT \<le> uint (x_kind x)")
     (auto simp: bendx_sanitize_def Let_def bendx_ok_def bendx_shape_def bendx_reset_ok[unfolded bendx_ok_def bendx_shape_def]
        not_le not_less)

lemma bendx_sanitize_id: "bendx_ok x \<Longrightarrow> bendx_sanitize x = x"
  by (auto simp: bendx_sanitize_def Let_def bendx_ok_def not_le not_less)

lemma bendx_ok_shape: "bendx_ok x \<Longrightarrow> bendx_shape x"
  by (simp add: bendx_ok_def)

interpretation bendx_gate: gate bendx_sanitize bendx_shape bendx_ok "\<lambda>x. x"
  by unfold_locales (auto simp: bendx_sanitize_ok bendx_sanitize_id bendx_ok_shape)

lemma bendx_sanitize_kind:
  "x_kind (bendx_sanitize x) = (if BX_COUNT \<le> uint (x_kind x) then 0 else x_kind x)"
  by (simp add: bendx_sanitize_def bendx_reset_def Let_def)

lemma bendx_sanitize_off [simp]: "bendx_is_off (bendx_sanitize x) \<longleftrightarrow> bendx_is_off x"
  by (simp add: bendx_is_off_def bendx_sanitize_kind)

lemma bendx_set_kind_shape: "bendx_ok (bendx_set_kind x kind)"
  unfolding bendx_set_kind_def Let_def
  by (rule bendx_sanitize_ok) (simp add: bendx_shape_def bendx_reset_def)

lemma bendx_set_kind_eq:
  "bendx_set_kind x kind =
     (let k = (if kind < 0 \<or> BX_COUNT \<le> kind then BX_OFF else kind)
      in x\<lparr>x_kind := word_of_int k, x_amount := 0, x_reach := 0, x_lanes := 0,
           x_mix := (if bendx_needs_env k then 1 else 0), x_rowmod := 0, x_pad := [0, 0],
           x_seed := (if x_seed x = 0 then 0xb1a5ed else x_seed x)\<rparr>)"
proof -
  define k where "k = (if kind < 0 \<or> BX_COUNT \<le> kind then BX_OFF else kind)"
  have k: "0 \<le> k" "k < 19" by (auto simp: k_def)
  have raw: "bendx_set_kind x kind = bendx_sanitize (x\<lparr>x_kind := word_of_int k, x_amount := 0, x_reach := 0,
      x_lanes := 0, x_mix := (if bendx_needs_env k then 1 else 0), x_rowmod := 0, x_pad := [0, 0],
      x_seed := (if x_seed x = 0 then 0xb1a5ed else x_seed x)\<rparr>)"
    by (cases x) (simp add: bendx_set_kind_def bendx_reset_def Let_def k_def)
  show ?thesis
    unfolding raw k_def[symmetric] Let_def
    using k amount_max_range[of k] reach_max_range[of k]
    by (intro bendx_sanitize_id) (simp add: bendx_ok_def bendx_shape_def)
qed

subsection \<open>The amount label\<close>

definition endian_labels :: "string list" where
  "endian_labels = [''byte'', ''word'', ''grp'', ''nib'', ''rev'']"

text \<open>
  \<open>for (div = 1; v / div >= 10; div *= 10)\<close> and the loop that writes the digits. The values
  stay far below \<open>2 ^ 32\<close>, so the arithmetic is on \<open>nat\<close>. The test of \<open>0 < d\<close> makes the first
  recursion well-founded; the loop starts at 1.
\<close>

function label_div :: "nat \<Rightarrow> nat \<Rightarrow> nat" where
  "label_div v d = (if 0 < d \<and> 10 \<le> v div d then label_div v (d * 10) else d)"
  by pat_completeness auto
termination
  by (relation "measure (\<lambda>(v, d). v - d)") (auto simp: less_eq_div_iff_mult_less_eq)

fun label_digits :: "nat \<Rightarrow> nat \<Rightarrow> string" where
  "label_digits v d = (if d = 0 then [] else char_of (48 + (v div d) mod 10) # label_digits v (d div 10))"

declare label_div.simps [simp del] label_digits.simps [simp del]

definition label_value :: "bendx_t \<Rightarrow> nat" where
  "label_value x =
     (let k = uint (x_kind x); a = unat (x_amount x); r = unat (x_reach x) in
      if k = BX_SLIP then a + 1 + r * 8
      else if k = BX_TEAR then a + 1
      else if k = BX_ADDR \<or> k = BX_COLADDR then 2 ^ a
      else if k = BX_STRIDE \<or> k = BX_ECHO then a + 1 + r * 64
      else if k = BX_LINEMEM \<or> k = BX_FIELD then a + 2
      else a)"

definition bendx_label :: "bendx_t \<Rightarrow> string" where
  "bendx_label x =
     (if uint (x_kind x) = BX_OFF then []
      else if uint (x_kind x) = BX_ENDIAN then
        endian_labels ! (if unat (x_amount x) \<le> 4 then unat (x_amount x) else 0)
      else let v = label_value x in label_digits v (label_div v 1))"

text \<open>Reading a label back.\<close>

definition read_label :: "string \<Rightarrow> nat" where
  "read_label ds = fold (\<lambda>c n. n * 10 + (of_char c - 48)) ds 0"

lemma label_div_power: "\<lbrakk>10 ^ k \<le> max v 1\<rbrakk> \<Longrightarrow> \<exists>j. label_div v (10 ^ k) = 10 ^ j \<and> v < 10 ^ Suc j \<and> 10 ^ j \<le> max v 1"
proof (induction v "10 ^ k :: nat" arbitrary: k rule: label_div.induct)
  case (1 v)
  show ?case
  proof (cases "10 \<le> v div 10 ^ k")
    case True
    then have "10 * 10 ^ k \<le> v" by (simp add: less_eq_div_iff_mult_less_eq)
    then obtain j where "label_div v (10 ^ Suc k) = 10 ^ j" "v < 10 ^ Suc j" "10 ^ j \<le> max v 1"
      using 1(1)[of "Suc k"] True by (auto simp: mult.commute max.coboundedI1)
    moreover have "label_div v (10 ^ k) = label_div v (10 ^ Suc k)"
      using True by (subst label_div.simps) (simp add: mult.commute)
    ultimately show ?thesis by auto
  next
    case False
    then have "v < 10 ^ Suc k" by (simp add: div_less_iff_less_mult not_le)
    moreover have "label_div v (10 ^ k) = 10 ^ k" using False by (subst label_div.simps) simp
    ultimately show ?thesis using 1(2) by blast
  qed
qed

lemma of_char_digit: "of_char (char_of (48 + n mod 10) :: char) = (48 + n mod 10 :: nat)"
proof -
  have "n mod 10 < 10" by simp
  then show ?thesis by (simp add: take_bit_nat_eq_self)
qed

lemma label_digits_read:
  "fold (\<lambda>c n. n * 10 + (of_char c - 48)) (label_digits v (10 ^ j)) acc = acc * 10 ^ Suc j + v mod 10 ^ Suc j"
proof (induction j arbitrary: acc)
  case 0
  show ?case by (simp add: label_digits.simps of_char_digit)
next
  case (Suc j)
  have "10 ^ Suc j div 10 = (10 ^ j :: nat)" by simp
  then have "label_digits v (10 ^ Suc j) = char_of (48 + (v div 10 ^ Suc j) mod 10) # label_digits v (10 ^ j)"
    by (subst label_digits.simps) simp
  moreover have "v mod 10 ^ Suc (Suc j) = 10 ^ Suc j * (v div 10 ^ Suc j mod 10) + v mod 10 ^ Suc j"
    by (metis mod_mult2_eq power_Suc2)
  ultimately show ?case by (simp add: Suc of_char_digit algebra_simps)
qed

lemma length_label_digits: "length (label_digits v (10 ^ j)) = Suc j"
proof (induction j)
  case (Suc j)
  have "10 ^ Suc j div 10 = (10 ^ j :: nat)" by simp
  with Suc show ?case by (subst label_digits.simps) simp
qed (simp add: label_digits.simps)

lemma label_number:
  "read_label (label_digits v (label_div v 1)) = v"
  "v < 10000 \<Longrightarrow> length (label_digits v (label_div v 1)) \<le> 4"
proof -
  obtain j where j: "label_div v 1 = 10 ^ j" "v < 10 ^ Suc j" "10 ^ j \<le> max v 1"
    using label_div_power[of 0 v] by auto
  show "read_label (label_digits v (label_div v 1)) = v"
    using label_digits_read[of v j 0] j(2) unfolding j(1) by (simp add: read_label_def)
  assume "v < 10000"
  with j(3) have "(10::nat) ^ j < 10 ^ 4" by (auto simp: max_def split: if_splits)
  then have "j < 4" using power_less_imp_less_exp[of "10::nat" j 4] by simp
  then show "length (label_digits v (label_div v 1)) \<le> 4"
    unfolding j(1) by (simp add: length_label_digits)
qed

lemma bendx_label_length:
  assumes "bendx_ok x"
  shows "length (bendx_label x) \<le> 4"
proof -
  define k where "k = uint (x_kind x)"
  have a: "uint (x_amount x) \<le> bendx_amount_max k" and r: "uint (x_reach x) \<le> bendx_reach_max k"
    using assms by (simp_all add: bendx_ok_def k_def)
  have a63: "unat (x_amount x) \<le> 63" and r32: "unat (x_reach x) \<le> 32"
    using a r amount_max_range[of k] reach_max_range[of k] unfolding uint_nat by linarith+
  have a11: "unat (x_amount x) \<le> 11" if "k = 4 \<or> k = 5"
    using a that unfolding uint_nat by (auto simp: bendx_amount_max_def)
  have pow: "(2::nat) ^ unat (x_amount x) < 10000" if "k = 4 \<or> k = 5"
    using a11[OF that] power_increasing[of "unat (x_amount x)" 11 "2::nat"] by simp
  have e: "length (endian_labels ! i) \<le> 4" if "i \<le> 4" for i
  proof -
    have "\<forall>s\<in>set endian_labels. length s \<le> 4" "length endian_labels = 5" by (simp_all add: endian_labels_def)
    with that show ?thesis by (intro nth_all[where P = "\<lambda>s. length s \<le> 4"]) auto
  qed
  have "label_value x < 10000"
    using a63 r32 pow unfolding label_value_def Let_def k_def[symmetric] by simp
  then have "length (label_digits (label_value x) (label_div (label_value x) 1)) \<le> 4"
    by (rule label_number(2))
  then show ?thesis using e by (simp add: bendx_label_def Let_def)
qed

section \<open>The chain\<close>

record bendx_chain_t =
  ch_item :: "bendx_t list"
  ch_n :: u8
  ch_pad :: "u8 list"

abbreviation locked :: "bendx_chain_t \<Rightarrow> nat" where
  "locked c \<equiv> unat (ch_n c)"

definition chain_shape :: "bendx_chain_t \<Rightarrow> bool" where
  "chain_shape c \<longleftrightarrow> length (ch_item c) = BENDX_CHAIN_MAX \<and> length (ch_pad c) = 3 \<and>
     (\<forall>x\<in>set (ch_item c). bendx_shape x)"

definition bendx_chain_reset :: "bendx_chain_t \<Rightarrow> bendx_chain_t" where
  "bendx_chain_reset c =
     c\<lparr>ch_item := map bendx_reset (ch_item c), ch_n := 0, ch_pad := [0, 0, 0]\<rparr>"

definition bendx_chain_count :: "bendx_chain_t \<Rightarrow> nat" where
  "bendx_chain_count c =
     (let n = locked c in
      if n < BENDX_CHAIN_MAX \<and> \<not> bendx_is_off (ch_item c ! n) then n + 1 else n)"

text \<open>The slot the rocker turns, as an index; \<open>None\<close> is the null pointer.\<close>

definition bendx_chain_live :: "bendx_chain_t \<Rightarrow> nat option" where
  "bendx_chain_live c = (if locked c < BENDX_CHAIN_MAX then Some (locked c) else None)"

definition bendx_chain_find :: "bendx_chain_t \<Rightarrow> int \<Rightarrow> int" where
  "bendx_chain_find c kind =
     (let n = bendx_chain_count c in
      if kind = BX_OFF then - 1
      else case find (\<lambda>i. uint (x_kind (ch_item c ! i)) = kind) [0..<n] of
             Some i \<Rightarrow> int i | None \<Rightarrow> - 1)"

definition bendx_chain_lock :: "bendx_chain_t \<Rightarrow> bendx_chain_t \<times> int" where
  "bendx_chain_lock c =
     (if BENDX_CHAIN_MAX \<le> locked c then (c, 0)
      else if bendx_is_off (ch_item c ! locked c) then (c, 0)
      else let c = c\<lparr>ch_n := ch_n c + 1\<rparr>;
               c = (if locked c < BENDX_CHAIN_MAX
                    then c\<lparr>ch_item := (ch_item c)[locked c := bendx_reset (ch_item c ! locked c)]\<rparr> else c)
           in (c, 1))"

definition bendx_chain_remove :: "bendx_chain_t \<Rightarrow> int \<Rightarrow> bendx_chain_t \<times> int" where
  "bendx_chain_remove c i =
     (if i < 0 \<or> int BENDX_CHAIN_MAX \<le> i then (c, 0)
      else if int (locked c) \<le> i then
        (if i = int (locked c)
         then (c\<lparr>ch_item := (ch_item c)[nat i := bendx_reset (ch_item c ! nat i)]\<rparr>, 1)
         else (c, 0))
      else
        let c = c\<lparr>ch_item := fold (\<lambda>k xs. xs[k := xs ! (k + 1)]) [nat i..<BENDX_CHAIN_MAX - 1] (ch_item c)\<rparr>;
            c = c\<lparr>ch_item := (ch_item c)[BENDX_CHAIN_MAX - 1 := bendx_reset (ch_item c ! (BENDX_CHAIN_MAX - 1))]\<rparr>
        in (c\<lparr>ch_n := ch_n c - 1\<rparr>, 1))"

text \<open>
  The loop of \<open>bendx_chain_sanitize\<close>: \<open>n\<close> has been brought to at most 4 before it, so the
  test of \<open>i < 4\<close> never decides; it makes the recursion well-founded.
\<close>

function close_holes :: "bendx_chain_t \<Rightarrow> nat \<Rightarrow> bendx_chain_t" where
  "close_holes c i =
     (if i < locked c \<and> i < BENDX_CHAIN_MAX then
        (if bendx_is_off (ch_item c ! i) then close_holes (fst (bendx_chain_remove c (int i))) i
         else close_holes c (i + 1))
      else c)"
  by pat_completeness auto

lemma unat_dec: "0 < unat (n::u8) \<Longrightarrow> unat (n - 1) = unat n - 1"
  by (simp add: unat_minus_one word_neq_0_conv[symmetric] unat_gt_0)

lemma unat_inc: "unat (n::u8) < 255 \<Longrightarrow> unat (n + 1) = unat n + 1"
  by (simp add: unat_plus_simple[THEN iffD1] no_olen_add_nat unat_add_lem[THEN iffD1])

termination close_holes
  by (relation "measure (\<lambda>(c, i). locked c - i)")
     (auto simp: bendx_chain_remove_def Let_def unat_dec)

declare close_holes.simps [simp del]

definition bendx_chain_sanitize :: "bendx_chain_t \<Rightarrow> bendx_chain_t" where
  "bendx_chain_sanitize c =
     (let c = (if BENDX_CHAIN_MAX < locked c then c\<lparr>ch_n := 0\<rparr> else c);
          c = c\<lparr>ch_item := map bendx_sanitize (ch_item c)\<rparr>
      in close_holes c 0)"

definition bendx_chain_slow :: "bendx_chain_t \<Rightarrow> bool" where
  "bendx_chain_slow c \<longleftrightarrow>
     (\<exists>i\<in>set [0..<bendx_chain_count c]. bendx_is_slow (uint (x_kind (ch_item c ! i))))"

definition bendx_chain_scratch_bytes :: "bendx_chain_t \<Rightarrow> u32 \<Rightarrow> u32" where
  "bendx_chain_scratch_bytes c rowlen =
     fold (\<lambda>i most. let want = bendx_scratch_bytes (uint (x_kind (ch_item c ! i))) rowlen
                    in if most < want then want else most)
       [0..<bendx_chain_count c] (rowlen * BENDX_SCRATCH_ROWS)"

subsection \<open>The invariant of the chain\<close>

text \<open>
  Every slot usable, at most four locked, and - what the position markers of the picker rely
  on - no locked slot holding Off.
\<close>

definition chain_ok :: "bendx_chain_t \<Rightarrow> bool" where
  "chain_ok c \<longleftrightarrow> length (ch_item c) = BENDX_CHAIN_MAX \<and> length (ch_pad c) = 3 \<and> locked c \<le> BENDX_CHAIN_MAX \<and>
     (\<forall>x\<in>set (ch_item c). bendx_ok x) \<and> (\<forall>i<locked c. \<not> bendx_is_off (ch_item c ! i))"

text \<open>What will be applied, in order.\<close>

definition chain_applied :: "bendx_chain_t \<Rightarrow> bendx_t list" where
  "chain_applied c = take (bendx_chain_count c) (ch_item c)"

definition chain_locked :: "bendx_chain_t \<Rightarrow> bendx_t list" where
  "chain_locked c = take (locked c) (ch_item c)"

lemma length4: "length xs = 4 \<longleftrightarrow> (\<exists>a b c d. xs = [a, b, c, d])"
  by (auto simp: length_Suc_conv numeral_eq_Suc)

lemma less_4_iff: "(n::nat) < 4 \<longleftrightarrow> n = 0 \<or> n = 1 \<or> n = 2 \<or> n = 3"
  by arith

lemma shift_items:
  assumes "length xs = BENDX_CHAIN_MAX" "i < 4"
  shows "(fold (\<lambda>k xs. xs[k := xs ! (k + 1)]) [i..<BENDX_CHAIN_MAX - 1] xs)[3 := z] =
    take i xs @ drop (Suc i) xs @ [z]"
  using assms by (auto simp: length4 less_4_iff upt_rec)

lemma chain_remove_locked:
  assumes "length (ch_item c) = BENDX_CHAIN_MAX" "i < locked c" "locked c \<le> 4"
  shows "bendx_chain_remove c (int i) =
    (c\<lparr>ch_item := take i (ch_item c) @ drop (Suc i) (ch_item c) @ [bendx_reset (ch_item c ! 3)],
       ch_n := ch_n c - 1\<rparr>, 1)"
proof -
  have "fold (\<lambda>k xs. xs[k := xs ! (k + 1)]) [i..<3] (ch_item c) ! 3 = ch_item c ! 3"
    using assms by (auto simp: length4 less_4_iff upt_rec)
  then show ?thesis
    using assms shift_items[OF assms(1), of i "bendx_reset (ch_item c ! 3)"]
    by (simp add: bendx_chain_remove_def Let_def)
qed

lemma chain_remove_live:
  "\<lbrakk>locked c < 4\<rbrakk> \<Longrightarrow> bendx_chain_remove c (int (locked c)) =
    (c\<lparr>ch_item := (ch_item c)[locked c := bendx_reset (ch_item c ! locked c)]\<rparr>, 1)"
  by (simp add: bendx_chain_remove_def)

lemma chain_remove_none:
  "i < 0 \<or> 4 \<le> i \<or> int (locked c) < i \<Longrightarrow> bendx_chain_remove c i = (c, 0)"
  by (auto simp: bendx_chain_remove_def)

lemma items_drop_one:
  "\<forall>x\<in>set xs. P x \<Longrightarrow> P z \<Longrightarrow> \<forall>x\<in>set (take k xs @ drop (Suc k) xs @ [z]). P x"
  by (auto dest: in_set_takeD in_set_dropD)

lemma chain_remove_ok:
  assumes "chain_ok c"
  shows "chain_ok (fst (bendx_chain_remove c i))"
proof -
  have c: "length (ch_item c) = 4" "locked c \<le> 4" "\<forall>x\<in>set (ch_item c). bendx_ok x"
    "\<And>i. i < locked c \<Longrightarrow> \<not> bendx_is_off (ch_item c ! i)"
    using assms by (simp_all add: chain_ok_def)
  consider "i < 0 \<or> 4 \<le> i \<or> int (locked c) < i" | "i = int (locked c)" "locked c < 4"
    | k where "i = int k" "k < locked c"
  proof -
    assume 1: "i < 0 \<or> 4 \<le> i \<or> int (locked c) < i \<Longrightarrow> thesis"
      and 2: "i = int (locked c) \<Longrightarrow> locked c < 4 \<Longrightarrow> thesis"
      and 3: "\<And>k. i = int k \<Longrightarrow> k < locked c \<Longrightarrow> thesis"
    show thesis using 1 2 3[of "nat i"] by linarith
  qed
  then show ?thesis
  proof cases
    case 1 then show ?thesis using assms by (simp add: chain_remove_none)
  next
    case 2
    have "\<forall>x\<in>set ((ch_item c)[locked c := bendx_reset (ch_item c ! locked c)]). bendx_ok x"
      by (rule list_update_all[OF c(3)]) simp
    then show ?thesis
      using assms 2 by (simp add: chain_remove_live chain_ok_def)
  next
    case 3
    have "\<not> bendx_is_off ((take k (ch_item c) @ drop (Suc k) (ch_item c) @ [z]) ! j)" if "j < locked c - 1" for j z
    proof (cases "j < k")
      case True
      then show ?thesis using that c(1,2) c(4)[of j] 3 by (simp add: nth_append)
    next
      case False
      then have "j - k < 3 - k" "Suc (k + (j - k)) = Suc j" using that c(2) 3 by linarith+
      then show ?thesis using that c(1,2) c(4)[of "Suc j"] 3 False by (simp add: nth_append)
    qed
    moreover have "\<forall>x\<in>set (take k (ch_item c) @ drop (Suc k) (ch_item c) @ [bendx_reset (ch_item c ! 3)]). bendx_ok x"
      by (rule items_drop_one[OF c(3)]) simp
    moreover have "unat (ch_n c - 1) = locked c - 1" using 3 by (intro unat_dec) simp
    ultimately show ?thesis
      using assms c(1,2) 3 by (simp add: chain_remove_locked chain_ok_def)
  qed
qed

text \<open>Removing a locked profile closes the gap and leaves the order of the others alone.\<close>

lemma chain_remove_locked_list:
  assumes "chain_ok c" "k < locked c"
  shows "chain_locked (fst (bendx_chain_remove c (int k))) = take k (chain_locked c) @ drop (Suc k) (chain_locked c)"
proof -
  have c: "length (ch_item c) = 4" "locked c \<le> 4" using assms by (simp_all add: chain_ok_def)
  have "unat (ch_n c - 1) = locked c - 1" using assms(2) by (intro unat_dec) simp
  moreover have "take (m - 1) (take k xs @ drop (Suc k) xs @ [z]) = take k (take m xs) @ drop (Suc k) (take m xs)"
    if "k < m" "m \<le> length xs" for m z and xs :: "bendx_t list"
    using that by (simp add: drop_take)
  ultimately show ?thesis
    using assms(2) c by (simp add: chain_locked_def chain_remove_locked)
qed

lemma chain_lock_eq:
  assumes "chain_ok c" "locked c < 4" "\<not> bendx_is_off (ch_item c ! locked c)"
  shows "locked (fst (bendx_chain_lock c)) = Suc (locked c)"
    and "ch_pad (fst (bendx_chain_lock c)) = ch_pad c"
    and "ch_item (fst (bendx_chain_lock c)) =
      (if Suc (locked c) < 4 then (ch_item c)[Suc (locked c) := bendx_reset (ch_item c ! Suc (locked c))] else ch_item c)"
  using assms(2,3) unat_inc[of "ch_n c"] by (simp_all add: bendx_chain_lock_def Let_def)

lemma chain_lock_refused:
  "\<not> (locked c < 4 \<and> \<not> bendx_is_off (ch_item c ! locked c)) \<Longrightarrow> bendx_chain_lock c = (c, 0)"
  by (auto simp: bendx_chain_lock_def)

lemma chain_lock_ok:
  assumes "chain_ok c"
  shows "chain_ok (fst (bendx_chain_lock c))"
proof (cases "locked c < 4 \<and> \<not> bendx_is_off (ch_item c ! locked c)")
  case True
  then have l: "locked c < 4" "\<not> bendx_is_off (ch_item c ! locked c)" by simp_all
  have items: "\<forall>x\<in>set (ch_item c). bendx_ok x" and off: "\<And>i. i < locked c \<Longrightarrow> \<not> bendx_is_off (ch_item c ! i)"
    using assms by (simp_all add: chain_ok_def)
  have "\<forall>x\<in>set ((ch_item c)[Suc (locked c) := bendx_reset (ch_item c ! Suc (locked c))]). bendx_ok x"
    by (rule list_update_all[OF items]) simp
  with items have "\<forall>x\<in>set (ch_item (fst (bendx_chain_lock c))). bendx_ok x"
    unfolding chain_lock_eq(3)[OF assms l] by simp
  moreover have "\<not> bendx_is_off (ch_item (fst (bendx_chain_lock c)) ! i)" if "i < Suc (locked c)" for i
    using that l off[of i] unfolding chain_lock_eq(3)[OF assms l] by (cases "i = locked c") simp_all
  ultimately show ?thesis
    using assms l unfolding chain_ok_def chain_lock_eq(1,2)[OF assms l]
    by (simp add: chain_lock_eq(3)[OF assms l])
qed (simp add: assms chain_lock_refused)

lemma chain_count_eq:
  "bendx_chain_count c = (if locked c < 4 \<and> \<not> bendx_is_off (ch_item c ! locked c) then Suc (locked c) else locked c)"
  by (simp add: bendx_chain_count_def Let_def)

lemma chain_lock_applied:
  assumes "chain_ok c"
  shows "chain_applied (fst (bendx_chain_lock c)) = chain_applied c"
proof (cases "locked c < 4 \<and> \<not> bendx_is_off (ch_item c ! locked c)")
  case True
  then have l: "locked c < 4" "\<not> bendx_is_off (ch_item c ! locked c)" by simp_all
  have len: "length (ch_item c) = 4" using assms by (simp add: chain_ok_def)
  show ?thesis
    using l len unfolding chain_applied_def chain_count_eq chain_lock_eq[OF assms l]
    by (simp add: nth_list_update)
qed (simp add: chain_lock_refused)

lemma chain_applied_live:
  assumes "chain_ok c" "x \<in> set (chain_applied c)"
  shows "bendx_ok x \<and> \<not> bendx_is_off x"
proof -
  obtain i where i: "i < bendx_chain_count c" "x = ch_item c ! i" "i < length (ch_item c)"
    using assms(2) by (auto simp: chain_applied_def in_set_conv_nth)
  have "\<not> bendx_is_off x"
    using i(1,2) assms(1) by (cases "i = locked c") (auto simp: chain_count_eq chain_ok_def less_Suc_eq split: if_splits)
  then show ?thesis using assms(1) i(2,3) by (auto simp: chain_ok_def)
qed

subsection \<open>What the sanitizer of the chain establishes\<close>

definition chain_pre :: "bendx_chain_t \<Rightarrow> bool" where
  "chain_pre c \<longleftrightarrow> length (ch_item c) = BENDX_CHAIN_MAX \<and> length (ch_pad c) = 3 \<and> locked c \<le> BENDX_CHAIN_MAX \<and>
     (\<forall>x\<in>set (ch_item c). bendx_ok x)"

lemma close_holes_step:
  assumes "chain_pre c" "i < locked c"
  shows "chain_pre (fst (bendx_chain_remove c (int i)))"
    and "\<And>j. j < i \<Longrightarrow> ch_item (fst (bendx_chain_remove c (int i))) ! j = ch_item c ! j"
    and "chain_locked (fst (bendx_chain_remove c (int i))) = take i (chain_locked c) @ drop (Suc i) (chain_locked c)"
    and "bendx_is_off (ch_item c ! i) \<Longrightarrow>
      filter (\<lambda>x. \<not> bendx_is_off x) (chain_locked (fst (bendx_chain_remove c (int i)))) =
      filter (\<lambda>x. \<not> bendx_is_off x) (chain_locked c)"
proof -
  have c: "length (ch_item c) = 4" "locked c \<le> 4" "\<forall>x\<in>set (ch_item c). bendx_ok x"
    using assms by (simp_all add: chain_pre_def)
  have n: "unat (ch_n c - 1) = locked c - 1" using assms(2) by (intro unat_dec) simp
  have items: "\<forall>x\<in>set (take i (ch_item c) @ drop (Suc i) (ch_item c) @ [bendx_reset (ch_item c ! 3)]). bendx_ok x"
    by (rule items_drop_one[OF c(3)]) simp
  show "chain_pre (fst (bendx_chain_remove c (int i)))"
    using assms c items n by (simp add: chain_remove_locked chain_pre_def)
  show "ch_item (fst (bendx_chain_remove c (int i))) ! j = ch_item c ! j" if "j < i" for j
    using assms c that by (simp add: chain_remove_locked nth_append)
  show cut: "chain_locked (fst (bendx_chain_remove c (int i))) = take i (chain_locked c) @ drop (Suc i) (chain_locked c)"
    using assms(2) c n by (simp add: chain_locked_def chain_remove_locked drop_take)
  assume off: "bendx_is_off (ch_item c ! i)"
  have "chain_locked c = take i (chain_locked c) @ ch_item c ! i # drop (Suc i) (chain_locked c)"
    using assms(2) c by (subst id_take_nth_drop[of i]) (simp_all add: chain_locked_def)
  then show "filter (\<lambda>x. \<not> bendx_is_off x) (chain_locked (fst (bendx_chain_remove c (int i)))) =
      filter (\<lambda>x. \<not> bendx_is_off x) (chain_locked c)"
    unfolding cut using off by (metis (no_types, lifting) filter.simps(2) filter_append)
qed

lemma close_holes_ok:
  assumes "chain_pre c" "i \<le> locked c" "\<And>j. j < i \<Longrightarrow> \<not> bendx_is_off (ch_item c ! j)"
  shows "chain_ok (close_holes c i) \<and>
    chain_locked (close_holes c i) = filter (\<lambda>x. \<not> bendx_is_off x) (chain_locked c)"
  using assms
proof (induction c i rule: close_holes.induct)
  case (1 c i)
  have len: "length (ch_item c) = 4" "locked c \<le> 4" using 1(3) by (simp_all add: chain_pre_def)
  show ?case
  proof (cases "i < locked c")
    case False
    then have "i = locked c" using 1(4) by simp
    then have live: "\<And>j. j < locked c \<Longrightarrow> \<not> bendx_is_off (ch_item c ! j)" using 1(5) by simp
    then have "filter (\<lambda>x. \<not> bendx_is_off x) (chain_locked c) = chain_locked c"
      using len by (auto simp: chain_locked_def filter_id_conv in_set_conv_nth)
    with False 1(3) live show ?thesis
      by (simp add: close_holes.simps[of c i] chain_ok_def chain_pre_def)
  next
    case True
    then have i4: "i < 4" using len by simp
    show ?thesis
    proof (cases "bendx_is_off (ch_item c ! i)")
      case off: True
      have "close_holes c i = close_holes (fst (bendx_chain_remove c (int i))) i"
        using True i4 off by (simp add: close_holes.simps[of c i])
      moreover have "i \<le> locked (fst (bendx_chain_remove c (int i)))"
        using True len unat_dec[of "ch_n c"] by (simp add: chain_remove_locked)
      ultimately show ?thesis
        using 1(1)[OF conjI[OF True i4] off close_holes_step(1)[OF 1(3) True]] 1(5)
          close_holes_step(2,4)[OF 1(3) True] off by simp
    next
      case live: False
      have "close_holes c i = close_holes c (i + 1)"
        using True i4 live by (simp add: close_holes.simps[of c i])
      moreover have "\<not> bendx_is_off (ch_item c ! j)" if "j < i + 1" for j
        using that live 1(5)[of j] by (cases "j = i") simp_all
      moreover have "i + 1 \<le> locked c" using True by simp
      ultimately show ?thesis
        using 1(2)[OF conjI[OF True i4] live 1(3)] by metis
    qed
  qed
qed

lemma chain_sanitize_full:
  assumes "chain_shape c"
  shows "chain_ok (bendx_chain_sanitize c) \<and>
    chain_locked (bendx_chain_sanitize c) =
      filter (\<lambda>x. \<not> bendx_is_off x)
        (map bendx_sanitize (take (if BENDX_CHAIN_MAX < locked c then 0 else locked c) (ch_item c)))"
proof -
  define d where "d = (if BENDX_CHAIN_MAX < locked c then c\<lparr>ch_n := 0\<rparr> else c)
    \<lparr>ch_item := map bendx_sanitize (ch_item c)\<rparr>"
  have "chain_pre d"
    using assms by (auto simp: d_def chain_pre_def chain_shape_def bendx_sanitize_ok)
  from close_holes_ok[OF this, of 0]
  have "chain_ok (close_holes d 0) \<and> chain_locked (close_holes d 0) = filter (\<lambda>x. \<not> bendx_is_off x) (chain_locked d)"
    by simp
  moreover have "bendx_chain_sanitize c = close_holes d 0"
    by (simp add: bendx_chain_sanitize_def d_def Let_def)
  moreover have "chain_locked d = map bendx_sanitize (take (if BENDX_CHAIN_MAX < locked c then 0 else locked c) (ch_item c))"
    by (simp add: chain_locked_def d_def take_map)
  ultimately show ?thesis by simp
qed

lemma chain_sanitize_id:
  assumes "chain_ok c"
  shows "bendx_chain_sanitize c = c"
proof -
  have "map bendx_sanitize (ch_item c) = ch_item c"
    using assms by (intro map_idI) (simp add: chain_ok_def bendx_sanitize_id)
  then have s: "bendx_chain_sanitize c = close_holes c 0"
    using assms by (simp add: bendx_chain_sanitize_def chain_ok_def)
  have "close_holes c (locked c - k) = c" if "k \<le> locked c" for k
    using that
  proof (induction k)
    case (Suc k)
    have "\<not> bendx_is_off (ch_item c ! (locked c - Suc k))" "Suc (locked c - Suc k) = locked c - k"
      using assms Suc.prems by (simp_all add: chain_ok_def)
    with Suc show ?case by (subst close_holes.simps) simp
  qed (simp add: close_holes.simps)
  from this[of "locked c"] show ?thesis by (simp add: s)
qed

lemma chain_ok_shape: "chain_ok c \<Longrightarrow> chain_shape c"
  by (simp add: chain_ok_def chain_shape_def bendx_ok_shape)

interpretation chain_gate: gate bendx_chain_sanitize chain_shape chain_ok "\<lambda>c. c"
  by unfold_locales (auto simp: chain_sanitize_full chain_sanitize_id chain_ok_shape)

section \<open>Rerolling the knobs\<close>

definition roll_amount :: "bendx_t \<times> u32 \<Rightarrow> bendx_t \<times> u32" where
  "roll_amount = (\<lambda>(x, s). (let am = bendx_amount_max (uint (x_kind x)) in
     if 0 < am then (let s = xs32 s in (x\<lparr>x_amount := ucast (s mod word_of_int (am + 1))\<rparr>, s))
     else (x, s)))"

definition roll_reach :: "bendx_t \<times> u32 \<Rightarrow> bendx_t \<times> u32" where
  "roll_reach = (\<lambda>(x, s). (let rm = bendx_reach_max (uint (x_kind x)) in
     if 0 < rm then (let s = xs32 s in (x\<lparr>x_reach := ucast (s mod word_of_int (rm + 1))\<rparr>, s))
     else (x, s)))"

definition roll_lanes :: "bendx_t \<times> u32 \<Rightarrow> bendx_t \<times> u32" where
  "roll_lanes = (\<lambda>(x, s). (let s = xs32 s in
     (x\<lparr>x_lanes := (if s mod 100 < 70 then 0 else ucast (drop_bit 8 s))\<rparr>, s)))"

definition roll_mix :: "bendx_t \<times> u32 \<Rightarrow> bendx_t \<times> u32" where
  "roll_mix = (\<lambda>(x, s). (let s = xs32 s in
     (if bendx_needs_env (uint (x_kind x)) then
        x\<lparr>x_mix := ucast (word_of_int BXMIX_XOR + s mod word_of_int (BXMIX_COUNT - 1))\<rparr>
      else if s mod 100 < 55 then x\<lparr>x_mix := word_of_int BXMIX_SET\<rparr>
      else x\<lparr>x_mix := ucast (s mod word_of_int BXMIX_COUNT)\<rparr>, s)))"

definition roll_rowmod :: "bendx_t \<times> u32 \<Rightarrow> bendx_t \<times> u32" where
  "roll_rowmod = (\<lambda>(x, s). (let s = xs32 s in
     (x\<lparr>x_rowmod := (if s mod 100 < 70 then 0 else ucast (1 + s mod 32))\<rparr>, s)))"

definition bendx_random :: "bendx_t \<Rightarrow> u32 \<Rightarrow> bendx_t \<times> u32" where
  "bendx_random x seed =
     (let s = xs32 seed;
          (x, s) = roll_rowmod (roll_mix (roll_lanes (roll_reach (roll_amount (x\<lparr>x_seed := s\<rparr>, s)))))
      in (bendx_sanitize x, s))"

lemmas roll_defs = roll_amount_def roll_reach_def roll_lanes_def roll_mix_def roll_rowmod_def

lemma roll_kind [simp]:
  "x_kind (fst (roll_amount xs)) = x_kind (fst xs)" "x_kind (fst (roll_reach xs)) = x_kind (fst xs)"
  "x_kind (fst (roll_lanes xs)) = x_kind (fst xs)" "x_kind (fst (roll_mix xs)) = x_kind (fst xs)"
  "x_kind (fst (roll_rowmod xs)) = x_kind (fst xs)"
  by (cases xs; simp add: roll_defs Let_def)+

lemma shape_seed [simp]: "bendx_shape (x\<lparr>x_seed := s\<rparr>) = bendx_shape x"
  by (simp add: bendx_shape_def)

lemma roll_shape [simp]:
  "bendx_shape (fst (roll_amount xs)) = bendx_shape (fst xs)"
  "bendx_shape (fst (roll_reach xs)) = bendx_shape (fst xs)"
  "bendx_shape (fst (roll_lanes xs)) = bendx_shape (fst xs)"
  "bendx_shape (fst (roll_mix xs)) = bendx_shape (fst xs)"
  "bendx_shape (fst (roll_rowmod xs)) = bendx_shape (fst xs)"
  by (cases xs; simp add: roll_defs Let_def bendx_shape_def)+

lemma bendx_random_eq:
  "fst (bendx_random x seed) = bendx_sanitize (fst (roll_rowmod (roll_mix (roll_lanes (roll_reach
     (roll_amount (x\<lparr>x_seed := xs32 seed\<rparr>, xs32 seed)))))))"
  by (simp add: bendx_random_def Let_def split: prod.splits)

lemma bendx_random_kind:
  "x_kind (fst (bendx_random x seed)) = (if BX_COUNT \<le> uint (x_kind x) then 0 else x_kind x)"
  by (simp add: bendx_random_eq bendx_sanitize_kind)

lemma bendx_random_ok:
  assumes "bendx_shape x"
  shows "bendx_ok (fst (bendx_random x seed))"
  unfolding bendx_random_eq by (rule bendx_sanitize_ok) (use assms in simp)

text \<open>A reroll of a foreign bus never lands on Replace, whatever the seed.\<close>

lemma roll_mix_env: "bendx_needs_env (uint (x_kind (fst xs))) \<Longrightarrow>
    1 \<le> uint (x_mix (fst (roll_mix xs))) \<and> uint (x_mix (fst (roll_mix xs))) \<le> 3"
proof -
  have "1 \<le> uint (ucast (1 + s mod 3 :: u32) :: u8) \<and> uint (ucast (1 + s mod 3 :: u32) :: u8) \<le> 3" for s :: u32
  proof -
    have "unat (s mod 3) < 3" by (simp add: unat_mod)
    then have "unat (1 + s mod 3) = 1 + unat (s mod 3)"
      by (subst unat_add_lem[THEN iffD1]) simp_all
    then have "unat (ucast (1 + s mod 3) :: u8) = 1 + unat (s mod 3)"
      using \<open>unat (s mod 3) < 3\<close> by (simp add: unsigned_ucast_eq take_bit_nat_eq_self)
    then show ?thesis using \<open>unat (s mod 3) < 3\<close> by (simp add: uint_nat)
  qed
  then show "bendx_needs_env (uint (x_kind (fst xs))) \<Longrightarrow> ?thesis"
    by (cases xs) (simp add: roll_mix_def Let_def)
qed

lemma roll_rowmod_mix [simp]: "x_mix (fst (roll_rowmod xs)) = x_mix (fst xs)"
  by (cases xs) (simp add: roll_rowmod_def Let_def)

lemma bendx_random_never_replaces:
  assumes "bendx_needs_env (uint (x_kind x))"
  shows "uint (x_mix (fst (bendx_random x seed))) \<noteq> BXMIX_SET"
proof -
  define y where "y = roll_lanes (roll_reach (roll_amount (x\<lparr>x_seed := xs32 seed\<rparr>, xs32 seed)))"
  have env: "bendx_needs_env (uint (x_kind (fst y)))" using assms by (simp add: y_def)
  have "uint (x_kind x) < BX_COUNT" using assms by (auto simp: bendx_needs_env_def)
  then have "x_mix (bendx_sanitize (fst (roll_rowmod (roll_mix y)))) = x_mix (fst (roll_mix y))"
    using roll_mix_env[OF env] by (simp add: bendx_sanitize_def Let_def y_def)
  then show ?thesis
    using roll_mix_env[OF env] by (simp add: bendx_random_eq y_def)
qed

end
