(* ===== verification/BxBuf.thy ===== *)
theory BxBuf
  imports BendX
begin

text \<open>
  The frame buffer the experimental effects bend (\<open>core/bendx.c\<close>): its geometry, the packed
  pixel accessors \<open>bendx_get\<close> and \<open>bendx_set\<close> at both depths with their round trip laws,
  lanes, mixing, planes and row banding, and the row helpers \<open>bx_rot\<close> and \<open>bx_blend_row\<close>.

  Memory is a list of bytes and a pointer into it is an offset; every access is checked
  (\<open>rd\<close> and \<open>wr\<close> of the prelude), so a definition that returns \<open>Some\<close> has stayed inside its
  arrays. Indices are natural numbers: the buffers of the cameras are 15 MB, far from
  \<open>2 ^ 32\<close>, and where the code's own 32 bit wrap-around can matter it is written out.
\<close>

section \<open>Geometry\<close>

record bendx_buf_t =
  bb_rowlen :: nat
  bb_rowpix :: nat
  bb_rows :: nat
  bb_ob_x :: nat
  bb_nbits :: nat

text \<open>The foreign buffers: \<open>None\<close> is the null pointer, and the declared length is the list's.\<close>

record bendx_env_t =
  e_rom :: "u8 list option"
  e_jpg :: "u8 list option"
  e_frame :: u32
  e_black :: u32
  e_white :: u32

definition bx_gsz :: "nat \<Rightarrow> nat" where
  "bx_gsz nbits = (if nbits = 10 then 10 else 6)"

definition bx_gpix :: "nat \<Rightarrow> nat" where
  "bx_gpix nbits = (if nbits = 10 then 8 else 4)"

definition bx_wholepix :: "bendx_buf_t \<Rightarrow> nat" where
  "bx_wholepix b = bb_rowpix b - bb_rowpix b mod bx_gpix (bb_nbits b)"

section \<open>Packed accessors\<close>

text \<open>
  Every case of both accessors touches two bytes of the group. \<open>wr2\<close> keeps the bits of a
  byte under a mask and sets the others; a byte written outright has mask 0.
\<close>

definition rd2 :: "u8 list \<Rightarrow> nat \<Rightarrow> nat \<Rightarrow> nat \<Rightarrow> (u32 \<Rightarrow> u32 \<Rightarrow> u32) \<Rightarrow> u32 option" where
  "rd2 p a i j f = do { u \<leftarrow> rd p (a + i); w \<leftarrow> rd p (a + j); Some (f (ucast u) (ucast w)) }"

definition wr2 :: "u8 list \<Rightarrow> nat \<Rightarrow> nat \<Rightarrow> u8 \<Rightarrow> u32 \<Rightarrow> nat \<Rightarrow> u8 \<Rightarrow> u32 \<Rightarrow> u8 list option" where
  "wr2 p a i m v j m' v' = do {
     u \<leftarrow> rd p (a + i); p \<leftarrow> wr p (a + i) ((u AND m) OR ucast v);
     w \<leftarrow> rd p (a + j); wr p (a + j) ((w AND m') OR ucast v') }"

text \<open>\<open>o\<close> is the offset of the row in the memory.\<close>

definition bendx_get :: "u8 list \<Rightarrow> nat \<Rightarrow> nat \<Rightarrow> nat \<Rightarrow> u32 option" where
  "bendx_get p off x nbits =
     (if nbits = 10 then
       (let a = off + (x div 8) * 10 in
       if x mod 8 = 0 then rd2 p a 1 0 (\<lambda>u w. (0x3fc AND push_bit 2 u) OR drop_bit 6 w)
       else if x mod 8 = 1 then rd2 p a 0 3 (\<lambda>u w. (0x3f0 AND push_bit 4 u) OR drop_bit 4 w)
       else if x mod 8 = 2 then rd2 p a 3 2 (\<lambda>u w. (0x3c0 AND push_bit 6 u) OR drop_bit 2 w)
       else if x mod 8 = 3 then rd2 p a 2 5 (\<lambda>u w. (0x300 AND push_bit 8 u) OR w)
       else if x mod 8 = 4 then rd2 p a 4 7 (\<lambda>u w. (0x3fc AND push_bit 2 u) OR drop_bit 6 w)
       else if x mod 8 = 5 then rd2 p a 7 6 (\<lambda>u w. (0x3f0 AND push_bit 4 u) OR drop_bit 4 w)
       else if x mod 8 = 6 then rd2 p a 6 9 (\<lambda>u w. (0x3c0 AND push_bit 6 u) OR drop_bit 2 w)
       else  rd2 p a 9 8 (\<lambda>u w. (0x300 AND push_bit 8 u) OR w))
      else
       (let a = off + (x div 4) * 6 in
       if x mod 4 = 0 then rd2 p a 1 0 (\<lambda>u w. push_bit 4 u OR drop_bit 4 w)
       else if x mod 4 = 1 then rd2 p a 0 3 (\<lambda>u w. push_bit 8 (u AND 0x0f) OR w)
       else if x mod 4 = 2 then rd2 p a 2 5 (\<lambda>u w. push_bit 4 u OR drop_bit 4 w)
       else rd2 p a 5 4 (\<lambda>u w. push_bit 8 (u AND 0x0f) OR w)))"

definition bendx_set :: "u8 list \<Rightarrow> nat \<Rightarrow> nat \<Rightarrow> u32 \<Rightarrow> nat \<Rightarrow> u8 list option" where
  "bendx_set p off x v nbits =
     (if nbits = 10 then
       (let a = off + (x div 8) * 10 in
       if x mod 8 = 0 then wr2 p a 0 0x3F (push_bit 6 v) 1 0 (drop_bit 2 v)
       else if x mod 8 = 1 then wr2 p a 0 0xC0 (drop_bit 4 v) 3 0x0F (push_bit 4 v)
       else if x mod 8 = 2 then wr2 p a 2 0x03 (push_bit 2 v) 3 0xF0 (drop_bit 6 v)
       else if x mod 8 = 3 then wr2 p a 2 0xFC (drop_bit 8 v) 5 0 v
       else if x mod 8 = 4 then wr2 p a 4 0 (drop_bit 2 v) 7 0x3F (push_bit 6 v)
       else if x mod 8 = 5 then wr2 p a 6 0x0F (push_bit 4 v) 7 0xC0 (drop_bit 4 v)
       else if x mod 8 = 6 then wr2 p a 6 0xF0 (drop_bit 6 v) 9 0x03 (push_bit 2 v)
       else  wr2 p a 8 0 v 9 0xFC (drop_bit 8 v))
      else
       (let a = off + (x div 4) * 6 in
       if x mod 4 = 0 then wr2 p a 0 0x0F (push_bit 4 v) 1 0 (drop_bit 4 v)
       else if x mod 4 = 1 then wr2 p a 0 0xF0 (drop_bit 8 v) 3 0 v
       else if x mod 4 = 2 then wr2 p a 2 0 (drop_bit 4 v) 5 0x0F (push_bit 4 v)
       else  wr2 p a 4 0 v 5 0xF0 (drop_bit 8 v)))"

section \<open>Lanes and mixing\<close>

definition bx_lanes :: "bendx_t \<Rightarrow> u8" where
  "bx_lanes x = (if x_lanes x \<noteq> 0 then x_lanes x else 0xff)"

definition bx_mixb :: "u8 \<Rightarrow> u8 \<Rightarrow> u8 \<Rightarrow> u8" where
  "bx_mixb old nw mx =
     (if uint mx = BXMIX_XOR then old XOR nw
      else if uint mx = BXMIX_OR then old OR nw
      else if uint mx = BXMIX_AND then old AND nw
      else nw)"

definition bx_merge :: "u8 \<Rightarrow> u8 \<Rightarrow> u8 \<Rightarrow> u8 \<Rightarrow> u8" where
  "bx_merge old nw lanes mx =
     (let v = bx_mixb old nw mx in (old AND NOT lanes) OR (v AND lanes))"

definition bx_mixv :: "u32 \<Rightarrow> u32 \<Rightarrow> u32 \<Rightarrow> u8 \<Rightarrow> u32" where
  "bx_mixv old nw msk mx =
     (let v = (if uint mx = BXMIX_XOR then old XOR nw
               else if uint mx = BXMIX_OR then old OR nw
               else if uint mx = BXMIX_AND then old AND nw
               else nw)
      in (old AND NOT msk) OR (v AND msk))"

definition bx_planes :: "bendx_t \<Rightarrow> nat \<Rightarrow> u32" where
  "bx_planes x nbits =
     (let all = push_bit nbits 1 - 1 in
      if x_lanes x = 0 then all else push_bit (nbits - 8) (ucast (x_lanes x)) AND all)"

definition bx_on :: "bendx_t \<Rightarrow> nat \<Rightarrow> bool" where
  "bx_on x y = (let m = unat (x_rowmod x) in if m < 2 then True else y mod (m * 2) < m)"

section \<open>Where a pixel lies\<close>

text \<open>
  The layout the two accessors share: bit \<open>n\<close> of the pixel at phase \<open>r\<close> of a group is one bit
  of one byte of it. The high part of the pixel is the low \<open>d - c\<close> bits of byte \<open>i\<close>, the low
  \<open>c\<close> bits the high ones of byte \<open>j\<close>.
\<close>

definition phases :: "nat \<Rightarrow> (nat \<times> nat \<times> nat) list" where
  "phases nbits =
     (if nbits = 10 then
        [(1, 0, 2), (0, 3, 4), (3, 2, 6), (2, 5, 8), (4, 7, 2), (7, 6, 4), (6, 9, 6), (9, 8, 8)]
      else [(1, 0, 4), (0, 3, 8), (2, 5, 4), (5, 4, 8)])"

definition in_group :: "nat \<times> nat \<times> nat \<Rightarrow> nat \<Rightarrow> nat \<times> nat" where
  "in_group = (\<lambda>(i, j, c) n. if c \<le> n then (i, n - c) else (j, 8 - c + n))"

definition pix_loc :: "nat \<Rightarrow> nat \<Rightarrow> nat \<Rightarrow> nat \<times> nat" where
  "pix_loc nbits x n =
     (let (k, m) = in_group (phases nbits ! (x mod bx_gpix nbits)) n
      in ((x div bx_gpix nbits) * bx_gsz nbits + k, m))"

abbreviation depth_ok :: "nat \<Rightarrow> bool" where
  "depth_ok nbits \<equiv> nbits = 10 \<or> nbits = 12"

definition fits :: "nat \<Rightarrow> u32 \<Rightarrow> bool" where
  "fits nbits v \<longleftrightarrow> (\<forall>n. bit v n \<longrightarrow> n < nbits)"

lemma less_10_iff: "(n::nat) < 10 \<longleftrightarrow> n \<in> {0, 1, 2, 3, 4, 5, 6, 7, 8, 9}"
  by (simp only: insert_iff empty_iff) presburger

lemma less_12_iff: "(n::nat) < 12 \<longleftrightarrow> n \<in> {0, 1, 2, 3, 4, 5, 6, 7, 8, 9, 10, 11}"
  by (simp only: insert_iff empty_iff) presburger

lemma rd2_eq:
  "\<lbrakk>a + i < length p; a + j < length p\<rbrakk> \<Longrightarrow>
    rd2 p a i j f = Some (f (ucast (p ! (a + i))) (ucast (p ! (a + j))))"
  by (simp add: rd2_def rd_def)

lemma bit_u8_less: "bit (u::u8) n \<Longrightarrow> n < 8"
  using bit_imp_le_length[of u n] by simp

lemma bit_joined10:
  fixes u w :: u8
  shows "bit ((0x3fc AND push_bit 2 (ucast u)) OR drop_bit 6 (ucast w) :: u32) n \<longleftrightarrow>
      n < 10 \<and> (if 2 \<le> n then bit u (n - 2) else bit w (8 - 2 + n))"
    and "bit ((0x3f0 AND push_bit 4 (ucast u)) OR drop_bit 4 (ucast w) :: u32) n \<longleftrightarrow>
      n < 10 \<and> (if 4 \<le> n then bit u (n - 4) else bit w (8 - 4 + n))"
    and "bit ((0x3c0 AND push_bit 6 (ucast u)) OR drop_bit 2 (ucast w) :: u32) n \<longleftrightarrow>
      n < 10 \<and> (if 6 \<le> n then bit u (n - 6) else bit w (8 - 6 + n))"
    and "bit ((0x300 AND push_bit 8 (ucast u)) OR ucast w :: u32) n \<longleftrightarrow>
      n < 10 \<and> (if 8 \<le> n then bit u (n - 8) else bit w (8 - 8 + n))"
proof -
  have m: "0x3fc = (push_bit 2 (mask 8) :: u32)" "0x3f0 = (push_bit 4 (mask 6) :: u32)"
    "0x3c0 = (push_bit 6 (mask 4) :: u32)" "0x300 = (push_bit 8 (mask 2) :: u32)"
    by (simp_all add: mask_numeral)
  show "bit ((0x3fc AND push_bit 2 (ucast u)) OR drop_bit 6 (ucast w) :: u32) n \<longleftrightarrow>
      n < 10 \<and> (if 2 \<le> n then bit u (n - 2) else bit w (8 - 2 + n))"
    "bit ((0x3f0 AND push_bit 4 (ucast u)) OR drop_bit 4 (ucast w) :: u32) n \<longleftrightarrow>
      n < 10 \<and> (if 4 \<le> n then bit u (n - 4) else bit w (8 - 4 + n))"
    "bit ((0x3c0 AND push_bit 6 (ucast u)) OR drop_bit 2 (ucast w) :: u32) n \<longleftrightarrow>
      n < 10 \<and> (if 6 \<le> n then bit u (n - 6) else bit w (8 - 6 + n))"
    "bit ((0x300 AND push_bit 8 (ucast u)) OR ucast w :: u32) n \<longleftrightarrow>
      n < 10 \<and> (if 8 \<le> n then bit u (n - 8) else bit w (8 - 8 + n))"
    unfolding m
    by (auto simp: bit_or_iff bit_and_iff bit_push_bit_iff bit_drop_bit_eq bit_ucast_iff bit_mask_iff
        add.commute dest: bit_u8_less)
qed

lemma bit_joined12:
  fixes u w :: u8
  shows "bit (push_bit 4 (ucast u) OR drop_bit 4 (ucast w) :: u32) n \<longleftrightarrow>
      n < 12 \<and> (if 4 \<le> n then bit u (n - 4) else bit w (8 - 4 + n))"
    and "bit (push_bit 8 (ucast u AND 0x0f) OR ucast w :: u32) n \<longleftrightarrow>
      n < 12 \<and> (if 8 \<le> n then bit u (n - 8) else bit w (8 - 8 + n))"
proof -
  have m: "0x0f = (mask 4 :: u32)" by (simp add: mask_numeral)
  show "bit (push_bit 4 (ucast u) OR drop_bit 4 (ucast w) :: u32) n \<longleftrightarrow>
      n < 12 \<and> (if 4 \<le> n then bit u (n - 4) else bit w (8 - 4 + n))"
    "bit (push_bit 8 (ucast u AND 0x0f) OR ucast w :: u32) n \<longleftrightarrow>
      n < 12 \<and> (if 8 \<le> n then bit u (n - 8) else bit w (8 - 8 + n))"
    unfolding m
    by (auto simp: bit_or_iff bit_and_iff bit_push_bit_iff bit_drop_bit_eq bit_ucast_iff bit_mask_iff
        add.commute dest: bit_u8_less)
qed

text \<open>Distinct pixels, and distinct bits of a pixel, lie in distinct places.\<close>

lemma in_group_inj_all:
  "\<forall>nb\<in>set [10, 12]. \<forall>r\<in>set [0..<bx_gpix nb]. \<forall>n\<in>set [0..<nb].
     fst (in_group (phases nb ! r) n) < bx_gsz nb \<and> snd (in_group (phases nb ! r) n) < 8 \<and>
     (\<forall>s\<in>set [0..<bx_gpix nb]. \<forall>m\<in>set [0..<nb].
       in_group (phases nb ! r) n = in_group (phases nb ! s) m \<longrightarrow> r = s \<and> n = m)"
  by code_simp

lemma gpix_pos [simp]: "0 < bx_gpix nb" "bx_gpix nb \<noteq> 0"
  by (simp_all add: bx_gpix_def)

lemma gsz_pos [simp]: "0 < bx_gsz nb" "bx_gsz nb \<noteq> 0"
  by (simp_all add: bx_gsz_def)

lemmas in_group_at = in_group_inj_all[THEN bspec, THEN bspec, THEN bspec]

lemma depth_in [simp]: "depth_ok nb \<Longrightarrow> nb \<in> set [10, 12]"
  by simp

lemma in_group_bounds:
  assumes "depth_ok nb" "r < bx_gpix nb" "n < nb"
  shows "fst (in_group (phases nb ! r) n) < bx_gsz nb" "snd (in_group (phases nb ! r) n) < 8"
proof -
  have "nb \<in> set [10, 12]" "r \<in> set [0..<bx_gpix nb]" "n \<in> set [0..<nb]" using assms by simp_all
  from in_group_at[OF this] show "fst (in_group (phases nb ! r) n) < bx_gsz nb" "snd (in_group (phases nb ! r) n) < 8"
    by blast+
qed

lemma in_group_inj:
  assumes "depth_ok nb" "r < bx_gpix nb" "n < nb" "s < bx_gpix nb" "m < nb"
    "in_group (phases nb ! r) n = in_group (phases nb ! s) m"
  shows "r = s \<and> n = m"
proof -
  have m: "nb \<in> set [10, 12]" "r \<in> set [0..<bx_gpix nb]" "n \<in> set [0..<nb]"
    "s \<in> set [0..<bx_gpix nb]" "m \<in> set [0..<nb]"
    using assms by simp_all
  from in_group_at[OF m(1-3), THEN conjunct2, THEN conjunct2, THEN bspec, OF m(4), THEN bspec, OF m(5)]
  show ?thesis using assms(6) by blast
qed

lemma pix_loc_bounds:
  assumes "depth_ok nb" "n < nb"
  shows "fst (pix_loc nb x n) < (x div bx_gpix nb + 1) * bx_gsz nb" "snd (pix_loc nb x n) < 8"
  using in_group_bounds[OF assms(1) _ assms(2), of "x mod bx_gpix nb"]
  by (simp_all add: pix_loc_def Let_def split_beta)

lemma pix_loc_inj:
  assumes "depth_ok nb" "n < nb" "m < nb" "pix_loc nb x n = pix_loc nb y m"
  shows "x = y \<and> n = m"
proof -
  define kx where "kx = fst (in_group (phases nb ! (x mod bx_gpix nb)) n)"
  define ky where "ky = fst (in_group (phases nb ! (y mod bx_gpix nb)) m)"
  have b: "kx < bx_gsz nb" "ky < bx_gsz nb"
    using in_group_bounds[OF assms(1)] assms by (simp_all add: kx_def ky_def)
  have eq: "(x div bx_gpix nb) * bx_gsz nb + kx = (y div bx_gpix nb) * bx_gsz nb + ky"
    and snd: "snd (in_group (phases nb ! (x mod bx_gpix nb)) n) = snd (in_group (phases nb ! (y mod bx_gpix nb)) m)"
    using assms(4) by (simp_all add: pix_loc_def Let_def split_beta kx_def ky_def)
  have "((x div bx_gpix nb) * bx_gsz nb + kx) div bx_gsz nb = x div bx_gpix nb"
    "((y div bx_gpix nb) * bx_gsz nb + ky) div bx_gsz nb = y div bx_gpix nb"
    using b by simp_all
  with eq have d: "x div bx_gpix nb = y div bx_gpix nb" by metis
  with eq have "kx = ky" by simp
  with snd have "in_group (phases nb ! (x mod bx_gpix nb)) n = in_group (phases nb ! (y mod bx_gpix nb)) m"
    by (simp add: kx_def ky_def prod_eq_iff)
  from in_group_inj[OF assms(1) _ assms(2) _ assms(3) this]
  have "x mod bx_gpix nb = y mod bx_gpix nb \<and> n = m" by simp
  with d show ?thesis by (metis div_mult_mod_eq)
qed

text \<open>The two accessors in terms of the layout.\<close>

definition px_bits :: "u8 list \<Rightarrow> nat \<Rightarrow> nat \<Rightarrow> nat \<Rightarrow> u32 \<Rightarrow> bool" where
  "px_bits p off x nb v \<longleftrightarrow>
     (\<forall>n. bit v n \<longleftrightarrow> n < nb \<and> bit (p ! (off + fst (pix_loc nb x n))) (snd (pix_loc nb x n)))"

definition px_room :: "u8 list \<Rightarrow> nat \<Rightarrow> nat \<Rightarrow> nat \<Rightarrow> bool" where
  "px_room p off x nb \<longleftrightarrow> off + (x div bx_gpix nb + 1) * bx_gsz nb \<le> length p"

lemma mod_8_cases: "(x::nat) mod 8 \<in> {0, 1, 2, 3, 4, 5, 6, 7}"
  using less_8_iff[of "x mod 8"] by simp

lemma mod_4_cases: "(x::nat) mod 4 = 0 \<or> x mod 4 = 1 \<or> x mod 4 = 2 \<or> x mod 4 = 3"
  using less_4_iff[of "x mod 4"] by simp

lemma bendx_get_bits:
  assumes "depth_ok nb" "px_room p off x nb"
  shows "\<exists>v. bendx_get p off x nb = Some v \<and> px_bits p off x nb v"
  using assms(1)
proof
  assume nb: "nb = 10"
  have room: "off + x div 8 * 10 + 9 < length p"
    using assms(2) by (simp add: px_room_def bx_gpix_def bx_gsz_def nb)
  show ?thesis
    using room mod_8_cases[of x]
    by (auto simp: bendx_get_def nb rd2_eq px_bits_def pix_loc_def phases_def in_group_def bx_gpix_def bx_gsz_def
        bit_joined10 add.assoc)
next
  assume nb: "nb = 12"
  have room: "off + x div 4 * 6 + 5 < length p"
    using assms(2) by (simp add: px_room_def bx_gpix_def bx_gsz_def nb)
  show ?thesis
    using room mod_4_cases[of x]
    by (auto simp: bendx_get_def nb rd2_eq px_bits_def pix_loc_def phases_def in_group_def bx_gpix_def bx_gsz_def
        bit_joined12 bit_joined12(2)[simplified] add.assoc)
qed

lemma wr2_eq:
  "\<lbrakk>a + i < length p; a + j < length p; i \<noteq> j\<rbrakk> \<Longrightarrow>
    wr2 p a i m v j m' v' = Some (p[a + i := (p ! (a + i) AND m) OR ucast v, a + j := (p ! (a + j) AND m') OR ucast v'])"
  by (simp add: wr2_def rd_def wr_def)

lemma wr2_swap:
  "\<lbrakk>a + i < length p; a + j < length p; i \<noteq> j\<rbrakk> \<Longrightarrow> wr2 p a j m' v' i m v = wr2 p a i m v j m' v'"
  by (simp add: wr2_eq list_update_swap)

text \<open>What a write of the high part to byte \<open>i\<close> and of the low \<open>c\<close> bits to byte \<open>j\<close> leaves.\<close>

definition put_split :: "u8 list \<Rightarrow> nat \<Rightarrow> nat \<Rightarrow> nat \<times> nat \<times> nat \<Rightarrow> u32 \<Rightarrow> u8 list option" where
  "put_split p a d = (\<lambda>(i, j, c) v.
     wr2 p a i (NOT (mask (d - c))) (drop_bit c v) j (mask (8 - c)) (push_bit (8 - c) v))"

lemma put_split_bits:
  assumes "i \<noteq> j" "a + i < length p" "a + j < length p" "c \<le> 8" "c < d" "d - c \<le> 8" "fits d v"
  shows "\<exists>p'. put_split p a d (i, j, c) v = Some p' \<and> length p' = length p \<and>
    (\<forall>k m. m < 8 \<longrightarrow> bit (p' ! k) m =
      (if k = a + i \<and> m < d - c then bit v (c + m)
       else if k = a + j \<and> 8 - c \<le> m then bit v (m - (8 - c)) else bit (p ! k) m))"
proof -
  have hi: "bit ((u AND NOT (mask (d - c))) OR ucast (drop_bit c v) :: u8) m \<longleftrightarrow>
      (if m < d - c then bit v (c + m) else bit u m)" if "m < 8" for u m
    using that assms(5-7) by (auto simp: bit_or_iff bit_and_iff bit_not_iff bit_mask_iff bit_ucast_iff bit_drop_bit_eq fits_def)
  have lo: "bit ((u AND mask (8 - c)) OR ucast (push_bit (8 - c) v) :: u8) m \<longleftrightarrow>
      (if 8 - c \<le> m then bit v (m - (8 - c)) else bit u m)" if "m < 8" for u m
    using that assms(4) by (auto simp: bit_or_iff bit_and_iff bit_mask_iff bit_ucast_iff bit_push_bit_iff)
  show ?thesis
    using assms(1-3) by (auto simp: put_split_def wr2_eq nth_list_update hi lo)
qed

lemma bendx_set_split:
  assumes "depth_ok nb" "px_room p off x nb"
  shows "bendx_set p off x v nb =
    put_split p (off + (x div bx_gpix nb) * bx_gsz nb) nb (phases nb ! (x mod bx_gpix nb)) v"
proof -
  have m: "mask 8 = (255 :: u8)" "mask 6 = (63 :: u8)" "mask 4 = (15 :: u8)" "mask 2 = (3 :: u8)" "mask 0 = (0 :: u8)"
    by (simp_all add: mask_numeral)
  have neg: "(- 256 :: u8) = 0" "(- 64 :: u8) = 192" "(- 16 :: u8) = 240" "(- 4 :: u8) = 252"
    by code_simp+
  show ?thesis
    using assms(1)
  proof
    assume nb: "nb = 10"
    have room: "off + x div 8 * 10 + 9 < length p"
      using assms(2) by (simp add: px_room_def bx_gpix_def bx_gsz_def nb)
    show ?thesis
      using mod_8_cases[of x] room
      by (auto simp: bendx_set_def nb put_split_def phases_def bx_gpix_def bx_gsz_def m neg wr2_swap)
  next
    assume nb: "nb = 12"
    have room: "off + x div 4 * 6 + 5 < length p"
      using assms(2) by (simp add: px_room_def bx_gpix_def bx_gsz_def nb)
    show ?thesis
      using mod_4_cases[of x] room
      by (auto simp: bendx_set_def nb put_split_def phases_def bx_gpix_def bx_gsz_def m neg wr2_swap)
  qed
qed

lemma phases_split:
  assumes "depth_ok nb" "r < bx_gpix nb" "phases nb ! r = (i, j, c)"
  shows "i \<noteq> j" "i < bx_gsz nb" "j < bx_gsz nb" "c \<le> 8" "c < nb" "nb - c \<le> 8"
proof -
  have all: "\<forall>nb\<in>set [10, 12]. \<forall>r\<in>set [0..<bx_gpix nb]. (\<lambda>(i, j, c). i \<noteq> j \<and> i < bx_gsz nb \<and> j < bx_gsz nb \<and>
      c \<le> 8 \<and> c < nb \<and> nb - c \<le> 8) (phases nb ! r)"
    by code_simp
  have m: "nb \<in> set [10, 12]" "r \<in> set [0..<bx_gpix nb]" using assms(1,2) by simp_all
  have "(\<lambda>(i, j, c). i \<noteq> j \<and> i < bx_gsz nb \<and> j < bx_gsz nb \<and>
      c \<le> 8 \<and> c < nb \<and> nb - c \<le> 8) (phases nb ! r)"
    by (rule all[THEN bspec, OF m(1), THEN bspec, OF m(2)])
  then show "i \<noteq> j" "i < bx_gsz nb" "j < bx_gsz nb" "c \<le> 8" "c < nb" "nb - c \<le> 8"
    by (simp_all add: assms(3))
qed

text \<open>A write sets exactly the bits of its pixel.\<close>

lemma bendx_set_bits:
  assumes nb: "depth_ok nb" and room: "px_room p off x nb" and v: "fits nb v"
  shows "\<exists>p'. bendx_set p off x v nb = Some p' \<and> length p' = length p \<and>
    (\<forall>n<nb. bit (p' ! (off + fst (pix_loc nb x n))) (snd (pix_loc nb x n)) = bit v n) \<and>
    (\<forall>k m. m < 8 \<longrightarrow> (\<forall>n<nb. (k, m) \<noteq> (off + fst (pix_loc nb x n), snd (pix_loc nb x n))) \<longrightarrow>
      bit (p' ! k) m = bit (p ! k) m)"
proof -
  define a where "a = off + (x div bx_gpix nb) * bx_gsz nb"
  define r where "r = x mod bx_gpix nb"
  obtain i j c where ph: "phases nb ! r = (i, j, c)" by (metis prod_cases3)
  note f = phases_split[OF nb _ ph]
  have r: "r < bx_gpix nb" by (simp add: r_def)
  have in_room: "a + k < length p" if "k < bx_gsz nb" for k
    using room that by (simp add: px_room_def a_def)
  obtain p' where p': "put_split p a nb (i, j, c) v = Some p'" "length p' = length p"
    and bits: "\<And>k m. m < 8 \<Longrightarrow> bit (p' ! k) m =
      (if k = a + i \<and> m < nb - c then bit v (c + m)
       else if k = a + j \<and> 8 - c \<le> m then bit v (m - (8 - c)) else bit (p ! k) m)"
    using put_split_bits[OF f(1) in_room in_room f(4-6) v] f r by blast
  have loc: "(off + fst (pix_loc nb x n), snd (pix_loc nb x n)) =
      (if c \<le> n then (a + i, n - c) else (a + j, 8 - c + n))" for n
    by (simp add: pix_loc_def Let_def split_beta a_def r_def[symmetric] ph in_group_def)
  have set: "bit (p' ! (off + fst (pix_loc nb x n))) (snd (pix_loc nb x n)) = bit v n" if "n < nb" for n
  proof (cases "c \<le> n")
    case True
    then have l: "off + fst (pix_loc nb x n) = a + i" "snd (pix_loc nb x n) = n - c" using loc[of n] by simp_all
    have "n - c < 8" "n - c < nb - c" using that True f(6)[OF r] by linarith+
    then show ?thesis using True unfolding l by (simp add: bits)
  next
    case False
    then have l: "off + fst (pix_loc nb x n) = a + j" "snd (pix_loc nb x n) = 8 - c + n" using loc[of n] by simp_all
    have "8 - c + n < 8" "8 - c + n - (8 - c) = n" using False f(4)[OF r] by linarith+
    then show ?thesis using f(1)[OF r] unfolding l by (simp add: bits)
  qed
  have frame: "bit (p' ! k) m = bit (p ! k) m"
    if "m < 8" and out: "\<forall>n<nb. (k, m) \<noteq> (off + fst (pix_loc nb x n), snd (pix_loc nb x n))" for k m
  proof -
    have "\<not> (k = a + i \<and> m < nb - c)"
    proof
      assume "k = a + i \<and> m < nb - c"
      then show False using out[rule_format, of "c + m"] loc[of "c + m"] by (auto simp: less_diff_conv add.commute)
    qed
    moreover have "\<not> (k = a + j \<and> 8 - c \<le> m)"
    proof
      assume *: "k = a + j \<and> 8 - c \<le> m"
      then have "m - (8 - c) < c" "8 - c + (m - (8 - c)) = m" using \<open>m < 8\<close> f(4)[OF r] by linarith+
      then show False using * out[rule_format, of "m - (8 - c)"] loc[of "m - (8 - c)"] f(5)[OF r] by auto
    qed
    ultimately show ?thesis using \<open>m < 8\<close> by (subst bits) auto
  qed
  show ?thesis
    using p' set frame bendx_set_split[OF nb room, of v] by (auto simp: a_def r_def ph[unfolded r_def])
qed

section \<open>The contract of a pixel store\<close>

text \<open>
  What an effect may assume of the accessors: a pixel of a row that has room reads and writes,
  a value that fits the depth is read back, and no other pixel changes. \<open>room\<close> depends on the
  size of the memory only.
\<close>

locale pixel_store =
  fixes get :: "u8 list \<Rightarrow> 'i \<Rightarrow> u32 option"
    and put :: "u8 list \<Rightarrow> 'i \<Rightarrow> u32 \<Rightarrow> u8 list option"
    and room :: "u8 list \<Rightarrow> 'i \<Rightarrow> bool"
    and depth :: nat
  assumes get_ok: "room p x \<Longrightarrow> ok (get p x) (fits depth)"
    and put_ok: "\<lbrakk>room p x; fits depth v\<rbrakk> \<Longrightarrow> ok (put p x v) (\<lambda>q. length q = length p \<and> get q x = Some v)"
    and put_other: "\<lbrakk>room p x; room p y; x \<noteq> y; fits depth v; put p x v = Some q\<rbrakk> \<Longrightarrow> get q y = get p y"
    and room_length: "length p = length q \<Longrightarrow> room p x = room q x"
begin

lemma put_put:
  assumes "room p x" "room p y" "x \<noteq> y" "fits depth v" "fits depth w"
    "put p x v = Some q" "put q y w = Some r"
  shows "get r x = Some v" "get r y = Some w" "length r = length p"
proof -
  have q: "length q = length p" "get q x = Some v"
    using put_ok[OF assms(1,4)] assms(6) by (auto simp: ok_def)
  then have room: "room q x" "room q y" using assms(1,2) room_length by blast+
  have r: "length r = length q" "get r y = Some w"
    using put_ok[OF room(2) assms(5)] assms(7) by (auto simp: ok_def)
  show "get r x = Some v" using put_other[OF room(2,1) _ assms(5,7)] assms(3) q(2) by simp
  show "get r y = Some w" "length r = length p" using r q by simp_all
qed

text \<open>A loop that rewrites pixels one by one, each of them once.\<close>

lemma map_pixels:
  assumes "distinct xs" and "\<And>i. i \<in> set xs \<Longrightarrow> room p i"
    and "\<And>i v. \<lbrakk>i \<in> set xs; fits depth v\<rbrakk> \<Longrightarrow> fits depth (f i v)"
  shows "ok (for_list xs (\<lambda>i q. get q i \<bind> (\<lambda>v. put q i (f i v))) p)
    (\<lambda>q. length q = length p \<and>
      (\<forall>y. room p y \<longrightarrow> get q y = (if y \<in> set xs then map_option (f y) (get p y) else get p y)))"
  using assms
proof (induction xs arbitrary: p)
  case Nil
  then show ?case by (simp add: ok_simps)
next
  case (Cons k xs)
  have rk: "room p k" and k: "k \<notin> set xs" using Cons.prems by simp_all
  obtain v where v: "get p k = Some v" "fits depth v" using get_ok[OF rk] by (auto simp: ok_def)
  have fv: "fits depth (f k v)" using Cons.prems(3) v(2) by simp
  obtain r where r: "put p k (f k v) = Some r" "length r = length p" "get r k = Some (f k v)"
    using put_ok[OF rk fv] by (auto simp: ok_def)
  have room: "room r y = room p y" for y using r(2) by (rule room_length)
  have other: "get r y = get p y" if "y \<noteq> k" "room p y" for y
    using put_other[OF rk _ _ fv r(1), of y] that by metis
  have other': "get r y = get p y" if "y \<in> set xs" "room p y" for y
    using other[of y] that k by metis
  have "ok (for_list xs (\<lambda>i q. get q i \<bind> (\<lambda>v. put q i (f i v))) r)
    (\<lambda>q. length q = length r \<and>
      (\<forall>y. room r y \<longrightarrow> get q y = (if y \<in> set xs then map_option (f y) (get r y) else get r y)))"
    using Cons.prems by (intro Cons.IH) (simp_all add: room)
  then have "ok (for_list xs (\<lambda>i q. get q i \<bind> (\<lambda>v. put q i (f i v))) r)
    (\<lambda>q. length q = length p \<and>
      (\<forall>y. room p y \<longrightarrow> get q y = (if y \<in> set (k # xs) then map_option (f y) (get p y) else get p y)))"
    by (rule ok_mono) (auto simp: r v k room other other')
  then show ?case by (simp add: v(1) r(1))
qed

end

lemma fits_cong: "(\<And>n. bit v n \<longleftrightarrow> n < nb \<and> P n) \<Longrightarrow> fits nb v"
  by (simp add: fits_def)

lemma px_bits_fits: "px_bits p off x nb v \<Longrightarrow> fits nb v"
  by (simp add: px_bits_def fits_def)

lemma px_bits_unique: "px_bits p off x nb v \<Longrightarrow> px_bits p off x nb w \<Longrightarrow> v = w"
  by (rule bit_eqI) (simp add: px_bits_def)

lemma px_room_length: "length p = length q \<Longrightarrow> px_room p off x nb = px_room q off x nb"
  by (simp add: px_room_def)

lemma bendx_pixel_store:
  assumes nb: "depth_ok nb"
  shows "pixel_store (\<lambda>p x. bendx_get p off x nb) (\<lambda>p x v. bendx_set p off x v nb)
    (\<lambda>p x. px_room p off x nb) nb"
proof
  fix p q x y v
  show "px_room p off x nb \<Longrightarrow> ok (bendx_get p off x nb) (fits nb)"
    using bendx_get_bits[OF nb, of p off x] px_bits_fits[of p off x nb] by (auto simp: ok_def)
  show "length p = length q \<Longrightarrow> px_room p off x nb = px_room q off x nb"
    by (rule px_room_length)
  show "ok (bendx_set p off x v nb) (\<lambda>q. length q = length p \<and> bendx_get q off x nb = Some v)"
    if room: "px_room p off x nb" and v: "fits nb v"
  proof -
    obtain p' where p': "bendx_set p off x v nb = Some p'" "length p' = length p"
      and bits: "\<And>n. n < nb \<Longrightarrow> bit (p' ! (off + fst (pix_loc nb x n))) (snd (pix_loc nb x n)) = bit v n"
      using bendx_set_bits[OF nb room v] by blast
    have "px_room p' off x nb" using room p'(2) px_room_length by blast
    then obtain w where w: "bendx_get p' off x nb = Some w" "px_bits p' off x nb w"
      using bendx_get_bits[OF nb] by blast
    have "px_bits p' off x nb v" using bits v by (auto simp: px_bits_def fits_def)
    then have "w = v" using w(2) px_bits_unique by blast
    with p' w(1) show ?thesis by (simp add: ok_def)
  qed
  show "bendx_get q off y nb = bendx_get p off y nb"
    if room: "px_room p off x nb" "px_room p off y nb" and ne: "x \<noteq> y" and v: "fits nb v"
      and q: "bendx_set p off x v nb = Some q"
  proof -
    have len: "length q = length p" and frame: "\<And>k m. \<lbrakk>m < 8;
        \<forall>n<nb. (k, m) \<noteq> (off + fst (pix_loc nb x n), snd (pix_loc nb x n))\<rbrakk> \<Longrightarrow> bit (q ! k) m = bit (p ! k) m"
      using bendx_set_bits[OF nb room(1) v] q by auto
    have "px_room q off y nb" using room(2) len px_room_length by blast
    then obtain w where w: "bendx_get q off y nb = Some w" "px_bits q off y nb w"
      using bendx_get_bits[OF nb] by blast
    have same: "bit (q ! (off + fst (pix_loc nb y n))) (snd (pix_loc nb y n)) =
        bit (p ! (off + fst (pix_loc nb y n))) (snd (pix_loc nb y n))" if "n < nb" for n
    proof (rule frame)
      show "snd (pix_loc nb y n) < 8" using pix_loc_bounds[OF nb that] by simp
      show "\<forall>m<nb. (off + fst (pix_loc nb y n), snd (pix_loc nb y n)) \<noteq>
          (off + fst (pix_loc nb x m), snd (pix_loc nb x m))"
        using pix_loc_inj[OF nb that] ne by (metis add_left_cancel prod.collapse prod.inject)
    qed
    then have wb: "px_bits p off y nb w" using w(2) by (auto simp: px_bits_def)
    obtain u where u: "bendx_get p off y nb = Some u" "px_bits p off y nb u"
      using bendx_get_bits[OF nb room(2)] by blast
    have "w = u" by (rule px_bits_unique[OF wb u(2)])
    with w(1) u(1) show ?thesis by simp
  qed
qed

interpretation px10: pixel_store "\<lambda>p x. bendx_get p off x 10" "\<lambda>p x v. bendx_set p off x v 10"
  "\<lambda>p x. px_room p off x 10" 10 for off
  by (rule bendx_pixel_store) simp

interpretation px12: pixel_store "\<lambda>p x. bendx_get p off x 12" "\<lambda>p x v. bendx_set p off x v 12"
  "\<lambda>p x. px_room p off x 12" 12 for off
  by (rule bendx_pixel_store) simp

section \<open>What a merge may change\<close>

lemma merge_keeps: "bx_merge old nw lanes mx AND NOT lanes = old AND NOT lanes"
  by (simp add: bx_merge_def Let_def bit_eq_iff bit_or_iff bit_and_iff bit_not_iff) blast

lemma merge_set_all: "bx_merge old nw 0xff 0 = nw"
  by (simp add: bx_merge_def bx_mixb_def u8_eq_iff bit_simps)

lemma mixv_keeps: "bx_mixv old nw msk mx AND NOT msk = old AND NOT msk"
  by (simp add: bx_mixv_def Let_def bit_eq_iff bit_or_iff bit_and_iff bit_not_iff) blast

lemma bit_planes: "bit (bx_planes x nb) n \<Longrightarrow> n < nb"
proof -
  have "push_bit nb 1 - 1 = (mask nb :: u32)" by (simp add: mask_eq_exp_minus_1 push_bit_eq_mult)
  then show "bit (bx_planes x nb) n \<Longrightarrow> n < nb"
    by (auto simp: bx_planes_def Let_def bit_and_iff bit_mask_iff split: if_splits)
qed

lemma mixv_fits: "fits nb old \<Longrightarrow> fits nb (bx_mixv old nw (bx_planes x nb) mx)"
  by (auto simp: fits_def bx_mixv_def Let_def bit_or_iff bit_and_iff dest: bit_planes)

lemma mixv_set_all:
  assumes "fits nb old" "fits nb nw" "x_lanes x = 0" "nb < 32"
  shows "bx_mixv old nw (bx_planes x nb) 0 = nw"
proof (rule bit_eqI)
  fix n
  have "push_bit nb 1 - 1 = (mask nb :: u32)" by (simp add: mask_eq_exp_minus_1 push_bit_eq_mult)
  then show "bit (bx_mixv old nw (bx_planes x nb) 0) n \<longleftrightarrow> bit nw n"
    using assms by (auto simp: bx_mixv_def bx_planes_def Let_def bit_or_iff bit_and_iff bit_not_iff bit_mask_iff fits_def)
qed

text \<open>\<open>keeps lanes p q\<close>: \<open>q\<close> is \<open>p\<close> except for bits of the lanes.\<close>

definition keeps :: "u8 \<Rightarrow> u8 list \<Rightarrow> u8 list \<Rightarrow> bool" where
  "keeps lanes p q \<longleftrightarrow> length q = length p \<and> (\<forall>k<length p. q ! k AND NOT lanes = p ! k AND NOT lanes)"

lemma keeps_refl [simp]: "keeps lanes p p"
  by (simp add: keeps_def)

lemma keeps_trans: "keeps lanes p q \<Longrightarrow> keeps lanes q r \<Longrightarrow> keeps lanes p r"
  by (simp add: keeps_def)

lemma keeps_length: "keeps lanes p q \<Longrightarrow> length q = length p"
  by (simp add: keeps_def)

lemma keeps_wr:
  "keeps lanes p q \<Longrightarrow> v AND NOT lanes = q ! k AND NOT lanes \<Longrightarrow> keeps lanes p (q[k := v])"
  by (cases "k < length q") (auto simp: keeps_def nth_list_update)

lemma keeps_merge: "keeps lanes p q \<Longrightarrow> keeps lanes p (q[k := bx_merge (q ! k) nw lanes mx])"
  by (rule keeps_wr) (simp_all add: merge_keeps)

section \<open>Row helpers\<close>

text \<open>The frame buffer and the caller's scratch space.\<close>

type_synonym mem = "u8 list \<times> u8 list"

text \<open>\<open>for (i = 0; i < len; i++) s[i] = row[i]\<close>\<close>

definition copy_row :: "nat \<Rightarrow> u8 list \<Rightarrow> nat \<Rightarrow> u8 list \<Rightarrow> nat \<Rightarrow> u8 list option" where
  "copy_row len fb off sc dst = for_range 0 len (\<lambda>i sc. rd fb (off + i) \<bind> wr sc (dst + i)) sc"

definition bx_rot :: "u8 list \<Rightarrow> nat \<Rightarrow> nat \<Rightarrow> nat \<Rightarrow> nat \<Rightarrow> u8 list option" where
  "bx_rot sc dst src len bits =
     (if len = 0 then Some sc
      else let bits = bits mod (len * 8); bo = bits div 8; bi = bits mod 8 in
        if bi = 0 then for_range 0 len (\<lambda>i sc. rd sc (src + (i + bo) mod len) \<bind> wr sc (dst + i)) sc
        else for_range 0 len (\<lambda>i sc. do {
            a \<leftarrow> rd sc (src + (i + bo) mod len);
            b \<leftarrow> rd sc (src + (i + bo + 1) mod len);
            wr sc (dst + i) (ucast ((push_bit bi (ucast a) OR drop_bit (8 - bi) (ucast b)) AND 0xff :: u32)) }) sc)"

definition bx_blend_row :: "u8 list \<Rightarrow> nat \<Rightarrow> u8 list \<Rightarrow> nat \<Rightarrow> nat \<Rightarrow> u8 \<Rightarrow> u8 \<Rightarrow> u8 list option" where
  "bx_blend_row fb off sc nw len lanes mx =
     for_range 0 len (\<lambda>i fb. do {
       c \<leftarrow> rd fb (off + i); n \<leftarrow> rd sc (nw + i);
       wr fb (off + i) (bx_merge c n lanes mx) }) fb"

text \<open>
  Every one of these loops fills a stretch of an array from left to right with values that do
  not depend on what it has already written.
\<close>

lemma fill_loop:
  assumes room: "d + n \<le> length xs"
    and step: "\<And>i ys. \<lbrakk>i < n; length ys = length xs; \<And>k. k < d \<or> d + i \<le> k \<Longrightarrow> ys ! k = xs ! k\<rbrakk> \<Longrightarrow>
      f i ys = Some (ys[d + i := v i])"
  shows "ok (for_range 0 n f xs) (\<lambda>ys. length ys = length xs \<and>
    (\<forall>k. ys ! k = (if d \<le> k \<and> k < d + n then v (k - d) else xs ! k)))"
proof (rule for_range_post[where I = "\<lambda>j ys. length ys = length xs \<and>
    (\<forall>k. ys ! k = (if d \<le> k \<and> k < d + j then v (k - d) else xs ! k))"])
  fix i ys
  assume i: "0 \<le> i" "i < n" and I: "length ys = length xs \<and>
    (\<forall>k. ys ! k = (if d \<le> k \<and> k < d + i then v (k - d) else xs ! k))"
  have "f i ys = Some (ys[d + i := v i])" using i I by (intro step) auto
  moreover have "ys[d + i := v i] ! k = (if d \<le> k \<and> k < d + Suc i then v (k - d) else xs ! k)" for k
    using I i room by (cases "k = d + i") auto
  ultimately show "ok (f i ys) (\<lambda>ys. length ys = length xs \<and>
      (\<forall>k. ys ! k = (if d \<le> k \<and> k < d + Suc i then v (k - d) else xs ! k)))"
    using I by (simp add: ok_simps)
qed auto

lemma copy_row_spec:
  assumes "off + len \<le> length fb" "dst + len \<le> length sc"
  shows "ok (copy_row len fb off sc dst) (\<lambda>sc'. length sc' = length sc \<and>
    (\<forall>k. sc' ! k = (if dst \<le> k \<and> k < dst + len then fb ! (off + (k - dst)) else sc ! k)))"
  unfolding copy_row_def
  by (rule fill_loop[where v = "\<lambda>i. fb ! (off + i)"]) (use assms in \<open>simp_all add: rd_def wr_def\<close>)

text \<open>A row rotated left by a number of bits, as a function of the row's bytes.\<close>

definition rot_byte :: "(nat \<Rightarrow> u8) \<Rightarrow> nat \<Rightarrow> nat \<Rightarrow> nat \<Rightarrow> u8" where
  "rot_byte r len bits i =
     (let bits = bits mod (len * 8); bo = bits div 8; bi = bits mod 8 in
      if bi = 0 then r ((i + bo) mod len)
      else ucast ((push_bit bi (ucast (r ((i + bo) mod len))) OR
        drop_bit (8 - bi) (ucast (r ((i + bo + 1) mod len)))) AND 0xff :: u32))"

lemma bx_rot_spec:
  assumes room: "dst + len \<le> length sc" "src + len \<le> length sc" and apart: "src + len \<le> dst \<or> dst + len \<le> src"
  shows "ok (bx_rot sc dst src len bits) (\<lambda>sc'. length sc' = length sc \<and>
    (\<forall>k. sc' ! k = (if dst \<le> k \<and> k < dst + len then rot_byte (\<lambda>i. sc ! (src + i)) len bits (k - dst) else sc ! k)))"
proof (cases "len = 0")
  case True
  then show ?thesis by (auto simp: bx_rot_def ok_simps)
next
  case False
  have src: "src + m mod len < length sc" "\<not> (dst \<le> src + m mod len \<and> src + m mod len < dst + len)" for m
    using room apart False mod_less_divisor[of len m] by linarith+
  have keep: "ys ! (src + m mod len) = sc ! (src + m mod len)"
    if "\<And>k. k < dst \<or> dst + i \<le> k \<Longrightarrow> ys ! k = sc ! k" "i < len" for ys m i
    using src[of m] that by (intro that(1)) linarith
  define r where "r = (\<lambda>i. sc ! (src + i))"
  define bo where "bo = bits mod (len * 8) div 8"
  define bi where "bi = bits mod (len * 8) mod 8"
  define f :: "nat \<Rightarrow> u8 list \<Rightarrow> u8 list option" where "f = (if bi = 0 then (\<lambda>i sc. rd sc (src + (i + bo) mod len) \<bind> wr sc (dst + i))
    else (\<lambda>i sc. do { a \<leftarrow> rd sc (src + (i + bo) mod len); b \<leftarrow> rd sc (src + (i + bo + 1) mod len);
      wr sc (dst + i) (ucast ((push_bit bi (ucast a) OR drop_bit (8 - bi) (ucast b)) AND 0xff :: u32)) }))"
  have rot: "bx_rot sc dst src len bits = for_range 0 len f sc"
    using False by (simp add: bx_rot_def Let_def f_def bo_def bi_def)
  have byte: "rot_byte r len bits i = (if bi = 0 then r ((i + bo) mod len)
      else ucast ((push_bit bi (ucast (r ((i + bo) mod len))) OR
        drop_bit (8 - bi) (ucast (r ((i + bo + 1) mod len)))) AND 0xff :: u32))" for i
    by (simp add: rot_byte_def Let_def bo_def bi_def)
  show ?thesis
    unfolding rot r_def[symmetric]
  proof (rule fill_loop[OF room(1)])
    fix i ys
    assume i: "i < len" and len: "length ys = length sc"
      and same: "\<And>k. k < dst \<or> dst + i \<le> k \<Longrightarrow> ys ! k = sc ! k"
    have "rd ys (src + m mod len) = Some (r (m mod len))" for m
      using keep[OF same i, of m] src(1)[of m] len by (simp add: rd_def r_def)
    moreover have "wr ys (dst + i) v = Some (ys[dst + i := v])" for v
      using i len room(1) by (simp add: wr_def)
    ultimately show "f i ys = Some (ys[dst + i := rot_byte r len bits i])"
      by (simp add: f_def byte)
  qed
qed

lemma bx_blend_row_spec:
  assumes "off + len \<le> length fb" "nw + len \<le> length sc"
  shows "ok (bx_blend_row fb off sc nw len lanes mx) (\<lambda>fb'. length fb' = length fb \<and>
    (\<forall>k. fb' ! k = (if off \<le> k \<and> k < off + len then bx_merge (fb ! k) (sc ! (nw + (k - off))) lanes mx else fb ! k)))"
proof -
  have "ok (bx_blend_row fb off sc nw len lanes mx) (\<lambda>fb'. length fb' = length fb \<and>
    (\<forall>k. fb' ! k = (if off \<le> k \<and> k < off + len
      then bx_merge (fb ! (off + (k - off))) (sc ! (nw + (k - off))) lanes mx else fb ! k)))"
    unfolding bx_blend_row_def
    by (rule fill_loop[where v = "\<lambda>i. bx_merge (fb ! (off + i)) (sc ! (nw + i)) lanes mx"])
       (use assms in \<open>simp_all add: rd_def wr_def\<close>)
  then show ?thesis by (rule ok_mono) auto
qed

text \<open>
  A row as the bit stream the bus carries: bytes in address order, the most significant bit
  first. Rotating the row rotates the stream, and nothing else: the bytes are intact and the
  boundaries are not.
\<close>

definition stream_bit :: "(nat \<Rightarrow> u8) \<Rightarrow> nat \<Rightarrow> bool" where
  "stream_bit r k = bit (r (k div 8)) (7 - k mod 8)"

lemma mod_mult8: "0 < len \<Longrightarrow> (8 * q + j) mod (8 * len) = 8 * (q mod len) + j" if "j < 8" for q j len :: nat
proof -
  assume "0 < len"
  then have "8 * (q mod len) + j < 8 * len" using that mod_less_divisor[of len q] by linarith
  moreover have "8 * q + j = 8 * len * (q div len) + (8 * (q mod len) + j)"
    by (metis (no_types, lifting) add.assoc distrib_left mult.assoc mult_div_mod_eq)
  ultimately show ?thesis by (metis mod_less mod_mult_self4)
qed

lemma rot_stream:
  assumes "k < 8 * len"
  shows "stream_bit (rot_byte r len bits) k = stream_bit r ((k + bits) mod (8 * len))"
proof -
  define b where "b = bits mod (len * 8)"
  define bo where "bo = b div 8"
  define bi where "bi = b mod 8"
  define i where "i = k div 8"
  define j where "j = k mod 8"
  have len: "0 < len" using assms by simp
  have bi: "bi < 8" "j < 8" by (simp_all add: bi_def j_def)
  have k: "k = 8 * i + j" by (simp add: i_def j_def)
  have b8: "b = 8 * bo + bi" by (simp add: bo_def bi_def)
  have "(k + bits) mod (8 * len) = (k + b) mod (8 * len)"
    by (simp add: b_def mod_add_right_eq mult.commute)
  also have "\<dots> = (8 * (i + bo) + (j + bi)) mod (8 * len)" by (simp add: k b8 algebra_simps)
  finally have pos: "(k + bits) mod (8 * len) = (8 * (i + bo) + (j + bi)) mod (8 * len)" .
  have lhs: "stream_bit (rot_byte r len bits) k = bit (rot_byte r len bits i) (7 - j)"
    by (simp add: stream_bit_def i_def j_def)
  have byte: "rot_byte r len bits i = (if bi = 0 then r ((i + bo) mod len)
      else ucast ((push_bit bi (ucast (r ((i + bo) mod len))) OR
        drop_bit (8 - bi) (ucast (r ((i + bo + 1) mod len)))) AND 0xff :: u32))"
    by (simp add: rot_byte_def Let_def b_def bo_def bi_def)
  have ff: "(0xff :: u32) = mask 8" by (simp add: mask_numeral)
  show ?thesis
  proof (cases "j + bi < 8")
    case True
    have "stream_bit r ((k + bits) mod (8 * len)) = bit (r ((i + bo) mod len)) (7 - (j + bi))"
      using mod_mult8[OF True len, of "i + bo"] True by (simp add: pos stream_bit_def)
    moreover have "bit (rot_byte r len bits i) (7 - j) = bit (r ((i + bo) mod len)) (7 - (j + bi))"
      unfolding byte ff using True bi
      by (auto simp: bit_ucast_iff bit_and_iff bit_or_iff bit_mask_iff bit_push_bit_iff bit_drop_bit_eq
          dest: bit_u8_less)
    ultimately show ?thesis by (simp add: lhs)
  next
    case False
    define j' where "j' = j + bi - 8"
    have j': "j' < 8" "j + bi = 8 + j'" using False bi by (simp_all add: j'_def)
    have "(8 * (i + bo) + (j + bi)) = 8 * (i + bo + 1) + j'" using j' by simp
    then have "stream_bit r ((k + bits) mod (8 * len)) = bit (r ((i + bo + 1) mod len)) (7 - j')"
      using mod_mult8[OF j'(1) len, of "i + bo + 1"] j' by (simp only: pos stream_bit_def) simp
    moreover have "bit (rot_byte r len bits i) (7 - j) = bit (r ((i + bo + 1) mod len)) (7 - j')"
    proof -
      have "8 - bi + (7 - j) = 7 - j'" "\<not> bi \<le> 7 - j" "bi \<noteq> 0" using j' bi False by linarith+
      then show ?thesis
        unfolding byte ff
        by (auto simp: bit_ucast_iff bit_and_iff bit_or_iff bit_mask_iff bit_push_bit_iff bit_drop_bit_eq
            dest: bit_u8_less)
    qed
    ultimately show ?thesis by (simp add: lhs)
  qed
qed

end
