(* ===== verification/BxBytes.thy ===== *)
theory BxBytes
  imports BxBuf
begin

text \<open>
  The byte-domain effects of \<open>core/bendx.c\<close>: byte order, slip, tear, the address lines,
  stride, refresh, echo, line memory, field order, the foreign buses and lock loss. Each is
  the code's row loop over the frame buffer and the scratch space; each is shown to stay inside
  both and to change no bit outside the profile's lanes. The service callback of the row loops
  is display work and is left out.
\<close>

section \<open>The effects\<close>

definition amt :: "bendx_t \<Rightarrow> nat" where "amt x = unat (x_amount x)"
definition rch :: "bendx_t \<Rightarrow> nat" where "rch x = unat (x_reach x)"

text \<open>
  The pattern the rotating and reordering effects share: the row into \<open>s0\<close>, \<open>s0\<close> transformed
  into \<open>s1\<close>, \<open>s1\<close> merged over the row. \<open>s0\<close> is the start of the scratch and \<open>s1\<close> one row
  further.
\<close>

definition bend_row :: "bendx_t \<Rightarrow> nat \<Rightarrow> nat \<Rightarrow> (u8 list \<Rightarrow> u8 list option) \<Rightarrow> mem \<Rightarrow> mem option" where
  "bend_row x len y tr = (\<lambda>(fb, sc). do {
     sc \<leftarrow> copy_row len fb (y * len) sc 0;
     sc \<leftarrow> tr sc;
     fb \<leftarrow> bx_blend_row fb (y * len) sc len len (bx_lanes x) (x_mix x);
     Some (fb, sc) })"

subsection \<open>Byte order\<close>

text \<open>\<open>for (i = 0; i + blk <= len; i += blk)\<close>, and where the loop leaves \<open>i\<close>.\<close>

definition blocks :: "nat \<Rightarrow> nat \<Rightarrow> nat list" where
  "blocks blk len = map (\<lambda>q. q * blk) [0..<len div blk]"

definition blocks_end :: "nat \<Rightarrow> nat \<Rightarrow> nat" where
  "blocks_end blk len = len div blk * blk"

definition mv :: "u8 list \<Rightarrow> nat \<Rightarrow> nat \<Rightarrow> u8 list option" where
  "mv sc d s = rd sc s \<bind> wr sc d"

definition bitrev8 :: "u8 \<Rightarrow> u8" where
  "bitrev8 c =
     (let v = ucast c :: u32;
          v = drop_bit 1 (v AND 0xaa) OR push_bit 1 (v AND 0x55);
          v = drop_bit 2 (v AND 0xcc) OR push_bit 2 (v AND 0x33);
          v = drop_bit 4 (v AND 0xf0) OR push_bit 4 (v AND 0x0f)
      in ucast v)"

definition nibswap8 :: "u8 \<Rightarrow> u8" where
  "nibswap8 c = ucast (push_bit 4 (ucast c) OR drop_bit 4 (ucast c) :: u32)"

definition endian_swap2 :: "nat \<Rightarrow> u8 list \<Rightarrow> u8 list option" where
  "endian_swap2 len sc = do {
     sc \<leftarrow> for_list (blocks 2 len) (\<lambda>i sc. do {
         sc \<leftarrow> mv sc (len + i) (i + 1); mv sc (len + (i + 1)) i }) sc;
     if odd len then mv sc (len + (len - 1)) (len - 1) else Some sc }"

definition endian_rev4 :: "nat \<Rightarrow> u8 list \<Rightarrow> u8 list option" where
  "endian_rev4 len sc = do {
     sc \<leftarrow> for_list (blocks 4 len) (\<lambda>i sc. do {
         sc \<leftarrow> mv sc (len + i) (i + 3); sc \<leftarrow> mv sc (len + (i + 1)) (i + 2);
         sc \<leftarrow> mv sc (len + (i + 2)) (i + 1); mv sc (len + (i + 3)) i }) sc;
     for_range (blocks_end 4 len) len (\<lambda>i sc. mv sc (len + i) i) sc }"

definition endian_group :: "nat \<Rightarrow> nat \<Rightarrow> u8 list \<Rightarrow> u8 list option" where
  "endian_group gsz len sc = do {
     sc \<leftarrow> for_list (blocks gsz len) (\<lambda>i.
         for_range 0 gsz (\<lambda>k sc. mv sc (len + (i + k)) (i + gsz - 1 - k))) sc;
     for_range (blocks_end gsz len) len (\<lambda>i sc. mv sc (len + i) i) sc }"

definition endian_map :: "(u8 \<Rightarrow> u8) \<Rightarrow> nat \<Rightarrow> u8 list \<Rightarrow> u8 list option" where
  "endian_map f len sc = for_range 0 len (\<lambda>i sc. rd sc i \<bind> (\<lambda>c. wr sc (len + i) (f c))) sc"

definition endian_row :: "nat \<Rightarrow> nat \<Rightarrow> nat \<Rightarrow> u8 list \<Rightarrow> u8 list option" where
  "endian_row amount gsz len sc =
     (if amount = 0 then endian_swap2 len sc
      else if amount = 1 then endian_rev4 len sc
      else if amount = 2 then endian_group gsz len sc
      else if amount = 3 then endian_map nibswap8 len sc
      else endian_map bitrev8 len sc)"

definition bx_endian :: "bendx_t \<Rightarrow> bendx_buf_t \<Rightarrow> mem \<Rightarrow> mem option" where
  "bx_endian x b =
     (let gsz = bx_gsz (bb_nbits b); len = bb_rowlen b in
      for_range 0 (bb_rows b) (\<lambda>y m.
        if \<not> bx_on x y then Some m else bend_row x len y (endian_row (amt x) gsz len) m))"

subsection \<open>Slip, tear and lock loss\<close>

definition bx_slip :: "bendx_t \<Rightarrow> bendx_buf_t \<Rightarrow> mem \<Rightarrow> mem option" where
  "bx_slip x b =
     (let len = bb_rowlen b; bits = amt x + 1 + rch x * 8 in
      for_range 0 (bb_rows b) (\<lambda>y m.
        if \<not> bx_on x y then Some m else bend_row x len y (\<lambda>sc. bx_rot sc len 0 len bits) m))"

definition bx_tear :: "bendx_t \<Rightarrow> bendx_buf_t \<Rightarrow> mem \<Rightarrow> mem option" where
  "bx_tear x b m =
     (let len = bb_rowlen b; per = amt x + 1; bits = rch x * 8 in
      map_option fst (for_range 0 (bb_rows b) (\<lambda>y (m, bits).
        let bits = (bits + per) mod 2 ^ 32 in
        if \<not> bx_on x y then Some (m, bits)
        else do { m \<leftarrow> bend_row x len y (\<lambda>sc. bx_rot sc len 0 len bits) m; Some (m, bits) }) (m, bits)))"

definition bx_lock :: "bendx_t \<Rightarrow> bendx_buf_t \<Rightarrow> mem \<Rightarrow> mem option" where
  "bx_lock x b m =
     (let len = bb_rowlen b; rate = amt x + 1; span = (rch x + 1) * 8 in
      map_option fst (for_range 0 (bb_rows b) (\<lambda>y (m, st, bits).
        let st = xs32 st;
            (st, bits) = (if unat (st mod 100) < rate
              then (let st = xs32 st in (st, unat (st mod word_of_nat (span + 1)))) else (st, bits)) in
        if \<not> bx_on x y \<or> bits = 0 then Some (m, st, bits)
        else do { m \<leftarrow> bend_row x len y (\<lambda>sc. bx_rot sc len 0 len bits) m; Some (m, st, bits) })
        (m, xs32 (x_seed x), 0)))"

subsection \<open>Address lines and field order\<close>

text \<open>Two rows trade places: the body both \<open>bx_addr\<close> and \<open>bx_field\<close> have.\<close>

definition swap_rows :: "bendx_t \<Rightarrow> nat \<Rightarrow> nat \<Rightarrow> nat \<Rightarrow> mem \<Rightarrow> mem option" where
  "swap_rows x len ya yb = (\<lambda>(fb, sc). do {
     sc \<leftarrow> copy_row len fb (ya * len) sc 0;
     fb \<leftarrow> for_range 0 len (\<lambda>i fb. do {
         a \<leftarrow> rd sc i; c \<leftarrow> rd fb (yb * len + i);
         fb \<leftarrow> wr fb (ya * len + i) (bx_merge a c (bx_lanes x) (x_mix x));
         wr fb (yb * len + i) (bx_merge c a (bx_lanes x) (x_mix x)) }) fb;
     Some (fb, sc) })"

definition bx_addr :: "bendx_t \<Rightarrow> bendx_buf_t \<Rightarrow> mem \<Rightarrow> mem option" where
  "bx_addr x b m =
     (let len = bb_rowlen b; step = 2 ^ amt x in
      if bb_rows b \<le> step then Some m
      else for_range 0 (bb_rows b) (\<lambda>y m.
        let y2 = y OR step in
        if y AND step \<noteq> 0 then Some m
        else if bb_rows b \<le> y2 then Some m
        else if \<not> bx_on x y then Some m
        else swap_rows x len y y2 m) m)"

definition swap_groups :: "bendx_t \<Rightarrow> nat \<Rightarrow> nat \<Rightarrow> nat \<Rightarrow> u8 list \<Rightarrow> u8 list option" where
  "swap_groups x gsz ga gb = for_range 0 gsz (\<lambda>k fb. do {
     a \<leftarrow> rd fb (ga + k); c \<leftarrow> rd fb (gb + k);
     fb \<leftarrow> wr fb (ga + k) (bx_merge a c (bx_lanes x) (x_mix x));
     wr fb (gb + k) (bx_merge c a (bx_lanes x) (x_mix x)) })"

definition bx_coladdr :: "bendx_t \<Rightarrow> bendx_buf_t \<Rightarrow> mem \<Rightarrow> mem option" where
  "bx_coladdr x b = (\<lambda>(fb, sc).
     (let gsz = bx_gsz (bb_nbits b); len = bb_rowlen b; ngroups = len div gsz; step = 2 ^ amt x in
      if ngroups \<le> step then Some (fb, sc)
      else do {
        fb \<leftarrow> for_range 0 (bb_rows b) (\<lambda>y fb.
          if \<not> bx_on x y then Some fb
          else for_range 0 ngroups (\<lambda>g fb.
            let g2 = g OR step in
            if g AND step \<noteq> 0 then Some fb
            else if ngroups \<le> g2 then Some fb
            else swap_groups x gsz (y * len + g * gsz) (y * len + g2 * gsz) fb) fb) fb;
        Some (fb, sc) }))"

text \<open>\<open>for (y0 = 0; y0 < rows; y0 += blk)\<close>\<close>

definition starts :: "nat \<Rightarrow> nat \<Rightarrow> nat list" where
  "starts blk rows = map (\<lambda>q. q * blk) [0..<(rows + blk - 1) div blk]"

definition bx_field :: "bendx_t \<Rightarrow> bendx_buf_t \<Rightarrow> mem \<Rightarrow> mem option" where
  "bx_field x b =
     (let len = bb_rowlen b; rows = bb_rows b; blk = amt x + 2 in
      for_list (starts blk rows) (\<lambda>y0 m.
        let n = (if y0 + blk \<le> rows then blk else rows - y0) in
        if \<not> bx_on x y0 then Some m
        else for_range 0 (n div 2) (\<lambda>k. swap_rows x len (y0 + k) (y0 + n - 1 - k)) m))"

subsection \<open>Stride, refresh, echo and line memory\<close>

definition bx_stride :: "bendx_t \<Rightarrow> bendx_buf_t \<Rightarrow> mem \<Rightarrow> mem option" where
  "bx_stride x b m =
     (let len = bb_rowlen b; total = len * bb_rows b; d = amt x + 1 + rch x * 64 in
      if total = 0 then Some m
      else for_range 0 (bb_rows b) (\<lambda>y (fb, sc).
        let src = (y * (len + d)) mod 2 ^ 32 mod total in
        if \<not> bx_on x y then Some (fb, sc)
        else do {
          sc \<leftarrow> (if src + len \<le> total then copy_row len fb src sc 0
                 else let hd = total - src in do {
                   sc \<leftarrow> for_range 0 hd (\<lambda>i sc. rd fb (src + i) \<bind> wr sc i) sc;
                   for_range hd len (\<lambda>i sc. rd fb (i - hd) \<bind> wr sc i) sc });
          fb \<leftarrow> bx_blend_row fb (y * len) sc 0 len (bx_lanes x) (x_mix x);
          Some (fb, sc) }) m)"

definition bx_refresh :: "bendx_t \<Rightarrow> bendx_buf_t \<Rightarrow> mem \<Rightarrow> mem option" where
  "bx_refresh x b = (\<lambda>(fb, sc).
     (let lanes = bx_lanes x; len = bb_rowlen b; sev = amt x + 1; to_one = (uint (x_mix x) = BXMIX_OR) in
      if bb_rows b = 0 then Some (fb, sc)
      else do {
        fb \<leftarrow> for_range 0 (bb_rows b) (\<lambda>y fb.
          let st = xs32 (x_seed x XOR (word_of_nat y * 0x9e3779b9));
              thr = sev * (y * 0x10000 mod 2 ^ 32 div bb_rows b) mod 2 ^ 32 div 16 in
          if \<not> bx_on x y then Some fb
          else map_option fst (for_range 0 len (\<lambda>i (fb, st).
            let st = xs32 st in
            if thr \<le> unat (st AND 0xffff) then Some (fb, st)
            else do {
              c \<leftarrow> rd fb (y * len + i);
              fb \<leftarrow> wr fb (y * len + i) (if to_one then c OR lanes else c AND NOT lanes);
              Some (fb, st) }) (fb, st))) fb;
        Some (fb, sc) }))"

text \<open>\<open>cur\<close> and \<open>prev\<close> are the two halves of the scratch, exchanged after every row.\<close>

definition echo_row :: "bendx_t \<Rightarrow> nat \<Rightarrow> nat \<Rightarrow> nat \<Rightarrow> u8 list \<Rightarrow> nat \<Rightarrow> nat \<Rightarrow> bool \<Rightarrow> u8 list \<Rightarrow> u8 list option" where
  "echo_row x len d y sc cur prev have_prev = for_range 0 len (\<lambda>i fb.
     if d \<le> i then do {
       src \<leftarrow> rd sc (cur + (i - d)); c \<leftarrow> rd fb (y * len + i);
       wr fb (y * len + i) (bx_merge c src (bx_lanes x) (x_mix x)) }
     else if have_prev then do {
       src \<leftarrow> rd sc (prev + (len + i - d)); c \<leftarrow> rd fb (y * len + i);
       wr fb (y * len + i) (bx_merge c src (bx_lanes x) (x_mix x)) }
     else Some fb)"

definition bx_echo :: "bendx_t \<Rightarrow> bendx_buf_t \<Rightarrow> mem \<Rightarrow> mem option" where
  "bx_echo x b = (\<lambda>(fb, sc).
     (let len = bb_rowlen b; d = amt x + 1 + rch x * 64; d = (if len < d then len else d) in
      map_option (\<lambda>(fb, sc, cur, prev, hp). (fb, sc))
        (for_range 0 (bb_rows b) (\<lambda>y (fb, sc, cur, prev, have_prev). do {
           sc \<leftarrow> copy_row len fb (y * len) sc cur;
           fb \<leftarrow> (if bx_on x y then echo_row x len d y sc cur prev have_prev fb else Some fb);
           Some (fb, sc, prev, cur, True) }) (fb, sc, 0, len, False))))"

definition bx_linemem :: "bendx_t \<Rightarrow> bendx_buf_t \<Rightarrow> mem \<Rightarrow> mem option" where
  "bx_linemem x b = (\<lambda>(fb, sc).
     (let len = bb_rowlen b; period = amt x + 2; hold = rch x + 1;
          hold = (if period \<le> hold then period - 1 else hold) in
      do {
        fb \<leftarrow> for_range 0 (bb_rows b) (\<lambda>y fb.
          let pos = y mod period in
          if pos < period - hold then Some fb
          else if \<not> bx_on x y then Some fb
          else let sy = y - pos + (period - hold) - 1 in
            for_range 0 len (\<lambda>i fb. do {
              c \<leftarrow> rd fb (y * len + i); v \<leftarrow> rd fb (sy * len + i);
              wr fb (y * len + i) (bx_merge c v (bx_lanes x) (x_mix x)) }) fb) fb;
        Some (fb, sc) }))"

subsection \<open>Foreign buses\<close>

definition bx_membus :: "bendx_t \<Rightarrow> bendx_buf_t \<Rightarrow> u8 list option \<Rightarrow> mem \<Rightarrow> mem option" where
  "bx_membus x b foreign = (\<lambda>(fb, sc).
     (let len = bb_rowlen b; sh = amt x; span = len div 2 ^ sh + 2; walk = (rch x + 1) * 61 in
      case foreign of None \<Rightarrow> Some (fb, sc)
      | Some mm \<Rightarrow>
        if length mm \<le> span then Some (fb, sc)
        else let window = length mm - span; off = unat (x_seed x) mod window in do {
          fb \<leftarrow> for_range 0 (bb_rows b) (\<lambda>y fb.
            let r = (off + y * walk) mod 2 ^ 32 mod window in
            if \<not> bx_on x y then Some fb
            else for_range 0 len (\<lambda>i fb. do {
              c \<leftarrow> rd fb (y * len + i); v \<leftarrow> rd mm (r + i div 2 ^ sh);
              wr fb (y * len + i) (bx_merge c v (bx_lanes x) (x_mix x)) }) fb) fb;
          Some (fb, sc) }))"

section \<open>What the row transforms compute\<close>

lemma for_list_map: "for_list (map g xs) f = for_list xs (\<lambda>i. f (g i))"
proof (induction xs)
  case (Cons x xs)
  show ?case by (rule ext) (simp add: Cons)
qed (simp add: fun_eq_iff)

lemma fill_blocks:
  assumes room: "d + n * blk \<le> length xs" and "0 < blk"
    and step: "\<And>q ys. \<lbrakk>q < n; length ys = length xs; \<And>k. k < d \<or> d + q * blk \<le> k \<Longrightarrow> ys ! k = xs ! k\<rbrakk> \<Longrightarrow>
      ok (f (q * blk) ys) (\<lambda>zs. length zs = length ys \<and>
        (\<forall>k. zs ! k = (if d + q * blk \<le> k \<and> k < d + q * blk + blk then v (k - d) else ys ! k)))"
  shows "ok (for_list (map (\<lambda>q. q * blk) [0..<n]) f xs) (\<lambda>ys. length ys = length xs \<and>
    (\<forall>k. ys ! k = (if d \<le> k \<and> k < d + n * blk then v (k - d) else xs ! k)))"
  unfolding for_list_map
proof (rule for_range_post[where I = "\<lambda>j ys. length ys = length xs \<and>
    (\<forall>k. ys ! k = (if d \<le> k \<and> k < d + j * blk then v (k - d) else xs ! k))"])
  fix q ys
  assume q: "0 \<le> q" "q < n" and I: "length ys = length xs \<and>
    (\<forall>k. ys ! k = (if d \<le> k \<and> k < d + q * blk then v (k - d) else xs ! k))"
  have "ok (f (q * blk) ys) (\<lambda>zs. length zs = length ys \<and>
      (\<forall>k. zs ! k = (if d + q * blk \<le> k \<and> k < d + q * blk + blk then v (k - d) else ys ! k)))"
    using q I by (intro step) auto
  then show "ok (f (q * blk) ys) (\<lambda>ys. length ys = length xs \<and>
      (\<forall>k. ys ! k = (if d \<le> k \<and> k < d + Suc q * blk then v (k - d) else xs ! k)))"
  proof (rule ok_mono)
    fix zs assume z: "length zs = length ys \<and>
      (\<forall>k. zs ! k = (if d + q * blk \<le> k \<and> k < d + q * blk + blk then v (k - d) else ys ! k))"
    have "zs ! k = (if d \<le> k \<and> k < d + Suc q * blk then v (k - d) else xs ! k)" for k
      using z I by (cases "d + q * blk \<le> k") auto
    then show "length zs = length xs \<and> (\<forall>k. zs ! k = (if d \<le> k \<and> k < d + Suc q * blk then v (k - d) else xs ! k))"
      using z I by simp
  qed
qed auto

text \<open>A transform of \<open>s0\<close> into \<open>s1\<close> that computes \<open>T\<close> of the row.\<close>

definition computes :: "nat \<Rightarrow> (u8 list \<Rightarrow> u8 list option) \<Rightarrow> ((nat \<Rightarrow> u8) \<Rightarrow> nat \<Rightarrow> u8) \<Rightarrow> bool" where
  "computes len tr T \<longleftrightarrow> (\<forall>sc. 2 * len \<le> length sc \<longrightarrow>
     ok (tr sc) (\<lambda>sc'. length sc' = length sc \<and> (\<forall>i<len. sc' ! (len + i) = T (\<lambda>i. sc ! i) i))) \<and>
   (\<forall>r r'. (\<forall>i<len. r i = r' i) \<longrightarrow> (\<forall>i<len. T r i = T r' i))"

lemma computesD:
  assumes "computes len tr T" "2 * len \<le> length sc"
  shows "ok (tr sc) (\<lambda>sc'. length sc' = length sc \<and> (\<forall>i<len. sc' ! (len + i) = T (\<lambda>i. sc ! i) i))"
  using assms by (simp add: computes_def)

lemma computes_cong:
  "\<lbrakk>computes len tr T; \<And>i. i < len \<Longrightarrow> r i = r' i; i < len\<rbrakk> \<Longrightarrow> T r i = T r' i"
  by (simp add: computes_def)

text \<open>Each block of a row reversed; what is left over at the end stays.\<close>

definition mirror :: "nat \<Rightarrow> nat \<Rightarrow> nat \<Rightarrow> nat" where
  "mirror blk len i = (if i < blocks_end blk len then i div blk * blk + (blk - 1 - i mod blk) else i)"

lemma blocks_end_le: "blocks_end blk len \<le> len"
  by (simp add: blocks_end_def)

lemma block_below:
  assumes "(i::nat) < len div blk * blk" "0 < blk" "j < blk"
  shows "i div blk * blk + j < len div blk * blk"
proof -
  have "i div blk < len div blk" using assms(1) by (rule less_mult_imp_div_less)
  then have "(i div blk + 1) * blk \<le> len div blk * blk" by (intro mult_le_mono1) simp
  then show ?thesis using assms(3) by simp
qed

lemma mirror_in:
  assumes "0 < blk" "i < blocks_end blk len"
  shows "mirror blk len i < blocks_end blk len"
  using block_below[of i len blk "blk - 1 - i mod blk"] assms by (simp add: mirror_def blocks_end_def)

lemma mirror_less:
  assumes "0 < blk" "i < len"
  shows "mirror blk len i < len"
  using mirror_in[OF assms(1), of i len] blocks_end_le[of blk len] assms(2)
  by (cases "i < blocks_end blk len") (simp_all add: mirror_def)

lemma mirror_twice: "\<lbrakk>0 < blk\<rbrakk> \<Longrightarrow> mirror blk len (mirror blk len i) = i"
proof (cases "i < blocks_end blk len")
  case True
  assume blk: "0 < blk"
  define j where "j = i div blk * blk + (blk - 1 - i mod blk)"
  have m: "i mod blk < blk" using blk by simp
  have d: "j div blk = i div blk" "j mod blk = blk - 1 - i mod blk"
    using blk by (simp_all add: j_def)
  have "j < blocks_end blk len"
    using mirror_in[OF blk True] True by (simp add: mirror_def j_def)
  moreover have "i div blk * blk + (blk - 1 - (blk - 1 - i mod blk)) = i" using m by simp
  ultimately have "mirror blk len j = i" by (simp add: mirror_def d)
  moreover have "mirror blk len i = j" using True by (simp add: mirror_def j_def)
  ultimately show ?thesis by simp
qed (simp add: mirror_def)

lemma mirror_block:
  "\<lbrakk>q < len div blk; k < blk\<rbrakk> \<Longrightarrow> mirror blk len (q * blk + k) = q * blk + (blk - 1 - k)"
proof -
  assume a: "q < len div blk" "k < blk"
  have "(q + 1) * blk \<le> len div blk * blk" using a by (intro mult_le_mono1) simp
  then have "q * blk + k < blocks_end blk len" using a by (simp add: blocks_end_def)
  then show ?thesis using a by (simp add: mirror_def)
qed

lemma mv_ok: "\<lbrakk>s < length sc; d < length sc\<rbrakk> \<Longrightarrow> mv sc d s = Some (sc[d := sc ! s])"
  by (simp add: mv_def rd_def wr_def)

lemma upt4: "[0..<4] = [0, 1, 2, 3::nat]" and upt2: "[0..<2] = [0, 1::nat]"
  by (simp_all add: upt_rec)

text \<open>The bytes past the last whole block are copied.\<close>

lemma copy_tail:
  assumes "length ys = length sc" "2 * len \<le> length sc" "e \<le> len"
    "\<And>k. k < len \<Longrightarrow> ys ! k = sc ! k"
    "\<And>i. i < e \<Longrightarrow> ys ! (len + i) = v i"
  shows "ok (for_range e len (\<lambda>i sc. mv sc (len + i) i) ys) (\<lambda>zs. length zs = length sc \<and>
    (\<forall>i<len. zs ! (len + i) = (if i < e then v i else sc ! i)))"
proof (rule for_range_post[OF assms(3), where I = "\<lambda>j zs. length zs = length sc \<and>
    (\<forall>k<len. zs ! k = sc ! k) \<and> (\<forall>i<j. zs ! (len + i) = (if i < e then v i else sc ! i))"])
  fix i zs
  assume i: "e \<le> i" "i < len" and I: "length zs = length sc \<and>
    (\<forall>k<len. zs ! k = sc ! k) \<and> (\<forall>j<i. zs ! (len + j) = (if j < e then v j else sc ! j))"
  have "mv zs (len + i) i = Some (zs[len + i := sc ! i])"
    using i I assms(2) by (simp add: mv_ok)
  then show "ok (mv zs (len + i) i) (\<lambda>zs. length zs = length sc \<and>
      (\<forall>k<len. zs ! k = sc ! k) \<and> (\<forall>j<Suc i. zs ! (len + j) = (if j < e then v j else sc ! j)))"
    using i I assms(2) by (simp add: ok_simps nth_list_update less_Suc_eq)
qed (use assms in auto)

lemma blocks_room: "blocks_end blk len + len \<le> 2 * len"
  using blocks_end_le[of blk len] by simp

text \<open>A loop that mirrors one block after another.\<close>

lemma mirror_blocks:
  assumes blk: "0 < blk" and room: "2 * len \<le> length sc"
    and body: "\<And>q ys. \<lbrakk>q < len div blk; length ys = length sc; (q + 1) * blk \<le> len\<rbrakk> \<Longrightarrow>
      ok (f (q * blk) ys) (\<lambda>zs. length zs = length ys \<and>
        (\<forall>k. zs ! k = (if len + q * blk \<le> k \<and> k < len + q * blk + blk
          then ys ! (q * blk + (blk - 1 - (k - (len + q * blk)))) else ys ! k)))"
  shows "ok (for_list (blocks blk len) f sc) (\<lambda>ys. length ys = length sc \<and> (\<forall>k<len. ys ! k = sc ! k) \<and>
    (\<forall>i<blocks_end blk len. ys ! (len + i) = sc ! mirror blk len i))"
proof -
  have "ok (for_list (blocks blk len) f sc) (\<lambda>ys. length ys = length sc \<and>
      (\<forall>k. ys ! k = (if len \<le> k \<and> k < len + (len div blk) * blk then sc ! mirror blk len (k - len) else sc ! k)))"
    unfolding blocks_def
  proof (rule fill_blocks[OF _ blk])
    show "len + len div blk * blk \<le> length sc"
      using blocks_end_le[of blk len, unfolded blocks_end_def] room by linarith
    fix q ys
    assume q: "q < len div blk" and len: "length ys = length sc"
      and same: "\<And>k. k < len \<or> len + q * blk \<le> k \<Longrightarrow> ys ! k = sc ! k"
    have "(q + 1) * blk \<le> len div blk * blk" using q by (intro mult_le_mono1) simp
    then have fits: "(q + 1) * blk \<le> len" by (metis div_times_less_eq_dividend le_trans)
    show "ok (f (q * blk) ys) (\<lambda>zs. length zs = length ys \<and>
        (\<forall>k. zs ! k = (if len + q * blk \<le> k \<and> k < len + q * blk + blk
          then sc ! mirror blk len (k - len) else ys ! k)))"
    proof (rule ok_mono[OF body[OF q len fits]])
      fix zs
      assume z: "length zs = length ys \<and> (\<forall>k. zs ! k = (if len + q * blk \<le> k \<and> k < len + q * blk + blk
          then ys ! (q * blk + (blk - 1 - (k - (len + q * blk)))) else ys ! k))"
      have "ys ! (q * blk + (blk - 1 - (k - (len + q * blk)))) = sc ! mirror blk len (k - len)"
        if "len + q * blk \<le> k" "k < len + q * blk + blk" for k
      proof -
        have "k - (len + q * blk) < blk" "q * blk + (k - (len + q * blk)) = k - len" using that by linarith+
        then have "mirror blk len (k - len) = q * blk + (blk - 1 - (k - (len + q * blk)))"
          using mirror_block[OF q, of "k - (len + q * blk)"] by simp
        moreover have "q * blk + (blk - 1 - (k - (len + q * blk))) < len" using fits blk by simp
        ultimately show ?thesis using same by simp
      qed
      with z show "length zs = length ys \<and> (\<forall>k. zs ! k = (if len + q * blk \<le> k \<and> k < len + q * blk + blk
          then sc ! mirror blk len (k - len) else ys ! k))" by simp
    qed
  qed
  then show ?thesis
    by (rule ok_mono) (auto simp: blocks_end_def)
qed

lemma endian_group_computes:
  assumes "0 < gsz"
  shows "computes len (endian_group gsz len) (\<lambda>r i. r (mirror gsz len i))"
proof -
  have "ok (endian_group gsz len sc) (\<lambda>sc'. length sc' = length sc \<and>
      (\<forall>i<len. sc' ! (len + i) = sc ! mirror gsz len i))" if room: "2 * len \<le> length sc" for sc
  proof -
    have "ok (for_list (blocks gsz len) (\<lambda>i. for_range 0 gsz (\<lambda>k sc. mv sc (len + (i + k)) (i + gsz - 1 - k))) sc)
      (\<lambda>ys. length ys = length sc \<and> (\<forall>k<len. ys ! k = sc ! k) \<and>
        (\<forall>i<blocks_end gsz len. ys ! (len + i) = sc ! mirror gsz len i))"
    proof (rule mirror_blocks[OF assms room])
      fix q and ys :: "u8 list" assume q: "q < len div gsz" "length ys = length sc" "(q + 1) * gsz \<le> len"
      have "ok (for_range 0 gsz (\<lambda>k sc. mv sc (len + (q * gsz + k)) (q * gsz + gsz - 1 - k)) ys) (\<lambda>zs. length zs = length ys \<and>
        (\<forall>k. zs ! k = (if len + q * gsz \<le> k \<and> k < len + q * gsz + gsz
          then ys ! (q * gsz + (gsz - 1 - (k - (len + q * gsz)))) else ys ! k)))"
      proof (rule fill_loop)
        show "len + q * gsz + gsz \<le> length ys" using q room by simp
        fix k zs assume k: "k < gsz" "length zs = length ys" "\<And>j. j < len + q * gsz \<or> len + q * gsz + k \<le> j \<Longrightarrow> zs ! j = ys ! j"
        have src: "q * gsz + gsz - 1 - k = q * gsz + (gsz - 1 - k)" using k(1) by simp
        have "q * gsz + (gsz - 1 - k) < len" using q(3) k(1) by simp
        moreover have "len + q * gsz + k < length zs" using q room k by simp
        ultimately show "mv zs (len + (q * gsz + k)) (q * gsz + gsz - 1 - k) =
            Some (zs[len + q * gsz + k := ys ! (q * gsz + (gsz - 1 - k))])"
          unfolding src using k(3)[of "q * gsz + (gsz - 1 - k)"] by (simp add: mv_ok add.assoc)
      qed
      then show "ok (for_range 0 gsz (\<lambda>k sc. mv sc (len + (q * gsz + k)) (q * gsz + gsz - 1 - k)) ys) (\<lambda>zs. length zs = length ys \<and>
        (\<forall>k. zs ! k = (if len + q * gsz \<le> k \<and> k < len + q * gsz + gsz
          then ys ! (q * gsz + (gsz - 1 - (k - (len + q * gsz)))) else ys ! k)))" .
    qed
    then show ?thesis
      unfolding endian_group_def ok_bind
    proof (rule ok_mono)
      fix ys assume y: "length ys = length sc \<and> (\<forall>k<len. ys ! k = sc ! k) \<and>
        (\<forall>i<blocks_end gsz len. ys ! (len + i) = sc ! mirror gsz len i)"
      show "ok (for_range (blocks_end gsz len) len (\<lambda>i sc. mv sc (len + i) i) ys) (\<lambda>sc'. length sc' = length sc \<and>
          (\<forall>i<len. sc' ! (len + i) = sc ! mirror gsz len i))"
        by (rule ok_mono[OF copy_tail[of ys sc len "blocks_end gsz len" "\<lambda>i. sc ! mirror gsz len i"]])
           (use y room blocks_end_le in \<open>auto simp: mirror_def\<close>)
    qed
  qed
  then show ?thesis using mirror_less[OF assms] by (simp add: computes_def)
qed

lemma endian_swap2_computes: "computes len (endian_swap2 len) (\<lambda>r i. r (mirror 2 len i))"
proof -
  have "ok (endian_swap2 len sc) (\<lambda>sc'. length sc' = length sc \<and>
      (\<forall>i<len. sc' ! (len + i) = sc ! mirror 2 len i))" if room: "2 * len \<le> length sc" for sc
  proof -
    have "ok (for_list (blocks 2 len) (\<lambda>i sc. mv sc (len + i) (i + 1) \<bind> (\<lambda>sc. mv sc (len + (i + 1)) i)) sc)
      (\<lambda>ys. length ys = length sc \<and> (\<forall>k<len. ys ! k = sc ! k) \<and>
        (\<forall>i<blocks_end 2 len. ys ! (len + i) = sc ! mirror 2 len i))"
    proof (rule mirror_blocks[OF _ room])
      fix q and ys :: "u8 list" assume q: "q < len div 2" "length ys = length sc" "(q + 1) * 2 \<le> len"
      have "mv ys (len + q * 2) (q * 2 + 1) = Some (ys[len + q * 2 := ys ! (q * 2 + 1)])"
        using q room by (intro mv_ok) simp_all
      moreover have "mv (ys[len + q * 2 := ys ! (q * 2 + 1)]) (len + (q * 2 + 1)) (q * 2) =
          Some (ys[len + q * 2 := ys ! (q * 2 + 1), len + (q * 2 + 1) := ys ! (q * 2)])"
        using q room by (subst mv_ok) simp_all
      ultimately show "ok (mv ys (len + q * 2) (q * 2 + 1) \<bind> (\<lambda>sc. mv sc (len + (q * 2 + 1)) (q * 2)))
        (\<lambda>zs. length zs = length ys \<and> (\<forall>k. zs ! k = (if len + q * 2 \<le> k \<and> k < len + q * 2 + 2
          then ys ! (q * 2 + (2 - 1 - (k - (len + q * 2)))) else ys ! k)))"
        using q room by (auto simp: ok_simps nth_list_update not_less less_Suc_eq_le le_Suc_eq mult.commute)
    qed simp
    then show ?thesis
      unfolding endian_swap2_def ok_bind
    proof (rule ok_mono)
      fix ys assume y: "length ys = length sc \<and> (\<forall>k<len. ys ! k = sc ! k) \<and>
        (\<forall>i<blocks_end 2 len. ys ! (len + i) = sc ! mirror 2 len i)"
      have e: "blocks_end 2 len = (if odd len then len - 1 else len)"
        by (auto simp: blocks_end_def elim: oddE)
      show "ok (if odd len then mv ys (len + (len - 1)) (len - 1) else Some ys) (\<lambda>sc'. length sc' = length sc \<and>
          (\<forall>i<len. sc' ! (len + i) = sc ! mirror 2 len i))"
      proof (cases "odd len")
        case True
        then have pos: "0 < len" by (cases len) auto
        have "mv ys (len + (len - 1)) (len - 1) = Some (ys[len + (len - 1) := sc ! (len - 1)])"
          using y room pos by (simp add: mv_ok)
        moreover have "mirror 2 len (len - 1) = len - 1" using True e by (simp add: mirror_def)
        moreover have "ys[len + (len - 1) := sc ! (len - 1)] ! (len + i) = sc ! mirror 2 len i" if "i < len" for i
          using that y e True room pos calculation(2) by (cases "i = len - 1") simp_all
        ultimately show ?thesis
          using y True by (simp add: ok_simps)
      next
        case False
        then show ?thesis using y e by (simp add: ok_simps)
      qed
    qed
  qed
  then show ?thesis using mirror_less[of 2] by (simp add: computes_def)
qed

lemma for_list_fun: "for_list [] f = Some" "for_list (i # is) f = (\<lambda>s. f i s \<bind> for_list is f)"
  by (simp_all add: fun_eq_iff)

lemma endian_rev4_group: "endian_rev4 len = endian_group 4 len"
proof -
  have "(\<lambda>i sc. do { sc \<leftarrow> mv sc (len + i) (i + 3); sc \<leftarrow> mv sc (len + (i + 1)) (i + 2);
         sc \<leftarrow> mv sc (len + (i + 2)) (i + 1); mv sc (len + (i + 3)) i }) =
      (\<lambda>i. for_range 0 4 (\<lambda>k sc. mv sc (len + (i + k)) (i + 4 - 1 - k)))"
    unfolding upt4 by (simp add: fun_eq_iff for_list_fun add.assoc add.commute)
  then show ?thesis by (simp add: fun_eq_iff endian_rev4_def endian_group_def)
qed

lemma endian_map_computes: "computes len (endian_map f len) (\<lambda>r i. f (r i))"
proof -
  have "ok (endian_map f len sc) (\<lambda>sc'. length sc' = length sc \<and>
      (\<forall>i<len. sc' ! (len + i) = f (sc ! i)))" if room: "2 * len \<le> length sc" for sc
  proof -
    have "ok (for_range 0 len (\<lambda>i sc. rd sc i \<bind> (\<lambda>c. wr sc (len + i) (f c))) sc)
      (\<lambda>ys. length ys = length sc \<and> (\<forall>k. ys ! k = (if len \<le> k \<and> k < len + len then f (sc ! (k - len)) else sc ! k)))"
      by (rule fill_loop[where v = "\<lambda>i. f (sc ! i)"]) (use room in \<open>simp_all add: rd_def wr_def\<close>)
    then show ?thesis unfolding endian_map_def by (rule ok_mono) simp
  qed
  then show ?thesis by (simp add: computes_def)
qed

lemma bx_rot_computes: "computes len (\<lambda>sc. bx_rot sc len 0 len bits) (\<lambda>r. rot_byte r len bits)"
proof -
  have "ok (bx_rot sc len 0 len bits) (\<lambda>sc'. length sc' = length sc \<and>
      (\<forall>i<len. sc' ! (len + i) = rot_byte (\<lambda>i. sc ! i) len bits i))" if "2 * len \<le> length sc" for sc
    by (rule ok_mono[OF bx_rot_spec]) (use that in simp_all)
  moreover have "rot_byte r len bits i = rot_byte r' len bits i"
    if "\<forall>i<len. r i = r' i" "i < len" for r r' i
    using that mod_less_divisor[of len] by (simp add: rot_byte_def Let_def)
  ultimately show ?thesis by (simp add: computes_def)
qed

definition endian_fun :: "nat \<Rightarrow> nat \<Rightarrow> nat \<Rightarrow> (nat \<Rightarrow> u8) \<Rightarrow> nat \<Rightarrow> u8" where
  "endian_fun amount gsz len r i =
     (if amount = 0 then r (mirror 2 len i)
      else if amount = 1 then r (mirror 4 len i)
      else if amount = 2 then r (mirror gsz len i)
      else if amount = 3 then nibswap8 (r i)
      else bitrev8 (r i))"

lemma endian_row_computes:
  assumes "0 < gsz"
  shows "computes len (endian_row amount gsz len) (endian_fun amount gsz len)"
proof -
  consider "amount = 0" | "amount = 1" | "amount = 2" | "amount = 3" | "3 < amount" by linarith
  then show ?thesis
    using endian_swap2_computes[of len] endian_group_computes[of 4 len] endian_group_computes[OF assms, of len]
      endian_map_computes[of len]
    by cases (simp_all add: endian_row_def[abs_def] endian_fun_def[abs_def] endian_rev4_group)
qed

section \<open>Row passes\<close>

definition bx_room :: "bendx_buf_t \<Rightarrow> mem \<Rightarrow> bool" where
  "bx_room b m \<longleftrightarrow> length (fst m) = bb_rows b * bb_rowlen b \<and> 2 * bb_rowlen b \<le> length (snd m)"

text \<open>Byte \<open>i\<close> of row \<open>y\<close>.\<close>

definition row_at :: "nat \<Rightarrow> u8 list \<Rightarrow> nat \<Rightarrow> nat \<Rightarrow> u8" where
  "row_at len fb y i = fb ! (y * len + i)"

lemma row_in: "\<lbrakk>y < rows; i < len\<rbrakk> \<Longrightarrow> y * len + i < rows * (len::nat)"
proof -
  assume a: "y < rows" "i < len"
  then have "(y + 1) * len \<le> rows * len" by (intro mult_le_mono1) simp
  with a show ?thesis by simp
qed

lemma row_end: "y < rows \<Longrightarrow> y * len + len \<le> rows * (len::nat)"
proof -
  assume "y < rows"
  then have "(y + 1) * len \<le> rows * len" by (intro mult_le_mono1) simp
  then show ?thesis by simp
qed

lemma row_apart: "\<lbrakk>y \<noteq> z; i < len; j < len\<rbrakk> \<Longrightarrow> y * len + i \<noteq> z * len + (j::nat)"
  by (metis add.commute add_right_imp_eq div_mult_self3 div_less less_nat_zero_code mod_less_eq_dividend
      nat_mult_eq_cancel1 less_not_refl2 Euclidean_Rings.div_eq_0_iff add_cancel_left_left)

text \<open>One row replaced by the merge of a transform of it; every other byte of the buffer kept.\<close>

definition row_step :: "bendx_t \<Rightarrow> nat \<Rightarrow> nat \<Rightarrow> bool \<Rightarrow> ((nat \<Rightarrow> u8) \<Rightarrow> nat \<Rightarrow> u8) \<Rightarrow> mem \<Rightarrow> mem \<Rightarrow> bool" where
  "row_step x len y on T m m' \<longleftrightarrow> length (fst m') = length (fst m) \<and> length (snd m') = length (snd m) \<and>
     (\<forall>k. fst m' ! k = (if on \<and> y * len \<le> k \<and> k < y * len + len
        then bx_merge (fst m ! k) (T (row_at len (fst m) y) (k - y * len)) (bx_lanes x) (x_mix x)
        else fst m ! k))"

text \<open>Every row of the buffer so, each from its own old contents.\<close>

definition rows_bent :: "bendx_t \<Rightarrow> bendx_buf_t \<Rightarrow> (nat \<Rightarrow> bool) \<Rightarrow> (nat \<Rightarrow> (nat \<Rightarrow> u8) \<Rightarrow> nat \<Rightarrow> u8) \<Rightarrow> mem \<Rightarrow> mem \<Rightarrow> bool" where
  "rows_bent x b on T m m' \<longleftrightarrow> length (fst m') = length (fst m) \<and> length (snd m') = length (snd m) \<and>
     (\<forall>y<bb_rows b. \<forall>i<bb_rowlen b. row_at (bb_rowlen b) (fst m') y i =
       (if on y then bx_merge (row_at (bb_rowlen b) (fst m) y i) (T y (row_at (bb_rowlen b) (fst m) y) i)
          (bx_lanes x) (x_mix x)
        else row_at (bb_rowlen b) (fst m) y i))"

lemma bend_row_spec:
  assumes c: "computes len tr T" and len: "len = bb_rowlen b" and y: "y < bb_rows b" and room: "bx_room b m"
  shows "ok (bend_row x len y tr m) (row_step x len y True T m)"
proof -
  obtain fb sc where m: "m = (fb, sc)" by (cases m)
  have r: "y * len + len \<le> length fb" "2 * len \<le> length sc"
    using room row_end[OF y, of len] by (simp_all add: bx_room_def m len)
  have "ok (copy_row len fb (y * len) sc 0) (\<lambda>s. length s = length sc \<and> (\<forall>i<len. s ! i = row_at len fb y i))"
    by (rule ok_mono[OF copy_row_spec]) (use r in \<open>auto simp: row_at_def\<close>)
  then have "ok (copy_row len fb (y * len) sc 0) (\<lambda>s. ok (tr s) (\<lambda>s'.
      ok (bx_blend_row fb (y * len) s' len len (bx_lanes x) (x_mix x))
        (\<lambda>fb'. row_step x len y True T (fb, sc) (fb', s'))))"
  proof (rule ok_mono)
    fix s assume s: "length s = length sc \<and> (\<forall>i<len. s ! i = row_at len fb y i)"
    have "ok (tr s) (\<lambda>s'. length s' = length s \<and> (\<forall>i<len. s' ! (len + i) = T (\<lambda>i. s ! i) i))"
      using computesD[OF c, of s] r s by simp
    then show "ok (tr s) (\<lambda>s'. ok (bx_blend_row fb (y * len) s' len len (bx_lanes x) (x_mix x))
        (\<lambda>fb'. row_step x len y True T (fb, sc) (fb', s')))"
    proof (rule ok_mono)
      fix s' assume s': "length s' = length s \<and> (\<forall>i<len. s' ! (len + i) = T (\<lambda>i. s ! i) i)"
      have T: "s' ! (len + i) = T (row_at len fb y) i" if "i < len" for i
        using s' that computes_cong[OF c, of "\<lambda>i. s ! i" "row_at len fb y" i] s by simp
      have "2 * len \<le> length s'" using s s' r by simp
      then have "ok (bx_blend_row fb (y * len) s' len len (bx_lanes x) (x_mix x)) (\<lambda>fb'. length fb' = length fb \<and>
          (\<forall>k. fb' ! k = (if y * len \<le> k \<and> k < y * len + len
            then bx_merge (fb ! k) (s' ! (len + (k - y * len))) (bx_lanes x) (x_mix x) else fb ! k)))"
        using r(1) by (intro bx_blend_row_spec) simp_all
      then show "ok (bx_blend_row fb (y * len) s' len len (bx_lanes x) (x_mix x))
          (\<lambda>fb'. row_step x len y True T (fb, sc) (fb', s'))"
        by (rule ok_mono) (use s s' T in \<open>auto simp: row_step_def simp del: Nat.add_diff_assoc\<close>)
    qed
  qed
  then show ?thesis by (simp add: bend_row_def m ok_simps)
qed

lemma row_pass:
  assumes step: "\<And>y m. \<lbrakk>y < bb_rows b; bx_room b m\<rbrakk> \<Longrightarrow>
      ok (f y (m, aux y)) (\<lambda>(m', a). a = aux (Suc y) \<and> row_step x (bb_rowlen b) y (on y) (T y) m m')"
    and cong: "\<And>y r r' i. \<lbrakk>\<And>i. i < bb_rowlen b \<Longrightarrow> r i = r' i; i < bb_rowlen b\<rbrakk> \<Longrightarrow> T y r i = T y r' i"
    and room: "bx_room b m"
  shows "ok (for_range 0 (bb_rows b) f (m, aux 0)) (\<lambda>(m', a). rows_bent x b on T m m')"
proof -
  define len where "len = bb_rowlen b"
  define bent where "bent = (\<lambda>y i. if on y
    then bx_merge (row_at len (fst m) y i) (T y (row_at len (fst m) y) i) (bx_lanes x) (x_mix x)
    else row_at len (fst m) y i)"
  define I where "I = (\<lambda>k (m' :: mem, a). a = aux k \<and> length (fst m') = length (fst m) \<and> length (snd m') = length (snd m) \<and>
    (\<forall>y<bb_rows b. \<forall>i<len. row_at len (fst m') y i = (if y < k then bent y i else row_at len (fst m) y i)))"
  show ?thesis
  proof (rule for_range_post[where I = I])
    show "I 0 (m, aux 0)" by (simp add: I_def)
    fix y s assume y: "0 \<le> y" "y < bb_rows b" and I: "I y s"
    obtain m1 a1 where s: "s = (m1, a1)" by (cases s)
    have a1: "a1 = aux y" and l: "length (fst m1) = length (fst m)" "length (snd m1) = length (snd m)"
      and rows: "\<And>z i. z < bb_rows b \<Longrightarrow> i < len \<Longrightarrow>
        row_at len (fst m1) z i = (if z < y then bent z i else row_at len (fst m) z i)"
      using I by (auto simp: I_def s)
    have room1: "bx_room b m1" using room l by (simp add: bx_room_def)
    have "ok (f y (m1, aux y)) (I (Suc y))"
    proof (rule ok_mono[OF step[OF y(2) room1]])
      fix p assume "case p of (m', a) \<Rightarrow> a = aux (Suc y) \<and> row_step x (bb_rowlen b) y (on y) (T y) m1 m'"
      then obtain m2 where p: "p = (m2, aux (Suc y))" and st: "row_step x len y (on y) (T y) m1 m2"
        by (auto simp: len_def)
      have "row_at len (fst m2) z i = (if z < Suc y then bent z i else row_at len (fst m) z i)"
        if z: "z < bb_rows b" "i < len" for z i
      proof (cases "z = y")
        case True
        have "T y (row_at len (fst m1) y) i = T y (row_at len (fst m) y) i"
          using rows[OF y(2)] z(2) by (intro cong) (simp_all add: len_def)
        then show ?thesis
          using st rows[OF z] True z by (simp add: row_step_def bent_def row_at_def)
      next
        case False
        have "\<not> (y * len \<le> z * len + i \<and> z * len + i < y * len + len)"
        proof
          assume a: "y * len \<le> z * len + i \<and> z * len + i < y * len + len"
          define j where "j = z * len + i - y * len"
          have "j < len" "z * len + i = y * len + j" using a unfolding j_def by linarith+
          then show False using row_apart[OF False z(2), of j] by simp
        qed
        then have "row_at len (fst m2) z i = row_at len (fst m1) z i"
          using st unfolding row_step_def row_at_def by auto
        then show ?thesis using rows[OF z] False by simp
      qed
      then show "I (Suc y) p" using st l by (simp add: I_def p row_step_def)
    qed
    then show "ok (f y s) (I (Suc y))" by (simp add: s a1)
  next
    fix s assume "I (bb_rows b) s"
    then show "case s of (m', a) \<Rightarrow> rows_bent x b on T m m'"
      by (auto simp: I_def rows_bent_def bent_def len_def)
  qed simp
qed

text \<open>The form for the effects that carry nothing from row to row.\<close>

lemma simple_pass:
  assumes c: "computes (bb_rowlen b) tr T" and room: "bx_room b m"
  shows "ok (for_range 0 (bb_rows b) (\<lambda>y m. if \<not> bx_on x y then Some m else bend_row x (bb_rowlen b) y tr m) m)
    (rows_bent x b (bx_on x) (\<lambda>y. T) m)"
proof -
  define f where "f = (\<lambda>y m. if \<not> bx_on x y then Some m else bend_row x (bb_rowlen b) y tr m)"
  have lift: "for_list ys (\<lambda>y (m, u). map_option (\<lambda>m. (m, ())) (f y m)) (m, ()) = map_option (\<lambda>m. (m, ())) (for_list ys f m)" for ys m
  proof (induction ys arbitrary: m)
    case (Cons y ys)
    then show ?case by (cases "f y m") simp_all
  qed simp
  have "ok (for_range 0 (bb_rows b) (\<lambda>y (m, u). map_option (\<lambda>m. (m, ())) (f y m)) (m, ()))
      (\<lambda>(m', a). rows_bent x b (bx_on x) (\<lambda>y. T) m m')"
  proof (rule row_pass[where aux = "\<lambda>_. ()"])
    fix y m assume y: "y < bb_rows b" "bx_room b m"
    show "ok (case (m, ()) of (m, u) \<Rightarrow> map_option (\<lambda>m. (m, ())) (f y m))
        (\<lambda>(m', a). a = () \<and> row_step x (bb_rowlen b) y (bx_on x y) T m m')"
      using bend_row_spec[OF c refl y, of x] by (cases m) (auto simp: f_def ok_def row_step_def)
  qed (use c computes_cong room in auto)
  then show ?thesis by (auto simp: lift ok_def f_def[symmetric])
qed

section \<open>Safety: inside the arrays, and only in the lanes\<close>

text \<open>
  \<open>safe x m m'\<close>: both arrays keep their sizes and the frame buffer changes only in the
  profile's lanes. \<open>ok (effect x b m) (safe x m)\<close> adds that no access was out of bounds.
\<close>

definition safe :: "bendx_t \<Rightarrow> mem \<Rightarrow> mem \<Rightarrow> bool" where
  "safe x m m' \<longleftrightarrow> keeps (bx_lanes x) (fst m) (fst m') \<and> length (snd m') = length (snd m)"

lemma safe_refl [simp]: "safe x m m"
  by (simp add: safe_def)

lemma safe_trans: "safe x m m' \<Longrightarrow> safe x m' m'' \<Longrightarrow> safe x m m''"
  using keeps_trans by (auto simp: safe_def)

lemma safe_room: "safe x m m' \<Longrightarrow> bx_room b m' = bx_room b m"
  by (simp add: safe_def bx_room_def keeps_def)

lemma rows_bent_safe:
  assumes "rows_bent x b on T m m'" "bx_room b m"
  shows "safe x m m'"
proof -
  define len where "len = bb_rowlen b"
  have "fst m' ! k AND NOT (bx_lanes x) = fst m ! k AND NOT (bx_lanes x)" if "k < length (fst m)" for k
  proof -
    have k: "k < bb_rows b * len" using that assms(2) by (simp add: bx_room_def len_def)
    then have len: "0 < len" by (cases len) auto
    have y: "k div len < bb_rows b" "k mod len < len" using k len by (simp_all add: less_mult_imp_div_less)
    have "row_at len (fst m') (k div len) (k mod len) AND NOT (bx_lanes x) =
        row_at len (fst m) (k div len) (k mod len) AND NOT (bx_lanes x)"
      using assms(1) y by (simp add: rows_bent_def len_def[symmetric] merge_keeps)
    then show ?thesis by (simp add: row_at_def)
  qed
  then show ?thesis using assms(1) by (simp add: safe_def keeps_def rows_bent_def)
qed

lemma bx_endian_bent:
  assumes "bx_room b m"
  shows "ok (bx_endian x b m) (rows_bent x b (bx_on x) (\<lambda>y. endian_fun (amt x) (bx_gsz (bb_nbits b)) (bb_rowlen b)) m)"
  unfolding bx_endian_def Let_def
  by (rule simple_pass[OF endian_row_computes assms]) simp

lemma bx_slip_bent:
  assumes "bx_room b m"
  shows "ok (bx_slip x b m) (rows_bent x b (bx_on x) (\<lambda>y r. rot_byte r (bb_rowlen b) (amt x + 1 + rch x * 8)) m)"
  unfolding bx_slip_def Let_def
  by (rule simple_pass[OF bx_rot_computes assms])

lemma ok_map_option: "ok (map_option f m) Q \<longleftrightarrow> ok m (\<lambda>r. Q (f r))"
  by (cases m) (simp_all add: ok_def)

lemma rot_pass_step:
  assumes y: "y < bb_rows b" "bx_room b m"
  shows "ok (if \<not> on then Some (m, a) else bend_row x (bb_rowlen b) y (\<lambda>sc. bx_rot sc (bb_rowlen b) 0 (bb_rowlen b) bits) m
      \<bind> (\<lambda>m. Some (m, a)))
    (\<lambda>(m', a'). a' = a \<and> row_step x (bb_rowlen b) y on (\<lambda>r. rot_byte r (bb_rowlen b) bits) m m')"
proof (cases on)
  case True
  have "ok (bend_row x (bb_rowlen b) y (\<lambda>sc. bx_rot sc (bb_rowlen b) 0 (bb_rowlen b) bits) m)
      (row_step x (bb_rowlen b) y True (\<lambda>r. rot_byte r (bb_rowlen b) bits) m)"
    by (rule bend_row_spec[OF bx_rot_computes refl y])
  with True show ?thesis by (simp add: ok_simps)
qed (simp add: ok_simps row_step_def)

lemma rot_cong: "(\<And>i. i < len \<Longrightarrow> r i = r' i) \<Longrightarrow> i < len \<Longrightarrow> rot_byte r len bits i = rot_byte r' len bits i"
  using computes_cong[OF bx_rot_computes, of len r r' i bits] by simp

text \<open>The tear: row \<open>y\<close> is rotated by \<open>reach * 8 + (y + 1) * (amount + 1)\<close> bits, in 32 bit arithmetic.\<close>

definition tear_bits :: "bendx_t \<Rightarrow> nat \<Rightarrow> nat" where
  "tear_bits x y = (rch x * 8 + y * (amt x + 1)) mod 2 ^ 32"

lemma tear_bits_0: "tear_bits x 0 = rch x * 8"
proof -
  have "rch x < 256" using unsigned_less[of "x_reach x", where 'a = nat] by (simp add: rch_def)
  then show ?thesis by (simp add: tear_bits_def)
qed

lemma tear_bits_Suc: "tear_bits x (Suc y) = (tear_bits x y + (amt x + 1)) mod 2 ^ 32"
proof -
  have "rch x * 8 + Suc y * (amt x + 1) = rch x * 8 + y * (amt x + 1) + (amt x + 1)" by simp
  then show ?thesis unfolding tear_bits_def by (simp only: mod_add_left_eq)
qed

lemma bx_tear_bent:
  assumes "bx_room b m"
  shows "ok (bx_tear x b m) (rows_bent x b (bx_on x) (\<lambda>y r. rot_byte r (bb_rowlen b) (tear_bits x (Suc y))) m)"
  unfolding bx_tear_def Let_def ok_map_option tear_bits_0[symmetric]
proof (rule ok_mono[OF row_pass[where aux = "tear_bits x" and on = "bx_on x"
      and T = "\<lambda>y r. rot_byte r (bb_rowlen b) (tear_bits x (Suc y))", OF _ _ assms]])
  fix y m assume "y < bb_rows b" "bx_room b m"
  from rot_pass_step[OF this, of "bx_on x y" "tear_bits x (Suc y)" x "tear_bits x (Suc y)"]
  show "ok (case (m, tear_bits x y) of (m, bits) \<Rightarrow>
      if \<not> bx_on x y then Some (m, (bits + (amt x + 1)) mod 2 ^ 32)
      else bend_row x (bb_rowlen b) y (\<lambda>sc. bx_rot sc (bb_rowlen b) 0 (bb_rowlen b) ((bits + (amt x + 1)) mod 2 ^ 32)) m \<bind>
        (\<lambda>m. Some (m, (bits + (amt x + 1)) mod 2 ^ 32)))
    (\<lambda>(m', a). a = tear_bits x (Suc y) \<and>
      row_step x (bb_rowlen b) y (bx_on x y) (\<lambda>r. rot_byte r (bb_rowlen b) (tear_bits x (Suc y))) m m')"
    by (simp only: tear_bits_Suc prod.case)
qed (auto intro: rot_cong)

text \<open>Lock loss: the generator state and the rotation in force after \<open>y\<close> rows.\<close>

definition lock_next :: "bendx_t \<Rightarrow> u32 \<times> nat \<Rightarrow> u32 \<times> nat" where
  "lock_next x = (\<lambda>(st, bits). let st = xs32 st in
     if unat (st mod 100) < amt x + 1
     then (let st = xs32 st in (st, unat (st mod word_of_nat ((rch x + 1) * 8 + 1)))) else (st, bits))"

definition lock_state :: "bendx_t \<Rightarrow> nat \<Rightarrow> u32 \<times> nat" where
  "lock_state x y = (lock_next x ^^ y) (xs32 (x_seed x), 0)"

lemma bx_lock_bent:
  assumes "bx_room b m"
  shows "ok (bx_lock x b m) (rows_bent x b (\<lambda>y. bx_on x y \<and> snd (lock_state x (Suc y)) \<noteq> 0)
    (\<lambda>y r. rot_byte r (bb_rowlen b) (snd (lock_state x (Suc y)))) m)"
proof -
  define f where "f = (\<lambda>y (m, a). let (st, bits) = lock_next x a in
    if \<not> (bx_on x y \<and> bits \<noteq> 0) then Some (m, st, bits)
    else bend_row x (bb_rowlen b) y (\<lambda>sc. bx_rot sc (bb_rowlen b) 0 (bb_rowlen b) bits) m \<bind> (\<lambda>m. Some (m, st, bits)))"
  have l0: "lock_state x 0 = (xs32 (x_seed x), 0)" by (simp add: lock_state_def)
  have f: "bx_lock x b m = map_option fst (for_range 0 (bb_rows b) f (m, lock_state x 0))"
    unfolding bx_lock_def Let_def f_def lock_next_def l0
    by (rule arg_cong[where f = "\<lambda>g. map_option fst (for_range 0 (bb_rows b) g (m, xs32 (x_seed x), 0))"])
       (auto simp: fun_eq_iff split: prod.splits)
  show ?thesis
    unfolding f ok_map_option
  proof (rule ok_mono[OF row_pass[where aux = "lock_state x"
        and on = "\<lambda>y. bx_on x y \<and> snd (lock_state x (Suc y)) \<noteq> 0"
        and T = "\<lambda>y r. rot_byte r (bb_rowlen b) (snd (lock_state x (Suc y)))", OF _ _ assms]])
    fix y m assume y: "y < bb_rows b" "bx_room b m"
    obtain st bits where n: "lock_state x (Suc y) = (st, bits)" by (cases "lock_state x (Suc y)")
    then have "lock_next x (lock_state x y) = (st, bits)" by (simp add: lock_state_def)
    then have "f y (m, lock_state x y) = (if \<not> (bx_on x y \<and> bits \<noteq> 0) then Some (m, lock_state x (Suc y))
      else bend_row x (bb_rowlen b) y (\<lambda>sc. bx_rot sc (bb_rowlen b) 0 (bb_rowlen b) bits) m \<bind>
        (\<lambda>m. Some (m, lock_state x (Suc y))))"
      by (simp add: f_def n)
    with rot_pass_step[OF y, of "bx_on x y \<and> bits \<noteq> 0" "lock_state x (Suc y)" x bits]
    show "ok (f y (m, lock_state x y)) (\<lambda>(m', a). a = lock_state x (Suc y) \<and>
        row_step x (bb_rowlen b) y (bx_on x y \<and> snd (lock_state x (Suc y)) \<noteq> 0)
          (\<lambda>r. rot_byte r (bb_rowlen b) (snd (lock_state x (Suc y)))) m m')"
      by (simp only: n snd_conv)
  qed (auto intro: rot_cong)
qed

section \<open>Rows that trade places\<close>

definition traded :: "bendx_t \<Rightarrow> nat \<Rightarrow> nat \<Rightarrow> nat \<Rightarrow> u8 list \<Rightarrow> u8 list \<Rightarrow> bool" where
  "traded x len ya yb fb fb' \<longleftrightarrow> length fb' = length fb \<and> (\<forall>y i. i < len \<longrightarrow> row_at len fb' y i =
     (if y = ya then bx_merge (row_at len fb ya i) (row_at len fb yb i) (bx_lanes x) (x_mix x)
      else if y = yb then bx_merge (row_at len fb yb i) (row_at len fb ya i) (bx_lanes x) (x_mix x)
      else row_at len fb y i))"

lemma row_update:
  assumes "y * len + i < length fb" "i < len" "j < len"
  shows "row_at len (fb[y * len + i := v]) z j = (if z = y \<and> j = i then v else row_at len fb z j)"
proof (cases "z * len + j = y * len + i")
  case True
  then have "z = y" using row_apart[of z y j len i] assms by auto
  with True assms show ?thesis by (simp add: row_at_def)
next
  case False
  then show ?thesis by (auto simp: row_at_def)
qed

lemma swap_rows_traded:
  assumes "bx_room b m" "len = bb_rowlen b" "ya < bb_rows b" "yb < bb_rows b" "ya \<noteq> yb"
  shows "ok (swap_rows x len ya yb m) (\<lambda>m'. traded x len ya yb (fst m) (fst m') \<and> length (snd m') = length (snd m))"
proof -
  obtain fb sc where m: "m = (fb, sc)" by (cases m)
  define L where "L = bx_lanes x"
  define M where "M = x_mix x"
  have r: "ya * len + i < length fb" "yb * len + i < length fb" if "i < len" for i
    using assms row_in[of ya "bb_rows b" i len] row_in[of yb "bb_rows b" i len] that by (simp_all add: bx_room_def m)
  have ra: "ya * len + len \<le> length fb" and rs: "len \<le> length sc"
    using assms row_end[of ya "bb_rows b" len] by (simp_all add: bx_room_def m)
  have loop: "ok (for_range 0 len (\<lambda>i fb. do { a \<leftarrow> rd s i; c \<leftarrow> rd fb (yb * len + i);
        fb \<leftarrow> wr fb (ya * len + i) (bx_merge a c L M); wr fb (yb * len + i) (bx_merge c a L M) }) fb)
      (\<lambda>fb'. traded x len ya yb fb fb')" if s: "length s = length sc" "\<And>i. i < len \<Longrightarrow> s ! i = row_at len fb ya i" for s
  proof (rule for_range_post[where I = "\<lambda>j fb'. length fb' = length fb \<and> (\<forall>y i. i < len \<longrightarrow> row_at len fb' y i =
     (if i < j \<and> y = ya then bx_merge (row_at len fb ya i) (row_at len fb yb i) L M
      else if i < j \<and> y = yb then bx_merge (row_at len fb yb i) (row_at len fb ya i) L M
      else row_at len fb y i))"])
    fix j fb'
    assume j: "0 \<le> j" "j < len" and I: "length fb' = length fb \<and> (\<forall>y i. i < len \<longrightarrow> row_at len fb' y i =
     (if i < j \<and> y = ya then bx_merge (row_at len fb ya i) (row_at len fb yb i) L M
      else if i < j \<and> y = yb then bx_merge (row_at len fb yb i) (row_at len fb ya i) L M
      else row_at len fb y i))"
    have a: "rd s j = Some (row_at len fb ya j)" using s j rs by (simp add: rd_def)
    have "row_at len fb' yb j = row_at len fb yb j" using I j by simp
    then have c: "rd fb' (yb * len + j) = Some (row_at len fb yb j)"
      using I j r(2)[of j] by (simp add: rd_def row_at_def)
    define g1 where "g1 = fb'[ya * len + j := bx_merge (row_at len fb ya j) (row_at len fb yb j) L M]"
    define g2 where "g2 = g1[yb * len + j := bx_merge (row_at len fb yb j) (row_at len fb ya j) L M]"
    have w1: "wr fb' (ya * len + j) (bx_merge (row_at len fb ya j) (row_at len fb yb j) L M) = Some g1"
      using I j r(1)[of j] by (simp add: wr_def g1_def)
    have w2: "wr g1 (yb * len + j) (bx_merge (row_at len fb yb j) (row_at len fb ya j) L M) = Some g2"
      using I j r(2)[of j] by (simp add: wr_def g1_def g2_def)
    have l: "length g1 = length fb" using I by (simp add: g1_def)
    have "row_at len g2 y i = (if i < Suc j \<and> y = ya then bx_merge (row_at len fb ya i) (row_at len fb yb i) L M
      else if i < Suc j \<and> y = yb then bx_merge (row_at len fb yb i) (row_at len fb ya i) L M
      else row_at len fb y i)" if "i < len" for y i
    proof -
      have "row_at len g1 y i = (if y = ya \<and> i = j then bx_merge (row_at len fb ya j) (row_at len fb yb j) L M else row_at len fb' y i)"
        unfolding g1_def using I j that r(1)[of j] by (intro row_update) simp_all
      moreover have "row_at len g2 y i = (if y = yb \<and> i = j then bx_merge (row_at len fb yb j) (row_at len fb ya j) L M else row_at len g1 y i)"
        unfolding g2_def using l j that r(2)[of j] by (intro row_update) simp_all
      ultimately show ?thesis using I that assms(5) by (auto simp: less_Suc_eq)
    qed
    then show "ok (do { a \<leftarrow> rd s j; c \<leftarrow> rd fb' (yb * len + j);
        fb \<leftarrow> wr fb' (ya * len + j) (bx_merge a c L M); wr fb (yb * len + j) (bx_merge c a L M) })
      (\<lambda>fb'. length fb' = length fb \<and> (\<forall>y i. i < len \<longrightarrow> row_at len fb' y i =
       (if i < Suc j \<and> y = ya then bx_merge (row_at len fb ya i) (row_at len fb yb i) L M
        else if i < Suc j \<and> y = yb then bx_merge (row_at len fb yb i) (row_at len fb ya i) L M
        else row_at len fb y i)))"
      using l by (simp add: a c w1 w2 ok_Some g2_def)
  qed (auto simp: traded_def L_def M_def)
  have "ok (copy_row len fb (ya * len) sc 0) (\<lambda>s. length s = length sc \<and> (\<forall>i<len. s ! i = row_at len fb ya i))"
    by (rule ok_mono[OF copy_row_spec]) (use ra rs in \<open>auto simp: row_at_def\<close>)
  then have "ok (copy_row len fb (ya * len) sc 0) (\<lambda>s. ok (for_range 0 len (\<lambda>i fb. do { a \<leftarrow> rd s i; c \<leftarrow> rd fb (yb * len + i);
        fb \<leftarrow> wr fb (ya * len + i) (bx_merge a c L M); wr fb (yb * len + i) (bx_merge c a L M) }) fb)
      (\<lambda>fb'. traded x len ya yb fb fb' \<and> length s = length sc))"
    by (rule ok_mono) (use loop in \<open>auto intro: ok_mono\<close>)
  then show ?thesis by (simp add: swap_rows_def m L_def M_def ok_simps)
qed

text \<open>
  A sequence of trades along a partner function \<open>P\<close>, no pair twice: every row a pair touches is
  merged with its partner's old contents, and every other row is kept.
\<close>

definition pairs_ok :: "(nat \<Rightarrow> nat) \<Rightarrow> nat \<Rightarrow> (nat \<times> nat) list \<Rightarrow> bool" where
  "pairs_ok P rows ps \<longleftrightarrow> distinct ps \<and> (\<forall>(a, b)\<in>set ps. P a = b \<and> P b = a \<and> a < b \<and> b < rows)"

definition touched :: "(nat \<times> nat) list \<Rightarrow> nat \<Rightarrow> bool" where
  "touched ps z \<longleftrightarrow> (\<exists>(a, b)\<in>set ps. z = a \<or> z = b)"

definition rows_traded :: "bendx_t \<Rightarrow> nat \<Rightarrow> (nat \<Rightarrow> nat) \<Rightarrow> (nat \<Rightarrow> bool) \<Rightarrow> u8 list \<Rightarrow> u8 list \<Rightarrow> bool" where
  "rows_traded x len P on fb fb' \<longleftrightarrow> length fb' = length fb \<and> (\<forall>z i. i < len \<longrightarrow> row_at len fb' z i =
     (if on z then bx_merge (row_at len fb z i) (row_at len fb (P z) i) (bx_lanes x) (x_mix x)
      else row_at len fb z i))"

lemma pairs_pass:
  assumes "pairs_ok P (bb_rows b) ps" "bx_room b m" "len = bb_rowlen b"
  shows "ok (for_list ps (\<lambda>(ya, yb). swap_rows x len ya yb) m)
    (\<lambda>m'. rows_traded x len P (touched ps) (fst m) (fst m') \<and> length (snd m') = length (snd m))"
  using assms(1,2)
proof (induction ps arbitrary: m)
  case Nil
  then show ?case by (simp add: ok_simps rows_traded_def touched_def)
next
  case (Cons p ps)
  obtain a c where p: "p = (a, c)" by (cases p)
  have pc: "P a = c" "P c = a" "a < c" "c < bb_rows b" "(a, c) \<notin> set ps" "pairs_ok P (bb_rows b) ps"
    using Cons.prems(1) by (auto simp: pairs_ok_def p)
  have fresh: "\<not> touched ps a" "\<not> touched ps c"
    using pc by (auto simp: touched_def pairs_ok_def)
  have sym: "touched ps z \<longleftrightarrow> touched ps (P z)" if "touched ps z" for z
    using that pc(6) by (fastforce simp: touched_def pairs_ok_def)
  have "ok (swap_rows x len a c m) (\<lambda>m'. traded x len a c (fst m) (fst m') \<and> length (snd m') = length (snd m))"
    using Cons.prems(2) assms(3) pc by (intro swap_rows_traded) auto
  then have "ok (swap_rows x len a c m) (\<lambda>m1. ok (for_list ps (\<lambda>(ya, yb). swap_rows x len ya yb) m1)
      (\<lambda>m'. rows_traded x len P (touched (p # ps)) (fst m) (fst m') \<and> length (snd m') = length (snd m)))"
  proof (rule ok_mono)
    fix m1 :: mem assume t: "traded x len a c (fst m) (fst m1) \<and> length (snd m1) = length (snd m)"
    then have "bx_room b m1" using Cons.prems(2) by (simp add: bx_room_def traded_def)
    from Cons.IH[OF pc(6) this]
    show "ok (for_list ps (\<lambda>(ya, yb). swap_rows x len ya yb) m1)
      (\<lambda>m'. rows_traded x len P (touched (p # ps)) (fst m) (fst m') \<and> length (snd m') = length (snd m))"
    proof (rule ok_mono)
      fix m' :: mem assume r: "rows_traded x len P (touched ps) (fst m1) (fst m') \<and> length (snd m') = length (snd m1)"
      have "row_at len (fst m') z i = (if touched (p # ps) z
          then bx_merge (row_at len (fst m) z i) (row_at len (fst m) (P z) i) (bx_lanes x) (x_mix x)
          else row_at len (fst m) z i)" if i: "i < len" for z i
      proof (cases "touched ps z")
        case True
        then have z: "z \<noteq> a" "z \<noteq> c" using fresh by auto
        have "touched ps (P z)" using sym[OF True] True by simp
        then have Pz: "P z \<noteq> a" "P z \<noteq> c" using fresh by auto
        have "touched (p # ps) z" using True by (simp add: touched_def)
        then show ?thesis using r t True z Pz i by (simp add: rows_traded_def traded_def)
      next
        case False
        then have "touched (p # ps) z \<longleftrightarrow> z = a \<or> z = c" by (auto simp: touched_def p)
        then show ?thesis using r t False i pc(1,2) by (auto simp: rows_traded_def traded_def)
      qed
      then show "rows_traded x len P (touched (p # ps)) (fst m) (fst m') \<and> length (snd m') = length (snd m)"
        using r t by (simp add: rows_traded_def traded_def)
    qed
  qed
  then show ?case by (simp add: p ok_simps)
qed

lemma for_list_filter: "for_list xs (\<lambda>i s. if c i then f i s else Some s) = for_list (filter c xs) f"
proof (induction xs)
  case (Cons i xs)
  show ?case by (rule ext) (simp add: Cons for_list_fun)
qed (simp add: fun_eq_iff)

lemma for_list_concat: "for_list xs (\<lambda>i. for_list (g i) f) = for_list (concat (map g xs)) f"
proof (induction xs)
  case (Cons i xs)
  show ?case by (rule ext) (simp add: Cons for_list_append for_list_fun)
qed (simp add: fun_eq_iff)

lemma rows_traded_safe:
  assumes "rows_traded x len P on (fst m) (fst m')" "length (snd m') = length (snd m)" "bx_room b m" "len = bb_rowlen b"
  shows "safe x m m'"
proof -
  have "fst m' ! k AND NOT (bx_lanes x) = fst m ! k AND NOT (bx_lanes x)" if "k < length (fst m)" for k
  proof -
    have k: "k < bb_rows b * len" using that assms(3,4) by (simp add: bx_room_def)
    then have "k mod len < len" by (cases len) auto
    then have "row_at len (fst m') (k div len) (k mod len) AND NOT (bx_lanes x) =
        row_at len (fst m) (k div len) (k mod len) AND NOT (bx_lanes x)"
      using assms(1) by (simp add: rows_traded_def merge_keeps)
    then show ?thesis by (simp add: row_at_def)
  qed
  then show ?thesis using assms(1,2) by (simp add: safe_def keeps_def rows_traded_def)
qed

subsection \<open>The row address line\<close>

definition line_low :: "nat \<Rightarrow> nat \<Rightarrow> nat" where
  "line_low a z = (if bit z a then z - 2 ^ a else z)"

definition line_partner :: "nat \<Rightarrow> nat \<Rightarrow> nat" where
  "line_partner a z = (if bit z a then z - 2 ^ a else z + 2 ^ a)"

lemma and_exp_nat: "(y::nat) AND 2 ^ a = 0 \<longleftrightarrow> \<not> bit y a"
proof
  assume 0: "y AND 2 ^ a = 0"
  have "bit (y AND 2 ^ a) a \<longleftrightarrow> bit y a" by (simp add: bit_and_iff bit_exp_iff)
  then show "\<not> bit y a" by (simp add: 0)
next
  assume "\<not> bit y a"
  then show "y AND 2 ^ a = 0" by (intro bit_eqI) (auto simp: bit_and_iff bit_exp_iff)
qed

lemma or_exp_nat: "\<not> bit (y::nat) a \<Longrightarrow> y OR 2 ^ a = y + 2 ^ a"
  by (rule disjunctive_add[symmetric]) (auto simp: bit_exp_iff)

lemma bit_add_exp:
  assumes "\<not> bit (y::nat) a"
  shows "bit (y + 2 ^ a) a"
  using or_exp_nat[OF assms, symmetric] by (simp add: bit_or_iff bit_exp_iff)

lemma bit_sub_exp:
  assumes "bit (y::nat) a"
  shows "2 ^ a \<le> y" "\<not> bit (y - 2 ^ a) a"
proof -
  define u where "u = unset_bit a y"
  have nb: "\<not> bit u a" by (simp add: u_def bit_unset_bit_iff)
  have "y = u OR 2 ^ a"
    by (rule bit_eqI) (use assms in \<open>auto simp: u_def bit_or_iff bit_unset_bit_iff bit_exp_iff\<close>)
  then have y: "y = u + 2 ^ a" using or_exp_nat[OF nb] by simp
  then show "2 ^ a \<le> y" "\<not> bit (y - 2 ^ a) a" using nb by simp_all
qed

lemma line_partner_twice: "line_partner a (line_partner a z) = z"
  using bit_add_exp[of z a] bit_sub_exp[of z a] by (simp add: line_partner_def)

lemma line_low_partner: "line_low a (line_partner a z) = line_low a z"
  using bit_add_exp[of z a] bit_sub_exp[of z a] by (simp add: line_partner_def line_low_def)

definition addr_on :: "bendx_t \<Rightarrow> nat \<Rightarrow> nat \<Rightarrow> bool" where
  "addr_on x rows z \<longleftrightarrow> line_low (amt x) z + 2 ^ amt x < rows \<and> bx_on x (line_low (amt x) z)"

lemma bx_addr_traded:
  assumes "bx_room b m"
  shows "ok (bx_addr x b m) (\<lambda>m'. rows_traded x (bb_rowlen b) (line_partner (amt x)) (addr_on x (bb_rows b)) (fst m) (fst m')
    \<and> length (snd m') = length (snd m))"
proof (cases "bb_rows b \<le> 2 ^ amt x")
  case True
  then have "\<not> addr_on x (bb_rows b) z" for z by (simp add: addr_on_def)
  then show ?thesis using True by (simp add: bx_addr_def ok_simps rows_traded_def)
next
  case False
  define a where "a = amt x"
  define len where "len = bb_rowlen b"
  define rows where "rows = bb_rows b"
  define c where "c = (\<lambda>y. \<not> bit y a \<and> y + 2 ^ a < rows \<and> bx_on x y)"
  define ps where "ps = map (\<lambda>y. (y, y + 2 ^ a)) (filter c [0..<rows])"
  have body: "(\<lambda>y m. let y2 = y OR 2 ^ a in
        if y AND 2 ^ a \<noteq> 0 then Some m else if rows \<le> y2 then Some m
        else if \<not> bx_on x y then Some m else swap_rows x len y y2 m) =
      (\<lambda>y m. if c y then swap_rows x len y (y + 2 ^ a) m else Some m)"
    by (auto simp: fun_eq_iff c_def and_exp_nat or_exp_nat Let_def)
  have "bx_addr x b m = for_list ps (\<lambda>(ya, yb). swap_rows x len ya yb) m"
    using False unfolding bx_addr_def Let_def[of "bb_rowlen b"] Let_def[of "2 ^ amt x"]
    unfolding a_def[symmetric] len_def[symmetric] rows_def[symmetric] body for_list_filter
    by (simp add: ps_def for_list_map)
  moreover have "pairs_ok (line_partner a) rows ps"
    by (auto simp: pairs_ok_def ps_def distinct_map inj_on_def line_partner_def c_def bit_add_exp)
  moreover have "touched ps = addr_on x rows"
  proof (rule ext)
    fix z
    have "touched ps z \<longleftrightarrow> (c z \<and> z < rows) \<or> (\<exists>y. z = y + 2 ^ a \<and> c y \<and> y < rows)"
      by (auto simp: touched_def ps_def)
    also have "\<dots> \<longleftrightarrow> addr_on x rows z"
    proof (cases "bit z a")
      case True
      then have "(\<exists>y. z = y + 2 ^ a \<and> c y \<and> y < rows) \<longleftrightarrow> c (z - 2 ^ a)"
        using bit_sub_exp[OF True] by (auto simp: c_def intro!: exI[of _ "z - 2 ^ a"])
      then show ?thesis using True bit_sub_exp[OF True] by (simp add: addr_on_def line_low_def c_def a_def[symmetric])
    next
      case False
      then have "\<not> (\<exists>y. z = y + 2 ^ a \<and> c y \<and> y < rows)" using bit_add_exp by (auto simp: c_def)
      then show ?thesis using False by (auto simp: addr_on_def line_low_def c_def a_def[symmetric])
    qed
    finally show "touched ps z = addr_on x rows z" .
  qed
  ultimately show ?thesis
    using pairs_pass[of "line_partner a" b ps m len x] assms by (simp add: len_def rows_def a_def)
qed

text \<open>A trade with nothing merged but everything replaced undoes itself.\<close>

lemma traded_twice:
  assumes t: "rows_traded x len P on fb fb'" "rows_traded x len P on fb' fb''"
    and P: "\<And>z. on z \<Longrightarrow> P (P z) = z" "\<And>z. on z \<Longrightarrow> on (P z)"
    and set: "bx_lanes x = 0xff" "x_mix x = 0" and len: "length fb = rows * len"
  shows "fb'' = fb"
proof (rule nth_equalityI)
  show "length fb'' = length fb" using t by (simp add: rows_traded_def)
  fix k assume "k < length fb''"
  then have "k < rows * len" using t len by (simp add: rows_traded_def)
  then have i: "k mod len < len" by (cases len) auto
  have "row_at len fb'' (k div len) (k mod len) = row_at len fb (k div len) (k mod len)"
    using t i P by (auto simp: rows_traded_def set merge_set_all)
  then show "fb'' ! k = fb ! k" by (simp add: row_at_def)
qed

subsection \<open>The field order\<close>

definition field_height :: "nat \<Rightarrow> nat \<Rightarrow> nat \<Rightarrow> nat" where
  "field_height blk rows y0 = (if y0 + blk \<le> rows then blk else rows - y0)"

text \<open>Counted from the bottom of its block instead of from the top.\<close>

definition field_partner :: "nat \<Rightarrow> nat \<Rightarrow> nat \<Rightarrow> nat" where
  "field_partner blk rows z =
     (let y0 = z div blk * blk in y0 + (field_height blk rows y0 - 1 - (z - y0)))"

definition field_on :: "bendx_t \<Rightarrow> nat \<Rightarrow> nat \<Rightarrow> nat \<Rightarrow> bool" where
  "field_on x blk rows z \<longleftrightarrow> z < rows \<and> bx_on x (z div blk * blk) \<and> field_partner blk rows z \<noteq> z"

lemma in_block:
  assumes "0 < blk" "q * blk + k < rows" "k < field_height blk rows (q * blk)"
  shows "(q * blk + k) div blk * blk = q * blk"
    "field_partner blk rows (q * blk + k) = q * blk + (field_height blk rows (q * blk) - 1 - k)"
proof -
  have "k < blk" using assms(3) by (simp add: field_height_def split: if_splits)
  then have "(q * blk + k) div blk = q" using assms(1) by simp
  then show "(q * blk + k) div blk * blk = q * blk"
    "field_partner blk rows (q * blk + k) = q * blk + (field_height blk rows (q * blk) - 1 - k)"
    by (simp_all add: field_partner_def Let_def)
qed

lemma block_of:
  assumes "0 < blk" "z < rows"
  shows "z - z div blk * blk < field_height blk rows (z div blk * blk)"
    "z div blk * blk + (z - z div blk * blk) = z" "z div blk < (rows + blk - 1) div blk"
proof -
  have le: "z div blk * blk \<le> z" by simp
  have m: "z - z div blk * blk < blk"
    using assms(1) by (metis minus_div_mult_eq_mod mod_less_divisor)
  show "z - z div blk * blk < field_height blk rows (z div blk * blk)"
    using m diff_less_mono[OF assms(2) le] by (simp add: field_height_def)
  show "z div blk * blk + (z - z div blk * blk) = z" using le by linarith
  have "(z div blk + 1) * blk = z div blk * blk + blk" by simp
  then have "(z div blk + 1) * blk \<le> rows + blk - 1" using le assms by linarith
  then show "z div blk < (rows + blk - 1) div blk"
    unfolding less_eq_div_iff_mult_less_eq[OF assms(1), symmetric] by simp
qed

lemma field_partner_props:
  assumes "0 < blk" "z < rows"
  shows "field_partner blk rows z < rows" "field_partner blk rows z div blk * blk = z div blk * blk"
    "field_partner blk rows (field_partner blk rows z) = z"
proof -
  define q where "q = z div blk"
  define k where "k = z - q * blk"
  define n where "n = field_height blk rows (q * blk)"
  have k: "k < n" "z = q * blk + k" using block_of[OF assms] by (simp_all add: k_def n_def q_def)
  have n: "q * blk + n \<le> rows" using assms(2) k by (simp add: n_def field_height_def)
  have p: "field_partner blk rows z = q * blk + (n - 1 - k)"
    using in_block(2)[OF assms(1), of q k rows] k assms(2) by (simp add: n_def)
  have r: "q * blk + (n - 1 - k) < rows" "n - 1 - k < n" using k n by linarith+
  then show "field_partner blk rows z < rows" by (simp add: p)
  show "field_partner blk rows z div blk * blk = z div blk * blk"
    using in_block(1)[OF assms(1), of q "n - 1 - k" rows] r by (simp add: p n_def q_def)
  show "field_partner blk rows (field_partner blk rows z) = z"
  proof -
    have "field_partner blk rows (q * blk + (n - 1 - k)) = q * blk + (n - 1 - (n - 1 - k))"
      using in_block(2)[OF assms(1) r(1)] r(2) unfolding n_def by blast
    moreover have "n - 1 - (n - 1 - k) = k" using k(1) by linarith
    ultimately show ?thesis using k(2) by (metis p)
  qed
qed

lemma bx_field_traded:
  assumes "bx_room b m"
  shows "ok (bx_field x b m) (\<lambda>m'. rows_traded x (bb_rowlen b) (field_partner (amt x + 2) (bb_rows b))
      (field_on x (amt x + 2) (bb_rows b)) (fst m) (fst m') \<and> length (snd m') = length (snd m))"
proof -
  define blk where "blk = amt x + 2"
  define len where "len = bb_rowlen b"
  define rows where "rows = bb_rows b"
  have blk: "0 < blk" by (simp add: blk_def)
  define prs where "prs = (\<lambda>q. if bx_on x (q * blk) then
      map (\<lambda>k. (q * blk + k, q * blk + field_height blk rows (q * blk) - 1 - k)) [0..<field_height blk rows (q * blk) div 2] else [])"
  define N where "N = (rows + blk - 1) div blk"
  define ps where "ps = concat (map prs [0..<N])"
  have body: "(let n = (if q * blk + blk \<le> rows then blk else rows - q * blk) in
        if \<not> bx_on x (q * blk) then Some m
        else for_range 0 (n div 2) (\<lambda>k. swap_rows x len (q * blk + k) (q * blk + n - 1 - k)) m) =
      for_list (prs q) (\<lambda>(ya, yb). swap_rows x len ya yb) m" for q m
    unfolding prs_def field_height_def Let_def by (simp add: for_list_map)
  have eq: "bx_field x b m = for_list ps (\<lambda>(ya, yb). swap_rows x len ya yb) m"
    unfolding bx_field_def Let_def[of "bb_rowlen b"] Let_def[of "bb_rows b"] Let_def[of "amt x + 2"]
    unfolding blk_def[symmetric] len_def[symmetric] rows_def[symmetric] starts_def for_list_map body ps_def N_def
    by (simp add: for_list_concat)
  have height: "q * blk + field_height blk rows (q * blk) \<le> rows" if "q < N" for q
  proof -
    have "q * blk < rows"
    proof -
      have "(q + 1) * blk \<le> rows + blk - 1"
        using that blk less_eq_div_iff_mult_less_eq[of blk "q + 1" "rows + blk - 1"] by (simp add: N_def)
      then show ?thesis using blk by simp
    qed
    then show ?thesis by (simp add: field_height_def)
  qed
  have prs: "(a, c) \<in> set (prs q) \<longleftrightarrow> bx_on x (q * blk) \<and> (\<exists>k<field_height blk rows (q * blk) div 2.
      a = q * blk + k \<and> c = q * blk + (field_height blk rows (q * blk) - 1 - k))" for a c q
  proof -
    have e: "q * blk + field_height blk rows (q * blk) - 1 - k = q * blk + (field_height blk rows (q * blk) - 1 - k)"
      if "k < field_height blk rows (q * blk) div 2" for k
      using that by linarith
    have "(a, c) \<in> set (prs q) \<longleftrightarrow> bx_on x (q * blk) \<and> (\<exists>k<field_height blk rows (q * blk) div 2.
        a = q * blk + k \<and> c = q * blk + field_height blk rows (q * blk) - 1 - k)"
      unfolding prs_def by (simp add: image_iff Bex_def)
    then show ?thesis using e by metis
  qed
  have mem: "(a, c) \<in> set ps \<longleftrightarrow> (\<exists>q k. q < N \<and> bx_on x (q * blk) \<and> k < field_height blk rows (q * blk) div 2 \<and>
      a = q * blk + k \<and> c = q * blk + (field_height blk rows (q * blk) - 1 - k))" for a c
  proof -
    have "(a, c) \<in> set ps \<longleftrightarrow> (\<exists>q<N. (a, c) \<in> set (prs q))" by (auto simp: ps_def)
    then show ?thesis unfolding prs by blast
  qed
  have pair: "field_partner blk rows a = c \<and> field_partner blk rows c = a \<and> a < c \<and> c < rows"
    if ac: "(a, c) \<in> set ps" for a c
  proof -
    obtain q k where q: "q < N" "k < field_height blk rows (q * blk) div 2" "a = q * blk + k"
      "c = q * blk + (field_height blk rows (q * blk) - 1 - k)"
      using ac unfolding mem by blast
    have h: "q * blk + field_height blk rows (q * blk) \<le> rows" using height q(1) .
    have lt: "k < field_height blk rows (q * blk) - 1 - k" using q(2) by linarith
    then have c: "a < c" "c < rows" using q h by linarith+
    have "field_partner blk rows a = c"
      using in_block(2)[OF blk, of q k rows] q h lt by simp
    moreover have "field_partner blk rows c = a"
      using field_partner_props(3)[OF blk, of a rows] c calculation by simp
    ultimately show ?thesis using c by simp
  qed
  have "distinct ps"
  proof -
    have "distinct (map fst ps)"
    proof -
      have "map fst ps = concat (map (\<lambda>q. map fst (prs q)) [0..<N])" by (simp add: ps_def map_concat comp_def)
      moreover have "distinct (concat (map (\<lambda>q. map fst (prs q)) [0..<M]))" for M
      proof (induction M)
        case (Suc M)
        have "distinct (map fst (prs M))" by (auto simp: prs_def comp_def distinct_map inj_on_def)
        moreover have "set (map fst (prs M)) \<inter> set (concat (map (\<lambda>q. map fst (prs q)) [0..<M])) = {}"
        proof -
          have key: "a div blk = q" if aq: "a \<in> set (map fst (prs q))" for a q
          proof -
            obtain k where k: "a = q * blk + k" "k < field_height blk rows (q * blk) div 2"
              using aq by (auto simp: prs_def split: if_splits)
            then have "k < blk" by (auto simp: field_height_def split: if_splits)
            then show ?thesis using k(1) by simp
          qed
          show ?thesis
          proof (rule ccontr)
            assume "set (map fst (prs M)) \<inter> set (concat (map (\<lambda>q. map fst (prs q)) [0..<M])) \<noteq> {}"
            then obtain a where a: "a \<in> set (map fst (prs M))" "a \<in> set (concat (map (\<lambda>q. map fst (prs q)) [0..<M]))"
              by blast
            from a(2) obtain q where "q < M" "a \<in> set (map fst (prs q))" by force
            then show False using key[OF a(1)] key[of a q] by simp
          qed
        qed
        ultimately show ?case using Suc by auto
      qed simp
      ultimately show ?thesis by simp
    qed
    then show ?thesis by (simp add: distinct_map)
  qed
  then have "pairs_ok (field_partner blk rows) rows ps" using pair by (auto simp: pairs_ok_def)
  moreover have "touched ps = field_on x blk rows"
  proof (rule ext)
    fix z
    show "touched ps z = field_on x blk rows z"
    proof
      assume "touched ps z"
      then obtain a c where ac: "(a, c) \<in> set ps" "z = a \<or> z = c" by (auto simp: touched_def)
      have "a div blk * blk = c div blk * blk"
        using field_partner_props(2)[OF blk, of a rows] pair[OF ac(1)] by auto
      moreover have "bx_on x (a div blk * blk)"
      proof -
        obtain q k where q: "q < N" "bx_on x (q * blk)" "k < field_height blk rows (q * blk) div 2" "a = q * blk + k"
          using ac(1) unfolding mem by blast
        have "a < rows" using pair[OF ac(1)] by linarith
        moreover have "k < field_height blk rows (q * blk)" using q(3) by linarith
        ultimately have "a div blk * blk = q * blk" using in_block(1)[OF blk, of q k rows] q(4) by metis
        then show ?thesis using q(2) by (simp only:)
      qed
      moreover have "z < rows \<and> field_partner blk rows z \<noteq> z \<and> (z div blk * blk = a div blk * blk \<or> z div blk * blk = c div blk * blk)"
      proof -
        have p: "field_partner blk rows a = c" "field_partner blk rows c = a" "a < c" "c < rows" using pair[OF ac(1)] by blast+
        have ne: "a \<noteq> c" "c \<noteq> a" "a < rows" using p by linarith+
        show ?thesis using ac(2) p ne by metis
      qed
      ultimately show "field_on x blk rows z" unfolding field_on_def by metis
    next
      assume z: "field_on x blk rows z"
      define q where "q = z div blk"
      define n where "n = field_height blk rows (q * blk)"
      define k where "k = z - q * blk"
      have zr: "z < rows" and on: "bx_on x (q * blk)" and ne: "field_partner blk rows z \<noteq> z"
        using z by (simp_all add: field_on_def q_def)
      have k: "k < n" "z = q * blk + k" "q < N" using block_of[OF blk zr] by (simp_all add: k_def n_def q_def N_def)
      have p: "field_partner blk rows z = q * blk + (n - 1 - k)"
        using in_block(2)[OF blk, of q k rows] k zr by (simp add: n_def)
      have "k \<noteq> n - 1 - k" using ne p k(2) by auto
      then consider "k < n div 2" | "n - 1 - k < n div 2" "n - 1 - (n - 1 - k) = k" using k(1) by linarith
      then show "touched ps z"
      proof cases
        case 1
        then have "(z, q * blk + (n - 1 - k)) \<in> set ps" using k on by (auto simp: mem n_def)
        then show ?thesis by (auto simp: touched_def)
      next
        case 2
        then have "(q * blk + (n - 1 - k), z) \<in> set ps" using k on unfolding mem n_def by metis
        then show ?thesis by (auto simp: touched_def)
      qed
    qed
  qed
  ultimately show ?thesis
    using pairs_pass[of "field_partner blk rows" b ps m len x] assms by (simp add: len_def rows_def blk_def eq)
qed

section \<open>Safety of the remaining effects\<close>

lemma keeps_room: "keeps lanes p q \<Longrightarrow> k < length p \<Longrightarrow> k < length q"
  by (simp add: keeps_def)

lemma keeps_loop:
  assumes "keeps lanes p q" "\<And>i r. \<lbrakk>i \<in> set xs; keeps lanes p r\<rbrakk> \<Longrightarrow> ok (f i r) (keeps lanes p)"
  shows "ok (for_list xs f q) (keeps lanes p)"
  by (rule for_list_inv[where I = "keeps lanes p"]) (use assms in auto)

text \<open>One merged byte.\<close>

lemma merge_at_ok:
  assumes "keeps lanes p q" "k < length p"
  shows "ok (rd q k \<bind> (\<lambda>c. wr q k (bx_merge c v lanes mx))) (keeps lanes p)"
  using assms keeps_room[OF assms] keeps_merge[OF assms(1)] by (simp add: ok_simps)

lemma swap_groups_keeps:
  assumes "keeps (bx_lanes x) p q" "ga + gsz \<le> length p" "gb + gsz \<le> length p"
  shows "ok (swap_groups x gsz ga gb q) (keeps (bx_lanes x) p)"
  unfolding swap_groups_def
proof (rule keeps_loop[OF assms(1)])
  fix k r
  assume k: "k \<in> set [0..<gsz]" and I: "keeps (bx_lanes x) p r"
  have room: "ga + k < length p" "gb + k < length p" using k assms(2,3) by simp_all
  have len: "length r = length p" using I by (rule keeps_length)
  define r1 where "r1 = r[ga + k := bx_merge (r ! (ga + k)) (r ! (gb + k)) (bx_lanes x) (x_mix x)]"
  have 1: "keeps (bx_lanes x) p r1" unfolding r1_def by (rule keeps_merge[OF I])
  have "bx_merge (r ! (gb + k)) v (bx_lanes x) (x_mix x) AND NOT (bx_lanes x) = r1 ! (gb + k) AND NOT (bx_lanes x)" for v
    using room len by (simp add: merge_keeps r1_def nth_list_update)
  then have 2: "keeps (bx_lanes x) p (r1[gb + k := bx_merge (r ! (gb + k)) v (bx_lanes x) (x_mix x)])" for v
    by (intro keeps_wr[OF 1])
  show "ok (do { a \<leftarrow> rd r (ga + k); c \<leftarrow> rd r (gb + k);
      fb \<leftarrow> wr r (ga + k) (bx_merge a c (bx_lanes x) (x_mix x));
      wr fb (gb + k) (bx_merge c a (bx_lanes x) (x_mix x)) }) (keeps (bx_lanes x) p)"
    using room len 2 by (simp add: ok_simps r1_def)
qed

lemma group_room: "\<lbrakk>y < rows; g < len div gsz\<rbrakk> \<Longrightarrow> y * len + g * gsz + gsz \<le> rows * (len::nat)"
proof -
  assume a: "y < rows" "g < len div gsz"
  then have "(g + 1) * gsz \<le> len div gsz * gsz" by (intro mult_le_mono1) simp
  then have "(g + 1) * gsz \<le> len" using div_times_less_eq_dividend le_trans by blast
  then show ?thesis using row_end[OF a(1), of len] by simp
qed

lemma bx_coladdr_safe:
  assumes "bx_room b m"
  shows "ok (bx_coladdr x b m) (safe x m)"
proof -
  obtain fb sc where m: "m = (fb, sc)" by (cases m)
  define gsz where "gsz = bx_gsz (bb_nbits b)"
  define len where "len = bb_rowlen b"
  have fb: "length fb = bb_rows b * len" using assms by (simp add: bx_room_def m len_def)
  have "ok (for_range 0 (bb_rows b) (\<lambda>y fb. if \<not> bx_on x y then Some fb
      else for_range 0 (len div gsz) (\<lambda>g fb. let g2 = g OR 2 ^ amt x in
        if g AND 2 ^ amt x \<noteq> 0 then Some fb else if len div gsz \<le> g2 then Some fb
        else swap_groups x gsz (y * len + g * gsz) (y * len + g2 * gsz) fb) fb) fb) (keeps (bx_lanes x) fb)"
  proof (rule keeps_loop[OF keeps_refl])
    fix y q assume y: "y \<in> set [0..<bb_rows b]" and I: "keeps (bx_lanes x) fb q"
    have "ok (for_range 0 (len div gsz) (\<lambda>g fb. let g2 = g OR 2 ^ amt x in
        if g AND 2 ^ amt x \<noteq> 0 then Some fb else if len div gsz \<le> g2 then Some fb
        else swap_groups x gsz (y * len + g * gsz) (y * len + g2 * gsz) fb) q) (keeps (bx_lanes x) fb)"
    proof (rule keeps_loop[OF I])
      fix g r assume g: "g \<in> set [0..<len div gsz]" and J: "keeps (bx_lanes x) fb r"
      show "ok (let g2 = g OR 2 ^ amt x in if g AND 2 ^ amt x \<noteq> 0 then Some r else if len div gsz \<le> g2 then Some r
          else swap_groups x gsz (y * len + g * gsz) (y * len + g2 * gsz) r) (keeps (bx_lanes x) fb)"
        using J y g swap_groups_keeps[OF J] group_room[of y "bb_rows b" _ len gsz] fb
        by (simp add: Let_def ok_simps)
    qed
    then show "ok (if \<not> bx_on x y then Some q else for_range 0 (len div gsz) (\<lambda>g fb. let g2 = g OR 2 ^ amt x in
        if g AND 2 ^ amt x \<noteq> 0 then Some fb else if len div gsz \<le> g2 then Some fb
        else swap_groups x gsz (y * len + g * gsz) (y * len + g2 * gsz) fb) q) (keeps (bx_lanes x) fb)"
      using I by (simp add: ok_simps)
  qed
  then show ?thesis
    unfolding bx_coladdr_def m prod.case ok_let Let_def gsz_def[symmetric] len_def[symmetric]
    by (simp add: ok_simps safe_def)
qed

text \<open>A row whose bytes are merged, each with some byte that can be read.\<close>

lemma merge_row_keeps:
  assumes "keeps lanes p q" "off + len \<le> length p"
    and "\<And>i r. \<lbrakk>i < len; keeps lanes p r\<rbrakk> \<Longrightarrow> ok (f i r) (\<lambda>v. True)"
  shows "ok (for_range 0 len (\<lambda>i r. do { c \<leftarrow> rd r (off + i); v \<leftarrow> f i r; wr r (off + i) (bx_merge c v lanes mx) }) q)
    (keeps lanes p)"
proof (rule keeps_loop[OF assms(1)])
  fix i r assume i: "i \<in> set [0..<len]" and I: "keeps lanes p r"
  have "off + i < length r" using i assms(2) keeps_length[OF I] by simp
  moreover obtain v where "f i r = Some v" using assms(3)[of i r] i I by (auto simp: ok_def)
  ultimately show "ok (do { c \<leftarrow> rd r (off + i); v \<leftarrow> f i r; wr r (off + i) (bx_merge c v lanes mx) }) (keeps lanes p)"
    using keeps_merge[OF I] by (simp add: ok_simps)
qed

lemma bx_linemem_safe:
  assumes "bx_room b m"
  shows "ok (bx_linemem x b m) (safe x m)"
proof -
  obtain fb sc where m: "m = (fb, sc)" by (cases m)
  define len where "len = bb_rowlen b"
  define period where "period = amt x + 2"
  define hold where "hold = (if period \<le> rch x + 1 then period - 1 else rch x + 1)"
  have fb: "length fb = bb_rows b * len" using assms by (simp add: bx_room_def m len_def)
  have "ok (for_range 0 (bb_rows b) (\<lambda>y fb. let pos = y mod period in
      if pos < period - hold then Some fb else if \<not> bx_on x y then Some fb
      else let sy = y - pos + (period - hold) - 1 in
        for_range 0 len (\<lambda>i fb. do { c \<leftarrow> rd fb (y * len + i); v \<leftarrow> rd fb (sy * len + i);
          wr fb (y * len + i) (bx_merge c v (bx_lanes x) (x_mix x)) }) fb) fb) (keeps (bx_lanes x) fb)"
  proof (rule keeps_loop[OF keeps_refl])
    fix y q assume y: "y \<in> set [0..<bb_rows b]" and I: "keeps (bx_lanes x) fb q"
    have "ok (for_range 0 len (\<lambda>i fb. do { c \<leftarrow> rd fb (y * len + i); v \<leftarrow> rd fb (sy * len + i);
          wr fb (y * len + i) (bx_merge c v (bx_lanes x) (x_mix x)) }) q) (keeps (bx_lanes x) fb)" if "sy < bb_rows b" for sy
    proof (rule merge_row_keeps[OF I])
      show "y * len + len \<le> length fb" using y fb row_end[of y "bb_rows b" len] by simp
      fix i r assume "i < len" "keeps (bx_lanes x) fb r"
      then show "ok (rd r (sy * len + i)) (\<lambda>v. True)"
        using row_in[OF that] fb by (simp add: ok_simps keeps_def)
    qed
    moreover have "y - y mod period + (period - hold) - 1 < bb_rows b" if "\<not> y mod period < period - hold"
      using that y by simp
    ultimately show "ok (let pos = y mod period in
      if pos < period - hold then Some q else if \<not> bx_on x y then Some q
      else let sy = y - pos + (period - hold) - 1 in
        for_range 0 len (\<lambda>i fb. do { c \<leftarrow> rd fb (y * len + i); v \<leftarrow> rd fb (sy * len + i);
          wr fb (y * len + i) (bx_merge c v (bx_lanes x) (x_mix x)) }) q) (keeps (bx_lanes x) fb)"
      using I by (simp add: Let_def ok_simps)
  qed
  then show ?thesis
    unfolding bx_linemem_def m prod.case Let_def len_def[symmetric] period_def[symmetric] hold_def[symmetric]
    by (simp add: ok_simps safe_def)
qed

text \<open>A byte whose lanes are forced to ones or to zeros.\<close>

lemma force_keeps:
  assumes "keeps lanes p q" "k < length p"
  shows "ok (rd q k \<bind> (\<lambda>c. wr q k (if b then c OR lanes else c AND NOT lanes))) (keeps lanes p)"
proof -
  have "(if b then c OR lanes else c AND NOT lanes) AND NOT lanes = c AND NOT lanes" for c :: u8
    by (simp add: bit_eq_iff bit_or_iff bit_and_iff bit_not_iff) blast
  then show ?thesis
    using keeps_wr[OF assms(1)] assms keeps_room[OF assms] by (simp add: ok_simps)
qed

lemma bx_refresh_safe:
  assumes "bx_room b m"
  shows "ok (bx_refresh x b m) (safe x m)"
proof -
  obtain fb sc where m: "m = (fb, sc)" by (cases m)
  have fb: "length fb = bb_rows b * bb_rowlen b" using assms by (simp add: bx_room_def m)
  have row: "ok (for_range 0 (bb_rowlen b) (\<lambda>i (fb, st).
        let st = xs32 st in
        if thr \<le> unat (st AND 0xffff) then Some (fb, st)
        else do {
          c \<leftarrow> rd fb (y * bb_rowlen b + i);
          fb \<leftarrow> wr fb (y * bb_rowlen b + i) (if one then c OR bx_lanes x else c AND NOT (bx_lanes x));
          Some (fb, st) }) (q, st)) (\<lambda>r. keeps (bx_lanes x) fb (fst r))"
    if y: "y < bb_rows b" and I: "keeps (bx_lanes x) fb q" for y q thr one and st :: u32
  proof (rule for_list_inv[where I = "\<lambda>r. keeps (bx_lanes x) fb (fst r)"])
    fix i and r :: "u8 list \<times> u32" assume i: "i \<in> set [0..<bb_rowlen b]" and J: "keeps (bx_lanes x) fb (fst r)"
    have "y * bb_rowlen b + i < length fb" using row_in[OF y] i fb by simp
    from force_keeps[OF J this, of one]
    show "ok (case r of (fb, st) \<Rightarrow> let st = xs32 st in
        if thr \<le> unat (st AND 0xffff) then Some (fb, st)
        else do {
          c \<leftarrow> rd fb (y * bb_rowlen b + i);
          fb \<leftarrow> wr fb (y * bb_rowlen b + i) (if one then c OR bx_lanes x else c AND NOT (bx_lanes x));
          Some (fb, st) }) (\<lambda>r. keeps (bx_lanes x) fb (fst r))"
      using J by (cases r) (simp add: Let_def ok_simps)
  qed (use I in simp)
  show ?thesis
  proof (cases "bb_rows b = 0")
    case True
    then show ?thesis by (simp add: bx_refresh_def m ok_simps)
  next
    case False
    have "ok (bx_refresh x b m) (\<lambda>r. snd r = sc \<and> keeps (bx_lanes x) fb (fst r))"
      unfolding bx_refresh_def m prod.case Let_def ok_bind ok_if using False
      apply (simp only: if_False)
      apply (rule ok_mono[where Q = "keeps (bx_lanes x) fb"])
       apply (rule keeps_loop[OF keeps_refl])
      using row by (auto simp: ok_simps ok_map_option Let_def)
    then show ?thesis by (rule ok_mono) (simp add: safe_def m)
  qed
qed

lemma bx_membus_safe:
  assumes "bx_room b m"
  shows "ok (bx_membus x b foreign m) (safe x m)"
proof -
  obtain fb sc where m: "m = (fb, sc)" by (cases m)
  define len where "len = bb_rowlen b"
  define span where "span = len div 2 ^ amt x + 2"
  have fb: "length fb = bb_rows b * len" using assms by (simp add: bx_room_def m len_def)
  show ?thesis
  proof (cases foreign)
    case None
    then show ?thesis by (simp add: bx_membus_def m Let_def ok_simps safe_def)
  next
    case (Some mm)
    have "ok (for_range 0 (bb_rows b) (\<lambda>y fb.
        let r = (off + y * walk) mod 2 ^ 32 mod (length mm - span) in
        if \<not> bx_on x y then Some fb
        else for_range 0 len (\<lambda>i fb. do {
          c \<leftarrow> rd fb (y * len + i); v \<leftarrow> rd mm (r + i div 2 ^ amt x);
          wr fb (y * len + i) (bx_merge c v (bx_lanes x) (x_mix x)) }) fb) fb) (keeps (bx_lanes x) fb)"
      if room: "span < length mm" for off walk
    proof (rule keeps_loop[OF keeps_refl])
      fix y q assume y: "y \<in> set [0..<bb_rows b]" and I: "keeps (bx_lanes x) fb q"
      have "ok (for_range 0 len (\<lambda>i fb. do {
          c \<leftarrow> rd fb (y * len + i); v \<leftarrow> rd mm (r + i div 2 ^ amt x);
          wr fb (y * len + i) (bx_merge c v (bx_lanes x) (x_mix x)) }) q) (keeps (bx_lanes x) fb)"
        if r: "r < length mm - span" for r
      proof (rule merge_row_keeps[OF I])
        show "y * len + len \<le> length fb" using y fb row_end[of y "bb_rows b" len] by simp
        fix i assume "i < len"
        then have "i div 2 ^ amt x \<le> len div 2 ^ amt x" by (simp add: div_le_mono)
        then show "ok (rd mm (r + i div 2 ^ amt x)) (\<lambda>v. True)"
          using r by (simp add: ok_simps span_def)
      qed
      moreover have "k mod (length mm - span) < length mm - span" for k using room by simp
      ultimately show "ok (let r = (off + y * walk) mod 2 ^ 32 mod (length mm - span) in
        if \<not> bx_on x y then Some q
        else for_range 0 len (\<lambda>i fb. do {
          c \<leftarrow> rd fb (y * len + i); v \<leftarrow> rd mm (r + i div 2 ^ amt x);
          wr fb (y * len + i) (bx_merge c v (bx_lanes x) (x_mix x)) }) q) (keeps (bx_lanes x) fb)"
        using I by (simp add: Let_def ok_simps)
    qed
    then show ?thesis
      unfolding bx_membus_def m prod.case Let_def len_def[symmetric] span_def[symmetric] Some option.case
      by (simp add: ok_simps safe_def)
  qed
qed

text \<open>Filling the scratch: only its size matters for safety.\<close>

lemma fill_length:
  assumes "length sc = n" "\<And>i. i \<in> set xs \<Longrightarrow> d i < n \<and> s i < length fb"
  shows "ok (for_list xs (\<lambda>i sc. rd fb (s i) \<bind> wr sc (d i)) sc) (\<lambda>sc'. length sc' = n)"
  by (rule for_list_inv[where I = "\<lambda>sc'. length sc' = n"]) (use assms in \<open>auto simp: ok_simps\<close>)

lemma blend_row_keeps:
  assumes "keeps (bx_lanes x) p q" "off + len \<le> length p" "nw + len \<le> length sc"
  shows "ok (bx_blend_row q off sc nw len (bx_lanes x) (x_mix x)) (keeps (bx_lanes x) p)"
  unfolding bx_blend_row_def
  by (rule merge_row_keeps[OF assms(1,2)]) (use assms in \<open>simp add: ok_simps\<close>)

lemma bx_stride_safe:
  assumes "bx_room b m"
  shows "ok (bx_stride x b m) (safe x m)"
proof (cases "bb_rowlen b * bb_rows b = 0")
  case True
  then show ?thesis by (simp add: bx_stride_def ok_simps)
next
  case False
  obtain fb sc where m: "m = (fb, sc)" by (cases m)
  define len where "len = bb_rowlen b"
  define total where "total = len * bb_rows b"
  have fb: "length fb = total" and sc: "2 * len \<le> length sc"
    using assms by (simp_all add: bx_room_def m len_def total_def)
  have pos: "0 < total" and rows: "len \<le> total" using False by (simp_all add: total_def len_def)
  let ?I = "\<lambda>m'. keeps (bx_lanes x) fb (fst m') \<and> length (snd m') = length sc"
  have row: "ok (do {
          s0 \<leftarrow> (if src + len \<le> total then copy_row len q src s 0
                 else let hd = total - src in do {
                   sc \<leftarrow> for_range 0 hd (\<lambda>i sc. rd q (src + i) \<bind> wr sc i) s;
                   for_range hd len (\<lambda>i sc. rd q (i - hd) \<bind> wr sc i) sc });
          fb \<leftarrow> bx_blend_row q (y * len) s0 0 len (bx_lanes x) (x_mix x);
          Some (fb, s0) }) ?I"
    if y: "y < bb_rows b" and src: "src < total" and I: "keeps (bx_lanes x) fb q" "length s = length sc" for y src q s
  proof -
    have lq: "length q = total" using I(1) fb by (simp add: keeps_def)
    have "ok (if src + len \<le> total then copy_row len q src s 0
                 else let hd = total - src in do {
                   sc \<leftarrow> for_range 0 hd (\<lambda>i sc. rd q (src + i) \<bind> wr sc i) s;
                   for_range hd len (\<lambda>i sc. rd q (i - hd) \<bind> wr sc i) sc }) (\<lambda>s. length s = length sc)"
    proof (cases "src + len \<le> total")
      case True
      then show ?thesis
        unfolding copy_row_def using fill_length[OF I(2), of "[0..<len]" "\<lambda>i. 0 + i" "\<lambda>i. src + i" q] sc lq by simp
    next
      case False
      define hd where "hd = total - src"
      have hd: "hd \<le> len" "0 < hd" using False src by (simp_all add: hd_def)
      have "ok (for_range 0 hd (\<lambda>i sc. rd q (src + i) \<bind> wr sc i) s) (\<lambda>s. length s = length sc)"
        using fill_length[OF I(2), of "[0..<hd]" "\<lambda>i. i" "\<lambda>i. src + i" q] hd sc lq src by (simp add: hd_def)
      then show ?thesis
        unfolding if_not_P[OF False] hd_def[symmetric] Let_def ok_bind
      proof (rule ok_mono)
        fix s' :: "u8 list" assume s': "length s' = length sc"
        show "ok (for_range hd len (\<lambda>i sc. rd q (i - hd) \<bind> wr sc i) s') (\<lambda>s. length s = length sc)"
        proof (rule fill_length[OF s'])
          fix i assume "i \<in> set [hd..<len]"
          then have "i < len" "i - hd < len" using hd by auto
          then show "i < length sc \<and> i - hd < length q" using sc lq rows by linarith
        qed
      qed
    qed
    then show ?thesis
      unfolding ok_bind
    proof (rule ok_mono)
      fix s0 :: "u8 list" assume s0: "length s0 = length sc"
      have "ok (bx_blend_row q (y * len) s0 0 len (bx_lanes x) (x_mix x)) (keeps (bx_lanes x) fb)"
        by (rule blend_row_keeps[OF I(1)])
           (use y s0 sc fb row_end[OF y, of len] in \<open>simp_all add: total_def mult.commute\<close>)
      then show "ok (bx_blend_row q (y * len) s0 0 len (bx_lanes x) (x_mix x)) (\<lambda>fb. ok (Some (fb, s0)) ?I)"
        by (rule ok_mono) (simp add: ok_simps s0)
    qed
  qed
  have "ok (bx_stride x b (fb, sc)) ?I"
    unfolding bx_stride_def Let_def len_def[symmetric] total_def[symmetric] if_not_P[OF pos[unfolded neq0_conv[symmetric]]]
  proof (rule for_list_inv)
    fix y and r :: mem assume y: "y \<in> set [0..<bb_rows b]" and I: "?I r"
    obtain q s where r: "r = (q, s)" by (cases r)
    define src where "src = y * (len + (amt x + 1 + rch x * 64)) mod 2 ^ 32 mod total"
    have src: "src < total" using pos by (simp add: src_def)
    show "ok (case r of (fb, sc) \<Rightarrow> if \<not> bx_on x y then Some (fb, sc)
        else do {
          sc \<leftarrow> (if y * (len + (amt x + 1 + rch x * 64)) mod 2 ^ 32 mod total + len \<le> total
                 then copy_row len fb (y * (len + (amt x + 1 + rch x * 64)) mod 2 ^ 32 mod total) sc 0
                 else do {
                   sc \<leftarrow> for_range 0 (total - y * (len + (amt x + 1 + rch x * 64)) mod 2 ^ 32 mod total)
                     (\<lambda>i sc. rd fb (y * (len + (amt x + 1 + rch x * 64)) mod 2 ^ 32 mod total + i) \<bind> wr sc i) sc;
                   for_range (total - y * (len + (amt x + 1 + rch x * 64)) mod 2 ^ 32 mod total) len
                     (\<lambda>i sc. rd fb (i - (total - y * (len + (amt x + 1 + rch x * 64)) mod 2 ^ 32 mod total)) \<bind> wr sc i) sc });
          fb \<leftarrow> bx_blend_row fb (y * len) sc 0 len (bx_lanes x) (x_mix x);
          Some (fb, sc) }) ?I"
      unfolding r prod.case src_def[symmetric]
      using row[unfolded Let_def, OF _ src, of y q s] y I r by (cases "bx_on x y") (simp_all only: if_True if_False not_True_eq_False not_False_eq_True ok_Some, simp_all)
  qed simp
  then show ?thesis by (auto simp: m safe_def elim: ok_mono)
qed

lemma echo_row_keeps:
  assumes I: "keeps (bx_lanes x) p q" and row: "y * len + len \<le> length p" and d: "d \<le> len"
    and half: "cur + len \<le> length sc" "prev + len \<le> length sc"
  shows "ok (echo_row x len d y sc cur prev hp q) (keeps (bx_lanes x) p)"
  unfolding echo_row_def
proof (rule keeps_loop[OF I])
  fix i r assume i: "i \<in> set [0..<len]" and J: "keeps (bx_lanes x) p r"
  have "y * len + i < length p" using i row by simp
  then have "ok (rd r (y * len + i) \<bind> (\<lambda>c. wr r (y * len + i) (bx_merge c v (bx_lanes x) (x_mix x)))) (keeps (bx_lanes x) p)" for v
    by (rule merge_at_ok[OF J])
  then show "ok (if d \<le> i then do {
       src \<leftarrow> rd sc (cur + (i - d)); c \<leftarrow> rd r (y * len + i);
       wr r (y * len + i) (bx_merge c src (bx_lanes x) (x_mix x)) }
     else if hp then do {
       src \<leftarrow> rd sc (prev + (len + i - d)); c \<leftarrow> rd r (y * len + i);
       wr r (y * len + i) (bx_merge c src (bx_lanes x) (x_mix x)) }
     else Some r) (keeps (bx_lanes x) p)"
    using i d half J by (cases hp) (simp_all add: ok_simps, auto)
qed

lemma bx_echo_safe:
  assumes "bx_room b m"
  shows "ok (bx_echo x b m) (safe x m)"
proof -
  obtain fb sc where m: "m = (fb, sc)" by (cases m)
  define len where "len = bb_rowlen b"
  have fb: "length fb = bb_rows b * len" and sc: "2 * len \<le> length sc"
    using assms by (simp_all add: bx_room_def m len_def)
  let ?I = "\<lambda>(q, s, cur, prev, hp :: bool). keeps (bx_lanes x) fb q \<and> length s = length sc \<and>
     cur + len \<le> length sc \<and> prev + len \<le> length sc"
  have step: "ok (do {
           s \<leftarrow> copy_row len q (y * len) s cur;
           q \<leftarrow> (if bx_on x y then echo_row x len d y s cur prev hp q else Some q);
           Some (q, s, prev, cur, True) }) ?I"
    if y: "y < bb_rows b" and I: "?I (q, s, cur, prev, hp)" and d: "d \<le> len" for y q s cur prev hp d
  proof -
    have row: "y * len + len \<le> length fb" using row_end[OF y, of len] fb by simp
    have "ok (copy_row len q (y * len) s cur) (\<lambda>s'. length s' = length sc)"
      unfolding copy_row_def
      using fill_length[of s "length sc" "[0..<len]" "\<lambda>i. cur + i" "\<lambda>i. y * len + i" q] I row
      by (simp add: keeps_def)
    then show ?thesis
      unfolding ok_bind
    proof (rule ok_mono)
      fix s' :: "u8 list" assume s': "length s' = length sc"
      have "ok (if bx_on x y then echo_row x len d y s' cur prev hp q else Some q) (keeps (bx_lanes x) fb)"
        using echo_row_keeps[of x fb q y len d cur s' prev hp] I row d s' by (simp add: ok_simps)
      then show "ok (if bx_on x y then echo_row x len d y s' cur prev hp q else Some q)
          (\<lambda>q. ok (Some (q, s', prev, cur, True)) ?I)"
        by (rule ok_mono) (use I s' in \<open>simp add: ok_simps\<close>)
    qed
  qed
  define d where "d = (if len < amt x + 1 + rch x * 64 then len else amt x + 1 + rch x * 64)"
  have d: "d \<le> len" by (simp add: d_def)
  have "ok (for_range 0 (bb_rows b) (\<lambda>y (fb, sc, cur, prev, have_prev). do {
           sc \<leftarrow> copy_row len fb (y * len) sc cur;
           fb \<leftarrow> (if bx_on x y then echo_row x len d y sc cur prev have_prev fb else Some fb);
           Some (fb, sc, prev, cur, True) }) (fb, sc, 0, len, False)) ?I"
  proof (rule for_list_inv)
    fix y and r :: "u8 list \<times> u8 list \<times> nat \<times> nat \<times> bool" assume "y \<in> set [0..<bb_rows b]" "?I r"
    then show "ok (case r of (fb, sc, cur, prev, have_prev) \<Rightarrow> do {
           sc \<leftarrow> copy_row len fb (y * len) sc cur;
           fb \<leftarrow> (if bx_on x y then echo_row x len d y sc cur prev have_prev fb else Some fb);
           Some (fb, sc, prev, cur, True) }) ?I"
      using step[OF _ _ d] by (cases r) simp
  qed (use sc in simp)
  then show ?thesis
    unfolding bx_echo_def m prod.case Let_def len_def[symmetric] d_def[symmetric] ok_map_option
    by (rule ok_mono) (auto simp: safe_def)
qed

end
