(* ===== verification/BxPixels.thy ===== *)
theory BxPixels
  imports BxBytes "HOL-Library.Multiset"
begin

text \<open>
  The pixel-domain effects of \<open>core/bendx.c\<close>: the drifting pixel clock, the shifted colour
  mosaic, the clamp that measures the wrong row, blooming and pixel sorting. They unpack every
  pixel with \<open>bendx_get\<close> and pack it with \<open>bendx_set\<close>, so they are verified against the
  contract of a pixel store: which pixel is replaced by which, and that nothing else changes.
\<close>

section \<open>The effects\<close>

subsection \<open>Clock, mosaic and clamp\<close>

definition clock_ratio :: "bendx_t \<Rightarrow> nat \<Rightarrow> nat" where
  "clock_ratio x y =
     (let err = (amt x + 1) * 128; period = 2 ^ (rch x + 2); pos = y mod period;
          pos = (if period div 2 \<le> pos then period - pos - 1 else pos)
      in 65536 + (err * pos * 2) mod 2 ^ 32 div (period div 2))"

definition bx_clock :: "bendx_t \<Rightarrow> bendx_buf_t \<Rightarrow> mem \<Rightarrow> mem option" where
  "bx_clock x b m =
     (let nb = bb_nbits b; msk = bx_planes x nb; len = bb_rowlen b; npix = bx_wholepix b in
      if npix = 0 then Some m
      else for_range 0 (bb_rows b) (\<lambda>y (fb, sc).
        if \<not> bx_on x y then Some (fb, sc)
        else do {
          sc \<leftarrow> copy_row len fb (y * len) sc 0;
          fb \<leftarrow> for_range 0 npix (\<lambda>i fb.
            let sx = (i * clock_ratio x y) mod 2 ^ 32 div 2 ^ 16 mod npix in do {
              v \<leftarrow> bendx_get sc 0 sx nb; old \<leftarrow> bendx_get sc 0 i nb;
              bendx_set fb (y * len) i (bx_mixv old v msk (x_mix x)) nb }) fb;
          Some (fb, sc) }) m)"

definition cfa_shift :: "bendx_t \<Rightarrow> nat \<times> nat" where
  "cfa_shift x = (let dx = amt x; dy = rch x in (if dx = 0 \<and> dy = 0 then 1 else dx, dy))"

definition bx_cfa :: "bendx_t \<Rightarrow> bendx_buf_t \<Rightarrow> mem \<Rightarrow> mem option" where
  "bx_cfa x b m =
     (let nb = bb_nbits b; msk = bx_planes x nb; len = bb_rowlen b; npix = bx_wholepix b;
          (dx, dy) = cfa_shift x in
      if npix = 0 \<or> bb_rows b = 0 then Some m
      else for_range 0 (bb_rows b) (\<lambda>y (fb, sc).
        let sy = y + dy in
        if \<not> bx_on x y then Some (fb, sc)
        else if bb_rows b \<le> sy then Some (fb, sc)
        else do {
          sc \<leftarrow> (if dy = 0 then copy_row len fb (y * len) sc 0 else Some sc);
          fb \<leftarrow> for_range 0 npix (\<lambda>i fb.
            let sx = (i + dx) mod npix in do {
              v \<leftarrow> (if dy = 0 then bendx_get sc 0 sx nb else bendx_get fb (sy * len) sx nb);
              old \<leftarrow> bendx_get fb (y * len) i nb;
              bendx_set fb (y * len) i (bx_mixv old v msk (x_mix x)) nb }) fb;
          Some (fb, sc) }) m)"

text \<open>\<open>d\<close> clipped to what the correction may leave.\<close>

definition clamp_px :: "u32 \<Rightarrow> int \<Rightarrow> u32 \<Rightarrow> u32" where
  "clamp_px white corr v =
     (let d = int (unat v) - corr; d = (if d < 0 then 0 else d);
          d = (if int (unat white) < d then int (unat white) else d) in word_of_int d)"

definition bx_clamp :: "bendx_t \<Rightarrow> bendx_buf_t \<Rightarrow> bendx_env_t \<Rightarrow> mem \<Rightarrow> mem option" where
  "bx_clamp x b env = (\<lambda>(fb, sc).
     (let nb = bb_nbits b; msk = bx_planes x nb; len = bb_rowlen b;
          vmax = push_bit nb 1 - 1;
          white = (if e_white env \<noteq> 0 then e_white env else vmax);
          gain = amt x + 1; away = (rch x + 1) * 8; npix = bx_wholepix b in
      if npix \<le> bb_ob_x b \<or> bb_rows b = 0 then Some (fb, sc)
      else let white = (if vmax < white then vmax else white) in do {
        fb \<leftarrow> for_range 0 (bb_rows b) (\<lambda>y fb.
          let oy = (y + away) mod bb_rows b in do {
          ob \<leftarrow> bendx_get fb (oy * len) (bb_ob_x b) nb;
          (if \<not> bx_on x y then Some fb
           else let corr = int (unat ob * gain div 8) - sint (e_black env) in
             for_range 0 npix (\<lambda>i fb. do {
               v \<leftarrow> bendx_get fb (y * len) i nb;
               bendx_set fb (y * len) i (bx_mixv v (clamp_px white corr v) msk (x_mix x)) nb }) fb) }) fb;
        Some (fb, sc) }))"

subsection \<open>Blooming\<close>

text \<open>The scratch as an array of 16 bit cells, least significant byte first.\<close>

definition rd16 :: "u8 list \<Rightarrow> nat \<Rightarrow> u32 option" where
  "rd16 s i = do { l \<leftarrow> rd s (2 * i); h \<leftarrow> rd s (2 * i + 1); Some (ucast l OR push_bit 8 (ucast h)) }"

definition wr16 :: "u8 list \<Rightarrow> nat \<Rightarrow> u32 \<Rightarrow> u8 list option" where
  "wr16 s i v = do { s \<leftarrow> wr s (2 * i) (ucast v); wr s (2 * i + 1) (ucast (drop_bit 8 v)) }"

text \<open>What the accumulator of a column does with the pixel, and what leaves the sensor.\<close>

definition bloom_acc :: "u32 \<Rightarrow> u32 \<Rightarrow> u32 \<Rightarrow> u32 \<Rightarrow> u32 \<Rightarrow> u32" where
  "bloom_acc vmax thr decay a v =
     (let a = (if thr < v then a + (v - thr) else drop_bit 8 (a * decay))
      in if vmax < a then vmax else a)"

definition bloom_out :: "u32 \<Rightarrow> u32 \<Rightarrow> u32 \<Rightarrow> u32" where
  "bloom_out vmax a v = (let p = v + a in if vmax < p then vmax else p)"

definition bloom_pixel :: "bendx_t \<Rightarrow> bendx_buf_t \<Rightarrow> u32 \<Rightarrow> u32 \<Rightarrow> nat \<Rightarrow> nat \<Rightarrow> mem \<Rightarrow> mem option" where
  "bloom_pixel x b thr decay y i = (\<lambda>(fb, sc).
     (let nb = bb_nbits b; vmax = push_bit nb 1 - 1; len = bb_rowlen b in do {
        v \<leftarrow> bendx_get fb (y * len) i nb;
        a \<leftarrow> rd16 sc i;
        let a = bloom_acc vmax thr decay a v;
        sc \<leftarrow> wr16 sc i (a AND 0xffff);
        (if \<not> bx_on x y then Some (fb, sc)
         else do {
           fb \<leftarrow> bendx_set fb (y * len) i
             (bx_mixv v (bloom_out vmax a v) (bx_planes x nb) (x_mix x)) nb;
           Some (fb, sc) }) }))"

definition bx_bloom :: "bendx_t \<Rightarrow> bendx_buf_t \<Rightarrow> mem \<Rightarrow> mem option" where
  "bx_bloom x b = (\<lambda>(fb, sc).
     (let npix = bx_wholepix b; vmax = push_bit (bb_nbits b) 1 - 1;
          thr = vmax - (vmax * ucast (x_amount x)) div 20;
          decay = 200 + ucast (x_reach x) * 3 in
      if npix = 0 then Some (fb, sc)
      else let decay = (if 255 < decay then 255 else decay) in do {
        sc \<leftarrow> for_range 0 npix (\<lambda>i sc. wr16 sc i 0) sc;
        for_range 0 (bb_rows b) (\<lambda>y. for_range 0 npix (bloom_pixel x b thr decay y)) (fb, sc) }))"

subsection \<open>Sorting\<close>

text \<open>\<open>while (i < npix && pixel i satisfies P) i += 2\<close>\<close>

function scan :: "(u32 \<Rightarrow> bool) \<Rightarrow> (nat \<Rightarrow> u32 option) \<Rightarrow> nat \<Rightarrow> nat \<Rightarrow> nat option" where
  "scan P px npix i =
     (if i < npix then px i \<bind> (\<lambda>v. if P v then scan P px npix (i + 2) else Some i) else Some i)"
  by pat_completeness auto
termination
  by (relation "measure (\<lambda>(P, px, npix, i). npix - i)") auto

declare scan.simps [simp del]

text \<open>\<open>for (i = i0; i < i1; i += 2)\<close>\<close>

definition every2 :: "nat \<Rightarrow> nat \<Rightarrow> nat list" where
  "every2 i0 i1 = map (\<lambda>k. i0 + 2 * k) [0..<(i1 - i0 + 1) div 2]"

definition tally :: "bendx_buf_t \<Rightarrow> nat \<Rightarrow> u8 list \<Rightarrow> nat \<Rightarrow> nat \<Rightarrow> u8 list \<Rightarrow> (u8 list \<times> u32 \<times> u32) option" where
  "tally b off fb i0 i1 sc =
     (let nb = bb_nbits b; vmax = push_bit nb 1 - 1 in
      for_list (every2 i0 i1) (\<lambda>i (sc, lo, hi). do {
        v \<leftarrow> bendx_get fb off i nb;
        c \<leftarrow> rd16 sc (unat v);
        sc \<leftarrow> wr16 sc (unat v) ((c + 1) AND 0xffff);
        Some (sc, if v < lo then v else lo, if hi < v then v else hi) }) (sc, vmax, 0))"

text \<open>\<open>while (hist[v]--) { ... w += 2; }\<close>\<close>

lemma rd16_wr16:
  assumes "wr16 s i v = Some s'"
  shows "rd16 s' i = Some (v AND 0xffff)"
proof -
  have r: "2 * i + 1 < length s" "s' = s[2 * i := ucast v, 2 * i + 1 := ucast (drop_bit 8 v)]"
    using assms by (auto simp: wr16_def wr_def split: if_splits)
  have ff: "(0xffff :: u32) = mask 16" by (simp add: mask_numeral)
  have "ucast (ucast v :: u8) OR push_bit 8 (ucast (ucast (drop_bit 8 v) :: u8)) = v AND (0xffff :: u32)"
    unfolding ff by (rule bit_eqI) (auto simp: bit_or_iff bit_and_iff bit_ucast_iff bit_push_bit_iff bit_drop_bit_eq bit_mask_iff)
  then show ?thesis using r by (simp add: rd16_def rd_def nth_list_update)
qed

function drain :: "bendx_t \<Rightarrow> bendx_buf_t \<Rightarrow> nat \<Rightarrow> nat \<Rightarrow> u8 list \<times> u8 list \<times> nat \<Rightarrow> (u8 list \<times> u8 list \<times> nat) option" where
  "drain x b off v (fb, sc, w) = do {
     c \<leftarrow> rd16 sc v;
     sc' \<leftarrow> wr16 sc v ((c - 1) AND 0xffff);
     if c = 0 then Some (fb, sc', w)
     else do {
       old \<leftarrow> bendx_get fb off w (bb_nbits b);
       fb' \<leftarrow> bendx_set fb off w (bx_mixv old (word_of_nat v) (bx_planes x (bb_nbits b)) (x_mix x)) (bb_nbits b);
       drain x b off v (fb', sc', w + 2) } }"
  by pat_completeness auto
termination
proof (relation "measure (\<lambda>(x, b, off, v, fb, sc, w). case rd16 sc v of Some c \<Rightarrow> unat c | None \<Rightarrow> 0)")
  fix x b off v fb sc w c sc' old fb'
  assume c: "rd16 sc v = Some c" "c \<noteq> 0" and sc': "wr16 sc v ((c - 1) AND 0xffff) = Some sc'"
  have "unat ((c - 1) AND 0xffff) \<le> unat (c - 1)"
    by (simp add: word_and_le2 word_le_nat_alt[symmetric])
  also have "unat (c - 1) < unat c" using c(2) unat_eq_zero[of c] by (simp add: unat_minus_one)
  finally have "unat ((c - 1) AND 0xffff AND 0xffff) < unat c" by (simp add: and.assoc)
  then show "((x, b, off, v, fb', sc', w + 2), x, b, off, v, fb, sc, w) \<in>
      measure (\<lambda>(x, b, off, v, fb, sc, w). case rd16 sc v of Some c \<Rightarrow> unat c | None \<Rightarrow> 0)"
    using c(1) rd16_wr16[OF sc'] by simp
qed simp

declare drain.simps [simp del]

definition sort_run :: "bendx_t \<Rightarrow> bendx_buf_t \<Rightarrow> nat \<Rightarrow> nat \<Rightarrow> nat \<Rightarrow> mem \<Rightarrow> mem option" where
  "sort_run x b off i0 i1 = (\<lambda>(fb, sc). do {
     (sc, lo, hi) \<leftarrow> tally b off fb i0 i1 sc;
     (fb, sc, w) \<leftarrow> for_list (if x_reach x \<ge> 8 then rev [unat lo..<unat hi + 1] else [unat lo..<unat hi + 1])
       (drain x b off) (fb, sc, i0);
     sc \<leftarrow> for_range (unat lo) (unat hi + 1) (\<lambda>v sc. wr16 sc v 0) sc;
     Some (fb, sc) })"

lemma scan_ge: "scan P px npix i = Some j \<Longrightarrow> i \<le> j"
proof (induction P px npix i rule: scan.induct)
  case (1 P px npix i)
  then show ?case
    by (cases "px i") (auto simp: scan.simps[of P px npix i] split: if_splits dest: Suc_leD)
qed

function sort_phase :: "bendx_t \<Rightarrow> bendx_buf_t \<Rightarrow> u32 \<Rightarrow> nat \<Rightarrow> nat \<Rightarrow> mem \<Rightarrow> mem option" where
  "sort_phase x b thr off i0 m =
     (let npix = bx_wholepix b; nb = bb_nbits b; minrun = (unat (x_reach x AND 7) + 1) * 8;
          px = (\<lambda>i. bendx_get (fst m) off i nb) in
      if i0 < npix then do {
        i0 \<leftarrow> scan (\<lambda>v. v \<le> thr) px npix i0;
        (if npix \<le> i0 then Some m
         else do {
           i1 \<leftarrow> scan (\<lambda>v. thr < v) px npix i0;
           (if (i1 - i0) div 2 < minrun then sort_phase x b thr off (i1 + 2) m
            else sort_run x b off i0 i1 m \<bind> sort_phase x b thr off (i1 + 2)) }) }
      else Some m)"
  by pat_completeness auto
termination
proof (relation "measure (\<lambda>(x, b, thr, off, i0, m). bx_wholepix b - i0)", goal_cases)
  case 1 show ?case by simp
next
  case (2 x b thr off i0 m npix nb mr px j j1)
  then show ?case by (auto dest!: scan_ge)
next
  case (3 x b thr off i0 m npix nb mr px j j1 m')
  then show ?case by (auto dest!: scan_ge)
qed

declare sort_phase.simps [simp del]

definition sort_buckets :: nat where "sort_buckets = 4096"

definition bx_sort :: "bendx_t \<Rightarrow> bendx_buf_t \<Rightarrow> mem \<Rightarrow> mem option" where
  "bx_sort x b = (\<lambda>(fb, sc).
     (let vmax = push_bit (bb_nbits b) 1 - 1; thr = (vmax * ucast (x_amount x)) div 18 in
      if bx_wholepix b < 4 then Some (fb, sc)
      else do {
        sc \<leftarrow> for_range 0 sort_buckets (\<lambda>i sc. wr16 sc i 0) sc;
        for_range 0 (bb_rows b) (\<lambda>y m.
          if \<not> bx_on x y then Some m
          else for_range 0 2 (\<lambda>phase. sort_phase x b thr (y * bb_rowlen b) phase) m) (fb, sc) }))"

section \<open>The frame as a store of pixels\<close>

text \<open>
  A geometry whose pixel groups fit its rows: what \<open>raw_rowpix\<close> and \<open>raw_rowlen\<close> of every
  camera satisfy, and what the accessors rely on.
\<close>

definition px_wf :: "bendx_buf_t \<Rightarrow> bool" where
  [wf_defs]: "px_wf b \<longleftrightarrow> depth_ok (bb_nbits b) \<and>
     bb_rowpix b div bx_gpix (bb_nbits b) * bx_gsz (bb_nbits b) \<le> bb_rowlen b"

definition pget :: "bendx_buf_t \<Rightarrow> u8 list \<Rightarrow> nat \<times> nat \<Rightarrow> u32 option" where
  "pget b fb = (\<lambda>(y, i). bendx_get fb (y * bb_rowlen b) i (bb_nbits b))"

definition pput :: "bendx_buf_t \<Rightarrow> u8 list \<Rightarrow> nat \<times> nat \<Rightarrow> u32 \<Rightarrow> u8 list option" where
  "pput b fb = (\<lambda>(y, i) v. bendx_set fb (y * bb_rowlen b) i v (bb_nbits b))"

definition pin :: "bendx_buf_t \<Rightarrow> u8 list \<Rightarrow> nat \<times> nat \<Rightarrow> bool" where
  "pin b fb = (\<lambda>(y, i). length fb = bb_rows b * bb_rowlen b \<and> y < bb_rows b \<and> i < bx_wholepix b)"

lemma depth_le_32 [simp]: "depth_ok nb \<Longrightarrow> nb < 32"
  by auto

lemma wholepix_groups: "bx_wholepix b = bb_rowpix b div bx_gpix (bb_nbits b) * bx_gpix (bb_nbits b)"
  by (simp add: bx_wholepix_def minus_mod_eq_div_mult)

lemma whole_room:
  assumes "px_wf b" "i < bx_wholepix b"
  shows "(i div bx_gpix (bb_nbits b) + 1) * bx_gsz (bb_nbits b) \<le> bb_rowlen b"
proof -
  have "i div bx_gpix (bb_nbits b) < bb_rowpix b div bx_gpix (bb_nbits b)"
    using assms(2) by (simp add: wholepix_groups less_mult_imp_div_less)
  then have "(i div bx_gpix (bb_nbits b) + 1) * bx_gsz (bb_nbits b) \<le>
      bb_rowpix b div bx_gpix (bb_nbits b) * bx_gsz (bb_nbits b)"
    by (intro mult_le_mono1) simp
  then show ?thesis using assms(1) by (simp add: px_wf_def)
qed

lemma pin_room:
  assumes "px_wf b" "pin b fb (y, i)"
  shows "px_room fb (y * bb_rowlen b) i (bb_nbits b)"
  using whole_room[OF assms(1), of i] assms(2) row_end[of y "bb_rows b" "bb_rowlen b"]
  by (simp add: px_room_def pin_def)

lemma scratch_room:
  assumes "px_wf b" "i < bx_wholepix b" "bb_rowlen b \<le> length sc"
  shows "px_room sc 0 i (bb_nbits b)"
  using whole_room[OF assms(1,2)] assms(3) by (simp add: px_room_def)

text \<open>A write touches the group of its pixel only; a read depends on it only.\<close>

lemma bendx_set_outside:
  assumes nb: "depth_ok nb" and room: "px_room p off x nb" and v: "fits nb v" and q: "bendx_set p off x v nb = Some q"
    and k: "k < off + x div bx_gpix nb * bx_gsz nb \<or> off + (x div bx_gpix nb + 1) * bx_gsz nb \<le> k"
  shows "q ! k = p ! k"
proof -
  have "bit (q ! k) m = bit (p ! k) m" if "m < 8" for m
  proof -
    have "(k, m) \<noteq> (off + fst (pix_loc nb x n), snd (pix_loc nb x n))" if "n < nb" for n
      using pix_loc_bounds(1)[OF nb that, of x] k by (auto simp: pix_loc_def Let_def split_beta)
    then show ?thesis using bendx_set_bits[OF nb room v] q that by auto
  qed
  then show ?thesis by (intro bit_word_eqI) simp
qed

lemma bendx_get_cong:
  assumes nb: "depth_ok nb" and room: "px_room p off x nb" "px_room q off' x nb"
    and same: "\<And>k. k < (x div bx_gpix nb + 1) * bx_gsz nb \<Longrightarrow> p ! (off + k) = q ! (off' + k)"
  shows "bendx_get p off x nb = bendx_get q off' x nb"
proof -
  obtain v w where v: "bendx_get p off x nb = Some v" "px_bits p off x nb v"
    and w: "bendx_get q off' x nb = Some w" "px_bits q off' x nb w"
    using bendx_get_bits[OF nb] room by meson
  have "px_bits p off x nb w"
    using w(2) same[OF pix_loc_bounds(1)[OF nb]] by (auto simp: px_bits_def)
  then show ?thesis using v w px_bits_unique by metis
qed

lemma frame_store:
  assumes wf: "px_wf b"
  shows "pixel_store (pget b) (pput b) (pin b) (bb_nbits b)"
proof
  have nb: "depth_ok (bb_nbits b)" using wf by (simp add: px_wf_def)
  note row = bendx_pixel_store[OF nb]
  fix p q :: "u8 list" and s t :: "nat \<times> nat" and v
  obtain y i z j where st: "s = (y, i)" "t = (z, j)" by (cases s, cases t)
  show "length p = length q \<Longrightarrow> pin b p s = pin b q s"
    by (simp add: pin_def st)
  show "pin b p s \<Longrightarrow> ok (pget b p s) (fits (bb_nbits b))"
    using pixel_store.get_ok[OF row pin_room[OF wf]] by (simp add: st pget_def)
  show "\<lbrakk>pin b p s; fits (bb_nbits b) v\<rbrakk> \<Longrightarrow> ok (pput b p s v) (\<lambda>q. length q = length p \<and> pget b q s = Some v)"
    using pixel_store.put_ok[OF row pin_room[OF wf]] by (simp add: st pget_def pput_def)
  show "pget b q t = pget b p t"
    if s: "pin b p s" and t: "pin b p t" and ne: "s \<noteq> t" and v: "fits (bb_nbits b) v" and q: "pput b p s v = Some q"
  proof (cases "y = z")
    case True
    then show ?thesis
      using pixel_store.put_other[OF row pin_room[OF wf] pin_room[OF wf] _ v, of p y i j q] s t ne q
      by (simp add: st pget_def pput_def)
  next
    case False
    let ?len = "bb_rowlen b" and ?nb = "bb_nbits b"
    have set: "bendx_set p (y * ?len) i v ?nb = Some q" using q by (simp add: pput_def st)
    have rs: "px_room p (y * ?len) i ?nb" and rt: "px_room p (z * ?len) j ?nb"
      using pin_room[OF wf] s t by (simp_all add: st)
    have len: "length q = length p" using pixel_store.put_ok[OF row rs v] set by (simp add: ok_def)
    have gi: "(i div bx_gpix ?nb + 1) * bx_gsz ?nb \<le> ?len" and gj: "(j div bx_gpix ?nb + 1) * bx_gsz ?nb \<le> ?len"
      using whole_room[OF wf] s t by (simp_all add: pin_def st)
    have "bendx_get q (z * ?len) j ?nb = bendx_get p (z * ?len) j ?nb"
    proof (rule bendx_get_cong[OF nb _ rt])
      show "px_room q (z * ?len) j ?nb" using rt len px_room_length by blast
      fix k assume k: "k < (j div bx_gpix ?nb + 1) * bx_gsz ?nb"
      have "z * ?len + ?len \<le> y * ?len \<or> y * ?len + ?len \<le> z * ?len"
        using False row_end[of z y ?len] row_end[of y z ?len] by (cases "z < y") auto
      then show "q ! (z * ?len + k) = p ! (z * ?len + k)"
        using k gi gj by (intro bendx_set_outside[OF nb rs v set]) linarith
    qed
    then show ?thesis by (simp add: pget_def st)
  qed
qed

lemmas frame_get = pixel_store.get_ok[OF frame_store]
lemmas frame_put = pixel_store.put_ok[OF frame_store]
lemmas frame_other = pixel_store.put_other[OF frame_store]

text \<open>The counters of the scratch satisfy the same contract, at a depth of 16 bits.\<close>

definition room16 :: "u8 list \<Rightarrow> nat \<Rightarrow> bool" where
  "room16 s i \<longleftrightarrow> 2 * i + 1 < length s"

lemma fits_and16:
  assumes "fits 16 v"
  shows "v AND 0xffff = v"
proof (rule bit_eqI)
  fix n
  have ff: "(0xffff :: u32) = mask 16" by (simp add: mask_numeral)
  show "bit (v AND 0xffff) n \<longleftrightarrow> bit v n" using assms by (auto simp: ff bit_and_iff bit_mask_iff fits_def)
qed

interpretation cell16: pixel_store rd16 wr16 room16 16
proof
  fix p q :: "u8 list" and x y :: nat and v :: u32
  show "length p = length q \<Longrightarrow> room16 p x = room16 q x"
    by (simp add: room16_def)
  have "fits 16 (ucast l OR push_bit 8 (ucast h))" for l h :: u8
    by (auto simp: fits_def bit_or_iff bit_ucast_iff bit_push_bit_iff dest: bit_u8_less)
  then show "room16 p x \<Longrightarrow> ok (rd16 p x) (fits 16)"
    by (simp add: room16_def rd16_def ok_simps)
  show "ok (wr16 p x v) (\<lambda>q. length q = length p \<and> rd16 q x = Some v)"
    if r: "room16 p x" and v: "fits 16 v"
  proof -
    have "v AND 0xffff = v" using v by (rule fits_and16)
    moreover obtain s where "wr16 p x v = Some s" "length s = length p"
      using r by (auto simp: room16_def wr16_def wr_def)
    ultimately show ?thesis using rd16_wr16[of p x v s] by (simp add: ok_simps)
  qed
  show "rd16 q y = rd16 p y" if "room16 p x" "room16 p y" "x \<noteq> y" "fits 16 v" "wr16 p x v = Some q"
    using that by (auto simp: room16_def wr16_def wr_def rd16_def rd_def nth_list_update split: if_splits)
qed

section \<open>Row passes over pixels\<close>

lemma pget_some:
  assumes "px_wf b" "pin b fb s"
  obtains v where "pget b fb s = Some v" "fits (bb_nbits b) v"
  using frame_get[OF assms] by (auto simp: ok_def)

lemma row_fill:
  assumes wf: "px_wf b" and fb: "length fb = bb_rows b * bb_rowlen b" and y: "y < bb_rows b"
    and V: "\<And>i. i < bx_wholepix b \<Longrightarrow> fits (bb_nbits b) (V i)"
    and step: "\<And>i q. \<lbrakk>i < bx_wholepix b; length q = length fb;
      \<And>z j. \<lbrakk>z < bb_rows b; j < bx_wholepix b; z \<noteq> y \<or> i \<le> j\<rbrakk> \<Longrightarrow> pget b q (z, j) = pget b fb (z, j)\<rbrakk> \<Longrightarrow>
      f i q = pput b q (y, i) (V i)"
  shows "ok (for_range 0 (bx_wholepix b) f fb) (\<lambda>q. length q = length fb \<and>
    (\<forall>z<bb_rows b. \<forall>j<bx_wholepix b. pget b q (z, j) = (if z = y then Some (V j) else pget b fb (z, j))))"
proof (rule for_range_post[where I = "\<lambda>i q. length q = length fb \<and>
    (\<forall>z<bb_rows b. \<forall>j<bx_wholepix b. pget b q (z, j) = (if z = y \<and> j < i then Some (V j) else pget b fb (z, j)))"])
  fix i q
  assume i: "0 \<le> i" "i < bx_wholepix b" and I: "length q = length fb \<and>
    (\<forall>z<bb_rows b. \<forall>j<bx_wholepix b. pget b q (z, j) = (if z = y \<and> j < i then Some (V j) else pget b fb (z, j)))"
  have pin: "pin b q (z, j)" if "z < bb_rows b" "j < bx_wholepix b" for z j
    using I fb that by (simp add: pin_def)
  have f: "f i q = pput b q (y, i) (V i)" using I i(2) by (intro step) auto
  obtain r where r: "pput b q (y, i) (V i) = Some r" "length r = length q" "pget b r (y, i) = Some (V i)"
    using frame_put[OF wf pin[OF y i(2)] V[OF i(2)]] by (auto simp: ok_def)
  have "pget b r (z, j) = pget b q (z, j)" if "(z, j) \<noteq> (y, i)" "z < bb_rows b" "j < bx_wholepix b" for z j
    using frame_other[OF wf pin[OF y i(2)] pin[OF that(2,3)] _ V[OF i(2)] r(1)] that(1) by metis
  then have "pget b r (z, j) = (if z = y \<and> j < Suc i then Some (V j) else pget b fb (z, j))"
    if "z < bb_rows b" "j < bx_wholepix b" for z j
    using that I r(3) by (cases "(z, j) = (y, i)") auto
  then show "ok (f i q) (\<lambda>q. length q = length fb \<and>
      (\<forall>z<bb_rows b. \<forall>j<bx_wholepix b. pget b q (z, j) = (if z = y \<and> j < Suc i then Some (V j) else pget b fb (z, j))))"
    using I r(2) by (simp add: f r(1) ok_simps)
qed auto

text \<open>Rows rewritten in order, each from the old contents of rows not above it.\<close>

definition rows_set :: "bendx_buf_t \<Rightarrow> (nat \<Rightarrow> nat \<Rightarrow> u32 option) \<Rightarrow> mem \<Rightarrow> mem \<Rightarrow> bool" where
  "rows_set b R m m' \<longleftrightarrow> length (fst m') = length (fst m) \<and> length (snd m') = length (snd m) \<and>
     (\<forall>y<bb_rows b. \<forall>i<bx_wholepix b. pget b (fst m') (y, i) = R y i)"

lemma pixel_rows:
  assumes step: "\<And>y m'. \<lbrakk>y < bb_rows b; length (fst m') = length (fst m); length (snd m') = length (snd m);
      \<And>z i. \<lbrakk>z < bb_rows b; i < bx_wholepix b; y \<le> z\<rbrakk> \<Longrightarrow> pget b (fst m') (z, i) = pget b (fst m) (z, i)\<rbrakk> \<Longrightarrow>
      ok (body y m') (rows_set b (\<lambda>z i. if z = y then R y i else pget b (fst m') (z, i)) m')"
  shows "ok (for_range 0 (bb_rows b) body m) (rows_set b R m)"
proof (rule for_range_post[where I = "\<lambda>y. rows_set b (\<lambda>z i. if z < y then R z i else pget b (fst m) (z, i)) m"])
  fix y m'
  assume y: "0 \<le> y" "y < bb_rows b" and I: "rows_set b (\<lambda>z i. if z < y then R z i else pget b (fst m) (z, i)) m m'"
  have "ok (body y m') (rows_set b (\<lambda>z i. if z = y then R y i else pget b (fst m') (z, i)) m')"
    using y I by (intro step) (auto simp: rows_set_def)
  then show "ok (body y m') (rows_set b (\<lambda>z i. if z < Suc y then R z i else pget b (fst m) (z, i)) m)"
    by (rule ok_mono) (use I in \<open>auto simp: rows_set_def less_Suc_eq\<close>)
qed (auto simp: rows_set_def)

subsection \<open>The drifting clock\<close>

definition clock_src :: "bendx_t \<Rightarrow> bendx_buf_t \<Rightarrow> nat \<Rightarrow> nat \<Rightarrow> nat" where
  "clock_src x b y i = (i * clock_ratio x y) mod 2 ^ 32 div 2 ^ 16 mod bx_wholepix b"

text \<open>A pixel mixed with another one.\<close>

definition mixed :: "bendx_t \<Rightarrow> bendx_buf_t \<Rightarrow> u32 option \<Rightarrow> u32 option \<Rightarrow> u32 option" where
  "mixed x b old v = do { old \<leftarrow> old; v \<leftarrow> v; Some (bx_mixv old v (bx_planes x (bb_nbits b)) (x_mix x)) }"

lemma mixed_some:
  assumes "depth_ok (bb_nbits b)" "fits (bb_nbits b) u"
  shows "mixed x b (Some u) (Some v) = Some (bx_mixv u v (bx_planes x (bb_nbits b)) (x_mix x))"
    "fits (bb_nbits b) (bx_mixv u v (bx_planes x (bb_nbits b)) (x_mix x))"
  using assms by (simp_all add: mixed_def mixv_fits)

text \<open>A row rewritten pixel by pixel from a copy of it in the scratch.\<close>

lemma copied_row:
  assumes wf: "px_wf b" and room: "bx_room b (fb, sc)" and y: "y < bb_rows b"
  shows "ok (copy_row (bb_rowlen b) fb (y * bb_rowlen b) sc 0) (\<lambda>sc'. length sc' = length sc \<and>
    (\<forall>i<bx_wholepix b. bendx_get sc' 0 i (bb_nbits b) = pget b fb (y, i)))"
proof -
  let ?len = "bb_rowlen b"
  have nb: "depth_ok (bb_nbits b)" using wf by (simp add: px_wf_def)
  have fb: "length fb = bb_rows b * ?len" and sc: "2 * ?len \<le> length sc"
    using room by (simp_all add: bx_room_def)
  show ?thesis
  proof (rule ok_mono[OF copy_row_spec])
    show "y * ?len + ?len \<le> length fb" using row_end[OF y] fb by simp
    show "0 + ?len \<le> length sc" using sc by simp
    fix sc' assume sc': "length sc' = length sc \<and>
      (\<forall>k. sc' ! k = (if 0 \<le> k \<and> k < 0 + ?len then fb ! (y * ?len + (k - 0)) else sc ! k))"
    have "bendx_get sc' 0 i (bb_nbits b) = pget b fb (y, i)" if i: "i < bx_wholepix b" for i
    proof -
      have "bendx_get sc' 0 i (bb_nbits b) = bendx_get fb (y * ?len) i (bb_nbits b)"
      proof (rule bendx_get_cong[OF nb])
        show "px_room sc' 0 i (bb_nbits b)" using scratch_room[OF wf i] sc sc' by simp
        show "px_room fb (y * ?len) i (bb_nbits b)" using pin_room[OF wf] fb y i by (simp add: pin_def)
        fix k assume "k < (i div bx_gpix (bb_nbits b) + 1) * bx_gsz (bb_nbits b)"
        then have "k < ?len" using whole_room[OF wf i] by linarith
        then show "sc' ! (0 + k) = fb ! (y * ?len + k)" using sc' by simp
      qed
      then show ?thesis by (simp add: pget_def)
    qed
    with sc' show "length sc' = length sc \<and>
      (\<forall>i<bx_wholepix b. bendx_get sc' 0 i (bb_nbits b) = pget b fb (y, i))" by blast
  qed
qed

text \<open>
  A row each of whose pixels is mixed with the old value of a pixel at \<open>S i\<close> of row \<open>z\<close>, as long
  as the body reads old values.
\<close>

lemma mix_row:
  assumes wf: "px_wf b" and fb: "length fb = bb_rows b * bb_rowlen b" and y: "y < bb_rows b" and t: "t < bb_rows b"
    and src: "\<And>i. i < bx_wholepix b \<Longrightarrow> S i < bx_wholepix b"
    and body: "\<And>i q u v. \<lbrakk>i < bx_wholepix b; length q = length fb;
      \<And>z j. \<lbrakk>z < bb_rows b; j < bx_wholepix b; z \<noteq> y \<or> i \<le> j\<rbrakk> \<Longrightarrow> pget b q (z, j) = pget b fb (z, j);
      pget b fb (y, i) = Some u; pget b fb (t, S i) = Some v\<rbrakk> \<Longrightarrow>
      f i q = pput b q (y, i) (bx_mixv u v (bx_planes x (bb_nbits b)) (x_mix x))"
  shows "ok (for_range 0 (bx_wholepix b) f fb) (\<lambda>q. rows_set b (\<lambda>z i.
    if z = y then mixed x b (pget b fb (y, i)) (pget b fb (t, S i)) else pget b fb (z, i)) (fb, sc) (q, sc))"
proof -
  have nb: "depth_ok (bb_nbits b)" using wf by (simp add: px_wf_def)
  have pin: "pin b fb (z, i)" if "z < bb_rows b" "i < bx_wholepix b" for z i using that fb by (simp add: pin_def)
  define V where "V = (\<lambda>i. the (mixed x b (pget b fb (y, i)) (pget b fb (t, S i))))"
  have V: "mixed x b (pget b fb (y, i)) (pget b fb (t, S i)) = Some (V i) \<and> fits (bb_nbits b) (V i) \<and>
      (\<exists>u v. pget b fb (y, i) = Some u \<and> pget b fb (t, S i) = Some v \<and>
         V i = bx_mixv u v (bx_planes x (bb_nbits b)) (x_mix x))" if i: "i < bx_wholepix b" for i
  proof -
    obtain u where u: "pget b fb (y, i) = Some u" "fits (bb_nbits b) u" using pget_some[OF wf pin[OF y i]] .
    obtain v where v: "pget b fb (t, S i) = Some v" using pget_some[OF wf pin[OF t src[OF i]]] .
    show ?thesis using mixed_some[OF nb u(2)] by (simp add: V_def u v)
  qed
  have "ok (for_range 0 (bx_wholepix b) f fb)
    (\<lambda>q. length q = length fb \<and>
      (\<forall>z<bb_rows b. \<forall>j<bx_wholepix b. pget b q (z, j) = (if z = y then Some (V j) else pget b fb (z, j))))"
  proof (rule row_fill[OF wf fb y])
    fix i q assume i: "i < bx_wholepix b"
    then show "fits (bb_nbits b) (V i)" using V by blast
    assume "length q = length fb"
      "\<And>z j. \<lbrakk>z < bb_rows b; j < bx_wholepix b; z \<noteq> y \<or> i \<le> j\<rbrakk> \<Longrightarrow> pget b q (z, j) = pget b fb (z, j)"
    then show "f i q = pput b q (y, i) (V i)"
      using V[OF i] body[OF i, of q] by auto
  qed
  then show ?thesis
    by (rule ok_mono) (use V in \<open>auto simp: rows_set_def\<close>)
qed

lemma clock_row:
  assumes wf: "px_wf b" and room: "bx_room b (fb, sc)" and y: "y < bb_rows b"
    and src: "\<And>i. i < bx_wholepix b \<Longrightarrow> S i < bx_wholepix b"
  shows "ok (do {
          sc \<leftarrow> copy_row (bb_rowlen b) fb (y * bb_rowlen b) sc 0;
          fb \<leftarrow> for_range 0 (bx_wholepix b) (\<lambda>i fb. do {
              v \<leftarrow> bendx_get sc 0 (S i) (bb_nbits b); old \<leftarrow> bendx_get sc 0 i (bb_nbits b);
              bendx_set fb (y * bb_rowlen b) i (bx_mixv old v (bx_planes x (bb_nbits b)) (x_mix x)) (bb_nbits b) }) fb;
          Some (fb, sc) })
    (rows_set b (\<lambda>z i. if z = y then mixed x b (pget b fb (y, i)) (pget b fb (y, S i)) else pget b fb (z, i)) (fb, sc))"
  unfolding ok_bind
proof (rule ok_mono[OF copied_row[OF wf room y]])
  have fb: "length fb = bb_rows b * bb_rowlen b" using room by (simp add: bx_room_def)
  fix sc' assume sc': "length sc' = length sc \<and> (\<forall>i<bx_wholepix b. bendx_get sc' 0 i (bb_nbits b) = pget b fb (y, i))"
  show "ok (for_range 0 (bx_wholepix b) (\<lambda>i fb. bendx_get sc' 0 (S i) (bb_nbits b) \<bind> (\<lambda>v. bendx_get sc' 0 i (bb_nbits b) \<bind>
        (\<lambda>old. bendx_set fb (y * bb_rowlen b) i (bx_mixv old v (bx_planes x (bb_nbits b)) (x_mix x)) (bb_nbits b)))) fb)
      (\<lambda>q. ok (Some (q, sc')) (rows_set b (\<lambda>z i. if z = y then mixed x b (pget b fb (y, i)) (pget b fb (y, S i))
        else pget b fb (z, i)) (fb, sc)))"
    by (rule ok_mono[OF mix_row[OF wf fb y y src]]) (use sc' src in \<open>auto simp: ok_simps rows_set_def pput_def\<close>)
qed

lemma bx_clock_sets:
  assumes wf: "px_wf b" and room: "bx_room b m"
  shows "ok (bx_clock x b m) (rows_set b (\<lambda>y i. if bx_on x y
    then mixed x b (pget b (fst m) (y, i)) (pget b (fst m) (y, clock_src x b y i))
    else pget b (fst m) (y, i)) m)"
proof (cases "bx_wholepix b = 0")
  case True
  then show ?thesis by (simp add: bx_clock_def Let_def ok_simps rows_set_def)
next
  case False
  have src: "clock_src x b y i < bx_wholepix b" for y i using False by (simp add: clock_src_def)
  show ?thesis
    unfolding bx_clock_def Let_def if_not_P[OF False] clock_src_def[symmetric]
  proof (rule pixel_rows, goal_cases)
    case (1 y m')
    obtain fb sc where m': "m' = (fb, sc)" by (cases m')
    have room': "bx_room b (fb, sc)" using 1 room by (simp add: m' bx_room_def)
    show ?case
    proof (cases "bx_on x y")
      case False
      then show ?thesis using 1 by (auto simp: m' ok_simps rows_set_def)
    next
      case True
      show ?thesis
        unfolding m' prod.case using True
        apply (simp only: if_False not_True_eq_False)
        apply (rule ok_mono[OF clock_row[OF wf room' 1(1) src]])
        using 1 by (auto simp: m' rows_set_def src)
    qed
  qed
qed

subsection \<open>The shifted mosaic\<close>

lemma bx_cfa_sets:
  assumes wf: "px_wf b" and room: "bx_room b m" and shift: "cfa_shift x = (dx, dy)"
  shows "ok (bx_cfa x b m) (rows_set b (\<lambda>y i. if bx_on x y \<and> y + dy < bb_rows b
    then mixed x b (pget b (fst m) (y, i)) (pget b (fst m) (y + dy, (i + dx) mod bx_wholepix b))
    else pget b (fst m) (y, i)) m)"
proof (cases "bx_wholepix b = 0 \<or> bb_rows b = 0")
  case True
  then show ?thesis by (auto simp: bx_cfa_def Let_def ok_simps rows_set_def shift)
next
  case False
  have src: "(i + dx) mod bx_wholepix b < bx_wholepix b" for i using False by simp
  show ?thesis
    unfolding bx_cfa_def Let_def shift prod.case if_not_P[OF False]
  proof (rule pixel_rows, goal_cases)
    case (1 y m')
    obtain fb sc where m': "m' = (fb, sc)" by (cases m')
    have room': "bx_room b (fb, sc)" using 1 room by (simp add: m' bx_room_def)
    have fb: "length fb = bb_rows b * bb_rowlen b" using room' by (simp add: bx_room_def)
    have old: "pget b fb (z, i) = pget b (fst m) (z, i)" if "z < bb_rows b" "i < bx_wholepix b" "y \<le> z" for z i
      using 1(4)[OF that] by (simp add: m')
    let ?R = "\<lambda>z i. if z = y then if bx_on x y \<and> y + dy < bb_rows b
        then mixed x b (pget b (fst m) (y, i)) (pget b (fst m) (y + dy, (i + dx) mod bx_wholepix b))
        else pget b (fst m) (y, i) else pget b (fst m') (z, i)"
    show ?case
    proof (cases "bx_on x y \<and> y + dy < bb_rows b")
      case False
      then show ?thesis using 1 by (auto simp: m' ok_simps rows_set_def)
    next
      case on: True
      let ?body = "\<lambda>rdv. for_range 0 (bx_wholepix b) (\<lambda>i fb. do {
              v \<leftarrow> rdv i fb; old \<leftarrow> bendx_get fb (y * bb_rowlen b) i (bb_nbits b);
              bendx_set fb (y * bb_rowlen b) i (bx_mixv old v (bx_planes x (bb_nbits b)) (x_mix x)) (bb_nbits b) }) fb"
      have row: "ok (?body rdv) (\<lambda>q. rows_set b ?R (fb, sc) (q, sc))"
        if rdv: "\<And>i q. \<lbrakk>i < bx_wholepix b;
          \<And>z j. \<lbrakk>z < bb_rows b; j < bx_wholepix b; z \<noteq> y \<or> i \<le> j\<rbrakk> \<Longrightarrow> pget b q (z, j) = pget b fb (z, j)\<rbrakk> \<Longrightarrow>
          rdv i q = pget b fb (y + dy, (i + dx) mod bx_wholepix b)" for rdv
      proof (rule ok_mono[OF mix_row[OF wf fb 1(1) conjunct2[OF on] src]])
        fix i q u v assume i: "i < bx_wholepix b"
          and q: "\<And>z j. \<lbrakk>z < bb_rows b; j < bx_wholepix b; z \<noteq> y \<or> i \<le> j\<rbrakk> \<Longrightarrow> pget b q (z, j) = pget b fb (z, j)"
          and u: "pget b fb (y, i) = Some u" and v: "pget b fb (y + dy, (i + dx) mod bx_wholepix b) = Some v"
        have "bendx_get q (y * bb_rowlen b) i (bb_nbits b) = Some u" using q[OF 1(1) i] u by (simp add: pget_def)
        moreover have "rdv i q = Some v" using rdv[OF i q] v by simp
        ultimately show "rdv i q \<bind> (\<lambda>v. bendx_get q (y * bb_rowlen b) i (bb_nbits b) \<bind> (\<lambda>old. bendx_set q (y * bb_rowlen b) i
              (bx_mixv old v (bx_planes x (bb_nbits b)) (x_mix x)) (bb_nbits b))) =
            pput b q (y, i) (bx_mixv u v (bx_planes x (bb_nbits b)) (x_mix x))"
          by (simp add: pput_def)
      qed (use on old src in \<open>auto simp: rows_set_def m'\<close>)
      show ?thesis
      proof (cases "dy = 0")
        case True
        have "ok (copy_row (bb_rowlen b) fb (y * bb_rowlen b) sc 0) (\<lambda>sc. ok (?body (\<lambda>i fb. bendx_get sc 0 ((i + dx) mod bx_wholepix b) (bb_nbits b)))
            (\<lambda>q. ok (Some (q, sc)) (rows_set b ?R (fb, snd m'))))"
        proof (rule ok_mono[OF copied_row[OF wf room' 1(1)]])
          fix sc' assume sc': "length sc' = length sc \<and> (\<forall>i<bx_wholepix b. bendx_get sc' 0 i (bb_nbits b) = pget b fb (y, i))"
          show "ok (?body (\<lambda>i fb. bendx_get sc' 0 ((i + dx) mod bx_wholepix b) (bb_nbits b)))
            (\<lambda>q. ok (Some (q, sc')) (rows_set b ?R (fb, snd m')))"
            by (rule ok_mono[OF row]) (use sc' src True in \<open>auto simp: ok_simps rows_set_def m'\<close>)
        qed
        then show ?thesis
          using on True by (simp add: m' ok_simps)
      next
        case False
        have "ok (?body (\<lambda>i fb. bendx_get fb ((y + dy) * bb_rowlen b) ((i + dx) mod bx_wholepix b) (bb_nbits b)))
            (\<lambda>q. rows_set b ?R (fb, sc) (q, sc))"
        proof (rule row)
          fix i q assume q: "\<And>z j. \<lbrakk>z < bb_rows b; j < bx_wholepix b; z \<noteq> y \<or> i \<le> j\<rbrakk> \<Longrightarrow> pget b q (z, j) = pget b fb (z, j)"
          show "bendx_get q ((y + dy) * bb_rowlen b) ((i + dx) mod bx_wholepix b) (bb_nbits b) =
              pget b fb (y + dy, (i + dx) mod bx_wholepix b)"
            using q[of "y + dy" "(i + dx) mod bx_wholepix b"] on src False by (simp add: pget_def)
        qed
        then show ?thesis using on False by (simp add: m' ok_simps)
      qed
    qed
  qed
qed

section \<open>Safety: inside the arrays, and only in the planes\<close>

definition pix_keeps :: "bendx_t \<Rightarrow> bendx_buf_t \<Rightarrow> u8 list \<Rightarrow> u8 list \<Rightarrow> bool" where
  "pix_keeps x b fb fb' \<longleftrightarrow> length fb' = length fb \<and> (\<forall>y<bb_rows b. \<forall>i<bx_wholepix b.
     \<exists>u v. pget b fb (y, i) = Some u \<and> pget b fb' (y, i) = Some v \<and>
       v AND NOT (bx_planes x (bb_nbits b)) = u AND NOT (bx_planes x (bb_nbits b)))"

definition pix_safe :: "bendx_t \<Rightarrow> bendx_buf_t \<Rightarrow> mem \<Rightarrow> mem \<Rightarrow> bool" where
  "pix_safe x b m m' \<longleftrightarrow> pix_keeps x b (fst m) (fst m') \<and> length (snd m') = length (snd m)"

lemma pix_keeps_refl:
  assumes "px_wf b" "length fb = bb_rows b * bb_rowlen b"
  shows "pix_keeps x b fb fb"
  unfolding pix_keeps_def
proof (intro conjI allI impI)
  fix y i assume "y < bb_rows b" "i < bx_wholepix b"
  then have "pin b fb (y, i)" using assms(2) by (simp add: pin_def)
  from pget_some[OF assms(1) this] obtain u where "pget b fb (y, i) = Some u" .
  then show "\<exists>u v. pget b fb (y, i) = Some u \<and> pget b fb (y, i) = Some v \<and>
      v AND NOT (bx_planes x (bb_nbits b)) = u AND NOT (bx_planes x (bb_nbits b))" by blast
qed simp

lemma pix_keeps_trans:
  assumes "pix_keeps x b fb q" "pix_keeps x b q r"
  shows "pix_keeps x b fb r"
  unfolding pix_keeps_def
proof (intro conjI allI impI)
  fix y i assume yi: "y < bb_rows b" "i < bx_wholepix b"
  from assms yi obtain u v v' w where "pget b fb (y, i) = Some u" "pget b q (y, i) = Some v"
    "v AND NOT (bx_planes x (bb_nbits b)) = u AND NOT (bx_planes x (bb_nbits b))"
    "pget b q (y, i) = Some v'" "pget b r (y, i) = Some w"
    "w AND NOT (bx_planes x (bb_nbits b)) = v' AND NOT (bx_planes x (bb_nbits b))"
    unfolding pix_keeps_def by blast
  then show "\<exists>u v. pget b fb (y, i) = Some u \<and> pget b r (y, i) = Some v \<and>
      v AND NOT (bx_planes x (bb_nbits b)) = u AND NOT (bx_planes x (bb_nbits b))" by simp
qed (use assms in \<open>simp add: pix_keeps_def\<close>)

text \<open>Pixels that are kept or mixed are safe.\<close>

lemma rows_set_safe:
  assumes wf: "px_wf b" and room: "bx_room b m" and set: "rows_set b R m m'"
    and R: "\<And>y i. \<lbrakk>y < bb_rows b; i < bx_wholepix b\<rbrakk> \<Longrightarrow> R y i = pget b (fst m) (y, i) \<or>
      (\<exists>z j. z < bb_rows b \<and> j < bx_wholepix b \<and> R y i = mixed x b (pget b (fst m) (y, i)) (pget b (fst m) (z, j)))"
  shows "pix_safe x b m m'"
proof -
  have pin: "pin b (fst m) (y, i)" if "y < bb_rows b" "i < bx_wholepix b" for y i
    using that room by (simp add: pin_def bx_room_def)
  have "\<exists>u v. pget b (fst m) (y, i) = Some u \<and> pget b (fst m') (y, i) = Some v \<and>
      v AND NOT (bx_planes x (bb_nbits b)) = u AND NOT (bx_planes x (bb_nbits b))"
    if yi: "y < bb_rows b" "i < bx_wholepix b" for y i
  proof -
    obtain u where u: "pget b (fst m) (y, i) = Some u" using pget_some[OF wf pin[OF yi]] .
    have r: "pget b (fst m') (y, i) = R y i" using set yi by (simp add: rows_set_def)
    from R[OF yi] show ?thesis
    proof
      assume "R y i = pget b (fst m) (y, i)"
      then show ?thesis using r u by simp
    next
      assume "\<exists>z j. z < bb_rows b \<and> j < bx_wholepix b \<and> R y i = mixed x b (pget b (fst m) (y, i)) (pget b (fst m) (z, j))"
      then obtain z j where zj: "z < bb_rows b" "j < bx_wholepix b"
        and R: "R y i = mixed x b (pget b (fst m) (y, i)) (pget b (fst m) (z, j))" by blast
      obtain v where "pget b (fst m) (z, j) = Some v" using pget_some[OF wf pin[OF zj]] .
      then show ?thesis using r u R by (simp add: mixed_def mixv_keeps)
    qed
  qed
  then show ?thesis using set by (simp add: pix_safe_def pix_keeps_def rows_set_def)
qed

lemma bx_clock_safe:
  assumes wf: "px_wf b" and room: "bx_room b m"
  shows "ok (bx_clock x b m) (pix_safe x b m)"
proof (rule ok_mono[OF bx_clock_sets[OF assms]])
  fix m' assume "rows_set b (\<lambda>y i. if bx_on x y
    then mixed x b (pget b (fst m) (y, i)) (pget b (fst m) (y, clock_src x b y i)) else pget b (fst m) (y, i)) m m'"
  then show "pix_safe x b m m'"
  proof (rule rows_set_safe[OF assms])
    fix y i assume "y < bb_rows b" "i < bx_wholepix b"
    moreover from this have "clock_src x b y i < bx_wholepix b" by (simp add: clock_src_def)
    ultimately show "(if bx_on x y
      then mixed x b (pget b (fst m) (y, i)) (pget b (fst m) (y, clock_src x b y i)) else pget b (fst m) (y, i)) =
        pget b (fst m) (y, i) \<or> (\<exists>z j. z < bb_rows b \<and> j < bx_wholepix b \<and> (if bx_on x y
      then mixed x b (pget b (fst m) (y, i)) (pget b (fst m) (y, clock_src x b y i)) else pget b (fst m) (y, i)) =
        mixed x b (pget b (fst m) (y, i)) (pget b (fst m) (z, j)))" by auto
  qed
qed

lemma bx_cfa_safe:
  assumes wf: "px_wf b" and room: "bx_room b m"
  shows "ok (bx_cfa x b m) (pix_safe x b m)"
proof -
  obtain dx dy where shift: "cfa_shift x = (dx, dy)" by (cases "cfa_shift x")
  show ?thesis
  proof (rule ok_mono[OF bx_cfa_sets[OF assms shift]])
    let ?R = "\<lambda>y i. if bx_on x y \<and> y + dy < bb_rows b
      then mixed x b (pget b (fst m) (y, i)) (pget b (fst m) (y + dy, (i + dx) mod bx_wholepix b))
      else pget b (fst m) (y, i)"
    fix m' assume "rows_set b ?R m m'"
    then show "pix_safe x b m m'"
    proof (rule rows_set_safe[OF assms])
      fix y i assume "y < bb_rows b" "i < bx_wholepix b"
      then have src: "(i + dx) mod bx_wholepix b < bx_wholepix b" by simp
      show "?R y i = pget b (fst m) (y, i) \<or> (\<exists>z j. z < bb_rows b \<and> j < bx_wholepix b \<and>
          ?R y i = mixed x b (pget b (fst m) (y, i)) (pget b (fst m) (z, j)))"
      proof (cases "bx_on x y \<and> y + dy < bb_rows b")
        case True
        then show ?thesis
          by (intro disjI2 exI[of _ "y + dy"] exI[of _ "(i + dx) mod bx_wholepix b"]) (simp add: src)
      next
        case False
        then have "?R y i = pget b (fst m) (y, i)" by (rule if_not_P)
        then show ?thesis ..
      qed
    qed
  qed
qed

text \<open>One pixel of the frame mixed with any value.\<close>

lemma mix_pixel:
  assumes wf: "px_wf b" and keep: "pix_keeps x b fb q" and fb: "length fb = bb_rows b * bb_rowlen b"
    and yi: "y < bb_rows b" "i < bx_wholepix b" and u: "pget b q (y, i) = Some u"
  shows "ok (pput b q (y, i) (bx_mixv u w (bx_planes x (bb_nbits b)) (x_mix x))) (pix_keeps x b fb)"
proof -
  have pin: "pin b q (z, j)" if "z < bb_rows b" "j < bx_wholepix b" for z j
    using that keep fb by (simp add: pin_def pix_keeps_def)
  have "fits (bb_nbits b) u" using pget_some[OF wf pin[OF yi]] u by auto
  then have fit: "fits (bb_nbits b) (bx_mixv u w (bx_planes x (bb_nbits b)) (x_mix x))" by (rule mixv_fits)
  have "ok (pput b q (y, i) (bx_mixv u w (bx_planes x (bb_nbits b)) (x_mix x))) (pix_keeps x b q)"
  proof -
    obtain r where r: "pput b q (y, i) (bx_mixv u w (bx_planes x (bb_nbits b)) (x_mix x)) = Some r"
      "length r = length q" "pget b r (y, i) = Some (bx_mixv u w (bx_planes x (bb_nbits b)) (x_mix x))"
      using frame_put[OF wf pin[OF yi] fit] by (auto simp: ok_def)
    have "\<exists>c v. pget b q (z, j) = Some c \<and> pget b r (z, j) = Some v \<and>
        v AND NOT (bx_planes x (bb_nbits b)) = c AND NOT (bx_planes x (bb_nbits b))"
      if zj: "z < bb_rows b" "j < bx_wholepix b" for z j
    proof (cases "(z, j) = (y, i)")
      case True
      then show ?thesis using u r(3) by (simp add: mixv_keeps)
    next
      case False
      then have "pget b r (z, j) = pget b q (z, j)"
        using frame_other[OF wf pin[OF yi] pin[OF zj] _ fit r(1)] by metis
      then show ?thesis using pget_some[OF wf pin[OF zj]] by metis
    qed
    then show ?thesis using r(1,2) by (simp add: ok_simps pix_keeps_def)
  qed
  then show ?thesis by (rule ok_mono) (rule pix_keeps_trans[OF keep])
qed

lemma keeps_pget:
  assumes "pix_keeps x b fb q" "y < bb_rows b" "i < bx_wholepix b"
  obtains u where "pget b q (y, i) = Some u"
  using assms unfolding pix_keeps_def by blast

lemma bx_clamp_safe:
  assumes wf: "px_wf b" and room: "bx_room b m"
  shows "ok (bx_clamp x b env m) (pix_safe x b m)"
proof -
  obtain fb sc where m: "m = (fb, sc)" by (cases m)
  have fb: "length fb = bb_rows b * bb_rowlen b" using room by (simp add: bx_room_def m)
  note refl = pix_keeps_refl[OF wf fb]
  show ?thesis
  proof (cases "bx_wholepix b \<le> bb_ob_x b \<or> bb_rows b = 0")
    case True
    then show ?thesis using refl by (auto simp: bx_clamp_def m Let_def ok_simps pix_safe_def)
  next
    case False
    have row: "ok (for_range 0 (bx_wholepix b) (\<lambda>i fb. bendx_get fb (y * bb_rowlen b) i (bb_nbits b) \<bind>
        (\<lambda>v. bendx_set fb (y * bb_rowlen b) i (bx_mixv v (g v) (bx_planes x (bb_nbits b)) (x_mix x)) (bb_nbits b))) q)
      (pix_keeps x b fb)" if y: "y < bb_rows b" and I: "pix_keeps x b fb q" for y q g
    proof (rule for_list_inv[where I = "pix_keeps x b fb"])
      fix i r assume i: "i \<in> set [0..<bx_wholepix b]" and J: "pix_keeps x b fb r"
      then obtain u where u: "pget b r (y, i) = Some u" using keeps_pget[OF J y] by auto
      then show "ok (bendx_get r (y * bb_rowlen b) i (bb_nbits b) \<bind>
          (\<lambda>v. bendx_set r (y * bb_rowlen b) i (bx_mixv v (g v) (bx_planes x (bb_nbits b)) (x_mix x)) (bb_nbits b))) (pix_keeps x b fb)"
        using mix_pixel[OF wf J fb y _ u, of "g u"] i by (simp add: pget_def pput_def)
    qed (rule I)
    have "ok (bx_clamp x b env (fb, sc)) (\<lambda>m'. pix_keeps x b fb (fst m') \<and> snd m' = sc)"
      unfolding bx_clamp_def prod.case Let_def if_not_P[OF False] ok_bind
    proof (rule ok_mono[where Q = "pix_keeps x b fb"])
      show "ok (for_range 0 (bb_rows b) (\<lambda>y fb. bendx_get fb ((y + (rch x + 1) * 8) mod bb_rows b * bb_rowlen b) (bb_ob_x b) (bb_nbits b) \<bind>
          (\<lambda>ob. if \<not> bx_on x y then Some fb
            else for_range 0 (bx_wholepix b) (\<lambda>i fb. bendx_get fb (y * bb_rowlen b) i (bb_nbits b) \<bind>
              (\<lambda>v. bendx_set fb (y * bb_rowlen b) i (bx_mixv v
                (clamp_px (if push_bit (bb_nbits b) 1 - 1 < (if e_white env \<noteq> 0 then e_white env else push_bit (bb_nbits b) 1 - 1)
                  then push_bit (bb_nbits b) 1 - 1 else (if e_white env \<noteq> 0 then e_white env else push_bit (bb_nbits b) 1 - 1))
                  (int (unat ob * (amt x + 1) div 8) - sint (e_black env)) v) (bx_planes x (bb_nbits b)) (x_mix x)) (bb_nbits b))) fb)) fb)
        (pix_keeps x b fb)"
      proof (rule for_list_inv[where I = "pix_keeps x b fb"])
        fix y q assume y: "y \<in> set [0..<bb_rows b]" and I: "pix_keeps x b fb q"
        have "(y + (rch x + 1) * 8) mod bb_rows b < bb_rows b" "bb_ob_x b < bx_wholepix b" using False by simp_all
        then obtain ob where "pget b q ((y + (rch x + 1) * 8) mod bb_rows b, bb_ob_x b) = Some ob"
          using keeps_pget[OF I] by metis
        then show "ok (bendx_get q ((y + (rch x + 1) * 8) mod bb_rows b * bb_rowlen b) (bb_ob_x b) (bb_nbits b) \<bind>
          (\<lambda>ob. if \<not> bx_on x y then Some q
            else for_range 0 (bx_wholepix b) (\<lambda>i fb. bendx_get fb (y * bb_rowlen b) i (bb_nbits b) \<bind>
              (\<lambda>v. bendx_set fb (y * bb_rowlen b) i (bx_mixv v
                (clamp_px (if push_bit (bb_nbits b) 1 - 1 < (if e_white env \<noteq> 0 then e_white env else push_bit (bb_nbits b) 1 - 1)
                  then push_bit (bb_nbits b) 1 - 1 else (if e_white env \<noteq> 0 then e_white env else push_bit (bb_nbits b) 1 - 1))
                  (int (unat ob * (amt x + 1) div 8) - sint (e_black env)) v) (bx_planes x (bb_nbits b)) (x_mix x)) (bb_nbits b))) q))
          (pix_keeps x b fb)"
          using row[OF _ I] y I by (simp add: pget_def ok_simps)
      qed (rule refl)
    qed (simp add: ok_simps)
    then show ?thesis by (auto simp: m pix_safe_def elim: ok_mono)
  qed
qed

lemma wr16_length: "room16 s i \<Longrightarrow> ok (wr16 s i v) (\<lambda>s'. length s' = length s)"
  by (simp add: room16_def wr16_def ok_simps)

text \<open>Two bytes of counter per pixel fit where the pixels themselves fit.\<close>

lemma acc_room:
  assumes wf: "px_wf b" and sc: "2 * bb_rowlen b \<le> length sc" and i: "i < bx_wholepix b"
  shows "room16 sc i"
proof -
  have "bx_gpix (bb_nbits b) \<le> bx_gsz (bb_nbits b)" by (simp add: bx_gpix_def bx_gsz_def)
  then have "bx_wholepix b \<le> bb_rowpix b div bx_gpix (bb_nbits b) * bx_gsz (bb_nbits b)"
    by (simp add: wholepix_groups)
  also have "\<dots> \<le> bb_rowlen b" using wf by (simp add: px_wf_def)
  finally show ?thesis using sc i by (simp add: room16_def)
qed

lemma bloom_pixel_safe:
  assumes wf: "px_wf b" and fb: "length fb = bb_rows b * bb_rowlen b"
    and keep: "pix_keeps x b fb (fst m)" and room: "room16 (snd m) i" and len: "length (snd m) = n"
    and yi: "y < bb_rows b" "i < bx_wholepix b"
  shows "ok (bloom_pixel x b thr decay y i m) (\<lambda>m'. pix_keeps x b fb (fst m') \<and> length (snd m') = n)"
proof -
  obtain q sc where m: "m = (q, sc)" by (cases m)
  have keep': "pix_keeps x b fb q" using keep by (simp add: m)
  obtain u where u: "pget b q (y, i) = Some u" using keeps_pget[OF keep' yi] .
  obtain a where a: "rd16 sc i = Some a" using cell16.get_ok[of sc i] room by (auto simp: m ok_def)
  obtain s where s: "\<And>v. wr16 sc i v = Some (s v)" "\<And>v. length (s v) = length sc"
    using wr16_length[of sc i] room by (simp add: m ok_def) metis
  show ?thesis
    using mix_pixel[OF wf keep' fb yi u, of "bloom_out (push_bit (bb_nbits b) 1 - 1)
        (bloom_acc (push_bit (bb_nbits b) 1 - 1) thr decay a u) u"] keep' len u
    by (auto simp: m bloom_pixel_def Let_def pget_def pput_def a s ok_simps elim: ok_mono)
qed

lemma bx_bloom_safe:
  assumes wf: "px_wf b" and room: "bx_room b m"
  shows "ok (bx_bloom x b m) (pix_safe x b m)"
proof -
  obtain fb sc where m: "m = (fb, sc)" by (cases m)
  have fb: "length fb = bb_rows b * bb_rowlen b" and sc: "2 * bb_rowlen b \<le> length sc"
    using room by (simp_all add: bx_room_def m)
  note refl = pix_keeps_refl[OF wf fb]
  let ?I = "\<lambda>m' :: mem. pix_keeps x b fb (fst m') \<and> length (snd m') = length sc"
  have rows: "ok (for_range 0 (bb_rows b) (\<lambda>y. for_range 0 (bx_wholepix b) (bloom_pixel x b thr decay y)) (fb, sc')) ?I"
    if sc': "length sc' = length sc" for thr decay sc'
  proof (rule for_list_inv[where I = ?I])
    fix y m' assume y: "y \<in> set [0..<bb_rows b]" and I: "?I m'"
    show "ok (for_range 0 (bx_wholepix b) (bloom_pixel x b thr decay y) m') ?I"
    proof (rule for_list_inv[where I = ?I])
      fix i m'' assume i: "i \<in> set [0..<bx_wholepix b]" and J: "?I m''"
      show "ok (bloom_pixel x b thr decay y i m'') ?I"
        using bloom_pixel_safe[OF wf fb conjunct1[OF J]] acc_room[OF wf, of "snd m''" i] J sc y i by simp
    qed (rule I)
  qed (use refl sc' in simp)
  have clear: "ok (for_range 0 (bx_wholepix b) (\<lambda>i sc. wr16 sc i 0) sc) (\<lambda>s. length s = length sc)"
  proof (rule for_list_inv[where I = "\<lambda>s. length s = length sc"])
    fix i and s :: "u8 list" assume i: "i \<in> set [0..<bx_wholepix b]" and s: "length s = length sc"
    have "room16 s i" using acc_room[OF wf _, of s i] sc s i by simp
    from wr16_length[OF this] show "ok (wr16 s i 0) (\<lambda>s. length s = length sc)" using s by simp
  qed simp
  have "ok (bx_bloom x b (fb, sc)) ?I"
  proof (cases "bx_wholepix b = 0")
    case True
    then show ?thesis using refl by (simp add: bx_bloom_def ok_simps)
  next
    case False
    show ?thesis
      unfolding bx_bloom_def prod.case Let_def if_not_P[OF False] ok_bind
      by (rule ok_mono[OF clear]) (rule rows)
  qed
  then show ?thesis by (auto simp: m pix_safe_def elim: ok_mono)
qed

section \<open>The counting sort\<close>

definition run_vals :: "bendx_buf_t \<Rightarrow> u8 list \<Rightarrow> nat \<Rightarrow> nat \<Rightarrow> nat \<Rightarrow> nat list" where
  "run_vals b fb y i0 n = map (\<lambda>k. unat (the (pget b fb (y, i0 + 2 * k)))) [0..<n]"

text \<open>The buckets, each counting the occurrences of its value.\<close>

definition buckets :: "u8 list \<Rightarrow> nat list \<Rightarrow> bool" where
  "buckets sc vs \<longleftrightarrow> 2 * sort_buckets \<le> length sc \<and>
     (\<forall>v < sort_buckets. rd16 sc v = Some (word_of_nat (count_list vs v)))"

lemma bucket_room: "buckets sc vs \<Longrightarrow> v < sort_buckets \<Longrightarrow> room16 sc v"
  by (simp add: buckets_def room16_def)

lemma fits_iff: "fits n v \<longleftrightarrow> unat v < 2 ^ n"
proof -
  have "take_bit n (unat v) = unat v \<longleftrightarrow> fits n v"
    by (auto simp: bit_eq_iff fits_def bit_take_bit_iff bit_unsigned_iff)
  then show ?thesis by (simp add: take_bit_nat_eq_self_iff)
qed

lemma fits_16_nat: "n < 2 ^ 16 \<Longrightarrow> fits 16 (word_of_nat n)"
  by (simp add: fits_iff unsigned_of_nat take_bit_nat_eq_self)

lemma pixel_below: "\<lbrakk>depth_ok nb; fits nb v\<rbrakk> \<Longrightarrow> unat v < sort_buckets"
  by (auto simp: fits_iff sort_buckets_def)

text \<open>One pixel counted.\<close>

lemma count_one:
  assumes b: "buckets sc vs" and v: "v < sort_buckets" and small: "length vs + 1 < 2 ^ 16"
  shows "ok (rd16 sc v \<bind> (\<lambda>c. wr16 sc v ((c + 1) AND 0xffff)))
    (\<lambda>sc'. length sc' = length sc \<and> buckets sc' (vs @ [v]))"
proof -
  note room = bucket_room[OF b]
  have c: "rd16 sc v = Some (word_of_nat (count_list vs v))" using b v by (simp add: buckets_def)
  have lt: "count_list vs v + 1 < 2 ^ 16" using count_le_length[of vs v] small by simp
  have inc: "(word_of_nat (count_list vs v) + 1) AND 0xffff = (word_of_nat (count_list vs v + 1) :: u32)"
    using fits_and16[OF fits_16_nat[OF lt]] by (simp add: add.commute)
  obtain s where s: "wr16 sc v (word_of_nat (count_list vs v + 1)) = Some s" "length s = length sc"
    "rd16 s v = Some (word_of_nat (count_list vs v + 1))"
    using cell16.put_ok[OF room[OF v] fits_16_nat[OF lt]] by (auto simp: ok_def)
  have "rd16 s u = rd16 sc u" if "u \<noteq> v" "u < sort_buckets" for u
    using cell16.put_other[OF room[OF v] room[OF that(2)] _ fits_16_nat[OF lt] s(1)] that(1) by metis
  then have "rd16 s u = Some (word_of_nat (count_list (vs @ [v]) u))" if "u < sort_buckets" for u
    using that b s(3) by (cases "u = v") (simp_all add: buckets_def)
  then have "buckets s (vs @ [v])" using b s(2) by (simp add: buckets_def)
  then show ?thesis unfolding c bind.simps(2) Option.bind.bind_lunit inc s(1) using s(2) by (simp add: ok_simps)
qed

lemma run_vals_length [simp]: "length (run_vals b fb y i0 n) = n"
  by (simp add: run_vals_def)

lemma tally_spec:
  assumes wf: "px_wf b" and fb: "length fb = bb_rows b * bb_rowlen b" and y: "y < bb_rows b"
    and run: "\<And>k. k < n \<Longrightarrow> i0 + 2 * k < bx_wholepix b" and n: "n = (i1 - i0 + 1) div 2" "n < 2 ^ 16"
    and b: "buckets sc []"
  shows "ok (tally b (y * bb_rowlen b) fb i0 i1 sc) (\<lambda>(sc', lo, hi). length sc' = length sc \<and>
    buckets sc' (run_vals b fb y i0 n) \<and> unat hi < sort_buckets \<and>
    (\<forall>v\<in>set (run_vals b fb y i0 n). unat lo \<le> v \<and> v \<le> unat hi))"
proof -
  define vs where "vs = run_vals b fb y i0 n"
  have nb: "depth_ok (bb_nbits b)" using wf by (simp add: px_wf_def)
  let ?I = "\<lambda>k (sc', lo :: u32, hi). length sc' = length sc \<and> buckets sc' (take k vs) \<and> unat hi < sort_buckets \<and>
    (\<forall>v\<in>set (take k vs). unat lo \<le> v \<and> v \<le> unat hi)"
  have "ok (for_range 0 n (\<lambda>k (sc, lo, hi). do {
        v \<leftarrow> bendx_get fb (y * bb_rowlen b) (i0 + 2 * k) (bb_nbits b);
        c \<leftarrow> rd16 sc (unat v);
        sc \<leftarrow> wr16 sc (unat v) ((c + 1) AND 0xffff);
        Some (sc, if v < lo then v else lo, if hi < v then v else hi) }) (sc, lo0, 0)) (?I n)" for lo0
  proof (rule for_range_inv[where I = ?I])
    fix k and st :: "u8 list \<times> u32 \<times> u32"
    assume k: "0 \<le> k" "k < n" and I: "?I k st"
    obtain s lo hi where st: "st = (s, lo, hi)" by (metis prod_cases3)
    have pin: "pin b fb (y, i0 + 2 * k)" using y fb run[OF k(2)] by (simp add: pin_def)
    obtain v where v: "pget b fb (y, i0 + 2 * k) = Some v" "fits (bb_nbits b) v" using pget_some[OF wf pin] .
    have vk: "vs ! k = unat v" using k(2) v(1) by (simp add: vs_def run_vals_def)
    have take: "take (Suc k) vs = take k vs @ [unat v]" using k(2) vk by (simp add: take_Suc_conv_app_nth vs_def)
    have lt: "unat v < sort_buckets" using pixel_below[OF nb v(2)] .
    have "ok (rd16 s (unat v) \<bind> (\<lambda>c. wr16 s (unat v) ((c + 1) AND 0xffff)))
        (\<lambda>sc'. length sc' = length s \<and> buckets sc' (take k vs @ [unat v]))"
      using count_one[OF _ lt, of s "take k vs"] I k n(2) by (simp add: st vs_def)
    then show "ok (case st of (sc, lo, hi) \<Rightarrow> do {
        v \<leftarrow> bendx_get fb (y * bb_rowlen b) (i0 + 2 * k) (bb_nbits b);
        c \<leftarrow> rd16 sc (unat v);
        sc \<leftarrow> wr16 sc (unat v) ((c + 1) AND 0xffff);
        Some (sc, if v < lo then v else lo, if hi < v then v else hi) }) (?I (Suc k))"
      unfolding ok_bind st prod.case v(1)[unfolded pget_def prod.case] ok_Some
      apply (elim ok_mono)
      using I lt by (auto simp: st take word_less_nat_alt not_less)
  qed (use b in \<open>auto simp: sort_buckets_def\<close>)
  then show ?thesis
    unfolding tally_def every2_def for_list_map n(1)[symmetric] Let_def vs_def[symmetric]
    by (rule ok_mono) (auto simp: vs_def)
qed

text \<open>The pixels \<open>w\<close>, \<open>w + 2\<close>, \<dots> of row \<open>y\<close> mixed with the values \<open>ws\<close>, one after the other.\<close>

definition written :: "bendx_t \<Rightarrow> bendx_buf_t \<Rightarrow> nat \<Rightarrow> nat \<Rightarrow> nat list \<Rightarrow> u8 list \<Rightarrow> u8 list \<Rightarrow> bool" where
  "written x b y w ws fb fb' \<longleftrightarrow> length fb' = length fb \<and>
     (\<forall>k<length ws. pget b fb' (y, w + 2 * k) = mixed x b (pget b fb (y, w + 2 * k)) (Some (word_of_nat (ws ! k)))) \<and>
     (\<forall>z<bb_rows b. \<forall>j<bx_wholepix b. (\<forall>k<length ws. (z, j) \<noteq> (y, w + 2 * k)) \<longrightarrow> pget b fb' (z, j) = pget b fb (z, j))"

lemma written_Nil: "written x b y w [] fb fb"
  by (simp add: written_def)

lemma written_other:
  "\<lbrakk>written x b y w ws fb fb'; z < bb_rows b; j < bx_wholepix b; \<And>k. k < length ws \<Longrightarrow> (z, j) \<noteq> (y, w + 2 * k)\<rbrakk> \<Longrightarrow>
    pget b fb' (z, j) = pget b fb (z, j)"
  by (simp add: written_def)

lemma written_at:
  "\<lbrakk>written x b y w ws fb fb'; k < length ws\<rbrakk> \<Longrightarrow>
    pget b fb' (y, w + 2 * k) = mixed x b (pget b fb (y, w + 2 * k)) (Some (word_of_nat (ws ! k)))"
  by (simp add: written_def)

lemma written_append:
  assumes 1: "written x b y w us fb q" and 2: "written x b y (w + 2 * length us) vs q r"
    and y: "y < bb_rows b" and room: "\<And>k. k < length us + length vs \<Longrightarrow> w + 2 * k < bx_wholepix b"
  shows "written x b y w (us @ vs) fb r"
proof -
  have at: "pget b r (y, w + 2 * k) = mixed x b (pget b fb (y, w + 2 * k)) (Some (word_of_nat ((us @ vs) ! k)))"
    if k: "k < length (us @ vs)" for k
  proof (cases "k < length us")
    case True
    then have "pget b r (y, w + 2 * k) = pget b q (y, w + 2 * k)"
      using k room[of k] by (intro written_other[OF 2 y]) auto
    then show ?thesis using written_at[OF 1 True] True by (simp add: nth_append)
  next
    case False
    define h where "h = k - length us"
    have h: "h < length vs" "w + 2 * k = w + 2 * length us + 2 * h" using k False by (simp_all add: h_def)
    have "pget b q (y, w + 2 * k) = pget b fb (y, w + 2 * k)"
      using k room[of k] False by (intro written_other[OF 1 y]) auto
    then show ?thesis using written_at[OF 2 h(1)] False unfolding h(2) by (simp add: nth_append h_def)
  qed
  have "pget b r (z, j) = pget b fb (z, j)"
    if zj: "z < bb_rows b" "j < bx_wholepix b" and out: "\<And>k. k < length (us @ vs) \<Longrightarrow> (z, j) \<noteq> (y, w + 2 * k)" for z j
  proof -
    have "(z, j) \<noteq> (y, w + 2 * length us + 2 * k)" if "k < length vs" for k
      using out[of "length us + k"] that by (simp add: add.assoc)
    then have "pget b r (z, j) = pget b q (z, j)" by (rule written_other[OF 2 zj])
    also have "\<dots> = pget b fb (z, j)" using out by (intro written_other[OF 1 zj]) simp
    finally show ?thesis .
  qed
  with at show ?thesis using 1 2 by (simp add: written_def)
qed

lemma written_one:
  assumes wf: "px_wf b" and fb: "length fb = bb_rows b * bb_rowlen b" and yw: "y < bb_rows b" "w < bx_wholepix b"
    and old: "pget b fb (y, w) = Some u"
  shows "ok (pput b fb (y, w) (bx_mixv u (word_of_nat v) (bx_planes x (bb_nbits b)) (x_mix x))) (written x b y w [v] fb)"
proof -
  have pin: "pin b fb (z, j)" if "z < bb_rows b" "j < bx_wholepix b" for z j using that fb by (simp add: pin_def)
  have nb: "depth_ok (bb_nbits b)" using wf by (simp add: px_wf_def)
  have u: "fits (bb_nbits b) u" using pget_some[OF wf pin[OF yw]] old by auto
  note m = mixed_some[OF nb u, where x = x and v = "word_of_nat v"]
  obtain r where r: "pput b fb (y, w) (bx_mixv u (word_of_nat v) (bx_planes x (bb_nbits b)) (x_mix x)) = Some r"
    "length r = length fb" "pget b r (y, w) = Some (bx_mixv u (word_of_nat v) (bx_planes x (bb_nbits b)) (x_mix x))"
    using frame_put[OF wf pin[OF yw] m(2)] by (auto simp: ok_def)
  have "pget b r (z, j) = pget b fb (z, j)" if "(z, j) \<noteq> (y, w)" "z < bb_rows b" "j < bx_wholepix b" for z j
    using frame_other[OF wf pin[OF yw] pin[OF that(2,3)] _ m(2) r(1)] that(1) by metis
  then show ?thesis using r old m(1) by (auto simp: ok_simps written_def)
qed

lemma unat_small: "n < 2 ^ 16 \<Longrightarrow> unat (word_of_nat n :: u32) = n"
  by (simp add: unsigned_of_nat take_bit_nat_eq_self)

lemma drain_spec:
  assumes "px_wf b" "length fb = bb_rows b * bb_rowlen b" "y < bb_rows b"
    "rd16 sc v = Some (word_of_nat c)" "c < 2 ^ 16" "v < sort_buckets" "2 * sort_buckets \<le> length sc"
    "\<And>k. k < c \<Longrightarrow> w + 2 * k < bx_wholepix b"
  shows "ok (drain x b (y * bb_rowlen b) v (fb, sc, w)) (\<lambda>(fb', sc', w'). w' = w + 2 * c \<and>
    written x b y w (replicate c v) fb fb' \<and> length sc' = length sc \<and>
    (\<forall>u < sort_buckets. u \<noteq> v \<longrightarrow> rd16 sc' u = rd16 sc u))"
  using assms
proof (induction c arbitrary: fb sc w)
  case 0
  have room: "room16 sc u" if "u < sort_buckets" for u using 0 that by (simp add: room16_def)
  have fit: "fits 16 ((word_of_nat 0 - 1) AND 0xffff :: u32)" by (simp add: fits_iff)
  obtain s where s: "wr16 sc v ((word_of_nat 0 - 1) AND 0xffff) = Some s" "length s = length sc"
    using cell16.put_ok[OF room[OF 0(6)] fit] by (auto simp: ok_def)
  have "rd16 s u = rd16 sc u" if "u \<noteq> v" "u < sort_buckets" for u
    using cell16.put_other[OF room[OF 0(6)] room[OF that(2)] _ fit s(1)] that(1) by metis
  then show ?case using 0(4) s by (simp add: drain.simps ok_simps written_Nil)
next
  case (Suc c)
  have room: "room16 sc u" if "u < sort_buckets" for u using Suc.prems(7) that by (simp add: room16_def)
  have c16: "c < 2 ^ 16" using Suc.prems(5) by simp
  have "unat (word_of_nat (Suc c) :: u32) = Suc c" using Suc.prems(5) by (rule unat_small)
  then have ne: "word_of_nat (Suc c) \<noteq> (0 :: u32)" by (metis unsigned_0 nat.distinct(1))
  have dec: "(word_of_nat (Suc c) - 1) AND 0xffff = (word_of_nat c :: u32)"
    using fits_and16[OF fits_16_nat[OF c16]] by simp
  obtain s where s: "wr16 sc v (word_of_nat c) = Some s" "length s = length sc" "rd16 s v = Some (word_of_nat c)"
    using cell16.put_ok[OF room[OF Suc.prems(6)] fits_16_nat[OF c16]] by (auto simp: ok_def)
  have other: "rd16 s u = rd16 sc u" if "u < sort_buckets" "u \<noteq> v" for u
    using cell16.put_other[OF room[OF Suc.prems(6)] room[OF that(1)] _ fits_16_nat[OF c16] s(1)] that(2) by metis
  have w: "w < bx_wholepix b" using Suc.prems(8)[of 0] by simp
  have "pin b fb (y, w)" using Suc.prems(2,3) w by (simp add: pin_def)
  from pget_some[OF Suc.prems(1) this] obtain u where u: "pget b fb (y, w) = Some u" .
  obtain q where q: "pput b fb (y, w) (bx_mixv u (word_of_nat v) (bx_planes x (bb_nbits b)) (x_mix x)) = Some q"
    "written x b y w [v] fb q"
    using written_one[OF Suc.prems(1-3) w u] by (auto simp: ok_def)
  have "ok (drain x b (y * bb_rowlen b) v (q, s, w + 2)) (\<lambda>(fb', sc', w'). w' = w + 2 + 2 * c \<and>
    written x b y (w + 2) (replicate c v) q fb' \<and> length sc' = length s \<and>
    (\<forall>u < sort_buckets. u \<noteq> v \<longrightarrow> rd16 sc' u = rd16 s u))"
  proof (rule Suc.IH[OF Suc.prems(1) _ Suc.prems(3) s(3) c16 Suc.prems(6)])
    show "length q = bb_rows b * bb_rowlen b" using q(2) Suc.prems(2) by (simp add: written_def)
    show "2 * sort_buckets \<le> length s" using s(2) Suc.prems(7) by simp
    show "w + 2 + 2 * k < bx_wholepix b" if "k < c" for k using Suc.prems(8)[of "Suc k"] that by simp
  qed
  moreover have "drain x b (y * bb_rowlen b) v (fb, sc, w) = drain x b (y * bb_rowlen b) v (q, s, w + 2)"
    by (subst drain.simps)
       (use Suc.prems(4) ne s(1) u q(1) in \<open>simp add: fits_and16[OF fits_16_nat[OF c16]] pget_def pput_def\<close>)
  moreover have "written x b y w (replicate (Suc c) v) fb r" if "written x b y (w + 2) (replicate c v) q r" for r
    using written_append[OF q(2), of "replicate c v" r] that Suc.prems(3,8) by simp
  ultimately show ?case
    using s(2) other by (auto elim!: ok_mono)
qed

text \<open>Writing the buckets back, in the order of a list of distinct values.\<close>

definition poured :: "nat list \<Rightarrow> nat list \<Rightarrow> nat list" where
  "poured vs bs = concat (map (\<lambda>v. replicate (count_list vs v) v) bs)"

lemma pour_buckets:
  assumes "px_wf b" "length fb = bb_rows b * bb_rowlen b" "y < bb_rows b"
    "distinct bs" "\<And>v. v \<in> set bs \<Longrightarrow> v < sort_buckets \<and> rd16 sc v = Some (word_of_nat (count_list vs v))"
    "length vs < 2 ^ 16" "2 * sort_buckets \<le> length sc"
    "\<And>k. k < length (poured vs bs) \<Longrightarrow> w + 2 * k < bx_wholepix b"
  shows "ok (for_list bs (drain x b (y * bb_rowlen b)) (fb, sc, w)) (\<lambda>(fb', sc', w').
    written x b y w (poured vs bs) fb fb' \<and> length sc' = length sc \<and>
    (\<forall>u < sort_buckets. u \<notin> set bs \<longrightarrow> rd16 sc' u = rd16 sc u))"
  using assms
proof (induction bs arbitrary: fb sc w)
  case Nil
  then show ?case by (simp add: ok_simps poured_def written_Nil)
next
  case (Cons v bs)
  let ?c = "count_list vs v"
  have c16: "?c < 2 ^ 16" using Cons.prems(6) count_le_length[of vs v] by simp
  have "ok (drain x b (y * bb_rowlen b) v (fb, sc, w)) (\<lambda>(fb', sc', w'). w' = w + 2 * ?c \<and>
    written x b y w (replicate ?c v) fb fb' \<and> length sc' = length sc \<and>
    (\<forall>u < sort_buckets. u \<noteq> v \<longrightarrow> rd16 sc' u = rd16 sc u))"
    by (rule drain_spec[OF Cons.prems(1-3) _ c16])
       (use Cons.prems(5,7) Cons.prems(8) in \<open>simp_all add: poured_def\<close>)
  then show ?case
    unfolding for_list.simps ok_bind
  proof (rule ok_mono)
    fix r assume r: "case r of (fb', sc', w') \<Rightarrow> w' = w + 2 * ?c \<and>
      written x b y w (replicate ?c v) fb fb' \<and> length sc' = length sc \<and>
      (\<forall>u < sort_buckets. u \<noteq> v \<longrightarrow> rd16 sc' u = rd16 sc u)"
    obtain q s where q: "r = (q, s, w + 2 * ?c)" "written x b y w (replicate ?c v) fb q" "length s = length sc"
      "\<And>u. u < sort_buckets \<Longrightarrow> u \<noteq> v \<Longrightarrow> rd16 s u = rd16 sc u"
      using r by (cases r) auto
    have lq: "length q = bb_rows b * bb_rowlen b" using q(2) Cons.prems(2) by (simp add: written_def)
    have "ok (for_list bs (drain x b (y * bb_rowlen b)) (q, s, w + 2 * ?c)) (\<lambda>(fb', sc', w').
        written x b y (w + 2 * ?c) (poured vs bs) q fb' \<and> length sc' = length s \<and>
        (\<forall>u < sort_buckets. u \<notin> set bs \<longrightarrow> rd16 sc' u = rd16 s u))"
    proof (rule Cons.IH[OF Cons.prems(1) lq Cons.prems(3) _ _ Cons.prems(6)])
      show "distinct bs" using Cons.prems(4) by simp
      show "u < sort_buckets \<and> rd16 s u = Some (word_of_nat (count_list vs u))" if "u \<in> set bs" for u
        using that Cons.prems(4,5) q(4)[of u] by auto
      show "2 * sort_buckets \<le> length s" using q(3) Cons.prems(7) by simp
      show "w + 2 * ?c + 2 * k < bx_wholepix b" if "k < length (poured vs bs)" for k
        using Cons.prems(8)[of "?c + k"] that by (simp add: poured_def)
    qed
    then show "ok (for_list bs (drain x b (y * bb_rowlen b)) r) (\<lambda>(fb', sc', w').
        written x b y w (poured vs (v # bs)) fb fb' \<and> length sc' = length sc \<and>
        (\<forall>u < sort_buckets. u \<notin> set (v # bs) \<longrightarrow> rd16 sc' u = rd16 sc u))"
      unfolding q(1)
    proof (rule ok_mono, clarify)
      fix fb' sc' assume a: "written x b y (w + 2 * ?c) (poured vs bs) q fb'" "length sc' = length s"
        "\<forall>u < sort_buckets. u \<notin> set bs \<longrightarrow> rd16 sc' u = rd16 s u"
      have "written x b y w (replicate ?c v @ poured vs bs) fb fb'"
        using written_append[OF q(2), of "poured vs bs" fb'] a(1) Cons.prems(3,8) by (simp add: poured_def)
      then show "written x b y w (poured vs (v # bs)) fb fb' \<and> length sc' = length sc \<and>
        (\<forall>u < sort_buckets. u \<notin> set (v # bs) \<longrightarrow> rd16 sc' u = rd16 sc u)"
        using a q(3,4) by (simp add: poured_def)
    qed
  qed
qed

text \<open>Counting sorts.\<close>

lemma sum_filter_mset: "mset (poured vs bs) = filter_mset (\<lambda>v. v \<in> set bs) (mset vs)" if "distinct bs"
  using that
proof (induction bs)
  case (Cons v bs)
  have "filter_mset (\<lambda>u. u \<in> set (v # bs)) (mset vs) = replicate_mset (count_list vs v) v + filter_mset (\<lambda>u. u \<in> set bs) (mset vs)"
    using Cons.prems by (intro multiset_eqI) (auto simp: count_mset)
  then show ?case using Cons by (simp add: poured_def)
qed (simp add: poured_def)

lemma poured_sorted: "sorted (poured vs [lo..<hi])"
proof (induction hi)
  case (Suc hi)
  show ?case
  proof (cases "lo \<le> hi")
    case True
    have "set (poured vs [lo..<hi]) \<subseteq> {lo..<hi}" by (auto simp: poured_def split: if_splits)
    then show ?thesis using Suc True by (auto simp: poured_def sorted_append)
  next
    case False
    then show ?thesis by (simp add: poured_def)
  qed
qed (simp add: poured_def)

lemma poured_up:
  assumes "\<forall>v\<in>set vs. lo \<le> v \<and> v \<le> hi"
  shows "poured vs [lo..<hi + 1] = sort vs"
proof (rule properties_for_sort[symmetric])
  have "filter_mset (\<lambda>v. v \<in> set [lo..<hi + 1]) (mset vs) = mset vs"
    using assms by (intro filter_mset_eq_conv[THEN iffD2]) auto
  then show "mset (poured vs [lo..<hi + 1]) = mset vs" by (subst sum_filter_mset) simp_all
  show "sorted (poured vs [lo..<hi + 1])" by (rule poured_sorted)
qed

lemma poured_rev: "poured vs (rev bs) = rev (poured vs bs)"
  by (induction bs) (simp_all add: poured_def)

lemma poured_length:
  assumes "\<forall>v\<in>set vs. lo \<le> v \<and> v \<le> hi"
  shows "length (poured vs [lo..<hi + 1]) = length vs" "length (poured vs (rev [lo..<hi + 1])) = length vs"
  using poured_up[OF assms] by (simp_all only: poured_rev length_rev length_sort)

lemma clear_cells:
  assumes "2 * sort_buckets \<le> length sc" "\<And>v. v \<in> set bs \<Longrightarrow> v < sort_buckets"
  shows "ok (for_list bs (\<lambda>v sc. wr16 sc v 0) sc) (\<lambda>s. length s = length sc \<and>
    (\<forall>u < sort_buckets. rd16 s u = (if u \<in> set bs then Some 0 else rd16 sc u)))"
  using assms
proof (induction bs arbitrary: sc)
  case (Cons v bs)
  have room: "room16 sc u" if "u < sort_buckets" for u using Cons.prems(1) that by (simp add: room16_def)
  have v: "v < sort_buckets" using Cons.prems(2) by simp
  have fit: "fits 16 (0 :: u32)" by (simp add: fits_def)
  obtain s where s: "wr16 sc v 0 = Some s" "length s = length sc" "rd16 s v = Some 0"
    using cell16.put_ok[OF room[OF v] fit] by (auto simp: ok_def)
  have other: "rd16 s u = rd16 sc u" if "u < sort_buckets" "u \<noteq> v" for u
    using cell16.put_other[OF room[OF v] room[OF that(1)] _ fit s(1)] that(2) by metis
  have "ok (for_list bs (\<lambda>v sc. wr16 sc v 0) s) (\<lambda>r. length r = length s \<and>
      (\<forall>u < sort_buckets. rd16 r u = (if u \<in> set bs then Some 0 else rd16 s u)))"
    using Cons.prems s(2) by (intro Cons.IH) simp_all
  then have "ok (for_list bs (\<lambda>v sc. wr16 sc v 0) s) (\<lambda>r. length r = length sc \<and>
      (\<forall>u < sort_buckets. rd16 r u = (if u \<in> set (v # bs) then Some 0 else rd16 sc u)))"
    by (rule ok_mono) (use s(2,3) other in auto)
  then show ?case by (simp add: s(1))
qed (simp add: ok_simps)

definition run_order :: "bendx_t \<Rightarrow> nat list \<Rightarrow> nat list" where
  "run_order x vs = (if x_reach x \<ge> 8 then rev (sort vs) else sort vs)"

lemma run_order_length [simp]: "length (run_order x vs) = length vs"
  by (simp add: run_order_def)

lemma sort_run_spec:
  assumes wf: "px_wf b" and fb: "length fb = bb_rows b * bb_rowlen b" and y: "y < bb_rows b"
    and run: "\<And>k. k < n \<Longrightarrow> i0 + 2 * k < bx_wholepix b" and n: "n = (i1 - i0 + 1) div 2" "n < 2 ^ 16"
    and b: "buckets sc []"
  shows "ok (sort_run x b (y * bb_rowlen b) i0 i1 (fb, sc)) (\<lambda>(fb', sc').
    written x b y i0 (run_order x (run_vals b fb y i0 n)) fb fb' \<and> buckets sc' [] \<and> length sc' = length sc)"
proof -
  define vs where "vs = run_vals b fb y i0 n"
  have tail: "ok (for_list (if x_reach x \<ge> 8 then rev [unat lo..<unat hi + 1] else [unat lo..<unat hi + 1])
        (drain x b (y * bb_rowlen b)) (fb, s, i0) \<bind> (\<lambda>(fb, sc, w).
          for_range (unat lo) (unat hi + 1) (\<lambda>v sc. wr16 sc v 0) sc \<bind> (\<lambda>sc. Some (fb, sc))))
        (\<lambda>(fb', sc'). written x b y i0 (run_order x vs) fb fb' \<and> buckets sc' [] \<and> length sc' = length sc)"
    if s: "length s = length sc" "buckets s vs" "unat hi < sort_buckets"
      "\<forall>v\<in>set vs. unat lo \<le> v \<and> v \<le> unat hi" for s lo hi
  proof -
    define bs where "bs = (if x_reach x \<ge> 8 then rev [unat lo..<unat hi + 1] else [unat lo..<unat hi + 1])"
    have bs: "distinct bs" "set bs = {unat lo..unat hi}" by (auto simp: bs_def)
    have order: "poured vs bs = run_order x vs"
      using poured_up[OF s(4)] by (simp add: bs_def run_order_def poured_rev)
    have room: "2 * sort_buckets \<le> length s" using s(2) by (simp add: buckets_def)
    have len: "length vs = n" by (simp add: vs_def)
    have "ok (for_list bs (drain x b (y * bb_rowlen b)) (fb, s, i0)) (\<lambda>(fb', sc', w').
      written x b y i0 (poured vs bs) fb fb' \<and> length sc' = length s \<and>
      (\<forall>u < sort_buckets. u \<notin> set bs \<longrightarrow> rd16 sc' u = rd16 s u))"
    proof (rule pour_buckets[OF wf fb y bs(1) _ _ room])
      show "v < sort_buckets \<and> rd16 s v = Some (word_of_nat (count_list vs v))" if "v \<in> set bs" for v
        using that bs(2) s(2,3) by (auto simp: buckets_def)
      show "length vs < 2 ^ 16" using n(2) len by simp
      show "i0 + 2 * k < bx_wholepix b" if "k < length (poured vs bs)" for k
        using that run unfolding order by (simp add: len)
    qed
    then show ?thesis
      unfolding bs_def[symmetric] ok_bind
    proof (rule ok_mono)
      fix r assume r: "case r of (fb', sc', w') \<Rightarrow> written x b y i0 (poured vs bs) fb fb' \<and> length sc' = length s \<and>
        (\<forall>u < sort_buckets. u \<notin> set bs \<longrightarrow> rd16 sc' u = rd16 s u)"
      obtain fb' s' w' where req: "r = (fb', s', w')" by (cases r)
      have a: "written x b y i0 (poured vs bs) fb fb'" "length s' = length s"
        "\<forall>u < sort_buckets. u \<notin> set bs \<longrightarrow> rd16 s' u = rd16 s u" using r by (simp_all add: req)
      have "ok (for_range (unat lo) (unat hi + 1) (\<lambda>v sc. wr16 sc v 0) s') (\<lambda>r. length r = length s' \<and>
          (\<forall>u < sort_buckets. rd16 r u = (if u \<in> set [unat lo..<unat hi + 1] then Some 0 else rd16 s' u)))"
        using s(3) room a(2) by (intro clear_cells) auto
      then have "ok (for_range (unat lo) (unat hi + 1) (\<lambda>v sc. wr16 sc v 0) s' \<bind> (\<lambda>sc. Some (fb', sc)))
        (\<lambda>(fb', sc'). written x b y i0 (run_order x vs) fb fb' \<and> buckets sc' [] \<and> length sc' = length sc)"
        unfolding ok_bind ok_Some
      proof (rule ok_mono)
        fix r assume r: "length r = length s' \<and>
          (\<forall>u < sort_buckets. rd16 r u = (if u \<in> set [unat lo..<unat hi + 1] then Some 0 else rd16 s' u))"
        have "rd16 r u = Some 0" if u: "u < sort_buckets" for u
        proof (cases "u \<in> set bs")
          case True
          then show ?thesis using r u bs(2) by auto
        next
          case False
          then have "u \<notin> set vs" using s(4) bs(2) by auto
          moreover have "rd16 s u = Some (word_of_nat (count_list vs u))" using s(2) u by (simp add: buckets_def)
          ultimately have "rd16 s' u = Some 0" using a(3) u False by simp
          then show ?thesis using r u by auto
        qed
        then show "case (fb', r) of (fb', sc') \<Rightarrow> written x b y i0 (run_order x vs) fb fb' \<and>
            buckets sc' [] \<and> length sc' = length sc"
          using a s(1) r room order by (simp add: buckets_def)
      qed
      then show "ok (case r of (fb, sc, w) \<Rightarrow> for_range (unat lo) (unat hi + 1) (\<lambda>v sc. wr16 sc v 0) sc \<bind> (\<lambda>sc. Some (fb, sc)))
        (\<lambda>(fb', sc'). written x b y i0 (run_order x vs) fb fb' \<and> buckets sc' [] \<and> length sc' = length sc)"
        unfolding req prod.case .
    qed
  qed
  obtain s lo hi where t: "tally b (y * bb_rowlen b) fb i0 i1 sc = Some (s, lo, hi)"
    "length s = length sc" "buckets s vs" "unat hi < sort_buckets" "\<forall>v\<in>set vs. unat lo \<le> v \<and> v \<le> unat hi"
    using tally_spec[OF wf fb y run n b] by (auto simp: ok_def vs_def)
  show ?thesis
    using tail[OF t(2-5)] unfolding sort_run_def prod.case t(1) bind.simps(2) Option.bind.bind_lunit vs_def .
qed

text \<open>Written pixels are safe.\<close>

lemma written_keeps:
  assumes wf: "px_wf b" and fb: "length fb = bb_rows b * bb_rowlen b" and w: "written x b y i0 ws fb fb'"
  shows "pix_keeps x b fb fb'"
  unfolding pix_keeps_def
proof (intro conjI allI impI)
  fix z j assume zj: "z < bb_rows b" "j < bx_wholepix b"
  have "pin b fb (z, j)" using zj fb by (simp add: pin_def)
  from pget_some[OF wf this] obtain u where u: "pget b fb (z, j) = Some u" .
  show "\<exists>u v. pget b fb (z, j) = Some u \<and> pget b fb' (z, j) = Some v \<and>
      v AND NOT (bx_planes x (bb_nbits b)) = u AND NOT (bx_planes x (bb_nbits b))"
  proof (cases "\<exists>k<length ws. (z, j) = (y, i0 + 2 * k)")
    case True
    then obtain k where "k < length ws" "z = y" "j = i0 + 2 * k" by auto
    then show ?thesis using written_at[OF w, of k] u by (simp add: mixed_def mixv_keeps)
  next
    case False
    then show ?thesis using written_other[OF w zj] u by auto
  qed
qed (use w in \<open>simp add: written_def\<close>)

lemma scan_spec:
  assumes "\<And>j. j < npix \<Longrightarrow> \<exists>v. px j = Some v"
  shows "ok (scan P px npix i) (\<lambda>j. i \<le> j \<and> (\<forall>k. i + 2 * k < j \<longrightarrow> i + 2 * k < npix))"
  using assms
proof (induction P px npix i rule: scan.induct)
  case (1 P px npix i)
  show ?case
  proof (cases "i < npix")
    case True
    then obtain v where v: "px i = Some v" using "1.prems" by blast
    show ?thesis
    proof (cases "P v")
      case P: True
      have "ok (scan P px npix (i + 2)) (\<lambda>j. i + 2 \<le> j \<and> (\<forall>k. i + 2 + 2 * k < j \<longrightarrow> i + 2 + 2 * k < npix))"
        using "1.IH"[OF True v P "1.prems"] .
      then have "ok (scan P px npix (i + 2)) (\<lambda>j. i \<le> j \<and> (\<forall>k. i + 2 * k < j \<longrightarrow> i + 2 * k < npix))"
      proof (rule ok_mono)
        fix j assume j: "i + 2 \<le> j \<and> (\<forall>k. i + 2 + 2 * k < j \<longrightarrow> i + 2 + 2 * k < npix)"
        have "i + 2 * k < npix" if "i + 2 * k < j" for k
          using j[THEN conjunct2, rule_format, of "k - 1"] that True by (cases k) auto
        then show "i \<le> j \<and> (\<forall>k. i + 2 * k < j \<longrightarrow> i + 2 * k < npix)" using j by simp
      qed
      then show ?thesis using True v P by (simp add: scan.simps[of P px npix i])
    qed (use True v in \<open>simp add: scan.simps[of P px npix i] ok_simps\<close>)
  qed (simp add: scan.simps[of P px npix i] ok_simps)
qed

definition sort_inv :: "bendx_t \<Rightarrow> bendx_buf_t \<Rightarrow> mem \<Rightarrow> mem \<Rightarrow> bool" where
  "sort_inv x b m m' \<longleftrightarrow> pix_keeps x b (fst m) (fst m') \<and> length (snd m') = length (snd m) \<and> buckets (snd m') []"

lemma sort_phase_inv:
  assumes "px_wf b" "length (fst m0) = bb_rows b * bb_rowlen b" "y < bb_rows b" "bx_wholepix b < 2 ^ 16"
    "sort_inv x b m0 m"
  shows "ok (sort_phase x b thr (y * bb_rowlen b) i0 m) (sort_inv x b m0)"
  using assms
proof (induction x b thr "y * bb_rowlen b" i0 m rule: sort_phase.induct)
  case (1 x b thr i0 m)
  let ?px = "\<lambda>i. bendx_get (fst m) (y * bb_rowlen b) i (bb_nbits b)"
  let ?npix = "bx_wholepix b"
  have fb: "length (fst m) = bb_rows b * bb_rowlen b"
    using "1.prems"(2,5) by (simp add: sort_inv_def pix_keeps_def)
  have px: "\<exists>v. ?px i = Some v" if "i < ?npix" for i
  proof -
    have "pin b (fst m) (y, i)" using fb that "1.prems"(3) by (simp add: pin_def)
    from pget_some[OF "1.prems"(1) this] obtain v where "pget b (fst m) (y, i) = Some v" .
    then show ?thesis by (simp add: pget_def)
  qed
  show ?case
  proof (cases "i0 < ?npix")
    case False
    then show ?thesis using "1.prems"(5) by (simp add: sort_phase.simps ok_simps)
  next
    case True
    obtain j where j: "scan (\<lambda>v. v \<le> thr) ?px ?npix i0 = Some j" "i0 \<le> j"
      using scan_spec[of ?npix ?px "\<lambda>v. v \<le> thr" i0, OF px] by (auto simp: ok_def)
    show ?thesis
    proof (cases "?npix \<le> j")
      case True
      then show ?thesis using "1.prems"(5) \<open>i0 < ?npix\<close> j(1) by (simp add: sort_phase.simps Let_def ok_simps)
    next
      case inside: False
      obtain j1 where j1: "scan (\<lambda>v. thr < v) ?px ?npix j = Some j1" "j \<le> j1"
        and run: "\<And>k. j + 2 * k < j1 \<Longrightarrow> j + 2 * k < ?npix"
        using scan_spec[of ?npix ?px "\<lambda>v. thr < v" j, OF px] by (auto simp: ok_def)
      show ?thesis
      proof (cases "(j1 - j) div 2 < (unat (x_reach x AND 7) + 1) * 8")
        case short: True
        have "ok (sort_phase x b thr (y * bb_rowlen b) (j1 + 2) m) (sort_inv x b m0)"
          using "1.hyps"(1)[OF refl refl refl refl True _ inside _ short] j j1 "1.prems" by simp
        then show ?thesis
          using True inside short j(1) j1(1) by (subst sort_phase.simps) (simp add: Let_def)
      next
        case long: False
        define n where "n = (j1 - j + 1) div 2"
        have n: "n < 2 ^ 16"
        proof (cases n)
          case (Suc k)
          then have "j + 2 * k < j1" by (simp add: n_def)
          then have "j + 2 * k < ?npix" by (rule run)
          then show ?thesis using Suc "1.prems"(4) by simp
        qed simp
        have "ok (sort_run x b (y * bb_rowlen b) j j1 (fst m, snd m)) (\<lambda>(fb', sc').
            written x b y j (run_order x (run_vals b (fst m) y j n)) (fst m) fb' \<and> buckets sc' [] \<and> length sc' = length (snd m))"
        proof (rule sort_run_spec[OF "1.prems"(1) fb "1.prems"(3) _ n_def n])
          show "j + 2 * k < ?npix" if "k < n" for k using that by (intro run) (simp add: n_def)
          show "buckets (snd m) []" using "1.prems"(5) by (simp add: sort_inv_def)
        qed
        then obtain m' where m': "sort_run x b (y * bb_rowlen b) j j1 m = Some m'"
          "written x b y j (run_order x (run_vals b (fst m) y j n)) (fst m) (fst m')"
          "buckets (snd m') []" "length (snd m') = length (snd m)"
          by (auto simp: ok_def split: prod.splits)
        have inv: "sort_inv x b m0 m'"
          using "1.prems"(5) m'(3,4) written_keeps[OF "1.prems"(1) fb m'(2)]
          by (auto simp: sort_inv_def intro: pix_keeps_trans)
        have "ok (sort_phase x b thr (y * bb_rowlen b) (j1 + 2) m') (sort_inv x b m0)"
          using "1.hyps"(2)[OF refl refl refl refl True _ inside _ long] j j1 "1.prems" m'(1) inv by simp
        then show ?thesis
          using True inside long j(1) j1(1) m'(1) by (subst sort_phase.simps) (simp add: Let_def)
      qed
    qed
  qed
qed

lemma bx_sort_safe:
  assumes wf: "px_wf b" and room: "bx_room b m" and cells: "2 * sort_buckets \<le> length (snd m)"
    and small: "bx_wholepix b < 2 ^ 16"
  shows "ok (bx_sort x b m) (pix_safe x b m)"
proof -
  obtain fb sc where m: "m = (fb, sc)" by (cases m)
  have fb: "length (fst m) = bb_rows b * bb_rowlen b" using room by (simp add: bx_room_def)
  note refl = pix_keeps_refl[OF wf fb]
  show ?thesis
  proof (cases "bx_wholepix b < 4")
    case True
    then show ?thesis using refl by (simp add: bx_sort_def m Let_def ok_simps pix_safe_def)
  next
    case False
    have clear: "ok (for_range 0 sort_buckets (\<lambda>i sc. wr16 sc i 0) sc) (\<lambda>s. sort_inv x b m (fb, s))"
      by (rule ok_mono[OF clear_cells]) (use cells refl in \<open>auto simp: m sort_inv_def buckets_def\<close>)
    have rows: "ok (for_range 0 (bb_rows b) (\<lambda>y m. if \<not> bx_on x y then Some m
        else for_range 0 2 (\<lambda>phase. sort_phase x b thr (y * bb_rowlen b) phase) m) m') (sort_inv x b m)"
      if I: "sort_inv x b m m'" for thr m'
    proof (rule for_list_inv[where I = "sort_inv x b m"])
      fix y m'' assume y: "y \<in> set [0..<bb_rows b]" and J: "sort_inv x b m m''"
      have "ok (for_range 0 2 (\<lambda>phase. sort_phase x b thr (y * bb_rowlen b) phase) m'') (sort_inv x b m)"
        by (rule for_list_inv[where I = "sort_inv x b m"])
           (use J y in \<open>auto intro: sort_phase_inv[OF wf fb _ small]\<close>)
      then show "ok (if \<not> bx_on x y then Some m''
          else for_range 0 2 (\<lambda>phase. sort_phase x b thr (y * bb_rowlen b) phase) m'') (sort_inv x b m)"
        using J by (simp add: ok_simps)
    qed (rule I)
    have "ok (bx_sort x b m) (sort_inv x b m)"
      unfolding bx_sort_def m prod.case Let_def if_not_P[OF False] ok_bind
      by (rule ok_mono[OF clear[unfolded m]]) (rule rows[unfolded m])
    then show ?thesis by (rule ok_mono) (simp add: sort_inv_def pix_safe_def)
  qed
qed

end
