(* ===== verification/BxApply.thy ===== *)
theory BxApply
  imports BxPixels
begin

text \<open>
  \<open>bendx_apply\<close> (\<open>core/bendx.c\<close>), which runs one profile over the frame buffer, and
  \<open>raw_bendx\<close> (\<open>core/raw.c\<close>), which sanitizes the configured chain, obtains its working space
  and applies every profile in order. \<open>malloc\<close> belongs to the camera's firmware and is a
  parameter; what is used of it is that a block it returns has the size asked for.
\<close>

section \<open>One profile\<close>

definition bendx_apply :: "bendx_t \<Rightarrow> bendx_buf_t \<Rightarrow> bendx_env_t \<Rightarrow> mem \<Rightarrow> mem option" where
  "bendx_apply x b env m =
     (if bb_rowlen b = 0 \<or> bb_rows b = 0 then Some m
      else if bb_nbits b \<noteq> 10 \<and> bb_nbits b \<noteq> 12 then Some m
      else if bendx_is_off x then Some m
      else if uint (x_kind x) = BX_ENDIAN then bx_endian x b m
      else if uint (x_kind x) = BX_SLIP then bx_slip x b m
      else if uint (x_kind x) = BX_TEAR then bx_tear x b m
      else if uint (x_kind x) = BX_ADDR then bx_addr x b m
      else if uint (x_kind x) = BX_COLADDR then bx_coladdr x b m
      else if uint (x_kind x) = BX_STRIDE then bx_stride x b m
      else if uint (x_kind x) = BX_REFRESH then bx_refresh x b m
      else if uint (x_kind x) = BX_ECHO then bx_echo x b m
      else if uint (x_kind x) = BX_LINEMEM then bx_linemem x b m
      else if uint (x_kind x) = BX_FIELD then bx_field x b m
      else if uint (x_kind x) = BX_ROMBUS then bx_membus x b (e_rom env) m
      else if uint (x_kind x) = BX_CLOCK then bx_clock x b m
      else if uint (x_kind x) = BX_CFA then bx_cfa x b m
      else if uint (x_kind x) = BX_CLAMP then bx_clamp x b env m
      else if uint (x_kind x) = BX_BLOOM then bx_bloom x b m
      else if uint (x_kind x) = BX_SORT then bx_sort x b m
      else if uint (x_kind x) = BX_LOCK then bx_lock x b m
      else if uint (x_kind x) = BX_JPGBUS then bx_membus x b (e_jpg env) m
      else Some m)"

text \<open>The geometries of the cameras: whole groups fit the rows and nothing overflows.\<close>

definition buf_ok :: "bendx_buf_t \<Rightarrow> bool" where
  [wf_defs]: "buf_ok b \<longleftrightarrow> px_wf b \<and> 2 * bb_rowlen b < 2 ^ 32 \<and> bx_wholepix b < 2 ^ 16"

definition scratch_ok :: "bendx_t \<Rightarrow> bendx_buf_t \<Rightarrow> mem \<Rightarrow> bool" where
  "scratch_ok x b m \<longleftrightarrow> unat (bendx_scratch_bytes (uint (x_kind x)) (word_of_nat (bb_rowlen b))) \<le> length (snd m)"

lemma two_rows: "2 * n < 2 ^ 32 \<Longrightarrow> unat (word_of_nat n * 2 :: u32) = 2 * n"
proof -
  assume a: "2 * n < (2::nat) ^ 32"
  have "word_of_nat n * 2 = (word_of_nat (2 * n) :: u32)" by (simp add: mult.commute)
  also have "unat (word_of_nat (2 * n) :: u32) = 2 * n"
    using take_bit_nat_eq_self[OF a] by (simp add: unsigned_of_nat del: of_nat_mult)
  finally show ?thesis .
qed

lemma scratch_two_rows:
  assumes "buf_ok b" "scratch_ok x b m"
  shows "2 * bb_rowlen b \<le> length (snd m)"
    and "uint (x_kind x) = BX_SORT \<Longrightarrow> 2 * sort_buckets \<le> length (snd m)"
proof -
  note two = two_rows[of "bb_rowlen b"]
  have "2 * bb_rowlen b \<le> unat (bendx_scratch_bytes (uint (x_kind x)) (word_of_nat (bb_rowlen b)))"
    using two assms(1) by (auto simp: bendx_scratch_bytes_def Let_def buf_ok_def word_less_nat_alt)
  then show "2 * bb_rowlen b \<le> length (snd m)" using assms(2) by (simp add: scratch_ok_def)
  show "2 * sort_buckets \<le> length (snd m)" if "uint (x_kind x) = BX_SORT"
  proof -
    have "8192 \<le> unat (bendx_scratch_bytes (uint (x_kind x)) (word_of_nat (bb_rowlen b)))"
      using that by (auto simp: bendx_scratch_bytes_def Let_def word_less_nat_alt not_less)
    then show ?thesis using assms(2) by (simp add: scratch_ok_def sort_buckets_def)
  qed
qed

text \<open>The byte effects keep every lane the profile does not own, the pixel effects every plane.\<close>

definition bent_within :: "bendx_t \<Rightarrow> bendx_buf_t \<Rightarrow> mem \<Rightarrow> mem \<Rightarrow> bool" where
  "bent_within x b m m' \<longleftrightarrow>
     (if bendx_is_slow (uint (x_kind x)) then pix_safe x b m m' else safe x m m')"

lemma rows_bent_effects_safe:
  assumes "bx_room b m"
  shows "ok (bx_endian x b m) (safe x m)" "ok (bx_slip x b m) (safe x m)"
    "ok (bx_tear x b m) (safe x m)" "ok (bx_lock x b m) (safe x m)"
  by (rule ok_mono[OF bx_endian_bent[OF assms]] ok_mono[OF bx_slip_bent[OF assms]]
        ok_mono[OF bx_tear_bent[OF assms]] ok_mono[OF bx_lock_bent[OF assms]],
      erule rows_bent_safe[OF _ assms])+

lemmas byte_effects_safe = rows_bent_effects_safe
  bx_coladdr_safe bx_stride_safe bx_refresh_safe bx_echo_safe bx_linemem_safe bx_membus_safe

lemma rows_traded_effects_safe:
  assumes "bx_room b m"
  shows "ok (bx_addr x b m) (safe x m)" "ok (bx_field x b m) (safe x m)"
  by (rule ok_mono[OF bx_addr_traded[OF assms]] ok_mono[OF bx_field_traded[OF assms]],
      erule conjE, erule (1) rows_traded_safe[OF _ _ assms refl])+

lemma ok_ifI: "\<lbrakk>c \<Longrightarrow> ok m Q; \<not> c \<Longrightarrow> ok m' Q\<rbrakk> \<Longrightarrow> ok (if c then m else m') Q"
  by simp

lemma bendx_apply_safe:
  assumes wf: "buf_ok b" and fb: "length (fst m) = bb_rows b * bb_rowlen b" and sc: "scratch_ok x b m"
  shows "ok (bendx_apply x b env m) (bent_within x b m)"
proof -
  have px: "px_wf b" and small: "bx_wholepix b < 2 ^ 16" using wf by (simp_all add: buf_ok_def)
  have room: "bx_room b m" using fb scratch_two_rows(1)[OF wf sc] by (simp add: bx_room_def)
  note byte = byte_effects_safe[OF room] rows_traded_effects_safe[OF room]
  have refl: "bent_within x b m m" using pix_keeps_refl[OF px fb] by (simp add: bent_within_def pix_safe_def)
  show ?thesis
  proof (cases "bendx_is_slow (uint (x_kind x))")
    case False
    have "ok (bendx_apply x b env m) (safe x m)"
      using False unfolding bendx_apply_def bendx_is_slow_def
      by (intro ok_ifI byte) (simp_all add: ok_Some)
    then show ?thesis using False by (simp add: bent_within_def[abs_def])
  next
    case True
    have "ok (bendx_apply x b env m) (pix_safe x b m)"
      using True refl scratch_two_rows(2)[OF wf sc] px
      unfolding bendx_apply_def bendx_is_slow_def bendx_is_off_def
      by (auto simp: px_wf_def ok_simps bent_within_def bendx_is_slow_def
          intro: bx_clock_safe[OF px room] bx_cfa_safe[OF px room] bx_clamp_safe[OF px room]
            bx_bloom_safe[OF px room] bx_sort_safe[OF px room _ small])
    then show ?thesis using True by (simp add: bent_within_def[abs_def])
  qed
qed

section \<open>The whole chain\<close>

definition raw_bendx :: "bool \<Rightarrow> bendx_chain_t \<Rightarrow> bendx_buf_t \<Rightarrow> bendx_env_t \<Rightarrow> (u32 \<Rightarrow> u8 list option) \<Rightarrow>
    u8 list \<Rightarrow> (bendx_chain_t \<times> u8 list) option" where
  "raw_bendx enable c b env malloc fb =
     (if \<not> enable then Some (c, fb)
      else let c = bendx_chain_sanitize c; n = bendx_chain_count c in
        if n = 0 then Some (c, fb)
        else case malloc (bendx_chain_scratch_bytes c (word_of_nat (bb_rowlen b))) of
          None \<Rightarrow> Some (c, fb)
        | Some scratch \<Rightarrow> do {
            (fb, sc) \<leftarrow> for_range 0 n (\<lambda>i m. bendx_apply (ch_item c ! i) b env m) (fb, scratch);
            Some (c, fb) })"

lemma fold_max_ge:
  fixes g :: "'a \<Rightarrow> 'b::linorder"
  shows "z \<le> fold (\<lambda>i most. if most < g i then g i else most) xs z"
    and "x \<in> set xs \<Longrightarrow> g x \<le> fold (\<lambda>i most. if most < g i then g i else most) xs z"
proof -
  have *: "z \<le> fold (\<lambda>i most. if most < g i then g i else most) xs z" for xs z
    by (induction xs arbitrary: z) (auto intro: order_trans dest: less_imp_le)
  then show "z \<le> fold (\<lambda>i most. if most < g i then g i else most) xs z" .
  show "g x \<le> fold (\<lambda>i most. if most < g i then g i else most) xs z" if "x \<in> set xs"
    using that
  proof (induction xs arbitrary: z)
    case (Cons a xs)
    show ?case
    proof (cases "x = a")
      case True
      have "g x \<le> (if z < g a then g a else z)" using True by (simp add: not_less)
      also have "\<dots> \<le> fold (\<lambda>i most. if most < g i then g i else most) xs \<dots>" by (rule *)
      finally show ?thesis by simp
    next
      case False
      then show ?thesis using Cons by simp
    qed
  qed simp
qed

text \<open>The scratch asked for the chain is enough for each of its profiles.\<close>

lemma chain_scratch_covers:
  assumes "i < bendx_chain_count c"
    and "unat (bendx_chain_scratch_bytes c (word_of_nat (bb_rowlen b))) \<le> length (snd m)"
  shows "scratch_ok (ch_item c ! i) b m"
proof -
  have "bendx_scratch_bytes (uint (x_kind (ch_item c ! i))) (word_of_nat (bb_rowlen b)) \<le>
      bendx_chain_scratch_bytes c (word_of_nat (bb_rowlen b))"
    unfolding bendx_chain_scratch_bytes_def Let_def using assms(1) by (intro fold_max_ge(2)) simp
  then show ?thesis using assms(2) by (simp add: scratch_ok_def word_le_nat_alt)
qed

lemma bent_within_lengths:
  "bent_within x b m m' \<Longrightarrow> length (fst m') = length (fst m) \<and> length (snd m') = length (snd m)"
  by (auto simp: bent_within_def safe_def pix_safe_def keeps_def pix_keeps_def split: if_splits)

lemma chain_pass:
  assumes wf: "buf_ok b" and fb: "length fb = bb_rows b * bb_rowlen b"
    and sc: "unat (bendx_chain_scratch_bytes c (word_of_nat (bb_rowlen b))) \<le> length sc"
    and n: "n = bendx_chain_count c"
  shows "ok (for_range 0 n (\<lambda>i m. bendx_apply (ch_item c ! i) b env m) (fb, sc))
    (\<lambda>m. length (fst m) = length fb \<and> length (snd m) = length sc)"
proof (rule for_list_inv[where I = "\<lambda>m. length (fst m) = length fb \<and> length (snd m) = length sc"])
  fix i and m :: mem assume i: "i \<in> set [0..<n]" and I: "length (fst m) = length fb \<and> length (snd m) = length sc"
  have "ok (bendx_apply (ch_item c ! i) b env m) (bent_within (ch_item c ! i) b m)"
    using bendx_apply_safe[OF wf] chain_scratch_covers[of i c b m] i I fb sc n by simp
  then show "ok (bendx_apply (ch_item c ! i) b env m) (\<lambda>m. length (fst m) = length fb \<and> length (snd m) = length sc)"
    by (rule ok_mono) (use bent_within_lengths I in auto)
qed simp

text \<open>
  Whatever the configuration block holds, the pass stays inside the frame buffer and the block
  it was given, and leaves a usable chain behind.
\<close>

lemma raw_bendx_safe:
  assumes wf: "buf_ok b" and fb: "length fb = bb_rows b * bb_rowlen b" and c: "chain_shape c"
    and malloc: "\<And>k p. malloc k = Some p \<Longrightarrow> length p = unat k"
  shows "ok (raw_bendx enable c b env malloc fb) (\<lambda>(c', fb'). length fb' = length fb \<and>
    (if enable then chain_ok c' \<and> c' = bendx_chain_sanitize c else c' = c))"
proof (cases "enable \<and> bendx_chain_count (bendx_chain_sanitize c) \<noteq> 0 \<and>
    malloc (bendx_chain_scratch_bytes (bendx_chain_sanitize c) (word_of_nat (bb_rowlen b))) \<noteq> None")
  case True
  then obtain sc where sc: "malloc (bendx_chain_scratch_bytes (bendx_chain_sanitize c) (word_of_nat (bb_rowlen b))) = Some sc"
    by blast
  show ?thesis
    using True chain_pass[OF wf fb _ refl, of "bendx_chain_sanitize c" sc env] malloc[OF sc] chain_gate.san_good[OF c]
    by (auto simp: raw_bendx_def Let_def sc ok_simps elim!: ok_mono split: prod.splits)
next
  case False
  then show ?thesis
    using chain_gate.san_good[OF c] by (auto simp: raw_bendx_def Let_def ok_simps split: option.splits)
qed

text \<open>When the working space is there, the applied profiles run one after the other.\<close>

lemma raw_bendx_applies:
  assumes "enable" "c' = bendx_chain_sanitize c"
    "malloc (bendx_chain_scratch_bytes c' (word_of_nat (bb_rowlen b))) = Some sc"
    "bendx_chain_count c' \<le> length (ch_item c')"
  shows "map_option snd (raw_bendx enable c b env malloc fb) =
    map_option fst (for_list (chain_applied c') (\<lambda>x m. bendx_apply x b env m) (fb, sc))"
proof -
  have eq: "map (\<lambda>i. ch_item c' ! i) [0..<bendx_chain_count c'] = chain_applied c'"
    using assms(4) by (intro nth_equalityI) (simp_all add: chain_applied_def)
  have run: "for_list (chain_applied c') (\<lambda>x m. bendx_apply x b env m) =
      for_range 0 (bendx_chain_count c') (\<lambda>i m. bendx_apply (ch_item c' ! i) b env m)"
    unfolding eq[symmetric] for_list_map ..
  show ?thesis
  proof (cases "bendx_chain_count c' = 0")
    case True
    then show ?thesis unfolding run by (simp add: raw_bendx_def Let_def flip: assms(2))
  next
    case False
    have "raw_bendx enable c b env malloc fb =
        for_range 0 (bendx_chain_count c') (\<lambda>i m. bendx_apply (ch_item c' ! i) b env m) (fb, sc) \<bind> (\<lambda>(fb, sc). Some (c', fb))"
      using False assms(1,3) by (simp add: raw_bendx_def Let_def flip: assms(2))
    then show ?thesis
      unfolding run by (cases "for_range 0 (bendx_chain_count c') (\<lambda>i m. bendx_apply (ch_item c' ! i) b env m) (fb, sc)") auto
  qed
qed

section \<open>Faults that undo themselves\<close>

text \<open>With nothing merged but everything replaced.\<close>

definition replaces :: "bendx_t \<Rightarrow> bool" where
  "replaces x \<longleftrightarrow> bx_lanes x = 0xff \<and> x_mix x = 0"

definition undoes :: "(mem \<Rightarrow> mem option) \<Rightarrow> mem \<Rightarrow> bool" where
  "undoes f m \<longleftrightarrow> ok (f m \<bind> f) (\<lambda>m'. fst m' = fst m)"

lemma undoesI:
  assumes "ok (f m) (\<lambda>m1. P m m1 \<and> Q m1)" "\<And>m1. Q m1 \<Longrightarrow> ok (f m1) (P m1)"
    and "\<And>m1 m2. P m m1 \<Longrightarrow> P m1 m2 \<Longrightarrow> fst m2 = fst m"
  shows "undoes f m"
  unfolding undoes_def ok_bind
proof (rule ok_mono[OF assms(1)])
  fix m1 assume 1: "P m m1 \<and> Q m1"
  show "ok (f m1) (\<lambda>m'. fst m' = fst m)"
    by (rule ok_mono[OF assms(2)[OF conjunct2[OF 1]]]) (rule assms(3)[OF conjunct1[OF 1]])
qed

lemma bx_addr_undoes:
  assumes "replaces x" "bx_room b m"
  shows "undoes (bx_addr x b) m"
proof (rule undoesI[where Q = "bx_room b"])
  let ?P = "\<lambda>m m'. rows_traded x (bb_rowlen b) (line_partner (amt x)) (addr_on x (bb_rows b)) (fst m) (fst m')
    \<and> length (fst m) = bb_rows b * bb_rowlen b"
  have len: "length (fst m) = bb_rows b * bb_rowlen b" using assms(2) by (simp add: bx_room_def)
  show "ok (bx_addr x b m) (\<lambda>m1. ?P m m1 \<and> bx_room b m1)"
    by (rule ok_mono[OF bx_addr_traded[OF assms(2)]])
       (use assms(2) len in \<open>auto simp: bx_room_def rows_traded_def\<close>)
  show "ok (bx_addr x b m1) (?P m1)" if "bx_room b m1" for m1
    by (rule ok_mono[OF bx_addr_traded[OF that]]) (use that in \<open>simp add: bx_room_def\<close>)
  show "fst m2 = fst m" if "?P m m1" "?P m1 m2" for m1 m2
    by (rule traded_twice[OF conjunct1[OF that(1)] conjunct1[OF that(2)] _ _ _ _ len])
       (use assms(1) in \<open>simp_all add: replaces_def addr_on_def line_partner_twice line_low_partner\<close>)
qed

lemma bx_field_undoes:
  assumes "replaces x" "bx_room b m"
  shows "undoes (bx_field x b) m"
proof (rule undoesI[where Q = "bx_room b"])
  let ?P = "\<lambda>m m'. rows_traded x (bb_rowlen b) (field_partner (amt x + 2) (bb_rows b))
    (field_on x (amt x + 2) (bb_rows b)) (fst m) (fst m') \<and> length (fst m) = bb_rows b * bb_rowlen b"
  have len: "length (fst m) = bb_rows b * bb_rowlen b" using assms(2) by (simp add: bx_room_def)
  show "ok (bx_field x b m) (\<lambda>m1. ?P m m1 \<and> bx_room b m1)"
    by (rule ok_mono[OF bx_field_traded[OF assms(2)]])
       (use assms(2) len in \<open>auto simp: bx_room_def rows_traded_def\<close>)
  show "ok (bx_field x b m1) (?P m1)" if "bx_room b m1" for m1
    by (rule ok_mono[OF bx_field_traded[OF that]]) (use that in \<open>simp add: bx_room_def\<close>)
  show "fst m2 = fst m" if "?P m m1" "?P m1 m2" for m1 m2
    by (rule traded_twice[OF conjunct1[OF that(1)] conjunct1[OF that(2)] _ _ _ _ len])
       (use assms(1) field_partner_props[of "amt x + 2" _ "bb_rows b"] in \<open>auto simp: replaces_def field_on_def\<close>)
qed

lemma nibswap8_twice: "nibswap8 (nibswap8 c) = c"
  by (auto simp: nibswap8_def u8_eq_iff bit_simps dest: bit_u8_less)

lemma bit_bitrev8: "bit (bitrev8 c) n \<longleftrightarrow> n < 8 \<and> bit c (7 - n)"
proof (cases "n < 8")
  case True
  then have "n \<in> {0, 1, 2, 3, 4, 5, 6, 7}" by (simp only: less_8_iff)
  then show ?thesis
    unfolding bitrev8_def Let_def
    by (elim insertE emptyE)
       (simp_all only: bit_or_iff bit_and_iff bit_push_bit_iff bit_drop_bit_eq bit_ucast_iff o_apply, simp_all add: numeral_3_eq_3 numeral_2_eq_2)
qed (auto dest: bit_u8_less)

lemma bitrev8_twice: "bitrev8 (bitrev8 c) = c"
  by (rule bit_eqI) (auto simp: bit_bitrev8 dest: bit_u8_less)

lemma endian_fun_twice:
  assumes "0 < gsz"
  shows "endian_fun a gsz len (endian_fun a gsz len r) i = r i"
  using assms by (simp add: endian_fun_def mirror_twice nibswap8_twice bitrev8_twice)

lemma rows_bent_twice:
  assumes 1: "rows_bent x b on T m m1" and 2: "rows_bent x b on T m1 m2" and set: "replaces x" and room: "bx_room b m"
    and T: "\<And>y r i. i < bb_rowlen b \<Longrightarrow> T y (T y r) i = r i"
    and cong: "\<And>y r r' i. \<lbrakk>\<And>j. j < bb_rowlen b \<Longrightarrow> r j = r' j; i < bb_rowlen b\<rbrakk> \<Longrightarrow> T y r i = T y r' i"
  shows "fst m2 = fst m"
proof (rule nth_equalityI)
  let ?len = "bb_rowlen b"
  have len: "length (fst m) = bb_rows b * ?len" using room by (simp add: bx_room_def)
  show "length (fst m2) = length (fst m)" using 1 2 by (simp add: rows_bent_def)
  fix k assume "k < length (fst m2)"
  then have k: "k < bb_rows b * ?len" using 1 2 len by (simp add: rows_bent_def)
  then have i: "k mod ?len < ?len" and y: "k div ?len < bb_rows b"
    by (cases "?len", simp, simp, simp add: less_mult_imp_div_less)
  have step1: "row_at ?len (fst m1) (k div ?len) j = (if on (k div ?len) then T (k div ?len) (row_at ?len (fst m) (k div ?len)) j
      else row_at ?len (fst m) (k div ?len) j)" if "j < ?len" for j
    using 1 that y set by (simp add: rows_bent_def replaces_def merge_set_all)
  have "row_at ?len (fst m2) (k div ?len) (k mod ?len) = row_at ?len (fst m) (k div ?len) (k mod ?len)"
  proof (cases "on (k div ?len)")
    case True
    have "row_at ?len (fst m2) (k div ?len) (k mod ?len) = T (k div ?len) (row_at ?len (fst m1) (k div ?len)) (k mod ?len)"
      using 2 i y set True by (simp add: rows_bent_def replaces_def merge_set_all)
    also have "\<dots> = T (k div ?len) (T (k div ?len) (row_at ?len (fst m) (k div ?len))) (k mod ?len)"
      by (rule cong[OF _ i]) (simp add: step1 True)
    finally show ?thesis using T[OF i] by simp
  next
    case False
    then show ?thesis using 2 i y step1[OF i] by (simp add: rows_bent_def)
  qed
  then show "fst m2 ! k = fst m ! k" by (simp add: row_at_def)
qed

lemma bx_endian_undoes:
  assumes "replaces x" "bx_room b m"
  shows "undoes (bx_endian x b) m"
proof (rule undoesI[where Q = "bx_room b"])
  let ?T = "\<lambda>y. endian_fun (amt x) (bx_gsz (bb_nbits b)) (bb_rowlen b)"
  let ?P = "\<lambda>m m'. rows_bent x b (bx_on x) ?T m m' \<and> bx_room b m"
  show "ok (bx_endian x b m) (\<lambda>m1. ?P m m1 \<and> bx_room b m1)"
    by (rule ok_mono[OF bx_endian_bent[OF assms(2)]])
       (use assms(2) in \<open>auto simp: bx_room_def rows_bent_def\<close>)
  show "ok (bx_endian x b m1) (?P m1)" if "bx_room b m1" for m1
    by (rule ok_mono[OF bx_endian_bent[OF that]]) (use that in simp)
  show "fst m2 = fst m" if "?P m m1" "?P m1 m2" for m1 m2
  proof (rule rows_bent_twice[OF conjunct1[OF that(1)] conjunct1[OF that(2)] assms])
    show "?T y (?T y r) i = r i" for y r i by (rule endian_fun_twice) simp
    show "?T y r i = ?T y r' i" if "\<And>j. j < bb_rowlen b \<Longrightarrow> r j = r' j" "i < bb_rowlen b" for y r r' i
      using computes_cong[OF endian_row_computes that] by simp
  qed
qed

text \<open>A slip of the bit clock, as the bus sees it.\<close>

lemma bx_slip_stream:
  assumes "replaces x" "bx_room b m"
  shows "ok (bx_slip x b m) (\<lambda>m'. \<forall>y<bb_rows b. \<forall>k<8 * bb_rowlen b.
    stream_bit (row_at (bb_rowlen b) (fst m') y) k = stream_bit (row_at (bb_rowlen b) (fst m) y)
      (if bx_on x y then (k + (amt x + 1 + rch x * 8)) mod (8 * bb_rowlen b) else k))"
proof (rule ok_mono[OF bx_slip_bent[OF assms(2)]], intro allI impI)
  let ?len = "bb_rowlen b" and ?bits = "amt x + 1 + rch x * 8"
  fix m' y k
  assume bent: "rows_bent x b (bx_on x) (\<lambda>y r. rot_byte r ?len ?bits) m m'" and y: "y < bb_rows b" and k: "k < 8 * ?len"
  have i: "k div 8 < ?len" using k by (simp add: less_mult_imp_div_less mult.commute)
  show "stream_bit (row_at ?len (fst m') y) k = stream_bit (row_at ?len (fst m) y)
      (if bx_on x y then (k + ?bits) mod (8 * ?len) else k)"
  proof (cases "bx_on x y")
    case True
    have "row_at ?len (fst m') y (k div 8) = rot_byte (row_at ?len (fst m) y) ?len ?bits (k div 8)"
      using bent y i True assms(1) by (simp add: rows_bent_def replaces_def merge_set_all)
    then have "stream_bit (row_at ?len (fst m') y) k = stream_bit (rot_byte (row_at ?len (fst m) y) ?len ?bits) k"
      by (simp add: stream_bit_def)
    then show ?thesis using rot_stream[OF k] True by simp
  next
    case False
    then have "row_at ?len (fst m') y (k div 8) = row_at ?len (fst m) y (k div 8)"
      using bent y i by (simp add: rows_bent_def)
    then show ?thesis using False by (simp add: stream_bit_def)
  qed
qed

end
