(* ===== verification/Codec.thy ===== *)
theory Codec
  imports BendSeg BendX
begin

text \<open>
  The C structs as the bytes the card holds: \<open>bend_t\<close>, \<open>bendx_t\<close>, \<open>bendx_chain_t\<close> and
  \<open>bend_segs_t\<close> of \<open>include/bend.h\<close> and \<open>include/bendx.h\<close>, which are declared without gaps (all
  members are bytes up to the aligned 32 bit seed) and are copied to files with \<open>write\<close> and
  \<open>memcpy\<close>. The contract of such a layout is the locale \<open>codec\<close>: fixed size, and a bijection
  between the values of the struct's shape and the byte strings of that size.
\<close>

section \<open>Layouts\<close>

locale codec =
  fixes enc :: "'a \<Rightarrow> u8 list" and dec :: "u8 list \<Rightarrow> 'a" and wd :: nat and shape :: "'a \<Rightarrow> bool"
  assumes enc_length: "shape x \<Longrightarrow> length (enc x) = wd"
    and dec_enc: "shape x \<Longrightarrow> dec (enc x) = x"
    and dec_shape: "length bs = wd \<Longrightarrow> shape (dec bs)"
    and enc_dec: "length bs = wd \<Longrightarrow> enc (dec bs) = bs"
begin

text \<open>What a sequence of reads finds after a sequence of writes.\<close>

lemma take_enc: "shape x \<Longrightarrow> take wd (enc x @ bs) = enc x"
  by (simp add: enc_length)

lemma drop_enc: "shape x \<Longrightarrow> drop wd (enc x @ bs) = bs"
  by (simp add: enc_length)

lemma dec_take: "shape x \<Longrightarrow> dec (take wd (enc x @ bs)) = x"
  by (simp add: enc_length dec_enc)

lemma enc_inj: "\<lbrakk>shape x; shape y; enc x = enc y\<rbrakk> \<Longrightarrow> x = y"
  by (metis dec_enc)

lemma take_shape: "wd \<le> length bs \<Longrightarrow> shape (dec (take wd bs))"
  by (rule dec_shape) simp

end

text \<open>An array of a struct is the concatenation of its elements.\<close>

definition array_bytes :: "('a \<Rightarrow> u8 list) \<Rightarrow> 'a list \<Rightarrow> u8 list" where
  "array_bytes enc xs = concat (map enc xs)"

primrec array_of_bytes :: "(u8 list \<Rightarrow> 'a) \<Rightarrow> nat \<Rightarrow> nat \<Rightarrow> u8 list \<Rightarrow> 'a list" where
  "array_of_bytes dec wd 0 bs = []"
| "array_of_bytes dec wd (Suc n) bs = dec (take wd bs) # array_of_bytes dec wd n (drop wd bs)"

context codec begin

lemma array_length: "\<forall>x\<in>set xs. shape x \<Longrightarrow> length (array_bytes enc xs) = length xs * wd"
  by (induction xs) (simp_all add: array_bytes_def enc_length)

lemma array_dec_enc: "\<forall>x\<in>set xs. shape x \<Longrightarrow> array_of_bytes dec wd (length xs) (array_bytes enc xs) = xs"
  by (induction xs) (simp_all add: array_bytes_def enc_length dec_enc)

lemma array_dec_length: "length (array_of_bytes dec wd n bs) = n"
  by (induction n arbitrary: bs) simp_all

lemma array_dec_shape: "length bs = n * wd \<Longrightarrow> \<forall>x\<in>set (array_of_bytes dec wd n bs). shape x"
proof (induction n arbitrary: bs)
  case (Suc n)
  have "\<forall>x\<in>set (array_of_bytes dec wd n (drop wd bs)). shape x"
    by (rule Suc.IH) (use Suc.prems in simp)
  then show ?case using Suc.prems by (simp add: dec_shape)
qed simp

lemma array_enc_dec: "length bs = n * wd \<Longrightarrow> array_bytes enc (array_of_bytes dec wd n bs) = bs"
proof (induction n arbitrary: bs)
  case (Suc n)
  then have "array_bytes enc (array_of_bytes dec wd n (drop wd bs)) = drop wd bs" by simp
  moreover have "enc (dec (take wd bs)) = take wd bs" using Suc.prems by (intro enc_dec) simp
  ultimately show ?case by (simp add: array_bytes_def)
qed (simp add: array_bytes_def)

end

section \<open>The seed: a little-endian word\<close>

definition le32 :: "u32 \<Rightarrow> u8 list" where
  "le32 v = [ucast v, ucast (drop_bit 8 v), ucast (drop_bit 16 v), ucast (drop_bit 24 v)]"

definition of_le32 :: "u8 list \<Rightarrow> u32" where
  "of_le32 bs = ucast (bs ! 0) OR push_bit 8 (ucast (bs ! 1)) OR push_bit 16 (ucast (bs ! 2)) OR push_bit 24 (ucast (bs ! 3))"

lemma u8_no_high_bits: "\<not> bit (v::u8) (8 + n)" "\<not> bit (v::u8) (16 + n)" "\<not> bit (v::u8) (24 + n)"
  using bit_imp_le_length[of v] by fastforce+

interpretation le32: codec le32 of_le32 4 "\<lambda>v. True"
proof
  show "of_le32 (le32 v) = v" for v
  proof (rule bit_word_eqI)
    fix n :: nat assume "n < LENGTH(32)"
    then consider "n < 8" | "8 \<le> n" "n < 16" | "16 \<le> n" "n < 24" | "24 \<le> n" "n < 32" by fastforce
    then show "bit (of_le32 (le32 v)) n = bit v n"
      by cases (auto simp: of_le32_def le32_def bit_or_iff bit_ucast_iff bit_push_bit_iff bit_drop_bit_eq)
  qed
  show "le32 (of_le32 bs) = bs" if len: "length bs = 4" for bs
  proof -
    obtain a b c d where bs: "bs = [a, b, c, d]" using len length4[of bs] by blast
    show ?thesis
      by (auto simp: bs of_le32_def le32_def u8_no_high_bits intro!: bit_word_eqI
          simp: bit_or_iff bit_ucast_iff bit_push_bit_iff bit_drop_bit_eq)
  qed
qed (simp_all add: le32_def)

section \<open>The structs\<close>

definition bend_bytes :: "bend_t \<Rightarrow> u8 list" where
  "bend_bytes b = b_route b @ [b_nbits b, b_bayer b, b_row_period b, b_hdiv b, b_vdiv b, b_trash_type b,
     b_trash_rate b, b_depth b, b_tap_dx b, b_tap_dy b] @ b_pad b @ le32 (b_seed b)"

definition bend_of_bytes :: "u8 list \<Rightarrow> bend_t" where
  "bend_of_bytes bs = \<lparr>b_route = take 16 bs, b_nbits = bs ! 16, b_bayer = bs ! 17, b_row_period = bs ! 18,
     b_hdiv = bs ! 19, b_vdiv = bs ! 20, b_trash_type = bs ! 21, b_trash_rate = bs ! 22, b_depth = bs ! 23,
     b_tap_dx = bs ! 24, b_tap_dy = bs ! 25, b_pad = [bs ! 26, bs ! 27], b_seed = of_le32 (drop 28 bs)\<rparr>"

definition bendx_bytes :: "bendx_t \<Rightarrow> u8 list" where
  "bendx_bytes x = [x_kind x, x_amount x, x_reach x, x_lanes x, x_mix x, x_rowmod x] @ x_pad x @ le32 (x_seed x)"

definition bendx_of_bytes :: "u8 list \<Rightarrow> bendx_t" where
  "bendx_of_bytes bs = \<lparr>x_kind = bs ! 0, x_amount = bs ! 1, x_reach = bs ! 2, x_lanes = bs ! 3, x_mix = bs ! 4,
     x_rowmod = bs ! 5, x_pad = [bs ! 6, bs ! 7], x_seed = of_le32 (drop 8 bs)\<rparr>"

definition chain_bytes :: "bendx_chain_t \<Rightarrow> u8 list" where
  "chain_bytes c = array_bytes bendx_bytes (ch_item c) @ [ch_n c] @ ch_pad c"

definition chain_of_bytes :: "u8 list \<Rightarrow> bendx_chain_t" where
  "chain_of_bytes bs = \<lparr>ch_item = array_of_bytes bendx_of_bytes 12 4 (take 48 bs), ch_n = bs ! 48,
     ch_pad = [bs ! 49, bs ! 50, bs ! 51]\<rparr>"

definition segs_bytes :: "bend_segs_t \<Rightarrow> u8 list" where
  "segs_bytes s = [g_layout s, g_active s, g_size s, g_pad s] @ g_slot s @ array_bytes bend_bytes (g_b s)"

definition segs_of_bytes :: "u8 list \<Rightarrow> bend_segs_t" where
  "segs_of_bytes bs = \<lparr>g_layout = bs ! 0, g_active = bs ! 1, g_size = bs ! 2, g_pad = bs ! 3,
     g_slot = take 4 (drop 4 bs), g_b = array_of_bytes bend_of_bytes 32 3 (drop 8 bs)\<rparr>"

lemma length2: "length xs = 2 \<longleftrightarrow> (\<exists>a b. xs = [a, b])"
  by (auto simp: length_Suc_conv numeral_eq_Suc)

lemma length3: "length xs = 3 \<longleftrightarrow> (\<exists>a b c. xs = [a, b, c])"
  by (auto simp: length_Suc_conv numeral_eq_Suc)

text \<open>A list from its elements.\<close>

lemma list_from_nth: "xs = ys \<longleftrightarrow> length xs = length ys \<and> (\<forall>i\<in>set [0..<length ys]. xs ! i = ys ! i)"
  by (auto intro: nth_equalityI)

interpretation bend_codec: codec bend_bytes bend_of_bytes 32 bend_shape
proof
  fix x :: bend_t and bs :: "u8 list"
  show "length (bend_bytes x) = 32" if "bend_shape x"
    using that by (simp add: bend_bytes_def bend_shape_def le32.enc_length BEND_MAX_BITS_def)
  show "bend_of_bytes (bend_bytes x) = x" if "bend_shape x"
    using that by (auto simp: bend_bytes_def bend_of_bytes_def bend_shape_def BEND_MAX_BITS_def nth_append length2 le32.dec_enc)
  show "bend_shape (bend_of_bytes bs)" if "length bs = 32"
    using that by (simp add: bend_of_bytes_def bend_shape_def BEND_MAX_BITS_def)
  show "bend_bytes (bend_of_bytes bs) = bs" if "length bs = 32"
  proof -
    have "length (drop 28 bs) = 4" using that by simp
    then have "le32 (of_le32 (drop 28 bs)) = drop 28 bs" by (rule le32.enc_dec)
    moreover have "bs = take 16 bs @ [bs ! 16, bs ! 17, bs ! 18, bs ! 19, bs ! 20, bs ! 21, bs ! 22, bs ! 23, bs ! 24,
        bs ! 25, bs ! 26, bs ! 27] @ drop 28 bs"
      using that Cons_nth_drop_Suc[of 16 bs] Cons_nth_drop_Suc[of 17 bs] Cons_nth_drop_Suc[of 18 bs] Cons_nth_drop_Suc[of 19 bs]
        Cons_nth_drop_Suc[of 20 bs] Cons_nth_drop_Suc[of 21 bs] Cons_nth_drop_Suc[of 22 bs] Cons_nth_drop_Suc[of 23 bs]
        Cons_nth_drop_Suc[of 24 bs] Cons_nth_drop_Suc[of 25 bs] Cons_nth_drop_Suc[of 26 bs] Cons_nth_drop_Suc[of 27 bs]
        append_take_drop_id[of 16 bs] by simp
    ultimately show ?thesis by (simp add: bend_bytes_def bend_of_bytes_def)
  qed
qed

interpretation bendx_codec: codec bendx_bytes bendx_of_bytes 12 bendx_shape
proof
  fix x :: bendx_t and bs :: "u8 list"
  show "length (bendx_bytes x) = 12" if "bendx_shape x"
    using that by (simp add: bendx_bytes_def bendx_shape_def le32.enc_length)
  show "bendx_of_bytes (bendx_bytes x) = x" if "bendx_shape x"
    using that by (auto simp: bendx_bytes_def bendx_of_bytes_def bendx_shape_def length2 le32.dec_enc)
  show "bendx_shape (bendx_of_bytes bs)" if "length bs = 12"
    using that by (simp add: bendx_of_bytes_def bendx_shape_def)
  show "bendx_bytes (bendx_of_bytes bs) = bs" if "length bs = 12"
  proof -
    have "length (drop 8 bs) = 4" using that by simp
    then have "le32 (of_le32 (drop 8 bs)) = drop 8 bs" by (rule le32.enc_dec)
    moreover have "bs = [bs ! 0, bs ! 1, bs ! 2, bs ! 3, bs ! 4, bs ! 5, bs ! 6, bs ! 7] @ drop 8 bs"
      using that Cons_nth_drop_Suc[of 0 bs] Cons_nth_drop_Suc[of 1 bs] Cons_nth_drop_Suc[of 2 bs] Cons_nth_drop_Suc[of 3 bs]
        Cons_nth_drop_Suc[of 4 bs] Cons_nth_drop_Suc[of 5 bs] Cons_nth_drop_Suc[of 6 bs] Cons_nth_drop_Suc[of 7 bs] by (simp add: eval_nat_numeral)
    ultimately show ?thesis by (simp add: bendx_bytes_def bendx_of_bytes_def)
  qed
qed

interpretation chain_codec: codec chain_bytes chain_of_bytes 52 chain_shape
proof
  fix x :: bendx_chain_t and bs :: "u8 list"
  show "length (chain_bytes x) = 52" if "chain_shape x"
    using that by (simp add: chain_bytes_def chain_shape_def bendx_codec.array_length)
  show "chain_of_bytes (chain_bytes x) = x" if "chain_shape x"
  proof -
    have "length (array_bytes bendx_bytes (ch_item x)) = 48" "array_of_bytes bendx_of_bytes 12 4 (array_bytes bendx_bytes (ch_item x)) = ch_item x"
      using that bendx_codec.array_length[of "ch_item x"] bendx_codec.array_dec_enc[of "ch_item x"]
      by (simp_all add: chain_shape_def)
    then show ?thesis
      using that by (auto simp: chain_bytes_def chain_of_bytes_def chain_shape_def nth_append length3)
  qed
  show "chain_shape (chain_of_bytes bs)" if "length bs = 52"
    using that bendx_codec.array_dec_shape[of "take 48 bs" 4]
    by (simp add: chain_of_bytes_def chain_shape_def bendx_codec.array_dec_length)
  show "chain_bytes (chain_of_bytes bs) = bs" if "length bs = 52"
  proof -
    have "bs = take 48 bs @ [bs ! 48, bs ! 49, bs ! 50, bs ! 51]"
      using that Cons_nth_drop_Suc[of 48 bs] Cons_nth_drop_Suc[of 49 bs] Cons_nth_drop_Suc[of 50 bs] Cons_nth_drop_Suc[of 51 bs]
        append_take_drop_id[of 48 bs] by simp
    moreover have "array_bytes bendx_bytes (array_of_bytes bendx_of_bytes 12 4 (take 48 bs)) = take 48 bs"
      using that by (intro bendx_codec.array_enc_dec) simp
    ultimately show ?thesis by (simp add: chain_bytes_def chain_of_bytes_def)
  qed
qed

interpretation segs_codec: codec segs_bytes segs_of_bytes 104 segs_shape
proof
  fix x :: bend_segs_t and bs :: "u8 list"
  show "length (segs_bytes x) = 104" if "segs_shape x"
    using that by (simp add: segs_bytes_def segs_shape_def bend_codec.array_length)
  show "segs_of_bytes (segs_bytes x) = x" if "segs_shape x"
    using that bend_codec.array_dec_enc[of "g_b x"]
    by (auto simp: segs_bytes_def segs_of_bytes_def segs_shape_def)
  show "segs_shape (segs_of_bytes bs)" if "length bs = 104"
    using that bend_codec.array_dec_shape[of "drop 8 bs" 3]
    by (simp add: segs_of_bytes_def segs_shape_def bend_codec.array_dec_length)
  show "segs_bytes (segs_of_bytes bs) = bs" if "length bs = 104"
  proof -
    have "bs = [bs ! 0, bs ! 1, bs ! 2, bs ! 3] @ take 4 (drop 4 bs) @ drop 8 bs"
      using that Cons_nth_drop_Suc[of 0 bs] Cons_nth_drop_Suc[of 1 bs] Cons_nth_drop_Suc[of 2 bs] Cons_nth_drop_Suc[of 3 bs]
        append_take_drop_id[of 4 "drop 4 bs"] by (simp add: eval_nat_numeral)
    moreover have "array_bytes bend_bytes (array_of_bytes bend_of_bytes 32 3 (drop 8 bs)) = drop 8 bs"
      using that by (intro bend_codec.array_enc_dec) simp
    ultimately show ?thesis by (simp add: segs_bytes_def segs_of_bytes_def)
  qed
qed

end
