(* ===== verification/SegConf.thy ===== *)
theory SegConf
  imports Codec BendRandom
begin

text \<open>
  The configuration block's bends (\<open>core/bend_seg.c\<close>): which matrix a region of the frame uses,
  which region is being edited, which preset each region came from, and the preparation every
  exposure makes. The record holds the six fields of \<open>conf\<close> the bend sources touch.
\<close>

record conf_t =
  cf_bitbend :: bend_t
  cf_bend_segs :: bend_segs_t
  cf_bendx :: bendx_chain_t
  cf_bitbend_enable :: int
  cf_bendx_enable :: int
  cf_bitbend_simple :: int

definition conf_shape :: "conf_t \<Rightarrow> bool" where
  "conf_shape cf \<longleftrightarrow> bend_shape (cf_bitbend cf) \<and> segs_shape (cf_bend_segs cf) \<and> chain_shape (cf_bendx cf)"

section \<open>Operations\<close>

text \<open>\<open>bend_seg_conf\<close> returns a pointer: what it points at, and the block with that changed.\<close>

definition bend_seg_conf :: "conf_t \<Rightarrow> int \<Rightarrow> bend_t" where
  "bend_seg_conf cf seg =
     (if seg \<le> 0 \<or> int BEND_SEG_MAX \<le> seg then cf_bitbend cf else g_b (cf_bend_segs cf) ! nat (seg - 1))"

definition bend_seg_conf_put :: "conf_t \<Rightarrow> int \<Rightarrow> bend_t \<Rightarrow> conf_t" where
  "bend_seg_conf_put cf seg b =
     (if seg \<le> 0 \<or> int BEND_SEG_MAX \<le> seg then cf\<lparr>cf_bitbend := b\<rparr>
      else cf\<lparr>cf_bend_segs := (cf_bend_segs cf)\<lparr>g_b := (g_b (cf_bend_segs cf))[nat (seg - 1) := b]\<rparr>\<rparr>)"

definition bend_seg_n :: "conf_t \<Rightarrow> int" where
  "bend_seg_n cf = bend_seg_count (uint (g_layout (cf_bend_segs cf)))"

definition bend_seg_active :: "conf_t \<Rightarrow> int" where
  "bend_seg_active cf = (let a = uint (g_active (cf_bend_segs cf)) in if 0 \<le> a \<and> a < bend_seg_n cf then a else 0)"

definition bend_seg_set_active :: "conf_t \<Rightarrow> int \<Rightarrow> conf_t" where
  "bend_seg_set_active cf seg =
     (let n = bend_seg_n cf; seg = (if seg < 0 then 0 else seg); seg = (if n \<le> seg then n - 1 else seg)
      in cf\<lparr>cf_bend_segs := (cf_bend_segs cf)\<lparr>g_active := word_of_int seg\<rparr>\<rparr>)"

definition bend_seg_cur :: "conf_t \<Rightarrow> bend_t" where
  "bend_seg_cur cf = bend_seg_conf cf (bend_seg_active cf)"

definition bend_seg_slot :: "conf_t \<Rightarrow> int \<Rightarrow> int" where
  "bend_seg_slot cf seg =
     (if seg < 0 \<or> int BEND_SEG_MAX \<le> seg then - 1
      else let v = uint (g_slot (cf_bend_segs cf) ! nat seg) in if 0 < v \<and> v \<le> 100 then v - 1 else - 1)"

definition bend_seg_set_slot :: "conf_t \<Rightarrow> int \<Rightarrow> int \<Rightarrow> conf_t" where
  "bend_seg_set_slot cf seg slot =
     (if seg < 0 \<or> int BEND_SEG_MAX \<le> seg then cf
      else cf\<lparr>cf_bend_segs := (cf_bend_segs cf)\<lparr>g_slot := (g_slot (cf_bend_segs cf))[nat seg :=
        (if 0 \<le> slot \<and> slot \<le> 99 then word_of_int (slot + 1) else 0)]\<rparr>\<rparr>)"

definition bend_seg_detach :: "conf_t \<Rightarrow> conf_t" where
  "bend_seg_detach cf = bend_seg_set_slot cf (bend_seg_active cf) (- 1)"

definition bend_seg_prep :: "conf_t \<Rightarrow> nat \<Rightarrow> conf_t" where
  "bend_seg_prep cf nbits =
     (let cf = cf\<lparr>cf_bend_segs := bend_seg_sanitize (cf_bend_segs cf) nbits\<rparr>;
          cf = cf\<lparr>cf_bitbend := bend_sanitize (cf_bitbend cf) nbits\<rparr>;
          n = bend_seg_n cf in
      if cf_bitbend_simple cf \<noteq> 0 then
        fold (\<lambda>i cf. bend_seg_conf_put cf (int i) (fst (bend_simplify (bend_seg_conf cf (int i))))) [0..<nat n] cf
      else cf)"

definition bend_seg_any :: "conf_t \<Rightarrow> bool" where
  "bend_seg_any cf \<longleftrightarrow> (\<exists>i\<in>set [0..<nat (bend_seg_n cf)]. \<not> bend_is_identity (bend_seg_conf cf (int i)))"

section \<open>Regions and their matrices\<close>

lemma seg_n_range: "1 \<le> bend_seg_n cf \<and> bend_seg_n cf \<le> int BEND_SEG_MAX"
  using bend_seg_count_range[of "uint (g_layout (cf_bend_segs cf))"] by (simp add: bend_seg_n_def)

lemma seg_conf_put_get:
  assumes "conf_shape cf" "0 \<le> i" "i < int BEND_SEG_MAX" "0 \<le> j" "j < int BEND_SEG_MAX"
  shows "bend_seg_conf (bend_seg_conf_put cf i b) j = (if i = j then b else bend_seg_conf cf j)"
  using assms by (auto simp: bend_seg_conf_def bend_seg_conf_put_def conf_shape_def segs_shape_def nth_list_update)

text \<open>The region being edited always exists, whatever the block holds.\<close>

lemma seg_active_range: "0 \<le> bend_seg_active cf \<and> bend_seg_active cf < bend_seg_n cf"
  using seg_n_range[of cf] by (simp add: bend_seg_active_def Let_def)

lemma seg_set_active:
  "bend_seg_active (bend_seg_set_active cf seg) = (if seg < 0 then 0 else if bend_seg_n cf \<le> seg then bend_seg_n cf - 1 else seg)"
proof -
  define t where "t = (let seg = (if seg < 0 then 0 else seg) in if bend_seg_n cf \<le> seg then bend_seg_n cf - 1 else seg)"
  have t: "0 \<le> t" "t < bend_seg_n cf" "t < 256"
    using seg_n_range[of cf] by (auto simp: t_def Let_def)
  then have "uint (word_of_int t :: u8) = t" by simp
  moreover have "bend_seg_n (bend_seg_set_active cf seg) = bend_seg_n cf"
    by (simp add: bend_seg_n_def bend_seg_set_active_def Let_def)
  moreover have "g_active (cf_bend_segs (bend_seg_set_active cf seg)) = word_of_int t"
    by (simp add: bend_seg_set_active_def t_def Let_def)
  ultimately have "bend_seg_active (bend_seg_set_active cf seg) = t"
    using t by (simp add: bend_seg_active_def Let_def)
  then show ?thesis using seg_n_range[of cf] by (simp add: t_def Let_def)
qed

lemma slot_word: "\<lbrakk>0 \<le> s; s \<le> 99\<rbrakk> \<Longrightarrow> uint (word_of_int (s + 1) :: u8) = s + 1"
  by (subst uint_word_of_int) simp

lemma slot_code: "\<lbrakk>0 \<le> s; s \<le> 99\<rbrakk> \<Longrightarrow> uint (word_of_int s + 1 :: u8) = s + 1"
  using slot_word[of s] by simp

lemma seg_slot_set:
  assumes "conf_shape cf" "0 \<le> i" "i < int BEND_SEG_MAX"
  shows "bend_seg_slot (bend_seg_set_slot cf i slot) j =
    (if i = j then (if 0 \<le> slot \<and> slot \<le> 99 then slot else - 1) else bend_seg_slot cf j)"
  using assms
  by (cases "nat i = nat j")
    (auto simp: bend_seg_slot_def bend_seg_set_slot_def conf_shape_def segs_shape_def nth_list_update Let_def slot_code)

section \<open>Preparation for an exposure\<close>

definition conf_ok :: "conf_t \<Rightarrow> bool" where
  "conf_ok cf \<longleftrightarrow> bend_ok (cf_bitbend cf) \<and> segs_ok (cf_bend_segs cf)"

lemma seg_conf_ok: "\<lbrakk>conf_ok cf; 0 \<le> i; i < int BEND_SEG_MAX\<rbrakk> \<Longrightarrow> bend_ok (bend_seg_conf cf i)"
  by (auto simp: conf_ok_def segs_ok_def segs_shape_def bend_seg_conf_def)

lemma seg_conf_put_ok: "\<lbrakk>conf_ok cf; bend_ok b\<rbrakk> \<Longrightarrow> conf_ok (bend_seg_conf_put cf i b)"
  by (auto simp: conf_ok_def segs_ok_def segs_shape_def bend_seg_conf_put_def bend_ok_shape intro!: list_update_all
      dest!: set_update_subset_insert[THEN subsetD])

text \<open>The pass over the regions, with the frame condition on the ones it does not reach.\<close>

definition simplified_upto :: "nat \<Rightarrow> conf_t \<Rightarrow> conf_t \<Rightarrow> bool" where
  "simplified_upto k cf cf' \<longleftrightarrow> conf_ok cf' \<and> conf_shape cf' \<and> bend_seg_n cf' = bend_seg_n cf \<and>
     cf_bendx cf' = cf_bendx cf \<and>
     (\<forall>i<BEND_SEG_MAX. bend_seg_conf cf' (int i) =
       (if i < k then fst (bend_simplify (bend_seg_conf cf (int i))) else bend_seg_conf cf (int i)))"

lemma seg_put_n [simp]: "bend_seg_n (bend_seg_conf_put cf i b) = bend_seg_n cf"
  by (simp add: bend_seg_n_def bend_seg_conf_put_def)

lemma seg_put_bendx [simp]: "cf_bendx (bend_seg_conf_put cf i b) = cf_bendx cf"
  by (simp add: bend_seg_conf_put_def)

lemma seg_put_shape:
  "\<lbrakk>conf_shape cf; bend_shape b\<rbrakk> \<Longrightarrow> conf_shape (bend_seg_conf_put cf i b)"
  by (auto simp: conf_shape_def segs_shape_def bend_seg_conf_put_def dest!: set_update_subset_insert[THEN subsetD])

lemma simplify_pass:
  assumes "conf_ok cf" "conf_shape cf" "k \<le> BEND_SEG_MAX"
  shows "simplified_upto k cf (fold (\<lambda>i cf. bend_seg_conf_put cf (int i)
    (fst (bend_simplify (bend_seg_conf cf (int i))))) [0..<k] cf)"
  using assms(3)
proof (induction k)
  case 0
  then show ?case using assms by (simp add: simplified_upto_def)
next
  case (Suc k)
  define c where "c = fold (\<lambda>i cf. bend_seg_conf_put cf (int i)
    (fst (bend_simplify (bend_seg_conf cf (int i))))) [0..<k] cf"
  have I: "simplified_upto k cf c" using Suc by (simp add: c_def)
  have k: "k < BEND_SEG_MAX" using Suc.prems by simp
  have same: "bend_seg_conf c (int k) = bend_seg_conf cf (int k)" using I k by (simp add: simplified_upto_def)
  have ok: "bend_ok (fst (bend_simplify (bend_seg_conf cf (int k))))"
    using seg_conf_ok[OF assms(1), of "int k"] k by (simp add: bend_simplify_ok)
  have put: "bend_seg_conf (bend_seg_conf_put c (int k) b) (int j) = (if k = j then b else bend_seg_conf c (int j))"
    if "j < BEND_SEG_MAX" for j b
    using seg_conf_put_get[of c "int k" "int j" b] I k that by (simp add: simplified_upto_def)
  have "simplified_upto (Suc k) cf (bend_seg_conf_put c (int k) (fst (bend_simplify (bend_seg_conf cf (int k)))))"
    using I put ok bend_ok_shape[OF ok]
    by (auto simp: simplified_upto_def seg_conf_put_ok seg_put_shape less_Suc_eq)
  then show ?case by (simp add: c_def[symmetric] same)
qed

lemma sanitized_conf:
  assumes "conf_shape cf" "2 \<le> nb" "nb \<le> 16"
  shows "conf_ok (cf\<lparr>cf_bend_segs := bend_seg_sanitize (cf_bend_segs cf) nb, cf_bitbend := bend_sanitize (cf_bitbend cf) nb\<rparr>)"
    "conf_shape (cf\<lparr>cf_bend_segs := bend_seg_sanitize (cf_bend_segs cf) nb, cf_bitbend := bend_sanitize (cf_bitbend cf) nb\<rparr>)"
  using assms bend_sanitize_ok[of nb "cf_bitbend cf"] bend_seg_sanitize_ok[of "cf_bend_segs cf" nb]
  by (simp_all add: conf_ok_def conf_shape_def bend_ok_shape segs_ok_shape)

lemma seg_prep_ok:
  assumes "conf_shape cf" "2 \<le> nb" "nb \<le> 16"
  shows "conf_ok (bend_seg_prep cf nb)"
    "cf_bitbend_simple cf \<noteq> 0 \<Longrightarrow> 0 \<le> i \<Longrightarrow> i < bend_seg_n (bend_seg_prep cf nb) \<Longrightarrow>
      pure_route (bend_seg_conf (bend_seg_prep cf nb) i)"
proof -
  define c where "c = cf\<lparr>cf_bend_segs := bend_seg_sanitize (cf_bend_segs cf) nb, cf_bitbend := bend_sanitize (cf_bitbend cf) nb\<rparr>"
  have c: "conf_ok c" "conf_shape c" using sanitized_conf[OF assms] by (simp_all add: c_def)
  define F where "F = fold (\<lambda>i cf. bend_seg_conf_put cf (int i)
    (fst (bend_simplify (bend_seg_conf cf (int i))))) [0..<nat (bend_seg_n c)] c"
  have prep: "bend_seg_prep cf nb = (if cf_bitbend_simple cf \<noteq> 0 then F else c)"
    by (simp add: bend_seg_prep_def Let_def c_def F_def)
  have n: "nat (bend_seg_n c) \<le> BEND_SEG_MAX" using seg_n_range[of c] by (simp add: nat_le_iff)
  have pass: "simplified_upto (nat (bend_seg_n c)) c F"
    unfolding F_def by (rule simplify_pass[OF c n])
  show "conf_ok (bend_seg_prep cf nb)" using pass c by (simp add: prep simplified_upto_def)
  show "pure_route (bend_seg_conf (bend_seg_prep cf nb) i)"
    if "cf_bitbend_simple cf \<noteq> 0" "0 \<le> i" "i < bend_seg_n (bend_seg_prep cf nb)"
  proof -
    have i: "nat i < nat (bend_seg_n c)" "nat i < BEND_SEG_MAX"
      using pass that n by (auto simp: prep simplified_upto_def)
    have "bend_seg_conf F (int (nat i)) = fst (bend_simplify (bend_seg_conf c (int (nat i))))"
      using pass i unfolding simplified_upto_def by presburger
    then show ?thesis
      using that(1,2)
      by (auto simp: prep pure_route_def in_set_conv_nth bend_simplify_pure BEND_MAX_BITS_def)
  qed
qed

end
