(* ===== verification/Card.thy ===== *)
theory Card
  imports Prelude "HOL-Library.Word"
begin

text \<open>
  The memory card as the bend sources use it: \<open>opendir\<close>/\<open>readdir\<close>, \<open>open\<close>, \<open>read\<close>, \<open>write\<close>,
  \<open>remove\<close> and \<open>mkdir_if_not_exist\<close> are the camera's, so they are a record of functions over
  the card's state, which the operations of the stores take as an argument. \<open>card_laws\<close> is
  what those functions are documented to do, and \<open>mem_ops\<close> is a card of limited room that
  obeys it.
\<close>

section \<open>Operations\<close>

text \<open>
  \<open>co_read\<close> gives the bytes that successive \<open>read\<close> calls return before the end of the file or
  an error, or \<open>None\<close> when the file cannot be opened. \<open>co_write\<close> appends to the file just
  created and returns what \<open>write\<close> returns. \<open>co_list\<close> is the directory in its own order.
\<close>

record 'c card_ops =
  co_list :: "'c \<Rightarrow> string \<Rightarrow> string list option"
  co_read :: "'c \<Rightarrow> string \<Rightarrow> 8 word list option"
  co_create :: "'c \<Rightarrow> string \<Rightarrow> bool \<times> 'c"
  co_write :: "'c \<Rightarrow> string \<Rightarrow> 8 word list \<Rightarrow> int \<times> 'c"
  co_remove :: "'c \<Rightarrow> string \<Rightarrow> 'c"
  co_mkdir :: "'c \<Rightarrow> string \<Rightarrow> 'c"

text \<open>A chain of \<open>write(...) == n && write(...) == n\<close>: it stops at the first short write.\<close>

fun write_chunks :: "'c card_ops \<Rightarrow> 'c \<Rightarrow> string \<Rightarrow> 8 word list list \<Rightarrow> bool \<times> 'c" where
  "write_chunks ops c p [] = (True, c)"
| "write_chunks ops c p (x # xs) =
     (case co_write ops c p x of (n, c') \<Rightarrow> if n = int (length x) then write_chunks ops c' p xs else (False, c'))"

text \<open>Create, write the chunks, remove the file when a write was short.\<close>

definition write_file :: "'c card_ops \<Rightarrow> 'c \<Rightarrow> string \<Rightarrow> 8 word list list \<Rightarrow> bool \<times> 'c" where
  "write_file ops c p xs =
     (case co_create ops c p of (opened, c) \<Rightarrow>
       if \<not> opened then (False, c)
       else case write_chunks ops c p xs of (good, c) \<Rightarrow>
         if good then (True, c) else (False, co_remove ops c p))"

text \<open>\<open>read(fd, p, n) == n\<close>: the bytes read and the rest of the file.\<close>

definition rd_n :: "nat \<Rightarrow> 8 word list \<Rightarrow> (8 word list \<times> 8 word list) option" where
  "rd_n n bs = (if n \<le> length bs then Some (take n bs, drop n bs) else None)"

lemma rd_n_append: "length x = n \<Longrightarrow> rd_n n (x @ bs) = Some (x, bs)"
  by (simp add: rd_n_def)

lemma rd_n_Some: "rd_n n bs = Some (x, r) \<longleftrightarrow> length x = n \<and> bs = x @ r"
  by (auto simp: rd_n_def)

section \<open>The C strings of file names\<close>

definition cat :: "string \<Rightarrow> nat \<Rightarrow> char" where
  "cat s i = (if i < length s then s ! i else CHR 0x00)"

definition up_char :: "char \<Rightarrow> char" where
  "up_char c = (let n = (of_char c :: nat) in if 97 \<le> n \<and> n \<le> 122 then char_of (n - 97 + 65) else c)"

lemma of_char_up: "(of_char (up_char c) :: nat) =
  (if 97 \<le> (of_char c :: nat) \<and> (of_char c :: nat) \<le> 122 then of_char c - 32 else of_char c)"
proof (cases "97 \<le> (of_char c :: nat) \<and> (of_char c :: nat) \<le> 122")
  case True
  then have "of_char c - 32 < (256::nat)" by arith
  then show ?thesis using True by (simp add: up_char_def Let_def)
next
  case False
  then have "up_char c = c" by (simp only: up_char_def Let_def if_False)
  then show ?thesis using False by (simp only: if_False)
qed

lemma char_eq_nat: "c = d \<longleftrightarrow> (of_char c :: nat) = of_char d"
  by simp

lemma up_char_fix: "\<not> (65 \<le> (of_char d :: nat) \<and> (of_char d :: nat) \<le> 90) \<Longrightarrow> up_char c = d \<longleftrightarrow> c = d \<and> \<not> (97 \<le> (of_char d :: nat) \<and> (of_char d :: nat) \<le> 122)"
  unfolding char_eq_nat of_char_up by auto

section \<open>What a card does\<close>

definition card_laws :: "'c card_ops \<Rightarrow> bool" where
  "card_laws ops \<longleftrightarrow>
     (\<forall>c p c'. co_create ops c p = (True, c') \<longrightarrow> co_read ops c' p = Some []) \<and>
     (\<forall>c p q. q \<noteq> p \<longrightarrow> co_read ops (snd (co_create ops c p)) q = co_read ops c q) \<and>
     (\<forall>c p x c' bs. co_read ops c p = Some bs \<longrightarrow> co_write ops c p x = (int (length x), c') \<longrightarrow>
        co_read ops c' p = Some (bs @ x)) \<and>
     (\<forall>c p x q. q \<noteq> p \<longrightarrow> co_read ops (snd (co_write ops c p x)) q = co_read ops c q) \<and>
     (\<forall>c p. co_read ops (co_remove ops c p) p = None) \<and>
     (\<forall>c p q. q \<noteq> p \<longrightarrow> co_read ops (co_remove ops c p) q = co_read ops c q) \<and>
     (\<forall>c d q. co_read ops (co_mkdir ops c d) q = co_read ops c q) \<and>
     (\<forall>c d n. CHR ''/'' \<notin> set n \<longrightarrow> CHR 0x00 \<notin> set n \<longrightarrow> co_read ops c (d @ ''/'' @ n) \<noteq> None \<longrightarrow>
        (\<exists>ns. co_list ops c d = Some ns \<and> (\<exists>m\<in>set ns. CHR 0x00 \<notin> set m \<and> map up_char m = map up_char n)))"

lemmas card_law = card_laws_def[THEN iffD1]

lemma card_create: "\<lbrakk>card_laws ops; co_create ops c p = (True, c')\<rbrakk> \<Longrightarrow> co_read ops c' p = Some []"
  by (rule card_law[THEN conjunct1, rule_format])

lemma card_create_other: "\<lbrakk>card_laws ops; co_create ops c p = (b, c'); q \<noteq> p\<rbrakk> \<Longrightarrow> co_read ops c' q = co_read ops c q"
  using card_law[THEN conjunct2, THEN conjunct1, rule_format, of ops q p c] by simp

lemma card_write:
  "\<lbrakk>card_laws ops; co_read ops c p = Some bs; co_write ops c p x = (int (length x), c')\<rbrakk> \<Longrightarrow>
   co_read ops c' p = Some (bs @ x)"
  by (rule card_law[THEN conjunct2, THEN conjunct2, THEN conjunct1, rule_format])

lemma card_write_other: "\<lbrakk>card_laws ops; co_write ops c p x = (k, c'); q \<noteq> p\<rbrakk> \<Longrightarrow> co_read ops c' q = co_read ops c q"
  using card_law[THEN conjunct2, THEN conjunct2, THEN conjunct2, THEN conjunct1, rule_format, of ops q p c x] by simp

lemma card_remove: "card_laws ops \<Longrightarrow> co_read ops (co_remove ops c p) q = (if q = p then None else co_read ops c q)"
  using card_law[THEN conjunct2, THEN conjunct2, THEN conjunct2, THEN conjunct2, THEN conjunct1, rule_format, of ops c p]
    card_law[THEN conjunct2, THEN conjunct2, THEN conjunct2, THEN conjunct2, THEN conjunct2, THEN conjunct1, rule_format, of ops q p c]
  by (cases "q = p") simp_all

lemma card_mkdir: "card_laws ops \<Longrightarrow> co_read ops (co_mkdir ops c d) q = co_read ops c q"
  by (rule card_law[THEN conjunct2, THEN conjunct2, THEN conjunct2, THEN conjunct2, THEN conjunct2, THEN conjunct2, THEN conjunct1, rule_format])

lemma card_listed:
  "\<lbrakk>card_laws ops; co_read ops c (d @ ''/'' @ n) = Some bs; CHR ''/'' \<notin> set n; CHR 0x00 \<notin> set n\<rbrakk> \<Longrightarrow>
   \<exists>ns. co_list ops c d = Some ns \<and> (\<exists>m\<in>set ns. CHR 0x00 \<notin> set m \<and> map up_char m = map up_char n)"
  using card_law[THEN conjunct2, THEN conjunct2, THEN conjunct2, THEN conjunct2, THEN conjunct2, THEN conjunct2, THEN conjunct2,
      rule_format, of ops n c d] by (simp only: option.distinct not_False_eq_True)

lemma write_chunks_read:
  "\<lbrakk>card_laws ops; write_chunks ops c p xs = (True, c'); co_read ops c p = Some bs\<rbrakk> \<Longrightarrow>
   co_read ops c' p = Some (bs @ concat xs)"
proof (induction xs arbitrary: c bs)
  case (Cons x xs)
  obtain n c1 where w: "co_write ops c p x = (n, c1)" by fastforce
  then have n: "n = int (length x)" "write_chunks ops c1 p xs = (True, c')"
    using Cons.prems(2) by (simp_all split: if_splits)
  then have "co_read ops c1 p = Some (bs @ x)" using card_write[OF Cons.prems(1,3)] w by simp
  then show ?case using Cons.IH[OF Cons.prems(1) n(2)] by simp
qed simp

lemma write_chunks_other:
  "\<lbrakk>card_laws ops; write_chunks ops c p xs = (b, c'); q \<noteq> p\<rbrakk> \<Longrightarrow> co_read ops c' q = co_read ops c q"
proof (induction xs arbitrary: c)
  case (Cons x xs)
  obtain n c1 where w: "co_write ops c p x = (n, c1)" by fastforce
  have "co_read ops c1 q = co_read ops c q" by (rule card_write_other[OF Cons.prems(1) w Cons.prems(3)])
  then show ?case using Cons.IH[OF Cons.prems(1) _ Cons.prems(3), of c1] Cons.prems(2) w by (simp split: if_splits)
qed simp

text \<open>A file is either written completely or, when a write was short, not there.\<close>

lemma write_file_read:
  assumes "card_laws ops" "write_file ops c p xs = (b, c')"
  shows "b \<Longrightarrow> co_read ops c' p = Some (concat xs)"
    and "q \<noteq> p \<Longrightarrow> co_read ops c' q = co_read ops c q"
    and "\<not> b \<Longrightarrow> fst (co_create ops c p) \<Longrightarrow> co_read ops c' p = None"
proof -
  obtain o1 c1 where o1: "co_create ops c p = (o1, c1)" by fastforce
  obtain g c2 where g: "write_chunks ops c1 p xs = (g, c2)" by fastforce
  note w = assms(2)[unfolded write_file_def o1, simplified, unfolded g, simplified]
  show "co_read ops c' p = Some (concat xs)" if b
  proof -
    from w that have "o1" "g" "c' = c2" by (auto split: if_splits)
    then show ?thesis using write_chunks_read[OF assms(1), of c1 p xs c2 "[]"] card_create[OF assms(1)] o1 g by simp
  qed
  show "co_read ops c' q = co_read ops c q" if "q \<noteq> p"
    using w card_create_other[OF assms(1) o1 that] write_chunks_other[OF assms(1) g that] card_remove[OF assms(1)] that
    by (auto split: if_splits)
  show "co_read ops c' p = None" if "\<not> b" "fst (co_create ops c p)"
    using w that card_remove[OF assms(1)] o1 by (auto split: if_splits)
qed

section \<open>A card in memory\<close>

text \<open>Files by path, and the bytes the card still has room for.\<close>

type_synonym mem_card = "(string \<times> 8 word list) list \<times> nat"

definition mem_names :: "(string \<times> 'b) list \<Rightarrow> string \<Rightarrow> string list" where
  "mem_names fs d = map (\<lambda>f. drop (length d + 1) (fst f)) (filter (\<lambda>f. take (length d + 1) (fst f) = d @ ''/'') fs)"

definition mem_ops :: "mem_card card_ops" where
  "mem_ops = \<lparr>co_list = (\<lambda>c d. Some (mem_names (fst c) d)), co_read = (\<lambda>c p. map_of (fst c) p),
     co_create = (\<lambda>c p. (True, (p, []) # filter (\<lambda>f. fst f \<noteq> p) (fst c), snd c)),
     co_write = (\<lambda>c p x. let k = min (length x) (snd c); old = (case map_of (fst c) p of None \<Rightarrow> [] | Some bs \<Rightarrow> bs) in
        (int k, (p, old @ take k x) # filter (\<lambda>f. fst f \<noteq> p) (fst c), snd c - k)),
     co_remove = (\<lambda>c p. (filter (\<lambda>f. fst f \<noteq> p) (fst c), snd c)), co_mkdir = (\<lambda>c d. c)\<rparr>"

lemma map_of_filter_other: "q \<noteq> p \<Longrightarrow> map_of (filter (\<lambda>f. fst f \<noteq> p) fs) q = map_of fs q"
  by (induction fs) auto

lemma map_of_filter_same: "map_of (filter (\<lambda>f. fst f \<noteq> p) fs) p = None"
  by (induction fs) auto

lemma mem_listed: "map_of fs (d @ ''/'' @ n) = Some bs \<Longrightarrow> n \<in> set (mem_names fs d)"
  by (force simp: mem_names_def dest!: map_of_SomeD)

lemma mem_laws: "card_laws mem_ops"
proof -
  have w: "co_read mem_ops c' p = Some (bs @ x)"
    if "co_read mem_ops c p = Some bs" "co_write mem_ops c p x = (int (length x), c')" for c p x c' bs
    using that by (auto simp: mem_ops_def Let_def)
  have l: "\<exists>ns. co_list mem_ops c d = Some ns \<and> (\<exists>m\<in>set ns. CHR 0x00 \<notin> set m \<and> map up_char m = map up_char n)"
    if "CHR 0x00 \<notin> set n" "co_read mem_ops c (d @ ''/'' @ n) \<noteq> None" for c d n
    using that mem_listed[of "fst c" d n] by (auto simp: mem_ops_def)
  show ?thesis
    unfolding card_laws_def
    by (intro conjI allI impI; (rule w l; assumption)?)
      (auto simp: mem_ops_def Let_def map_of_filter_other map_of_filter_same)
qed

end
