(* ===== verification/BendStore.thy ===== *)
theory BendStore
  imports SegConf Card "HOL-Library.Monad_Syntax" "HOL-Library.Multiset"
begin

text \<open>
  The preset directory (\<open>core/bend_store.c\<close>, \<open>include/bend_store.h\<close>): one file per preset,
  \<open>BENDNN.BND\<close> in \<open>A/CHDK/BENDS\<close>, the sorted list of the slots present, and the cursor the
  arrows walk. The state is the file's three statics; the card is a parameter (theory \<open>Card\<close>).
  Presets are read on a camera of \<open>nb\<close> bits per pixel built with \<open>CAM_BEND_EXPERIMENTAL\<close>.
\<close>

section \<open>State and files\<close>

abbreviation (input) BEND_STORE_MAX :: nat where "BEND_STORE_MAX \<equiv> 64"
abbreviation (input) BEND_STORE_SLOTS :: nat where "BEND_STORE_SLOTS \<equiv> 100"

definition BEND_STORE_DIR :: string where "BEND_STORE_DIR = ''A/CHDK/BENDS''"

record store_t =
  bs_slot :: "u8 list"
  bs_count :: int
  bs_cur :: int

record bend_store_info_t =
  i_name :: "u8 list"
  i_description :: "u8 list"

record bend_store_recipe_t =
  r_bend :: bend_t
  r_bendx :: bendx_chain_t
  r_segs :: bend_segs_t
  r_bend_on :: u8
  r_bendx_on :: u8
  r_pad :: "u8 list"

subsection \<open>Names\<close>

definition bs_up :: "char \<Rightarrow> char" where
  "bs_up c = up_char c"

definition digit_val :: "char \<Rightarrow> int" where
  "digit_val c = int (of_char c) - 48"

definition bs_parse :: "string \<Rightarrow> int" where
  "bs_parse nm =
     (if bs_up (cat nm 0) \<noteq> CHR ''B'' \<or> bs_up (cat nm 1) \<noteq> CHR ''E'' \<or>
         bs_up (cat nm 2) \<noteq> CHR ''N'' \<or> bs_up (cat nm 3) \<noteq> CHR ''D'' then - 1
      else let d0 = digit_val (cat nm 4); d1 = digit_val (cat nm 5) in
      if d0 < 0 \<or> 9 < d0 \<or> d1 < 0 \<or> 9 < d1 then - 1
      else if cat nm 6 \<noteq> CHR ''.'' then - 1
      else if bs_up (cat nm 7) \<noteq> CHR ''B'' \<or> bs_up (cat nm 8) \<noteq> CHR ''N'' \<or> bs_up (cat nm 9) \<noteq> CHR ''D'' then - 1
      else if cat nm 10 \<noteq> CHR 0x00 then - 1
      else d0 * 10 + d1)"

definition digit :: "nat \<Rightarrow> char" where
  "digit n = char_of (48 + n mod 10)"

definition bs_file :: "nat \<Rightarrow> string" where
  "bs_file slot = ''BEND'' @ [digit (slot div 10), digit slot] @ ''.BND''"

definition bs_path :: "nat \<Rightarrow> string" where
  "bs_path slot = BEND_STORE_DIR @ ''/'' @ bs_file slot"

subsection \<open>The listing\<close>

text \<open>The insertion loop, from \<open>j = bs_count\<close> down.\<close>

primrec ins_slot :: "u8 list \<Rightarrow> nat \<Rightarrow> u8 \<Rightarrow> u8 list" where
  "ins_slot a 0 s = a[0 := s]"
| "ins_slot a (Suc j) s = (if s < a ! j then ins_slot (a[Suc j := a ! j]) j s else a[Suc j := s])"

primrec scan_dir :: "string list \<Rightarrow> u8 list \<Rightarrow> nat \<Rightarrow> u8 list \<times> nat" where
  "scan_dir [] a n = (a, n)"
| "scan_dir (e # es) a n =
     (let slot = bs_parse e in
      if slot < 0 then scan_dir es a n
      else if BEND_STORE_MAX \<le> n then (a, n)
      else scan_dir es (ins_slot a n (word_of_int slot)) (n + 1))"

text \<open>A loop over the first entries of the list that stops at the first hit.\<close>

primrec find_at :: "('a \<Rightarrow> bool) \<Rightarrow> 'a list \<Rightarrow> int \<Rightarrow> int" where
  "find_at p [] i = - 1"
| "find_at p (x # xs) i = (if p x then i else find_at p xs (i + 1))"

definition slots :: "store_t \<Rightarrow> u8 list" where
  "slots st = take (nat (bs_count st)) (bs_slot st)"

definition bend_store_rescan :: "'c card_ops \<Rightarrow> 'c \<Rightarrow> store_t \<Rightarrow> store_t" where
  "bend_store_rescan ops c st =
     (let prev = (if 0 \<le> bs_cur st \<and> bs_cur st < bs_count st then uint (bs_slot st ! nat (bs_cur st)) else - 1);
          r = (case co_list ops c BEND_STORE_DIR of None \<Rightarrow> (bs_slot st, 0) | Some es \<Rightarrow> scan_dir es (bs_slot st) 0);
          st = st\<lparr>bs_slot := fst r, bs_count := int (snd r), bs_cur := - 1\<rparr>
      in if 0 \<le> prev then st\<lparr>bs_cur := find_at (\<lambda>v. v = word_of_int prev) (slots st) 0\<rparr> else st)"

definition bend_store_count :: "'c card_ops \<Rightarrow> 'c \<Rightarrow> store_t \<Rightarrow> int \<times> store_t" where
  "bend_store_count ops c st =
     (let st = (if bs_count st < 0 then bend_store_rescan ops c st else st) in (bs_count st, st))"

definition bend_store_slot_at :: "'c card_ops \<Rightarrow> 'c \<Rightarrow> int \<Rightarrow> store_t \<Rightarrow> int \<times> store_t" where
  "bend_store_slot_at ops c i st =
     (let st = (if bs_count st < 0 then bend_store_rescan ops c st else st) in
      if i < 0 \<or> bs_count st \<le> i then (- 1, st) else (uint (bs_slot st ! nat i), st))"

definition bend_store_index_of :: "'c card_ops \<Rightarrow> 'c \<Rightarrow> int \<Rightarrow> store_t \<Rightarrow> int \<times> store_t" where
  "bend_store_index_of ops c slot st =
     (let st = (if bs_count st < 0 then bend_store_rescan ops c st else st) in
      (find_at (\<lambda>v. uint v = slot) (slots st) 0, st))"

definition bend_store_cur :: "store_t \<Rightarrow> int" where
  "bend_store_cur st = bs_cur st"

definition bend_store_detach :: "store_t \<Rightarrow> store_t" where
  "bend_store_detach st = st\<lparr>bs_cur := - 1\<rparr>"

subsection \<open>The file\<close>

text \<open>\<open>strncpy\<close> into a field of \<open>n + 1\<close> bytes that has just been cleared.\<close>

definition bs_str :: "nat \<Rightarrow> u8 list \<Rightarrow> u8 list" where
  "bs_str n s = (let t = takeWhile (\<lambda>b. b \<noteq> 0) (take n s) in t @ replicate (n + 1 - length t) 0)"

definition bs_info_clean :: "bend_store_info_t option \<Rightarrow> bend_store_info_t" where
  "bs_info_clean src =
     (case src of None \<Rightarrow> \<lparr>i_name = replicate 25 0, i_description = replicate 81 0\<rparr>
      | Some s \<Rightarrow> \<lparr>i_name = bs_str 24 (i_name s), i_description = bs_str 80 (i_description s)\<rparr>)"

definition info_bytes :: "bend_store_info_t \<Rightarrow> u8 list" where
  "info_bytes i = i_name i @ i_description i"

definition info_of_bytes :: "u8 list \<Rightarrow> bend_store_info_t" where
  "info_of_bytes bs = \<lparr>i_name = take 25 bs, i_description = drop 25 bs\<rparr>"

definition bs_magic :: "u8 list" where
  "bs_magic = [0x42, 0x4E, 0x44, 0x31]"

text \<open>What \<open>memset\<close> leaves in the recipe before the reads.\<close>

definition recipe_zero :: bend_store_recipe_t where
  "recipe_zero = \<lparr>r_bend = bend_of_bytes (replicate 32 0), r_bendx = chain_of_bytes (replicate 52 0),
     r_segs = segs_of_bytes (replicate 104 0), r_bend_on = 0, r_bendx_on = 0, r_pad = [0, 0]\<rparr>"

text \<open>The reads, in order; \<open>None\<close> when a check fails or a read is short.\<close>

definition bs_decode_v3 :: "bend_store_recipe_t \<Rightarrow> u8 list \<Rightarrow> bend_store_recipe_t option" where
  "bs_decode_v3 r bs = do {
     (x, bs) \<leftarrow> rd_n 52 bs; (g, bs) \<leftarrow> rd_n 104 bs; (f, bs) \<leftarrow> rd_n 4 bs;
     Some (r\<lparr>r_bendx := chain_of_bytes x, r_segs := segs_of_bytes g,
       r_bend_on := f ! 0, r_bendx_on := f ! 1, r_pad := drop 2 f\<rparr>) }"

definition bs_decode :: "u8 list \<Rightarrow> (bend_store_recipe_t \<times> bend_store_info_t) option" where
  "bs_decode bs = do {
     (hdr, bs) \<leftarrow> rd_n 8 bs;
     if take 4 hdr \<noteq> bs_magic \<or> uint (hdr ! 6) + 256 * uint (hdr ! 7) \<noteq> 32 then None else
     let ver = uint (hdr ! 4) + 256 * uint (hdr ! 5) in
     if ver < 1 \<or> 3 < ver then None else do {
       (b, bs) \<leftarrow> rd_n 32 bs;
       let r = recipe_zero\<lparr>r_bend := bend_of_bytes b, r_bend_on := 1\<rparr>;
       (i, bs) \<leftarrow> (if 2 \<le> ver then rd_n 106 bs else Some (replicate 106 0, bs));
       r \<leftarrow> (if 3 \<le> ver then bs_decode_v3 r bs else Some r);
       Some (r, info_of_bytes i) } }"

definition bs_sanitize :: "nat \<Rightarrow> bend_store_recipe_t \<Rightarrow> bend_store_recipe_t" where
  "bs_sanitize nb r = r\<lparr>r_bend := bend_sanitize (r_bend r) nb, r_segs := bend_seg_sanitize (r_segs r) nb,
     r_bendx := bendx_chain_sanitize (r_bendx r)\<rparr>"

definition bs_info_end :: "bend_store_info_t \<Rightarrow> bend_store_info_t" where
  "bs_info_end i = i\<lparr>i_name := (i_name i)[24 := 0], i_description := (i_description i)[80 := 0]\<rparr>"

definition bs_read_slot :: "'c card_ops \<Rightarrow> nat \<Rightarrow> 'c \<Rightarrow> nat \<Rightarrow> (bend_store_recipe_t \<times> bend_store_info_t) option" where
  "bs_read_slot ops nb c slot = do {
     bs \<leftarrow> co_read ops c (bs_path slot);
     (r, i) \<leftarrow> bs_decode bs;
     Some (bs_sanitize nb r, bs_info_end i) }"

definition bs_load_slot :: "'c card_ops \<Rightarrow> nat \<Rightarrow> 'c \<Rightarrow> nat \<Rightarrow> bend_t option" where
  "bs_load_slot ops nb c slot = map_option (\<lambda>r. r_bend (fst r)) (bs_read_slot ops nb c slot)"

definition bs_encode :: "bend_store_recipe_t \<Rightarrow> bend_store_info_t option \<Rightarrow> u8 list list" where
  "bs_encode r info = [bs_magic @ [3, 0, 32, 0], bend_bytes (r_bend r), info_bytes (bs_info_clean info),
     chain_bytes (r_bendx r), segs_bytes (r_segs r), [r_bend_on r, r_bendx_on r] @ r_pad r]"

definition bs_write_slot :: "'c card_ops \<Rightarrow> 'c \<Rightarrow> nat \<Rightarrow> bend_store_recipe_t \<Rightarrow> bend_store_info_t option \<Rightarrow> bool \<times> 'c" where
  "bs_write_slot ops c slot r info = write_file ops c (bs_path slot) (bs_encode r info)"

subsection \<open>The operations of the menu\<close>

definition bend_store_load_at :: "'c card_ops \<Rightarrow> nat \<Rightarrow> 'c \<Rightarrow> int \<Rightarrow> store_t \<Rightarrow> bend_t option \<times> store_t" where
  "bend_store_load_at ops nb c i st =
     (case bend_store_count ops c st of (n, st) \<Rightarrow>
       if i < 0 \<or> n \<le> i then (None, st)
       else (bs_load_slot ops nb c (unat (bs_slot st ! nat i)), st\<lparr>bs_cur := i\<rparr>))"

definition bend_store_peek_recipe_at :: "'c card_ops \<Rightarrow> nat \<Rightarrow> 'c \<Rightarrow> int \<Rightarrow> store_t \<Rightarrow> bend_store_recipe_t option \<times> store_t" where
  "bend_store_peek_recipe_at ops nb c i st =
     (let st = (if bs_count st < 0 then bend_store_rescan ops c st else st) in
      if i < 0 \<or> bs_count st \<le> i then (None, st)
      else (map_option fst (bs_read_slot ops nb c (unat (bs_slot st ! nat i))), st))"

definition bend_store_load_recipe_at :: "'c card_ops \<Rightarrow> nat \<Rightarrow> 'c \<Rightarrow> int \<Rightarrow> store_t \<Rightarrow> bend_store_recipe_t option \<times> store_t" where
  "bend_store_load_recipe_at ops nb c i st =
     (case bend_store_peek_recipe_at ops nb c i st of
       (None, st) \<Rightarrow> (None, st) | (Some r, st) \<Rightarrow> (Some r, st\<lparr>bs_cur := i\<rparr>))"

text \<open>The two loops that bring the cursor back into the list.\<close>

function wrap_up :: "int \<Rightarrow> int \<Rightarrow> int" where
  "wrap_up n k = (if k < 0 \<and> 0 < n then wrap_up n (k + n) else k)"
  by pat_completeness auto
termination by (relation "measure (\<lambda>(n, k). nat (- k))") auto

function wrap_down :: "int \<Rightarrow> int \<Rightarrow> int" where
  "wrap_down n k = (if n \<le> k \<and> 0 < n then wrap_down n (k - n) else k)"
  by pat_completeness auto
termination by (relation "measure (\<lambda>(n, k). nat (k + 1))") auto

definition bend_store_step :: "'c card_ops \<Rightarrow> nat \<Rightarrow> 'c \<Rightarrow> int \<Rightarrow> store_t \<Rightarrow> bend_t option \<times> store_t" where
  "bend_store_step ops nb c delta st =
     (case bend_store_count ops c st of (n, st) \<Rightarrow>
       if n \<le> 0 then (None, st\<lparr>bs_cur := - 1\<rparr>)
       else let st = (if bs_cur st < 0 then st\<lparr>bs_cur := (if 0 \<le> delta then 0 else n - 1)\<rparr>
                      else st\<lparr>bs_cur := wrap_down n (wrap_up n (bs_cur st + delta))\<rparr>)
       in (bs_load_slot ops nb c (unat (bs_slot st ! nat (bs_cur st))), st))"

definition free_slot :: "store_t \<Rightarrow> nat" where
  "free_slot st = (case find (\<lambda>s. word_of_nat s \<notin> set (slots st)) [0..<BEND_STORE_SLOTS] of None \<Rightarrow> BEND_STORE_SLOTS | Some s \<Rightarrow> s)"

definition bend_store_save_recipe ::
  "'c card_ops \<Rightarrow> 'c \<Rightarrow> bend_store_recipe_t \<Rightarrow> bend_store_info_t option \<Rightarrow> store_t \<Rightarrow> int \<times> 'c \<times> store_t" where
  "bend_store_save_recipe ops c r info st =
     (let c = co_mkdir ops c BEND_STORE_DIR; st = bend_store_rescan ops c st; slot = free_slot st in
      if BEND_STORE_SLOTS \<le> slot \<or> int BEND_STORE_MAX \<le> bs_count st then (- 1, c, st)
      else case bs_write_slot ops c slot r info of (good, c) \<Rightarrow>
        let st = bend_store_rescan ops c st in
        if \<not> good then (- 1, c, st)
        else let i = find_at (\<lambda>v. v = word_of_nat slot) (slots st) 0 in
          if i < 0 then (- 1, c, st) else (i, c, st\<lparr>bs_cur := i\<rparr>))"

definition recipe_of_conf :: "conf_t \<Rightarrow> bend_store_recipe_t" where
  "recipe_of_conf cf = \<lparr>r_bend = cf_bitbend cf, r_bendx = cf_bendx cf, r_segs = cf_bend_segs cf,
     r_bend_on = word_of_int (cf_bitbend_enable cf), r_bendx_on = word_of_int (cf_bendx_enable cf), r_pad = [0, 0]\<rparr>"

definition bend_store_save_current :: "'c card_ops \<Rightarrow> conf_t \<Rightarrow> 'c \<Rightarrow> store_t \<Rightarrow> int \<times> 'c \<times> store_t" where
  "bend_store_save_current ops cf c st = bend_store_save_recipe ops c (recipe_of_conf cf) None st"

definition bend_store_get_info_at :: "'c card_ops \<Rightarrow> nat \<Rightarrow> 'c \<Rightarrow> int \<Rightarrow> store_t \<Rightarrow> bend_store_info_t option \<times> store_t" where
  "bend_store_get_info_at ops nb c i st =
     (let st = (if bs_count st < 0 then bend_store_rescan ops c st else st) in
      if i < 0 \<or> bs_count st \<le> i then (None, st)
      else (map_option snd (bs_read_slot ops nb c (unat (bs_slot st ! nat i))), st))"

definition bend_store_set_info_at ::
  "'c card_ops \<Rightarrow> nat \<Rightarrow> 'c \<Rightarrow> int \<Rightarrow> bend_store_info_t option \<Rightarrow> store_t \<Rightarrow> bool \<times> 'c \<times> store_t" where
  "bend_store_set_info_at ops nb c i info st =
     (let st = (if bs_count st < 0 then bend_store_rescan ops c st else st) in
      if i < 0 \<or> bs_count st \<le> i then (False, c, st)
      else let slot = unat (bs_slot st ! nat i) in
        case bend_store_peek_recipe_at ops nb c i st of
          (None, st) \<Rightarrow> (False, c, st)
        | (Some r, st) \<Rightarrow> (case bs_write_slot ops c slot r info of (good, c) \<Rightarrow> (good, c, st)))"

definition bend_store_delete_at :: "'c card_ops \<Rightarrow> 'c \<Rightarrow> int \<Rightarrow> store_t \<Rightarrow> bool \<times> 'c \<times> store_t" where
  "bend_store_delete_at ops c i st =
     (let st = (if bs_count st < 0 then bend_store_rescan ops c st else st) in
      if i < 0 \<or> bs_count st \<le> i then (False, c, st)
      else let c = co_remove ops c (bs_path (unat (bs_slot st ! nat i)))
        in (True, c, bend_store_rescan ops c st))"

text \<open>The loop that lands on the preset that took the place of the deleted one.\<close>

primrec land :: "u8 list \<Rightarrow> u8 \<Rightarrow> nat \<Rightarrow> int \<Rightarrow> int" where
  "land a slot 0 k = k"
| "land a slot (Suc m) k = (if a ! nat k < slot then land a slot m (k + 1) else k)"

definition bend_store_delete_cur :: "'c card_ops \<Rightarrow> 'c \<Rightarrow> store_t \<Rightarrow> bool \<times> 'c \<times> store_t" where
  "bend_store_delete_cur ops c st =
     (let st = (if bs_count st < 0 then bend_store_rescan ops c st else st) in
      if bs_cur st < 0 \<or> bs_count st \<le> bs_cur st then (False, c, st)
      else let slot = bs_slot st ! nat (bs_cur st);
               c = co_remove ops c (bs_path (unat slot));
               st = bend_store_rescan ops c st
        in if bs_cur st < 0 \<and> 0 < bs_count st
           then (True, c, st\<lparr>bs_cur := land (bs_slot st) slot (nat (bs_count st) - 1) 0\<rparr>)
           else (True, c, st))"

declare wrap_up.simps [simp del] wrap_down.simps [simp del]

section \<open>Names and slots\<close>

lemma digit_code: "(of_char (digit n) :: nat) = 48 + n mod 10"
proof -
  have "48 + n mod 10 < (256::nat)" using mod_less_divisor[of 10 n] by linarith
  then show ?thesis by (simp add: digit_def)
qed

lemma up_digit: "up_char c = digit n \<longleftrightarrow> of_char c = 48 + n mod 10"
proof -
  have "n mod 10 < 10" by simp
  then show ?thesis unfolding char_eq_nat of_char_up digit_code by auto
qed

lemma digit_val_eq: "digit_val c = int k \<longleftrightarrow> of_char c = 48 + k"
  by (auto simp: digit_val_def)

lemma two_digits:
  assumes "0 \<le> y" "y \<le> 9" "0 \<le> r" "r \<le> (9::int)"
  shows "x * 10 + y = 10 * q + r \<longleftrightarrow> x = q \<and> y = r"
  using assms by (cases x q rule: linorder_cases) auto

lemma parse_ten:
  assumes "s < 100"
  shows "bs_parse [a0, a1, a2, a3, a4, a5, a6, a7, a8, a9] = int s \<longleftrightarrow>
    map up_char [a0, a1, a2, a3, a4, a5, a6, a7, a8, a9] = bs_file s"
proof -
  have dot: "up_char a6 = CHR ''.'' \<longleftrightarrow> a6 = CHR ''.''" by (subst up_char_fix) simp_all
  have d: "(0 \<le> x \<and> x \<le> 9 \<and> 0 \<le> y \<and> y \<le> 9 \<and> x * 10 + y = int s) \<longleftrightarrow> x = int (s div 10) \<and> y = int (s mod 10)" for x y
  proof -
    obtain q r where q: "q = int (s div 10)" "r = int (s mod 10)" by blast
    have "int s = int (10 * (s div 10) + s mod 10)" by simp
    then have "int s = 10 * q + r" unfolding of_nat_add of_nat_mult q by simp
    moreover have "0 \<le> r" "r \<le> 9" "0 \<le> q" "q \<le> 9" using assms mod_less_divisor[of 10 s] by (simp_all add: q)
    ultimately show ?thesis using two_digits[of y r x q] by (auto simp: q[symmetric])
  qed
  have "s div 10 mod 10 = s div 10" using assms by simp
  then have v: "digit_val a4 = int (s div 10) \<longleftrightarrow> up_char a4 = digit (s div 10)" "digit_val a5 = int (s mod 10) \<longleftrightarrow> up_char a5 = digit s"
    by (simp_all add: up_digit digit_val_eq)
  have "bs_parse [a0, a1, a2, a3, a4, a5, a6, a7, a8, a9] = int s \<longleftrightarrow>
    up_char a0 = CHR ''B'' \<and> up_char a1 = CHR ''E'' \<and> up_char a2 = CHR ''N'' \<and> up_char a3 = CHR ''D'' \<and>
    (0 \<le> digit_val a4 \<and> digit_val a4 \<le> 9 \<and> 0 \<le> digit_val a5 \<and> digit_val a5 \<le> 9 \<and> digit_val a4 * 10 + digit_val a5 = int s) \<and>
    a6 = CHR ''.'' \<and> up_char a7 = CHR ''B'' \<and> up_char a8 = CHR ''N'' \<and> up_char a9 = CHR ''D''"
    by (auto simp: bs_parse_def bs_up_def cat_def Let_def)
  then show ?thesis by (simp only: d v) (auto simp: bs_file_def dot)
qed

lemma length10: "length xs = 10 \<longleftrightarrow> (\<exists>a b c d e f g h i j. xs = [a, b, c, d, e, f, g, h, i, j])"
  by (auto simp: length_Suc_conv eval_nat_numeral)

lemma bs_parse_length:
  assumes "CHR 0x00 \<notin> set nm" "0 \<le> bs_parse nm"
  shows "length nm = 10"
proof -
  have "bs_up (cat nm 9) = CHR ''D''" "cat nm 10 = CHR 0x00"
    using assms(2) by (auto simp: bs_parse_def Let_def split: if_splits)
  moreover have "bs_up (CHR 0x00) = CHR 0x00" by (simp add: bs_up_def up_char_def)
  ultimately have "9 < length nm" "\<not> 10 < length nm"
    using assms(1) by (auto simp: cat_def in_set_conv_nth split: if_splits)
  then show ?thesis by simp
qed

lemma bs_parse_range: "- 1 \<le> bs_parse nm \<and> bs_parse nm \<le> 99"
  by (auto simp: bs_parse_def Let_def)

text \<open>The names of preset \<open>s\<close> are the ones that read \<open>BENDss.BND\<close> in capitals.\<close>

lemma bs_parse_iff:
  assumes "CHR 0x00 \<notin> set nm" "s < 100"
  shows "bs_parse nm = int s \<longleftrightarrow> map up_char nm = bs_file s"
proof (cases "length nm = 10")
  case True
  then show ?thesis using parse_ten[OF assms(2)] by (auto simp: length10)
next
  case False
  moreover have "length (bs_file s) = 10" by (simp add: bs_file_def)
  ultimately show ?thesis
    using bs_parse_length[OF assms(1)] by (metis length_map of_nat_0_le_iff)
qed

lemma bs_file_plain: "CHR 0x00 \<notin> set (bs_file s)" "CHR ''/'' \<notin> set (bs_file s)"
  by (auto simp: bs_file_def char_eq_nat digit_code simp del: of_char_eq_iff)

lemma up_bs_file: "s < 100 \<Longrightarrow> map up_char (bs_file s) = bs_file s"
  by (auto simp: bs_file_def up_digit digit_code up_char_def)

lemma bs_parse_file: "s < 100 \<Longrightarrow> bs_parse (bs_file s) = int s"
  using bs_parse_iff[OF bs_file_plain(1), of s s] by (simp add: up_bs_file)

lemma bs_path_inj: "\<lbrakk>s < 100; t < 100; bs_path s = bs_path t\<rbrakk> \<Longrightarrow> s = t"
proof -
  assume "s < 100" "t < 100" "bs_path s = bs_path t"
  then have "bs_parse (bs_file s) = int t" using bs_parse_file[of t] by (simp only: bs_path_def append_same_eq same_append_eq)
  then show "s = t" using bs_parse_file[OF \<open>s < 100\<close>] by simp
qed

section \<open>The listing is the sorted directory\<close>

lemma ins_slot_length [simp]: "length (ins_slot a n s) = length a"
  by (induction n arbitrary: a) simp_all

lemma take_ins_slot_Suc: "Suc n < length a \<Longrightarrow> take (Suc (Suc n)) (ins_slot a n s) = take (Suc n) (ins_slot a n s) @ [ins_slot a n s ! Suc n]"
  by (simp add: take_Suc_conv_app_nth)

lemma ins_slot_above: "n < i \<Longrightarrow> ins_slot a n s ! i = a ! i"
  by (induction n arbitrary: a) auto

lemma sorted_mset_eq: "\<lbrakk>sorted xs; sorted ys; mset xs = mset ys\<rbrakk> \<Longrightarrow> xs = (ys :: 'a::linorder list)"
  by (metis properties_for_sort sorted_sort_id)

lemma insort_snoc:
  assumes "sorted (xs @ [y])"
  shows "insort (s :: 'a::linorder) (xs @ [y]) = (if s < y then insort s xs @ [y] else xs @ [y, s])"
proof (rule sorted_mset_eq)
  show "sorted (insort s (xs @ [y]))" using assms by (rule sorted_insort[THEN iffD2])
  show "sorted (if s < y then insort s xs @ [y] else xs @ [y, s])"
    using assms by (auto simp: sorted_append sorted_insort set_insort_key)
qed simp

lemma take_ins_slot:
  "\<lbrakk>n < length a; sorted (take n a)\<rbrakk> \<Longrightarrow> take (Suc n) (ins_slot a n s) = insort s (take n a)"
proof (induction n arbitrary: a)
  case 0
  then show ?case by (cases a) simp_all
next
  case (Suc n)
  have t: "take (Suc n) a = take n a @ [a ! n]" using Suc.prems by (simp add: take_Suc_conv_app_nth)
  have srt: "sorted (take n a)" using Suc.prems(2) by (simp add: t sorted_append)
  note sn = insort_snoc[of "take n a" "a ! n" s, folded t, OF Suc.prems(2)]
  show ?case
  proof (cases "s < a ! n")
    case True
    let ?b = "a[Suc n := a ! n]"
    have "take (Suc n) (ins_slot ?b n s) = insort s (take n ?b)"
      using Suc.IH[of ?b] Suc.prems srt by simp
    moreover have "ins_slot ?b n s ! Suc n = a ! n"
      using Suc.prems by (simp add: ins_slot_above)
    ultimately show ?thesis
      using take_ins_slot_Suc[of n ?b s] Suc.prems True sn by simp
  next
    case False
    have "take (Suc (Suc n)) (a[Suc n := s]) = take (Suc n) a @ [s]"
      using Suc.prems by (simp add: take_Suc_conv_app_nth nth_append)
    then show ?thesis using False sn by (simp add: t)
  qed
qed

text \<open>What a listing of the directory holds, in its order.\<close>

definition dir_slots :: "string list \<Rightarrow> u8 list" where
  "dir_slots es = map word_of_int (filter (\<lambda>v. 0 \<le> v) (map bs_parse es))"

lemma scan_dir_spec:
  assumes "length a = BEND_STORE_MAX" "n \<le> BEND_STORE_MAX" "sorted (take n a)" "scan_dir es a n = (a', n')"
  shows "length a' = BEND_STORE_MAX \<and> n' = min BEND_STORE_MAX (n + length (dir_slots es)) \<and>
    take n' a' = sort (take n a @ take (BEND_STORE_MAX - n) (dir_slots es))"
  using assms
proof (induction es arbitrary: a n)
  case Nil
  then show ?case by (simp add: dir_slots_def sorted_sort_id)
next
  case (Cons e es)
  show ?case
  proof (cases "bs_parse e < 0")
    case True
    then have d: "dir_slots (e # es) = dir_slots es" and r: "scan_dir es a n = (a', n')"
      using Cons.prems(4) by (simp_all add: dir_slots_def)
    show ?thesis unfolding d by (rule Cons.IH[OF Cons.prems(1-3) r])
  next
    case False
    let ?s = "word_of_int (bs_parse e) :: u8"
    have d: "dir_slots (e # es) = ?s # dir_slots es" using False by (simp add: dir_slots_def)
    show ?thesis
    proof (cases "BEND_STORE_MAX \<le> n")
      case True
      then show ?thesis using False Cons.prems by (simp add: d sorted_sort_id)
    next
      case less: False
      have i: "take (Suc n) (ins_slot a n ?s) = insort ?s (take n a)"
        using take_ins_slot[of n a ?s] Cons.prems less by simp
      have I: "length a' = BEND_STORE_MAX \<and> n' = min BEND_STORE_MAX (Suc n + length (dir_slots es)) \<and>
        take n' a' = sort (take (Suc n) (ins_slot a n ?s) @ take (BEND_STORE_MAX - Suc n) (dir_slots es))"
        by (rule Cons.IH) (use Cons.prems less False i in \<open>simp_all add: sorted_insort\<close>)
      have S: "sort (insort ?s (take n a) @ take (BEND_STORE_MAX - Suc n) (dir_slots es)) =
        sort (take n a @ take (BEND_STORE_MAX - n) (dir_slots (e # es)))"
        using less by (intro sorted_mset_eq) (simp_all add: d take_Cons' del: take_Suc_Cons)
      have L: "Suc n + length (dir_slots es) = n + length (dir_slots (e # es))" by (simp add: d)
      show ?thesis using I unfolding i L S .
    qed
  qed
qed

lemma dir_slots_small: "s \<in> set (dir_slots es) \<Longrightarrow> s \<le> 99"
proof -
  assume "s \<in> set (dir_slots es)"
  then obtain e where e: "0 \<le> bs_parse e" "s = word_of_int (bs_parse e)" by (auto simp: dir_slots_def)
  then have "uint s = bs_parse e" using bs_parse_range[of e] by (subst e(2), subst uint_word_of_int) simp
  then show ?thesis using bs_parse_range[of e] by (simp add: word_le_def)
qed

lemma dir_slots_listed:
  assumes "m \<in> set es" "CHR 0x00 \<notin> set m" "map up_char m = bs_file s" "s < 100"
  shows "word_of_nat s \<in> set (dir_slots es)"
proof -
  have "bs_parse m = int s" using bs_parse_iff[OF assms(2,4)] assms(3) by simp
  then show ?thesis using assms(1) by (force simp: dir_slots_def)
qed

lemma find_at_spec:
  "find_at p xs i = (if \<exists>x\<in>set xs. p x then i + int (length (takeWhile (\<lambda>x. \<not> p x) xs)) else - 1)"
  by (induction xs arbitrary: i) auto

lemma takeWhile_stops: "\<exists>x\<in>set xs. p x \<Longrightarrow> length (takeWhile (\<lambda>x. \<not> p x) xs) < length xs"
  by (induction xs) auto

lemma find_at_range:
  "find_at p xs 0 = - 1 \<and> (\<forall>x\<in>set xs. \<not> p x) \<or>
   0 \<le> find_at p xs 0 \<and> find_at p xs 0 < int (length xs) \<and> p (xs ! nat (find_at p xs 0))"
proof (cases "\<exists>x\<in>set xs. p x")
  case True
  then have "length (takeWhile (\<lambda>x. \<not> p x) xs) < length xs"
    by (rule takeWhile_stops)
  then show ?thesis using True nth_length_takeWhile[of "\<lambda>x. \<not> p x" xs] by (simp add: find_at_spec)
qed (simp add: find_at_spec)

section \<open>The state of the store\<close>

text \<open>
  The list is sorted, within the array and holds slot numbers, and the cursor is on the list
  or nowhere. \<open>store_init\<close> is the statics' initial values.
\<close>

definition store_init :: store_t where
  "store_init = \<lparr>bs_slot = replicate BEND_STORE_MAX 0, bs_count = - 1, bs_cur = - 1\<rparr>"

definition store_ok :: "store_t \<Rightarrow> bool" where
  "store_ok st \<longleftrightarrow> length (bs_slot st) = BEND_STORE_MAX \<and> - 1 \<le> bs_count st \<and> bs_count st \<le> int BEND_STORE_MAX \<and>
     - 1 \<le> bs_cur st \<and> (0 \<le> bs_cur st \<longrightarrow> bs_cur st < bs_count st) \<and>
     sorted (slots st) \<and> (\<forall>s\<in>set (slots st). s \<le> 99)"

text \<open>The contract: a sorted list and the preset under the cursor.\<close>

type_synonym shelf = "u8 list \<times> u8 option"

definition shelf_of :: "store_t \<Rightarrow> shelf" where
  "shelf_of st = (slots st, if 0 \<le> bs_cur st \<and> bs_cur st < bs_count st then Some (bs_slot st ! nat (bs_cur st)) else None)"

definition shelf_rescan :: "string list \<Rightarrow> shelf \<Rightarrow> shelf" where
  "shelf_rescan es sh = (let l = sort (take BEND_STORE_MAX (dir_slots es)) in
     (l, case snd sh of None \<Rightarrow> None | Some s \<Rightarrow> if s \<in> set l then Some s else None))"

definition listing :: "'c card_ops \<Rightarrow> 'c \<Rightarrow> string list" where
  "listing ops c = (case co_list ops c BEND_STORE_DIR of None \<Rightarrow> [] | Some es \<Rightarrow> es)"

lemma slots_length: "store_ok st \<Longrightarrow> length (slots st) = nat (bs_count st)"
  by (auto simp: store_ok_def slots_def min_def)

lemma slots_nth: "\<lbrakk>0 \<le> i; i < bs_count st\<rbrakk> \<Longrightarrow> slots st ! nat i = bs_slot st ! nat i"
  by (simp add: slots_def)

lemma cursor_slot_small: "\<lbrakk>store_ok st; 0 \<le> i; i < bs_count st\<rbrakk> \<Longrightarrow> bs_slot st ! nat i \<le> 99"
  using slots_nth[of i st] slots_length[of st] nth_mem[of "nat i" "slots st"] by (auto simp: store_ok_def)

lemma rescan_scan:
  assumes "length (bs_slot st) = BEND_STORE_MAX"
  obtains a n where
    "(case co_list ops c BEND_STORE_DIR of None \<Rightarrow> (bs_slot st, 0) | Some es \<Rightarrow> scan_dir es (bs_slot st) 0) = (a, n)"
    "length a = BEND_STORE_MAX" "n = min BEND_STORE_MAX (length (dir_slots (listing ops c)))"
    "take n a = sort (take BEND_STORE_MAX (dir_slots (listing ops c)))"
proof (cases "co_list ops c BEND_STORE_DIR")
  case None
  then show ?thesis using assms that[of "bs_slot st" 0] by (simp add: listing_def dir_slots_def)
next
  case (Some es)
  obtain a n where r: "scan_dir es (bs_slot st) 0 = (a, n)" by fastforce
  have "length a = BEND_STORE_MAX \<and> n = min BEND_STORE_MAX (length (dir_slots es)) \<and> take n a = sort (take BEND_STORE_MAX (dir_slots es))"
    by (rule scan_dir_spec[OF assms _ _ r, unfolded take_0 append_Nil diff_zero add_0]) simp_all
  moreover have "listing ops c = es" by (simp add: listing_def Some)
  moreover have "(case co_list ops c BEND_STORE_DIR of None \<Rightarrow> (bs_slot st, 0) | Some es \<Rightarrow> scan_dir es (bs_slot st) 0) = (a, n)"
    by (simp add: Some r)
  ultimately show ?thesis using that[of a n] by blast
qed

lemma rescan_spec:
  assumes "store_ok st"
  shows "store_ok (bend_store_rescan ops c st)"
    and "shelf_of (bend_store_rescan ops c st) = shelf_rescan (listing ops c) (shelf_of st)"
    and "0 \<le> bs_count (bend_store_rescan ops c st)"
proof -
  have len: "length (bs_slot st) = BEND_STORE_MAX" using assms by (simp add: store_ok_def)
  obtain a n where r: "(case co_list ops c BEND_STORE_DIR of None \<Rightarrow> (bs_slot st, 0) | Some es \<Rightarrow> scan_dir es (bs_slot st) 0) = (a, n)"
    and a: "length a = BEND_STORE_MAX" "n = min BEND_STORE_MAX (length (dir_slots (listing ops c)))"
    and t: "take n a = sort (take BEND_STORE_MAX (dir_slots (listing ops c)))"
    using rescan_scan[OF len] by metis
  let ?l = "sort (take BEND_STORE_MAX (dir_slots (listing ops c)))"
  have small: "\<forall>s\<in>set ?l. s \<le> 99" using dir_slots_small by (auto dest: in_set_takeD)
  have ll: "length ?l = n" by (simp add: a)
  define cur where "cur = (if 0 \<le> bs_cur st \<and> bs_cur st < bs_count st then find_at (\<lambda>v. v = bs_slot st ! nat (bs_cur st)) ?l 0 else - 1)"
  have st': "bend_store_rescan ops c st = st\<lparr>bs_slot := a, bs_count := int n, bs_cur := cur\<rparr>"
    by (simp add: bend_store_rescan_def r cur_def Let_def slots_def t)
  have sl: "slots (st\<lparr>bs_slot := a, bs_count := int n, bs_cur := cur\<rparr>) = ?l" by (simp add: slots_def t)
  have cur: "- 1 \<le> cur" "0 \<le> cur \<longrightarrow> cur < int n"
    using find_at_range[of "\<lambda>v. v = bs_slot st ! nat (bs_cur st)" ?l] ll by (auto simp: cur_def)
  show "store_ok (bend_store_rescan ops c st)"
    unfolding st' store_ok_def sl using a cur small by simp
  show "0 \<le> bs_count (bend_store_rescan ops c st)" by (simp add: st')
  have nth: "a ! nat cur = ?l ! nat cur" if "0 \<le> cur" using that cur by (simp flip: t)
  define L where "L = ?l"
  have sh: "shelf_of (bend_store_rescan ops c st) = (L, if 0 \<le> cur \<and> cur < int n then Some (L ! nat cur) else None)"
    unfolding st' shelf_of_def sl using nth by (simp add: L_def)
  show "shelf_of (bend_store_rescan ops c st) = shelf_rescan (listing ops c) (shelf_of st)"
  proof (cases "0 \<le> bs_cur st \<and> bs_cur st < bs_count st")
    case True
    let ?v = "bs_slot st ! nat (bs_cur st)"
    have c: "cur = find_at (\<lambda>v. v = ?v) L 0" using True by (simp add: cur_def L_def)
    have n: "length L = n" by (simp only: L_def ll)
    consider (no) "cur = - 1" "?v \<notin> set L" | (yes) "0 \<le> cur" "cur < int n" "L ! nat cur = ?v"
      using find_at_range[of "\<lambda>v. v = ?v" L] n by (auto simp: c)
    then have "(if 0 \<le> cur \<and> cur < int n then Some (L ! nat cur) else None) = (if ?v \<in> set L then Some ?v else None)"
    proof cases
      case yes
      then have "nat cur < length L" using n by simp
      then have "?v \<in> set L" using nth_mem[of "nat cur" L] yes(3) by simp
      then show ?thesis using yes by simp
    qed simp
    then show ?thesis using True by (simp add: sh) (simp add: shelf_rescan_def shelf_of_def flip: L_def)
  next
    case False
    then have "cur = - 1" by (auto simp: cur_def)
    then show ?thesis using False by (simp add: sh) (auto simp: shelf_rescan_def shelf_of_def simp flip: L_def)
  qed
qed

section \<open>Every operation keeps the state\<close>

lemma count_ok:
  assumes "store_ok st" "bend_store_count ops c st = (n, st')"
  shows "store_ok st'" "n = bs_count st'" "0 \<le> n"
  using assms rescan_spec[OF assms(1), of ops c] by (auto simp: bend_store_count_def Let_def split: if_splits)

lemma counted_ok:
  assumes "store_ok st"
  shows "store_ok (if bs_count st < 0 then bend_store_rescan ops c st else st)"
  using assms rescan_spec[OF assms, of ops c] by simp

lemma store_cursor: "\<lbrakk>store_ok st; - 1 \<le> k; 0 \<le> k \<longrightarrow> k < bs_count st\<rbrakk> \<Longrightarrow> store_ok (st\<lparr>bs_cur := k\<rparr>)"
  by (auto simp: store_ok_def slots_def)

lemma wrap_up_spec: "0 < n \<Longrightarrow> wrap_up n k = (if k < 0 then k mod n else k)"
proof (induction n k rule: wrap_up.induct)
  case (1 n k)
  show ?case
  proof (cases "k < 0")
    case True
    then have "wrap_up n k = (if k + n < 0 then (k + n) mod n else k + n)"
      using 1 by (subst wrap_up.simps) simp
    moreover have "0 \<le> k + n \<Longrightarrow> k mod n = k + n"
      using True 1(2) by (metis mod_add_self2 mod_pos_pos_trivial add_strict_mono add_less_same_cancel2)
    ultimately show ?thesis using True by simp
  qed (subst wrap_up.simps, simp)
qed

lemma wrap_down_spec: "\<lbrakk>0 < n; 0 \<le> k\<rbrakk> \<Longrightarrow> wrap_down n k = k mod n"
proof (induction n k rule: wrap_down.induct)
  case (1 n k)
  show ?case
  proof (cases "n \<le> k")
    case True
    then have "wrap_down n k = (k - n) mod n" using 1 by (subst wrap_down.simps) simp
    then show ?thesis by simp
  next
    case False
    then show ?thesis using 1(2,3) by (subst wrap_down.simps) simp
  qed
qed

text \<open>The cursor walks the list as a ring.\<close>

lemma wrap_mod: "0 < n \<Longrightarrow> wrap_down n (wrap_up n k) = k mod n"
  by (simp add: wrap_up_spec wrap_down_spec)

definition step_cursor :: "int \<Rightarrow> int \<Rightarrow> int \<Rightarrow> int" where
  "step_cursor n cur delta = (if cur < 0 then if 0 \<le> delta then 0 else n - 1 else (cur + delta) mod n)"

lemma step_spec:
  assumes "store_ok st" "bend_store_count ops c st = (n, st1)"
  shows "bend_store_step ops nb c delta st =
    (if n = 0 then (None, st1\<lparr>bs_cur := - 1\<rparr>)
     else (bs_load_slot ops nb c (unat (bs_slot st1 ! nat (step_cursor n (bs_cur st1) delta))),
       st1\<lparr>bs_cur := step_cursor n (bs_cur st1) delta\<rparr>))"
  using count_ok[OF assms] assms(2)
  by (auto simp: bend_store_step_def Let_def step_cursor_def wrap_mod)

lemma step_cursor_range: "0 < n \<Longrightarrow> 0 \<le> step_cursor n k delta \<and> step_cursor n k delta < n"
  by (simp add: step_cursor_def)

lemma land_range: "k \<le> land a s m k \<and> land a s m k \<le> k + int m"
proof (induction m arbitrary: k)
  case (Suc m)
  show ?case using Suc[of "k + 1"] by auto
qed simp

lemma peek_store:
  assumes "store_ok st" "bend_store_peek_recipe_at ops nb c i st = (r, st')"
  shows "store_ok st'" "r = Some x \<Longrightarrow> 0 \<le> i \<and> i < bs_count st'"
  using assms counted_ok[OF assms(1), of ops c] by (auto simp: bend_store_peek_recipe_at_def Let_def split: if_splits)

lemma store_ops_ok:
  assumes "store_ok st"
  shows "store_ok (bend_store_rescan ops c st)"
    and "store_ok (snd (bend_store_count ops c st))"
    and "store_ok (snd (bend_store_slot_at ops c i st))"
    and "store_ok (snd (bend_store_index_of ops c i st))"
    and "store_ok (bend_store_detach st)"
    and "store_ok (snd (bend_store_load_at ops nb c i st))"
    and "store_ok (snd (bend_store_peek_recipe_at ops nb c i st))"
    and "store_ok (snd (bend_store_load_recipe_at ops nb c i st))"
    and "store_ok (snd (bend_store_step ops nb c i st))"
    and "store_ok (snd (snd (bend_store_save_recipe ops c r info st)))"
    and "store_ok (snd (bend_store_get_info_at ops nb c i st))"
    and "store_ok (snd (snd (bend_store_set_info_at ops nb c i info st)))"
    and "store_ok (snd (snd (bend_store_delete_at ops c i st)))"
    and "store_ok (snd (snd (bend_store_delete_cur ops c st)))"
proof -
  note r = rescan_spec[OF assms, of ops c]
  note k = counted_ok[OF assms, of ops c]
  obtain n st1 where c: "bend_store_count ops c st = (n, st1)" by fastforce
  note n = count_ok[OF assms c]
  obtain p st2 where p: "bend_store_peek_recipe_at ops nb c i st = (p, st2)" by fastforce
  note pk = peek_store[OF assms p]
  show "store_ok (bend_store_rescan ops c st)" by (rule r(1))
  show "store_ok (snd (bend_store_count ops c st))" using n by (simp add: c)
  show "store_ok (snd (bend_store_slot_at ops c i st))" using k by (simp add: bend_store_slot_at_def Let_def)
  show "store_ok (snd (bend_store_index_of ops c i st))" using k by (simp add: bend_store_index_of_def Let_def)
  show "store_ok (bend_store_detach st)" using assms store_cursor[of st "- 1"] by (simp add: bend_store_detach_def)
  show "store_ok (snd (bend_store_load_at ops nb c i st))"
    using n by (auto simp: bend_store_load_at_def c intro!: store_cursor)
  show "store_ok (snd (bend_store_peek_recipe_at ops nb c i st))" using pk by (simp add: p)
  show "store_ok (snd (bend_store_load_recipe_at ops nb c i st))"
    using pk by (cases p) (auto simp: bend_store_load_recipe_at_def p intro!: store_cursor)
  show "store_ok (snd (bend_store_step ops nb c i st))"
    using n step_cursor_range[of n "bs_cur st1" i] by (auto simp: step_spec[OF assms c] intro!: store_cursor)
  show "store_ok (snd (bend_store_get_info_at ops nb c i st))" using k by (simp add: bend_store_get_info_at_def Let_def)
  show "store_ok (snd (snd (bend_store_delete_at ops c i st)))"
    unfolding bend_store_delete_at_def Let_def by (auto simp only: snd_conv k rescan_spec(1)[OF k] split: if_split)
  show "store_ok (snd (snd (bend_store_set_info_at ops nb c i info st)))"
    using k peek_store(1)[OF k] by (auto simp: bend_store_set_info_at_def Let_def split: option.split prod.split)
  show "store_ok (snd (snd (bend_store_save_recipe ops c r info st)))"
  proof -
    define s1 where "s1 = bend_store_rescan ops (co_mkdir ops c BEND_STORE_DIR) st"
    have s1: "store_ok s1" unfolding s1_def by (rule rescan_spec(1)[OF assms])
    have cur: "store_ok (s2\<lparr>bs_cur := find_at q (slots s2) 0\<rparr>)" if "store_ok s2" for s2 q
      using find_at_range[of q "slots s2"] slots_length[OF that] that by (intro store_cursor) (auto simp: store_ok_def split: if_splits)
    show ?thesis
      unfolding bend_store_save_recipe_def Let_def s1_def[symmetric]
      by (simp add: s1 rescan_spec(1)[OF s1] cur split: prod.split)
  qed
  show "store_ok (snd (snd (bend_store_delete_cur ops c st)))"
  proof -
    define s1 where "s1 = (if bs_count st < 0 then bend_store_rescan ops c st else st)"
    have s1: "store_ok s1" unfolding s1_def by (rule k)
    have cur: "store_ok (s2\<lparr>bs_cur := land a v (nat (bs_count s2) - Suc 0) 0\<rparr>)" if "store_ok s2" "0 < bs_count s2" for s2 a v
      using land_range[of 0 a v "nat (bs_count s2) - 1"] that by (intro store_cursor) auto
    show ?thesis
      unfolding bend_store_delete_cur_def Let_def s1_def[symmetric]
      by (simp add: s1 rescan_spec(1)[OF s1] cur)
  qed
qed

section \<open>What is written can be read back\<close>

definition recipe_shape :: "bend_store_recipe_t \<Rightarrow> bool" where
  "recipe_shape r \<longleftrightarrow> bend_shape (r_bend r) \<and> chain_shape (r_bendx r) \<and> segs_shape (r_segs r) \<and> length (r_pad r) = 2"

lemma bs_str_length [simp]: "length (bs_str n s) = n + 1"
  using length_takeWhile_le[of "\<lambda>b. b \<noteq> 0" "take n s"] by (simp add: bs_str_def Let_def)

lemma bs_str_end: "bs_str n s ! n = 0"
  using length_takeWhile_le[of "\<lambda>b. b \<noteq> 0" "take n s"] by (simp add: bs_str_def Let_def nth_append) (subst nth_replicate, arith, simp)

lemma bs_str_id: "bs_str n (bs_str n s) = bs_str n s"
proof -
  let ?t = "takeWhile (\<lambda>b. b \<noteq> 0) (take n s)"
  have len: "length ?t \<le> n" using length_takeWhile_le[of "\<lambda>b. b \<noteq> 0" "take n s"] by simp
  then have "take n (?t @ replicate (n + 1 - length ?t) 0) = ?t @ replicate (n - length ?t) 0"
    by simp
  moreover have "takeWhile (\<lambda>b. b \<noteq> 0) (?t @ replicate k 0) = ?t" for k
    by (subst takeWhile_append2) (auto dest: set_takeWhileD)
  ultimately show ?thesis by (simp add: bs_str_def Let_def)
qed

lemma clean_lengths: "length (i_name (bs_info_clean info)) = 25" "length (i_description (bs_info_clean info)) = 81"
  by (simp_all add: bs_info_clean_def split: option.split)

lemma clean_end: "bs_info_end (bs_info_clean info) = bs_info_clean info"
proof -
  have "i_name (bs_info_clean info) ! 24 = 0" "i_description (bs_info_clean info) ! 80 = 0"
    by (auto simp: bs_info_clean_def bs_str_end split: option.split)
  then show ?thesis
    using list_update_id[of "i_name (bs_info_clean info)" 24] list_update_id[of "i_description (bs_info_clean info)" 80]
    by (simp add: bs_info_end_def)
qed

lemma info_bytes_round:
  "length (info_bytes (bs_info_clean info)) = 106" "info_of_bytes (info_bytes (bs_info_clean info)) = bs_info_clean info"
  by (simp_all add: info_bytes_def info_of_bytes_def clean_lengths)

lemma decode_encode:
  assumes "recipe_shape r"
  shows "bs_decode (concat (bs_encode r info)) = Some (r, bs_info_clean info)"
proof -
  obtain a b where pad: "r_pad r = [a, b]" using assms by (auto simp: recipe_shape_def length2)
  have f: "rd_n 4 [r_bend_on r, r_bendx_on r, a, b] = Some ([r_bend_on r, r_bendx_on r, a, b], [])"
    by (simp add: rd_n_def)
  have h: "rd_n 8 (bs_magic @ [3, 0, 32, 0] @ xs) = Some (bs_magic @ [3, 0, 32, 0], xs)" for xs
    by (simp add: rd_n_def bs_magic_def)
  have v3: "bs_decode_v3 q (chain_bytes (r_bendx r) @ segs_bytes (r_segs r) @ [r_bend_on r, r_bendx_on r, a, b]) =
    Some (q\<lparr>r_bendx := r_bendx r, r_segs := r_segs r, r_bend_on := r_bend_on r, r_bendx_on := r_bendx_on r, r_pad := [a, b]\<rparr>)" for q
    using assms by (simp add: bs_decode_v3_def recipe_shape_def rd_n_append chain_codec.enc_length segs_codec.enc_length
      chain_codec.dec_enc segs_codec.dec_enc f)
  have all: "concat (bs_encode r info) = bs_magic @ [3, 0, 32, 0] @ bend_bytes (r_bend r) @ info_bytes (bs_info_clean info) @
    chain_bytes (r_bendx r) @ segs_bytes (r_segs r) @ [r_bend_on r, r_bendx_on r, a, b]"
    by (simp add: bs_encode_def pad)
  show ?thesis
    unfolding all bs_decode_def h
    using assms by (simp add: bs_magic_def Let_def recipe_shape_def rd_n_append bend_codec.enc_length bend_codec.dec_enc info_bytes_round v3 pad)
qed

lemma write_slot_read:
  assumes "card_laws ops" "recipe_shape r" "bs_write_slot ops c slot r info = (b, c')"
  shows "b \<Longrightarrow> bs_read_slot ops nb c' slot = Some (bs_sanitize nb r, bs_info_clean info)"
    and "q \<noteq> bs_path slot \<Longrightarrow> co_read ops c' q = co_read ops c q"
    and "\<not> b \<Longrightarrow> fst (co_create ops c (bs_path slot)) \<Longrightarrow> co_read ops c' (bs_path slot) = None"
  using write_file_read[OF assms(1) assms(3)[unfolded bs_write_slot_def]] decode_encode[OF assms(2)]
  by (simp_all add: bs_read_slot_def clean_end)

section \<open>Saving takes a free slot\<close>

lemma rescan_slots:
  "store_ok st \<Longrightarrow> slots (bend_store_rescan ops c st) = sort (take BEND_STORE_MAX (dir_slots (listing ops c)))"
  using rescan_spec(2)[of st ops c] by (simp add: shelf_of_def shelf_rescan_def Let_def)

lemma unlisted_unreadable:
  assumes "card_laws ops" "store_ok st" "bs_count (bend_store_rescan ops c st) < int BEND_STORE_MAX" "s < 100"
    "word_of_nat s \<notin> set (slots (bend_store_rescan ops c st))"
  shows "co_read ops c (bs_path s) = None"
proof (rule ccontr)
  assume "co_read ops c (bs_path s) \<noteq> None"
  then obtain bs where "co_read ops c (BEND_STORE_DIR @ ''/'' @ bs_file s) = Some bs" by (auto simp: bs_path_def)
  then obtain ns m where ns: "co_list ops c BEND_STORE_DIR = Some ns" "m \<in> set ns" "CHR 0x00 \<notin> set m" "map up_char m = bs_file s"
    using card_listed[OF assms(1), of c BEND_STORE_DIR "bs_file s"] bs_file_plain[of s] up_bs_file[OF assms(4)] by auto
  have "word_of_nat s \<in> set (dir_slots (listing ops c))"
    using dir_slots_listed[OF ns(2,3,4) assms(4)] ns(1) by (simp add: listing_def)
  moreover have "length (take BEND_STORE_MAX (dir_slots (listing ops c))) < BEND_STORE_MAX"
    using slots_length[OF rescan_spec(1)[OF assms(2)], of ops c] assms(3) rescan_spec(3)[OF assms(2), of ops c]
    by (simp add: rescan_slots[OF assms(2)])
  then have "take BEND_STORE_MAX (dir_slots (listing ops c)) = dir_slots (listing ops c)" by (simp add: min_def split: if_splits)
  ultimately show False using assms(5) by (simp add: rescan_slots[OF assms(2)])
qed

lemma free_slot_free: "free_slot st < BEND_STORE_SLOTS \<Longrightarrow> word_of_nat (free_slot st) \<notin> set (slots st)"
  unfolding free_slot_def by (split option.splits) (auto simp: find_Some_iff)

lemma unat_slot: "s < 100 \<Longrightarrow> unat (word_of_nat s :: u8) = s"
  by (simp add: unat_of_nat)

text \<open>
  A save that succeeds has taken a slot that held nothing, what it wrote reads back, the cursor
  is on it, and the other presets are untouched; a save that fails has touched no preset.
\<close>

lemma save_spec:
  assumes "card_laws ops" "store_ok st" "recipe_shape r"
    "bend_store_save_recipe ops c r info st = (i, c', st')"
  shows "0 \<le> i \<Longrightarrow> \<exists>s<BEND_STORE_SLOTS. co_read ops c (bs_path s) = None \<and>
      bs_read_slot ops nb c' s = Some (bs_sanitize nb r, bs_info_clean info) \<and>
      bs_cur st' = i \<and> i < bs_count st' \<and> unat (bs_slot st' ! nat i) = s"
    and "co_read ops c q \<noteq> None \<Longrightarrow> co_read ops c' q = co_read ops c q \<or> (\<forall>s<BEND_STORE_SLOTS. q \<noteq> bs_path s)"
proof -
  define c1 where "c1 = co_mkdir ops c BEND_STORE_DIR"
  define s1 where "s1 = bend_store_rescan ops c1 st"
  define s where "s = free_slot s1"
  obtain b c2 where w: "bs_write_slot ops c1 s r info = (b, c2)" by fastforce
  define s2 where "s2 = bend_store_rescan ops c2 s1"
  define k where "k = find_at (\<lambda>v. v = word_of_nat s) (slots s2) 0"
  have s1: "store_ok s1" unfolding s1_def by (rule rescan_spec(1)[OF assms(2)])
  have s2: "store_ok s2" unfolding s2_def by (rule rescan_spec(1)[OF s1])
  have res: "(i, c', st') = (if BEND_STORE_SLOTS \<le> s \<or> int BEND_STORE_MAX \<le> bs_count s1 then (- 1, c1, s1)
      else if \<not> b then (- 1, c2, s2) else if k < 0 then (- 1, c2, s2) else (k, c2, s2\<lparr>bs_cur := k\<rparr>))"
    using assms(4)[symmetric] unfolding bend_store_save_recipe_def Let_def c1_def[symmetric] s1_def[symmetric]
      s_def[symmetric] w prod.case s2_def[symmetric] k_def[symmetric] .
  have mk: "co_read ops c1 q = co_read ops c q" for q
    unfolding c1_def by (rule card_mkdir[OF assms(1)])
  have free: "co_read ops c (bs_path s) = None" if "s < BEND_STORE_SLOTS" "bs_count s1 < int BEND_STORE_MAX"
    using unlisted_unreadable[OF assms(1,2), of c1 s] that free_slot_free[of s1]
    by (simp add: s1_def[symmetric] s_def[symmetric] mk)
  show "\<exists>s<BEND_STORE_SLOTS. co_read ops c (bs_path s) = None \<and>
      bs_read_slot ops nb c' s = Some (bs_sanitize nb r, bs_info_clean info) \<and>
      bs_cur st' = i \<and> i < bs_count st' \<and> unat (bs_slot st' ! nat i) = s" if "0 \<le> i"
  proof -
    from res that have a: "s < BEND_STORE_SLOTS" "bs_count s1 < int BEND_STORE_MAX" "b" "0 \<le> k"
      and e: "i = k" "c' = c2" "st' = s2\<lparr>bs_cur := k\<rparr>"
      by (auto split: if_splits)
    have r: "k < bs_count s2" "slots s2 ! nat k = word_of_nat s"
      using find_at_range[of "\<lambda>v. v = word_of_nat s" "slots s2"] slots_length[OF s2] a(4)
      by (auto simp: k_def split: if_splits)
    then have "unat (bs_slot s2 ! nat k) = s" using slots_nth[OF a(4) r(1)] unat_slot a(1) by simp
    then show ?thesis
      using a e r free write_slot_read(1)[OF assms(1,3) w a(3)] by auto
  qed
  show "co_read ops c' q = co_read ops c q \<or> (\<forall>s<BEND_STORE_SLOTS. q \<noteq> bs_path s)" if "co_read ops c q \<noteq> None"
  proof (cases "c' = c1")
    case True
    then show ?thesis by (simp add: mk)
  next
    case False
    then have c: "c' = c2" "s < BEND_STORE_SLOTS" "bs_count s1 < int BEND_STORE_MAX" using res by (auto split: if_splits)
    then have "q \<noteq> bs_path s" using free that by auto
    then show ?thesis using write_slot_read(2)[OF assms(1,3) w] by (simp add: c mk)
  qed
qed

section \<open>Walking, deleting, renaming\<close>

definition step_on :: "'c card_ops \<Rightarrow> nat \<Rightarrow> 'c \<Rightarrow> store_t \<Rightarrow> store_t" where
  "step_on ops nb c st = snd (bend_store_step ops nb c 1 st)"

lemma step_on_cursor:
  assumes "store_ok st" "0 < bs_count st"
  shows "step_on ops nb c st = st\<lparr>bs_cur := step_cursor (bs_count st) (bs_cur st) 1\<rparr>"
  using step_spec[OF assms(1), of ops c "bs_count st" st nb 1] assms(2)
  by (simp add: step_on_def bend_store_count_def)

lemma step_on_iter:
  assumes "store_ok st" "0 < bs_count st" "0 \<le> bs_cur st"
  shows "(step_on ops nb c ^^ k) st = st\<lparr>bs_cur := (bs_cur st + int k) mod bs_count st\<rparr>"
proof (induction k)
  case 0
  then show ?case using assms by (simp add: store_ok_def)
next
  case (Suc k)
  let ?s = "st\<lparr>bs_cur := (bs_cur st + int k) mod bs_count st\<rparr>"
  have nn: "0 \<le> (bs_cur st + int k) mod bs_count st" using assms(2) by simp
  then have "store_ok ?s" using assms by (intro store_cursor) (linarith | simp)+
  then have "step_on ops nb c ?s = st\<lparr>bs_cur := ((bs_cur st + int k) mod bs_count st + 1) mod bs_count st\<rparr>"
    using step_on_cursor[of ?s ops nb c] assms(2) nn by (simp add: step_cursor_def not_less[THEN iffD2])
  moreover have "((bs_cur st + int k) mod bs_count st + 1) mod bs_count st = (bs_cur st + int (Suc k)) mod bs_count st"
    by (simp add: mod_simps ac_simps)
  ultimately show ?case using Suc by simp
qed

text \<open>Pressing the arrow often enough reaches every preset.\<close>

lemma step_reaches:
  assumes "store_ok st" "0 \<le> j" "j < bs_count st"
  shows "\<exists>k\<le>nat (bs_count st). bs_cur ((step_on ops nb c ^^ k) st) = j"
proof -
  have reach: "\<exists>k<nat (bs_count s). bs_cur ((step_on ops nb c ^^ k) s) = j"
    if "store_ok s" "0 \<le> bs_cur s" "bs_count s = bs_count st" for s
  proof -
    define k where "k = nat ((j - bs_cur s) mod bs_count s)"
    have n: "0 < bs_count s" using assms that by simp
    then have "int k = (j - bs_cur s) mod bs_count s" by (simp add: k_def)
    then have "(bs_cur s + int k) mod bs_count s = j"
      using assms(2,3) that(3) by (simp add: mod_add_right_eq)
    moreover have "k < nat (bs_count s)" using n by (simp add: k_def)
    ultimately show ?thesis using step_on_iter[OF that(1) n that(2), of k ops nb c] by auto
  qed
  show ?thesis
  proof (cases "0 \<le> bs_cur st")
    case True
    then show ?thesis using reach[OF assms(1) True refl] less_imp_le by blast
  next
    case False
    let ?s = "step_on ops nb c st"
    have n: "0 < bs_count st" using assms by simp
    have s: "?s = st\<lparr>bs_cur := 0\<rparr>" using step_on_cursor[OF assms(1) n, of ops nb c] False by (simp add: step_cursor_def)
    have "store_ok ?s" using store_cursor[OF assms(1), of 0] n by (simp add: s)
    then obtain k where "k < nat (bs_count st)" "bs_cur ((step_on ops nb c ^^ k) ?s) = j"
      using reach[of ?s] by (auto simp: s)
    then have "Suc k \<le> nat (bs_count st) \<and> bs_cur ((step_on ops nb c ^^ Suc k) st) = j"
      by (simp only: funpow_Suc_right o_apply) simp
    then show ?thesis by blast
  qed
qed

lemma delete_at_spec:
  assumes "card_laws ops" "store_ok st" "0 \<le> i" "i < bs_count st"
    "bend_store_delete_at ops c i st = (b, c', st')"
  shows "b \<and> co_read ops c' (bs_path (unat (bs_slot st ! nat i))) = None \<and>
    (\<forall>q. q \<noteq> bs_path (unat (bs_slot st ! nat i)) \<longrightarrow> co_read ops c' q = co_read ops c q)"
  using assms(3-5) card_remove[OF assms(1)] by (auto simp: bend_store_delete_at_def Let_def)

text \<open>Renaming rewrites the file in place: a short write leaves no preset behind.\<close>

lemma set_info_spec:
  assumes "card_laws ops" "store_ok st" "0 \<le> i" "i < bs_count st"
    "bs_read_slot ops nb c (unat (bs_slot st ! nat i)) = Some (r, old)" "recipe_shape r"
    "bend_store_set_info_at ops nb c i info st = (b, c', st')"
  shows "b \<Longrightarrow> bs_read_slot ops nb c' (unat (bs_slot st ! nat i)) = Some (bs_sanitize nb r, bs_info_clean info)"
    and "\<not> b \<Longrightarrow> fst (co_create ops c (bs_path (unat (bs_slot st ! nat i)))) \<Longrightarrow>
      bs_read_slot ops nb c' (unat (bs_slot st ! nat i)) = None"
    and "st' = st"
proof -
  obtain g c2 where w: "bs_write_slot ops c (unat (bs_slot st ! nat i)) r info = (g, c2)" by fastforce
  have e: "b = g" "c' = c2" "st' = st"
    using assms(3-5,7) w by (auto simp: bend_store_set_info_at_def bend_store_peek_recipe_at_def Let_def)
  note wr = write_slot_read[OF assms(1,6) w]
  show "bs_read_slot ops nb c' (unat (bs_slot st ! nat i)) = Some (bs_sanitize nb r, bs_info_clean info)" if b
    using wr(1) that e by simp
  show "bs_read_slot ops nb c' (unat (bs_slot st ! nat i)) = None"
    if "\<not> b" "fst (co_create ops c (bs_path (unat (bs_slot st ! nat i))))"
    using wr(3) that e by (simp add: bs_read_slot_def)
  show "st' = st" by (rule e(3))
qed

text \<open>Whatever the card holds, a recipe that is handed out has been through the gates.\<close>

lemma decode_shape:
  assumes "bs_decode bs = Some (r, i)"
  shows "recipe_shape r" "length (i_name i) = 25" "length (i_description i) = 81"
proof -
  have z: "recipe_shape (recipe_zero\<lparr>r_bend := bend_of_bytes b, r_bend_on := 1\<rparr>)" if "length b = 32" for b
    using that bend_codec.dec_shape chain_codec.dec_shape[of "replicate 52 0"] segs_codec.dec_shape[of "replicate 104 0"]
    by (simp add: recipe_shape_def recipe_zero_def)
  have v3: "recipe_shape r'" if "bs_decode_v3 r bs' = Some r'" "recipe_shape r" for r r' bs'
    using that chain_codec.dec_shape segs_codec.dec_shape
    by (auto simp: bs_decode_v3_def recipe_shape_def rd_n_Some Option.bind_eq_Some_conv)
  show "recipe_shape r" "length (i_name i) = 25" "length (i_description i) = 81"
    using assms z v3
    by (auto simp: bs_decode_def Let_def rd_n_Some info_of_bytes_def Option.bind_eq_Some_conv split: if_splits)
qed

lemma read_slot_ok:
  assumes "bs_read_slot ops nb c slot = Some (r, i)" "2 \<le> nb" "nb \<le> 16"
  shows "bend_ok (r_bend r)" "segs_ok (r_segs r)" "chain_ok (r_bendx r)"
    "i_name i ! 24 = 0" "i_description i ! 80 = 0"
proof -
  obtain bs r0 i0 where d: "bs_decode bs = Some (r0, i0)" "r = bs_sanitize nb r0" "i = bs_info_end i0"
    using assms(1) by (auto simp: bs_read_slot_def Option.bind_eq_Some_conv)
  note sh = decode_shape[OF d(1)]
  show "bend_ok (r_bend r)" "segs_ok (r_segs r)" "chain_ok (r_bendx r)" "i_name i ! 24 = 0" "i_description i ! 80 = 0"
    using sh assms(2,3)
    by (simp_all add: d bs_sanitize_def bs_info_end_def recipe_shape_def bend_sanitize_ok bend_seg_sanitize_ok chain_sanitize_full)
qed

end
