(* ===== verification/BendShot.thy ===== *)
theory BendShot
  imports BendStore
begin

text \<open>
  What a picture was taken with (\<open>core/bend_shot.c\<close>, \<open>include/bend_shot.h\<close>): the record of a
  photograph's bend, packed for the JPEG tag and written to the sidecar file beside the
  picture, read back from either, and made the live bend. The two readers are modelled as they
  are written, one over a buffer and one over a sequence of reads, and proved to agree.
\<close>

section \<open>The record\<close>

abbreviation (input) BEND_SHOT_REC_MAX :: nat where "BEND_SHOT_REC_MAX \<equiv> 204"

definition bsh_magic :: "u8 list" where
  "bsh_magic = [0x42, 0x53, 0x48, 0x31]"

definition bsh_put16 :: "nat \<Rightarrow> u8 list" where
  "bsh_put16 v = [word_of_nat (v mod 256), word_of_nat (v div 256 mod 256)]"

definition bsh_get16 :: "u8 list \<Rightarrow> nat \<Rightarrow> nat" where
  "bsh_get16 p i = unat (p ! i) + 256 * unat (p ! (i + 1))"

text \<open>Versions 1 and 2 counted 24 effects; five of them are gone.\<close>

definition upgrade_kind :: "nat \<Rightarrow> nat" where
  "upgrade_kind k =
     (if k = 12 \<or> k = 13 \<or> k = 17 \<or> k = 19 \<or> k = 20 then 0
      else if 21 \<le> k \<and> k \<le> 23 then k - 5
      else if 18 \<le> k then k - 3
      else if 14 \<le> k then k - 2 else k)"

definition bsh_upgrade_bendx :: "bendx_chain_t \<Rightarrow> nat \<Rightarrow> bendx_chain_t" where
  "bsh_upgrade_bendx c ver =
     (if 3 \<le> ver then c
      else c\<lparr>ch_item := map (\<lambda>x. x\<lparr>x_kind := word_of_nat (upgrade_kind (unat (x_kind x)))\<rparr>) (ch_item c)\<rparr>)"

definition shot_header :: "bool \<Rightarrow> bool \<Rightarrow> u8 list" where
  "shot_header bend_on bendx_on = bsh_magic @ bsh_put16 3 @ bsh_put16 32 @ bsh_put16 52 @
     bsh_put16 ((if bend_on then 1 else 0) + (if bendx_on then 2 else 0)) @ bsh_put16 104 @ bsh_put16 0"

text \<open>\<open>None\<close> is the null pointer; the result is the length and the buffer.\<close>

definition bend_shot_pack ::
  "u8 list option \<Rightarrow> bend_t option \<Rightarrow> bool \<Rightarrow> bendx_chain_t option \<Rightarrow> bool \<Rightarrow> bend_segs_t option \<Rightarrow> nat \<times> u8 list option" where
  "bend_shot_pack out b bend_on c bendx_on s =
     (case (out, b, c, s) of
       (Some o1, Some b1, Some c1, Some s1) \<Rightarrow>
         if length o1 < BEND_SHOT_REC_MAX then (0, out)
         else let r = shot_header bend_on bendx_on @ bend_bytes b1 @ chain_bytes c1 @ segs_bytes s1
           in (length r, Some (r @ drop (length r) o1))
     | _ \<Rightarrow> (0, out))"

text \<open>A recipe as the readers hand it out, after the gates.\<close>

record shot_t =
  s_bend :: bend_t
  s_bend_on :: bool
  s_bendx :: bendx_chain_t
  s_bendx_on :: bool
  s_segs :: bend_segs_t

definition segs_zero :: bend_segs_t where
  "segs_zero = segs_of_bytes (replicate 104 0)"

definition shot_gate :: "nat \<Rightarrow> nat \<Rightarrow> nat \<Rightarrow> bend_t \<Rightarrow> bendx_chain_t \<Rightarrow> bend_segs_t \<Rightarrow> shot_t" where
  "shot_gate nb ver flags b c s = \<lparr>s_bend = bend_sanitize b nb, s_bend_on = odd flags,
     s_bendx = bendx_chain_sanitize (bsh_upgrade_bendx c ver), s_bendx_on = odd (flags div 2),
     s_segs = bend_seg_sanitize s nb\<rparr>"

definition bend_shot_unpack :: "nat \<Rightarrow> u8 list option \<Rightarrow> shot_t option" where
  "bend_shot_unpack nb rec =
     (case rec of None \<Rightarrow> None | Some r \<Rightarrow>
       if length r < 12 then None
       else if take 4 r \<noteq> bsh_magic then None
       else if bsh_get16 r 6 \<noteq> 32 then None
       else if bsh_get16 r 8 \<noteq> 52 then None
       else let ver = bsh_get16 r 4 in
       if ver = 1 then
         if length r < 12 + (32 + 52) then None
         else Some (shot_gate nb ver (bsh_get16 r 10) (bend_of_bytes (take 32 (drop 12 r)))
           (chain_of_bytes (take 52 (drop 44 r))) segs_zero)
       else if ver = 2 \<or> ver = 3 then
         if length r < 16 then None
         else if bsh_get16 r 12 \<noteq> 104 then None
         else if length r < 16 + (32 + 52 + 104) then None
         else Some (shot_gate nb ver (bsh_get16 r 10) (bend_of_bytes (take 32 (drop 16 r)))
           (chain_of_bytes (take 52 (drop 48 r))) (segs_of_bytes (take 104 (drop 100 r))))
       else None)"

section \<open>The sidecar file\<close>

text \<open>\<open>%04d\<close>.\<close>

fun dec_digits :: "nat \<Rightarrow> string" where
  "dec_digits n = (if n < 10 then [digit n] else dec_digits (n div 10) @ [digit n])"

definition fmt_04d :: "int \<Rightarrow> string" where
  "fmt_04d v =
     (if v < 0 then let d = dec_digits (nat (- v)) in ''-'' @ replicate (3 - length d) CHR ''0'' @ d
      else let d = dec_digits (nat v) in replicate (4 - length d) CHR ''0'' @ d)"

definition shot_file :: "string \<Rightarrow> int \<Rightarrow> string" where
  "shot_file dir num = dir @ ''/IMG_'' @ fmt_04d num @ ''.BND''"

definition bend_shot_save ::
  "'c card_ops \<Rightarrow> 'c \<Rightarrow> string option \<Rightarrow> int \<Rightarrow> bend_t option \<Rightarrow> bool \<Rightarrow> bendx_chain_t option \<Rightarrow> bool \<Rightarrow>
   bend_segs_t option \<Rightarrow> bool \<times> 'c" where
  "bend_shot_save ops cd dir num b bend_on c bendx_on s =
     (case (dir, b, c, s) of
       (Some d, Some b1, Some c1, Some s1) \<Rightarrow>
         if 64 \<le> length d + 16 then (False, cd)
         else write_file ops cd (shot_file d num)
           [shot_header bend_on bendx_on, bend_bytes b1, chain_bytes c1, segs_bytes s1]
     | _ \<Rightarrow> (False, cd))"

text \<open>The loop that finds the last dot after the last separator.\<close>

definition dot_step :: "string \<Rightarrow> int \<Rightarrow> nat \<Rightarrow> int" where
  "dot_step p dot i =
     (if p ! i = CHR ''/'' \<or> p ! i = CHR 0x5C then - 1 else if p ! i = CHR ''.'' then int i else dot)"

definition last_dot :: "string \<Rightarrow> int" where
  "last_dot p = foldl (dot_step p) (- 1) [0..<length p]"

definition bend_shot_path :: "string option \<Rightarrow> nat \<Rightarrow> string option" where
  "bend_shot_path picture outlen =
     (case picture of None \<Rightarrow> None | Some p \<Rightarrow>
       if length p = 0 then None
       else let dot = (if last_dot p < 0 then length p else nat (last_dot p)) in
         if outlen < dot + 5 then None else Some (take dot p @ ''.BND''))"

text \<open>The reads, in order.\<close>

definition shot_reads_v1 :: "u8 list \<Rightarrow> (bend_t \<times> bendx_chain_t \<times> bend_segs_t) option" where
  "shot_reads_v1 bs = do { (b, bs) \<leftarrow> rd_n 32 bs; (c, bs) \<leftarrow> rd_n 52 bs;
     Some (bend_of_bytes b, chain_of_bytes c, segs_zero) }"

definition shot_reads_v2 :: "u8 list \<Rightarrow> (bend_t \<times> bendx_chain_t \<times> bend_segs_t) option" where
  "shot_reads_v2 bs = do { (h, bs) \<leftarrow> rd_n 4 bs;
     if bsh_get16 h 0 \<noteq> 104 then None else do {
     (b, bs) \<leftarrow> rd_n 32 bs; (c, bs) \<leftarrow> rd_n 52 bs; (s, bs) \<leftarrow> rd_n 104 bs;
     Some (bend_of_bytes b, chain_of_bytes c, segs_of_bytes s) } }"

definition shot_reads :: "nat \<Rightarrow> u8 list \<Rightarrow> shot_t option" where
  "shot_reads nb bs = do {
     (h, bs) \<leftarrow> rd_n 12 bs;
     if take 4 h \<noteq> bsh_magic \<or> bsh_get16 h 6 \<noteq> 32 \<or> bsh_get16 h 8 \<noteq> 52 then None else
     let ver = bsh_get16 h 4 in do {
       (b, c, s) \<leftarrow> (if ver = 1 then shot_reads_v1 bs else if ver = 2 \<or> ver = 3 then shot_reads_v2 bs else None);
       Some (shot_gate nb ver (bsh_get16 h 10) b c s) } }"

definition bend_shot_load :: "'c card_ops \<Rightarrow> nat \<Rightarrow> 'c \<Rightarrow> string option \<Rightarrow> shot_t option" where
  "bend_shot_load ops nb cd picture = do {
     path \<leftarrow> bend_shot_path picture 64;
     bs \<leftarrow> co_read ops cd path;
     shot_reads nb bs }"

section \<open>Making it live\<close>

text \<open>
  The configuration and the preset store after a recipe has been applied on a camera of \<open>nb\<close>
  bits per pixel. \<open>bend_ui_resync\<close> copies the result into the menu's own variables.
\<close>

definition bend_shot_apply ::
  "nat \<Rightarrow> bend_t option \<Rightarrow> int \<Rightarrow> bendx_chain_t option \<Rightarrow> int \<Rightarrow> bend_segs_t option \<Rightarrow> conf_t \<times> store_t \<Rightarrow> conf_t \<times> store_t" where
  "bend_shot_apply nb b bend_on c bendx_on sg cs =
     (let cf = fst cs;
          cf = (case b of None \<Rightarrow> cf | Some b \<Rightarrow> cf\<lparr>cf_bitbend := b, cf_bitbend_enable := bend_on\<rparr>);
          cf = (case sg of None \<Rightarrow> cf | Some s \<Rightarrow> cf\<lparr>cf_bend_segs := s\<rparr>);
          cf = (case c of None \<Rightarrow> cf | Some c \<Rightarrow> cf\<lparr>cf_bendx := c, cf_bendx_enable := bendx_on\<rparr>);
          cf = cf\<lparr>cf_bend_segs := (cf_bend_segs cf)\<lparr>g_slot := replicate BEND_SEG_MAX 0\<rparr>\<rparr>;
          cf = bend_seg_prep cf nb;
          cf = cf\<lparr>cf_bendx := bendx_chain_sanitize (cf_bendx cf)\<rparr>
      in (cf, bend_store_detach (snd cs)))"

text \<open>
  The picture on screen: the handle read from the address the port supplies and the two pairs
  of mask and shift; \<open>None\<close> for a port without them.
\<close>

type_synonym pb_port = "u32 \<times> nat \<times> u32 \<times> nat"

definition playback_current_image_id :: "pb_port option \<Rightarrow> u32 \<Rightarrow> (int \<times> int) option" where
  "playback_current_image_id port h =
     (case port of None \<Rightarrow> None
      | Some (dmask, dshift, fmask, fshift) \<Rightarrow>
        if h = 0 then None
        else let dn = drop_bit dshift (sint (h AND dmask)); fn = drop_bit fshift (sint (h AND fmask)) in
          if dn < 100 \<or> 999 < dn \<or> fn < 1 \<or> 9999 < fn then None else Some (dn, fn))"

declare dec_digits.simps [simp del]

section \<open>One packer, one unpacker\<close>

lemma get16_take: "i + 1 < n \<Longrightarrow> n \<le> length bs \<Longrightarrow> bsh_get16 (take n bs) i = bsh_get16 bs i"
  by (simp add: bsh_get16_def)

lemma get16_part: "bsh_get16 (take 4 (drop 12 bs)) 0 = bsh_get16 bs 12" if "16 \<le> length bs"
  using that by (simp add: bsh_get16_def)

text \<open>Reading a sidecar and reading a tag's buffer are the same function of the bytes.\<close>

lemma reads_v1:
  "12 \<le> length bs \<Longrightarrow> shot_reads_v1 (drop 12 bs) =
    (if length bs < 12 + (32 + 52) then None
     else Some (bend_of_bytes (take 32 (drop 12 bs)), chain_of_bytes (take 52 (drop 44 bs)), segs_zero))"
  by (auto simp: shot_reads_v1_def rd_n_def)

lemma reads_v2:
  "12 \<le> length bs \<Longrightarrow> shot_reads_v2 (drop 12 bs) =
    (if length bs < 16 \<or> bsh_get16 bs 12 \<noteq> 104 \<or> length bs < 16 + (32 + 52 + 104) then None
     else Some (bend_of_bytes (take 32 (drop 16 bs)), chain_of_bytes (take 52 (drop 48 bs)), segs_of_bytes (take 104 (drop 100 bs))))"
  by (cases "16 \<le> length bs") (auto simp: shot_reads_v2_def rd_n_def get16_part)

lemma unpack_reads: "bend_shot_unpack nb (Some bs) = shot_reads nb bs"
proof (cases "12 \<le> length bs")
  case True
  then have h: "take 4 (take 12 bs) = take 4 bs" "bsh_get16 (take 12 bs) 4 = bsh_get16 bs 4" "bsh_get16 (take 12 bs) 6 = bsh_get16 bs 6"
    "bsh_get16 (take 12 bs) 8 = bsh_get16 bs 8" "bsh_get16 (take 12 bs) 10 = bsh_get16 bs 10"
    by (simp_all add: get16_take)
  have r: "rd_n 12 bs = Some (take 12 bs, drop 12 bs)" using True by (simp add: rd_n_def)
  show ?thesis
    using True unfolding shot_reads_def r Option.bind.simps prod.case h Let_def reads_v1[OF True] reads_v2[OF True]
    by (simp add: bend_shot_unpack_def Let_def)
next
  case False
  then show ?thesis by (simp add: bend_shot_unpack_def shot_reads_def rd_n_def)
qed

section \<open>Round trips\<close>

definition shot_shape :: "bend_t \<Rightarrow> bendx_chain_t \<Rightarrow> bend_segs_t \<Rightarrow> bool" where
  "shot_shape b c s \<longleftrightarrow> bend_shape b \<and> chain_shape c \<and> segs_shape s"

definition shot_flags :: "bool \<Rightarrow> bool \<Rightarrow> nat" where
  "shot_flags bend_on bendx_on = (if bend_on then 1 else 0) + (if bendx_on then 2 else 0)"

lemma flags_bits [simp]: "odd (shot_flags p q) = p" "odd (shot_flags p q div 2) = q"
  by (simp_all add: shot_flags_def)

lemma header_fields:
  "length (shot_header p q) = 16" "take 4 (shot_header p q @ xs) = bsh_magic" "bsh_get16 (shot_header p q @ xs) 4 = 3"
  "bsh_get16 (shot_header p q @ xs) 6 = 32" "bsh_get16 (shot_header p q @ xs) 8 = 52"
  "bsh_get16 (shot_header p q @ xs) 10 = shot_flags p q" "bsh_get16 (shot_header p q @ xs) 12 = 104"
  by (simp_all add: shot_header_def bsh_magic_def bsh_put16_def bsh_get16_def shot_flags_def)

definition shot_record :: "bend_t \<Rightarrow> bool \<Rightarrow> bendx_chain_t \<Rightarrow> bool \<Rightarrow> bend_segs_t \<Rightarrow> u8 list" where
  "shot_record b bend_on c bendx_on s = shot_header bend_on bendx_on @ bend_bytes b @ chain_bytes c @ segs_bytes s"

lemma record_length: "shot_shape b c s \<Longrightarrow> length (shot_record b p c q s) = BEND_SHOT_REC_MAX"
  by (simp add: shot_record_def shot_shape_def header_fields bend_codec.enc_length chain_codec.enc_length segs_codec.enc_length)

lemma unpack_record:
  assumes "shot_shape b c s"
  shows "bend_shot_unpack nb (Some (shot_record b p c q s @ tail)) = Some (shot_gate nb 3 (shot_flags p q) b c s)"
proof -
  have l: "length (bend_bytes b) = 32" "length (chain_bytes c) = 52" "length (segs_bytes s) = 104"
    using assms by (simp_all add: shot_shape_def bend_codec.enc_length chain_codec.enc_length segs_codec.enc_length)
  have d: "bend_of_bytes (bend_bytes b) = b" "chain_of_bytes (chain_bytes c) = c" "segs_of_bytes (segs_bytes s) = s"
    using assms by (simp_all add: shot_shape_def bend_codec.dec_enc chain_codec.dec_enc segs_codec.dec_enc)
  define r where "r = bend_bytes b @ chain_bytes c @ segs_bytes s @ tail"
  have all: "shot_record b p c q s @ tail = shot_header p q @ r" by (simp add: shot_record_def r_def)
  have p: "take 32 (drop 16 (shot_header p q @ r)) = bend_bytes b" "take 52 (drop 48 (shot_header p q @ r)) = chain_bytes c"
    "take 104 (drop 100 (shot_header p q @ r)) = segs_bytes s"
    by (simp_all add: r_def header_fields(1) l)
  have "length (shot_header p q @ r) \<ge> 204" by (simp add: r_def header_fields(1) l)
  then show ?thesis
    unfolding all bend_shot_unpack_def option.case header_fields(2-) p d Let_def by simp
qed

lemma pack_record:
  assumes "shot_shape b c s" "BEND_SHOT_REC_MAX \<le> length out"
  shows "bend_shot_pack (Some out) (Some b) p (Some c) q (Some s) =
    (BEND_SHOT_REC_MAX, Some (shot_record b p c q s @ drop BEND_SHOT_REC_MAX out))"
  using assms record_length[OF assms(1), of p q] by (simp add: bend_shot_pack_def shot_record_def Let_def)

section \<open>The path beside the picture\<close>

lemma last_dot_take: "foldl (dot_step (p @ q)) d [0..<length p] = foldl (dot_step p) d [0..<length p]"
  by (rule foldl_cong) (auto simp: dot_step_def nth_append)

lemma last_dot_snoc: "last_dot (p @ [c]) = (if c = CHR ''/'' \<or> c = CHR 0x5C then - 1 else if c = CHR ''.'' then int (length p) else last_dot p)"
  by (simp add: last_dot_def last_dot_take dot_step_def)

lemma last_dot_range: "- 1 \<le> last_dot p \<and> last_dot p < int (length p) \<or> p = [] \<and> last_dot p = - 1"
  by (induction p rule: rev_induct) (auto simp: last_dot_snoc, simp_all add: last_dot_def)

lemma last_dot_plain:
  "\<forall>c\<in>set e. c \<noteq> CHR ''/'' \<and> c \<noteq> CHR 0x5C \<and> c \<noteq> CHR ''.'' \<Longrightarrow> last_dot (p @ e) = last_dot p"
  by (induction e rule: rev_induct) (simp_all add: last_dot_snoc flip: append_assoc)

lemma last_dot_ext:
  assumes "\<forall>c\<in>set e. c \<noteq> CHR ''/'' \<and> c \<noteq> CHR 0x5C \<and> c \<noteq> CHR ''.''"
  shows "last_dot (p @ CHR ''.'' # e) = int (length p)"
  using last_dot_plain[OF assms, of "p @ ''.''"] by (simp add: last_dot_snoc)

text \<open>A name with an extension of its own loses exactly that; one without gets ours appended.\<close>

lemma path_ext:
  assumes "\<forall>c\<in>set e. c \<noteq> CHR ''/'' \<and> c \<noteq> CHR 0x5C \<and> c \<noteq> CHR ''.''" "length p + 5 \<le> n"
  shows "bend_shot_path (Some (p @ CHR ''.'' # e)) n = Some (p @ ''.BND'')"
  using assms by (simp add: bend_shot_path_def last_dot_ext Let_def)

lemma path_no_ext:
  assumes "\<forall>c\<in>set e. c \<noteq> CHR ''/'' \<and> c \<noteq> CHR 0x5C \<and> c \<noteq> CHR ''.''" "length p + 1 + length e + 5 \<le> n"
  shows "bend_shot_path (Some (p @ CHR ''/'' # e)) n = Some (p @ CHR ''/'' # e @ ''.BND'')"
proof -
  have "last_dot (p @ CHR ''/'' # e) = - 1"
    using last_dot_plain[OF assms(1), of "p @ ''/''"] by (simp add: last_dot_snoc)
  then show ?thesis using assms(2) by (simp add: bend_shot_path_def Let_def)
qed

lemma path_again: "bend_shot_path (Some p) n = Some q \<Longrightarrow> bend_shot_path (Some q) n = Some q"
proof -
  assume a: "bend_shot_path (Some p) n = Some q"
  define d where "d = (if last_dot p < 0 then length p else nat (last_dot p))"
  have q: "q = take d p @ ''.BND''" "d + 5 \<le> n"
    using a by (auto simp: bend_shot_path_def Let_def d_def split: if_splits)
  have "length (take d p) \<le> d" by simp
  then show ?thesis using path_ext[of "''BND''" "take d p" n] q by simp
qed

lemma dec_digits_length: "n < 10 ^ Suc k \<Longrightarrow> length (dec_digits n) \<le> Suc k"
proof (induction k arbitrary: n)
  case 0
  then show ?case by (subst dec_digits.simps) simp
next
  case (Suc k)
  show ?case
  proof (cases "n < 10")
    case False
    have "n div 10 < 10 ^ Suc k" using Suc.prems by (simp add: less_mult_imp_div_less)
    then show ?thesis using Suc.IH False by (subst dec_digits.simps) simp
  qed (subst dec_digits.simps, simp)
qed

lemma fmt_04d_length: "\<lbrakk>0 \<le> v; v \<le> 9999\<rbrakk> \<Longrightarrow> length (fmt_04d v) = 4"
  using dec_digits_length[of "nat v" 3] by (simp add: fmt_04d_def Let_def nat_less_iff)

definition picture_file :: "string \<Rightarrow> int \<Rightarrow> string" where
  "picture_file dir num = dir @ ''/IMG_'' @ fmt_04d num @ ''.JPG''"

text \<open>The sidecar a picture is looked up by is the one the save wrote, and its path fits.\<close>

lemma sidecar_of_picture:
  assumes "length dir + 16 < 64" "0 \<le> num" "num \<le> 9999"
  shows "bend_shot_path (Some (picture_file dir num)) 64 = Some (shot_file dir num)"
    "length (shot_file dir num) < 64"
  using path_ext[of "''JPG''" "dir @ ''/IMG_'' @ fmt_04d num" 64] assms fmt_04d_length[OF assms(2,3)]
  by (simp_all add: picture_file_def shot_file_def)

lemma save_load:
  assumes "card_laws ops" "shot_shape b c s" "0 \<le> num" "num \<le> 9999"
    "bend_shot_save ops cd (Some dir) num (Some b) p (Some c) q (Some s) = (r, cd')"
  shows "r \<Longrightarrow> bend_shot_load ops nb cd' (Some (picture_file dir num)) = Some (shot_gate nb 3 (shot_flags p q) b c s)"
    and "f \<noteq> shot_file dir num \<Longrightarrow> co_read ops cd' f = co_read ops cd f"
    and "\<not> r \<Longrightarrow> length dir + 16 < 64 \<Longrightarrow> fst (co_create ops cd (shot_file dir num)) \<Longrightarrow>
      bend_shot_load ops nb cd' (Some (picture_file dir num)) = None"
proof -
  consider (long) "64 \<le> length dir + 16" "\<not> r" "cd' = cd" | (fits) "length dir + 16 < 64"
    "write_file ops cd (shot_file dir num) [shot_header p q, bend_bytes b, chain_bytes c, segs_bytes s] = (r, cd')"
    using assms(5) by (auto simp: bend_shot_save_def split: if_splits)
  note cs = this
  have rec: "concat [shot_header p q, bend_bytes b, chain_bytes c, segs_bytes s] = shot_record b p c q s"
    by (simp add: shot_record_def)
  show "bend_shot_load ops nb cd' (Some (picture_file dir num)) = Some (shot_gate nb 3 (shot_flags p q) b c s)" if r
    using cs
  proof cases
    case fits
    show ?thesis
      using write_file_read(1)[OF assms(1) fits(2) that] unpack_record[OF assms(2), of nb p q "[]"]
      unfolding rec by (simp add: bend_shot_load_def sidecar_of_picture[OF fits(1) assms(3,4)] unpack_reads)
  qed (use that in simp)
  show "co_read ops cd' f = co_read ops cd f" if "f \<noteq> shot_file dir num"
    using cs by cases (simp_all add: write_file_read(2)[OF assms(1) _ that])
  show "bend_shot_load ops nb cd' (Some (picture_file dir num)) = None"
    if "\<not> r" "length dir + 16 < 64" "fst (co_create ops cd (shot_file dir num))"
    using cs
  proof cases
    case fits
    show ?thesis
      using write_file_read(3)[OF assms(1) fits(2) that(1,3)]
      by (simp add: bend_shot_load_def sidecar_of_picture[OF fits(1) assms(3,4)])
  qed (use that in simp)
qed

section \<open>Old records\<close>

text \<open>The effects that survived keep their order, and the retired ones are off.\<close>

lemma upgrade_survivors:
  "map upgrade_kind [0..<24] = [0..<12] @ [0, 0] @ [12, 13, 14, 0, 15, 0, 0] @ [16, 17, 18]"
  by (simp add: upt_conv_Cons upgrade_kind_def)

section \<open>A recipe made live\<close>

lemma gate_ok:
  assumes "shot_shape b c s" "2 \<le> nb" "nb \<le> 16"
  shows "bend_ok (s_bend (shot_gate nb ver fl b c s))" "chain_ok (s_bendx (shot_gate nb ver fl b c s))"
    "segs_ok (s_segs (shot_gate nb ver fl b c s))"
proof -
  have "chain_shape (bsh_upgrade_bendx c ver)"
    using assms(1) by (auto simp: bsh_upgrade_bendx_def shot_shape_def chain_shape_def bendx_shape_def)
  then show "bend_ok (s_bend (shot_gate nb ver fl b c s))" "chain_ok (s_bendx (shot_gate nb ver fl b c s))"
    "segs_ok (s_segs (shot_gate nb ver fl b c s))"
    using assms by (simp_all add: shot_gate_def shot_shape_def bend_sanitize_ok chain_sanitize_full bend_seg_sanitize_ok)
qed

lemma unpack_ok:
  assumes "bend_shot_unpack nb rec = Some r" "2 \<le> nb" "nb \<le> 16"
  shows "bend_ok (s_bend r) \<and> chain_ok (s_bendx r) \<and> segs_ok (s_segs r)"
proof -
  have z: "segs_shape segs_zero" by (simp add: segs_zero_def segs_codec.dec_shape)
  have t: "length (take n (drop k xs)) = n" if "n + k \<le> length xs" for n k and xs :: "u8 list" using that by simp
  show ?thesis
    using assms
    by (auto simp: bend_shot_unpack_def Let_def z t bend_codec.dec_shape chain_codec.dec_shape segs_codec.dec_shape shot_shape_def
        split: option.splits if_splits intro!: gate_ok)
qed

lemma fold_keeps: "(\<And>i s. g (f i s) = g s) \<Longrightarrow> g (fold f xs s) = g s"
  by (induction xs arbitrary: s) simp_all

lemma prep_frame:
  "g_slot (cf_bend_segs (bend_seg_prep cf nb)) = map (\<lambda>v. if 100 < v then 0 else v) (g_slot (cf_bend_segs cf))"
  "cf_bendx (bend_seg_prep cf nb) = cf_bendx cf"
  "cf_bitbend_enable (bend_seg_prep cf nb) = cf_bitbend_enable cf"
  "cf_bendx_enable (bend_seg_prep cf nb) = cf_bendx_enable cf"
proof -
  have p: "g_slot (cf_bend_segs (bend_seg_conf_put cf i b)) = g_slot (cf_bend_segs cf)"
    "cf_bitbend_enable (bend_seg_conf_put cf i b) = cf_bitbend_enable cf" "cf_bendx_enable (bend_seg_conf_put cf i b) = cf_bendx_enable cf" for cf i b
    by (simp_all add: bend_seg_conf_put_def)
  have s: "g_slot (bend_seg_sanitize s nb) = map (\<lambda>v. if 100 < v then 0 else v) (g_slot s)" for s
    by (simp add: bend_seg_sanitize_def Let_def)
  show "g_slot (cf_bend_segs (bend_seg_prep cf nb)) = map (\<lambda>v. if 100 < v then 0 else v) (g_slot (cf_bend_segs cf))"
    by (simp add: bend_seg_prep_def Let_def fold_keeps[where g = "\<lambda>cf. g_slot (cf_bend_segs cf)"] p s)
  show "cf_bendx (bend_seg_prep cf nb) = cf_bendx cf"
    by (simp add: bend_seg_prep_def Let_def fold_keeps[where g = cf_bendx])
  show "cf_bitbend_enable (bend_seg_prep cf nb) = cf_bitbend_enable cf"
    by (simp add: bend_seg_prep_def Let_def fold_keeps[where g = cf_bitbend_enable] p)
  show "cf_bendx_enable (bend_seg_prep cf nb) = cf_bendx_enable cf"
    by (simp add: bend_seg_prep_def Let_def fold_keeps[where g = cf_bendx_enable] p)
qed

lemma slot_detached: "g_slot (cf_bend_segs cf) = replicate 4 0 \<Longrightarrow> bend_seg_slot cf i = - 1"
  by (cases "i < 0 \<or> 4 \<le> i") (auto simp: bend_seg_slot_def Let_def nat_less_iff)

lemma apply_spec:
  assumes "bend_ok b" "chain_ok c" "segs_ok s" "2 \<le> nb" "nb \<le> 16"
    "bend_shot_apply nb (Some b) p (Some c) q (Some s) (cf, st) = (cf', st')"
  shows "conf_ok cf'" "cf_bendx cf' = c" "cf_bitbend_enable cf' = p" "cf_bendx_enable cf' = q"
    "bend_seg_slot cf' i = - 1" "bs_cur st' = - 1"
    "cf_bitbend_simple cf = 0 \<Longrightarrow> bend_view (cf_bitbend cf') = bend_view b \<and>
      segs_view (cf_bend_segs cf') = segs_view (s\<lparr>g_slot := replicate BEND_SEG_MAX 0\<rparr>)"
proof -
  define s0 where "s0 = s\<lparr>g_slot := replicate BEND_SEG_MAX 0\<rparr>"
  define c0 where "c0 = cf\<lparr>cf_bitbend := b, cf_bitbend_enable := p, cf_bendx := c, cf_bendx_enable := q, cf_bend_segs := s0\<rparr>"
  have s0: "segs_ok s0" using assms(3) by (simp add: segs_ok_def segs_shape_def s0_def)
  have shape: "conf_shape c0"
    using assms(1,2) s0 by (simp add: conf_shape_def c0_def bend_ok_shape segs_ok_shape chain_ok_shape)
  have e: "cf' = (bend_seg_prep c0 nb)\<lparr>cf_bendx := bendx_chain_sanitize (cf_bendx (bend_seg_prep c0 nb))\<rparr>" "st' = bend_store_detach st"
    using assms(6) by (simp_all add: bend_shot_apply_def Let_def c0_def s0_def)
  have "bendx_chain_sanitize c = c" by (rule chain_sanitize_id[OF assms(2)])
  then show "cf_bendx cf' = c" "cf_bitbend_enable cf' = p" "cf_bendx_enable cf' = q" "bs_cur st' = - 1"
    by (simp_all add: e prep_frame bend_store_detach_def) (simp_all add: c0_def)
  show "conf_ok cf'"
    using seg_prep_ok(1)[OF shape assms(4,5)] by (simp add: e conf_ok_def)
  have "g_slot (cf_bend_segs cf') = replicate 4 0" by (simp add: e prep_frame) (simp add: c0_def s0_def)
  then show "bend_seg_slot cf' i = - 1" by (rule slot_detached)
  show "bend_view (cf_bitbend cf') = bend_view b \<and> segs_view (cf_bend_segs cf') = segs_view (s\<lparr>g_slot := replicate BEND_SEG_MAX 0\<rparr>)"
    if "cf_bitbend_simple cf = 0"
    using that bend_sanitize_view[OF assms(1), of nb] bend_seg_sanitize_view[OF s0, of nb]
    by (simp add: e bend_seg_prep_def Let_def c0_def) (simp add: s0_def)
qed

end
