(* ===== verification/TagText.thy ===== *)
theory TagText
  imports BendShot
begin

text \<open>
  The comment that carries a recipe inside a photograph (\<open>core/bend_tag.c\<close>): the appends into
  a bounded buffer, the human summary, and the record in hex. The buffer is the list of the
  characters written so far, so \<open>at\<close> of the code is its length.
\<close>

section \<open>Appending to a bounded buffer\<close>

abbreviation (input) BT_TEXT_MAX :: nat where "BT_TEXT_MAX \<equiv> 1024"

definition BEND_TAG_MARK :: string where "BEND_TAG_MARK = ''@rewired_optics''"

definition NL :: string where "NL = [CHR 0x0A]"

fun bt_str :: "nat \<Rightarrow> string \<Rightarrow> string \<Rightarrow> string" where
  "bt_str mx p [] = p"
| "bt_str mx p (c # s) = (if length p < mx - 1 then bt_str mx (p @ [c]) s else p)"

text \<open>The digits as the \<open>do\<close> loop produces them, at most \<open>sizeof(tmp)\<close> of them.\<close>

primrec tmp_digits :: "nat \<Rightarrow> nat \<Rightarrow> string" where
  "tmp_digits 0 v = []"
| "tmp_digits (Suc k) v = digit v # (if v div 10 \<noteq> 0 then tmp_digits k (v div 10) else [])"

definition bt_num :: "nat \<Rightarrow> string \<Rightarrow> int \<Rightarrow> string" where
  "bt_num mx p v =
     (let p = (if v < 0 then bt_str mx p ''-'' else p) in bt_str mx p (rev (tmp_digits 12 (nat \<bar>v\<bar>))))"

section \<open>The summary\<close>

definition put_pin :: "nat \<Rightarrow> bend_t \<Rightarrow> nat \<Rightarrow> string \<Rightarrow> string" where
  "put_pin mx b i p =
     (let p = bt_str mx p '' ''; p = bt_num mx p (int i); p = bt_str mx p '':''
      in bt_str mx p (bend_src_name (b_route b ! i)))"

definition put_region :: "nat \<Rightarrow> nat \<Rightarrow> string \<Rightarrow> string" where
  "put_region mx i p =
     (let p = bt_str mx p ''  ''; p = bt_num mx p (int i + 1); p = bt_str mx p '':''; p = bt_str mx p ''bend''
      in bt_num mx p (int i + 1))"

definition put_item :: "nat \<Rightarrow> bendx_chain_t \<Rightarrow> nat \<Rightarrow> string \<Rightarrow> string" where
  "put_item mx c i p =
     (let p = (if i \<noteq> 0 then bt_str mx p '' >'' else p); p = bt_str mx p '' '';
          p = bt_str mx p (bendx_name (uint (x_kind (ch_item c ! i)))); amt = bendx_label (ch_item c ! i)
      in if amt \<noteq> [] then bt_str mx (bt_str mx p '' '') amt else p)"

definition bt_describe :: "nat \<Rightarrow> nat \<Rightarrow> string \<Rightarrow> bend_t \<Rightarrow> bool \<Rightarrow> bendx_chain_t \<Rightarrow> bool \<Rightarrow> bend_segs_t \<Rightarrow> string" where
  "bt_describe nb mx p b bend_on c bendx_on s =
     (let p = bt_str mx p (BEND_TAG_MARK @ NL);
          p = (if bend_on then
            let p = bt_str mx p ''bend'';
                p = fold (put_pin mx b) (rev [0..<nb]) p;
                p = bt_str mx p (NL @ ''depth '');
                p = bt_num mx p (uint (b_depth b));
                p = bt_str mx p ''  trash '';
                p = bt_str mx p (bend_trash_names ! unat (b_trash_type b))
            in bt_str mx p NL else p);
          p = (if uint (g_layout s) \<noteq> BSEG_OFF then
            let p = bt_str mx p ''seg '';
                p = bt_str mx p (bend_seg_name (uint (g_layout s)));
                p = fold (put_region mx) [0..<nat (bend_seg_count (uint (g_layout s)))] p
            in bt_str mx p NL else p)
      in if bendx_on then
            let p = bt_str mx p ''x'';
                p = fold (put_item mx c) [0..<min (locked c) BENDX_CHAIN_MAX] p
            in bt_str mx p NL else p)"

section \<open>The record in hex\<close>

definition bt_hexd :: "nat \<Rightarrow> char" where
  "bt_hexd n = ''0123456789abcdef'' ! n"

definition hex_byte :: "u8 \<Rightarrow> string" where
  "hex_byte v = [bt_hexd (unat v div 16), bt_hexd (unat v mod 16)]"

definition hex_bytes :: "u8 list \<Rightarrow> string" where
  "hex_bytes bs = concat (map hex_byte bs)"

definition bt_unhex :: "char \<Rightarrow> int" where
  "bt_unhex c =
     (let n = int (of_char c) in
      if 48 \<le> n \<and> n \<le> 57 then n - 48
      else if 97 \<le> n \<and> n \<le> 102 then n - 97 + 10
      else if 65 \<le> n \<and> n \<le> 70 then n - 65 + 10 else - 1)"

text \<open>The comment: the summary and, when it fits, the record.\<close>

definition tag_text :: "nat \<Rightarrow> bend_t \<Rightarrow> bool \<Rightarrow> bendx_chain_t \<Rightarrow> bool \<Rightarrow> bend_segs_t \<Rightarrow> string" where
  "tag_text nb b bend_on c bendx_on s =
     (let p = bt_describe nb BT_TEXT_MAX [] b bend_on c bendx_on s;
          r = bend_shot_pack (Some (replicate BEND_SHOT_REC_MAX 0)) (Some b) bend_on (Some c) bendx_on (Some s)
      in case r of (n, Some rec) \<Rightarrow>
           if 0 < n \<and> length p + n * 2 + 8 < BT_TEXT_MAX
           then bt_str BT_TEXT_MAX p ''BSH1:'' @ hex_bytes (take n rec) @ NL else p
       | _ \<Rightarrow> p)"

section \<open>What fits is written\<close>

lemma bt_str_fits: "length p + length s < mx \<Longrightarrow> bt_str mx p s = p @ s"
  by (induction s arbitrary: p) auto

lemma bt_str_bound: "length p < mx \<Longrightarrow> length (bt_str mx p s) < mx"
  by (induction s arbitrary: p) auto

definition num_str :: "nat \<Rightarrow> string" where
  "num_str v = rev (tmp_digits 12 v)"

lemma bt_num_fits: "length p + length (num_str v) < mx \<Longrightarrow> bt_num mx p (int v) = p @ num_str v"
  by (simp add: bt_num_def num_str_def bt_str_fits)

lemma tmp_two: "v < 100 \<Longrightarrow> length (tmp_digits (Suc (Suc k)) v) \<le> 2"
  by auto

lemma num_str_short: "v < 100 \<Longrightarrow> length (num_str v) \<le> 2"
  using tmp_two[of v 10] by (simp add: num_str_def)

text \<open>\<open>appends f s\<close>: with room for \<open>s\<close>, the step \<open>f\<close> appends exactly \<open>s\<close>.\<close>

definition appends :: "nat \<Rightarrow> (string \<Rightarrow> string) \<Rightarrow> string \<Rightarrow> bool" where
  "appends mx f s \<longleftrightarrow> (\<forall>p. length p + length s < mx \<longrightarrow> f p = p @ s)"

named_theorems appends_intros

lemma appends_str [appends_intros]: "appends mx (\<lambda>p. bt_str mx p s) s"
  by (simp add: appends_def bt_str_fits)

lemma appends_num [appends_intros]: "appends mx (\<lambda>p. bt_num mx p (int v)) (num_str v)"
  by (simp add: appends_def bt_num_fits)

lemma appends_let [appends_intros]: "\<lbrakk>appends mx f s; appends mx g t\<rbrakk> \<Longrightarrow> appends mx (\<lambda>p. let q = f p in g q) (s @ t)"
  by (simp add: appends_def)

lemma appends_if [appends_intros]: "appends mx f s \<Longrightarrow> appends mx (\<lambda>p. if b then f p else p) (if b then s else [])"
  by (simp add: appends_def)

lemma appends_fold: "(\<And>i. appends mx (f i) (s i)) \<Longrightarrow> appends mx (fold f xs) (concat (map s xs))"
  by (induction xs) (simp_all add: appends_def)

definition pin_str :: "bend_t \<Rightarrow> nat \<Rightarrow> string" where
  "pin_str b i = '' '' @ num_str i @ '':'' @ bend_src_name (b_route b ! i)"

definition region_str :: "nat \<Rightarrow> string" where
  "region_str i = ''  '' @ num_str (Suc i) @ '':'' @ ''bend'' @ num_str (Suc i)"

definition item_str :: "bendx_chain_t \<Rightarrow> nat \<Rightarrow> string" where
  "item_str c i = (if i \<noteq> 0 then '' >'' else []) @ '' '' @ bendx_name (uint (x_kind (ch_item c ! i))) @
     (if bendx_label (ch_item c ! i) \<noteq> [] then '' '' @ bendx_label (ch_item c ! i) else [])"

lemma put_pin_appends: "appends mx (put_pin mx b i) (pin_str b i)"
  unfolding put_pin_def pin_str_def by (intro appends_intros)

lemma put_region_appends: "appends mx (put_region mx i) (region_str i)"
proof -
  have "int i + 1 = int (Suc i)" by simp
  then show ?thesis
    unfolding put_region_def region_str_def by (simp only:) (intro appends_intros)
qed

lemma put_item_appends: "appends mx (put_item mx c i) (item_str c i)"
  by (auto simp: appends_def put_item_def item_str_def Let_def bt_str_fits)

definition prose_bend :: "nat \<Rightarrow> bend_t \<Rightarrow> string" where
  "prose_bend nb b = ''bend'' @ concat (map (pin_str b) (rev [0..<nb])) @ (NL @ ''depth '') @ num_str (unat (b_depth b)) @
     ''  trash '' @ bend_trash_names ! unat (b_trash_type b) @ NL"

definition prose_seg :: "bend_segs_t \<Rightarrow> string" where
  "prose_seg s = ''seg '' @ bend_seg_name (uint (g_layout s)) @
     concat (map region_str [0..<nat (bend_seg_count (uint (g_layout s)))]) @ NL"

definition prose_chain :: "bendx_chain_t \<Rightarrow> string" where
  "prose_chain c = ''x'' @ concat (map (item_str c) [0..<min (locked c) BENDX_CHAIN_MAX]) @ NL"

definition prose :: "nat \<Rightarrow> bend_t \<Rightarrow> bool \<Rightarrow> bendx_chain_t \<Rightarrow> bool \<Rightarrow> bend_segs_t \<Rightarrow> string" where
  "prose nb b bend_on c bendx_on s = (BEND_TAG_MARK @ NL) @ (if bend_on then prose_bend nb b else []) @
     (if uint (g_layout s) \<noteq> BSEG_OFF then prose_seg s else []) @ (if bendx_on then prose_chain c else [])"

lemma describe_appends: "appends mx (\<lambda>p. bt_describe nb mx p b bend_on c bendx_on s) (prose nb b bend_on c bendx_on s)"
proof -
  have d: "uint (b_depth b) = int (unat (b_depth b))" by (rule uint_nat)
  show ?thesis
    unfolding bt_describe_def prose_def prose_bend_def prose_seg_def prose_chain_def d
    by (rule appends_let appends_if appends_str appends_num appends_fold put_pin_appends put_region_appends put_item_appends)+
qed

section \<open>The summary leaves room for the record\<close>

lemma concat_bound: "\<forall>x\<in>set xs. length (f x) \<le> k \<Longrightarrow> length (concat (map f xs)) \<le> k * length xs"
  by (induction xs) auto

lemma nth_bound: "\<lbrakk>\<forall>x\<in>set xs. length x \<le> k; i < length xs\<rbrakk> \<Longrightarrow> length (xs ! i) \<le> k"
  by simp

lemma table_bounds:
  "length (bend_src_name v) \<le> 3"
  "i < TRASH_COUNT \<Longrightarrow> length (bend_trash_names ! i) \<le> 11"
  "length (bend_seg_name l) \<le> 14" "length (bendx_name k) \<le> 10"
proof -
  have "\<forall>x\<in>set bus_short. length x \<le> 2" "length bus_short = 12" by (simp_all add: bus_short_def)
  from nth_bound[OF this(1)] this(2) have "length (bus_short ! i) \<le> 2 \<and> length (bus_short ! i) \<le> 3" if "i < 12" for i using that by fastforce
  then show "length (bend_src_name v) \<le> 3"
    by (auto simp: bend_src_name_def Let_def intro: le_SucI)
  have "\<forall>x\<in>set bend_trash_names. length x \<le> 11" "length bend_trash_names = TRASH_COUNT" by (simp_all add: bend_trash_names_def)
  from nth_bound[OF this(1)] this(2) show "i < TRASH_COUNT \<Longrightarrow> length (bend_trash_names ! i) \<le> 11" by simp
  have "\<forall>x\<in>set bseg_names. length x \<le> 14" "length bseg_names = 17" by (simp_all add: bseg_names_def)
  from nth_bound[OF this(1)] this(2) show "length (bend_seg_name l) \<le> 14" by (simp add: bend_seg_name_def Let_def nat_less_iff)
  have "\<forall>x\<in>set bx_names. length x \<le> 10" "length bx_names = 19" by (simp_all add: bx_names_def)
  from nth_bound[OF this(1)] this(2) show "length (bendx_name k) \<le> 10" by (simp add: bendx_name_def nat_less_iff)
qed

lemma prose_bend_length:
  assumes "bend_ok b" "nb \<le> 16"
  shows "length (prose_bend nb b) \<le> 146"
proof -
  have "\<forall>i\<in>set (rev [0..<nb]). length (pin_str b i) \<le> 7"
  proof
    fix i assume "i \<in> set (rev [0..<nb])"
    then have "length (num_str i) \<le> 2" using assms(2) by (intro num_str_short) simp
    then show "length (pin_str b i) \<le> 7" using table_bounds(1)[of "b_route b ! i"] by (simp add: pin_str_def)
  qed
  from concat_bound[OF this] have "length (concat (map (pin_str b) (rev [0..<nb]))) \<le> 112" using assms(2) by simp
  moreover have "length (num_str (unat (b_depth b))) \<le> 2"
    using assms(1) by (intro num_str_short) (simp add: bend_ok_def BEND_MAX_BITS_def)
  moreover have "length (bend_trash_names ! unat (b_trash_type b)) \<le> 11"
    using assms(1) by (intro table_bounds(2)) (simp add: bend_ok_def)
  ultimately show ?thesis by (simp add: prose_bend_def NL_def)
qed

lemma prose_seg_length: "length (prose_seg s) \<le> 63"
proof -
  let ?n = "nat (bend_seg_count (uint (g_layout s)))"
  have n: "?n \<le> 4" using bend_seg_count_range[of "uint (g_layout s)"] by (simp add: nat_le_iff)
  have "\<forall>i\<in>set [0..<?n]. length (region_str i) \<le> 11"
  proof
    fix i assume "i \<in> set [0..<?n]"
    then have "length (num_str (Suc i)) \<le> 2" using n by (intro num_str_short) simp
    then show "length (region_str i) \<le> 11" by (simp add: region_str_def)
  qed
  from concat_bound[OF this] have "length (concat (map region_str [0..<?n])) \<le> 44" using n by simp
  then show ?thesis using table_bounds(3)[of "uint (g_layout s)"] by (simp add: prose_seg_def NL_def)
qed

lemma prose_chain_length:
  assumes "chain_ok c"
  shows "length (prose_chain c) \<le> 74"
proof -
  have "\<forall>i\<in>set [0..<min (locked c) BENDX_CHAIN_MAX]. length (item_str c i) \<le> 18"
  proof
    fix i assume "i \<in> set [0..<min (locked c) BENDX_CHAIN_MAX]"
    then have "bendx_ok (ch_item c ! i)" using assms by (auto simp: chain_ok_def)
    then have "length (bendx_label (ch_item c ! i)) \<le> 4" by (rule bendx_label_length)
    then show "length (item_str c i) \<le> 18"
      using table_bounds(4)[of "uint (x_kind (ch_item c ! i))"] by (cases "i = 0") (auto simp: item_str_def)
  qed
  from concat_bound[OF this] show ?thesis by (simp add: prose_chain_def NL_def)
qed

lemma prose_length:
  assumes "bend_ok b" "chain_ok c" "nb \<le> 16"
  shows "length (prose nb b p c q s) \<le> 299"
  using prose_bend_length[OF assms(1,3)] prose_seg_length[of s] prose_chain_length[OF assms(2)]
  by (auto simp: prose_def BEND_TAG_MARK_def NL_def)

section \<open>The summary does not look like a record\<close>

text \<open>
  No \<open>B\<close> is followed by an \<open>S\<close>, so \<open>BSH1:\<close> occurs nowhere in the prose, and no character
  ends the C string.
\<close>

primrec nobs :: "string \<Rightarrow> bool" where
  "nobs [] = True"
| "nobs (c # s) = (c \<noteq> CHR 0x00 \<and> nobs s \<and> \<not> (c = CHR ''B'' \<and> s \<noteq> [] \<and> hd s = CHR ''S''))"

definition calm :: "string \<Rightarrow> bool" where
  "calm s \<longleftrightarrow> nobs s \<and> (s = [] \<or> hd s \<noteq> CHR ''S'')"

lemma nobs_append: "\<lbrakk>nobs s; calm t\<rbrakk> \<Longrightarrow> nobs (s @ t)"
  by (induction s) (auto simp: calm_def hd_append)

lemma calm_append: "\<lbrakk>calm s; calm t\<rbrakk> \<Longrightarrow> calm (s @ t)"
  using nobs_append[of s t] by (auto simp: calm_def hd_append)

lemma calm_concat: "\<forall>x\<in>set xs. calm (f x) \<Longrightarrow> calm (concat (map f xs))"
  by (induction xs) (simp_all add: calm_append, simp add: calm_def)

lemma nobs_no_B: "CHR ''B'' \<notin> set s \<Longrightarrow> CHR 0x00 \<notin> set s \<Longrightarrow> nobs s"
  by (induction s) auto

lemma calm_digits: "CHR ''B'' \<notin> set s \<Longrightarrow> CHR 0x00 \<notin> set s \<Longrightarrow> CHR ''S'' \<notin> set s \<Longrightarrow> calm s"
  by (auto simp: calm_def nobs_no_B dest: hd_in_set)

lemma digit_not [simp]: "digit n \<noteq> CHR ''B''" "digit n \<noteq> CHR ''S''" "digit n \<noteq> CHR 0x00"
  by (simp_all only: char_eq_nat digit_code) simp_all

lemma tmp_digits_set: "CHR 0x00 \<notin> set (tmp_digits k v) \<and> CHR ''B'' \<notin> set (tmp_digits k v) \<and> CHR ''S'' \<notin> set (tmp_digits k v)"
  by (induction k arbitrary: v) (auto dest: sym)

lemma calm_num: "calm (num_str v)"
  using tmp_digits_set[of 12 v] by (intro calm_digits) (simp_all add: num_str_def)

lemma label_digits_no_B: "CHR ''B'' \<notin> set (label_digits v d)" "CHR 0x00 \<notin> set (label_digits v d)"
proof -
  have "set (label_digits v d) \<inter> {CHR ''B'', CHR 0x00} = {}"
  proof (induction v d rule: label_digits.induct)
    case (1 v d)
    have "(48 + (v div d) mod 10) < (256::nat)" "(48 + (v div d) mod 10) \<noteq> (66::nat)"
      using mod_less_divisor[of 10 "v div d"] by linarith+
    then have "char_of (48 + (v div d) mod 10) \<noteq> CHR ''B''" "char_of (48 + (v div d) mod 10) \<noteq> CHR 0x00"
      unfolding char_eq_nat by simp_all
    then show ?case using 1 by (subst label_digits.simps) simp
  qed
  then show "CHR ''B'' \<notin> set (label_digits v d)" "CHR 0x00 \<notin> set (label_digits v d)" by auto
qed

lemma nobs_names:
  "nobs (bend_src_name v)" "i < TRASH_COUNT \<Longrightarrow> nobs (bend_trash_names ! i)" "nobs (bend_seg_name l)" "nobs (bendx_name k)"
  "nobs (bendx_label x)"
proof -
  have "\<forall>x\<in>set bus_short. nobs x" "length bus_short = 12" by (simp_all add: bus_short_def)
  from nth_all[OF this(1)] this(2) have b: "nobs (bus_short ! i)" if "i < 12" for i using that by simp
  have pin: "pin_digit n \<noteq> CHR ''B''" "pin_digit n \<noteq> CHR 0x00" if "n < 16" for n
    unfolding char_eq_nat pin_digit_def using that by simp_all
  have "BSRC_IDX v < 16" by (simp add: BSRC_IDX_def)
  note pd = pin[OF this]
  show "nobs (bend_src_name v)"
    using b pd by (auto simp: bend_src_name_def Let_def)
  have "\<forall>x\<in>set bend_trash_names. nobs x" "length bend_trash_names = TRASH_COUNT" by (simp_all add: bend_trash_names_def)
  from nth_all[OF this(1)] this(2) show "i < TRASH_COUNT \<Longrightarrow> nobs (bend_trash_names ! i)" by simp
  have "\<forall>x\<in>set bseg_names. nobs x" "length bseg_names = 17" by (simp_all add: bseg_names_def)
  from nth_all[OF this(1)] this(2) show "nobs (bend_seg_name l)" by (simp add: bend_seg_name_def Let_def nat_less_iff)
  have "\<forall>x\<in>set bx_names. nobs x" "length bx_names = 19" by (simp_all add: bx_names_def)
  from nth_all[OF this(1)] this(2) show "nobs (bendx_name k)" by (simp add: bendx_name_def nat_less_iff)
  have "\<forall>x\<in>set endian_labels. nobs x" "length endian_labels = 5" by (simp_all add: endian_labels_def)
  from nth_all[OF this(1)] this(2) have e: "nobs (endian_labels ! i)" if "i \<le> 4" for i using that by simp
  show "nobs (bendx_label x)"
    using e nobs_no_B[OF label_digits_no_B] by (simp add: bendx_label_def Let_def)
qed

lemma calm_sep: "\<lbrakk>c \<noteq> CHR 0x00; c \<noteq> CHR ''B''; c \<noteq> CHR ''S''; nobs s\<rbrakk> \<Longrightarrow> calm (c # s)"
  by (simp add: calm_def)

lemma calm_pieces:
  "calm ''bend''" "calm '' ''" "calm ''  ''" "calm '':''" "calm (NL @ ''depth '')" "calm NL" "calm ''x''" "calm (BEND_TAG_MARK @ NL)" "calm []"
  "calm '' >''"
  by (simp_all add: calm_def NL_def BEND_TAG_MARK_def)

lemma prose_calm:
  assumes "bend_ok b"
  shows "calm (prose nb b p c q s)"
proof -
  have pin: "calm (pin_str b i)" for i
  proof -
    have "calm ('':'' @ bend_src_name (b_route b ! i))" by (simp add: calm_sep nobs_names)
    then show ?thesis unfolding pin_str_def by (rule calm_append[OF calm_pieces(2) calm_append[OF calm_num]])
  qed
  have reg: "calm (region_str i)" for i
    unfolding region_str_def by (intro calm_append calm_pieces calm_num)
  have item: "calm (item_str c i)" for i
  proof -
    have "calm ('' '' @ bendx_name (uint (x_kind (ch_item c ! i))))" by (simp add: calm_sep nobs_names)
    moreover have "calm (if bendx_label (ch_item c ! i) \<noteq> [] then '' '' @ bendx_label (ch_item c ! i) else [])"
      by (simp add: calm_sep nobs_names calm_pieces)
    ultimately have "calm (('' '' @ bendx_name (uint (x_kind (ch_item c ! i)))) @
      (if bendx_label (ch_item c ! i) \<noteq> [] then '' '' @ bendx_label (ch_item c ! i) else []))" by (rule calm_append)
    then have "calm ('' '' @ bendx_name (uint (x_kind (ch_item c ! i))) @
      (if bendx_label (ch_item c ! i) \<noteq> [] then '' '' @ bendx_label (ch_item c ! i) else []))" by (simp only: append_assoc)
    moreover have "calm (if i \<noteq> 0 then '' >'' else [])" by (simp add: calm_pieces)
    ultimately show ?thesis unfolding item_str_def by (rule calm_append[rotated])
  qed
  have "calm (''  trash '' @ bend_trash_names ! unat (b_trash_type b))"
    using nobs_names(2)[of "unat (b_trash_type b)"] assms by (simp add: calm_def bend_ok_def)
  then have "calm ((''  trash '' @ bend_trash_names ! unat (b_trash_type b)) @ NL)"
    by (rule calm_append) (rule calm_pieces)
  then have t: "calm (''  trash '' @ bend_trash_names ! unat (b_trash_type b) @ NL)" by (simp only: append_assoc)
  have b: "calm (prose_bend nb b)"
    unfolding prose_bend_def using pin by (intro calm_append calm_pieces calm_num calm_concat t) simp
  have "calm (''seg '' @ bend_seg_name (uint (g_layout s)))" by (simp add: calm_def nobs_names)
  moreover have "calm (concat (map region_str [0..<nat (bend_seg_count (uint (g_layout s)))]) @ NL)"
    using reg by (intro calm_append calm_pieces calm_concat) simp
  ultimately have "calm ((''seg '' @ bend_seg_name (uint (g_layout s))) @ concat (map region_str [0..<nat (bend_seg_count (uint (g_layout s)))]) @ NL)"
    by (rule calm_append)
  then have sg: "calm (prose_seg s)" by (simp only: prose_seg_def append_assoc)
  have ch: "calm (prose_chain c)"
    unfolding prose_chain_def using item by (intro calm_append calm_pieces calm_concat) simp
  show ?thesis
    unfolding prose_def using b sg ch by (intro calm_append calm_pieces) (simp_all add: calm_pieces)
qed

lemma nobs_nth: "\<lbrakk>nobs s; Suc i < length s\<rbrakk> \<Longrightarrow> \<not> (s ! i = CHR ''B'' \<and> s ! Suc i = CHR ''S'')"
proof (induction s arbitrary: i)
  case (Cons c s)
  then show ?case by (cases i; cases s) auto
qed simp

lemma nobs_plain: "nobs s \<Longrightarrow> CHR 0x00 \<notin> set s"
  by (induction s) auto

section \<open>The whole comment\<close>

lemma hex_digit: "n < 16 \<Longrightarrow> bt_unhex (bt_hexd n) = int n"
  by (auto simp: less_16_iff bt_hexd_def bt_unhex_def Let_def)

lemma hexd_plain: "n < 16 \<Longrightarrow> bt_hexd n \<noteq> CHR 0x00"
  by (auto simp: less_16_iff bt_hexd_def)

lemma unat_u8_parts: "unat (v::u8) div 16 < 16" "unat v mod 16 < 16"
proof -
  have "unat v < 256" using unsigned_less[where ?'a = nat, of v] by simp
  then show "unat v div 16 < 16" "unat v mod 16 < 16" by simp_all
qed

lemma hex_plain: "CHR 0x00 \<notin> set (hex_bytes bs)"
  using hexd_plain[OF unat_u8_parts(1), THEN not_sym] hexd_plain[OF unat_u8_parts(2), THEN not_sym]
  by (induction bs) (auto simp: hex_bytes_def hex_byte_def)

lemma hex_length [simp]: "length (hex_bytes bs) = 2 * length bs"
  by (induction bs) (simp_all add: hex_bytes_def hex_byte_def)

lemma tag_text_form:
  assumes "bend_ok b" "chain_ok c" "segs_ok s" "nb \<le> 16"
  shows "tag_text nb b p c q s = prose nb b p c q s @ ''BSH1:'' @ hex_bytes (shot_record b p c q s) @ NL"
    and "length (tag_text nb b p c q s) \<le> 713"
proof -
  have sh: "shot_shape b c s" using assms by (simp add: shot_shape_def bend_ok_shape chain_ok_shape segs_ok_shape)
  note len = prose_length[OF assms(1,2,4), of p q s]
  have d: "bt_describe nb BT_TEXT_MAX [] b p c q s = prose nb b p c q s"
    using describe_appends[of BT_TEXT_MAX nb b p c q s] len by (simp add: appends_def)
  have pk: "bend_shot_pack (Some (replicate BEND_SHOT_REC_MAX 0)) (Some b) p (Some c) q (Some s) =
    (BEND_SHOT_REC_MAX, Some (shot_record b p c q s @ []))"
    using pack_record[OF sh, of "replicate BEND_SHOT_REC_MAX 0" p q] by simp
  show t: "tag_text nb b p c q s = prose nb b p c q s @ ''BSH1:'' @ hex_bytes (shot_record b p c q s) @ NL"
    using len record_length[OF sh, of p q] unfolding tag_text_def d pk Let_def prod.case option.case by (simp add: bt_str_fits)
  show "length (tag_text nb b p c q s) \<le> 713"
    using len record_length[OF sh, of p q] by (simp add: t NL_def)
qed

lemma prose_start: "prose nb b p c q s = BEND_TAG_MARK @ NL @ drop 16 (prose nb b p c q s)"
  by (simp add: prose_def BEND_TAG_MARK_def NL_def)

lemma prose_last: "last (prose nb b p c q s) = CHR 0x0A"
  by (simp add: prose_def prose_bend_def prose_seg_def prose_chain_def NL_def)

end
