(* ===== verification/BendTag.thy ===== *)
theory BendTag
  imports TagText
begin

text \<open>
  The job that carries a recipe into a photograph (\<open>core/bend_tag.c\<close>, and the close of
  \<open>platform/generic/filewrite.c\<close> that hands it over), and the reader. The statics are one
  record; the events that change it (a shot queued by the raw hook, Canon opening and closing a
  file, the service called by the display task) are functions and the steps of a relation.
\<close>

section \<open>The job\<close>

abbreviation (input) BT_FIRST_MS :: int where "BT_FIRST_MS \<equiv> 800"
abbreviation (input) BT_GIVEUP_MS :: int where "BT_GIVEUP_MS \<equiv> 20000"
abbreviation (input) BEND_TAG_PATHLEN :: nat where "BEND_TAG_PATHLEN \<equiv> 64"

text \<open>\<open>bt_len\<close> is the length of \<open>bt_text\<close>, which holds the characters before its terminator.\<close>

record tag_t =
  bt_path :: string
  bt_text :: string
  bt_at :: int
  bt_pending :: bool
  bt_arm :: bool
  bt_open_name :: string

definition tag_init :: tag_t where
  "tag_init = \<lparr>bt_path = [], bt_text = [], bt_at = 0, bt_pending = False, bt_arm = False, bt_open_name = []\<rparr>"

definition bend_tag_queue ::
  "nat \<Rightarrow> string option \<Rightarrow> int \<Rightarrow> bend_t option \<Rightarrow> bool \<Rightarrow> bendx_chain_t option \<Rightarrow> bool \<Rightarrow> bend_segs_t option \<Rightarrow>
   int \<Rightarrow> tag_t \<Rightarrow> tag_t" where
  "bend_tag_queue nb dir num b bend_on c bendx_on s tick st =
     (case (dir, b, c, s) of
       (Some d, Some b1, Some c1, Some s1) \<Rightarrow>
         if int BEND_TAG_PATHLEN \<le> int (length d) + 16 then st
         else st\<lparr>bt_path := picture_file d num, bt_text := tag_text nb b1 bend_on c1 bendx_on s1,
           bt_at := tick, bt_pending := True\<rparr>
     | _ \<Rightarrow> st)"

subsection \<open>Canon's file-write task\<close>

definition bend_tag_note_file_open :: "string option \<Rightarrow> tag_t \<Rightarrow> tag_t" where
  "bend_tag_note_file_open nm st =
     (let st = st\<lparr>bt_arm := False\<rparr> in
      case nm of None \<Rightarrow> st | Some nm \<Rightarrow>
        if \<not> bt_pending st then st
        else let st = st\<lparr>bt_open_name := take (BEND_TAG_PATHLEN - 1) nm\<rparr>;
                 a = length (bt_open_name st); b = length (bt_path st)
          in if a < 12 \<or> b < 12 then st
          else if \<forall>i\<in>set [1..<13]. bt_open_name st ! (a - i) = bt_path st ! (b - i) then st\<lparr>bt_arm := True\<rparr>
          else st)"

definition bend_tag_note_file_closed :: "tag_t \<Rightarrow> tag_t" where
  "bend_tag_note_file_closed st = st\<lparr>bt_arm := False\<rparr>"

definition bt_header :: "nat \<Rightarrow> u8 list" where
  "bt_header seg = [0xff, 0xfe, word_of_nat (seg div 256), word_of_nat (seg mod 256)]"

definition bend_tag_segment :: "tag_t \<Rightarrow> (u8 list \<times> string) option" where
  "bend_tag_segment st =
     (if \<not> bt_arm st \<or> \<not> bt_pending st \<or> length (bt_text st) = 0 then None
      else let seg = length (bt_text st) + 2 in
        if 0xfffd < seg then None else Some (bt_header seg, bt_text st))"

definition bend_tag_segment_written :: "tag_t \<Rightarrow> tag_t" where
  "bend_tag_segment_written st = st\<lparr>bt_arm := False, bt_pending := False\<rparr>"

definition text_bytes :: "string \<Rightarrow> u8 list" where
  "text_bytes s = map of_char s"

text \<open>
  \<open>fwt_close\<close>: \<open>cw\<close> is what \<open>_Write\<close> returns; the result lists what was passed to it.
\<close>

definition fwt_close_tag :: "(u8 list \<Rightarrow> int) \<Rightarrow> tag_t \<Rightarrow> u8 list list \<times> tag_t" where
  "fwt_close_tag cw st =
     (case bend_tag_segment st of
       None \<Rightarrow> ([], bend_tag_note_file_closed st)
     | Some (hdr, txt) \<Rightarrow>
        if cw hdr = int (length hdr) then
          if cw (text_bytes txt) = int (length txt)
          then ([hdr, text_bytes txt], bend_tag_note_file_closed (bend_tag_segment_written st))
          else ([hdr, text_bytes txt], bend_tag_note_file_closed st)
        else ([hdr], bend_tag_note_file_closed st))"

text \<open>The service of the bodies that inject.\<close>

definition bend_tag_service_inject :: "int \<Rightarrow> tag_t \<Rightarrow> tag_t" where
  "bend_tag_service_inject t st =
     (if \<not> bt_pending st then st
      else if BT_GIVEUP_MS < t - bt_at st then st\<lparr>bt_pending := False\<rparr> else st)"

subsection \<open>The bodies that append afterwards\<close>

text \<open>First position at which the pattern occurs.\<close>

primrec find_sub :: "'a list \<Rightarrow> 'a list \<Rightarrow> nat option" where
  "find_sub m [] = (if m = [] then Some 0 else None)"
| "find_sub m (x # xs) = (if take (length m) (x # xs) = m then Some 0 else map_option Suc (find_sub m xs))"

definition tag_window :: "u8 list \<Rightarrow> u8 list" where
  "tag_window bs = drop (length bs - min (BT_TEXT_MAX + 4) (length bs)) bs"

definition mark_bytes :: "u8 list" where
  "mark_bytes = text_bytes BEND_TAG_MARK"

text \<open>
  \<open>bt_ready\<close>: 1, 0 or -1. \<open>mal n\<close> says whether \<open>malloc(n)\<close> succeeds.
\<close>

definition bt_ready :: "'c card_ops \<Rightarrow> (nat \<Rightarrow> bool) \<Rightarrow> 'c \<Rightarrow> string \<Rightarrow> int" where
  "bt_ready ops mal cd path =
     (case co_read ops cd path of None \<Rightarrow> 0 | Some bs \<Rightarrow>
       if length bs < 2 \<or> take 2 bs \<noteq> [0xff, 0xd8] then 0
       else if drop (length bs - 2) bs = [0xff, 0xd9] then 1
       else let win = min (BT_TEXT_MAX + 4) (length bs) in
         if win < length BEND_TAG_MARK + 1 then 0
         else if \<not> mal (win + 1) then 0
         else if find_sub mark_bytes (tag_window bs) \<noteq> None then - 1 else 0)"

text \<open>\<open>opn\<close> says whether the file opens for writing and seeks to its end.\<close>

definition bt_append :: "'c card_ops \<Rightarrow> ('c \<Rightarrow> string \<Rightarrow> bool) \<Rightarrow> 'c \<Rightarrow> string \<Rightarrow> string \<Rightarrow> bool \<times> 'c" where
  "bt_append ops opn cd path txt =
     (let seg = length txt + 2 in
      if length txt = 0 \<or> 0xfffd < seg then (False, cd)
      else if \<not> opn cd path then (False, cd)
      else write_chunks ops cd path [bt_header seg, text_bytes txt])"

definition bend_tag_service ::
  "'c card_ops \<Rightarrow> ('c \<Rightarrow> string \<Rightarrow> bool) \<Rightarrow> (nat \<Rightarrow> bool) \<Rightarrow> int \<Rightarrow> 'c \<times> tag_t \<Rightarrow> 'c \<times> tag_t" where
  "bend_tag_service ops opn mal t cs =
     (let cd = fst cs; st = snd cs in
      if \<not> bt_pending st then cs
      else if t - bt_at st < BT_FIRST_MS then cs
      else let r = bt_ready ops mal cd (bt_path st) in
        if r = 1 then (snd (bt_append ops opn cd (bt_path st) (bt_text st)), st\<lparr>bt_pending := False\<rparr>)
        else if r = - 1 then (cd, st\<lparr>bt_pending := False\<rparr>)
        else if BT_GIVEUP_MS < t - bt_at st then (cd, st\<lparr>bt_pending := False\<rparr>)
        else cs)"

section \<open>Reading one back\<close>

primrec unhex_rec :: "nat \<Rightarrow> string \<Rightarrow> u8 list" where
  "unhex_rec 0 p = []"
| "unhex_rec (Suc k) p =
     (let hi = bt_unhex (cat p 0); lo = (if 0 \<le> hi then bt_unhex (cat p 1) else - 1) in
      if lo < 0 then [] else word_of_int (hi * 16 + lo) # unhex_rec k (drop 2 p))"

definition chars_of :: "u8 list \<Rightarrow> string" where
  "chars_of bs = map (\<lambda>b. char_of (unat b)) bs"

definition bend_tag_read :: "'c card_ops \<Rightarrow> nat \<Rightarrow> (nat \<Rightarrow> bool) \<Rightarrow> 'c \<Rightarrow> string option \<Rightarrow> shot_t option" where
  "bend_tag_read ops nb mal cd picture = do {
     pic \<leftarrow> picture;
     bs \<leftarrow> co_read ops cd pic;
     let seg = min (BT_TEXT_MAX + 4) (length bs) in
     if seg < length BEND_TAG_MARK + 1 then None
     else if \<not> mal (seg + 1) then None
     else do {
       i \<leftarrow> find_sub mark_bytes (tag_window bs);
       let p = takeWhile (\<lambda>c. c \<noteq> CHR 0x00) (chars_of (drop i (tag_window bs))) in do {
         j \<leftarrow> find_sub ''BSH1:'' p;
         bend_shot_unpack nb (Some (unhex_rec BEND_SHOT_REC_MAX (drop (j + 5) p))) } } }"

section \<open>Finding the comment again\<close>

lemma find_sub_first:
  "(\<And>i. i < length pre \<Longrightarrow> take (length m) (drop i (pre @ m @ suf)) \<noteq> m) \<Longrightarrow> find_sub m (pre @ m @ suf) = Some (length pre)"
proof (induction pre)
  case Nil
  then show ?case by (cases "m @ suf") (auto simp: append_eq_Cons_conv)
next
  case (Cons x pre)
  have "take (length m) (drop i (pre @ m @ suf)) \<noteq> m" if "i < length pre" for i
    using Cons.prems[of "Suc i"] that by simp
  moreover have "take (length m) (x # pre @ m @ suf) \<noteq> m" using Cons.prems[of 0] by simp
  ultimately show ?case using Cons.IH by simp
qed

lemma find_sub_none: "find_sub m xs = None \<Longrightarrow> i + length m \<le> length xs \<Longrightarrow> take (length m) (drop i xs) \<noteq> m"
proof (induction xs arbitrary: i)
  case (Cons x xs)
  then show ?case by (cases i) (auto split: if_splits)
qed (auto split: if_splits)

text \<open>A pattern whose first element does not come back in it cannot straddle its own start.\<close>

lemma find_sub_after:
  assumes "find_sub m pre = None" "m \<noteq> []" "hd m \<notin> set (tl m)"
  shows "find_sub m (pre @ m @ suf) = Some (length pre)"
proof (rule find_sub_first)
  fix i assume i: "i < length pre"
  show "take (length m) (drop i (pre @ m @ suf)) \<noteq> m"
  proof (cases "i + length m \<le> length pre")
    case True
    then have "length m \<le> length (drop i pre)" by simp
    then have "take (length m) (drop i (pre @ m @ suf)) = take (length m) (drop i pre)" using i by simp
    then show ?thesis using find_sub_none[OF assms(1) True] by (simp only:) simp
  next
    case False
    define k where "k = length pre - i"
    have k: "0 < k" "k < length m" "i + k = length pre" using i False by (simp_all add: k_def)
    have "take (length m) (drop i (pre @ m @ suf)) ! k = hd m"
      using k assms(2) by (simp add: nth_append hd_conv_nth del: take_append drop_append)
    moreover have "m ! k \<noteq> hd m"
    proof -
      have "m ! k = tl m ! (k - 1)" "k - 1 < length (tl m)" using k by (simp_all add: nth_tl)
      then show ?thesis using assms(3) nth_mem by metis
    qed
    ultimately show ?thesis by metis
  qed
qed

lemma find_record:
  assumes "nobs p" "p \<noteq> []" "last p \<noteq> CHR ''B''"
  shows "find_sub ''BSH1:'' (p @ ''BSH1:'' @ suf) = Some (length p)"
proof (rule find_sub_first)
  fix i assume i: "i < length p"
  let ?t = "take (length ''BSH1:'') (drop i (p @ ''BSH1:'' @ suf))"
  have t: "?t ! 0 = p ! i" using i by (simp add: nth_append del: take_append drop_append)
  show "?t \<noteq> ''BSH1:''"
  proof (cases "Suc i < length p")
    case True
    then have "?t ! 1 = p ! Suc i" by (simp add: nth_append del: take_append drop_append)
    then show ?thesis using t nobs_nth[OF assms(1) True] by (metis nth_Cons_0 nth_Cons_Suc One_nat_def)
  next
    case False
    then have "i = length p - 1" using i by simp
    then have "p ! i \<noteq> CHR ''B''" using assms(2,3) by (simp add: last_conv_nth)
    then show ?thesis using t by (metis nth_Cons_0)
  qed
qed

lemma unhex_hex: "unhex_rec (length bs) (hex_bytes bs @ suf) = bs"
proof (induction bs)
  case (Cons v bs)
  have "int (unat v div 16) * 16 + int (unat v mod 16) = uint v"
    unfolding uint_nat by (metis div_mult_mod_eq of_nat_add of_nat_mult of_nat_numeral)
  then have "word_of_int (int (unat v div 16) * 16 + int (unat v mod 16)) = v" by simp
  moreover have "cat (hex_bytes (v # bs) @ suf) 0 = bt_hexd (unat v div 16)" "cat (hex_bytes (v # bs) @ suf) 1 = bt_hexd (unat v mod 16)"
    "drop 2 (hex_bytes (v # bs) @ suf) = hex_bytes bs @ suf"
    by (simp_all add: cat_def hex_bytes_def hex_byte_def)
  ultimately show ?case
    using Cons hex_digit[OF unat_u8_parts(1)] hex_digit[OF unat_u8_parts(2)] by (simp add: Let_def)
qed simp

lemma chars_text: "chars_of (text_bytes s) = s"
proof -
  have "char_of (unat (of_char c :: u8)) = c" for c
  proof -
    have "(of_char c :: u8) = of_nat (of_char c)" by (simp only: of_nat_of_char)
    then have "unat (of_char c :: u8) = of_char c" by (simp only: unat_of_nat) simp
    then show ?thesis by simp
  qed
  then show ?thesis by (simp add: chars_of_def text_bytes_def comp_def)
qed

section \<open>The comment survives in the tail of the file\<close>

lemma mark_bytes_once: "mark_bytes \<noteq> []" "hd mark_bytes \<notin> set (tl mark_bytes)" "length mark_bytes = 15"
  by (simp_all add: mark_bytes_def text_bytes_def BEND_TAG_MARK_def)

lemma text_bytes_length [simp]: "length (text_bytes s) = length s"
  by (simp add: text_bytes_def)

lemma text_bytes_append: "text_bytes (s @ t) = text_bytes s @ text_bytes t"
  by (simp add: text_bytes_def)

text \<open>The part of the picture that the window still sees in front of the comment.\<close>

definition before_tag :: "u8 list \<Rightarrow> string \<Rightarrow> u8 list" where
  "before_tag pic txt = drop (length pic + 4 - min (BT_TEXT_MAX + 4 - length txt) (length pic + 4)) (pic @ bt_header (length txt + 2))"

lemma tag_window_split:
  assumes "length txt \<le> BT_TEXT_MAX"
  shows "tag_window (pic @ bt_header (length txt + 2) @ text_bytes txt) = before_tag pic txt @ text_bytes txt"
proof -
  obtain H where H: "bt_header (length txt + 2) = H" "length H = 4" by (simp add: bt_header_def)
  define n where "n = length pic + 4 + length txt - min (BT_TEXT_MAX + 4) (length pic + 4 + length txt)"
  have n: "n = length pic + 4 - min (BT_TEXT_MAX + 4 - length txt) (length pic + 4)" "n \<le> length (pic @ H)"
    using assms H(2) by (auto simp: n_def min_def)
  have "length (pic @ H @ text_bytes txt) = length pic + 4 + length txt" by (simp add: H(2))
  then have "tag_window (pic @ H @ text_bytes txt) = drop n ((pic @ H) @ text_bytes txt)"
    by (simp only: tag_window_def n_def append_assoc)
  also have "\<dots> = drop n (pic @ H) @ text_bytes txt"
    using n(2) drop_append[of n "pic @ H" "text_bytes txt"] by (simp only: diff_is_0_eq[THEN iffD2] drop_0)
  finally show ?thesis by (simp only: before_tag_def n(1) H(1))
qed

lemma read_tagged:
  assumes "bend_ok b" "chain_ok c" "segs_ok s" "nb \<le> 16"
    "txt = tag_text nb b p c q s" "co_read ops cd path = Some (pic @ bt_header (length txt + 2) @ text_bytes txt)"
    "find_sub mark_bytes (before_tag pic txt) = None" "\<And>n. n \<le> 1029 \<Longrightarrow> mal n"
  shows "bend_tag_read ops nb mal cd (Some path) = Some (shot_gate nb 3 (shot_flags p q) b c s)"
proof -
  let ?bs = "pic @ bt_header (length txt + 2) @ text_bytes txt"
  let ?prose = "prose nb b p c q s" and ?rec = "shot_record b p c q s"
  have sh: "shot_shape b c s" using assms by (simp add: shot_shape_def bend_ok_shape chain_ok_shape segs_ok_shape)
  have t: "txt = ?prose @ ''BSH1:'' @ hex_bytes ?rec @ NL" and len: "length txt \<le> 713"
    unfolding assms(5) by (rule tag_text_form[OF assms(1-4)])+
  have w: "tag_window ?bs = before_tag pic txt @ text_bytes txt" using len by (intro tag_window_split) simp
  obtain rest where mk: "txt = BEND_TAG_MARK @ rest"
    using prose_start[of nb b p c q s] t by (metis append_assoc)
  have tb: "text_bytes txt = mark_bytes @ text_bytes rest" by (simp add: mk mark_bytes_def text_bytes_append)
  have i: "find_sub mark_bytes (tag_window ?bs) = Some (length (before_tag pic txt))"
    unfolding w by (subst tb) (rule find_sub_after[OF assms(7) mark_bytes_once(1,2)])
  have plain: "CHR 0x00 \<notin> set txt"
    using nobs_plain[of ?prose] prose_calm[OF assms(1), of nb p c q s] hex_plain[of ?rec] by (auto simp: t calm_def NL_def)
  have tail: "takeWhile (\<lambda>c. c \<noteq> CHR 0x00) (chars_of (drop (length (before_tag pic txt)) (tag_window ?bs))) = txt"
  proof -
    have "chars_of (drop (length (before_tag pic txt)) (tag_window ?bs)) = txt"
      unfolding w by (simp add: chars_text)
    moreover have "takeWhile (\<lambda>c. c \<noteq> CHR 0x00) txt = txt" using plain by (auto simp: takeWhile_eq_all_conv)
    ultimately show ?thesis by simp
  qed
  have ne: "?prose \<noteq> []" by (subst prose_start) (simp add: NL_def)
  have j: "find_sub ''BSH1:'' txt = Some (length ?prose)"
    unfolding t using prose_calm[OF assms(1), of nb p c q s] ne
    by (intro find_record) (simp_all add: calm_def prose_last)
  have "drop (length ?prose + 5) txt = hex_bytes ?rec @ NL" by (simp add: t)
  then have r: "unhex_rec BEND_SHOT_REC_MAX (drop (length ?prose + 5) txt) = ?rec"
    using unhex_hex[of ?rec NL] record_length[OF sh, of p q] by simp
  have seg: "\<not> min (BT_TEXT_MAX + 4) (length ?bs) < length BEND_TAG_MARK + 1" "mal (min (BT_TEXT_MAX + 4) (length ?bs) + 1)"
    using assms(8) by (simp_all add: mk bt_header_def BEND_TAG_MARK_def)
  show ?thesis
    unfolding bend_tag_read_def assms(6) Option.bind.simps Let_def i tail j r
    using seg unpack_record[OF sh, of nb p q "[]"] by simp
qed

text \<open>The picture of one shot: appended by either body, then read.\<close>

lemma append_reads:
  assumes "card_laws ops" "bt_append ops opn cd path txt = (True, cd')" "co_read ops cd path = Some pic"
  shows "co_read ops cd' path = Some (pic @ bt_header (length txt + 2) @ text_bytes txt)"
proof -
  have "write_chunks ops cd path [bt_header (length txt + 2), text_bytes txt] = (True, cd')"
    using assms(2) by (auto simp: bt_append_def Let_def split: if_splits)
  from write_chunks_read[OF assms(1) this assms(3)] show ?thesis by simp
qed

section \<open>The protocol\<close>

text \<open>
  The events in the order the camera can deliver them: a shot is queued while no picture of
  ours is open, Canon opens and closes files, the display task calls the service.
\<close>

definition tail12 :: "string \<Rightarrow> string" where
  "tail12 s = drop (length s - 12) s"

inductive tag_step :: "nat \<Rightarrow> tag_t \<Rightarrow> tag_t \<Rightarrow> bool" for nb where
  queue: "\<not> bt_arm st \<Longrightarrow> tag_step nb st (bend_tag_queue nb dir num b p c q s tick st)"
| opened: "tag_step nb st (bend_tag_note_file_open nm st)"
| closed: "tag_step nb st (snd (fwt_close_tag cw st))"
| service: "tag_step nb st (bend_tag_service_inject t st)"

inductive tag_reachable :: "nat \<Rightarrow> tag_t \<Rightarrow> bool" for nb where
  start: "tag_reachable nb tag_init"
| step: "\<lbrakk>tag_reachable nb st; tag_step nb st st'\<rbrakk> \<Longrightarrow> tag_reachable nb st'"

inductive_cases tag_stepE: "tag_step nb st st'"

definition tag_inv :: "tag_t \<Rightarrow> bool" where
  "tag_inv st \<longleftrightarrow> (bt_arm st \<longrightarrow> 12 \<le> length (bt_open_name st) \<and> 12 \<le> length (bt_path st) \<and>
     tail12 (bt_open_name st) = tail12 (bt_path st))"

lemma tail12_eq:
  assumes "12 \<le> length a" "12 \<le> length b" "\<forall>i\<in>set [1..<13]. a ! (length a - i) = b ! (length b - i)"
  shows "tail12 a = tail12 b"
proof (rule nth_equalityI)
  show "length (tail12 a) = length (tail12 b)" using assms by (simp add: tail12_def)
  fix k assume "k < length (tail12 a)"
  then have k: "k < 12" by (simp add: tail12_def)
  have "a ! (length a - (12 - k)) = b ! (length b - (12 - k))" by (rule bspec[OF assms(3)]) (use k in \<open>simp, arith\<close>)
  moreover have "length a - (12 - k) = length a - 12 + k" "length b - (12 - k) = length b - 12 + k" using assms(1,2) k by simp_all
  ultimately have "a ! (length a - 12 + k) = b ! (length b - 12 + k)" by (simp only:)
  then show "tail12 a ! k = tail12 b ! k" using assms(1,2) by (simp only: tail12_def nth_drop)
qed

lemma note_open_inv: "tag_inv (bend_tag_note_file_open nm st)"
  using tail12_eq by (auto simp: bend_tag_note_file_open_def tag_inv_def Let_def split: option.split)

lemma queue_arm: "bt_arm (bend_tag_queue nb dir num b p c q s tick st) = bt_arm st"
  by (auto simp: bend_tag_queue_def split: option.split)

lemma close_arm: "\<not> bt_arm (snd (fwt_close_tag cw st))"
  by (auto simp: fwt_close_tag_def bend_tag_note_file_closed_def split: option.split prod.split)

lemma tag_step_inv: "\<lbrakk>tag_step nb st st'; tag_inv st\<rbrakk> \<Longrightarrow> tag_inv st'"
proof (erule tag_stepE)
  show "tag_inv st'" if "tag_inv st" "st' = bend_tag_queue nb dir num b p c q s tick st" "\<not> bt_arm st"
    for dir num b p c q s tick
    using that queue_arm[of nb dir num b p c q s tick st] by (simp add: tag_inv_def)
  show "tag_inv st'" if "st' = bend_tag_note_file_open nm st" for nm
    using that note_open_inv by simp
  show "tag_inv st'" if "st' = snd (fwt_close_tag cw st)" for cw
    using that close_arm by (simp add: tag_inv_def)
  show "tag_inv st'" if "tag_inv st" "st' = bend_tag_service_inject t st" for t
    using that by (simp add: tag_inv_def bend_tag_service_inject_def)
qed

lemma tag_reachable_inv: "tag_reachable nb st \<Longrightarrow> tag_inv st"
  by (induction rule: tag_reachable.induct) (simp_all add: tag_step_inv, simp add: tag_inv_def tag_init_def)

text \<open>What is handed to Canon's task belongs to the file that is open.\<close>

lemma segment_matches:
  assumes "tag_reachable nb st" "bend_tag_segment st = Some (hdr, txt)"
  shows "bt_pending st" "txt = bt_text st" "tail12 (bt_open_name st) = tail12 (bt_path st)"
    "hdr = bt_header (length txt + 2)" "length txt + 2 \<le> 0xfffd"
  using tag_reachable_inv[OF assms(1)] assms(2)
  by (auto simp: bend_tag_segment_def tag_inv_def Let_def split: if_splits)

text \<open>A job never outlives the deadline, whatever the services in between find.\<close>

lemma service_keeps_at:
  "bt_at (snd (bend_tag_service ops opn mal t cs)) = bt_at (snd cs)"
  "\<not> bt_pending (snd cs) \<Longrightarrow> bend_tag_service ops opn mal t cs = cs"
  by (simp_all add: bend_tag_service_def Let_def)

lemma service_deadline:
  "BT_GIVEUP_MS < t - bt_at (snd cs) \<Longrightarrow> \<not> bt_pending (snd (bend_tag_service ops opn mal t cs))"
  by (simp add: bend_tag_service_def Let_def)

lemma services_drop:
  "\<exists>t\<in>set ts. BT_GIVEUP_MS < t - bt_at (snd cs) \<Longrightarrow>
   \<not> bt_pending (snd (fold (bend_tag_service ops opn mal) ts cs))"
proof (induction ts arbitrary: cs)
  case (Cons t ts)
  have stays: "\<not> bt_pending (snd cs) \<Longrightarrow> \<not> bt_pending (snd (fold (bend_tag_service ops opn mal) ts cs))" for ts cs
    by (induction ts) (simp_all add: service_keeps_at)
  show ?case
  proof (cases "BT_GIVEUP_MS < t - bt_at (snd cs)")
    case True
    then show ?thesis using stays[OF service_deadline] by simp
  next
    case False
    then show ?thesis using Cons by (simp add: service_keeps_at)
  qed
qed simp

lemma service_inject_drop:
  "\<exists>t\<in>set ts. BT_GIVEUP_MS < t - bt_at st \<Longrightarrow> \<not> bt_pending (fold bend_tag_service_inject ts st)"
proof (induction ts arbitrary: st)
  case (Cons t ts)
  have idle: "\<not> bt_pending st \<Longrightarrow> bend_tag_service_inject t st = st" for t st
    by (simp add: bend_tag_service_inject_def)
  have stays: "\<not> bt_pending st \<Longrightarrow> \<not> bt_pending (fold bend_tag_service_inject ts st)" for ts st
    by (induction ts) (simp_all add: idle)
  have at: "bt_at (bend_tag_service_inject t st) = bt_at st" by (simp add: bend_tag_service_inject_def)
  have dead: "BT_GIVEUP_MS < t - bt_at st \<Longrightarrow> \<not> bt_pending (bend_tag_service_inject t st)"
    by (simp add: bend_tag_service_inject_def)
  show ?case
    using Cons.IH[of "bend_tag_service_inject t st"] Cons.prems stays[OF dead] at by auto
qed simp

text \<open>
  A caller without a chain to pass, as \<open>core/raw.c\<close> is on the bodies built without the second
  engine, queues nothing.
\<close>

lemma queue_needs_a_chain: "bend_tag_queue nb dir num b p None q s tick st = st"
  by (simp add: bend_tag_queue_def split: option.split)

end
