(* ===== verification/Mexp.thy ===== *)
theory Mexp
  imports Codec
begin

unbundle bit_operations_syntax

text \<open>
  Multiple exposure (\<open>core/mexp.c\<close>, \<open>include/mexp.h\<close>): the state of a sequence, the blend of a
  pixel and of a row, the packed rows at 10, 12 and 14 bits and the levels of the ghost. Pixels
  are the code's \<open>unsigned short\<close> and \<open>unsigned int\<close>; a row is a list, and a routine that
  writes a row returns what it wrote followed by what it left.
\<close>

section \<open>The sequence\<close>

abbreviation (input) MEXP_ADD :: int where "MEXP_ADD \<equiv> 0"
abbreviation (input) MEXP_LIGHTEN :: int where "MEXP_LIGHTEN \<equiv> 1"
abbreviation (input) MEXP_DARKEN :: int where "MEXP_DARKEN \<equiv> 2"
abbreviation (input) MEXP_AVERAGE :: int where "MEXP_AVERAGE \<equiv> 3"
abbreviation (input) MEXP_MODE_COUNT :: int where "MEXP_MODE_COUNT \<equiv> 4"
abbreviation (input) MEXP_FRAMES_MIN :: int where "MEXP_FRAMES_MIN \<equiv> 2"
abbreviation (input) MEXP_FRAMES_MAX :: int where "MEXP_FRAMES_MAX \<equiv> 9"
abbreviation (input) MEXP_GHOST_LEVELS :: int where "MEXP_GHOST_LEVELS \<equiv> 5"

record mexp_t =
  mexp_count :: int
  mexp_target :: int
  mexp_mode_used :: int
  mexp_bend_each_used :: int

definition mexp_begin :: "int \<Rightarrow> int \<Rightarrow> int \<Rightarrow> mexp_t \<Rightarrow> mexp_t" where
  "mexp_begin mode frames bend_each st =
     (let mode = (if mode < 0 \<or> MEXP_MODE_COUNT \<le> mode then MEXP_AVERAGE else mode);
          frames = (if frames < MEXP_FRAMES_MIN then MEXP_FRAMES_MIN else frames);
          frames = (if MEXP_FRAMES_MAX < frames then MEXP_FRAMES_MAX else frames)
      in st\<lparr>mexp_mode_used := mode, mexp_bend_each_used := (if bend_each \<noteq> 0 then 1 else 0),
        mexp_target := frames, mexp_count := 0\<rparr>)"

definition mexp_reset :: "mexp_t \<Rightarrow> mexp_t" where
  "mexp_reset st = st\<lparr>mexp_count := 0\<rparr>"

definition mexp_in_progress :: "mexp_t \<Rightarrow> bool" where
  "mexp_in_progress st \<longleftrightarrow> 0 < mexp_count st \<and> mexp_count st < mexp_target st"

section \<open>Blending\<close>

definition mexp_blend_px :: "int \<Rightarrow> u32 \<Rightarrow> u32 \<Rightarrow> u32 \<Rightarrow> u32 \<Rightarrow> u32 \<Rightarrow> u16" where
  "mexp_blend_px mode acc v n black white =
     (let r = (if mode = MEXP_LIGHTEN then if acc < v then v else acc
               else if mode = MEXP_DARKEN then if v < acc then v else acc
               else if mode = MEXP_ADD then let r = acc + v in if black < r then r - black else 0
               else (acc * n + v + (n + 1) div 2) div (n + 1));
          r = (if white < r then white else r)
      in ucast r)"

text \<open>The body of each of the four row loops.\<close>

definition row_px :: "int \<Rightarrow> u32 \<Rightarrow> u32 \<Rightarrow> u32 \<Rightarrow> u16 \<Rightarrow> u16 \<Rightarrow> u16" where
  "row_px mode n black white a v =
     (if mode = MEXP_LIGHTEN then if a < v then v else a
      else if mode = MEXP_DARKEN then if v < a then v else a
      else if mode = MEXP_ADD then
        let r = ucast a + ucast v; r = (if black < r then r - black else 0) in ucast (if white < r then white else r)
      else
        let r = (ucast a * n + ucast v + (n + 1) div 2) div (n + 1) in ucast (if white < r then white else r))"

definition mexp_row_blend :: "int \<Rightarrow> u16 list \<Rightarrow> u16 list \<Rightarrow> nat \<Rightarrow> u32 \<Rightarrow> u32 \<Rightarrow> u32 \<Rightarrow> u16 list" where
  "mexp_row_blend mode acc v rowpix n black white =
     map2 (row_px mode n black white) (take rowpix acc) (take rowpix v) @ drop rowpix acc"

section \<open>Packed rows\<close>

text \<open>One group of each depth.\<close>

definition unpack10 :: "u8 list \<Rightarrow> u16 list" where
  "unpack10 g = (let w = (\<lambda>i. ucast (g ! i) :: u16) in
     [((0x3fc AND push_bit 2 (w 1)) OR drop_bit 6 (w 0)),
      ((0x3f0 AND push_bit 4 (w 0)) OR drop_bit 4 (w 3)),
      ((0x3c0 AND push_bit 6 (w 3)) OR drop_bit 2 (w 2)),
      ((0x300 AND push_bit 8 (w 2)) OR w 5),
      ((0x3fc AND push_bit 2 (w 4)) OR drop_bit 6 (w 7)),
      ((0x3f0 AND push_bit 4 (w 7)) OR drop_bit 4 (w 6)),
      ((0x3c0 AND push_bit 6 (w 6)) OR drop_bit 2 (w 9)),
      ((0x300 AND push_bit 8 (w 9)) OR w 8)])"

definition pack10 :: "u16 list \<Rightarrow> u8 list" where
  "pack10 p =
     [ucast ((push_bit 6 ((p ! 0 AND 0x003)) OR (drop_bit 4 (p ! 1) AND 0x3f))),
      ucast ((drop_bit 2 (p ! 0) AND 0xff)),
      ucast ((push_bit 2 ((p ! 2 AND 0x03f)) OR (drop_bit 8 (p ! 3) AND 0x03))),
      ucast ((push_bit 4 ((p ! 1 AND 0x00f)) OR (drop_bit 6 (p ! 2) AND 0x0f))),
      ucast ((drop_bit 2 (p ! 4) AND 0xff)),
      ucast ((p ! 3 AND 0xff)),
      ucast ((push_bit 4 ((p ! 5 AND 0x00f)) OR (drop_bit 6 (p ! 6) AND 0x0f))),
      ucast ((push_bit 6 ((p ! 4 AND 0x003)) OR (drop_bit 4 (p ! 5) AND 0x3f))),
      ucast ((p ! 7 AND 0xff)),
      ucast ((push_bit 2 ((p ! 6 AND 0x03f)) OR (drop_bit 8 (p ! 7) AND 0x03)))]"

definition unpack12 :: "u8 list \<Rightarrow> u16 list" where
  "unpack12 g = (let w = (\<lambda>i. ucast (g ! i) :: u16) in
     [(push_bit 4 (w 1) OR drop_bit 4 (w 0)),
      (push_bit 8 ((w 0 AND 0x0f)) OR w 3),
      (push_bit 4 (w 2) OR drop_bit 4 (w 5)),
      (push_bit 8 ((w 5 AND 0x0f)) OR w 4)])"

definition pack12 :: "u16 list \<Rightarrow> u8 list" where
  "pack12 p =
     [ucast ((push_bit 4 ((p ! 0 AND 0x00f)) OR (drop_bit 8 (p ! 1) AND 0x0f))),
      ucast ((drop_bit 4 (p ! 0) AND 0xff)),
      ucast ((drop_bit 4 (p ! 2) AND 0xff)),
      ucast ((p ! 1 AND 0xff)),
      ucast ((p ! 3 AND 0xff)),
      ucast ((push_bit 4 ((p ! 2 AND 0x00f)) OR (drop_bit 8 (p ! 3) AND 0x0f)))]"

definition unpack14 :: "u8 list \<Rightarrow> u16 list" where
  "unpack14 g = (let w = (\<lambda>i. ucast (g ! i) :: u16) in
     [(push_bit 6 (w 1) OR drop_bit 2 (w 0)),
      ((push_bit 12 ((w 0 AND 0x03)) OR push_bit 4 (w 3)) OR drop_bit 4 (w 2)),
      ((push_bit 10 ((w 2 AND 0x0f)) OR push_bit 2 (w 5)) OR drop_bit 6 (w 4)),
      (push_bit 8 ((w 4 AND 0x3f)) OR w 7),
      (push_bit 6 (w 6) OR drop_bit 2 (w 9)),
      ((push_bit 12 ((w 9 AND 0x03)) OR push_bit 4 (w 8)) OR drop_bit 4 (w 11)),
      ((push_bit 10 ((w 11 AND 0x0f)) OR push_bit 2 (w 10)) OR drop_bit 6 (w 13)),
      (push_bit 8 ((w 13 AND 0x3f)) OR w 12)])"

definition pack14 :: "u16 list \<Rightarrow> u8 list" where
  "pack14 p =
     [ucast ((push_bit 2 ((p ! 0 AND 0x03f)) OR (drop_bit 12 (p ! 1) AND 0x03))),
      ucast ((drop_bit 6 (p ! 0) AND 0xff)),
      ucast ((push_bit 4 ((p ! 1 AND 0x00f)) OR (drop_bit 10 (p ! 2) AND 0x0f))),
      ucast ((drop_bit 4 (p ! 1) AND 0xff)),
      ucast ((push_bit 6 ((p ! 2 AND 0x003)) OR (drop_bit 8 (p ! 3) AND 0x3f))),
      ucast ((drop_bit 2 (p ! 2) AND 0xff)),
      ucast ((drop_bit 6 (p ! 4) AND 0xff)),
      ucast ((p ! 3 AND 0xff)),
      ucast ((drop_bit 4 (p ! 5) AND 0xff)),
      ucast ((push_bit 2 ((p ! 4 AND 0x03f)) OR (drop_bit 12 (p ! 5) AND 0x03))),
      ucast ((drop_bit 2 (p ! 6) AND 0xff)),
      ucast ((push_bit 4 ((p ! 5 AND 0x00f)) OR (drop_bit 10 (p ! 6) AND 0x0f))),
      ucast ((p ! 7 AND 0xff)),
      ucast ((push_bit 6 ((p ! 6 AND 0x003)) OR (drop_bit 8 (p ! 7) AND 0x3f)))]"


text \<open>The loops over the groups of a row; the pointers advance by the group.\<close>

definition group_px :: "nat \<Rightarrow> nat" where
  "group_px bits = (if bits = 12 then 4 else 8)"

definition group_bytes :: "nat \<Rightarrow> nat" where
  "group_bytes bits = (if bits = 10 then 10 else if bits = 12 then 6 else 14)"

definition unpack_group :: "nat \<Rightarrow> u8 list \<Rightarrow> u16 list" where
  "unpack_group bits = (if bits = 10 then unpack10 else if bits = 12 then unpack12 else unpack14)"

definition pack_group :: "nat \<Rightarrow> u16 list \<Rightarrow> u8 list" where
  "pack_group bits = (if bits = 10 then pack10 else if bits = 12 then pack12 else pack14)"

primrec unpack_loop :: "nat \<Rightarrow> nat \<Rightarrow> u8 list \<Rightarrow> u16 list" where
  "unpack_loop bits 0 src = []"
| "unpack_loop bits (Suc k) src = unpack_group bits src @ unpack_loop bits k (drop (group_bytes bits) src)"

primrec pack_loop :: "nat \<Rightarrow> nat \<Rightarrow> u16 list \<Rightarrow> u8 list" where
  "pack_loop bits 0 src = []"
| "pack_loop bits (Suc k) src = pack_group bits src @ pack_loop bits k (drop (group_px bits) src)"

definition mexp_row_unpack :: "nat \<Rightarrow> u8 list \<Rightarrow> u16 list \<Rightarrow> nat \<Rightarrow> u16 list" where
  "mexp_row_unpack bits src dst rowpix =
     (if bits = 10 \<or> bits = 12 \<or> bits = 14 then
        let w = unpack_loop bits (rowpix div group_px bits) src in w @ drop (length w) dst
      else dst)"

definition mexp_row_pack :: "nat \<Rightarrow> u16 list \<Rightarrow> u8 list \<Rightarrow> nat \<Rightarrow> u8 list" where
  "mexp_row_pack bits src dst rowpix =
     (if bits = 10 \<or> bits = 12 \<or> bits = 14 then
        let w = pack_loop bits (rowpix div group_px bits) src in w @ drop (length w) dst
      else dst)"

section \<open>Ghost levels\<close>

definition ghost_bound :: "u32 list" where
  "ghost_bound = [16, 141, 391, 766]"

definition mexp_ghost_level :: "u32 \<Rightarrow> u32 \<Rightarrow> u32 \<Rightarrow> int" where
  "mexp_ghost_level v black white =
     (if white \<le> black then 0
      else let range = white - black in
      if v \<le> black then 0
      else let v = v - black in
      if range \<le> v then MEXP_GHOST_LEVELS - 1
      else let t = (v * 1000) div range in
      case find (\<lambda>i. t < ghost_bound ! nat i) [0..MEXP_GHOST_LEVELS - 2] of
        Some i \<Rightarrow> i | None \<Rightarrow> MEXP_GHOST_LEVELS - 1)"

section \<open>A group is a codec\<close>

definition px_group :: "nat \<Rightarrow> nat \<Rightarrow> u16 list \<Rightarrow> bool" where
  "px_group bits n p \<longleftrightarrow> length p = n \<and> (\<forall>v\<in>set p. take_bit bits v = v)"

lemma high_bits: "\<lbrakk>take_bit k (v :: u16) = v; k \<le> n\<rbrakk> \<Longrightarrow> \<not> bit v n"
  by (metis bit_take_bit_iff not_le)

lemma length_4_nth: "length xs = 4 \<longleftrightarrow> (\<exists>a b c d. xs = [a, b, c, d])"
  by (auto simp: length_Suc_conv eval_nat_numeral)

lemma length_6_nth: "length xs = 6 \<longleftrightarrow> (\<exists>a b c d e f. xs = [a, b, c, d, e, f])"
  by (auto simp: length_Suc_conv eval_nat_numeral)

lemma length_8_nth: "length xs = 8 \<longleftrightarrow> (\<exists>a b c d e f g h. xs = [a, b, c, d, e, f, g, h])"
  by (auto simp: length_Suc_conv eval_nat_numeral)

lemma length_10_nth: "length xs = 10 \<longleftrightarrow> (\<exists>a b c d e f g h i j. xs = [a, b, c, d, e, f, g, h, i, j])"
  by (auto simp: length_Suc_conv eval_nat_numeral)

lemma length_14_nth: "length xs = 14 \<longleftrightarrow> (\<exists>a b c d e f g h i j k l m n. xs = [a, b, c, d, e, f, g, h, i, j, k, l, m, n])"
  by (auto simp: length_Suc_conv eval_nat_numeral)

lemma u8_high: "8 \<le> n \<Longrightarrow> \<not> bit (v :: u8) n"
  using bit_imp_le_length[of v n] by fastforce

lemma pack12_unpack: "length g = 6 \<Longrightarrow> pack12 (unpack12 g) = g"
  by (auto simp: length_6_nth pack12_def unpack12_def Let_def u8_eq_iff bit_simps u8_high)

lemma unpack12_pack: "px_group 12 4 p \<Longrightarrow> unpack12 (pack12 p) = p"
proof -
  assume "px_group 12 4 p"
  then obtain a b c d where p: "p = [a, b, c, d]" and
    t: "take_bit 12 a = a" "take_bit 12 b = b" "take_bit 12 c = c" "take_bit 12 d = d"
    by (auto simp: px_group_def length_4_nth)
  note h = t[THEN high_bits]
  show ?thesis unfolding p by (simp add: pack12_def unpack12_def Let_def, intro conjI; simp add: u16_eq_iff bit_simps h)
qed

lemma unpack12_shape: "px_group 12 4 (unpack12 g)"
  by (simp add: px_group_def unpack12_def Let_def u16_eq_iff bit_simps u8_high)

lemma pack10_unpack: "length g = 10 \<Longrightarrow> pack10 (unpack10 g) = g"
  by (auto simp: length_10_nth pack10_def unpack10_def Let_def u8_eq_iff bit_simps u8_high)

lemma unpack10_pack: "px_group 10 8 p \<Longrightarrow> unpack10 (pack10 p) = p"
proof -
  assume "px_group 10 8 p"
  then obtain a b c d e f g h where p: "p = [a, b, c, d, e, f, g, h]" and
    t: "take_bit 10 a = a" "take_bit 10 b = b" "take_bit 10 c = c" "take_bit 10 d = d" "take_bit 10 e = e" "take_bit 10 f = f" "take_bit 10 g = g" "take_bit 10 h = h"
    by (auto simp: px_group_def length_8_nth)
  note h = t[THEN high_bits]
  show ?thesis unfolding p by (simp add: pack10_def unpack10_def Let_def, intro conjI; simp add: u16_eq_iff bit_simps h)
qed

lemma unpack10_shape: "px_group 10 8 (unpack10 g)"
  by (simp add: px_group_def unpack10_def Let_def u16_eq_iff bit_simps u8_high)

lemma pack14_unpack: "length g = 14 \<Longrightarrow> pack14 (unpack14 g) = g"
  by (auto simp: length_14_nth pack14_def unpack14_def Let_def u8_eq_iff bit_simps u8_high)

lemma unpack14_pack: "px_group 14 8 p \<Longrightarrow> unpack14 (pack14 p) = p"
proof -
  assume "px_group 14 8 p"
  then obtain a b c d e f g h where p: "p = [a, b, c, d, e, f, g, h]" and
    t: "take_bit 14 a = a" "take_bit 14 b = b" "take_bit 14 c = c" "take_bit 14 d = d" "take_bit 14 e = e" "take_bit 14 f = f" "take_bit 14 g = g" "take_bit 14 h = h"
    by (auto simp: px_group_def length_8_nth)
  note h = t[THEN high_bits]
  show ?thesis unfolding p by (simp add: pack14_def unpack14_def Let_def, intro conjI; simp add: u16_eq_iff bit_simps h)
qed

lemma unpack14_shape: "px_group 14 8 (unpack14 g)"
  by (simp add: px_group_def unpack14_def Let_def u16_eq_iff bit_simps u8_high)

lemma group_length [simp]: "length (pack10 p) = 10" "length (pack12 p) = 6" "length (pack14 p) = 14"
  "length (unpack10 g) = 8" "length (unpack12 g) = 4" "length (unpack14 g) = 8"
  by (simp_all add: pack10_def pack12_def pack14_def unpack10_def unpack12_def unpack14_def Let_def)

interpretation group10: codec pack10 unpack10 10 "px_group 10 8"
  by unfold_locales (simp_all add: unpack10_pack unpack10_shape pack10_unpack)

interpretation group12: codec pack12 unpack12 6 "px_group 12 4"
  by unfold_locales (simp_all add: unpack12_pack unpack12_shape pack12_unpack)

interpretation group14: codec pack14 unpack14 14 "px_group 14 8"
  by unfold_locales (simp_all add: unpack14_pack unpack14_shape pack14_unpack)

definition mexp_depth :: "nat \<Rightarrow> bool" where
  "mexp_depth bits \<longleftrightarrow> bits = 10 \<or> bits = 12 \<or> bits = 14"

text \<open>The three codecs as one, indexed by the depth.\<close>

lemma group_laws:
  assumes "mexp_depth bits"
  shows "length (pack_group bits p) = group_bytes bits" "length (unpack_group bits g) = group_px bits"
    "px_group bits (group_px bits) p \<Longrightarrow> unpack_group bits (pack_group bits p) = p"
    "px_group bits (group_px bits) (unpack_group bits g)"
    "length g = group_bytes bits \<Longrightarrow> pack_group bits (unpack_group bits g) = g"
  using assms unpack10_shape[of g] unpack12_shape[of g] unpack14_shape[of g]
  by (auto simp: mexp_depth_def pack_group_def unpack_group_def group_bytes_def group_px_def
      unpack10_pack unpack12_pack unpack14_pack pack10_unpack pack12_unpack pack14_unpack)

text \<open>The routines look only at their group, so a row can be read through its tail.\<close>

lemma group_local:
  assumes "mexp_depth bits"
  shows "length p = group_px bits \<Longrightarrow> pack_group bits (p @ q) = pack_group bits p"
    "length g = group_bytes bits \<Longrightarrow> unpack_group bits (g @ h) = unpack_group bits g"
  using assms
  by (auto simp: mexp_depth_def pack_group_def unpack_group_def group_bytes_def group_px_def pack10_def pack12_def pack14_def
      unpack10_def unpack12_def unpack14_def Let_def nth_append)

lemma loop_length:
  assumes "mexp_depth bits"
  shows "length (pack_loop bits k p) = k * group_bytes bits" "length (unpack_loop bits k g) = k * group_px bits"
  by (induction k arbitrary: p g) (simp_all add: group_laws(1,2)[OF assms])

lemma unpack_pack_loop:
  assumes "mexp_depth bits" "length p = k * group_px bits" "\<forall>v\<in>set p. take_bit bits v = v"
  shows "unpack_loop bits k (pack_loop bits k p @ xs) = p"
  using assms(2,3)
proof (induction k arbitrary: p)
  case (Suc k)
  let ?n = "group_px bits"
  have p: "px_group bits ?n (take ?n p)" using Suc.prems by (auto simp: px_group_def dest: in_set_takeD)
  have h: "pack_group bits p = pack_group bits (take ?n p)"
    using group_local(1)[OF assms(1), of "take ?n p" "drop ?n p"] Suc.prems by simp
  note len = group_laws(1)[OF assms(1), of "take ?n p"]
  have "unpack_group bits (pack_group bits p @ ys) = take ?n p" for ys
    using group_local(2)[OF assms(1) len, of ys] group_laws(3)[OF assms(1) p] by (simp add: h)
  moreover have "unpack_loop bits k (pack_loop bits k (drop ?n p) @ xs) = drop ?n p"
    by (rule Suc.IH) (use Suc.prems in \<open>auto dest: in_set_dropD\<close>)
  ultimately show ?case by (simp add: h len)
qed simp

lemma pack_unpack_loop:
  assumes "mexp_depth bits" "length g = k * group_bytes bits"
  shows "pack_loop bits k (unpack_loop bits k g @ xs) = g"
  using assms(2)
proof (induction k arbitrary: g)
  case (Suc k)
  let ?n = "group_bytes bits"
  have g: "length (take ?n g) = ?n" using Suc.prems by simp
  have h: "unpack_group bits g = unpack_group bits (take ?n g)"
    using group_local(2)[OF assms(1) g, of "drop ?n g"] by simp
  note len = group_laws(2)[OF assms(1), of "take ?n g"]
  have "pack_group bits (unpack_group bits g @ ys) = take ?n g" for ys
    using group_local(1)[OF assms(1) len, of ys] group_laws(5)[OF assms(1) g] by (simp add: h)
  moreover have "pack_loop bits k (unpack_loop bits k (drop ?n g) @ xs) = drop ?n g"
    by (rule Suc.IH) (use Suc.prems in simp)
  ultimately show ?case by (simp add: h len)
qed simp

text \<open>A row of whole groups survives the trip through the file.\<close>

lemma row_round_trip:
  assumes "mexp_depth bits" "length p = k * group_px bits" "\<forall>v\<in>set p. take_bit bits v = v"
    "length dst = k * group_bytes bits" "length dst' = length p"
  shows "mexp_row_unpack bits (mexp_row_pack bits p dst (length p)) dst' (length p) = p"
proof -
  have "group_px bits \<noteq> 0" by (simp add: group_px_def)
  then have k: "length p div group_px bits = k" using assms(2) by simp
  have "mexp_row_pack bits p dst (length p) = pack_loop bits k p"
    using assms(1,4) unfolding mexp_row_pack_def k by (simp add: mexp_depth_def loop_length)
  moreover have "unpack_loop bits k (pack_loop bits k p) = p"
    using unpack_pack_loop[OF assms(1-3), of "[]"] by simp
  ultimately show ?thesis
    using assms(1,5) unfolding mexp_row_unpack_def k by (simp add: mexp_depth_def)
qed

section \<open>Rows are blended pixel by pixel\<close>

lemma unat_up: "unat (ucast (a :: u16) :: u32) = unat a"
proof -
  have "unat a < 65536" using unsigned_less[of a, where 'a = nat] by simp
  then show ?thesis by (simp add: unsigned_ucast_eq take_bit_nat_eq_self)
qed

lemma ucast_16_32_less: "(ucast (a :: u16) :: u32) < ucast b \<longleftrightarrow> a < b"
  by (simp add: word_less_nat_alt unat_up)

lemma ucast_back: "(ucast (ucast (a :: u16) :: u32) :: u16) = a"
  by (rule bit_word_eqI) (simp add: bit_ucast_iff)

lemma row_px_eq:
  assumes "ucast a \<le> white" "ucast v \<le> white"
  shows "row_px mode n black white a v = mexp_blend_px mode (ucast a) (ucast v) n black white"
proof -
  have c: "\<not> white < ucast a" "\<not> white < ucast v" using assms by (simp_all add: not_less)
  consider "mode = MEXP_LIGHTEN" | "mode = MEXP_DARKEN" | "mode \<noteq> MEXP_LIGHTEN" "mode \<noteq> MEXP_DARKEN" by blast
  then show ?thesis
  proof cases
    case 1
    show ?thesis unfolding 1 row_px_def mexp_blend_px_def Let_def ucast_16_32_less using c by (simp add: ucast_back)
  next
    case 2
    show ?thesis unfolding 2 row_px_def mexp_blend_px_def Let_def ucast_16_32_less using c by (simp add: ucast_back)
  next
    case 3
    then show ?thesis unfolding row_px_def mexp_blend_px_def Let_def by (simp only: if_False split: if_split) blast
  qed
qed

lemma row_blend_pixels:
  assumes "length acc = length v" "\<forall>x\<in>set acc \<union> set v. ucast x \<le> white"
  shows "mexp_row_blend mode acc v (length acc) n black white =
    map2 (\<lambda>a b. mexp_blend_px mode (ucast a) (ucast b) n black white) acc v"
proof -
  have "row_px mode n black white a b = mexp_blend_px mode (ucast a) (ucast b) n black white" if "(a, b) \<in> set (zip acc v)" for a b
    using assms(2) set_zip_leftD[OF that] set_zip_rightD[OF that] by (intro row_px_eq) blast+
  then have "map2 (row_px mode n black white) acc v = map2 (\<lambda>a b. mexp_blend_px mode (ucast a) (ucast b) n black white) acc v"
    by (intro map_cong) auto
  then show ?thesis using assms(1) by (simp add: mexp_row_blend_def)
qed

section \<open>The running mean\<close>

text \<open>The accumulator after the first exposure and a list of further ones.\<close>

primrec mean_from :: "nat \<Rightarrow> u32 \<Rightarrow> u32 \<Rightarrow> u16 \<Rightarrow> u16 list \<Rightarrow> u16" where
  "mean_from n black white acc [] = acc"
| "mean_from n black white acc (v # vs) =
     mean_from (Suc n) black white (mexp_blend_px MEXP_AVERAGE (ucast acc) (ucast v) (word_of_nat n) black white) vs"

lemma abs_scaled: "0 < k \<Longrightarrow> k * \<bar>y\<bar> \<le> m \<longleftrightarrow> k * y \<le> m \<and> - (k * y) \<le> (m :: int)"
proof (cases "0 \<le> y")
  case True
  moreover assume "0 < k"
  ultimately have "0 \<le> k * y" by simp
  then show ?thesis using True by auto
next
  case False
  moreover assume "0 < k"
  ultimately have "0 < k * (- y)" by (intro mult_pos_pos) simp_all
  then show ?thesis using False by auto
qed

lemma round_div:
  assumes "0 < m"
  shows "2 * \<bar>int ((x + m div 2) div m) * int m - int x\<bar> \<le> int m"
proof -
  define P R H where "P = int ((x + m div 2) div m) * int m" and "R = int ((x + m div 2) mod m)" and "H = int (m div 2)"
  have "int x + H = P + R" unfolding P_def R_def H_def
    by (metis div_mult_mod_eq of_nat_add of_nat_mult)
  moreover have "0 \<le> R" "R < int m" using assms by (simp_all add: R_def)
  moreover have "2 * H \<le> int m" "int m \<le> 2 * H + 1" unfolding H_def by linarith+
  ultimately have "2 * (P - int x) \<le> int m \<and> - (2 * (P - int x)) \<le> int m" by simp
  then show ?thesis unfolding P_def[symmetric] by (simp only: abs_scaled zero_less_numeral)
qed

lemma average_px:
  assumes "unat a \<le> W" "unat v \<le> W" "W \<le> 65535" "n \<le> 1000"
  shows "unat (mexp_blend_px MEXP_AVERAGE (ucast (a :: u16)) (ucast (v :: u16)) (word_of_nat n) black (word_of_nat W)) =
    (unat a * n + unat v + (n + 1) div 2) div (n + 1)"
    and "(unat a * n + unat v + (n + 1) div 2) div (n + 1) \<le> W"
proof -
  let ?x = "unat a * n + unat v + (n + 1) div 2"
  have "unat a * n \<le> W * n" using assms(1) by simp
  then have x: "?x \<le> W * n + W + (n + 1) div 2" using assms(2) by linarith
  have "W * n + W + (n + 1) div 2 < (W + 1) * (n + 1)" by (simp add: distrib_right)
  with x have "?x < (W + 1) * (n + 1)" by linarith
  then have "?x div (n + 1) < W + 1" by (simp only: less_mult_imp_div_less)
  then show le: "?x div (n + 1) \<le> W" by simp
  have "W * n \<le> 65535 * 1000" using assms(3,4) by (intro mult_le_mono) simp_all
  then have big: "?x < 2 ^ 32" "unat a * n + unat v < 2 ^ 32" "unat a * n < 2 ^ 32"
  proof -
    have P: "(2::nat) ^ 32 = 4294967296" by simp
    have "(n + 1) div 2 \<le> 1000" using assms(4) by simp
    then show "?x < 2 ^ 32" "unat a * n + unat v < 2 ^ 32" "unat a * n < 2 ^ 32"
      unfolding P using x \<open>unat a * n \<le> W * n\<close> \<open>W * n \<le> 65535 * 1000\<close> assms(2,3) by linarith+
  qed
  have up: "(ucast a :: u32) = word_of_nat (unat a)" "(ucast v :: u32) = word_of_nat (unat v)"
    by (simp_all add: word_unat_eq_iff unat_up unat_of_nat take_bit_nat_eq_self unsigned_less[where 'a = nat, THEN less_le_trans])
  have w: "unat (word_of_nat k :: u32) = k" if "k < 2 ^ 32" for k
    using that by (simp add: unat_of_nat)
  have half: "(word_of_nat n + 1 :: u32) div 2 = word_of_nat ((n + 1) div 2)"
  proof -
    have "unat ((word_of_nat n + 1 :: u32) div 2) = (n + 1) div 2"
      using w[of "n + 1"] assms(4) by (simp add: unat_div add.commute, simp add: numeral_2_eq_2)
    then show ?thesis using w[of "(n + 1) div 2"] assms(4) by (simp add: word_unat_eq_iff)
  qed
  have sum: "(ucast a :: u32) * word_of_nat n + ucast v + (word_of_nat n + 1) div 2 = word_of_nat ?x"
    unfolding half up by simp
  have "unat (word_of_nat ?x div (word_of_nat n + 1) :: u32) = ?x div (n + 1)"
    using w[OF big(1)] w[of "n + 1"] assms(4) by (simp add: unat_div add.commute)
  moreover have "\<not> word_of_nat W < (word_of_nat ?x div (word_of_nat n + 1) :: u32)"
    using calculation le w[of W] assms(3) by (simp add: word_less_nat_alt)
  moreover have "unat (ucast (z :: u32) :: u16) = unat z" if "unat z \<le> W" for z
    using that assms(3) by (simp add: unsigned_ucast_eq take_bit_nat_eq_self)
  ultimately show "unat (mexp_blend_px MEXP_AVERAGE (ucast a) (ucast v) (word_of_nat n) black (word_of_nat W)) = ?x div (n + 1)"
    unfolding mexp_blend_px_def Let_def sum using le by simp
qed

text \<open>
  After \<open>n\<close> exposures the accumulator is off the true mean by at most \<open>(n + 1) / 4\<close>: every step
  rounds by at most a half, and a step's error is carried with the weight of the exposures it
  stands for.
\<close>

lemma mean_error:
  assumes "unat acc \<le> W" "\<forall>v\<in>set vs. unat v \<le> W" "W \<le> 65535" "0 < n" "n + length vs \<le> 1000"
    "4 * \<bar>int n * int (unat acc) - S\<bar> \<le> int n * (int n + 1) - 2"
  shows "4 * \<bar>int (n + length vs) * int (unat (mean_from n black (word_of_nat W) acc vs)) - (S + (\<Sum>v\<leftarrow>vs. int (unat v)))\<bar> \<le>
      int (n + length vs) * (int (n + length vs) + 1) - 2 \<and> unat (mean_from n black (word_of_nat W) acc vs) \<le> W"
  using assms
proof (induction vs arbitrary: n acc S)
  case (Cons v vs)
  let ?x = "unat acc * n + unat v + (n + 1) div 2"
  let ?a = "mexp_blend_px MEXP_AVERAGE (ucast acc) (ucast v) (word_of_nat n) black (word_of_nat W)"
  have px: "unat ?a = ?x div (n + 1)" "unat ?a \<le> W"
    using average_px(1)[of acc W v n black] average_px(2)[of acc W v n] Cons.prems by simp_all
  define D where "D = int (?x div (n + 1)) * int (n + 1) - int (unat acc * n + unat v)"
  define E where "E = int n * int (unat acc) - S"
  have D: "2 * \<bar>D\<bar> \<le> int (n + 1)"
    using round_div[of "n + 1" "unat acc * n + unat v"] by (simp only: D_def)
  have E: "4 * \<bar>E\<bar> \<le> int n * (int n + 1) - 2" using Cons.prems(6) by (simp only: E_def)
  have sum: "int (Suc n) * int (unat ?a) - (S + int (unat v)) = D + E"
    unfolding px(1) D_def E_def by (simp add: algebra_simps)
  have "4 * \<bar>D + E\<bar> \<le> 2 * int (n + 1) + (int n * (int n + 1) - 2)"
  proof -
    have "2 * D \<le> int (n + 1)" "- (2 * D) \<le> int (n + 1)" using D by (simp_all only: abs_scaled zero_less_numeral)
    moreover have "4 * E \<le> int n * (int n + 1) - 2" "- (4 * E) \<le> int n * (int n + 1) - 2"
      using E by (simp_all only: abs_scaled zero_less_numeral)
    ultimately have "4 * (D + E) \<le> 2 * int (n + 1) + (int n * (int n + 1) - 2) \<and>
      - (4 * (D + E)) \<le> 2 * int (n + 1) + (int n * (int n + 1) - 2)" by simp
    then show ?thesis by (simp only: abs_scaled zero_less_numeral)
  qed
  also have "\<dots> = int (Suc n) * (int (Suc n) + 1) - 2" by (simp add: algebra_simps)
  finally have step: "4 * \<bar>int (Suc n) * int (unat ?a) - (S + int (unat v))\<bar> \<le> int (Suc n) * (int (Suc n) + 1) - 2"
    unfolding sum .
  have "4 * \<bar>int (Suc n + length vs) * int (unat (mean_from (Suc n) black (word_of_nat W) ?a vs)) - ((S + int (unat v)) + (\<Sum>v\<leftarrow>vs. int (unat v)))\<bar> \<le>
      int (Suc n + length vs) * (int (Suc n + length vs) + 1) - 2 \<and> unat (mean_from (Suc n) black (word_of_nat W) ?a vs) \<le> W"
    by (rule Cons.IH[OF px(2) _ _ _ _ step]) (use Cons.prems in simp_all)
  then show ?case by (simp add: add.assoc)
qed simp

end
