(* ===== verification/RawPixels.thy ===== *)
theory RawPixels
  imports BxApply Mexp
begin

text \<open>
  The pixels of the raw frame (\<open>core/raw.c\<close>): \<open>get_raw_pixel\<close> and \<open>set_raw_pixel\<close> at the three
  sensor depths, and the packed fast path \<open>bb_row_fast\<close>. The frame is a list of bytes, \<open>rawadr\<close>
  its start; accesses are checked. The accessors are related to the groups of \<open>Mexp\<close>: a pixel is
  one entry of its unpacked group, and writing it is repacking the group with that entry changed.
  That makes the frame a \<open>pixel_store\<close> at every depth.
\<close>

section \<open>The sensor\<close>

text \<open>The fields of \<open>camera_sensor\<close> the raw hook reads, and the build's own constants.\<close>

record sensor_t =
  sn_bits :: nat
  sn_active_x1 :: nat
  sn_rowlen :: nat
  sn_rowpix :: nat
  sn_rows :: nat
  sn_size :: nat
  sn_black :: u32
  sn_white :: u32

definition BB_OB_X :: "sensor_t \<Rightarrow> nat" where
  "BB_OB_X sn = (if 4 \<le> sn_active_x1 sn then sn_active_x1 sn - 4 else 0)"

definition BB_MAX :: "sensor_t \<Rightarrow> u32" where
  "BB_MAX sn = push_bit (sn_bits sn) 1 - 1"

section \<open>The accessors\<close>

definition px2 :: "u8 list \<Rightarrow> nat \<Rightarrow> nat \<Rightarrow> nat \<Rightarrow> (u16 \<Rightarrow> u16 \<Rightarrow> u16) \<Rightarrow> u16 option" where
  "px2 p a i j f = do { u \<leftarrow> rd p (a + i); w \<leftarrow> rd p (a + j); Some (f (ucast u) (ucast w)) }"

definition px3 :: "u8 list \<Rightarrow> nat \<Rightarrow> nat \<Rightarrow> nat \<Rightarrow> nat \<Rightarrow> (u16 \<Rightarrow> u16 \<Rightarrow> u16 \<Rightarrow> u16) \<Rightarrow> u16 option" where
  "px3 p a i j k f =
     do { u \<leftarrow> rd p (a + i); v \<leftarrow> rd p (a + j); w \<leftarrow> rd p (a + k); Some (f (ucast u) (ucast v) (ucast w)) }"

definition get_raw_pixel :: "sensor_t \<Rightarrow> u8 list \<Rightarrow> nat \<Rightarrow> nat \<Rightarrow> u16 option" where
  "get_raw_pixel sn fb x y =
     (if sn_bits sn = 10 then
       (let a = y * sn_rowlen sn + (x div 8) * 10; r = x mod 8 in
       if r = 0 then px2 fb a 1 0 (\<lambda>u w. (0x3fc AND push_bit 2 u) OR drop_bit 6 w)
       else if r = 1 then px2 fb a 0 3 (\<lambda>u w. (0x3f0 AND push_bit 4 u) OR drop_bit 4 w)
       else if r = 2 then px2 fb a 3 2 (\<lambda>u w. (0x3c0 AND push_bit 6 u) OR drop_bit 2 w)
       else if r = 3 then px2 fb a 2 5 (\<lambda>u w. (0x300 AND push_bit 8 u) OR w)
       else if r = 4 then px2 fb a 4 7 (\<lambda>u w. (0x3fc AND push_bit 2 u) OR drop_bit 6 w)
       else if r = 5 then px2 fb a 7 6 (\<lambda>u w. (0x3f0 AND push_bit 4 u) OR drop_bit 4 w)
       else if r = 6 then px2 fb a 6 9 (\<lambda>u w. (0x3c0 AND push_bit 6 u) OR drop_bit 2 w)
       else px2 fb a 9 8 (\<lambda>u w. (0x300 AND push_bit 8 u) OR w))
      else if sn_bits sn = 12 then
       (let a = y * sn_rowlen sn + (x div 4) * 6; r = x mod 4 in
       if r = 0 then px2 fb a 1 0 (\<lambda>u w. push_bit 4 u OR drop_bit 4 w)
       else if r = 1 then px2 fb a 0 3 (\<lambda>u w. push_bit 8 (u AND 0x0f) OR w)
       else if r = 2 then px2 fb a 2 5 (\<lambda>u w. push_bit 4 u OR drop_bit 4 w)
       else px2 fb a 5 4 (\<lambda>u w. push_bit 8 (u AND 0x0f) OR w))
      else if sn_bits sn = 14 then
       (let a = y * sn_rowlen sn + (x div 8) * 14; r = x mod 8 in
       if r = 0 then px2 fb a 1 0 (\<lambda>u w. push_bit 6 u OR drop_bit 2 w)
       else if r = 1 then px3 fb a 0 3 2 (\<lambda>u v w. (push_bit 12 (u AND 0x03) OR push_bit 4 v) OR drop_bit 4 w)
       else if r = 2 then px3 fb a 2 5 4 (\<lambda>u v w. (push_bit 10 (u AND 0x0f) OR push_bit 2 v) OR drop_bit 6 w)
       else if r = 3 then px2 fb a 4 7 (\<lambda>u w. push_bit 8 (u AND 0x3f) OR w)
       else if r = 4 then px2 fb a 6 9 (\<lambda>u w. push_bit 6 u OR drop_bit 2 w)
       else if r = 5 then px3 fb a 9 8 11 (\<lambda>u v w. (push_bit 12 (u AND 0x03) OR push_bit 4 v) OR drop_bit 4 w)
       else if r = 6 then px3 fb a 11 10 13 (\<lambda>u v w. (push_bit 10 (u AND 0x0f) OR push_bit 2 v) OR drop_bit 6 w)
       else px2 fb a 13 12 (\<lambda>u w. push_bit 8 (u AND 0x3f) OR w))
      else Some 0)"

text \<open>\<open>addr[i] = (addr[i] & m) | v\<close>; a byte written outright has mask 0.\<close>

definition poke :: "nat \<Rightarrow> nat \<Rightarrow> u8 \<Rightarrow> u16 \<Rightarrow> u8 list \<Rightarrow> u8 list option" where
  "poke a i m v p = do { u \<leftarrow> rd p (a + i); wr p (a + i) ((u AND m) OR ucast v) }"

definition set_raw_pixel :: "sensor_t \<Rightarrow> u8 list \<Rightarrow> nat \<Rightarrow> nat \<Rightarrow> u16 \<Rightarrow> u8 list option" where
  "set_raw_pixel sn fb x y v =
     (if sn_bits sn = 10 then
       (let a = y * sn_rowlen sn + (x div 8) * 10; r = x mod 8 in
       if r = 0 then poke a 0 0x3F (push_bit 6 v) fb \<bind> poke a 1 0 (drop_bit 2 v)
       else if r = 1 then poke a 0 0xC0 (drop_bit 4 v) fb \<bind> poke a 3 0x0F (push_bit 4 v)
       else if r = 2 then poke a 2 0x03 (push_bit 2 v) fb \<bind> poke a 3 0xF0 (drop_bit 6 v)
       else if r = 3 then poke a 2 0xFC (drop_bit 8 v) fb \<bind> poke a 5 0 v
       else if r = 4 then poke a 4 0 (drop_bit 2 v) fb \<bind> poke a 7 0x3F (push_bit 6 v)
       else if r = 5 then poke a 6 0x0F (push_bit 4 v) fb \<bind> poke a 7 0xC0 (drop_bit 4 v)
       else if r = 6 then poke a 6 0xF0 (drop_bit 6 v) fb \<bind> poke a 9 0x03 (push_bit 2 v)
       else poke a 8 0 v fb \<bind> poke a 9 0xFC (drop_bit 8 v))
      else if sn_bits sn = 12 then
       (let a = y * sn_rowlen sn + (x div 4) * 6; r = x mod 4 in
       if r = 0 then poke a 0 0x0F (push_bit 4 v) fb \<bind> poke a 1 0 (drop_bit 4 v)
       else if r = 1 then poke a 0 0xF0 (drop_bit 8 v) fb \<bind> poke a 3 0 v
       else if r = 2 then poke a 2 0 (drop_bit 4 v) fb \<bind> poke a 5 0x0F (push_bit 4 v)
       else poke a 4 0 v fb \<bind> poke a 5 0xF0 (drop_bit 8 v))
      else if sn_bits sn = 14 then
       (let a = y * sn_rowlen sn + (x div 8) * 14; r = x mod 8 in
       if r = 0 then poke a 0 0x03 (push_bit 2 v) fb \<bind> poke a 1 0 (drop_bit 6 v)
       else if r = 1 then poke a 0 0xFC (drop_bit 12 v) fb \<bind> poke a 2 0x0F (push_bit 4 v) \<bind> poke a 3 0 (drop_bit 4 v)
       else if r = 2 then poke a 2 0xF0 (drop_bit 10 v) fb \<bind> poke a 4 0x3F (push_bit 6 v) \<bind> poke a 5 0 (drop_bit 2 v)
       else if r = 3 then poke a 4 0xC0 (drop_bit 8 v) fb \<bind> poke a 7 0 v
       else if r = 4 then poke a 6 0 (drop_bit 6 v) fb \<bind> poke a 9 0x03 (push_bit 2 v)
       else if r = 5 then poke a 8 0 (drop_bit 4 v) fb \<bind> poke a 9 0xFC (drop_bit 12 v) \<bind> poke a 11 0x0F (push_bit 4 v)
       else if r = 6 then poke a 10 0 (drop_bit 2 v) fb \<bind> poke a 11 0xF0 (drop_bit 10 v) \<bind> poke a 13 0x3F (push_bit 6 v)
       else poke a 12 0 v fb \<bind> poke a 13 0xC0 (drop_bit 8 v))
      else Some fb)"

section \<open>A pixel is an entry of its group\<close>

text \<open>\<open>seg a n p\<close> are the \<open>n\<close> bytes at offset \<open>a\<close>, \<open>plant a g p\<close> is \<open>p\<close> with \<open>g\<close> there.\<close>

definition window :: "nat \<Rightarrow> nat \<Rightarrow> 'a list \<Rightarrow> 'a list" where
  "window a n p = take n (drop a p)"

definition plant :: "nat \<Rightarrow> 'a list \<Rightarrow> 'a list \<Rightarrow> 'a list" where
  "plant a g p = take a p @ g @ drop (a + length g) p"

lemma window_length [simp]: "a + n \<le> length p \<Longrightarrow> length (window a n p) = n"
  by (simp add: window_def)

lemma window_nth: "\<lbrakk>a + n \<le> length p; i < n\<rbrakk> \<Longrightarrow> window a n p ! i = p ! (a + i)"
  by (simp add: window_def)

lemma plant_length [simp]: "a + length g \<le> length p \<Longrightarrow> length (plant a g p) = length p"
  by (simp add: plant_def)

lemma window_plant: "a + length g \<le> length p \<Longrightarrow> window a (length g) (plant a g p) = g"
  by (simp add: plant_def window_def)

lemma plant_nth:
  "\<lbrakk>a + length g \<le> length p; k < length p\<rbrakk> \<Longrightarrow> plant a g p ! k = (if a \<le> k \<and> k < a + length g then g ! (k - a) else p ! k)"
  by (cases "k < length p") (auto simp: plant_def nth_append min_def)

lemma window_plant_other:
  assumes "a + length g \<le> length p" "b + n \<le> length p" "b + n \<le> a \<or> a + length g \<le> b"
  shows "window b n (plant a g p) = window b n p"
  using assms by (intro nth_equalityI) (auto simp: window_nth plant_nth)

lemma plant_window: "a + n \<le> length p \<Longrightarrow> plant a (window a n p) p = p"
  by (intro nth_equalityI) (auto simp: plant_nth window_nth)

lemma plant_plant: "\<lbrakk>a + length g \<le> length p; length h = length g\<rbrakk> \<Longrightarrow> plant a h (plant a g p) = plant a h p"
  by (intro nth_equalityI) (auto simp: plant_nth)

lemma update_plant: "\<lbrakk>a + n \<le> length p; i < n\<rbrakk> \<Longrightarrow> p[a + i := u] = plant a ((window a n p)[i := u]) p"
  by (intro nth_equalityI) (auto simp: plant_nth window_nth nth_list_update)

lemma poke_plant:
  assumes "a + length g \<le> length p" "i < length g"
  shows "poke a i m v (plant a g p) = Some (plant a (g[i := (g ! i AND m) OR ucast v]) p)"
proof -
  have "(plant a g p)[a + i := u] = plant a (g[i := u]) p" for u
    using assms by (intro nth_equalityI) (auto simp: plant_nth nth_list_update)
  then show ?thesis using assms by (simp add: poke_def rd_def wr_def plant_nth)
qed

definition px_at :: "sensor_t \<Rightarrow> nat \<Rightarrow> nat \<Rightarrow> nat" where
  "px_at sn x y = y * sn_rowlen sn + (x div group_px (sn_bits sn)) * group_bytes (sn_bits sn)"

lemma group_list:
  "length (g :: u8 list) = 6 \<Longrightarrow> g = [g!0, g!1, g!2, g!3, g!4, g!5]"
  "length (g :: u8 list) = 10 \<Longrightarrow> g = [g!0, g!1, g!2, g!3, g!4, g!5, g!6, g!7, g!8, g!9]"
  "length (g :: u8 list) = 14 \<Longrightarrow> g = [g!0, g!1, g!2, g!3, g!4, g!5, g!6, g!7, g!8, g!9, g!10, g!11, g!12, g!13]"
  by (auto simp: length_6_nth length_10_nth length_14_nth)

lemma px2_window: "\<lbrakk>a + n \<le> length p; i < n; j < n\<rbrakk> \<Longrightarrow>
    px2 p a i j f = Some (f (ucast (window a n p ! i)) (ucast (window a n p ! j)))"
  by (simp add: px2_def rd_def window_nth)

lemma px3_window: "\<lbrakk>a + n \<le> length p; i < n; j < n; k < n\<rbrakk> \<Longrightarrow>
    px3 p a i j k f = Some (f (ucast (window a n p ! i)) (ucast (window a n p ! j)) (ucast (window a n p ! k)))"
  by (simp add: px3_def rd_def window_nth)

lemmas group_dims = group_px_def group_bytes_def px_at_def

lemma get_pixel_10:
  assumes "sn_bits sn = 10" "px_at sn x y + 10 \<le> length fb"
  shows "get_raw_pixel sn fb x y = Some (unpack10 (window (px_at sn x y) 10 fb) ! (x mod 8))"
proof -
  define a where "a = y * sn_rowlen sn + (x div 8) * 10"
  have a: "px_at sn x y = a" by (simp add: group_dims assms(1) a_def)
  have room: "a + 10 \<le> length fb" using assms(2) by (simp add: a)
  consider "x mod 8 = 0" | "x mod 8 = 1" | "x mod 8 = 2" | "x mod 8 = 3" | "x mod 8 = 4" | "x mod 8 = 5" | "x mod 8 = 6" | "x mod 8 = 7"
    using mod_8_cases[of x] by auto
  then show ?thesis
    unfolding a by cases (simp_all add: get_raw_pixel_def assms(1) a_def[symmetric] Let_def unpack10_def px2_window[OF room])
qed

lemma get_pixel_12:
  assumes "sn_bits sn = 12" "px_at sn x y + 6 \<le> length fb"
  shows "get_raw_pixel sn fb x y = Some (unpack12 (window (px_at sn x y) 6 fb) ! (x mod 4))"
proof -
  define a where "a = y * sn_rowlen sn + (x div 4) * 6"
  have a: "px_at sn x y = a" by (simp add: group_dims assms(1) a_def)
  have room: "a + 6 \<le> length fb" using assms(2) by (simp add: a)
  consider "x mod 4 = 0" | "x mod 4 = 1" | "x mod 4 = 2" | "x mod 4 = 3"
    using mod_4_cases[of x] by auto
  then show ?thesis
    unfolding a by cases (simp_all add: get_raw_pixel_def assms(1) a_def[symmetric] Let_def unpack12_def px2_window[OF room])
qed

lemma get_pixel_14:
  assumes "sn_bits sn = 14" "px_at sn x y + 14 \<le> length fb"
  shows "get_raw_pixel sn fb x y = Some (unpack14 (window (px_at sn x y) 14 fb) ! (x mod 8))"
proof -
  define a where "a = y * sn_rowlen sn + (x div 8) * 14"
  have a: "px_at sn x y = a" by (simp add: group_dims assms(1) a_def)
  have room: "a + 14 \<le> length fb" using assms(2) by (simp add: a)
  consider "x mod 8 = 0" | "x mod 8 = 1" | "x mod 8 = 2" | "x mod 8 = 3" | "x mod 8 = 4" | "x mod 8 = 5" | "x mod 8 = 6" | "x mod 8 = 7"
    using mod_8_cases[of x] by auto
  then show ?thesis
    unfolding a by cases (simp_all add: get_raw_pixel_def assms(1) a_def[symmetric] Let_def unpack14_def
        px2_window[OF room] px3_window[OF room])
qed

lemma get_raw_pixel_group:
  assumes "mexp_depth (sn_bits sn)" "px_at sn x y + group_bytes (sn_bits sn) \<le> length fb"
  shows "get_raw_pixel sn fb x y =
    Some (unpack_group (sn_bits sn) (window (px_at sn x y) (group_bytes (sn_bits sn)) fb) ! (x mod group_px (sn_bits sn)))"
  using assms get_pixel_10[of sn x y fb] get_pixel_12[of sn x y fb] get_pixel_14[of sn x y fb]
  by (auto simp: mexp_depth_def group_px_def group_bytes_def unpack_group_def)

text \<open>Writing a pixel repacks its group with one entry changed.\<close>

lemma plant_poke:
  assumes "a + n \<le> length p" "i < n"
  shows "poke a i m v p = Some (plant a ((window a n p)[i := (window a n p ! i AND m) OR ucast v]) p)"
  using poke_plant[of a "window a n p" p i m v] assms by (simp add: plant_window)

lemma pokes2:
  assumes "a + n \<le> length p" "i < n" "j < n"
  shows "poke a i m v p \<bind> poke a j m' v' =
    Some (plant a ((window a n p)[i := (window a n p ! i AND m) OR ucast v,
      j := ((window a n p)[i := (window a n p ! i AND m) OR ucast v] ! j AND m') OR ucast v']) p)"
  using assms by (simp add: plant_poke[OF assms(1,2)] poke_plant)

lemma pokes3:
  assumes "a + n \<le> length p" "i < n" "j < n" "k < n" "i \<noteq> j" "i \<noteq> k" "j \<noteq> k"
  shows "poke a i m v p \<bind> (\<lambda>q. poke a j m' v' q \<bind> poke a k m'' v'') =
    Some (plant a ((window a n p)[i := (window a n p ! i AND m) OR ucast v,
      j := (window a n p ! j AND m') OR ucast v', k := (window a n p ! k AND m'') OR ucast v'']) p)"
  using assms by (simp add: plant_poke[OF assms(1,2)] poke_plant)

text \<open>The group with one pixel replaced, byte by byte.\<close>

lemma put_in_group10:
  assumes "length g = 10" "take_bit 10 (v :: u16) = v"
  shows "pack10 ((unpack10 g)[0 := v]) = g[0 := (g ! 0 AND 0x3F) OR ucast (push_bit 6 v), 1 := (g ! 1 AND 0) OR ucast (drop_bit 2 v)]"
    and "pack10 ((unpack10 g)[1 := v]) = g[0 := (g ! 0 AND 0xC0) OR ucast (drop_bit 4 v), 3 := (g ! 3 AND 0x0F) OR ucast (push_bit 4 v)]"
    and "pack10 ((unpack10 g)[2 := v]) = g[2 := (g ! 2 AND 0x03) OR ucast (push_bit 2 v), 3 := (g ! 3 AND 0xF0) OR ucast (drop_bit 6 v)]"
    and "pack10 ((unpack10 g)[3 := v]) = g[2 := (g ! 2 AND 0xFC) OR ucast (drop_bit 8 v), 5 := (g ! 5 AND 0) OR ucast v]"
    and "pack10 ((unpack10 g)[4 := v]) = g[4 := (g ! 4 AND 0) OR ucast (drop_bit 2 v), 7 := (g ! 7 AND 0x3F) OR ucast (push_bit 6 v)]"
    and "pack10 ((unpack10 g)[5 := v]) = g[6 := (g ! 6 AND 0x0F) OR ucast (push_bit 4 v), 7 := (g ! 7 AND 0xC0) OR ucast (drop_bit 4 v)]"
    and "pack10 ((unpack10 g)[6 := v]) = g[6 := (g ! 6 AND 0xF0) OR ucast (drop_bit 6 v), 9 := (g ! 9 AND 0x03) OR ucast (push_bit 2 v)]"
    and "pack10 ((unpack10 g)[7 := v]) = g[8 := (g ! 8 AND 0) OR ucast v, 9 := (g ! 9 AND 0xFC) OR ucast (drop_bit 8 v)]"
proof -
  note hi = high_bits[OF assms(2)]
  obtain b0 b1 b2 b3 b4 b5 b6 b7 b8 b9 where g: "g = [b0, b1, b2, b3, b4, b5, b6, b7, b8, b9]"
    using assms(1) unfolding length_10_nth by blast
  note eval = pack10_def unpack10_def Let_def u8_eq_iff bit_simps hi u8_high
  show "pack10 ((unpack10 g)[0 := v]) = g[0 := (g ! 0 AND 0x3F) OR ucast (push_bit 6 v), 1 := (g ! 1 AND 0) OR ucast (drop_bit 2 v)]"
    by (simp add: g eval)
  show "pack10 ((unpack10 g)[1 := v]) = g[0 := (g ! 0 AND 0xC0) OR ucast (drop_bit 4 v), 3 := (g ! 3 AND 0x0F) OR ucast (push_bit 4 v)]"
    by (simp add: g eval)
  show "pack10 ((unpack10 g)[2 := v]) = g[2 := (g ! 2 AND 0x03) OR ucast (push_bit 2 v), 3 := (g ! 3 AND 0xF0) OR ucast (drop_bit 6 v)]"
    by (simp add: g eval)
  show "pack10 ((unpack10 g)[3 := v]) = g[2 := (g ! 2 AND 0xFC) OR ucast (drop_bit 8 v), 5 := (g ! 5 AND 0) OR ucast v]"
    by (simp add: g eval)
  show "pack10 ((unpack10 g)[4 := v]) = g[4 := (g ! 4 AND 0) OR ucast (drop_bit 2 v), 7 := (g ! 7 AND 0x3F) OR ucast (push_bit 6 v)]"
    by (simp add: g eval)
  show "pack10 ((unpack10 g)[5 := v]) = g[6 := (g ! 6 AND 0x0F) OR ucast (push_bit 4 v), 7 := (g ! 7 AND 0xC0) OR ucast (drop_bit 4 v)]"
    by (simp add: g eval)
  show "pack10 ((unpack10 g)[6 := v]) = g[6 := (g ! 6 AND 0xF0) OR ucast (drop_bit 6 v), 9 := (g ! 9 AND 0x03) OR ucast (push_bit 2 v)]"
    by (simp add: g eval)
  show "pack10 ((unpack10 g)[7 := v]) = g[8 := (g ! 8 AND 0) OR ucast v, 9 := (g ! 9 AND 0xFC) OR ucast (drop_bit 8 v)]"
    by (simp add: g eval)
qed

lemma put_in_group12:
  assumes "length g = 6" "take_bit 12 (v :: u16) = v"
  shows "pack12 ((unpack12 g)[0 := v]) = g[0 := (g ! 0 AND 0x0F) OR ucast (push_bit 4 v), 1 := (g ! 1 AND 0) OR ucast (drop_bit 4 v)]"
    and "pack12 ((unpack12 g)[1 := v]) = g[0 := (g ! 0 AND 0xF0) OR ucast (drop_bit 8 v), 3 := (g ! 3 AND 0) OR ucast v]"
    and "pack12 ((unpack12 g)[2 := v]) = g[2 := (g ! 2 AND 0) OR ucast (drop_bit 4 v), 5 := (g ! 5 AND 0x0F) OR ucast (push_bit 4 v)]"
    and "pack12 ((unpack12 g)[3 := v]) = g[4 := (g ! 4 AND 0) OR ucast v, 5 := (g ! 5 AND 0xF0) OR ucast (drop_bit 8 v)]"
proof -
  note hi = high_bits[OF assms(2)]
  obtain b0 b1 b2 b3 b4 b5 where g: "g = [b0, b1, b2, b3, b4, b5]"
    using assms(1) unfolding length_6_nth by blast
  note eval = pack12_def unpack12_def Let_def u8_eq_iff bit_simps hi u8_high
  show "pack12 ((unpack12 g)[0 := v]) = g[0 := (g ! 0 AND 0x0F) OR ucast (push_bit 4 v), 1 := (g ! 1 AND 0) OR ucast (drop_bit 4 v)]"
    by (simp add: g eval)
  show "pack12 ((unpack12 g)[1 := v]) = g[0 := (g ! 0 AND 0xF0) OR ucast (drop_bit 8 v), 3 := (g ! 3 AND 0) OR ucast v]"
    by (simp add: g eval)
  show "pack12 ((unpack12 g)[2 := v]) = g[2 := (g ! 2 AND 0) OR ucast (drop_bit 4 v), 5 := (g ! 5 AND 0x0F) OR ucast (push_bit 4 v)]"
    by (simp add: g eval)
  show "pack12 ((unpack12 g)[3 := v]) = g[4 := (g ! 4 AND 0) OR ucast v, 5 := (g ! 5 AND 0xF0) OR ucast (drop_bit 8 v)]"
    by (simp add: g eval)
qed

lemma put_in_group14:
  assumes "length g = 14" "take_bit 14 (v :: u16) = v"
  shows "pack14 ((unpack14 g)[0 := v]) = g[0 := (g ! 0 AND 0x03) OR ucast (push_bit 2 v), 1 := (g ! 1 AND 0) OR ucast (drop_bit 6 v)]"
    and "pack14 ((unpack14 g)[1 := v]) = g[0 := (g ! 0 AND 0xFC) OR ucast (drop_bit 12 v), 2 := (g ! 2 AND 0x0F) OR ucast (push_bit 4 v), 3 := (g ! 3 AND 0) OR ucast (drop_bit 4 v)]"
    and "pack14 ((unpack14 g)[2 := v]) = g[2 := (g ! 2 AND 0xF0) OR ucast (drop_bit 10 v), 4 := (g ! 4 AND 0x3F) OR ucast (push_bit 6 v), 5 := (g ! 5 AND 0) OR ucast (drop_bit 2 v)]"
    and "pack14 ((unpack14 g)[3 := v]) = g[4 := (g ! 4 AND 0xC0) OR ucast (drop_bit 8 v), 7 := (g ! 7 AND 0) OR ucast v]"
    and "pack14 ((unpack14 g)[4 := v]) = g[6 := (g ! 6 AND 0) OR ucast (drop_bit 6 v), 9 := (g ! 9 AND 0x03) OR ucast (push_bit 2 v)]"
    and "pack14 ((unpack14 g)[5 := v]) = g[8 := (g ! 8 AND 0) OR ucast (drop_bit 4 v), 9 := (g ! 9 AND 0xFC) OR ucast (drop_bit 12 v), 11 := (g ! 11 AND 0x0F) OR ucast (push_bit 4 v)]"
    and "pack14 ((unpack14 g)[6 := v]) = g[10 := (g ! 10 AND 0) OR ucast (drop_bit 2 v), 11 := (g ! 11 AND 0xF0) OR ucast (drop_bit 10 v), 13 := (g ! 13 AND 0x3F) OR ucast (push_bit 6 v)]"
    and "pack14 ((unpack14 g)[7 := v]) = g[12 := (g ! 12 AND 0) OR ucast v, 13 := (g ! 13 AND 0xC0) OR ucast (drop_bit 8 v)]"
proof -
  note hi = high_bits[OF assms(2)]
  obtain b0 b1 b2 b3 b4 b5 b6 b7 b8 b9 b10 b11 b12 b13 where g: "g = [b0, b1, b2, b3, b4, b5, b6, b7, b8, b9, b10, b11, b12, b13]"
    using assms(1) unfolding length_14_nth by blast
  note eval = pack14_def unpack14_def Let_def u8_eq_iff bit_simps hi u8_high
  show "pack14 ((unpack14 g)[0 := v]) = g[0 := (g ! 0 AND 0x03) OR ucast (push_bit 2 v), 1 := (g ! 1 AND 0) OR ucast (drop_bit 6 v)]"
    by (simp add: g eval)
  show "pack14 ((unpack14 g)[1 := v]) = g[0 := (g ! 0 AND 0xFC) OR ucast (drop_bit 12 v), 2 := (g ! 2 AND 0x0F) OR ucast (push_bit 4 v), 3 := (g ! 3 AND 0) OR ucast (drop_bit 4 v)]"
    by (simp add: g eval)
  show "pack14 ((unpack14 g)[2 := v]) = g[2 := (g ! 2 AND 0xF0) OR ucast (drop_bit 10 v), 4 := (g ! 4 AND 0x3F) OR ucast (push_bit 6 v), 5 := (g ! 5 AND 0) OR ucast (drop_bit 2 v)]"
    by (simp add: g eval)
  show "pack14 ((unpack14 g)[3 := v]) = g[4 := (g ! 4 AND 0xC0) OR ucast (drop_bit 8 v), 7 := (g ! 7 AND 0) OR ucast v]"
    by (simp add: g eval)
  show "pack14 ((unpack14 g)[4 := v]) = g[6 := (g ! 6 AND 0) OR ucast (drop_bit 6 v), 9 := (g ! 9 AND 0x03) OR ucast (push_bit 2 v)]"
    by (simp add: g eval)
  show "pack14 ((unpack14 g)[5 := v]) = g[8 := (g ! 8 AND 0) OR ucast (drop_bit 4 v), 9 := (g ! 9 AND 0xFC) OR ucast (drop_bit 12 v), 11 := (g ! 11 AND 0x0F) OR ucast (push_bit 4 v)]"
    by (simp add: g eval)
  show "pack14 ((unpack14 g)[6 := v]) = g[10 := (g ! 10 AND 0) OR ucast (drop_bit 2 v), 11 := (g ! 11 AND 0xF0) OR ucast (drop_bit 10 v), 13 := (g ! 13 AND 0x3F) OR ucast (push_bit 6 v)]"
    by (simp add: g eval)
  show "pack14 ((unpack14 g)[7 := v]) = g[12 := (g ! 12 AND 0) OR ucast v, 13 := (g ! 13 AND 0xC0) OR ucast (drop_bit 8 v)]"
    by (simp add: g eval)
qed

lemma set_pixel_10:
  assumes "sn_bits sn = 10" "px_at sn x y + 10 \<le> length fb" "take_bit 10 v = v"
  shows "set_raw_pixel sn fb x y v =
    Some (plant (px_at sn x y) (pack10 ((unpack10 (window (px_at sn x y) 10 fb))[x mod 8 := v])) fb)"
proof -
  define a where "a = y * sn_rowlen sn + (x div 8) * 10"
  have a: "px_at sn x y = a" by (simp add: group_dims assms(1) a_def)
  have room: "a + 10 \<le> length fb" using assms(2) by (simp add: a)
  note g = put_in_group10[OF window_length[OF room] assms(3)]
  consider "x mod 8 = 0" | "x mod 8 = 1" | "x mod 8 = 2" | "x mod 8 = 3" | "x mod 8 = 4" | "x mod 8 = 5" | "x mod 8 = 6" | "x mod 8 = 7"
    using mod_8_cases[of x] by auto
  then show ?thesis
    unfolding a by cases (simp_all add: set_raw_pixel_def assms(1) a_def[symmetric] Let_def g g[simplified] pokes2[OF room])
qed

lemma set_pixel_12:
  assumes "sn_bits sn = 12" "px_at sn x y + 6 \<le> length fb" "take_bit 12 v = v"
  shows "set_raw_pixel sn fb x y v =
    Some (plant (px_at sn x y) (pack12 ((unpack12 (window (px_at sn x y) 6 fb))[x mod 4 := v])) fb)"
proof -
  define a where "a = y * sn_rowlen sn + (x div 4) * 6"
  have a: "px_at sn x y = a" by (simp add: group_dims assms(1) a_def)
  have room: "a + 6 \<le> length fb" using assms(2) by (simp add: a)
  note g = put_in_group12[OF window_length[OF room] assms(3)]
  consider "x mod 4 = 0" | "x mod 4 = 1" | "x mod 4 = 2" | "x mod 4 = 3"
    using mod_4_cases[of x] by auto
  then show ?thesis
    unfolding a by cases (simp_all add: set_raw_pixel_def assms(1) a_def[symmetric] Let_def g g[simplified] pokes2[OF room])
qed

lemma set_pixel_14:
  assumes "sn_bits sn = 14" "px_at sn x y + 14 \<le> length fb" "take_bit 14 v = v"
  shows "set_raw_pixel sn fb x y v =
    Some (plant (px_at sn x y) (pack14 ((unpack14 (window (px_at sn x y) 14 fb))[x mod 8 := v])) fb)"
proof -
  define a where "a = y * sn_rowlen sn + (x div 8) * 14"
  have a: "px_at sn x y = a" by (simp add: group_dims assms(1) a_def)
  have room: "a + 14 \<le> length fb" using assms(2) by (simp add: a)
  note g = put_in_group14[OF window_length[OF room] assms(3)]
  consider "x mod 8 = 0" | "x mod 8 = 1" | "x mod 8 = 2" | "x mod 8 = 3" | "x mod 8 = 4" | "x mod 8 = 5" | "x mod 8 = 6" | "x mod 8 = 7"
    using mod_8_cases[of x] by auto
  then show ?thesis
    unfolding a by cases (simp_all add: set_raw_pixel_def assms(1) a_def[symmetric] Let_def g g[simplified] pokes2[OF room] pokes3[OF room])
qed

lemma set_raw_pixel_group:
  assumes "mexp_depth (sn_bits sn)" "px_at sn x y + group_bytes (sn_bits sn) \<le> length fb" "take_bit (sn_bits sn) v = v"
  shows "set_raw_pixel sn fb x y v = Some (plant (px_at sn x y) (pack_group (sn_bits sn)
    ((unpack_group (sn_bits sn) (window (px_at sn x y) (group_bytes (sn_bits sn)) fb))[x mod group_px (sn_bits sn) := v])) fb)"
  using assms set_pixel_10[of sn x y fb v] set_pixel_12[of sn x y fb v] set_pixel_14[of sn x y fb v]
  by (auto simp: mexp_depth_def group_px_def group_bytes_def unpack_group_def pack_group_def)

section \<open>The frame is a pixel store\<close>

text \<open>
  A sensor whose rows are whole groups and hold them, which is what \<open>CAM_RAW_ROWPIX\<close> and the
  row length of every supported body satisfy.
\<close>

definition sensor_ok :: "sensor_t \<Rightarrow> bool" where
  [wf_defs]: "sensor_ok sn \<longleftrightarrow> mexp_depth (sn_bits sn) \<and> sn_rowpix sn mod group_px (sn_bits sn) = 0 \<and>
     sn_rowpix sn div group_px (sn_bits sn) * group_bytes (sn_bits sn) \<le> sn_rowlen sn \<and>
     0 < sn_rowpix sn \<and> sn_rowpix sn < 65536 \<and> sn_rows sn < 65536 \<and> BB_OB_X sn < sn_rowpix sn"

definition in_frame :: "sensor_t \<Rightarrow> u8 list \<Rightarrow> nat \<times> nat \<Rightarrow> bool" where
  "in_frame sn fb = (\<lambda>(y, x). length fb = sn_rows sn * sn_rowlen sn \<and> y < sn_rows sn \<and> x < sn_rowpix sn)"

definition rget :: "sensor_t \<Rightarrow> u8 list \<Rightarrow> nat \<times> nat \<Rightarrow> u32 option" where
  "rget sn fb = (\<lambda>(y, x). map_option ucast (get_raw_pixel sn fb x y))"

definition rput :: "sensor_t \<Rightarrow> u8 list \<Rightarrow> nat \<times> nat \<Rightarrow> u32 \<Rightarrow> u8 list option" where
  "rput sn fb = (\<lambda>(y, x) v. set_raw_pixel sn fb x y (ucast v))"

lemma sensor_depth: "sensor_ok sn \<Longrightarrow> mexp_depth (sn_bits sn)"
  by (simp add: sensor_ok_def)

lemma group_pos [simp]: "0 < group_px nb" "0 < group_bytes nb" "group_px nb \<noteq> 0" "group_bytes nb \<noteq> 0"
  by (simp_all add: group_px_def group_bytes_def)

lemma group_in_row:
  assumes "sensor_ok sn" "x < sn_rowpix sn"
  shows "x div group_px (sn_bits sn) * group_bytes (sn_bits sn) + group_bytes (sn_bits sn) \<le> sn_rowlen sn"
proof -
  let ?p = "group_px (sn_bits sn)" and ?b = "group_bytes (sn_bits sn)"
  have "sn_rowpix sn div ?p * ?p = sn_rowpix sn" using assms(1) by (simp add: sensor_ok_def mod_0_imp_dvd)
  then have "x div ?p < sn_rowpix sn div ?p" using assms(2) by (simp add: less_mult_imp_div_less)
  then have "(x div ?p + 1) * ?b \<le> sn_rowpix sn div ?p * ?b" by (intro mult_le_mono1) simp
  then show ?thesis using assms(1) by (simp add: sensor_ok_def)
qed

lemma group_in_frame:
  assumes "sensor_ok sn" "in_frame sn fb (y, x)"
  shows "px_at sn x y + group_bytes (sn_bits sn) \<le> length fb"
  using group_in_row[OF assms(1), of x] row_end[of y "sn_rows sn" "sn_rowlen sn"] assms(2)
  by (simp add: in_frame_def px_at_def)

lemma groups_apart:
  assumes ok: "sensor_ok sn" and x: "x < sn_rowpix sn" "x' < sn_rowpix sn"
  shows "(y = y' \<and> x div group_px (sn_bits sn) = x' div group_px (sn_bits sn)) \<or>
    px_at sn x y + group_bytes (sn_bits sn) \<le> px_at sn x' y' \<or> px_at sn x' y' + group_bytes (sn_bits sn) \<le> px_at sn x y"
proof -
  let ?b = "group_bytes (sn_bits sn)"
  have rows: "px_at sn u v + ?b \<le> px_at sn u' v'" if "v < v'" "u < sn_rowpix sn" for u v u' v'
    using group_in_row[OF ok that(2)] row_end[OF that(1), of "sn_rowlen sn"] by (simp add: px_at_def)
  have cols: "k * ?b + ?b \<le> k' * ?b" if "k < k'" for k k'
    using row_end[OF that] .
  have rows': "y < y' \<Longrightarrow> ?thesis" "y' < y \<Longrightarrow> ?thesis" using rows x by blast+
  define k k' where "k = x div group_px (sn_bits sn)" and "k' = x' div group_px (sn_bits sn)"
  have at: "px_at sn x y = y * sn_rowlen sn + k * ?b" "px_at sn x' y' = y' * sn_rowlen sn + k' * ?b"
    by (simp_all add: px_at_def k_def k'_def)
  have "?thesis" if "y = y'"
    using that cols[of k k'] cols[of k' k] unfolding at k_def[symmetric] k'_def[symmetric]
    by (cases k k' rule: linorder_cases) simp_all
  then show ?thesis using rows' by (cases y y' rule: linorder_cases) blast+
qed

lemma take_bit_ucast_fits:
  "\<lbrakk>fits nb v; mexp_depth nb\<rbrakk> \<Longrightarrow> take_bit nb (ucast v :: u16) = ucast v"
  by (rule bit_eqI) (auto simp: bit_take_bit_iff bit_ucast_iff fits_def)

lemma ucast_fits_back: "\<lbrakk>fits nb v; mexp_depth nb\<rbrakk> \<Longrightarrow> ucast (ucast v :: u16) = v"
  by (rule bit_eqI) (auto simp: bit_ucast_iff fits_def mexp_depth_def)

lemma fits_ucast: "take_bit nb (v :: u16) = v \<Longrightarrow> fits nb (ucast v)"
  by (metis bit_take_bit_iff bit_ucast_iff fits_def)

definition group_of :: "sensor_t \<Rightarrow> u8 list \<Rightarrow> nat \<times> nat \<Rightarrow> u16 list" where
  "group_of sn fb = (\<lambda>(y, x). unpack_group (sn_bits sn) (window (px_at sn x y) (group_bytes (sn_bits sn)) fb))"

lemma group_of_length: "sensor_ok sn \<Longrightarrow> length (group_of sn fb s) = group_px (sn_bits sn)"
  by (cases s) (simp add: group_of_def group_laws(2)[OF sensor_depth])

lemma group_of_fits:
  assumes "sensor_ok sn" "i < group_px (sn_bits sn)"
  shows "take_bit (sn_bits sn) (group_of sn fb s ! i) = group_of sn fb s ! i"
proof -
  obtain y x where s: "s = (y, x)" by (cases s)
  have "px_group (sn_bits sn) (group_px (sn_bits sn)) (group_of sn fb s)"
    unfolding s group_of_def using group_laws(4)[OF sensor_depth[OF assms(1)]] by simp
  then show ?thesis unfolding px_group_def using assms(2) by (metis nth_mem)
qed

lemma rget_group:
  assumes "sensor_ok sn" "in_frame sn fb (y, x)"
  shows "rget sn fb (y, x) = Some (ucast (group_of sn fb (y, x) ! (x mod group_px (sn_bits sn))))"
  using get_raw_pixel_group[OF sensor_depth[OF assms(1)] group_in_frame[OF assms]]
  by (simp add: rget_def group_of_def)

definition put_group :: "sensor_t \<Rightarrow> u8 list \<Rightarrow> nat \<times> nat \<Rightarrow> u16 list \<Rightarrow> u8 list" where
  "put_group sn fb = (\<lambda>(y, x) u. plant (px_at sn x y) (pack_group (sn_bits sn) u) fb)"

lemma rput_group:
  assumes "sensor_ok sn" "in_frame sn fb (y, x)" "fits (sn_bits sn) v"
  shows "rput sn fb (y, x) v =
    Some (put_group sn fb (y, x) ((group_of sn fb (y, x))[x mod group_px (sn_bits sn) := ucast v]))"
  using set_raw_pixel_group[OF sensor_depth[OF assms(1)] group_in_frame[OF assms(1,2)]
      take_bit_ucast_fits[OF assms(3) sensor_depth[OF assms(1)]]]
  by (simp add: rput_def group_of_def put_group_def)

lemma put_group_length:
  assumes "sensor_ok sn" "in_frame sn fb s"
  shows "length (put_group sn fb s u) = length fb"
  using assms group_in_frame[of sn fb "fst s" "snd s"]
  by (cases s) (simp add: put_group_def group_laws(1)[OF sensor_depth])

lemma group_put_group:
  assumes "sensor_ok sn" "in_frame sn fb (y, x)" "px_group (sn_bits sn) (group_px (sn_bits sn)) u"
  shows "group_of sn (put_group sn fb (y, x) u) (y, x) = u"
  using window_plant[of "px_at sn x y" "pack_group (sn_bits sn) u" fb] group_in_frame[OF assms(1,2)]
    group_laws(1,3)[OF sensor_depth[OF assms(1)]] assms(3)
  by (simp add: group_of_def put_group_def)

lemma group_put_other:
  assumes ok: "sensor_ok sn" and s: "in_frame sn fb (y, x)" and t: "in_frame sn fb (y', x')"
    and ne: "\<not> (y = y' \<and> x div group_px (sn_bits sn) = x' div group_px (sn_bits sn))"
  shows "group_of sn (put_group sn fb (y, x) u) (y', x') = group_of sn fb (y', x')"
proof -
  have "px_at sn x y + group_bytes (sn_bits sn) \<le> px_at sn x' y' \<or> px_at sn x' y' + group_bytes (sn_bits sn) \<le> px_at sn x y"
    using groups_apart[OF ok, of x x' y y'] s t ne by (auto simp: in_frame_def)
  then have "window (px_at sn x' y') (group_bytes (sn_bits sn)) (plant (px_at sn x y) (pack_group (sn_bits sn) u) fb) =
      window (px_at sn x' y') (group_bytes (sn_bits sn)) fb"
    using group_in_frame[OF ok s] group_in_frame[OF ok t]
    by (intro window_plant_other) (auto simp: group_laws(1)[OF sensor_depth[OF ok]])
  then show ?thesis by (simp add: group_of_def put_group_def)
qed

lemma px_group_update:
  assumes "sensor_ok sn" "take_bit (sn_bits sn) w = w"
  shows "px_group (sn_bits sn) (group_px (sn_bits sn)) ((group_of sn fb s)[i := w])"
  unfolding px_group_def
proof (intro conjI)
  show "length ((group_of sn fb s)[i := w]) = group_px (sn_bits sn)" by (simp add: group_of_length[OF assms(1)])
  have "\<forall>v\<in>set (group_of sn fb s). take_bit (sn_bits sn) v = v"
    using group_of_fits[OF assms(1), of _ fb s] by (metis in_set_conv_nth group_of_length[OF assms(1)])
  then show "\<forall>v\<in>set ((group_of sn fb s)[i := w]). take_bit (sn_bits sn) v = v"
    using assms(2) by (rule list_update_all)
qed

lemma in_frame_length: "length q = length p \<Longrightarrow> in_frame sn q s = in_frame sn p s"
  by (cases s) (simp add: in_frame_def)

lemma rput_ok:
  assumes ok: "sensor_ok sn" and s: "in_frame sn p s" and v: "fits (sn_bits sn) v"
  shows "ok (rput sn p s v) (\<lambda>q. length q = length p \<and> rget sn q s = Some v)"
proof -
  obtain y x where yx: "s = (y, x)" by (cases s)
  let ?i = "x mod group_px (sn_bits sn)"
  define q where "q = put_group sn p (y, x) ((group_of sn p (y, x))[?i := ucast v])"
  have fr: "in_frame sn p (y, x)" using s yx by simp
  have len: "length q = length p" unfolding q_def by (rule put_group_length[OF ok fr])
  have "group_of sn q (y, x) = (group_of sn p (y, x))[?i := ucast v]"
    unfolding q_def by (rule group_put_group[OF ok fr px_group_update[OF ok take_bit_ucast_fits[OF v sensor_depth[OF ok]]]])
  then have "rget sn q (y, x) = Some v"
    using rget_group[OF ok, of q y x] fr in_frame_length[OF len] ucast_fits_back[OF v sensor_depth[OF ok]]
    by (simp add: group_of_length[OF ok])
  then show ?thesis using rput_group[OF ok fr v] len by (simp add: yx ok_def q_def)
qed

lemma rput_other:
  assumes ok: "sensor_ok sn" and s: "in_frame sn p s" and t: "in_frame sn p t" and ne: "s \<noteq> t"
    and v: "fits (sn_bits sn) v" and q: "rput sn p s v = Some q"
  shows "rget sn q t = rget sn p t"
proof -
  obtain y x y' x' where st: "s = (y, x)" "t = (y', x')" by (cases s, cases t)
  let ?n = "group_px (sn_bits sn)"
  have fr: "in_frame sn p (y, x)" "in_frame sn p (y', x')" using s t st by simp_all
  define u where "u = (group_of sn p (y, x))[x mod ?n := ucast v]"
  have q: "q = put_group sn p (y, x) u" using rput_group[OF ok fr(1) v] q by (simp add: st u_def)
  have fr': "in_frame sn q (y', x')" using fr(2) in_frame_length[OF put_group_length[OF ok fr(1)]] by (simp add: q)
  have "group_of sn q (y', x') ! (x' mod ?n) = group_of sn p (y', x') ! (x' mod ?n)"
  proof (cases "y = y' \<and> x div ?n = x' div ?n")
    case True
    then have same: "group_of sn r (y', x') = group_of sn r (y, x)" for r by (simp add: group_of_def px_at_def)
    have "x mod ?n \<noteq> x' mod ?n" using True ne st by (metis div_mult_mod_eq)
    moreover have "group_of sn q (y, x) = u"
      unfolding q u_def by (rule group_put_group[OF ok fr(1) px_group_update[OF ok take_bit_ucast_fits[OF v sensor_depth[OF ok]]]])
    ultimately show ?thesis by (simp add: same u_def)
  next
    case False
    then show ?thesis using group_put_other[OF ok fr] by (simp add: q)
  qed
  then show ?thesis using rget_group[OF ok fr(2)] rget_group[OF ok fr'] by (simp add: st)
qed

lemma raw_store:
  assumes ok: "sensor_ok sn"
  shows "pixel_store (rget sn) (rput sn) (in_frame sn) (sn_bits sn)"
proof
  fix p q :: "u8 list" and s t :: "nat \<times> nat" and v
  show "length p = length q \<Longrightarrow> in_frame sn p s = in_frame sn q s" by (rule in_frame_length)
  show "ok (rget sn p s) (fits (sn_bits sn))" if "in_frame sn p s"
    using rget_group[OF ok, of p "fst s" "snd s"] that group_of_fits[OF ok] by (simp add: ok_def fits_ucast)
qed (use rput_ok[OF ok] rput_other[OF ok] in blast)+

lemmas raw_get = pixel_store.get_ok[OF raw_store]
lemmas raw_put = pixel_store.put_ok[OF raw_store]
lemmas raw_other = pixel_store.put_other[OF raw_store]

section \<open>The packed fast path\<close>

text \<open>\<open>get_raw_pixel(x, y) & BB_MAX\<close>, and one step of the loops that look every pixel up.\<close>

definition px_rd :: "sensor_t \<Rightarrow> u8 list \<Rightarrow> nat \<Rightarrow> nat \<Rightarrow> u32 option" where
  "px_rd sn fb x y = map_option (\<lambda>v. ucast v AND BB_MAX sn) (get_raw_pixel sn fb x y)"

definition bb_lut_px :: "sensor_t \<Rightarrow> u16 list \<Rightarrow> nat \<Rightarrow> nat \<Rightarrow> u8 list \<Rightarrow> u8 list option" where
  "bb_lut_px sn lut y x fb =
     do { v \<leftarrow> px_rd sn fb x y; w \<leftarrow> rd lut (unat v); set_raw_pixel sn fb x y w }"

text \<open>The body of the two \<open>bb_row_fast\<close> loops on the bytes of a group.\<close>

definition bb_group12 :: "u16 list \<Rightarrow> u8 list \<Rightarrow> u8 list option" where
  "bb_group12 lut p = do {
     let w = (\<lambda>i. ucast (p ! i) :: u16);
     let p0 = push_bit 4 (w 1) OR drop_bit 4 (w 0);
     let p1 = push_bit 8 (w 0 AND 0x0f) OR w 3;
     let p2 = push_bit 4 (w 2) OR drop_bit 4 (w 5);
     let p3 = push_bit 8 (w 5 AND 0x0f) OR w 4;
     p0 \<leftarrow> rd lut (unat p0); p1 \<leftarrow> rd lut (unat p1); p2 \<leftarrow> rd lut (unat p2); p3 \<leftarrow> rd lut (unat p3);
     Some [ucast (push_bit 4 (p0 AND 0x00f) OR (drop_bit 8 p1 AND 0x0f)),
           ucast (drop_bit 4 p0 AND 0xff),
           ucast (drop_bit 4 p2 AND 0xff),
           ucast (p1 AND 0xff),
           ucast (p3 AND 0xff),
           ucast (push_bit 4 (p2 AND 0x00f) OR (drop_bit 8 p3 AND 0x0f))] }"

definition bb_group10 :: "u16 list \<Rightarrow> u8 list \<Rightarrow> u8 list option" where
  "bb_group10 lut p = do {
     let w = (\<lambda>i. ucast (p ! i) :: u16);
     let p0 = (0x3fc AND push_bit 2 (w 1)) OR drop_bit 6 (w 0);
     let p1 = (0x3f0 AND push_bit 4 (w 0)) OR drop_bit 4 (w 3);
     let p2 = (0x3c0 AND push_bit 6 (w 3)) OR drop_bit 2 (w 2);
     let p3 = (0x300 AND push_bit 8 (w 2)) OR w 5;
     let p4 = (0x3fc AND push_bit 2 (w 4)) OR drop_bit 6 (w 7);
     let p5 = (0x3f0 AND push_bit 4 (w 7)) OR drop_bit 4 (w 6);
     let p6 = (0x3c0 AND push_bit 6 (w 6)) OR drop_bit 2 (w 9);
     let p7 = (0x300 AND push_bit 8 (w 9)) OR w 8;
     p0 \<leftarrow> rd lut (unat p0); p1 \<leftarrow> rd lut (unat p1); p2 \<leftarrow> rd lut (unat p2); p3 \<leftarrow> rd lut (unat p3);
     p4 \<leftarrow> rd lut (unat p4); p5 \<leftarrow> rd lut (unat p5); p6 \<leftarrow> rd lut (unat p6); p7 \<leftarrow> rd lut (unat p7);
     Some [ucast (push_bit 6 (p0 AND 0x003) OR (drop_bit 4 p1 AND 0x3f)),
           ucast (drop_bit 2 p0 AND 0xff),
           ucast (push_bit 2 (p2 AND 0x03f) OR (drop_bit 8 p3 AND 0x03)),
           ucast (push_bit 4 (p1 AND 0x00f) OR (drop_bit 6 p2 AND 0x0f)),
           ucast (drop_bit 2 p4 AND 0xff),
           ucast (p3 AND 0xff),
           ucast (push_bit 4 (p5 AND 0x00f) OR (drop_bit 6 p6 AND 0x0f)),
           ucast (push_bit 6 (p4 AND 0x003) OR (drop_bit 4 p5 AND 0x3f)),
           ucast (p7 AND 0xff),
           ucast (push_bit 2 (p6 AND 0x03f) OR (drop_bit 8 p7 AND 0x03))] }"

text \<open>The loop over the groups: \<open>p\<close> is the pointer, advanced by the bytes of a group.\<close>

primrec bb_groups :: "(u8 list \<Rightarrow> u8 list option) \<Rightarrow> nat \<Rightarrow> nat \<Rightarrow> nat \<Rightarrow> u8 list \<Rightarrow> u8 list option" where
  "bb_groups f gb 0 p fb = Some fb"
| "bb_groups f gb (Suc n) p fb =
     (if p + gb \<le> length fb then do { g \<leftarrow> f (window p gb fb); bb_groups f gb n (p + gb) (plant p g fb) } else None)"

definition bb_row_fast :: "nat \<Rightarrow> u16 list \<Rightarrow> nat \<Rightarrow> nat \<Rightarrow> u8 list \<Rightarrow> u8 list option" where
  "bb_row_fast bits lut p rowpix fb =
     (if bits = 12 then bb_groups (bb_group12 lut) 6 (drop_bit 2 rowpix) p fb
      else bb_groups (bb_group10 lut) 10 (drop_bit 3 rowpix) p fb)"

text \<open>A group of the fast path is the group with every entry looked up.\<close>

lemma lut_index:
  fixes v :: u16
  assumes "take_bit nb v = v" "length lut = 2 ^ nb"
  shows "unat v < length lut"
proof -
  have "unat v = take_bit nb (unat v)" using assms(1) by (metis unsigned_take_bit_eq)
  then show ?thesis using assms(2) by (metis take_bit_nat_less_exp)
qed

lemma bb_group12_eq:
  assumes "length lut = 2 ^ 12"
  shows "bb_group12 lut g = Some (pack12 (map (\<lambda>v. lut ! unat v) (unpack12 g)))"
proof -
  have "unat v < length lut" if "v \<in> set (unpack12 g)" for v
    by (rule lut_index[OF _ assms]) (use unpack12_shape[of g] that in \<open>simp add: px_group_def\<close>)
  then show ?thesis
    by (simp add: bb_group12_def unpack12_def pack12_def Let_def rd_def)
qed

lemma bb_group10_eq:
  assumes "length lut = 2 ^ 10"
  shows "bb_group10 lut g = Some (pack10 (map (\<lambda>v. lut ! unat v) (unpack10 g)))"
proof -
  have "unat v < length lut" if "v \<in> set (unpack10 g)" for v
    by (rule lut_index[OF _ assms]) (use unpack10_shape[of g] that in \<open>simp add: px_group_def\<close>)
  then show ?thesis
    by (simp add: bb_group10_def unpack10_def pack10_def Let_def rd_def)
qed

section \<open>Painting\<close>

text \<open>
  The contract of a pass over the frame: which pixels it has rewritten, so that the loops over
  pixels, spans, rows and regions compose. Two relations obey it: \<open>touches\<close> says nothing of the
  new values, \<open>remap f\<close> says that each rewritten pixel \<open>s\<close> of value \<open>v\<close> became \<open>f s v\<close>.
\<close>

locale painting =
  fixes paint :: "(nat \<times> nat) set \<Rightarrow> u8 list \<Rightarrow> u8 list \<Rightarrow> bool"
  assumes paint_none: "paint {} p p"
    and paint_more: "\<lbrakk>paint S p q; paint T q r; S \<inter> T = {}\<rbrakk> \<Longrightarrow> paint (S \<union> T) p r"
    and paint_length: "paint S p q \<Longrightarrow> length q = length p"
begin

lemma paint_range:
  assumes "a \<le> b" "J s"
    and step: "\<And>x s. \<lbrakk>a \<le> x; x < b; J s\<rbrakk> \<Longrightarrow> ok (F x s) (\<lambda>s'. J s' \<and> paint (S x) (fb s) (fb s'))"
    and apart: "\<And>x x'. \<lbrakk>a \<le> x; x < x'; x' < b\<rbrakk> \<Longrightarrow> S x \<inter> S x' = {}"
  shows "ok (for_range a b F s) (\<lambda>s'. J s' \<and> paint (\<Union>x\<in>{a..<b}. S x) (fb s) (fb s'))"
proof (rule for_range_inv[where I = "\<lambda>i s'. J s' \<and> paint (\<Union>x\<in>{a..<i}. S x) (fb s) (fb s')"])
  fix i s' assume i: "a \<le> i" "i < b" and I: "J s' \<and> paint (\<Union>x\<in>{a..<i}. S x) (fb s) (fb s')"
  have "{a..<Suc i} = insert i {a..<i}" using i by auto
  then have "(\<Union>x\<in>{a..<Suc i}. S x) = (\<Union>x\<in>{a..<i}. S x) \<union> S i" by auto
  moreover have "(\<Union>x\<in>{a..<i}. S x) \<inter> S i = {}" using apart i by fastforce
  ultimately have more: "paint (\<Union>x\<in>{a..<Suc i}. S x) (fb s) r" if "paint (S i) (fb s') r" for r
    using paint_more[of _ "fb s" "fb s'", OF conjunct2[OF I] that] by simp
  have "ok (F i s') (\<lambda>s''. J s'' \<and> paint (S i) (fb s') (fb s''))" using step[OF i] I by blast
  then show "ok (F i s') (\<lambda>s''. J s'' \<and> paint (\<Union>x\<in>{a..<Suc i}. S x) (fb s) (fb s''))"
    by (rule ok_mono) (use more in blast)
qed (use assms paint_none in auto)

end

definition touches :: "sensor_t \<Rightarrow> (nat \<times> nat) set \<Rightarrow> u8 list \<Rightarrow> u8 list \<Rightarrow> bool" where
  "touches sn S p q \<longleftrightarrow> length q = length p \<and> (\<forall>s. in_frame sn p s \<longrightarrow> s \<notin> S \<longrightarrow> rget sn q s = rget sn p s)"

definition remap :: "sensor_t \<Rightarrow> (nat \<times> nat \<Rightarrow> u32 \<Rightarrow> u32) \<Rightarrow> (nat \<times> nat) set \<Rightarrow> u8 list \<Rightarrow> u8 list \<Rightarrow> bool" where
  "remap sn f S p q \<longleftrightarrow> length q = length p \<and>
     (\<forall>s. in_frame sn p s \<longrightarrow> rget sn q s = (if s \<in> S then map_option (f s) (rget sn p s) else rget sn p s))"

interpretation touching: painting "touches sn" for sn
proof
  fix S T :: "(nat \<times> nat) set" and p q r
  assume a: "touches sn S p q" "touches sn T q r"
  then have "in_frame sn q s = in_frame sn p s" for s by (intro in_frame_length) (simp add: touches_def)
  with a show "touches sn (S \<union> T) p r" unfolding touches_def by simp
qed (simp_all add: touches_def)

interpretation remapping: painting "remap sn f" for sn f
proof
  fix S T :: "(nat \<times> nat) set" and p q r
  assume a: "remap sn f S p q" "remap sn f T q r" "S \<inter> T = {}"
  then have len: "length r = length p" and fr: "in_frame sn q s = in_frame sn p s" for s
    using in_frame_length[of q p sn s] by (simp_all add: remap_def)
  have "rget sn r s = (if s \<in> S \<union> T then map_option (f s) (rget sn p s) else rget sn p s)" if s: "in_frame sn p s" for s
  proof -
    have "rget sn q s = (if s \<in> S then map_option (f s) (rget sn p s) else rget sn p s)"
      using a(1) s unfolding remap_def by blast
    moreover have "rget sn r s = (if s \<in> T then map_option (f s) (rget sn q s) else rget sn q s)"
      using a(2) s fr[of s] unfolding remap_def by blast
    ultimately show ?thesis using a(3) by auto
  qed
  then show "remap sn f (S \<union> T) p r" using len by (simp add: remap_def)
qed (simp_all add: remap_def)

lemma remap_touches: "remap sn f S p q \<Longrightarrow> touches sn S p q"
  by (simp add: remap_def touches_def)

lemma remap_cong: "\<lbrakk>remap sn f S p q; \<And>s. s \<in> S \<Longrightarrow> f s = g s\<rbrakk> \<Longrightarrow> remap sn g S p q"
  by (simp add: remap_def)

section \<open>Loops that look pixels up\<close>

lemma BB_MAX_mask: "BB_MAX sn = mask (sn_bits sn)"
  by (simp add: BB_MAX_def mask_eq_exp_minus_1 push_bit_eq_mult)

lemma fits_and_mask: "fits nb v \<Longrightarrow> v AND mask nb = v"
  by (rule bit_eqI) (auto simp: bit_and_iff bit_mask_iff fits_def dest: bit_imp_le_length)

lemma px_rd_rget:
  assumes "sensor_ok sn" "in_frame sn fb (y, x)"
  shows "px_rd sn fb x y = rget sn fb (y, x)"
proof -
  have "px_rd sn fb x y = map_option (\<lambda>v. v AND mask (sn_bits sn)) (rget sn fb (y, x))"
    by (simp add: px_rd_def rget_def BB_MAX_mask option.map_comp comp_def)
  then show ?thesis using raw_get[OF assms] fits_and_mask by (auto simp: ok_def)
qed

text \<open>A table for the sensor: an entry for every value, and every entry a value.\<close>

definition lut_ok :: "sensor_t \<Rightarrow> u16 list \<Rightarrow> bool" where
  "lut_ok sn lut \<longleftrightarrow> length lut = 2 ^ sn_bits sn \<and> (\<forall>w\<in>set lut. take_bit (sn_bits sn) w = w)"

definition lut_fun :: "u16 list \<Rightarrow> u32 \<Rightarrow> u32" where
  "lut_fun lut v = ucast (lut ! unat v)"

lemma lut_ok_at: "\<lbrakk>lut_ok sn lut; i < length lut\<rbrakk> \<Longrightarrow> take_bit (sn_bits sn) (lut ! i) = lut ! i"
  by (simp add: lut_ok_def)

lemma fits_unat: "\<lbrakk>fits nb v; nb < 32\<rbrakk> \<Longrightarrow> unat v < 2 ^ nb"
  using unat_and_mask_less[of v nb] by (simp add: fits_and_mask)

lemma remap_single:
  assumes ok: "sensor_ok sn" and s: "in_frame sn p s" and v: "rget sn p s = Some v" and w: "fits (sn_bits sn) (f s v)"
  shows "ok (rput sn p s (f s v)) (remap sn f {s} p)"
proof -
  have "ok (rput sn p s (f s v)) (\<lambda>q. length q = length p \<and> rget sn q s = Some (f s v))"
    by (rule rput_ok[OF ok s w])
  then obtain q where q: "rput sn p s (f s v) = Some q" "length q = length p" "rget sn q s = Some (f s v)"
    by (auto simp: ok_def)
  have "rget sn q t = rget sn p t" if "in_frame sn p t" "t \<noteq> s" for t
    by (rule rput_other[OF ok s that(1) _ w q(1)]) (use that in simp)
  then show ?thesis using q v by (auto simp: ok_def remap_def)
qed

lemma lut_px_paints:
  assumes ok: "sensor_ok sn" and lut: "lut_ok sn lut" and s: "in_frame sn fb (y, x)"
  shows "ok (bb_lut_px sn lut y x fb) (remap sn (\<lambda>_. lut_fun lut) {(y, x)} fb)"
proof -
  obtain v where v: "rget sn fb (y, x) = Some v" "fits (sn_bits sn) v" using raw_get[OF ok s] by (auto simp: ok_def)
  have "sn_bits sn < 32" using sensor_depth[OF ok] by (auto simp: mexp_depth_def)
  then have i: "unat v < length lut" using fits_unat[OF v(2)] lut by (simp add: lut_ok_def)
  note w = fits_ucast[OF lut_ok_at[OF lut i]]
  have "bb_lut_px sn lut y x fb = rput sn fb (y, x) (lut_fun lut v)"
    using i by (simp add: bb_lut_px_def px_rd_rget[OF ok s] v rd_def rput_def lut_fun_def)
      (simp add: ucast_back)
  then show ?thesis
    using remap_single[OF ok s v(1), of "\<lambda>_. lut_fun lut"] w by (simp add: lut_fun_def)
qed

lemma lut_loop_paints:
  assumes ok: "sensor_ok sn" and lut: "lut_ok sn lut" and y: "y < sn_rows sn" and ab: "a \<le> b" "b \<le> sn_rowpix sn"
    and fb: "length fb = sn_rows sn * sn_rowlen sn"
  shows "ok (for_range a b (bb_lut_px sn lut y) fb) (remap sn (\<lambda>_. lut_fun lut) {(y, x) |x. a \<le> x \<and> x < b} fb)"
proof -
  have "ok (for_range a b (bb_lut_px sn lut y) fb)
      (\<lambda>p. length p = length fb \<and> remap sn (\<lambda>_. lut_fun lut) (\<Union>x\<in>{a..<b}. {(y, x)}) fb p)"
  proof (rule remapping.paint_range[where fb = "\<lambda>p. p" and J = "\<lambda>p. length p = length fb"])
    fix x and p :: "u8 list" assume "a \<le> x" "x < b" "length p = length fb"
    then have "in_frame sn p (y, x)" using y ab fb by (simp add: in_frame_def)
    from lut_px_paints[OF ok lut this]
    show "ok (bb_lut_px sn lut y x p) (\<lambda>q. length q = length fb \<and> remap sn (\<lambda>_. lut_fun lut) {(y, x)} p q)"
      by (rule ok_mono) (use \<open>length p = length fb\<close> remapping.paint_length in auto)
  qed (use ab in auto)
  moreover have "(\<Union>x\<in>{a..<b}. {(y, x)}) = {(y, x) |x. a \<le> x \<and> x < b}" by auto
  ultimately show ?thesis by (auto elim!: ok_mono)
qed

text \<open>The fast path does to a run of whole groups what the pixel loop does.\<close>

lemma group_start:
  assumes "px_at sn x y = a" "x = j * group_px (sn_bits sn)"
  shows "a = y * sn_rowlen sn + j * group_bytes (sn_bits sn)"
  using assms by (simp add: px_at_def)

lemma put_group_remaps:
  assumes ok: "sensor_ok sn" and lut: "lut_ok sn lut" and s: "in_frame sn fb (y, x)"
  shows "remap sn (\<lambda>_. lut_fun lut) {(y, x') |x'. x' div group_px (sn_bits sn) = x div group_px (sn_bits sn)} fb
    (put_group sn fb (y, x) (map (\<lambda>v. lut ! unat v) (group_of sn fb (y, x))))"
    (is "remap sn _ ?S fb ?q")
proof -
  let ?n = "group_px (sn_bits sn)"
  define u where "u = map (\<lambda>v. lut ! unat v) (group_of sn fb (y, x))"
  have len: "length ?q = length fb" by (rule put_group_length[OF ok s])
  have "take_bit (sn_bits sn) (lut ! unat (group_of sn fb (y, x) ! i)) = lut ! unat (group_of sn fb (y, x) ! i)"
    if "i < ?n" for i
    using lut lut_ok_at[OF lut lut_index[OF group_of_fits[OF ok that]]] by (simp add: lut_ok_def)
  then have u: "px_group (sn_bits sn) ?n u"
    by (auto simp: px_group_def u_def group_of_length[OF ok] in_set_conv_nth)
  have "rget sn ?q (y', x') = (if (y', x') \<in> ?S then map_option (lut_fun lut) (rget sn fb (y', x')) else rget sn fb (y', x'))"
    if t: "in_frame sn fb (y', x')" for y' x'
  proof -
    have t': "in_frame sn ?q (y', x')" using t in_frame_length[OF len] by simp
    show ?thesis
    proof (cases "(y', x') \<in> ?S")
      case True
      then have yx: "y' = y" "x' div ?n = x div ?n" by auto
      then have same: "group_of sn r (y, x') = group_of sn r (y, x)" for r by (simp add: group_of_def px_at_def)
      have "group_of sn ?q (y, x) = u" unfolding u_def[symmetric] by (rule group_put_group[OF ok s u])
      then have "rget sn ?q (y', x') = Some (ucast (u ! (x' mod ?n)))"
        using rget_group[OF ok t'] by (simp add: yx(1) same)
      moreover have "rget sn fb (y', x') = Some (ucast (group_of sn fb (y, x) ! (x' mod ?n)))"
        using rget_group[OF ok t] by (simp add: yx(1) same)
      ultimately show ?thesis
        using True by (simp add: u_def lut_fun_def unat_up group_of_length[OF ok])
    next
      case False
      then have "\<not> (y = y' \<and> x div ?n = x' div ?n)" by auto
      then have "rget sn ?q (y', x') = rget sn fb (y', x')"
        using rget_group[OF ok t] rget_group[OF ok t'] group_put_other[OF ok s t] by simp
      then show ?thesis unfolding if_not_P[OF False] .
    qed
  qed
  then show ?thesis using len by (auto simp: remap_def)
qed

lemma div_eq_between: "0 < n \<Longrightarrow> x div n = j \<longleftrightarrow> j * n \<le> x \<and> x < Suc j * (n :: nat)"
  using less_eq_div_iff_mult_less_eq[of n j x] div_less_iff_less_mult[of n x "Suc j"] by auto

lemma groups_paint:
  assumes ok: "sensor_ok sn" and lut: "lut_ok sn lut" and y: "y < sn_rows sn"
    and F: "\<And>g. F g = Some (pack_group (sn_bits sn) (map (\<lambda>v. lut ! unat v) (unpack_group (sn_bits sn) g)))"
    and "(j + k) * group_px (sn_bits sn) \<le> sn_rowpix sn" "length fb = sn_rows sn * sn_rowlen sn"
  shows "ok (bb_groups F (group_bytes (sn_bits sn)) k (y * sn_rowlen sn + j * group_bytes (sn_bits sn)) fb)
    (remap sn (\<lambda>_. lut_fun lut) {(y, x) |x. j * group_px (sn_bits sn) \<le> x \<and> x < (j + k) * group_px (sn_bits sn)} fb)"
  using assms(5,6)
proof (induction k arbitrary: j fb)
  case 0
  have "{(y, x) |x. j * group_px (sn_bits sn) \<le> x \<and> x < (j + 0) * group_px (sn_bits sn)} = {}" by auto
  then show ?case using remapping.paint_none by (simp only: bb_groups.simps ok_simps)
next
  case (Suc k)
  let ?n = "group_px (sn_bits sn)" and ?b = "group_bytes (sn_bits sn)"
  have "j * ?n < (j + Suc k) * ?n" by (intro mult_less_mono1) simp_all
  then have "j * ?n < sn_rowpix sn" using Suc.prems(1) by linarith
  then have s: "in_frame sn fb (y, j * ?n)" using Suc.prems(2) y by (simp add: in_frame_def)
  have at: "px_at sn (j * ?n) y = y * sn_rowlen sn + j * ?b" by (simp add: px_at_def)
  define q where "q = put_group sn fb (y, j * ?n) (map (\<lambda>v. lut ! unat v) (group_of sn fb (y, j * ?n)))"
  have q: "remap sn (\<lambda>_. lut_fun lut) {(y, x) |x. x div ?n = j} fb q"
    using put_group_remaps[OF ok lut s] by (simp add: q_def)
  then have len: "length q = sn_rows sn * sn_rowlen sn" using Suc.prems(2) by (simp add: remap_def)
  have run: "bb_groups F ?b (Suc k) (y * sn_rowlen sn + j * ?b) fb = bb_groups F ?b k (y * sn_rowlen sn + Suc j * ?b) q"
    using group_in_frame[OF ok s] F by (simp add: at q_def put_group_def group_of_def algebra_simps)
  have fits: "(Suc j + k) * ?n \<le> sn_rowpix sn" using Suc.prems(1) by simp
  have up: "Suc j * ?n \<le> (j + Suc k) * ?n" by (intro mult_le_mono1) simp
  have "{(y, x) |x. j * ?n \<le> x \<and> x < (j + Suc k) * ?n} =
      {(y, x) |x. x div ?n = j} \<union> {(y, x) |x. Suc j * ?n \<le> x \<and> x < (Suc j + k) * ?n}"
    unfolding div_eq_between[OF group_pos(1)] using up by (auto simp: add_mult_distrib)
  moreover have "{(y, x) |x. x div ?n = j} \<inter> {(y, x) |x. Suc j * ?n \<le> x \<and> x < (Suc j + k) * ?n} = {}"
    unfolding div_eq_between[OF group_pos(1)] by auto
  ultimately show ?case
    unfolding run by (intro ok_mono[OF Suc.IH[OF fits len]]) (simp add: remapping.paint_more[OF q])
qed

lemma row_fast_paints:
  assumes ok: "sensor_ok sn" and lut: "lut_ok sn lut" and y: "y < sn_rows sn"
    and nb: "sn_bits sn = 10 \<or> sn_bits sn = 12"
    and ab: "a \<le> b" "b \<le> sn_rowpix sn" "a mod group_px (sn_bits sn) = 0" "b mod group_px (sn_bits sn) = 0"
    and fb: "length fb = sn_rows sn * sn_rowlen sn"
  shows "ok (bb_row_fast (sn_bits sn) lut
      (y * sn_rowlen sn + a div group_px (sn_bits sn) * group_bytes (sn_bits sn)) (b - a) fb)
    (remap sn (\<lambda>_. lut_fun lut) {(y, x) |x. a \<le> x \<and> x < b} fb)"
proof -
  let ?n = "group_px (sn_bits sn)"
  obtain j l where j: "a = j * ?n" and l: "b = l * ?n"
    using ab(3,4) by (metis mod_0_imp_dvd dvd_def mult.commute)
  have jl: "j \<le> l" using ab(1) by (simp add: j l)
  have k: "(b - a) div ?n = l - j" by (simp add: j l flip: diff_mult_distrib)
  have F: "sn_bits sn = 10 \<Longrightarrow> bb_group10 lut g = Some (pack10 (map (\<lambda>v. lut ! unat v) (unpack10 g)))"
    "sn_bits sn = 12 \<Longrightarrow> bb_group12 lut g = Some (pack12 (map (\<lambda>v. lut ! unat v) (unpack12 g)))" for g
    using bb_group10_eq[of lut g] bb_group12_eq[of lut g] lut by (simp_all add: lut_ok_def)
  define F' where "F' = (if sn_bits sn = 12 then bb_group12 lut else bb_group10 lut)"
  have "bb_row_fast (sn_bits sn) lut p (b - a) fb = bb_groups F' (group_bytes (sn_bits sn)) ((b - a) div ?n) p fb" for p
    using nb by (auto simp: bb_row_fast_def F'_def group_dims drop_bit_eq_div)
  moreover have "F' g = Some (pack_group (sn_bits sn) (map (\<lambda>v. lut ! unat v) (unpack_group (sn_bits sn) g)))" for g
    using nb F by (auto simp: F'_def pack_group_def unpack_group_def)
  moreover have "j + (l - j) = l" using jl by simp
  ultimately show ?thesis
    using groups_paint[OF ok lut y, of F' j "l - j" fb] ab(2) fb k by (simp add: j l)
qed

end
