(* ===== verification/MexpGhost.thy ===== *)
theory MexpGhost
  imports RawPixels
begin

unbundle bit_operations_syntax

text \<open>
  The ghost of a sequence (\<open>core/mexp_ghost.c\<close>): the composite so far, sampled down to half the
  screen and painted as a checkerboard between the exposures. The screen belongs to the platform,
  so painting is the list of the calls of \<open>draw_pixel\<close> in order, and the palette an argument.
  The C ints are \<open>nat\<close>: a product of a tile index and the size of an area is far below \<open>2^31\<close>.
\<close>

section \<open>State and areas\<close>

record ghost_t =
  gh_tile :: "u8 list option"
  gh_w :: nat
  gh_h :: nat
  gh_dirty :: bool
  gh_painted :: bool
  gh_slice :: nat

text \<open>\<open>GH_X1\<close> to \<open>GH_Y2\<close>: the active area of the sensor where the body names one, else the sensor.\<close>

record ghost_area =
  ga_x1 :: nat
  ga_y1 :: nat
  ga_x2 :: nat
  ga_y2 :: nat

text \<open>The size of the bitmap screen, which does not change.\<close>

record screen_t =
  sc_width :: nat
  sc_height :: nat

definition ghost_free :: "ghost_t \<Rightarrow> ghost_t" where
  "ghost_free st = st\<lparr>gh_tile := None, gh_dirty := False\<rparr>"

text \<open>With whether the screen is to be restored.\<close>

definition mexp_ghost_clear :: "ghost_t \<Rightarrow> ghost_t \<times> bool" where
  "mexp_ghost_clear st = (let st = ghost_free st in
     if gh_painted st then (st\<lparr>gh_painted := False\<rparr>, True) else (st, False))"

definition mexp_ghost_have :: "ghost_t \<Rightarrow> bool" where
  "mexp_ghost_have st \<longleftrightarrow> gh_tile st \<noteq> None"

section \<open>Sampling\<close>

text \<open>\<open>(unsigned int)(a + (t * d) / n) & ~1u\<close>.\<close>

definition sample_at :: "nat \<Rightarrow> nat \<Rightarrow> nat \<Rightarrow> nat \<Rightarrow> nat" where
  "sample_at a d n t = (a + t * d div n) div 2 * 2"

definition ghost_px :: "sensor_t \<Rightarrow> u8 list \<Rightarrow> nat \<Rightarrow> nat \<Rightarrow> u8 option" where
  "ghost_px sn fb rx ry = do {
     a \<leftarrow> get_raw_pixel sn fb rx ry;
     b \<leftarrow> get_raw_pixel sn fb (rx + 1) ry;
     c \<leftarrow> get_raw_pixel sn fb rx (ry + 1);
     d \<leftarrow> get_raw_pixel sn fb (rx + 1) (ry + 1);
     let v = (ucast a + ucast b + ucast c + ucast d :: u32);
     Some (word_of_int (mexp_ghost_level (drop_bit 2 v) (sn_black sn) (sn_white sn)))
   }"

definition ghost_row :: "sensor_t \<Rightarrow> ghost_area \<Rightarrow> u8 list \<Rightarrow> nat \<Rightarrow> nat \<Rightarrow> nat \<Rightarrow> u8 list \<Rightarrow> u8 list option" where
  "ghost_row sn ga fb gw gh ty = for_range 0 gw (\<lambda>tx tile. do {
     v \<leftarrow> ghost_px sn fb (sample_at (ga_x1 ga) (ga_x2 ga - ga_x1 ga) gw tx) (sample_at (ga_y1 ga) (ga_y2 ga - ga_y1 ga) gh ty);
     wr tile (ty * gw + tx) v
   })"

definition ghost_sample :: "sensor_t \<Rightarrow> ghost_area \<Rightarrow> u8 list \<Rightarrow> nat \<Rightarrow> nat \<Rightarrow> u8 list \<Rightarrow> u8 list option" where
  "ghost_sample sn ga fb gw gh = for_range 0 gh (ghost_row sn ga fb gw gh)"

definition mexp_ghost_capture ::
  "(nat \<Rightarrow> u8 list option) \<Rightarrow> sensor_t \<Rightarrow> ghost_area \<Rightarrow> screen_t \<Rightarrow> bool \<Rightarrow> u8 list \<Rightarrow> ghost_t \<Rightarrow> (ghost_t \<times> bool) option" where
  "mexp_ghost_capture malloc sn ga sc mexp_ghost fb st =
     (if \<not> mexp_ghost then Some (mexp_ghost_clear st)
      else let gw = sc_width sc div 2; gh = sc_height sc div 2; st = st\<lparr>gh_w := gw, gh_h := gh\<rparr> in
      if gw = 0 \<or> gh = 0 \<or> ga_x2 ga \<le> ga_x1 ga + 1 \<or> ga_y2 ga \<le> ga_y1 ga + 1 then Some (st, False)
      else case (case gh_tile st of None \<Rightarrow> malloc (gw * gh) | t \<Rightarrow> t) of
        None \<Rightarrow> Some (st, False)
      | Some tile \<Rightarrow> do {
          tile \<leftarrow> ghost_sample sn ga fb gw gh tile;
          Some (st\<lparr>gh_tile := Some tile, gh_dirty := True\<rparr>, False)
        })"

section \<open>Painting\<close>

abbreviation (input) MEXP_GHOST_SLICES :: nat where "MEXP_GHOST_SLICES \<equiv> 4"

text \<open>The two calls for one pixel of the tile.\<close>

definition paint_px :: "'c list \<Rightarrow> u8 list \<Rightarrow> nat \<Rightarrow> nat \<Rightarrow> nat \<Rightarrow> (nat \<times> nat \<times> 'c) list option" where
  "paint_px grey tile gw ty tx = do {
     l \<leftarrow> rd tile (ty * gw + tx);
     cl \<leftarrow> rd grey (unat l);
     let sy = ty * 2;
     let phase = ty mod 2;
     let sx = tx * 2;
     Some [(sx + phase, sy, cl), (sx + 1 - phase, sy + 1, cl)]
   }"

fun paint_row :: "'c list \<Rightarrow> u8 list \<Rightarrow> nat \<Rightarrow> nat \<Rightarrow> nat list \<Rightarrow> (nat \<times> nat \<times> 'c) list option" where
  "paint_row grey tile gw ty [] = Some []"
| "paint_row grey tile gw ty (tx # txs) = do {
     p \<leftarrow> paint_px grey tile gw ty tx;
     ps \<leftarrow> paint_row grey tile gw ty txs;
     Some (p @ ps)
   }"

fun paint_rows :: "'c list \<Rightarrow> u8 list \<Rightarrow> nat \<Rightarrow> nat list \<Rightarrow> (nat \<times> nat \<times> 'c) list option" where
  "paint_rows grey tile gw [] = Some []"
| "paint_rows grey tile gw (ty # tys) = do {
     p \<leftarrow> paint_row grey tile gw ty [0..<gw];
     ps \<leftarrow> paint_rows grey tile gw tys;
     Some (p @ ps)
   }"

text \<open>The rows of one pass, with the slice of the next; \<open>None\<close> when the slice lies below the tile.\<close>

definition ghost_slice :: "bool \<Rightarrow> ghost_t \<Rightarrow> (nat \<times> nat) option \<times> nat" where
  "ghost_slice force st =
     (if force \<or> gh_dirty st then (Some (0, gh_h st), 0)
      else let h = (gh_h st + MEXP_GHOST_SLICES - 1) div MEXP_GHOST_SLICES;
               y0 = gh_slice st * h; y1 = min (y0 + h) (gh_h st) in
        (if gh_h st \<le> y0 then None else Some (y0, y1), (gh_slice st + 1) mod MEXP_GHOST_SLICES))"

definition mexp_ghost_draw :: "'c list \<Rightarrow> bool \<Rightarrow> mexp_t \<Rightarrow> ghost_t \<Rightarrow> (ghost_t \<times> (nat \<times> nat \<times> 'c) list) option" where
  "mexp_ghost_draw grey force mx st =
     (case gh_tile st of
        None \<Rightarrow> Some (st, [])
      | Some tile \<Rightarrow>
          if \<not> mexp_in_progress mx then Some (st, [])
          else (case ghost_slice force st of
              (None, next) \<Rightarrow> Some (st\<lparr>gh_slice := next\<rparr>, [])
            | (Some (y0, y1), next) \<Rightarrow> do {
                ps \<leftarrow> paint_rows grey tile (gh_w st) [y0..<y1];
                Some (st\<lparr>gh_slice := next, gh_dirty := False, gh_painted := True\<rparr>, ps)
              }))"

section \<open>What must hold\<close>

text \<open>
  An area of whole quads inside the sensor; a tile of the size of half the screen whose entries
  are levels.
\<close>

definition area_ok :: "sensor_t \<Rightarrow> ghost_area \<Rightarrow> bool" where
  "area_ok sn ga \<longleftrightarrow> ga_x2 ga \<le> sn_rowpix sn \<and> ga_y2 ga \<le> sn_rows sn \<and> even (ga_x2 ga) \<and> even (ga_y2 ga)"

definition ghost_ok :: "screen_t \<Rightarrow> ghost_t \<Rightarrow> bool" where
  "ghost_ok sc st \<longleftrightarrow> (\<forall>tile. gh_tile st = Some tile \<longrightarrow>
     gh_w st = sc_width sc div 2 \<and> gh_h st = sc_height sc div 2 \<and> length tile = gh_w st * gh_h st \<and> (\<forall>l\<in>set tile. l < 5))
   \<and> gh_slice st < MEXP_GHOST_SLICES"

lemma ghost_okD:
  assumes "ghost_ok sc st" "gh_tile st = Some tile"
  shows "gh_w st = sc_width sc div 2" "gh_h st = sc_height sc div 2" "length tile = gh_w st * gh_h st" "\<forall>l\<in>set tile. l < 5"
  using assms unfolding ghost_ok_def by blast+

lemma sample_inside:
  assumes "t < n" "a + 1 < b" "even b"
  shows "sample_at a (b - a) n t + 1 < b"
proof -
  have "t * (b - a) < n * (b - a)" using assms(1,2) by (intro mult_strict_right_mono) simp_all
  then have "t * (b - a) div n < b - a" using assms(1) by (simp add: less_mult_imp_div_less mult.commute)
  then have "a + t * (b - a) div n < b" using assms(2) by linarith
  moreover have "k < b \<Longrightarrow> k div 2 * 2 + 1 < b" for k using assms(3) by presburger
  ultimately show ?thesis unfolding sample_at_def by blast
qed

lemma ghost_level_range: "0 \<le> mexp_ghost_level v b w \<and> mexp_ghost_level v b w < 5"
proof (cases "find (\<lambda>i. ((v - b) * 1000) div (w - b) < ghost_bound ! nat i) [0..3]")
  case None
  then show ?thesis by (simp add: mexp_ghost_level_def Let_def)
next
  case (Some i)
  then have "i \<in> set [0..3]" by (metis find_Some_iff nth_mem)
  then show ?thesis using Some by (simp add: mexp_ghost_level_def Let_def)
qed

lemma get_raw_pixel_inside:
  assumes "sensor_ok sn" "in_frame sn fb (y, x)"
  obtains v where "get_raw_pixel sn fb x y = Some v"
  using get_raw_pixel_group[OF sensor_depth[OF assms(1)] group_in_frame[OF assms]] that by blast

text \<open>The level of a block: that of the mean of its four pixels.\<close>

definition quad_level :: "sensor_t \<Rightarrow> u8 list \<Rightarrow> nat \<Rightarrow> nat \<Rightarrow> u8" where
  "quad_level sn fb rx ry = (let px = (\<lambda>x y. ucast (the (get_raw_pixel sn fb x y)) :: u32) in
     word_of_int (mexp_ghost_level (drop_bit 2 (px rx ry + px (rx + 1) ry + px rx (ry + 1) + px (rx + 1) (ry + 1))) (sn_black sn) (sn_white sn)))"

lemma quad_level_less: "quad_level sn fb rx ry < 5"
proof -
  have "word_of_int i < (5 :: u8)" if "0 \<le> i \<and> i < 5" for i
  proof -
    have "i = 0 \<or> i = 1 \<or> i = 2 \<or> i = 3 \<or> i = 4" using that by auto
    then show ?thesis by auto
  qed
  then show ?thesis unfolding quad_level_def Let_def using ghost_level_range by blast
qed

lemma ghost_px_quad:
  assumes "sensor_ok sn" "in_frame sn fb (ry + 1, rx + 1)"
  shows "ghost_px sn fb rx ry = Some (quad_level sn fb rx ry)"
proof -
  have f: "in_frame sn fb (ry, rx)" "in_frame sn fb (ry, rx + 1)" "in_frame sn fb (ry + 1, rx)" "in_frame sn fb (ry + 1, rx + 1)"
    using assms(2) by (auto simp: in_frame_def)
  obtain a b c d where "get_raw_pixel sn fb rx ry = Some a" "get_raw_pixel sn fb (rx + 1) ry = Some b"
      "get_raw_pixel sn fb rx (ry + 1) = Some c" "get_raw_pixel sn fb (rx + 1) (ry + 1) = Some d"
    using get_raw_pixel_inside[OF assms(1)] f by metis
  then show ?thesis by (simp add: ghost_px_def quad_level_def Let_def)
qed

text \<open>What a whole capture leaves in the tile.\<close>

definition tile_of :: "sensor_t \<Rightarrow> ghost_area \<Rightarrow> u8 list \<Rightarrow> nat \<Rightarrow> nat \<Rightarrow> nat \<Rightarrow> u8" where
  "tile_of sn ga fb gw gh k = quad_level sn fb (sample_at (ga_x1 ga) (ga_x2 ga - ga_x1 ga) gw (k mod gw))
     (sample_at (ga_y1 ga) (ga_y2 ga - ga_y1 ga) gh (k div gw))"

text \<open>The two loops of the capture, with what has been written so far as their invariant.\<close>

definition filled :: "(nat \<Rightarrow> u8) \<Rightarrow> nat \<Rightarrow> nat \<Rightarrow> u8 list \<Rightarrow> bool" where
  "filled g n k xs \<longleftrightarrow> length xs = n \<and> (\<forall>i<k. xs ! i = g i)"

lemma filled_write: "\<lbrakk>filled g n k xs; k < n\<rbrakk> \<Longrightarrow> ok (wr xs k (g k)) (filled g n (Suc k))"
  by (auto simp: ok_simps filled_def nth_list_update less_Suc_eq)

lemma ghost_row_fills:
  assumes "sensor_ok sn" "area_ok sn ga" "length fb = sn_rows sn * sn_rowlen sn" "ga_x1 ga + 1 < ga_x2 ga" "ga_y1 ga + 1 < ga_y2 ga"
    and "ty < gh" "filled (tile_of sn ga fb gw gh) (gw * gh) (ty * gw) tile"
  shows "ok (ghost_row sn ga fb gw gh ty tile) (filled (tile_of sn ga fb gw gh) (gw * gh) (Suc ty * gw))"
  unfolding ghost_row_def
proof (rule for_range_post[where I = "\<lambda>tx. filled (tile_of sn ga fb gw gh) (gw * gh) (ty * gw + tx)"])
  fix tx xs assume tx: "0 \<le> tx" "tx < gw" and I: "filled (tile_of sn ga fb gw gh) (gw * gh) (ty * gw + tx) xs"
  let ?rx = "sample_at (ga_x1 ga) (ga_x2 ga - ga_x1 ga) gw tx" and ?ry = "sample_at (ga_y1 ga) (ga_y2 ga - ga_y1 ga) gh ty"
  have "?rx + 1 < ga_x2 ga" "?ry + 1 < ga_y2 ga"
    using sample_inside[OF tx(2) assms(4)] sample_inside[OF assms(6,5)] assms(2) by (simp_all add: area_ok_def)
  then have "in_frame sn fb (?ry + 1, ?rx + 1)" using assms(2,3) by (simp add: in_frame_def area_ok_def)
  then have "ghost_px sn fb ?rx ?ry = Some (quad_level sn fb ?rx ?ry)" by (rule ghost_px_quad[OF assms(1)])
  moreover have "quad_level sn fb ?rx ?ry = tile_of sn ga fb gw gh (ty * gw + tx)"
    using tx(2) by (simp add: tile_of_def div_mult_self3)
  moreover have "ty * gw + tx < gw * gh"
    using tx(2) row_end[OF assms(6), of gw] by (simp add: mult.commute)
  ultimately show "ok (ghost_px sn fb ?rx ?ry \<bind> wr xs (ty * gw + tx)) (filled (tile_of sn ga fb gw gh) (gw * gh) (ty * gw + Suc tx))"
    using filled_write[OF I] by simp
qed (use assms(7) in \<open>simp_all add: add.commute\<close>)

lemma ghost_sample_fills:
  assumes "sensor_ok sn" "area_ok sn ga" "length fb = sn_rows sn * sn_rowlen sn" "ga_x1 ga + 1 < ga_x2 ga" "ga_y1 ga + 1 < ga_y2 ga"
    and "length tile = gw * gh"
  shows "ghost_sample sn ga fb gw gh tile = Some (map (tile_of sn ga fb gw gh) [0..<gw * gh])"
proof -
  have "ok (ghost_sample sn ga fb gw gh tile) (filled (tile_of sn ga fb gw gh) (gw * gh) (gh * gw))"
    unfolding ghost_sample_def
    by (rule for_range_post[where I = "\<lambda>ty. filled (tile_of sn ga fb gw gh) (gw * gh) (ty * gw)"])
      (use assms ghost_row_fills in \<open>simp_all add: filled_def\<close>)
  then obtain xs where "ghost_sample sn ga fb gw gh tile = Some xs" "filled (tile_of sn ga fb gw gh) (gw * gh) (gh * gw) xs"
    by (auto simp: ok_def)
  moreover from this(2) have "xs = map (tile_of sn ga fb gw gh) [0..<gw * gh]"
    by (intro nth_equalityI) (simp_all add: filled_def mult.commute)
  ultimately show ?thesis by simp
qed

section \<open>Capturing\<close>

lemma mexp_ghost_capture_spec:
  assumes "sensor_ok sn" "area_ok sn ga" "length fb = sn_rows sn * sn_rowlen sn" "ghost_ok sc st"
    and "\<forall>n b. malloc n = Some b \<longrightarrow> length b = n"
  shows "\<exists>st' restore. mexp_ghost_capture malloc sn ga sc mexp_ghost fb st = Some (st', restore) \<and> ghost_ok sc st' \<and>
    (mexp_ghost \<and> 2 \<le> sc_width sc \<and> 2 \<le> sc_height sc \<and> ga_x1 ga + 1 < ga_x2 ga \<and> ga_y1 ga + 1 < ga_y2 ga \<and>
      (gh_tile st \<noteq> None \<or> malloc (sc_width sc div 2 * (sc_height sc div 2)) \<noteq> None) \<longrightarrow> gh_dirty st' \<and>
      gh_tile st' = Some (map (tile_of sn ga fb (sc_width sc div 2) (sc_height sc div 2)) [0..<sc_width sc div 2 * (sc_height sc div 2)]))"
proof (cases "mexp_ghost")
  case False
  then show ?thesis using assms(4)
    by (auto simp: mexp_ghost_capture_def mexp_ghost_clear_def ghost_free_def ghost_ok_def Let_def)
next
  case on: True
  let ?gw = "sc_width sc div 2" and ?gh = "sc_height sc div 2"
  let ?st = "st\<lparr>gh_w := ?gw, gh_h := ?gh\<rparr>"
  have ok: "ghost_ok sc ?st" using assms(4) by (simp add: ghost_ok_def)
  show ?thesis
  proof (cases "?gw = 0 \<or> ?gh = 0 \<or> ga_x2 ga \<le> ga_x1 ga + 1 \<or> ga_y2 ga \<le> ga_y1 ga + 1")
    case True
    then show ?thesis using on ok by (auto simp: mexp_ghost_capture_def Let_def)
  next
    case big: False
    define t where "t = (case gh_tile st of None \<Rightarrow> malloc (?gw * ?gh) | t \<Rightarrow> t)"
    show ?thesis
    proof (cases t)
      case None
      then have "gh_tile st = None" "malloc (?gw * ?gh) = None" by (auto simp: t_def split: option.splits)
      then show ?thesis using on ok big
        by (intro exI[of _ ?st] exI[of _ False]) (simp add: mexp_ghost_capture_def Let_def)
    next
      case (Some tile)
      have "length tile = ?gw * ?gh"
        using Some assms(4,5) by (auto simp: t_def ghost_ok_def split: option.splits)
      then have s: "ghost_sample sn ga fb ?gw ?gh tile = Some (map (tile_of sn ga fb ?gw ?gh) [0..<?gw * ?gh])"
        using big by (intro ghost_sample_fills[OF assms(1-3)]) simp_all
      have "\<forall>l\<in>set (map (tile_of sn ga fb ?gw ?gh) [0..<?gw * ?gh]). l < 5"
        using quad_level_less by (auto simp: tile_of_def)
      then show ?thesis using on big Some s assms(4)
        by (auto simp: mexp_ghost_capture_def Let_def t_def[symmetric] ghost_ok_def)
    qed
  qed
qed

section \<open>The checkerboard\<close>

text \<open>The pixels of the screen a pass over rows \<open>y0\<close> to \<open>y1\<close> of the tile sets, with their colours.\<close>

definition checker :: "'c list \<Rightarrow> u8 list \<Rightarrow> nat \<Rightarrow> nat \<Rightarrow> nat \<Rightarrow> (nat \<times> nat \<times> 'c) set" where
  "checker grey tile gw y0 y1 = {(X, Y, c). X < 2 * gw \<and> y0 \<le> Y div 2 \<and> Y div 2 < y1 \<and>
     even (X + Y + Y div 2) \<and> c = grey ! unat (tile ! (Y div 2 * gw + X div 2))}"

text \<open>In each block of two by two the two pixels of the diagonal that the row's phase picks.\<close>

lemma halves: "r < 2 \<Longrightarrow> X = x * 2 + r \<longleftrightarrow> X div 2 = x \<and> X mod 2 = r" for X x r :: nat
  by (metis div_mult_mod_eq div_mult_self3 mod_mult_self3 add.right_neutral add.commute div_less mod_less zero_neq_numeral)

lemma parity_of_cell: "even (X + Y + Y div 2) \<longleftrightarrow> X mod 2 = (if Y mod 2 = 0 then Y div 2 mod 2 else 1 - Y div 2 mod 2)" for X Y :: nat
  by (cases "even X"; cases "even Y"; cases "even (Y div 2)") (simp_all add: mod_2_eq_odd)

lemma block_diagonal:
  fixes X Y x y :: nat
  shows "X div 2 = x \<and> Y div 2 = y \<and> even (X + Y + Y div 2) \<longleftrightarrow>
    X = x * 2 + y mod 2 \<and> Y = y * 2 \<or> X = x * 2 + (1 - y mod 2) \<and> Y = y * 2 + 1"
proof -
  have "Y = y * 2 \<longleftrightarrow> Y div 2 = y \<and> Y mod 2 = 0" using halves[of 0 Y y] by simp
  moreover have "Y mod 2 = 1 \<longleftrightarrow> Y mod 2 \<noteq> 0" by simp
  moreover have "X = x * 2 + y mod 2 \<longleftrightarrow> X div 2 = x \<and> X mod 2 = y mod 2" by (rule halves) simp
  moreover have "X = x * 2 + (1 - y mod 2) \<longleftrightarrow> X div 2 = x \<and> X mod 2 = 1 - y mod 2" by (rule halves) simp
  moreover have "Y = y * 2 + 1 \<longleftrightarrow> Y div 2 = y \<and> Y mod 2 = 1" by (rule halves) simp
  ultimately show ?thesis unfolding parity_of_cell by metis
qed

text \<open>The calls of a pass: each cell once, and a cell exactly when it is on the checkerboard of rows \<open>R\<close>.\<close>

definition cells :: "'c list \<Rightarrow> u8 list \<Rightarrow> nat \<Rightarrow> (nat \<Rightarrow> nat \<Rightarrow> bool) \<Rightarrow> (nat \<times> nat \<times> 'c) list \<Rightarrow> bool" where
  "cells grey tile gw R ps \<longleftrightarrow> distinct ps \<and>
     (\<forall>X Y c. (X, Y, c) \<in> set ps \<longleftrightarrow> R (X div 2) (Y div 2) \<and> even (X + Y + Y div 2) \<and> c = grey ! unat (tile ! (Y div 2 * gw + X div 2)))"

lemma cells_append:
  assumes "cells grey tile gw R ps" "cells grey tile gw S qs" "\<And>x y. R x y \<Longrightarrow> \<not> S x y"
  shows "cells grey tile gw (\<lambda>x y. R x y \<or> S x y) (ps @ qs)"
proof -
  have "set ps \<inter> set qs = {}" using assms by (auto simp: cells_def)
  then show ?thesis using assms(1,2) by (auto simp: cells_def)
qed

lemma cells_cong: "\<lbrakk>cells grey tile gw R ps; \<And>x y. R x y \<longleftrightarrow> S x y\<rbrakk> \<Longrightarrow> cells grey tile gw S ps"
  by (simp add: cells_def)

lemma paint_px_cells:
  assumes "ty * gw + tx < length tile" "\<forall>l\<in>set tile. l < 5" "length grey = 5"
  obtains ps where "paint_px grey tile gw ty tx = Some ps" "cells grey tile gw (\<lambda>x y. x = tx \<and> y = ty) ps"
proof -
  define cl where "cl = grey ! unat (tile ! (ty * gw + tx))"
  define ps where "ps = [(tx * 2 + ty mod 2, ty * 2, cl), (tx * 2 + (1 - ty mod 2), ty * 2 + 1, cl)]"
  have one: "tx * 2 + 1 - ty mod 2 = tx * 2 + (1 - ty mod 2)" using mod_less_divisor[of 2 ty] by linarith
  have "tile ! (ty * gw + tx) < 5" using assms(1,2) by simp
  then have "unat (tile ! (ty * gw + tx)) < length grey" using assms(3) by (simp add: word_less_nat_alt)
  then have p: "paint_px grey tile gw ty tx = Some ps"
    using assms(1) unfolding paint_px_def one Let_def by (simp add: rd_def ps_def cl_def)
  have "(X, Y, c) \<in> set ps \<longleftrightarrow> (X div 2 = tx \<and> Y div 2 = ty \<and> even (X + Y + Y div 2)) \<and> c = cl" for X Y c
    unfolding block_diagonal by (auto simp: ps_def)
  then have "cells grey tile gw (\<lambda>x y. x = tx \<and> y = ty) ps" by (auto simp: cells_def cl_def) (simp add: ps_def)
  then show thesis using that p by blast
qed

lemma paint_row_cells:
  assumes "\<forall>tx\<in>set txs. tx < gw" "(ty + 1) * gw \<le> length tile" "\<forall>l\<in>set tile. l < 5" "length grey = 5" "distinct txs"
  shows "\<exists>ps. paint_row grey tile gw ty txs = Some ps \<and> cells grey tile gw (\<lambda>x y. x \<in> set txs \<and> y = ty) ps"
  using assms(1,5)
proof (induction txs)
  case Nil
  then show ?case by (simp add: cells_def)
next
  case (Cons tx txs)
  have "ty * gw + tx < length tile" using Cons.prems(1) assms(2) by simp
  then obtain p where p: "paint_px grey tile gw ty tx = Some p" "cells grey tile gw (\<lambda>x y. x = tx \<and> y = ty) p"
    using paint_px_cells assms(3,4) by blast
  obtain ps where ps: "paint_row grey tile gw ty txs = Some ps" "cells grey tile gw (\<lambda>x y. x \<in> set txs \<and> y = ty) ps"
    using Cons.IH Cons.prems by auto
  have "cells grey tile gw (\<lambda>x y. x = tx \<and> y = ty \<or> x \<in> set txs \<and> y = ty) (p @ ps)"
    using cells_append[OF p(2) ps(2)] Cons.prems(2) by auto
  then have "cells grey tile gw (\<lambda>x y. x \<in> set (tx # txs) \<and> y = ty) (p @ ps)" by (rule cells_cong) auto
  then show ?case using p(1) ps(1) by simp
qed

lemma paint_rows_cells:
  assumes "\<forall>ty\<in>set tys. (ty + 1) * gw \<le> length tile" "\<forall>l\<in>set tile. l < 5" "length grey = 5" "distinct tys"
  shows "\<exists>ps. paint_rows grey tile gw tys = Some ps \<and> cells grey tile gw (\<lambda>x y. x < gw \<and> y \<in> set tys) ps"
  using assms(1,4)
proof (induction tys)
  case Nil
  then show ?case by (simp add: cells_def)
next
  case (Cons ty tys)
  have "(ty + 1) * gw \<le> length tile" using Cons.prems(1) by simp
  then obtain p where p: "paint_row grey tile gw ty [0..<gw] = Some p" "cells grey tile gw (\<lambda>x y. x < gw \<and> y = ty) p"
    using paint_row_cells[of "[0..<gw]" gw ty tile grey] assms(2,3) by auto
  obtain ps where ps: "paint_rows grey tile gw tys = Some ps" "cells grey tile gw (\<lambda>x y. x < gw \<and> y \<in> set tys) ps"
    using Cons.IH Cons.prems by auto
  have "cells grey tile gw (\<lambda>x y. x < gw \<and> y = ty \<or> x < gw \<and> y \<in> set tys) (p @ ps)"
    using cells_append[OF p(2) ps(2)] Cons.prems(2) by auto
  then have "cells grey tile gw (\<lambda>x y. x < gw \<and> y \<in> set (ty # tys)) (p @ ps)" by (rule cells_cong) auto
  then show ?case using p(1) ps(1) by simp
qed

lemma rows_inside:
  assumes "y1 \<le> gh" "length tile = gw * gh"
  shows "\<forall>ty\<in>set [y0..<y1]. (ty + 1) * gw \<le> length tile"
proof
  fix ty assume "ty \<in> set [y0..<y1]"
  then have "ty + 1 \<le> gh" using assms(1) by simp
  then show "(ty + 1) * gw \<le> length tile" unfolding assms(2) mult.commute[of gw gh] by (rule mult_le_mono1)
qed

lemma paint_rows_checker:
  assumes "y1 \<le> gh" "length tile = gw * gh" "\<forall>l\<in>set tile. l < 5" "length grey = 5"
  shows "\<exists>ps. paint_rows grey tile gw [y0..<y1] = Some ps \<and> distinct ps \<and> set ps = checker grey tile gw y0 y1"
proof -
  obtain ps where ps: "paint_rows grey tile gw [y0..<y1] = Some ps" "cells grey tile gw (\<lambda>x y. x < gw \<and> y \<in> set [y0..<y1]) ps"
    using paint_rows_cells[OF rows_inside[OF assms(1,2)] assms(3,4)] by auto
  have "X div 2 < gw \<longleftrightarrow> X < 2 * gw" for X by auto
  then have "set ps = checker grey tile gw y0 y1" using ps(2) by (auto simp: cells_def checker_def)
  then show ?thesis using ps by (simp add: cells_def)
qed

text \<open>Of each block of two by two screen pixels exactly two are set, diagonally: half the screen.\<close>

lemma checker_inside:
  assumes "ghost_ok sc st" "gh_tile st = Some tile" "(X, Y, c) \<in> checker grey tile (gh_w st) y0 y1" "y1 \<le> gh_h st"
  shows "X < sc_width sc" "Y < sc_height sc"
  using assms by (auto simp: checker_def ghost_ok_def)

lemma checker_half:
  assumes "x < gw" "y0 \<le> y" "y < y1"
  shows "(X, Y, grey ! unat (tile ! (y * gw + x))) \<in> checker grey tile gw y0 y1 \<and> X div 2 = x \<and> Y div 2 = y \<longleftrightarrow>
    X = x * 2 + y mod 2 \<and> Y = y * 2 \<or> X = x * 2 + (1 - y mod 2) \<and> Y = y * 2 + 1"
proof -
  have "X div 2 = x \<Longrightarrow> X < 2 * gw" using assms(1) by auto
  then show ?thesis unfolding block_diagonal[symmetric] using assms(2,3) by (auto simp: checker_def)
qed

section \<open>Passes\<close>

text \<open>The rows of a pass are rows of the tile; four passes after each other have been through all of them.\<close>

lemma ghost_slice_rows:
  assumes "ghost_slice force st = (Some (y0, y1), n)"
  shows "y1 \<le> gh_h st" "n < MEXP_GHOST_SLICES"
  using assms by (auto simp: ghost_slice_def Let_def split: if_splits)

lemma mexp_ghost_draw_spec:
  assumes "ghost_ok sc st" "length grey = 5"
  obtains st' ps where "mexp_ghost_draw grey force mx st = Some (st', ps)" "ghost_ok sc st'" "distinct ps"
    "set ps = (case gh_tile st of Some tile \<Rightarrow> (if mexp_in_progress mx then
        (case fst (ghost_slice force st) of Some (y0, y1) \<Rightarrow> checker grey tile (gh_w st) y0 y1 | None \<Rightarrow> {}) else {}) | None \<Rightarrow> {})"
proof (cases "gh_tile st")
  case None
  then show thesis using that[of st "[]"] assms(1) by (simp add: mexp_ghost_draw_def)
next
  case (Some tile)
  then have t: "length tile = gh_w st * gh_h st" "\<forall>l\<in>set tile. l < 5" using assms(1) by (auto simp: ghost_ok_def)
  show thesis
  proof (cases "mexp_in_progress mx")
    case False
    then show thesis using that[of st "[]"] Some assms(1) by (simp add: mexp_ghost_draw_def)
  next
    case True
    obtain r n where sl: "ghost_slice force st = (r, n)" by fastforce
    have n: "n < 4" using sl by (auto simp: ghost_slice_def Let_def split: if_splits)
    show thesis
    proof (cases r)
      case None
      then show thesis using that[of "st\<lparr>gh_slice := n\<rparr>" "[]"] Some True sl n assms(1) by (simp add: mexp_ghost_draw_def ghost_ok_def)
    next
      case r: (Some yy)
      obtain y0 y1 where yy: "yy = (y0, y1)" by fastforce
      have "y1 \<le> gh_h st" using ghost_slice_rows(1) sl r yy by blast
      then obtain ps where ps: "paint_rows grey tile (gh_w st) [y0..<y1] = Some ps" "distinct ps" "set ps = checker grey tile (gh_w st) y0 y1"
        using paint_rows_checker[OF _ t assms(2)] by blast
      then show thesis
        using that[of "st\<lparr>gh_slice := n, gh_dirty := False, gh_painted := True\<rparr>" ps] Some True sl r yy n assms(1)
        by (simp add: mexp_ghost_draw_def ghost_ok_def)
    qed
  qed
qed

primrec ticks :: "nat \<Rightarrow> 'c list \<Rightarrow> mexp_t \<Rightarrow> ghost_t \<Rightarrow> (ghost_t \<times> (nat \<times> nat \<times> 'c) list) option" where
  "ticks 0 grey mx st = Some (st, [])"
| "ticks (Suc n) grey mx st = do {
     (st, ps) \<leftarrow> mexp_ghost_draw grey False mx st;
     (st, qs) \<leftarrow> ticks n grey mx st;
     Some (st, ps @ qs)
   }"

text \<open>Slice \<open>k\<close> of four.\<close>

definition slice_rows :: "nat \<Rightarrow> nat \<Rightarrow> nat set" where
  "slice_rows gh k = (let h = (gh + 3) div 4 in {y. k * h \<le> y \<and> y < min (k * h + h) gh})"

lemma slices_cover: "(\<Union>k<4. slice_rows gh k) = {..<gh}"
proof
  show "(\<Union>k<4. slice_rows gh k) \<subseteq> {..<gh}" by (auto simp: slice_rows_def Let_def)
  show "{..<gh} \<subseteq> (\<Union>k<4. slice_rows gh k)"
  proof
    fix y assume y: "y \<in> {..<gh}"
    define h where "h = (gh + 3) div 4"
    have h: "0 < h" "gh \<le> 4 * h" using y by (auto simp: h_def)
    have "y div h < 4" using y h by (simp add: less_mult_imp_div_less)
    moreover have "y \<in> slice_rows gh (y div h)"
      using y dividend_less_div_times[OF h(1), of y] by (simp add: slice_rows_def Let_def h_def[symmetric])
    ultimately show "y \<in> (\<Union>k<4. slice_rows gh k)" by blast
  qed
qed

lemma slice_rows_disjoint: "\<lbrakk>y \<in> slice_rows gh j; y \<in> slice_rows gh k\<rbrakk> \<Longrightarrow> j = k"
proof -
  have "k = y div ((gh + 3) div 4)" if "y \<in> slice_rows gh k" for k
    using that by (intro div_nat_eqI[symmetric]) (auto simp: slice_rows_def Let_def mult.commute)
  then show "\<lbrakk>y \<in> slice_rows gh j; y \<in> slice_rows gh k\<rbrakk> \<Longrightarrow> j = k" by metis
qed

lemma ghost_slice_tick:
  assumes "\<not> gh_dirty st"
  obtains (rows) y0 y1 where "ghost_slice False st = (Some (y0, y1), (gh_slice st + 1) mod MEXP_GHOST_SLICES)"
      "\<And>y. y \<in> slice_rows (gh_h st) (gh_slice st) \<longleftrightarrow> y0 \<le> y \<and> y < y1" "y1 \<le> gh_h st"
  | (below) "ghost_slice False st = (None, (gh_slice st + 1) mod MEXP_GHOST_SLICES)" "slice_rows (gh_h st) (gh_slice st) = {}"
proof (cases "gh_h st \<le> gh_slice st * ((gh_h st + MEXP_GHOST_SLICES - 1) div MEXP_GHOST_SLICES)")
  case True
  then have "slice_rows (gh_h st) (gh_slice st) = {}" by (simp add: slice_rows_def Let_def add.commute[of 3])
  then show thesis using assms True by (intro below) (simp_all add: ghost_slice_def Let_def)
next
  case False
  then show thesis using assms by (intro rows) (auto simp: ghost_slice_def slice_rows_def Let_def add.commute[of 3])
qed

lemma clean_state: "\<not> gh_dirty st \<Longrightarrow> st\<lparr>gh_slice := n, gh_dirty := False, gh_painted := p\<rparr> = st\<lparr>gh_slice := n, gh_painted := p\<rparr>"
  by (cases st) simp

lemma tick:
  assumes "ghost_ok sc st" "gh_tile st = Some tile" "\<not> gh_dirty st" "mexp_in_progress mx" "length grey = 5"
  obtains p ps where "mexp_ghost_draw grey False mx st = Some (st\<lparr>gh_slice := (gh_slice st + 1) mod 4, gh_painted := p\<rparr>, ps)"
    "cells grey tile (gh_w st) (\<lambda>x y. x < gh_w st \<and> y \<in> slice_rows (gh_h st) (gh_slice st)) ps"
  using assms(3)
proof (cases rule: ghost_slice_tick)
  case (rows y0 y1)
  note t = ghost_okD(3,4)[OF assms(1,2)]
  obtain ps where ps: "paint_rows grey tile (gh_w st) [y0..<y1] = Some ps" "cells grey tile (gh_w st) (\<lambda>x y. x < gh_w st \<and> y \<in> set [y0..<y1]) ps"
    using paint_rows_cells[OF rows_inside[OF rows(3) t(1)] t(2) assms(5)] by auto
  have "mexp_ghost_draw grey False mx st = Some (st\<lparr>gh_slice := (gh_slice st + 1) mod 4, gh_painted := True\<rparr>, ps)"
    using assms(2,4) rows(1) ps(1) clean_state[OF assms(3)] by (simp add: mexp_ghost_draw_def)
  then show thesis using that cells_cong[OF ps(2)] rows(2) by simp
next
  case below
  have "mexp_ghost_draw grey False mx st = Some (st\<lparr>gh_slice := (gh_slice st + 1) mod 4, gh_painted := gh_painted st\<rparr>, [])"
    using assms(2,4) below(1) by (simp add: mexp_ghost_draw_def)
  then show thesis by (rule that) (simp add: below(2) cells_def)
qed

text \<open>From any slice on, each of up to four ticks paints the next slice, and no pixel twice.\<close>

lemma ticks_spec:
  assumes "ghost_ok sc st" "gh_tile st = Some tile" "\<not> gh_dirty st" "mexp_in_progress mx" "length grey = 5"
  shows "\<exists>p ps. ticks n grey mx st = Some (st\<lparr>gh_slice := (gh_slice st + n) mod 4, gh_painted := p\<rparr>, ps) \<and>
    (n \<le> 4 \<longrightarrow> cells grey tile (gh_w st) (\<lambda>x y. x < gh_w st \<and> (\<exists>i<n. y \<in> slice_rows (gh_h st) ((gh_slice st + i) mod 4))) ps)"
  using assms
proof (induction n arbitrary: st)
  case 0
  have "st = st\<lparr>gh_slice := gh_slice st mod 4, gh_painted := gh_painted st\<rparr>" using 0(1) by (cases st) (simp add: ghost_ok_def)
  then show ?case by (intro exI[of _ "gh_painted st"] exI[of _ "[]"]) (simp add: cells_def)
next
  case (Suc n)
  let ?w = "gh_w st" and ?h = "gh_h st" and ?k = "gh_slice st"
  obtain p ps where t: "mexp_ghost_draw grey False mx st = Some (st\<lparr>gh_slice := (?k + 1) mod 4, gh_painted := p\<rparr>, ps)"
    "cells grey tile ?w (\<lambda>x y. x < ?w \<and> y \<in> slice_rows ?h ?k) ps"
    using tick[OF Suc.prems] by blast
  define st1 where "st1 = st\<lparr>gh_slice := (?k + 1) mod 4, gh_painted := p\<rparr>"
  have st1: "ghost_ok sc st1" "gh_tile st1 = Some tile" "\<not> gh_dirty st1" "gh_w st1 = ?w" "gh_h st1 = ?h" "gh_slice st1 = (?k + 1) mod 4"
    using Suc.prems(1-3) by (simp_all add: st1_def ghost_ok_def)
  obtain p' qs where u: "ticks n grey mx st1 = Some (st1\<lparr>gh_slice := ((?k + 1) mod 4 + n) mod 4, gh_painted := p'\<rparr>, qs)"
    "n \<le> 4 \<longrightarrow> cells grey tile ?w (\<lambda>x y. x < ?w \<and> (\<exists>i<n. y \<in> slice_rows ?h (((?k + 1) mod 4 + i) mod 4))) qs"
    using Suc.IH[OF st1(1-3) Suc.prems(4,5)] unfolding st1(4-6) by blast
  have sh: "((?k + 1) mod 4 + i) mod 4 = (?k + Suc i) mod 4" for i by (simp add: mod_add_left_eq)
  have run: "ticks (Suc n) grey mx st = Some (st\<lparr>gh_slice := (?k + Suc n) mod 4, gh_painted := p'\<rparr>, ps @ qs)"
    using t(1) u(1) sh[of "n - 1"] unfolding st1_def[symmetric] by (simp add: st1_def mod_Suc_eq mod_add_left_eq)
  have "cells grey tile ?w (\<lambda>x y. x < ?w \<and> (\<exists>i<Suc n. y \<in> slice_rows ?h ((?k + i) mod 4))) (ps @ qs)" if "Suc n \<le> 4"
  proof -
    have k: "?k mod 4 = ?k" using Suc.prems(1) by (simp add: ghost_ok_def)
    have new: "(?k + Suc i) mod 4 \<noteq> ?k" if "i < n" for i
      using that \<open>Suc n \<le> 4\<close> Suc.prems(1) by (cases "?k + Suc i < 4") (simp_all add: ghost_ok_def le_mod_geq)
    have "cells grey tile ?w (\<lambda>x y. x < ?w \<and> (\<exists>i<n. y \<in> slice_rows ?h ((?k + Suc i) mod 4))) qs"
      using u(2) that unfolding sh by simp
    then have "cells grey tile ?w (\<lambda>x y. x < ?w \<and> y \<in> slice_rows ?h ?k \<or> x < ?w \<and> (\<exists>i<n. y \<in> slice_rows ?h ((?k + Suc i) mod 4))) (ps @ qs)"
      by (rule cells_append[OF t(2)]) (use slice_rows_disjoint new in blast)
    then show ?thesis by (rule cells_cong) (auto simp: less_Suc_eq_0_disj k)
  qed
  then show ?case using run by blast
qed

lemma turn_of_slices: "(\<exists>i<4. y \<in> slice_rows gh ((k + i) mod 4)) \<longleftrightarrow> y < gh"
proof -
  have "\<exists>i<4. (k + i) mod 4 = j" if "j < 4" for j :: nat
  proof (intro exI[of _ "(j + 3 * k) mod 4"] conjI)
    have "(k + (j + 3 * k) mod 4) mod 4 = (j + k * 4) mod 4" unfolding mod_add_right_eq by (rule arg_cong[where f = "\<lambda>n. n mod 4"]) simp
    then show "(k + (j + 3 * k) mod 4) mod 4 = j" using that by simp
  qed simp
  then have "(\<exists>i<4. y \<in> slice_rows gh ((k + i) mod 4)) \<longleftrightarrow> y \<in> (\<Union>k<4. slice_rows gh k)"
    by (metis UN_iff lessThan_iff mod_less_divisor zero_less_numeral)
  then show ?thesis unfolding slices_cover by simp
qed

text \<open>What the screen shows of an exposure: on the checkerboard the level of the block the cell stands for.\<close>

definition overlay :: "'c list \<Rightarrow> sensor_t \<Rightarrow> ghost_area \<Rightarrow> screen_t \<Rightarrow> u8 list \<Rightarrow> (nat \<times> nat \<times> 'c) set" where
  "overlay grey sn ga sc fb = (let gw = sc_width sc div 2; gh = sc_height sc div 2 in
     {(X, Y, c). X < 2 * gw \<and> Y < 2 * gh \<and> even (X + Y + Y div 2) \<and>
       c = grey ! unat (quad_level sn fb (sample_at (ga_x1 ga) (ga_x2 ga - ga_x1 ga) gw (X div 2))
         (sample_at (ga_y1 ga) (ga_y2 ga - ga_y1 ga) gh (Y div 2)))})"

lemma overlay_inside: "(X, Y, c) \<in> overlay grey sn ga sc fb \<Longrightarrow> X < sc_width sc \<and> Y < sc_height sc"
  by (auto simp: overlay_def Let_def)

lemma cells_overlay:
  assumes "cells grey (map (tile_of sn ga fb gw gh) [0..<gw * gh]) gw (\<lambda>x y. x < gw \<and> y < gh) ps"
    and "gw = sc_width sc div 2" "gh = sc_height sc div 2"
  shows "distinct ps \<and> set ps = overlay grey sn ga sc fb"
proof -
  have h: "X div 2 < n \<longleftrightarrow> X < 2 * n" for X n :: nat by auto
  have k: "y * gw + x < gw * gh" if "x < gw" "y < gh" for x y
    using that row_end[of y gh gw] by (simp add: mult.commute)
  have "map (tile_of sn ga fb gw gh) [0..<gw * gh] ! (y * gw + x) =
      quad_level sn fb (sample_at (ga_x1 ga) (ga_x2 ga - ga_x1 ga) gw x) (sample_at (ga_y1 ga) (ga_y2 ga - ga_y1 ga) gh y)"
    if "x < gw" "y < gh" for x y
    using k[OF that] that(1) by (simp add: tile_of_def div_mult_self3)
  then show ?thesis using assms(1) unfolding overlay_def Let_def assms(2,3)[symmetric] h[symmetric]
    by (auto simp: cells_def)
qed

lemma ghost_shown:
  assumes "sensor_ok sn" "area_ok sn ga" "length fb = sn_rows sn * sn_rowlen sn" "ghost_ok sc st"
    and "\<forall>n b. malloc n = Some b \<longrightarrow> length b = n"
    and "2 \<le> sc_width sc" "2 \<le> sc_height sc" "ga_x1 ga + 1 < ga_x2 ga" "ga_y1 ga + 1 < ga_y2 ga"
    and "gh_tile st \<noteq> None \<or> malloc (sc_width sc div 2 * (sc_height sc div 2)) \<noteq> None"
    and "mexp_in_progress mx" "length grey = 5"
  shows "\<exists>st0 r st1 ps. mexp_ghost_capture malloc sn ga sc True fb st = Some (st0, r) \<and>
    mexp_ghost_draw grey force mx st0 = Some (st1, ps) \<and> distinct ps \<and> set ps = overlay grey sn ga sc fb \<and>
    (\<forall>n. \<exists>st2 qs st3 rs. ticks n grey mx st1 = Some (st2, qs) \<and> ticks 4 grey mx st2 = Some (st3, rs) \<and>
      distinct rs \<and> set rs = overlay grey sn ga sc fb)"
proof -
  let ?w = "sc_width sc div 2" and ?h = "sc_height sc div 2"
  let ?tile = "map (tile_of sn ga fb ?w ?h) [0..<?w * ?h]"
  obtain st0 r where cap: "mexp_ghost_capture malloc sn ga sc True fb st = Some (st0, r)" "ghost_ok sc st0" "gh_dirty st0" "gh_tile st0 = Some ?tile"
    using mexp_ghost_capture_spec[OF assms(1-5), where mexp_ghost = True] assms(6-10) by blast
  have wh: "gh_w st0 = ?w" "gh_h st0 = ?h" and t: "length ?tile = ?w * ?h" "\<forall>l\<in>set ?tile. l < 5"
    using ghost_okD[OF cap(2,4)] by (blast, blast, simp, blast)
  have "\<forall>ty\<in>set [0..<?h]. (ty + 1) * ?w \<le> length ?tile" by (rule rows_inside[OF order_refl t(1)])
  then obtain ps where ps: "paint_rows grey ?tile ?w [0..<?h] = Some ps" "cells grey ?tile ?w (\<lambda>x y. x < ?w \<and> y \<in> set [0..<?h]) ps"
    using paint_rows_cells[OF _ t(2) assms(12) distinct_upt] by blast
  define st1 where "st1 = st0\<lparr>gh_slice := 0, gh_dirty := False, gh_painted := True\<rparr>"
  have draw: "mexp_ghost_draw grey force mx st0 = Some (st1, ps)"
    using cap(3,4) assms(11) ps(1) by (simp add: mexp_ghost_draw_def ghost_slice_def wh st1_def)
  have shown: "distinct ps \<and> set ps = overlay grey sn ga sc fb"
    using cells_overlay[OF cells_cong[OF ps(2)] refl refl] by simp
  have st1: "ghost_ok sc st1" "gh_tile st1 = Some ?tile" "\<not> gh_dirty st1" "gh_w st1 = ?w" "gh_h st1 = ?h"
    using cap(2,4) wh by (simp_all add: st1_def ghost_ok_def)
  have "\<exists>st2 qs st3 rs. ticks n grey mx st1 = Some (st2, qs) \<and> ticks 4 grey mx st2 = Some (st3, rs) \<and>
      distinct rs \<and> set rs = overlay grey sn ga sc fb" for n
  proof -
    obtain p qs where q: "ticks n grey mx st1 = Some (st1\<lparr>gh_slice := (gh_slice st1 + n) mod 4, gh_painted := p\<rparr>, qs)"
      using ticks_spec[OF st1(1-3) assms(11,12)] by blast
    define st2 where "st2 = st1\<lparr>gh_slice := (gh_slice st1 + n) mod 4, gh_painted := p\<rparr>"
    have st2: "ghost_ok sc st2" "gh_tile st2 = Some ?tile" "\<not> gh_dirty st2" "gh_w st2 = ?w" "gh_h st2 = ?h"
      using st1 by (simp_all add: st2_def ghost_ok_def)
    obtain st3 rs where rs: "ticks 4 grey mx st2 = Some (st3, rs)"
      "cells grey ?tile ?w (\<lambda>x y. x < ?w \<and> (\<exists>i<4. y \<in> slice_rows ?h ((gh_slice st2 + i) mod 4))) rs"
      using ticks_spec[OF st2(1-3) assms(11,12), of 4] unfolding st2(4,5) by blast
    then have "distinct rs \<and> set rs = overlay grey sn ga sc fb"
      using cells_overlay[OF _ refl refl] unfolding turn_of_slices by blast
    then show ?thesis using q rs(1) unfolding st2_def by blast
  qed
  then show ?thesis using cap(1) draw shown by blast
qed

end
