(* ===== verification/RawBend.thy ===== *)
theory RawBend
  imports RawPixels SegConf BendCompile
begin

text \<open>
  The capture path of the matrix (\<open>core/raw.c\<close>): \<open>bb_run\<close>, one pass per region over the rows of
  the frame, and \<open>raw_bitbend\<close>, the passes in order. The file's statics that live across calls are
  one record; the compiled matrix \<open>bb_cc\<close> is rebuilt by every pass before it is read. The overlay
  service is display work and is left out.
\<close>

section \<open>State\<close>

text \<open>The frame at \<open>rawadr\<close>, whether \<open>bb_lut\<close> is allocated, \<open>bb_frame\<close>, and the pattern statics of \<open>core/bend.c\<close>.\<close>

record raw_t =
  rw_fb :: "u8 list"
  rw_lut :: bool
  rw_frame :: u32
  rw_pat :: pat_state

definition bb_lut_ready :: "sensor_t \<Rightarrow> (u32 \<Rightarrow> u8 list option) \<Rightarrow> raw_t \<Rightarrow> bool \<times> raw_t" where
  "bb_lut_ready sn malloc st =
     (if rw_lut st then (True, st)
      else case malloc (push_bit (sn_bits sn) 1 * 2) of
        None \<Rightarrow> (False, st)
      | Some _ \<Rightarrow> (True, st\<lparr>rw_lut := True\<rparr>))"

section \<open>One pixel, one span, one row\<close>

definition bb_uses :: "bend_cc_t \<Rightarrow> nat \<Rightarrow> bool" where
  "bb_uses cc k \<longleftrightarrow> c_bus_used cc AND obit k \<noteq> 0"

text \<open>The tapped position, held to the frame.\<close>

definition tap_at :: "sensor_t \<Rightarrow> bend_t \<Rightarrow> nat \<Rightarrow> nat \<Rightarrow> nat \<times> nat" where
  "tap_at sn b x y =
     (let tx = int x + sint (b_tap_dx b); ty = int y + sint (b_tap_dy b);
          tx = (if tx < 0 then 0 else tx); ty = (if ty < 0 then 0 else ty);
          tx = (if int (sn_rowpix sn) \<le> tx then int (sn_rowpix sn) - 1 else tx);
          ty = (if int (sn_rows sn) \<le> ty then int (sn_rows sn) - 1 else ty)
      in (nat tx, nat ty))"

text \<open>The body of the loop over a span: the sources, the trash state and the frame.\<close>

type_synonym scan = "bend_src_t \<times> u32 \<times> u8 list"

definition bb_pixel :: "sensor_t \<Rightarrow> bend_cc_t \<Rightarrow> bend_t \<Rightarrow> nat \<Rightarrow> nat \<Rightarrow> scan \<Rightarrow> scan option" where
  "bb_pixel sn cc b y x = (\<lambda>(src, noise_state, fb).
     if b_bayer b \<noteq> 0 \<and> (push_bit 1 (y AND 1)) OR (x AND 1) \<noteq> unat (b_bayer b) - 1
     then Some (src, noise_state, fb)
     else do {
       v \<leftarrow> px_rd sn fb x y;
       let (noise_state, src) =
         (if bb_uses cc BUS_NOISE
          then let (s, n) = bend_trash_step b noise_state (word_of_nat x) in (s, src\<lparr>s_noise := n\<rparr>)
          else (noise_state, src));
       src \<leftarrow> (if bb_uses cc BUS_VHOLD
          then if 0 < y then map_option (\<lambda>u. src\<lparr>s_above := u\<rparr>) (px_rd sn fb x (y - 1))
               else Some (src\<lparr>s_above := 0\<rparr>)
          else Some src);
       src \<leftarrow> (if bb_uses cc BUS_TAP
          then let (tx, ty) = tap_at sn b x y in map_option (\<lambda>u. src\<lparr>s_tap := u\<rparr>) (px_rd sn fb tx ty)
          else Some src);
       fb \<leftarrow> set_raw_pixel sn fb x y (ucast (bend_eval cc v (int x) (int y) src));
       Some (src\<lparr>s_prev := v\<rparr>, noise_state, fb) })"

text \<open>\<open>x & ~(g - 1)\<close>\<close>

definition align_down :: "nat \<Rightarrow> nat \<Rightarrow> nat" where
  "align_down g x = unat ((word_of_nat x :: u32) AND NOT (word_of_nat (g - 1)))"

definition bb_span :: "sensor_t \<Rightarrow> bend_cc_t \<Rightarrow> bend_t \<Rightarrow> nat \<Rightarrow> nat \<Rightarrow> nat \<Rightarrow> scan \<Rightarrow> scan option" where
  "bb_span sn cc b y x0 x1 = (\<lambda>(src, noise_state, fb).
     if (sn_bits sn = 10 \<or> sn_bits sn = 12) \<and> c_is_pure cc \<and> b_bayer b = 0 then
       (let gp = (if sn_bits sn = 10 then 8 else 4); gb = (if sn_bits sn = 10 then 10 else 6);
            a0 = align_down gp (x0 + gp - 1); a1 = align_down gp x1;
            a0 = (if x1 < a0 then x1 else a0)
        in do {
          fb \<leftarrow> for_range x0 a0 (bb_lut_px sn (c_lut cc) y) fb;
          fb \<leftarrow> (if a0 < a1 then bb_row_fast (sn_bits sn) (c_lut cc) (y * sn_rowlen sn + a0 div gp * gb) (a1 - a0) fb
                else Some fb);
          fb \<leftarrow> for_range (if a0 < a1 then a1 else a0) x1 (bb_lut_px sn (c_lut cc) y) fb;
          Some (src, noise_state, fb) })
     else do {
       prev \<leftarrow> (if 0 < x0 then px_rd sn fb (x0 - 1) y else Some 0);
       for_range x0 x1 (bb_pixel sn cc b y) (src\<lparr>s_prev := prev\<rparr>, noise_state, fb) })"

text \<open>The loop over the spans of a row: those of the region are bent from where the one before ended.\<close>

definition bb_spans :: "sensor_t \<Rightarrow> bend_cc_t \<Rightarrow> bend_t \<Rightarrow> int \<Rightarrow> nat \<Rightarrow> spans \<Rightarrow> scan \<Rightarrow> scan option" where
  "bb_spans sn cc b seg y sp =
     for_range 0 (length sp) (\<lambda>i s.
       if fst (sp ! i) \<noteq> seg mod 256 then Some s
       else bb_span sn cc b y (nat (if 0 < i then snd (sp ! (i - 1)) else 0)) (nat (snd (sp ! i))) s)"

definition bb_row :: "sensor_t \<Rightarrow> bend_cc_t \<Rightarrow> bend_t \<Rightarrow> int \<Rightarrow> int \<Rightarrow> int \<Rightarrow> u32 \<Rightarrow> nat \<Rightarrow>
    pat_state \<times> u8 list \<Rightarrow> (pat_state \<times> u8 list) option" where
  "bb_row sn cc b layout sz seg frame y = (\<lambda>(pat, fb).
     if 1 < unat (b_row_period b) \<and> y mod unat (b_row_period b) \<noteq> 0 then Some (pat, fb)
     else let (pat, sp) = bend_seg_spans pat layout sz (int y) (int (sn_rowpix sn)) (int (sn_rows sn)) in
       if \<not> (\<exists>p\<in>set sp. fst p = seg) then Some (pat, fb)
       else do {
         ob \<leftarrow> (if bb_uses cc BUS_OB then px_rd sn fb (BB_OB_X sn) y else Some 0);
         let src = \<lparr>s_prev = 0, s_above = 0, s_ob = ob, s_tap = 0, s_noise = 0, s_frame = frame\<rparr>;
         (src, noise_state, fb) \<leftarrow> bb_spans sn cc b seg y sp (src, bend_trash_seed b (word_of_nat y) ob, fb);
         Some (pat, fb) })"

section \<open>One pass, and the passes of a shot\<close>

definition bb_run :: "sensor_t \<Rightarrow> (u32 \<Rightarrow> u8 list option) \<Rightarrow> int \<Rightarrow> bend_t \<Rightarrow> int \<Rightarrow> int \<Rightarrow> int \<Rightarrow> raw_t \<Rightarrow>
    (bend_t \<times> raw_t) option" where
  "bb_run sn malloc simple b layout sz seg st =
     (let (there, st) = bb_lut_ready sn malloc st in
      if \<not> there then Some (b, st)
      else let b = bend_sanitize b (sn_bits sn);
               b = (if simple \<noteq> 0 then fst (bend_simplify b) else b);
               cc = bend_compile b (sn_bits sn) in
        if c_is_identity cc then Some (b, st)
        else do {
          (pat, fb) \<leftarrow> for_range 0 (sn_rows sn) (bb_row sn cc b layout sz seg (rw_frame st)) (rw_pat st, rw_fb st);
          Some (b, st\<lparr>rw_pat := pat, rw_fb := fb\<rparr>) })"

text \<open>\<open>mallocs i\<close> is what the allocator answers during pass \<open>i\<close>, \<open>tick\<close> the tick count.\<close>

definition raw_bitbend :: "sensor_t \<Rightarrow> (nat \<Rightarrow> u32 \<Rightarrow> u8 list option) \<Rightarrow> u32 \<Rightarrow> conf_t \<times> raw_t \<Rightarrow>
    (conf_t \<times> raw_t) option" where
  "raw_bitbend sn mallocs tick = (\<lambda>(cf, st).
     if cf_bitbend_enable cf = 0 then Some (cf, st)
     else let cf = cf\<lparr>cf_bend_segs := bend_seg_sanitize (cf_bend_segs cf) (sn_bits sn)\<rparr>;
              layout = uint (g_layout (cf_bend_segs cf));
              sz = uint (g_size (cf_bend_segs cf));
              n = bend_seg_count layout;
              st = st\<lparr>rw_frame := rw_frame st + 1\<rparr>;
              st = st\<lparr>rw_pat := bend_seg_set_seed (rw_pat st) (tick XOR (rw_frame st * 2654435761))\<rparr>
       in for_range 0 (nat n) (\<lambda>i (cf, st). do {
            (b, st) \<leftarrow> bb_run sn (mallocs i) (cf_bitbend_simple cf) (bend_seg_conf cf (int i)) layout sz (int i) st;
            Some (bend_seg_conf_put cf (int i) b, st) }) (cf, st))"

section \<open>A pixel\<close>

definition in_scope :: "bend_t \<Rightarrow> nat \<Rightarrow> nat \<Rightarrow> bool" where
  "in_scope b y x \<longleftrightarrow> b_bayer b = 0 \<or> 2 * (y mod 2) + x mod 2 = unat (b_bayer b) - 1"

lemma bayer_pos: "(push_bit 1 (y AND 1)) OR (x AND 1) = 2 * (y mod 2) + (x mod 2 :: nat)"
proof -
  have "y mod 2 = 0 \<or> y mod 2 = 1" "x mod 2 = 0 \<or> x mod 2 = 1" by auto
  then show ?thesis by (auto simp: and_one_eq push_bit_eq_mult)
qed

lemma eval_fits: "fits nb (bend_eval (bend_compile b nb) v x y s)"
  using bend_eval_high[of nb _ b v x y s] by (auto simp: fits_def not_le[symmetric])

lemma align_down_div:
  assumes "x < 2 ^ 32"
  shows "align_down 8 x = x div 8 * 8" "align_down 4 x = x div 4 * 4"
proof -
  have low: "unat ((word_of_nat x :: u32) AND NOT (mask k)) = x div 2 ^ k * 2 ^ k" for k
  proof (rule bit_eqI)
    fix n
    have "bit x n \<Longrightarrow> n < 32" using assms by (metis bit_take_bit_iff take_bit_nat_eq_self)
    then have "bit (unat ((word_of_nat x :: u32) AND NOT (mask k))) n \<longleftrightarrow> k \<le> n \<and> bit x n"
      by (auto simp: bit_unsigned_iff bit_and_iff bit_not_iff bit_mask_iff bit_simps not_less)
    moreover have "x div 2 ^ k * 2 ^ k = push_bit k (drop_bit k x)"
      by (simp add: push_bit_eq_mult drop_bit_eq_div)
    then have "bit (x div 2 ^ k * 2 ^ k) n \<longleftrightarrow> k \<le> n \<and> bit x n"
      by (auto simp: bit_push_bit_iff bit_drop_bit_eq)
    ultimately show "bit (unat ((word_of_nat x :: u32) AND NOT (mask k))) n = bit (x div 2 ^ k * 2 ^ k) n" by simp
  qed
  have "word_of_nat (8 - 1) = (mask 3 :: u32)" "word_of_nat (4 - 1) = (mask 2 :: u32)" by (simp_all add: mask_numeral)
  then show "align_down 8 x = x div 8 * 8" "align_down 4 x = x div 4 * 4"
    using low[of 3] low[of 2] by (simp_all add: align_down_def)
qed

lemma tap_in_frame:
  assumes "in_frame sn fb (y, x)" "tap_at sn b x y = (tx, ty)"
  shows "in_frame sn fb (ty, tx)"
  using assms by (auto simp: in_frame_def tap_at_def Let_def split: if_splits)

lemma rget_the:
  assumes "sensor_ok sn" "in_frame sn fb s"
  shows "rget sn fb s = Some (the (rget sn fb s))" "fits (sn_bits sn) (the (rget sn fb s))"
  using raw_get[OF assms] by (auto simp: ok_def)

text \<open>The value of the noise bus, the tap and the pixel above, as the body of the loop reads them.\<close>

definition stepped :: "sensor_t \<Rightarrow> bend_cc_t \<Rightarrow> bend_t \<Rightarrow> nat \<Rightarrow> nat \<Rightarrow> u8 list \<Rightarrow> bend_src_t \<times> u32 \<Rightarrow> bend_src_t \<times> u32" where
  "stepped sn cc b y x fb = (\<lambda>(src, ns).
     let (ns, src) = (if bb_uses cc BUS_NOISE
            then (fst (bend_trash_step b ns (word_of_nat x)), src\<lparr>s_noise := snd (bend_trash_step b ns (word_of_nat x))\<rparr>)
            else (ns, src));
         src = (if bb_uses cc BUS_VHOLD then src\<lparr>s_above := if 0 < y then the (rget sn fb (y - 1, x)) else 0\<rparr> else src);
         src = (if bb_uses cc BUS_TAP then src\<lparr>s_tap := the (rget sn fb (prod.swap (tap_at sn b x y)))\<rparr> else src)
     in (src, ns))"

lemma bb_pixel_skip: "\<not> in_scope b y x \<Longrightarrow> bb_pixel sn cc b y x s = Some s"
  by (cases s) (simp add: bb_pixel_def in_scope_def bayer_pos[simplified])

lemma bb_pixel_step:
  assumes ok: "sensor_ok sn" and s: "in_frame sn fb (y, x)" and sc: "in_scope b y x"
    and v: "rget sn fb (y, x) = Some v" and st: "stepped sn cc b y x fb (src, ns) = (src', ns')"
    and w: "w = bend_eval cc v (int x) (int y) src'" "fits (sn_bits sn) w"
  shows "ok (bb_pixel sn cc b y x (src, ns, fb)) (\<lambda>s. case s of (src2, ns2, q) \<Rightarrow>
    src2 = src'\<lparr>s_prev := v\<rparr> \<and> ns2 = ns' \<and> remap sn (\<lambda>_ _. w) {(y, x)} fb q)"
proof -
  have pv: "px_rd sn fb x y = Some v" using v px_rd_rget[OF ok s] by simp
  have up: "px_rd sn fb x (y - 1) = Some (the (rget sn fb (y - 1, x)))" if "0 < y"
  proof -
    have "in_frame sn fb (y - 1, x)" using s by (simp add: in_frame_def less_imp_diff_less)
    then show ?thesis using px_rd_rget[OF ok, of fb "y - 1" x] rget_the(1)[OF ok, of fb "(y - 1, x)"] by simp
  qed
  obtain tx ty where t: "tap_at sn b x y = (tx, ty)" by (cases "tap_at sn b x y")
  have tap: "px_rd sn fb tx ty = Some (the (rget sn fb (ty, tx)))"
    using px_rd_rget[OF ok tap_in_frame[OF s t]] rget_the(1)[OF ok tap_in_frame[OF s t]] by simp
  have "bb_pixel sn cc b y x (src, ns, fb) =
      do { fb \<leftarrow> set_raw_pixel sn fb x y (ucast w); Some (src'\<lparr>s_prev := v\<rparr>, ns', fb) }"
    using sc st up tap w(1)
    by (auto simp: bb_pixel_def in_scope_def bayer_pos[simplified] pv stepped_def t Let_def split: prod.splits if_splits)
  moreover have "ok (rput sn fb (y, x) w) (remap sn (\<lambda>_ _. w) {(y, x)} fb)"
    using remap_single[OF ok s v, of "\<lambda>_ _. w"] w(2) by simp
  ultimately show ?thesis by (simp add: ok_simps rput_def)
qed

section \<open>A span\<close>

abbreviation cells :: "bend_t \<Rightarrow> nat \<Rightarrow> nat \<Rightarrow> nat \<Rightarrow> (nat \<times> nat) set" where
  "cells b y x0 x1 \<equiv> {(y, x) |x. x0 \<le> x \<and> x < x1 \<and> in_scope b y x}"

text \<open>The table of a compiled matrix.\<close>

lemma compile_lut_ok:
  assumes "sensor_ok sn"
  shows "lut_ok sn (c_lut (bend_compile b (sn_bits sn)))"
proof -
  have nb: "sn_bits sn \<le> 14" using sensor_depth[OF assms] by (auto simp: mexp_depth_def)
  have len: "unat (push_bit (sn_bits sn) 1 :: u32) = 2 ^ sn_bits sn"
    using unat_exp_less[where 'a = 32, of "sn_bits sn"] nb by (simp add: push_bit_eq_mult)
  then have len': "unat (2 ^ sn_bits sn :: u32) = 2 ^ sn_bits sn" by (simp add: push_bit_eq_mult)
  have "take_bit (sn_bits sn) (ucast (v AND mask (sn_bits sn)) :: u16) = ucast (v AND mask (sn_bits sn))" for v :: u32
    by (rule bit_eqI) (auto simp: bit_take_bit_iff bit_ucast_iff bit_and_iff bit_mask_iff)
  then show ?thesis
    unfolding lut_ok_def bend_compile_def Let_def size_mask by (auto simp: len len')
qed

lemma pure_eval_lut:
  assumes ok: "sensor_ok sn" and p: "c_is_pure (bend_compile b (sn_bits sn))" and v: "fits (sn_bits sn) v"
  shows "bend_eval (bend_compile b (sn_bits sn)) v x y s = lut_fun (c_lut (bend_compile b (sn_bits sn))) v"
proof -
  let ?lut = "c_lut (bend_compile b (sn_bits sn))"
  have "sn_bits sn < 32" using sensor_depth[OF ok] by (auto simp: mexp_depth_def)
  then have i: "unat v < length ?lut" using fits_unat[OF v] compile_lut_ok[OF ok, of b] by (simp add: lut_ok_def)
  have "ucast (?lut ! unat v) AND mask (sn_bits sn) = (ucast (?lut ! unat v) :: u32)"
    by (rule fits_and_mask[OF fits_ucast[OF lut_ok_at[OF compile_lut_ok[OF ok] i]]])
  then show ?thesis
    using pure_eval_const[OF p, of v x y s] fits_and_mask[OF v] by (simp add: lut_fun_def)
qed

text \<open>The loop over the pixels, whatever the matrix and, for a pure one, exactly.\<close>

lemma pixels_touch:
  assumes ok: "sensor_ok sn" and y: "y < sn_rows sn" and x: "x0 \<le> x1" "x1 \<le> sn_rowpix sn"
    and fb: "length fb = sn_rows sn * sn_rowlen sn"
  shows "ok (for_range x0 x1 (bb_pixel sn (bend_compile b (sn_bits sn)) b y) (src, ns, fb))
    (\<lambda>s. touches sn (cells b y x0 x1) fb (snd (snd s)))"
    and "c_is_pure (bend_compile b (sn_bits sn)) \<Longrightarrow>
      ok (for_range x0 x1 (bb_pixel sn (bend_compile b (sn_bits sn)) b y) (src, ns, fb))
        (\<lambda>s. remap sn (\<lambda>_. lut_fun (c_lut (bend_compile b (sn_bits sn)))) (cells b y x0 x1) fb (snd (snd s)))"
proof -
  let ?cc = "bend_compile b (sn_bits sn)"
  define S where "S x = (if in_scope b y x then {(y, x)} else {})" for x
  have SU: "(\<Union>x\<in>{x0..<x1}. S x) = cells b y x0 x1" by (auto simp: S_def split: if_splits)
  have apart: "S x \<inter> S x' = {}" if "x < x'" for x x' using that by (simp add: S_def)
  define J :: "scan \<Rightarrow> bool" where "J = (\<lambda>s. length (snd (snd s)) = length fb)"
  have step: "ok (bb_pixel sn ?cc b y x s) (\<lambda>s'. J s' \<and> (if c_is_pure ?cc
      then remap sn (\<lambda>_. lut_fun (c_lut ?cc)) (S x) (snd (snd s)) (snd (snd s'))
      else touches sn (S x) (snd (snd s)) (snd (snd s'))))"
    if xr: "x0 \<le> x" "x < x1" and J: "J s" for x s
  proof (cases "in_scope b y x")
    case False
    then show ?thesis
      using J by (simp add: S_def bb_pixel_skip ok_simps remapping.paint_none touching.paint_none)
  next
    case True
    obtain src ns p where s: "s = (src, ns, p)" by (cases s)
    have fr: "in_frame sn p (y, x)" using xr x y J fb by (simp add: J_def s in_frame_def)
    obtain v where v: "rget sn p (y, x) = Some v" "fits (sn_bits sn) v" using rget_the[OF ok fr] by blast
    obtain src' ns' where st: "stepped sn ?cc b y x p (src, ns) = (src', ns')" by fastforce
    define w where "w = bend_eval ?cc v (int x) (int y) src'"
    have S: "S x = {(y, x)}" using True by (simp add: S_def)
    have run: "ok (bb_pixel sn ?cc b y x (src, ns, p)) (\<lambda>s. remap sn (\<lambda>_ _. w) {(y, x)} p (snd (snd s)))"
      by (rule ok_mono[OF bb_pixel_step[OF ok fr True v(1) st w_def]]) (auto simp: w_def eval_fits)
    have "remap sn (\<lambda>_. lut_fun (c_lut ?cc)) {(y, x)} p q"
      if "remap sn (\<lambda>_ _. w) {(y, x)} p q" "c_is_pure ?cc" for q
      using that(1) v(1) pure_eval_lut[OF ok that(2) v(2)] unfolding remap_def w_def by auto
    then show ?thesis
      unfolding S s using J by (intro ok_mono[OF run]) (auto simp: J_def s dest: remap_touches remapping.paint_length)
  qed
  have J0: "J (src, ns, fb)" by (simp add: J_def)
  show "ok (for_range x0 x1 (bb_pixel sn ?cc b y) (src, ns, fb))
    (\<lambda>s. remap sn (\<lambda>_. lut_fun (c_lut ?cc)) (cells b y x0 x1) fb (snd (snd s)))" if p: "c_is_pure ?cc"
  proof (rule ok_mono)
    show "ok (for_range x0 x1 (bb_pixel sn ?cc b y) (src, ns, fb)) (\<lambda>s'. J s' \<and>
        remap sn (\<lambda>_. lut_fun (c_lut ?cc)) (\<Union>x\<in>{x0..<x1}. S x) (snd (snd (src, ns, fb))) (snd (snd s')))"
      by (rule remapping.paint_range) (use x(1) J0 step p apart in simp_all)
  qed (simp add: SU)
  show "ok (for_range x0 x1 (bb_pixel sn ?cc b y) (src, ns, fb)) (\<lambda>s. touches sn (cells b y x0 x1) fb (snd (snd s)))"
  proof (rule ok_mono)
    show "ok (for_range x0 x1 (bb_pixel sn ?cc b y) (src, ns, fb)) (\<lambda>s'. J s' \<and>
        touches sn (\<Union>x\<in>{x0..<x1}. S x) (snd (snd (src, ns, fb))) (snd (snd s')))"
    proof (rule touching.paint_range)
      fix x s assume "x0 \<le> x" "x < x1" "J s"
      from step[OF this] show "ok (bb_pixel sn ?cc b y x s) (\<lambda>s'. J s' \<and> touches sn (S x) (snd (snd s)) (snd (snd s')))"
        by (rule ok_mono) (auto dest: remap_touches split: if_splits)
    qed (use x(1) J0 apart in simp_all)
  qed (simp add: SU)
qed

text \<open>The fast path of a span: the pixels before the first whole group, the groups, and the rest.\<close>

abbreviation columns :: "nat \<Rightarrow> nat \<Rightarrow> nat \<Rightarrow> (nat \<times> nat) set" where
  "columns y a b \<equiv> {(y, x) |x. a \<le> x \<and> x < b}"

lemma remap_columns:
  assumes "remap sn f (columns y a b) p q" "ok m (remap sn f (columns y b c) q)" "a \<le> b" "b \<le> c"
  shows "ok m (remap sn f (columns y a c) p)"
proof (rule ok_mono[OF assms(2)])
  fix r assume "remap sn f (columns y b c) q r"
  moreover have "columns y a b \<inter> columns y b c = {}" by auto
  ultimately have "remap sn f (columns y a b \<union> columns y b c) p r" using remapping.paint_more[OF assms(1)] by blast
  moreover have "columns y a b \<union> columns y b c = columns y a c" using assms(3,4) by auto
  ultimately show "remap sn f (columns y a c) p r" by simp
qed

lemma fast_span_remaps:
  assumes ok: "sensor_ok sn" and y: "y < sn_rows sn" and x: "x0 \<le> x1" "x1 \<le> sn_rowpix sn"
    and fb: "length fb = sn_rows sn * sn_rowlen sn" and lut: "lut_ok sn lut"
    and nb: "sn_bits sn = 10 \<or> sn_bits sn = 12"
    and n: "n = group_px (sn_bits sn)" and a: "a0 = min ((x0 + n - 1) div n * n) x1" "a1 = x1 div n * n"
  shows "ok (do {
      fb \<leftarrow> for_range x0 a0 (bb_lut_px sn lut y) fb;
      fb \<leftarrow> (if a0 < a1 then bb_row_fast (sn_bits sn) lut (y * sn_rowlen sn + a0 div n * group_bytes (sn_bits sn)) (a1 - a0) fb
            else Some fb);
      for_range (if a0 < a1 then a1 else a0) x1 (bb_lut_px sn lut y) fb })
    (remap sn (\<lambda>_. lut_fun lut) (columns y x0 x1) fb)"
proof -
  let ?r = "remap sn (\<lambda>_. lut_fun lut)"
  have n0: "0 < n" by (simp add: n)
  have "x0 \<le> (x0 + n - 1) div n * n"
  proof -
    have "(x0 + n - 1) mod n < n" using n0 by simp
    then show ?thesis using div_mult_mod_eq[of "x0 + n - 1" n] n0 by linarith
  qed
  then have a0: "x0 \<le> a0" "a0 \<le> x1" using x(1) by (simp_all add: a)
  have a1: "a1 \<le> x1" "a1 mod n = 0" by (simp_all add: a)
  have a0n: "a0 mod n = 0" if "a0 < a1"
    using that a1(1) by (simp add: a(1) min_def split: if_splits)
  have len: "length q = length fb" if "?r S fb q" for S q using that by (simp add: remap_def)
  have le: "a0 \<le> sn_rowpix sn" using a0 x by simp
  have first: "ok (for_range x0 a0 (bb_lut_px sn lut y) fb) (?r (columns y x0 a0) fb)"
    using lut_loop_paints[OF ok lut y a0(1) le fb] .
  have rest: "ok (for_range a x1 (bb_lut_px sn lut y) q) (?r (columns y x0 x1) fb)"
    if "?r (columns y x0 a) fb q" "x0 \<le> a" "a \<le> x1" for a q
    using remap_columns[OF that(1) lut_loop_paints[OF ok lut y that(3) x(2)] that(2,3)] len[OF that(1)] fb by simp
  show ?thesis
  proof (cases "a0 < a1")
    case False
    then show ?thesis using first rest[OF _ a0] by (simp add: ok_simps ok_mono)
  next
    case True
    have mid: "ok (bb_row_fast (sn_bits sn) lut (y * sn_rowlen sn + a0 div n * group_bytes (sn_bits sn)) (a1 - a0) q)
        (?r (columns y x0 a1) fb)" if q: "?r (columns y x0 a0) fb q" for q
    proof (rule remap_columns[OF q _ a0(1)])
      show "ok (bb_row_fast (sn_bits sn) lut (y * sn_rowlen sn + a0 div n * group_bytes (sn_bits sn)) (a1 - a0) q)
          (?r (columns y a0 a1) q)"
        using row_fast_paints[OF ok lut y nb, of a0 a1 q] True a0n[OF True] a1 x fb len[OF q] by (simp add: n)
    qed (use True in simp)
    have "x0 \<le> a1" using True a0 by simp
    then show ?thesis
      using True by (simp add: ok_simps) (intro ok_mono[OF first] ok_mono[OF mid] rest a1(1))
  qed
qed

lemma span_fast:
  assumes ok: "sensor_ok sn" and y: "y < sn_rows sn" and x: "x0 \<le> x1" "x1 \<le> sn_rowpix sn"
    and fb: "length fb = sn_rows sn * sn_rowlen sn"
    and nb: "sn_bits sn = 10 \<or> sn_bits sn = 12" and p: "c_is_pure (bend_compile b (sn_bits sn))" "b_bayer b = 0"
  shows "ok (bb_span sn (bend_compile b (sn_bits sn)) b y x0 x1 (src, ns, fb))
    (\<lambda>s. remap sn (\<lambda>_. lut_fun (c_lut (bend_compile b (sn_bits sn)))) (cells b y x0 x1) fb (snd (snd s)))"
proof -
  let ?lut = "c_lut (bend_compile b (sn_bits sn))"
  define n where "n = group_px (sn_bits sn)"
  have big: "x0 + n - 1 < 2 ^ 32" "x1 < 2 ^ 32"
    using ok x by (auto simp: sensor_ok_def n_def group_px_def)
  define a0 where "a0 = min ((x0 + n - 1) div n * n) x1"
  define a1 where "a1 = x1 div n * n"
  have n8: "(if sn_bits sn = 10 then 8 else 4) = n" "(if sn_bits sn = 10 then 10 else 6) = group_bytes (sn_bits sn)"
    using nb by (auto simp: n_def group_px_def group_bytes_def)
  have al: "align_down n (x0 + n - 1) = (x0 + n - 1) div n * n" "align_down n x1 = x1 div n * n"
    using align_down_div[OF big(1)] align_down_div[OF big(2)] nb by (auto simp: n_def group_px_def)
  have mn: "(if x1 < (x0 + n - 1) div n * n then x1 else (x0 + n - 1) div n * n) = a0" by (simp add: a0_def min_def)
  have "cells b y x0 x1 = columns y x0 x1" using p(2) by (auto simp: in_scope_def)
  moreover have "bb_span sn (bend_compile b (sn_bits sn)) b y x0 x1 (src, ns, fb) =
    do {
      fb \<leftarrow> for_range x0 a0 (bb_lut_px sn ?lut y) fb;
      fb \<leftarrow> (if a0 < a1 then bb_row_fast (sn_bits sn) ?lut (y * sn_rowlen sn + a0 div n * group_bytes (sn_bits sn)) (a1 - a0) fb
            else Some fb);
      fb \<leftarrow> for_range (if a0 < a1 then a1 else a0) x1 (bb_lut_px sn ?lut y) fb;
      Some (src, ns, fb) }"
    unfolding bb_span_def split using nb p by (simp only: n8 Let_def al mn a1_def[symmetric] if_True simp_thms)
  ultimately show ?thesis
    using fast_span_remaps[OF ok y x fb compile_lut_ok[OF ok, of b] nb n_def a0_def a1_def] by (simp add: ok_simps)
qed

lemma span_prev:
  assumes ok: "sensor_ok sn" and y: "y < sn_rows sn" and x: "x0 \<le> x1" "x1 \<le> sn_rowpix sn"
    and fb: "length fb = sn_rows sn * sn_rowlen sn"
    and slow: "\<not> ((sn_bits sn = 10 \<or> sn_bits sn = 12) \<and> c_is_pure cc \<and> b_bayer b = 0)"
  shows "bb_span sn cc b y x0 x1 (src, ns, fb) =
    for_range x0 x1 (bb_pixel sn cc b y)
      (src\<lparr>s_prev := if 0 < x0 then the (rget sn fb (y, x0 - 1)) else 0\<rparr>, ns, fb)"
proof -
  have "px_rd sn fb (x0 - 1) y = Some (the (rget sn fb (y, x0 - 1)))" if "0 < x0"
  proof -
    have "in_frame sn fb (y, x0 - 1)" using y x fb that by (simp add: in_frame_def)
    then show ?thesis using px_rd_rget[OF ok] rget_the(1)[OF ok, of fb "(y, x0 - 1)"] by simp
  qed
  then show ?thesis unfolding bb_span_def split if_not_P[OF slow] by simp
qed

lemma span_paints:
  assumes ok: "sensor_ok sn" and y: "y < sn_rows sn" and x: "x0 \<le> x1" "x1 \<le> sn_rowpix sn"
    and fb: "length fb = sn_rows sn * sn_rowlen sn"
  shows "ok (bb_span sn (bend_compile b (sn_bits sn)) b y x0 x1 (src, ns, fb))
      (\<lambda>s. touches sn (cells b y x0 x1) fb (snd (snd s)))"
    and "c_is_pure (bend_compile b (sn_bits sn)) \<Longrightarrow>
      ok (bb_span sn (bend_compile b (sn_bits sn)) b y x0 x1 (src, ns, fb))
        (\<lambda>s. remap sn (\<lambda>_. lut_fun (c_lut (bend_compile b (sn_bits sn)))) (cells b y x0 x1) fb (snd (snd s)))"
proof -
  let ?cc = "bend_compile b (sn_bits sn)"
  consider (fast) "(sn_bits sn = 10 \<or> sn_bits sn = 12) \<and> c_is_pure ?cc \<and> b_bayer b = 0"
    | (slow) "\<not> ((sn_bits sn = 10 \<or> sn_bits sn = 12) \<and> c_is_pure ?cc \<and> b_bayer b = 0)" by blast
  then have "ok (bb_span sn ?cc b y x0 x1 (src, ns, fb)) (\<lambda>s. touches sn (cells b y x0 x1) fb (snd (snd s))) \<and>
    (c_is_pure ?cc \<longrightarrow> ok (bb_span sn ?cc b y x0 x1 (src, ns, fb))
        (\<lambda>s. remap sn (\<lambda>_. lut_fun (c_lut ?cc)) (cells b y x0 x1) fb (snd (snd s))))"
  proof cases
    case fast
    then have "ok (bb_span sn ?cc b y x0 x1 (src, ns, fb))
        (\<lambda>s. remap sn (\<lambda>_. lut_fun (c_lut ?cc)) (cells b y x0 x1) fb (snd (snd s)))"
      using span_fast[OF ok y x fb] by blast
    then show ?thesis by (blast intro: ok_mono remap_touches)
  next
    case slow
    then show ?thesis using pixels_touch[OF ok y x fb] span_prev[OF ok y x fb slow] by simp
  qed
  then show "ok (bb_span sn ?cc b y x0 x1 (src, ns, fb)) (\<lambda>s. touches sn (cells b y x0 x1) fb (snd (snd s)))"
    "c_is_pure ?cc \<Longrightarrow> ok (bb_span sn ?cc b y x0 x1 (src, ns, fb))
        (\<lambda>s. remap sn (\<lambda>_. lut_fun (c_lut ?cc)) (cells b y x0 x1) fb (snd (snd s)))" by blast+
qed

section \<open>Rows and passes\<close>

text \<open>
  The pattern statics are drawn from the seed the first time a pattern is asked for; asking
  again changes nothing, so every row of a shot is cut by the same pattern.
\<close>

definition pat_like :: "pat_state \<Rightarrow> pat_state \<Rightarrow> bool" where
  "pat_like st st' \<longleftrightarrow> st' = st \<or> st' = bseg_pat_prep st"

lemma pat_prep_twice: "bseg_pat_prep (bseg_pat_prep st) = bseg_pat_prep st"
  by (simp add: bseg_pat_prep_def Let_def)

lemma spans_same:
  assumes "pat_like st st'"
  shows "snd (bend_seg_spans st' l sz y w h) = snd (bend_seg_spans st l sz y w h)"
    and "pat_like st (fst (bend_seg_spans st' l sz y w h))"
proof -
  have norm: "layout_spans (bseg_pat_prep st) l sz y w h = layout_spans st l sz y w h"
    if "\<not> BSEG_IS_PATTERN l" for l sz
    using that by (simp add: layout_spans_def Let_def)
  show "snd (bend_seg_spans st' l sz y w h) = snd (bend_seg_spans st l sz y w h)"
    using assms norm by (auto simp: pat_like_def bend_seg_spans_def Let_def pat_prep_twice)
  show "pat_like st (fst (bend_seg_spans st' l sz y w h))"
    using assms by (auto simp: pat_like_def bend_seg_spans_def Let_def pat_prep_twice)
qed

definition region :: "sensor_t \<Rightarrow> pat_state \<Rightarrow> int \<Rightarrow> int \<Rightarrow> nat \<Rightarrow> nat \<Rightarrow> int" where
  "region sn st layout sz y x =
     snd (bend_seg_at st layout sz (int x) (int y) (int (sn_rowpix sn)) (int (sn_rows sn)))"

definition row_on :: "bend_t \<Rightarrow> nat \<Rightarrow> bool" where
  "row_on b y \<longleftrightarrow> \<not> (1 < unat (b_row_period b) \<and> y mod unat (b_row_period b) \<noteq> 0)"

definition pass_cells :: "sensor_t \<Rightarrow> bend_t \<Rightarrow> pat_state \<Rightarrow> int \<Rightarrow> int \<Rightarrow> int \<Rightarrow> (nat \<times> nat) set" where
  "pass_cells sn b st layout sz seg = {(y, x). y < sn_rows sn \<and> x < sn_rowpix sn \<and> row_on b y \<and>
     in_scope b y x \<and> region sn st layout sz y x = seg}"

lemma tiles_bounds:
  assumes "tiles w n sp" "i < length sp"
  shows "0 \<le> span_start sp i" "span_start sp i < snd (sp ! i)" "snd (sp ! i) \<le> w" "0 \<le> fst (sp ! i)" "fst (sp ! i) < n"
proof -
  have rise: "rising 0 sp" and w: "snd (last sp) = w" using assms(1) by (auto simp: tiles_def span_end_def)
  have pos: "0 < snd (sp ! 0)"
    using rise assms(2) by (cases sp) auto
  have up: "snd (sp ! 0) \<le> snd (sp ! j)" if "j < length sp" for j
    using rising_nth[OF rise, of 0 j] that by (cases "j = 0") auto
  show "0 \<le> span_start sp i"
  proof (cases i)
    case (Suc k)
    then show ?thesis using pos up[of k] assms(2) by (simp add: span_start_def)
  qed (simp add: span_start_def)
  show "span_start sp i < snd (sp ! i)"
    using pos rising_nth[OF rise, of "i - 1" i] assms(2) by (cases i) (simp_all add: span_start_def)
  obtain k where k: "length sp = Suc k" using assms(2) by (cases sp) auto
  then have "sp ! k = last sp" by (cases sp rule: rev_cases) auto
  then show "snd (sp ! i) \<le> w"
    using rising_nth[OF rise, of i k] assms(2) w k by (cases "i = k") auto
  have "sp ! i \<in> set sp" using assms(2) by simp
  then show "0 \<le> fst (sp ! i)" "fst (sp ! i) < n" using assms(1) by (auto simp: tiles_def)
qed

lemma span_start_after:
  assumes "tiles w n sp" "i < j" "j < length sp"
  shows "snd (sp ! i) \<le> span_start sp j"
proof -
  have rise: "rising 0 sp" using assms(1) by (auto simp: tiles_def)
  obtain k where k: "j = Suc k" using assms(2) by (cases j) auto
  show ?thesis
    using rising_nth[OF rise, of i k] assms(2,3) by (cases "i = k") (auto simp: span_start_def k)
qed

locale span_pass = painting paint for paint +
  fixes sn :: sensor_t and b :: bend_t and good :: bool
  assumes span_law: "\<lbrakk>good; sensor_ok sn; y < sn_rows sn; x0 \<le> x1; x1 \<le> sn_rowpix sn;
      length fb = sn_rows sn * sn_rowlen sn\<rbrakk> \<Longrightarrow>
    ok (bb_span sn (bend_compile b (sn_bits sn)) b y x0 x1 (src, ns, fb)) (\<lambda>s. paint (cells b y x0 x1) fb (snd (snd s)))"
begin

lemma spans_paint:
  assumes g: good and ok: "sensor_ok sn" and y: "y < sn_rows sn" and t: "tiles (int (sn_rowpix sn)) n sp"
    and n: "n \<le> 256" and seg: "0 \<le> seg" "seg < 256" and fb: "length fb = sn_rows sn * sn_rowlen sn"
  shows "ok (bb_spans sn (bend_compile b (sn_bits sn)) b seg y sp (src, ns, fb))
    (\<lambda>s. paint {(y, x) |x. x < sn_rowpix sn \<and> in_scope b y x \<and> span_at sp (int x) = seg} fb (snd (snd s)))"
proof -
  let ?w = "int (sn_rowpix sn)"
  define x0 x1 where "x0 i = nat (span_start sp i)" and "x1 i = nat (snd (sp ! i))" for i
  define S where "S i = (if fst (sp ! i) = seg then cells b y (x0 i) (x1 i) else {})" for i
  define J :: "scan \<Rightarrow> bool" where "J s \<longleftrightarrow> length (snd (snd s)) = length fb" for s
  have seg256: "seg mod 256 = seg" using seg by simp
  have "ok (bb_spans sn (bend_compile b (sn_bits sn)) b seg y sp (src, ns, fb))
      (\<lambda>s. J s \<and> paint (\<Union>i\<in>{0..<length sp}. S i) (snd (snd (src, ns, fb))) (snd (snd s)))"
    unfolding bb_spans_def
  proof (rule paint_range)
    fix i s assume i: "i < length sp" and J: "J s"
    obtain src ns p where s: "s = (src, ns, p)" by (cases s)
    note b = tiles_bounds[OF t i]
    have x: "x0 i \<le> x1 i" "x1 i \<le> sn_rowpix sn" using b(1-3) by (simp_all add: x0_def x1_def)
    have p: "length p = sn_rows sn * sn_rowlen sn" using J fb by (simp add: J_def s)
    have "ok (bb_span sn (bend_compile b (sn_bits sn)) b y (x0 i) (x1 i) s) (\<lambda>s'. J s' \<and> paint (cells b y (x0 i) (x1 i)) (snd (snd s)) (snd (snd s')))"
      unfolding s by (rule ok_mono[OF span_law[OF g ok y x p]]) (use paint_length p fb in \<open>auto simp: J_def\<close>)
    moreover have "nat (if 0 < i then snd (sp ! (i - 1)) else 0) = x0 i" "nat (snd (sp ! i)) = x1 i"
      by (simp_all add: x0_def x1_def span_start_def)
    ultimately show "ok (if fst (sp ! i) \<noteq> seg mod 256 then Some s
        else bb_span sn (bend_compile b (sn_bits sn)) b y (nat (if 0 < i then snd (sp ! (i - 1)) else 0)) (nat (snd (sp ! i))) s)
      (\<lambda>s'. J s' \<and> paint (S i) (snd (snd s)) (snd (snd s')))"
      using J by (cases "fst (sp ! i) = seg") (simp_all only: seg256 S_def ok_simps paint_none if_False if_True simp_thms)
  next
    fix i j assume "i < j" "j < length sp"
    from span_start_after[OF t this] show "S i \<inter> S j = {}" by (auto simp: S_def x0_def x1_def)
  qed (simp_all add: J_def)
  moreover have "(\<Union>i\<in>{0..<length sp}. S i) = {(y, x) |x. x < sn_rowpix sn \<and> in_scope b y x \<and> span_at sp (int x) = seg}"
    (is "?A = ?B")
  proof (intro set_eqI iffI)
    fix c assume "c \<in> ?A"
    then obtain i x where i: "i < length sp" "fst (sp ! i) = seg" "c = (y, x)" "x0 i \<le> x" "x < x1 i" "in_scope b y x"
      by (auto simp: S_def split: if_splits)
    have x: "span_start sp i \<le> int x" "int x < snd (sp ! i)" "x < sn_rowpix sn"
      using i tiles_bounds[OF t i(1)] by (simp_all add: x0_def x1_def)
    then have "span_at sp (int x) = seg" using tiles_cell(2)[OF t _ _ i(1) x(1,2)] i(2) by simp
    then show "c \<in> ?B" using i x by simp
  next
    fix c assume "c \<in> ?B"
    then obtain x where c: "c = (y, x)" "x < sn_rowpix sn" "in_scope b y x" "span_at sp (int x) = seg" by blast
    then have x: "0 \<le> int x" "int x < ?w" by simp_all
    obtain i where i: "i < length sp" "span_start sp i \<le> int x" "int x < snd (sp ! i)"
      using tiles_cell(1)[OF t x] by blast
    then have "fst (sp ! i) = seg" using tiles_cell(2)[OF t x i] c(4) by simp
    then have "c \<in> S i" using c i tiles_bounds(1)[OF t i(1)] by (simp add: S_def x0_def x1_def nat_le_iff zless_nat_eq_int_zless)
    then show "c \<in> ?A" using i(1) by auto
  qed
  ultimately show ?thesis by (simp add: ok_mono)
qed

end

lemma region_spans:
  "region sn st layout sz y x =
    span_at (snd (bend_seg_spans st layout sz (int y) (int (sn_rowpix sn)) (int (sn_rows sn)))) (int x)"
  by (simp add: region_def bend_seg_at_def split: prod.splits)

definition row_cells :: "sensor_t \<Rightarrow> bend_t \<Rightarrow> pat_state \<Rightarrow> int \<Rightarrow> int \<Rightarrow> int \<Rightarrow> nat \<Rightarrow> (nat \<times> nat) set" where
  "row_cells sn b st layout sz seg y = {(y, x) |x. x < sn_rowpix sn \<and> row_on b y \<and> in_scope b y x \<and>
     region sn st layout sz y x = seg}"

lemma pass_rows: "(\<Union>y\<in>{0..<sn_rows sn}. row_cells sn b st layout sz seg y) = pass_cells sn b st layout sz seg"
  by (auto simp: row_cells_def pass_cells_def)

context span_pass
begin

lemma row_paint:
  assumes g: good and ok: "sensor_ok sn" and y: "y < sn_rows sn" and pat: "pat_like st pat"
    and seg: "0 \<le> seg" "seg < 256" and fb: "length fb = sn_rows sn * sn_rowlen sn"
  shows "ok (bb_row sn (bend_compile b (sn_bits sn)) b layout sz seg frame y (pat, fb))
    (\<lambda>s. pat_like st (fst s) \<and> paint (row_cells sn b st layout sz seg y) fb (snd s))"
proof (cases "row_on b y")
  case False
  then have "row_cells sn b st layout sz seg y = {}" by (simp add: row_cells_def)
  then show ?thesis using False pat paint_none by (simp add: bb_row_def row_on_def ok_simps)
next
  case True
  let ?w = "int (sn_rowpix sn)" and ?h = "int (sn_rows sn)" and ?cc = "bend_compile b (sn_bits sn)"
  obtain pat' sp where sp: "bend_seg_spans pat layout sz (int y) ?w ?h = (pat', sp)" by fastforce
  have same: "snd (bend_seg_spans st layout sz (int y) ?w ?h) = sp" "pat_like st pat'"
    using spans_same[OF pat, of layout sz "int y" ?w ?h] sp by simp_all
  have t: "tiles ?w (bend_seg_count layout) sp"
    unfolding same(1)[symmetric] by (rule bend_seg_spans_tiles) (use ok in \<open>simp_all add: sensor_ok_def\<close>)
  have n: "bend_seg_count layout \<le> 256" using bend_seg_count_range[of layout] by simp
  have cells: "row_cells sn b st layout sz seg y =
      {(y, x) |x. x < sn_rowpix sn \<and> in_scope b y x \<and> span_at sp (int x) = seg}"
    using True by (simp add: row_cells_def region_spans same(1))
  have run: "bb_row sn ?cc b layout sz seg frame y (pat, fb) =
      (if \<not> (\<exists>p\<in>set sp. fst p = seg) then Some (pat', fb)
       else do {
         ob \<leftarrow> (if bb_uses ?cc BUS_OB then px_rd sn fb (BB_OB_X sn) y else Some 0);
         let src = \<lparr>s_prev = 0, s_above = 0, s_ob = ob, s_tap = 0, s_noise = 0, s_frame = frame\<rparr>;
         (src, noise_state, fb) \<leftarrow> bb_spans sn ?cc b seg y sp (src, bend_trash_seed b (word_of_nat y) ob, fb);
         Some (pat', fb) })"
    unfolding bb_row_def split sp Let_def if_not_P[OF True[unfolded row_on_def]] by (rule refl)
  show ?thesis
  proof (cases "\<exists>p\<in>set sp. fst p = seg")
    case False
    have "span_at sp (int x) \<noteq> seg" if "x < sn_rowpix sn" for x
    proof -
      have x: "0 \<le> int x" "int x < ?w" using that by simp_all
      obtain i where i: "i < length sp" "span_start sp i \<le> int x" "int x < snd (sp ! i)"
        using tiles_cell(1)[OF t x] by blast
      have "sp ! i \<in> set sp" using i(1) by simp
      then have "fst (sp ! i) \<noteq> seg" using False by blast
      then show ?thesis using tiles_cell(2)[OF t x i] by simp
    qed
    then have "row_cells sn b st layout sz seg y = {}" by (auto simp: cells)
    then show ?thesis using False same(2) paint_none by (simp add: run ok_simps)
  next
    case has: True
    have "in_frame sn fb (y, BB_OB_X sn)" using ok y fb by (simp add: in_frame_def sensor_ok_def)
    then obtain ob where ob: "(if bb_uses ?cc BUS_OB then px_rd sn fb (BB_OB_X sn) y else Some 0) = Some ob"
      using px_rd_rget[OF ok] rget_the(1)[OF ok] by (metis (full_types))
    show ?thesis
      unfolding run cells ob using has same(2)
      by (auto simp: ok_simps intro!: ok_mono[OF spans_paint[OF g ok y t n seg fb]] split: prod.splits)
  qed
qed

lemma run_paint:
  assumes g: good and ok: "sensor_ok sn" and pat: "pat_like st pat"
    and seg: "0 \<le> seg" "seg < 256" and fb: "length fb = sn_rows sn * sn_rowlen sn"
  shows "ok (for_range 0 (sn_rows sn) (bb_row sn (bend_compile b (sn_bits sn)) b layout sz seg frame) (pat, fb))
    (\<lambda>s. pat_like st (fst s) \<and> paint (pass_cells sn b st layout sz seg) fb (snd s))"
proof -
  define J :: "pat_state \<times> u8 list \<Rightarrow> bool" where "J s \<longleftrightarrow> pat_like st (fst s) \<and> length (snd s) = length fb" for s
  have "ok (for_range 0 (sn_rows sn) (bb_row sn (bend_compile b (sn_bits sn)) b layout sz seg frame) (pat, fb))
    (\<lambda>s. J s \<and> paint (\<Union>y\<in>{0..<sn_rows sn}. row_cells sn b st layout sz seg y) (snd (pat, fb)) (snd s))"
  proof (rule paint_range)
    fix y and s :: "pat_state \<times> u8 list" assume y: "y < sn_rows sn" and J: "J s"
    obtain pat p where s: "s = (pat, p)" by (cases s)
    have p: "pat_like st pat" "length p = sn_rows sn * sn_rowlen sn" using J fb by (simp_all add: J_def s)
    show "ok (bb_row sn (bend_compile b (sn_bits sn)) b layout sz seg frame y s)
        (\<lambda>s'. J s' \<and> paint (row_cells sn b st layout sz seg y) (snd s) (snd s'))"
      unfolding s by (rule ok_mono[OF row_paint[OF g ok y p(1) seg p(2)]]) (use paint_length p fb in \<open>auto simp: J_def\<close>)
  qed (use pat in \<open>auto simp: J_def row_cells_def\<close>)
  then show ?thesis unfolding pass_rows by (rule ok_mono) (simp add: J_def)
qed

end

interpretation touch_pass: span_pass "touches sn" sn b True for sn b
  by unfold_locales (rule span_paints(1))

interpretation pure_pass: span_pass "remap sn (\<lambda>_. lut_fun (c_lut (bend_compile b (sn_bits sn))))" sn b
  "c_is_pure (bend_compile b (sn_bits sn))" for sn b
  by unfold_locales (rule span_paints(2))

section \<open>A whole pass\<close>

definition bent_matrix :: "nat \<Rightarrow> int \<Rightarrow> bend_t \<Rightarrow> bend_t" where
  "bent_matrix nb simple b =
     (let b = bend_sanitize b nb in if simple \<noteq> 0 then fst (bend_simplify b) else b)"

lemma identity_remap:
  assumes ok: "sensor_ok sn" and id: "c_is_identity (bend_compile b (sn_bits sn))"
  shows "remap sn (\<lambda>_. lut_fun (c_lut (bend_compile b (sn_bits sn)))) S fb fb"
proof -
  let ?cc = "bend_compile b (sn_bits sn)"
  have nb: "sn_bits sn \<le> 16" using sensor_depth[OF ok] by (auto simp: mexp_depth_def)
  have p: "c_is_pure ?cc" using id by (simp add: bend_compile_def Let_def)
  have "lut_fun (c_lut ?cc) v = v" if "fits (sn_bits sn) v" for v
    using pure_eval_lut[OF ok p that] identity_eval[OF id nb] fits_and_mask[OF that] by metis
  then show ?thesis
    using rget_the[OF ok, of fb] unfolding remap_def by (metis option.map(2))
qed

text \<open>
  What a pass does to a frame of the right size: only the cells of its region move, the frame
  counter and the pattern stay, the table is there from now on unless it could not be had, and
  a pass of a pure matrix looks every one of its cells up.
\<close>

lemma bb_run_spec:
  assumes ok: "sensor_ok sn" and pat: "pat_like pt (rw_pat st)" and seg: "0 \<le> seg" "seg < 256"
    and fb: "length (rw_fb st) = sn_rows sn * sn_rowlen sn"
  shows "ok (bb_run sn malloc simple b layout sz seg st) (\<lambda>(b', st').
    rw_frame st' = rw_frame st \<and> pat_like pt (rw_pat st') \<and>
    touches sn (pass_cells sn b' pt layout sz seg) (rw_fb st) (rw_fb st') \<and>
    (if fst (bb_lut_ready sn malloc st)
     then rw_lut st' \<and> b' = bent_matrix (sn_bits sn) simple b \<and>
       (c_is_pure (bend_compile b' (sn_bits sn)) \<longrightarrow>
         remap sn (\<lambda>_. lut_fun (c_lut (bend_compile b' (sn_bits sn)))) (pass_cells sn b' pt layout sz seg) (rw_fb st) (rw_fb st'))
     else b' = b \<and> st' = st))"
proof -
  obtain there st1 where r: "bb_lut_ready sn malloc st = (there, st1)" by fastforce
  have st1: "rw_fb st1 = rw_fb st" "rw_frame st1 = rw_frame st" "rw_pat st1 = rw_pat st" "there \<Longrightarrow> rw_lut st1" "\<not> there \<Longrightarrow> st1 = st"
    using r by (auto simp: bb_lut_ready_def split: if_splits option.splits)
  define b' where "b' = bent_matrix (sn_bits sn) simple b"
  let ?cc = "bend_compile b' (sn_bits sn)" and ?S = "pass_cells sn b' pt layout sz seg"
  have run: "bb_run sn malloc simple b layout sz seg st =
      (if \<not> there then Some (b, st1)
       else if c_is_identity ?cc then Some (b', st1)
       else do { (pat, fb) \<leftarrow> for_range 0 (sn_rows sn) (bb_row sn ?cc b' layout sz seg (rw_frame st)) (rw_pat st, rw_fb st);
                 Some (b', st1\<lparr>rw_pat := pat, rw_fb := fb\<rparr>) })"
    by (simp add: bb_run_def r Let_def st1 b'_def bent_matrix_def)
  have same: "touches sn S (rw_fb st) (rw_fb st)" for S by (simp add: touches_def)
  consider (no_table) "\<not> there" | (identity) "there" "c_is_identity ?cc" | (bent) "there" "\<not> c_is_identity ?cc" by blast
  then show ?thesis
  proof cases
    case no_table
    then show ?thesis using pat same by (simp add: run r st1 ok_simps)
  next
    case identity
    then show ?thesis using pat same identity_remap[OF ok identity(2)] by (simp add: run r st1 ok_simps b'_def)
  next
    case bent
    have t: "ok (for_range 0 (sn_rows sn) (bb_row sn ?cc b' layout sz seg (rw_frame st)) (rw_pat st, rw_fb st))
        (\<lambda>s. pat_like pt (fst s) \<and> touches sn ?S (rw_fb st) (snd s))"
      by (rule touch_pass.run_paint[OF TrueI ok pat seg fb])
    have p: "c_is_pure ?cc \<Longrightarrow> ok (for_range 0 (sn_rows sn) (bb_row sn ?cc b' layout sz seg (rw_frame st)) (rw_pat st, rw_fb st))
        (\<lambda>s. pat_like pt (fst s) \<and> remap sn (\<lambda>_. lut_fun (c_lut ?cc)) ?S (rw_fb st) (snd s))"
      by (rule pure_pass.run_paint[OF _ ok pat seg fb])
    obtain pat' q where q: "for_range 0 (sn_rows sn) (bb_row sn ?cc b' layout sz seg (rw_frame st)) (rw_pat st, rw_fb st) = Some (pat', q)"
      "pat_like pt pat'" "touches sn ?S (rw_fb st) q"
      using t by (auto simp: ok_def)
    show ?thesis
      using bent p q st1 by (auto simp: run r ok_simps b'_def)
  qed
qed

section \<open>The passes of a shot\<close>

text \<open>The cells the matrices of a configuration bend, each in its own region.\<close>

definition shot_cells :: "sensor_t \<Rightarrow> conf_t \<Rightarrow> pat_state \<Rightarrow> nat \<Rightarrow> (nat \<times> nat) set" where
  "shot_cells sn cf pt k =
     (\<Union>j\<in>{0..<k}. pass_cells sn (bend_seg_conf cf (int j)) pt (uint (g_layout (cf_bend_segs cf)))
        (uint (g_size (cf_bend_segs cf))) (int j))"

text \<open>The value a pure matrix gives a pixel: the table's entry, the matrix being that of the pixel's region.\<close>

definition region_value :: "sensor_t \<Rightarrow> conf_t \<Rightarrow> pat_state \<Rightarrow> nat \<times> nat \<Rightarrow> u32 \<Rightarrow> u32" where
  "region_value sn cf pt = (\<lambda>(y, x). lut_fun (c_lut (bend_compile (bend_seg_conf cf (region sn pt
     (uint (g_layout (cf_bend_segs cf))) (uint (g_size (cf_bend_segs cf))) y x)) (sn_bits sn))))"

definition same_layout :: "conf_t \<Rightarrow> conf_t \<Rightarrow> bool" where
  "same_layout cf cf' \<longleftrightarrow> conf_shape cf' \<and> g_layout (cf_bend_segs cf') = g_layout (cf_bend_segs cf) \<and>
     g_size (cf_bend_segs cf') = g_size (cf_bend_segs cf) \<and> cf_bitbend_simple cf' = cf_bitbend_simple cf \<and>
     cf_bendx cf' = cf_bendx cf \<and> cf_bendx_enable cf' = cf_bendx_enable cf \<and>
     cf_bitbend_enable cf' = cf_bitbend_enable cf"

lemma same_layout_put: "\<lbrakk>same_layout cf cf'; bend_shape b\<rbrakk> \<Longrightarrow> same_layout cf (bend_seg_conf_put cf' i b)"
  using seg_put_shape[of cf' b i] by (auto simp: same_layout_def bend_seg_conf_put_def)

lemma shot_cells_Suc:
  "shot_cells sn cf pt (Suc k) = shot_cells sn cf pt k \<union>
    pass_cells sn (bend_seg_conf cf (int k)) pt (uint (g_layout (cf_bend_segs cf))) (uint (g_size (cf_bend_segs cf))) (int k)"
proof -
  have "{0..<Suc k} = insert k {0..<k}" by auto
  then show ?thesis by (auto simp: shot_cells_def)
qed

lemma shot_cells_put:
  assumes "same_layout cf cf'" "k < BEND_SEG_MAX"
  shows "shot_cells sn (bend_seg_conf_put cf' (int k) b) pt k = shot_cells sn cf' pt k"
    and "s \<in> shot_cells sn cf' pt k \<Longrightarrow> region_value sn (bend_seg_conf_put cf' (int k) b) pt s = region_value sn cf' pt s"
proof -
  have put: "bend_seg_conf (bend_seg_conf_put cf' (int k) b) (int j) = bend_seg_conf cf' (int j)" if "j < k" for j
    using seg_conf_put_get[of cf' "int k" "int j" b] assms that by (simp add: same_layout_def)
  have lay: "g_layout (cf_bend_segs (bend_seg_conf_put cf' (int k) b)) = g_layout (cf_bend_segs cf')"
    "g_size (cf_bend_segs (bend_seg_conf_put cf' (int k) b)) = g_size (cf_bend_segs cf')"
    by (simp_all add: bend_seg_conf_put_def)
  show "shot_cells sn (bend_seg_conf_put cf' (int k) b) pt k = shot_cells sn cf' pt k"
    by (simp add: shot_cells_def put lay)
  show "region_value sn (bend_seg_conf_put cf' (int k) b) pt s = region_value sn cf' pt s" if "s \<in> shot_cells sn cf' pt k"
    using that put by (auto simp: shot_cells_def region_value_def pass_cells_def lay)
qed

lemma cells_apart:
  "shot_cells sn cf pt k \<inter> pass_cells sn b pt (uint (g_layout (cf_bend_segs cf))) (uint (g_size (cf_bend_segs cf))) (int k) = {}"
  by (auto simp: shot_cells_def pass_cells_def)

text \<open>
  The invariant of the loop over the regions: the cells of the passes made so far have moved and
  nothing else, and when the table is there and their matrices are pure, each was looked up.
\<close>

definition shot_inv :: "sensor_t \<Rightarrow> pat_state \<Rightarrow> u8 list \<Rightarrow> conf_t \<Rightarrow> bool \<Rightarrow> nat \<Rightarrow> conf_t \<times> raw_t \<Rightarrow> bool" where
  "shot_inv sn pt fb cf table k = (\<lambda>(cf', st').
     same_layout cf cf' \<and> pat_like pt (rw_pat st') \<and> (table \<longrightarrow> k = 0 \<or> rw_lut st') \<and>
     (\<forall>j<BEND_SEG_MAX. k \<le> j \<longrightarrow> bend_seg_conf cf' (int j) = bend_seg_conf cf (int j)) \<and>
     (table \<longrightarrow> (\<forall>j<k. bend_seg_conf cf' (int j) =
        bent_matrix (sn_bits sn) (cf_bitbend_simple cf) (bend_seg_conf cf (int j)))) \<and>
     touches sn (shot_cells sn cf' pt k) fb (rw_fb st') \<and>
     (table \<and> (\<forall>j<k. c_is_pure (bend_compile (bend_seg_conf cf' (int j)) (sn_bits sn))) \<longrightarrow>
       remap sn (region_value sn cf' pt) (shot_cells sn cf' pt k) fb (rw_fb st')))"

lemma seg_conf_shape: "\<lbrakk>conf_shape cf; 0 \<le> i; i < int BEND_SEG_MAX\<rbrakk> \<Longrightarrow> bend_shape (bend_seg_conf cf i)"
  by (auto simp: conf_shape_def segs_shape_def bend_seg_conf_def)

lemma bent_matrix_ok:
  assumes "2 \<le> nb" "nb \<le> 16" "bend_shape b"
  shows "bend_ok (bent_matrix nb simple b)"
  using bend_sanitize_ok[OF assms] by (simp add: bent_matrix_def Let_def bend_simplify_ok)

definition shot_pass :: "sensor_t \<Rightarrow> (nat \<Rightarrow> u32 \<Rightarrow> u8 list option) \<Rightarrow> int \<Rightarrow> int \<Rightarrow> nat \<Rightarrow> conf_t \<times> raw_t \<Rightarrow>
    (conf_t \<times> raw_t) option" where
  "shot_pass sn mallocs layout sz i = (\<lambda>(cf, st). do {
     (b, st) \<leftarrow> bb_run sn (mallocs i) (cf_bitbend_simple cf) (bend_seg_conf cf (int i)) layout sz (int i) st;
     Some (bend_seg_conf_put cf (int i) b, st) })"

lemma shot_step:
  assumes ok: "sensor_ok sn" and k: "k < BEND_SEG_MAX" and fb: "length fb = sn_rows sn * sn_rowlen sn"
    and cf: "conf_shape cf" and I: "shot_inv sn pt fb cf table k s"
    and table: "table \<Longrightarrow> k = 0 \<Longrightarrow> fst (bb_lut_ready sn (mallocs 0) (snd s))"
  shows "ok (shot_pass sn mallocs (uint (g_layout (cf_bend_segs cf))) (uint (g_size (cf_bend_segs cf))) k s)
    (shot_inv sn pt fb cf table (Suc k))"
proof -
  obtain c st where s: "s = (c, st)" by (cases s)
  let ?L = "uint (g_layout (cf_bend_segs cf))" and ?Z = "uint (g_size (cf_bend_segs cf))"
  note inv = I[unfolded s shot_inv_def split]
  have lay: "same_layout cf c" and pat: "pat_like pt (rw_pat st)" and tch: "touches sn (shot_cells sn c pt k) fb (rw_fb st)"
    using inv by blast+
  have len: "length (rw_fb st) = sn_rows sn * sn_rowlen sn" using tch fb by (simp add: touches_def)
  have sg: "0 \<le> int k" "int k < 256" using k by simp_all
  have here: "bend_seg_conf c (int k) = bend_seg_conf cf (int k)" using inv k by simp
  have simple: "cf_bitbend_simple c = cf_bitbend_simple cf" using lay by (simp add: same_layout_def)
  obtain b st' where run: "bb_run sn (mallocs k) (cf_bitbend_simple cf) (bend_seg_conf cf (int k)) ?L ?Z (int k) st = Some (b, st')"
    and P: "pat_like pt (rw_pat st')" "touches sn (pass_cells sn b pt ?L ?Z (int k)) (rw_fb st) (rw_fb st')"
    and Q: "if fst (bb_lut_ready sn (mallocs k) st)
       then rw_lut st' \<and> b = bent_matrix (sn_bits sn) (cf_bitbend_simple cf) (bend_seg_conf cf (int k)) \<and>
         (c_is_pure (bend_compile b (sn_bits sn)) \<longrightarrow>
           remap sn (\<lambda>_. lut_fun (c_lut (bend_compile b (sn_bits sn)))) (pass_cells sn b pt ?L ?Z (int k)) (rw_fb st) (rw_fb st'))
       else b = bend_seg_conf cf (int k) \<and> st' = st"
    using bb_run_spec[OF ok pat sg len, of "mallocs k" "cf_bitbend_simple cf" "bend_seg_conf cf (int k)" ?L ?Z]
    by (auto simp: ok_def)
  define c' where "c' = bend_seg_conf_put c (int k) b"
  have go: "shot_pass sn mallocs ?L ?Z k s = Some (c', st')"
    by (simp add: shot_pass_def s here simple run c'_def)
  have nb: "2 \<le> sn_bits sn" "sn_bits sn \<le> 16" using sensor_depth[OF ok] by (auto simp: mexp_depth_def)
  have shape: "bend_shape b"
    using Q seg_conf_shape[OF cf sg(1)] bent_matrix_ok[OF nb seg_conf_shape[OF cf sg(1)]] k bend_ok_shape
    by (auto split: if_splits)
  have lay': "same_layout cf c'" unfolding c'_def by (rule same_layout_put[OF lay shape])
  have put: "bend_seg_conf c' (int j) = (if j = k then b else bend_seg_conf c (int j))" if "j < BEND_SEG_MAX" for j
    using seg_conf_put_get[of c "int k" "int j" b] lay that k by (auto simp: c'_def same_layout_def)
  note old = shot_cells_put[OF lay k, where b = b and sn = sn and pt = pt, folded c'_def]
  have LZ: "uint (g_layout (cf_bend_segs c')) = ?L" "uint (g_size (cf_bend_segs c')) = ?Z"
    "uint (g_layout (cf_bend_segs c)) = ?L" "uint (g_size (cf_bend_segs c)) = ?Z"
    using lay lay' by (simp_all add: same_layout_def)
  have new: "shot_cells sn c' pt (Suc k) = shot_cells sn c pt k \<union> pass_cells sn b pt ?L ?Z (int k)"
    using put[of k] k by (simp add: shot_cells_Suc old(1) LZ)
  have apart: "shot_cells sn c pt k \<inter> pass_cells sn b pt ?L ?Z (int k) = {}"
    using cells_apart[of sn c pt k b] by (simp add: LZ)
  have T: "touches sn (shot_cells sn c' pt (Suc k)) fb (rw_fb st')"
    unfolding new by (rule touching.paint_more[OF tch P(2) apart])
  have there: "fst (bb_lut_ready sn (mallocs k) st)" if table
    using inv table that by (cases "k = 0") (auto simp: s bb_lut_ready_def)
  have R: "remap sn (region_value sn c' pt) (shot_cells sn c' pt (Suc k)) fb (rw_fb st')"
    if table "\<forall>j<Suc k. c_is_pure (bend_compile (bend_seg_conf c' (int j)) (sn_bits sn))"
  proof -
    have "\<forall>j<k. c_is_pure (bend_compile (bend_seg_conf c (int j)) (sn_bits sn))"
      using that(2) put k by (metis less_SucI less_trans nat_neq_iff)
    then have "remap sn (region_value sn c pt) (shot_cells sn c pt k) fb (rw_fb st)" using inv that(1) by blast
    then have A: "remap sn (region_value sn c' pt) (shot_cells sn c pt k) fb (rw_fb st)"
      by (rule remap_cong) (simp add: old(2))
    have pb: "c_is_pure (bend_compile b (sn_bits sn))" using that(2) put[of k] k by auto
    have "remap sn (\<lambda>_. lut_fun (c_lut (bend_compile b (sn_bits sn)))) (pass_cells sn b pt ?L ?Z (int k)) (rw_fb st) (rw_fb st')"
      using Q[unfolded if_P[OF there[OF that(1)]]] pb by blast
    then have "remap sn (region_value sn c' pt) (pass_cells sn b pt ?L ?Z (int k)) (rw_fb st) (rw_fb st')"
      by (rule remap_cong) (use put[of k] k in \<open>auto simp: pass_cells_def region_value_def LZ\<close>)
    then show ?thesis unfolding new by (rule remapping.paint_more[OF A _ apart])
  qed
  have "shot_inv sn pt fb cf table (Suc k) (c', st')"
    unfolding shot_inv_def split
    using lay' P(1) T R there Q inv put k by (auto simp: less_Suc_eq)
  then show ?thesis by (simp add: go ok_simps)
qed

definition shot_pattern :: "u32 \<Rightarrow> raw_t \<Rightarrow> pat_state" where
  "shot_pattern tick st = bend_seg_set_seed (rw_pat st) (tick XOR ((rw_frame st + 1) * 2654435761))"

definition shot_ready :: "sensor_t \<Rightarrow> (nat \<Rightarrow> u32 \<Rightarrow> u8 list option) \<Rightarrow> raw_t \<Rightarrow> bool" where
  "shot_ready sn mallocs st \<longleftrightarrow> rw_lut st \<or> mallocs 0 (push_bit (sn_bits sn) 1 * 2) \<noteq> None"

lemma raw_bitbend_spec:
  assumes ok: "sensor_ok sn" and cf: "conf_shape cf" and en: "cf_bitbend_enable cf \<noteq> 0"
    and fb: "length (rw_fb st) = sn_rows sn * sn_rowlen sn"
    and c1: "c1 = cf\<lparr>cf_bend_segs := bend_seg_sanitize (cf_bend_segs cf) (sn_bits sn)\<rparr>"
  shows "ok (raw_bitbend sn mallocs tick (cf, st)) (\<lambda>s. conf_shape c1 \<and>
    shot_inv sn (shot_pattern tick st) (rw_fb st) c1 (shot_ready sn mallocs st) (nat (bend_seg_n c1)) s)"
proof -
  let ?pt = "shot_pattern tick st" and ?n = "nat (bend_seg_n c1)"
  define s1 where "s1 = st\<lparr>rw_frame := rw_frame st + 1, rw_pat := ?pt\<rparr>"
  have nb: "2 \<le> sn_bits sn" "sn_bits sn \<le> 16" using sensor_depth[OF ok] by (auto simp: mexp_depth_def)
  have shape: "conf_shape c1"
    using cf bend_seg_sanitize_ok[OF _ nb, of "cf_bend_segs cf"] segs_ok_shape by (auto simp: c1 conf_shape_def)
  have n: "?n \<le> BEND_SEG_MAX" using seg_n_range[of c1] by (simp add: nat_le_iff)
  have run: "raw_bitbend sn mallocs tick (cf, st) =
      for_range 0 ?n (shot_pass sn mallocs (uint (g_layout (cf_bend_segs c1))) (uint (g_size (cf_bend_segs c1)))) (c1, s1)"
    using en by (simp add: raw_bitbend_def Let_def c1 s1_def shot_pattern_def bend_seg_n_def shot_pass_def[abs_def])
  let ?F = "shot_pass sn mallocs (uint (g_layout (cf_bend_segs c1))) (uint (g_size (cf_bend_segs c1)))"
  let ?I = "\<lambda>k s. shot_inv sn ?pt (rw_fb st) c1 (shot_ready sn mallocs st) k s \<and> (k = 0 \<longrightarrow> rw_lut (snd s) = rw_lut st)"
  have "ok (for_range 0 ?n ?F (c1, s1)) (?I ?n)"
  proof (rule for_range_inv)
    show "?I 0 (c1, s1)"
      using shape by (simp add: shot_inv_def same_layout_def pat_like_def s1_def shot_cells_def touches_def remap_def)
    fix k s assume k: "k < ?n" and I: "?I k s"
    have "ok (?F k s) (shot_inv sn ?pt (rw_fb st) c1 (shot_ready sn mallocs st) (Suc k))"
      by (rule shot_step[OF ok _ fb shape conjunct1[OF I]])
        (use k n I in \<open>auto simp: shot_ready_def bb_lut_ready_def split: option.splits\<close>)
    then show "ok (?F k s) (?I (Suc k))" by simp
  qed simp
  then show ?thesis unfolding run by (rule ok_mono) (simp add: shape)
qed

text \<open>Every pixel of the frame is in a region the layout has, so the passes together cover it once.\<close>

lemma region_range:
  assumes "sensor_ok sn" "x < sn_rowpix sn"
  shows "0 \<le> region sn pt layout sz y x" "region sn pt layout sz y x < bend_seg_count layout"
proof -
  define sp where "sp = snd (bend_seg_spans pt layout sz (int y) (int (sn_rowpix sn)) (int (sn_rows sn)))"
  have t: "tiles (int (sn_rowpix sn)) (bend_seg_count layout) sp"
    unfolding sp_def by (rule bend_seg_spans_tiles) (use assms in \<open>simp_all add: sensor_ok_def\<close>)
  have x: "0 \<le> int x" "int x < int (sn_rowpix sn)" using assms by simp_all
  obtain i where i: "i < length sp" "span_start sp i \<le> int x" "int x < snd (sp ! i)"
    using tiles_cell(1)[OF t x] by blast
  from tiles_cell(2)[OF t x i] show "0 \<le> region sn pt layout sz y x" "region sn pt layout sz y x < bend_seg_count layout"
    by (simp_all add: region_spans sp_def[symmetric])
qed

definition pixel_matrix :: "sensor_t \<Rightarrow> conf_t \<Rightarrow> pat_state \<Rightarrow> nat \<Rightarrow> nat \<Rightarrow> bend_t" where
  "pixel_matrix sn cf pt y x =
     bend_seg_conf cf (region sn pt (uint (g_layout (cf_bend_segs cf))) (uint (g_size (cf_bend_segs cf))) y x)"

lemma shot_cells_all:
  assumes "sensor_ok sn" "y < sn_rows sn" "x < sn_rowpix sn"
  shows "(y, x) \<in> shot_cells sn cf pt (nat (bend_seg_n cf)) \<longleftrightarrow>
    row_on (pixel_matrix sn cf pt y x) y \<and> in_scope (pixel_matrix sn cf pt y x) y x"
proof -
  let ?r = "region sn pt (uint (g_layout (cf_bend_segs cf))) (uint (g_size (cf_bend_segs cf))) y x"
  note r = region_range[OF assms(1,3), of pt "uint (g_layout (cf_bend_segs cf))" "uint (g_size (cf_bend_segs cf))" y]
  obtain j where j: "?r = int j" using r(1) nonneg_int_cases by blast
  then have "j < nat (bend_seg_n cf)" using r by (simp add: bend_seg_n_def)
  then show ?thesis
    using assms(2,3) by (auto simp: shot_cells_def pass_cells_def pixel_matrix_def j)
qed

text \<open>A matrix without buses compiles to a pure one.\<close>

lemma pure_route_compiles:
  assumes "bend_ok b" "pure_route b" "nb \<le> 16"
  shows "c_is_pure (bend_compile b nb)"
proof -
  have len: "length (b_route b) = 16" using bend_okD(3)[OF assms(1)] .
  have from_le: "from_bits b nb \<le> 16" using bend_okD(1)[OF assms(1)] assms(3) by (simp add: from_bits_def)
  have "bus_of (wire b (from_bits b nb) nb i) = None" if i: "i < nb" for i
  proof (cases "i + from_bits b nb < nb")
    case False
    then have "i + from_bits b nb - nb < length (b_route b)" using i from_le by (simp add: len)
    then have "\<not> is_bus_class (b_route b ! (i + from_bits b nb - nb))"
      using assms(2) by (simp add: pure_route_def)
    then show ?thesis using False by (auto simp: wire_def decode_src_def is_bus_class_def)
  qed (simp add: wire_def)
  then show ?thesis by (simp add: is_pure_iff[OF assms(3)])
qed

text \<open>Nothing outside the scope of the matrix of its region changes, whatever the configuration.\<close>

lemma bitbend_scope:
  assumes ok: "sensor_ok sn" and cf: "conf_shape cf" and fb: "length (rw_fb st) = sn_rows sn * sn_rowlen sn"
  shows "ok (raw_bitbend sn mallocs tick (cf, st)) (\<lambda>(cf', st'). conf_shape cf' \<and>
    length (rw_fb st') = length (rw_fb st) \<and>
    (\<forall>y < sn_rows sn. \<forall>x < sn_rowpix sn. rget sn (rw_fb st') (y, x) \<noteq> rget sn (rw_fb st) (y, x) \<longrightarrow>
      cf_bitbend_enable cf \<noteq> 0 \<and> row_on (pixel_matrix sn cf' (shot_pattern tick st) y x) y \<and>
      in_scope (pixel_matrix sn cf' (shot_pattern tick st) y x) y x))"
proof (cases "cf_bitbend_enable cf = 0")
  case True
  then show ?thesis using cf by (simp add: raw_bitbend_def ok_simps)
next
  case False
  define c1 where "c1 = cf\<lparr>cf_bend_segs := bend_seg_sanitize (cf_bend_segs cf) (sn_bits sn)\<rparr>"
  show ?thesis
  proof (rule ok_mono[OF raw_bitbend_spec[OF ok cf False fb c1_def, of mallocs tick]])
    fix s :: "conf_t \<times> raw_t"
    obtain cf' st' where s: "s = (cf', st')" by (cases s)
    assume "conf_shape c1 \<and> shot_inv sn (shot_pattern tick st) (rw_fb st) c1 (shot_ready sn mallocs st) (nat (bend_seg_n c1)) s"
    then have lay: "same_layout c1 cf'" and t: "touches sn (shot_cells sn cf' (shot_pattern tick st) (nat (bend_seg_n c1))) (rw_fb st) (rw_fb st')"
      by (simp_all add: shot_inv_def s)
    have n: "bend_seg_n cf' = bend_seg_n c1" using lay by (simp add: same_layout_def bend_seg_n_def)
    have out: "rget sn (rw_fb st') (y, x) = rget sn (rw_fb st) (y, x)"
      if "y < sn_rows sn" "x < sn_rowpix sn" "(y, x) \<notin> shot_cells sn cf' (shot_pattern tick st) (nat (bend_seg_n c1))" for y x
    proof -
      have "in_frame sn (rw_fb st) (y, x)" using that fb by (simp add: in_frame_def)
      then show ?thesis using t that(3) unfolding touches_def by blast
    qed
    have "row_on (pixel_matrix sn cf' (shot_pattern tick st) y x) y \<and> in_scope (pixel_matrix sn cf' (shot_pattern tick st) y x) y x"
      if yx: "y < sn_rows sn" "x < sn_rowpix sn" and ne: "rget sn (rw_fb st') (y, x) \<noteq> rget sn (rw_fb st) (y, x)" for y x
      using out[OF yx] ne shot_cells_all[OF ok yx, of cf' "shot_pattern tick st"] unfolding n by blast
    moreover have "conf_shape cf'" "length (rw_fb st') = length (rw_fb st)" using lay t by (simp_all add: same_layout_def touches_def)
    ultimately show "case s of (cf', st') \<Rightarrow> conf_shape cf' \<and> length (rw_fb st') = length (rw_fb st) \<and>
      (\<forall>y < sn_rows sn. \<forall>x < sn_rowpix sn. rget sn (rw_fb st') (y, x) \<noteq> rget sn (rw_fb st) (y, x) \<longrightarrow>
        cf_bitbend_enable cf \<noteq> 0 \<and> row_on (pixel_matrix sn cf' (shot_pattern tick st) y x) y \<and>
        in_scope (pixel_matrix sn cf' (shot_pattern tick st) y x) y x)"
      unfolding s case_prod_conv using False by blast
  qed
qed

text \<open>With the extra signals off, the whole shot is one function of each pixel.\<close>

lemma bitbend_pointwise:
  assumes ok: "sensor_ok sn" and cf: "conf_shape cf" and en: "cf_bitbend_enable cf \<noteq> 0" and simple: "cf_bitbend_simple cf \<noteq> 0"
    and fb: "length (rw_fb st) = sn_rows sn * sn_rowlen sn" and table: "shot_ready sn mallocs st"
  shows "ok (raw_bitbend sn mallocs tick (cf, st)) (\<lambda>(cf', st').
    \<forall>y < sn_rows sn. \<forall>x < sn_rowpix sn. let M = pixel_matrix sn cf' (shot_pattern tick st) y x in
      bend_ok M \<and> pure_route M \<and>
      (\<exists>v. rget sn (rw_fb st) (y, x) = Some v \<and>
        rget sn (rw_fb st') (y, x) = Some (if row_on M y \<and> in_scope M y x
          then bend_eval (bend_compile M (sn_bits sn)) v (int x) (int y) src else v)))"
proof -
  define c1 where "c1 = cf\<lparr>cf_bend_segs := bend_seg_sanitize (cf_bend_segs cf) (sn_bits sn)\<rparr>"
  let ?pt = "shot_pattern tick st"
  have nb: "2 \<le> sn_bits sn" "sn_bits sn \<le> 16" using sensor_depth[OF ok] by (auto simp: mexp_depth_def)
  show ?thesis
  proof (rule ok_mono[OF raw_bitbend_spec[OF ok cf en fb c1_def, of mallocs tick]])
    fix s :: "conf_t \<times> raw_t"
    obtain cf' st' where s: "s = (cf', st')" by (cases s)
    assume A: "conf_shape c1 \<and> shot_inv sn ?pt (rw_fb st) c1 (shot_ready sn mallocs st) (nat (bend_seg_n c1)) s"
    then have lay: "same_layout c1 cf'" by (simp add: shot_inv_def s)
    have n: "bend_seg_n cf' = bend_seg_n c1" using lay by (simp add: same_layout_def bend_seg_n_def)
    have n4: "nat (bend_seg_n c1) \<le> BEND_SEG_MAX" using seg_n_range[of c1] by (simp add: nat_le_iff)
    have mats: "bend_seg_conf cf' (int j) = bent_matrix (sn_bits sn) (cf_bitbend_simple cf) (bend_seg_conf c1 (int j))"
      if "j < nat (bend_seg_n c1)" for j
      using A table that by (simp add: shot_inv_def s c1_def)
    have usable: "bend_ok (bend_seg_conf cf' (int j)) \<and> pure_route (bend_seg_conf cf' (int j))"
      if j: "j < nat (bend_seg_n c1)" for j
    proof -
      have sh: "bend_shape (bend_seg_conf c1 (int j))" using seg_conf_shape A j n4 by simp
      have "pure_route (bent_matrix (sn_bits sn) (cf_bitbend_simple cf) (bend_seg_conf c1 (int j)))"
        using simple bend_okD(3)[OF bent_matrix_ok[OF nb sh, of "cf_bitbend_simple cf"]]
        by (auto simp: bent_matrix_def Let_def pure_route_def in_set_conv_nth bend_simplify_pure)
      then show ?thesis using mats[OF j] bent_matrix_ok[OF nb sh] by simp
    qed
    have r: "remap sn (region_value sn cf' ?pt) (shot_cells sn cf' ?pt (nat (bend_seg_n c1))) (rw_fb st) (rw_fb st')"
      using A table usable pure_route_compiles[OF _ _ nb(2)] by (simp add: shot_inv_def s)
    have "let M = pixel_matrix sn cf' ?pt y x in bend_ok M \<and> pure_route M \<and>
      (\<exists>v. rget sn (rw_fb st) (y, x) = Some v \<and>
        rget sn (rw_fb st') (y, x) = Some (if row_on M y \<and> in_scope M y x
          then bend_eval (bend_compile M (sn_bits sn)) v (int x) (int y) src else v))"
      if y: "y < sn_rows sn" and x: "x < sn_rowpix sn" for y x
    proof -
      define M where "M = pixel_matrix sn cf' ?pt y x"
      obtain j where j: "M = bend_seg_conf cf' (int j)" "j < nat (bend_seg_n c1)"
        using region_range[OF ok x, of ?pt "uint (g_layout (cf_bend_segs cf'))" "uint (g_size (cf_bend_segs cf'))" y] n
        unfolding M_def pixel_matrix_def bend_seg_n_def by (metis nonneg_int_cases zless_nat_eq_int_zless)
      have M: "bend_ok M" "pure_route M" using usable[OF j(2)] by (simp_all add: j(1))
      have fr: "in_frame sn (rw_fb st) (y, x)" using x y fb by (simp add: in_frame_def)
      obtain v where v: "rget sn (rw_fb st) (y, x) = Some v" "fits (sn_bits sn) v" using rget_the[OF ok fr] by blast
      have "rget sn (rw_fb st') (y, x) = Some (if row_on M y \<and> in_scope M y x then region_value sn cf' ?pt (y, x) v else v)"
        using r fr v(1) shot_cells_all[OF ok y x, of cf' ?pt] unfolding remap_def M_def n by simp
      moreover have "region_value sn cf' ?pt (y, x) v = bend_eval (bend_compile M (sn_bits sn)) v (int x) (int y) src"
        using pure_eval_lut[OF ok pure_route_compiles[OF M nb(2)] v(2)] by (simp add: region_value_def M_def pixel_matrix_def)
      ultimately show ?thesis using M v(1) by (simp add: Let_def flip: M_def)
    qed
    then show "case s of (cf', st') \<Rightarrow> \<forall>y < sn_rows sn. \<forall>x < sn_rowpix sn. let M = pixel_matrix sn cf' ?pt y x in
      bend_ok M \<and> pure_route M \<and>
      (\<exists>v. rget sn (rw_fb st) (y, x) = Some v \<and>
        rget sn (rw_fb st') (y, x) = Some (if row_on M y \<and> in_scope M y x
          then bend_eval (bend_compile M (sn_bits sn)) v (int x) (int y) src else v))"
      by (simp add: s)
  qed
qed

text \<open>The rest of the configuration block is left alone.\<close>

lemma bitbend_keeps:
  assumes ok: "sensor_ok sn" and cf: "conf_shape cf" and en: "cf_bitbend_enable cf \<noteq> 0"
    and fb: "length (rw_fb st) = sn_rows sn * sn_rowlen sn"
  shows "ok (raw_bitbend sn mallocs tick (cf, st)) (\<lambda>(cf', st'). conf_shape cf' \<and>
    length (rw_fb st') = length (rw_fb st) \<and> cf_bendx cf' = cf_bendx cf \<and>
    cf_bendx_enable cf' = cf_bendx_enable cf \<and> cf_bitbend_enable cf' = cf_bitbend_enable cf \<and>
    cf_bitbend_simple cf' = cf_bitbend_simple cf)"
  by (rule ok_mono[OF raw_bitbend_spec[OF ok cf en fb refl, of mallocs tick]])
    (auto simp: shot_inv_def same_layout_def touches_def)

end
