(* ===== verification/RawScan.thy ===== *)
theory RawScan
  imports RawBend
begin

text \<open>
  What the held samples do (\<open>bb_run\<close> of \<open>core/raw.c\<close>): a pass over a whole frame as a recurrence.
  The hold bus reads the pixel before it as it was, the bus from the row above and a tap that
  points backwards read pixels already bent, a tap that points forwards reads them as they were.
\<close>

text \<open>The noise word at a column: the trash generator stepped once per column from the row's seed.\<close>

definition trash_state :: "bend_t \<Rightarrow> u32 \<Rightarrow> nat \<Rightarrow> u32" where
  "trash_state b s x = fold (\<lambda>i s. fst (bend_trash_step b s (word_of_nat i))) [0..<x] s"

definition trash_word :: "bend_t \<Rightarrow> u32 \<Rightarrow> nat \<Rightarrow> u32" where
  "trash_word b s x = snd (bend_trash_step b (trash_state b s x) (word_of_nat x))"

definition before :: "nat \<times> nat \<Rightarrow> nat \<times> nat \<Rightarrow> bool" where
  "before = (\<lambda>(ty, tx) (y, x). ty < y \<or> ty = y \<and> tx < x)"

definition ob_of :: "sensor_t \<Rightarrow> bend_cc_t \<Rightarrow> u8 list \<Rightarrow> nat \<Rightarrow> u32" where
  "ob_of sn cc fb y = (if bb_uses cc BUS_OB then the (rget sn fb (y, BB_OB_X sn)) else 0)"

text \<open>The sources of a pixel, \<open>fb\<close> being the frame before the pass and \<open>q\<close> the frame after it.\<close>

definition scan_src :: "sensor_t \<Rightarrow> bend_cc_t \<Rightarrow> bend_t \<Rightarrow> u32 \<Rightarrow> u8 list \<Rightarrow> u8 list \<Rightarrow> nat \<Rightarrow> nat \<Rightarrow> bend_src_t" where
  "scan_src sn cc b frame fb q y x =
     (let ob = ob_of sn cc fb y; t = prod.swap (tap_at sn b x y) in
      \<lparr>s_prev = if 0 < x then the (rget sn fb (y, x - 1)) else 0,
       s_above = if bb_uses cc BUS_VHOLD \<and> 0 < y then the (rget sn q (y - 1, x)) else 0,
       s_ob = ob,
       s_tap = if bb_uses cc BUS_TAP then the (rget sn (if before t (y, x) then q else fb) t) else 0,
       s_noise = if bb_uses cc BUS_NOISE then trash_word b (bend_trash_seed b (word_of_nat y) ob) x else 0,
       s_frame = frame\<rparr>)"

definition scan_px :: "sensor_t \<Rightarrow> bend_cc_t \<Rightarrow> bend_t \<Rightarrow> u32 \<Rightarrow> u8 list \<Rightarrow> u8 list \<Rightarrow> nat \<Rightarrow> nat \<Rightarrow> u32" where
  "scan_px sn cc b frame fb q y x =
     bend_eval cc (the (rget sn fb (y, x))) (int x) (int y) (scan_src sn cc b frame fb q y x)"

text \<open>The pixels up to a point of the scan obey the recurrence, the others are as they were.\<close>

definition scanned :: "sensor_t \<Rightarrow> bend_cc_t \<Rightarrow> bend_t \<Rightarrow> u32 \<Rightarrow> u8 list \<Rightarrow> nat \<times> nat \<Rightarrow> u8 list \<Rightarrow> bool" where
  "scanned sn cc b frame fb at q \<longleftrightarrow> length q = length fb \<and>
     (\<forall>y x. in_frame sn fb (y, x) \<longrightarrow> rget sn q (y, x) =
       (if before (y, x) at \<and> row_on b y then Some (scan_px sn cc b frame fb q y x) else rget sn fb (y, x)))"

lemma before_simps [simp]: "before (a, b) (c, d) \<longleftrightarrow> a < c \<or> a = c \<and> b < d"
  by (simp add: before_def)

lemma scan_src_cong:
  assumes "\<And>s. before s (y, x) \<Longrightarrow> in_frame sn fb s \<Longrightarrow> rget sn q s = rget sn r s" "in_frame sn fb (y, x)"
  shows "scan_src sn cc b frame fb q y x = scan_src sn cc b frame fb r y x"
proof -
  obtain tx ty where t: "tap_at sn b x y = (tx, ty)" by (cases "tap_at sn b x y")
  have f: "in_frame sn fb (ty, tx)" by (rule tap_in_frame[OF assms(2) t])
  have "0 < y \<Longrightarrow> in_frame sn fb (y - 1, x)" using assms(2) by (simp add: in_frame_def less_imp_diff_less)
  then show ?thesis using assms(1)[of "(y - 1, x)"] assms(1)[of "(ty, tx)"] f t by (auto simp: scan_src_def Let_def)
qed

text \<open>One pixel extends what has been scanned; the locals of the row are what the recurrence says.\<close>

definition row_locals :: "sensor_t \<Rightarrow> bend_cc_t \<Rightarrow> bend_t \<Rightarrow> u32 \<Rightarrow> u8 list \<Rightarrow> nat \<Rightarrow> nat \<Rightarrow> bend_src_t \<times> u32 \<Rightarrow> bool" where
  "row_locals sn cc b frame fb y x = (\<lambda>(src, ns).
     let ob = ob_of sn cc fb y in
     ns = (if bb_uses cc BUS_NOISE then trash_state b (bend_trash_seed b (word_of_nat y) ob) x
           else bend_trash_seed b (word_of_nat y) ob) \<and>
     s_prev src = (if 0 < x then the (rget sn fb (y, x - 1)) else 0) \<and> s_ob src = ob \<and> s_frame src = frame \<and>
     (\<not> bb_uses cc BUS_VHOLD \<longrightarrow> s_above src = 0) \<and> (\<not> bb_uses cc BUS_TAP \<longrightarrow> s_tap src = 0) \<and>
     (\<not> bb_uses cc BUS_NOISE \<longrightarrow> s_noise src = 0))"

lemma stepped_is_scan_src:
  assumes loc: "row_locals sn cc b frame fb y x (src, ns)" and fr: "in_frame sn fb (y, x)" and on: "row_on b y"
    and q: "scanned sn cc b frame fb (y, x) q"
  shows "fst (stepped sn cc b y x q (src, ns)) = scan_src sn cc b frame fb q y x"
    and "row_locals sn cc b frame fb y (Suc x) ((fst (stepped sn cc b y x q (src, ns)))\<lparr>s_prev := the (rget sn fb (y, x))\<rparr>,
      snd (stepped sn cc b y x q (src, ns)))"
proof -
  obtain tx ty where t: "tap_at sn b x y = (tx, ty)" by (cases "tap_at sn b x y")
  have f: "in_frame sn fb (ty, tx)" by (rule tap_in_frame[OF fr t])
  have tap: "\<not> before (ty, tx) (y, x) \<Longrightarrow> rget sn q (ty, tx) = rget sn fb (ty, tx)"
    using q f unfolding scanned_def by (metis (full_types))
  show "fst (stepped sn cc b y x q (src, ns)) = scan_src sn cc b frame fb q y x"
    using loc tap by (auto simp: stepped_def scan_src_def row_locals_def Let_def t trash_word_def intro!: bend_src_t.equality)
  show "row_locals sn cc b frame fb y (Suc x) ((fst (stepped sn cc b y x q (src, ns)))\<lparr>s_prev := the (rget sn fb (y, x))\<rparr>,
      snd (stepped sn cc b y x q (src, ns)))"
    using loc by (auto simp: stepped_def row_locals_def Let_def t trash_state_def)
qed

section \<open>Along a row\<close>

lemma scanned_step:
  assumes ok: "sensor_ok sn" and fr: "in_frame sn fb (y, x)" and on: "row_on b y"
    and q: "scanned sn cc b frame fb (y, x) q"
    and r: "remap sn (\<lambda>_ _. scan_px sn cc b frame fb q y x) {(y, x)} q r"
  shows "scanned sn cc b frame fb (y, Suc x) r"
proof -
  have len: "length r = length q" "length q = length fb" using q r by (simp_all add: scanned_def remap_def)
  have in_q: "in_frame sn q s = in_frame sn fb s" for s by (rule in_frame_length[OF len(2)])
  have at: "rget sn r (y, x) = Some (scan_px sn cc b frame fb q y x)"
    using r fr in_q rget_the(1)[OF ok, of q "(y, x)"] unfolding remap_def by (metis insertI1 option.map(2))
  have other: "rget sn r s = rget sn q s" if "s \<noteq> (y, x)" "in_frame sn fb s" for s
    using r that in_q unfolding remap_def by (metis singletonD)
  have same: "scan_px sn cc b frame fb r y' x' = scan_px sn cc b frame fb q y' x'"
    if "in_frame sn fb (y', x')" "before (y', x') (y, Suc x)" for y' x'
  proof -
    have "scan_src sn cc b frame fb r y' x' = scan_src sn cc b frame fb q y' x'"
      by (rule scan_src_cong[OF other that(1)]) (use that(2) in auto)
    then show ?thesis by (simp add: scan_px_def)
  qed
  have "rget sn r (y', x') = (if before (y', x') (y, Suc x) \<and> row_on b y'
      then Some (scan_px sn cc b frame fb r y' x') else rget sn fb (y', x'))" if f: "in_frame sn fb (y', x')" for y' x'
  proof (cases "(y', x') = (y, x)")
    case True
    then show ?thesis using at on same[OF f] by auto
  next
    case False
    then have "before (y', x') (y, Suc x) = before (y', x') (y, x)" by auto
    moreover have "rget sn q (y', x') = (if before (y', x') (y, x) \<and> row_on b y'
        then Some (scan_px sn cc b frame fb q y' x') else rget sn fb (y', x'))"
      using q f unfolding scanned_def by blast
    ultimately show ?thesis using other[OF False f] same[OF f] by auto
  qed
  then show ?thesis using len by (simp add: scanned_def)
qed

lemma scan_row:
  assumes ok: "sensor_ok sn" and y: "y < sn_rows sn" and on: "row_on b y" and bayer: "b_bayer b = 0"
    and fb: "length fb = sn_rows sn * sn_rowlen sn" and cc: "cc = bend_compile b (sn_bits sn)"
    and q: "scanned sn cc b frame fb (y, 0) q" and loc: "row_locals sn cc b frame fb y 0 (src, ns)"
  shows "ok (for_range 0 (sn_rowpix sn) (bb_pixel sn cc b y) (src, ns, q))
    (\<lambda>s. scanned sn cc b frame fb (y, sn_rowpix sn) (snd (snd s)))"
proof -
  let ?I = "\<lambda>x s. scanned sn cc b frame fb (y, x) (snd (snd s)) \<and> row_locals sn cc b frame fb y x (fst s, fst (snd s))"
  have "ok (for_range 0 (sn_rowpix sn) (bb_pixel sn cc b y) (src, ns, q)) (?I (sn_rowpix sn))"
  proof (rule for_range_inv)
    show "?I 0 (src, ns, q)" using q loc by simp
    fix x s assume x: "x < sn_rowpix sn" and I: "?I x s"
    obtain src ns p where s: "s = (src, ns, p)" by (cases s)
    have p: "scanned sn cc b frame fb (y, x) p" and l: "row_locals sn cc b frame fb y x (src, ns)" using I by (simp_all add: s)
    have fr: "in_frame sn fb (y, x)" using x y fb by (simp add: in_frame_def)
    have pf: "length p = length fb" using p by (simp add: scanned_def)
    then have frp: "in_frame sn p (y, x)" using fr in_frame_length by blast
    have v: "rget sn p (y, x) = rget sn fb (y, x)" using p fr unfolding scanned_def by (metis before_simps less_irrefl)
    obtain src' ns' where st: "stepped sn cc b y x p (src, ns) = (src', ns')" by fastforce
    have src': "src' = scan_src sn cc b frame fb p y x"
      using stepped_is_scan_src(1)[OF l fr on p] by (simp add: st)
    have next_row: "row_locals sn cc b frame fb y (Suc x) (src'\<lparr>s_prev := the (rget sn fb (y, x))\<rparr>, ns')"
      using stepped_is_scan_src(2)[OF l fr on p] by (simp add: st)
    have w: "scan_px sn cc b frame fb p y x = bend_eval cc (the (rget sn fb (y, x))) (int x) (int y) src'"
      by (simp add: scan_px_def src')
    have "fits (sn_bits sn) (bend_eval cc (the (rget sn fb (y, x))) (int x) (int y) src')"
      unfolding cc by (rule eval_fits)
    then have fw: "fits (sn_bits sn) (scan_px sn cc b frame fb p y x)" unfolding w .
    have vp: "rget sn p (y, x) = Some (the (rget sn fb (y, x)))" unfolding v by (rule rget_the(1)[OF ok fr])
    have "ok (bb_pixel sn cc b y x s) (\<lambda>s. case s of (src2, ns2, r) \<Rightarrow>
        src2 = src'\<lparr>s_prev := the (rget sn fb (y, x))\<rparr> \<and> ns2 = ns' \<and>
        remap sn (\<lambda>_ _. scan_px sn cc b frame fb p y x) {(y, x)} p r)"
      unfolding s using bb_pixel_step[OF ok frp _ vp st w fw] by (simp add: in_scope_def bayer)
    then show "ok (bb_pixel sn cc b y x s) (?I (Suc x))"
      by (rule ok_mono) (use scanned_step[OF ok fr on p] next_row in auto)
  qed simp
  then show ?thesis by (rule ok_mono) simp
qed

section \<open>The pass\<close>

lemma scanned_row_end:
  assumes "scanned sn cc b frame fb (y, sn_rowpix sn) q"
  shows "scanned sn cc b frame fb (Suc y, 0) q"
proof -
  have "before (y', x') (y, sn_rowpix sn) = before (y', x') (Suc y, 0)" if "in_frame sn fb (y', x')" for y' x'
    using that by (auto simp: in_frame_def)
  then show ?thesis using assms unfolding scanned_def by simp
qed

lemma scanned_row_off:
  assumes "scanned sn cc b frame fb (y, 0) q" "\<not> row_on b y"
  shows "scanned sn cc b frame fb (Suc y, 0) q"
proof -
  have "before (y', x') (Suc y, 0) \<and> row_on b y' \<longleftrightarrow> before (y', x') (y, 0) \<and> row_on b y'" for y' x'
    using assms(2) by (auto simp: less_Suc_eq)
  then show ?thesis using assms(1) unfolding scanned_def by simp
qed

text \<open>A pure row: the table is the recurrence, because nothing but the pixel itself is read.\<close>

lemma scanned_pure_row:
  assumes ok: "sensor_ok sn" and y: "y < sn_rows sn" and on: "row_on b y" and fb: "length fb = sn_rows sn * sn_rowlen sn"
    and cc: "cc = bend_compile b (sn_bits sn)" and p: "c_is_pure cc"
    and q: "scanned sn cc b frame fb (y, 0) q" and r: "remap sn (\<lambda>_. lut_fun (c_lut cc)) (columns y 0 (sn_rowpix sn)) q r"
  shows "scanned sn cc b frame fb (Suc y, 0) r"
proof -
  have len: "length r = length q" "length q = length fb" using q r by (simp_all add: scanned_def remap_def)
  have in_q: "in_frame sn q s = in_frame sn fb s" for s by (rule in_frame_length[OF len(2)])
  have px: "scan_px sn cc b frame fb u y' x' = lut_fun (c_lut cc) (the (rget sn fb (y', x')))"
    if "in_frame sn fb (y', x')" for u y' x'
    using pure_eval_lut[OF ok p[unfolded cc] rget_the(2)[OF ok that]] by (simp add: scan_px_def cc)
  have "rget sn r (y', x') = (if before (y', x') (Suc y, 0) \<and> row_on b y'
      then Some (scan_px sn cc b frame fb r y' x') else rget sn fb (y', x'))" if f: "in_frame sn fb (y', x')" for y' x'
  proof -
    have Q: "rget sn q (y', x') = (if y' < y \<and> row_on b y' then Some (scan_px sn cc b frame fb q y' x') else rget sn fb (y', x'))"
      using q f unfolding scanned_def by simp
    have R: "rget sn r (y', x') = (if y' = y then map_option (lut_fun (c_lut cc)) (rget sn q (y', x')) else rget sn q (y', x'))"
      using r f in_q[of "(y', x')"] unfolding remap_def by (auto simp: in_frame_def)
    show ?thesis
      unfolding R Q px[OF f] using on rget_the(1)[OF ok f] by (auto simp: less_Suc_eq)
  qed
  then show ?thesis using len by (simp add: scanned_def)
qed

lemma off_spans:
  assumes "sensor_ok sn"
  shows "bend_seg_spans pat 0 sz y (int (sn_rowpix sn)) h = (pat, [(0, int (sn_rowpix sn))])"
proof -
  have "0 < sn_rowpix sn" "sn_rowpix sn < 65536" using assms by (simp_all add: sensor_ok_def)
  then show ?thesis
    by (simp add: bend_seg_spans_def layout_spans_def Let_def BSEG_IS_PATTERN_def bseg_emit_def)
qed

lemma scan_whole_row:
  assumes ok: "sensor_ok sn" and y: "y < sn_rows sn" and bayer: "b_bayer b = 0" and fb: "length fb = sn_rows sn * sn_rowlen sn"
    and cc: "cc = bend_compile b (sn_bits sn)" and q: "scanned sn cc b frame fb (y, 0) q"
  shows "ok (bb_row sn cc b 0 sz 0 frame y (pat, q)) (\<lambda>s. scanned sn cc b frame fb (Suc y, 0) (snd s))"
proof (cases "row_on b y")
  case False
  then show ?thesis using scanned_row_off[OF q] by (simp add: bb_row_def row_on_def ok_simps)
next
  case True
  let ?w = "sn_rowpix sn"
  have len: "length q = sn_rows sn * sn_rowlen sn" using q fb by (simp add: scanned_def)
  have frame_ob: "in_frame sn fb (y, BB_OB_X sn)" using ok y fb by (simp add: in_frame_def sensor_ok_def)
  then have "in_frame sn q (y, BB_OB_X sn)" using len fb by (simp add: in_frame_def)
  moreover have "rget sn q (y, BB_OB_X sn) = rget sn fb (y, BB_OB_X sn)"
    using q frame_ob unfolding scanned_def by simp
  ultimately have ob: "(if bb_uses cc BUS_OB then px_rd sn q (BB_OB_X sn) y else Some 0) = Some (ob_of sn cc fb y)"
    using px_rd_rget[OF ok, of q y "BB_OB_X sn"] rget_the(1)[OF ok frame_ob] by (simp add: ob_of_def)
  define src where "src = \<lparr>s_prev = 0, s_above = 0, s_ob = ob_of sn cc fb y, s_tap = 0, s_noise = 0, s_frame = frame\<rparr>"
  define ns where "ns = bend_trash_seed b (word_of_nat y) (ob_of sn cc fb y)"
  have run: "bb_row sn cc b 0 sz 0 frame y (pat, q) =
      do { (src, noise_state, fb) \<leftarrow> bb_span sn cc b y 0 ?w (src, ns, q); Some (pat, fb) }"
    unfolding bb_row_def split off_spans[OF ok] Let_def if_not_P[OF True[unfolded row_on_def]] ob
    by (simp add: bb_spans_def src_def ns_def)
  have loc: "row_locals sn cc b frame fb y 0 (src, ns)"
    by (simp add: row_locals_def src_def ns_def trash_state_def)
  have "ok (bb_span sn cc b y 0 ?w (src, ns, q)) (\<lambda>s. scanned sn cc b frame fb (Suc y, 0) (snd (snd s)))"
  proof (cases "(sn_bits sn = 10 \<or> sn_bits sn = 12) \<and> c_is_pure cc \<and> b_bayer b = 0")
    case fast: True
    have "cells b y 0 ?w = columns y 0 ?w" using bayer by (auto simp: in_scope_def)
    then have "ok (bb_span sn cc b y 0 ?w (src, ns, q)) (\<lambda>s. remap sn (\<lambda>_. lut_fun (c_lut cc)) (columns y 0 ?w) q (snd (snd s)))"
      using span_fast[OF ok y le0 le_refl len, of b src ns] fast by (simp add: cc)
    then show ?thesis by (rule ok_mono) (rule scanned_pure_row[OF ok y True fb cc _ q], use fast in auto)
  next
    case False
    have "bb_span sn cc b y 0 ?w (src, ns, q) = for_range 0 ?w (bb_pixel sn cc b y) (src, ns, q)"
      using span_prev[OF ok y le0 le_refl len False, of src ns] by (simp add: src_def)
    then show ?thesis
      using scan_row[OF ok y True bayer fb cc q loc] by (auto intro: ok_mono scanned_row_end)
  qed
  then show ?thesis by (simp add: run ok_simps split_beta)
qed

text \<open>The whole frame, region by region switched off: the recurrence, and the rows out of scope as they were.\<close>

lemma scan_whole_frame:
  assumes ok: "sensor_ok sn" and bayer: "b_bayer b' = 0" and fb: "length (rw_fb st) = sn_rows sn * sn_rowlen sn"
    and b': "b' = bent_matrix (sn_bits sn) simple b" and table: "fst (bb_lut_ready sn malloc st)"
  shows "ok (bb_run sn malloc simple b 0 sz 0 st) (\<lambda>(b2, st'). b2 = b' \<and>
    scanned sn (bend_compile b' (sn_bits sn)) b' (rw_frame st) (rw_fb st) (sn_rows sn, 0) (rw_fb st'))"
proof -
  let ?cc = "bend_compile b' (sn_bits sn)" and ?f = "rw_frame st" and ?fb = "rw_fb st"
  obtain st1 where r: "bb_lut_ready sn malloc st = (True, st1)" using table by (cases "bb_lut_ready sn malloc st") auto
  have st1: "rw_fb st1 = ?fb" "rw_frame st1 = ?f" "rw_pat st1 = rw_pat st"
    using r by (auto simp: bb_lut_ready_def split: if_splits option.splits)
  have run: "bb_run sn malloc simple b 0 sz 0 st = (if c_is_identity ?cc then Some (b', st1)
      else do { (pat, fb) \<leftarrow> for_range 0 (sn_rows sn) (bb_row sn ?cc b' 0 sz 0 ?f) (rw_pat st, ?fb);
                Some (b', st1\<lparr>rw_pat := pat, rw_fb := fb\<rparr>) })"
    by (simp add: bb_run_def r Let_def st1 b' bent_matrix_def)
  have zero: "scanned sn ?cc b' ?f ?fb (0, 0) ?fb" by (simp add: scanned_def)
  show ?thesis
  proof (cases "c_is_identity ?cc")
    case True
    have nb: "sn_bits sn \<le> 16" using sensor_depth[OF ok] by (auto simp: mexp_depth_def)
    have "scan_px sn ?cc b' ?f ?fb q y x = the (rget sn ?fb (y, x))" if "in_frame sn ?fb (y, x)" for q y x
      using identity_eval[OF True nb] fits_and_mask[OF rget_the(2)[OF ok that]] by (simp add: scan_px_def)
    then have "scanned sn ?cc b' ?f ?fb (sn_rows sn, 0) ?fb"
      using rget_the(1)[OF ok] by (simp add: scanned_def)
    then show ?thesis using True by (simp add: run ok_simps st1)
  next
    case False
    have "ok (for_range 0 (sn_rows sn) (bb_row sn ?cc b' 0 sz 0 ?f) (rw_pat st, ?fb))
        (\<lambda>s. scanned sn ?cc b' ?f ?fb (sn_rows sn, 0) (snd s))"
    proof (rule for_range_inv[where I = "\<lambda>y s. scanned sn ?cc b' ?f ?fb (y, 0) (snd s)"])
      fix y and s :: "pat_state \<times> u8 list" assume y: "y < sn_rows sn" and I: "scanned sn ?cc b' ?f ?fb (y, 0) (snd s)"
      show "ok (bb_row sn ?cc b' 0 sz 0 ?f y s) (\<lambda>s. scanned sn ?cc b' ?f ?fb (Suc y, 0) (snd s))"
        using scan_whole_row[OF ok y bayer fb refl I, of sz "fst s"] by simp
    qed (use zero in simp_all)
    then show ?thesis using False by (auto simp: run ok_simps split_beta elim!: ok_mono)
  qed
qed

end
