(* ===== verification/RawMexp.thy ===== *)
theory RawMexp
  imports RawPixels Card
begin

text \<open>
  Multiple exposure at the capture (\<open>core/raw.c\<close>): \<open>mexp_store\<close> writes the raw frame to the card
  as the accumulator, \<open>mexp_combine\<close> blends it into the next exposure row by row, \<open>raw_mexp\<close>
  runs the sequence. The card is a \<open>card_ops\<close>; \<open>stat\<close> and the three calls of \<open>malloc\<close> are
  parameters. The calls of the ghost (\<open>MexpGhost\<close>) touch only its own state
  and the screen; they and the busy LED are left out. A result \<open>None\<close> is an
  access outside the frame or a row buffer.
\<close>

section \<open>The accumulator file\<close>

abbreviation (input) MEXP_TMP_FILE :: string where "MEXP_TMP_FILE \<equiv> ''A/CHDK/MEXP.TMP''"

text \<open>What \<open>conf\<close> asks for.\<close>

record mexp_conf_t =
  mexp_enable :: int
  mexp_mode :: int
  mexp_frames :: int
  mexp_bend_each :: int

definition mexp_store :: "sensor_t \<Rightarrow> 'c card_ops \<Rightarrow> u8 list \<Rightarrow> 'c \<Rightarrow> (bool \<times> 'c) option" where
  "mexp_store sn ops adr c =
     (if sn_size sn \<le> length adr then Some (write_file ops c MEXP_TMP_FILE [take (sn_size sn) adr]) else None)"

text \<open>
  The bytes of a row the packing routines touch. The loop of \<open>mexp_combine\<close> over the rows from
  \<open>j\<close>, \<open>k\<close> of them: \<open>rest\<close> is what the file still holds, \<open>av\<close> and \<open>vv\<close> are the row buffers.
\<close>

definition row_bytes :: "sensor_t \<Rightarrow> nat" where
  "row_bytes sn = sn_rowpix sn div group_px (sn_bits sn) * group_bytes (sn_bits sn)"

primrec combine_rows :: "sensor_t \<Rightarrow> int \<Rightarrow> u32 \<Rightarrow> nat \<Rightarrow> nat \<Rightarrow> u8 list \<Rightarrow> u16 list \<Rightarrow> u16 list \<Rightarrow> u8 list \<Rightarrow>
    (bool \<times> u8 list) option" where
  "combine_rows sn mode n 0 j rest av vv fb = Some (True, fb)"
| "combine_rows sn mode n (Suc k) j rest av vv fb =
     (let live = drop (j * sn_rowlen sn) fb in
      case rd_n (sn_rowlen sn) rest of
        None \<Rightarrow> Some (False, fb)
      | Some (frow, rest) \<Rightarrow>
          if row_bytes sn \<le> length frow \<and> row_bytes sn \<le> length live then
            let av = mexp_row_unpack (sn_bits sn) frow av (sn_rowpix sn);
                vv = mexp_row_unpack (sn_bits sn) live vv (sn_rowpix sn);
                av = mexp_row_blend mode av vv (sn_rowpix sn) n (sn_black sn) (sn_white sn);
                live = mexp_row_pack (sn_bits sn) av live (sn_rowpix sn)
            in combine_rows sn mode n k (j + 1) rest av vv (take (j * sn_rowlen sn) fb @ live)
          else None)"

text \<open>\<open>mal i n\<close> is what the \<open>i\<close>th call of \<open>malloc\<close> of the routine returns for \<open>n\<close> bytes, as 16 bit cells.\<close>

definition mexp_combine :: "sensor_t \<Rightarrow> 'c card_ops \<Rightarrow> ('c \<Rightarrow> string \<Rightarrow> int option) \<Rightarrow> (nat \<Rightarrow> nat \<Rightarrow> u16 list option) \<Rightarrow>
    int \<Rightarrow> u32 \<Rightarrow> 'c \<Rightarrow> u8 list \<Rightarrow> (bool \<times> u8 list) option" where
  "mexp_combine sn ops stat mal mode n c fb =
     (if stat c MEXP_TMP_FILE \<noteq> Some (int (sn_size sn)) then Some (False, fb)
      else case (mal 0 (sn_rowlen sn), mal 1 (2 * sn_rowpix sn), mal 2 (2 * sn_rowpix sn)) of
        (Some frow, Some av, Some vv) \<Rightarrow>
          (case co_read ops c MEXP_TMP_FILE of
             None \<Rightarrow> Some (False, fb)
           | Some bs \<Rightarrow> combine_rows sn mode n (sn_rows sn) 0 bs av vv fb)
      | _ \<Rightarrow> Some (False, fb))"

section \<open>The sequence\<close>

definition raw_mexp_cancel :: "'c card_ops \<Rightarrow> 'c \<times> mexp_t \<Rightarrow> 'c \<times> mexp_t" where
  "raw_mexp_cancel ops = (\<lambda>(c, st). (co_remove ops c MEXP_TMP_FILE, mexp_reset st))"

text \<open>The three branches on the count, then the end of the sequence.\<close>

definition mexp_first :: "sensor_t \<Rightarrow> 'c card_ops \<Rightarrow> mexp_conf_t \<Rightarrow> u8 list \<Rightarrow> 'c \<Rightarrow> mexp_t \<Rightarrow> ('c \<times> mexp_t) option" where
  "mexp_first sn ops cf fb c st =
     do { let st = mexp_begin (mexp_mode cf) (mexp_frames cf) (mexp_bend_each cf) st;
          (good, c) \<leftarrow> mexp_store sn ops fb c;
          Some (c, if good then st\<lparr>mexp_count := 1\<rparr> else st) }"

definition mexp_next :: "sensor_t \<Rightarrow> 'c card_ops \<Rightarrow> ('c \<Rightarrow> string \<Rightarrow> int option) \<Rightarrow> (nat \<Rightarrow> nat \<Rightarrow> u16 list option) \<Rightarrow>
    u8 list \<Rightarrow> 'c \<Rightarrow> mexp_t \<Rightarrow> (u8 list \<times> 'c \<times> mexp_t) option" where
  "mexp_next sn ops stat mal fb c st =
     do { (good, fb) \<leftarrow> mexp_combine sn ops stat mal (mexp_mode_used st) (word_of_int (mexp_count st)) c fb;
          if good then
            let st = st\<lparr>mexp_count := mexp_count st + 1\<rparr> in
            if mexp_count st < mexp_target st then
              do { (stored, c) \<leftarrow> mexp_store sn ops fb c; Some (fb, c, st) }
            else Some (fb, c, st)
          else Some (fb, raw_mexp_cancel ops (c, st)) }"

definition raw_mexp :: "sensor_t \<Rightarrow> 'c card_ops \<Rightarrow> ('c \<Rightarrow> string \<Rightarrow> int option) \<Rightarrow> (nat \<Rightarrow> nat \<Rightarrow> u16 list option) \<Rightarrow>
    mexp_conf_t \<Rightarrow> u8 list \<times> 'c \<times> mexp_t \<Rightarrow> (int \<times> u8 list \<times> 'c \<times> mexp_t) option" where
  "raw_mexp sn ops stat mal cf = (\<lambda>(fb, c, st).
     if mexp_enable cf = 0 then
       (if mexp_count st \<noteq> 0 then Some (0, fb, raw_mexp_cancel ops (c, st)) else Some (0, fb, c, st))
     else do {
       (fb, c, st) \<leftarrow> (if mexp_count st = 0 then map_option (Pair fb) (mexp_first sn ops cf fb c st)
                       else mexp_next sn ops stat mal fb c st);
       if mexp_target st \<le> mexp_count st
       then Some (1, fb, co_remove ops c MEXP_TMP_FILE, mexp_reset st)
       else Some (0, fb, c, st) })"

section \<open>Rows as pixels\<close>

definition row_pixels :: "sensor_t \<Rightarrow> u8 list \<Rightarrow> nat \<Rightarrow> u16 list" where
  "row_pixels sn fb y =
     unpack_loop (sn_bits sn) (sn_rowpix sn div group_px (sn_bits sn)) (drop (y * sn_rowlen sn) fb)"

lemma rowpix_groups:
  assumes "sensor_ok sn"
  shows "sn_rowpix sn div group_px (sn_bits sn) * group_px (sn_bits sn) = sn_rowpix sn"
  using assms by (simp add: sensor_ok_def mod_0_imp_dvd)

lemma row_bytes_le: "sensor_ok sn \<Longrightarrow> row_bytes sn \<le> sn_rowlen sn"
  by (simp add: sensor_ok_def row_bytes_def)

lemma row_pixels_length: "sensor_ok sn \<Longrightarrow> length (row_pixels sn fb y) = sn_rowpix sn"
  by (simp add: row_pixels_def loop_length(2)[OF sensor_depth] rowpix_groups)

text \<open>The loop reads its groups and nothing else.\<close>

lemma unpack_loop_take:
  assumes "mexp_depth nb"
  shows "k * group_bytes nb \<le> length g \<Longrightarrow> unpack_loop nb k (take (k * group_bytes nb) g @ h) = unpack_loop nb k g"
proof (induction k arbitrary: g)
  case (Suc k)
  let ?n = "group_bytes nb"
  have len: "length (take ?n g) = ?n" using Suc.prems by simp
  have split: "take (Suc k * ?n) g @ h = take ?n g @ (take (k * ?n) (drop ?n g) @ h)"
    by (simp add: take_add)
  have "unpack_group nb (take ?n g @ ys) = unpack_group nb g" for ys
    using group_local(2)[OF assms len, of ys] group_local(2)[OF assms len, of "drop ?n g"] by simp
  moreover have "unpack_loop nb k (take (k * ?n) (drop ?n g) @ h) = unpack_loop nb k (drop ?n g)"
    by (rule Suc.IH) (use Suc.prems in simp)
  ultimately show ?case unfolding split using len by simp
qed simp

lemma unpack_loop_local:
  assumes "mexp_depth nb" "k * group_bytes nb \<le> n" "n \<le> length g"
  shows "unpack_loop nb k (take n g) = unpack_loop nb k g"
proof -
  have "take n g = take (k * group_bytes nb) g @ drop (k * group_bytes nb) (take n g)"
    using assms(2) by (metis append_take_drop_id min.absorb1 take_take)
  then show ?thesis using unpack_loop_take[OF assms(1)] assms(2,3) by (metis order_trans)
qed

lemma unpack_loop_nth:
  assumes "mexp_depth nb"
  shows "\<lbrakk>x < k * group_px nb; k * group_bytes nb \<le> length g\<rbrakk> \<Longrightarrow> unpack_loop nb k g ! x =
    unpack_group nb (window (x div group_px nb * group_bytes nb) (group_bytes nb) g) ! (x mod group_px nb)"
proof (induction k arbitrary: g x)
  case (Suc k)
  let ?n = "group_bytes nb" and ?m = "group_px nb"
  have len: "length (take ?n g) = ?n" using Suc.prems by simp
  have head: "unpack_group nb g = unpack_group nb (take ?n g)"
    using group_local(2)[OF assms len, of "drop ?n g"] by simp
  show ?case
  proof (cases "x < ?m")
    case True
    then show ?thesis using group_laws(2)[OF assms] by (simp add: nth_append head window_def)
  next
    case False
    then have x: "x div ?m = Suc ((x - ?m) div ?m)" "x mod ?m = (x - ?m) mod ?m"
      by (simp_all add: le_div_geq le_mod_geq)
    have "unpack_loop nb k (drop ?n g) ! (x - ?m) =
        unpack_group nb (window ((x - ?m) div ?m * ?n) ?n (drop ?n g)) ! ((x - ?m) mod ?m)"
      by (rule Suc.IH) (use Suc.prems False in auto)
    moreover have "window ((x - ?m) div ?m * ?n) ?n (drop ?n g) = window (x div ?m * ?n) ?n g"
      by (simp add: window_def x(1) add.commute)
    ultimately show ?thesis using False group_laws(2)[OF assms] by (simp add: nth_append x(2))
  qed
qed simp

lemma row_room:
  assumes "sensor_ok sn" "in_frame sn fb (y, x)"
  shows "y * sn_rowlen sn + sn_rowlen sn \<le> length fb" "y * sn_rowlen sn + row_bytes sn \<le> length fb"
  using row_end[of y "sn_rows sn" "sn_rowlen sn"] row_bytes_le[OF assms(1)] assms(2) by (simp_all add: in_frame_def)

text \<open>The accessor of the hook reads the entry of the unpacked row.\<close>

lemma get_raw_pixel_row:
  assumes "sensor_ok sn" "in_frame sn fb (y, x)"
  shows "get_raw_pixel sn fb x y = Some (row_pixels sn fb y ! x)"
proof -
  note d = sensor_depth[OF assms(1)]
  have x: "x < sn_rowpix sn" using assms(2) by (simp add: in_frame_def)
  have "row_pixels sn fb y ! x =
      unpack_group (sn_bits sn) (window (x div group_px (sn_bits sn) * group_bytes (sn_bits sn)) (group_bytes (sn_bits sn))
        (drop (y * sn_rowlen sn) fb)) ! (x mod group_px (sn_bits sn))"
    unfolding row_pixels_def
    by (rule unpack_loop_nth[OF d]) (use x row_room[OF assms] rowpix_groups[OF assms(1)] in \<open>simp_all add: row_bytes_def\<close>)
  then show ?thesis
    using get_raw_pixel_group[OF d group_in_frame[OF assms]] by (simp add: window_def px_at_def add.commute)
qed


lemma row_pixels_window:
  assumes "sensor_ok sn" "y < sn_rows sn" "length fb = sn_rows sn * sn_rowlen sn"
  shows "row_pixels sn fb y =
    unpack_loop (sn_bits sn) (sn_rowpix sn div group_px (sn_bits sn)) (window (y * sn_rowlen sn) (row_bytes sn) fb)"
proof -
  have "row_bytes sn \<le> length (drop (y * sn_rowlen sn) fb)"
    using row_end[OF assms(2), of "sn_rowlen sn"] row_bytes_le[OF assms(1)] assms(3) by simp
  then show ?thesis
    unfolding row_pixels_def window_def
    by (intro unpack_loop_local[OF sensor_depth[OF assms(1)], symmetric]) (simp add: row_bytes_def)
qed

definition px_fits :: "sensor_t \<Rightarrow> u16 \<Rightarrow> bool" where
  "px_fits sn v \<longleftrightarrow> take_bit (sn_bits sn) v = v"

lemma row_pixels_fit:
  assumes "sensor_ok sn" "in_frame sn fb (y, x)"
  shows "px_fits sn (row_pixels sn fb y ! x)"
  using get_raw_pixel_row[OF assms] rget_group[OF assms] group_of_fits[OF assms(1), of "x mod group_px (sn_bits sn)" fb "(y, x)"]
    get_raw_pixel_group[OF sensor_depth[OF assms(1)] group_in_frame[OF assms]]
  by (simp add: px_fits_def group_of_def)

section \<open>Combining is blending pixel by pixel\<close>

definition white_ok :: "sensor_t \<Rightarrow> bool" where
  [wf_defs]: "white_ok sn \<longleftrightarrow> unat (sn_white sn) < 2 ^ sn_bits sn"

lemma capped_fits:
  assumes "sensor_ok sn" "white_ok sn"
  shows "px_fits sn (ucast (if sn_white sn < r then sn_white sn else r) :: u16)"
proof -
  let ?w = "if sn_white sn < r then sn_white sn else r"
  have "unat ?w \<le> unat (sn_white sn)" by (simp add: word_le_nat_alt[symmetric] not_less)
  then have w: "unat ?w < 2 ^ sn_bits sn" using assms(2) by (simp add: white_ok_def)
  moreover have "(2::nat) ^ sn_bits sn \<le> 2 ^ 16"
    using sensor_depth[OF assms(1)] by (intro power_increasing) (auto simp: mexp_depth_def)
  ultimately have "unat (ucast ?w :: u16) < 2 ^ sn_bits sn"
    by (simp only: unsigned_ucast_eq, subst take_bit_nat_eq_self) simp_all
  then show ?thesis
    by (simp only: px_fits_def word_unat_eq_iff unsigned_take_bit_eq take_bit_nat_eq_self)
qed

lemma row_px_fits:
  assumes "sensor_ok sn" "white_ok sn" "px_fits sn a" "px_fits sn v"
  shows "px_fits sn (row_px mode n black (sn_white sn) a v)"
  unfolding row_px_def Let_def using assms(3,4) capped_fits[OF assms(1,2)] by simp

definition blend_row :: "sensor_t \<Rightarrow> int \<Rightarrow> u32 \<Rightarrow> u16 list \<Rightarrow> u16 list \<Rightarrow> u16 list" where
  "blend_row sn mode n = map2 (row_px mode n (sn_black sn) (sn_white sn))"

lemma row_in_frame:
  assumes "sensor_ok sn" "y < sn_rows sn" "length fb = sn_rows sn * sn_rowlen sn"
  shows "\<forall>v\<in>set (row_pixels sn fb y). px_fits sn v"
proof
  fix v assume "v \<in> set (row_pixels sn fb y)"
  then obtain x where "x < sn_rowpix sn" "v = row_pixels sn fb y ! x"
    by (auto simp: in_set_conv_nth row_pixels_length[OF assms(1)])
  then show "px_fits sn v" using row_pixels_fit[OF assms(1), of fb y x] assms(2,3) by (simp add: in_frame_def)
qed

lemma blend_row_fits:
  assumes "sensor_ok sn" "white_ok sn" "\<forall>v\<in>set a. px_fits sn v" "\<forall>v\<in>set b. px_fits sn v"
  shows "\<forall>v\<in>set (blend_row sn mode n a b). px_fits sn v"
  using assms(3,4) by (auto simp: blend_row_def intro!: row_px_fits[OF assms(1,2)] elim!: in_set_zipE)

text \<open>A row written back reads as the row that was packed; the other rows keep theirs.\<close>

lemma write_row:
  assumes ok: "sensor_ok sn" and y: "y < sn_rows sn" "length fb = sn_rows sn * sn_rowlen sn"
    and p: "length p = sn_rowpix sn" "\<forall>v\<in>set p. px_fits sn v"
  defines "fb' \<equiv> take (y * sn_rowlen sn) fb @ mexp_row_pack (sn_bits sn) p (drop (y * sn_rowlen sn) fb) (sn_rowpix sn)"
  shows "length fb' = length fb" "row_pixels sn fb' y = p"
    "\<lbrakk>y' < sn_rows sn; y' \<noteq> y\<rbrakk> \<Longrightarrow> row_pixels sn fb' y' = row_pixels sn fb y'"
proof -
  let ?k = "sn_rowpix sn div group_px (sn_bits sn)"
  note d = sensor_depth[OF ok]
  define w where "w = pack_loop (sn_bits sn) ?k p"
  have w: "length w = row_bytes sn" by (simp add: w_def loop_length(1)[OF d] row_bytes_def)
  have room: "y * sn_rowlen sn + length w \<le> length fb"
    using row_end[OF y(1), of "sn_rowlen sn"] row_bytes_le[OF ok] y(2) w by simp
  have fb': "fb' = plant (y * sn_rowlen sn) w fb"
    using d by (simp add: fb'_def mexp_row_pack_def mexp_depth_def w_def[symmetric] Let_def plant_def add.commute)
  show len: "length fb' = length fb" unfolding fb' by (rule plant_length[OF room])
  have "drop (y * sn_rowlen sn) fb' = w @ drop (length w) (drop (y * sn_rowlen sn) fb)"
    using room by (simp add: fb' plant_def add.commute)
  then show "row_pixels sn fb' y = p"
    unfolding row_pixels_def w_def
    using unpack_pack_loop[OF d, of p ?k] p rowpix_groups[OF ok] by (simp add: px_fits_def)
  show "row_pixels sn fb' y' = row_pixels sn fb y'" if "y' < sn_rows sn" "y' \<noteq> y"
  proof -
    have "y' * sn_rowlen sn + row_bytes sn \<le> y * sn_rowlen sn \<or> y * sn_rowlen sn + length w \<le> y' * sn_rowlen sn"
      using row_end[of y y' "sn_rowlen sn"] row_end[of y' y "sn_rowlen sn"] row_bytes_le[OF ok] w that(2)
      by (cases "y < y'") auto
    then have "window (y' * sn_rowlen sn) (row_bytes sn) fb' = window (y' * sn_rowlen sn) (row_bytes sn) fb"
      using row_end[OF that(1), of "sn_rowlen sn"] row_bytes_le[OF ok] y(2) room
      unfolding fb' by (intro window_plant_other) auto
    then show ?thesis
      using row_pixels_window[OF ok that(1)] len y(2) by simp
  qed
qed

lemma combine_rows_blends:
  assumes ok: "sensor_ok sn" "white_ok sn" and bs: "length bs = sn_rows sn * sn_rowlen sn"
  shows "\<lbrakk>j + k = sn_rows sn; length fb = sn_rows sn * sn_rowlen sn; length av = sn_rowpix sn; length vv = sn_rowpix sn\<rbrakk> \<Longrightarrow>
    \<exists>fb'. combine_rows sn mode n k j (drop (j * sn_rowlen sn) bs) av vv fb = Some (True, fb') \<and> length fb' = length fb \<and>
      (\<forall>y < sn_rows sn. row_pixels sn fb' y =
        (if j \<le> y then blend_row sn mode n (row_pixels sn bs y) (row_pixels sn fb y) else row_pixels sn fb y))"
proof (induction k arbitrary: j av vv fb)
  case (Suc k)
  let ?k = "sn_rowpix sn div group_px (sn_bits sn)" and ?rl = "sn_rowlen sn"
  note d = sensor_depth[OF ok(1)]
  have j: "j < sn_rows sn" using Suc.prems(1) by simp
  define frow where "frow = take ?rl (drop (j * ?rl) bs)"
  have end_j: "j * ?rl + ?rl \<le> sn_rows sn * ?rl" by (rule row_end[OF j])
  have rd: "rd_n ?rl (drop (j * ?rl) bs) = Some (frow, drop (Suc j * ?rl) bs)"
    using end_j bs by (simp add: rd_n_def frow_def add.commute)
  have a: "mexp_row_unpack (sn_bits sn) frow av (sn_rowpix sn) = row_pixels sn bs j"
  proof -
    have "unpack_loop (sn_bits sn) ?k frow = row_pixels sn bs j"
      unfolding frow_def row_pixels_def
      by (rule unpack_loop_local[OF d]) (use row_bytes_le[OF ok(1)] end_j bs in \<open>simp_all add: row_bytes_def\<close>)
    then show ?thesis using d Suc.prems(3) row_pixels_length[OF ok(1), of bs j] by (simp add: mexp_row_unpack_def mexp_depth_def Let_def)
  qed
  have v: "mexp_row_unpack (sn_bits sn) (drop (j * ?rl) fb) vv (sn_rowpix sn) = row_pixels sn fb j"
    using d Suc.prems(4) row_pixels_length[OF ok(1), of fb j] by (simp add: mexp_row_unpack_def mexp_depth_def Let_def row_pixels_def)
  define p where "p = blend_row sn mode n (row_pixels sn bs j) (row_pixels sn fb j)"
  have b: "mexp_row_blend mode (row_pixels sn bs j) (row_pixels sn fb j) (sn_rowpix sn) n (sn_black sn) (sn_white sn) = p"
    by (simp add: mexp_row_blend_def p_def blend_row_def row_pixels_length[OF ok(1)])
  have p: "length p = sn_rowpix sn" "\<forall>v\<in>set p. px_fits sn v"
    unfolding p_def using blend_row_fits[OF ok] row_in_frame[OF ok(1) j bs] row_in_frame[OF ok(1) j Suc.prems(2)]
    by (simp_all add: blend_row_def row_pixels_length[OF ok(1)])
  define fb1 where "fb1 = take (j * ?rl) fb @ mexp_row_pack (sn_bits sn) p (drop (j * ?rl) fb) (sn_rowpix sn)"
  note w = write_row[OF ok(1) j Suc.prems(2) p, folded fb1_def]
  have room: "row_bytes sn \<le> length frow" "row_bytes sn \<le> length (drop (j * ?rl) fb)"
    using row_bytes_le[OF ok(1)] end_j bs Suc.prems(2) by (simp_all add: frow_def)
  obtain fb' where fb': "combine_rows sn mode n k (Suc j) (drop (Suc j * ?rl) bs) p (row_pixels sn fb j) fb1 = Some (True, fb')"
    "length fb' = length fb1" "\<forall>y < sn_rows sn. row_pixels sn fb' y =
        (if Suc j \<le> y then blend_row sn mode n (row_pixels sn bs y) (row_pixels sn fb1 y) else row_pixels sn fb1 y)"
    using Suc.IH[of "Suc j" fb1 p "row_pixels sn fb j"] Suc.prems w(1) p(1) row_pixels_length[OF ok(1)] by auto
  have "combine_rows sn mode n (Suc k) j (drop (j * ?rl) bs) av vv fb = Some (True, fb')"
    using fb'(1) room by (simp add: rd a v b fb1_def[symmetric] del: drop_drop mult_Suc)
  moreover have "row_pixels sn fb' y =
      (if j \<le> y then blend_row sn mode n (row_pixels sn bs y) (row_pixels sn fb y) else row_pixels sn fb y)"
    if "y < sn_rows sn" for y
    using fb'(3)[rule_format, OF that] w(2) w(3)[OF that] by (cases y j rule: linorder_cases) (auto simp: p_def)
  ultimately show ?case using fb'(2) w(1) by auto
qed simp

text \<open>A short read ends the loop; a shorter accumulator cannot get past \<open>stat\<close>, so the loop is total.\<close>

definition mal_ok :: "sensor_t \<Rightarrow> (nat \<Rightarrow> nat \<Rightarrow> u16 list option) \<Rightarrow> bool" where
  "mal_ok sn mal \<longleftrightarrow> mal 0 (sn_rowlen sn) \<noteq> None \<and> (\<forall>i\<in>{1, 2}. \<exists>xs. mal i (2 * sn_rowpix sn) = Some xs \<and> length xs = sn_rowpix sn)"

definition frame_ok :: "sensor_t \<Rightarrow> u8 list \<Rightarrow> bool" where
  "frame_ok sn fb \<longleftrightarrow> length fb = sn_rows sn * sn_rowlen sn \<and> sn_size sn = length fb"

lemma mexp_combine_blends:
  assumes ok: "sensor_ok sn" "white_ok sn" and fb: "frame_ok sn fb" "frame_ok sn acc"
    and mal: "mal_ok sn mal" and st: "stat c MEXP_TMP_FILE = Some (int (length acc))" and rd: "co_read ops c MEXP_TMP_FILE = Some acc"
  obtains fb' where "mexp_combine sn ops stat mal mode n c fb = Some (True, fb')" "frame_ok sn fb'"
    "\<And>y. y < sn_rows sn \<Longrightarrow> row_pixels sn fb' y = blend_row sn mode n (row_pixels sn acc y) (row_pixels sn fb y)"
proof -
  obtain frow where m0: "mal 0 (sn_rowlen sn) = Some frow" using mal unfolding mal_ok_def by blast
  obtain av where m1: "mal 1 (2 * sn_rowpix sn) = Some av" "length av = sn_rowpix sn"
    using mal unfolding mal_ok_def by blast
  obtain vv where m2: "mal 2 (2 * sn_rowpix sn) = Some vv" "length vv = sn_rowpix sn"
    using mal unfolding mal_ok_def by blast
  have len: "length acc = sn_rows sn * sn_rowlen sn" "length fb = sn_rows sn * sn_rowlen sn" "sn_size sn = length acc"
    using fb unfolding frame_ok_def by argo+
  have "\<exists>fb'. combine_rows sn mode n (sn_rows sn) 0 (drop (0 * sn_rowlen sn) acc) av vv fb = Some (True, fb') \<and> length fb' = length fb \<and>
      (\<forall>y < sn_rows sn. row_pixels sn fb' y =
        (if 0 \<le> y then blend_row sn mode n (row_pixels sn acc y) (row_pixels sn fb y) else row_pixels sn fb y))"
    by (rule combine_rows_blends[OF ok len(1) _ len(2) m1(2) m2(2)]) simp
  then obtain fb' where f: "combine_rows sn mode n (sn_rows sn) 0 acc av vv fb = Some (True, fb')" "length fb' = length fb"
    "\<forall>y < sn_rows sn. row_pixels sn fb' y = blend_row sn mode n (row_pixels sn acc y) (row_pixels sn fb y)"
    unfolding mult_0 drop_0 by (simp only: if_True le0) blast
  have "mexp_combine sn ops stat mal mode n c fb = Some (True, fb')"
    unfolding mexp_combine_def st m0 m1(1) m2(1) rd len(3) option.case prod.case f(1) by simp
  moreover have "frame_ok sn fb'" using fb(1) f(2) unfolding frame_ok_def by argo
  ultimately show thesis using that f(3) by blast
qed


section \<open>The sequence is the fold of its exposures\<close>

primrec blend_from :: "sensor_t \<Rightarrow> int \<Rightarrow> nat \<Rightarrow> u16 \<Rightarrow> u16 list \<Rightarrow> u16" where
  "blend_from sn mode n acc [] = acc"
| "blend_from sn mode n acc (v # vs) =
     blend_from sn mode (Suc n) (row_px mode (word_of_nat n) (sn_black sn) (sn_white sn) acc v) vs"

lemma blend_from_snoc:
  "blend_from sn mode n acc (vs @ [v]) =
   row_px mode (word_of_nat (n + length vs)) (sn_black sn) (sn_white sn) (blend_from sn mode n acc vs) v"
  by (induction vs arbitrary: n acc) (simp_all add: add.assoc add.left_commute)

text \<open>The pixel the exposures \<open>fs\<close> give, the first being the accumulator the others are blended into.\<close>

definition composite :: "sensor_t \<Rightarrow> int \<Rightarrow> u8 list list \<Rightarrow> nat \<Rightarrow> nat \<Rightarrow> u16" where
  "composite sn mode fs x y =
     blend_from sn mode 1 (row_pixels sn (hd fs) y ! x) (map (\<lambda>f. row_pixels sn f y ! x) (tl fs))"

lemma composite_one: "composite sn mode [f] x y = row_pixels sn f y ! x"
  by (simp add: composite_def)

lemma composite_snoc:
  assumes "fs \<noteq> []"
  shows "composite sn mode (fs @ [f]) x y = row_px mode (word_of_nat (length fs)) (sn_black sn) (sn_white sn)
    (composite sn mode fs x y) (row_pixels sn f y ! x)"
  using assms by (cases fs) (simp_all add: composite_def blend_from_snoc)

definition shows_composite :: "sensor_t \<Rightarrow> int \<Rightarrow> u8 list list \<Rightarrow> u8 list \<Rightarrow> bool" where
  "shows_composite sn mode fs fb \<longleftrightarrow> frame_ok sn fb \<and>
     (\<forall>y < sn_rows sn. \<forall>x < sn_rowpix sn. row_pixels sn fb y ! x = composite sn mode fs x y)"

lemma shows_one: "frame_ok sn f \<Longrightarrow> shows_composite sn mode [f] f"
  by (simp add: shows_composite_def composite_one)

lemma shows_pixel:
  assumes "sensor_ok sn" "shows_composite sn mode fs fb" "y < sn_rows sn" "x < sn_rowpix sn"
  shows "get_raw_pixel sn fb x y = Some (composite sn mode fs x y)"
  using get_raw_pixel_row[OF assms(1), of fb y x] assms(2-4)
  unfolding shows_composite_def frame_ok_def in_frame_def by simp

lemma shows_snoc:
  assumes "sensor_ok sn" "shows_composite sn mode fs acc" "fs \<noteq> []" "frame_ok sn fb'"
    "\<And>y. y < sn_rows sn \<Longrightarrow> row_pixels sn fb' y = blend_row sn mode (word_of_nat (length fs)) (row_pixels sn acc y) (row_pixels sn f y)"
  shows "shows_composite sn mode (fs @ [f]) fb'"
  unfolding shows_composite_def
proof (intro conjI allI impI assms(4))
  fix y x assume yx: "y < sn_rows sn" "x < sn_rowpix sn"
  have "row_pixels sn fb' y ! x = row_px mode (word_of_nat (length fs)) (sn_black sn) (sn_white sn)
      (row_pixels sn acc y ! x) (row_pixels sn f y ! x)"
    using yx(2) row_pixels_length[OF assms(1)] by (simp add: assms(5)[OF yx(1)] blend_row_def)
  also have "\<dots> = composite sn mode (fs @ [f]) x y"
    using assms(2) yx unfolding composite_snoc[OF assms(3)] shows_composite_def by simp
  finally show "row_pixels sn fb' y ! x = composite sn mode (fs @ [f]) x y" .
qed

text \<open>The composite in terms of the accessor of the hook.\<close>

lemma pixel_row:
  assumes "sensor_ok sn" "frame_ok sn f" "y < sn_rows sn" "x < sn_rowpix sn"
  shows "row_pixels sn f y ! x = the (get_raw_pixel sn f x y)"
  using get_raw_pixel_row[OF assms(1), of f y x] assms(2-4) by (simp add: in_frame_def frame_ok_def)

lemma composite_pixels:
  assumes "sensor_ok sn" "\<forall>f\<in>set fs. frame_ok sn f" "fs \<noteq> []" "y < sn_rows sn" "x < sn_rowpix sn"
  shows "composite sn mode fs x y =
    blend_from sn mode 1 (the (get_raw_pixel sn (hd fs) x y)) (map (\<lambda>f. the (get_raw_pixel sn f x y)) (tl fs))"
proof -
  have "map (\<lambda>f. row_pixels sn f y ! x) (tl fs) = map (\<lambda>f. the (get_raw_pixel sn f x y)) (tl fs)"
    using pixel_row[OF assms(1) _ assms(4,5)] assms(2,3) by (intro map_cong) (auto dest: list.set_sel(2))
  moreover have "row_pixels sn (hd fs) y ! x = the (get_raw_pixel sn (hd fs) x y)"
    using pixel_row[OF assms(1) _ assms(4,5), of "hd fs"] assms(2,3) by simp
  ultimately show ?thesis by (simp only: composite_def)
qed

text \<open>What the card and the camera's other calls are documented to do, and a card that has room.\<close>

definition stat_ok :: "'c card_ops \<Rightarrow> ('c \<Rightarrow> string \<Rightarrow> int option) \<Rightarrow> bool" where
  "stat_ok ops stat \<longleftrightarrow> (\<forall>c p. stat c p = map_option (\<lambda>bs. int (length bs)) (co_read ops c p))"

definition roomy :: "sensor_t \<Rightarrow> 'c card_ops \<Rightarrow> bool" where
  "roomy sn ops \<longleftrightarrow> (\<forall>c x. length x = sn_size sn \<longrightarrow> fst (write_file ops c MEXP_TMP_FILE [x]))"

lemma store_roomy:
  assumes "card_laws ops" "roomy sn ops" "frame_ok sn fb"
  obtains c' where "mexp_store sn ops fb c = Some (True, c')" "co_read ops c' MEXP_TMP_FILE = Some fb"
    "\<And>q. q \<noteq> MEXP_TMP_FILE \<Longrightarrow> co_read ops c' q = co_read ops c q"
proof -
  have fb: "sn_size sn = length fb" using assms(3) by (simp add: frame_ok_def)
  obtain b c' where w: "write_file ops c MEXP_TMP_FILE [fb] = (b, c')" by fastforce
  then have b: "b" using assms(2) fb by (metis roomy_def fst_conv)
  have "mexp_store sn ops fb c = Some (True, c')" using w b by (simp add: mexp_store_def fb)
  moreover have "co_read ops c' MEXP_TMP_FILE = Some fb" using write_file_read(1)[OF assms(1) w b] by simp
  ultimately show thesis using that write_file_read(2)[OF assms(1) w] by blast
qed

text \<open>A sequence of \<open>N\<close> with the exposures \<open>gs\<close> behind it.\<close>

definition held :: "sensor_t \<Rightarrow> 'c card_ops \<Rightarrow> int \<Rightarrow> nat \<Rightarrow> u8 list list \<Rightarrow> 'c \<times> mexp_t \<Rightarrow> bool" where
  "held sn ops mode N gs = (\<lambda>(c, st). gs \<noteq> [] \<and> length gs < N \<and> mexp_count st = int (length gs) \<and> mexp_target st = int N \<and>
     mexp_mode_used st = mode \<and> (\<exists>acc. co_read ops c MEXP_TMP_FILE = Some acc \<and> shows_composite sn mode gs acc))"

lemma held_combine:
  assumes ok: "sensor_ok sn" "white_ok sn" and st: "stat_ok ops stat" and mal: "mal_ok sn mal"
    and h: "held sn ops mode N gs (c, st)" and f: "frame_ok sn f"
  obtains fb' where "mexp_combine sn ops stat mal (mexp_mode_used st) (word_of_int (mexp_count st)) c f = Some (True, fb')"
    "shows_composite sn mode (gs @ [f]) fb'"
proof -
  obtain acc where acc: "co_read ops c MEXP_TMP_FILE = Some acc" "shows_composite sn mode gs acc"
    using h unfolding held_def by auto
  have "stat c MEXP_TMP_FILE = Some (int (length acc))" using st acc(1) by (simp add: stat_ok_def)
  then obtain fb' where fb': "mexp_combine sn ops stat mal mode (word_of_nat (length gs)) c f = Some (True, fb')" "frame_ok sn fb'"
    "\<And>y. y < sn_rows sn \<Longrightarrow> row_pixels sn fb' y = blend_row sn mode (word_of_nat (length gs)) (row_pixels sn acc y) (row_pixels sn f y)"
    using mexp_combine_blends[OF ok f _ mal _ acc(1), of stat mode "word_of_nat (length gs)"] acc(2) unfolding shows_composite_def by blast
  have "shows_composite sn mode (gs @ [f]) fb'"
    by (rule shows_snoc[OF ok(1) acc(2) _ fb'(2,3)]) (use h in \<open>simp_all add: held_def\<close>)
  then show thesis using that fb'(1) h by (simp add: held_def)
qed

lemma held_shot:
  assumes ok: "sensor_ok sn" "white_ok sn" and laws: "card_laws ops" "stat_ok ops stat" "roomy sn ops" "mal_ok sn mal"
    and en: "mexp_enable cf \<noteq> 0" and h: "held sn ops mode N gs (c, st)" and f: "frame_ok sn f"
  obtains fb' c' st' where "raw_mexp sn ops stat mal cf (f, c, st) = Some (if length gs + 1 = N then 1 else 0, fb', c', st')"
    "shows_composite sn mode (gs @ [f]) fb'"
    "length gs + 1 < N \<Longrightarrow> held sn ops mode N (gs @ [f]) (c', st')"
    "length gs + 1 = N \<Longrightarrow> co_read ops c' MEXP_TMP_FILE = None \<and> mexp_count st' = 0"
    "\<And>q. q \<noteq> MEXP_TMP_FILE \<Longrightarrow> co_read ops c' q = co_read ops c q"
    "mexp_bend_each_used st' = mexp_bend_each_used st"
proof -
  obtain fb' where fb': "mexp_combine sn ops stat mal (mexp_mode_used st) (word_of_int (mexp_count st)) c f = Some (True, fb')"
    "shows_composite sn mode (gs @ [f]) fb'"
    using held_combine[OF ok laws(2,4) h f] .
  define st1 where "st1 = st\<lparr>mexp_count := mexp_count st + 1\<rparr>"
  have st: "mexp_count st \<noteq> 0" "mexp_count st1 = int (length gs + 1)" "mexp_target st1 = int N" "mexp_mode_used st1 = mode" "length gs < N"
    using h by (simp_all add: held_def st1_def)
  show thesis
  proof (cases "length gs + 1 = N")
    case True
    then have "raw_mexp sn ops stat mal cf (f, c, st) = Some (1, fb', co_remove ops c MEXP_TMP_FILE, mexp_reset st1)"
      using fb'(1) en st unfolding raw_mexp_def mexp_next_def st1_def[symmetric] by (simp add: Let_def st1_def)
    then show thesis using True fb'(2) card_remove[OF laws(1)]
      by (intro that[of fb' "co_remove ops c MEXP_TMP_FILE" "mexp_reset st1"]) (simp_all add: mexp_reset_def st1_def)
  next
    case False
    obtain c' where c': "mexp_store sn ops fb' c = Some (True, c')" "co_read ops c' MEXP_TMP_FILE = Some fb'"
      "\<And>q. q \<noteq> MEXP_TMP_FILE \<Longrightarrow> co_read ops c' q = co_read ops c q"
      by (rule store_roomy[OF laws(1,3), of fb' c]) (use fb'(2) in \<open>simp_all add: shows_composite_def\<close>)
    have "raw_mexp sn ops stat mal cf (f, c, st) = Some (0, fb', c', st1)"
      using fb'(1) en st False c'(1) unfolding raw_mexp_def mexp_next_def by (simp add: Let_def st1_def)
    moreover have "held sn ops mode N (gs @ [f]) (c', st1)"
      using st False c'(2) fb'(2) by (simp add: held_def)
    moreover have "mexp_bend_each_used st1 = mexp_bend_each_used st" by (simp add: st1_def)
    ultimately show thesis using False c'(3) fb'(2) by (intro that[of fb' c' st1]) simp_all
  qed
qed

text \<open>The first exposure.\<close>

definition conf_mode_ok :: "mexp_conf_t \<Rightarrow> bool" where
  "conf_mode_ok cf \<longleftrightarrow> mexp_enable cf \<noteq> 0 \<and> 0 \<le> mexp_mode cf \<and> mexp_mode cf < MEXP_MODE_COUNT \<and>
     MEXP_FRAMES_MIN \<le> mexp_frames cf \<and> mexp_frames cf \<le> MEXP_FRAMES_MAX"

lemma first_shot:
  assumes laws: "card_laws ops" "roomy sn ops" and cf: "conf_mode_ok cf" and c0: "mexp_count st = 0" and f: "frame_ok sn f"
  obtains c' st' where "raw_mexp sn ops stat mal cf (f, c, st) = Some (0, f, c', st')"
    "held sn ops (mexp_mode cf) (nat (mexp_frames cf)) [f] (c', st')"
    "\<And>q. q \<noteq> MEXP_TMP_FILE \<Longrightarrow> co_read ops c' q = co_read ops c q"
    "mexp_bend_each_used st' = (if mexp_bend_each cf \<noteq> 0 then 1 else 0)"
proof -
  obtain c' where c': "mexp_store sn ops f c = Some (True, c')" "co_read ops c' MEXP_TMP_FILE = Some f"
    "\<And>q. q \<noteq> MEXP_TMP_FILE \<Longrightarrow> co_read ops c' q = co_read ops c q"
    using store_roomy[OF laws f, of c] by blast
  define st1 where "st1 = (mexp_begin (mexp_mode cf) (mexp_frames cf) (mexp_bend_each cf) st)\<lparr>mexp_count := 1\<rparr>"
  have st1: "mexp_count st1 = 1" "mexp_target st1 = mexp_frames cf" "mexp_mode_used st1 = mexp_mode cf"
    "mexp_bend_each_used st1 = (if mexp_bend_each cf \<noteq> 0 then 1 else 0)"
    using cf by (simp_all add: st1_def mexp_begin_def conf_mode_ok_def)
  have "raw_mexp sn ops stat mal cf (f, c, st) = Some (0, f, c', st1)"
    using c'(1) cf c0 st1 by (simp add: raw_mexp_def mexp_first_def st1_def[symmetric] conf_mode_ok_def Let_def)
  moreover have "held sn ops (mexp_mode cf) (nat (mexp_frames cf)) [f] (c', st1)"
    using st1 c'(2) cf shows_one[OF f] by (simp add: held_def conf_mode_ok_def)
  ultimately show thesis using that c'(3) st1(4) by blast
qed

text \<open>Shots taken one after the other, each on its own frame.\<close>

primrec mexp_shots :: "sensor_t \<Rightarrow> 'c card_ops \<Rightarrow> ('c \<Rightarrow> string \<Rightarrow> int option) \<Rightarrow> (nat \<Rightarrow> nat \<Rightarrow> u16 list option) \<Rightarrow>
    mexp_conf_t \<Rightarrow> u8 list list \<Rightarrow> 'c \<times> mexp_t \<Rightarrow> ((int \<times> u8 list) list \<times> 'c \<times> mexp_t) option" where
  "mexp_shots sn ops stat mal cf [] s = Some ([], s)"
| "mexp_shots sn ops stat mal cf (f # fs) s =
     do { (d, fb, s) \<leftarrow> raw_mexp sn ops stat mal cf (f, s);
          (pics, s) \<leftarrow> mexp_shots sn ops stat mal cf fs s;
          Some ((d, fb) # pics, s) }"

definition pictures :: "sensor_t \<Rightarrow> int \<Rightarrow> nat \<Rightarrow> u8 list list \<Rightarrow> u8 list list \<Rightarrow> (int \<times> u8 list) list \<Rightarrow> bool" where
  "pictures sn mode N gs fs pics \<longleftrightarrow> length pics = length fs \<and>
     (\<forall>k < length fs. fst (pics ! k) = (if length gs + k + 1 = N then 1 else 0) \<and>
        shows_composite sn mode (gs @ take (Suc k) fs) (snd (pics ! k)))"

lemma pictures_Cons:
  assumes "d = (if length gs + 1 = N then 1 else 0)" "shows_composite sn mode (gs @ [f]) fb" "pictures sn mode N (gs @ [f]) fs pics"
  shows "pictures sn mode N gs (f # fs) ((d, fb) # pics)"
  using assms by (auto simp: pictures_def nth_Cons split: nat.split)

lemma held_shots:
  assumes ok: "sensor_ok sn" "white_ok sn" and laws: "card_laws ops" "stat_ok ops stat" "roomy sn ops" "mal_ok sn mal"
    and en: "mexp_enable cf \<noteq> 0"
  shows "\<lbrakk>held sn ops mode N gs (c, st); \<forall>f\<in>set fs. frame_ok sn f; length gs + length fs = N\<rbrakk> \<Longrightarrow>
    \<exists>pics c' st'. mexp_shots sn ops stat mal cf fs (c, st) = Some (pics, c', st') \<and> pictures sn mode N gs fs pics \<and>
      co_read ops c' MEXP_TMP_FILE = None \<and> mexp_count st' = 0 \<and> (\<forall>q. q \<noteq> MEXP_TMP_FILE \<longrightarrow> co_read ops c' q = co_read ops c q)"
proof (induction fs arbitrary: gs c st)
  case Nil
  then show ?case by (simp add: held_def)
next
  case (Cons f fs)
  obtain fb c1 st1 where s: "raw_mexp sn ops stat mal cf (f, c, st) = Some (if length gs + 1 = N then 1 else 0, fb, c1, st1)"
    "shows_composite sn mode (gs @ [f]) fb"
    "length gs + 1 < N \<Longrightarrow> held sn ops mode N (gs @ [f]) (c1, st1)"
    "length gs + 1 = N \<Longrightarrow> co_read ops c1 MEXP_TMP_FILE = None \<and> mexp_count st1 = 0"
    "\<And>q. q \<noteq> MEXP_TMP_FILE \<Longrightarrow> co_read ops c1 q = co_read ops c q"
    by (rule held_shot[OF ok laws en Cons.prems(1), of f]) (use Cons.prems(2) in simp_all)
  obtain pics c' st' where r: "mexp_shots sn ops stat mal cf fs (c1, st1) = Some (pics, c', st')"
    "pictures sn mode N (gs @ [f]) fs pics" "co_read ops c' MEXP_TMP_FILE = None" "mexp_count st' = 0"
    "\<forall>q. q \<noteq> MEXP_TMP_FILE \<longrightarrow> co_read ops c' q = co_read ops c q"
  proof (cases fs)
    case Nil
    then show thesis using that[of "[]" c1 st1] s(4,5) Cons.prems(3) by (simp add: pictures_def)
  next
    case (Cons f' fs')
    then have "length gs + 1 < N" using Cons.prems(3) by simp
    then show thesis using that Cons.IH[OF s(3)] Cons.prems(2,3) s(5) by auto
  qed
  show ?case
    using s(1) r pictures_Cons[OF refl s(2) r(2)] by simp
qed

lemma mexp_sequence:
  assumes ok: "sensor_ok sn" "white_ok sn" and laws: "card_laws ops" "stat_ok ops stat" "roomy sn ops" "mal_ok sn mal"
    and cf: "conf_mode_ok cf" and c0: "mexp_count st = 0"
    and fs: "\<forall>f\<in>set fs. frame_ok sn f" "int (length fs) = mexp_frames cf"
  shows "\<exists>pics c' st'. mexp_shots sn ops stat mal cf fs (c, st) = Some (pics, c', st') \<and>
      pictures sn (mexp_mode cf) (length fs) [] fs pics \<and>
      co_read ops c' MEXP_TMP_FILE = None \<and> mexp_count st' = 0 \<and> (\<forall>q. q \<noteq> MEXP_TMP_FILE \<longrightarrow> co_read ops c' q = co_read ops c q)"
proof (cases fs)
  case Nil
  then show ?thesis using fs(2) cf by (simp add: conf_mode_ok_def)
next
  case (Cons f gs)
  have f: "frame_ok sn f" "\<forall>f\<in>set gs. frame_ok sn f" using fs(1) Cons by simp_all
  have N: "nat (mexp_frames cf) = length fs" "length fs \<noteq> 1" using fs(2) cf by (simp_all add: conf_mode_ok_def)
  obtain c1 st1 where s: "raw_mexp sn ops stat mal cf (f, c, st) = Some (0, f, c1, st1)"
    "held sn ops (mexp_mode cf) (length fs) [f] (c1, st1)"
    "\<And>q. q \<noteq> MEXP_TMP_FILE \<Longrightarrow> co_read ops c1 q = co_read ops c q"
    using first_shot[OF laws(1,3) cf c0 f(1), of stat mal c] unfolding N(1) by blast
  obtain pics c' st' where r: "mexp_shots sn ops stat mal cf gs (c1, st1) = Some (pics, c', st')"
    "pictures sn (mexp_mode cf) (length fs) [f] gs pics" "co_read ops c' MEXP_TMP_FILE = None" "mexp_count st' = 0"
    "\<forall>q. q \<noteq> MEXP_TMP_FILE \<longrightarrow> co_read ops c' q = co_read ops c1 q"
    using held_shots[OF ok laws _ s(2) f(2), of cf] cf Cons by (auto simp: conf_mode_ok_def)
  have "pictures sn (mexp_mode cf) (length fs) [] fs ((0, f) # pics)"
    unfolding Cons by (rule pictures_Cons) (use N(2) Cons shows_one[OF f(1)] r(2) in simp_all)
  then show ?thesis using s r Cons by simp
qed

section \<open>The average\<close>

lemma blend_from_mean:
  assumes "unat (sn_white sn) \<le> 65535" "0 < n"
  shows "\<lbrakk>unat acc \<le> unat (sn_white sn); \<forall>v\<in>set vs. unat v \<le> unat (sn_white sn); n + length vs \<le> 1000\<rbrakk> \<Longrightarrow>
    blend_from sn MEXP_AVERAGE n acc vs = mean_from n (sn_black sn) (sn_white sn) acc vs"
  using assms(2)
proof (induction vs arbitrary: n acc)
  case (Cons v vs)
  have fit: "ucast acc \<le> sn_white sn" "ucast v \<le> sn_white sn"
    using Cons.prems by (simp_all add: word_le_nat_alt unat_up)
  have "unat (mexp_blend_px MEXP_AVERAGE (ucast acc) (ucast v) (word_of_nat n) (sn_black sn) (sn_white sn)) \<le> unat (sn_white sn)"
    using average_px(1)[of acc "unat (sn_white sn)" v n "sn_black sn"] average_px(2)[of acc "unat (sn_white sn)" v n] Cons.prems assms(1)
    by (simp add: of_nat_unat)
  then show ?case using Cons.IH Cons.prems row_px_eq[OF fit] by simp
qed simp

lemma composite_average:
  assumes "fs \<noteq> []" "length fs \<le> 1000" "unat (sn_white sn) \<le> 65535"
    "\<forall>f\<in>set fs. unat (row_pixels sn f y ! x) \<le> unat (sn_white sn)"
  shows "4 * \<bar>int (length fs) * int (unat (composite sn MEXP_AVERAGE fs x y)) - (\<Sum>f\<leftarrow>fs. int (unat (row_pixels sn f y ! x)))\<bar> \<le>
    int (length fs) * (int (length fs) + 1) - 2"
proof -
  obtain f gs where fs: "fs = f # gs" using assms(1) by (cases fs) auto
  define a vs where "a = row_pixels sn f y ! x" and "vs = map (\<lambda>f. row_pixels sn f y ! x) gs"
  have len: "length fs = 1 + length vs" "1 + length vs \<le> 1000" using assms(2) by (simp_all add: fs vs_def)
  have le: "unat a \<le> unat (sn_white sn)" "\<forall>v\<in>set vs. unat v \<le> unat (sn_white sn)"
    using assms(4) by (simp_all add: fs a_def vs_def)
  have c: "composite sn MEXP_AVERAGE fs x y = mean_from 1 (sn_black sn) (word_of_nat (unat (sn_white sn))) a vs"
    using blend_from_mean[OF assms(3) _ le len(2)] by (simp add: composite_def fs a_def vs_def of_nat_unat)
  have s: "(\<Sum>f\<leftarrow>fs. int (unat (row_pixels sn f y ! x))) = int (unat a) + (\<Sum>v\<leftarrow>vs. int (unat v))"
    by (simp add: fs a_def vs_def o_def)
  show ?thesis
    unfolding c s len(1)
    by (rule mean_error[THEN conjunct1, OF le assms(3) _ len(2)]) simp_all
qed

section \<open>Any card, any memory\<close>

lemma combine_rows_total:
  assumes ok: "sensor_ok sn"
  shows "\<lbrakk>j + k = sn_rows sn; length fb = sn_rows sn * sn_rowlen sn\<rbrakk> \<Longrightarrow>
    \<exists>good fb'. combine_rows sn mode n k j rest av vv fb = Some (good, fb') \<and> length fb' = length fb"
proof (induction k arbitrary: j rest av vv fb)
  case (Suc k)
  let ?rl = "sn_rowlen sn"
  have end_j: "j * ?rl + ?rl \<le> length fb" using row_end[of j "sn_rows sn" ?rl] Suc.prems by simp
  show ?case
  proof (cases "rd_n ?rl rest")
    case (Some p)
    obtain frow rest' where p: "p = (frow, rest')" by (cases p)
    define av1 where "av1 = mexp_row_unpack (sn_bits sn) frow av (sn_rowpix sn)"
    define vv1 where "vv1 = mexp_row_unpack (sn_bits sn) (drop (j * ?rl) fb) vv (sn_rowpix sn)"
    define av2 where "av2 = mexp_row_blend mode av1 vv1 (sn_rowpix sn) n (sn_black sn) (sn_white sn)"
    define fb1 where "fb1 = take (j * ?rl) fb @ mexp_row_pack (sn_bits sn) av2 (drop (j * ?rl) fb) (sn_rowpix sn)"
    have room: "row_bytes sn \<le> length frow" "row_bytes sn \<le> length fb - j * ?rl"
      using Some p row_bytes_le[OF ok] end_j by (auto simp: rd_n_Some)
    have "length fb1 = length fb"
      using room(2) end_j sensor_depth[OF ok]
      by (simp add: fb1_def mexp_row_pack_def mexp_depth_def Let_def loop_length(1)[OF sensor_depth[OF ok]] row_bytes_def)
    then show ?thesis
      using Suc.IH[of "Suc j" fb1 rest' av2 vv1] Suc.prems room
      by (simp add: Some p Let_def av1_def[symmetric] vv1_def[symmetric] av2_def[symmetric] fb1_def[symmetric])
  next
    case None
    then show ?thesis by (intro exI[of _ False] exI[of _ fb]) simp
  qed
qed auto

lemma mexp_combine_total:
  assumes "sensor_ok sn" "frame_ok sn fb"
  obtains good fb' where "mexp_combine sn ops stat mal mode n c fb = Some (good, fb')" "frame_ok sn fb'"
proof -
  have "\<exists>good fb'. mexp_combine sn ops stat mal mode n c fb = Some (good, fb') \<and> length fb' = length fb"
    using combine_rows_total[OF assms(1), of 0 "sn_rows sn" fb] assms(2)
    by (auto simp: mexp_combine_def frame_ok_def split: option.split)
  then show thesis using that assms(2) by (auto simp: frame_ok_def)
qed

definition seq_ok :: "mexp_t \<Rightarrow> bool" where
  [wf_defs]: "seq_ok st \<longleftrightarrow> mexp_count st = 0 \<or> mexp_in_progress st \<and> MEXP_FRAMES_MIN \<le> mexp_target st \<and>
     mexp_target st \<le> MEXP_FRAMES_MAX \<and> 0 \<le> mexp_mode_used st \<and> mexp_mode_used st < MEXP_MODE_COUNT"

lemma begin_ok:
  "mexp_count (mexp_begin m f b st) = 0" "MEXP_FRAMES_MIN \<le> mexp_target (mexp_begin m f b st)"
  "mexp_target (mexp_begin m f b st) \<le> MEXP_FRAMES_MAX" "0 \<le> mexp_mode_used (mexp_begin m f b st)"
  "mexp_mode_used (mexp_begin m f b st) < MEXP_MODE_COUNT"
  by (simp_all add: mexp_begin_def Let_def)

lemma store_total:
  assumes "card_laws ops" "frame_ok sn fb"
  obtains good c' where "mexp_store sn ops fb c = Some (good, c')"
    "\<And>q. q \<noteq> MEXP_TMP_FILE \<Longrightarrow> co_read ops c' q = co_read ops c q"
proof -
  obtain b c' where w: "write_file ops c MEXP_TMP_FILE [take (sn_size sn) fb] = (b, c')" by fastforce
  then have "mexp_store sn ops fb c = Some (b, c')" using assms(2) by (simp add: mexp_store_def frame_ok_def)
  then show thesis using that write_file_read(2)[OF assms(1) w] by blast
qed

lemma mexp_next_safe:
  assumes "sensor_ok sn" "card_laws ops" "frame_ok sn fb" "seq_ok st" "mexp_count st \<noteq> 0"
  obtains fb' c' st' where "mexp_next sn ops stat mal fb c st = Some (fb', c', st')" "frame_ok sn fb'"
    "\<And>q. q \<noteq> MEXP_TMP_FILE \<Longrightarrow> co_read ops c' q = co_read ops c q"
    "mexp_target st' = mexp_target st" "0 < mexp_target st'" "mexp_count st' < mexp_target st' \<Longrightarrow> seq_ok st'"
proof -
  obtain good fb' where g: "mexp_combine sn ops stat mal (mexp_mode_used st) (word_of_int (mexp_count st)) c fb = Some (good, fb')"
    "frame_ok sn fb'"
    by (rule mexp_combine_total[OF assms(1,3)])
  define st1 where "st1 = st\<lparr>mexp_count := mexp_count st + 1\<rparr>"
  have seq: "0 < mexp_count st" "MEXP_FRAMES_MIN \<le> mexp_target st" "mexp_target st \<le> MEXP_FRAMES_MAX"
    "0 \<le> mexp_mode_used st" "mexp_mode_used st < MEXP_MODE_COUNT"
    using assms(4,5) by (simp_all add: seq_ok_def mexp_in_progress_def)
  have st1: "mexp_target st1 = mexp_target st" "0 < mexp_target st1" "mexp_count st1 < mexp_target st1 \<Longrightarrow> seq_ok st1"
    using seq by (simp_all add: st1_def seq_ok_def mexp_in_progress_def)
  consider "\<not> good" | "good" "\<not> mexp_count st1 < mexp_target st1" | "good" "mexp_count st1 < mexp_target st1" by blast
  then show thesis
  proof cases
    case 1
    then show thesis using g seq card_remove[OF assms(2)]
      by (intro that[of fb' "co_remove ops c MEXP_TMP_FILE" "mexp_reset st"])
        (simp_all add: mexp_next_def raw_mexp_cancel_def mexp_reset_def seq_ok_def)
  next
    case 2
    then show thesis using g st1
      by (intro that[of fb' c st1]) (simp_all add: mexp_next_def Let_def st1_def[symmetric])
  next
    case 3
    obtain b c' where s: "mexp_store sn ops fb' c = Some (b, c')" "\<And>q. q \<noteq> MEXP_TMP_FILE \<Longrightarrow> co_read ops c' q = co_read ops c q"
      using store_total[OF assms(2) g(2), of c] by blast
    then show thesis using g st1 3
      by (intro that[of fb' c' st1]) (simp_all add: mexp_next_def Let_def st1_def[symmetric])
  qed
qed

lemma mexp_first_safe:
  assumes "card_laws ops" "frame_ok sn fb"
  obtains c' st' where "mexp_first sn ops cf fb c st = Some (c', st')" "0 < mexp_target st'"
    "\<And>q. q \<noteq> MEXP_TMP_FILE \<Longrightarrow> co_read ops c' q = co_read ops c q" "seq_ok st'" "mexp_count st' < mexp_target st'"
proof -
  obtain b c' where s: "mexp_store sn ops fb c = Some (b, c')" "\<And>q. q \<noteq> MEXP_TMP_FILE \<Longrightarrow> co_read ops c' q = co_read ops c q"
    using store_total[OF assms, of c] by blast
  define st0 where "st0 = mexp_begin (mexp_mode cf) (mexp_frames cf) (mexp_bend_each cf) st"
  note b = begin_ok[of "mexp_mode cf" "mexp_frames cf" "mexp_bend_each cf" st, folded st0_def]
  show thesis
    using s b
    by (intro that[of c' "if b then st0\<lparr>mexp_count := 1\<rparr> else st0"])
      (simp_all add: mexp_first_def st0_def[symmetric] Let_def seq_ok_def mexp_in_progress_def)
qed

text \<open>A shot never fails, keeps the sequence in its bounds and touches no other file.\<close>

lemma raw_mexp_safe:
  assumes "sensor_ok sn" "card_laws ops" "frame_ok sn fb" "seq_ok st"
  shows "\<exists>d fb' c' st'. raw_mexp sn ops stat mal cf (fb, c, st) = Some (d, fb', c', st') \<and> frame_ok sn fb' \<and> seq_ok st' \<and>
    (mexp_count st = 0 \<or> mexp_enable cf = 0 \<longrightarrow> d = 0 \<and> fb' = fb) \<and> (d = 0 \<or> d = 1 \<and> mexp_count st' = 0) \<and>
    (\<forall>q. q \<noteq> MEXP_TMP_FILE \<longrightarrow> co_read ops c' q = co_read ops c q)"
proof -
  consider "mexp_enable cf = 0" | "mexp_enable cf \<noteq> 0" "mexp_count st = 0" | "mexp_enable cf \<noteq> 0" "mexp_count st \<noteq> 0" by blast
  then show ?thesis
  proof cases
    case 1
    then show ?thesis using assms(3,4) card_remove[OF assms(2)]
      by (simp add: raw_mexp_def raw_mexp_cancel_def mexp_reset_def seq_ok_def)
  next
    case 2
    obtain c' st' where f: "mexp_first sn ops cf fb c st = Some (c', st')" "0 < mexp_target st'"
      "\<And>q. q \<noteq> MEXP_TMP_FILE \<Longrightarrow> co_read ops c' q = co_read ops c q" "seq_ok st'" "mexp_count st' < mexp_target st'"
      using mexp_first_safe[OF assms(2,3), of cf c st] by blast
    then show ?thesis using 2 assms(3) by (simp add: raw_mexp_def)
  next
    case 3
    obtain fb' c' st' where n: "mexp_next sn ops stat mal fb c st = Some (fb', c', st')" "frame_ok sn fb'"
      "\<And>q. q \<noteq> MEXP_TMP_FILE \<Longrightarrow> co_read ops c' q = co_read ops c q"
      "mexp_target st' = mexp_target st" "0 < mexp_target st'" "mexp_count st' < mexp_target st' \<Longrightarrow> seq_ok st'"
      using mexp_next_safe[OF assms 3(2), of stat mal c] by blast
    then show ?thesis using 3 card_remove[OF assms(2)]
      by (cases "mexp_target st' \<le> mexp_count st'") (simp_all add: raw_mexp_def mexp_reset_def seq_ok_def)
  qed
qed

text \<open>When the accumulator cannot be read the exposure goes out on its own and the sequence ends.\<close>

definition accumulator_there :: "sensor_t \<Rightarrow> 'c card_ops \<Rightarrow> ('c \<Rightarrow> string \<Rightarrow> int option) \<Rightarrow> (nat \<Rightarrow> nat \<Rightarrow> u16 list option) \<Rightarrow> 'c \<Rightarrow> bool" where
  "accumulator_there sn ops stat mal c \<longleftrightarrow> stat c MEXP_TMP_FILE = Some (int (sn_size sn)) \<and> co_read ops c MEXP_TMP_FILE \<noteq> None \<and>
     mal 0 (sn_rowlen sn) \<noteq> None \<and> mal 1 (2 * sn_rowpix sn) \<noteq> None \<and> mal 2 (2 * sn_rowpix sn) \<noteq> None"

lemma mexp_combine_fails:
  "\<not> accumulator_there sn ops stat mal c \<Longrightarrow> mexp_combine sn ops stat mal mode n c fb = Some (False, fb)"
  by (auto simp: accumulator_there_def mexp_combine_def split: option.split)

lemma raw_mexp_gives_up:
  assumes "\<not> accumulator_there sn ops stat mal c" "mexp_in_progress st" "mexp_enable cf \<noteq> 0"
  shows "raw_mexp sn ops stat mal cf (fb, c, st) = Some (0, fb, co_remove ops c MEXP_TMP_FILE, st\<lparr>mexp_count := 0\<rparr>)"
  using assms(2,3) mexp_combine_fails[OF assms(1)]
  by (simp add: raw_mexp_def mexp_next_def raw_mexp_cancel_def mexp_reset_def mexp_in_progress_def)

text \<open>
  What \<open>mexp_store\<close> returns in mid sequence is not looked at. When the file cannot be opened for
  writing the count goes up, and the card keeps the accumulator without this exposure.
\<close>

lemma exposure_lost:
  assumes ok: "sensor_ok sn" "white_ok sn" and laws: "stat_ok ops stat" "mal_ok sn mal" and en: "mexp_enable cf \<noteq> 0"
    and h: "held sn ops mode N gs (c, st)" "length gs + 1 < N" and f: "frame_ok sn f"
    and no: "co_create ops c MEXP_TMP_FILE = (False, c)"
  obtains fb' where "raw_mexp sn ops stat mal cf (f, c, st) = Some (0, fb', c, st\<lparr>mexp_count := int (length gs) + 1\<rparr>)"
    "shows_composite sn mode (gs @ [f]) fb'"
proof -
  obtain fb' where fb': "mexp_combine sn ops stat mal (mexp_mode_used st) (word_of_int (mexp_count st)) c f = Some (True, fb')"
    "shows_composite sn mode (gs @ [f]) fb'"
    using held_combine[OF ok laws h(1) f] .
  have st: "mexp_count st \<noteq> 0" "mexp_count st = int (length gs)" "mexp_target st = int N"
    using h(1) by (simp_all add: held_def)
  have "mexp_store sn ops fb' c = Some (False, c)"
    using fb'(2) no by (simp add: mexp_store_def shows_composite_def frame_ok_def write_file_def)
  then have "raw_mexp sn ops stat mal cf (f, c, st) = Some (0, fb', c, st\<lparr>mexp_count := int (length gs) + 1\<rparr>)"
    using fb'(1) en st h(2) unfolding raw_mexp_def mexp_next_def by (simp add: Let_def)
  then show thesis using that fb'(2) by blast
qed

section \<open>A card of any room\<close>

definition wide_ops :: "mem_card card_ops" where
  "wide_ops = mem_ops\<lparr>co_write := (\<lambda>c p x. let old = (case map_of (fst c) p of None \<Rightarrow> [] | Some bs \<Rightarrow> bs) in
     (int (length x), (p, old @ x) # filter (\<lambda>f. fst f \<noteq> p) (fst c), snd c))\<rparr>"

lemma wide_laws: "card_laws wide_ops"
proof -
  have l: "\<exists>ns. co_list wide_ops c d = Some ns \<and> (\<exists>m\<in>set ns. CHR 0x00 \<notin> set m \<and> map up_char m = map up_char n)"
    if "CHR 0x00 \<notin> set n" "co_read wide_ops c (d @ ''/'' @ n) \<noteq> None" for c d n
    using that mem_listed[of "fst c" d n] by (auto simp: wide_ops_def mem_ops_def)
  show ?thesis
    unfolding card_laws_def
    by (intro conjI allI impI; (rule l; assumption)?)
      (auto simp: wide_ops_def mem_ops_def Let_def map_of_filter_other map_of_filter_same)
qed

lemma wide_roomy: "roomy sn wide_ops"
  by (simp add: roomy_def write_file_def wide_ops_def mem_ops_def)

definition wide_stat :: "mem_card \<Rightarrow> string \<Rightarrow> int option" where
  "wide_stat c p = map_option (\<lambda>bs. int (length bs)) (map_of (fst c) p)"

lemma wide_stat_ok: "stat_ok wide_ops wide_stat"
  by (simp add: stat_ok_def wide_ops_def mem_ops_def wide_stat_def)

end
