(* ===== verification/RawShot.thy ===== *)
theory RawShot
  imports RawBend RawMexp BendTag
begin

text \<open>
  One exposure as the raw hook sees it (\<open>core/raw.c\<close>): \<open>raw_bend_shot\<close>, which queues the recipe
  of the shot, and the part of \<open>raw_process\<close> that orders the engines: the matrix and the chain on
  every exposure or on the finished composite only, the multiple exposure in between, the recipe
  last. The parameters of an exposure that come from the camera are one record.
\<close>

section \<open>State\<close>

abbreviation (input) BEND_SHOT_OFF :: int where "BEND_SHOT_OFF \<equiv> 0"
abbreviation (input) BEND_SHOT_IN_JPEG :: int where "BEND_SHOT_IN_JPEG \<equiv> 1"
abbreviation (input) BEND_SHOT_SIDECAR :: int where "BEND_SHOT_SIDECAR \<equiv> 2"

text \<open>
  What the camera answers during an exposure: the allocators of the three engines, the tick
  count when the bend starts and when the recipe is queued, the ROM and JPEG buffers, the
  directory and the number of the picture.
\<close>

record shot_env =
  se_lut :: "nat \<Rightarrow> u32 \<Rightarrow> u8 list option"
  se_scratch :: "u32 \<Rightarrow> u8 list option"
  se_rows :: "nat \<Rightarrow> nat \<Rightarrow> u16 list option"
  se_tick :: u32
  se_rom :: "u8 list option"
  se_jpg :: "u8 list option"
  se_dir :: string
  se_num :: int
  se_now :: int

record 'c shot_state =
  ss_conf :: conf_t
  ss_raw :: raw_t
  ss_card :: 'c
  ss_mexp :: mexp_t
  ss_tag :: tag_t

section \<open>The hook\<close>

definition hook_buf :: "sensor_t \<Rightarrow> bendx_buf_t" where
  "hook_buf sn = \<lparr>bb_rowlen = sn_rowlen sn, bb_rowpix = sn_rowpix sn, bb_rows = sn_rows sn, bb_ob_x = BB_OB_X sn,
     bb_nbits = sn_bits sn\<rparr>"

definition hook_env :: "sensor_t \<Rightarrow> shot_env \<Rightarrow> u32 \<Rightarrow> bendx_env_t" where
  "hook_env sn E frame = \<lparr>e_rom = se_rom E, e_jpg = se_jpg E, e_frame = frame, e_black = sn_black sn, e_white = sn_white sn\<rparr>"

definition shot_bitbend :: "sensor_t \<Rightarrow> shot_env \<Rightarrow> 'c shot_state \<Rightarrow> 'c shot_state option" where
  "shot_bitbend sn E s =
     do { (cf, st) \<leftarrow> raw_bitbend sn (se_lut E) (se_tick E) (ss_conf s, ss_raw s);
          Some (s\<lparr>ss_conf := cf, ss_raw := st\<rparr>) }"

definition shot_bendx :: "sensor_t \<Rightarrow> shot_env \<Rightarrow> 'c shot_state \<Rightarrow> 'c shot_state option" where
  "shot_bendx sn E s =
     do { (c, fb) \<leftarrow> raw_bendx (cf_bendx_enable (ss_conf s) \<noteq> 0) (cf_bendx (ss_conf s)) (hook_buf sn)
            (hook_env sn E (rw_frame (ss_raw s))) (se_scratch E) (rw_fb (ss_raw s));
          Some (s\<lparr>ss_conf := (ss_conf s)\<lparr>cf_bendx := c\<rparr>, ss_raw := (ss_raw s)\<lparr>rw_fb := fb\<rparr>\<rparr>) }"

text \<open>\<open>exper\<close> is \<open>CAM_BEND_EXPERIMENTAL\<close>.\<close>

definition shot_bend :: "bool \<Rightarrow> sensor_t \<Rightarrow> shot_env \<Rightarrow> 'c shot_state \<Rightarrow> 'c shot_state option" where
  "shot_bend exper sn E s =
     do { s \<leftarrow> shot_bitbend sn E s; if exper then shot_bendx sn E s else Some s }"

definition shot_mexp :: "sensor_t \<Rightarrow> 'c card_ops \<Rightarrow> ('c \<Rightarrow> string \<Rightarrow> int option) \<Rightarrow> mexp_conf_t \<Rightarrow> shot_env \<Rightarrow>
    'c shot_state \<Rightarrow> (int \<times> 'c shot_state) option" where
  "shot_mexp sn ops stat mc E s =
     do { (d, fb, c, st) \<leftarrow> raw_mexp sn ops stat (se_rows E) mc (rw_fb (ss_raw s), ss_card s, ss_mexp s);
          Some (d, s\<lparr>ss_raw := (ss_raw s)\<lparr>rw_fb := fb\<rparr>, ss_card := c, ss_mexp := st\<rparr>) }"

definition raw_bend_shot :: "bool \<Rightarrow> sensor_t \<Rightarrow> int \<Rightarrow> shot_env \<Rightarrow> conf_t \<Rightarrow> tag_t \<Rightarrow> tag_t" where
  "raw_bend_shot exper sn save E cf tag =
     (if save = BEND_SHOT_OFF then tag
      else let bend_on = (cf_bitbend_enable cf \<noteq> 0 \<and> bend_seg_any cf);
               bendx_on = (exper \<and> cf_bendx_enable cf \<noteq> 0 \<and> 0 < bendx_chain_count (cf_bendx cf)) in
        if \<not> bend_on \<and> \<not> bendx_on then tag
        else if se_dir E = [] then tag
        else if save = BEND_SHOT_IN_JPEG then
          bend_tag_queue (sn_bits sn) (Some (se_dir E)) (se_num E) (Some (cf_bitbend cf)) bend_on
            (if exper then Some (cf_bendx cf) else None) bendx_on (Some (cf_bend_segs cf)) (se_now E) tag
        else tag)"

text \<open>The two conditions of \<open>raw_process\<close> and its order.\<close>

definition bend_each_now :: "mexp_conf_t \<Rightarrow> mexp_t \<Rightarrow> bool" where
  "bend_each_now mc st \<longleftrightarrow> mexp_enable mc = 0 \<or>
     (if mexp_count st \<noteq> 0 then mexp_bend_each_used st \<noteq> 0 else mexp_bend_each mc \<noteq> 0)"

definition raw_process_bend :: "bool \<Rightarrow> sensor_t \<Rightarrow> 'c card_ops \<Rightarrow> ('c \<Rightarrow> string \<Rightarrow> int option) \<Rightarrow> mexp_conf_t \<Rightarrow> int \<Rightarrow>
    shot_env \<Rightarrow> 'c shot_state \<Rightarrow> 'c shot_state option" where
  "raw_process_bend exper sn ops stat mc save E s =
     do { let bend_each = bend_each_now mc (ss_mexp s);
          s \<leftarrow> (if bend_each then shot_bend exper sn E s else Some s);
          (composite_done, s) \<leftarrow> shot_mexp sn ops stat mc E s;
          s \<leftarrow> (if \<not> bend_each \<and> composite_done \<noteq> 0 then shot_bend exper sn E s else Some s);
          Some (if bend_each \<or> composite_done \<noteq> 0
                then s\<lparr>ss_tag := raw_bend_shot exper sn save E (ss_conf s) (ss_tag s)\<rparr> else s) }"

section \<open>An exposure is safe\<close>

definition scratch_law :: "shot_env \<Rightarrow> bool" where
  "scratch_law E \<longleftrightarrow> (\<forall>k p. se_scratch E k = Some p \<longrightarrow> length p = unat k)"

definition shot_ok :: "sensor_t \<Rightarrow> 'c shot_state \<Rightarrow> bool" where
  [wf_defs]: "shot_ok sn s \<longleftrightarrow> conf_shape (ss_conf s) \<and> frame_ok sn (rw_fb (ss_raw s)) \<and> seq_ok (ss_mexp s)"

lemma hook_buf_ok:
  assumes "sensor_ok sn" "sn_bits sn \<noteq> 14" "sn_rowlen sn < 2 ^ 31"
  shows "buf_ok (hook_buf sn)"
proof -
  have "sn_bits sn = 10 \<or> sn_bits sn = 12" using sensor_depth[OF assms(1)] assms(2) by (simp add: mexp_depth_def)
  then have g: "bx_gpix (sn_bits sn) = group_px (sn_bits sn)" "bx_gsz (sn_bits sn) = group_bytes (sn_bits sn)"
    by (auto simp: bx_gpix_def bx_gsz_def group_px_def group_bytes_def)
  have "bx_wholepix (hook_buf sn) \<le> sn_rowpix sn"
    by (simp add: bx_wholepix_def hook_buf_def)
  then show ?thesis
    using assms sensor_depth[OF assms(1)] g
    by (simp add: buf_ok_def px_wf_def hook_buf_def sensor_ok_def mexp_depth_def)
qed

lemma shot_bitbend_safe:
  assumes ok: "sensor_ok sn" and s: "shot_ok sn s"
  shows "ok (shot_bitbend sn E s) (\<lambda>s'. shot_ok sn s' \<and> ss_card s' = ss_card s \<and> ss_mexp s' = ss_mexp s \<and> ss_tag s' = ss_tag s)"
proof -
  obtain cf st where r: "raw_bitbend sn (se_lut E) (se_tick E) (ss_conf s, ss_raw s) = Some (cf, st)"
    "conf_shape cf" "length (rw_fb st) = length (rw_fb (ss_raw s))"
    using bitbend_scope[OF ok, of "ss_conf s" "ss_raw s" "se_lut E" "se_tick E"] s
    by (auto simp: shot_ok_def frame_ok_def ok_def)
  then show ?thesis using s by (simp add: shot_bitbend_def ok_def shot_ok_def frame_ok_def)
qed

lemma shot_bendx_safe:
  assumes ok: "buf_ok (hook_buf sn)" "scratch_law E" and s: "shot_ok sn s"
  shows "ok (shot_bendx sn E s) (\<lambda>s'. shot_ok sn s' \<and> ss_card s' = ss_card s \<and> ss_mexp s' = ss_mexp s \<and> ss_tag s' = ss_tag s)"
proof -
  have fb: "length (rw_fb (ss_raw s)) = bb_rows (hook_buf sn) * bb_rowlen (hook_buf sn)" and c: "chain_shape (cf_bendx (ss_conf s))"
    using s by (simp_all add: shot_ok_def frame_ok_def hook_buf_def conf_shape_def)
  note r = raw_bendx_safe[OF ok(1) fb c, of "se_scratch E" "cf_bendx_enable (ss_conf s) \<noteq> 0" "hook_env sn E (rw_frame (ss_raw s))"]
  obtain c' fb' where "raw_bendx (cf_bendx_enable (ss_conf s) \<noteq> 0) (cf_bendx (ss_conf s)) (hook_buf sn)
      (hook_env sn E (rw_frame (ss_raw s))) (se_scratch E) (rw_fb (ss_raw s)) = Some (c', fb')"
    "length fb' = length (rw_fb (ss_raw s))" "chain_shape c'"
    using r ok(2) c chain_ok_shape by (auto simp: ok_def scratch_law_def split: if_splits)
  then show ?thesis using s by (simp add: shot_bendx_def ok_def shot_ok_def frame_ok_def conf_shape_def)
qed

definition sensor_fits :: "bool \<Rightarrow> sensor_t \<Rightarrow> bool" where
  [wf_defs]: "sensor_fits exper sn \<longleftrightarrow> sensor_ok sn \<and> (exper \<longrightarrow> sn_bits sn \<noteq> 14 \<and> sn_rowlen sn < 2 ^ 31)"

lemma shot_bend_safe:
  assumes ok: "sensor_fits exper sn" "scratch_law E" and s: "shot_ok sn s"
  shows "ok (shot_bend exper sn E s) (\<lambda>s'. shot_ok sn s' \<and> ss_card s' = ss_card s \<and> ss_mexp s' = ss_mexp s \<and> ss_tag s' = ss_tag s)"
proof -
  have sn: "sensor_ok sn" "exper \<Longrightarrow> buf_ok (hook_buf sn)" using ok(1) hook_buf_ok by (auto simp: sensor_fits_def)
  obtain s1 where s1: "shot_bitbend sn E s = Some s1" "shot_ok sn s1" "ss_card s1 = ss_card s" "ss_mexp s1 = ss_mexp s" "ss_tag s1 = ss_tag s"
    using shot_bitbend_safe[OF sn(1) s, of E] by (auto simp: ok_def)
  then show ?thesis
    using shot_bendx_safe[OF sn(2) ok(2) s1(2)] by (cases exper) (auto simp: shot_bend_def ok_def)
qed

lemma shot_mexp_safe:
  assumes ok: "sensor_ok sn" "card_laws ops" and s: "shot_ok sn s"
  obtains d s' where "shot_mexp sn ops stat mc E s = Some (d, s')" "shot_ok sn s'" "ss_conf s' = ss_conf s" "ss_tag s' = ss_tag s"
    "\<And>q. q \<noteq> MEXP_TMP_FILE \<Longrightarrow> co_read ops (ss_card s') q = co_read ops (ss_card s) q"
proof -
  have "frame_ok sn (rw_fb (ss_raw s))" "seq_ok (ss_mexp s)" using s by (simp_all add: shot_ok_def)
  then obtain d fb c st where "raw_mexp sn ops stat (se_rows E) mc (rw_fb (ss_raw s), ss_card s, ss_mexp s) = Some (d, fb, c, st)"
    "frame_ok sn fb" "seq_ok st" "\<forall>q. q \<noteq> MEXP_TMP_FILE \<longrightarrow> co_read ops c q = co_read ops (ss_card s) q"
    using raw_mexp_safe[OF ok, of "rw_fb (ss_raw s)" "ss_mexp s" stat "se_rows E" mc "ss_card s"] by blast
  then show thesis using s
    by (intro that[of d "s\<lparr>ss_raw := (ss_raw s)\<lparr>rw_fb := fb\<rparr>, ss_card := c, ss_mexp := st\<rparr>"]) (simp_all add: shot_mexp_def shot_ok_def)
qed

text \<open>What the recipe step may do to the tag.\<close>

lemma raw_bend_shot_off:
  assumes "save \<noteq> BEND_SHOT_IN_JPEG \<or> \<not> exper \<or>
    \<not> (cf_bitbend_enable cf \<noteq> 0 \<and> bend_seg_any cf) \<and> \<not> (cf_bendx_enable cf \<noteq> 0 \<and> 0 < bendx_chain_count (cf_bendx cf))"
  shows "raw_bend_shot exper sn save E cf tag = tag"
  using assms by (auto simp: raw_bend_shot_def Let_def bend_tag_queue_def)

lemma raw_process_bend_safe:
  assumes ok: "sensor_fits exper sn" "scratch_law E" "card_laws ops" and s: "shot_ok sn s"
  shows "\<exists>s'. raw_process_bend exper sn ops stat mc save E s = Some s' \<and> shot_ok sn s' \<and>
    (\<forall>q. q \<noteq> MEXP_TMP_FILE \<longrightarrow> co_read ops (ss_card s') q = co_read ops (ss_card s) q) \<and>
    (ss_tag s' \<noteq> ss_tag s \<longrightarrow> save = BEND_SHOT_IN_JPEG \<and> exper \<and>
      (cf_bitbend_enable (ss_conf s') \<noteq> 0 \<and> bend_seg_any (ss_conf s') \<or>
       cf_bendx_enable (ss_conf s') \<noteq> 0 \<and> 0 < bendx_chain_count (cf_bendx (ss_conf s'))))"
proof -
  have sn: "sensor_ok sn" using ok(1) by (simp add: sensor_fits_def)
  define each where "each = bend_each_now mc (ss_mexp s)"
  obtain s1 where s1: "(if each then shot_bend exper sn E s else Some s) = Some s1" "shot_ok sn s1" "ss_card s1 = ss_card s" "ss_tag s1 = ss_tag s"
    using shot_bend_safe[OF ok(1,2) s] s by (cases each) (auto simp: ok_def)
  obtain d s2 where s2: "shot_mexp sn ops stat mc E s1 = Some (d, s2)" "shot_ok sn s2" "ss_tag s2 = ss_tag s1"
    "\<And>q. q \<noteq> MEXP_TMP_FILE \<Longrightarrow> co_read ops (ss_card s2) q = co_read ops (ss_card s1) q"
    using shot_mexp_safe[OF sn ok(3) s1(2), of stat mc E] by blast
  obtain s3 where s3: "(if \<not> each \<and> d \<noteq> 0 then shot_bend exper sn E s2 else Some s2) = Some s3" "shot_ok sn s3"
    "ss_card s3 = ss_card s2" "ss_tag s3 = ss_tag s2"
    using shot_bend_safe[OF ok(1,2) s2(2)] s2(2) by (cases "\<not> each \<and> d \<noteq> 0") (auto simp: ok_def)
  define s4 where "s4 = (if each \<or> d \<noteq> 0 then s3\<lparr>ss_tag := raw_bend_shot exper sn save E (ss_conf s3) (ss_tag s3)\<rparr> else s3)"
  have run: "raw_process_bend exper sn ops stat mc save E s = Some s4"
    unfolding raw_process_bend_def Let_def each_def[symmetric] by (simp add: s1(1) s2(1) s3(1) s4_def)
  have "shot_ok sn s4" "ss_card s4 = ss_card s3" "ss_conf s4 = ss_conf s3"
    using s3(2) by (simp_all add: s4_def shot_ok_def)
  moreover have "ss_tag s4 \<noteq> ss_tag s \<Longrightarrow> save = BEND_SHOT_IN_JPEG \<and> exper \<and>
      (cf_bitbend_enable (ss_conf s3) \<noteq> 0 \<and> bend_seg_any (ss_conf s3) \<or>
       cf_bendx_enable (ss_conf s3) \<noteq> 0 \<and> 0 < bendx_chain_count (cf_bendx (ss_conf s3)))"
    using raw_bend_shot_off[of save exper "ss_conf s3" sn E "ss_tag s3"] s1(4) s2(3) s3(4)
    by (auto simp: s4_def split: if_splits)
  ultimately show ?thesis using run s1(3) s2(4) s3(3) by (intro exI[of _ s4]) simp
qed

section \<open>The recipe is what was applied\<close>

text \<open>
  \<open>fb'\<close> is \<open>fb\<close> with every pixel in the scope of its region's matrix driven through that matrix,
  and no bus enters.
\<close>

definition bends_to :: "sensor_t \<Rightarrow> conf_t \<Rightarrow> pat_state \<Rightarrow> u8 list \<Rightarrow> u8 list \<Rightarrow> bool" where
  "bends_to sn cf pt fb fb' \<longleftrightarrow> (\<forall>y < sn_rows sn. \<forall>x < sn_rowpix sn. \<forall>src. let M = pixel_matrix sn cf pt y x in
     bend_ok M \<and> pure_route M \<and>
     (\<exists>v. rget sn fb (y, x) = Some v \<and>
       rget sn fb' (y, x) = Some (if row_on M y \<and> in_scope M y x
         then bend_eval (bend_compile M (sn_bits sn)) v (int x) (int y) src else v)))"

text \<open>The settings of a shot with the matrix alone, its extra signals off.\<close>

definition matrix_only :: "bool \<Rightarrow> conf_t \<Rightarrow> bool" where
  "matrix_only exper cf \<longleftrightarrow> cf_bitbend_enable cf \<noteq> 0 \<and> cf_bitbend_simple cf \<noteq> 0 \<and> (exper \<longrightarrow> cf_bendx_enable cf = 0)"

definition lut_there :: "sensor_t \<Rightarrow> shot_env \<Rightarrow> bool" where
  "lut_there sn E \<longleftrightarrow> se_lut E 0 (push_bit (sn_bits sn) 1 * 2) \<noteq> None"

lemma shot_bend_pointwise:
  assumes ok: "sensor_ok sn" and s: "shot_ok sn s" and cf: "matrix_only exper (ss_conf s)" and E: "lut_there sn E"
  obtains s' where "shot_bend exper sn E s = Some s'"
    "bends_to sn (ss_conf s') (shot_pattern (se_tick E) (ss_raw s)) (rw_fb (ss_raw s)) (rw_fb (ss_raw s'))"
    "shot_ok sn s'" "ss_card s' = ss_card s" "ss_mexp s' = ss_mexp s" "ss_tag s' = ss_tag s"
    "matrix_only exper (ss_conf s')" "cf_bendx (ss_conf s') = cf_bendx (ss_conf s)"
proof -
  have c: "conf_shape (ss_conf s)" "cf_bitbend_enable (ss_conf s) \<noteq> 0" "cf_bitbend_simple (ss_conf s) \<noteq> 0"
    "length (rw_fb (ss_raw s)) = sn_rows sn * sn_rowlen sn"
    using s cf by (simp_all add: shot_ok_def matrix_only_def frame_ok_def)
  have r: "shot_ready sn (se_lut E) (ss_raw s)" using E by (simp add: shot_ready_def lut_there_def)
  obtain cf' st' where b: "raw_bitbend sn (se_lut E) (se_tick E) (ss_conf s, ss_raw s) = Some (cf', st')"
    "conf_shape cf'" "length (rw_fb st') = length (rw_fb (ss_raw s))" "cf_bendx cf' = cf_bendx (ss_conf s)"
    "cf_bendx_enable cf' = cf_bendx_enable (ss_conf s)" "cf_bitbend_enable cf' = cf_bitbend_enable (ss_conf s)"
    "cf_bitbend_simple cf' = cf_bitbend_simple (ss_conf s)"
    using bitbend_keeps[OF ok c(1,2,4), of "se_lut E" "se_tick E"] by (auto simp: ok_def)
  have p: "bends_to sn cf' (shot_pattern (se_tick E) (ss_raw s)) (rw_fb (ss_raw s)) (rw_fb st')"
    using bitbend_pointwise[OF ok c(1,2,3,4) r, of "se_tick E"] b(1) unfolding bends_to_def by (simp add: ok_def)
  define s1 where "s1 = s\<lparr>ss_conf := cf', ss_raw := st'\<rparr>"
  have s1: "shot_bitbend sn E s = Some s1" using b(1) by (simp add: shot_bitbend_def s1_def)
  have "shot_bend exper sn E s = Some s1"
    using s1 cf b(5) by (cases exper) (simp_all add: shot_bend_def shot_bendx_def raw_bendx_def s1_def matrix_only_def)
  then show thesis
    using p b(2-7) s cf by (intro that[of s1]) (simp_all add: s1_def shot_ok_def frame_ok_def matrix_only_def)
qed

lemma raw_bend_shot_queues:
  assumes "matrix_only True cf" "bend_seg_any cf" "save = BEND_SHOT_IN_JPEG" "se_dir E \<noteq> []" "length (se_dir E) + 16 < BEND_TAG_PATHLEN"
  shows "raw_bend_shot True sn save E cf tag = tag\<lparr>bt_path := picture_file (se_dir E) (se_num E),
    bt_text := tag_text (sn_bits sn) (cf_bitbend cf) True (cf_bendx cf) False (cf_bend_segs cf), bt_at := se_now E, bt_pending := True\<rparr>"
  using assms by (simp add: raw_bend_shot_def bend_tag_queue_def matrix_only_def)

text \<open>A matrix the recipe step calls straight is one that changes nothing.\<close>

lemma identity_matrix_wires:
  assumes "bend_ok b" "bend_is_identity b" "nb \<le> 16" "i < nb"
  shows "wire b (from_bits b nb) nb i = Data i"
proof (cases "i + from_bits b nb < nb")
  case False
  have n: "2 \<le> unat (b_nbits b)" "unat (b_nbits b) \<le> 16" using bend_okD[OF assms(1)] by (simp_all add: BEND_MAX_BITS_def)
  then have f: "from_bits b nb = unat (b_nbits b)" by (auto simp: from_bits_def)
  define a where "a = i + unat (b_nbits b) - nb"
  have a: "a < unat (b_nbits b)" "a < 16" using False assms(4) n by (simp_all add: a_def f)
  have "b_route b ! a = BSRC_DATA a" using assms(2) a n(2) by (simp add: bend_is_identity_def BEND_MAX_BITS_def)
  moreover have "decode_src (BSRC_DATA a) = Data a"
    using a(2) less_16_iff[of a] by (auto simp: decode_src_def BSRC_DATA_def BSRC_CLASS_def BSRC_IDX_def)
  moreover have "retarget (unat (b_nbits b)) nb a = i" using False assms(4)
    by (simp add: retarget_def bend_remap_def bend_remap_raw_def a_def f of_nat_diff)
  ultimately show ?thesis using False by (simp add: wire_def f a_def)
qed (simp add: wire_def)

lemma identity_matrix_keeps:
  assumes "bend_ok b" "bend_is_identity b" "nb \<le> 16" "fits nb v"
  shows "bend_eval (bend_compile b nb) v x y src = v"
  using identity_iff_wires[OF assms(3), of b] identity_matrix_wires[OF assms(1-3)] identity_eval[OF _ assms(3)] fits_and_mask[OF assms(4)]
  by simp

lemma bends_to_straight:
  assumes ok: "sensor_ok sn" and fb: "frame_ok sn fb" and b: "bends_to sn cf pt fb fb'" and none: "\<not> bend_seg_any cf"
    and yx: "y < sn_rows sn" "x < sn_rowpix sn"
  shows "rget sn fb' (y, x) = rget sn fb (y, x)"
proof -
  have nb: "sn_bits sn \<le> 16" using sensor_depth[OF ok] by (auto simp: mexp_depth_def)
  define M where "M = pixel_matrix sn cf pt y x"
  have fr: "in_frame sn fb (y, x)" using fb yx by (simp add: frame_ok_def in_frame_def)
  obtain v where v: "rget sn fb (y, x) = Some v" "fits (sn_bits sn) v" using rget_the[OF ok fr] by blast
  have p: "bend_ok M" "rget sn fb' (y, x) = Some (if row_on M y \<and> in_scope M y x
      then bend_eval (bend_compile M (sn_bits sn)) v (int x) (int y) src else v)" for src
    using b[unfolded bends_to_def, rule_format, OF yx, of src] v(1) unfolding M_def by (simp_all only: Let_def option.inject ex_simps) metis+
  obtain j where j: "M = bend_seg_conf cf (int j)" "j < nat (bend_seg_n cf)"
    using region_range[OF ok yx(2), of pt "uint (g_layout (cf_bend_segs cf))" "uint (g_size (cf_bend_segs cf))" y]
    unfolding M_def pixel_matrix_def bend_seg_n_def by (metis nonneg_int_cases zless_nat_eq_int_zless)
  have "bend_is_identity M" using none j by (simp add: bend_seg_any_def)
  then show ?thesis unfolding p(2)[of undefined] v(1) using identity_matrix_keeps[OF p(1) _ nb v(2)] by simp
qed

text \<open>
  The shot of a camera that bends every exposure: the frame is bent by the matrices of the
  configuration it leaves, and either these are queued as the recipe of the picture, or there is
  none and the picture is the one the sensor gave.
\<close>

lemma recorded_shot:
  assumes ok: "sensor_ok sn" and s: "shot_ok sn s" and cf: "matrix_only True (ss_conf s)" and E: "lut_there sn E"
    and off: "mexp_enable mc = 0" and dir: "se_dir E \<noteq> []" "length (se_dir E) + 16 < BEND_TAG_PATHLEN"
  shows "\<exists>s'. raw_process_bend True sn ops stat mc BEND_SHOT_IN_JPEG E s = Some s' \<and>
    bends_to sn (ss_conf s') (shot_pattern (se_tick E) (ss_raw s)) (rw_fb (ss_raw s)) (rw_fb (ss_raw s')) \<and>
    (if bend_seg_any (ss_conf s')
     then ss_tag s' = (ss_tag s)\<lparr>bt_path := picture_file (se_dir E) (se_num E),
       bt_text := tag_text (sn_bits sn) (cf_bitbend (ss_conf s')) True (cf_bendx (ss_conf s')) False (cf_bend_segs (ss_conf s')),
       bt_at := se_now E, bt_pending := True\<rparr>
     else ss_tag s' = ss_tag s \<and>
       (\<forall>y < sn_rows sn. \<forall>x < sn_rowpix sn. rget sn (rw_fb (ss_raw s')) (y, x) = rget sn (rw_fb (ss_raw s)) (y, x)))"
proof -
  obtain s1 where s1: "shot_bend True sn E s = Some s1"
    "bends_to sn (ss_conf s1) (shot_pattern (se_tick E) (ss_raw s)) (rw_fb (ss_raw s)) (rw_fb (ss_raw s1))"
    "ss_tag s1 = ss_tag s" "matrix_only True (ss_conf s1)"
    using shot_bend_pointwise[OF ok s cf E] .
  obtain c st where m: "raw_mexp sn ops stat (se_rows E) mc (rw_fb (ss_raw s1), ss_card s1, ss_mexp s1) = Some (0, rw_fb (ss_raw s1), c, st)"
    using off by (cases "mexp_count (ss_mexp s1) = 0") (simp_all add: raw_mexp_def raw_mexp_cancel_def)
  define s2 where "s2 = s1\<lparr>ss_card := c, ss_mexp := st\<rparr>"
  have "shot_mexp sn ops stat mc E s1 = Some (0, s2)" using m by (simp add: shot_mexp_def s2_def)
  then have run: "raw_process_bend True sn ops stat mc BEND_SHOT_IN_JPEG E s =
      Some (s2\<lparr>ss_tag := raw_bend_shot True sn BEND_SHOT_IN_JPEG E (ss_conf s2) (ss_tag s2)\<rparr>)"
    using off s1(1) by (simp add: raw_process_bend_def bend_each_now_def)
  have s2: "ss_conf s2 = ss_conf s1" "ss_raw s2 = ss_raw s1" "ss_tag s2 = ss_tag s" using s1(3) by (simp_all add: s2_def)
  have fb: "frame_ok sn (rw_fb (ss_raw s))" using s by (simp add: shot_ok_def)
  show ?thesis
  proof (cases "bend_seg_any (ss_conf s1)")
    case True
    then show ?thesis
      using run s1(2) s2 raw_bend_shot_queues[OF s1(4) True refl dir] by simp
  next
    case False
    have "raw_bend_shot True sn BEND_SHOT_IN_JPEG E (ss_conf s1) (ss_tag s) = ss_tag s"
      by (rule raw_bend_shot_off) (use False s1(4) in \<open>simp add: matrix_only_def\<close>)
    then show ?thesis using run s1(2) s2 bends_to_straight[OF ok fb s1(2) False] False by simp
  qed
qed

section \<open>Bending the composite only\<close>

text \<open>Exposures one after the other, each on the frame the sensor gave.\<close>

definition exposed :: "u8 list \<Rightarrow> 'c shot_state \<Rightarrow> 'c shot_state" where
  "exposed f s = s\<lparr>ss_raw := (ss_raw s)\<lparr>rw_fb := f\<rparr>\<rparr>"

primrec capture_shots :: "bool \<Rightarrow> sensor_t \<Rightarrow> 'c card_ops \<Rightarrow> ('c \<Rightarrow> string \<Rightarrow> int option) \<Rightarrow> mexp_conf_t \<Rightarrow> int \<Rightarrow>
    (shot_env \<times> u8 list) list \<Rightarrow> 'c shot_state \<Rightarrow> (u8 list list \<times> 'c shot_state) option" where
  "capture_shots exper sn ops stat mc save [] s = Some ([], s)"
| "capture_shots exper sn ops stat mc save (e # es) s =
     do { s \<leftarrow> raw_process_bend exper sn ops stat mc save (fst e) (exposed (snd e) s);
          let pic = rw_fb (ss_raw s);
          (pics, s) \<leftarrow> capture_shots exper sn ops stat mc save es s;
          Some (pic # pics, s) }"

definition deferred :: "conf_t \<Rightarrow> tag_t \<Rightarrow> raw_t \<Rightarrow> 'c shot_state \<Rightarrow> bool" where
  "deferred cf tag st s \<longleftrightarrow> ss_conf s = cf \<and> ss_tag s = tag \<and> mexp_bend_each_used (ss_mexp s) = 0 \<and>
     rw_frame (ss_raw s) = rw_frame st \<and> rw_pat (ss_raw s) = rw_pat st"

text \<open>The sensor, the card and the settings of a sequence that bends its composite only.\<close>

definition card_ok :: "sensor_t \<Rightarrow> 'c card_ops \<Rightarrow> ('c \<Rightarrow> string \<Rightarrow> int option) \<Rightarrow> bool" where
  "card_ok sn ops stat \<longleftrightarrow> sensor_ok sn \<and> white_ok sn \<and> card_laws ops \<and> stat_ok ops stat \<and> roomy sn ops"

lemma not_each: "\<lbrakk>mexp_enable mc \<noteq> 0; mexp_count st \<noteq> 0; mexp_bend_each_used st = 0\<rbrakk> \<Longrightarrow> \<not> bend_each_now mc st"
  "\<lbrakk>mexp_enable mc \<noteq> 0; mexp_count st = 0; mexp_bend_each mc = 0\<rbrakk> \<Longrightarrow> \<not> bend_each_now mc st"
  by (simp_all add: bend_each_now_def)

lemma deferred_process:
  assumes "\<not> bend_each_now mc (ss_mexp s)"
    "raw_mexp sn ops stat (se_rows E) mc (f, ss_card s, ss_mexp s) = Some (d, fb, c, st)"
  defines "s1 \<equiv> s\<lparr>ss_raw := (ss_raw s)\<lparr>rw_fb := fb\<rparr>, ss_card := c, ss_mexp := st\<rparr>"
  shows "d = 0 \<Longrightarrow> raw_process_bend exper sn ops stat mc save E (exposed f s) = Some s1"
    and "\<lbrakk>d = 1; shot_bend exper sn E s1 = Some s2\<rbrakk> \<Longrightarrow> raw_process_bend exper sn ops stat mc save E (exposed f s) =
      Some (s2\<lparr>ss_tag := raw_bend_shot exper sn save E (ss_conf s2) (ss_tag s2)\<rparr>)"
  using assms by (simp_all add: raw_process_bend_def exposed_def shot_mexp_def)

lemma deferred_first:
  assumes C: "card_ok sn ops stat" and mc: "conf_mode_ok mc" "mexp_bend_each mc = 0" and c0: "mexp_count (ss_mexp s) = 0"
    and f: "frame_ok sn f"
  obtains s1 where "raw_process_bend exper sn ops stat mc save E (exposed f s) = Some s1" "rw_fb (ss_raw s1) = f"
    "held sn ops (mexp_mode mc) (nat (mexp_frames mc)) [f] (ss_card s1, ss_mexp s1)" "deferred (ss_conf s) (ss_tag s) (ss_raw s) s1"
proof -
  have laws: "card_laws ops" "roomy sn ops" using C by (simp_all add: card_ok_def)
  obtain c st where m: "raw_mexp sn ops stat (se_rows E) mc (f, ss_card s, ss_mexp s) = Some (0, f, c, st)"
    "held sn ops (mexp_mode mc) (nat (mexp_frames mc)) [f] (c, st)" "mexp_bend_each_used st = (if mexp_bend_each mc \<noteq> 0 then 1 else 0)"
    using first_shot[OF laws mc(1) c0 f, of stat "se_rows E" "ss_card s"] by blast
  have n: "\<not> bend_each_now mc (ss_mexp s)" using not_each(2) mc c0 by (auto simp: conf_mode_ok_def)
  show thesis
    using deferred_process(1)[OF n m(1) refl] m(2,3) mc(2)
    by (intro that[of "s\<lparr>ss_raw := (ss_raw s)\<lparr>rw_fb := f\<rparr>, ss_card := c, ss_mexp := st\<rparr>"]) (simp_all add: deferred_def)
qed

lemma deferred_next:
  assumes C: "card_ok sn ops stat" and en: "mexp_enable mc \<noteq> 0" and E: "mal_ok sn (se_rows E)"
    and h: "held sn ops mode N gs (ss_card s, ss_mexp s)" "deferred cf tag st0 s" and f: "frame_ok sn f"
  shows "length gs + 1 < N \<Longrightarrow> \<exists>s1. raw_process_bend exper sn ops stat mc save E (exposed f s) = Some s1 \<and>
      shows_composite sn mode (gs @ [f]) (rw_fb (ss_raw s1)) \<and> held sn ops mode N (gs @ [f]) (ss_card s1, ss_mexp s1) \<and>
      deferred cf tag st0 s1"
    and "\<lbrakk>length gs + 1 = N; conf_shape cf; matrix_only exper cf; lut_there sn E\<rbrakk> \<Longrightarrow>
      \<exists>s1 comp. raw_process_bend exper sn ops stat mc save E (exposed f s) = Some s1 \<and> shows_composite sn mode (gs @ [f]) comp \<and>
        bends_to sn (ss_conf s1) (shot_pattern (se_tick E) st0) comp (rw_fb (ss_raw s1)) \<and>
        ss_tag s1 = raw_bend_shot exper sn save E (ss_conf s1) tag \<and>
        co_read ops (ss_card s1) MEXP_TMP_FILE = None \<and> mexp_count (ss_mexp s1) = 0"
proof -
  have laws: "sensor_ok sn" "white_ok sn" "card_laws ops" "stat_ok ops stat" "roomy sn ops" using C by (simp_all add: card_ok_def)
  obtain fb c st where m: "raw_mexp sn ops stat (se_rows E) mc (f, ss_card s, ss_mexp s) = Some (if length gs + 1 = N then 1 else 0, fb, c, st)"
    "shows_composite sn mode (gs @ [f]) fb" "length gs + 1 < N \<Longrightarrow> held sn ops mode N (gs @ [f]) (c, st)"
    "length gs + 1 = N \<Longrightarrow> co_read ops c MEXP_TMP_FILE = None \<and> mexp_count st = 0" "mexp_bend_each_used st = mexp_bend_each_used (ss_mexp s)"
    using held_shot[OF laws(1-5) E en h(1) f] by metis
  have n: "\<not> bend_each_now mc (ss_mexp s)"
    by (rule not_each(1)[OF en]) (use h in \<open>simp_all add: held_def deferred_def\<close>)
  define s1 where "s1 = s\<lparr>ss_raw := (ss_raw s)\<lparr>rw_fb := fb\<rparr>, ss_card := c, ss_mexp := st\<rparr>"
  note p = deferred_process[OF n m(1), folded s1_def]
  show "\<exists>s1. raw_process_bend exper sn ops stat mc save E (exposed f s) = Some s1 \<and>
      shows_composite sn mode (gs @ [f]) (rw_fb (ss_raw s1)) \<and> held sn ops mode N (gs @ [f]) (ss_card s1, ss_mexp s1) \<and>
      deferred cf tag st0 s1" if "length gs + 1 < N"
    using p(1)[of exper save] that m(2,3,5) h(2) by (intro exI[of _ s1]) (simp add: s1_def deferred_def)
  show "\<exists>s1 comp. raw_process_bend exper sn ops stat mc save E (exposed f s) = Some s1 \<and> shows_composite sn mode (gs @ [f]) comp \<and>
        bends_to sn (ss_conf s1) (shot_pattern (se_tick E) st0) comp (rw_fb (ss_raw s1)) \<and>
        ss_tag s1 = raw_bend_shot exper sn save E (ss_conf s1) tag \<and>
        co_read ops (ss_card s1) MEXP_TMP_FILE = None \<and> mexp_count (ss_mexp s1) = 0"
    if N: "length gs + 1 = N" and cf: "conf_shape cf" "matrix_only exper cf" and lut: "lut_there sn E"
  proof -
    have f1: "rw_fb (ss_raw s1) = fb" "ss_conf s1 = cf" "ss_tag s1 = tag" "ss_card s1 = c" "ss_mexp s1 = st"
      "shot_pattern (se_tick E) (ss_raw s1) = shot_pattern (se_tick E) st0"
      using h(2) by (simp_all add: s1_def deferred_def shot_pattern_def)
    have "shot_ok sn s1"
      using f1 m(2) m(4)[OF N] cf(1) by (simp add: shot_ok_def shows_composite_def seq_ok_def)
    then obtain s2 where s2: "shot_bend exper sn E s1 = Some s2"
      "bends_to sn (ss_conf s2) (shot_pattern (se_tick E) (ss_raw s1)) (rw_fb (ss_raw s1)) (rw_fb (ss_raw s2))"
      "ss_card s2 = ss_card s1" "ss_mexp s2 = ss_mexp s1" "ss_tag s2 = ss_tag s1"
      using shot_bend_pointwise[OF laws(1) _ _ lut, of s1 exper] cf(2) f1(2) by metis
    define s3 where "s3 = s2\<lparr>ss_tag := raw_bend_shot exper sn save E (ss_conf s2) (ss_tag s2)\<rparr>"
    have "raw_process_bend exper sn ops stat mc save E (exposed f s) = Some s3"
      unfolding s3_def using N by (intro p(2)[OF _ s2(1)]) simp
    then show ?thesis
      using s2 f1 m(2) m(4)[OF N] by (intro exI[of _ s3] exI[of _ fb]) (simp add: s3_def)
  qed
qed

lemma deferred_shots:
  assumes C: "card_ok sn ops stat" and en: "mexp_enable mc \<noteq> 0" and cf: "conf_shape cf" "matrix_only exper cf"
  shows "\<lbrakk>held sn ops mode N gs (ss_card s, ss_mexp s); deferred cf tag st0 s; es \<noteq> []; length gs + length es = N;
      \<forall>e\<in>set es. mal_ok sn (se_rows (fst e)) \<and> lut_there sn (fst e) \<and> frame_ok sn (snd e)\<rbrakk> \<Longrightarrow>
    \<exists>pics s' comp. capture_shots exper sn ops stat mc save es s = Some (pics, s') \<and> length pics = length es \<and>
      (\<forall>k. k + 1 < length es \<longrightarrow> shows_composite sn mode (gs @ map snd (take (Suc k) es)) (pics ! k)) \<and>
      shows_composite sn mode (gs @ map snd es) comp \<and>
      bends_to sn (ss_conf s') (shot_pattern (se_tick (fst (last es))) st0) comp (last pics) \<and>
      ss_tag s' = raw_bend_shot exper sn save (fst (last es)) (ss_conf s') tag \<and>
      co_read ops (ss_card s') MEXP_TMP_FILE = None \<and> mexp_count (ss_mexp s') = 0"
proof (induction es arbitrary: gs s)
  case (Cons e es)
  note step = deferred_next[OF C en _ Cons.prems(1,2), where E = "fst e" and f = "snd e" and save = save and exper = exper]
  have e: "mal_ok sn (se_rows (fst e))" "lut_there sn (fst e)" "frame_ok sn (snd e)" using Cons.prems(5) by simp_all
  show ?case
  proof (cases "es = []")
    case True
    obtain s1 comp where "raw_process_bend exper sn ops stat mc save (fst e) (exposed (snd e) s) = Some s1"
      "shows_composite sn mode (gs @ [snd e]) comp"
      "bends_to sn (ss_conf s1) (shot_pattern (se_tick (fst e)) st0) comp (rw_fb (ss_raw s1))"
      "ss_tag s1 = raw_bend_shot exper sn save (fst e) (ss_conf s1) tag"
      "co_read ops (ss_card s1) MEXP_TMP_FILE = None" "mexp_count (ss_mexp s1) = 0"
      using step(2)[OF e(1,3) _ cf e(2)] Cons.prems(4) True by auto
    then show ?thesis using True
      by (intro exI[of _ "[rw_fb (ss_raw s1)]"] exI[of _ s1] exI[of _ comp]) simp
  next
    case False
    then have "length gs + 1 < N" using Cons.prems(4) by (cases es) auto
    then obtain s1 where s1: "raw_process_bend exper sn ops stat mc save (fst e) (exposed (snd e) s) = Some s1"
      "shows_composite sn mode (gs @ [snd e]) (rw_fb (ss_raw s1))" "held sn ops mode N (gs @ [snd e]) (ss_card s1, ss_mexp s1)"
      "deferred cf tag st0 s1"
      using step(1)[OF e(1,3)] by blast
    obtain pics s' comp where r: "capture_shots exper sn ops stat mc save es s1 = Some (pics, s')" "length pics = length es"
      "\<forall>k. k + 1 < length es \<longrightarrow> shows_composite sn mode ((gs @ [snd e]) @ map snd (take (Suc k) es)) (pics ! k)"
      "shows_composite sn mode ((gs @ [snd e]) @ map snd es) comp"
      "bends_to sn (ss_conf s') (shot_pattern (se_tick (fst (last es))) st0) comp (last pics)"
      "ss_tag s' = raw_bend_shot exper sn save (fst (last es)) (ss_conf s') tag"
      "co_read ops (ss_card s') MEXP_TMP_FILE = None" "mexp_count (ss_mexp s') = 0"
      using Cons.IH[OF s1(3,4) False] Cons.prems(4,5) by auto
    have "shows_composite sn mode (gs @ map snd (take (Suc k) (e # es))) ((rw_fb (ss_raw s1) # pics) ! k)"
      if "k + 1 < length (e # es)" for k
      using that r(3) s1(2) by (cases k) auto
    moreover have "capture_shots exper sn ops stat mc save (e # es) s = Some (rw_fb (ss_raw s1) # pics, s')"
      using s1(1) r(1) by (simp add: Let_def)
    moreover have "pics \<noteq> []" using r(2) False by auto
    ultimately show ?thesis using r False
      by (intro exI[of _ "rw_fb (ss_raw s1) # pics"] exI[of _ s'] exI[of _ comp]) simp
  qed
qed simp

lemma composite_only_sequence:
  assumes C: "card_ok sn ops stat" and mc: "conf_mode_ok mc" "mexp_bend_each mc = 0"
    and s: "conf_shape (ss_conf s)" "matrix_only exper (ss_conf s)" "mexp_count (ss_mexp s) = 0"
    and es: "int (length es) = mexp_frames mc" "\<forall>e\<in>set es. mal_ok sn (se_rows (fst e)) \<and> lut_there sn (fst e) \<and> frame_ok sn (snd e)"
  shows "\<exists>pics s' comp. capture_shots exper sn ops stat mc save es s = Some (pics, s') \<and> length pics = length es \<and>
      (\<forall>k. k + 1 < length es \<longrightarrow> shows_composite sn (mexp_mode mc) (map snd (take (Suc k) es)) (pics ! k)) \<and>
      shows_composite sn (mexp_mode mc) (map snd es) comp \<and>
      bends_to sn (ss_conf s') (shot_pattern (se_tick (fst (last es))) (ss_raw s)) comp (last pics) \<and>
      ss_tag s' = raw_bend_shot exper sn save (fst (last es)) (ss_conf s') (ss_tag s) \<and>
      co_read ops (ss_card s') MEXP_TMP_FILE = None \<and> mexp_count (ss_mexp s') = 0"
proof -
  have n: "2 \<le> length es" "nat (mexp_frames mc) = length es" "mexp_enable mc \<noteq> 0" using es(1) mc(1) by (simp_all add: conf_mode_ok_def)
  then obtain e es' where e: "es = e # es'" "es' \<noteq> []" by (cases es) (auto simp: Suc_le_length_iff)
  have f: "frame_ok sn (snd e)" using es(2) e(1) by simp
  obtain s1 where s1: "raw_process_bend exper sn ops stat mc save (fst e) (exposed (snd e) s) = Some s1" "rw_fb (ss_raw s1) = snd e"
    "held sn ops (mexp_mode mc) (length es) [snd e] (ss_card s1, ss_mexp s1)" "deferred (ss_conf s) (ss_tag s) (ss_raw s) s1"
    using deferred_first[OF C mc s(3) f, of exper save "fst e"] unfolding n(2) by blast
  obtain pics s' comp where r: "capture_shots exper sn ops stat mc save es' s1 = Some (pics, s')" "length pics = length es'"
    "\<forall>k. k + 1 < length es' \<longrightarrow> shows_composite sn (mexp_mode mc) ([snd e] @ map snd (take (Suc k) es')) (pics ! k)"
    "shows_composite sn (mexp_mode mc) ([snd e] @ map snd es') comp"
    "bends_to sn (ss_conf s') (shot_pattern (se_tick (fst (last es'))) (ss_raw s)) comp (last pics)"
    "ss_tag s' = raw_bend_shot exper sn save (fst (last es')) (ss_conf s') (ss_tag s)"
    "co_read ops (ss_card s') MEXP_TMP_FILE = None" "mexp_count (ss_mexp s') = 0"
    using deferred_shots[OF C n(3) s(1,2) s1(3,4) e(2), of save] es(2) e(1) by auto
  have "shows_composite sn (mexp_mode mc) (map snd (take (Suc k) es)) ((snd e # pics) ! k)" if "k + 1 < length es" for k
    using that r(3) shows_one[OF f, of "mexp_mode mc"] e(1) by (cases k) auto
  moreover have "capture_shots exper sn ops stat mc save es s = Some (snd e # pics, s')"
    using s1(1,2) r(1) by (simp add: e(1) Let_def)
  moreover have "pics \<noteq> []" using r(2) e(2) by auto
  ultimately show ?thesis using r e
    by (intro exI[of _ "snd e # pics"] exI[of _ s'] exI[of _ comp]) simp
qed

end
