(* ===== verification/UserMenu.thy ===== *)
theory UserMenu
  imports Codec Card
begin

unbundle bit_operations_syntax

text \<open>
  The user menu (\<open>core/gui_user_menu.c\<close>, \<open>core/gui_menu.h\<close>, and the editing of
  \<open>modules/user_menu_edit.c\<close>): the rows of the submenu, the table \<open>conf.user_menu_vars\<close> that
  stands for them in the configuration, and the strings on the heap that rows and table share.
  A pointer is a number, 0 is \<open>NULL\<close>, and what the code may not do (use a freed string, leave an
  array or a buffer) is the value \<open>None\<close>.
\<close>

section \<open>Rows, table and heap\<close>

abbreviation (input) USER_MENU_ITEMS :: nat where "USER_MENU_ITEMS \<equiv> 14"
abbreviation (input) CONF_STR_LEN :: nat where "CONF_STR_LEN \<equiv> 100"
abbreviation (input) MAX_LANGID :: nat where "MAX_LANGID \<equiv> 4096"
abbreviation (input) LANG_MENU_USER_MENU :: nat where "LANG_MENU_USER_MENU \<equiv> 300"
abbreviation (input) LANG_MENU_BACK :: nat where "LANG_MENU_BACK \<equiv> 12"
abbreviation (input) MENUITEM_MASK :: u16 where "MENUITEM_MASK \<equiv> 0x000f"
abbreviation (input) MENUITEM_SUBMENU :: u16 where "MENUITEM_SUBMENU \<equiv> 3"
abbreviation (input) MENUITEM_PROC :: u16 where "MENUITEM_PROC \<equiv> 4"
abbreviation (input) MENUITEM_USER_MODULE :: u16 where "MENUITEM_USER_MODULE \<equiv> 0x0400"
abbreviation (input) USER_MENU_IS_SCRIPT :: u32 where "USER_MENU_IS_SCRIPT \<equiv> - 1"
abbreviation (input) USER_MENU_IS_MODULE :: u32 where "USER_MENU_IS_MODULE \<equiv> - 2"

text \<open>
  The union behind a row: the two functions the user menu compares with, a submenu, or any other
  pointer.
\<close>

datatype CMenuItem =
  MenuItem (mi_symbol: u8) (mi_opt_len: u8) (mi_type: u16) (mi_text: nat) (mi_value: menu_value) (mi_arg: nat)
and menu_value =
  Load_user_menu_script | Module_run | Sub_menu "CMenuItem list" | Value_at nat

record tUserMenuItem =
  um_var :: u32
  um_file :: nat
  um_title :: nat

text \<open>
  \<open>ms_items\<close> is \<open>conf.user_menu_vars.items\<close> with \<open>num_items\<close> its length, \<open>ms_sub\<close> the array
  \<open>user_submenu_items\<close>, \<open>ms_heap\<close> the live strings without their terminator, \<open>ms_next\<close> what
  \<open>malloc\<close> returns next, \<open>ms_title\<close> and \<open>ms_cur\<close> the title of the menu on the screen and its
  cursor, and \<open>ms_changed\<close> is \<open>camera_info.state.user_menu_has_changed\<close>.
\<close>

record menu_state =
  ms_items :: "tUserMenuItem list"
  ms_sub :: "CMenuItem list"
  ms_heap :: "nat \<Rightarrow> u8 list option"
  ms_next :: nat
  ms_title :: nat
  ms_cur :: int
  ms_changed :: bool

definition set_mi_text :: "nat \<Rightarrow> CMenuItem \<Rightarrow> CMenuItem" where
  "set_mi_text t m = MenuItem (mi_symbol m) (mi_opt_len m) (mi_type m) t (mi_value m) (mi_arg m)"

lemma mi_text_set [simp]: "mi_text (set_mi_text t m) = t"
  by (simp add: set_mi_text_def)

section \<open>Strings on the heap\<close>

definition free_string :: "nat \<Rightarrow> menu_state \<Rightarrow> menu_state option" where
  "free_string p s =
     (if p = 0 then Some s
      else if ms_heap s p = None then None
      else Some (s\<lparr>ms_heap := (ms_heap s)(p := None)\<rparr>))"

text \<open>\<open>if (p == 0) p = malloc(CONF_STR_LEN); strcpy(p, str)\<close>, with the pointer it leaves.\<close>

definition set_string :: "nat \<Rightarrow> u8 list \<Rightarrow> menu_state \<Rightarrow> (nat \<times> menu_state) option" where
  "set_string p str s =
     (if CONF_STR_LEN \<le> length str then None
      else if p = 0 then Some (ms_next s, s\<lparr>ms_heap := (ms_heap s)(ms_next s \<mapsto> str), ms_next := ms_next s + CONF_STR_LEN\<rparr>)
      else if ms_heap s p = None then None
      else Some (p, s\<lparr>ms_heap := (ms_heap s)(p \<mapsto> str)\<rparr>))"

definition hash_step :: "u32 \<Rightarrow> u8 \<Rightarrow> u32" where
  "hash_step h b = ucast b XOR push_bit 6 h XOR drop_bit 25 h"

definition lang_strhash31 :: "(nat \<Rightarrow> u8 list option) \<Rightarrow> nat \<Rightarrow> u32 option" where
  "lang_strhash31 hp t =
     (if t < MAX_LANGID then Some (word_of_nat t)
      else map_option (\<lambda>str. let h = foldl hash_step 0 str in
             if h < word_of_nat MAX_LANGID then h OR push_bit 31 1 else h) (hp t))"

section \<open>The menu item of a hash\<close>

definition sub_rows :: "CMenuItem \<Rightarrow> CMenuItem list" where
  "sub_rows m = (case mi_value m of Sub_menu ms \<Rightarrow> ms | _ \<Rightarrow> [])"

lemma size_sub_rows [termination_simp]: "size_list size (sub_rows m) < Suc (size m + n)"
  by (cases m; cases "mi_value m") (auto simp: sub_rows_def)

fun find_menu_item :: "(nat \<Rightarrow> u8 list option) \<Rightarrow> CMenuItem list \<Rightarrow> u32 \<Rightarrow> CMenuItem option" where
  "find_menu_item hp [] i = None"
| "find_menu_item hp (m # ms) i =
     (if i = 0 \<or> mi_text m = 0 then None
      else if lang_strhash31 hp (mi_text m) = Some i then Some m
      else if mi_type m AND MENUITEM_MASK = MENUITEM_SUBMENU \<and> mi_text m \<noteq> LANG_MENU_USER_MENU then
        (case find_menu_item hp (sub_rows m) i of Some r \<Rightarrow> Some r | None \<Rightarrow> find_menu_item hp ms i)
      else find_menu_item hp ms i)"

section \<open>The table as bytes\<close>

text \<open>
  A slot of the file: the value, then the two names in fields of \<open>CONF_STR_LEN\<close> bytes. A name
  longer than its field would run into the next one.
\<close>

definition name_field :: "(nat \<Rightarrow> u8 list option) \<Rightarrow> nat \<Rightarrow> u8 list option" where
  "name_field hp p =
     (if p = 0 then Some (replicate CONF_STR_LEN 0)
      else case hp p of None \<Rightarrow> None
        | Some str \<Rightarrow> if length str \<le> CONF_STR_LEN then Some (str @ replicate (CONF_STR_LEN - length str) 0) else None)"

definition store_item :: "(nat \<Rightarrow> u8 list option) \<Rightarrow> tUserMenuItem \<Rightarrow> u8 list option" where
  "store_item hp it = do {
     f \<leftarrow> name_field hp (um_file it);
     t \<leftarrow> name_field hp (um_title it);
     Some (le32 (um_var it) @ f @ t)
   }"

fun store_items :: "(nat \<Rightarrow> u8 list option) \<Rightarrow> tUserMenuItem list \<Rightarrow> u8 list option" where
  "store_items hp [] = Some []"
| "store_items hp (it # its) = do { b \<leftarrow> store_item hp it; bs \<leftarrow> store_items hp its; Some (b @ bs) }"

definition user_menu_saved_size :: "menu_state \<Rightarrow> nat" where
  "user_menu_saved_size s = length (ms_items s) * (4 + CONF_STR_LEN * 2) + 4"

definition user_menu_store_data :: "menu_state \<Rightarrow> u8 list option" where
  "user_menu_store_data s = do {
     bs \<leftarrow> store_items (ms_heap s) (ms_items s);
     Some (le32 (word_of_nat (length (ms_items s))) @ bs)
   }"

text \<open>\<open>init_user_menu\<close> frees the strings of the table it replaces.\<close>

fun free_items :: "tUserMenuItem list \<Rightarrow> menu_state \<Rightarrow> menu_state option" where
  "free_items [] s = Some s"
| "free_items (it # its) s = do {
     s \<leftarrow> free_string (um_file it) s;
     s \<leftarrow> free_string (um_title it) s;
     free_items its s
   }"

definition init_user_menu :: "nat \<Rightarrow> menu_state \<Rightarrow> menu_state option" where
  "init_user_menu n s = do {
     s \<leftarrow> free_items (ms_items s) s;
     Some (s\<lparr>ms_items := replicate n \<lparr>um_var = 0, um_file = 0, um_title = 0\<rparr>\<rparr>)
   }"

text \<open>
  Reading: \<open>strcpy\<close> from the buffer stops at the first 0, which must come before the buffer ends.
  A field that starts with 0 leaves the pointer of the table as it is.
\<close>

definition c_string :: "u8 list \<Rightarrow> u8 list option" where
  "c_string bs = (let str = takeWhile (\<lambda>c. c \<noteq> 0) bs in if length str < length bs then Some str else None)"

definition load_name :: "u8 list \<Rightarrow> nat \<Rightarrow> nat \<Rightarrow> menu_state \<Rightarrow> (nat \<times> menu_state) option" where
  "load_name buf p ptr s = do {
     c \<leftarrow> rd buf p;
     if c = 0 then Some (ptr, s)
     else do { str \<leftarrow> c_string (drop p buf); set_string ptr str s }
   }"

definition load_item :: "u8 list \<Rightarrow> nat \<Rightarrow> nat \<Rightarrow> menu_state \<Rightarrow> menu_state option" where
  "load_item buf p i s = do {
     it \<leftarrow> rd (ms_items s) i;
     (v, r) \<leftarrow> rd_n 4 (drop p buf);
     (f, s) \<leftarrow> load_name buf (p + 4) (um_file it) s;
     (t, s) \<leftarrow> load_name buf (p + 4 + CONF_STR_LEN) (um_title it) s;
     Some (s\<lparr>ms_items := (ms_items s)[i := \<lparr>um_var = of_le32 v, um_file = f, um_title = t\<rparr>]\<rparr>)
   }"

primrec load_items :: "nat \<Rightarrow> u8 list \<Rightarrow> nat \<Rightarrow> nat \<Rightarrow> menu_state \<Rightarrow> menu_state option" where
  "load_items 0 buf p i s = Some s"
| "load_items (Suc k) buf p i s = do {
     s \<leftarrow> load_item buf p i s;
     load_items k buf (p + 4 + CONF_STR_LEN + CONF_STR_LEN) (Suc i) s
   }"

definition user_menu_load_data :: "u8 list \<Rightarrow> nat \<Rightarrow> menu_state \<Rightarrow> (nat \<times> menu_state) option" where
  "user_menu_load_data buf p s = do {
     (v, r) \<leftarrow> rd_n 4 (drop p buf);
     let n = sint (of_le32 v);
     s \<leftarrow> (if int (length (ms_items s)) < n then init_user_menu (nat n) s else Some s);
     s \<leftarrow> load_items (nat n) buf (p + 4) 0 s;
     Some (user_menu_saved_size s, s)
   }"

section \<open>The rows and the table\<close>

text \<open>The tests of \<open>user_menu_save\<close>: what a row is.\<close>

definition is_script_row :: "CMenuItem \<Rightarrow> bool" where
  "is_script_row m \<longleftrightarrow> mi_value m = Load_user_menu_script"

definition is_module_row :: "CMenuItem \<Rightarrow> bool" where
  "is_module_row m \<longleftrightarrow> mi_value m = Module_run \<and> mi_type m AND MENUITEM_USER_MODULE = MENUITEM_USER_MODULE"

definition save_row :: "nat \<Rightarrow> menu_state \<Rightarrow> menu_state option" where
  "save_row x s = do {
     m \<leftarrow> rd (ms_sub s) (x + 1);
     it \<leftarrow> rd (ms_items s) x;
     if mi_text m \<noteq> 0 then
       if is_script_row m then Some (s\<lparr>ms_items := (ms_items s)[x := it\<lparr>um_var := USER_MENU_IS_SCRIPT\<rparr>]\<rparr>)
       else if is_module_row m then Some (s\<lparr>ms_items := (ms_items s)[x := it\<lparr>um_var := USER_MENU_IS_MODULE\<rparr>]\<rparr>)
       else do {
         h \<leftarrow> lang_strhash31 (ms_heap s) (mi_text m);
         Some (s\<lparr>ms_items := (ms_items s)[x := it\<lparr>um_var := h\<rparr>]\<rparr>)
       }
     else do {
       s \<leftarrow> free_string (um_file it) s;
       s \<leftarrow> free_string (um_title it) s;
       Some (s\<lparr>ms_items := (ms_items s)[x := \<lparr>um_var = 0, um_file = 0, um_title = 0\<rparr>]\<rparr>)
     }
   }"

fun save_rows :: "nat list \<Rightarrow> menu_state \<Rightarrow> menu_state option" where
  "save_rows [] s = Some s"
| "save_rows (x # xs) s = do { s \<leftarrow> save_row x s; save_rows xs s }"

definition user_menu_save :: "menu_state \<Rightarrow> menu_state option" where
  "user_menu_save s = save_rows [0..<USER_MENU_ITEMS] s"

definition extern_row :: "u8 \<Rightarrow> u16 \<Rightarrow> menu_value \<Rightarrow> tUserMenuItem \<Rightarrow> CMenuItem" where
  "extern_row sy ty func it = MenuItem sy 0 ty (um_title it) func (um_file it)"

definition script_row :: "tUserMenuItem \<Rightarrow> CMenuItem" where
  "script_row = extern_row 0x35 MENUITEM_PROC Load_user_menu_script"

definition module_row :: "tUserMenuItem \<Rightarrow> CMenuItem" where
  "module_row = extern_row 0x28 (MENUITEM_PROC OR MENUITEM_USER_MODULE) Module_run"

fun restore_rows :: "CMenuItem list \<Rightarrow> nat list \<Rightarrow> menu_state \<Rightarrow> menu_state option" where
  "restore_rows root [] s = Some s"
| "restore_rows root (x # xs) s = do {
     it \<leftarrow> rd (ms_items s) x;
     old \<leftarrow> rd (ms_sub s) (x + 1);
     if um_var it = USER_MENU_IS_SCRIPT then
       restore_rows root xs (s\<lparr>ms_sub := (ms_sub s)[x + 1 := script_row it]\<rparr>)
     else if um_var it = USER_MENU_IS_MODULE then
       restore_rows root xs (s\<lparr>ms_sub := (ms_sub s)[x + 1 := module_row it]\<rparr>)
     else
       (case (if 0 < sint (um_var it) then find_menu_item (ms_heap s) root (um_var it) else None) of
          Some m \<Rightarrow> restore_rows root xs (s\<lparr>ms_sub := (ms_sub s)[x + 1 := m]\<rparr>)
        | None \<Rightarrow> Some (s\<lparr>ms_sub := (ms_sub s)[x + 1 := set_mi_text 0 old]\<rparr>))
   }"

definition user_menu_restore :: "CMenuItem list \<Rightarrow> menu_state \<Rightarrow> menu_state option" where
  "user_menu_restore root s = restore_rows root [0..<USER_MENU_ITEMS] s"

section \<open>Editing\<close>

definition in_user_menu :: "CMenuItem list \<Rightarrow> nat \<Rightarrow> bool" where
  "in_user_menu sub t = (\<exists>m\<in>set (takeWhile (\<lambda>m. mi_text m \<noteq> 0) (drop 1 sub)). mi_text m = t)"

text \<open>The first free row, when there is one: the search of both ways of adding.\<close>

definition free_row :: "CMenuItem list \<Rightarrow> nat option" where
  "free_row sub = find (\<lambda>i. mi_text (sub ! i) = 0) [1..<USER_MENU_ITEMS + 1]"

definition add_usermenu_item :: "CMenuItem \<Rightarrow> menu_state \<Rightarrow> menu_state" where
  "add_usermenu_item m s =
     (case free_row (ms_sub s) of
        None \<Rightarrow> s
      | Some i \<Rightarrow> s\<lparr>ms_sub := (ms_sub s)[i := m], ms_changed := True\<rparr>)"

definition add_extern :: "u8 list \<Rightarrow> u8 list \<Rightarrow> (tUserMenuItem \<Rightarrow> CMenuItem) \<Rightarrow> menu_state \<Rightarrow> menu_state option" where
  "add_extern fname title row s =
     (case free_row (ms_sub s) of
        None \<Rightarrow> Some s
      | Some i \<Rightarrow> do {
          it \<leftarrow> rd (ms_items s) (i - 1);
          (f, s) \<leftarrow> set_string (um_file it) fname s;
          (t, s) \<leftarrow> set_string (um_title it) title s;
          let it = it\<lparr>um_file := f, um_title := t\<rparr>;
          Some (s\<lparr>ms_items := (ms_items s)[i - 1 := it], ms_sub := (ms_sub s)[i := row it], ms_changed := True\<rparr>)
        })"

definition add_script_to_user_menu :: "u8 list \<Rightarrow> u8 list \<Rightarrow> menu_state \<Rightarrow> menu_state option" where
  "add_script_to_user_menu fname title = add_extern fname title script_row"

definition add_module_to_user_menu :: "u8 list \<Rightarrow> u8 list \<Rightarrow> menu_state \<Rightarrow> menu_state option" where
  "add_module_to_user_menu fname title = add_extern fname title module_row"

text \<open>
  Deleting row \<open>c\<close>: the later rows slide up, and slot \<open>i - 1\<close> of the table takes the strings of
  slot \<open>i\<close>, after freeing its own.
\<close>

definition slide_row :: "nat \<Rightarrow> menu_state \<Rightarrow> menu_state option" where
  "slide_row i s = do {
     m \<leftarrow> rd (ms_sub s) (i + 1);
     a \<leftarrow> rd (ms_items s) (i - 1);
     s \<leftarrow> free_string (um_file a) s;
     b \<leftarrow> rd (ms_items s) i;
     s \<leftarrow> free_string (um_title a) s;
     Some (s\<lparr>ms_sub := (ms_sub s)[i := m],
             ms_items := (ms_items s)[i - 1 := a\<lparr>um_file := um_file b, um_title := um_title b\<rparr>,
                                      i := b\<lparr>um_file := 0, um_title := 0\<rparr>]\<rparr>)
   }"

lemma free_string_fields:
  "free_string p s = Some s' \<Longrightarrow> ms_sub s' = ms_sub s \<and> ms_items s' = ms_items s \<and> ms_next s' = ms_next s
     \<and> ms_title s' = ms_title s \<and> ms_cur s' = ms_cur s \<and> ms_changed s' = ms_changed s"
  by (auto simp: free_string_def split: if_splits)

lemma slide_row_length: "slide_row i s = Some s' \<Longrightarrow> length (ms_sub s') = length (ms_sub s)"
  by (auto simp: slide_row_def bind_eq_Some_conv dest!: free_string_fields)

function slide_up :: "nat \<Rightarrow> menu_state \<Rightarrow> menu_state option" where
  "slide_up i s =
     (case rd (ms_sub s) i of
        None \<Rightarrow> None
      | Some m \<Rightarrow> if mi_text m = 0 then Some s
          else case slide_row i s of None \<Rightarrow> None | Some s' \<Rightarrow> slide_up (i + 1) s')"
  by auto
termination
  by (relation "measure (\<lambda>(i, s). length (ms_sub s) - i)")
    (auto simp: rd_def slide_row_length split: if_splits)

declare slide_up.simps [simp del]

definition menu_rows :: "CMenuItem list \<Rightarrow> nat" where
  "menu_rows sub = length (takeWhile (\<lambda>m. mi_text m \<noteq> 0) sub)"

definition del_usermenu_item :: "nat \<Rightarrow> menu_state \<Rightarrow> menu_state option" where
  "del_usermenu_item t s =
     (case find (\<lambda>c. mi_text (ms_sub s ! c) = t) [1..<USER_MENU_ITEMS + 1] of
        None \<Rightarrow> Some s
      | Some c \<Rightarrow> do {
          s \<leftarrow> slide_up c s;
          let s = s\<lparr>ms_changed := True\<rparr>;
          Some (if ms_title s = LANG_MENU_USER_MENU \<and> int (menu_rows (ms_sub s)) \<le> ms_cur s
                then s\<lparr>ms_cur := ms_cur s - 1\<rparr> else s)
        })"

definition move_usermenu_item :: "int \<Rightarrow> menu_state \<Rightarrow> menu_state option" where
  "move_usermenu_item dir s = (let src = nat (ms_cur s); dst = nat (ms_cur s + dir) in
     if ms_cur s < 1 \<or> ms_cur s + dir < 1 then None
     else do {
     a \<leftarrow> rd (ms_sub s) dst;
     b \<leftarrow> rd (ms_sub s) src;
     p \<leftarrow> rd (ms_items s) (dst - 1);
     q \<leftarrow> rd (ms_items s) (src - 1);
     Some (s\<lparr>ms_sub := (ms_sub s)[dst := b, src := a],
             ms_items := (ms_items s)[dst - 1 := p\<lparr>um_file := um_file q, um_title := um_title q\<rparr>,
                                      src - 1 := q\<lparr>um_file := um_file p, um_title := um_title p\<rparr>],
             ms_cur := ms_cur s + dir, ms_changed := True\<rparr>)
   })"

definition move_usermenu_item_up :: "menu_state \<Rightarrow> menu_state option" where
  "move_usermenu_item_up s = (if 1 < ms_cur s then move_usermenu_item (- 1) s else Some s)"

definition move_usermenu_item_down :: "menu_state \<Rightarrow> menu_state option" where
  "move_usermenu_item_down s =
     (if ms_cur s = 0 then Some s
      else if ms_cur s < int USER_MENU_ITEMS then do {
        m \<leftarrow> rd (ms_sub s) (nat (ms_cur s + 1));
        if mi_text m \<noteq> 0 then move_usermenu_item 1 s else Some s
      }
      else Some s)"

section \<open>What the editing keeps\<close>

definition strings_of :: "tUserMenuItem \<Rightarrow> nat list" where
  "strings_of it = filter (\<lambda>p. p \<noteq> 0) [um_file it, um_title it]"

definition menu_ptrs :: "tUserMenuItem list \<Rightarrow> nat list" where
  "menu_ptrs its = concat (map strings_of its)"

definition is_extern_row :: "CMenuItem \<Rightarrow> bool" where
  "is_extern_row m \<longleftrightarrow> is_script_row m \<or> is_module_row m"

text \<open>
  A row of a script or a module shows the strings of its own slot; the text of any other row is
  a language number or a string that no slot owns, and its slot owns none.
\<close>

definition row_ok :: "(nat \<Rightarrow> u8 list option) \<Rightarrow> tUserMenuItem list \<Rightarrow> tUserMenuItem \<Rightarrow> CMenuItem \<Rightarrow> bool" where
  "row_ok hp its it m \<longleftrightarrow>
     (if is_extern_row m then um_file it \<noteq> 0 \<and> um_title it \<noteq> 0 \<and> (m = script_row it \<or> m = module_row it)
      else um_file it = 0 \<and> um_title it = 0 \<and>
        (mi_text m < MAX_LANGID \<or> hp (mi_text m) \<noteq> None \<and> mi_text m \<notin> set (menu_ptrs its)))"

definition owned :: "nat list \<Rightarrow> (nat \<Rightarrow> u8 list option) \<Rightarrow> nat \<Rightarrow> bool" where
  "owned ps hp nx \<longleftrightarrow> distinct ps \<and> MAX_LANGID \<le> nx \<and> (\<forall>p. hp p \<noteq> None \<longrightarrow> p < nx) \<and>
     (\<forall>p\<in>set ps. MAX_LANGID \<le> p \<and> hp p \<noteq> None \<and> length (the (hp p)) < CONF_STR_LEN)"

definition strings_wf :: "menu_state \<Rightarrow> bool" where
  "strings_wf s \<longleftrightarrow> owned (menu_ptrs (ms_items s)) (ms_heap s) (ms_next s)"

definition rows_wf :: "menu_state \<Rightarrow> bool" where
  "rows_wf s \<longleftrightarrow>
     (\<forall>x<USER_MENU_ITEMS. mi_text (ms_sub s ! (x + 1)) \<noteq> 0 \<longrightarrow>
        row_ok (ms_heap s) (ms_items s) (ms_items s ! x) (ms_sub s ! (x + 1)))"

definition spare_wf :: "menu_state \<Rightarrow> bool" where
  "spare_wf s \<longleftrightarrow>
     (\<forall>x<USER_MENU_ITEMS. mi_text (ms_sub s ! (x + 1)) = 0 \<longrightarrow>
        um_file (ms_items s ! x) = 0 \<and> um_title (ms_items s ! x) = 0)"

definition menu_wf :: "menu_state \<Rightarrow> bool" where
  "menu_wf s \<longleftrightarrow> length (ms_sub s) = USER_MENU_ITEMS + 2 \<and> length (ms_items s) = USER_MENU_ITEMS \<and>
     mi_text (ms_sub s ! 0) \<noteq> 0 \<and> mi_text (ms_sub s ! (USER_MENU_ITEMS + 1)) = 0 \<and>
     (\<forall>x<USER_MENU_ITEMS. mi_text (ms_sub s ! (x + 1)) = 0 \<longrightarrow> mi_text (ms_sub s ! (x + 2)) = 0) \<and>
     strings_wf s \<and> rows_wf s \<and> spare_wf s"

text \<open>The entries the user sees after the link to the main menu.\<close>

definition menu_entries :: "menu_state \<Rightarrow> CMenuItem list" where
  "menu_entries s = takeWhile (\<lambda>m. mi_text m \<noteq> 0) (drop 1 (ms_sub s))"

definition menu_full :: "menu_state \<Rightarrow> bool" where
  "menu_full s \<longleftrightarrow> mi_text (ms_sub s ! USER_MENU_ITEMS) \<noteq> 0"

section \<open>The slide in one step\<close>

definition shift_rows :: "nat \<Rightarrow> nat \<Rightarrow> CMenuItem list \<Rightarrow> CMenuItem list" where
  "shift_rows i n sub = map (\<lambda>j. if i \<le> j \<and> j \<le> n then sub ! (j + 1) else sub ! j) [0..<length sub]"

definition shift_strings :: "nat \<Rightarrow> nat \<Rightarrow> tUserMenuItem list \<Rightarrow> tUserMenuItem list" where
  "shift_strings i n its = map (\<lambda>j.
     if i - 1 \<le> j \<and> j < n then (its ! j)\<lparr>um_file := um_file (its ! (j + 1)), um_title := um_title (its ! (j + 1))\<rparr>
     else if j = n \<and> i \<le> n then (its ! j)\<lparr>um_file := 0, um_title := 0\<rparr>
     else its ! j) [0..<length its]"

lemma shift_rows_step:
  "\<lbrakk>i \<le> n; n < length sub\<rbrakk> \<Longrightarrow> shift_rows (Suc i) n (sub[i := sub ! (Suc i)]) = shift_rows i n sub"
  by (rule nth_equalityI) (auto simp: shift_rows_def nth_list_update)

lemma shift_strings_step:
  "\<lbrakk>1 \<le> i; i \<le> n; n < length its\<rbrakk> \<Longrightarrow>
   shift_strings (Suc i) n (its[i - Suc 0 := (its ! (i - Suc 0))\<lparr>um_file := um_file (its ! i), um_title := um_title (its ! i)\<rparr>,
                                i := (its ! i)\<lparr>um_file := 0, um_title := 0\<rparr>]) = shift_strings i n its"
  by (rule nth_equalityI) (auto simp: shift_strings_def nth_list_update)

lemma shift_stop: "shift_rows (Suc n) n sub = sub" "shift_strings (Suc n) n its = its"
  by (auto simp: shift_rows_def shift_strings_def intro!: nth_equalityI)

lemma free_string_0 [simp]: "free_string 0 s = Some s"
  by (simp add: free_string_def)

lemma slide_up_clear:
  assumes "length (ms_sub s) = 16" "length (ms_items s) = 14" "1 \<le> i" "i \<le> Suc n" "n \<le> 13"
    and "\<forall>j. i \<le> j \<and> j \<le> n \<longrightarrow> mi_text (ms_sub s ! j) \<noteq> 0" "mi_text (ms_sub s ! Suc n) = 0"
    and "um_file (ms_items s ! (i - 1)) = 0" "um_title (ms_items s ! (i - 1)) = 0"
  shows "slide_up i s = Some (s\<lparr>ms_sub := shift_rows i n (ms_sub s), ms_items := shift_strings i n (ms_items s)\<rparr>)"
  using assms
proof (induction "Suc n - i" arbitrary: i s)
  case 0
  then have "i = Suc n" by simp
  then show ?case using 0 by (subst slide_up.simps) (simp add: rd_def shift_stop)
next
  case (Suc k)
  let ?a = "ms_items s ! (i - 1)" and ?b = "ms_items s ! i"
  let ?s = "s\<lparr>ms_sub := (ms_sub s)[i := ms_sub s ! Suc i],
    ms_items := (ms_items s)[i - 1 := ?a\<lparr>um_file := um_file ?b, um_title := um_title ?b\<rparr>, i := ?b\<lparr>um_file := 0, um_title := 0\<rparr>]\<rparr>"
  have i: "i \<le> n" using Suc by simp
  have "slide_row i s = Some ?s" using Suc i by (simp add: slide_row_def rd_def)
  moreover have "mi_text (ms_sub s ! i) \<noteq> 0" using Suc.prems i by blast
  ultimately have "slide_up i s = slide_up (Suc i) ?s"
    using Suc.prems(1,5) i by (subst slide_up.simps) (simp add: rd_def)
  also have "\<dots> = Some (?s\<lparr>ms_sub := shift_rows (Suc i) n (ms_sub ?s), ms_items := shift_strings (Suc i) n (ms_items ?s)\<rparr>)"
    by (rule Suc.hyps(1)) (use Suc i in \<open>auto simp: nth_list_update\<close>)
  also have "\<dots> = Some (s\<lparr>ms_sub := shift_rows i n (ms_sub s), ms_items := shift_strings i n (ms_items s)\<rparr>)"
    using Suc.prems i by (simp add: shift_rows_step shift_strings_step)
  finally show ?case .
qed

lemma slide_up_result:
  assumes "length (ms_sub s) = 16" "length (ms_items s) = 14" "1 \<le> c" "c \<le> n" "n \<le> 13"
    and "\<forall>j. c \<le> j \<and> j \<le> n \<longrightarrow> mi_text (ms_sub s ! j) \<noteq> 0" "mi_text (ms_sub s ! Suc n) = 0"
    and "free_string (um_file (ms_items s ! (c - 1))) s = Some s1"
    and "free_string (um_title (ms_items s ! (c - 1))) s1 = Some s2"
  shows "slide_up c s = Some (s2\<lparr>ms_sub := shift_rows c n (ms_sub s), ms_items := shift_strings c n (ms_items s)\<rparr>)"
proof -
  let ?a = "ms_items s ! (c - 1)" and ?b = "ms_items s ! c"
  let ?s = "s2\<lparr>ms_sub := (ms_sub s)[c := ms_sub s ! Suc c],
    ms_items := (ms_items s)[c - 1 := ?a\<lparr>um_file := um_file ?b, um_title := um_title ?b\<rparr>, c := ?b\<lparr>um_file := 0, um_title := 0\<rparr>]\<rparr>"
  have f: "ms_sub s1 = ms_sub s" "ms_items s1 = ms_items s" "ms_sub s2 = ms_sub s" "ms_items s2 = ms_items s"
    using assms(8,9) by (auto dest!: free_string_fields)
  have "slide_row c s = Some ?s" using assms f by (simp add: slide_row_def rd_def)
  moreover have "mi_text (ms_sub s ! c) \<noteq> 0" using assms(4,6) by blast
  ultimately have "slide_up c s = slide_up (Suc c) ?s"
    using assms(1,4,5) by (subst slide_up.simps) (simp add: rd_def)
  also have "\<dots> = Some (?s\<lparr>ms_sub := shift_rows (Suc c) n (ms_sub ?s), ms_items := shift_strings (Suc c) n (ms_items ?s)\<rparr>)"
    by (rule slide_up_clear) (use assms in \<open>auto simp: nth_list_update\<close>)
  also have "\<dots> = Some (s2\<lparr>ms_sub := shift_rows c n (ms_sub s), ms_items := shift_strings c n (ms_items s)\<rparr>)"
    using assms f by (simp add: shift_rows_step shift_strings_step)
  finally show ?thesis .
qed

section \<open>The entries of a well-formed menu\<close>

lemma menu_wf_lengths:
  "menu_wf s \<Longrightarrow> length (ms_sub s) = 16" "menu_wf s \<Longrightarrow> length (ms_items s) = 14"
  by (simp_all add: menu_wf_def)

lemma menu_tail_zero:
  assumes "menu_wf s" "1 \<le> i" "i \<le> j" "j \<le> 15" "mi_text (ms_sub s ! i) = 0"
  shows "mi_text (ms_sub s ! j) = 0"
  using assms(3,4)
proof (induction j rule: dec_induct)
  case base
  then show ?case using assms(5) by simp
next
  case (step k)
  have "mi_text (ms_sub s ! (k - 1 + 1)) = 0" "k - 1 < 14" using step assms(2) by auto
  then have "mi_text (ms_sub s ! (k - 1 + 2)) = 0" using assms(1) by (simp only: menu_wf_def)
  moreover have "k - 1 + 2 = Suc k" using step assms(2) by arith
  ultimately show ?case by (simp only:)
qed

lemma menu_entries_nth:
  assumes "menu_wf s"
  defines "n \<equiv> length (menu_entries s)"
  shows "n \<le> 14" and "\<forall>j. 1 \<le> j \<and> j \<le> n \<longrightarrow> mi_text (ms_sub s ! j) \<noteq> 0"
    and "\<forall>j. n < j \<and> j \<le> 15 \<longrightarrow> mi_text (ms_sub s ! j) = 0"
    and "menu_entries s = take n (drop 1 (ms_sub s))"
proof -
  let ?d = "drop 1 (ms_sub s)"
  have len: "length ?d = 15" using menu_wf_lengths[OF assms(1)] by simp
  have last: "?d ! 14 = ms_sub s ! 15" using menu_wf_lengths[OF assms(1)] by simp
  have z: "mi_text (ms_sub s ! 15) = 0" using assms(1) by (simp add: menu_wf_def)
  have n: "n = length (takeWhile (\<lambda>m. mi_text m \<noteq> 0) ?d)" by (simp add: n_def menu_entries_def)
  have each: "mi_text (?d ! j) \<noteq> 0" if "j < n" for j
    using that nth_length_takeWhile[of "\<lambda>m. mi_text m \<noteq> 0" ?d] takeWhile_nth[of j "\<lambda>m. mi_text m \<noteq> 0" ?d]
      set_takeWhileD[of "takeWhile (\<lambda>m. mi_text m \<noteq> 0) ?d ! j" "\<lambda>m. mi_text m \<noteq> 0" ?d] nth_mem[of j "takeWhile (\<lambda>m. mi_text m \<noteq> 0) ?d"]
    unfolding n by auto
  show n14: "n \<le> 14" using each[of 14] z last len length_takeWhile_le[of "\<lambda>m. mi_text m \<noteq> 0" ?d] unfolding n by (cases "14 < n") (auto simp: n)
  show "\<forall>j. 1 \<le> j \<and> j \<le> n \<longrightarrow> mi_text (ms_sub s ! j) \<noteq> 0"
  proof (intro allI impI)
    fix j assume "1 \<le> j \<and> j \<le> n"
    then have "mi_text (?d ! (j - 1)) \<noteq> 0" "?d ! (j - 1) = ms_sub s ! j"
      using each[of "j - 1"] menu_wf_lengths[OF assms(1)] by auto
    then show "mi_text (ms_sub s ! j) \<noteq> 0" by simp
  qed
  have "mi_text (?d ! n) = 0"
    using nth_length_takeWhile[of "\<lambda>m. mi_text m \<noteq> 0" ?d] n n14 len by simp
  then have "mi_text (ms_sub s ! Suc n) = 0" using menu_wf_lengths[OF assms(1)] n14 by simp
  then show "\<forall>j. n < j \<and> j \<le> 15 \<longrightarrow> mi_text (ms_sub s ! j) = 0"
    using menu_tail_zero[OF assms(1), of "Suc n"] by simp
  show "menu_entries s = take n ?d" unfolding menu_entries_def n by (rule takeWhile_eq_take)
qed

lemma entry_nth: "\<lbrakk>menu_wf s; x < length (menu_entries s)\<rbrakk> \<Longrightarrow> menu_entries s ! x = ms_sub s ! (x + 1)"
  using menu_entries_nth(1)[of s] menu_wf_lengths[of s] by (subst menu_entries_nth(4)) auto

lemma entry_iff: "\<lbrakk>menu_wf s; x < 14\<rbrakk> \<Longrightarrow> mi_text (ms_sub s ! (x + 1)) \<noteq> 0 \<longleftrightarrow> x < length (menu_entries s)"
  using menu_entries_nth(2,3)[of s] by (cases "x < length (menu_entries s)") auto

text \<open>The entries from the rows.\<close>

lemma menu_entries_eq:
  assumes "length (ms_sub s) = 16" "n \<le> 14" "\<forall>j. 1 \<le> j \<and> j \<le> n \<longrightarrow> mi_text (ms_sub s ! j) \<noteq> 0" "mi_text (ms_sub s ! Suc n) = 0"
  shows "menu_entries s = take n (drop 1 (ms_sub s))"
  unfolding menu_entries_def
proof (rule takeWhile_eq_take_P_nth)
  fix i assume "i < n" "i < length (drop 1 (ms_sub s))"
  then show "mi_text (drop 1 (ms_sub s) ! i) \<noteq> 0" using assms by simp
next
  assume "n < length (drop 1 (ms_sub s))"
  then show "\<not> mi_text (drop 1 (ms_sub s) ! n) \<noteq> 0" using assms by simp
qed

section \<open>Deleting\<close>

lemma free_string_some:
  "\<lbrakk>p = 0 \<or> ms_heap s p \<noteq> None\<rbrakk> \<Longrightarrow> free_string p s = Some (s\<lparr>ms_heap := (if p = 0 then ms_heap s else (ms_heap s)(p := None))\<rparr>)"
  by (auto simp: free_string_def)

lemma split_three:
  assumes "1 \<le> c" "c \<le> n" "n < length xs"
  shows "xs = take (c - 1) xs @ [xs ! (c - 1)] @ take (n + 1 - c) (drop c xs) @ drop (n + 1) xs"
proof -
  have "drop (c - 1) xs = xs ! (c - 1) # drop c xs"
    using assms Cons_nth_drop_Suc[of "c - 1" xs] by simp
  moreover have "drop c xs = take (n + 1 - c) (drop c xs) @ drop (n + 1) xs"
    using assms append_take_drop_id[of "n + 1 - c" "drop c xs"] by simp
  ultimately show ?thesis by (metis append_Cons append_Nil append_take_drop_id)
qed

lemma strings_of_simps [simp]:
  "strings_of (it\<lparr>um_file := 0, um_title := 0\<rparr>) = []"
  "strings_of (it\<lparr>um_file := um_file it', um_title := um_title it'\<rparr>) = strings_of it'"
  "strings_of (it\<lparr>um_var := v\<rparr>) = strings_of it"
  by (simp_all add: strings_of_def)

lemma set_strings_of: "set (strings_of it) = {um_file it, um_title it} - {0}"
  by (auto simp: strings_of_def)

lemma distinct_strings_of: "distinct (strings_of it) \<longleftrightarrow> (um_file it = um_title it \<longrightarrow> um_file it = 0)"
  by (auto simp: strings_of_def)

lemma shift_strings_list:
  assumes "1 \<le> c" "c \<le> n" "n < length its"
  shows "map strings_of (shift_strings c n its) =
    (let S = map strings_of its in take (c - 1) S @ take (n + 1 - c) (drop c S) @ [[]] @ drop (n + 1) S)"
    (is "?l = ?r")
proof (rule nth_equalityI)
  show "length ?l = length ?r" using assms by (simp add: shift_strings_def Let_def)
  fix j assume "j < length ?l"
  then have j: "j < length its" by (simp add: shift_strings_def)
  consider "j < c - 1" | "c - 1 \<le> j" "j < n" | "j = n" | "n < j" by linarith
  then show "?l ! j = ?r ! j"
    using assms j by cases (auto simp: shift_strings_def Let_def nth_append min_def)
qed

lemma menu_ptrs_shift:
  assumes "1 \<le> c" "c \<le> n" "n < length its"
  obtains us vs where "menu_ptrs its = us @ strings_of (its ! (c - 1)) @ vs"
    "menu_ptrs (shift_strings c n its) = us @ vs"
proof -
  let ?S = "map strings_of its"
  have "concat ?S = concat (take (c - 1) ?S @ [?S ! (c - 1)] @ take (n + 1 - c) (drop c ?S) @ drop (n + 1) ?S)"
    using split_three[of c n ?S] assms by simp
  then have "menu_ptrs its = concat (take (c - 1) ?S) @ strings_of (its ! (c - 1)) @ concat (take (n + 1 - c) (drop c ?S) @ drop (n + 1) ?S)"
    using assms by (simp add: menu_ptrs_def)
  moreover have "menu_ptrs (shift_strings c n its) = concat (take (c - 1) ?S) @ concat (take (n + 1 - c) (drop c ?S) @ drop (n + 1) ?S)"
    using assms unfolding menu_ptrs_def by (simp add: shift_strings_list Let_def)
  ultimately show thesis using that by blast
qed

lemma free_slot:
  assumes "um_file a = 0 \<or> ms_heap s (um_file a) \<noteq> None" "um_title a = 0 \<or> ms_heap s (um_title a) \<noteq> None"
    and "um_file a = um_title a \<Longrightarrow> um_file a = 0"
  obtains s1 where "free_string (um_file a) s = Some s1"
    "free_string (um_title a) s1 = Some (s\<lparr>ms_heap := (\<lambda>p. if p \<in> set (strings_of a) then None else ms_heap s p)\<rparr>)"
proof -
  let ?f = "um_file a" and ?t = "um_title a"
  let ?s1 = "s\<lparr>ms_heap := (if ?f = 0 then ms_heap s else (ms_heap s)(?f := None))\<rparr>"
  let ?s2 = "?s1\<lparr>ms_heap := (if ?t = 0 then ms_heap ?s1 else (ms_heap ?s1)(?t := None))\<rparr>"
  have "free_string ?f s = Some ?s1" by (rule free_string_some[OF assms(1)])
  moreover have "free_string ?t ?s1 = Some ?s2"
    by (rule free_string_some) (use assms(2,3) in auto)
  moreover have "?s2 = s\<lparr>ms_heap := (\<lambda>p. if p \<in> set (strings_of a) then None else ms_heap s p)\<rparr>"
    by (auto simp: set_strings_of fun_eq_iff)
  ultimately show thesis using that by simp
qed

text \<open>The state a deletion of entry \<open>c\<close> leaves.\<close>

definition deleted :: "nat \<Rightarrow> nat \<Rightarrow> menu_state \<Rightarrow> menu_state" where
  "deleted c n s = s\<lparr>ms_heap := (\<lambda>p. if p \<in> set (strings_of (ms_items s ! (c - 1))) then None else ms_heap s p),
     ms_sub := shift_rows c n (ms_sub s), ms_items := shift_strings c n (ms_items s)\<rparr>"

lemma slide_up_deleted:
  assumes "menu_wf s" "\<not> menu_full s" "1 \<le> c" "c \<le> length (menu_entries s)"
  shows "slide_up c s = Some (deleted c (length (menu_entries s)) s)"
proof -
  let ?n = "length (menu_entries s)"
  note e = menu_entries_nth[OF assms(1)]
  have "?n \<noteq> 14" using e(2) assms(2) by (auto simp: menu_full_def)
  then have n13: "?n \<le> 13" using e(1) by simp
  obtain us vs where p: "menu_ptrs (ms_items s) = us @ strings_of (ms_items s ! (c - 1)) @ vs"
    by (rule menu_ptrs_shift[of c ?n "ms_items s"]) (use assms n13 menu_wf_lengths(2)[OF assms(1)] in auto)
  have "strings_wf s" using assms(1) by (simp add: menu_wf_def)
  then have o: "owned (us @ strings_of (ms_items s ! (c - 1)) @ vs) (ms_heap s) (ms_next s)"
    using p by (simp add: strings_wf_def)
  obtain s1 where f: "free_string (um_file (ms_items s ! (c - 1))) s = Some s1"
      "free_string (um_title (ms_items s ! (c - 1))) s1 =
        Some (s\<lparr>ms_heap := (\<lambda>p. if p \<in> set (strings_of (ms_items s ! (c - 1))) then None else ms_heap s p)\<rparr>)"
    by (rule free_slot[of "ms_items s ! (c - 1)" s])
      (use o in \<open>auto simp: owned_def set_strings_of distinct_strings_of\<close>)
  let ?s2 = "s\<lparr>ms_heap := (\<lambda>p. if p \<in> set (strings_of (ms_items s ! (c - 1))) then None else ms_heap s p)\<rparr>"
  have "slide_up c s = Some (?s2\<lparr>ms_sub := shift_rows c ?n (ms_sub s), ms_items := shift_strings c ?n (ms_items s)\<rparr>)"
    by (rule slide_up_result[OF _ _ _ _ _ _ _ f(1,2)]) (use e(2,3) n13 assms(3,4) menu_wf_lengths[OF assms(1)] in auto)
  then show ?thesis by (simp add: deleted_def)
qed

lemma deleted_rows:
  assumes "menu_wf s" "\<not> menu_full s" "1 \<le> c" "c \<le> length (menu_entries s)"
  shows "menu_entries (deleted c (length (menu_entries s)) s) =
    take (c - 1) (menu_entries s) @ drop c (menu_entries s)"
proof -
  let ?n = "length (menu_entries s)" and ?d = "deleted c (length (menu_entries s)) s"
  note e = menu_entries_nth[OF assms(1)] and l = menu_wf_lengths[OF assms(1)]
  have "menu_entries ?d = take (?n - 1) (drop 1 (ms_sub ?d))"
    using e(1-3) assms(3,4) l by (intro menu_entries_eq) (auto simp: deleted_def shift_rows_def)
  also have "\<dots> = take (c - 1) (take ?n (drop 1 (ms_sub s))) @ drop c (take ?n (drop 1 (ms_sub s)))"
  proof (rule nth_equalityI)
    fix i assume "i < length (take (?n - 1) (drop 1 (ms_sub ?d)))"
    then have i: "i < ?n - 1" using l by (simp add: deleted_def shift_rows_def)
    then show "take (?n - 1) (drop 1 (ms_sub ?d)) ! i =
      (take (c - 1) (take ?n (drop 1 (ms_sub s))) @ drop c (take ?n (drop 1 (ms_sub s)))) ! i"
      using e(1) assms(3,4) l by (cases "i < c - 1") (auto simp: deleted_def shift_rows_def nth_append)
  qed (use e(1) assms(3,4) l in \<open>auto simp: deleted_def shift_rows_def\<close>)
  also have "\<dots> = take (c - 1) (menu_entries s) @ drop c (menu_entries s)" by (simp only: e(4)[symmetric])
  finally show ?thesis .
qed

lemma extern_row_cong:
  "\<lbrakk>um_file it' = um_file it; um_title it' = um_title it\<rbrakk> \<Longrightarrow> script_row it' = script_row it \<and> module_row it' = module_row it"
  by (simp add: script_row_def module_row_def extern_row_def)

lemma row_ok_keep:
  assumes "row_ok hp its it m" "um_file it' = um_file it" "um_title it' = um_title it"
    and "\<forall>p. hp p \<noteq> None \<and> p \<notin> set (menu_ptrs its) \<longrightarrow> hp' p \<noteq> None \<and> p \<notin> set (menu_ptrs its')"
  shows "row_ok hp' its' it' m"
  using assms extern_row_cong[OF assms(2,3)] by (auto simp: row_ok_def split: if_splits)

lemma strings_wf_deleted:
  assumes "menu_wf s" "1 \<le> c" "c \<le> n" "n \<le> 13"
  shows "strings_wf (deleted c n s)"
    and "\<forall>p. ms_heap s p \<noteq> None \<and> p \<notin> set (menu_ptrs (ms_items s)) \<longrightarrow>
      ms_heap (deleted c n s) p \<noteq> None \<and> p \<notin> set (menu_ptrs (ms_items (deleted c n s)))"
proof -
  obtain us vs where p: "menu_ptrs (ms_items s) = us @ strings_of (ms_items s ! (c - 1)) @ vs"
      "menu_ptrs (shift_strings c n (ms_items s)) = us @ vs"
    by (rule menu_ptrs_shift[of c n "ms_items s"]) (use assms menu_wf_lengths(2)[OF assms(1)] in auto)
  have w: "strings_wf s" using assms(1) by (simp add: menu_wf_def)
  then show "strings_wf (deleted c n s)" using p by (auto simp: strings_wf_def owned_def deleted_def)
  show "\<forall>p. ms_heap s p \<noteq> None \<and> p \<notin> set (menu_ptrs (ms_items s)) \<longrightarrow>
      ms_heap (deleted c n s) p \<noteq> None \<and> p \<notin> set (menu_ptrs (ms_items (deleted c n s)))"
    using p by (auto simp: deleted_def)
qed

lemma deleted_wf:
  assumes "menu_wf s" "\<not> menu_full s" "1 \<le> c" "c \<le> length (menu_entries s)"
  shows "menu_wf (deleted c (length (menu_entries s)) s)"
proof -
  let ?n = "length (menu_entries s)" and ?d = "deleted c (length (menu_entries s)) s"
  note e = menu_entries_nth[OF assms(1)] and l = menu_wf_lengths[OF assms(1)]
  have "?n \<noteq> 14" using e(2) assms(2) by (auto simp: menu_full_def)
  then have n13: "?n \<le> 13" using e(1) by simp
  note k = strings_wf_deleted[OF assms(1,3,4) n13]
  have sub: "ms_sub ?d ! j = (if c \<le> j \<and> j \<le> ?n then ms_sub s ! (j + 1) else ms_sub s ! j)" if "j < 16" for j
    using that l by (simp add: deleted_def shift_rows_def)
  have zero: "mi_text (ms_sub ?d ! j) = 0 \<longleftrightarrow> ?n \<le> j" if "1 \<le> j" "j \<le> 15" for j
    using that e(2,3) n13 assms(3,4) sub[of j] by (cases "j = ?n") auto
  have rows: "rows_wf ?d"
    unfolding rows_wf_def
  proof (intro allI impI)
    fix x assume x: "x < 14" "mi_text (ms_sub ?d ! (x + 1)) \<noteq> 0"
    then have xn: "x + 1 < ?n" using zero[of "x + 1"] by simp
    let ?y = "if c \<le> x + 1 then x + 1 else x"
    have "mi_text (ms_sub s ! (?y + 1)) \<noteq> 0" using e(2) xn by auto
    then have "row_ok (ms_heap s) (ms_items s) (ms_items s ! ?y) (ms_sub s ! (?y + 1))"
      using assms(1) xn n13 by (simp add: menu_wf_def rows_wf_def)
    moreover have "ms_sub ?d ! (x + 1) = ms_sub s ! (?y + 1)" using sub[of "x + 1"] xn n13 by simp
    moreover have "um_file (ms_items ?d ! x) = um_file (ms_items s ! ?y)" "um_title (ms_items ?d ! x) = um_title (ms_items s ! ?y)"
      using l xn n13 by (auto simp: deleted_def shift_strings_def)
    ultimately show "row_ok (ms_heap ?d) (ms_items ?d) (ms_items ?d ! x) (ms_sub ?d ! (x + 1))"
      using row_ok_keep k(2) by metis
  qed
  have "mi_text (ms_sub ?d ! 0) \<noteq> 0" using sub[of 0] assms(1,3) by (simp add: menu_wf_def)
  moreover have "mi_text (ms_sub ?d ! 15) = 0" using zero[of 15] n13 by simp
  moreover have "mi_text (ms_sub ?d ! (x + 2)) = 0" if "x < 14" "mi_text (ms_sub ?d ! (x + 1)) = 0" for x
    using that zero[of "x + 1"] zero[of "x + 2"] by simp
  moreover have "length (ms_sub ?d) = 16" "length (ms_items ?d) = 14"
    using l by (simp_all add: deleted_def shift_rows_def shift_strings_def)
  moreover have "spare_wf ?d"
    unfolding spare_wf_def
  proof (intro allI impI)
    fix x assume x: "x < 14" "mi_text (ms_sub ?d ! (x + 1)) = 0"
    then have n: "?n \<le> x + 1" using zero[of "x + 1"] by simp
    have "um_file (ms_items s ! y) = 0 \<and> um_title (ms_items s ! y) = 0" if "?n \<le> y" "y < 14" for y
      using that assms(1) e(3) by (simp add: menu_wf_def spare_wf_def)
    then show "um_file (ms_items ?d ! x) = 0 \<and> um_title (ms_items ?d ! x) = 0"
      using x(1) n n13 l assms(3,4) by (auto simp: deleted_def shift_strings_def)
  qed
  ultimately show ?thesis using rows k(1) by (simp add: menu_wf_def)
qed

text \<open>The list of entries without the first that shows the text \<open>t\<close>.\<close>

definition drop_entry :: "nat \<Rightarrow> CMenuItem list \<Rightarrow> CMenuItem list" where
  "drop_entry t es = takeWhile (\<lambda>m. mi_text m \<noteq> t) es @ tl (dropWhile (\<lambda>m. mi_text m \<noteq> t) es)"

lemma find_entry:
  assumes "menu_wf s" "t \<noteq> 0"
  shows "case find (\<lambda>c. mi_text (ms_sub s ! c) = t) [1..<15] of
      None \<Rightarrow> t \<notin> mi_text ` set (menu_entries s)
    | Some c \<Rightarrow> 1 \<le> c \<and> c \<le> length (menu_entries s) \<and> t \<in> mi_text ` set (menu_entries s) \<and>
        drop_entry t (menu_entries s) = take (c - 1) (menu_entries s) @ drop c (menu_entries s)"
proof -
  let ?es = "menu_entries s" and ?f = "find (\<lambda>c. mi_text (ms_sub s ! c) = t) [1..<15]"
  note e = menu_entries_nth[OF assms(1)] and l = menu_wf_lengths[OF assms(1)]
  have nth: "?es ! j = ms_sub s ! (j + 1)" if "j < length ?es" for j
    using that e(1) l by (subst e(4)) simp
  show ?thesis
  proof (cases ?f)
    case None
    then have "mi_text (ms_sub s ! (j + 1)) \<noteq> t" if "j < 14" for j
      using that by (simp add: find_None_iff)
    then have "mi_text (?es ! j) \<noteq> t" if "j < length ?es" for j
      using that nth[OF that] e(1) by simp
    then have "t \<notin> mi_text ` set ?es" by (metis imageE in_set_conv_nth)
    then show ?thesis using None by simp
  next
    case (Some c)
    then obtain i where "i < 14" "c = i + 1" "mi_text (ms_sub s ! c) = t" "\<forall>j<i. mi_text (ms_sub s ! (j + 1)) \<noteq> t"
      by (auto simp: find_Some_iff)
    note i = this
    have n: "i < length ?es"
    proof (rule ccontr)
      assume "\<not> i < length ?es"
      then have "mi_text (ms_sub s ! c) = 0" using e(3) i(1,2) by auto
      then show False using i(3) assms(2) by simp
    qed
    have tw: "takeWhile (\<lambda>m. mi_text m \<noteq> t) ?es = take i ?es"
      using i n nth by (intro takeWhile_eq_take_P_nth) auto
    then have "dropWhile (\<lambda>m. mi_text m \<noteq> t) ?es = drop i ?es"
      using n by (simp add: dropWhile_eq_drop)
    then have "drop_entry t ?es = take i ?es @ drop (Suc i) ?es"
      using tw by (simp add: drop_entry_def drop_Suc tl_drop)
    moreover have "t \<in> mi_text ` set ?es" using nth[OF n] i nth_mem[OF n] by (metis imageI)
    ultimately show ?thesis using Some i n by simp
  qed
qed

lemma del_usermenu_item_spec:
  assumes "menu_wf s" "\<not> menu_full s" "t \<noteq> 0"
  shows "\<exists>s'. del_usermenu_item t s = Some s' \<and> menu_wf s' \<and> menu_entries s' = drop_entry t (menu_entries s)"
proof (cases "find (\<lambda>c. mi_text (ms_sub s ! c) = t) [1..<15]")
  case None
  then have "drop_entry t (menu_entries s) = menu_entries s"
    using find_entry[OF assms(1,3)] by (auto simp: drop_entry_def intro!: takeWhile_eq_all_conv[THEN iffD2])
      (metis (mono_tags, lifting) dropWhile_eq_Nil_conv image_eqI list.sel(2) self_append_conv takeWhile_eq_all_conv)
  then show ?thesis using None assms(1) by (simp add: del_usermenu_item_def)
next
  case (Some c)
  then have c: "1 \<le> c" "c \<le> length (menu_entries s)"
      "drop_entry t (menu_entries s) = take (c - 1) (menu_entries s) @ drop c (menu_entries s)"
    using find_entry[OF assms(1,3)] by auto
  let ?d = "deleted c (length (menu_entries s)) s"
  have up: "slide_up c s = Some ?d" by (rule slide_up_deleted[OF assms(1,2) c(1,2)])
  have wf: "menu_wf ?d" by (rule deleted_wf[OF assms(1,2) c(1,2)])
  have es: "menu_entries ?d = drop_entry t (menu_entries s)"
    using deleted_rows[OF assms(1,2) c(1,2)] c(3) by simp
  have "menu_wf (?d\<lparr>ms_changed := b\<rparr>) \<and> menu_wf (?d\<lparr>ms_changed := b, ms_cur := k\<rparr>)" for b k
    using wf by (simp add: menu_wf_def strings_wf_def rows_wf_def spare_wf_def)
  moreover have "menu_entries (?d\<lparr>ms_changed := b\<rparr>) = menu_entries ?d \<and> menu_entries (?d\<lparr>ms_changed := b, ms_cur := k\<rparr>) = menu_entries ?d" for b k
    by (simp add: menu_entries_def)
  ultimately show ?thesis using Some up es by (simp add: del_usermenu_item_def Let_def)
qed

section \<open>Deleting from a full menu\<close>

lemma slide_row_rows:
  assumes "slide_row i s = Some s'" "i + 1 < length (ms_sub s)"
  shows "ms_sub s' = (ms_sub s)[i := ms_sub s ! (i + 1)] \<and> length (ms_items s') = length (ms_items s)"
  using assms by (auto simp: slide_row_def rd_def bind_eq_Some_conv dest!: free_string_fields split: if_splits)

lemma slide_up_full:
  assumes "length (ms_sub s) = 16" "length (ms_items s) = 14" "1 \<le> i" "i \<le> 14"
    and "\<forall>j. i \<le> j \<and> j \<le> 14 \<longrightarrow> mi_text (ms_sub s ! j) \<noteq> 0"
  shows "slide_up i s = None"
  using assms
proof (induction "14 - i" arbitrary: i s)
  case 0
  have "slide_row 14 s = None"
  proof (cases "slide_row 14 s")
    case (Some s')
    then obtain a s1 where "free_string a s = Some s1" "rd (ms_items s1) 14 \<noteq> None"
      by (auto simp: slide_row_def bind_eq_Some_conv)
    then show ?thesis using 0(3) by (auto simp: rd_def dest!: free_string_fields split: if_splits)
  qed
  moreover have "i = 14" using 0(1,5) by simp
  moreover have "mi_text (ms_sub s ! 14) \<noteq> 0" using 0(6) \<open>i = 14\<close> by blast
  ultimately show ?case using 0(2) by (subst slide_up.simps) (simp add: rd_def)
next
  case (Suc k)
  have "mi_text (ms_sub s ! i) \<noteq> 0" using Suc.prems by auto
  moreover have "slide_up (i + 1) s' = None" if s': "slide_row i s = Some s'" for s'
  proof (rule Suc.hyps(1))
    note r = slide_row_rows[OF s']
    show "length (ms_sub s') = 16" "length (ms_items s') = 14" using r Suc.prems(1,2) Suc.hyps(2) by auto
    show "\<forall>j. i + 1 \<le> j \<and> j \<le> 14 \<longrightarrow> mi_text (ms_sub s' ! j) \<noteq> 0"
      using r Suc.prems(1,5) Suc.hyps(2) by auto
  qed (use Suc.hyps(2) in auto)
  ultimately show ?case using Suc.prems(1,4) by (subst slide_up.simps) (simp add: rd_def split: option.splits)
qed

lemma del_usermenu_item_full:
  assumes "menu_wf s" "menu_full s" "t \<in> mi_text ` set (menu_entries s)"
  shows "del_usermenu_item t s = None"
proof -
  note e = menu_entries_nth[OF assms(1)] and l = menu_wf_lengths[OF assms(1)]
  have "length (menu_entries s) = 14" using e(1,3) assms(2) by (auto simp: menu_full_def le_less)
  moreover have "t \<noteq> 0" using assms(3) by (auto simp: menu_entries_def dest: set_takeWhileD)
  ultimately obtain c where "find (\<lambda>c. mi_text (ms_sub s ! c) = t) [1..<15] = Some c" "1 \<le> c" "c \<le> 14"
    using find_entry[OF assms(1), of t] assms(3) by (auto split: option.splits)
  moreover have "slide_up c s = None"
    by (rule slide_up_full) (use l e(2) calculation \<open>length (menu_entries s) = 14\<close> in auto)
  ultimately show ?thesis by (simp add: del_usermenu_item_def)
qed

section \<open>Adding\<close>

lemma free_row_next:
  assumes "menu_wf s" "\<not> menu_full s"
  shows "free_row (ms_sub s) = Some (length (menu_entries s) + 1)" and "length (menu_entries s) < 14"
proof -
  note e = menu_entries_nth[OF assms(1)]
  have "length (menu_entries s) \<noteq> 14" using e(2) assms(2) by (auto simp: menu_full_def)
  then show n: "length (menu_entries s) < 14" using e(1) by simp
  then show "free_row (ms_sub s) = Some (length (menu_entries s) + 1)"
    unfolding free_row_def find_Some_iff using e(2,3)
    by (intro exI[of _ "length (menu_entries s)"]) (auto simp: nth_append)
qed

lemma free_row_full:
  assumes "menu_wf s" "menu_full s"
  shows "free_row (ms_sub s) = None"
proof -
  have "mi_text (ms_sub s ! i) \<noteq> 0" if "1 \<le> i" "i \<le> 14" for i
    using menu_tail_zero[OF assms(1) that(1), of 14] that(2) assms(2) by (auto simp: menu_full_def)
  then show ?thesis by (simp add: free_row_def find_None_iff)
qed

text \<open>Writing a row behind the last one.\<close>

lemma append_row:
  assumes "menu_wf s" "n = length (menu_entries s)" "n < 14" "mi_text m \<noteq> 0"
    and "ms_sub s' = (ms_sub s)[n + 1 := m]" "length (ms_items s') = 14" "strings_wf s'"
    and "\<forall>x<14. x \<noteq> n \<longrightarrow> um_file (ms_items s' ! x) = um_file (ms_items s ! x) \<and> um_title (ms_items s' ! x) = um_title (ms_items s ! x)"
    and "row_ok (ms_heap s') (ms_items s') (ms_items s' ! n) m"
    and keep: "\<forall>p. ms_heap s p \<noteq> None \<and> p \<notin> set (menu_ptrs (ms_items s)) \<longrightarrow>
      ms_heap s' p \<noteq> None \<and> p \<notin> set (menu_ptrs (ms_items s'))"
  shows "menu_wf s'" and "menu_entries s' = menu_entries s @ [m]"
proof -
  note e = menu_entries_nth[OF assms(1), folded assms(2)] and l = menu_wf_lengths[OF assms(1)]
  have sub: "ms_sub s' ! j = (if j = n + 1 then m else ms_sub s ! j)" if "j < 16" for j
    using that l assms(5) by simp
  have zero: "mi_text (ms_sub s' ! j) = 0 \<longleftrightarrow> n + 1 < j" if "1 \<le> j" "j \<le> 15" for j
    using that e(2,3) assms(4) sub[of j] by (cases "j \<le> n") auto
  have "rows_wf s'"
    unfolding rows_wf_def
  proof (intro allI impI)
    fix x assume x: "x < 14" "mi_text (ms_sub s' ! (x + 1)) \<noteq> 0"
    show "row_ok (ms_heap s') (ms_items s') (ms_items s' ! x) (ms_sub s' ! (x + 1))"
    proof (cases "x = n")
      case True
      then show ?thesis using assms(9) sub[of "x + 1"] x by simp
    next
      case False
      then have "x < n" using zero[of "x + 1"] x by simp
      then have "row_ok (ms_heap s) (ms_items s) (ms_items s ! x) (ms_sub s ! (x + 1))"
        using assms(1) e(2) x(1) by (auto simp: menu_wf_def rows_wf_def)
      then show ?thesis
        using row_ok_keep[OF _ _ _ keep] assms(8) False x(1) sub[of "x + 1"] by simp
    qed
  qed
  moreover have "mi_text (ms_sub s' ! 0) \<noteq> 0" using sub[of 0] assms(1) by (simp add: menu_wf_def)
  moreover have "mi_text (ms_sub s' ! 15) = 0" using zero[of 15] assms(3) by simp
  moreover have "mi_text (ms_sub s' ! (x + 2)) = 0" if "x < 14" "mi_text (ms_sub s' ! (x + 1)) = 0" for x
    using that zero[of "x + 1"] zero[of "x + 2"] by simp
  moreover have "spare_wf s'"
    unfolding spare_wf_def
  proof (intro allI impI)
    fix x assume x: "x < 14" "mi_text (ms_sub s' ! (x + 1)) = 0"
    then have "n < x" using zero[of "x + 1"] by simp
    then show "um_file (ms_items s' ! x) = 0 \<and> um_title (ms_items s' ! x) = 0"
      using assms(1,8) e(3) x(1) by (simp add: menu_wf_def spare_wf_def)
  qed
  ultimately show wf: "menu_wf s'" using assms(5-7) l by (simp add: menu_wf_def)
  have "menu_entries s' = take (n + 1) (drop 1 (ms_sub s'))"
  proof (rule menu_entries_eq)
    show "mi_text (ms_sub s' ! Suc (n + 1)) = 0" using zero[of "Suc (n + 1)"] assms(3) by simp
    show "\<forall>j. 1 \<le> j \<and> j \<le> n + 1 \<longrightarrow> mi_text (ms_sub s' ! j) \<noteq> 0" using zero assms(3) by simp
  qed (use assms(3,5) l in auto)
  also have "\<dots> = take n (drop 1 (ms_sub s)) @ [m]"
    using assms(3,5) l by (intro nth_equalityI) (auto simp: nth_append less_Suc_eq)
  finally show "menu_entries s' = menu_entries s @ [m]" using e(4) by simp
qed

lemma add_usermenu_item_spec:
  assumes "menu_wf s" "\<not> menu_full s" "mi_text m \<noteq> 0" "\<not> is_extern_row m"
    and "mi_text m < MAX_LANGID \<or> ms_heap s (mi_text m) \<noteq> None \<and> mi_text m \<notin> set (menu_ptrs (ms_items s))"
  shows "menu_wf (add_usermenu_item m s) \<and> menu_entries (add_usermenu_item m s) = menu_entries s @ [m]"
proof -
  let ?s = "s\<lparr>ms_sub := (ms_sub s)[length (menu_entries s) + 1 := m], ms_changed := True\<rparr>"
  have "add_usermenu_item m s = ?s" using free_row_next[OF assms(1,2)] by (simp add: add_usermenu_item_def)
  moreover have "menu_wf ?s \<and> menu_entries ?s = menu_entries s @ [m]"
  proof -
    note fr = free_row_next[OF assms(1,2)]
    have "um_file (ms_items s ! length (menu_entries s)) = 0 \<and> um_title (ms_items s ! length (menu_entries s)) = 0"
      using assms(1) menu_entries_nth(3)[OF assms(1)] fr(2) by (simp add: menu_wf_def spare_wf_def)
    then have "row_ok (ms_heap ?s) (ms_items ?s) (ms_items ?s ! length (menu_entries s)) m"
      using assms(4,5) by (simp add: row_ok_def)
    moreover have "strings_wf ?s" using assms(1) by (simp add: menu_wf_def strings_wf_def)
    ultimately show ?thesis
      using append_row[OF assms(1) refl fr(2) assms(3), of ?s] menu_wf_lengths(2)[OF assms(1)] by simp
  qed
  ultimately show ?thesis by simp
qed

definition own_ptr :: "nat \<Rightarrow> nat list" where
  "own_ptr p = (if p = 0 then [] else [p])"

lemma strings_of_own: "strings_of it = own_ptr (um_file it) @ own_ptr (um_title it)"
  by (simp add: strings_of_def own_ptr_def)

lemma own_ptr_simps: "own_ptr 0 = []" "p \<noteq> 0 \<Longrightarrow> own_ptr p = [p]" "set (own_ptr p) = {p} - {0}"
  by (auto simp: own_ptr_def)

text \<open>Writing one string: into the block it has, or into a new one.\<close>

lemma set_string_owned:
  assumes "owned (us @ own_ptr p @ vs) (ms_heap s) (ms_next s)" "length str < 100"
  obtains p' nx where "set_string p str s = Some (p', s\<lparr>ms_heap := (ms_heap s)(p' \<mapsto> str), ms_next := nx\<rparr>)" "p' \<noteq> 0"
    "owned (us @ own_ptr p' @ vs) ((ms_heap s)(p' \<mapsto> str)) nx" "p' \<noteq> p \<longrightarrow> ms_heap s p' = None"
    "p' \<notin> set (us @ vs)"
proof (cases "p = 0")
  case True
  let ?n = "ms_next s"
  have "ms_heap s ?n = None" using assms(1) unfolding owned_def by (metis less_irrefl)
  moreover have "ms_heap s q \<noteq> None" if "q \<in> set (us @ vs)" for q using assms(1) that unfolding owned_def by auto
  ultimately have n: "ms_heap s ?n = None" "4096 \<le> ?n" "?n \<notin> set (us @ vs)"
    using assms(1) unfolding owned_def by metis+
  show thesis
  proof (rule that[of ?n "?n + 100"])
    show "set_string p str s = Some (?n, s\<lparr>ms_heap := (ms_heap s)(?n \<mapsto> str), ms_next := ?n + 100\<rparr>)"
      using True assms(2) by (simp add: set_string_def)
    show "owned (us @ own_ptr ?n @ vs) ((ms_heap s)(?n \<mapsto> str)) (?n + 100)"
      using assms n True by (auto simp: owned_def own_ptr_simps)
  qed (use n in auto)
next
  case False
  then have p: "ms_heap s p \<noteq> None" "p \<notin> set (us @ vs)" using assms(1) by (auto simp: owned_def own_ptr_simps)
  show thesis
  proof (rule that[of p "ms_next s"])
    show "set_string p str s = Some (p, s\<lparr>ms_heap := (ms_heap s)(p \<mapsto> str), ms_next := ms_next s\<rparr>)"
      using False p assms(2) by (simp add: set_string_def)
    show "owned (us @ own_ptr p @ vs) ((ms_heap s)(p \<mapsto> str)) (ms_next s)"
      using assms p False by (auto simp: owned_def own_ptr_simps)
  qed (use False p in auto)
qed

lemma menu_ptrs_slot:
  assumes "x < length its"
  obtains us vs where "menu_ptrs its = us @ strings_of (its ! x) @ vs" "\<forall>it. menu_ptrs (its[x := it]) = us @ strings_of it @ vs"
proof
  show "menu_ptrs its = concat (map strings_of (take x its)) @ strings_of (its ! x) @ concat (map strings_of (drop (Suc x) its))"
    using assms unfolding menu_ptrs_def by (subst id_take_nth_drop[OF assms]) simp
  show "\<forall>it. menu_ptrs (its[x := it]) = concat (map strings_of (take x its)) @ strings_of it @ concat (map strings_of (drop (Suc x) its))"
    using assms unfolding menu_ptrs_def by (subst upd_conv_take_nth_drop[OF assms]) simp
qed

text \<open>Both strings of a slot written.\<close>

lemma set_strings_wf:
  assumes "strings_wf s" "x < length (ms_items s)" "length f < 100" "length t < 100"
  obtains pf s1 pt s2 where "set_string (um_file (ms_items s ! x)) f s = Some (pf, s1)"
    "set_string (um_title (ms_items s ! x)) t s1 = Some (pt, s2)"
    "ms_items s2 = ms_items s" "ms_sub s2 = ms_sub s" "pf \<noteq> 0" "pt \<noteq> 0" "ms_heap s2 pf = Some f" "ms_heap s2 pt = Some t"
    "\<forall>it :: tUserMenuItem. um_file it = pf \<and> um_title it = pt \<longrightarrow> strings_wf (s2\<lparr>ms_items := (ms_items s)[x := it]\<rparr>)"
    "\<forall>(it :: tUserMenuItem) p. um_file it = pf \<and> um_title it = pt \<and> ms_heap s p \<noteq> None \<and> p \<notin> set (menu_ptrs (ms_items s)) \<longrightarrow>
       ms_heap s2 p \<noteq> None \<and> p \<notin> set (menu_ptrs ((ms_items s)[x := it]))"
proof -
  let ?a = "ms_items s ! x"
  obtain us vs where p: "menu_ptrs (ms_items s) = us @ strings_of ?a @ vs"
      "\<forall>it. menu_ptrs ((ms_items s)[x := it]) = us @ strings_of it @ vs"
    by (rule menu_ptrs_slot[OF assms(2)])
  have "owned (us @ own_ptr (um_file ?a) @ (own_ptr (um_title ?a) @ vs)) (ms_heap s) (ms_next s)"
    using assms(1) p(1) by (simp add: strings_wf_def strings_of_own)
  then obtain pf nx where f: "set_string (um_file ?a) f s = Some (pf, s\<lparr>ms_heap := (ms_heap s)(pf \<mapsto> f), ms_next := nx\<rparr>)"
      "pf \<noteq> 0" "owned (us @ own_ptr pf @ (own_ptr (um_title ?a) @ vs)) ((ms_heap s)(pf \<mapsto> f)) nx"
      "pf \<noteq> um_file ?a \<longrightarrow> ms_heap s pf = None" "pf \<notin> set (us @ own_ptr (um_title ?a) @ vs)"
    using assms(3) by (rule set_string_owned)
  let ?s1 = "s\<lparr>ms_heap := (ms_heap s)(pf \<mapsto> f), ms_next := nx\<rparr>"
  have "owned ((us @ own_ptr pf) @ own_ptr (um_title ?a) @ vs) (ms_heap ?s1) (ms_next ?s1)" using f(3) by simp
  then obtain pt ny where t: "set_string (um_title ?a) t ?s1 = Some (pt, ?s1\<lparr>ms_heap := (ms_heap ?s1)(pt \<mapsto> t), ms_next := ny\<rparr>)"
      "pt \<noteq> 0" "owned ((us @ own_ptr pf) @ own_ptr pt @ vs) ((ms_heap ?s1)(pt \<mapsto> t)) ny"
      "pt \<noteq> um_title ?a \<longrightarrow> ms_heap ?s1 pt = None" "pt \<notin> set ((us @ own_ptr pf) @ vs)"
    using assms(4) by (rule set_string_owned)
  let ?s2 = "?s1\<lparr>ms_heap := (ms_heap ?s1)(pt \<mapsto> t), ms_next := ny\<rparr>"
  have ne: "pf \<noteq> pt" using t(5) f(2) by (auto simp: own_ptr_simps)
  show thesis
  proof (rule that[OF f(1) t(1)])
    show "\<forall>it :: tUserMenuItem. um_file it = pf \<and> um_title it = pt \<longrightarrow> strings_wf (?s2\<lparr>ms_items := (ms_items s)[x := it]\<rparr>)"
      using t(3) p(2) by (simp add: strings_wf_def strings_of_own)
    show "\<forall>(it :: tUserMenuItem) p. um_file it = pf \<and> um_title it = pt \<and> ms_heap s p \<noteq> None \<and> p \<notin> set (menu_ptrs (ms_items s)) \<longrightarrow>
       ms_heap ?s2 p \<noteq> None \<and> p \<notin> set (menu_ptrs ((ms_items s)[x := it]))"
    proof (intro allI impI)
      fix it :: tUserMenuItem and q assume q: "um_file it = pf \<and> um_title it = pt \<and> ms_heap s q \<noteq> None \<and> q \<notin> set (menu_ptrs (ms_items s))"
      have "q \<noteq> pf" using q f(2,4) p(1) by (auto simp: strings_of_own own_ptr_simps)
      moreover have "q \<noteq> pt" using q t(2,4) p(1) calculation by (auto simp: strings_of_own own_ptr_simps)
      ultimately show "ms_heap ?s2 q \<noteq> None \<and> q \<notin> set (menu_ptrs ((ms_items s)[x := it]))"
        using q p by (auto simp: strings_of_own own_ptr_simps)
    qed
  qed (use f(2) t(2) ne in auto)
qed

lemma add_extern_spec:
  assumes "menu_wf s" "\<not> menu_full s" "length f < 100" "length t < 100" "row = script_row \<or> row = module_row"
  shows "\<exists>s' m. add_extern f t row s = Some s' \<and> menu_wf s' \<and> menu_entries s' = menu_entries s @ [m] \<and>
    is_extern_row m \<and> ms_heap s' (mi_text m) = Some t \<and> ms_heap s' (mi_arg m) = Some f"
proof -
  let ?n = "length (menu_entries s)"
  note fr = free_row_next[OF assms(1,2)] and l = menu_wf_lengths[OF assms(1)]
  have w: "strings_wf s" using assms(1) by (simp add: menu_wf_def)
  have x: "?n < length (ms_items s)" using fr(2) l by simp
  obtain pf s1 pt s2 where st: "set_string (um_file (ms_items s ! ?n)) f s = Some (pf, s1)"
    "set_string (um_title (ms_items s ! ?n)) t s1 = Some (pt, s2)"
    "ms_items s2 = ms_items s" "ms_sub s2 = ms_sub s" "pf \<noteq> 0" "pt \<noteq> 0" "ms_heap s2 pf = Some f" "ms_heap s2 pt = Some t"
    and wf: "\<forall>it :: tUserMenuItem. um_file it = pf \<and> um_title it = pt \<longrightarrow> strings_wf (s2\<lparr>ms_items := (ms_items s)[?n := it]\<rparr>)"
    and keep: "\<forall>(it :: tUserMenuItem) p. um_file it = pf \<and> um_title it = pt \<and> ms_heap s p \<noteq> None \<and> p \<notin> set (menu_ptrs (ms_items s)) \<longrightarrow>
       ms_heap s2 p \<noteq> None \<and> p \<notin> set (menu_ptrs ((ms_items s)[?n := it]))"
    by (rule set_strings_wf[OF w x assms(3,4)])
  let ?it = "(ms_items s ! ?n)\<lparr>um_file := pf, um_title := pt\<rparr>"
  let ?s = "s2\<lparr>ms_items := (ms_items s)[?n := ?it], ms_sub := (ms_sub s)[?n + 1 := row ?it], ms_changed := True\<rparr>"
  have row: "is_extern_row (row ?it)" "mi_text (row ?it) = pt" "mi_arg (row ?it) = pf"
    using assms(5) by (auto simp: is_extern_row_def is_script_row_def is_module_row_def script_row_def module_row_def extern_row_def)
  have run: "add_extern f t row s = Some ?s"
    using fr(1) x st l by (simp add: add_extern_def rd_def Let_def)
  have sw: "strings_wf ?s" using wf[rule_format, of ?it] by (simp add: strings_wf_def)
  have rok: "row_ok (ms_heap ?s) (ms_items ?s) (ms_items ?s ! ?n) (row ?it)"
    using row(1) assms(5) st(5,6) x by (auto simp: row_ok_def)
  have "\<forall>p. ms_heap s p \<noteq> None \<and> p \<notin> set (menu_ptrs (ms_items s)) \<longrightarrow>
      ms_heap ?s p \<noteq> None \<and> p \<notin> set (menu_ptrs (ms_items ?s))"
    using keep[rule_format, of ?it] by simp
  then have "menu_wf ?s \<and> menu_entries ?s = menu_entries s @ [row ?it]"
    using append_row[OF assms(1) refl fr(2), of "row ?it" ?s] sw rok row(2) st(6) l by simp
  then show ?thesis using run row st(7,8) by (intro exI[of _ ?s] exI[of _ "row ?it"]) simp
qed

section \<open>Moving\<close>

definition swap_at :: "nat \<Rightarrow> 'a list \<Rightarrow> 'a list" where
  "swap_at i xs = xs[i := xs ! Suc i, Suc i := xs ! i]"

definition swap_slots :: "nat \<Rightarrow> tUserMenuItem list \<Rightarrow> tUserMenuItem list" where
  "swap_slots i its = (let a = its ! i; b = its ! Suc i in
     its[i := a\<lparr>um_file := um_file b, um_title := um_title b\<rparr>, Suc i := b\<lparr>um_file := um_file a, um_title := um_title a\<rparr>])"

lemma menu_ptrs_swap:
  assumes "Suc i < length its"
  obtains us vs where "menu_ptrs its = us @ strings_of (its ! i) @ strings_of (its ! Suc i) @ vs"
    "menu_ptrs (swap_slots i its) = us @ strings_of (its ! Suc i) @ strings_of (its ! i) @ vs"
proof -
  have "its = take i its @ its ! i # its ! Suc i # drop (Suc (Suc i)) its"
    using assms by (metis Cons_nth_drop_Suc Suc_lessD append_take_drop_id)
  then obtain us a b vs where its: "its = us @ a # b # vs" and i: "i = length us" "its ! i = a" "its ! Suc i = b"
    using assms by (metis Suc_lessD length_take min.absorb4)
  have "swap_slots i its = us @ a\<lparr>um_file := um_file b, um_title := um_title b\<rparr> # b\<lparr>um_file := um_file a, um_title := um_title a\<rparr> # vs"
    using i by (simp add: swap_slots_def Let_def its list_update_append)
  then show thesis
    using that[of "concat (map strings_of us)" "concat (map strings_of vs)"] i by (simp add: menu_ptrs_def its)
qed

definition swapped :: "nat \<Rightarrow> menu_state \<Rightarrow> menu_state" where
  "swapped i s = s\<lparr>ms_sub := swap_at i (ms_sub s), ms_items := swap_slots (i - 1) (ms_items s)\<rparr>"

lemma swapped_wf:
  assumes "menu_wf s" "1 \<le> i" "i < length (menu_entries s)"
  shows "menu_wf (swapped i s)" and "menu_entries (swapped i s) = swap_at (i - 1) (menu_entries s)"
proof -
  let ?n = "length (menu_entries s)" and ?d = "swapped i s"
  note e = menu_entries_nth[OF assms(1)] and l = menu_wf_lengths[OF assms(1)]
  obtain us vs where p: "menu_ptrs (ms_items s) = us @ strings_of (ms_items s ! (i - 1)) @ strings_of (ms_items s ! Suc (i - 1)) @ vs"
    "menu_ptrs (swap_slots (i - 1) (ms_items s)) = us @ strings_of (ms_items s ! Suc (i - 1)) @ strings_of (ms_items s ! (i - 1)) @ vs"
    by (rule menu_ptrs_swap[of "i - 1" "ms_items s"]) (use assms e(1) l in auto)
  have ptrs: "set (menu_ptrs (ms_items ?d)) = set (menu_ptrs (ms_items s))"
      "distinct (menu_ptrs (ms_items ?d)) = distinct (menu_ptrs (ms_items s))"
    using p by (auto simp: swapped_def)
  have sub: "ms_sub ?d ! j = ms_sub s ! (if j = i then Suc i else if j = Suc i then i else j)" if "j < 16" for j
    using that l assms e(1) by (auto simp: swapped_def swap_at_def)
  have zero: "mi_text (ms_sub ?d ! j) = 0 \<longleftrightarrow> ?n < j" if "1 \<le> j" "j \<le> 15" for j
    using that e(2,3) assms(2,3) sub[of j] by (cases "j \<le> ?n") auto
  have "rows_wf ?d"
    unfolding rows_wf_def
  proof (intro allI impI)
    fix x assume x: "x < 14" "mi_text (ms_sub ?d ! (x + 1)) \<noteq> 0"
    then have xn: "x < ?n" using zero[of "x + 1"] by simp
    let ?y = "if x + 1 = i then i else if x = i then i - 1 else x"
    have "mi_text (ms_sub s ! (?y + 1)) \<noteq> 0" using e(2) xn assms(2,3) by auto
    moreover have "?y < 14" using x(1) assms(2,3) e(1) by auto
    moreover have "rows_wf s" using assms(1) by (simp add: menu_wf_def)
    ultimately have "row_ok (ms_heap s) (ms_items s) (ms_items s ! ?y) (ms_sub s ! (?y + 1))"
      unfolding rows_wf_def by blast
    moreover have "ms_sub ?d ! (x + 1) = ms_sub s ! (?y + 1)" using sub[of "x + 1"] x(1) assms(2) by auto
    moreover have "um_file (ms_items ?d ! x) = um_file (ms_items s ! ?y)" "um_title (ms_items ?d ! x) = um_title (ms_items s ! ?y)"
      using l x(1) e(1) assms(2,3) by (auto simp: swapped_def swap_slots_def Let_def nth_list_update)
    moreover have "\<forall>p. ms_heap s p \<noteq> None \<and> p \<notin> set (menu_ptrs (ms_items s)) \<longrightarrow>
        ms_heap ?d p \<noteq> None \<and> p \<notin> set (menu_ptrs (ms_items ?d))"
      using ptrs by (simp add: swapped_def)
    ultimately show "row_ok (ms_heap ?d) (ms_items ?d) (ms_items ?d ! x) (ms_sub ?d ! (x + 1))"
      using row_ok_keep by metis
  qed
  moreover have "strings_wf ?d" using assms(1) ptrs by (simp add: menu_wf_def strings_wf_def owned_def swapped_def)
  moreover have "mi_text (ms_sub ?d ! 0) \<noteq> 0" using sub[of 0] assms(1,2) by (simp add: menu_wf_def)
  moreover have "mi_text (ms_sub ?d ! 15) = 0" using zero[of 15] e(1) by simp
  moreover have "mi_text (ms_sub ?d ! (x + 2)) = 0" if "x < 14" "mi_text (ms_sub ?d ! (x + 1)) = 0" for x
    using that zero[of "x + 1"] zero[of "x + 2"] by simp
  moreover have "length (ms_sub ?d) = 16" "length (ms_items ?d) = 14"
    using l by (simp_all add: swapped_def swap_at_def swap_slots_def Let_def)
  moreover have "spare_wf ?d"
    unfolding spare_wf_def
  proof (intro allI impI)
    fix x assume x: "x < 14" "mi_text (ms_sub ?d ! (x + 1)) = 0"
    then have n: "?n \<le> x" using zero[of "x + 1"] by simp
    then have "um_file (ms_items s ! x) = 0 \<and> um_title (ms_items s ! x) = 0"
      using x(1) assms(1) e(3) by (simp add: menu_wf_def spare_wf_def)
    then show "um_file (ms_items ?d ! x) = 0 \<and> um_title (ms_items ?d ! x) = 0"
      using n assms(2,3) by (simp add: swapped_def swap_slots_def Let_def)
  qed
  ultimately show "menu_wf ?d" by (simp add: menu_wf_def)
  have "menu_entries ?d = take ?n (drop 1 (ms_sub ?d))"
  proof (rule menu_entries_eq)
    show "mi_text (ms_sub ?d ! Suc ?n) = 0" using zero[of "Suc ?n"] e(1) by simp
    show "\<forall>j. 1 \<le> j \<and> j \<le> ?n \<longrightarrow> mi_text (ms_sub ?d ! j) \<noteq> 0" using zero e(1) by simp
  qed (use e(1) l in \<open>auto simp: swapped_def swap_at_def\<close>)
  also have "\<dots> = swap_at (i - 1) (take ?n (drop 1 (ms_sub s)))"
    using l e(1) assms(2,3) by (intro nth_equalityI) (auto simp: swapped_def swap_at_def nth_list_update)
  finally show "menu_entries ?d = swap_at (i - 1) (menu_entries s)" using e(4) by simp
qed

lemma move_usermenu_item_swapped:
  assumes "menu_wf s" "1 \<le> i" "i < length (menu_entries s)"
  shows "ms_cur s = int i \<Longrightarrow> move_usermenu_item 1 s = Some ((swapped i s)\<lparr>ms_cur := int i + 1, ms_changed := True\<rparr>)"
    and "ms_cur s = int i + 1 \<Longrightarrow> move_usermenu_item (- 1) s = Some ((swapped i s)\<lparr>ms_cur := int i, ms_changed := True\<rparr>)"
proof -
  note e = menu_entries_nth[OF assms(1)] and l = menu_wf_lengths[OF assms(1)]
  obtain k where k: "i = Suc k" using assms(2) by (cases i) auto
  have ne: "k < 13" using k assms(3) e(1) by simp
  show "ms_cur s = int i \<Longrightarrow> move_usermenu_item 1 s = Some ((swapped i s)\<lparr>ms_cur := int i + 1, ms_changed := True\<rparr>)"
    using k ne l by (auto simp: move_usermenu_item_def swapped_def swap_at_def swap_slots_def rd_def Let_def nat_add_distrib list_update_swap)
  show "ms_cur s = int i + 1 \<Longrightarrow> move_usermenu_item (- 1) s = Some ((swapped i s)\<lparr>ms_cur := int i, ms_changed := True\<rparr>)"
    using k ne l by (auto simp: move_usermenu_item_def swapped_def swap_at_def swap_slots_def rd_def Let_def nat_add_distrib list_update_swap)
qed

lemma menu_wf_cursor: "menu_wf (s\<lparr>ms_cur := k, ms_changed := b\<rparr>) = menu_wf s" "menu_entries (s\<lparr>ms_cur := k, ms_changed := b\<rparr>) = menu_entries s"
  by (simp_all add: menu_wf_def strings_wf_def rows_wf_def spare_wf_def menu_entries_def)

lemma move_usermenu_item_up_spec:
  assumes "menu_wf s" "1 < ms_cur s" "ms_cur s \<le> int (length (menu_entries s))"
  shows "\<exists>s'. move_usermenu_item_up s = Some s' \<and> menu_wf s' \<and> ms_cur s' = ms_cur s - 1 \<and>
    menu_entries s' = swap_at (nat (ms_cur s) - 2) (menu_entries s)"
proof -
  let ?i = "nat (ms_cur s) - 1"
  have i: "1 \<le> ?i" "?i < length (menu_entries s)" "ms_cur s = int ?i + 1" using assms(2,3) by auto
  show ?thesis
    using move_usermenu_item_swapped(2)[OF assms(1) i] swapped_wf[OF assms(1) i(1,2)] assms(2) i(3)
    by (auto simp: move_usermenu_item_up_def menu_wf_cursor numeral_2_eq_2)
qed

lemma move_usermenu_item_down_spec:
  assumes "menu_wf s" "1 \<le> ms_cur s" "ms_cur s \<le> int (length (menu_entries s))"
  shows "\<exists>s'. move_usermenu_item_down s = Some s' \<and> menu_wf s' \<and>
    (if ms_cur s = int (length (menu_entries s)) then s' = s
     else ms_cur s' = ms_cur s + 1 \<and> menu_entries s' = swap_at (nat (ms_cur s) - 1) (menu_entries s))"
proof -
  note e = menu_entries_nth[OF assms(1)] and l = menu_wf_lengths[OF assms(1)]
  let ?i = "nat (ms_cur s)"
  have i: "1 \<le> ?i" "ms_cur s = int ?i" using assms(2) by auto
  show ?thesis
  proof (cases "ms_cur s = int (length (menu_entries s))")
    case True
    then have "ms_cur s < 14 \<Longrightarrow> mi_text (ms_sub s ! nat (ms_cur s + 1)) = 0"
      using e(3) by (simp add: nat_add_distrib)
    then show ?thesis using True assms(1,2) l e(1)
      by (auto simp: move_usermenu_item_down_def rd_def)
  next
    case False
    then have lt: "?i < length (menu_entries s)" using assms(3) i by simp
    then have "mi_text (ms_sub s ! nat (ms_cur s + 1)) \<noteq> 0" using e(2) i by (simp add: nat_add_distrib)
    moreover have "ms_cur s < 14" using lt e(1) i by simp
    ultimately show ?thesis
      using move_usermenu_item_swapped(1)[OF assms(1) i(1) lt i(2)] swapped_wf[OF assms(1) i(1) lt] False i l
      by (auto simp: move_usermenu_item_down_def rd_def menu_wf_cursor nat_add_distrib)
  qed
qed

text \<open>The rows of scripts and modules show live strings.\<close>

lemma extern_rows_live:
  assumes "menu_wf s" "m \<in> set (menu_entries s)" "is_extern_row m"
  shows "ms_heap s (mi_text m) \<noteq> None" "ms_heap s (mi_arg m) \<noteq> None"
proof -
  note e = menu_entries_nth[OF assms(1)] and l = menu_wf_lengths[OF assms(1)]
  obtain x where x: "x < length (menu_entries s)" "m = menu_entries s ! x" using assms(2) by (auto simp: in_set_conv_nth)
  have m: "m = ms_sub s ! (x + 1)"
    using entry_nth[OF assms(1) x(1)] x(2) by simp
  have x14: "x < 14" using x(1) e(1) by simp
  let ?it = "ms_items s ! x"
  have "mi_text m \<noteq> 0" using assms(2) by (auto simp: menu_entries_def dest: set_takeWhileD)
  then have "row_ok (ms_heap s) (ms_items s) ?it m" using assms(1) x14 m by (simp add: menu_wf_def rows_wf_def)
  then have r: "um_file ?it \<noteq> 0" "um_title ?it \<noteq> 0" "m = script_row ?it \<or> m = module_row ?it"
    using assms(3) by (simp_all add: row_ok_def)
  have "?it \<in> set (ms_items s)" using x14 l by simp
  then have "{um_file ?it, um_title ?it} \<subseteq> set (menu_ptrs (ms_items s))" using r(1,2) by (auto simp: menu_ptrs_def set_strings_of)
  then have "ms_heap s (um_file ?it) \<noteq> None" "ms_heap s (um_title ?it) \<noteq> None"
    using assms(1) by (auto simp: menu_wf_def strings_wf_def owned_def)
  then show "ms_heap s (mi_text m) \<noteq> None" "ms_heap s (mi_arg m) \<noteq> None"
    using r(3) by (auto simp: script_row_def module_row_def extern_row_def)
qed

section \<open>Editing as steps\<close>

text \<open>
  What the user does in the menu editor, one key at a time. A row of the main menus has a text that
  is a language number or a string no slot owns; the cursor stays on the rows there are.
\<close>

inductive menu_edit :: "menu_state \<Rightarrow> menu_state \<Rightarrow> bool" where
  Add_item: "\<lbrakk>mi_text m \<noteq> 0; \<not> is_extern_row m;
      mi_text m < MAX_LANGID \<or> ms_heap s (mi_text m) \<noteq> None \<and> mi_text m \<notin> set (menu_ptrs (ms_items s))\<rbrakk> \<Longrightarrow>
    menu_edit s (add_usermenu_item m s)"
| Add_script: "\<lbrakk>length f < CONF_STR_LEN; length t < CONF_STR_LEN; add_script_to_user_menu f t s = Some s'\<rbrakk> \<Longrightarrow> menu_edit s s'"
| Add_module: "\<lbrakk>length f < CONF_STR_LEN; length t < CONF_STR_LEN; add_module_to_user_menu f t s = Some s'\<rbrakk> \<Longrightarrow> menu_edit s s'"
| Delete: "\<lbrakk>t \<noteq> 0; del_usermenu_item t s = Some s'\<rbrakk> \<Longrightarrow> menu_edit s s'"
| Move_up: "\<lbrakk>ms_cur s \<le> int (length (menu_entries s)); move_usermenu_item_up s = Some s'\<rbrakk> \<Longrightarrow> menu_edit s s'"
| Move_down: "\<lbrakk>0 \<le> ms_cur s; ms_cur s \<le> int (length (menu_entries s)); move_usermenu_item_down s = Some s'\<rbrakk> \<Longrightarrow> menu_edit s s'"
| Cursor: "menu_edit s (s\<lparr>ms_cur := k\<rparr>)"

lemma add_usermenu_item_full: "\<lbrakk>menu_wf s; menu_full s\<rbrakk> \<Longrightarrow> add_usermenu_item m s = s"
  by (simp add: add_usermenu_item_def free_row_full)

lemma add_extern_full: "\<lbrakk>menu_wf s; menu_full s\<rbrakk> \<Longrightarrow> add_extern f t row s = Some s"
  by (simp add: add_extern_def free_row_full)

lemma add_extern_wf:
  assumes "menu_wf s" "length f < 100" "length t < 100" "row = script_row \<or> row = module_row"
  shows "\<exists>s'. add_extern f t row s = Some s' \<and> menu_wf s'"
  using add_extern_spec[OF assms(1) _ assms(2-4)] add_extern_full[OF assms(1)] assms(1) by blast

lemma del_usermenu_item_None:
  assumes "menu_wf s" "t \<noteq> 0"
  shows "del_usermenu_item t s = None \<longleftrightarrow> menu_full s \<and> t \<in> mi_text ` set (menu_entries s)"
    and "del_usermenu_item t s = Some s' \<Longrightarrow> menu_wf s'"
proof -
  have absent: "del_usermenu_item t s = Some s" if "t \<notin> mi_text ` set (menu_entries s)"
    using find_entry[OF assms] that by (auto simp: del_usermenu_item_def split: option.split)
  show "del_usermenu_item t s = None \<longleftrightarrow> menu_full s \<and> t \<in> mi_text ` set (menu_entries s)"
    using del_usermenu_item_full[OF assms(1)] del_usermenu_item_spec[OF assms(1) _ assms(2)] absent by fastforce
  show "del_usermenu_item t s = Some s' \<Longrightarrow> menu_wf s'"
    using del_usermenu_item_full[OF assms(1)] del_usermenu_item_spec[OF assms(1) _ assms(2)] absent assms(1) by fastforce
qed

lemma menu_edit_wf:
  assumes "menu_edit s s'" "menu_wf s"
  shows "menu_wf s'"
  using assms
proof cases
  case (Add_item m)
  then show ?thesis using add_usermenu_item_spec[OF assms(2)] add_usermenu_item_full[OF assms(2)] assms(2) by metis
next
  case (Add_script f t)
  then show ?thesis using add_extern_wf[OF assms(2), of f t script_row] by (auto simp: add_script_to_user_menu_def)
next
  case (Add_module f t)
  then show ?thesis using add_extern_wf[OF assms(2), of f t module_row] by (auto simp: add_module_to_user_menu_def)
next
  case (Delete t)
  then show ?thesis using del_usermenu_item_None(2)[OF assms(2)] by blast
next
  case Move_up
  then show ?thesis using move_usermenu_item_up_spec[OF assms(2)] assms(2)
    by (cases "1 < ms_cur s") (auto simp: move_usermenu_item_up_def)
next
  case Move_down
  then show ?thesis using move_usermenu_item_down_spec[OF assms(2)] assms(2)
    by (cases "ms_cur s = 0") (auto simp: move_usermenu_item_down_def)
next
  case (Cursor k)
  then show ?thesis using assms(2) by (simp add: menu_wf_def strings_wf_def rows_wf_def spare_wf_def)
qed

lemma menu_edits_wf: "\<lbrakk>menu_edit\<^sup>*\<^sup>* s s'; menu_wf s\<rbrakk> \<Longrightarrow> menu_wf s'"
  by (induction rule: rtranclp_induct) (auto intro: menu_edit_wf)

end
