(* ===== verification/UserMenuStore.thy ===== *)
theory UserMenuStore
  imports UserMenu
begin

unbundle bit_operations_syntax

text \<open>
  What becomes of the user menu on the card (\<open>core/gui_user_menu.c\<close>): the bytes
  \<open>user_menu_store_data\<close> writes and \<open>user_menu_load_data\<close> reads back over the table that is there,
  and the entries that are left when \<open>user_menu_save\<close> has turned the rows into table values and
  \<open>user_menu_restore\<close> has looked those up in the menus.
\<close>

section \<open>The table on the card\<close>

type_synonym slot = "u32 \<times> u8 list \<times> u8 list"

definition name_at :: "(nat \<Rightarrow> u8 list option) \<Rightarrow> nat \<Rightarrow> u8 list" where
  "name_at hp p = (if p = 0 then [] else the (hp p))"

definition slot_view :: "(nat \<Rightarrow> u8 list option) \<Rightarrow> tUserMenuItem \<Rightarrow> slot" where
  "slot_view hp it = (um_var it, name_at hp (um_file it), name_at hp (um_title it))"

definition menu_view :: "menu_state \<Rightarrow> slot list" where
  "menu_view s = map (slot_view (ms_heap s)) (ms_items s)"

definition name_ok :: "u8 list \<Rightarrow> bool" where
  "name_ok f \<longleftrightarrow> length f < CONF_STR_LEN \<and> 0 \<notin> set f"

definition slot_ok :: "slot \<Rightarrow> bool" where
  "slot_ok v \<longleftrightarrow> name_ok (fst (snd v)) \<and> name_ok (snd (snd v))"

definition pad_name :: "u8 list \<Rightarrow> u8 list" where
  "pad_name f = f @ replicate (CONF_STR_LEN - length f) 0"

definition slot_bytes :: "slot \<Rightarrow> u8 list" where
  "slot_bytes v = le32 (fst v) @ pad_name (fst (snd v)) @ pad_name (snd (snd v))"

text \<open>What reading a slot leaves: a stored name replaces the old one, an empty field does not.\<close>

definition over_slot :: "slot \<Rightarrow> slot \<Rightarrow> slot" where
  "over_slot old new = (fst new, if fst (snd new) = [] then fst (snd old) else fst (snd new),
     if snd (snd new) = [] then snd (snd old) else snd (snd new))"

lemma length_pad_name: "length f \<le> 100 \<Longrightarrow> length (pad_name f) = 100"
  by (simp add: pad_name_def)

lemma slot_ok_lengths: "slot_ok v \<Longrightarrow> length (fst (snd v)) < 100" "slot_ok v \<Longrightarrow> length (snd (snd v)) < 100"
  by (simp_all add: slot_ok_def name_ok_def)

lemma length_slot_bytes: "slot_ok v \<Longrightarrow> length (slot_bytes v) = 204"
  using slot_ok_lengths[of v] by (simp add: slot_bytes_def le32.enc_length length_pad_name)

lemma name_field_owned:
  "\<lbrakk>p = 0 \<or> hp p \<noteq> None \<and> length (the (hp p)) < 100\<rbrakk> \<Longrightarrow> name_field hp p = Some (pad_name (name_at hp p))"
  by (auto simp: name_field_def name_at_def pad_name_def)

lemma store_items_owned:
  "\<forall>p\<in>set (menu_ptrs its). hp p \<noteq> None \<and> length (the (hp p)) < 100 \<Longrightarrow>
   store_items hp its = Some (concat (map slot_bytes (map (slot_view hp) its)))"
proof (induction its)
  case (Cons it its)
  have "\<forall>p\<in>set (menu_ptrs its). hp p \<noteq> None \<and> length (the (hp p)) < 100"
    using Cons.prems by (auto simp: menu_ptrs_def)
  moreover have "um_file it = 0 \<or> hp (um_file it) \<noteq> None \<and> length (the (hp (um_file it))) < 100"
      "um_title it = 0 \<or> hp (um_title it) \<noteq> None \<and> length (the (hp (um_title it))) < 100"
    using Cons.prems by (auto simp: menu_ptrs_def set_strings_of)
  ultimately show ?case
    using Cons.IH by (simp add: store_item_def name_field_owned slot_bytes_def slot_view_def)
qed simp

lemma user_menu_store_data_owned:
  assumes "strings_wf s"
  shows "user_menu_store_data s = Some (le32 (word_of_nat (length (ms_items s))) @ concat (map slot_bytes (menu_view s)))"
  using assms store_items_owned[of "ms_items s" "ms_heap s"]
  by (simp add: user_menu_store_data_def strings_wf_def owned_def menu_view_def)

lemma c_string_pad: "\<lbrakk>name_ok f\<rbrakk> \<Longrightarrow> c_string (pad_name f @ r) = Some f"
proof -
  assume f: "name_ok f"
  obtain k where k: "replicate (100 - length f) (0::u8) = 0 # replicate k 0"
    using f by (cases "100 - length f") (auto simp: name_ok_def)
  have "takeWhile (\<lambda>c. c \<noteq> 0) (f @ 0 # replicate k 0 @ r) = f"
    using f by (subst takeWhile_append2) (auto simp: name_ok_def)
  then have "takeWhile (\<lambda>c. c \<noteq> 0) (pad_name f @ r) = f" by (simp add: pad_name_def k)
  then show ?thesis using f by (simp add: c_string_def Let_def pad_name_def name_ok_def)
qed

lemma load_name_owned:
  assumes "owned (us @ own_ptr p @ vs) (ms_heap s) (ms_next s)" "drop q buf = pad_name f @ r" "name_ok f"
  obtains p' hp nx where "load_name buf q p s = Some (p', s\<lparr>ms_heap := hp, ms_next := nx\<rparr>)"
    "owned (us @ own_ptr p' @ vs) hp nx" "name_at hp p' = (if f = [] then name_at (ms_heap s) p else f)"
    "\<forall>x\<in>set (us @ vs). hp x = ms_heap s x"
proof -
  have "pad_name f \<noteq> []" using assms(3) by (auto simp: pad_name_def name_ok_def)
  then have len: "q < length buf" using assms(2) by (cases "q < length buf") auto
  then have hd: "rd buf q = Some ((pad_name f @ r) ! 0)" using nth_drop[of q buf 0] assms(2) by (simp add: rd_def)
  show thesis
  proof (cases "f = []")
    case True
    then have "load_name buf q p s = Some (p, s\<lparr>ms_heap := ms_heap s, ms_next := ms_next s\<rparr>)"
      using hd by (simp add: load_name_def pad_name_def nth_append)
    then show thesis using that[where p' = p and hp = "ms_heap s" and nx = "ms_next s"] assms(1) True by simp
  next
    case False
    then have nz: "(pad_name f @ r) ! 0 \<noteq> 0" using assms(3) by (cases f) (auto simp: pad_name_def name_ok_def)
    obtain p' nx where st: "set_string p f s = Some (p', s\<lparr>ms_heap := (ms_heap s)(p' \<mapsto> f), ms_next := nx\<rparr>)" "p' \<noteq> 0"
      "owned (us @ own_ptr p' @ vs) ((ms_heap s)(p' \<mapsto> f)) nx" "p' \<notin> set (us @ vs)"
      using assms(1) assms(3)[unfolded name_ok_def, THEN conjunct1] by (rule set_string_owned)
    have "load_name buf q p s = Some (p', s\<lparr>ms_heap := (ms_heap s)(p' \<mapsto> f), ms_next := nx\<rparr>)"
      using hd nz st(1) assms(2,3) by (simp add: load_name_def c_string_pad)
    then show thesis using st False by (intro that[where p' = p' and hp = "(ms_heap s)(p' \<mapsto> f)" and nx = nx]) (auto simp: name_at_def)
  qed
qed

text \<open>One slot: the views of the others stay.\<close>

lemma name_at_cong: "(p \<noteq> 0 \<Longrightarrow> hp p = hp' p) \<Longrightarrow> name_at hp p = name_at hp' p"
  by (simp add: name_at_def)

lemma load_item_view:
  assumes "strings_wf s" "i < length (ms_items s)" "drop p buf = slot_bytes v @ r" "slot_ok v"
  obtains s' where "load_item buf p i s = Some s'" "strings_wf s'"
    "menu_view s' = (menu_view s)[i := over_slot (menu_view s ! i) v]" "ms_sub s' = ms_sub s"
proof -
  let ?a = "ms_items s ! i"
  obtain us vs where ptrs: "menu_ptrs (ms_items s) = us @ strings_of ?a @ vs"
      "\<forall>it. menu_ptrs ((ms_items s)[i := it]) = us @ strings_of it @ vs"
    by (rule menu_ptrs_slot[OF assms(2)])
  have others: "set (strings_of (ms_items s ! j)) \<subseteq> set (us @ vs)" if "j < length (ms_items s)" "j \<noteq> i" for j
  proof -
    have "ms_items s ! j \<in> set ((ms_items s)[i := ?a\<lparr>um_file := 0, um_title := 0\<rparr>])"
      using that by (metis length_list_update nth_list_update_neq nth_mem)
    then have "set (strings_of (ms_items s ! j)) \<subseteq> set (menu_ptrs ((ms_items s)[i := ?a\<lparr>um_file := 0, um_title := 0\<rparr>]))"
      by (auto simp: menu_ptrs_def)
    then show ?thesis using ptrs(2) by (simp add: strings_of_def)
  qed
  obtain x f t where v: "v = (x, f, t)" by (cases v)
  have ok: "name_ok f" "name_ok t" using assms(4) by (simp_all add: slot_ok_def v)
  have d4: "drop (p + 4) buf = pad_name f @ pad_name t @ r"
    using arg_cong[OF assms(3), of "drop 4"] by (simp add: slot_bytes_def v le32.enc_length add.commute)
  have d104: "drop (p + 4 + 100) buf = pad_name t @ r"
    using arg_cong[OF d4, of "drop 100"] ok by (simp add: length_pad_name name_ok_def add.commute)
  have "owned (us @ own_ptr (um_file ?a) @ (own_ptr (um_title ?a) @ vs)) (ms_heap s) (ms_next s)"
    using assms(1) ptrs(1) by (simp add: strings_wf_def strings_of_own)
  then obtain pf hp nx where f: "load_name buf (p + 4) (um_file ?a) s = Some (pf, s\<lparr>ms_heap := hp, ms_next := nx\<rparr>)"
      "owned (us @ own_ptr pf @ (own_ptr (um_title ?a) @ vs)) hp nx" "name_at hp pf = (if f = [] then name_at (ms_heap s) (um_file ?a) else f)"
      "\<forall>x\<in>set (us @ (own_ptr (um_title ?a) @ vs)). hp x = ms_heap s x"
    using d4 ok(1) by (rule load_name_owned)
  let ?s1 = "s\<lparr>ms_heap := hp, ms_next := nx\<rparr>"
  have "owned ((us @ own_ptr pf) @ own_ptr (um_title ?a) @ vs) (ms_heap ?s1) (ms_next ?s1)" using f(2) by simp
  then obtain pt hq ny where t: "load_name buf (p + 4 + 100) (um_title ?a) ?s1 = Some (pt, ?s1\<lparr>ms_heap := hq, ms_next := ny\<rparr>)"
      "owned ((us @ own_ptr pf) @ own_ptr pt @ vs) hq ny" "name_at hq pt = (if t = [] then name_at (ms_heap ?s1) (um_title ?a) else t)"
      "\<forall>x\<in>set ((us @ own_ptr pf) @ vs). hq x = ms_heap ?s1 x"
    using d104 ok(2) by (rule load_name_owned)
  let ?it = "\<lparr>um_var = x, um_file = pf, um_title = pt\<rparr>"
  let ?s2 = "s\<lparr>ms_heap := hq, ms_next := ny, ms_items := (ms_items s)[i := ?it]\<rparr>"
  have "rd_n 4 (drop p buf) = Some (le32 x, drop 4 (drop p buf))"
    using assms(3) by (simp add: rd_n_def slot_bytes_def v le32.enc_length)
  then have run: "load_item buf p i s = Some ?s2"
    using f(1) t(1) assms(2) by (simp add: load_item_def rd_def le32.dec_enc)
  have "menu_ptrs ((ms_items s)[i := ?it]) = (us @ own_ptr pf) @ own_ptr pt @ vs"
    using ptrs(2) by (simp add: strings_of_own)
  then have wf: "strings_wf ?s2" using t(2) by (simp add: strings_wf_def)
  have keep: "slot_view hq (ms_items s ! j) = slot_view (ms_heap s) (ms_items s ! j)" if "j < length (ms_items s)" "j \<noteq> i" for j
    using others[OF that] f(4) t(4) by (auto simp: slot_view_def set_strings_of intro!: name_at_cong)
  have "name_at hq pf = name_at hp pf" using t(4) by (intro name_at_cong) (auto simp: own_ptr_simps)
  moreover have "name_at hp (um_title ?a) = name_at (ms_heap s) (um_title ?a)"
    using f(4) by (intro name_at_cong) (auto simp: own_ptr_simps)
  ultimately have "slot_view hq ?it = over_slot (slot_view (ms_heap s) ?a) v"
    using f(3) t(3) by (simp add: slot_view_def over_slot_def v)
  then have "menu_view ?s2 = (menu_view s)[i := over_slot (menu_view s ! i) v]"
    using keep assms(2) by (intro nth_equalityI) (auto simp: menu_view_def nth_list_update)
  then show thesis using that[OF run wf] by simp
qed

lemma load_items_view:
  assumes "strings_wf s" "i + length vs \<le> length (ms_items s)" "drop p buf = concat (map slot_bytes vs) @ r" "\<forall>v\<in>set vs. slot_ok v"
  shows "\<exists>s'. load_items (length vs) buf p i s = Some s' \<and> strings_wf s' \<and> ms_sub s' = ms_sub s \<and>
    menu_view s' = take i (menu_view s) @ map2 over_slot (drop i (menu_view s)) vs @ drop (i + length vs) (menu_view s)"
  using assms
proof (induction vs arbitrary: i p s)
  case Nil
  then show ?case by simp
next
  case (Cons v vs)
  have i: "i < length (ms_items s)" using Cons.prems(2) by simp
  have d: "drop p buf = slot_bytes v @ concat (map slot_bytes vs) @ r" using Cons.prems(3) by simp
  obtain s1 where s1: "load_item buf p i s = Some s1" "strings_wf s1"
      "menu_view s1 = (menu_view s)[i := over_slot (menu_view s ! i) v]" "ms_sub s1 = ms_sub s"
    using load_item_view[OF Cons.prems(1) i d] Cons.prems(4) by auto
  have len: "length (ms_items s1) = length (ms_items s)" using arg_cong[OF s1(3), of length] by (simp add: menu_view_def)
  have "drop (p + 204) buf = concat (map slot_bytes vs) @ r"
    using arg_cong[OF d, of "drop 204"] Cons.prems(4) by (simp add: length_slot_bytes add.commute)
  then obtain s2 where s2: "load_items (length vs) buf (p + 204) (Suc i) s1 = Some s2" "strings_wf s2" "ms_sub s2 = ms_sub s1"
      "menu_view s2 = take (Suc i) (menu_view s1) @ map2 over_slot (drop (Suc i) (menu_view s1)) vs @ drop (Suc i + length vs) (menu_view s1)"
    using Cons.IH[of s1 "Suc i" "p + 204"] s1(2) len Cons.prems(2,4) by auto
  have "i < length (menu_view s)" using i by (simp add: menu_view_def)
  then have "menu_view s2 = take i (menu_view s) @ map2 over_slot (drop i (menu_view s)) (v # vs) @ drop (i + length (v # vs)) (menu_view s)"
    unfolding s2(4) s1(3) by (simp add: take_Suc_conv_app_nth drop_update_cancel flip: Cons_nth_drop_Suc)
  then show ?case using s1(1,4) s2 by (simp add: numeral_eq_Suc add.assoc)
qed

lemma free_items_owned:
  "owned (menu_ptrs its @ us) (ms_heap s) (ms_next s) \<Longrightarrow>
   \<exists>hp. free_items its s = Some (s\<lparr>ms_heap := hp\<rparr>) \<and> owned us hp (ms_next s) \<and> (\<forall>p. p \<notin> set (menu_ptrs its) \<longrightarrow> hp p = ms_heap s p)"
proof (induction its arbitrary: s)
  case Nil
  then show ?case by (intro exI[of _ "ms_heap s"]) (simp add: menu_ptrs_def)
next
  case (Cons it its)
  let ?hp = "\<lambda>p. if p \<in> set (strings_of it) then None else ms_heap s p"
  let ?s = "s\<lparr>ms_heap := ?hp\<rparr>"
  have o: "owned (strings_of it @ menu_ptrs its @ us) (ms_heap s) (ms_next s)"
    using Cons.prems by (simp add: menu_ptrs_def)
  then have d: "\<forall>p\<in>set (menu_ptrs its @ us). p \<notin> set (strings_of it)" by (auto simp: owned_def)
  have "owned (menu_ptrs its @ us) (ms_heap ?s) (ms_next ?s)" using o d by (auto simp: owned_def)
  then obtain hp where hp: "free_items its ?s = Some (?s\<lparr>ms_heap := hp\<rparr>)" "owned us hp (ms_next s)"
      "\<forall>p. p \<notin> set (menu_ptrs its) \<longrightarrow> hp p = ms_heap ?s p"
    using Cons.IH[of ?s] by auto
  have f: "um_file it = 0 \<or> ms_heap s (um_file it) \<noteq> None" "um_title it = 0 \<or> ms_heap s (um_title it) \<noteq> None"
    using o by (auto simp: owned_def set_strings_of)
  have ne: "um_file it = um_title it \<Longrightarrow> um_file it = 0" using o by (auto simp: owned_def distinct_strings_of)
  have "free_items (it # its) s = free_items its ?s"
    by (rule free_slot[OF f ne]) simp_all
  then show ?case using hp by (intro exI[of _ hp]) (auto simp: menu_ptrs_def)
qed

lemma init_user_menu_wf:
  assumes "strings_wf s"
  shows "\<exists>s'. init_user_menu n s = Some s' \<and> strings_wf s' \<and> menu_view s' = replicate n (0, [], []) \<and> ms_sub s' = ms_sub s"
proof -
  obtain hp where "free_items (ms_items s) s = Some (s\<lparr>ms_heap := hp\<rparr>)" "owned [] hp (ms_next s)"
    using free_items_owned[of "ms_items s" "[]" s] assms by (auto simp: strings_wf_def)
  moreover have "menu_ptrs (replicate n \<lparr>um_var = 0, um_file = 0, um_title = 0\<rparr>) = []"
    by (induction n) (simp_all add: menu_ptrs_def strings_of_def)
  ultimately show ?thesis
    by (simp add: init_user_menu_def strings_wf_def menu_view_def slot_view_def name_at_def)
qed

lemma sint_of_nat_u32: "n < 2 ^ 31 \<Longrightarrow> sint (word_of_nat n :: u32) = int n"
  by (simp add: signed_of_nat signed_take_bit_int_eq_self)

text \<open>What was stored comes back; a table that is too small is replaced by one of the stored length.\<close>

lemma user_menu_load_store:
  assumes "strings_wf s" "\<forall>v\<in>set (menu_view s). slot_ok v" "length (ms_items s) < 2 ^ 31" "strings_wf s'"
    and "user_menu_store_data s = Some bs" "drop p buf = bs @ r"
  shows "\<exists>s''. user_menu_load_data buf p s' = Some (user_menu_saved_size s'', s'') \<and> strings_wf s'' \<and> ms_sub s'' = ms_sub s' \<and>
    menu_view s'' = (if length (ms_items s) \<le> length (ms_items s')
      then map2 over_slot (menu_view s') (menu_view s) @ drop (length (ms_items s)) (menu_view s')
      else menu_view s)"
proof -
  let ?n = "length (ms_items s)" and ?vs = "menu_view s"
  have bs: "bs = le32 (word_of_nat ?n) @ concat (map slot_bytes ?vs)"
    using user_menu_store_data_owned[OF assms(1)] assms(5) by simp
  have len: "length ?vs = ?n" by (simp add: menu_view_def)
  have rd: "rd_n 4 (drop p buf) = Some (le32 (word_of_nat ?n), drop 4 (drop p buf))"
    using assms(6) bs by (simp add: rd_n_def le32.enc_length)
  have d: "drop (p + 4) buf = concat (map slot_bytes ?vs) @ r"
    using arg_cong[OF assms(6), of "drop 4"] bs by (simp add: le32.enc_length add.commute)
  have n: "sint (of_le32 (le32 (word_of_nat ?n))) = int ?n" by (simp only: le32.dec_enc sint_of_nat_u32[OF assms(3)])
  define t where "t = (if length (ms_items s') < ?n then init_user_menu ?n s' else Some s')"
  obtain s1 where s1: "t = Some s1" "strings_wf s1" "ms_sub s1 = ms_sub s'" "?n \<le> length (ms_items s1)"
      "menu_view s1 = (if length (ms_items s') < ?n then replicate ?n (0, [], []) else menu_view s')"
  proof (cases "length (ms_items s') < ?n")
    case True
    then obtain x where x: "init_user_menu ?n s' = Some x" "strings_wf x" "menu_view x = replicate ?n (0, [], [])" "ms_sub x = ms_sub s'"
      using init_user_menu_wf[OF assms(4)] by blast
    have "length (ms_items x) = ?n" using arg_cong[OF x(3), of length] by (simp add: menu_view_def)
    then show ?thesis using that[of x] x True by (simp add: t_def)
  next
    case False
    then show ?thesis using that[of s'] assms(4) by (simp add: t_def)
  qed
  obtain s2 where s2: "load_items ?n buf (p + 4) 0 s1 = Some s2" "strings_wf s2" "ms_sub s2 = ms_sub s1"
      "menu_view s2 = map2 over_slot (menu_view s1) ?vs @ drop ?n (menu_view s1)"
    using load_items_view[OF s1(2), of 0 ?vs "p + 4" buf r] s1(4) d assms(2) len by auto
  have "map2 over_slot (replicate (length vs) (0, [], [])) vs = vs" for vs :: "slot list"
    by (induction vs) (auto simp: over_slot_def)
  from this[of ?vs] have view: "menu_view s2 = (if ?n \<le> length (ms_items s')
      then map2 over_slot (menu_view s') ?vs @ drop ?n (menu_view s') else ?vs)"
    unfolding s2(4) s1(5) by (simp add: len not_less)
  have "user_menu_load_data buf p s' = Some (user_menu_saved_size s2, s2)"
    using rd n s1(1) s2(1) unfolding t_def
    by (cases "length (ms_items s') < ?n") (simp_all add: user_menu_load_data_def Let_def)
  then show ?thesis using s2 s1(3) view by auto
qed

lemma user_menu_saved_size_store:
  assumes "strings_wf s" "\<forall>v\<in>set (menu_view s). slot_ok v" "user_menu_store_data s = Some bs"
  shows "length bs = user_menu_saved_size s"
proof -
  have "length (concat (map slot_bytes vs)) = length vs * 204" if "\<forall>v\<in>set vs. slot_ok v" for vs :: "slot list"
    using that by (induction vs) (simp_all add: length_slot_bytes)
  from this[OF assms(2)] show ?thesis
    using user_menu_store_data_owned[OF assms(1)] assms(3) by (simp add: user_menu_saved_size_def le32.enc_length menu_view_def)
qed

section \<open>Saving the rows and bringing them back\<close>

definition row_code :: "(nat \<Rightarrow> u8 list option) \<Rightarrow> CMenuItem \<Rightarrow> u32" where
  "row_code hp m =
     (if mi_text m = 0 then 0 else if is_script_row m then USER_MENU_IS_SCRIPT
      else if is_module_row m then USER_MENU_IS_MODULE else the (lang_strhash31 hp (mi_text m)))"

lemma row_ok_hash:
  "\<lbrakk>row_ok hp its it m; \<not> is_extern_row m\<rbrakk> \<Longrightarrow> lang_strhash31 hp (mi_text m) \<noteq> None"
  by (auto simp: row_ok_def lang_strhash31_def)

lemma save_row_code:
  assumes "menu_wf s" "x < 14"
  shows "save_row x s = Some (s\<lparr>ms_items := (ms_items s)[x := (ms_items s ! x)\<lparr>um_var := row_code (ms_heap s) (ms_sub s ! (x + 1))\<rparr>]\<rparr>)"
proof -
  let ?m = "ms_sub s ! (x + 1)" and ?it = "ms_items s ! x"
  note l = menu_wf_lengths[OF assms(1)]
  have zero: "mi_text ?m = 0 \<Longrightarrow> um_file ?it = 0 \<and> um_title ?it = 0"
    using assms by (simp add: menu_wf_def spare_wf_def)
  have "mi_text ?m \<noteq> 0 \<Longrightarrow> row_ok (ms_heap s) (ms_items s) ?it ?m"
    using assms by (simp add: menu_wf_def rows_wf_def)
  then have "mi_text ?m \<noteq> 0 \<and> \<not> is_script_row ?m \<and> \<not> is_module_row ?m \<longrightarrow> lang_strhash31 (ms_heap s) (mi_text ?m) \<noteq> None"
    using row_ok_hash[of "ms_heap s" "ms_items s" ?it ?m] by (simp add: is_extern_row_def)
  then obtain h where h: "mi_text ?m \<noteq> 0 \<and> \<not> is_script_row ?m \<and> \<not> is_module_row ?m \<longrightarrow>
      lang_strhash31 (ms_heap s) (mi_text ?m) = Some h"
    by blast
  have it0: "mi_text ?m = 0 \<Longrightarrow> \<lparr>um_var = 0, um_file = 0, um_title = 0\<rparr> = ?it\<lparr>um_var := 0\<rparr>"
    using zero by (cases ?it) simp
  show ?thesis
  proof (cases "mi_text ?m = 0")
    case True
    then have "save_row x s = Some (s\<lparr>ms_items := (ms_items s)[x := \<lparr>um_var = 0, um_file = 0, um_title = 0\<rparr>]\<rparr>)"
      using zero l assms(2) by (simp add: save_row_def rd_def)
    then show ?thesis unfolding it0[OF True] using True by (simp add: row_code_def)
  next
    case False
    then show ?thesis using l assms(2) h by (auto simp: save_row_def rd_def row_code_def)
  qed
qed

lemma var_same: "\<exists>v. it = it\<lparr>um_var := v\<rparr>" for it :: tUserMenuItem
  by (rule exI[of _ "um_var it"]) simp

lemma strings_of_var_list:
  "\<forall>x<length its. \<exists>v. its' ! x = (its ! x)\<lparr>um_var := v\<rparr> \<Longrightarrow> length its' = length its \<Longrightarrow> menu_ptrs its' = menu_ptrs its"
  unfolding menu_ptrs_def by (rule arg_cong[where f = concat]) (auto intro!: nth_equalityI)

lemma menu_wf_vars:
  assumes "menu_wf s" "length its = 14" "\<forall>x<14. \<exists>v. its ! x = (ms_items s ! x)\<lparr>um_var := v\<rparr>"
  shows "menu_wf (s\<lparr>ms_items := its\<rparr>)"
proof -
  have p: "menu_ptrs its = menu_ptrs (ms_items s)"
    using strings_of_var_list[of "ms_items s" its] assms menu_wf_lengths[OF assms(1)] by simp
  have f: "um_file (its ! x) = um_file (ms_items s ! x) \<and> um_title (its ! x) = um_title (ms_items s ! x)" if "x < 14" for x
    using assms(3) that by fastforce
  have "rows_wf (s\<lparr>ms_items := its\<rparr>)"
    unfolding rows_wf_def
  proof (intro allI impI)
    fix x assume x: "x < 14" "mi_text (ms_sub (s\<lparr>ms_items := its\<rparr>) ! (x + 1)) \<noteq> 0"
    then have "row_ok (ms_heap s) (ms_items s) (ms_items s ! x) (ms_sub s ! (x + 1))"
      using assms(1) by (simp add: menu_wf_def rows_wf_def)
    then show "row_ok (ms_heap (s\<lparr>ms_items := its\<rparr>)) (ms_items (s\<lparr>ms_items := its\<rparr>)) (ms_items (s\<lparr>ms_items := its\<rparr>) ! x) (ms_sub (s\<lparr>ms_items := its\<rparr>) ! (x + 1))"
      using row_ok_keep f[OF x(1)] p by simp
  qed
  then show ?thesis using assms(1,2) p f by (simp add: menu_wf_def strings_wf_def spare_wf_def)
qed

definition coded :: "menu_state \<Rightarrow> nat \<Rightarrow> tUserMenuItem list" where
  "coded s n = map (\<lambda>x. if x < n then (ms_items s ! x)\<lparr>um_var := row_code (ms_heap s) (ms_sub s ! (x + 1))\<rparr> else ms_items s ! x) [0..<14]"

lemma save_rows_coded:
  assumes "menu_wf s" "n \<le> 14"
  shows "save_rows [n..<14] (s\<lparr>ms_items := coded s n\<rparr>) = Some (s\<lparr>ms_items := coded s 14\<rparr>)"
  using assms(2)
proof (induction "14 - n" arbitrary: n)
  case 0
  then show ?case by simp
next
  case (Suc k)
  then have n: "n < 14" by simp
  let ?s = "s\<lparr>ms_items := coded s n\<rparr>"
  have "menu_wf ?s" by (rule menu_wf_vars[OF assms(1)]) (auto simp: coded_def intro: var_same)
  then have "save_row n ?s = Some (?s\<lparr>ms_items := (coded s n)[n := (coded s n ! n)\<lparr>um_var := row_code (ms_heap s) (ms_sub s ! (n + 1))\<rparr>]\<rparr>)"
    using save_row_code[of ?s n] n by simp
  moreover have "(coded s n)[n := (coded s n ! n)\<lparr>um_var := row_code (ms_heap s) (ms_sub s ! (n + 1))\<rparr>] = coded s (Suc n)"
    using n by (intro nth_equalityI) (auto simp: coded_def nth_list_update less_Suc_eq)
  ultimately have "save_row n ?s = Some (s\<lparr>ms_items := coded s (Suc n)\<rparr>)" by simp
  then show ?case using Suc.hyps(1)[of "Suc n"] Suc.hyps(2) n by (simp add: upt_conv_Cons)
qed

lemma user_menu_save_coded:
  assumes "menu_wf s"
  shows "user_menu_save s = Some (s\<lparr>ms_items := coded s 14\<rparr>)" and "menu_wf (s\<lparr>ms_items := coded s 14\<rparr>)"
proof -
  have "coded s 0 = ms_items s" using menu_wf_lengths[OF assms] by (intro nth_equalityI) (auto simp: coded_def)
  then show "user_menu_save s = Some (s\<lparr>ms_items := coded s 14\<rparr>)"
    using save_rows_coded[OF assms, of 0] by (simp add: user_menu_save_def)
  show "menu_wf (s\<lparr>ms_items := coded s 14\<rparr>)" by (rule menu_wf_vars[OF assms]) (auto simp: coded_def)
qed

text \<open>What a slot turns into when the rows are restored.\<close>

definition row_of_slot :: "CMenuItem list \<Rightarrow> (nat \<Rightarrow> u8 list option) \<Rightarrow> tUserMenuItem \<Rightarrow> CMenuItem option" where
  "row_of_slot root hp it =
     (if um_var it = USER_MENU_IS_SCRIPT then Some (script_row it)
      else if um_var it = USER_MENU_IS_MODULE then Some (module_row it)
      else if 0 < sint (um_var it) then find_menu_item hp root (um_var it) else None)"

lemma restore_rows_Cons:
  "restore_rows root (x # xs) s = (if x < length (ms_items s) \<and> x + 1 < length (ms_sub s) then
     (case row_of_slot root (ms_heap s) (ms_items s ! x) of
        Some m \<Rightarrow> restore_rows root xs (s\<lparr>ms_sub := (ms_sub s)[x + 1 := m]\<rparr>)
      | None \<Rightarrow> Some (s\<lparr>ms_sub := (ms_sub s)[x + 1 := set_mi_text 0 (ms_sub s ! (x + 1))]\<rparr>))
   else None)"
  by (auto simp: rd_def row_of_slot_def split: option.split)

declare restore_rows.simps(2) [simp del]

lemma find_menu_item_text: "find_menu_item hp ms i = Some m \<Longrightarrow> mi_text m \<noteq> 0"
  by (induction hp ms i rule: find_menu_item.induct) (auto split: if_splits option.splits)

fun whole_prefix :: "'a option list \<Rightarrow> 'a list" where
  "whole_prefix (Some x # xs) = x # whole_prefix xs"
| "whole_prefix _ = []"

lemma restore_rows_prefix:
  assumes "x \<le> 14" "length (ms_items s) = 14" "length (ms_sub s) = 16" "mi_text (ms_sub s ! 15) = 0"
    and "\<forall>j. 1 \<le> j \<and> j \<le> x \<longrightarrow> mi_text (ms_sub s ! j) \<noteq> 0"
    and "\<forall>it\<in>set (ms_items s). \<forall>m. row_of_slot root (ms_heap s) it = Some m \<longrightarrow> mi_text m \<noteq> 0"
  shows "\<exists>s'. restore_rows root [x..<14] s = Some s' \<and> ms_items s' = ms_items s \<and> ms_heap s' = ms_heap s \<and>
    menu_entries s' = take x (drop 1 (ms_sub s)) @ whole_prefix (map (row_of_slot root (ms_heap s)) (drop x (ms_items s)))"
  using assms
proof (induction "14 - x" arbitrary: x s)
  case 0
  then have "x = 14" by simp
  moreover have "menu_entries s = take 14 (drop 1 (ms_sub s))"
    by (rule menu_entries_eq) (use 0 \<open>x = 14\<close> in auto)
  ultimately show ?case using 0 by simp
next
  case (Suc k)
  then have x: "x < 14" by simp
  have dr: "drop x (ms_items s) = ms_items s ! x # drop (Suc x) (ms_items s)"
    using x Suc.prems(2) by (simp add: Cons_nth_drop_Suc)
  show ?case
  proof (cases "row_of_slot root (ms_heap s) (ms_items s ! x)")
    case None
    let ?s = "s\<lparr>ms_sub := (ms_sub s)[x + 1 := set_mi_text 0 (ms_sub s ! (x + 1))]\<rparr>"
    have "menu_entries ?s = take x (drop 1 (ms_sub ?s))"
      by (rule menu_entries_eq) (use Suc.prems x in auto)
    also have "\<dots> = take x (drop 1 (ms_sub s))" by (intro nth_equalityI) auto
    finally show ?thesis using None x Suc.prems dr by (simp add: upt_conv_Cons restore_rows_Cons)
  next
    case (Some m)
    let ?s = "s\<lparr>ms_sub := (ms_sub s)[x + 1 := m]\<rparr>"
    have m: "mi_text m \<noteq> 0" using Suc.prems(2,6) Some x by (metis nth_mem)
    have "\<exists>s'. restore_rows root [Suc x..<14] ?s = Some s' \<and> ms_items s' = ms_items ?s \<and> ms_heap s' = ms_heap ?s \<and>
      menu_entries s' = take (Suc x) (drop 1 (ms_sub ?s)) @ whole_prefix (map (row_of_slot root (ms_heap ?s)) (drop (Suc x) (ms_items ?s)))"
    proof (rule Suc.hyps(1))
      show "\<forall>j. 1 \<le> j \<and> j \<le> Suc x \<longrightarrow> mi_text (ms_sub ?s ! j) \<noteq> 0"
        using Suc.prems(3,5) m x by (auto simp: le_Suc_eq nth_list_update)
      show "mi_text (ms_sub ?s ! 15) = 0" using Suc.prems(4) x by simp
      show "\<forall>it\<in>set (ms_items ?s). \<forall>m. row_of_slot root (ms_heap ?s) it = Some m \<longrightarrow> mi_text m \<noteq> 0" using Suc.prems(6) by simp
    qed (use Suc x in auto)
    moreover have "take (Suc x) (drop 1 (ms_sub ?s)) = take x (drop 1 (ms_sub s)) @ [m]"
      using x Suc.prems(3) by (intro nth_equalityI) (auto simp: nth_append less_Suc_eq)
    moreover have "restore_rows root [x..<14] s = restore_rows root [Suc x..<14] ?s"
      using Some x Suc.prems(2,3) by (simp add: upt_conv_Cons restore_rows_Cons)
    ultimately show ?thesis using Some dr by simp
  qed
qed

text \<open>An entry after its way through the table.\<close>

definition survives :: "CMenuItem list \<Rightarrow> (nat \<Rightarrow> u8 list option) \<Rightarrow> CMenuItem \<Rightarrow> CMenuItem option" where
  "survives root hp m =
     (if is_extern_row m then Some m
      else if 0 < sint (row_code hp m) then find_menu_item hp root (row_code hp m) else None)"

lemma whole_prefix_append: "ys = [] \<or> hd ys = None \<Longrightarrow> whole_prefix (xs @ ys) = whole_prefix xs"
proof (induction xs)
  case Nil
  then show ?case by (cases ys; cases "hd ys") auto
next
  case (Cons x xs)
  then show ?case by (cases x) auto
qed

lemma whole_prefix_all: "\<forall>x\<in>set xs. f x = Some x \<Longrightarrow> whole_prefix (map f xs) = xs"
  by (induction xs) auto

definition marker_free :: "menu_state \<Rightarrow> bool" where
  "marker_free s \<longleftrightarrow> (\<forall>m\<in>set (menu_entries s). is_extern_row m \<or>
     row_code (ms_heap s) m \<noteq> USER_MENU_IS_SCRIPT \<and> row_code (ms_heap s) m \<noteq> USER_MENU_IS_MODULE)"

lemma row_of_coded:
  assumes "menu_wf s" "marker_free s" "x < 14"
  defines "m \<equiv> ms_sub s ! (x + 1)"
  shows "row_of_slot root (ms_heap s) (coded s 14 ! x) = (if mi_text m = 0 then None else survives root (ms_heap s) m)"
proof -
  let ?it = "ms_items s ! x"
  have c: "coded s 14 ! x = ?it\<lparr>um_var := row_code (ms_heap s) m\<rparr>" using assms(3) by (simp add: coded_def m_def)
  have rows: "script_row (?it\<lparr>um_var := v\<rparr>) = script_row ?it" "module_row (?it\<lparr>um_var := v\<rparr>) = module_row ?it" for v
    by (simp_all add: script_row_def module_row_def extern_row_def)
  show ?thesis
  proof (cases "mi_text m = 0")
    case True
    then show ?thesis by (simp add: c row_of_slot_def row_code_def)
  next
    case False
    have ok: "row_ok (ms_heap s) (ms_items s) ?it m" using assms False by (simp add: menu_wf_def rows_wf_def)
    have "x < length (menu_entries s)" using False entry_iff[OF assms(1,3)] by (simp add: m_def)
    then have "m \<in> set (menu_entries s)" using entry_nth[OF assms(1)] nth_mem by (fastforce simp: m_def)
    then have mf: "is_extern_row m \<or> row_code (ms_heap s) m \<noteq> - 1 \<and> row_code (ms_heap s) m \<noteq> - 2"
      using assms(2) by (simp add: marker_free_def)
    show ?thesis
    proof (cases "is_extern_row m")
      case True
      then have "m = script_row ?it \<or> m = module_row ?it" using ok by (simp add: row_ok_def)
      then show ?thesis
      proof
        assume m: "m = script_row ?it"
        then have "row_code (ms_heap s) m = - 1" using False by (simp add: row_code_def is_script_row_def script_row_def extern_row_def)
        then show ?thesis using True False m by (simp add: c row_of_slot_def survives_def rows)
      next
        assume m: "m = module_row ?it"
        then have "row_code (ms_heap s) m = - 2"
          using False by (simp add: row_code_def is_script_row_def is_module_row_def module_row_def extern_row_def)
        then show ?thesis using True False m by (simp add: c row_of_slot_def survives_def rows)
      qed
    next
      case False
      then show ?thesis using mf \<open>mi_text m \<noteq> 0\<close> by (simp add: c row_of_slot_def survives_def)
    qed
  qed
qed

lemma survives_text: "\<lbrakk>survives root hp m = Some m'; mi_text m \<noteq> 0\<rbrakk> \<Longrightarrow> mi_text m' \<noteq> 0"
  by (auto simp: survives_def split: if_splits dest: find_menu_item_text)

lemma save_restore_spec:
  assumes "menu_wf s" "marker_free s"
  shows "\<exists>s1 s2. user_menu_save s = Some s1 \<and> user_menu_restore root s1 = Some s2 \<and>
    menu_entries s2 = whole_prefix (map (survives root (ms_heap s)) (menu_entries s))"
proof -
  let ?s1 = "s\<lparr>ms_items := coded s 14\<rparr>" and ?n = "length (menu_entries s)"
  note e = menu_entries_nth[OF assms(1)] and l = menu_wf_lengths[OF assms(1)]
  have lc: "length (coded s 14) = 14" by (simp add: coded_def)
  have rows: "\<forall>it\<in>set (ms_items ?s1). \<forall>m. row_of_slot root (ms_heap ?s1) it = Some m \<longrightarrow> mi_text m \<noteq> 0"
  proof (intro ballI allI impI)
    fix it m assume "it \<in> set (ms_items ?s1)" "row_of_slot root (ms_heap ?s1) it = Some m"
    then obtain x where x: "x < 14" "row_of_slot root (ms_heap s) (coded s 14 ! x) = Some m" using lc by (auto simp: in_set_conv_nth)
    then show "mi_text m \<noteq> 0" using row_of_coded[OF assms x(1)] survives_text by (auto split: if_splits)
  qed
  have "\<exists>s2. restore_rows root [0..<14] ?s1 = Some s2 \<and> ms_items s2 = ms_items ?s1 \<and> ms_heap s2 = ms_heap ?s1 \<and>
      menu_entries s2 = take 0 (drop 1 (ms_sub ?s1)) @ whole_prefix (map (row_of_slot root (ms_heap ?s1)) (drop 0 (ms_items ?s1)))"
    by (rule restore_rows_prefix) (use rows lc l assms(1) in \<open>auto simp: menu_wf_def\<close>)
  moreover have "whole_prefix (map (row_of_slot root (ms_heap s)) (coded s 14)) = whole_prefix (map (survives root (ms_heap s)) (menu_entries s))"
  proof -
    let ?f = "row_of_slot root (ms_heap s)"
    have "take ?n (map ?f (coded s 14)) = map (survives root (ms_heap s)) (menu_entries s)"
    proof (rule nth_equalityI)
      fix i assume "i < length (take ?n (map ?f (coded s 14)))"
      then have i: "i < 14" "i < ?n" using lc by auto
      then show "take ?n (map ?f (coded s 14)) ! i = map (survives root (ms_heap s)) (menu_entries s) ! i"
        using lc row_of_coded[OF assms i(1)] entry_iff[OF assms(1) i(1)] entry_nth[OF assms(1) i(2)] by simp
    qed (use lc e(1) in simp)
    moreover have "drop ?n (map ?f (coded s 14)) = [] \<or> hd (drop ?n (map ?f (coded s 14))) = None"
      using lc e(1,3) row_of_coded[OF assms, of ?n] by (cases "?n = 14") (auto simp: hd_drop_conv_nth)
    ultimately show ?thesis using whole_prefix_append append_take_drop_id by metis
  qed
  ultimately show ?thesis using user_menu_save_coded[OF assms(1)] by (auto simp: user_menu_restore_def)
qed

end
