(* ===== verification/ConfStore.thy ===== *)
theory ConfStore
  imports UserMenuStore Card
begin

unbundle bit_operations_syntax

text \<open>
  The configuration store (\<open>core/conf.c\<close>, \<open>include/conf.h\<close>): the tables that describe the
  members of \<open>conf\<close>, their defaults, the files they are saved to and restored from, what has
  changed since, and the values scripts read and set. A member of \<open>conf\<close> is the bytes it
  occupies, addressed by its name; the card is that of theory \<open>Card\<close>.
\<close>

section \<open>Tables and store\<close>

abbreviation (input) CONF_MAGICK_VALUE :: u32 where "CONF_MAGICK_VALUE \<equiv> 0x33204741"

datatype conf_type =
  CONF_DEF_VALUE | CONF_FUNC_PTR | CONF_INT_PTR | CONF_CHAR_PTR | CONF_OSD_POS | CONF_STRUCT_PTR

text \<open>
  The union of a table entry: a 32 bit value (\<open>i\<close>, \<open>cl\<close>, \<open>pos\<close> and \<open>scale\<close> are four bytes each),
  what the memory holds from the address of a string literal on, or what the function returns.
\<close>

datatype conf_def = Def_word u32 | Def_ptr "u8 list" | Def_func u32

record ConfInfo =
  ci_id :: u16
  ci_size :: u8
  ci_type :: conf_type
  ci_var :: string
  ci_def :: conf_def
  last_saved :: u32

record confinfo_handler =
  h_start :: nat
  h_end :: nat
  h_ci :: "ConfInfo list"
  h_file :: string

type_synonym conf_mem = "string \<Rightarrow> u8 list"

text \<open>\<open>cs_menu\<close> is the member \<open>conf.user_menu_vars\<close>, which is saved through functions of its own.\<close>

record conf_state =
  cs_mem :: conf_mem
  cs_menu :: menu_state

text \<open>The function a table calls after an item has been set.\<close>

type_synonym info_func = "u16 \<Rightarrow> conf_state \<Rightarrow> conf_state"

definition no_info :: info_func where
  "no_info i s = s"

section \<open>Members of conf\<close>

definition peek :: "string \<Rightarrow> nat \<Rightarrow> conf_mem \<Rightarrow> u8 list option" where
  "peek v n m = (if n \<le> length (m v) then Some (take n (m v)) else None)"

definition poke :: "string \<Rightarrow> u8 list \<Rightarrow> conf_mem \<Rightarrow> conf_mem option" where
  "poke v bs m = (if length bs \<le> length (m v) then Some (m(v := bs @ drop (length bs) (m v))) else None)"

definition set_mem :: "string \<Rightarrow> u8 list \<Rightarrow> conf_state \<Rightarrow> conf_state option" where
  "set_mem v bs s = do { m \<leftarrow> poke v bs (cs_mem s); Some (s\<lparr>cs_mem := m\<rparr>) }"

definition le16 :: "u16 \<Rightarrow> u8 list" where
  "le16 v = [ucast v, ucast (drop_bit 8 v)]"

definition of_le16 :: "u8 list \<Rightarrow> u16" where
  "of_le16 bs = ucast (bs ! 0) OR push_bit 8 (ucast (bs ! 1))"

text \<open>The entries before the one with number 0 that ends a table.\<close>

definition conf_items :: "ConfInfo list \<Rightarrow> ConfInfo list" where
  "conf_items ci = takeWhile (\<lambda>c. 0 < ci_id c) ci"

section \<open>What has changed\<close>

definition memhash31 :: "u8 list \<Rightarrow> u32" where
  "memhash31 bs = foldl hash_step 0 bs"

text \<open>The value \<open>last_saved\<close> is compared with, when the type and the size have one.\<close>

definition scalar_stamp :: "ConfInfo \<Rightarrow> conf_mem \<Rightarrow> u32 option option" where
  "scalar_stamp c m =
     (if ci_size c = 4 then map_option (\<lambda>b. Some (of_le32 b)) (peek (ci_var c) 4 m)
      else if ci_size c = 2 then map_option (\<lambda>b. Some (scast (of_le16 b))) (peek (ci_var c) 2 m)
      else if ci_size c = 1 then map_option (\<lambda>b. Some (ucast (b ! 0))) (peek (ci_var c) 1 m)
      else Some None)"

definition item_stamp :: "ConfInfo \<Rightarrow> conf_mem \<Rightarrow> u32 option option" where
  "item_stamp c m = (case ci_type c of
       CONF_OSD_POS \<Rightarrow> scalar_stamp c m
     | CONF_DEF_VALUE \<Rightarrow> scalar_stamp c m
     | CONF_FUNC_PTR \<Rightarrow> scalar_stamp c m
     | CONF_INT_PTR \<Rightarrow> map_option (\<lambda>b. Some (memhash31 b)) (peek (ci_var c) (unat (ci_size c)) m)
     | CONF_CHAR_PTR \<Rightarrow> map_option (\<lambda>str. let h = memhash31 str in
         Some (if h < word_of_nat MAX_LANGID then h OR push_bit 31 1 else h)) (c_string (m (ci_var c)))
     | CONF_STRUCT_PTR \<Rightarrow> Some None)"

fun config_update_last_saved :: "ConfInfo list \<Rightarrow> conf_mem \<Rightarrow> ConfInfo list option" where
  "config_update_last_saved [] m = Some []"
| "config_update_last_saved (c # cs) m =
     (if ci_id c = 0 then Some (c # cs)
      else do {
        s \<leftarrow> item_stamp c m;
        cs \<leftarrow> config_update_last_saved cs m;
        Some ((case s of None \<Rightarrow> c | Some h \<Rightarrow> c\<lparr>last_saved := h\<rparr>) # cs)
      })"

fun config_has_changed :: "ConfInfo list \<Rightarrow> conf_mem \<Rightarrow> bool option" where
  "config_has_changed [] m = Some False"
| "config_has_changed (c # cs) m =
     (if ci_id c = 0 then Some False
      else do {
        s \<leftarrow> item_stamp c m;
        if s \<noteq> None \<and> s \<noteq> Some (last_saved c) then Some True else config_has_changed cs m
      })"

section \<open>Defaults\<close>

definition default_item :: "ConfInfo \<Rightarrow> conf_state \<Rightarrow> conf_state option" where
  "default_item c s = (case ci_type c of
       CONF_STRUCT_PTR \<Rightarrow> Some s
     | CONF_INT_PTR \<Rightarrow> set_mem (ci_var c) (replicate (unat (ci_size c)) 0) s
     | CONF_FUNC_PTR \<Rightarrow> (case ci_def c of Def_func v \<Rightarrow> set_mem (ci_var c) (le32 v) s | _ \<Rightarrow> None)
     | CONF_CHAR_PTR \<Rightarrow> (case ci_def c of
           Def_ptr bs \<Rightarrow> if unat (ci_size c) \<le> length bs then set_mem (ci_var c) (take (unat (ci_size c)) bs) s else None
         | _ \<Rightarrow> None)
     | _ \<Rightarrow> (case ci_def c of
           Def_word v \<Rightarrow> if ci_size c \<le> 4 then set_mem (ci_var c) (take (unat (ci_size c)) (le32 v)) s else None
         | _ \<Rightarrow> None))"

fun config_load_defaults :: "ConfInfo list \<Rightarrow> info_func \<Rightarrow> conf_state \<Rightarrow> conf_state option" where
  "config_load_defaults [] info s = Some s"
| "config_load_defaults (c # cs) info s =
     (if ci_id c = 0 then Some s
      else do { s \<leftarrow> default_item c s; config_load_defaults cs info (info (ci_id c) s) })"

section \<open>Saving\<close>

text \<open>
  A member of exactly \<open>CONF_STR_LEN\<close> bytes is taken for a string: what follows its terminator is
  cleared.
\<close>

definition item_bytes :: "ConfInfo \<Rightarrow> conf_state \<Rightarrow> u8 list option" where
  "item_bytes c s =
     (if ci_type c = CONF_STRUCT_PTR then user_menu_store_data (cs_menu s)
      else do {
        b \<leftarrow> peek (ci_var c) (unat (ci_size c)) (cs_mem s);
        if ci_size c = word_of_nat CONF_STR_LEN then do {
          str \<leftarrow> c_string (cs_mem s (ci_var c));
          Some (if length str < CONF_STR_LEN then str @ replicate (CONF_STR_LEN - length str) 0 else b)
        }
        else Some b
      })"

definition item_saved_size :: "ConfInfo \<Rightarrow> conf_state \<Rightarrow> nat" where
  "item_saved_size c s =
     (if ci_type c = CONF_STRUCT_PTR then user_menu_saved_size (cs_menu s) else unat (ci_size c))"

definition config_size :: "ConfInfo list \<Rightarrow> conf_state \<Rightarrow> nat" where
  "config_size ci s = 2 * 4 + length (conf_items ci) * 4 + (\<Sum>c\<leftarrow>conf_items ci. item_saved_size c s)"

fun save_items_bytes :: "ConfInfo list \<Rightarrow> conf_state \<Rightarrow> u8 list option" where
  "save_items_bytes [] s = Some []"
| "save_items_bytes (c # cs) s =
     (if ci_id c = 0 then Some []
      else do {
        b \<leftarrow> item_bytes c s;
        bs \<leftarrow> save_items_bytes cs s;
        Some (le16 (ci_id c) @ le16 (ucast (ci_size c)) @ b @ bs)
      })"

definition config_file :: "ConfInfo list \<Rightarrow> nat \<Rightarrow> conf_state \<Rightarrow> u8 list option" where
  "config_file ci base s = do {
     bs \<leftarrow> save_items_bytes ci s;
     Some (le32 CONF_MAGICK_VALUE @ le32 (word_of_nat base) @ bs)
   }"

definition config_save :: "'c card_ops \<Rightarrow> ConfInfo list \<Rightarrow> string \<Rightarrow> nat \<Rightarrow> conf_state \<Rightarrow> 'c \<Rightarrow> 'c option" where
  "config_save ops ci filename base s c =
     (case co_create ops c filename of (opened, c) \<Rightarrow>
        if opened then do { buf \<leftarrow> config_file ci base s; Some (snd (co_write ops c filename buf)) }
        else Some c)"

section \<open>Restoring\<close>

definition restore_item :: "info_func \<Rightarrow> ConfInfo \<Rightarrow> u8 list \<Rightarrow> nat \<Rightarrow> u16 \<Rightarrow> conf_state \<Rightarrow> (u16 \<times> conf_state) option" where
  "restore_item info c buf offs sz s =
     (if ci_type c = CONF_STRUCT_PTR then do {
        (n, menu) \<leftarrow> user_menu_load_data buf offs (cs_menu s);
        Some (word_of_nat n, info (ci_id c) (s\<lparr>cs_menu := menu\<rparr>))
      }
      else do {
        s \<leftarrow> set_mem (ci_var c) (take (unat sz) (drop offs buf)) s;
        Some (sz, info (ci_id c) s)
      })"

function restore_items :: "ConfInfo list \<Rightarrow> info_func \<Rightarrow> u8 list \<Rightarrow> nat \<Rightarrow> conf_state \<Rightarrow> conf_state option" where
  "restore_items ci info buf offs s =
     (if length buf < offs + 2 then Some s
      else if length buf < offs + 4 then Some s
      else
        let i = of_le16 (drop offs buf); sz = of_le16 (drop (offs + 2) buf); offs = offs + 4 in
        case find (\<lambda>c. ci_id c = i \<and> ucast (ci_size c) = sz) (conf_items ci) of
          None \<Rightarrow> restore_items ci info buf (offs + unat sz) s
        | Some c \<Rightarrow>
            if offs + unat sz \<le> length buf then
              (case restore_item info c buf offs sz s of
                 None \<Rightarrow> None
               | Some (sz, s) \<Rightarrow> restore_items ci info buf (offs + unat sz) s)
            else restore_items ci info buf (offs + unat sz) s)"
  by auto
termination
  by (relation "measure (\<lambda>(ci, info, buf, offs, s). length buf - offs)") auto

declare restore_items.simps [simp del]

definition config_restore :: "'c card_ops \<Rightarrow> ConfInfo list \<Rightarrow> string \<Rightarrow> info_func \<Rightarrow> 'c \<Rightarrow> conf_state \<Rightarrow> conf_state option" where
  "config_restore ops ci filename info c s =
     (case co_read ops c filename of
        None \<Rightarrow> Some s
      | Some [] \<Rightarrow> Some s
      | Some buf \<Rightarrow> do {
          (magic, r) \<leftarrow> rd_n 4 buf;
          if of_le32 magic = CONF_MAGICK_VALUE then restore_items ci info buf 8 s else Some s
        })"

section \<open>Values for scripts\<close>

definition findConfInfo :: "ConfInfo list \<Rightarrow> u16 \<Rightarrow> nat option" where
  "findConfInfo ci i = find (\<lambda>k. ci_id (ci ! k) = i) [0..<length (conf_items ci)]"

text \<open>What \<open>conf_getValue\<close> leaves in its result: the type it returns with the member it set.\<close>

datatype conf_val =
  Val_empty | Val_numb int | Val_ints "u8 list" | Val_str "u8 list" | Val_pos u16 u16

definition get_scalar :: "ConfInfo \<Rightarrow> conf_mem \<Rightarrow> conf_val option" where
  "get_scalar c m =
     (if ci_size c = 4 then map_option (\<lambda>b. Val_numb (sint (of_le32 b))) (peek (ci_var c) 4 m)
      else if ci_size c = 2 then map_option (\<lambda>b. Val_numb (sint (of_le16 b))) (peek (ci_var c) 2 m)
      else if ci_size c = 1 then map_option (\<lambda>b. Val_numb (uint (b ! 0))) (peek (ci_var c) 1 m)
      else Some Val_empty)"

definition getValue :: "ConfInfo list \<Rightarrow> u16 \<Rightarrow> conf_mem \<Rightarrow> conf_val option" where
  "getValue ci i m =
     (if i = 0 then Some (Val_numb (fold (\<lambda>c k. max k (uint (ci_id c))) (conf_items ci) 0))
      else case findConfInfo ci i of
        None \<Rightarrow> Some Val_empty
      | Some k \<Rightarrow> let c = ci ! k in (case ci_type c of
            CONF_DEF_VALUE \<Rightarrow> get_scalar c m
          | CONF_FUNC_PTR \<Rightarrow> get_scalar c m
          | CONF_INT_PTR \<Rightarrow> map_option Val_ints (peek (ci_var c) (unat (ci_size c) div 4 * 4) m)
          | CONF_CHAR_PTR \<Rightarrow> map_option Val_str (c_string (m (ci_var c)))
          | CONF_OSD_POS \<Rightarrow> map_option (\<lambda>b. Val_pos (of_le16 b) (of_le16 (drop 2 b))) (peek (ci_var c) 4 m)
          | CONF_STRUCT_PTR \<Rightarrow> Some Val_empty))"

text \<open>
  \<open>setValue\<close>: \<open>Val_numb\<close>, \<open>Val_ints\<close>, \<open>Val_str\<close> and \<open>Val_pos\<close> are the flags \<open>isNumb\<close>, \<open>isPInt\<close>,
  \<open>isStr\<close> and \<open>isPos\<close> with their values. The result is whether a type other than \<open>CONF_EMPTY\<close> is
  returned.
\<close>

definition set_item :: "ConfInfo \<Rightarrow> conf_val \<Rightarrow> conf_state \<Rightarrow> (bool \<times> conf_state) option" where
  "set_item c v s = (let kept = map_option (Pair True); no = Some (False, s); numb = (\<lambda>n.
       if ci_size c = 4 then kept (set_mem (ci_var c) (le32 (word_of_int n)) s)
       else if ci_size c = 2 then kept (set_mem (ci_var c) (le16 (word_of_int n)) s)
       else if ci_size c = 1 then kept (set_mem (ci_var c) [word_of_int n] s)
       else no) in
     case ci_type c of
       CONF_DEF_VALUE \<Rightarrow> (case v of Val_numb n \<Rightarrow> numb n | _ \<Rightarrow> no)
     | CONF_FUNC_PTR \<Rightarrow> (case v of Val_numb n \<Rightarrow> numb n | _ \<Rightarrow> no)
     | CONF_INT_PTR \<Rightarrow> (case v of Val_ints bs \<Rightarrow> kept (set_mem (ci_var c) (take (unat (ci_size c)) bs) s) | _ \<Rightarrow> no)
     | CONF_CHAR_PTR \<Rightarrow> (case v of
           Val_str str \<Rightarrow> if length str < CONF_STR_LEN then kept (set_mem (ci_var c) (str @ [0]) s) else Some (True, s)
         | _ \<Rightarrow> no)
     | CONF_OSD_POS \<Rightarrow> (case v of Val_pos x y \<Rightarrow> kept (set_mem (ci_var c) (le16 x @ le16 y) s) | _ \<Rightarrow> no)
     | CONF_STRUCT_PTR \<Rightarrow> no)"

text \<open>The autosave that ends a successful \<open>setValue\<close> is \<open>conf_save\<close> on the tables.\<close>

definition setValue :: "ConfInfo list \<Rightarrow> u16 \<Rightarrow> conf_val \<Rightarrow> info_func \<Rightarrow> conf_state \<Rightarrow> (bool \<times> conf_state) option" where
  "setValue ci i v info s =
     (if i = 999 then Some (False, s)
      else case findConfInfo ci i of
        None \<Rightarrow> Some (False, s)
      | Some k \<Rightarrow> do {
          (took, s) \<leftarrow> set_item (ci ! k) v s;
          Some (took, if took then info i s else s)
        })"

section \<open>Two bytes\<close>

lemma le16_bit: "\<not> bit (v::u8) (8 + n)" using bit_imp_le_length[of v] by fastforce

interpretation le16: codec le16 of_le16 2 "\<lambda>v. True"
proof
  show "of_le16 (le16 v) = v" for v
    by (rule bit_word_eqI) (auto simp: of_le16_def le16_def bit_simps)
  show "le16 (of_le16 bs) = bs" if len: "length bs = 2" for bs
  proof -
    obtain a b where bs: "bs = [a, b]" using len by (auto simp: length2)
    show ?thesis
      by (auto simp: bs of_le16_def le16_def le16_bit intro!: bit_word_eqI simp: bit_simps)
  qed
qed (simp_all add: le16_def)

section \<open>The file as a list of entries\<close>

type_synonym entry = "u16 \<times> u8 list"

text \<open>What a file holds: number and bytes of each entry, up to the first that is cut off.\<close>

function parse_entries :: "u8 list \<Rightarrow> entry list" where
  "parse_entries bs =
     (if length bs < 4 then []
      else let sz = unat (of_le16 (drop 2 bs)); r = drop 4 bs in
        if sz \<le> length r then (of_le16 bs, take sz r) # parse_entries (drop sz r) else [])"
  by auto
termination
  by (relation "measure length") auto

declare parse_entries.simps [simp del]

definition entry_bytes :: "entry \<Rightarrow> u8 list" where
  "entry_bytes e = le16 (fst e) @ le16 (word_of_nat (length (snd e))) @ snd e"

text \<open>One entry applied: to the item with that number and exactly that size, if there is one.\<close>

definition apply_entry :: "ConfInfo list \<Rightarrow> info_func \<Rightarrow> entry \<Rightarrow> conf_state \<Rightarrow> conf_state option" where
  "apply_entry ci info e s =
     (case find (\<lambda>c. ci_id c = fst e \<and> unat (ci_size c) = length (snd e)) (conf_items ci) of
        None \<Rightarrow> Some s
      | Some c \<Rightarrow> map_option (info (ci_id c)) (set_mem (ci_var c) (snd e) s))"

fun apply_entries :: "ConfInfo list \<Rightarrow> info_func \<Rightarrow> entry list \<Rightarrow> conf_state \<Rightarrow> conf_state option" where
  "apply_entries ci info [] s = Some s"
| "apply_entries ci info (e # es) s = do { s \<leftarrow> apply_entry ci info e s; apply_entries ci info es s }"

definition plain_table :: "ConfInfo list \<Rightarrow> bool" where
  "plain_table ci \<longleftrightarrow> (\<forall>c\<in>set (conf_items ci). ci_type c \<noteq> CONF_STRUCT_PTR)"

lemma of_le16_2: "2 \<le> length bs \<Longrightarrow> of_le16 (take 2 bs) = of_le16 bs"
  by (simp add: of_le16_def)

lemma of_le16_append: "of_le16 (le16 v @ bs) = v"
  using of_le16_2[of "le16 v @ bs"] by (simp add: le16.dec_enc le16.enc_length)

lemma parse_entries_entry:
  assumes "length (snd e) < 65536"
  shows "parse_entries (entry_bytes e @ bs) = e # parse_entries bs"
proof -
  have "unat (word_of_nat (length (snd e)) :: u16) = length (snd e)"
    using assms by (simp add: unsigned_of_nat take_bit_nat_eq_self_iff)
  then show ?thesis
    by (subst parse_entries.simps) (simp add: entry_bytes_def le16.enc_length of_le16_append Let_def)
qed

lemma parse_entries_concat:
  "\<forall>e\<in>set es. length (snd e) < 65536 \<Longrightarrow> parse_entries (concat (map entry_bytes es) @ bs) = es @ parse_entries bs"
  by (induction es) (simp_all add: parse_entries_entry)

lemma parse_entries_short: "length bs < 4 \<Longrightarrow> parse_entries bs = []"
  by (simp add: parse_entries.simps)

lemma ucast_size_iff: "ucast (ci_size c) = (sz :: u16) \<longleftrightarrow> unat (ci_size c) = unat sz"
proof -
  have "unat (ci_size c) < 2 ^ 16" using unsigned_less[of "ci_size c", where 'a = nat] by simp
  then have "unat (ucast (ci_size c) :: u16) = unat (ci_size c)"
    by (simp add: unsigned_ucast_eq take_bit_nat_eq_self)
  then show ?thesis by (metis unsigned_word_eqI)
qed

text \<open>The loop over the buffer does what applying the entries in order does.\<close>

lemma restore_items_parse:
  assumes "plain_table ci"
  shows "restore_items ci info buf offs s = apply_entries ci info (parse_entries (drop offs buf)) s"
proof (induction "length buf - offs" arbitrary: offs s rule: less_induct)
  case less
  let ?bs = "drop offs buf"
  let ?i = "of_le16 ?bs" and ?z = "of_le16 (drop (offs + 2) buf)"
  show ?case
  proof (cases "length buf < offs + 4")
    case True
    then show ?thesis by (subst restore_items.simps) (simp add: parse_entries_short)
  next
    case False
    have z: "of_le16 (drop 2 ?bs) = ?z" by (simp add: add.commute)
    let ?o = "offs + 4 + unat ?z"
    have IH: "restore_items ci info buf ?o s' = apply_entries ci info (parse_entries (drop ?o buf)) s'" for s'
      by (rule less) (use False in simp)
    have p: "parse_entries ?bs = (if ?o \<le> length buf then (?i, take (unat ?z) (drop (offs + 4) buf)) # parse_entries (drop ?o buf) else [])"
      using False by (subst parse_entries.simps) (auto simp: Let_def z add.commute add.left_commute)
    have cut: "length buf < ?o \<Longrightarrow> restore_items ci info buf ?o s' = Some s'" for s'
      by (subst restore_items.simps) simp
    show ?thesis
    proof (cases "?o \<le> length buf")
      case True
      let ?b = "take (unat ?z) (drop (offs + 4) buf)"
      have len: "length ?b = unat ?z" using True by simp
      have f: "find (\<lambda>c. ci_id c = ?i \<and> ucast (ci_size c) = ?z) (conf_items ci) =
          find (\<lambda>c. ci_id c = ?i \<and> unat (ci_size c) = length ?b) (conf_items ci)"
        by (simp only: ucast_size_iff len)
      have "restore_items ci info buf offs s = (case apply_entry ci info (?i, ?b) s of None \<Rightarrow> None | Some s' \<Rightarrow> restore_items ci info buf ?o s')"
      proof (cases "find (\<lambda>c. ci_id c = ?i \<and> unat (ci_size c) = length ?b) (conf_items ci)")
        case None
        then show ?thesis using False True f
          by (subst restore_items.simps) (simp add: apply_entry_def Let_def)
      next
        case (Some c)
        then have "c \<in> set (conf_items ci)" by (auto simp: find_Some_iff)
        then have "ci_type c \<noteq> CONF_STRUCT_PTR" using assms by (simp add: plain_table_def)
        then show ?thesis using Some False True f
          by (subst restore_items.simps)
            (auto simp: apply_entry_def Let_def restore_item_def split: option.split)
      qed
      then show ?thesis using True p IH by (auto split: option.split)
    next
      case o: False
      have "restore_items ci info buf offs s = restore_items ci info buf ?o s"
        using False o by (subst restore_items.simps) (auto simp: Let_def split: option.split)
      then show ?thesis using o p cut by simp
    qed
  qed
qed

section \<open>Well-formed tables and stores\<close>

text \<open>
  What the macros of the tables give: distinct numbers and distinct members; scalar sizes for
  values, \<open>sizeof(int)\<close> for functions and positions, \<open>CONF_STR_LEN\<close> for strings and for nothing
  else.
\<close>

definition item_ok :: "ConfInfo \<Rightarrow> bool" where
  "item_ok c \<longleftrightarrow> (case ci_type c of
       CONF_DEF_VALUE \<Rightarrow> ci_size c \<in> {1, 2, 4} \<and> (\<exists>v. ci_def c = Def_word v)
     | CONF_OSD_POS \<Rightarrow> ci_size c = 4 \<and> (\<exists>v. ci_def c = Def_word v)
     | CONF_FUNC_PTR \<Rightarrow> ci_size c = 4 \<and> (\<exists>v. ci_def c = Def_func v)
     | CONF_INT_PTR \<Rightarrow> ci_size c \<noteq> 100
     | CONF_CHAR_PTR \<Rightarrow> ci_size c = 100 \<and> (\<exists>bs. ci_def c = Def_ptr bs \<and> 100 \<le> length bs \<and> 0 \<in> set (take 100 bs))
     | CONF_STRUCT_PTR \<Rightarrow> True)"

definition table_ok :: "ConfInfo list \<Rightarrow> bool" where
  "table_ok ci \<longleftrightarrow> distinct (map ci_id (conf_items ci)) \<and> distinct (map ci_var (conf_items ci)) \<and>
     (\<forall>c\<in>set (conf_items ci). item_ok c)"

text \<open>Every member has its size; strings are terminated.\<close>

definition sizes_ok :: "ConfInfo list \<Rightarrow> conf_mem \<Rightarrow> bool" where
  "sizes_ok ci m \<longleftrightarrow> (\<forall>c\<in>set (conf_items ci). ci_type c \<noteq> CONF_STRUCT_PTR \<longrightarrow> length (m (ci_var c)) = unat (ci_size c))"

definition strings_ok :: "ConfInfo list \<Rightarrow> conf_mem \<Rightarrow> bool" where
  "strings_ok ci m \<longleftrightarrow> (\<forall>c\<in>set (conf_items ci). ci_type c = CONF_CHAR_PTR \<longrightarrow> 0 \<in> set (m (ci_var c)))"

lemma conf_items_simps [simp]:
  "conf_items [] = []" "conf_items (c # cs) = (if ci_id c = 0 then [] else c # conf_items cs)"
  by (simp_all add: conf_items_def word_greater_zero_iff)

lemma conf_items_idem [simp]: "conf_items (conf_items ci) = conf_items ci"
  by (simp add: conf_items_def)

text \<open>The loops over a table are loops over its items.\<close>

lemma save_items_bytes_items: "save_items_bytes ci s = save_items_bytes (conf_items ci) s"
  by (induction ci) simp_all

lemma config_load_defaults_items: "config_load_defaults ci info s = config_load_defaults (conf_items ci) info s"
  by (induction ci arbitrary: s) simp_all

lemma config_has_changed_items: "config_has_changed ci m = config_has_changed (conf_items ci) m"
  by (induction ci) (simp_all split: bind_splits)

lemma conf_items_nonzero: "c \<in> set (conf_items ci) \<Longrightarrow> ci_id c \<noteq> 0"
  by (auto simp: conf_items_def dest: set_takeWhileD)

section \<open>Restoring is safe\<close>

lemma set_mem_exact:
  "length bs = length (cs_mem s v) \<Longrightarrow> set_mem v bs s = Some (s\<lparr>cs_mem := (cs_mem s)(v := bs)\<rparr>)"
  by (simp add: set_mem_def poke_def)

text \<open>What the functions of a table must leave alone for its files to be read safely.\<close>

definition info_keeps :: "ConfInfo list \<Rightarrow> info_func \<Rightarrow> bool" where
  "info_keeps ci info \<longleftrightarrow> (\<forall>i s. sizes_ok ci (cs_mem s) \<longrightarrow> sizes_ok ci (cs_mem (info i s)))"

lemma find_item:
  "find P (conf_items ci) = Some c \<Longrightarrow> c \<in> set (conf_items ci) \<and> P c"
  by (auto simp: find_Some_iff)

lemma sizes_ok_update:
  assumes "sizes_ok ci m" "length bs = length (m v)"
  shows "sizes_ok ci (m(v := bs))"
  using assms by (auto simp: sizes_ok_def)

lemma apply_entry_safe:
  assumes "plain_table ci" "info_keeps ci info" "sizes_ok ci (cs_mem s)"
  shows "\<exists>s'. apply_entry ci info e s = Some s' \<and> sizes_ok ci (cs_mem s')"
proof (cases "find (\<lambda>c. ci_id c = fst e \<and> unat (ci_size c) = length (snd e)) (conf_items ci)")
  case None
  then show ?thesis using assms(3) by (simp add: apply_entry_def)
next
  case (Some c)
  then have c: "c \<in> set (conf_items ci)" "unat (ci_size c) = length (snd e)" by (auto dest: find_item)
  then have "length (snd e) = length (cs_mem s (ci_var c))"
    using assms(1,3) by (simp add: sizes_ok_def plain_table_def)
  then show ?thesis
    using Some assms(2,3) sizes_ok_update[OF assms(3)] by (auto simp: apply_entry_def set_mem_exact info_keeps_def)
qed

lemma apply_entries_safe:
  assumes "plain_table ci" "info_keeps ci info" "sizes_ok ci (cs_mem s)"
  shows "\<exists>s'. apply_entries ci info es s = Some s' \<and> sizes_ok ci (cs_mem s')"
  using assms(3)
proof (induction es arbitrary: s)
  case (Cons e es)
  then obtain s1 where "apply_entry ci info e s = Some s1" "sizes_ok ci (cs_mem s1)"
    using apply_entry_safe[OF assms(1,2)] by blast
  then show ?case using Cons.IH by simp
qed simp

text \<open>Without a function of the table, nothing but its members changes.\<close>

lemma apply_entries_frame:
  "\<lbrakk>apply_entries ci no_info es s = Some s'; v \<notin> ci_var ` set (conf_items ci)\<rbrakk> \<Longrightarrow>
   cs_mem s' v = cs_mem s v \<and> cs_menu s' = cs_menu s"
proof (induction es arbitrary: s)
  case (Cons e es)
  then obtain s1 where s1: "apply_entry ci no_info e s = Some s1" "apply_entries ci no_info es s1 = Some s'"
    by (auto simp: bind_eq_Some_conv)
  have "cs_mem s1 v = cs_mem s v \<and> cs_menu s1 = cs_menu s"
    using s1(1) Cons.prems(2)
    by (auto simp: apply_entry_def set_mem_def poke_def no_info_def bind_eq_Some_conv split: option.splits if_splits dest!: find_item)
  then show ?case using Cons.IH[OF s1(2) Cons.prems(2)] by simp
qed simp

text \<open>Whatever the file holds, when it has its magic word: the members take its entries, within their sizes.\<close>

lemma config_restore_any:
  assumes "plain_table ci" "info_keeps ci info" "sizes_ok ci (cs_mem s)" "co_read ops c fn = Some bs" "4 \<le> length bs"
  shows "\<exists>s'. config_restore ops ci fn info c s = Some s' \<and> sizes_ok ci (cs_mem s') \<and>
    (if of_le32 (take 4 bs) = CONF_MAGICK_VALUE then apply_entries ci info (parse_entries (drop 8 bs)) s = Some s' else s' = s)"
proof -
  obtain b0 r0 where ne: "bs = b0 # r0" using assms(5) by (cases bs) auto
  have "rd_n 4 bs = Some (take 4 bs, drop 4 bs)" using assms(5) by (simp add: rd_n_def)
  then have "config_restore ops ci fn info c s =
      (if of_le32 (take 4 bs) = CONF_MAGICK_VALUE then restore_items ci info bs 8 s else Some s)"
    using assms(4) ne by (simp add: config_restore_def)
  then show ?thesis
    using restore_items_parse[OF assms(1)] apply_entries_safe[OF assms(1-3), of "parse_entries (drop 8 bs)"] assms(3) by auto
qed

section \<open>Saving and restoring\<close>

text \<open>What is saved of a member: a string without what follows its terminator.\<close>

definition saved_bytes :: "ConfInfo \<Rightarrow> conf_mem \<Rightarrow> u8 list" where
  "saved_bytes c m = (let b = m (ci_var c) in
     if ci_type c = CONF_CHAR_PTR then takeWhile (\<lambda>x. x \<noteq> 0) b @ replicate (length b - length (takeWhile (\<lambda>x. x \<noteq> 0) b)) 0 else b)"

lemma takeWhile_shorter: "0 \<in> set b \<Longrightarrow> length (takeWhile (\<lambda>x. x \<noteq> (0::u8)) b) < length b"
  by (induction b) auto

lemma length_saved_bytes: "length (saved_bytes c m) = length (m (ci_var c))"
  using length_takeWhile_le[of "\<lambda>x. x \<noteq> 0" "m (ci_var c)"] by (simp add: saved_bytes_def Let_def)

lemma item_bytes_saved:
  assumes "c \<in> set (conf_items ci)" "table_ok ci" "plain_table ci" "sizes_ok ci (cs_mem s)" "strings_ok ci (cs_mem s)"
  shows "item_bytes c s = Some (saved_bytes c (cs_mem s))"
proof -
  let ?b = "cs_mem s (ci_var c)"
  have t: "ci_type c \<noteq> CONF_STRUCT_PTR" using assms(1,3) by (simp add: plain_table_def)
  have l: "length ?b = unat (ci_size c)" using assms(1,4) t by (simp add: sizes_ok_def)
  have ok: "item_ok c" using assms(1,2) by (simp add: table_ok_def)
  have "ci_size c = 100 \<longleftrightarrow> ci_type c = CONF_CHAR_PTR"
    using ok t by (auto simp: item_ok_def split: conf_type.splits)
  moreover have "ci_type c = CONF_CHAR_PTR \<Longrightarrow> length (takeWhile (\<lambda>x. x \<noteq> 0) ?b) < length ?b"
    using takeWhile_shorter assms(1,5) by (simp add: strings_ok_def)
  ultimately show ?thesis
    using l t by (auto simp: item_bytes_def peek_def saved_bytes_def Let_def c_string_def)
qed

definition saved_entry :: "conf_mem \<Rightarrow> ConfInfo \<Rightarrow> entry" where
  "saved_entry m c = (ci_id c, saved_bytes c m)"

lemma save_items_entries:
  assumes "table_ok ci" "plain_table ci" "sizes_ok ci (cs_mem s)" "strings_ok ci (cs_mem s)"
  shows "save_items_bytes ci s = Some (concat (map (entry_bytes \<circ> saved_entry (cs_mem s)) (conf_items ci)))"
proof -
  have "save_items_bytes cs s = Some (concat (map (entry_bytes \<circ> saved_entry (cs_mem s)) cs))" if "set cs \<subseteq> set (conf_items ci)" for cs
    using that
  proof (induction cs)
    case (Cons c cs)
    have c: "c \<in> set (conf_items ci)" using Cons.prems by simp
    have "length (saved_bytes c (cs_mem s)) = unat (ci_size c)"
      using c assms(2,3) by (simp add: length_saved_bytes sizes_ok_def plain_table_def)
    then have "word_of_nat (length (saved_bytes c (cs_mem s))) = (ucast (ci_size c) :: u16)"
      by (simp only: of_nat_unat)
    then show ?case
      using Cons item_bytes_saved[OF c assms] conf_items_nonzero[OF c] by (simp add: entry_bytes_def saved_entry_def)
  qed simp
  then show ?thesis by (subst save_items_bytes_items) simp
qed

lemma apply_entry_item:
  assumes "table_ok ci" "c \<in> set (conf_items ci)" "length bs = unat (ci_size c)" "length (cs_mem s (ci_var c)) = unat (ci_size c)"
  shows "apply_entry ci info (ci_id c, bs) s = Some (info (ci_id c) (s\<lparr>cs_mem := (cs_mem s)(ci_var c := bs)\<rparr>))"
proof -
  let ?P = "\<lambda>d. ci_id d = ci_id c \<and> unat (ci_size d) = length bs"
  have "find ?P (conf_items ci) = Some c"
  proof (cases "find ?P (conf_items ci)")
    case None
    then show ?thesis using assms(2,3) by (auto simp: find_None_iff)
  next
    case (Some d)
    then have "d \<in> set (conf_items ci)" "ci_id d = ci_id c" by (auto dest: find_item)
    then have "d = c" using assms(1,2) by (auto simp: table_ok_def distinct_map inj_on_def)
    then show ?thesis using Some by simp
  qed
  then show ?thesis using assms(3,4) by (simp add: apply_entry_def set_mem_exact)
qed

text \<open>The memory after every saved item has been put back, with the function of the table after each.\<close>

fun replay :: "info_func \<Rightarrow> conf_mem \<Rightarrow> ConfInfo list \<Rightarrow> conf_state \<Rightarrow> conf_state" where
  "replay info m [] s = s"
| "replay info m (c # cs) s =
     replay info m cs (info (ci_id c) (s\<lparr>cs_mem := (cs_mem s)(ci_var c := saved_bytes c m)\<rparr>))"

lemma apply_saved_entries:
  assumes "table_ok ci" "plain_table ci" "info_keeps ci info" "sizes_ok ci m" "sizes_ok ci (cs_mem s)"
    and "set cs \<subseteq> set (conf_items ci)"
  shows "apply_entries ci info (map (saved_entry m) cs) s = Some (replay info m cs s)"
  using assms(5,6)
proof (induction cs arbitrary: s)
  case (Cons c cs)
  have c: "c \<in> set (conf_items ci)" using Cons.prems by simp
  have l: "length (saved_bytes c m) = unat (ci_size c)"
    using c assms(2,4) by (simp add: length_saved_bytes sizes_ok_def plain_table_def)
  have e: "length (saved_bytes c m) = length (cs_mem s (ci_var c))"
    using c l Cons.prems(1) assms(2) by (simp add: sizes_ok_def plain_table_def)
  have "apply_entry ci info (saved_entry m c) s =
      Some (info (ci_id c) (s\<lparr>cs_mem := (cs_mem s)(ci_var c := saved_bytes c m)\<rparr>))"
    unfolding saved_entry_def by (rule apply_entry_item[OF assms(1) c l]) (use l e in simp)
  moreover have "sizes_ok ci (cs_mem (info (ci_id c) (s\<lparr>cs_mem := (cs_mem s)(ci_var c := saved_bytes c m)\<rparr>)))"
    using assms(3) sizes_ok_update[OF Cons.prems(1) e] by (simp add: info_keeps_def)
  ultimately show ?case using Cons by simp
qed simp

lemma replay_no_info:
  assumes "distinct (map ci_var cs)"
  shows "cs_menu (replay no_info m cs s) = cs_menu s"
    and "c \<in> set cs \<Longrightarrow> cs_mem (replay no_info m cs s) (ci_var c) = saved_bytes c m"
    and "v \<notin> ci_var ` set cs \<Longrightarrow> cs_mem (replay no_info m cs s) v = cs_mem s v"
proof -
  show "cs_menu (replay no_info m cs s) = cs_menu s" by (induction cs arbitrary: s) (simp_all add: no_info_def)
  have other: "v \<notin> ci_var ` set ds \<Longrightarrow> cs_mem (replay no_info m ds s) v = cs_mem s v" for ds v s
    by (induction ds arbitrary: s) (simp_all add: no_info_def)
  then show "v \<notin> ci_var ` set cs \<Longrightarrow> cs_mem (replay no_info m cs s) v = cs_mem s v" .
  show "c \<in> set cs \<Longrightarrow> cs_mem (replay no_info m cs s) (ci_var c) = saved_bytes c m"
    using assms
  proof (induction cs arbitrary: s)
    case (Cons d ds)
    then show ?case using other[of "ci_var c" ds] by (cases "c = d") (auto simp: no_info_def[abs_def])
  qed simp
qed

lemma config_restore_file:
  assumes "plain_table ci" "co_read ops c fn = Some (le32 CONF_MAGICK_VALUE @ le32 x @ bs)"
  shows "config_restore ops ci fn info c s = apply_entries ci info (parse_entries bs) s"
proof -
  obtain b0 r0 where ne: "le32 CONF_MAGICK_VALUE @ le32 x @ bs = b0 # r0" by (simp add: le32_def)
  have "config_restore ops ci fn info c s = restore_items ci info (b0 # r0) 8 s"
    using ne rd_n_append[of "le32 CONF_MAGICK_VALUE" 4 "le32 x @ bs"]
    by (simp add: config_restore_def assms(2) le32.enc_length le32.dec_enc)
  also have "\<dots> = apply_entries ci info (parse_entries (drop 8 (b0 # r0))) s" by (rule restore_items_parse[OF assms(1)])
  also have "drop 8 (b0 # r0) = bs" by (simp add: le32.enc_length flip: ne)
  finally show ?thesis .
qed

lemma config_file_entries:
  assumes "table_ok ci" "plain_table ci" "sizes_ok ci (cs_mem s)" "strings_ok ci (cs_mem s)"
  shows "config_file ci base s = Some (le32 CONF_MAGICK_VALUE @ le32 (word_of_nat base) @
     concat (map entry_bytes (map (saved_entry (cs_mem s)) (conf_items ci))))"
  using save_items_entries[OF assms] by (simp add: config_file_def)

lemma saved_entry_size:
  assumes "plain_table ci" "sizes_ok ci m" "e \<in> set (map (saved_entry m) (conf_items ci))"
  shows "length (snd e) < 256"
proof -
  obtain c where c: "c \<in> set (conf_items ci)" "e = saved_entry m c" using assms(3) by auto
  then have "length (snd e) = unat (ci_size c)"
    using assms(1,2) by (simp add: saved_entry_def length_saved_bytes sizes_ok_def plain_table_def)
  then show ?thesis using unsigned_less[of "ci_size c", where 'a = nat] by simp
qed

lemma config_restore_saved:
  assumes "table_ok ci" "plain_table ci" "sizes_ok ci (cs_mem s)" "strings_ok ci (cs_mem s)"
    and "info_keeps ci info" "sizes_ok ci (cs_mem t)" "config_file ci base s = Some bs" "co_read ops c fn = Some bs"
  shows "config_restore ops ci fn info c t = Some (replay info (cs_mem s) (conf_items ci) t)"
proof -
  let ?es = "map (saved_entry (cs_mem s)) (conf_items ci)"
  have "\<forall>e\<in>set ?es. length (snd e) < 65536" using saved_entry_size[OF assms(2,3)] by fastforce
  then have "parse_entries (concat (map entry_bytes ?es) @ []) = ?es @ parse_entries []" by (rule parse_entries_concat)
  then have "parse_entries (concat (map entry_bytes ?es)) = ?es" by (simp add: parse_entries_short)
  moreover have "co_read ops c fn = Some (le32 CONF_MAGICK_VALUE @ le32 (word_of_nat base) @ concat (map entry_bytes ?es))"
    using assms(7,8) config_file_entries[OF assms(1-4)] by simp
  ultimately show ?thesis
    using config_restore_file[OF assms(2), of ops c fn "word_of_nat base" "concat (map entry_bytes ?es)" info t]
      apply_saved_entries[OF assms(1,2,5,3,6) order_refl] by simp
qed

lemma sum_list_length: "length (concat (map f xs)) = (\<Sum>x\<leftarrow>xs. length (f x))"
  by (simp add: length_concat comp_def)

text \<open>The file has the size that was computed for its buffer.\<close>

lemma config_file_size:
  assumes "table_ok ci" "plain_table ci" "sizes_ok ci (cs_mem s)" "strings_ok ci (cs_mem s)" "config_file ci base s = Some bs"
  shows "length bs = config_size ci s"
proof -
  have "length (concat (map entry_bytes (map (saved_entry (cs_mem s)) cs))) = length cs * 4 + (\<Sum>c\<leftarrow>cs. item_saved_size c s)"
    if "set cs \<subseteq> set (conf_items ci)" for cs
    using that
  proof (induction cs)
    case (Cons c cs)
    then have "ci_type c \<noteq> CONF_STRUCT_PTR" "length (cs_mem s (ci_var c)) = unat (ci_size c)"
      using assms(2,3) by (auto simp: plain_table_def sizes_ok_def)
    then show ?case using Cons
      by (simp add: entry_bytes_def saved_entry_def le16.enc_length length_saved_bytes item_saved_size_def)
  qed simp
  then show ?thesis using config_file_entries[OF assms(1-4)] assms(5)
    by (auto simp: config_size_def le32.enc_length)
qed

text \<open>A file that was cut off: the entries that are whole are the first ones.\<close>

lemma parse_entries_take: "\<exists>k. parse_entries (take n bs) = take k (parse_entries bs)"
proof (induction bs arbitrary: n rule: parse_entries.induct)
  case (1 bs)
  let ?z = "unat (of_le16 (drop 2 bs))"
  show ?case
  proof (cases "length (take n bs) < 4")
    case True
    then show ?thesis by (intro exI[of _ 0]) (simp add: parse_entries_short)
  next
    case False
    then have n: "4 \<le> n" "4 \<le> length bs" by auto
    have i: "of_le16 (take n bs) = of_le16 bs" "of_le16 (drop 2 (take n bs)) = of_le16 (drop 2 bs)"
      using n by (simp_all add: of_le16_def)
    show ?thesis
    proof (cases "?z \<le> length (drop 4 (take n bs))")
      case fits: True
      then have z: "?z \<le> length (drop 4 bs)" and z4: "?z \<le> n - 4" using n by simp_all
      obtain k where k: "parse_entries (take (n - 4 - ?z) (drop ?z (drop 4 bs))) = take k (parse_entries (drop ?z (drop 4 bs)))"
        using 1[OF _ refl refl z, of "n - 4 - ?z"] n(2) by auto
      have "parse_entries (take n bs) = (of_le16 bs, take ?z (drop 4 (take n bs))) # parse_entries (drop ?z (drop 4 (take n bs)))"
        using False fits i by (subst parse_entries.simps) (simp add: Let_def)
      also have "drop ?z (drop 4 (take n bs)) = take (n - 4 - ?z) (drop ?z (drop 4 bs))"
        by (simp add: drop_take)
      also have "take ?z (drop 4 (take n bs)) = take ?z (drop 4 bs)" using z4 by (simp add: drop_take)
      finally have "parse_entries (take n bs) = take (Suc k) (parse_entries bs)"
        using n z k by (subst (2) parse_entries.simps) (simp add: Let_def)
      then show ?thesis by blast
    next
      case cut: False
      then have "parse_entries (take n bs) = []"
        using False i by (subst parse_entries.simps) (simp add: Let_def)
      then show ?thesis by (intro exI[of _ 0]) simp
    qed
  qed
qed

section \<open>Noticing changes\<close>

lemma update_last_saved_items:
  "config_update_last_saved ci m = Some ci' \<Longrightarrow>
   map ci_id (conf_items ci') = map ci_id (conf_items ci) \<and> map ci_var (conf_items ci') = map ci_var (conf_items ci) \<and>
   map ci_type (conf_items ci') = map ci_type (conf_items ci) \<and> map ci_size (conf_items ci') = map ci_size (conf_items ci) \<and>
   map ci_def (conf_items ci') = map ci_def (conf_items ci)"
proof (induction ci arbitrary: ci')
  case (Cons c cs)
  then show ?case by (auto simp: bind_eq_Some_conv split: if_splits option.splits)
qed auto

lemma item_stamp_last_saved [simp]: "item_stamp (c\<lparr>last_saved := h\<rparr>) m = item_stamp c m"
  by (simp add: item_stamp_def scalar_stamp_def split: conf_type.split)

text \<open>After saving, the table reports a change exactly when the stamp of an item is another one.\<close>

lemma has_changed_after_update:
  assumes "config_update_last_saved ci m = Some ci'" "\<forall>c\<in>set (conf_items ci). item_stamp c m' \<noteq> None"
  shows "config_has_changed ci' m' = Some (\<exists>c\<in>set (conf_items ci). item_stamp c m' \<noteq> item_stamp c m)"
  using assms
proof (induction ci arbitrary: ci')
  case (Cons c cs)
  show ?case
  proof (cases "ci_id c = 0")
    case False
    then obtain st cs' where st: "item_stamp c m = Some st" "config_update_last_saved cs m = Some cs'"
        "ci' = (case st of None \<Rightarrow> c | Some h \<Rightarrow> c\<lparr>last_saved := h\<rparr>) # cs'"
      using Cons.prems(1) by (auto simp: bind_eq_Some_conv)
    obtain st' where st': "item_stamp c m' = Some st'" using Cons.prems(2) False by auto
    have IH: "config_has_changed cs' m' = Some (\<exists>c\<in>set (conf_items cs). item_stamp c m' \<noteq> item_stamp c m)"
      using Cons.IH[OF st(2)] Cons.prems(2) False by simp
    have kind: "st = None \<longleftrightarrow> st' = None"
      using st(1) st' by (auto simp: item_stamp_def scalar_stamp_def Let_def split: conf_type.splits if_splits)
    show ?thesis
    proof (cases st)
      case None
      then show ?thesis using st st' IH False kind by simp
    next
      case (Some h)
      then show ?thesis using st st' IH False kind by auto
    qed
  next
    case True
    then have "ci' = c # cs" using Cons.prems(1) by simp
    then show ?thesis using True by simp
  qed
qed simp

lemma has_changed_just_saved:
  assumes "config_update_last_saved ci m = Some ci'"
  shows "config_has_changed ci' m = Some False"
proof -
  have "\<forall>c\<in>set (conf_items ci). item_stamp c m \<noteq> None"
    using assms by (induction ci arbitrary: ci') (auto simp: bind_eq_Some_conv split: if_splits)
  then show ?thesis using has_changed_after_update[OF assms] by simp
qed

subsection \<open>What the hash of an array sees\<close>

text \<open>A difference of the input travels through the hash by itself, and may fall out at the top.\<close>

definition hash_shift :: "u32 \<Rightarrow> u32" where
  "hash_shift d = push_bit 6 d XOR drop_bit 25 d"

lemma hash_step_xor: "hash_step (h XOR d) b = hash_step h b XOR hash_shift d"
  by (rule bit_word_eqI) (auto simp: hash_step_def hash_shift_def bit_simps)

lemma foldl_hash_xor: "foldl hash_step (h XOR d) bs = foldl hash_step h bs XOR (hash_shift ^^ length bs) d"
  by (induction bs arbitrary: h d) (simp_all add: hash_step_xor funpow_swap1)

lemma hash_shift_0: "(hash_shift ^^ n) 0 = 0"
  by (induction n) (simp_all add: hash_shift_def)

lemma hash_shift_gone:
  assumes "d \<in> {0x02, 0x80, 0x82}" "6 \<le> n"
  shows "(hash_shift ^^ n) d = 0"
proof -
  have "\<forall>d\<in>{0x02, 0x80, 0x82}. (hash_shift ^^ 6) d = 0"
    by code_simp
  then have "(hash_shift ^^ 6) d = 0" using assms(1) by blast
  moreover have "(hash_shift ^^ n) d = (hash_shift ^^ (n - 6)) ((hash_shift ^^ 6) d)"
    using assms(2) by (metis comp_apply funpow_add le_add_diff_inverse2)
  ultimately show ?thesis by (simp add: hash_shift_0)
qed

lemma memhash31_blind:
  assumes "d \<in> {0x02, 0x80, 0x82}" "6 \<le> length ys"
  shows "memhash31 (xs @ (b XOR d) # ys) = memhash31 (xs @ b # ys)"
proof -
  have "hash_step h (b XOR d) = hash_step h b XOR ucast d" for h
    by (rule bit_word_eqI) (auto simp: hash_step_def bit_simps)
  moreover have "(ucast d :: u32) \<in> {0x02, 0x80, 0x82}" using assms(1) by auto
  ultimately show ?thesis
    using hash_shift_gone[OF _ assms(2)] by (simp add: memhash31_def foldl_hash_xor)
qed

text \<open>A change of the last byte alone is always seen.\<close>

lemma memhash31_last: "memhash31 (xs @ [b]) = memhash31 (xs @ [b']) \<longleftrightarrow> b = b'"
proof
  have out: "(ucast (hash_step h b XOR (push_bit 6 h XOR drop_bit 25 h)) :: u8) = b" for h b
    by (rule bit_word_eqI) (auto simp: hash_step_def bit_simps)
  assume "memhash31 (xs @ [b]) = memhash31 (xs @ [b'])"
  then have "hash_step (memhash31 xs) b = hash_step (memhash31 xs) b'" by (simp add: memhash31_def)
  then show "b = b'" using out by metis
qed simp

lemma scalar_stamp_value:
  assumes "item_ok c" "ci_type c \<in> {CONF_DEF_VALUE, CONF_OSD_POS, CONF_FUNC_PTR}" "ci_size c = 4"
    "length (m (ci_var c)) = 4" "length (m' (ci_var c)) = 4"
  shows "item_stamp c m = item_stamp c m' \<longleftrightarrow> m (ci_var c) = m' (ci_var c)"
proof -
  have "item_stamp c m = Some (Some (of_le32 (m (ci_var c))))" "item_stamp c m' = Some (Some (of_le32 (m' (ci_var c))))"
    using assms(2-5) by (auto simp: item_stamp_def scalar_stamp_def peek_def)
  then show ?thesis using assms(4,5) by (metis le32.enc_dec option.inject)
qed

section \<open>Saving to the card\<close>

lemma config_save_card:
  assumes "card_laws ops" "co_create ops c fn = (True, c1)" "config_file ci base s = Some bs"
    and "co_write ops c1 fn bs = (int (length bs), c2)"
  shows "config_save ops ci fn base s c = Some c2" and "co_read ops c2 fn = Some bs"
    and "q \<noteq> fn \<Longrightarrow> co_read ops c2 q = co_read ops c q"
proof -
  show "config_save ops ci fn base s c = Some c2" using assms(2-4) by (simp add: config_save_def)
  have "co_read ops c1 fn = Some []" by (rule card_create[OF assms(1,2)])
  then show "co_read ops c2 fn = Some bs" using card_write[OF assms(1) _ assms(4)] by simp
  show "q \<noteq> fn \<Longrightarrow> co_read ops c2 q = co_read ops c q"
    using card_create_other[OF assms(1,2)] card_write_other[OF assms(1,4)] by simp
qed

section \<open>Values read and set\<close>

lemma conf_items_nth: "k < length (conf_items ci) \<Longrightarrow> conf_items ci ! k = ci ! k"
  unfolding conf_items_def by (rule takeWhile_nth)

lemma findConfInfo_item:
  assumes "table_ok ci" "c \<in> set (conf_items ci)"
  obtains k where "findConfInfo ci (ci_id c) = Some k" "ci ! k = c"
proof -
  obtain k where k: "k < length (conf_items ci)" "conf_items ci ! k = c" using assms(2) by (auto simp: in_set_conv_nth)
  have d: "distinct (map ci_id (conf_items ci))" using assms(1) by (simp add: table_ok_def)
  have "findConfInfo ci (ci_id c) = Some k"
    unfolding findConfInfo_def find_Some_iff
  proof (intro exI[of _ k] conjI allI impI)
    fix j assume j: "j < k"
    then have "map ci_id (conf_items ci) ! j \<noteq> map ci_id (conf_items ci) ! k"
      using d k(1) by (subst nth_eq_iff_index_eq) auto
    then show "ci_id (ci ! ([0..<length (conf_items ci)] ! j)) \<noteq> ci_id c"
      using j k by (simp add: conf_items_nth)
  qed (use k in \<open>simp_all add: conf_items_nth\<close>)
  then show thesis using that k conf_items_nth by metis
qed

lemma findConfInfo_Some:
  "findConfInfo ci i = Some k \<Longrightarrow> ci ! k \<in> set (conf_items ci) \<and> ci_id (ci ! k) = i"
  using nth_mem[of k "conf_items ci"] by (auto simp: findConfInfo_def find_Some_iff conf_items_nth)

text \<open>The number a scalar of the item's width holds after \<open>n\<close> has been assigned to it.\<close>

definition narrowed :: "u8 \<Rightarrow> int \<Rightarrow> int" where
  "narrowed sz n = (if sz = 4 then sint (word_of_int n :: u32) else if sz = 2 then sint (word_of_int n :: u16)
     else uint (word_of_int n :: u8))"

lemma narrowed_int: "\<lbrakk>- (2 ^ 31) \<le> n; n < 2 ^ 31\<rbrakk> \<Longrightarrow> narrowed 4 n = n"
  by (simp add: narrowed_def signed_of_int signed_take_bit_int_eq_self)

lemma set_item_numb:
  assumes "item_ok c" "ci_type c \<in> {CONF_DEF_VALUE, CONF_FUNC_PTR}" "length (cs_mem s (ci_var c)) = unat (ci_size c)"
  obtains b where "set_item c (Val_numb n) s = Some (True, s\<lparr>cs_mem := (cs_mem s)(ci_var c := b)\<rparr>)"
    "length b = unat (ci_size c)" "get_scalar c ((cs_mem s)(ci_var c := b)) = Some (Val_numb (narrowed (ci_size c) n))"
proof -
  have sz: "ci_size c = 1 \<or> ci_size c = 2 \<or> ci_size c = 4" using assms(1,2) by (auto simp: item_ok_def)
  define b where "b = (if ci_size c = 4 then le32 (word_of_int n) else if ci_size c = 2 then le16 (word_of_int n) else [word_of_int n])"
  have l: "length b = unat (ci_size c)" using sz by (elim disjE) (simp_all add: b_def le32.enc_length le16.enc_length)
  have "set_item c (Val_numb n) s = map_option (Pair True) (set_mem (ci_var c) b s)"
    using assms(2) sz by (elim insertE disjE) (simp_all add: set_item_def Let_def b_def)
  then have "set_item c (Val_numb n) s = Some (True, s\<lparr>cs_mem := (cs_mem s)(ci_var c := b)\<rparr>)"
    using l assms(3) by (simp add: set_mem_exact)
  moreover have "get_scalar c ((cs_mem s)(ci_var c := b)) = Some (Val_numb (narrowed (ci_size c) n))"
    using sz l by (elim disjE) (simp_all add: get_scalar_def peek_def b_def narrowed_def le32.dec_enc le16.dec_enc)
  ultimately show thesis using that l by blast
qed

lemma getValue_other:
  assumes "table_ok ci" "c \<in> set (conf_items ci)" "i \<noteq> ci_id c"
  shows "getValue ci i (m(ci_var c := b)) = getValue ci i m"
proof (cases "i = 0 \<or> findConfInfo ci i = None")
  case False
  then obtain k where k: "findConfInfo ci i = Some k" by auto
  then have d: "ci ! k \<in> set (conf_items ci)" "ci_id (ci ! k) = i" by (auto dest: findConfInfo_Some)
  then have "ci_var (ci ! k) \<noteq> ci_var c"
    using assms by (auto simp: table_ok_def distinct_map inj_on_def)
  then show ?thesis using k
    by (simp add: getValue_def Let_def get_scalar_def peek_def split: conf_type.split)
qed (auto simp: getValue_def)

end
