(* ===== verification/ConfTable.thy ===== *)
theory ConfTable
  imports ConfStore
begin

text \<open>
  The tables of \<open>core/conf.c\<close> entry by entry, the file each belongs to, and the numbers
  \<open>modules/conf_migrate.c\<close> gives the entries of version 1.2. What differs between cameras is a
  record of constants; where the preprocessor chooses between two entries, so does the model.
\<close>

section \<open>Camera constants and entries\<close>

text \<open>
  \<open>e_after\<close> is what the linker puts behind a string literal: a default string is copied with the
  full size of its member.
\<close>

record conf_env =
  e_platformid :: int
  e_width :: int
  e_height :: int
  e_persistent_osd :: bool
  e_gps :: bool
  e_cursor_bg :: int
  e_cursor_fg :: int
  e_symbol_file :: string
  e_raw_ext :: int
  e_video_quality :: int
  e_video_bitrate :: int
  e_alt_button :: int
  e_batt_max :: u32
  e_batt_min :: u32
  e_after :: "string \<Rightarrow> u8 list"

definition literal :: "conf_env \<Rightarrow> string \<Rightarrow> conf_def" where
  "literal e str = Def_ptr (map of_char str @ 0 # e_after e str)"

definition Def_i :: "int \<Rightarrow> conf_def" where
  "Def_i n = Def_word (word_of_int n)"

definition CONF_INFO :: "u16 \<Rightarrow> string \<Rightarrow> u8 \<Rightarrow> conf_type \<Rightarrow> conf_def \<Rightarrow> ConfInfo" where
  "CONF_INFO i v sz ty d = \<lparr>ci_id = i, ci_size = sz, ci_type = ty, ci_var = v, ci_def = d, last_saved = 0\<rparr>"

text \<open>Two \<open>unsigned short\<close> in the union, then the position scaled to the screen, then four bytes of colour.\<close>

definition Def_pos :: "int \<Rightarrow> int \<Rightarrow> conf_def" where
  "Def_pos x y = Def_word (of_le32 (le16 (word_of_int x) @ le16 (word_of_int y)))"

definition CONF_INFO2 :: "u16 \<Rightarrow> string \<Rightarrow> u8 \<Rightarrow> conf_type \<Rightarrow> int \<Rightarrow> int \<Rightarrow> ConfInfo" where
  "CONF_INFO2 i v sz ty x y = CONF_INFO i v sz ty (Def_pos x y)"

definition CONF_INFOP :: "conf_env \<Rightarrow> u16 \<Rightarrow> string \<Rightarrow> u8 \<Rightarrow> conf_type \<Rightarrow> int \<Rightarrow> int \<Rightarrow> ConfInfo" where
  "CONF_INFOP e i v sz ty x y = CONF_INFO i v sz ty (Def_pos (x * e_width e div 360) (y * e_height e div 240))"

definition CONF_INFOC :: "u16 \<Rightarrow> string \<Rightarrow> u8 \<Rightarrow> conf_type \<Rightarrow> int \<Rightarrow> int \<Rightarrow> int \<Rightarrow> int \<Rightarrow> ConfInfo" where
  "CONF_INFOC i v sz ty bc fc bt ft =
     CONF_INFO i v sz ty (Def_word (of_le32 [word_of_int fc, word_of_int ft, word_of_int bc, word_of_int bt]))"

definition CONF_END :: ConfInfo where
  "CONF_END = CONF_INFO 0 '''' 0 CONF_DEF_VALUE (Def_word 0)"

section \<open>The tables\<close>

definition user_menu_conf_info :: "conf_env \<Rightarrow> ConfInfo list" where
  "user_menu_conf_info e = [
     CONF_INFO 1 ''user_menu_vars'' 24 CONF_STRUCT_PTR (Def_i 0),
     CONF_INFO 2 ''user_menu_as_root'' 4 CONF_DEF_VALUE (Def_i 0),
     CONF_INFO 3 ''user_menu_enable'' 4 CONF_DEF_VALUE (Def_i 0),
     CONF_END]"

definition osd_conf_info :: "conf_env \<Rightarrow> ConfInfo list" where
  "osd_conf_info e = [
     CONF_INFO 1 ''show_osd'' 4 CONF_DEF_VALUE (Def_i 1),
     CONF_INFO 2 ''show_osd_in_review'' 4 CONF_DEF_VALUE (Def_i 0),
     CONF_INFO 3 ''override_disable'' 4 CONF_DEF_VALUE (Def_i 0),
     CONF_INFO 4 ''override_disable_all'' 4 CONF_DEF_VALUE (Def_i 1),
     CONF_INFO 5 ''hide_osd'' 4 CONF_DEF_VALUE (Def_i 1),
     CONF_INFO 6 ''rotate_osd'' 4 CONF_DEF_VALUE (Def_i 0),
     CONF_INFO 7 ''show_hiddenfiles'' 4 CONF_DEF_VALUE (Def_i 0),
     (if e_persistent_osd e then CONF_INFOP e 20 ''histo_pos'' 4 CONF_OSD_POS 10 40 else CONF_INFOP e 20 ''histo_pos'' 4 CONF_OSD_POS 45 150),
     CONF_INFOP e 21 ''dof_pos'' 4 CONF_OSD_POS 90 45,
     CONF_INFOP e 22 ''batt_icon_pos'' 4 CONF_OSD_POS 178 0,
     CONF_INFOP e 23 ''batt_txt_pos'' 4 CONF_OSD_POS 178 16,
     CONF_INFOP e 24 ''mode_state_pos'' 4 CONF_OSD_POS 35 0,
     CONF_INFOP e 25 ''values_pos'' 4 CONF_OSD_POS 288 30,
     CONF_INFOP e 26 ''clock_pos'' 4 CONF_OSD_POS 294 0,
     CONF_INFOP e 27 ''space_icon_pos'' 4 CONF_OSD_POS 260 0,
     CONF_INFOP e 28 ''space_txt_pos'' 4 CONF_OSD_POS 128 0,
     CONF_INFOP e 29 ''mode_raw_pos'' 4 CONF_OSD_POS 302 214,
     CONF_INFOP e 30 ''space_ver_pos'' 4 CONF_OSD_POS 353 0,
     CONF_INFOP e 31 ''space_hor_pos'' 4 CONF_OSD_POS 0 233,
     CONF_INFOP e 32 ''mode_video_pos'' 4 CONF_OSD_POS 158 142,
     CONF_INFOP e 33 ''mode_ev_pos'' 4 CONF_OSD_POS 38 110,
     CONF_INFOP e 34 ''temp_pos'' 4 CONF_OSD_POS 286 16,
     CONF_INFOP e 35 ''ev_video_pos'' 4 CONF_OSD_POS 18 80,
     CONF_INFOP e 36 ''usb_info_pos'' 4 CONF_OSD_POS 95 0,
     CONF_INFOP e 37 ''raw_ev_histo_pos'' 4 CONF_OSD_POS 10 130,
     CONF_INFOC 50 ''histo_color'' 4 CONF_DEF_VALUE 13 2 1 1,
     CONF_INFOC 51 ''histo_color2'' 4 CONF_DEF_VALUE 3 2 1 1,
     CONF_INFOC 52 ''osd_color'' 4 CONF_DEF_VALUE 18 2 1 1,
     CONF_INFOC 53 ''osd_color_warn'' 4 CONF_DEF_VALUE 18 3 1 1,
     CONF_INFOC 54 ''osd_color_override'' 4 CONF_DEF_VALUE 18 3 1 1,
     CONF_INFOC 55 ''menu_color'' 4 CONF_DEF_VALUE 13 2 1 1,
     CONF_INFOC 56 ''menu_title_color'' 4 CONF_DEF_VALUE 2 1 1 1,
     CONF_INFOC 57 ''menu_cursor_color'' 4 CONF_DEF_VALUE (e_cursor_bg e) (e_cursor_fg e) 1 1,
     CONF_INFOC 58 ''menu_symbol_color'' 4 CONF_DEF_VALUE 13 2 1 1,
     CONF_INFOC 59 ''reader_color'' 4 CONF_DEF_VALUE 12 2 1 1,
     CONF_INFOC 60 ''grid_color'' 4 CONF_DEF_VALUE 13 2 1 1,
     CONF_INFOC 61 ''space_color'' 4 CONF_DEF_VALUE 18 2 1 1,
     CONF_INFOC 62 ''zebra_color'' 4 CONF_DEF_VALUE 3 3 1 1,
     CONF_INFOC 63 ''edge_overlay_color'' 4 CONF_DEF_VALUE 0 3 0 1,
     CONF_INFO 80 ''show_clock'' 4 CONF_DEF_VALUE (Def_i 2),
     CONF_INFO 81 ''clock_format'' 4 CONF_DEF_VALUE (Def_i 0),
     CONF_INFO 82 ''clock_indicator'' 4 CONF_DEF_VALUE (Def_i 0),
     CONF_INFO 83 ''clock_halfpress'' 4 CONF_DEF_VALUE (Def_i 1),
     CONF_INFO 90 ''show_state'' 4 CONF_DEF_VALUE (Def_i 1),
     CONF_INFO 100 ''batt_volts_max'' 4 CONF_FUNC_PTR (Def_func (e_batt_max e)),
     CONF_INFO 101 ''batt_volts_min'' 4 CONF_FUNC_PTR (Def_func (e_batt_min e)),
     CONF_INFO 102 ''batt_perc_show'' 4 CONF_DEF_VALUE (Def_i 1),
     CONF_INFO 103 ''batt_volts_show'' 4 CONF_DEF_VALUE (Def_i 0),
     CONF_INFO 104 ''batt_icon_show'' 4 CONF_DEF_VALUE (Def_i 1),
     CONF_INFO 110 ''reader_file'' 100 CONF_CHAR_PTR (literal e ''A/CHDK/BOOKS/README.TXT''),
     CONF_INFO 111 ''reader_pos'' 4 CONF_DEF_VALUE (Def_i 0),
     CONF_INFO 112 ''reader_autoscroll'' 4 CONF_DEF_VALUE (Def_i 0),
     CONF_INFO 113 ''reader_autoscroll_delay'' 4 CONF_DEF_VALUE (Def_i 5),
     CONF_INFO 114 ''reader_rbf_file'' 100 CONF_CHAR_PTR (literal e ''''),
     CONF_INFO 115 ''reader_codepage'' 4 CONF_DEF_VALUE (Def_i 0),
     CONF_INFO 116 ''reader_wrap_by_words'' 4 CONF_DEF_VALUE (Def_i 1),
     CONF_INFO 120 ''splash_show'' 4 CONF_DEF_VALUE (Def_i 1),
     CONF_INFO 121 ''start_sound'' 4 CONF_DEF_VALUE (Def_i 0),
     CONF_INFO 130 ''menu_symbol_enable'' 4 CONF_DEF_VALUE (Def_i 1),
     CONF_INFO 131 ''menu_rbf_file'' 100 CONF_CHAR_PTR (literal e ''''),
     CONF_INFO 132 ''menu_symbol_rbf_file'' 100 CONF_CHAR_PTR (literal e (e_symbol_file e)),
     CONF_INFO 133 ''menu_select_first_entry'' 4 CONF_DEF_VALUE (Def_i 1),
     CONF_INFO 134 ''menu_center'' 4 CONF_DEF_VALUE (Def_i 1),
     CONF_INFO 135 ''lang_file'' 100 CONF_CHAR_PTR (literal e ''''),
     CONF_INFO 136 ''font_cp'' 4 CONF_DEF_VALUE (Def_i 2),
     CONF_INFO 137 ''tbox_char_map'' 4 CONF_DEF_VALUE (Def_i 0),
     CONF_INFO 140 ''show_grid_lines'' 4 CONF_DEF_VALUE (Def_i 1),
     CONF_INFO 141 ''grid_lines_file'' 100 CONF_CHAR_PTR (literal e ''A/CHDK/GRIDS/rulecross.grd''),
     CONF_INFO 142 ''grid_force_color'' 4 CONF_DEF_VALUE (Def_i 0),
     CONF_INFO 150 ''show_dof'' 4 CONF_DEF_VALUE (Def_i 0),
     CONF_INFO 151 ''dof_subj_dist_as_near_limit'' 4 CONF_DEF_VALUE (Def_i 0),
     CONF_INFO 152 ''dof_use_exif_subj_dist'' 4 CONF_DEF_VALUE (Def_i 0),
     CONF_INFO 153 ''dof_subj_dist_in_misc'' 4 CONF_DEF_VALUE (Def_i 1),
     CONF_INFO 154 ''dof_near_limit_in_misc'' 4 CONF_DEF_VALUE (Def_i 1),
     CONF_INFO 155 ''dof_far_limit_in_misc'' 4 CONF_DEF_VALUE (Def_i 1),
     CONF_INFO 156 ''dof_hyperfocal_in_misc'' 4 CONF_DEF_VALUE (Def_i 1),
     CONF_INFO 157 ''dof_depth_in_misc'' 4 CONF_DEF_VALUE (Def_i 0),
     CONF_INFO 160 ''show_values'' 4 CONF_DEF_VALUE (Def_i 0),
     CONF_INFO 161 ''values_show_in_review'' 4 CONF_DEF_VALUE (Def_i 0),
     CONF_INFO 162 ''values_show_zoom'' 4 CONF_DEF_VALUE (Def_i 1),
     CONF_INFO 163 ''values_show_real_aperture'' 4 CONF_DEF_VALUE (Def_i 0),
     CONF_INFO 164 ''values_show_real_iso'' 4 CONF_DEF_VALUE (Def_i 1),
     CONF_INFO 165 ''values_show_market_iso'' 4 CONF_DEF_VALUE (Def_i 0),
     CONF_INFO 166 ''values_show_iso_only_in_autoiso_mode'' 4 CONF_DEF_VALUE (Def_i 0),
     CONF_INFO 167 ''values_show_ev_seted'' 4 CONF_DEF_VALUE (Def_i 0),
     CONF_INFO 168 ''values_show_ev_measured'' 4 CONF_DEF_VALUE (Def_i 0),
     CONF_INFO 169 ''values_show_bv_measured'' 4 CONF_DEF_VALUE (Def_i 0),
     CONF_INFO 170 ''values_show_bv_seted'' 4 CONF_DEF_VALUE (Def_i 0),
     CONF_INFO 171 ''values_show_overexposure'' 4 CONF_DEF_VALUE (Def_i 0),
     CONF_INFO 172 ''values_show_luminance'' 4 CONF_DEF_VALUE (Def_i 0),
     CONF_INFO 173 ''values_show_canon_overexposure'' 4 CONF_DEF_VALUE (Def_i 0),
     CONF_INFO 174 ''show_values_in_video'' 4 CONF_DEF_VALUE (Def_i 0),
     CONF_INFO 175 ''zoom_value'' 4 CONF_DEF_VALUE (Def_i 0),
     CONF_INFO 176 ''zoom_scale'' 4 CONF_DEF_VALUE (Def_i 100),
     CONF_INFO 180 ''space_icon_show'' 4 CONF_DEF_VALUE (Def_i 0),
     CONF_INFO 181 ''space_perc_show'' 4 CONF_DEF_VALUE (Def_i 1),
     CONF_INFO 182 ''space_mb_show'' 4 CONF_DEF_VALUE (Def_i 1),
     CONF_INFO 183 ''space_bar_show'' 4 CONF_DEF_VALUE (Def_i 1),
     CONF_INFO 184 ''space_bar_size'' 4 CONF_DEF_VALUE (Def_i 1),
     CONF_INFO 185 ''space_bar_width'' 4 CONF_DEF_VALUE (Def_i 2),
     CONF_INFO 186 ''space_perc_warn'' 4 CONF_DEF_VALUE (Def_i 10),
     CONF_INFO 187 ''space_mb_warn'' 4 CONF_DEF_VALUE (Def_i 20),
     CONF_INFO 188 ''space_warn_type'' 4 CONF_DEF_VALUE (Def_i 0),
     CONF_INFO 189 ''show_partition_nr'' 4 CONF_DEF_VALUE (Def_i 0),
     CONF_INFO 200 ''show_remaining_raw'' 4 CONF_DEF_VALUE (Def_i 1),
     CONF_INFO 201 ''show_raw_state'' 4 CONF_DEF_VALUE (Def_i 1),
     CONF_INFO 202 ''remaining_raw_treshold'' 4 CONF_DEF_VALUE (Def_i 0),
     CONF_INFO 203 ''raw_exceptions_warn'' 4 CONF_DEF_VALUE (Def_i 1),
     CONF_INFO 210 ''show_movie_time'' 4 CONF_DEF_VALUE (Def_i 0),
     CONF_INFO 211 ''show_movie_refresh'' 4 CONF_DEF_VALUE (Def_i 1),
     CONF_INFO 220 ''show_temp'' 4 CONF_DEF_VALUE (Def_i 1),
     CONF_INFO 221 ''temperature_unit'' 4 CONF_DEF_VALUE (Def_i 0),
     CONF_INFO 230 ''debug_shortcut_action'' 4 CONF_DEF_VALUE (Def_i 0),
     CONF_INFO 231 ''debug_display'' 4 CONF_DEF_VALUE (Def_i 0),
     CONF_INFO 232 ''debug_propcase_page'' 4 CONF_DEF_VALUE (Def_i 0),
     CONF_INFO 233 ''debug_misc_vals_show'' 4 CONF_DEF_VALUE (Def_i 0),
     CONF_INFO 234 ''mem_view_addr_init'' 4 CONF_DEF_VALUE (Def_i 0x1000),
     CONF_INFO 240 ''touchscreen_disable_video_controls'' 4 CONF_DEF_VALUE (Def_i 0),
     CONF_INFO 241 ''touchscreen_disable_shortcut_controls'' 4 CONF_DEF_VALUE (Def_i 0),
     CONF_INFO 250 ''usb_info_enable'' 4 CONF_DEF_VALUE (Def_i 0),
     CONF_INFO 260 ''show_alt_helper'' 4 CONF_DEF_VALUE (Def_i 1),
     CONF_INFO 261 ''show_alt_helper_delay'' 4 CONF_DEF_VALUE (Def_i 3),
     CONF_INFO 262 ''enable_shortcuts'' 4 CONF_DEF_VALUE (Def_i 1),
     CONF_INFO 263 ''extra_button'' 4 CONF_DEF_VALUE (Def_i 0),
     CONF_INFO 270 ''console_show'' 4 CONF_DEF_VALUE (Def_i 0),
     CONF_INFO 271 ''console_timeout'' 4 CONF_DEF_VALUE (Def_i 3),
     CONF_INFO2 280 ''histo_scale'' 4 CONF_OSD_POS 0 0,
     CONF_INFO2 281 ''dof_scale'' 4 CONF_OSD_POS 1 1,
     CONF_INFO2 282 ''batt_icon_scale'' 4 CONF_OSD_POS 0 0,
     CONF_INFO2 283 ''batt_txt_scale'' 4 CONF_OSD_POS 1 1,
     CONF_INFO2 284 ''mode_state_scale'' 4 CONF_OSD_POS 1 1,
     CONF_INFO2 285 ''values_scale'' 4 CONF_OSD_POS 1 1,
     CONF_INFO2 286 ''clock_scale'' 4 CONF_OSD_POS 1 1,
     CONF_INFO2 287 ''space_icon_scale'' 4 CONF_OSD_POS 0 0,
     CONF_INFO2 288 ''space_txt_scale'' 4 CONF_OSD_POS 1 1,
     CONF_INFO2 289 ''mode_raw_scale'' 4 CONF_OSD_POS 1 1,
     CONF_INFO2 290 ''space_ver_scale'' 4 CONF_OSD_POS 0 0,
     CONF_INFO2 291 ''space_hor_scale'' 4 CONF_OSD_POS 0 0,
     CONF_INFO2 292 ''mode_video_scale'' 4 CONF_OSD_POS 1 1,
     CONF_INFO2 293 ''mode_ev_scale'' 4 CONF_OSD_POS 1 1,
     CONF_INFO2 294 ''temp_scale'' 4 CONF_OSD_POS 1 1,
     CONF_INFO2 295 ''ev_video_scale'' 4 CONF_OSD_POS 1 1,
     CONF_INFO2 296 ''usb_info_scale'' 4 CONF_OSD_POS 0 0,
     CONF_INFO 297 ''enable_raw_shortcut'' 4 CONF_DEF_VALUE (Def_i 0),
     CONF_INFO 298 ''osd_platformid'' 4 CONF_DEF_VALUE (Def_i (e_platformid e)),
     CONF_END]"

definition conf_info :: "conf_env \<Rightarrow> ConfInfo list" where
  "conf_info e = [
     CONF_INFO 1 ''platformid'' 4 CONF_DEF_VALUE (Def_i (e_platformid e)),
     CONF_INFO 2 ''fast_image_quality'' 4 CONF_DEF_VALUE (Def_i 3),
     CONF_INFO 3 ''nd_filter_state'' 4 CONF_DEF_VALUE (Def_i 0),
     CONF_INFO 20 ''save_raw'' 4 CONF_DEF_VALUE (Def_i 0),
     CONF_INFO 21 ''raw_in_dir'' 4 CONF_DEF_VALUE (Def_i 1),
     CONF_INFO 22 ''raw_prefix'' 4 CONF_DEF_VALUE (Def_i 1),
     CONF_INFO 23 ''raw_ext'' 4 CONF_DEF_VALUE (Def_i (e_raw_ext e)),
     CONF_INFO 24 ''raw_save_first_only'' 4 CONF_DEF_VALUE (Def_i 0),
     CONF_INFO 25 ''save_raw_in_video'' 4 CONF_DEF_VALUE (Def_i 1),
     CONF_INFO 26 ''save_raw_in_sports'' 4 CONF_DEF_VALUE (Def_i 0),
     CONF_INFO 27 ''save_raw_in_burst'' 4 CONF_DEF_VALUE (Def_i 0),
     CONF_INFO 28 ''save_raw_in_ev_bracketing'' 4 CONF_DEF_VALUE (Def_i 0),
     CONF_INFO 29 ''save_raw_in_timer'' 4 CONF_DEF_VALUE (Def_i 0),
     CONF_INFO 30 ''raw_cache'' 4 CONF_DEF_VALUE (Def_i 1),
     CONF_INFO 31 ''save_raw_in_edgeoverlay'' 4 CONF_DEF_VALUE (Def_i 0),
     CONF_INFO 32 ''save_raw_in_auto'' 4 CONF_DEF_VALUE (Def_i 0),
     CONF_INFO 33 ''bad_pixel_removal'' 4 CONF_DEF_VALUE (Def_i 0),
     CONF_INFO 34 ''raw_timer'' 4 CONF_DEF_VALUE (Def_i 0),
     CONF_INFO 35 ''raw_dng_ext'' 4 CONF_DEF_VALUE (Def_i 1),
     CONF_INFO 36 ''dng_raw'' 4 CONF_DEF_VALUE (Def_i 1),
     CONF_INFO 37 ''dng_version'' 4 CONF_DEF_VALUE (Def_i 1),
     CONF_INFO 38 ''dng_usb_ext'' 4 CONF_DEF_VALUE (Def_i 0),
     CONF_INFO 39 ''raw_nr'' 4 CONF_DEF_VALUE (Def_i 0),
     CONF_INFO 40 ''bracketing_add_raw_suffix'' 4 CONF_DEF_VALUE (Def_i 0),
     CONF_INFO 41 ''sub_batch_prefix'' 4 CONF_DEF_VALUE (Def_i 2),
     CONF_INFO 42 ''sub_batch_ext'' 4 CONF_DEF_VALUE (Def_i (e_raw_ext e)),
     CONF_INFO 43 ''dng_crop_size'' 4 CONF_DEF_VALUE (Def_i 0),
     CONF_INFO 50 ''script_shoot_delay'' 4 CONF_DEF_VALUE (Def_i 0),
     CONF_INFO 52 ''script_param_set'' 4 CONF_DEF_VALUE (Def_i 0),
     CONF_INFO 53 ''script_startup'' 4 CONF_DEF_VALUE (Def_i 0),
     CONF_INFO 54 ''script_file'' 100 CONF_CHAR_PTR (literal e ''''),
     CONF_INFO 55 ''script_param_save'' 4 CONF_DEF_VALUE (Def_i 1),
     (if e_persistent_osd e then CONF_INFO 60 ''show_histo'' 4 CONF_DEF_VALUE (Def_i 1) else CONF_INFO 60 ''show_histo'' 4 CONF_DEF_VALUE (Def_i 0)),
     CONF_INFO 61 ''show_overexp'' 4 CONF_DEF_VALUE (Def_i 1),
     CONF_INFO 62 ''histo_mode'' 4 CONF_DEF_VALUE (Def_i 0),
     CONF_INFO 63 ''histo_auto_ajust'' 4 CONF_DEF_VALUE (Def_i 1),
     CONF_INFO 64 ''histo_ignore_boundary'' 4 CONF_DEF_VALUE (Def_i 4),
     CONF_INFO 65 ''histo_layout'' 4 CONF_DEF_VALUE (Def_i 0),
     CONF_INFO 66 ''histo_show_ev_grid'' 4 CONF_DEF_VALUE (Def_i 0),
     CONF_INFO 70 ''zebra_draw'' 4 CONF_DEF_VALUE (Def_i 1),
     CONF_INFO 71 ''zebra_mode'' 4 CONF_DEF_VALUE (Def_i 2),
     CONF_INFO 72 ''zebra_restore_screen'' 4 CONF_DEF_VALUE (Def_i 1),
     CONF_INFO 73 ''zebra_restore_osd'' 4 CONF_DEF_VALUE (Def_i 1),
     CONF_INFO 74 ''zebra_over'' 4 CONF_DEF_VALUE (Def_i 1),
     CONF_INFO 75 ''zebra_under'' 4 CONF_DEF_VALUE (Def_i 0),
     CONF_INFO 76 ''zebra_draw_osd'' 4 CONF_DEF_VALUE (Def_i 1),
     CONF_INFO 77 ''zebra_multichannel'' 4 CONF_DEF_VALUE (Def_i 0),
     CONF_INFO 80 ''video_mode'' 4 CONF_DEF_VALUE (Def_i 0),
     CONF_INFO 81 ''video_quality'' 4 CONF_DEF_VALUE (Def_i (e_video_quality e)),
     CONF_INFO 82 ''video_bitrate'' 4 CONF_DEF_VALUE (Def_i (e_video_bitrate e)),
     CONF_INFO 83 ''clear_video'' 4 CONF_DEF_VALUE (Def_i 0),
     CONF_INFO 84 ''mute_on_zoom'' 4 CONF_DEF_VALUE (Def_i 0),
     CONF_INFO 85 ''video_af_key'' 4 CONF_DEF_VALUE (Def_i 0),
     CONF_INFO 86 ''unlock_optical_zoom_for_video'' 4 CONF_DEF_VALUE (Def_i 1),
     CONF_INFO 87 ''fast_ev'' 4 CONF_DEF_VALUE (Def_i 0),
     CONF_INFO 88 ''fast_ev_step'' 4 CONF_DEF_VALUE (Def_i 1),
     CONF_INFO 89 ''fast_movie_control'' 4 CONF_DEF_VALUE (Def_i 0),
     CONF_INFO 90 ''fast_movie_quality_control'' 4 CONF_DEF_VALUE (Def_i 0),
     CONF_INFO 91 ''ext_video_time'' 4 CONF_DEF_VALUE (Def_i 0),
     CONF_INFO 92 ''clean_overlay'' 4 CONF_DEF_VALUE (Def_i 0),
     CONF_INFO 93 ''unlock_av_out_in_rec'' 4 CONF_DEF_VALUE (Def_i 0),
     CONF_INFO 100 ''clear_override'' 4 CONF_DEF_VALUE (Def_i 1),
     CONF_INFO 110 ''tv_override_enabled'' 4 CONF_DEF_VALUE (Def_i 0),
     CONF_INFO 111 ''tv_enum_type'' 4 CONF_DEF_VALUE (Def_i 0),
     CONF_INFO 112 ''tv_override_value'' 4 CONF_DEF_VALUE (Def_i 0),
     CONF_INFO 113 ''tv_override_long_exp'' 4 CONF_DEF_VALUE (Def_i 0),
     CONF_INFO 114 ''tv_override_short_exp'' 4 CONF_DEF_VALUE (Def_i 0),
     CONF_INFO 120 ''av_override_enabled'' 4 CONF_DEF_VALUE (Def_i 0),
     CONF_INFO 121 ''av_override_value'' 4 CONF_DEF_VALUE (Def_i 0),
     CONF_INFO 130 ''iso_override_value'' 4 CONF_DEF_VALUE (Def_i 0),
     CONF_INFO 131 ''iso_override_koef'' 4 CONF_DEF_VALUE (Def_i 0),
     CONF_INFO 140 ''subj_dist_override_value'' 4 CONF_DEF_VALUE (Def_i 0),
     CONF_INFO 141 ''subj_dist_override_koef'' 4 CONF_DEF_VALUE (Def_i 0),
     CONF_INFO 150 ''tv_bracket_value'' 4 CONF_DEF_VALUE (Def_i 0),
     CONF_INFO 151 ''av_bracket_value'' 4 CONF_DEF_VALUE (Def_i 0),
     CONF_INFO 152 ''iso_bracket_value'' 4 CONF_DEF_VALUE (Def_i 0),
     CONF_INFO 153 ''iso_bracket_koef'' 4 CONF_DEF_VALUE (Def_i 0),
     CONF_INFO 154 ''subj_dist_bracket_value'' 4 CONF_DEF_VALUE (Def_i 0),
     CONF_INFO 155 ''subj_dist_bracket_koef'' 4 CONF_DEF_VALUE (Def_i 0),
     CONF_INFO 156 ''bracket_type'' 4 CONF_DEF_VALUE (Def_i 0),
     CONF_INFO 157 ''clear_bracket'' 4 CONF_DEF_VALUE (Def_i 1),
     CONF_INFO 160 ''autoiso_enable'' 4 CONF_DEF_VALUE (Def_i 0),
     CONF_INFO 161 ''autoiso_shutter_enum'' 4 CONF_DEF_VALUE (Def_i 5),
     CONF_INFO 162 ''autoiso_user_factor'' 4 CONF_DEF_VALUE (Def_i 5),
     CONF_INFO 163 ''autoiso_is_factor'' 4 CONF_DEF_VALUE (Def_i 2),
     CONF_INFO 164 ''autoiso_max_iso_hi'' 4 CONF_DEF_VALUE (Def_i 550),
     CONF_INFO 165 ''autoiso_max_iso_auto'' 4 CONF_DEF_VALUE (Def_i 320),
     CONF_INFO 166 ''autoiso_min_iso'' 4 CONF_DEF_VALUE (Def_i 50),
     CONF_INFO 170 ''autoiso2_shutter_enum'' 4 CONF_DEF_VALUE (Def_i 0),
     CONF_INFO 171 ''autoiso2_max_iso_auto'' 4 CONF_DEF_VALUE (Def_i 600),
     CONF_INFO 172 ''autoiso2_over'' 4 CONF_DEF_VALUE (Def_i 1),
     CONF_INFO 173 ''overexp_threshold'' 4 CONF_DEF_VALUE (Def_i 5),
     CONF_INFO 174 ''overexp_ev_enum'' 4 CONF_DEF_VALUE (Def_i 0),
     CONF_INFO 180 ''curve_file'' 100 CONF_CHAR_PTR (literal e ''''),
     CONF_INFO 181 ''curve_enable'' 4 CONF_DEF_VALUE (Def_i 0),
     CONF_INFO 190 ''edge_overlay_enable'' 4 CONF_DEF_VALUE (Def_i 0),
     CONF_INFO 191 ''edge_overlay_thresh'' 4 CONF_DEF_VALUE (Def_i 60),
     CONF_INFO 192 ''edge_overlay_play'' 4 CONF_DEF_VALUE (Def_i 0),
     CONF_INFO 193 ''edge_overlay_pano'' 4 CONF_DEF_VALUE (Def_i 0),
     CONF_INFO 194 ''edge_overlay_zoom'' 4 CONF_DEF_VALUE (Def_i 1),
     CONF_INFO 195 ''edge_overlay_filter'' 4 CONF_DEF_VALUE (Def_i 0),
     CONF_INFO 196 ''edge_overlay_show'' 4 CONF_DEF_VALUE (Def_i 0),
     CONF_INFO 197 ''edge_overlay_pano_overlap'' 4 CONF_DEF_VALUE (Def_i 30),
     CONF_INFO 200 ''remote_enable'' 4 CONF_DEF_VALUE (Def_i 0),
     CONF_INFO 201 ''synch_enable'' 4 CONF_DEF_VALUE (Def_i 0),
     CONF_INFO 202 ''synch_delay_enable'' 4 CONF_DEF_VALUE (Def_i 0),
     CONF_INFO 203 ''synch_delay_value'' 4 CONF_DEF_VALUE (Def_i 100),
     CONF_INFO 204 ''remote_switch_type'' 4 CONF_DEF_VALUE (Def_i 0),
     CONF_INFO 205 ''remote_control_mode'' 4 CONF_DEF_VALUE (Def_i 0),
     CONF_INFO 206 ''remote_enable_scripts'' 4 CONF_DEF_VALUE (Def_i 0),
     CONF_INFO 207 ''ricoh_ca1_mode'' 4 CONF_DEF_VALUE (Def_i 0),
     CONF_INFO 208 ''remote_input_channel'' 4 CONF_DEF_VALUE (Def_i 0),
     CONF_INFO 210 ''flash_sync_curtain'' 4 CONF_DEF_VALUE (Def_i 0),
     CONF_INFO 211 ''flash_video_override'' 4 CONF_DEF_VALUE (Def_i 0),
     CONF_INFO 212 ''flash_video_override_power'' 4 CONF_DEF_VALUE (Def_i 0),
     CONF_INFO 213 ''flash_manual_override'' 4 CONF_DEF_VALUE (Def_i 0),
     CONF_INFO 214 ''flash_exp_comp'' 4 CONF_DEF_VALUE (Def_i 9),
     CONF_INFO 215 ''flash_enable_exp_comp'' 4 CONF_DEF_VALUE (Def_i 0),
     CONF_INFO 216 ''hotshoe_override'' 4 CONF_DEF_VALUE (Def_i 0),
     CONF_INFO 220 ''alt_mode_button'' 4 CONF_DEF_VALUE (Def_i (e_alt_button e)),
     CONF_INFO 221 ''alt_prevent_shutdown'' 4 CONF_DEF_VALUE (Def_i 1),
     CONF_INFO 222 ''use_zoom_mf'' 4 CONF_DEF_VALUE (Def_i 0),
     CONF_INFO 223 ''zoom_assist_button_disable'' 4 CONF_DEF_VALUE (Def_i 0),
     CONF_INFO 224 ''debug_lua_restart_on_error'' 4 CONF_DEF_VALUE (Def_i 0),
     CONF_INFO 225 ''module_logging'' 4 CONF_DEF_VALUE (Def_i 0),
     CONF_INFO 226 ''flashlight'' 4 CONF_DEF_VALUE (Def_i 0),
     CONF_INFO 230 ''memdmp_start'' 4 CONF_DEF_VALUE (Def_i 0),
     CONF_INFO 231 ''memdmp_size'' 4 CONF_DEF_VALUE (Def_i 0),
     CONF_INFO 240 ''allow_unsafe_io'' 4 CONF_DEF_VALUE (Def_i 0),
     CONF_INFO 250 ''disable_lfn_parser_ui'' 4 CONF_DEF_VALUE (Def_i 0),
     CONF_INFO 251 ''save_raw_in_canon_raw'' 4 CONF_DEF_VALUE (Def_i 1),
     CONF_INFO 252 ''check_firmware_crc'' 4 CONF_DEF_VALUE (Def_i 1),
     CONF_INFO 260 ''raw_ev_histo_enable'' 4 CONF_DEF_VALUE (Def_i 0),
     CONF_INFO 261 ''raw_ev_histo_under_threshold'' 4 CONF_DEF_VALUE (Def_i 1),
     CONF_INFO 262 ''raw_ev_histo_over_threshold'' 4 CONF_DEF_VALUE (Def_i 1),
     CONF_INFO 263 ''raw_ev_histo_width'' 4 CONF_DEF_VALUE (Def_i 80),
     CONF_INFO 264 ''raw_ev_histo_height'' 4 CONF_DEF_VALUE (Def_i 80),
     CONF_INFO 265 ''raw_ev_histo_xstep'' 4 CONF_DEF_VALUE (Def_i 16),
     CONF_INFO 266 ''raw_ev_histo_ystep'' 4 CONF_DEF_VALUE (Def_i 16),
     CONF_INFO 267 ''raw_ev_histo_save_log'' 4 CONF_DEF_VALUE (Def_i 0),
     CONF_INFO 268 ''raw_ev_histo_ettr_pct'' 4 CONF_DEF_VALUE (Def_i 1),
     CONF_INFO 269 ''raw_ev_histo_save_for_image'' 4 CONF_DEF_VALUE (Def_i 0),
     CONF_INFO 280 ''bitbend_enable'' 4 CONF_DEF_VALUE (Def_i 0),
     CONF_INFO 289 ''bitbend_simple'' 4 CONF_DEF_VALUE (Def_i 1),
     CONF_INFO 288 ''bitbend'' 32 CONF_INT_PTR (Def_i 0),
     CONF_INFO 290 ''bendx_enable'' 4 CONF_DEF_VALUE (Def_i 0),
     CONF_INFO 293 ''bend_shot_save'' 4 CONF_DEF_VALUE (Def_i 1),
     CONF_INFO 295 ''bend_segs'' 104 CONF_INT_PTR (Def_i 0),
     CONF_INFO 300 ''mexp_enable'' 4 CONF_DEF_VALUE (Def_i 0),
     CONF_INFO 301 ''mexp_mode'' 4 CONF_DEF_VALUE (Def_i 3),
     CONF_INFO 302 ''mexp_frames'' 4 CONF_DEF_VALUE (Def_i 2),
     CONF_INFO 303 ''mexp_ghost'' 4 CONF_DEF_VALUE (Def_i 1),
     CONF_INFO 306 ''gbc_hue'' 4 CONF_DEF_VALUE (Def_i 0),
     CONF_INFO 305 ''bend_seg_mask'' 4 CONF_DEF_VALUE (Def_i 0),
     CONF_INFO 304 ''theme'' 4 CONF_DEF_VALUE (Def_i 0),
     CONF_INFO 307 ''mexp_bend_each'' 4 CONF_DEF_VALUE (Def_i 1),
     CONF_INFO 308 ''bendx'' 52 CONF_INT_PTR (Def_i 0),
     CONF_INFO 999 ''script_allow_lua_native_calls'' 4 CONF_DEF_VALUE (Def_i 0),
     CONF_END]"

definition gps_conf_info :: "conf_env \<Rightarrow> ConfInfo list" where
  "gps_conf_info e = [
     CONF_INFO 1 ''gps_record'' 4 CONF_DEF_VALUE (Def_i 0),
     CONF_INFO 2 ''gps_navi_show'' 4 CONF_DEF_VALUE (Def_i 0),
     CONF_INFO 3 ''gps_compass_show'' 4 CONF_DEF_VALUE (Def_i 0),
     CONF_INFO 4 ''gps_coordinates_show'' 4 CONF_DEF_VALUE (Def_i 0),
     CONF_INFO 5 ''gps_height_show'' 4 CONF_DEF_VALUE (Def_i 0),
     CONF_INFO 6 ''gps_waypoint_save'' 4 CONF_DEF_VALUE (Def_i 0),
     CONF_INFO 7 ''gps_track_time'' 4 CONF_DEF_VALUE (Def_i 1),
     CONF_INFO 8 ''gps_compass_hide'' 4 CONF_DEF_VALUE (Def_i 0),
     CONF_INFO 9 ''gps_wait_for_signal'' 4 CONF_DEF_VALUE (Def_i 300),
     CONF_INFO 10 ''gps_compass_time'' 4 CONF_DEF_VALUE (Def_i 1),
     CONF_INFO 11 ''gps_navi_time'' 4 CONF_DEF_VALUE (Def_i 1),
     CONF_INFO 12 ''gps_wait_for_signal_time'' 4 CONF_DEF_VALUE (Def_i 5),
     CONF_INFO 13 ''gps_compass_smooth'' 4 CONF_DEF_VALUE (Def_i 7),
     CONF_INFO 14 ''gps_batt'' 4 CONF_DEF_VALUE (Def_i 25),
     CONF_INFO 15 ''gps_countdown'' 4 CONF_DEF_VALUE (Def_i 0),
     CONF_INFO 16 ''gps_2D_3D_fix'' 4 CONF_DEF_VALUE (Def_i 2),
     CONF_INFO 17 ''gps_countdown_blink'' 4 CONF_DEF_VALUE (Def_i 1),
     CONF_INFO 18 ''gps_rec_play_set'' 4 CONF_DEF_VALUE (Def_i 0),
     CONF_INFO 19 ''gps_play_dark_set'' 4 CONF_DEF_VALUE (Def_i 0),
     CONF_INFO 20 ''gps_rec_play_time'' 4 CONF_DEF_VALUE (Def_i 30),
     CONF_INFO 21 ''gps_play_dark_time'' 4 CONF_DEF_VALUE (Def_i 45),
     CONF_INFO 22 ''gps_rec_play_set_1'' 4 CONF_DEF_VALUE (Def_i 0),
     CONF_INFO 23 ''gps_play_dark_set_1'' 4 CONF_DEF_VALUE (Def_i 0),
     CONF_INFO 24 ''gps_rec_play_time_1'' 4 CONF_DEF_VALUE (Def_i 10),
     CONF_INFO 25 ''gps_play_dark_time_1'' 4 CONF_DEF_VALUE (Def_i 15),
     CONF_INFO 26 ''gps_show_symbol'' 4 CONF_DEF_VALUE (Def_i 0),
     CONF_INFO 27 ''gps_batt_warn'' 4 CONF_DEF_VALUE (Def_i 0),
     CONF_INFO 28 ''gps_track_symbol'' 4 CONF_DEF_VALUE (Def_i 0),
     CONF_INFO 29 ''gps_test_timezone'' 4 CONF_DEF_VALUE (Def_i 0),
     CONF_INFO 30 ''gps_beep_warn'' 4 CONF_DEF_VALUE (Def_i 0),
     CONF_INFO 31 ''gps_on_off'' 4 CONF_DEF_VALUE (Def_i 0),
     CONF_END]"

section \<open>Numbers of version 1.2\<close>

definition conf_map_1_2 :: "u16 list" where
  "conf_map_1_2 = [
     0, 2001, 1020, 1050, 1060, 2006, 1052, 2150, 2100, 2101, 0, 2102, 2103, 2104, 2090, 2160,
     1061, 1062, 1063, 1064, 1065, 2020, 2021, 2022, 2023, 2024, 2025, 2050, 2052, 0, 2055, 2059,
     1207, 1226, 2230, 1021, 1022, 1023, 2110, 2111, 0, 2080, 2026, 2112, 2113, 2114, 2115, 2120,
     2051, 1070, 1071, 1072, 1073, 1074, 1075, 2062, 1076, 3002, 2175, 1222, 1024, 2116, 2130, 1220,
     2135, 2136, 2131, 1221, 2140, 2141, 1039, 2142, 2060, 0, 0, 0, 0, 0, 0, 0,
     2151, 2152, 2153, 2154, 2155, 2156, 2157, 2161, 2162, 2163, 2164, 2165, 2166, 2167, 2168, 2169,
     2170, 2171, 2172, 1080, 1081, 1082, 1112, 1110, 1121, 1130, 1131, 1140, 1141, 1150, 1151, 1152,
     1153, 1154, 1155, 1156, 1113, 1114, 1120, 1999, 1053, 1200, 2173, 1100, 2002, 0, 1157, 1077,
     1003, 1066, 2053, 2061, 2180, 2027, 2181, 2182, 2028, 2200, 2029, 2201, 2174, 1111, 3003, 3001,
     2176, 2183, 2184, 2030, 2031, 2185, 2186, 2187, 2188, 2202, 1086, 2081, 2082, 2083, 1160, 1161,
     1162, 1163, 1164, 1165, 1166, 2056, 2057, 2134, 1084, 1033, 1085, 2054, 2003, 2004, 2005, 1025,
     2210, 2211, 2032, 1083, 1087, 1088, 2033, 2132, 2058, 1180, 1181, 1190, 1191, 2063, 1201, 1202,
     1203, 0, 1054, 2234, 1026, 1027, 1028, 1029, 2203, 2133, 1089, 2220, 2034, 1090, 0, 0,
     2121, 1041, 1042, 0, 0, 2231, 1055, 2035, 0, 0, 0, 1040, 2221, 0, 1192, 1193,
     1194, 1030, 1036, 1210, 1034, 1001, 1031, 1032, 1211, 1212, 1035, 1038, 1213, 1002, 1224, 2232,
     2233, 1195, 1196, 1197, 2240, 2241, 2250, 2036, 1204, 1205, 1206, 2189, 1091, 4001, 4002, 4003,
     4004, 4005, 4006, 4007, 4008, 4009, 4010, 4011, 4012, 4013, 4014, 4015, 4016, 4017, 4018, 4019,
     4020, 4021, 4022, 4023, 4024, 4025, 4026, 4027, 4029, 4030, 4031, 1170, 1171, 1172, 1173, 1174,
     1223, 1037, 2137, 2260, 2261, 2263, 1225, 2262, 2270, 2271, 1230, 1231, 1214, 1215, 2297]"

section \<open>The entries are well formed\<close>

lemma entry_simps [simp]:
  "ci_id (CONF_INFO i v sz ty d) = i" "ci_var (CONF_INFO i v sz ty d) = v"
  "ci_size (CONF_INFO i v sz ty d) = sz" "ci_type (CONF_INFO i v sz ty d) = ty" "ci_def (CONF_INFO i v sz ty d) = d"
  by (simp_all add: CONF_INFO_def)

lemmas entry_macros = CONF_INFO2_def CONF_INFOP_def CONF_INFOC_def CONF_END_def

lemma entry_if:
  "ci_id (if P then a else b) = (if P then ci_id a else ci_id b)"
  "ci_var (if P then a else b) = (if P then ci_var a else ci_var b)"
  "ci_type (if P then a else b) = (if P then ci_type a else ci_type b)"
  by simp_all

text \<open>What a camera must provide: room behind every literal for the full member to be copied.\<close>

definition env_ok :: "conf_env \<Rightarrow> bool" where
  "env_ok e \<longleftrightarrow> (\<forall>str. 100 \<le> length str + 1 + length (e_after e str)) \<and> length (e_symbol_file e) < 100"

lemma item_ok_entry:
  "item_ok (CONF_INFO i v 4 CONF_DEF_VALUE (Def_i n))" "item_ok (CONF_INFO i v 4 CONF_OSD_POS (Def_pos x y))"
  "item_ok (CONF_INFO i v 4 CONF_FUNC_PTR (Def_func f))" "item_ok (CONF_INFO i v 4 CONF_DEF_VALUE (Def_word w))"
  "item_ok (CONF_INFO i v sz CONF_INT_PTR d) \<longleftrightarrow> sz \<noteq> 100" "item_ok (CONF_INFO i v sz CONF_STRUCT_PTR d)"
  by (simp_all add: item_ok_def Def_i_def Def_pos_def)

lemma item_ok_literal:
  assumes "env_ok e" "length str < 100"
  shows "item_ok (CONF_INFO i v 100 CONF_CHAR_PTR (literal e str))"
proof -
  have "0 \<in> set (take 100 (map of_char str @ (0::u8) # e_after e str))"
    using assms(2) by (simp add: take_Cons')
  moreover have "100 \<le> length str + 1 + length (e_after e str)" using assms(1) by (simp add: env_ok_def)
  ultimately show ?thesis by (simp add: item_ok_def literal_def)
qed

lemma item_ok_if: "item_ok (if P then a else b) \<longleftrightarrow> (if P then item_ok a else item_ok b)"
  by simp

lemma conf_items_rows:
  assumes "map ci_id ci = xs @ [0]" "0 \<notin> set xs"
  shows "conf_items ci = butlast ci"
proof -
  have ids: "map ci_id (butlast ci) = xs" using assms(1) by (simp add: map_butlast)
  have "ci \<noteq> []" using assms(1) by auto
  then have "ci = butlast ci @ [last ci]" by simp
  moreover have "ci_id (last ci) = 0" using assms(1) \<open>ci \<noteq> []\<close> by (metis last_map last_snoc)
  moreover have "\<forall>c\<in>set (butlast ci). 0 < ci_id c"
    using ids assms(2) by (force simp: word_greater_zero_iff)
  ultimately show ?thesis
    unfolding conf_items_def by (metis (no_types, lifting) takeWhile_append2 takeWhile.simps append_Nil2 less_irrefl)
qed

lemma table_entry:
  assumes "map ci_id ci = xs @ [0]" "0 \<notin> set xs" "c \<in> set ci" "ci_id c \<noteq> 0"
  shows "c \<in> set (conf_items ci)"
proof -
  have "ci \<noteq> []" using assms(1) by auto
  then have "ci = butlast ci @ [last ci]" by simp
  moreover have "ci_id (last ci) = 0" using assms(1) \<open>ci \<noteq> []\<close> by (metis last_map last_snoc)
  ultimately have "c \<in> set (butlast ci)" using assms(3,4) by (metis Un_iff empty_iff insert_iff list.set set_append)
  then show ?thesis by (simp add: conf_items_rows[OF assms(1,2)])
qed

definition item_or_end :: "ConfInfo \<Rightarrow> bool" where
  "item_or_end c \<longleftrightarrow> ci_id c = 0 \<or> item_ok c"

lemma item_or_end_entry:
  "item_or_end (CONF_INFO i v 4 CONF_DEF_VALUE (Def_i n)) = True" "item_or_end (CONF_INFO i v 4 CONF_OSD_POS (Def_pos x y)) = True"
  "item_or_end (CONF_INFO i v 4 CONF_FUNC_PTR (Def_func f)) = True" "item_or_end (CONF_INFO i v 4 CONF_DEF_VALUE (Def_word w)) = True"
  "item_or_end (CONF_INFO i v sz CONF_STRUCT_PTR d) = True" "item_or_end CONF_END = True"
  by (simp_all add: item_or_end_def item_ok_entry CONF_END_def)

lemma item_or_end_if: "item_or_end (if P then a else b) = (if P then item_or_end a else item_or_end b)"
  by simp

text \<open>Names compared as numbers.\<close>

fun str_num :: "string \<Rightarrow> nat" where
  "str_num [] = 0"
| "str_num (c # s) = of_char c + 256 * str_num s"

lemma table_ok_rows:
  assumes "map ci_id ci = xs @ [0]" "distinct (xs @ [0])" "distinct (map str_num (map ci_var ci))" "list_all item_or_end ci"
  shows "table_ok ci"
proof -
  have b: "conf_items ci = butlast ci" using conf_items_rows[OF assms(1)] assms(2) by simp
  have "distinct (map ci_id ci)" "map ci_id (butlast ci) = butlast (map ci_id ci)" "map ci_var (butlast ci) = butlast (map ci_var ci)"
    using assms(1,2) by (simp_all add: map_butlast)
  moreover have "distinct (map ci_var ci)" using assms(3) by (simp only: distinct_map)
  moreover have "item_ok c" if "c \<in> set (conf_items ci)" for c
  proof -
    have "c \<in> set ci" using that b by (simp add: in_set_butlastD)
    then show ?thesis using assms(4) conf_items_nonzero[OF that] by (auto simp: list_all_iff item_or_end_def)
  qed
  ultimately show ?thesis using b by (auto simp: table_ok_def distinct_butlast)
qed

lemma plain_table_rows: "list_all (\<lambda>t. t \<noteq> CONF_STRUCT_PTR) (map ci_type ci) \<Longrightarrow> plain_table ci"
  by (auto simp: plain_table_def conf_items_def list_all_iff dest: set_takeWhileD)

lemma user_menu_conf_info_ids: "map ci_id (user_menu_conf_info e) = [
     1, 2, 3] @ [0]"
  by (simp only: user_menu_conf_info_def list.map entry_macros entry_simps entry_if if_cancel append_Cons append_Nil)

lemma user_menu_conf_info_ok: "env_ok e \<Longrightarrow> table_ok (user_menu_conf_info e)"
proof (rule table_ok_rows[OF user_menu_conf_info_ids])
  show "distinct (map str_num (map ci_var (user_menu_conf_info e)))"
    by (simp only: user_menu_conf_info_def list.map entry_macros entry_simps entry_if if_cancel) simp
  assume "env_ok e"
  then have "length (e_symbol_file e) < 100" by (simp add: env_ok_def)
  then show "list_all item_or_end (user_menu_conf_info e)"
    using \<open>env_ok e\<close>
    by (simp only: user_menu_conf_info_def list.pred_inject CONF_INFO2_def CONF_INFOP_def CONF_INFOC_def item_or_end_entry item_or_end_if if_cancel simp_thms;
      simp add: item_or_end_def item_ok_literal item_ok_entry)
qed simp

lemma osd_conf_info_ids: "map ci_id (osd_conf_info e) = [
     1, 2, 3, 4, 5, 6, 7, 20, 21, 22, 23, 24, 25, 26, 27, 28, 29, 30, 31, 32, 33, 34, 35, 36,
     37, 50, 51, 52, 53, 54, 55, 56, 57, 58, 59, 60, 61, 62, 63, 80, 81, 82, 83, 90, 100, 101, 102, 103,
     104, 110, 111, 112, 113, 114, 115, 116, 120, 121, 130, 131, 132, 133, 134, 135, 136, 137, 140, 141, 142, 150, 151, 152,
     153, 154, 155, 156, 157, 160, 161, 162, 163, 164, 165, 166, 167, 168, 169, 170, 171, 172, 173, 174, 175, 176, 180, 181,
     182, 183, 184, 185, 186, 187, 188, 189, 200, 201, 202, 203, 210, 211, 220, 221, 230, 231, 232, 233, 234, 240, 241, 250,
     260, 261, 262, 263, 270, 271, 280, 281, 282, 283, 284, 285, 286, 287, 288, 289, 290, 291, 292, 293, 294, 295, 296, 297,
     298] @ [0]"
  by (simp only: osd_conf_info_def list.map entry_macros entry_simps entry_if if_cancel append_Cons append_Nil)

lemma osd_conf_info_ok: "env_ok e \<Longrightarrow> table_ok (osd_conf_info e)"
proof (rule table_ok_rows[OF osd_conf_info_ids])
  show "distinct (map str_num (map ci_var (osd_conf_info e)))"
    by (simp only: osd_conf_info_def list.map entry_macros entry_simps entry_if if_cancel) simp
  assume "env_ok e"
  then have "length (e_symbol_file e) < 100" by (simp add: env_ok_def)
  then show "list_all item_or_end (osd_conf_info e)"
    using \<open>env_ok e\<close>
    by (simp only: osd_conf_info_def list.pred_inject CONF_INFO2_def CONF_INFOP_def CONF_INFOC_def item_or_end_entry item_or_end_if if_cancel simp_thms;
      simp add: item_or_end_def item_ok_literal item_ok_entry)
qed simp

lemma osd_conf_info_plain: "plain_table (osd_conf_info e)"
  by (rule plain_table_rows)
    (simp only: osd_conf_info_def list.map entry_macros entry_simps entry_if if_cancel list.pred_inject conf_type.distinct simp_thms)

lemma conf_info_ids: "map ci_id (conf_info e) = [
     1, 2, 3, 20, 21, 22, 23, 24, 25, 26, 27, 28, 29, 30, 31, 32, 33, 34, 35, 36, 37, 38, 39, 40,
     41, 42, 43, 50, 52, 53, 54, 55, 60, 61, 62, 63, 64, 65, 66, 70, 71, 72, 73, 74, 75, 76, 77, 80,
     81, 82, 83, 84, 85, 86, 87, 88, 89, 90, 91, 92, 93, 100, 110, 111, 112, 113, 114, 120, 121, 130, 131, 140,
     141, 150, 151, 152, 153, 154, 155, 156, 157, 160, 161, 162, 163, 164, 165, 166, 170, 171, 172, 173, 174, 180, 181, 190,
     191, 192, 193, 194, 195, 196, 197, 200, 201, 202, 203, 204, 205, 206, 207, 208, 210, 211, 212, 213, 214, 215, 216, 220,
     221, 222, 223, 224, 225, 226, 230, 231, 240, 250, 251, 252, 260, 261, 262, 263, 264, 265, 266, 267, 268, 269, 280, 289,
     288, 290, 293, 295, 300, 301, 302, 303, 306, 305, 304, 307, 308, 999] @ [0]"
  by (simp only: conf_info_def list.map entry_macros entry_simps entry_if if_cancel append_Cons append_Nil)

lemma conf_info_ok: "env_ok e \<Longrightarrow> table_ok (conf_info e)"
proof (rule table_ok_rows[OF conf_info_ids])
  show "distinct (map str_num (map ci_var (conf_info e)))"
    by (simp only: conf_info_def list.map entry_macros entry_simps entry_if if_cancel) simp
  assume "env_ok e"
  then have "length (e_symbol_file e) < 100" by (simp add: env_ok_def)
  then show "list_all item_or_end (conf_info e)"
    using \<open>env_ok e\<close>
    by (simp only: conf_info_def list.pred_inject CONF_INFO2_def CONF_INFOP_def CONF_INFOC_def item_or_end_entry item_or_end_if if_cancel simp_thms;
      simp add: item_or_end_def item_ok_literal item_ok_entry)
qed simp

lemma conf_info_plain: "plain_table (conf_info e)"
  by (rule plain_table_rows)
    (simp only: conf_info_def list.map entry_macros entry_simps entry_if if_cancel list.pred_inject conf_type.distinct simp_thms)

lemma gps_conf_info_ids: "map ci_id (gps_conf_info e) = [
     1, 2, 3, 4, 5, 6, 7, 8, 9, 10, 11, 12, 13, 14, 15, 16, 17, 18, 19, 20, 21, 22, 23, 24,
     25, 26, 27, 28, 29, 30, 31] @ [0]"
  by (simp only: gps_conf_info_def list.map entry_macros entry_simps entry_if if_cancel append_Cons append_Nil)

lemma gps_conf_info_ok: "env_ok e \<Longrightarrow> table_ok (gps_conf_info e)"
proof (rule table_ok_rows[OF gps_conf_info_ids])
  show "distinct (map str_num (map ci_var (gps_conf_info e)))"
    by (simp only: gps_conf_info_def list.map entry_macros entry_simps entry_if if_cancel) simp
  assume "env_ok e"
  then have "length (e_symbol_file e) < 100" by (simp add: env_ok_def)
  then show "list_all item_or_end (gps_conf_info e)"
    using \<open>env_ok e\<close>
    by (simp only: gps_conf_info_def list.pred_inject CONF_INFO2_def CONF_INFOP_def CONF_INFOC_def item_or_end_entry item_or_end_if if_cancel simp_thms;
      simp add: item_or_end_def item_ok_literal item_ok_entry)
qed simp

lemma gps_conf_info_plain: "plain_table (gps_conf_info e)"
  by (rule plain_table_rows)
    (simp only: gps_conf_info_def list.map entry_macros entry_simps entry_if if_cancel list.pred_inject conf_type.distinct simp_thms)

end
