(* ===== verification/ConfUse.thy ===== *)
theory ConfUse
  imports ConfTable
begin

text \<open>
  The configuration as the camera uses it (\<open>core/conf.c\<close>, \<open>modules/conf_migrate.c\<close>): the four
  tables with their files, loading defaults, saving what has changed, restoring at power on with
  the settings of version 1.2 when there are no newer ones, and the values scripts get and set.
\<close>

section \<open>The four tables\<close>

type_synonym handlers = "confinfo_handler list"

abbreviation (input) CONF_CORE :: nat where "CONF_CORE \<equiv> 1000"
abbreviation (input) CONF_OSD :: nat where "CONF_OSD \<equiv> 2000"
abbreviation (input) CONF_USER :: nat where "CONF_USER \<equiv> 3000"
abbreviation (input) CONF_GPS :: nat where "CONF_GPS \<equiv> 4000"

definition confinfo_handlers :: "conf_env \<Rightarrow> handlers" where
  "confinfo_handlers e =
     [\<lparr>h_start = CONF_CORE, h_end = CONF_CORE + 999, h_ci = conf_info e, h_file = ''A/CHDK/CCHDK4.CFG''\<rparr>,
      \<lparr>h_start = CONF_OSD, h_end = CONF_OSD + 999, h_ci = osd_conf_info e, h_file = ''A/CHDK/OSD__4.CFG''\<rparr>,
      \<lparr>h_start = CONF_USER, h_end = CONF_USER + 999, h_ci = user_menu_conf_info e, h_file = ''A/CHDK/UMENU4.CFG''\<rparr>] @
     (if e_gps e then [\<lparr>h_start = CONF_GPS, h_end = CONF_GPS + 999, h_ci = gps_conf_info e, h_file = ''A/CHDK/GPS__4.CFG''\<rparr>] else [])"

definition of_handler :: "nat \<Rightarrow> confinfo_handler \<Rightarrow> bool" where
  "of_handler i h \<longleftrightarrow> h_start h \<le> i \<and> i \<le> h_end h"

section \<open>Numbers and files of version 1.2\<close>

text \<open>A subscript into \<open>conf_map_1_2\<close>: a \<open>short\<close>, and not checked.\<close>

definition map_old_id :: "u16 \<Rightarrow> u16 option" where
  "map_old_id i = (if sint i < 0 then None else rd conf_map_1_2 (unat i))"

function restore_old_items :: "handlers \<Rightarrow> (nat \<Rightarrow> info_func) \<Rightarrow> u8 list \<Rightarrow> nat \<Rightarrow> conf_state \<Rightarrow> conf_state option" where
  "restore_old_items hs infos buf offs s =
     (if length buf < offs + 2 then Some s
      else case map_old_id (of_le16 (drop offs buf)) of
        None \<Rightarrow> None
      | Some i \<Rightarrow>
          if length buf < offs + 4 then Some s
          else
            let sz = of_le16 (drop (offs + 2) buf); offs = offs + 4 in
            case find (of_handler (unat i)) hs of
              None \<Rightarrow> restore_old_items hs infos buf (offs + unat sz) s
            | Some h \<Rightarrow>
                let i = i - word_of_nat (h_start h) in
                case find (\<lambda>c. ci_id c = i \<and> ucast (ci_size c) = sz) (conf_items (h_ci h)) of
                  None \<Rightarrow> restore_old_items hs infos buf (offs + unat sz) s
                | Some c \<Rightarrow>
                    if offs + unat sz \<le> length buf then
                      (case restore_item (infos (h_start h)) c buf offs sz s of
                         None \<Rightarrow> None
                       | Some (sz, s) \<Rightarrow> restore_old_items hs infos buf (offs + unat sz) s)
                    else restore_old_items hs infos buf (offs + unat sz) s)"
  by auto
termination
  by (relation "measure (\<lambda>(hs, infos, buf, offs, s). length buf - offs)") auto

declare restore_old_items.simps [simp del]

definition load_old_config :: "'c card_ops \<Rightarrow> handlers \<Rightarrow> (nat \<Rightarrow> info_func) \<Rightarrow> 'c \<Rightarrow> conf_state \<Rightarrow> (bool \<times> conf_state) option" where
  "load_old_config ops hs infos c s =
     (case co_read ops c ''A/CHDK/CCHDK3.CFG'' of
        None \<Rightarrow> Some (False, s)
      | Some [] \<Rightarrow> Some (False, s)
      | Some buf \<Rightarrow> do {
          (magic, r) \<leftarrow> rd_n 4 buf;
          if of_le32 magic = CONF_MAGICK_VALUE then do { s \<leftarrow> restore_old_items hs infos buf 4 s; Some (True, s) }
          else Some (False, s)
        })"

section \<open>Running over the tables\<close>

text \<open>
  \<open>infos\<close> gives the function of each table by its first number. A store in the middle of a run is
  the tables with their \<open>last_saved\<close> and the state.
\<close>

fun conf_load_defaults :: "handlers \<Rightarrow> (nat \<Rightarrow> info_func) \<Rightarrow> conf_state \<Rightarrow> conf_state option" where
  "conf_load_defaults [] infos s = Some s"
| "conf_load_defaults (h # hs) infos s = do {
     s \<leftarrow> config_load_defaults (h_ci h) (infos (h_start h)) s;
     conf_load_defaults hs infos s
   }"

definition refresh :: "confinfo_handler \<Rightarrow> conf_state \<Rightarrow> confinfo_handler option" where
  "refresh h s = do { ci \<leftarrow> config_update_last_saved (h_ci h) (cs_mem s); Some (h\<lparr>h_ci := ci\<rparr>) }"

text \<open>One table of \<open>conf_save\<close>; the user menu is first brought from the rows into \<open>conf\<close>.\<close>

definition save_handler :: "'c card_ops \<Rightarrow> confinfo_handler \<Rightarrow> conf_state \<Rightarrow> 'c \<Rightarrow> (confinfo_handler \<times> conf_state \<times> 'c) option" where
  "save_handler ops h s c = do {
     changed \<leftarrow> config_has_changed (h_ci h) (cs_mem s);
     if changed \<or> h_start h = CONF_USER \<and> ms_changed (cs_menu s) then do {
       s \<leftarrow> (if h_start h = CONF_USER then do { menu \<leftarrow> user_menu_save (cs_menu s); Some (s\<lparr>cs_menu := menu\<rparr>) } else Some s);
       c \<leftarrow> config_save ops (h_ci h) (h_file h) (h_start h) s c;
       h \<leftarrow> refresh h s;
       Some (h, s, c)
     }
     else Some (h, s, c)
   }"

fun conf_save :: "'c card_ops \<Rightarrow> handlers \<Rightarrow> conf_state \<Rightarrow> 'c \<Rightarrow> (handlers \<times> conf_state \<times> 'c) option" where
  "conf_save ops [] s c = Some ([], s, c)"
| "conf_save ops (h # hs) s c = do {
     (h, s, c) \<leftarrow> save_handler ops h s c;
     (hs, s, c) \<leftarrow> conf_save ops hs s c;
     Some (h # hs, s, c)
   }"

fun save_config_file :: "'c card_ops \<Rightarrow> nat \<Rightarrow> string option \<Rightarrow> handlers \<Rightarrow> conf_state \<Rightarrow> 'c \<Rightarrow> (bool \<times> handlers \<times> 'c) option" where
  "save_config_file ops base fn [] s c = Some (False, [], c)"
| "save_config_file ops base fn (h # hs) s c =
     (if of_handler base h then do {
        c \<leftarrow> config_save ops (h_ci h) (case fn of None \<Rightarrow> h_file h | Some f \<Rightarrow> f) (h_start h) s c;
        h \<leftarrow> (if fn = None then refresh h s else Some h);
        Some (True, h # hs, c)
      }
      else do {
        (took, hs, c) \<leftarrow> save_config_file ops base fn hs s c;
        Some (took, h # hs, c)
      })"

fun load_config_file :: "'c card_ops \<Rightarrow> (nat \<Rightarrow> info_func) \<Rightarrow> nat \<Rightarrow> string option \<Rightarrow> handlers \<Rightarrow> 'c \<Rightarrow> conf_state \<Rightarrow> (bool \<times> handlers \<times> conf_state) option" where
  "load_config_file ops infos base fn [] c s = Some (False, [], s)"
| "load_config_file ops infos base fn (h # hs) c s =
     (if of_handler base h then do {
        s \<leftarrow> config_restore ops (h_ci h) (case fn of None \<Rightarrow> h_file h | Some f \<Rightarrow> f) (infos (h_start h)) c s;
        h \<leftarrow> (if fn = None then refresh h s else Some h);
        Some (True, h # hs, s)
      }
      else do {
        (took, hs, s) \<leftarrow> load_config_file ops infos base fn hs c s;
        Some (took, h # hs, s)
      })"

section \<open>Power on\<close>

text \<open>Members that are \<open>int\<close>.\<close>

definition get_int :: "string \<Rightarrow> conf_state \<Rightarrow> int option" where
  "get_int v s = map_option (\<lambda>b. sint (of_le32 b)) (peek v 4 (cs_mem s))"

definition set_int :: "string \<Rightarrow> int \<Rightarrow> conf_state \<Rightarrow> conf_state option" where
  "set_int v n s = set_mem v (le32 (word_of_int n)) s"

fun set_ints :: "(string \<times> int) list \<Rightarrow> conf_state \<Rightarrow> conf_state option" where
  "set_ints [] s = Some s"
| "set_ints ((v, n) # vs) s = do { s \<leftarrow> set_int v n s; set_ints vs s }"

definition set_ints_if :: "string \<Rightarrow> (int \<Rightarrow> bool) \<Rightarrow> (string \<times> int) list \<Rightarrow> conf_state \<Rightarrow> conf_state option" where
  "set_ints_if v P vs s = do { n \<leftarrow> get_int v s; if P n then set_ints vs s else Some s }"

text \<open>
  \<open>clear_values\<close>: what is reset when the card comes from another camera, and what the user asked
  to have reset at every start.
\<close>

definition clear_values :: "conf_env \<Rightarrow> conf_state \<Rightarrow> conf_state option" where
  "clear_values e s = do {
     s \<leftarrow> set_int ''alt_mode_button'' (e_alt_button e) s;
     s \<leftarrow> set_ints_if ''platformid'' (\<lambda>n. n \<noteq> e_platformid e)
       [(''fast_ev'', 0), (''fast_movie_control'', 0), (''fast_movie_quality_control'', 0), (''platformid'', e_platformid e),
        (''flash_video_override'', 0), (''remote_input_channel'', 0), (''video_mode'', 0),
        (''video_quality'', e_video_quality e), (''video_bitrate'', e_video_bitrate e)] s;
     s \<leftarrow> set_ints_if ''osd_platformid'' (\<lambda>n. n \<noteq> e_platformid e)
       [(''zoom_scale'', 100), (''batt_volts_max'', sint (e_batt_max e)), (''batt_volts_min'', sint (e_batt_min e)),
        (''osd_platformid'', e_platformid e), (''mem_view_addr_init'', 0x1000)] s;
     s \<leftarrow> set_ints_if ''clear_override'' (\<lambda>n. n \<noteq> 0)
       [(''av_override_enabled'', 0), (''tv_override_enabled'', 0), (''subj_dist_override_koef'', 0),
        (''iso_override_koef'', 0), (''nd_filter_state'', 0)] s;
     s \<leftarrow> set_ints_if ''clear_bracket'' (\<lambda>n. n \<noteq> 0)
       [(''av_bracket_value'', 0), (''tv_bracket_value'', 0), (''iso_bracket_koef'', 0), (''subj_dist_bracket_koef'', 0)] s;
     set_ints_if ''clear_video'' (\<lambda>n. n \<noteq> 0)
       [(''video_mode'', 0), (''video_quality'', e_video_quality e), (''video_bitrate'', e_video_bitrate e)] s
   }"

fun restore_handlers :: "'c card_ops \<Rightarrow> (nat \<Rightarrow> info_func) \<Rightarrow> bool \<Rightarrow> handlers \<Rightarrow> 'c \<Rightarrow> conf_state \<Rightarrow> (handlers \<times> conf_state) option" where
  "restore_handlers ops infos old [] c s = Some ([], s)"
| "restore_handlers ops infos old (h # hs) c s = do {
     s \<leftarrow> config_restore ops (h_ci h) (h_file h) (infos (h_start h)) c s;
     h \<leftarrow> (if old then Some h else refresh h s);
     (hs, s) \<leftarrow> restore_handlers ops infos old hs c s;
     Some (h # hs, s)
   }"

abbreviation (input) BEND_SHOT_IN_JPEG :: int where "BEND_SHOT_IN_JPEG \<equiv> 1"
abbreviation (input) BEND_SHOT_SIDECAR :: int where "BEND_SHOT_SIDECAR \<equiv> 2"

text \<open>Recipes beside the picture are retired: the old value becomes the one in the JPEG.\<close>

definition retire_sidecar :: "conf_state \<Rightarrow> conf_state option" where
  "retire_sidecar s = set_ints_if ''bend_shot_save'' (\<lambda>n. n = BEND_SHOT_SIDECAR) [(''bend_shot_save'', BEND_SHOT_IN_JPEG)] s"

definition conf_restore :: "'c card_ops \<Rightarrow> conf_env \<Rightarrow> (nat \<Rightarrow> info_func) \<Rightarrow> handlers \<Rightarrow> 'c \<Rightarrow> conf_state \<Rightarrow> (handlers \<times> conf_state) option" where
  "conf_restore ops e infos hs c s = do {
     menu \<leftarrow> init_user_menu USER_MENU_ITEMS (cs_menu s);
     s \<leftarrow> conf_load_defaults hs infos (s\<lparr>cs_menu := menu\<rparr>);
     (old, s) \<leftarrow> (if co_read ops c (h_file (hs ! 0)) = None then load_old_config ops hs infos c s else Some (False, s));
     (hs, s) \<leftarrow> restore_handlers ops infos old hs c s;
     s \<leftarrow> clear_values e s;
     s \<leftarrow> retire_sidecar s;
     Some (hs, s)
   }"

section \<open>Colours\<close>

abbreviation (input) COLOR_FIRST_OVERRIDE :: nat where "COLOR_FIRST_OVERRIDE \<equiv> 50"
abbreviation (input) COLOR_LAST_OVERRIDE :: nat where "COLOR_LAST_OVERRIDE \<equiv> 63"

fun reset_colors_of :: "ConfInfo list \<Rightarrow> nat list \<Rightarrow> conf_state \<Rightarrow> conf_state option" where
  "reset_colors_of ci [] s = Some s"
| "reset_colors_of ci (n # ns) s =
     (case findConfInfo ci (word_of_nat n) of
        None \<Rightarrow> reset_colors_of ci ns s
      | Some k \<Rightarrow> (case ci_def (ci ! k) of
            Def_word w \<Rightarrow> do { s \<leftarrow> set_mem (ci_var (ci ! k)) (le32 w) s; reset_colors_of ci ns s }
          | _ \<Rightarrow> None))"

definition resetColors :: "conf_env \<Rightarrow> conf_state \<Rightarrow> conf_state option" where
  "resetColors e s = reset_colors_of (osd_conf_info e) [COLOR_FIRST_OVERRIDE..<COLOR_LAST_OVERRIDE + 1] s"

section \<open>Values by number\<close>

definition current_id :: "u16 \<Rightarrow> u16 option" where
  "current_id i = (if i < word_of_nat CONF_CORE then map_old_id i else Some i)"

definition conf_getValue :: "handlers \<Rightarrow> u16 \<Rightarrow> conf_mem \<Rightarrow> conf_val option" where
  "conf_getValue hs i m = do {
     i \<leftarrow> current_id i;
     case find (of_handler (unat i)) hs of
       None \<Rightarrow> Some Val_empty
     | Some h \<Rightarrow> getValue (h_ci h) (i - word_of_nat (h_start h)) m
   }"

definition conf_setValue :: "'c card_ops \<Rightarrow> (nat \<Rightarrow> info_func) \<Rightarrow> bool \<Rightarrow> u16 \<Rightarrow> conf_val \<Rightarrow>
    handlers \<Rightarrow> conf_state \<Rightarrow> 'c \<Rightarrow> (bool \<times> handlers \<times> conf_state \<times> 'c) option" where
  "conf_setValue ops infos autosave i v hs s c = do {
     i \<leftarrow> current_id i;
     case find (of_handler (unat i)) hs of
       None \<Rightarrow> Some (False, hs, s, c)
     | Some h \<Rightarrow> do {
         (took, s) \<leftarrow> setValue (h_ci h) (i - word_of_nat (h_start h)) v (infos (h_start h)) s;
         if took \<and> autosave then do { (hs, s, c) \<leftarrow> conf_save ops hs s c; Some (took, hs, s, c) }
         else Some (took, hs, s, c)
       }
   }"

section \<open>Saving, and starting again\<close>

text \<open>A member that is saved and read back has the stamp it had.\<close>

lemma stamp_saved_bytes:
  assumes "c \<in> set (conf_items ci)" "plain_table ci" "sizes_ok ci m" "strings_ok ci m"
    and "m' (ci_var c) = saved_bytes c m"
  shows "item_stamp c m' = item_stamp c m"
proof (cases "ci_type c = CONF_CHAR_PTR")
  case True
  let ?w = "takeWhile (\<lambda>x. x \<noteq> (0::u8)) (m (ci_var c))"
  have 0: "0 \<in> set (m (ci_var c))" using True assms(1,4) by (simp add: strings_ok_def)
  then have "length ?w < length (m (ci_var c))" by (rule takeWhile_shorter)
  moreover have "takeWhile (\<lambda>x. x \<noteq> 0) (?w @ replicate (Suc n) 0) = ?w" for n
    by (subst takeWhile_append2) (auto dest: set_takeWhileD)
  ultimately have "c_string (m' (ci_var c)) = c_string (m (ci_var c))"
    using assms(5) True 0
    by (auto simp: c_string_def saved_bytes_def Let_def gr0_conv_Suc dest!: less_imp_Suc_add)
  then show ?thesis using True by (simp add: item_stamp_def)
next
  case False
  then show ?thesis using assms(5)
    by (simp add: saved_bytes_def Let_def item_stamp_def scalar_stamp_def peek_def split: conf_type.split)
qed

lemma stamps_exist:
  assumes "c \<in> set (conf_items ci)" "plain_table ci" "sizes_ok ci m" "strings_ok ci m"
  shows "item_stamp c m \<noteq> None"
proof -
  have l: "length (m (ci_var c)) = unat (ci_size c)" using assms by (simp add: sizes_ok_def plain_table_def)
  have "ci_type c = CONF_CHAR_PTR \<Longrightarrow> c_string (m (ci_var c)) \<noteq> None"
    using assms(1,4) takeWhile_shorter by (auto simp: strings_ok_def c_string_def)
  then show ?thesis using l
    by (auto simp: item_stamp_def scalar_stamp_def peek_def Let_def split: conf_type.split)
qed

lemma update_last_saved_ex:
  assumes "\<forall>c\<in>set (conf_items ci). item_stamp c m \<noteq> None"
  obtains ci' where "config_update_last_saved ci m = Some ci'"
proof -
  have "\<exists>ci'. config_update_last_saved ci m = Some ci'" using assms by (induction ci) auto
  then show thesis using that by blast
qed

definition handler_ok :: "confinfo_handler \<Rightarrow> conf_mem \<Rightarrow> bool" where
  "handler_ok h m \<longleftrightarrow> table_ok (h_ci h) \<and> plain_table (h_ci h) \<and> sizes_ok (h_ci h) m \<and> strings_ok (h_ci h) m"

text \<open>A function of a table that leaves the table's own members alone.\<close>

definition info_apart :: "ConfInfo list \<Rightarrow> info_func \<Rightarrow> bool" where
  "info_apart ci info \<longleftrightarrow> (\<forall>i s. \<forall>v\<in>ci_var ` set (conf_items ci). cs_mem (info i s) v = cs_mem s v)"

lemma info_apart_keeps: "info_apart ci info \<Longrightarrow> info_keeps ci info"
  by (auto simp: info_apart_def info_keeps_def sizes_ok_def)

lemma replay_apart:
  assumes "info_apart ci info" "set cs \<subseteq> set (conf_items ci)" "distinct (map ci_var cs)"
  shows "c \<in> set cs \<Longrightarrow> cs_mem (replay info m cs s) (ci_var c) = saved_bytes c m"
proof -
  have other: "\<lbrakk>v \<in> ci_var ` set (conf_items ci); v \<notin> ci_var ` set ds\<rbrakk> \<Longrightarrow> cs_mem (replay info m ds s) v = cs_mem s v" for v ds s
    using assms(1) by (induction ds arbitrary: s) (auto simp: info_apart_def)
  show "c \<in> set cs \<Longrightarrow> cs_mem (replay info m cs s) (ci_var c) = saved_bytes c m"
    using assms(2,3)
  proof (induction cs arbitrary: s)
    case (Cons d ds)
    show ?case
    proof (cases "c = d")
      case True
      then have "ci_var c \<in> ci_var ` set (conf_items ci)" "ci_var c \<notin> ci_var ` set ds" using Cons.prems by auto
      then show ?thesis using True other assms(1) by (auto simp: info_apart_def)
    next
      case False
      then show ?thesis using Cons by simp
    qed
  qed simp
qed

lemma save_handler_saved:
  assumes "handler_ok h (cs_mem s)" "h_start h \<noteq> CONF_USER" "config_has_changed (h_ci h) (cs_mem s) = Some True"
    and "config_save ops (h_ci h) (h_file h) (h_start h) s c = Some c'"
  obtains ci' where "save_handler ops h s c = Some (h\<lparr>h_ci := ci'\<rparr>, s, c')" "config_update_last_saved (h_ci h) (cs_mem s) = Some ci'"
proof -
  obtain ci' where "config_update_last_saved (h_ci h) (cs_mem s) = Some ci'"
    using update_last_saved_ex stamps_exist assms(1) unfolding handler_ok_def by metis
  then show thesis using that assms(2-4) by (simp add: save_handler_def refresh_def)
qed

lemma power_cycle:
  assumes "card_laws ops" "handler_ok h (cs_mem s)" "h_start h \<noteq> CONF_USER" "config_has_changed (h_ci h) (cs_mem s) = Some True"
    and "co_create ops c (h_file h) = (True, c1)" "config_file (h_ci h) (h_start h) s = Some bs"
    and "co_write ops c1 (h_file h) bs = (int (length bs), c2)"
    and "info_apart (h_ci h) info" "sizes_ok (h_ci h) (cs_mem t)"
  shows "\<exists>h' t'. save_handler ops h s c = Some (h', s, c2) \<and> config_restore ops (h_ci h) (h_file h) info c2 t = Some t' \<and>
     (\<forall>x\<in>set (conf_items (h_ci h)). cs_mem t' (ci_var x) = saved_bytes x (cs_mem s)) \<and>
     config_has_changed (h_ci h') (cs_mem t') = Some False"
proof -
  have h: "table_ok (h_ci h)" "plain_table (h_ci h)" "sizes_ok (h_ci h) (cs_mem s)" "strings_ok (h_ci h) (cs_mem s)"
    using assms(2) by (simp_all add: handler_ok_def)
  note card = config_save_card[OF assms(1,5,6,7)]
  obtain ci' where ci': "save_handler ops h s c = Some (h\<lparr>h_ci := ci'\<rparr>, s, c2)" "config_update_last_saved (h_ci h) (cs_mem s) = Some ci'"
    by (rule save_handler_saved[OF assms(2-4) card(1)])
  let ?t = "replay info (cs_mem s) (conf_items (h_ci h)) t"
  have r: "config_restore ops (h_ci h) (h_file h) info c2 t = Some ?t"
    using config_restore_saved[OF h info_apart_keeps[OF assms(8)] assms(9,6) card(2)] .
  have m: "\<forall>x\<in>set (conf_items (h_ci h)). cs_mem ?t (ci_var x) = saved_bytes x (cs_mem s)"
    using replay_apart[OF assms(8) order_refl] h(1) by (simp add: table_ok_def)
  have st: "\<forall>x\<in>set (conf_items (h_ci h)). item_stamp x (cs_mem ?t) = item_stamp x (cs_mem s)"
    using stamp_saved_bytes[OF _ h(2-4)] m by blast
  then have "config_has_changed ci' (cs_mem ?t) = Some False"
    using has_changed_after_update[OF ci'(2)] stamps_exist[OF _ h(2-4)] by simp
  then show ?thesis using ci'(1) r m by fastforce
qed

section \<open>What saving misses\<close>

lemma save_handler_unchanged:
  "\<lbrakk>config_has_changed (h_ci h) (cs_mem s) = Some False; h_start h \<noteq> CONF_USER\<rbrakk> \<Longrightarrow> save_handler ops h s c = Some (h, s, c)"
  by (simp add: save_handler_def)

text \<open>A byte of an array with at least six behind it can change without a stamp changing.\<close>

lemma int_ptr_blind:
  assumes "ci_type c = CONF_INT_PTR" "length (m (ci_var c)) = unat (ci_size c)" "i + 6 < unat (ci_size c)" "d \<in> {0x02, 0x80, 0x82}"
  shows "item_stamp c (m(ci_var c := (m (ci_var c))[i := m (ci_var c) ! i XOR d])) = item_stamp c m"
proof -
  let ?b = "m (ci_var c)"
  have b: "?b = take i ?b @ ?b ! i # drop (Suc i) ?b" using assms(2,3) by (simp add: id_take_nth_drop)
  have "?b[i := ?b ! i XOR d] = take i ?b @ (?b ! i XOR d) # drop (Suc i) ?b"
    using assms(2,3) by (simp add: upd_conv_take_nth_drop)
  moreover have "6 \<le> length (drop (Suc i) ?b)" using assms(2,3) by simp
  ultimately have "memhash31 (?b[i := ?b ! i XOR d]) = memhash31 ?b"
    using memhash31_blind[OF assms(4), of "drop (Suc i) ?b" "take i ?b" "?b ! i"] b by simp
  then show ?thesis using assms(1,2) by (simp add: item_stamp_def peek_def)
qed

lemma item_stamp_other: "ci_var c \<noteq> v \<Longrightarrow> item_stamp c (m(v := b)) = item_stamp c m"
  by (simp add: item_stamp_def scalar_stamp_def peek_def split: conf_type.split)

lemma blind_table:
  assumes "handler_ok h m" "x \<in> set (conf_items (h_ci h))" "ci_type x = CONF_INT_PTR" "i + 6 < unat (ci_size x)"
    and "d \<in> {0x02, 0x80, 0x82}" "config_update_last_saved (h_ci h) m = Some ci'"
  shows "config_has_changed ci' (m(ci_var x := (m (ci_var x))[i := m (ci_var x) ! i XOR d])) = Some False"
proof -
  have h: "table_ok (h_ci h)" "plain_table (h_ci h)" "sizes_ok (h_ci h) m" "strings_ok (h_ci h) m"
    using assms(1) by (simp_all add: handler_ok_def)
  let ?m = "m(ci_var x := (m (ci_var x))[i := m (ci_var x) ! i XOR d])"
  have l: "length (m (ci_var x)) = unat (ci_size x)" using assms(2,3) h(2,3) by (simp add: sizes_ok_def)
  have "item_stamp c ?m = item_stamp c m" if c: "c \<in> set (conf_items (h_ci h))" for c
  proof (cases "c = x")
    case True
    show ?thesis unfolding True by (rule int_ptr_blind) (use assms(3-5) l in simp_all)
  next
    case False
    then have "ci_var c \<noteq> ci_var x" using c assms(2) h(1) by (auto simp: table_ok_def distinct_map inj_on_def)
    then show ?thesis by (rule item_stamp_other)
  qed
  then show ?thesis using has_changed_after_update[OF assms(6)] stamps_exist[OF _ h(2-4)] by simp
qed

text \<open>A card that refuses the file: the table is counted as saved all the same.\<close>

lemma failed_save_forgets:
  assumes "handler_ok h (cs_mem s)" "h_start h \<noteq> CONF_USER" "config_has_changed (h_ci h) (cs_mem s) = Some True"
    and "co_create ops c (h_file h) = (False, c1)"
  shows "\<exists>h'. save_handler ops h s c = Some (h', s, c1) \<and> config_has_changed (h_ci h') (cs_mem s) = Some False \<and>
     save_handler ops h' s c1 = Some (h', s, c1)"
proof -
  have "config_save ops (h_ci h) (h_file h) (h_start h) s c = Some c1" using assms(4) by (simp add: config_save_def)
  then obtain ci' where ci': "save_handler ops h s c = Some (h\<lparr>h_ci := ci'\<rparr>, s, c1)" "config_update_last_saved (h_ci h) (cs_mem s) = Some ci'"
    by (rule save_handler_saved[OF assms(1-3)])
  then have "config_has_changed ci' (cs_mem s) = Some False" by (simp add: has_changed_just_saved)
  then show ?thesis using ci'(1) assms(2) by (intro exI[of _ "h\<lparr>h_ci := ci'\<rparr>"]) (simp add: save_handler_def)
qed

section \<open>The tables through a run\<close>

text \<open>Only \<open>last_saved\<close> changes in the tables: they are those of the camera.\<close>

abbreviation unstamp :: "ConfInfo \<Rightarrow> ConfInfo" where "unstamp \<equiv> last_saved_update (\<lambda>_. 0)"

abbreviation unstamped :: "confinfo_handler \<Rightarrow> confinfo_handler" where "unstamped \<equiv> h_ci_update (map unstamp)"

definition stamped :: "conf_env \<Rightarrow> handlers \<Rightarrow> bool" where
  "stamped e hs \<longleftrightarrow> map unstamped hs = map unstamped (confinfo_handlers e)"

lemma stamped_start: "stamped e (confinfo_handlers e)"
  by (simp add: stamped_def)

lemma update_last_saved_clear:
  "config_update_last_saved ci m = Some ci' \<Longrightarrow> map unstamp ci' = map unstamp ci"
  by (induction ci arbitrary: ci') (auto simp: bind_eq_Some_conv split: if_splits option.splits)

lemma refresh_clear: "refresh h s = Some h' \<Longrightarrow> unstamped h' = unstamped h"
  by (auto simp: refresh_def bind_eq_Some_conv update_last_saved_clear)

lemma save_handler_clear:
  "save_handler ops h s c = Some (h', s', c') \<Longrightarrow> unstamped h' = unstamped h \<and> cs_mem s' = cs_mem s"
  by (auto simp: save_handler_def bind_eq_Some_conv dest!: refresh_clear split: if_splits)

lemma conf_save_clear:
  "conf_save ops hs s c = Some (hs', s', c') \<Longrightarrow> map unstamped hs' = map unstamped hs \<and> cs_mem s' = cs_mem s"
  by (induction hs arbitrary: s c hs' s' c') (fastforce simp: bind_eq_Some_conv dest!: save_handler_clear)+

lemma restore_handlers_clear:
  "restore_handlers ops infos old hs c s = Some (hs', s') \<Longrightarrow> map unstamped hs' = map unstamped hs"
  by (induction hs arbitrary: s hs' s') (auto simp: bind_eq_Some_conv dest!: refresh_clear split: if_splits)

lemma items_unstamp: "conf_items (map unstamp ci) = map unstamp (conf_items ci)"
  by (induction ci) simp_all

lemma findConfInfo_unstamp: "findConfInfo (map unstamp ci) i = findConfInfo ci i"
proof -
  have "length (conf_items ci) \<le> length ci" by (simp add: conf_items_def length_takeWhile_le)
  then show ?thesis unfolding findConfInfo_def items_unstamp length_map
    by (intro find_cong) auto
qed

lemma set_item_unstamp: "set_item (unstamp c) v s = set_item c v s"
  by (cases "ci_type c"; cases v; simp add: set_item_def Let_def)

lemma findConfInfo_less: "findConfInfo ci i = Some k \<Longrightarrow> k < length ci"
  using length_takeWhile_le[of "\<lambda>c. 0 < ci_id c" ci] by (auto simp: findConfInfo_def find_Some_iff conf_items_def)

lemma getValue_unstamp: "getValue (map unstamp ci) i m = getValue ci i m"
proof -
  have 0: "fold (\<lambda>c k. max k (uint (ci_id c))) (map unstamp cs) = fold (\<lambda>c k. max k (uint (ci_id c))) cs" for cs
    by (induction cs) (simp_all add: fun_eq_iff)
  show ?thesis
    using findConfInfo_less[of ci i]
    by (auto simp: getValue_def items_unstamp 0 findConfInfo_unstamp Let_def get_scalar_def split: option.split conf_type.split)
qed

lemma setValue_unstamp: "setValue (map unstamp ci) i v info s = setValue ci i v info s"
  using findConfInfo_less[of ci i]
  by (auto simp: setValue_def findConfInfo_unstamp set_item_unstamp split: option.split)

lemma find_unstamped: "find (of_handler n) (map unstamped hs) = map_option unstamped (find (of_handler n) hs)"
  by (induction hs) (simp_all add: of_handler_def)

lemma conf_getValue_stamped:
  assumes "stamped e hs"
  shows "conf_getValue hs i m = conf_getValue (confinfo_handlers e) i m"
proof -
  have "conf_getValue hs i m = conf_getValue (map unstamped hs) i m" for hs
    by (simp add: conf_getValue_def find_unstamped getValue_unstamp split: option.split bind_splits)
  then show ?thesis using assms by (metis stamped_def)
qed

lemma stamped_find:
  assumes "stamped e hs" "find (of_handler n) hs = Some h"
  obtains h0 where "find (of_handler n) (confinfo_handlers e) = Some h0" "h_start h = h_start h0"
    "map unstamp (h_ci h) = map unstamp (h_ci h0)" "h0 \<in> set (confinfo_handlers e)"
proof -
  have "map_option unstamped (find (of_handler n) (confinfo_handlers e)) = Some (unstamped h)"
    using find_unstamped[of n hs] find_unstamped[of n "confinfo_handlers e"] assms by (simp add: stamped_def)
  then obtain h0 where h0: "find (of_handler n) (confinfo_handlers e) = Some h0" "unstamped h = unstamped h0" by auto
  then have "h0 \<in> set (confinfo_handlers e)" by (auto simp: find_Some_iff)
  moreover have "h_start h = h_start h0" "map unstamp (h_ci h) = map unstamp (h_ci h0)"
    using arg_cong[OF h0(2), of h_start] arg_cong[OF h0(2), of h_ci] by simp_all
  ultimately show thesis using that h0(1) by blast
qed

section \<open>Values by number\<close>

text \<open>What scripts read depends on the members of the table only.\<close>

lemma get_scalar_cong: "m' (ci_var c) = m (ci_var c) \<Longrightarrow> get_scalar c m' = get_scalar c m"
  by (simp add: get_scalar_def peek_def)

lemma getValue_cong:
  assumes "\<forall>v\<in>ci_var ` set (conf_items ci). m' v = m v"
  shows "getValue ci i m' = getValue ci i m"
proof (cases "i = 0 \<or> findConfInfo ci i = None")
  case False
  then obtain k where k: "findConfInfo ci i = Some k" by auto
  then have "m' (ci_var (ci ! k)) = m (ci_var (ci ! k))" using assms findConfInfo_Some by blast
  then show ?thesis using k get_scalar_cong[of m' "ci ! k" m]
    by (cases "ci_type (ci ! k)") (simp_all add: getValue_def Let_def peek_def)
qed (elim disjE; simp add: getValue_def)

lemma set_get_value:
  assumes "table_ok ci" "c \<in> set (conf_items ci)" "ci_type c \<in> {CONF_DEF_VALUE, CONF_FUNC_PTR}" "ci_id c \<noteq> 999"
    and "length (cs_mem s (ci_var c)) = unat (ci_size c)" "info_apart ci info"
  shows "\<exists>s'. setValue ci (ci_id c) (Val_numb n) info s = Some (True, s') \<and>
     getValue ci (ci_id c) (cs_mem s') = Some (Val_numb (narrowed (ci_size c) n)) \<and>
     (\<forall>j. j \<noteq> ci_id c \<longrightarrow> getValue ci j (cs_mem s') = getValue ci j (cs_mem s))"
proof -
  have ok: "item_ok c" using assms(1,2) by (simp add: table_ok_def)
  obtain k where k: "findConfInfo ci (ci_id c) = Some k" "ci ! k = c" by (rule findConfInfo_item[OF assms(1,2)])
  obtain b where b: "set_item c (Val_numb n) s = Some (True, s\<lparr>cs_mem := (cs_mem s)(ci_var c := b)\<rparr>)"
    "get_scalar c ((cs_mem s)(ci_var c := b)) = Some (Val_numb (narrowed (ci_size c) n))"
    by (rule set_item_numb[OF ok assms(3,5), of n])
  let ?m = "(cs_mem s)(ci_var c := b)" and ?s = "info (ci_id c) (s\<lparr>cs_mem := (cs_mem s)(ci_var c := b)\<rparr>)"
  have "getValue ci j (cs_mem ?s) = getValue ci j ?m" for j
    by (rule getValue_cong) (use assms(6) in \<open>auto simp: info_apart_def\<close>)
  moreover have "getValue ci (ci_id c) ?m = Some (Val_numb (narrowed (ci_size c) n))"
    using k b(2) conf_items_nonzero[OF assms(2)] assms(3) by (elim insertE) (simp_all add: getValue_def Let_def)
  moreover have "setValue ci (ci_id c) (Val_numb n) info s = Some (True, ?s)"
    using k b(1) assms(4) by (simp add: setValue_def)
  ultimately show ?thesis using getValue_other[OF assms(1,2)] by (intro exI[of _ ?s]) simp
qed

end
