(* ===== verification/ConfLaws.thy ===== *)
theory ConfLaws
  imports ConfUse
begin

text \<open>
  What holds of the tables of the camera: the switch for native calls and how it can be set, what
  the numbers of version 1.2 lead to, the user menu through its file, which numbers a script may
  read, and the state after the defaults and at the end of power on.
\<close>

section \<open>Entries of the core table\<close>

lemma conf_info_rows:
  "CONF_INFO 999 ''script_allow_lua_native_calls'' 4 CONF_DEF_VALUE (Def_i 0) \<in> set (conf_info e)"
  "CONF_INFO 288 ''bitbend'' 32 CONF_INT_PTR (Def_i 0) \<in> set (conf_info e)"
  "CONF_INFO 293 ''bend_shot_save'' 4 CONF_DEF_VALUE (Def_i 1) \<in> set (conf_info e)"
  unfolding conf_info_def by (intro list.set_intros)+

lemma conf_info_item: "\<lbrakk>c \<in> set (conf_info e); ci_id c \<noteq> 0\<rbrakk> \<Longrightarrow> c \<in> set (conf_items (conf_info e))"
  by (rule table_entry[OF conf_info_ids]) simp_all

lemma conf_info_entries:
  "CONF_INFO 999 ''script_allow_lua_native_calls'' 4 CONF_DEF_VALUE (Def_i 0) \<in> set (conf_items (conf_info e))"
  "CONF_INFO 288 ''bitbend'' 32 CONF_INT_PTR (Def_i 0) \<in> set (conf_items (conf_info e))"
  "CONF_INFO 293 ''bend_shot_save'' 4 CONF_DEF_VALUE (Def_i 1) \<in> set (conf_items (conf_info e))"
  using conf_info_rows[THEN conf_info_item] by simp_all

section \<open>Native calls\<close>

abbreviation (input) native_calls :: string where "native_calls \<equiv> ''script_allow_lua_native_calls''"

text \<open>An entry of a table that is the native call switch has number 999.\<close>

definition native_row :: "ConfInfo \<Rightarrow> bool" where
  "native_row c \<longleftrightarrow> (ci_var c = native_calls \<longrightarrow> ci_id c = 999)"

lemma native_row_if: "native_row (if P then a else b) = (if P then native_row a else native_row b)" by simp

lemma native_row_entry: "native_row (CONF_INFO i v sz ty d) \<longleftrightarrow> (v = native_calls \<longrightarrow> i = 999)"
  by (simp add: native_row_def)

lemma native_rows:
  "list_all native_row (conf_info e)" "list_all native_row (osd_conf_info e)" "list_all native_row (user_menu_conf_info e)"
  "list_all native_row (gps_conf_info e)"
  unfolding conf_info_def osd_conf_info_def user_menu_conf_info_def gps_conf_info_def entry_macros list.pred_inject
    native_row_if native_row_entry by (simp_all only: if_cancel) simp_all

lemma set_mem_other: "\<lbrakk>set_mem v b s = Some s'; v \<noteq> w\<rbrakk> \<Longrightarrow> cs_mem s' w = cs_mem s w"
  by (auto simp: set_mem_def poke_def bind_eq_Some_conv split: if_splits)

lemma set_item_other:
  assumes "set_item c v s = Some (r, s')" "ci_var c \<noteq> w"
  shows "cs_mem s' w = cs_mem s w"
  using assms set_mem_other[OF _ assms(2)]
  by (cases "ci_type c"; cases v) (auto simp: set_item_def Let_def split: if_splits)

lemma handlers_native:
  assumes "h \<in> set (confinfo_handlers e)" "c \<in> set (h_ci h)"
  shows "native_row c"
  using assms native_rows[of e] by (auto simp: confinfo_handlers_def list_all_iff split: if_splits)

lemma stamped_native:
  assumes "stamped e hs" "find (of_handler n) hs = Some h" "c \<in> set (h_ci h)"
  shows "native_row c"
proof -
  obtain h0 where h0: "map unstamp (h_ci h) = map unstamp (h_ci h0)" "h0 \<in> set (confinfo_handlers e)"
    by (rule stamped_find[OF assms(1,2)])
  have "unstamp c \<in> set (map unstamp (h_ci h0))" using assms(3) unfolding h0(1)[symmetric] by simp
  then obtain c0 where c0: "c0 \<in> set (h_ci h0)" "unstamp c = unstamp c0" by auto
  have "ci_var c = ci_var c0" "ci_id c = ci_id c0"
    using arg_cong[OF c0(2), of ci_var] arg_cong[OF c0(2), of ci_id] by simp_all
  then show ?thesis using handlers_native[OF h0(2) c0(1)] by (simp add: native_row_def)
qed

text \<open>What a script sets by number is never the native call switch.\<close>

lemma setValue_native:
  assumes "\<forall>c\<in>set ci. native_row c" "\<forall>i s. cs_mem (info i s) native_calls = cs_mem s native_calls"
    and "setValue ci i v info s = Some (r, s')"
  shows "cs_mem s' native_calls = cs_mem s native_calls"
proof (cases "i = 999 \<or> findConfInfo ci i = None")
  case False
  then obtain k where k: "i \<noteq> 999" "findConfInfo ci i = Some k" by auto
  have "ci ! k \<in> set ci" "ci_id (ci ! k) = i"
    using findConfInfo_Some[OF k(2)] findConfInfo_less[OF k(2)] by simp_all
  then have v: "ci_var (ci ! k) \<noteq> native_calls" using assms(1) k(1) by (auto simp: native_row_def)
  obtain s1 where s1: "set_item (ci ! k) v s = Some (r, s1)" "s' = (if r then info i s1 else s1)"
    using assms(3) k by (auto simp: setValue_def bind_eq_Some_conv)
  then show ?thesis using set_item_other[OF s1(1) v] assms(2) by simp
qed (use assms(3) in \<open>auto simp: setValue_def split: option.splits\<close>)

lemma conf_setValue_native:
  assumes "stamped e hs" "\<forall>b i s. cs_mem (infos b i s) native_calls = cs_mem s native_calls"
    and "conf_setValue ops infos autosave i v hs s c = Some (r, hs', s', c')"
  shows "cs_mem s' native_calls = cs_mem s native_calls" "stamped e hs'"
proof -
  obtain j where j: "current_id i = Some j" using assms(3) by (auto simp: conf_setValue_def bind_eq_Some_conv)
  have "cs_mem s' native_calls = cs_mem s native_calls \<and> stamped e hs'"
  proof (cases "find (of_handler (unat j)) hs")
    case None
    then show ?thesis using assms(1,3) j by (auto simp: conf_setValue_def)
  next
    case (Some h)
    obtain s1 where s1: "setValue (h_ci h) (j - word_of_nat (h_start h)) v (infos (h_start h)) s = Some (r, s1)"
      "if r \<and> autosave then conf_save ops hs s1 c = Some (hs', s', c') else hs' = hs \<and> s' = s1"
      using assms(3) j Some by (auto simp: conf_setValue_def bind_eq_Some_conv split: if_splits)
    have "cs_mem s1 native_calls = cs_mem s native_calls"
      using setValue_native[OF _ _ s1(1)] stamped_native[OF assms(1) Some] assms(2) by blast
    then show ?thesis using s1(2) assms(1) conf_save_clear[of ops hs s1 c hs' s' c']
      by (auto simp: stamped_def split: if_splits)
  qed
  then show "cs_mem s' native_calls = cs_mem s native_calls" "stamped e hs'" by simp_all
qed

text \<open>A file the script has written does set it.\<close>

lemma items_stamped:
  assumes "map unstamp ci = map unstamp ci0" "c0 \<in> set (conf_items ci0)"
  obtains c where "c \<in> set (conf_items ci)" "unstamp c = unstamp c0"
proof -
  have "unstamp c0 \<in> set (map unstamp (conf_items ci))"
    using assms by (simp only: items_unstamp[symmetric]) (simp add: items_unstamp)
  then show thesis using that by auto
qed

lemma handlers_core: "\<lbrakk>1000 \<le> n; n < 2000\<rbrakk> \<Longrightarrow>
  find (of_handler n) (confinfo_handlers e) = Some \<lparr>h_start = CONF_CORE, h_end = CONF_CORE + 999, h_ci = conf_info e, h_file = ''A/CHDK/CCHDK4.CFG''\<rparr>"
  by (simp add: confinfo_handlers_def of_handler_def)

lemma load_config_file_find:
  assumes "find (of_handler b) hs = Some h" "config_restore ops (h_ci h) fn (infos (h_start h)) c s = Some s'"
  shows "load_config_file ops infos b (Some fn) hs c s = Some (True, hs, s')"
  using assms
proof (induction hs)
  case (Cons g hs)
  then show ?case by (cases "of_handler b g") simp_all
qed simp

lemma unstamp_fields: "unstamp c = unstamp d \<Longrightarrow> ci_id c = ci_id d \<and> ci_var c = ci_var d \<and> ci_size c = ci_size d \<and> ci_type c = ci_type d \<and> ci_def c = ci_def d"
  by (metis ConfInfo.select_convs ConfInfo.surjective ConfInfo.update_convs(6))

lemma item_ok_unstamp: "item_ok (unstamp c) = item_ok c"
  by (cases "ci_type c") (simp_all add: item_ok_def)

lemma table_ok_unstamp: "table_ok (map unstamp ci) = table_ok ci"
  by (simp add: table_ok_def items_unstamp comp_def item_ok_unstamp)

lemma plain_table_unstamp: "plain_table (map unstamp ci) = plain_table ci"
  by (simp add: plain_table_def items_unstamp)

lemma load_native_calls:
  assumes "stamped e hs" "env_ok e" "\<forall>i s. cs_mem (infos CONF_CORE i s) native_calls = cs_mem s native_calls"
    and "length (cs_mem s native_calls) = 4"
    and "co_read ops c fn = Some (le32 CONF_MAGICK_VALUE @ le32 x @ le16 999 @ le16 4 @ le32 1)"
  shows "\<exists>s'. load_config_file ops infos CONF_CORE (Some fn) hs c s = Some (True, hs, s') \<and> get_int native_calls s' = Some 1"
proof -
  obtain h where h: "find (of_handler CONF_CORE) hs = Some h"
    using assms(1) handlers_core[of CONF_CORE e] find_unstamped[of CONF_CORE hs] find_unstamped[of CONF_CORE "confinfo_handlers e"]
    by (cases "find (of_handler CONF_CORE) hs") (auto simp: stamped_def)
  obtain h0 where h0: "find (of_handler CONF_CORE) (confinfo_handlers e) = Some h0" "h_start h = h_start h0"
    "map unstamp (h_ci h) = map unstamp (h_ci h0)"
    by (rule stamped_find[OF assms(1) h])
  have "h_start h = CONF_CORE" "map unstamp (h_ci h) = map unstamp (conf_info e)" using h0 handlers_core[of CONF_CORE e] by auto
  note h = h this
  have tab: "table_ok (h_ci h)" "plain_table (h_ci h)"
    using h(3) conf_info_ok[OF assms(2)] conf_info_plain[of e] table_ok_unstamp plain_table_unstamp by metis+
  obtain d where d: "d \<in> set (conf_items (h_ci h))" "unstamp d = unstamp (CONF_INFO 999 native_calls 4 CONF_DEF_VALUE (Def_i 0))"
    by (rule items_stamped[OF h(3) conf_info_entries(1)])
  then have f: "ci_id d = 999" "ci_var d = native_calls" "ci_size d = 4" using unstamp_fields[OF d(2)] by simp_all
  let ?s = "infos CONF_CORE 999 (s\<lparr>cs_mem := (cs_mem s)(native_calls := le32 1)\<rparr>)"
  have p: "parse_entries (le16 999 @ le16 4 @ le32 1) = [(999, le32 1)]"
    using parse_entries_entry[of "(999, le32 1)" "[]"] by (simp add: entry_bytes_def le32.enc_length parse_entries_short)
  have "apply_entry (h_ci h) (infos CONF_CORE) (999, le32 1) s = Some ?s"
    using apply_entry_item[OF tab(1) d(1), of "le32 1" s "infos CONF_CORE"] f assms(4) by (simp add: le32.enc_length)
  then have r: "config_restore ops (h_ci h) fn (infos (h_start h)) c s = Some ?s"
    using config_restore_file[OF tab(2), of ops c fn x "le16 999 @ le16 4 @ le32 1"] assms(5) p h(2) by simp
  have l: "load_config_file ops infos CONF_CORE (Some fn) hs c s = Some (True, hs, ?s)"
    by (rule load_config_file_find[OF h(1)]) (rule r)
  have "get_int native_calls ?s = Some 1"
    using assms(3) by (simp add: get_int_def peek_def le32.enc_length le32.dec_enc)
  then show ?thesis using l by blast
qed

section \<open>Power on\<close>

lemma set_int_get:
  assumes "set_int v n s = Some s'" "- (2 ^ 31) \<le> n" "n < 2 ^ 31"
  shows "get_int v s' = Some n"
proof -
  have "4 \<le> length (cs_mem s v)" "cs_mem s' = (cs_mem s)(v := le32 (word_of_int n) @ drop 4 (cs_mem s v))"
    using assms(1) by (auto simp: set_int_def set_mem_def poke_def bind_eq_Some_conv le32.enc_length split: if_splits)
  then show ?thesis using assms(2,3)
    by (simp add: get_int_def peek_def le32.enc_length le32.dec_enc signed_of_int signed_take_bit_int_eq_self)
qed

lemma retire_sidecar_gone:
  assumes "retire_sidecar s = Some s'"
  shows "get_int ''bend_shot_save'' s' \<noteq> Some BEND_SHOT_SIDECAR" "get_int ''bend_shot_save'' s' \<noteq> None"
proof -
  obtain n where n: "get_int ''bend_shot_save'' s = Some n" "if n = BEND_SHOT_SIDECAR then set_int ''bend_shot_save'' BEND_SHOT_IN_JPEG s = Some s' else s' = s"
    using assms by (auto simp: retire_sidecar_def set_ints_if_def bind_eq_Some_conv split: if_splits)
  then have "get_int ''bend_shot_save'' s' = Some (if n = BEND_SHOT_SIDECAR then BEND_SHOT_IN_JPEG else n)"
    using set_int_get by (auto split: if_splits)
  then show "get_int ''bend_shot_save'' s' \<noteq> Some BEND_SHOT_SIDECAR" "get_int ''bend_shot_save'' s' \<noteq> None" by auto
qed

section \<open>Numbers of version 1.2\<close>

lemma conf_map_length: "length conf_map_1_2 = 303"
  by (simp add: conf_map_1_2_def)

lemma sint_unat:
  assumes "0 \<le> sint (i :: u16)"
  shows "unat i = nat (sint i)"
proof -
  have s: "sint i = signed_take_bit 15 (uint i)" by (simp add: sint_uint)
  then have n: "\<not> bit (uint i) 15" using assms by (simp add: signed_take_bit_nonnegative_iff)
  have "uint i = take_bit (Suc 15) (uint i)" using unsigned_less[of i, where 'a = int] by (simp add: take_bit_int_eq_self)
  also have "\<dots> = take_bit 15 (uint i)" using n by (subst take_bit_Suc_from_most) simp
  finally have "sint i = uint i" using s n by (simp add: signed_take_bit_eq_if_positive)
  then show ?thesis by simp
qed

lemma map_old_id_None: "map_old_id i = None \<longleftrightarrow> \<not> (0 \<le> sint i \<and> sint i < 303)"
  by (auto simp: map_old_id_def rd_def conf_map_length sint_unat)

text \<open>The numbers of 1.2 lead to entries of today, each to its own.\<close>

lemma conf_map_distinct: "distinct (filter (\<lambda>i. i \<noteq> 0) (map uint conf_map_1_2))"
  by (simp add: conf_map_1_2_def)

lemma conf_map_inj:
  assumes "i < 303" "j < 303" "conf_map_1_2 ! i = conf_map_1_2 ! j" "conf_map_1_2 ! i \<noteq> 0"
  shows "i = j"
proof -
  have "distinct (filter (\<lambda>i. i \<noteq> 0) xs) \<Longrightarrow> i < length xs \<Longrightarrow> j < length xs \<Longrightarrow> xs ! i = xs ! j \<Longrightarrow> xs ! i \<noteq> 0 \<Longrightarrow> i = j"
    for xs :: "int list" and i j
  proof (induction xs arbitrary: i j)
    case (Cons x xs)
    have r: "distinct (filter (\<lambda>i. i \<noteq> 0) xs)" using Cons.prems(1) by (auto split: if_splits)
    have n: "x \<noteq> 0 \<Longrightarrow> x \<notin> set xs" using Cons.prems(1) by auto
    show ?case using Cons.prems(2-5) n r Cons.IH[of "i - 1" "j - 1"]
      by (cases i; cases j) auto
  qed simp
  from this[OF conf_map_distinct, of i j] show ?thesis using assms conf_map_length by (simp add: word_eq_iff_unsigned unsigned_eq_0_iff)
qed

lemma conf_map_core: "list_all (\<lambda>i. i \<notin> {1000..<2000} \<or> i - 1000 \<in> set (map (uint \<circ> ci_id) (butlast (conf_info e)))) (map uint conf_map_1_2)"
  unfolding map_map[symmetric] map_butlast conf_info_ids
  by (simp add: conf_map_1_2_def)

lemma conf_map_osd: "list_all (\<lambda>i. i \<notin> {2000..<3000} \<or> i - 2000 \<in> set (map (uint \<circ> ci_id) (butlast (osd_conf_info e)))) (map uint conf_map_1_2)"
  unfolding map_map[symmetric] map_butlast osd_conf_info_ids
  by (simp add: conf_map_1_2_def)

lemma conf_map_user: "list_all (\<lambda>i. i \<notin> {3000..<4000} \<or> i - 3000 \<in> set (map (uint \<circ> ci_id) (butlast (user_menu_conf_info e)))) (map uint conf_map_1_2)"
  unfolding map_map[symmetric] map_butlast user_menu_conf_info_ids
  by (simp add: conf_map_1_2_def)

lemma conf_map_gps: "list_all (\<lambda>i. i \<notin> {4000..<5000} \<or> i - 4000 \<in> set (map (uint \<circ> ci_id) (butlast (gps_conf_info e)))) (map uint conf_map_1_2)"
  unfolding map_map[symmetric] map_butlast gps_conf_info_ids
  by (simp add: conf_map_1_2_def)

lemma conf_map_range: "list_all (\<lambda>i. i = 0 \<or> i \<in> {1000..<5000}) (map uint conf_map_1_2)"
  by (simp add: conf_map_1_2_def)

section \<open>The table of the user menu\<close>

text \<open>One entry of the buffer that has an item, whatever its type.\<close>

lemma restore_items_step:
  assumes "drop offs buf = le16 (ci_id c) @ le16 (ucast (ci_size c)) @ r" "unat (ci_size c) \<le> length r"
    and "distinct (map ci_id (conf_items ci))" "c \<in> set (conf_items ci)"
    and "restore_item info c buf (offs + 4) (ucast (ci_size c)) s = Some (n, s')"
  shows "restore_items ci info buf offs s = restore_items ci info buf (offs + 4 + unat n) s'"
proof -
  have len: "length buf = offs + 4 + length r"
    using arg_cong[OF assms(1), of length] by (simp add: le16.enc_length)
  have d2: "drop (offs + 2) buf = le16 (ucast (ci_size c)) @ r"
    using arg_cong[OF assms(1), of "drop 2"] by (simp add: le16.enc_length add.commute)
  have i: "of_le16 (drop offs buf) = ci_id c" "of_le16 (drop (offs + 2) buf) = ucast (ci_size c)"
    unfolding assms(1) d2 by (simp_all add: of_le16_append)
  have u: "unat (ucast (ci_size c) :: u16) = unat (ci_size c)" using ucast_size_iff[of c "ucast (ci_size c)"] by simp
  have f: "find (\<lambda>d. ci_id d = ci_id c \<and> ucast (ci_size d) = (ucast (ci_size c) :: u16)) (conf_items ci) = Some c"
  proof (cases "find (\<lambda>d. ci_id d = ci_id c \<and> ucast (ci_size d) = (ucast (ci_size c) :: u16)) (conf_items ci)")
    case None
    then show ?thesis using assms(4) by (auto simp: find_None_iff)
  next
    case (Some d)
    then have "d \<in> set (conf_items ci)" "ci_id d = ci_id c" by (auto dest: find_item)
    then have "d = c" using assms(3,4) by (auto simp: distinct_map inj_on_def)
    then show ?thesis using Some by simp
  qed
  show ?thesis
    by (subst restore_items.simps) (use len i f u assms(2,5) in \<open>simp add: Let_def\<close>)
qed

abbreviation (input) menu_items :: "ConfInfo list" where
  "menu_items \<equiv> [CONF_INFO 1 ''user_menu_vars'' 24 CONF_STRUCT_PTR (Def_i 0), CONF_INFO 2 ''user_menu_as_root'' 4 CONF_DEF_VALUE (Def_i 0),
     CONF_INFO 3 ''user_menu_enable'' 4 CONF_DEF_VALUE (Def_i 0)]"

lemma user_menu_items: "conf_items (user_menu_conf_info e) = menu_items"
  by (simp add: user_menu_conf_info_def CONF_END_def)

lemma user_menu_file:
  assumes "user_menu_store_data (cs_menu s) = Some md"
    and "length (cs_mem s ''user_menu_as_root'') = 4" "length (cs_mem s ''user_menu_enable'') = 4"
  shows "config_file (user_menu_conf_info e) base s = Some (le32 CONF_MAGICK_VALUE @ le32 (word_of_nat base) @
     le16 1 @ le16 24 @ md @ le16 2 @ le16 4 @ cs_mem s ''user_menu_as_root'' @ le16 3 @ le16 4 @ cs_mem s ''user_menu_enable'')"
  using assms by (simp add: config_file_def user_menu_conf_info_def CONF_END_def item_bytes_def peek_def)

lemma user_menu_table_restored:
  assumes "strings_wf (cs_menu s)" "\<forall>v\<in>set (menu_view (cs_menu s)). slot_ok v" "length (ms_items (cs_menu s)) = 14"
    and "strings_wf (cs_menu t)" "length (ms_items (cs_menu t)) = 14"
    and "length (cs_mem s ''user_menu_as_root'') = 4" "length (cs_mem s ''user_menu_enable'') = 4"
    and "length (cs_mem t ''user_menu_as_root'') = 4" "length (cs_mem t ''user_menu_enable'') = 4"
    and "config_file (user_menu_conf_info e) base s = Some bs" "co_read ops c fn = Some bs"
  shows "\<exists>t'. config_restore ops (user_menu_conf_info e) fn no_info c t = Some t' \<and>
     strings_wf (cs_menu t') \<and> ms_sub (cs_menu t') = ms_sub (cs_menu t) \<and>
     menu_view (cs_menu t') = map2 over_slot (menu_view (cs_menu t)) (menu_view (cs_menu s)) \<and>
     cs_mem t' = (cs_mem t)(''user_menu_as_root'' := cs_mem s ''user_menu_as_root'', ''user_menu_enable'' := cs_mem s ''user_menu_enable'')"
proof -
  obtain md where md: "user_menu_store_data (cs_menu s) = Some md"
    using user_menu_store_data_owned[OF assms(1)] by blast
  let ?a = "cs_mem s ''user_menu_as_root''" and ?b = "cs_mem s ''user_menu_enable''"
  define tl where "tl = le16 2 @ le16 4 @ ?a @ le16 3 @ le16 4 @ ?b"
  have bs: "bs = le32 CONF_MAGICK_VALUE @ le32 (word_of_nat base) @ le16 1 @ le16 24 @ md @ tl"
    using user_menu_file[OF md assms(6,7), of e base] assms(10) by (simp add: tl_def)
  have lmd: "length md = 2860"
    using user_menu_saved_size_store[OF assms(1,2) md] assms(3) by (simp add: user_menu_saved_size_def)
  have d8: "drop 8 bs = le16 1 @ le16 24 @ md @ tl" by (simp add: bs le32.enc_length)
  have d12: "drop 12 bs = md @ tl" by (simp add: bs le32.enc_length le16.enc_length)
  have d2872: "drop 2872 bs = tl" by (simp add: bs le32.enc_length le16.enc_length lmd)
  have d2880: "drop 2880 bs = le16 3 @ le16 4 @ ?b" by (simp add: bs tl_def le32.enc_length le16.enc_length lmd assms(6))
  have d2876: "drop 2876 bs = ?a @ le16 3 @ le16 4 @ ?b" by (simp add: bs tl_def le32.enc_length le16.enc_length lmd)
  have d2884: "drop 2884 bs = ?b" by (simp add: bs tl_def le32.enc_length le16.enc_length lmd assms(6))
  obtain menu where menu: "user_menu_load_data bs 12 (cs_menu t) = Some (user_menu_saved_size menu, menu)" "strings_wf menu"
      "ms_sub menu = ms_sub (cs_menu t)" "menu_view menu = map2 over_slot (menu_view (cs_menu t)) (menu_view (cs_menu s))"
    using user_menu_load_store[OF assms(1,2) _ assms(4) md d12] assms(3,5) by (auto simp: menu_view_def)
  have "length (ms_items menu) = 14" using arg_cong[OF menu(4), of length] assms(3,5) by (simp add: menu_view_def)
  then have sz: "user_menu_saved_size menu = 2860" by (simp add: user_menu_saved_size_def)
  let ?ci = "user_menu_conf_info e"
  have dist: "distinct (map ci_id (conf_items ?ci))" by (simp add: user_menu_items)
  let ?t1 = "t\<lparr>cs_menu := menu\<rparr>"
  let ?t2 = "?t1\<lparr>cs_mem := (cs_mem t)(''user_menu_as_root'' := ?a)\<rparr>"
  let ?t3 = "?t1\<lparr>cs_mem := (cs_mem t)(''user_menu_as_root'' := ?a, ''user_menu_enable'' := ?b)\<rparr>"
  have "restore_items ?ci no_info bs 8 t = restore_items ?ci no_info bs (8 + 4 + unat (2860 :: u16)) ?t1"
    by (rule restore_items_step[where c = "CONF_INFO 1 ''user_menu_vars'' 24 CONF_STRUCT_PTR (Def_i 0)" and r = "md @ tl"])
      (use d8 lmd dist menu(1) sz in \<open>simp_all add: user_menu_items restore_item_def no_info_def\<close>)
  also have "\<dots> = restore_items ?ci no_info bs 2872 ?t1" by simp
  also have "\<dots> = restore_items ?ci no_info bs (2872 + 4 + unat (4 :: u16)) ?t2"
    by (rule restore_items_step[where c = "CONF_INFO 2 ''user_menu_as_root'' 4 CONF_DEF_VALUE (Def_i 0)" and r = "?a @ le16 3 @ le16 4 @ ?b"])
      (use d2872 d2876 dist assms(6,8) in \<open>simp_all add: tl_def user_menu_items restore_item_def no_info_def set_mem_exact\<close>)
  also have "\<dots> = restore_items ?ci no_info bs 2880 ?t2" by simp
  also have "\<dots> = restore_items ?ci no_info bs (2880 + 4 + unat (4 :: u16)) ?t3"
    by (rule restore_items_step[where c = "CONF_INFO 3 ''user_menu_enable'' 4 CONF_DEF_VALUE (Def_i 0)" and r = "?b"])
      (use d2880 d2884 dist assms(7,9) in \<open>simp_all add: tl_def user_menu_items restore_item_def no_info_def set_mem_exact\<close>)
  also have "\<dots> = Some ?t3" by (subst restore_items.simps) (simp add: bs tl_def le32.enc_length le16.enc_length lmd assms(6,7))
  finally have run: "restore_items ?ci no_info bs 8 t = Some ?t3" .
  obtain b0 r0 where ne: "bs = b0 # r0" using bs by (simp add: le32_def)
  have "rd_n 4 bs = Some (le32 CONF_MAGICK_VALUE, drop 4 bs)" unfolding bs by (simp add: rd_n_def le32.enc_length)
  then have "config_restore ops ?ci fn no_info c t = Some ?t3"
    using run assms(11) by (simp add: config_restore_def ne le32.dec_enc)
  then show ?thesis using menu(2-4) by simp
qed

section \<open>What a number reads\<close>

lemma find_handler: "find (of_handler n) hs = Some h \<Longrightarrow> h \<in> set hs \<and> of_handler n h"
  by (auto simp: find_Some_iff)

lemma handlers_tables:
  "h \<in> set (confinfo_handlers e) \<Longrightarrow>
   h_ci h = conf_info e \<or> h_ci h = osd_conf_info e \<or> h_ci h = user_menu_conf_info e \<or> e_gps e \<and> h_ci h = gps_conf_info e"
  by (auto simp: confinfo_handlers_def split: if_splits)

lemma handlers_ok: "\<lbrakk>env_ok e; h \<in> set (confinfo_handlers e)\<rbrakk> \<Longrightarrow> table_ok (h_ci h)"
  using handlers_tables conf_info_ok osd_conf_info_ok user_menu_conf_info_ok gps_conf_info_ok by metis

text \<open>Every member there, every string ended.\<close>

definition members_ok :: "conf_env \<Rightarrow> conf_mem \<Rightarrow> bool" where
  "members_ok e m \<longleftrightarrow> (\<forall>h\<in>set (confinfo_handlers e). sizes_ok (h_ci h) m \<and> strings_ok (h_ci h) m)"

lemma getValue_defined:
  assumes "table_ok ci" "sizes_ok ci m" "strings_ok ci m"
  shows "getValue ci i m \<noteq> None"
proof (cases "i = 0 \<or> findConfInfo ci i = None")
  case False
  then obtain k where k: "findConfInfo ci i = Some k" by auto
  let ?c = "ci ! k"
  have c: "?c \<in> set (conf_items ci)" using findConfInfo_Some[OF k] by simp
  then have "item_ok ?c" "ci_type ?c \<noteq> CONF_STRUCT_PTR \<longrightarrow> length (m (ci_var ?c)) = unat (ci_size ?c)"
      "ci_type ?c = CONF_CHAR_PTR \<longrightarrow> 0 \<in> set (m (ci_var ?c))"
    using assms by (simp_all add: table_ok_def sizes_ok_def strings_ok_def)
  then show ?thesis using k False takeWhile_shorter[of "m (ci_var ?c)"]
    by (cases "ci_type ?c") (auto simp: getValue_def Let_def get_scalar_def peek_def item_ok_def c_string_def)
qed (auto simp: getValue_def)

lemma sint_small:
  assumes "unat (i :: u16) < 2 ^ 15"
  shows "sint i = int (unat i)"
proof -
  have "int (unat i) < int (2 ^ 15)" using assms by (simp only: of_nat_less_iff)
  then have "uint i < 2 ^ 15" by (simp add: uint_nat)
  moreover have "- (2 ^ 15) \<le> uint i" by (rule order_trans[of _ 0]) simp_all
  ultimately have "signed_take_bit 15 (uint i) = uint i" by (intro signed_take_bit_int_eq_self)
  then show ?thesis by (simp add: sint_uint uint_nat)
qed

lemma conf_getValue_defined:
  assumes "stamped e hs" "env_ok e" "members_ok e m"
  shows "conf_getValue hs i m = None \<longleftrightarrow> 303 \<le> unat i \<and> unat i < 1000"
proof -
  have "conf_getValue (confinfo_handlers e) i m = None \<longleftrightarrow> current_id i = None"
  proof (cases "current_id i")
    case (Some j)
    show ?thesis
    proof (cases "find (of_handler (unat j)) (confinfo_handlers e)")
      case (Some h)
      then have "h \<in> set (confinfo_handlers e)" by (auto dest: find_handler)
      then have "getValue (h_ci h) (j - word_of_nat (h_start h)) m \<noteq> None"
        using assms(2,3) by (intro getValue_defined handlers_ok) (simp_all add: members_ok_def)
      then show ?thesis using Some \<open>current_id i = Some j\<close> by (simp add: conf_getValue_def)
    qed (simp add: Some conf_getValue_def)
  qed (simp add: conf_getValue_def)
  also have "\<dots> \<longleftrightarrow> 303 \<le> unat i \<and> unat i < 1000"
  proof (cases "i < 1000")
    case True
    then have u: "unat i < 1000" by (simp add: word_less_nat_alt)
    have "sint i = int (unat i)"
      using u by (intro sint_small) simp
    then show ?thesis using True u by (auto simp: current_id_def map_old_id_None)
  next
    case False
    then have "\<not> unat i < 1000" by (simp add: word_less_nat_alt)
    then show ?thesis using False by (simp add: current_id_def)
  qed
  finally show ?thesis by (simp only: conf_getValue_stamped[OF assms(1)])
qed

lemma conf_map_current:
  assumes "map_old_id i = Some t" "t \<noteq> 0" "e_gps e"
  shows "\<exists>h\<in>set (confinfo_handlers e). \<exists>c\<in>set (conf_items (h_ci h)). uint t = int (h_start h) + uint (ci_id c)"
proof -
  let ?T = "uint t"
  have T: "?T \<in> set (map uint conf_map_1_2)"
    using assms(1) by (auto simp: map_old_id_def rd_def intro!: imageI nth_mem split: if_splits)
  have "?T \<noteq> 0" using assms(2) by (simp add: unsigned_eq_0_iff)
  then have range: "?T \<in> {1000..<5000}" using conf_map_range T unfolding list_all_iff by blast
  have items: "conf_items (conf_info e) = butlast (conf_info e)" "conf_items (osd_conf_info e) = butlast (osd_conf_info e)"
     "conf_items (user_menu_conf_info e) = butlast (user_menu_conf_info e)" "conf_items (gps_conf_info e) = butlast (gps_conf_info e)"
    using conf_items_rows[OF conf_info_ids] conf_items_rows[OF osd_conf_info_ids]
      conf_items_rows[OF user_menu_conf_info_ids] conf_items_rows[OF gps_conf_info_ids] by simp_all
  have pick: "\<exists>h\<in>set (confinfo_handlers e). \<exists>c\<in>set (conf_items (h_ci h)). ?T = int (h_start h) + uint (ci_id c)"
    if h: "h \<in> set (confinfo_handlers e)" and d: "?T - int (h_start h) \<in> set (map (uint \<circ> ci_id) (conf_items (h_ci h)))" for h
  proof -
    obtain c where "c \<in> set (conf_items (h_ci h))" "?T - int (h_start h) = uint (ci_id c)" using d by auto
    then show ?thesis using h by force
  qed
  note rows = conf_map_core[of e] conf_map_osd[of e] conf_map_user[of e] conf_map_gps[of e]
  have r: "?T \<in> {1000..<2000} \<longrightarrow> ?T - 1000 \<in> set (map (uint \<circ> ci_id) (conf_items (conf_info e)))"
    "?T \<in> {2000..<3000} \<longrightarrow> ?T - 2000 \<in> set (map (uint \<circ> ci_id) (conf_items (osd_conf_info e)))"
    "?T \<in> {3000..<4000} \<longrightarrow> ?T - 3000 \<in> set (map (uint \<circ> ci_id) (conf_items (user_menu_conf_info e)))"
    "?T \<in> {4000..<5000} \<longrightarrow> ?T - 4000 \<in> set (map (uint \<circ> ci_id) (conf_items (gps_conf_info e)))"
    using rows T unfolding list_all_iff items by blast+
  consider "?T \<in> {1000..<2000}" | "?T \<in> {2000..<3000}" | "?T \<in> {3000..<4000}" | "?T \<in> {4000..<5000}" using range by fastforce
  then show ?thesis
  proof cases
    case 1 then show ?thesis using r(1) by (intro pick[of "confinfo_handlers e ! 0"]) (simp_all add: confinfo_handlers_def)
  next
    case 2 then show ?thesis using r(2) by (intro pick[of "confinfo_handlers e ! 1"]) (simp_all add: confinfo_handlers_def)
  next
    case 3 then show ?thesis using r(3) by (intro pick[of "confinfo_handlers e ! 2"]) (simp_all add: confinfo_handlers_def)
  next
    case 4 then show ?thesis using r(4) assms(3) by (intro pick[of "confinfo_handlers e ! 3"]) (simp_all add: confinfo_handlers_def)
  qed
qed

section \<open>Defaults\<close>

definition default_bytes :: "ConfInfo \<Rightarrow> u8 list" where
  "default_bytes c = (case ci_type c of
       CONF_INT_PTR \<Rightarrow> replicate (unat (ci_size c)) 0
     | CONF_STRUCT_PTR \<Rightarrow> []
     | _ \<Rightarrow> take (unat (ci_size c)) (case ci_def c of Def_word v \<Rightarrow> le32 v | Def_func v \<Rightarrow> le32 v | Def_ptr bs \<Rightarrow> bs))"

lemma default_item_bytes:
  assumes "item_ok c" "ci_type c \<noteq> CONF_STRUCT_PTR" "length (cs_mem s (ci_var c)) = unat (ci_size c)"
  shows "default_item c s = Some (s\<lparr>cs_mem := (cs_mem s)(ci_var c := default_bytes c)\<rparr>)"
    and "length (default_bytes c) = unat (ci_size c)" "ci_type c = CONF_CHAR_PTR \<Longrightarrow> 0 \<in> set (default_bytes c)"
proof -
  have sz: "ci_type c \<in> {CONF_DEF_VALUE, CONF_OSD_POS, CONF_FUNC_PTR} \<Longrightarrow> ci_size c = 1 \<or> ci_size c = 2 \<or> ci_size c = 4"
    using assms(1) by (auto simp: item_ok_def)
  then have le: "ci_type c \<in> {CONF_DEF_VALUE, CONF_OSD_POS, CONF_FUNC_PTR} \<Longrightarrow> unat (ci_size c) \<le> 4 \<and> ci_size c \<le> 4" by auto
  show l: "length (default_bytes c) = unat (ci_size c)"
    using assms(1,2) le by (cases "ci_type c") (auto simp: default_bytes_def item_ok_def le32.enc_length)
  show "default_item c s = Some (s\<lparr>cs_mem := (cs_mem s)(ci_var c := default_bytes c)\<rparr>)"
    using assms le l
    by (cases "ci_type c") (auto simp: default_item_def default_bytes_def item_ok_def le32.enc_length set_mem_exact)
  show "ci_type c = CONF_CHAR_PTR \<Longrightarrow> 0 \<in> set (default_bytes c)"
    using assms(1) by (auto simp: default_bytes_def item_ok_def)
qed

lemma default_struct: "ci_type c = CONF_STRUCT_PTR \<Longrightarrow> default_item c s = Some s"
  by (simp add: default_item_def)

lemma load_defaults_items:
  assumes "info_apart ci info" "table_ok ci" "sizes_ok ci (cs_mem s)" "set cs \<subseteq> set (conf_items ci)" "distinct cs"
  shows "\<exists>s'. config_load_defaults cs info s = Some s' \<and> sizes_ok ci (cs_mem s') \<and>
    (\<forall>c\<in>set (conf_items ci). ci_type c \<noteq> CONF_STRUCT_PTR \<longrightarrow>
       cs_mem s' (ci_var c) = (if c \<in> set cs then default_bytes c else cs_mem s (ci_var c)))"
  using assms(3-5)
proof (induction cs arbitrary: s)
  case (Cons c cs)
  have c: "c \<in> set (conf_items ci)" "ci_id c \<noteq> 0" "item_ok c" using Cons.prems(2) assms(2) conf_items_nonzero by (auto simp: table_ok_def)
  obtain s1 where s1: "default_item c s = Some s1" "sizes_ok ci (cs_mem s1)"
    "\<forall>d\<in>set (conf_items ci). ci_type d \<noteq> CONF_STRUCT_PTR \<longrightarrow> cs_mem s1 (ci_var d) = (if d = c then default_bytes c else cs_mem s (ci_var d))"
  proof (cases "ci_type c = CONF_STRUCT_PTR")
    case True
    then show thesis using that[of s] Cons.prems(1) by (auto simp: default_struct)
  next
    case False
    then have l: "length (cs_mem s (ci_var c)) = unat (ci_size c)" using c(1) Cons.prems(1) by (simp add: sizes_ok_def)
    note d = default_item_bytes[OF c(3) False l]
    have "\<forall>d\<in>set (conf_items ci). ci_var d = ci_var c \<longrightarrow> d = c"
      using c(1) assms(2) by (auto simp: table_ok_def distinct_map inj_on_def)
    then show thesis using that[OF d(1)] sizes_ok_update[OF Cons.prems(1), of "default_bytes c" "ci_var c"] d(2) l by auto
  qed
  let ?s = "info (ci_id c) s1"
  have same: "\<forall>d\<in>set (conf_items ci). cs_mem ?s (ci_var d) = cs_mem s1 (ci_var d)"
    using assms(1) by (auto simp: info_apart_def)
  then have "sizes_ok ci (cs_mem ?s)" using s1(2) by (simp add: sizes_ok_def)
  then obtain s' where s': "config_load_defaults cs info ?s = Some s'" "sizes_ok ci (cs_mem s')"
    "\<forall>d\<in>set (conf_items ci). ci_type d \<noteq> CONF_STRUCT_PTR \<longrightarrow>
       cs_mem s' (ci_var d) = (if d \<in> set cs then default_bytes d else cs_mem ?s (ci_var d))"
    using Cons.IH[of ?s] Cons.prems(2,3) by auto
  show ?case
  proof (intro exI conjI ballI impI)
    show "config_load_defaults (c # cs) info s = Some s'" using s1(1) s'(1) c(2) by simp
    show "sizes_ok ci (cs_mem s')" by (rule s'(2))
    fix d assume d: "d \<in> set (conf_items ci)" "ci_type d \<noteq> CONF_STRUCT_PTR"
    then show "cs_mem s' (ci_var d) = (if d \<in> set (c # cs) then default_bytes d else cs_mem s (ci_var d))"
      using s'(3) same s1(3) Cons.prems(3) by auto
  qed
qed simp

lemma load_defaults_table:
  assumes "info_apart ci info" "table_ok ci" "sizes_ok ci (cs_mem s)"
  shows "\<exists>s'. config_load_defaults ci info s = Some s' \<and> sizes_ok ci (cs_mem s') \<and> strings_ok ci (cs_mem s') \<and>
    (\<forall>c\<in>set (conf_items ci). ci_type c \<noteq> CONF_STRUCT_PTR \<longrightarrow> cs_mem s' (ci_var c) = default_bytes c)"
proof -
  have "distinct (conf_items ci)" using assms(2) by (auto simp: table_ok_def distinct_map)
  then obtain s' where s': "config_load_defaults (conf_items ci) info s = Some s'" "sizes_ok ci (cs_mem s')"
    "\<forall>c\<in>set (conf_items ci). ci_type c \<noteq> CONF_STRUCT_PTR \<longrightarrow> cs_mem s' (ci_var c) = default_bytes c"
    using load_defaults_items[OF assms order_refl] by auto
  have "strings_ok ci (cs_mem s')"
    unfolding strings_ok_def
  proof (intro ballI impI)
    fix c assume c: "c \<in> set (conf_items ci)" "ci_type c = CONF_CHAR_PTR"
    then have "item_ok c" using assms(2) by (simp add: table_ok_def)
    then have "0 \<in> set (default_bytes c)" using c(2) by (auto simp: default_bytes_def item_ok_def)
    then show "0 \<in> set (cs_mem s' (ci_var c))" using s'(3) c by simp
  qed
  then show ?thesis using s' by (subst config_load_defaults_items) blast
qed

section \<open>A string without an end\<close>

lemma update_last_saved_None:
  "config_update_last_saved ci m = None \<longleftrightarrow> (\<exists>c\<in>set (conf_items ci). item_stamp c m = None)"
  by (induction ci) (auto split: bind_splits)

text \<open>A file whose string fills its member: it is taken, and the next hash runs on past the member.\<close>

lemma restore_unterminated:
  assumes "table_ok ci" "plain_table ci" "x \<in> set (conf_items ci)" "ci_type x = CONF_CHAR_PTR" "info_apart ci info"
    and "length (cs_mem s (ci_var x)) = unat (ci_size x)" "length bs = unat (ci_size x)" "0 \<notin> set bs"
    and "co_read ops c fn = Some (le32 CONF_MAGICK_VALUE @ le32 b @ entry_bytes (ci_id x, bs))"
  shows "\<exists>s'. config_restore ops ci fn info c s = Some s' \<and> config_update_last_saved ci (cs_mem s') = None"
proof -
  let ?s = "info (ci_id x) (s\<lparr>cs_mem := (cs_mem s)(ci_var x := bs)\<rparr>)"
  have "length bs < 65536" using unsigned_less[of "ci_size x", where 'a = nat] assms(7) by simp
  then have "parse_entries (entry_bytes (ci_id x, bs)) = [(ci_id x, bs)]"
    using parse_entries_entry[of "(ci_id x, bs)" "[]"] by (simp add: parse_entries_short)
  then have r: "config_restore ops ci fn info c s = Some ?s"
    using config_restore_file[OF assms(2,9)] apply_entry_item[OF assms(1,3,7,6)] by simp
  have "cs_mem ?s (ci_var x) = bs" using assms(3,5) by (auto simp: info_apart_def)
  moreover have "takeWhile (\<lambda>b. b \<noteq> 0) bs = bs" using assms(8) by (auto simp: takeWhile_eq_all_conv)
  then have "c_string bs = None" by (simp only: c_string_def Let_def less_irrefl if_False)
  ultimately have "item_stamp x (cs_mem ?s) = None" using assms(4) by (simp add: item_stamp_def)
  then show ?thesis using r assms(3) by (auto simp: update_last_saved_None)
qed

section \<open>Power on\<close>

lemma conf_restore_end:
  assumes "conf_restore ops e infos hs c s = Some (hs', s')"
  shows "map unstamped hs' = map unstamped hs" "get_int ''bend_shot_save'' s' \<notin> {None, Some BEND_SHOT_SIDECAR}"
  using assms retire_sidecar_gone[of _ s'] by (auto simp: conf_restore_def bind_eq_Some_conv restore_handlers_clear)

text \<open>An entry of the old file with a number past the table.\<close>

lemma old_config_unchecked:
  assumes "co_read ops c ''A/CHDK/CCHDK3.CFG'' = Some (le32 CONF_MAGICK_VALUE @ le16 i @ r)" "303 \<le> unat i"
  shows "load_old_config ops hs infos c s = None"
proof -
  let ?b = "le32 CONF_MAGICK_VALUE @ le16 i @ r"
  have "map_old_id i = None"
  proof (cases "0 \<le> sint i")
    case True
    then show ?thesis using assms(2) sint_unat[of i] by (simp add: map_old_id_None)
  qed (simp add: map_old_id_None)
  moreover have "of_le16 (drop 4 ?b) = i" by (simp add: le32.enc_length of_le16_append)
  ultimately have r: "restore_old_items hs infos ?b 4 s = None"
    by (subst restore_old_items.simps) (simp add: le32.enc_length le16.enc_length)
  obtain b0 r0 where ne: "?b = b0 # r0" by (simp add: le32_def)
  have "rd_n 4 ?b = Some (le32 CONF_MAGICK_VALUE, le16 i @ r)" by (simp add: rd_n_def le32.enc_length)
  then show ?thesis using r assms(1) ne by (simp add: load_old_config_def le32.dec_enc)
qed

section \<open>A store with every member\<close>

definition member_size :: "string \<Rightarrow> nat" where
  "member_size v =
     (if v \<in> {''reader_file'', ''reader_rbf_file'', ''menu_rbf_file'', ''menu_symbol_rbf_file'', ''lang_file'', ''grid_lines_file'',
        ''script_file'', ''curve_file''} then 100
      else if v = ''bitbend'' then 32 else if v = ''bend_segs'' then 104 else if v = ''bendx'' then 52 else 4)"

definition zero_mem :: conf_mem where
  "zero_mem v = replicate (member_size v) 0"

definition sized_row :: "ConfInfo \<Rightarrow> bool" where
  "sized_row c \<longleftrightarrow> ci_id c = 0 \<or> ci_type c = CONF_STRUCT_PTR \<or> member_size (ci_var c) = unat (ci_size c)"

lemma sized_row_if: "sized_row (if P then a else b) = (if P then sized_row a else sized_row b)" by simp

lemma sized_row_entry: "sized_row (CONF_INFO i v sz ty d) \<longleftrightarrow> i = 0 \<or> ty = CONF_STRUCT_PTR \<or> member_size v = unat sz"
  by (simp add: sized_row_def)

lemma sized_rows:
  "list_all sized_row (conf_info e)" "list_all sized_row (osd_conf_info e)" "list_all sized_row (user_menu_conf_info e)"
  "list_all sized_row (gps_conf_info e)"
  unfolding conf_info_def osd_conf_info_def user_menu_conf_info_def gps_conf_info_def entry_macros list.pred_inject
    sized_row_if sized_row_entry by (simp_all only: if_cancel) (simp_all add: member_size_def)

lemma zero_mem_sizes:
  assumes "list_all sized_row ci"
  shows "sizes_ok ci zero_mem" "strings_ok ci zero_mem"
  using assms
  by (auto simp: sizes_ok_def strings_ok_def zero_mem_def sized_row_def list_all_iff member_size_def conf_items_def dest!: set_takeWhileD)

lemma zero_mem_ok: "members_ok e zero_mem"
  using zero_mem_sizes sized_rows[of e] handlers_tables[of _ e] unfolding members_ok_def by metis

section \<open>A value set through its number\<close>

lemma core_ids: "c \<in> set (conf_items (conf_info e)) \<Longrightarrow> unat (ci_id c) < 1000"
proof -
  have "list_all (\<lambda>i. unat i < 1000) (map ci_id (conf_info e))" unfolding conf_info_ids by simp
  then show "c \<in> set (conf_items (conf_info e)) \<Longrightarrow> unat (ci_id c) < 1000"
    by (auto simp: list_all_iff conf_items_def dest!: set_takeWhileD)
qed

lemma stamped_core:
  assumes "stamped e hs"
  obtains h where "\<And>n. \<lbrakk>1000 \<le> n; n < 2000\<rbrakk> \<Longrightarrow> find (of_handler n) hs = Some h" "h_start h = CONF_CORE"
    "map unstamp (h_ci h) = map unstamp (conf_info e)"
proof -
  have found: "map_option unstamped (find (of_handler n) hs) = map_option unstamped (find (of_handler n) (confinfo_handlers e))" for n
    using assms find_unstamped[of n hs] find_unstamped[of n "confinfo_handlers e"] by (simp add: stamped_def)
  obtain g gs where hs: "hs = g # gs" using assms by (cases hs) (simp_all add: stamped_def confinfo_handlers_def)
  have g: "unstamped g = unstamped (hd (confinfo_handlers e))" using assms hs by (simp add: stamped_def confinfo_handlers_def)
  have f: "h_start g = CONF_CORE" "h_end g = CONF_CORE + 999" "map unstamp (h_ci g) = map unstamp (conf_info e)"
    using arg_cong[OF g, of h_start] arg_cong[OF g, of h_end] arg_cong[OF g, of h_ci] by (simp_all add: confinfo_handlers_def)
  then have "find (of_handler n) hs = Some g" if "1000 \<le> n" "n < 2000" for n using that hs by (simp add: of_handler_def)
  then show thesis using that f by blast
qed

lemma conf_set_get:
  assumes "stamped e hs" "env_ok e" "x \<in> set (conf_items (conf_info e))" "ci_type x \<in> {CONF_DEF_VALUE, CONF_FUNC_PTR}" "ci_id x \<noteq> 999"
    and "length (cs_mem s (ci_var x)) = unat (ci_size x)" "info_apart (conf_info e) (infos CONF_CORE)"
  shows "\<exists>s'. conf_setValue ops infos False (1000 + ci_id x) (Val_numb n) hs s c = Some (True, hs, s', c) \<and>
     conf_getValue hs (1000 + ci_id x) (cs_mem s') = Some (Val_numb (narrowed (ci_size x) n)) \<and>
     (\<forall>j. 1000 \<le> unat j \<and> unat j < 2000 \<and> j \<noteq> 1000 + ci_id x \<longrightarrow> conf_getValue hs j (cs_mem s') = conf_getValue hs j (cs_mem s))"
proof -
  obtain h where h: "\<And>n. \<lbrakk>1000 \<le> n; n < 2000\<rbrakk> \<Longrightarrow> find (of_handler n) hs = Some h" "h_start h = CONF_CORE"
      "map unstamp (h_ci h) = map unstamp (conf_info e)"
    using stamped_core[OF assms(1)] by metis
  have u: "unat (1000 + ci_id x) = 1000 + unat (ci_id x)"
    using core_ids[OF assms(3)] by (subst unat_plus_simple[THEN iffD1]) (simp_all add: word_le_nat_alt unat_word_ariths)
  have get: "conf_getValue hs j m = getValue (conf_info e) (j - 1000) m" if "1000 \<le> unat j" "unat j < 2000" for j m
  proof -
    have "\<not> j < 1000" using that(1) by (simp add: word_less_nat_alt)
    then have "conf_getValue hs j m = getValue (h_ci h) (j - 1000) m" using h(1)[OF that] h(2) by (simp add: conf_getValue_def current_id_def)
    also have "\<dots> = getValue (conf_info e) (j - 1000) m" using h(3) by (metis getValue_unstamp)
    finally show ?thesis .
  qed
  have set: "setValue (h_ci h) i v info s = setValue (conf_info e) i v info s" for i v info using h(3) by (metis setValue_unstamp)
  have r: "1000 \<le> unat (1000 + ci_id x)" "unat (1000 + ci_id x) < 2000" using u core_ids[OF assms(3)] by simp_all
  obtain s' where s': "setValue (conf_info e) (ci_id x) (Val_numb n) (infos CONF_CORE) s = Some (True, s')"
      "getValue (conf_info e) (ci_id x) (cs_mem s') = Some (Val_numb (narrowed (ci_size x) n))"
      "\<forall>j. j \<noteq> ci_id x \<longrightarrow> getValue (conf_info e) j (cs_mem s') = getValue (conf_info e) j (cs_mem s)"
    using set_get_value[OF conf_info_ok[OF assms(2)] assms(3-7)] by blast
  have "\<not> 1000 + ci_id x < 1000" using r(1) by (simp add: word_less_nat_alt)
  then have "conf_setValue ops infos False (1000 + ci_id x) (Val_numb n) hs s c = Some (True, hs, s', c)"
    using h(1)[OF r] h(2) s'(1) set by (simp add: conf_setValue_def current_id_def)
  moreover have "conf_getValue hs j (cs_mem s') = conf_getValue hs j (cs_mem s)"
    if "1000 \<le> unat j \<and> unat j < 2000 \<and> j \<noteq> 1000 + ci_id x" for j
    using that get[of j] s'(3) by (metis add.commute diff_add_cancel)
  ultimately show ?thesis using get[OF r] s'(2) by (intro exI[of _ s']) simp
qed

end
