(* ===== verification/Spec2Isabelle.thy ===== *)
theory Spec2Isabelle
  imports BendRandom BendCompile BendSeg BendX BxApply BendTag Mexp MexpGhost RawScan RawShot ConfLaws
begin

text \<open>
  CHDK Rewired (\<open>src/chdk-src\<close>) bends photographs: between the sensor and the camera's own
  developing pipeline it rewires the data bus of the frame buffer in software. This library
  models that engine, the files it keeps and the recipe it leaves in every picture, and proves
  what makes them correct. Paths below are relative to \<open>src/chdk-src\<close>.

  \<^bold>\<open>The program and its parts.\<close> The configuration block \<open>conf\<close> holds a routing matrix
  (\<open>bend_t\<close>), up to three more for the regions of a split frame (\<open>bend_segs_t\<close>), and a chain of
  up to four experimental profiles (\<open>bendx_chain_t\<close>). Before an exposure \<open>bend_seg_prep\<close> passes
  all of them through their gates. The raw hook compiles the matrices in use (\<open>bend_compile\<close>),
  cuts each row of the frame into spans of regions (\<open>bend_seg_spans\<close>), evaluates a matrix per pixel
  (\<open>bend_eval\<close>) in one pass per region (\<open>bb_run\<close>, \<open>raw_bitbend\<close>), and then runs the chain over
  the finished frame buffer (\<open>raw_bendx\<close>, \<open>bendx_apply\<close>). Several exposures can be blended into one
  through a file on the card (\<open>raw_mexp\<close>), with the bend on each or on the composite only
  (\<open>raw_process\<close>). The recipe of the shot is queued (\<open>raw_bend_shot\<close>, \<open>bend_tag_queue\<close>) and reaches
  the JPEG as a comment, either while the camera writes the file (\<open>fwt_close\<close>) or afterwards from
  the display task (\<open>bend_tag_service\<close>); a sidecar file is the other carrier (\<open>bend_shot_save\<close>).
  Both are read back and made live by \<open>bend_shot_apply\<close>. Presets live in a directory of the card
  (\<open>bend_store\<close>). All settings, the matrices and the chain among them, are members of \<open>conf\<close>, which
  four tables describe entry by entry (\<open>conf_info\<close> and its siblings): each table has a file that is
  read at power on (\<open>conf_restore\<close>) and written when a member has changed (\<open>conf_save\<close>), and scripts
  reach the members by number. The user menu is one of them: a table that stands for the rows
  the user has picked from the menus.

  \<^bold>\<open>Theories, sources and correspondence.\<close>

  \<^item> \<open>Prelude\<close>: word types, extensionality of words, the checked array accesses \<open>rd\<close> and \<open>wr\<close>
    with the calculus \<open>ok m Q\<close> (the option computation \<open>m\<close> does not fail and its result
    satisfies \<open>Q\<close>), and the locale \<open>gate\<close>, the contract of every sanitizing function.
  \<^item> \<open>BendModel\<close>, \<open>BendRandom\<close>, \<open>BendCompile\<close>: \<open>core/bend.c\<close>, \<open>include/bend.h\<close>. The matrix,
    presets and gate; the random generator and the names; the compiler with the evaluator.
  \<^item> \<open>BendSeg\<close>: the segment layouts of \<open>core/bend.c\<close>: the spans of a row, the region of a
    pixel, the integer square root.
  \<^item> \<open>BendX\<close>: profiles and chain of \<open>core/bendx.c\<close>, \<open>include/bendx.h\<close>.
  \<^item> \<open>BxBuf\<close>, \<open>BxBytes\<close>, \<open>BxPixels\<close>, \<open>BxApply\<close>: the rest of \<open>core/bendx.c\<close>, that is packed
    pixels and row helpers, the byte effects, the pixel effects, and \<open>bendx_apply\<close> with
    \<open>raw_bendx\<close> of \<open>core/raw.c\<close>. The locale \<open>pixel_store\<close> is the contract of a packed row; it is
    interpreted at 10 bits, at 12 bits, and on the 16 bit cells the counting sort keeps in the
    scratch space, so the sort is proved once.
  \<^item> \<open>Codec\<close>: the structs as the bytes a file holds. The locale \<open>codec\<close> (a layout is a bijection
    between shapes and byte strings of one length) is interpreted on each struct and, in
    \<open>Mexp\<close>, on the packed pixel groups.
  \<^item> \<open>SegConf\<close>: \<open>core/bend_seg.c\<close> over the six fields of \<open>conf\<close> it touches.
  \<^item> \<open>Card\<close>, \<open>BendStore\<close>: \<open>core/bend_store.c\<close>. The state \<open>store_t\<close> is the file's three statics
    (sorted list of slots, count, cursor).
  \<^item> \<open>BendShot\<close>: \<open>core/bend_shot.c\<close>, the packed record of up to 204 bytes and its two readers.
  \<^item> \<open>TagText\<close>, \<open>BendTag\<close>: \<open>core/bend_tag.c\<close> and the hand-over in \<open>fwt_close\<close> of
    \<open>platform/generic/filewrite.c\<close>. The state \<open>tag_t\<close> is the file's statics; \<open>tag_step\<close> is the
    relation of the events that change it, \<open>tag_reachable\<close> what they can reach.
  \<^item> \<open>Mexp\<close>: \<open>core/mexp.c\<close>: the state of a sequence, blending, packed rows.
  \<^item> \<open>RawPixels\<close>: \<open>get_raw_pixel\<close>, \<open>set_raw_pixel\<close> and \<open>bb_row_fast\<close> of \<open>core/raw.c\<close>. The frame at
    \<open>rawadr\<close> is a list of bytes; it is a \<open>pixel_store\<close> at 10, 12 and 14 bits. The locale \<open>painting\<close>
    is what a loop over pixels needs of a relation between frames; it is interpreted on \<open>touches\<close>
    (only these pixels change) and \<open>remap\<close> (they change by this function).
  \<^item> \<open>RawBend\<close>, \<open>RawScan\<close>: \<open>bb_lut_ready\<close>, \<open>bb_run\<close>, \<open>raw_bitbend\<close>. The state \<open>raw_t\<close> is the frame
    and the statics of \<open>core/raw.c\<close> and of the patterns; \<open>span_pass\<close> extends \<open>painting\<close> to spans,
    rows and passes. \<open>RawScan\<close> is the recurrence a pass with held samples computes.
  \<^item> \<open>RawMexp\<close>: \<open>mexp_store\<close>, \<open>mexp_combine\<close>, \<open>raw_mexp_cancel\<close>, \<open>raw_mexp\<close>. \<open>combine_rows\<close> is the loop
    of \<open>mexp_combine\<close>; \<open>mexp_first\<close> and \<open>mexp_next\<close> are the branches of \<open>raw_mexp\<close> on the count.
  \<^item> \<open>MexpGhost\<close>: \<open>core/mexp_ghost.c\<close>, the picture of the sequence so far painted over the live view.
    The state \<open>ghost_t\<close> is the file's statics; painting is the list of the calls of \<open>draw_pixel\<close>.
    \<open>ticks\<close> repeats the unforced call of the display task, \<open>overlay\<close> is what is to be seen.
  \<^item> \<open>RawShot\<close>: \<open>raw_bend_shot\<close> and the engines in the order of \<open>raw_process\<close>, over one record of
    the configuration, the frame, the card, the sequence and the pending tag.
  \<^item> \<open>UserMenu\<close>, \<open>UserMenuStore\<close>: \<open>core/gui_user_menu.c\<close>, the editing of
    \<open>modules/user_menu_edit.c\<close>, \<open>CMenuItem\<close> of \<open>core/gui_menu.h\<close> and \<open>lang_strhash31\<close> of
    \<open>lib/lang/lang.c\<close>. The state \<open>menu_state\<close> is the rows, the table and the strings both share on
    the heap; \<open>menu_wf\<close> is its invariant and \<open>menu_edit\<close> the relation of the editor's keys. The second
    theory is the table as bytes and what saving and restoring leaves of the rows.
  \<^item> \<open>ConfStore\<close>: the functions of \<open>core/conf.c\<close> over one table. A member of \<open>conf\<close> is its bytes under
    its name; \<open>table_ok\<close>, \<open>sizes_ok\<close>, \<open>strings_ok\<close> say what a table and a store must have. A file is a
    list of entries (\<open>parse_entries\<close>), the reference the loop of \<open>config_restore\<close> is compared with;
    \<open>Codec\<close>'s locale is interpreted on its two byte fields.
  \<^item> \<open>ConfTable\<close>: the four tables of \<open>core/conf.c\<close> and \<open>conf_map_1_2\<close> of \<open>modules/conf_migrate.c\<close>,
    entry by entry, with the proof that they are well formed.
  \<^item> \<open>ConfUse\<close>, \<open>ConfLaws\<close>: the rest of \<open>core/conf.c\<close> and \<open>modules/conf_migrate.c\<close> (running over the
    tables, power on, the settings of version 1.2, colours, values by number), and what holds of
    the camera's own tables. \<open>stamped\<close> says that only \<open>last_saved\<close> has changed in them.
  \<^item> This theory: the properties, each after a paragraph that states it.

  \<^bold>\<open>What the lemmas show.\<close> The bus: evaluation of a compiled matrix is the wiring it names, the
  fast paths are exact, and any bytes become a usable matrix (C1 to C5). Segments: every layout
  tiles every row, and the circle is a disc (C6, C7). The capture: a shot stays in its scope,
  the queued recipe is what bent the picture, the packed fast path is the pixel loop, a pass is
  a scan with feedback; a sequence of exposures is the fold of its
  frames, its average is near the mean, no card and no allocator makes it unsafe, how it loses
  an exposure, what its ghost shows; the engines together are safe and a deferred bend is applied once (C8 to C18).
  Profiles and the frame buffer: the invariant of the chain, no effect leaves its arrays or its
  lanes, and the counting sort sorts (C19 to C22). Files and tags: what can be read in is well
  formed, the listing refines the set of presets on the card, the store's invariant, presets
  round trip, the arrows reach every preset, a tag carries a recipe unchanged, is dropped in time
  and goes into its own picture (C23 to C30). The user menu: editing keeps rows and strings in
  step, except that deleting from a full menu leaves the table, and what of it survives a save
  (C31 to C33). The configuration: a power cycle keeps the settings, any file is read inside its
  members, a change the hash does not see is lost, a value set is the value read, scripts cannot
  set the switch for native calls by number but can by file, and which numbers they may read
  (C34 to C40). Further lemmas of this theory, each with an example, cover the depth of the
  output, the presets, the accessors of the raw hook, the operations on the chain, the random generators, single effects, file
  names, sidecars, failed renames and unreadable accumulators, the rows of \<open>Mexp\<close>, the file of the
  user menu, refused saves and the defaults.

  \<^bold>\<open>Conventions.\<close> \<open>unsigned char\<close>, \<open>unsigned short\<close> and \<open>unsigned\<close> are words of 8, 16 and 32
  bits wherever their wrap-around can be seen; \<open>int\<close> is \<open>int\<close> with C's truncating division;
  indices and lengths that the code keeps inside its arrays are \<open>nat\<close>, and stores into narrower
  fields reduce explicitly. An operation that could leave an array, or divide by zero, returns
  an option, and the theorems show that it does not (or, for \<open>bend_random\<close> at two bits, that
  it does). Memory is a list of bytes and a pointer an offset into it. The user menu shares strings
  between rows and table, so there the heap is a map from addresses to strings, and using a freed
  one is a failure; \<open>malloc\<close> does not fail there and gives addresses that are no language numbers.
  \<open>char\<close> is unsigned in \<open>core/conf.c\<close>, as the compiler has it.

  \<^bold>\<open>Loops and bounds.\<close> Loops are recursions that terminate by a measure, with no fuel: the digit
  count of \<open>label_div\<close> by the value left, \<open>close_holes\<close> by the length of the chain still to
  visit, the row loops by the rows left. The wrapping loops of the preset cursor
  (\<open>wrap_up\<close>, \<open>wrap_down\<close>) stop because the count is positive, which the callers have tested. Fixed
  capacities are the code's own: 16 lines, 4 profiles, 192 spans, 64 listed
  presets of 100 slots, 12 characters for a number, 1024 for a tag. Where a capacity could
  truncate (a tag's prose, a label) a lemma bounds what is written.

  \<^bold>\<open>Parameters and hypotheses.\<close> The card belongs to the camera: \<open>opendir\<close>, \<open>open\<close>, \<open>read\<close>,
  \<open>write\<close> and \<open>remove\<close> are the record \<open>card_ops\<close>, \<open>card_laws\<close> is what they are documented to do,
  and \<open>mem_ops\<close>, a card of limited room, obeys the laws and is an instance for the witnesses;
  \<open>wide_ops\<close> is one of any room, for what is only true when there is room (\<open>roomy\<close>). \<open>stat\<close> is a
  parameter, and \<open>stat_ok\<close> says that it gives the length of the file.
  \<open>malloc\<close> is a parameter; what is used is that a block has the size asked for. So are the
  foreign buffers of the \<open>bendx\<close> environment, the sensor's geometry (\<open>sensor_t\<close>; \<open>sensor_ok\<close> says
  that a row is whole groups and holds them), the target directory and the tick count.
  What differs between cameras in the tables is the record \<open>conf_env\<close> (\<open>env_ok\<close>: room behind a
  string literal for the full member to be copied). The function a table calls after an item
  reloads fonts, scripts and modules, so it is a parameter (\<open>info_func\<close>); where a theorem needs that it leaves the
  members of its table alone, \<open>info_apart\<close> says so. It does, unless the bad pixel list, the symbol
  font or the alternative button turns out to be missing, when it switches that one setting off.
  \<open>raw_bend_shot\<close> and \<open>raw_process\<close> take \<open>CAM_BEND_EXPERIMENTAL\<close> as an argument; the rest is read as
  on a body built with it.

  \<^bold>\<open>Abstractions.\<close> The service callback \<open>BX_TICK\<close> of the row loops, \<open>raw_service_ui\<close>,
  \<open>raw_stage\<close> and \<open>bend_ui_resync\<close> redraw the screen or feed a debug line and are left out. \<open>raw_mexp\<close> calls the
  ghost, which changes nothing but its own state, so \<open>RawMexp\<close> leaves the calls out and \<open>MexpGhost\<close>
  models them on their own. Ticks are integers that do not wrap. In \<open>tag_step\<close> a shot is queued
  only while no picture of ours is open, which is the order the camera delivers the events in.
  An out parameter after a failed read is not represented: the reader returns \<open>None\<close>.

  \<^bold>\<open>Not modelled.\<close> The raw files of \<open>core/raw.c\<close> (naming, saving, developing a stored one) and its
  bad pixel list, and what \<open>raw_process\<close> does around the engines, because they are calls of the
  camera's file and raw interface; in \<open>core/conf.c\<close> the functions the
  tables call, \<open>save_params_values\<close> (script parameters), the tests of raw saving, and the builds with
  \<open>CAM_ADJUSTABLE_ALT_BUTTON\<close>, \<open>OPT_FORCE_LUA_CALL_NATIVE\<close> or without \<open>OPT_CURVES\<close>; the drawing and key
  handling of the menu editor; the user interface (\<open>gui*\<close>, \<open>theme.c\<close>, \<open>levent.c\<close>, \<open>kbd*\<close>), because it is
  drawing and menus over camera state; the inherited CHDK subsystems (scripting, shooting, USB,
  PTP, GPS, motion detection, DNG), which drive camera firmware that is not in the repository; the
  modules, games and the Game Boy player; the vendored interpreters under \<open>lib/\<close>; the per camera
  addresses, stubs and assembly under \<open>platform/\<close> and \<open>loader/\<close>; and the host tools under
  \<open>tools/\<close>, which never run on a camera.
\<close>

section \<open>The bus: matrices, compilation, evaluation\<close>

text \<open>A matrix that uses every class of source, for the witnesses.\<close>

definition sample_bend :: bend_t where
  "sample_bend = \<lparr>b_route = [0x10, 0x01, 0x20, 0x37, 0x4a, 0x05, 0x06, 0x07, 0x08, 0x19, 0, 0, 0, 0, 0, 0],
     b_nbits = 10, b_bayer = 0, b_row_period = 0, b_hdiv = 3, b_vdiv = 3, b_trash_type = 0,
     b_trash_rate = 0, b_depth = 3, b_tap_dx = 0, b_tap_dy = 0, b_pad = [0, 0], b_seed = 1\<rparr>"

definition straight_bend :: bend_t where
  "straight_bend = bend_reset sample_bend 10"

definition sample_src :: bend_src_t where
  "sample_src = \<lparr>s_prev = 0x155, s_above = 0x2aa, s_ob = 31, s_tap = 7, s_noise = 0x3c3, s_frame = 1\<rparr>"

lemma sample_bend_ok: "bend_ok sample_bend"
  by code_simp

lemma straight_bend_ok: "bend_ok straight_bend"
  by code_simp

lemma straight_bend_pure: "pure_route straight_bend"
  by code_simp

text \<open>
  C1. Compiling a matrix and evaluating the result drives every output bit from exactly the
  source the matrix names: the data pin (carried over by its distance from the top bit), its
  inverse, the rail, or the bus, read at this pixel. This is the contract of
  \<open>bend_compile\<close> with \<open>bend_eval\<close>; the lookup table, the masks and the bus bitmap are its
  implementation.
\<close>

theorem compiled_bend_follows_wiring:
  assumes "nbits \<le> 16" "i < nbits"
  shows "bit (bend_eval (bend_compile b nbits) v x y s) i \<longleftrightarrow>
    line_value b nbits v x y s i (wire b (from_bits b nbits) nbits i)"
  using assms by (rule eval_compile_bit)

theorem compiled_bend_follows_wiring_witness:
  "bit (bend_eval (bend_compile sample_bend 12) 0x2a5 5 7 sample_src) 5 \<longleftrightarrow>
    line_value sample_bend 12 0x2a5 5 7 sample_src 5 (wire sample_bend (from_bits sample_bend 12) 12 5)"
  by (rule compiled_bend_follows_wiring) simp_all

text \<open>
  C2. The two fast paths are sound and complete. \<open>is_identity\<close> is set exactly when every line
  is wired to its own pin, and then evaluation returns the masked input; \<open>is_pure\<close> is set
  exactly when no line is fed by a bus, and then the table alone gives the value, whatever the
  pixel's position and neighbours.
\<close>

theorem fast_paths_exact:
  assumes "nbits \<le> 16"
  shows "(c_is_identity (bend_compile b nbits) \<longleftrightarrow>
      (\<forall>i\<in>{..<nbits}. wire b (from_bits b nbits) nbits i = Data i)) \<and>
    (c_is_identity (bend_compile b nbits) \<longrightarrow>
      bend_eval (bend_compile b nbits) v x y s = v AND mask nbits) \<and>
    (c_is_pure (bend_compile b nbits) \<longleftrightarrow>
      (\<forall>i\<in>{..<nbits}. bus_of (wire b (from_bits b nbits) nbits i) = None)) \<and>
    (c_is_pure (bend_compile b nbits) \<longrightarrow>
      bend_eval (bend_compile b nbits) v x y s =
        ucast (c_lut (bend_compile b nbits) ! unat (v AND mask nbits)) AND mask nbits)"
  using assms identity_iff_wires[OF assms] is_pure_iff[OF assms]
  by (auto simp: identity_eval pure_eval_const)

theorem fast_paths_exact_witness:
  "(c_is_identity (bend_compile straight_bend 10) \<longleftrightarrow>
      (\<forall>i\<in>{..<10}. wire straight_bend (from_bits straight_bend 10) 10 i = Data i)) \<and>
    bend_eval (bend_compile straight_bend 10) 0x1f3 4 9 sample_src = 0x1f3 AND mask 10"
proof -
  have "\<forall>i\<in>set [0..<10]. wire straight_bend (from_bits straight_bend 10) 10 i = Data i" by code_simp
  then have "\<forall>i\<in>{..<10}. wire straight_bend (from_bits straight_bend 10) 10 i = Data i" by auto
  moreover have "(10::nat) \<le> 16" by simp
  ultimately show ?thesis using fast_paths_exact[of 10 straight_bend "0x1f3" 4 9 sample_src] by simp
qed

text \<open>
  A matrix never drives a line above the sensor's depth: the value written back to the
  frame buffer fits the depth it was compiled for.
\<close>

lemma bend_eval_stays_in_depth:
  assumes "nbits \<le> j"
  shows "\<not> bit (bend_eval (bend_compile b nbits) v x y s) j"
  using assms by (rule bend_eval_high)

lemma bend_eval_stays_in_depth_example:
  "\<not> bit (bend_eval (bend_compile sample_bend 10) 0xffff 5 7 sample_src) 10"
  by (rule bend_eval_stays_in_depth) simp



text \<open>
  C4. The random generator, on a sensor of three bits or more, always returns (its remainders
  are by non-zero numbers), for every seed and depth. What it returns is usable, keeps the
  depth, leaves a generator state that is not the absorbing zero, and wires no bus when buses
  are not allowed.
\<close>

theorem bend_random_usable:
  assumes "3 \<le> unat (b_nbits b)" "unat (b_nbits b) \<le> 16"
  shows "\<exists>b' s'. bend_random b seed depth allow_bus = Some (b', s') \<and> bend_ok b' \<and>
    unat (b_nbits b') = unat (b_nbits b) \<and> s' \<noteq> 0 \<and> (\<not> allow_bus \<longrightarrow> pure_route b')"
  using bend_random_inv[OF assms, of seed depth allow_bus] by (auto simp: ok_def rand_inv_def)

theorem bend_random_usable_witness:
  "\<exists>b' s'. bend_random sample_bend 77 4 False = Some (b', s') \<and> bend_ok b' \<and>
    unat (b_nbits b') = unat (b_nbits sample_bend) \<and> s' \<noteq> 0 \<and> (\<not> False \<longrightarrow> pure_route b')"
  by (rule bend_random_usable) (simp_all add: sample_bend_def)

text \<open>
  C5. On a two bit matrix, which the gate accepts, an edit of the random generator whose draw
  has a low bit pair other than 00 computes a remainder by zero: both pins count as the top
  two, and the re-pick is among \<open>n - 2 = 0\<close> others.
\<close>

theorem bend_random_two_bits_divides_by_zero:
  assumes "xs32 (xs32 s) AND 3 \<noteq> 0"
  shows "random_edge 2 allow_bus (b, s) = None"
  using assms by (rule random_edge_two_None)

theorem bend_random_two_bits_divides_by_zero_witness:
  "random_edge 2 True (sample_bend\<lparr>b_nbits := 2\<rparr>, 1) = None"
  by (rule bend_random_two_bits_divides_by_zero) code_simp

text \<open>
  Mutation walks inside the usable matrices: one edge moves, the depth and every knob are
  in range afterwards, and with buses off a matrix of data lines and rails stays one.
\<close>

lemma bend_mutate_usable:
  assumes "bend_ok b"
  shows "bend_ok (bend_mutate b seed allow_bus) \<and> (pure_route b \<longrightarrow> pure_route (bend_mutate b seed False))"
  using assms by (simp add: bend_mutate_ok bend_mutate_pure)

lemma bend_mutate_usable_example:
  "bend_ok (bend_mutate straight_bend 5 True) \<and> pure_route (bend_mutate straight_bend 5 False)"
  using bend_mutate_usable[OF straight_bend_ok, of 5 True] straight_bend_pure
    bend_mutate_usable[OF straight_bend_ok, of 5 False] by blast

text \<open>
  Rotation is an action of the integers: rotating by \<open>k\<close> and then by \<open>l\<close> is rotating by
  \<open>k + l\<close>, so every rotation is undone by the opposite one, negative counts included.
\<close>

lemma bend_rotate_action:
  assumes "bend_ok b"
  shows "bend_preset_rotate (bend_preset_rotate b k) l = bend_preset_rotate b (k + l) \<and>
    bend_preset_rotate (bend_preset_rotate b k) (- k) = b \<and> bend_ok (bend_preset_rotate b k)"
  using assms bend_preset_rotate_add[OF assms, of k "- k"]
  by (simp only: bend_preset_rotate_add bend_preset_rotate_0 bend_preset_rotate_ok add.right_inverse)

lemma bend_rotate_action_example:
  "bend_preset_rotate (bend_preset_rotate sample_bend 3) (- 14) = bend_preset_rotate sample_bend (3 + (- 14)) \<and>
    bend_preset_rotate (bend_preset_rotate sample_bend 3) (- 3) = sample_bend \<and> bend_ok (bend_preset_rotate sample_bend 3)"
  using bend_rotate_action[OF sample_bend_ok] by blast

text \<open>
  Swapping two lines, reversing the bus and inverting a set of lines each undo themselves
  on a usable matrix, and keep it usable.
\<close>

lemma bend_presets_undo_themselves:
  assumes "bend_ok b"
  shows "bend_preset_swap (bend_preset_swap b p q) p q = b \<and>
    bend_preset_reverse (bend_preset_reverse b) = b \<and>
    bend_preset_xor (bend_preset_xor b m) m = b \<and>
    bend_ok (bend_preset_swap b p q) \<and> bend_ok (bend_preset_reverse b) \<and> bend_ok (bend_preset_xor b m)"
  using assms by (simp add: bend_preset_swap_twice bend_preset_reverse_twice bend_preset_xor_twice
      bend_preset_swap_ok bend_preset_reverse_ok bend_preset_xor_ok)

lemma bend_presets_undo_themselves_example:
  "bend_preset_swap (bend_preset_swap sample_bend 1 7) 1 7 = sample_bend \<and>
    bend_preset_reverse (bend_preset_reverse sample_bend) = sample_bend \<and>
    bend_preset_xor (bend_preset_xor sample_bend 0x155) 0x155 = sample_bend \<and>
    bend_ok (bend_preset_swap sample_bend 1 7) \<and> bend_ok (bend_preset_reverse sample_bend) \<and>
    bend_ok (bend_preset_xor sample_bend 0x155)"
  by (rule bend_presets_undo_themselves) (rule sample_bend_ok)

text \<open>
  Turning the extra signals off leaves a usable matrix that wires no bus and reports how
  many lines it changed; on a matrix without buses it changes nothing and reports zero.
\<close>

lemma bend_simplify_removes_buses:
  assumes "bend_ok b"
  shows "bend_ok (fst (bend_simplify b)) \<and> pure_route (fst (bend_simplify b)) \<and>
    (pure_route b \<longrightarrow> bend_simplify b = (b, 0))"
proof -
  have "pure_route (fst (bend_simplify b))"
    using bend_simplify_pure[of _ b] by (auto simp: pure_route_def in_set_conv_nth BEND_MAX_BITS_def)
  moreover have "pure_route b \<longrightarrow> bend_simplify b = (b, 0)"
    using bend_simplify_fix[of b] bend_okD(3)[OF assms] by (simp add: pure_route_def)
  ultimately show ?thesis using bend_simplify_ok[OF assms] by simp
qed

lemma bend_simplify_removes_buses_example:
  "bend_ok (fst (bend_simplify sample_bend)) \<and> pure_route (fst (bend_simplify sample_bend)) \<and>
    bend_simplify straight_bend = (straight_bend, 0)"
  using bend_simplify_removes_buses[OF sample_bend_ok] bend_simplify_removes_buses[OF straight_bend_ok]
    straight_bend_pure by blast

section \<open>Segments\<close>



text \<open>
  C7. The circle layout is a disc: with the integer square root giving the half chord of each
  row, a pixel is in region 0 exactly when the far edge of its column is within the radius of
  the frame's centre, and in region 1 otherwise.
\<close>

theorem circle_layout_is_a_disc:
  assumes "0 < w" "w < 65536" "0 \<le> h" "1 \<le> sz" "sz \<le> 100" "0 \<le> x" "x < w"
  shows "snd (bend_seg_at st 4 sz x y w h) =
    (if (if x < w div 2 then w div 2 - x else x - w div 2 + 1)\<^sup>2 + (y - h div 2)\<^sup>2 \<le>
        ((min w h div 2) * sz div 100)\<^sup>2 then 0 else 1)"
  using circle_disc[of w x sz h st y] assms by simp

theorem circle_layout_is_a_disc_witness:
  "snd (bend_seg_at pat_boot 4 50 1500 1300 3720 2772) =
    (if (if 1500 < 3720 div (2::int) then 3720 div 2 - 1500 else 1500 - 3720 div 2 + 1)\<^sup>2 + (1300 - 2772 div 2)\<^sup>2 \<le>
        ((min 3720 2772 div 2) * 50 div (100::int))\<^sup>2 then 0 else 1)"
  by (rule circle_layout_is_a_disc) simp_all

text \<open>
  The bit-at-a-time square root of the circular layouts is the floor of the real one over
  the whole range of its argument, zero included.
\<close>

lemma isqrt_is_floor:
  assumes "v < 2 ^ 32"
  shows "bseg_isqrt v ^ 2 \<le> v \<and> v < (bseg_isqrt v + 1) ^ 2"
  using assms by (rule bseg_isqrt_floor)

lemma isqrt_is_floor_example:
  "bseg_isqrt 4294836225 ^ 2 \<le> 4294836225 \<and> 4294836225 < (bseg_isqrt 4294836225 + 1) ^ 2"
  by (rule isqrt_is_floor) simp

section \<open>The capture\<close>

text \<open>
  A small 10 bit sensor of two rows, the configuration and the state of a shot, a card of any
  room and what the camera answers, for the witnesses.
\<close>

definition capture_sensor :: sensor_t where
  "capture_sensor = \<lparr>sn_bits = 10, sn_active_x1 = 0, sn_rowlen = 10, sn_rowpix = 8, sn_rows = 2, sn_size = 20,
     sn_black = 31, sn_white = 1023\<rparr>"

definition capture_frame :: "nat \<Rightarrow> u8 list" where
  "capture_frame k = map (\<lambda>i. word_of_nat (i * 37 + k)) [0..<20]"

definition capture_conf :: conf_t where
  "capture_conf = \<lparr>cf_bitbend = sample_bend, cf_bend_segs = segs_zero, cf_bendx = chain_of_bytes (replicate 52 0),
     cf_bitbend_enable = 1, cf_bendx_enable = 0, cf_bitbend_simple = 1\<rparr>"

definition capture_raw :: raw_t where
  "capture_raw = \<lparr>rw_fb = capture_frame 11, rw_lut = False, rw_frame = 5,
     rw_pat = \<lparr>bseg_seed = 1, bseg_seed_cur = 0, bseg_ox = 0, bseg_oy = 0, bseg_inv = 0, bseg_nx = 0, bseg_ny = 0\<rparr>\<rparr>"

definition capture_env :: shot_env where
  "capture_env = \<lparr>se_lut = (\<lambda>i k. Some (replicate (unat k) 0)), se_scratch = (\<lambda>k. Some (replicate (unat k) 0)),
     se_rows = (\<lambda>i n. Some (replicate (n div 2) 0)), se_tick = 77, se_rom = None, se_jpg = None,
     se_dir = ''A/DCIM/100CANON'', se_num = 7, se_now = 900\<rparr>"

definition capture_mexp :: mexp_t where
  "capture_mexp = \<lparr>mexp_count = 0, mexp_target = 0, mexp_mode_used = 0, mexp_bend_each_used = 0\<rparr>"

definition capture_state :: "mem_card shot_state" where
  "capture_state = \<lparr>ss_conf = capture_conf, ss_raw = capture_raw, ss_card = ([], 0), ss_mexp = capture_mexp, ss_tag = tag_init\<rparr>"

definition two_averaged :: mexp_conf_t where
  "two_averaged = \<lparr>mexp_enable = 1, mexp_mode = 3, mexp_frames = 2, mexp_bend_each = 0\<rparr>"

lemma capture_sensor_ok: "sensor_ok capture_sensor" "white_ok capture_sensor" "sensor_fits True capture_sensor"
  by (simp_all add: sensor_fits_def sensor_ok_def white_ok_def capture_sensor_def mexp_depth_def group_px_def group_bytes_def BB_OB_X_def)

lemma capture_frame_ok: "length (capture_frame k) = 20" "frame_ok capture_sensor (capture_frame k)"
  by (simp_all add: capture_frame_def frame_ok_def capture_sensor_def)

lemma capture_conf_shape: "conf_shape capture_conf"
  by (simp add: conf_shape_def capture_conf_def segs_zero_def segs_codec.dec_shape chain_codec.dec_shape bend_ok_shape sample_bend_ok)

lemma capture_raw_length: "length (rw_fb capture_raw) = sn_rows capture_sensor * sn_rowlen capture_sensor"
  by (simp add: capture_raw_def capture_frame_ok capture_sensor_def)

lemma capture_state_ok: "shot_ok capture_sensor capture_state"
  using capture_conf_shape capture_frame_ok(2)[of 11]
  by (simp add: shot_ok_def capture_state_def capture_raw_def capture_mexp_def seq_ok_def)

lemma capture_env_ok: "mal_ok capture_sensor (se_rows capture_env)" "scratch_law capture_env" "lut_there capture_sensor capture_env"
  "se_dir capture_env \<noteq> []" "length (se_dir capture_env) + 16 < BEND_TAG_PATHLEN"
  by (simp_all add: mal_ok_def scratch_law_def lut_there_def capture_env_def capture_sensor_def)


text \<open>
  C8. Scope of the matrix. Whatever the configuration block holds and whatever the allocator
  answers, \<open>raw_bitbend\<close> stays inside the frame and the table, and changes no pixel outside the
  scope - the row period and the colour - of the matrix of the region the pixel lies in; with
  the switch off it changes nothing.
\<close>

theorem capture_bends_only_in_scope:
  assumes "sensor_ok sn" "conf_shape cf" "length (rw_fb st) = sn_rows sn * sn_rowlen sn"
  shows "\<exists>cf' st'. raw_bitbend sn mallocs tick (cf, st) = Some (cf', st') \<and> conf_shape cf' \<and>
    length (rw_fb st') = length (rw_fb st) \<and>
    (\<forall>y < sn_rows sn. \<forall>x < sn_rowpix sn. rget sn (rw_fb st') (y, x) \<noteq> rget sn (rw_fb st) (y, x) \<longrightarrow>
      cf_bitbend_enable cf \<noteq> 0 \<and> row_on (pixel_matrix sn cf' (shot_pattern tick st) y x) y \<and>
      in_scope (pixel_matrix sn cf' (shot_pattern tick st) y x) y x)"
  using bitbend_scope[OF assms, of mallocs tick] by (auto simp: ok_def)

theorem capture_bends_only_in_scope_witness:
  "\<exists>cf' st'. raw_bitbend capture_sensor (\<lambda>i k. None) 9 (capture_conf, capture_raw) = Some (cf', st') \<and> conf_shape cf' \<and>
    length (rw_fb st') = 20"
proof -
  have "length (rw_fb capture_raw) = 20" by (simp add: capture_raw_def capture_frame_ok)
  then show ?thesis
    using capture_bends_only_in_scope[OF capture_sensor_ok(1) capture_conf_shape capture_raw_length, of "\<lambda>i k. None" 9] by auto
qed

text \<open>
  C9. The recipe is what was applied. With the extra signals and the second engine off, every
  pixel of the picture is the old one driven through the usable matrix of its region in the
  configuration the shot leaves, and no bus enters. If one of these matrices moves a line they
  are queued as the recipe of this picture; if none does there is no recipe, and every pixel is
  as the sensor gave it.
\<close>

theorem recipe_is_what_was_applied:
  assumes "sensor_ok sn" "shot_ok sn s" "matrix_only True (ss_conf s)" "lut_there sn E" "mexp_enable mc = 0"
    "se_dir E \<noteq> []" "length (se_dir E) + 16 < BEND_TAG_PATHLEN"
  shows "\<exists>s'. raw_process_bend True sn ops stat mc BEND_SHOT_IN_JPEG E s = Some s' \<and>
    bends_to sn (ss_conf s') (shot_pattern (se_tick E) (ss_raw s)) (rw_fb (ss_raw s)) (rw_fb (ss_raw s')) \<and>
    (if bend_seg_any (ss_conf s')
     then ss_tag s' = (ss_tag s)\<lparr>bt_path := picture_file (se_dir E) (se_num E),
       bt_text := tag_text (sn_bits sn) (cf_bitbend (ss_conf s')) True (cf_bendx (ss_conf s')) False (cf_bend_segs (ss_conf s')),
       bt_at := se_now E, bt_pending := True\<rparr>
     else ss_tag s' = ss_tag s \<and>
       (\<forall>y < sn_rows sn. \<forall>x < sn_rowpix sn. rget sn (rw_fb (ss_raw s')) (y, x) = rget sn (rw_fb (ss_raw s)) (y, x)))"
  by (rule recorded_shot[OF assms])

theorem recipe_is_what_was_applied_witness:
  "\<exists>s'. raw_process_bend True capture_sensor wide_ops wide_stat (two_averaged\<lparr>mexp_enable := 0\<rparr>) 1 capture_env capture_state = Some s' \<and>
    bends_to capture_sensor (ss_conf s') (shot_pattern 77 capture_raw) (capture_frame 11) (rw_fb (ss_raw s')) \<and>
    (ss_tag s' = tag_init \<longrightarrow> rget capture_sensor (rw_fb (ss_raw s')) (0, 3) = rget capture_sensor (capture_frame 11) (0, 3))"
proof -
  have m: "matrix_only True (ss_conf capture_state)" "mexp_enable (two_averaged\<lparr>mexp_enable := 0\<rparr>) = 0"
    by (simp_all add: matrix_only_def capture_state_def capture_conf_def)
  obtain s' where s': "raw_process_bend True capture_sensor wide_ops wide_stat (two_averaged\<lparr>mexp_enable := 0\<rparr>) 1 capture_env capture_state = Some s'"
    "bends_to capture_sensor (ss_conf s') (shot_pattern (se_tick capture_env) (ss_raw capture_state)) (rw_fb (ss_raw capture_state)) (rw_fb (ss_raw s'))"
    "bend_seg_any (ss_conf s') \<Longrightarrow> bt_pending (ss_tag s')"
    "\<not> bend_seg_any (ss_conf s') \<Longrightarrow> \<forall>y < sn_rows capture_sensor. \<forall>x < sn_rowpix capture_sensor.
       rget capture_sensor (rw_fb (ss_raw s')) (y, x) = rget capture_sensor (rw_fb (ss_raw capture_state)) (y, x)"
    by (rule exE[OF recipe_is_what_was_applied[OF capture_sensor_ok(1) capture_state_ok m(1) capture_env_ok(3) m(2) capture_env_ok(4,5),
      of wide_ops wide_stat]], elim conjE) (simp split: if_splits)
  have e: "se_tick capture_env = 77" "ss_raw capture_state = capture_raw" "rw_fb capture_raw = capture_frame 11"
    "\<not> bt_pending tag_init" "0 < sn_rows capture_sensor" "3 < sn_rowpix capture_sensor"
    by (simp_all add: capture_env_def capture_state_def capture_raw_def tag_init_def capture_sensor_def)
  have "ss_tag s' = tag_init \<Longrightarrow> rget capture_sensor (rw_fb (ss_raw s')) (0, 3) = rget capture_sensor (capture_frame 11) (0, 3)"
    using s'(3,4) e(4-6) unfolding e(2,3) by auto
  then show ?thesis using s'(1,2) unfolding e(1-3) by blast
qed

text \<open>
  C10. The fast path. On a span of a row, a matrix without buses gives the same picture whether
  the span is cut into single pixels and whole groups, as \<open>bb_run\<close> does at 10 and 12 bits, or
  every pixel is fetched, evaluated and stored by the general loop.
\<close>

theorem fast_path_is_the_pixel_loop:
  assumes "sensor_ok sn" "y < sn_rows sn" "x0 \<le> x1" "x1 \<le> sn_rowpix sn" "length fb = sn_rows sn * sn_rowlen sn"
    "c_is_pure (bend_compile b (sn_bits sn))"
  shows "\<exists>u fb1 v fb2. bb_span sn (bend_compile b (sn_bits sn)) b y x0 x1 (src, ns, fb) = Some (fst u, snd u, fb1) \<and>
    for_range x0 x1 (bb_pixel sn (bend_compile b (sn_bits sn)) b y) (src, ns, fb) = Some (fst v, snd v, fb2) \<and>
    length fb1 = length fb \<and> length fb2 = length fb \<and>
    (\<forall>t. in_frame sn fb t \<longrightarrow> rget sn fb1 t = rget sn fb2 t)"
proof -
  obtain s1 where s1: "bb_span sn (bend_compile b (sn_bits sn)) b y x0 x1 (src, ns, fb) = Some s1"
    "remap sn (\<lambda>_. lut_fun (c_lut (bend_compile b (sn_bits sn)))) (cells b y x0 x1) fb (snd (snd s1))"
    using span_paints(2)[OF assms, of src ns] by (auto simp: ok_def)
  obtain s2 where s2: "for_range x0 x1 (bb_pixel sn (bend_compile b (sn_bits sn)) b y) (src, ns, fb) = Some s2"
    "remap sn (\<lambda>_. lut_fun (c_lut (bend_compile b (sn_bits sn)))) (cells b y x0 x1) fb (snd (snd s2))"
    using pixels_touch(2)[OF assms, of src ns] by (auto simp: ok_def)
  show ?thesis
    using s1 s2 unfolding remap_def
    by (intro exI[of _ "(fst s1, fst (snd s1))"] exI[of _ "snd (snd s1)"] exI[of _ "(fst s2, fst (snd s2))"] exI[of _ "snd (snd s2)"])
      simp
qed

theorem fast_path_is_the_pixel_loop_witness:
  "\<exists>u fb1 v fb2. bb_span capture_sensor (bend_compile straight_bend 10) straight_bend 1 0 8 (sample_src, 3, capture_frame 11) =
      Some (fst u, snd u, fb1) \<and>
    for_range 0 8 (bb_pixel capture_sensor (bend_compile straight_bend 10) straight_bend 1) (sample_src, 3, capture_frame 11) =
      Some (fst v, snd v, fb2) \<and> rget capture_sensor fb1 (1, 5) = rget capture_sensor fb2 (1, 5)"
proof -
  have b: "sn_bits capture_sensor = 10" "1 < sn_rows capture_sensor" "8 \<le> sn_rowpix capture_sensor"
    "length (capture_frame 11) = sn_rows capture_sensor * sn_rowlen capture_sensor"
    by (simp_all add: capture_sensor_def capture_frame_ok)
  have p: "c_is_pure (bend_compile straight_bend (sn_bits capture_sensor))"
    unfolding b by (rule pure_route_compiles[OF straight_bend_ok straight_bend_pure]) simp
  have "in_frame capture_sensor (capture_frame 11) (1, 5)" by (simp add: in_frame_def capture_sensor_def capture_frame_ok)
  then show ?thesis
    using fast_path_is_the_pixel_loop[OF capture_sensor_ok(1) b(2) _ b(3,4) p, of 0 sample_src 3] unfolding b(1)
    by (metis le0)
qed

text \<open>
  C11. The held samples. A pass over the whole frame is this recurrence, in reading order: the
  hold bus of a pixel is the pixel before it as it was, the bus of the row above and a tap that
  points backwards bring pixels already bent, a tap that points forwards brings them as they
  were, the optical black is sampled before its row is bent, and the noise is the trash
  generator stepped once per column from the seed of the row.
\<close>

theorem pass_is_a_scan:
  assumes "sensor_ok sn" "b_bayer b' = 0" "length (rw_fb st) = sn_rows sn * sn_rowlen sn"
    "b' = bent_matrix (sn_bits sn) simple b" "fst (bb_lut_ready sn malloc st)"
  shows "\<exists>st'. bb_run sn malloc simple b 0 sz 0 st = Some (b', st') \<and> length (rw_fb st') = length (rw_fb st) \<and>
    (\<forall>y x. in_frame sn (rw_fb st) (y, x) \<longrightarrow> rget sn (rw_fb st') (y, x) =
       (if row_on b' y then Some (scan_px sn (bend_compile b' (sn_bits sn)) b' (rw_frame st) (rw_fb st) (rw_fb st') y x)
        else rget sn (rw_fb st) (y, x)))"
  using scan_whole_frame[OF assms, of sz] by (auto simp: ok_def scanned_def in_frame_def)

theorem pass_is_a_scan_witness:
  "\<exists>b' st'. bb_run capture_sensor (se_lut capture_env 0) 0 sample_bend 0 50 0 capture_raw = Some (b', st') \<and>
    rget capture_sensor (rw_fb st') (1, 5) =
      Some (scan_px capture_sensor (bend_compile b' 10) b' 5 (capture_frame 11) (rw_fb st') 1 5)"
proof -
  let ?b = "bent_matrix (sn_bits capture_sensor) 0 sample_bend"
  have b: "b_bayer ?b = 0" "row_on ?b 1"
    by (simp_all add: bent_matrix_def bend_sanitize_def sample_bend_def BEND_MAX_BITS_def row_on_def)
  have t: "fst (bb_lut_ready capture_sensor (se_lut capture_env 0) capture_raw)"
    by (simp add: bb_lut_ready_def capture_env_def)
  have f: "in_frame capture_sensor (rw_fb capture_raw) (1, 5)"
    using capture_raw_length by (simp add: in_frame_def capture_sensor_def)
  obtain st' where "bb_run capture_sensor (se_lut capture_env 0) 0 sample_bend 0 50 0 capture_raw = Some (?b, st')"
    "rget capture_sensor (rw_fb st') (1, 5) = Some (scan_px capture_sensor (bend_compile ?b (sn_bits capture_sensor)) ?b
      (rw_frame capture_raw) (rw_fb capture_raw) (rw_fb st') 1 5)"
    using pass_is_a_scan[OF capture_sensor_ok(1) b(1) capture_raw_length refl t, of 50] f b(2) by auto
  then show ?thesis by (intro exI[of _ ?b] exI[of _ st']) (simp add: capture_sensor_def capture_raw_def)
qed

text \<open>
  The accessors of the hook. At 10, 12 and 14 bits a pixel that is written reads back, the
  write stays inside the frame and every other pixel of the frame keeps its value.
\<close>

lemma raw_pixels_round_trip:
  assumes "sensor_ok sn" "in_frame sn fb (y, x)" "take_bit (sn_bits sn) v = v"
  shows "\<exists>fb'. set_raw_pixel sn fb x y v = Some fb' \<and> get_raw_pixel sn fb' x y = Some v \<and> length fb' = length fb \<and>
    (\<forall>y' x'. in_frame sn fb (y', x') \<and> (y', x') \<noteq> (y, x) \<longrightarrow> get_raw_pixel sn fb' x' y' = get_raw_pixel sn fb x' y')"
proof -
  have f: "fits (sn_bits sn) (ucast v :: u32)" using fits_ucast[OF assms(3)] .
  have put: "rput sn fb (y, x) (ucast v) = set_raw_pixel sn fb x y v" by (simp add: rput_def ucast_back)
  have inj: "a = b" if "(ucast a :: u32) = ucast b" for a b :: u16 using that by (metis ucast_back)
  obtain q where q: "set_raw_pixel sn fb x y v = Some q" "length q = length fb" "rget sn q (y, x) = Some (ucast v)"
    using rput_ok[OF assms(1,2) f] by (auto simp: ok_def put)
  have "get_raw_pixel sn q x' y' = get_raw_pixel sn fb x' y'" if "in_frame sn fb (y', x')" "(y, x) \<noteq> (y', x')" for y' x'
    using rput_other[OF assms(1,2) that f, of q] q(1) unfolding put rget_def prod.case
    by (auto dest!: option.inj_map_strong[rotated] intro: inj)
  moreover have "get_raw_pixel sn q x y = Some v" using q(3) by (auto simp: rget_def dest: inj)
  ultimately show ?thesis using q by (intro exI[of _ q]) auto
qed

lemma raw_pixels_round_trip_example:
  "\<exists>fb'. set_raw_pixel capture_sensor (capture_frame 11) 5 1 0x2a7 = Some fb' \<and> get_raw_pixel capture_sensor fb' 5 1 = Some 0x2a7 \<and>
    get_raw_pixel capture_sensor fb' 4 1 = get_raw_pixel capture_sensor (capture_frame 11) 4 1"
proof -
  have f: "in_frame capture_sensor (capture_frame 11) (1, 5)" "in_frame capture_sensor (capture_frame 11) (1, 4)"
    by (simp_all add: in_frame_def capture_sensor_def capture_frame_ok)
  have "take_bit (sn_bits capture_sensor) (0x2a7 :: u16) = 0x2a7" by (simp add: capture_sensor_def)
  from raw_pixels_round_trip[OF capture_sensor_ok(1) f(1) this] f(2) show ?thesis by fastforce
qed

text \<open>
  C12. A sequence of exposures. On a card with room, the first of \<open>N\<close> shots is left as it is and
  every further one becomes the blend of all of them so far, pixel by pixel, in the order and
  with the weights of \<open>row_px\<close>; only the last is reported as the composite. Afterwards the
  accumulator is gone, the next shot starts a new sequence and no other file has changed.
\<close>

theorem sequence_is_the_fold_of_its_exposures:
  assumes "sensor_ok sn" "white_ok sn" "card_laws ops" "stat_ok ops stat" "roomy sn ops" "mal_ok sn mal"
    "conf_mode_ok mc" "mexp_count st = 0" "\<forall>f\<in>set fs. frame_ok sn f" "int (length fs) = mexp_frames mc"
  shows "\<exists>pics c' st'. mexp_shots sn ops stat mal mc fs (c, st) = Some (pics, c', st') \<and> length pics = length fs \<and>
      (\<forall>k < length fs. fst (pics ! k) = (if k + 1 = length fs then 1 else 0) \<and>
        (\<forall>y < sn_rows sn. \<forall>x < sn_rowpix sn. get_raw_pixel sn (snd (pics ! k)) x y =
          Some (blend_from sn (mexp_mode mc) 1 (the (get_raw_pixel sn (hd fs) x y))
            (map (\<lambda>f. the (get_raw_pixel sn f x y)) (tl (take (Suc k) fs)))))) \<and>
      co_read ops c' MEXP_TMP_FILE = None \<and> mexp_count st' = 0 \<and> (\<forall>q. q \<noteq> MEXP_TMP_FILE \<longrightarrow> co_read ops c' q = co_read ops c q)"
proof -
  obtain pics c' st' where s: "mexp_shots sn ops stat mal mc fs (c, st) = Some (pics, c', st')"
    "pictures sn (mexp_mode mc) (length fs) [] fs pics" "co_read ops c' MEXP_TMP_FILE = None" "mexp_count st' = 0"
    "\<forall>q. q \<noteq> MEXP_TMP_FILE \<longrightarrow> co_read ops c' q = co_read ops c q"
    using mexp_sequence[OF assms, of c] by blast
  have "get_raw_pixel sn (snd (pics ! k)) x y = Some (blend_from sn (mexp_mode mc) 1 (the (get_raw_pixel sn (hd fs) x y))
      (map (\<lambda>f. the (get_raw_pixel sn f x y)) (tl (take (Suc k) fs))))"
    if k: "k < length fs" and yx: "y < sn_rows sn" "x < sn_rowpix sn" for k y x
  proof -
    have t: "take (Suc k) fs \<noteq> []" "\<forall>f\<in>set (take (Suc k) fs). frame_ok sn f" "hd (take (Suc k) fs) = hd fs"
      using k assms(9) by (auto dest: in_set_takeD)
    have "shows_composite sn (mexp_mode mc) (take (Suc k) fs) (snd (pics ! k))" using s(2) k by (simp add: pictures_def)
    from shows_pixel[OF assms(1) this yx] show ?thesis
      using composite_pixels[OF assms(1) t(2,1) yx, of "mexp_mode mc"] by (simp add: t(3))
  qed
  then show ?thesis using s by (intro exI[of _ pics] exI[of _ c'] exI[of _ st']) (simp add: pictures_def)
qed

theorem sequence_is_the_fold_of_its_exposures_witness:
  "\<exists>pics c' st'. mexp_shots capture_sensor wide_ops wide_stat (se_rows capture_env) two_averaged [capture_frame 11, capture_frame 90]
      (([], 0), capture_mexp) = Some (pics, c', st') \<and> fst (pics ! 1) = 1 \<and>
    get_raw_pixel capture_sensor (snd (pics ! 1)) 3 1 = Some (blend_from capture_sensor 3 1
      (the (get_raw_pixel capture_sensor (capture_frame 11) 3 1)) [the (get_raw_pixel capture_sensor (capture_frame 90) 3 1)]) \<and>
    co_read wide_ops c' MEXP_TMP_FILE = None"
proof -
  let ?fs = "[capture_frame 11, capture_frame 90]"
  have mc: "conf_mode_ok two_averaged" "mexp_count capture_mexp = 0" "\<forall>f\<in>set ?fs. frame_ok capture_sensor f"
    "int (length ?fs) = mexp_frames two_averaged"
    by (simp_all add: conf_mode_ok_def two_averaged_def capture_mexp_def capture_frame_ok)
  obtain pics c' st' where s: "mexp_shots capture_sensor wide_ops wide_stat (se_rows capture_env) two_averaged ?fs (([], 0), capture_mexp) =
      Some (pics, c', st')" "\<forall>k < length ?fs. fst (pics ! k) = (if k + 1 = length ?fs then 1 else 0) \<and>
        (\<forall>y < sn_rows capture_sensor. \<forall>x < sn_rowpix capture_sensor. get_raw_pixel capture_sensor (snd (pics ! k)) x y =
          Some (blend_from capture_sensor (mexp_mode two_averaged) 1 (the (get_raw_pixel capture_sensor (hd ?fs) x y))
            (map (\<lambda>f. the (get_raw_pixel capture_sensor f x y)) (tl (take (Suc k) ?fs)))))" "co_read wide_ops c' MEXP_TMP_FILE = None"
    using sequence_is_the_fold_of_its_exposures[OF capture_sensor_ok(1,2) wide_laws wide_stat_ok wide_roomy capture_env_ok(1) mc, of "([], 0)"]
    by (elim exE conjE) (rule that; assumption)
  have k: "1 < length ?fs" "1 < sn_rows capture_sensor" "3 < sn_rowpix capture_sensor" by (simp_all add: capture_sensor_def)
  from s(2)[rule_format, OF k(1)] k(2,3) have "fst (pics ! 1) = 1 \<and>
      get_raw_pixel capture_sensor (snd (pics ! 1)) 3 1 = Some (blend_from capture_sensor 3 1
        (the (get_raw_pixel capture_sensor (capture_frame 11) 3 1)) [the (get_raw_pixel capture_sensor (capture_frame 90) 3 1)])"
    by (simp add: two_averaged_def)
  then show ?thesis using s(1,3) by blast
qed

text \<open>
  C13. The average is the average. In the average mode every pixel of the finished picture is off
  the mean of its exposures by no more than \<open>(N + 1) / 4\<close>, whatever the order they came in, as
  long as no exposure is above the white level. The bound grows with \<open>N\<close>: the rounding of the
  steps adds up.
\<close>

theorem averaged_picture_error:
  assumes "sensor_ok sn" "white_ok sn" "card_laws ops" "stat_ok ops stat" "roomy sn ops" "mal_ok sn mal"
    "conf_mode_ok mc" "mexp_mode mc = MEXP_AVERAGE" "mexp_count st = 0" "\<forall>f\<in>set fs. frame_ok sn f"
    "int (length fs) = mexp_frames mc"
    "\<forall>f\<in>set fs. \<forall>y < sn_rows sn. \<forall>x < sn_rowpix sn. unat (the (get_raw_pixel sn f x y)) \<le> unat (sn_white sn)"
  shows "\<exists>pics s'. mexp_shots sn ops stat mal mc fs (c, st) = Some (pics, s') \<and> fst (last pics) = 1 \<and>
    (\<forall>y < sn_rows sn. \<forall>x < sn_rowpix sn. \<exists>v. get_raw_pixel sn (snd (last pics)) x y = Some v \<and>
      4 * \<bar>int (length fs) * int (unat v) - (\<Sum>f\<leftarrow>fs. int (unat (the (get_raw_pixel sn f x y))))\<bar> \<le>
        int (length fs) * (int (length fs) + 1) - 2)"
proof -
  have n: "fs \<noteq> []" "length fs \<le> 1000" "mexp_mode mc = 3" using assms(7,8,11) by (auto simp: conf_mode_ok_def)
  have w: "unat (sn_white sn) \<le> 65535"
  proof -
    have "(2::nat) ^ sn_bits sn \<le> 2 ^ 16" using sensor_depth[OF assms(1)] by (intro power_increasing) (auto simp: mexp_depth_def)
    then show ?thesis using assms(2) by (simp add: white_ok_def)
  qed
  obtain pics c' st' where s: "mexp_shots sn ops stat mal mc fs (c, st) = Some (pics, c', st')"
    "pictures sn (mexp_mode mc) (length fs) [] fs pics"
    using mexp_sequence[OF assms(1-7,9-11), of c] by blast
  define k where "k = length fs - 1"
  have k: "k < length fs" "take (Suc k) fs = fs" "k + 1 = length fs" using n(1) by (simp_all add: k_def)
  have p: "length pics = length fs" "fst (pics ! k) = 1" "shows_composite sn 3 fs (snd (pics ! k))"
    using s(2)[unfolded pictures_def n(3), THEN conjunct2, rule_format, OF k(1)] s(2) k(2,3) by (simp_all add: pictures_def)
  have l: "last pics = pics ! k" using p(1) n(1) unfolding k_def by (metis last_conv_nth length_0_conv)
  have "\<exists>v. get_raw_pixel sn (snd (last pics)) x y = Some v \<and>
      4 * \<bar>int (length fs) * int (unat v) - (\<Sum>f\<leftarrow>fs. int (unat (the (get_raw_pixel sn f x y))))\<bar> \<le>
        int (length fs) * (int (length fs) + 1) - 2" if yx: "y < sn_rows sn" "x < sn_rowpix sn" for y x
  proof -
    have r: "row_pixels sn f y ! x = the (get_raw_pixel sn f x y)" if "f \<in> set fs" for f
      using pixel_row[OF assms(1) _ yx] assms(10) that by blast
    have "\<forall>f\<in>set fs. unat (row_pixels sn f y ! x) \<le> unat (sn_white sn)" using assms(12) yx r by simp
    note composite_average[OF n(1,2) w this]
    moreover have "(\<Sum>f\<leftarrow>fs. int (unat (row_pixels sn f y ! x))) = (\<Sum>f\<leftarrow>fs. int (unat (the (get_raw_pixel sn f x y))))"
      using r by (metis (mono_tags, lifting) map_eq_conv)
    ultimately show ?thesis using shows_pixel[OF assms(1) p(3) yx] by (simp add: l)
  qed
  then show ?thesis using s(1) p(2) l by auto
qed

theorem averaged_picture_error_witness:
  "\<exists>pics s' v. mexp_shots capture_sensor wide_ops wide_stat (se_rows capture_env) two_averaged [capture_frame 11, capture_frame 90]
      (([], 0), capture_mexp) = Some (pics, s') \<and> get_raw_pixel capture_sensor (snd (last pics)) 3 1 = Some v \<and>
    4 * \<bar>2 * int (unat v) - (\<Sum>f\<leftarrow>[capture_frame 11, capture_frame 90]. int (unat (the (get_raw_pixel capture_sensor f 3 1))))\<bar> \<le> 4"
proof -
  let ?fs = "[capture_frame 11, capture_frame 90]"
  have mc: "conf_mode_ok two_averaged" "mexp_mode two_averaged = 3" "mexp_count capture_mexp = 0" "\<forall>f\<in>set ?fs. frame_ok capture_sensor f"
    "int (length ?fs) = mexp_frames two_averaged"
    by (simp_all add: conf_mode_ok_def two_averaged_def capture_mexp_def capture_frame_ok)
  have "unat (the (get_raw_pixel capture_sensor f x y)) \<le> unat (sn_white capture_sensor)"
    if "f \<in> set ?fs" "y < sn_rows capture_sensor" "x < sn_rowpix capture_sensor" for f y x
  proof -
    have f: "in_frame capture_sensor f (y, x)" using that mc(4) by (auto simp: frame_ok_def in_frame_def)
    from rget_the(2)[OF capture_sensor_ok(1) f] get_raw_pixel_row[OF capture_sensor_ok(1) f]
    have "fits 10 (ucast (the (get_raw_pixel capture_sensor f x y)) :: u32)"
      by (simp add: rget_def capture_sensor_def)
    then have "unat (ucast (the (get_raw_pixel capture_sensor f x y)) :: u32) < 2 ^ 10" by (rule fits_unat) simp
    then show ?thesis unfolding unat_up by (simp add: capture_sensor_def)
  qed
  then obtain pics s' where "mexp_shots capture_sensor wide_ops wide_stat (se_rows capture_env) two_averaged ?fs (([], 0), capture_mexp) = Some (pics, s')"
    "\<forall>y < sn_rows capture_sensor. \<forall>x < sn_rowpix capture_sensor. \<exists>v. get_raw_pixel capture_sensor (snd (last pics)) x y = Some v \<and>
      4 * \<bar>int (length ?fs) * int (unat v) - (\<Sum>f\<leftarrow>?fs. int (unat (the (get_raw_pixel capture_sensor f x y))))\<bar> \<le>
        int (length ?fs) * (int (length ?fs) + 1) - 2"
    using averaged_picture_error[OF capture_sensor_ok(1,2) wide_laws wide_stat_ok wide_roomy capture_env_ok(1) mc, of "([], 0)"] by blast
  moreover have "1 < sn_rows capture_sensor" "3 < sn_rowpix capture_sensor" by (simp_all add: capture_sensor_def)
  ultimately show ?thesis by fastforce
qed

text \<open>
  C14. Any card, any memory. Whatever the card answers and whether or not there is memory, a shot
  with multiple exposure on or off stays inside the frame and the row buffers, keeps the count
  and the latched settings of the sequence in their ranges, changes no file but the accumulator
  and reports a composite only when the sequence is over. The first exposure of a sequence, and
  every shot with the feature off, leaves the frame as it is.
\<close>

theorem multiple_exposure_is_safe:
  assumes "sensor_ok sn" "card_laws ops" "frame_ok sn fb" "seq_ok st"
  shows "\<exists>d fb' c' st'. raw_mexp sn ops stat mal cf (fb, c, st) = Some (d, fb', c', st') \<and> frame_ok sn fb' \<and> seq_ok st' \<and>
    (mexp_count st = 0 \<or> mexp_enable cf = 0 \<longrightarrow> d = 0 \<and> fb' = fb) \<and> (d = 0 \<or> d = 1 \<and> mexp_count st' = 0) \<and>
    (\<forall>q. q \<noteq> MEXP_TMP_FILE \<longrightarrow> co_read ops c' q = co_read ops c q)"
  by (rule raw_mexp_safe[OF assms])

theorem multiple_exposure_is_safe_witness:
  "\<exists>d fb' c' st'. raw_mexp capture_sensor mem_ops (\<lambda>c p. Some 20) (\<lambda>i n. Some []) two_averaged
      (capture_frame 3, ([(MEXP_TMP_FILE, [1, 2, 3])], 4), capture_mexp\<lparr>mexp_count := 1, mexp_target := 3\<rparr>) = Some (d, fb', c', st') \<and>
    frame_ok capture_sensor fb' \<and> seq_ok st'"
proof -
  have "seq_ok (capture_mexp\<lparr>mexp_count := 1, mexp_target := 3\<rparr>)"
    by (simp add: seq_ok_def mexp_in_progress_def capture_mexp_def)
  from multiple_exposure_is_safe[OF capture_sensor_ok(1) mem_laws capture_frame_ok(2) this] show ?thesis by blast
qed

text \<open>
  Giving up. When the accumulator is missing, has the wrong size or cannot be opened, or
  there is no memory for the rows, the exposure goes out on its own, untouched, the file is
  removed and the sequence is over.
\<close>

lemma unreadable_accumulator_ends_the_sequence:
  assumes "\<not> accumulator_there sn ops stat mal c" "mexp_in_progress st" "mexp_enable cf \<noteq> 0"
  shows "raw_mexp sn ops stat mal cf (fb, c, st) = Some (0, fb, co_remove ops c MEXP_TMP_FILE, st\<lparr>mexp_count := 0\<rparr>)"
  by (rule raw_mexp_gives_up[OF assms])

lemma unreadable_accumulator_ends_the_sequence_example:
  "raw_mexp capture_sensor mem_ops wide_stat (\<lambda>i n. None) two_averaged (capture_frame 3, ([(MEXP_TMP_FILE, capture_frame 9)], 4),
      capture_mexp\<lparr>mexp_count := 1, mexp_target := 2\<rparr>) =
    Some (0, capture_frame 3, ([], 4), capture_mexp\<lparr>mexp_target := 2\<rparr>)"
proof -
  have "\<not> accumulator_there capture_sensor mem_ops wide_stat (\<lambda>i n. None) ([(MEXP_TMP_FILE, capture_frame 9)], 4)"
    by (simp add: accumulator_there_def)
  moreover have "mexp_in_progress (capture_mexp\<lparr>mexp_count := 1, mexp_target := 2\<rparr>)" "mexp_enable two_averaged \<noteq> 0"
    by (simp_all add: mexp_in_progress_def capture_mexp_def two_averaged_def)
  ultimately show ?thesis
    using unreadable_accumulator_ends_the_sequence[of capture_sensor mem_ops wide_stat "\<lambda>i n. None" "([(MEXP_TMP_FILE, capture_frame 9)], 4)"
        "capture_mexp\<lparr>mexp_count := 1, mexp_target := 2\<rparr>" two_averaged "capture_frame 3"]
    by (simp add: mem_ops_def capture_mexp_def)
qed

text \<open>
  C15. A lost exposure. In the middle of a sequence the result of storing the accumulator is not
  looked at. When the file cannot be opened for writing the picture of this shot is the right
  composite and the count goes up, but the card still holds the accumulator without it: the
  exposures that follow are blended into a sequence that lacks one, with the weight of one more.
\<close>

theorem failed_store_loses_an_exposure:
  assumes "sensor_ok sn" "white_ok sn" "stat_ok ops stat" "mal_ok sn mal" "mexp_enable cf \<noteq> 0"
    "held sn ops mode N gs (c, st)" "length gs + 1 < N" "frame_ok sn f" "co_create ops c MEXP_TMP_FILE = (False, c)"
  shows "\<exists>fb'. raw_mexp sn ops stat mal cf (f, c, st) = Some (0, fb', c, st\<lparr>mexp_count := int (length gs) + 1\<rparr>) \<and>
    shows_composite sn mode (gs @ [f]) fb'"
  using exposure_lost[OF assms] by metis

theorem failed_store_loses_an_exposure_witness:
  "\<exists>fb'. raw_mexp capture_sensor (wide_ops\<lparr>co_create := (\<lambda>c p. (False, c))\<rparr>) wide_stat (se_rows capture_env) two_averaged
      (capture_frame 90, ([(MEXP_TMP_FILE, capture_frame 11)], 0), capture_mexp\<lparr>mexp_count := 1, mexp_target := 3, mexp_mode_used := 3\<rparr>) =
    Some (0, fb', ([(MEXP_TMP_FILE, capture_frame 11)], 0), capture_mexp\<lparr>mexp_count := 2, mexp_target := 3, mexp_mode_used := 3\<rparr>)"
proof -
  let ?ops = "wide_ops\<lparr>co_create := (\<lambda>c p. (False, c))\<rparr> :: mem_card card_ops"
  let ?st = "capture_mexp\<lparr>mexp_count := 1, mexp_target := 3, mexp_mode_used := 3\<rparr>"
  let ?c = "([(MEXP_TMP_FILE, capture_frame 11)], 0) :: mem_card"
  have h: "held capture_sensor ?ops 3 3 [capture_frame 11] (?c, ?st)"
    using shows_one[OF capture_frame_ok(2), of 3 11] by (simp add: held_def wide_ops_def mem_ops_def capture_mexp_def)
  have "stat_ok ?ops wide_stat" using wide_stat_ok by (simp add: stat_ok_def)
  moreover have "mexp_enable two_averaged \<noteq> 0" "length [capture_frame 11] + 1 < 3" "co_create ?ops ?c MEXP_TMP_FILE = (False, ?c)"
    by (simp_all add: two_averaged_def)
  ultimately have "\<exists>fb'. raw_mexp capture_sensor ?ops wide_stat (se_rows capture_env) two_averaged (capture_frame 90, ?c, ?st) =
      Some (0, fb', ?c, ?st\<lparr>mexp_count := int (length [capture_frame 11]) + 1\<rparr>) \<and>
      shows_composite capture_sensor 3 ([capture_frame 11] @ [capture_frame 90]) fb'"
    by (intro failed_store_loses_an_exposure[OF capture_sensor_ok(1,2) _ capture_env_ok(1) _ h _ capture_frame_ok(2)])
  then show ?thesis by auto
qed

text \<open>
  C16. The ghost on the screen. After an exposure has been sampled the next call of
  \<open>mexp_ghost_draw\<close>, forced or not, paints the whole overlay: on a checkerboard of the screen, and
  nowhere else, the level of the quad of sensor pixels the cell stands for, each cell once. The
  camera paints over it, so it is repaired a quarter at a time: whenever one looks, the next four
  ticks paint the whole of it again, each cell once.
\<close>

theorem ghost_shows_the_exposure:
  assumes "sensor_ok sn" "area_ok sn ga" "length fb = sn_rows sn * sn_rowlen sn" "ghost_ok sc st"
    and "\<forall>n b. malloc n = Some b \<longrightarrow> length b = n"
    and "2 \<le> sc_width sc" "2 \<le> sc_height sc" "ga_x1 ga + 1 < ga_x2 ga" "ga_y1 ga + 1 < ga_y2 ga"
    and "gh_tile st \<noteq> None \<or> malloc (sc_width sc div 2 * (sc_height sc div 2)) \<noteq> None"
    and "mexp_in_progress mx" "length grey = 5"
  shows "\<exists>st0 r st1 ps. mexp_ghost_capture malloc sn ga sc True fb st = Some (st0, r) \<and>
    mexp_ghost_draw grey force mx st0 = Some (st1, ps) \<and> distinct ps \<and> set ps = overlay grey sn ga sc fb \<and>
    (\<forall>n. \<exists>st2 qs st3 rs. ticks n grey mx st1 = Some (st2, qs) \<and> ticks 4 grey mx st2 = Some (st3, rs) \<and>
      distinct rs \<and> set rs = overlay grey sn ga sc fb)"
  by (rule ghost_shown[OF assms])

text \<open>A screen of five by six pixels, and no ghost yet.\<close>

definition small_screen :: screen_t where
  "small_screen = \<lparr>sc_width = 5, sc_height = 6\<rparr>"

definition no_ghost :: ghost_t where
  "no_ghost = \<lparr>gh_tile = None, gh_w = 0, gh_h = 0, gh_dirty = False, gh_painted = False, gh_slice = 3\<rparr>"

theorem ghost_shows_the_exposure_witness:
  "\<exists>st0 r st1 ps. mexp_ghost_capture (\<lambda>n. Some (replicate n 0)) capture_sensor \<lparr>ga_x1 = 2, ga_y1 = 0, ga_x2 = 8, ga_y2 = 2\<rparr>
      small_screen True (capture_frame 11) no_ghost = Some (st0, r) \<and>
    mexp_ghost_draw ''01234'' False (capture_mexp\<lparr>mexp_count := 1, mexp_target := 2\<rparr>) st0 = Some (st1, ps) \<and>
    (3, 2, ''01234'' ! unat (quad_level capture_sensor (capture_frame 11) 4 0)) \<in> set ps \<and>
    (\<forall>(X, Y, c) \<in> set ps. X < 5 \<and> Y < 6)"
proof -
  let ?ga = "\<lparr>ga_x1 = 2, ga_y1 = 0, ga_x2 = 8, ga_y2 = 2\<rparr>" and ?m = "\<lambda>n. Some (replicate n (0 :: u8))"
  let ?o = "overlay ''01234'' capture_sensor ?ga small_screen (capture_frame 11)"
  have h: "area_ok capture_sensor ?ga" "length (capture_frame 11) = sn_rows capture_sensor * sn_rowlen capture_sensor"
    "ghost_ok small_screen no_ghost" "2 \<le> sc_width small_screen" "2 \<le> sc_height small_screen"
    "mexp_in_progress (capture_mexp\<lparr>mexp_count := 1, mexp_target := 2\<rparr>)"
    by (simp_all add: area_ok_def capture_sensor_def capture_frame_ok ghost_ok_def small_screen_def no_ghost_def mexp_in_progress_def capture_mexp_def)
  have "\<exists>st0 r st1 ps. mexp_ghost_capture ?m capture_sensor ?ga small_screen True (capture_frame 11) no_ghost = Some (st0, r) \<and>
      mexp_ghost_draw ''01234'' False (capture_mexp\<lparr>mexp_count := 1, mexp_target := 2\<rparr>) st0 = Some (st1, ps) \<and> set ps = ?o"
    using ghost_shows_the_exposure[OF capture_sensor_ok(1) h(1-3) _ h(4,5) _ _ _ h(6), of ?m "''01234''" False] by fastforce
  moreover have "(3, 2, ''01234'' ! unat (quad_level capture_sensor (capture_frame 11) 4 0)) \<in> ?o"
    by (simp add: overlay_def small_screen_def sample_at_def)
  moreover have "\<forall>(X, Y, c) \<in> ?o. X < 5 \<and> Y < 6"
    using overlay_inside[of _ _ _ "''01234''" capture_sensor ?ga small_screen "capture_frame 11"] by (auto simp: small_screen_def)
  ultimately show ?thesis by metis
qed

text \<open>
  C17. A whole exposure is safe. Whatever the configuration block, the sequence and the card
  hold, the engines as \<open>raw_process\<close> orders them stay inside their buffers, keep the state of the
  hook well formed and change no file but the accumulator; a recipe is queued only when it is
  wanted in the picture, an engine is on with something to apply, and the body has the second
  engine - without it \<open>bend_tag_queue\<close> is handed a null chain and no picture is ever tagged.
\<close>

theorem exposure_is_safe:
  assumes "sensor_fits exper sn" "scratch_law E" "card_laws ops" "shot_ok sn s"
  shows "\<exists>s'. raw_process_bend exper sn ops stat mc save E s = Some s' \<and> shot_ok sn s' \<and>
    (\<forall>q. q \<noteq> MEXP_TMP_FILE \<longrightarrow> co_read ops (ss_card s') q = co_read ops (ss_card s) q) \<and>
    (ss_tag s' \<noteq> ss_tag s \<longrightarrow> save = BEND_SHOT_IN_JPEG \<and> exper \<and>
      (cf_bitbend_enable (ss_conf s') \<noteq> 0 \<and> bend_seg_any (ss_conf s') \<or>
       cf_bendx_enable (ss_conf s') \<noteq> 0 \<and> 0 < bendx_chain_count (cf_bendx (ss_conf s'))))"
  by (rule raw_process_bend_safe[OF assms])

theorem exposure_is_safe_witness:
  "\<exists>s'. raw_process_bend True capture_sensor wide_ops wide_stat two_averaged BEND_SHOT_SIDECAR capture_env capture_state = Some s' \<and>
    shot_ok capture_sensor s' \<and> ss_tag s' = tag_init"
proof -
  have t: "ss_tag capture_state = tag_init" by (simp add: capture_state_def)
  show ?thesis
    using exposure_is_safe[OF capture_sensor_ok(3) capture_env_ok(2) wide_laws capture_state_ok, of wide_stat two_averaged 2]
    unfolding t by auto
qed



section \<open>Experimental profiles\<close>

definition sample_profile :: bendx_t where
  "sample_profile = \<lparr>x_kind = 6, x_amount = 200, x_reach = 3, x_lanes = 0, x_mix = 9, x_rowmod = 70,
     x_pad = [0, 0], x_seed = 0\<rparr>"

definition sample_chain :: bendx_chain_t where
  "sample_chain = \<lparr>ch_item = [sample_profile, bendx_reset sample_profile, sample_profile\<lparr>x_kind := 4\<rparr>,
     bendx_reset sample_profile], ch_n = 3, ch_pad = [0, 0, 0]\<rparr>"

text \<open>
  C19. The gate of the chain. Any chain that arrives from the card leaves it with every profile
  in range, at most four locked, and no locked slot holding Off - the invariant the position
  markers rely on. The live effects among the locked profiles survive, in their order, and a
  second pass changes nothing.
\<close>

theorem chain_sanitize_closes_holes:
  assumes "chain_shape c"
  shows "chain_ok (bendx_chain_sanitize c) \<and>
    chain_locked (bendx_chain_sanitize c) =
      filter (\<lambda>x. \<not> bendx_is_off x)
        (map bendx_sanitize (take (if 4 < locked c then 0 else locked c) (ch_item c))) \<and>
    bendx_chain_sanitize (bendx_chain_sanitize c) = bendx_chain_sanitize c"
  using chain_sanitize_full[OF assms] chain_gate.san_twice[OF assms] by simp

theorem chain_sanitize_closes_holes_witness:
  "chain_ok (bendx_chain_sanitize sample_chain) \<and>
    chain_locked (bendx_chain_sanitize sample_chain) =
      filter (\<lambda>x. \<not> bendx_is_off x)
        (map bendx_sanitize (take (if 4 < locked sample_chain then 0 else locked sample_chain) (ch_item sample_chain))) \<and>
    bendx_chain_sanitize (bendx_chain_sanitize sample_chain) = bendx_chain_sanitize sample_chain"
  by (rule chain_sanitize_closes_holes) code_simp

text \<open>
  Locking the live profile and removing any entry keep the invariant of the chain. Locking
  does not change what will be applied or in which order; removing a locked profile takes
  exactly that one out and keeps the order of the rest.
\<close>

lemma chain_operations_keep_order:
  assumes "chain_ok c"
  shows "chain_ok (fst (bendx_chain_lock c)) \<and> chain_ok (fst (bendx_chain_remove c i)) \<and>
    chain_applied (fst (bendx_chain_lock c)) = chain_applied c \<and>
    (\<forall>k\<in>{..<locked c}. chain_locked (fst (bendx_chain_remove c (int k))) =
      take k (chain_locked c) @ drop (Suc k) (chain_locked c))"
  using assms by (simp add: chain_lock_ok chain_remove_ok chain_lock_applied chain_remove_locked_list)

lemma chain_operations_keep_order_example:
  "chain_applied (fst (bendx_chain_lock (bendx_chain_sanitize sample_chain))) =
      chain_applied (bendx_chain_sanitize sample_chain) \<and>
    chain_ok (fst (bendx_chain_remove (bendx_chain_sanitize sample_chain) 1))"
proof -
  have "chain_ok (bendx_chain_sanitize sample_chain)" by code_simp
  from chain_operations_keep_order[OF this, of 1] show ?thesis by simp
qed

text \<open>
  Every profile the chain will apply is a live effect with every knob in the range of that
  effect, so the dispatch on its kind and the shifts by its amount are within bounds.
\<close>

lemma chain_applies_usable_profiles:
  assumes "chain_shape c" "x \<in> set (chain_applied (bendx_chain_sanitize c))"
  shows "bendx_ok x \<and> \<not> bendx_is_off x"
  using chain_applied_live[OF _ assms(2)] chain_gate.san_good[OF assms(1)] by simp

lemma chain_applies_usable_profiles_example:
  "bendx_ok (bendx_sanitize sample_profile) \<and> \<not> bendx_is_off (bendx_sanitize sample_profile)"
proof (rule chain_applies_usable_profiles[of sample_chain])
  show "chain_shape sample_chain" by code_simp
  show "bendx_sanitize sample_profile \<in> set (chain_applied (bendx_chain_sanitize sample_chain))"
    by code_simp
qed

text \<open>
  A reroll of the knobs never changes the effect, leaves every knob in range, and never
  puts a foreign bus on Replace, whatever the seed: the photograph is damaged, not removed.
\<close>

lemma bendx_random_keeps_the_effect:
  assumes "bendx_ok x"
  shows "bendx_ok (fst (bendx_random x seed)) \<and> x_kind (fst (bendx_random x seed)) = x_kind x \<and>
    (bendx_needs_env (uint (x_kind x)) \<longrightarrow> uint (x_mix (fst (bendx_random x seed))) \<noteq> 0)"
  using assms bendx_random_ok[OF bendx_ok_shape[OF assms]] bendx_random_never_replaces
  by (simp add: bendx_random_kind bendx_ok_def)

lemma bendx_random_keeps_the_effect_example:
  "bendx_ok (fst (bendx_random (bendx_set_kind sample_profile 11) 99)) \<and>
    x_kind (fst (bendx_random (bendx_set_kind sample_profile 11) 99)) = 11 \<and>
    uint (x_mix (fst (bendx_random (bendx_set_kind sample_profile 11) 99))) \<noteq> 0"
proof -
  have "bendx_ok (bendx_set_kind sample_profile 11)"
    "x_kind (bendx_set_kind sample_profile 11) = 11"
    "bendx_needs_env (uint (x_kind (bendx_set_kind sample_profile 11)))"
    by code_simp+
  then show ?thesis using bendx_random_keeps_the_effect[of "bendx_set_kind sample_profile 11" 99] by simp
qed

text \<open>
  The amount label: for a usable profile it is at most four characters, so it fits the
  eight byte buffer with its terminator, and where it is a number it reads back as the amount
  in the effect's own units.
\<close>

lemma bendx_label_fits_and_reads_back:
  assumes "bendx_ok x"
  shows "length (bendx_label x) \<le> 4 \<and>
    (1 < uint (x_kind x) \<longrightarrow> read_label (bendx_label x) = label_value x)"
  using bendx_label_length[OF assms] label_number(1) by (simp add: bendx_label_def Let_def)

lemma bendx_label_fits_and_reads_back_example:
  "length (bendx_label (bendx_sanitize sample_profile)) \<le> 4 \<and>
    read_label (bendx_label (bendx_sanitize sample_profile)) = 256"
proof -
  have "bendx_ok (bendx_sanitize sample_profile)" "1 < uint (x_kind (bendx_sanitize sample_profile))"
    "label_value (bendx_sanitize sample_profile) = 256"
    by code_simp+
  then show ?thesis using bendx_label_fits_and_reads_back[of "bendx_sanitize sample_profile"] by simp
qed

section \<open>Effects on the frame buffer\<close>

text \<open>A small 12 bit frame: four rows of eight pixels, twelve bytes each.\<close>

definition sample_buf :: bendx_buf_t where
  "sample_buf = \<lparr>bb_rowlen = 12, bb_rowpix = 8, bb_rows = 4, bb_ob_x = 1, bb_nbits = 12\<rparr>"

definition sample_fb :: "u8 list" where
  "sample_fb = map (\<lambda>k. word_of_nat (k * 37 + 11)) [0..<48]"

definition sample_env :: bendx_env_t where
  "sample_env = \<lparr>e_rom = Some sample_fb, e_jpg = None, e_frame = 1, e_black = 31, e_white = 0\<rparr>"

definition sample_fault :: bendx_t where
  "sample_fault = \<lparr>x_kind = 4, x_amount = 1, x_reach = 0, x_lanes = 0, x_mix = 0, x_rowmod = 0,
     x_pad = [0, 0], x_seed = 9\<rparr>"

definition sample_malloc :: "u32 \<Rightarrow> u8 list option" where
  "sample_malloc k = Some (replicate (unat k) 0)"

lemma sample_buf_ok: "buf_ok sample_buf"
  by (simp add: buf_ok_def px_wf_def bx_wholepix_def sample_buf_def bx_gpix_def bx_gsz_def)

lemma sample_fb_length: "length sample_fb = bb_rows sample_buf * bb_rowlen sample_buf"
  by (simp add: sample_fb_def sample_buf_def)

lemma sample_room: "bx_room sample_buf (sample_fb, replicate 24 0)"
  using sample_fb_length by (simp add: bx_room_def sample_buf_def)

text \<open>
  The packed pixel accessors, at both depths the sensors have: a value that fits the depth
  is read back after it is written, the write succeeds inside the buffer, changes no byte
  outside the pixel's group and no other pixel, wherever in the buffer that one lies.
\<close>

lemma packed_pixels_round_trip:
  assumes "depth_ok nb" "px_room p off x nb" "fits nb v"
  shows "\<exists>q. bendx_set p off x v nb = Some q \<and> bendx_get q off x nb = Some v \<and> length q = length p \<and>
    (\<forall>y. px_room p off y nb \<and> y \<noteq> x \<longrightarrow> bendx_get q off y nb = bendx_get p off y nb) \<and>
    (\<forall>k. k < off + x div bx_gpix nb * bx_gsz nb \<or> off + (x div bx_gpix nb + 1) * bx_gsz nb \<le> k \<longrightarrow> q ! k = p ! k)"
proof -
  note store = bendx_pixel_store[OF assms(1)]
  obtain q where q: "bendx_set p off x v nb = Some q" "bendx_get q off x nb = Some v" "length q = length p"
    using pixel_store.put_ok[OF store assms(2,3)] by (auto simp: ok_def)
  have "\<forall>y. px_room p off y nb \<and> y \<noteq> x \<longrightarrow> bendx_get q off y nb = bendx_get p off y nb"
    using pixel_store.put_other[OF store assms(2) _ _ assms(3) q(1)] by auto
  moreover have "\<forall>k. k < off + x div bx_gpix nb * bx_gsz nb \<or> off + (x div bx_gpix nb + 1) * bx_gsz nb \<le> k \<longrightarrow> q ! k = p ! k"
    using bendx_set_outside[OF assms q(1)] by blast
  ultimately show ?thesis using q by (intro exI[of _ q] conjI)
qed

lemma packed_pixels_round_trip_example:
  "\<exists>q. bendx_set sample_fb 12 5 0xabc 12 = Some q \<and> bendx_get q 12 5 12 = Some 0xabc \<and> length q = length sample_fb"
proof -
  have "depth_ok 12" "px_room sample_fb 12 5 12" "fits 12 0xabc"
    by (simp_all add: fits_iff px_room_def bx_gpix_def bx_gsz_def sample_fb_def)
  from packed_pixels_round_trip[OF this] show ?thesis by blast
qed

text \<open>
  C20. Memory safety of the whole pass. Whatever the configuration block holds, whatever the
  foreign buses point at and whether or not the camera has memory to give, \<open>raw_bendx\<close> never
  reads or writes outside the frame buffer, the foreign buffers and the block it was given, and
  leaves a usable chain behind. The size it asks for is enough for every profile of the chain,
  the counting sort included.
\<close>

theorem raw_bendx_stays_inside:
  assumes "buf_ok b" "length fb = bb_rows b * bb_rowlen b" "chain_shape c"
    and "\<And>k p. malloc k = Some p \<Longrightarrow> length p = unat k"
  shows "\<exists>c' fb'. raw_bendx enable c b env malloc fb = Some (c', fb') \<and> length fb' = length fb \<and>
    (if enable then chain_ok c' \<and> c' = bendx_chain_sanitize c else c' = c)"
  using raw_bendx_safe[OF assms, of malloc enable env] by (auto simp: ok_def)

theorem raw_bendx_stays_inside_witness:
  "\<exists>c' fb'. raw_bendx True sample_chain sample_buf sample_env sample_malloc sample_fb = Some (c', fb') \<and>
    length fb' = length sample_fb \<and> chain_ok c'"
proof -
  have "chain_shape sample_chain" by code_simp
  then have "\<exists>c' fb'. raw_bendx True sample_chain sample_buf sample_env sample_malloc sample_fb = Some (c', fb') \<and>
      length fb' = length sample_fb \<and> (if True then chain_ok c' \<and> c' = bendx_chain_sanitize sample_chain else c' = sample_chain)"
    by (rule raw_bendx_stays_inside[OF sample_buf_ok sample_fb_length]) (auto simp: sample_malloc_def)
  then show ?thesis by auto
qed

text \<open>
  The profiles of the chain act one after the other, each on what the last one left, and
  nothing else touches the frame: the pass is the composition of the effects of the applied
  profiles, in the chain's order.
\<close>

lemma chain_is_the_composition_of_its_effects:
  assumes "chain_shape c" "malloc (bendx_chain_scratch_bytes (bendx_chain_sanitize c) (word_of_nat (bb_rowlen b))) = Some sc"
  shows "map_option snd (raw_bendx True c b env malloc fb) =
    map_option fst (for_list (chain_applied (bendx_chain_sanitize c)) (\<lambda>x m. bendx_apply x b env m) (fb, sc))"
proof (rule raw_bendx_applies)
  show "malloc (bendx_chain_scratch_bytes (bendx_chain_sanitize c) (word_of_nat (bb_rowlen b))) = Some sc"
    by (rule assms(2))
  have "chain_ok (bendx_chain_sanitize c)" using chain_gate.san_good[OF assms(1)] .
  then show "bendx_chain_count (bendx_chain_sanitize c) \<le> length (ch_item (bendx_chain_sanitize c))"
    by (simp add: chain_ok_def chain_count_eq)
qed simp_all

lemma chain_is_the_composition_of_its_effects_example:
  "map_option snd (raw_bendx True sample_chain sample_buf sample_env sample_malloc sample_fb) =
    map_option fst (for_list (chain_applied (bendx_chain_sanitize sample_chain))
      (\<lambda>x m. bendx_apply x sample_buf sample_env m)
      (sample_fb, replicate (unat (bendx_chain_scratch_bytes (bendx_chain_sanitize sample_chain) 12)) 0))"
proof (rule chain_is_the_composition_of_its_effects)
  show "chain_shape sample_chain" by code_simp
  show "sample_malloc (bendx_chain_scratch_bytes (bendx_chain_sanitize sample_chain) (word_of_nat (bb_rowlen sample_buf))) =
    Some (replicate (unat (bendx_chain_scratch_bytes (bendx_chain_sanitize sample_chain) 12)) 0)"
    by (simp add: sample_malloc_def sample_buf_def)
qed

text \<open>
  C21. An effect only damages the lines it was given: with the working space of its kind, the
  effect on a row of bytes keeps every bit outside the profile's lanes, and a pixel effect keeps
  every bit of every pixel outside the profile's planes.
\<close>

theorem effects_change_only_their_lanes:
  assumes "buf_ok b" "length (fst m) = bb_rows b * bb_rowlen b" "scratch_ok x b m"
  shows "\<exists>m'. bendx_apply x b env m = Some m' \<and> bent_within x b m m'"
  using bendx_apply_safe[OF assms, of env] by (auto simp: ok_def)

theorem effects_change_only_their_lanes_witness:
  "\<exists>m'. bendx_apply (sample_fault\<lparr>x_kind := 15, x_lanes := 0x80\<rparr>) sample_buf sample_env (sample_fb, replicate 24 0) = Some m' \<and>
    bent_within (sample_fault\<lparr>x_kind := 15, x_lanes := 0x80\<rparr>) sample_buf (sample_fb, replicate 24 0) m'"
proof (rule effects_change_only_their_lanes[OF sample_buf_ok])
  show "length (fst (sample_fb, replicate 24 0)) = bb_rows sample_buf * bb_rowlen sample_buf"
    by (simp add: sample_fb_length)
  show "scratch_ok (sample_fault\<lparr>x_kind := 15, x_lanes := 0x80\<rparr>) sample_buf (sample_fb, replicate 24 0)"
    by (simp add: scratch_ok_def bendx_scratch_bytes_def sample_fault_def sample_buf_def)
qed

text \<open>
  A bit slip, with every lane replaced, is a rotation of the row's bit stream: the bus
  carries the same bits from another starting point, nothing is lost, and rows out of the
  profile's bands are untouched.
\<close>

lemma slip_rotates_the_bit_stream:
  assumes "replaces x" "bx_room b m"
  shows "\<exists>m'. bx_slip x b m = Some m' \<and> (\<forall>y\<in>{..<bb_rows b}. \<forall>k\<in>{..<8 * bb_rowlen b}.
    stream_bit (row_at (bb_rowlen b) (fst m') y) k = stream_bit (row_at (bb_rowlen b) (fst m) y)
      (if bx_on x y then (k + (amt x + 1 + rch x * 8)) mod (8 * bb_rowlen b) else k))"
  using bx_slip_stream[OF assms] by (auto simp: ok_def)

lemma slip_rotates_the_bit_stream_example:
  "\<exists>m'. bx_slip (sample_fault\<lparr>x_kind := 2\<rparr>) sample_buf (sample_fb, replicate 24 0) = Some m' \<and>
    stream_bit (row_at 12 (fst m') 2) 95 = stream_bit (row_at 12 sample_fb 2) 1"
proof -
  have "replaces (sample_fault\<lparr>x_kind := 2\<rparr>)" by code_simp
  from slip_rotates_the_bit_stream[OF this sample_room] obtain m' where m':
    "bx_slip (sample_fault\<lparr>x_kind := 2\<rparr>) sample_buf (sample_fb, replicate 24 0) = Some m'"
    "stream_bit (row_at 12 (fst m') 2) 95 = stream_bit (row_at 12 sample_fb 2)
      (if bx_on (sample_fault\<lparr>x_kind := 2\<rparr>) 2
       then (95 + (amt (sample_fault\<lparr>x_kind := 2\<rparr>) + 1 + rch (sample_fault\<lparr>x_kind := 2\<rparr>) * 8)) mod 96 else 95)"
    by (auto simp: sample_buf_def)
  moreover have "bx_on (sample_fault\<lparr>x_kind := 2\<rparr>) 2" "amt (sample_fault\<lparr>x_kind := 2\<rparr>) = 1"
    "rch (sample_fault\<lparr>x_kind := 2\<rparr>) = 0"
    by code_simp+
  ultimately show ?thesis by auto
qed

text \<open>
  A stuck address line, a flipped field order and a wrong byte order each only move data:
  with every lane replaced, the same fault applied a second time restores the frame buffer byte
  for byte.
\<close>

lemma addressing_faults_undo_themselves:
  assumes "replaces x" "bx_room b m"
  shows "undoes (bx_addr x b) m \<and> undoes (bx_field x b) m \<and> undoes (bx_endian x b) m"
  using assms by (simp add: bx_addr_undoes bx_field_undoes bx_endian_undoes)

lemma addressing_faults_undo_themselves_example:
  "undoes (bx_addr sample_fault sample_buf) (sample_fb, replicate 24 0) \<and>
    undoes (bx_field sample_fault sample_buf) (sample_fb, replicate 24 0) \<and>
    undoes (bx_endian sample_fault sample_buf) (sample_fb, replicate 24 0)"
proof (rule addressing_faults_undo_themselves[OF _ sample_room])
  show "replaces sample_fault" by code_simp
qed

text \<open>
  The mosaic effect moves the picture under the colour filter and invents nothing: every
  pixel in scope is mixed with the original pixel \<open>dx\<close> to the right of it, modulo the row, and
  \<open>dy\<close> below it, and the bottom \<open>dy\<close> rows and the rows out of band keep their own pixels.
\<close>

lemma mosaic_shift_moves_pixels:
  assumes "px_wf b" "bx_room b m" "cfa_shift x = (dx, dy)"
  shows "\<exists>m'. bx_cfa x b m = Some m' \<and> (\<forall>y\<in>{..<bb_rows b}. \<forall>i\<in>{..<bx_wholepix b}. pget b (fst m') (y, i) =
    (if bx_on x y \<and> y + dy < bb_rows b
     then mixed x b (pget b (fst m) (y, i)) (pget b (fst m) (y + dy, (i + dx) mod bx_wholepix b))
     else pget b (fst m) (y, i)))"
  using bx_cfa_sets[OF assms] by (auto simp: ok_def rows_set_def)

lemma mosaic_shift_moves_pixels_example:
  "\<exists>m'. bx_cfa (sample_fault\<lparr>x_kind := 13\<rparr>) sample_buf (sample_fb, replicate 24 0) = Some m' \<and>
    pget sample_buf (fst m') (2, 7) = mixed (sample_fault\<lparr>x_kind := 13\<rparr>) sample_buf
      (pget sample_buf sample_fb (2, 7)) (pget sample_buf sample_fb (2, 0))"
proof -
  have "px_wf sample_buf" "cfa_shift (sample_fault\<lparr>x_kind := 13\<rparr>) = (1, 0)" by code_simp+
  from mosaic_shift_moves_pixels[OF this(1) sample_room this(2)] obtain m' where
    "bx_cfa (sample_fault\<lparr>x_kind := 13\<rparr>) sample_buf (sample_fb, replicate 24 0) = Some m'"
    "pget sample_buf (fst m') (2, 7) = (if bx_on (sample_fault\<lparr>x_kind := 13\<rparr>) 2 \<and> 2 + 0 < bb_rows sample_buf
     then mixed (sample_fault\<lparr>x_kind := 13\<rparr>) sample_buf (pget sample_buf sample_fb (2, 7))
       (pget sample_buf sample_fb (2 + 0, (7 + 1) mod bx_wholepix sample_buf))
     else pget sample_buf sample_fb (2, 7))"
    by (auto simp: sample_buf_def bx_wholepix_def bx_gpix_def)
  moreover have "bx_on (sample_fault\<lparr>x_kind := 13\<rparr>) 2" "2 + 0 < bb_rows sample_buf" "(7 + 1) mod bx_wholepix sample_buf = 0"
    by code_simp+
  ultimately show ?thesis by auto
qed

text \<open>
  C22. The counting sort sorts. On a run of same-colour pixels, with empty 16 bit buckets, the
  tally, the write-back and the clearing leave the run holding the sorted values of the run
  (turned over when the profile says so), every other pixel of the frame unchanged, and the
  buckets empty for the next run, however often a value occurs.
\<close>

theorem counting_sort_sorts_the_run:
  assumes "px_wf b" "length fb = bb_rows b * bb_rowlen b" "y < bb_rows b"
    and "\<And>k. k < n \<Longrightarrow> i0 + 2 * k < bx_wholepix b" "n = (i1 - i0 + 1) div 2" "n < 2 ^ 16" "buckets sc []"
  shows "\<exists>fb' sc'. sort_run x b (y * bb_rowlen b) i0 i1 (fb, sc) = Some (fb', sc') \<and>
    written x b y i0 (if x_reach x \<ge> 8 then rev (sort (run_vals b fb y i0 n)) else sort (run_vals b fb y i0 n)) fb fb' \<and>
    buckets sc' []"
  using sort_run_spec[OF assms(1-4) assms(5-7), of x] by (auto simp: ok_def run_order_def)

theorem counting_sort_sorts_the_run_witness:
  "\<exists>fb' sc'. sort_run sample_fault sample_buf (1 * bb_rowlen sample_buf) 0 8 (sample_fb, replicate 8192 0) = Some (fb', sc') \<and>
    written sample_fault sample_buf 1 0 (if x_reach sample_fault \<ge> 8 then rev (sort (run_vals sample_buf sample_fb 1 0 4))
      else sort (run_vals sample_buf sample_fb 1 0 4)) sample_fb fb' \<and> buckets sc' []"
proof (rule counting_sort_sorts_the_run)
  show "px_wf sample_buf" "1 < bb_rows sample_buf" by code_simp+
  show "length sample_fb = bb_rows sample_buf * bb_rowlen sample_buf" by (rule sample_fb_length)
  show "0 + 2 * k < bx_wholepix sample_buf" if "k < 4" for k
    using that by (simp add: bx_wholepix_def sample_buf_def bx_gpix_def)
  show "buckets (replicate 8192 0) []"
    by (simp add: buckets_def sort_buckets_def rd16_def rd_def)
qed simp_all

section \<open>Presets, sidecars and tags\<close>

text \<open>A recipe, a card with room for it, and a finished photograph, for the witnesses.\<close>

definition sample_segs :: bend_segs_t where
  "sample_segs = \<lparr>g_layout = 3, g_active = 1, g_size = 50, g_pad = 0, g_slot = [0, 0, 7, 0],
     g_b = [sample_bend, straight_bend, sample_bend]\<rparr>"

definition sane_chain :: bendx_chain_t where
  "sane_chain = bendx_chain_sanitize sample_chain"

definition sample_recipe :: bend_store_recipe_t where
  "sample_recipe = \<lparr>r_bend = sample_bend, r_bendx = sane_chain, r_segs = sample_segs,
     r_bend_on = 1, r_bendx_on = 0, r_pad = [0, 0]\<rparr>"

definition empty_card :: mem_card where
  "empty_card = ([], 5000)"

definition preset_card :: mem_card where
  "preset_card = ([(bs_path 7, concat (bs_encode sample_recipe None)), (BEND_STORE_DIR @ ''/bend03.bnd'', [])], 5000)"

definition walked_store :: store_t where
  "walked_store = \<lparr>bs_slot = [3, 7] @ replicate 62 0, bs_count = 2, bs_cur = - 1\<rparr>"

definition sample_pic :: "u8 list" where
  "sample_pic = [0xff, 0xd8, 1, 2, 3, 0xff, 0xd9]"

definition sample_conf :: conf_t where
  "sample_conf = \<lparr>cf_bitbend = sample_bend\<lparr>b_nbits := 99\<rparr>, cf_bend_segs = sample_segs\<lparr>g_layout := 90\<rparr>,
     cf_bendx = sample_chain, cf_bitbend_enable = 1, cf_bendx_enable = 1, cf_bitbend_simple = 1\<rparr>"

lemma sample_segs_ok: "segs_ok sample_segs"
  using sample_bend_ok straight_bend_ok
  by (simp add: segs_ok_def segs_shape_def sample_segs_def bend_ok_shape bend_seg_count_def bseg_counts_def)

lemma sane_chain_ok: "chain_ok sane_chain"
  by (simp add: sane_chain_def chain_sanitize_full sample_chain_def sample_profile_def bendx_reset_def chain_shape_def bendx_shape_def)

lemma sample_recipe_shape: "recipe_shape sample_recipe"
  using sample_segs_ok sane_chain_ok sample_bend_ok
  by (simp add: recipe_shape_def sample_recipe_def bend_ok_shape chain_ok_shape segs_ok_shape)

lemma sample_shot_shape: "shot_shape sample_bend sane_chain sample_segs"
  using sample_segs_ok sane_chain_ok sample_bend_ok
  by (simp add: shot_shape_def bend_ok_shape chain_ok_shape segs_ok_shape)

lemma sample_conf_shape: "conf_shape sample_conf"
  using bend_ok_shape[OF sample_bend_ok] segs_ok_shape[OF sample_segs_ok]
  by (simp add: conf_shape_def sample_conf_def bend_shape_def segs_shape_def chain_shape_def sample_chain_def sample_profile_def
      bendx_reset_def bendx_shape_def)

lemma walked_store_ok: "store_ok walked_store"
  by code_simp

lemma preset_card_reads:
  "bs_read_slot mem_ops 10 preset_card 7 = Some (bs_sanitize 10 sample_recipe, bs_info_clean None)"
  using decode_encode[OF sample_recipe_shape, of None]
  by (simp add: bs_read_slot_def preset_card_def mem_ops_def clean_end)

definition tagged_job :: tag_t where
  "tagged_job = bend_tag_queue 10 (Some ''A'') 7 (Some sample_bend) True (Some sane_chain) True (Some sample_segs) 0 tag_init"

definition tag_card :: mem_card where
  "tag_card = ([(picture_file ''A'' 7, sample_pic)], 5000)"

lemma tagged_job_text:
  "bt_text tagged_job = tag_text 10 sample_bend True sane_chain True sample_segs"
  "bt_text tagged_job \<noteq> []" "length (bt_text tagged_job) \<le> 713"
  using tag_text_form[OF sample_bend_ok sane_chain_ok sample_segs_ok, of 10 True True]
  by (simp_all add: tagged_job_def bend_tag_queue_def NL_def)

lemma tag_card_read: "co_read mem_ops tag_card (picture_file ''A'' 7) = Some sample_pic"
  by (simp add: mem_ops_def tag_card_def)

lemma tag_card_ready: "bt_ready mem_ops (\<lambda>_. True) tag_card (picture_file ''A'' 7) = 1"
  by (simp only: bt_ready_def tag_card_read option.case) (simp add: sample_pic_def)

lemma tag_card_takes: "fst (bt_append mem_ops (\<lambda>_ _. True) tag_card (picture_file ''A'' 7) (bt_text tagged_job))"
  using tagged_job_text(2,3) by (simp add: bt_append_def mem_ops_def tag_card_def Let_def bt_header_def)

lemma tag_card_free: "find_sub mark_bytes (before_tag sample_pic (bt_text tagged_job)) = None"
proof -
  have "before_tag sample_pic (bt_text tagged_job) = sample_pic @ bt_header (length (bt_text tagged_job) + 2)"
    using tagged_job_text(3) by (simp add: before_tag_def sample_pic_def)
  then show ?thesis by (simp add: bt_header_def sample_pic_def mark_bytes_def text_bytes_def BEND_TAG_MARK_def)
qed

text \<open>
  C23. What a preset file can put into the camera. Whatever bytes the card holds, a recipe that
  the reader hands out is well formed: the matrix, the segment matrices and the chain are in
  range for the sensor, and the two strings are terminated inside their fields.
\<close>

theorem presets_read_are_well_formed:
  assumes "bs_read_slot ops nb c slot = Some (r, i)" "2 \<le> nb" "nb \<le> 16"
  shows "bend_ok (r_bend r) \<and> segs_ok (r_segs r) \<and> chain_ok (r_bendx r) \<and> i_name i ! 24 = 0 \<and> i_description i ! 80 = 0"
  using read_slot_ok[OF assms] by simp

theorem presets_read_are_well_formed_witness:
  "bend_ok (r_bend (bs_sanitize 10 sample_recipe)) \<and> segs_ok (r_segs (bs_sanitize 10 sample_recipe))"
  using presets_read_are_well_formed[OF preset_card_reads] by simp

text \<open>
  File names. A directory entry is taken for preset \<open>s\<close> exactly when it reads
  \<open>BENDss.BND\<close> in any mixture of cases, and the file written for preset \<open>s\<close> is that entry of
  the preset directory, so no two presets share a file.
\<close>

lemma preset_names_are_their_slots:
  assumes "CHR 0x00 \<notin> set nm" "s < 100" "t < 100"
  shows "(bs_parse nm = int s \<longleftrightarrow> map bs_up nm = bs_file s) \<and> bs_path s = BEND_STORE_DIR @ ''/'' @ bs_file s \<and>
    bs_parse (bs_file s) = int s \<and> (bs_path s = bs_path t \<longleftrightarrow> s = t)"
proof -
  have up: "bs_up = up_char" by (simp add: bs_up_def fun_eq_iff)
  show ?thesis
    unfolding up using bs_parse_iff[OF assms(1,2)] bs_parse_file[OF assms(2)] bs_path_inj[OF assms(2,3)] by (auto simp: bs_path_def)
qed

lemma preset_names_are_their_slots_example:
  "bs_parse ''Bend42.bnd'' = 42 \<and> bs_path 42 = ''A/CHDK/BENDS/BEND42.BND'' \<and> bs_path 42 \<noteq> bs_path 24"
proof -
  have e: "map bs_up ''Bend42.bnd'' = bs_file 42" "bs_path 42 = ''A/CHDK/BENDS/BEND42.BND''" by code_simp+
  have "CHR 0x00 \<notin> set ''Bend42.bnd''" "(42::nat) < 100" "(24::nat) < 100" by simp_all
  note p = preset_names_are_their_slots[OF this]
  have "bs_parse ''Bend42.bnd'' = 42" using p e(1) by auto
  moreover have "bs_path 42 = bs_path 24 \<longleftrightarrow> (42::nat) = 24" using p by blast
  ultimately show ?thesis by (simp only: e(2)) simp
qed

text \<open>
  C24. The listing refines the shelf. Abstractly the store is the sorted list of the presets
  present and the one under the cursor; a rescan, with its insertion into the array and its
  search for the old cursor, is the abstract step that sorts the first 64 entries of the
  directory and keeps the cursor on its preset if it is still there.
\<close>

theorem rescan_refines_the_shelf:
  assumes "store_ok st"
  shows "shelf_of (bend_store_rescan ops c st) = shelf_rescan (listing ops c) (shelf_of st) \<and>
    store_ok (bend_store_rescan ops c st) \<and> 0 \<le> bs_count (bend_store_rescan ops c st)"
  by (intro conjI rescan_spec[OF assms])

theorem rescan_refines_the_shelf_witness:
  "shelf_of (bend_store_rescan mem_ops preset_card (walked_store\<lparr>bs_cur := 1\<rparr>)) = ([3, 7], Some 7)"
proof -
  have l: "listing mem_ops preset_card = [bs_file 7, ''bend03.bnd'']"
    by (simp add: listing_def mem_ops_def preset_card_def mem_names_def bs_path_def)
  have "dir_slots [bs_file 7, ''bend03.bnd''] = [7, 3]" by code_simp
  moreover have "store_ok (walked_store\<lparr>bs_cur := 1\<rparr>)"
    using store_cursor[OF walked_store_ok, of 1] by (simp add: walked_store_def)
  moreover have "shelf_of (walked_store\<lparr>bs_cur := 1\<rparr>) = ([3, 7], Some 7)" by code_simp
  moreover have "sort [7, 3 :: u8] = [3, 7]" by code_simp
  ultimately show ?thesis
    using rescan_refines_the_shelf[of "walked_store\<lparr>bs_cur := 1\<rparr>" mem_ops preset_card]
    unfolding l shelf_rescan_def by (simp only:) simp
qed



text \<open>
  C26. Saving. A save that succeeds took a slot no readable file held, the file it wrote reads
  back as the recipe through the gates with its cleaned strings, and the cursor is on it;
  successful or not, every preset that could be read before still reads the same.
\<close>

theorem saved_preset_reads_back:
  assumes "card_laws ops" "store_ok st" "recipe_shape r" "bend_store_save_recipe ops c r info st = (i, c', st')"
  shows "(0 \<le> i \<longrightarrow> (\<exists>s<BEND_STORE_SLOTS. co_read ops c (bs_path s) = None \<and>
      bs_read_slot ops nb c' s = Some (bs_sanitize nb r, bs_info_clean info) \<and>
      bs_cur st' = i \<and> i < bs_count st' \<and> unat (bs_slot st' ! nat i) = s)) \<and>
    (\<forall>s<BEND_STORE_SLOTS. co_read ops c (bs_path s) \<noteq> None \<longrightarrow> co_read ops c' (bs_path s) = co_read ops c (bs_path s))"
  using save_spec[OF assms] by blast

theorem saved_preset_reads_back_witness:
  "\<exists>c' st'. bend_store_save_recipe mem_ops preset_card sample_recipe None store_init = (0, c', st') \<and>
    bs_read_slot mem_ops 10 c' 0 = Some (bs_sanitize 10 sample_recipe, bs_info_clean None) \<and>
    co_read mem_ops c' (bs_path 7) = co_read mem_ops preset_card (bs_path 7)"
proof -
  obtain i c' st' where s: "bend_store_save_recipe mem_ops preset_card sample_recipe None store_init = (i, c', st')"
    by (metis prod_cases3)
  have ok: "store_ok store_init" by (simp add: store_ok_def store_init_def slots_def)
  have "fst (bend_store_save_recipe mem_ops preset_card sample_recipe None store_init) = 0 \<and>
    bs_slot (snd (snd (bend_store_save_recipe mem_ops preset_card sample_recipe None store_init))) ! 0 = 0"
    by code_simp
  then have "i = 0" "bs_slot st' ! 0 = 0" by (simp_all add: s)
  moreover have "co_read mem_ops preset_card (bs_path 7) \<noteq> None" by (simp add: mem_ops_def preset_card_def)
  ultimately show ?thesis
    using saved_preset_reads_back[OF mem_laws ok sample_recipe_shape s, of 10] by (auto simp: s)
qed

text \<open>
  C27. Liveness of the arrows. From wherever the cursor is, pressing the forward arrow as many
  times as there are presets passes over each of them: the cursor never gets stuck, whatever
  the files under it turn out to hold.
\<close>

theorem arrows_reach_every_preset:
  assumes "store_ok st" "0 \<le> j" "j < bs_count st"
  shows "\<exists>k\<le>nat (bs_count st). bs_cur (((\<lambda>s. snd (bend_store_step ops nb c 1 s)) ^^ k) st) = j"
proof -
  have "step_on ops nb c = (\<lambda>s. snd (bend_store_step ops nb c 1 s))" by (simp add: step_on_def fun_eq_iff)
  then show ?thesis using step_reaches[OF assms, of ops nb c] by simp
qed

theorem arrows_reach_every_preset_witness:
  "\<exists>k\<le>2. bs_cur (((\<lambda>s. snd (bend_store_step mem_ops 10 preset_card 1 s)) ^^ k) walked_store) = 1"
  using arrows_reach_every_preset[OF walked_store_ok, of 1 mem_ops 10 preset_card] by (simp add: walked_store_def)

text \<open>
  Renaming. Changing a preset's name rewrites its file in place. When the card takes the
  whole file the recipe reads back with the new strings; when a write is short the file is
  removed, so the preset that could be read before the call is gone - while the list still
  shows it.
\<close>

lemma failed_rename_loses_the_preset:
  assumes "card_laws ops" "store_ok st" "0 \<le> i" "i < bs_count st"
    "bs_read_slot ops nb c (unat (bs_slot st ! nat i)) = Some (r, old)" "recipe_shape r"
    "bend_store_set_info_at ops nb c i info st = (b, c', st')"
    "fst (co_create ops c (bs_path (unat (bs_slot st ! nat i))))"
  shows "bs_read_slot ops nb c' (unat (bs_slot st ! nat i)) =
      (if b then Some (bs_sanitize nb r, bs_info_clean info) else None) \<and> slots st' = slots st"
  using set_info_spec[OF assms(1-7)] assms(8) by auto

lemma failed_rename_loses_the_preset_example:
  "\<exists>c'. bend_store_set_info_at mem_ops 10 (fst preset_card, 50) 1 None walked_store = (False, c', walked_store) \<and>
    bs_read_slot mem_ops 10 (fst preset_card, 50) 7 \<noteq> None \<and> bs_read_slot mem_ops 10 c' 7 = None"
proof -
  let ?c = "(fst preset_card, 50) :: mem_card"
  have r: "bs_read_slot mem_ops 10 ?c 7 = Some (bs_sanitize 10 sample_recipe, bs_info_clean None)"
    using preset_card_reads by (simp add: bs_read_slot_def mem_ops_def)
  obtain b c' st' where e: "bend_store_set_info_at mem_ops 10 ?c 1 None walked_store = (b, c', st')" by (metis prod_cases3)
  have "bs_slot walked_store ! 1 = 7" "bs_count walked_store = 2" by (simp_all add: walked_store_def)
  moreover have "recipe_shape (bs_sanitize 10 sample_recipe)"
    using read_slot_ok[OF r] by (simp add: recipe_shape_def bend_ok_shape segs_ok_shape chain_ok_shape bs_sanitize_def sample_recipe_def)
  moreover have "fst (co_create mem_ops ?c p)" for p by (simp add: mem_ops_def)
  moreover have "fst (bend_store_set_info_at mem_ops 10 ?c 1 None walked_store) = False" by code_simp
  moreover have "st' = walked_store"
    using set_info_spec(3)[OF mem_laws walked_store_ok, of 1 10 ?c] e r calculation(1-3) by simp
  ultimately show ?thesis
    using failed_rename_loses_the_preset[OF mem_laws walked_store_ok, of 1 10 ?c "bs_sanitize 10 sample_recipe" "bs_info_clean None" None b c' st'] e r
    by simp
qed

text \<open>
  The sidecar. After a successful save the picture's own path leads to the file that was
  written and the recipe comes back through the gates with its two switches; a failed save
  leaves no sidecar for that picture and nothing else on the card changed.
\<close>

lemma sidecar_round_trip:
  assumes "card_laws ops" "shot_shape b c s" "0 \<le> num" "num \<le> 9999" "length dir + 16 < 64"
    "fst (co_create ops cd (shot_file dir num))"
    "bend_shot_save ops cd (Some dir) num (Some b) p (Some c) q (Some s) = (r, cd')"
  shows "bend_shot_load ops nb cd' (Some (picture_file dir num)) =
      (if r then Some (shot_gate nb 3 (shot_flags p q) b c s) else None) \<and>
    (\<forall>f. f \<noteq> shot_file dir num \<longrightarrow> co_read ops cd' f = co_read ops cd f)"
  using save_load[OF assms(1-4,7)] assms(5,6) by auto

lemma sidecar_round_trip_example:
  "bend_shot_load mem_ops 10 (snd (bend_shot_save mem_ops empty_card (Some ''A/DCIM/100CANON'') 123 (Some sample_bend) True
      (Some sane_chain) False (Some sample_segs))) (Some ''A/DCIM/100CANON/IMG_0123.JPG'') =
    Some (shot_gate 10 3 1 sample_bend sane_chain sample_segs)"
proof -
  let ?s = "bend_shot_save mem_ops empty_card (Some ''A/DCIM/100CANON'') 123 (Some sample_bend) True (Some sane_chain) False (Some sample_segs)"
  obtain r cd where e: "?s = (r, cd)" by (metis surj_pair)
  have "fst ?s" by code_simp
  then have r: "r" by (simp add: e)
  have "picture_file ''A/DCIM/100CANON'' 123 = ''A/DCIM/100CANON/IMG_0123.JPG''" by code_simp
  moreover have "fst (co_create mem_ops empty_card p)" for p by (simp add: mem_ops_def)
  ultimately show ?thesis
    using sidecar_round_trip[OF mem_laws sample_shot_shape _ _ _ _ e, of 10] r by (simp add: e shot_flags_def)
qed

text \<open>
  One reader. Reading a sidecar, with its reads in sequence and its early version check,
  and unpacking a record from a buffer, with its length checks, are the same function of the
  bytes, for every version and every corrupt or short file.
\<close>

lemma one_reader_for_sidecar_and_tag:
  "bend_shot_load ops nb cd picture =
    (case bend_shot_path picture 64 of None \<Rightarrow> None | Some path \<Rightarrow> bend_shot_unpack nb (co_read ops cd path))"
  by (simp add: bend_shot_load_def unpack_reads bend_shot_unpack_def[of nb None] split: option.split Option.bind_split)

text \<open>
  Making a recipe live. Whatever the configuration held, after a recipe from a reader has
  been applied every matrix is usable, the chain and the two switches are the recipe's, no
  region and no cursor still claims a preset, and - unless the simple mode strips the buses -
  the picture that will be made is the recipe's.
\<close>

lemma applied_recipe_is_live:
  assumes "bend_ok b" "chain_ok c" "segs_ok s" "2 \<le> nb" "nb \<le> 16"
    "bend_shot_apply nb (Some b) p (Some c) q (Some s) (cf, st) = (cf', st')"
  shows "conf_ok cf' \<and> cf_bendx cf' = c \<and> cf_bitbend_enable cf' = p \<and> cf_bendx_enable cf' = q \<and>
    bend_seg_slot cf' i = - 1 \<and> bend_store_cur st' = - 1 \<and>
    (cf_bitbend_simple cf = 0 \<longrightarrow> bend_view (cf_bitbend cf') = bend_view b \<and>
      segs_view (cf_bend_segs cf') = segs_view (s\<lparr>g_slot := replicate BEND_SEG_MAX 0\<rparr>))"
  using apply_spec[OF assms] by (simp add: bend_store_cur_def)

lemma applied_recipe_is_live_example:
  "\<exists>cf' st'. bend_shot_apply 10 (Some sample_bend) 1 (Some sane_chain) 0 (Some sample_segs)
      (sample_conf\<lparr>cf_bitbend_simple := 0\<rparr>, walked_store) = (cf', st') \<and>
    conf_ok cf' \<and> bend_seg_slot cf' 2 = - 1 \<and> bend_view (cf_bitbend cf') = bend_view sample_bend"
proof -
  obtain cf' st' where e: "bend_shot_apply 10 (Some sample_bend) 1 (Some sane_chain) 0 (Some sample_segs)
    (sample_conf\<lparr>cf_bitbend_simple := 0\<rparr>, walked_store) = (cf', st')" by fastforce
  show ?thesis
    using applied_recipe_is_live[OF sample_bend_ok sane_chain_ok sample_segs_ok _ _ e, of 2] e by simp
qed

text \<open>
  Before an exposure. Whatever was loaded into the configuration block, after
  \<open>bend_seg_prep\<close> every matrix is in range for the sensor, the region being edited exists, and
  in the simple mode no region the layout uses reads a bus.
\<close>

lemma exposure_uses_usable_matrices:
  assumes "conf_shape cf" "2 \<le> nb" "nb \<le> 16"
  shows "conf_ok (bend_seg_prep cf nb) \<and>
    0 \<le> bend_seg_active (bend_seg_prep cf nb) \<and> bend_seg_active (bend_seg_prep cf nb) < bend_seg_n (bend_seg_prep cf nb) \<and>
    (cf_bitbend_simple cf \<noteq> 0 \<longrightarrow> (\<forall>i. 0 \<le> i \<and> i < bend_seg_n (bend_seg_prep cf nb) \<longrightarrow>
      pure_route (bend_seg_conf (bend_seg_prep cf nb) i)))"
  using seg_prep_ok[OF assms] seg_active_range[of "bend_seg_prep cf nb"] by blast

lemma exposure_uses_usable_matrices_example:
  "conf_ok (bend_seg_prep sample_conf 10) \<and> pure_route (bend_seg_conf (bend_seg_prep sample_conf 10) 0)"
proof -
  have "cf_bitbend_simple sample_conf \<noteq> 0" by (simp add: sample_conf_def)
  then show ?thesis
    using exposure_uses_usable_matrices[OF sample_conf_shape, of 10] seg_n_range[of "bend_seg_prep sample_conf 10"] by simp
qed

text \<open>
  C28. The tag. A shot's recipe is queued, the service finds the finished picture after the
  first delay and the card takes the two writes: the photograph is the one Canon wrote with the
  comment behind it, and reading the picture back gives the recipe through the gates. The
  summary always leaves room for the record and can never be mistaken for one, so the only
  other condition is that the bytes in front of the comment do not spell the mark.
\<close>

theorem tag_round_trip:
  assumes "card_laws ops" "bend_ok b" "chain_ok c" "segs_ok s" "nb \<le> 16" "length d + 16 < 64"
    "st = bend_tag_queue nb (Some d) num (Some b) p (Some c) q (Some s) tick st0"
    "BT_FIRST_MS \<le> t - tick" "bt_ready ops mal cd (picture_file d num) = 1"
    "co_read ops cd (picture_file d num) = Some pic"
    "bt_append ops opn cd (picture_file d num) (bt_text st) = (True, cd1)"
    "find_sub mark_bytes (before_tag pic (bt_text st)) = None" "\<forall>n\<le>1029. mal n"
  shows "bend_tag_service ops opn mal t (cd, st) = (cd1, st\<lparr>bt_pending := False\<rparr>) \<and>
    (\<exists>tag. co_read ops cd1 (picture_file d num) = Some (pic @ tag)) \<and>
    bend_tag_read ops nb mal cd1 (Some (picture_file d num)) = Some (shot_gate nb 3 (shot_flags p q) b c s)"
proof -
  have st: "st = st0\<lparr>bt_path := picture_file d num, bt_text := tag_text nb b p c q s, bt_at := tick, bt_pending := True\<rparr>"
    using assms(6) by (simp add: assms(7) bend_tag_queue_def)
  note wr = append_reads[OF assms(1,11,10)]
  have read: "bend_tag_read ops nb mal cd1 (Some (picture_file d num)) = Some (shot_gate nb 3 (shot_flags p q) b c s)"
    using assms(13) by (intro read_tagged[OF assms(2-5) _ wr assms(12)]) (simp_all add: st)
  have "bend_tag_service ops opn mal t (cd, st) = (cd1, st\<lparr>bt_pending := False\<rparr>)"
    using assms(8,9,11) by (simp add: bend_tag_service_def Let_def st)
  then show ?thesis using wr read by blast
qed

theorem tag_round_trip_witness:
  "\<exists>cd. bend_tag_service mem_ops (\<lambda>_ _. True) (\<lambda>_. True) 900 (tag_card, tagged_job) = (cd, tagged_job\<lparr>bt_pending := False\<rparr>) \<and>
    bend_tag_read mem_ops 10 (\<lambda>_. True) cd (Some (picture_file ''A'' 7)) =
      Some (shot_gate 10 3 (shot_flags True True) sample_bend sane_chain sample_segs)"
proof -
  obtain cd1 where app: "bt_append mem_ops (\<lambda>_ _. True) tag_card (picture_file ''A'' 7) (bt_text tagged_job) = (True, cd1)"
    using tag_card_takes by (metis prod.collapse)
  have "bend_tag_service mem_ops (\<lambda>_ _. True) (\<lambda>_. True) 900 (tag_card, tagged_job) = (cd1, tagged_job\<lparr>bt_pending := False\<rparr>) \<and>
    (\<exists>tag. co_read mem_ops cd1 (picture_file ''A'' 7) = Some (sample_pic @ tag)) \<and>
    bend_tag_read mem_ops 10 (\<lambda>_. True) cd1 (Some (picture_file ''A'' 7)) =
      Some (shot_gate 10 3 (shot_flags True True) sample_bend sane_chain sample_segs)"
    by (rule tag_round_trip[OF mem_laws sample_bend_ok sane_chain_ok sample_segs_ok _ _ tagged_job_def _
        tag_card_ready tag_card_read app tag_card_free]) simp_all
  then show ?thesis by blast
qed

text \<open>
  C29. No tag is held forever. On both kinds of body a pending job is gone as soon as the
  service has been called once past the deadline, whatever the card and the allocator did at
  that call and at the ones before and after it.
\<close>

theorem pending_tag_is_dropped:
  assumes "\<exists>t\<in>set ts. BT_GIVEUP_MS < t - bt_at st"
  shows "\<not> bt_pending (snd (fold (bend_tag_service ops opn mal) ts (cd, st))) \<and>
    \<not> bt_pending (fold bend_tag_service_inject ts st)"
  using services_drop[of ts "(cd, st)" ops opn mal] service_inject_drop[OF assms] assms by simp

theorem pending_tag_is_dropped_witness:
  "\<not> bt_pending (fold bend_tag_service_inject [1000, 30000] (tag_init\<lparr>bt_pending := True\<rparr>))"
proof -
  have "\<exists>t\<in>set [1000, 30000]. 20000 < t - bt_at (tag_init\<lparr>bt_pending := True\<rparr>)" by (simp add: tag_init_def)
  from pending_tag_is_dropped[OF this, of mem_ops "\<lambda>_ _. True" "\<lambda>_. True" empty_card] show ?thesis by (rule conjunct2)
qed



section \<open>The user menu\<close>

text \<open>
  Three rows of the main menus with language numbers, the user menu with the first two, and a full
  one.
\<close>

definition sample_entry :: "nat \<Rightarrow> CMenuItem" where
  "sample_entry t = MenuItem 0 0 MENUITEM_PROC t (Value_at 1) 0"

definition no_entry :: CMenuItem where
  "no_entry = MenuItem 0 0 0 0 (Value_at 0) 0"


definition menu_of :: "CMenuItem list \<Rightarrow> menu_state" where
  "menu_of es = \<lparr>ms_items = replicate 14 \<lparr>um_var = 0, um_file = 0, um_title = 0\<rparr>,
     ms_sub = sample_entry 5 # es @ replicate (15 - length es) no_entry, ms_heap = (\<lambda>_. None), ms_next = 4096,
     ms_title = LANG_MENU_USER_MENU, ms_cur = 1, ms_changed = False\<rparr>"

definition small_menu :: menu_state where
  "small_menu = menu_of [sample_entry 20, sample_entry 22]"

definition full_menu :: menu_state where
  "full_menu = menu_of (map sample_entry [20..<34])"

lemma menu_of_wf:
  assumes "length es \<le> 14" "\<forall>m\<in>set es. mi_text m \<noteq> 0 \<and> mi_text m < 4096 \<and> \<not> is_extern_row m"
  shows "menu_wf (menu_of es)" "menu_entries (menu_of es) = es" "menu_full (menu_of es) \<longleftrightarrow> length es = 14"
proof -
  have ptrs: "menu_ptrs (replicate n \<lparr>um_var = 0, um_file = 0, um_title = 0\<rparr>) = []" for n
    by (induction n) (simp_all add: menu_ptrs_def strings_of_def)
  have blank: "mi_text no_entry = 0" "mi_text (sample_entry t) = t" for t by (simp_all add: no_entry_def sample_entry_def)
  have row: "ms_sub (menu_of es) ! (x + 1) = (if x < length es then es ! x else no_entry)" if "x < 15" for x
    using that assms(1) by (auto simp: menu_of_def nth_append)
  have nz: "x < length es \<Longrightarrow> mi_text (es ! x) \<noteq> 0 \<and> mi_text (es ! x) < 4096 \<and> \<not> is_extern_row (es ! x)" for x
    using assms(2) nth_mem by blast
  have items: "x < 14 \<Longrightarrow> um_file (ms_items (menu_of es) ! x) = 0 \<and> um_title (ms_items (menu_of es) ! x) = 0" for x
    by (simp add: menu_of_def)
  show "menu_wf (menu_of es)"
    unfolding menu_wf_def
  proof (intro conjI allI impI)
    show "length (ms_sub (menu_of es)) = 14 + 2" "length (ms_items (menu_of es)) = 14" using assms(1) by (simp_all add: menu_of_def)
    show "mi_text (ms_sub (menu_of es) ! 0) \<noteq> 0" by (simp add: menu_of_def blank)
    show "mi_text (ms_sub (menu_of es) ! (14 + 1)) = 0" using row[of 14] assms(1) by (simp add: blank)
    show "mi_text (ms_sub (menu_of es) ! (x + 2)) = 0" if "x < 14" "mi_text (ms_sub (menu_of es) ! (x + 1)) = 0" for x
      using that row[of x] row[of "x + 1"] nz[of x] by (auto simp: blank split: if_splits)
    show "strings_wf (menu_of es)" by (simp add: strings_wf_def owned_def menu_of_def ptrs)
    show "rows_wf (menu_of es)"
      using row nz items by (auto simp: rows_wf_def row_ok_def blank split: if_splits)
    show "spare_wf (menu_of es)" using items by (simp add: spare_wf_def)
  qed
  show e: "menu_entries (menu_of es) = es"
  proof -
    have "takeWhile (\<lambda>m. mi_text m \<noteq> 0) (es @ replicate (Suc n) no_entry) = es" for n
      using assms(2) by (subst takeWhile_append2) (auto simp: blank)
    moreover have "15 - length es = Suc (14 - length es)" using assms(1) by simp
    ultimately show ?thesis by (simp only: menu_entries_def menu_of_def menu_state.simps drop_Suc_Cons drop_0 One_nat_def)
  qed
  show "menu_full (menu_of es) \<longleftrightarrow> length es = 14" using row[of 13] nz[of 13] assms(1) by (auto simp: menu_full_def blank)
qed

lemma sample_menus_ok:
  "menu_wf small_menu" "menu_entries small_menu = [sample_entry 20, sample_entry 22]"
  "menu_wf full_menu" "menu_entries full_menu = map sample_entry [20..<34]" "menu_full full_menu" "\<not> menu_full small_menu"
proof -
  have e: "mi_text (sample_entry t) = t" "\<not> is_extern_row (sample_entry t)" for t
    by (simp_all add: sample_entry_def is_extern_row_def is_script_row_def is_module_row_def)
  show "menu_wf small_menu" "menu_entries small_menu = [sample_entry 20, sample_entry 22]" "\<not> menu_full small_menu"
    unfolding small_menu_def using menu_of_wf[of "[sample_entry 20, sample_entry 22]"] e by simp_all
  show "menu_wf full_menu" "menu_entries full_menu = map sample_entry [20..<34]" "menu_full full_menu"
    unfolding full_menu_def using menu_of_wf[of "map sample_entry [20..<34]"] e by auto
qed



text \<open>
  C32. Deleting an entry from the user menu removes exactly that entry, as long as a row is free. With
  all fourteen rows in use the deletion of any entry leaves the table of strings: the slide reads
  and writes the slot behind the last one. Nothing else makes a deletion fail.
\<close>

theorem full_menu_delete_leaves_the_table:
  assumes "menu_wf s" "t \<noteq> 0"
  shows "(del_usermenu_item t s = None \<longleftrightarrow> menu_full s \<and> t \<in> mi_text ` set (menu_entries s)) \<and>
    (\<not> menu_full s \<longrightarrow> (\<exists>s'. del_usermenu_item t s = Some s' \<and> menu_wf s' \<and> menu_entries s' = drop_entry t (menu_entries s)))"
  using del_usermenu_item_None(1)[OF assms] del_usermenu_item_spec[OF assms(1) _ assms(2)] by blast

theorem full_menu_delete_leaves_the_table_witness:
  "del_usermenu_item 25 full_menu = None \<and>
    (\<exists>s'. del_usermenu_item 20 small_menu = Some s' \<and> menu_wf s' \<and> menu_entries s' = [sample_entry 22])"
proof
  have "25 \<in> mi_text ` set (menu_entries full_menu)" by (simp add: sample_menus_ok sample_entry_def image_image)
  then show "del_usermenu_item 25 full_menu = None"
    using full_menu_delete_leaves_the_table[OF sample_menus_ok(3), of 25] sample_menus_ok(5) by simp
  have "drop_entry 20 (menu_entries small_menu) = [sample_entry 22]"
    by (simp add: sample_menus_ok drop_entry_def sample_entry_def)
  then show "\<exists>s'. del_usermenu_item 20 small_menu = Some s' \<and> menu_wf s' \<and> menu_entries s' = [sample_entry 22]"
    using full_menu_delete_leaves_the_table[OF sample_menus_ok(1), of 20] sample_menus_ok(6) by simp
qed



text \<open>
  The table of the user menu through its file. The file \<open>config_save\<close> writes for it begins with
  an item whose length is not the one its header states; \<open>config_restore\<close> still finds the two
  settings behind it, and over an empty table every value and name is the saved one.
\<close>

lemma user_menu_file_round_trip:
  assumes "strings_wf (cs_menu s)" "\<forall>v\<in>set (menu_view (cs_menu s)). slot_ok v" "length (ms_items (cs_menu s)) = USER_MENU_ITEMS"
    and "strings_wf (cs_menu t)" "menu_view (cs_menu t) = replicate USER_MENU_ITEMS (0, [], [])"
    and "sizes_ok (user_menu_conf_info e) (cs_mem s)" "sizes_ok (user_menu_conf_info e) (cs_mem t)"
    and "config_file (user_menu_conf_info e) base s = Some bs" "co_read ops c fn = Some bs"
  shows "\<exists>t'. config_restore ops (user_menu_conf_info e) fn no_info c t = Some t' \<and> strings_wf (cs_menu t') \<and>
    menu_view (cs_menu t') = menu_view (cs_menu s) \<and>
    cs_mem t' ''user_menu_as_root'' = cs_mem s ''user_menu_as_root'' \<and> cs_mem t' ''user_menu_enable'' = cs_mem s ''user_menu_enable''"
proof -
  have len: "length (menu_view (cs_menu s)) = 14" "length (ms_items (cs_menu t)) = 14"
    using assms(3) arg_cong[OF assms(5), of length] by (simp_all add: menu_view_def)
  have "map2 over_slot (replicate (length vs) (0, [], [])) vs = vs" for vs :: "slot list"
    by (induction vs) (auto simp: over_slot_def)
  from this[of "menu_view (cs_menu s)"] have "map2 over_slot (menu_view (cs_menu t)) (menu_view (cs_menu s)) = menu_view (cs_menu s)"
    using len(1) by (simp add: assms(5))
  then show ?thesis
    using user_menu_table_restored[OF assms(1-3) assms(4) len(2) _ _ _ _ assms(8,9)] assms(6,7)
    by (fastforce simp: sizes_ok_def user_menu_items)
qed

lemma user_menu_file_round_trip_example:
  "\<exists>bs t'. config_file (user_menu_conf_info e) CONF_USER \<lparr>cs_mem = zero_mem, cs_menu = small_menu\<rparr> = Some bs \<and>
    config_restore mem_ops (user_menu_conf_info e) ''F'' no_info ([(''F'', bs)], 0) \<lparr>cs_mem = zero_mem, cs_menu = small_menu\<rparr> = Some t' \<and>
    menu_view (cs_menu t') = menu_view small_menu"
proof -
  let ?s = "\<lparr>cs_mem = zero_mem, cs_menu = small_menu\<rparr>"
  have v: "menu_view small_menu = replicate 14 (0, [], [])"
    by (simp add: small_menu_def menu_of_def menu_view_def slot_view_def name_at_def)
  have w: "strings_wf small_menu" using sample_menus_ok(1) by (simp add: menu_wf_def)
  have z: "sizes_ok (user_menu_conf_info e) zero_mem"
    using zero_mem_ok[of e] by (simp add: members_ok_def confinfo_handlers_def)
  obtain md where "user_menu_store_data small_menu = Some md" using user_menu_store_data_owned[OF w] by blast
  then obtain bs where bs: "config_file (user_menu_conf_info e) CONF_USER ?s = Some bs"
    using user_menu_file[of ?s md e CONF_USER] by (simp add: zero_mem_def member_size_def)
  have "\<forall>x\<in>set (menu_view small_menu). slot_ok x" by (simp add: v slot_ok_def name_ok_def)
  moreover have "length (ms_items small_menu) = 14" by (simp add: small_menu_def menu_of_def)
  moreover have "co_read mem_ops ([(''F'', bs)], 0) ''F'' = Some bs" by (simp add: mem_ops_def)
  ultimately show ?thesis
    using user_menu_file_round_trip[of ?s ?s e CONF_USER bs mem_ops "([(''F'', bs)], 0)" "''F''"] w v z bs by auto
qed

section \<open>The configuration\<close>

text \<open>A camera, its on-screen table with one setting changed, and a table in the middle of a run.\<close>

definition sample_camera :: conf_env where
  "sample_camera = \<lparr>e_platformid = 12710, e_width = 360, e_height = 240, e_persistent_osd = False, e_gps = False,
     e_cursor_bg = 0, e_cursor_fg = 0, e_symbol_file = '''', e_raw_ext = 1, e_video_quality = 84, e_video_bitrate = 3,
     e_alt_button = 1, e_batt_max = 4100, e_batt_min = 3425, e_after = (\<lambda>_. replicate 100 0)\<rparr>"

definition sample_store :: conf_state where
  "sample_store = \<lparr>cs_mem = zero_mem(''show_osd'' := le32 1), cs_menu = small_menu\<rparr>"

abbreviation (input) osd_handler :: confinfo_handler where
  "osd_handler \<equiv> confinfo_handlers sample_camera ! 1"

abbreviation (input) core_handler :: confinfo_handler where
  "core_handler \<equiv> confinfo_handlers sample_camera ! 0"

lemma sample_camera_ok: "env_ok sample_camera"
  by (simp add: env_ok_def sample_camera_def)

lemma sample_store_sizes:
  assumes "list_all sized_row ci"
  shows "sizes_ok ci (cs_mem sample_store)"
proof -
  have "length (cs_mem sample_store v) = length (zero_mem v)" for v
    by (simp add: sample_store_def zero_mem_def member_size_def le32.enc_length)
  then show ?thesis using zero_mem_sizes(1)[OF assms] by (simp add: sizes_ok_def)
qed

lemma sample_store_strings:
  assumes "list_all sized_row ci"
  shows "strings_ok ci (cs_mem sample_store)"
proof -
  have "0 \<in> set (le32 1)" by (simp add: le32_def)
  then have "0 \<in> set (zero_mem v) \<Longrightarrow> 0 \<in> set (cs_mem sample_store v)" for v
    by (simp add: sample_store_def)
  then show ?thesis using zero_mem_sizes(2)[OF assms] by (simp add: strings_ok_def)
qed

lemma osd_handler_ok: "handler_ok osd_handler (cs_mem sample_store)" "h_start osd_handler = CONF_OSD"
  using osd_conf_info_ok[OF sample_camera_ok] osd_conf_info_plain[of sample_camera] sample_store_sizes[OF sized_rows(2)]
    sample_store_strings[OF sized_rows(2)] by (simp_all add: handler_ok_def confinfo_handlers_def)

lemma core_handler_ok: "handler_ok core_handler zero_mem" "h_ci core_handler = conf_info sample_camera" "h_start core_handler = CONF_CORE"
  using conf_info_ok[OF sample_camera_ok] conf_info_plain[of sample_camera] zero_mem_sizes[OF sized_rows(1)]
  by (simp_all add: handler_ok_def confinfo_handlers_def)

lemma osd_changed: "config_has_changed (h_ci osd_handler) (cs_mem sample_store) = Some True"
  by (simp add: confinfo_handlers_def osd_conf_info_def item_stamp_def scalar_stamp_def peek_def sample_store_def le32.enc_length
      le32.dec_enc CONF_INFO_def)





text \<open>
  C36. A change of an array that is never saved. The stamp of an array member is a rolling hash whose
  top bits fall out, so flipping bit 1 or bit 7 (or both) of any byte with six more behind it leaves
  the hash as it was: if that is all the user has changed since the last save, \<open>conf_save\<close> writes
  nothing and the change is gone with the power. The routing matrix \<open>conf.bitbend\<close> is such a member:
  one route of a line moved by two is one such flip.
\<close>

theorem array_change_goes_unsaved:
  assumes "handler_ok h m" "h_start h \<noteq> CONF_USER" "config_update_last_saved (h_ci h) m = Some ci"
    and "x \<in> set (conf_items (h_ci h))" "ci_type x = CONF_INT_PTR" "i + 6 < unat (ci_size x)" "d \<in> {0x02, 0x80, 0x82}"
    and "cs_mem s = m(ci_var x := (m (ci_var x))[i := m (ci_var x) ! i XOR d])"
  shows "save_handler ops (h\<lparr>h_ci := ci\<rparr>) s c = Some (h\<lparr>h_ci := ci\<rparr>, s, c) \<and> cs_mem s \<noteq> m"
proof
  have "config_has_changed ci (cs_mem s) = Some False"
    unfolding assms(8) by (rule blind_table[OF assms(1,4,5,6,7,3)])
  then show "save_handler ops (h\<lparr>h_ci := ci\<rparr>) s c = Some (h\<lparr>h_ci := ci\<rparr>, s, c)"
    using assms(2) by (simp add: save_handler_unchanged)
  have "i < length (m (ci_var x))" using assms(1,4,5,6) by (simp add: handler_ok_def sizes_ok_def)
  moreover have "v XOR d \<noteq> v" for v :: u8
  proof
    assume "v XOR d = v"
    moreover have "d = v XOR (v XOR d)" by (simp flip: xor.assoc)
    ultimately have "d = 0" by simp
    then show False using assms(7) by auto
  qed
  ultimately have "cs_mem s (ci_var x) \<noteq> m (ci_var x)" unfolding assms(8) by (metis fun_upd_same nth_list_update_eq)
  then show "cs_mem s \<noteq> m" by auto
qed

theorem array_change_goes_unsaved_witness:
  "\<exists>ci. config_update_last_saved (conf_info sample_camera) zero_mem = Some ci \<and>
    save_handler wide_ops (core_handler\<lparr>h_ci := ci\<rparr>) \<lparr>cs_mem = zero_mem(''bitbend'' := (zero_mem ''bitbend'')[3 := 2]), cs_menu = small_menu\<rparr> ([], 0) =
      Some (core_handler\<lparr>h_ci := ci\<rparr>, \<lparr>cs_mem = zero_mem(''bitbend'' := (zero_mem ''bitbend'')[3 := 2]), cs_menu = small_menu\<rparr>, ([], 0))"
proof -
  let ?h = core_handler and ?s = "\<lparr>cs_mem = zero_mem(''bitbend'' := (zero_mem ''bitbend'')[3 := 2]), cs_menu = small_menu\<rparr>"
  let ?x = "CONF_INFO 288 ''bitbend'' 32 CONF_INT_PTR (Def_i 0)"
  have x: "?x \<in> set (conf_items (h_ci ?h))" unfolding core_handler_ok(2) by (rule conf_info_entries(2))
  obtain ci where ci: "config_update_last_saved (h_ci ?h) zero_mem = Some ci"
    using update_last_saved_ex stamps_exist core_handler_ok(1) unfolding handler_ok_def by metis
  have u: "h_start ?h \<noteq> CONF_USER" using core_handler_ok(3) by simp
  have "zero_mem ''bitbend'' ! 3 XOR 2 = 2" by (simp add: zero_mem_def member_size_def)
  then have "cs_mem ?s = zero_mem(ci_var ?x := (zero_mem (ci_var ?x))[3 := zero_mem (ci_var ?x) ! 3 XOR 2])" by simp
  then have "save_handler wide_ops (?h\<lparr>h_ci := ci\<rparr>) ?s ([], 0) = Some (?h\<lparr>h_ci := ci\<rparr>, ?s, ([], 0))"
    using array_change_goes_unsaved[OF core_handler_ok(1) u ci x, of 3 2 ?s wide_ops "([], 0)"] by simp
  then show ?thesis using ci core_handler_ok(2) by auto
qed

text \<open>
  A save the card refuses is counted as done: \<open>conf_save\<close> does not look at what \<open>open\<close> returned, so
  the change is not reported again and the next save writes nothing.
\<close>

lemma refused_save_is_forgotten:
  assumes "handler_ok h (cs_mem s)" "h_start h \<noteq> CONF_USER" "config_has_changed (h_ci h) (cs_mem s) = Some True"
    and "co_create ops c (h_file h) = (False, c1)"
  shows "\<exists>h'. save_handler ops h s c = Some (h', s, c1) \<and> save_handler ops h' s c1 = Some (h', s, c1)"
  using failed_save_forgets[OF assms] by blast

lemma refused_save_is_forgotten_example:
  "\<exists>h'. save_handler (mem_ops\<lparr>co_create := \<lambda>c p. (False, c)\<rparr>) osd_handler sample_store ([], 0) = Some (h', sample_store, ([], 0)) \<and>
    save_handler (mem_ops\<lparr>co_create := \<lambda>c p. (False, c)\<rparr>) h' sample_store ([], 0) = Some (h', sample_store, ([], 0))"
  by (rule refused_save_is_forgotten[OF osd_handler_ok(1)]) (use osd_handler_ok(2) osd_changed in simp_all)





text \<open>
  C39. A script can switch them on through a file. \<open>load_config_file\<close>, which scripts may call with a
  name of their own, takes the entry 999 of any file that has the magic word; the test of
  \<open>setValue\<close> is not there.
\<close>

theorem loaded_file_sets_native_calls:
  assumes "stamped e hs" "env_ok e" "\<forall>i s. cs_mem (infos CONF_CORE i s) native_calls = cs_mem s native_calls"
    and "length (cs_mem s native_calls) = 4"
    and "co_read ops c fn = Some (le32 CONF_MAGICK_VALUE @ le32 x @ le16 999 @ le16 4 @ le32 1)"
  shows "\<exists>s'. load_config_file ops infos CONF_CORE (Some fn) hs c s = Some (True, hs, s') \<and> get_int native_calls s' = Some 1"
  using assms by (rule load_native_calls)

theorem loaded_file_sets_native_calls_witness:
  "\<exists>s'. load_config_file mem_ops (\<lambda>_. no_info) CONF_CORE (Some ''F'') (confinfo_handlers sample_camera)
      ([(''F'', le32 CONF_MAGICK_VALUE @ le32 0 @ le16 999 @ le16 4 @ le32 1)], 0) sample_store =
      Some (True, confinfo_handlers sample_camera, s') \<and> get_int native_calls s' = Some 1"
  by (rule loaded_file_sets_native_calls[OF stamped_start sample_camera_ok, where x = 0])
    (simp_all add: no_info_def sample_store_def zero_mem_def member_size_def mem_ops_def)



text \<open>
  After the defaults have been loaded every member has its size and every string an end, whatever
  the memory held before. A file can take that away: a string that fills its member is restored
  as it is, and the next look for changes runs past it.
\<close>

lemma defaults_are_well_formed:
  assumes "info_apart ci info" "table_ok ci" "sizes_ok ci (cs_mem s)"
  shows "\<exists>s'. config_load_defaults ci info s = Some s' \<and> sizes_ok ci (cs_mem s') \<and> strings_ok ci (cs_mem s')"
  using load_defaults_table[OF assms] by blast

lemma defaults_are_well_formed_example:
  "\<exists>s'. config_load_defaults (osd_conf_info sample_camera) no_info sample_store = Some s' \<and> strings_ok (osd_conf_info sample_camera) (cs_mem s')"
  using defaults_are_well_formed[of "osd_conf_info sample_camera" no_info sample_store] osd_conf_info_ok[OF sample_camera_ok]
    sample_store_sizes[OF sized_rows(2)] by (auto simp: info_apart_def no_info_def)

section \<open>Multiple exposure\<close>

definition sample_row :: "u16 list" where
  "sample_row = [1, 2, 3, 0x3ff, 0, 0x200, 0x155, 0x2aa]"

text \<open>
  The accumulator file. At each of the three depths a row of whole groups packed by
  \<open>mexp_row_pack\<close> and read by \<open>mexp_row_unpack\<close> is the same row, every pixel at its place.
\<close>

lemma packed_rows_round_trip:
  assumes "bits \<in> {10, 12, 14}" "length p = k * group_px bits" "\<forall>v\<in>set p. take_bit bits v = v"
    "length dst = k * group_bytes bits" "length dst' = length p"
  shows "mexp_row_unpack bits (mexp_row_pack bits p dst (length p)) dst' (length p) = p"
proof -
  have "mexp_depth bits" using assms(1) by (simp add: mexp_depth_def)
  then show ?thesis by (rule row_round_trip[OF _ assms(2-5)])
qed

lemma packed_rows_round_trip_example:
  "mexp_row_unpack 10 (mexp_row_pack 10 sample_row (replicate 10 0) 8) (replicate 8 0) 8 = sample_row"
proof -
  have "\<forall>v\<in>set sample_row. take_bit 10 v = v" "length sample_row = 8" by (simp_all add: sample_row_def)
  then show ?thesis
    using packed_rows_round_trip[of 10 sample_row 1 "replicate 10 0" "replicate 8 0"]
    by (simp add: group_px_def group_bytes_def)
qed

text \<open>
  The fast row loops. In every mode, for any black level, blending a row with the mode test
  hoisted out of the loop gives what \<open>mexp_blend_px\<close> gives pixel by pixel, as long as no pixel
  of either row is above the white level.
\<close>

lemma rows_blend_pixel_by_pixel:
  assumes "length acc = length v" "\<forall>x\<in>set acc \<union> set v. ucast x \<le> white"
  shows "mexp_row_blend mode acc v (length acc) n black white =
    map2 (\<lambda>a b. mexp_blend_px mode (ucast a) (ucast b) n black white) acc v"
  by (rule row_blend_pixels[OF assms])

lemma rows_blend_pixel_by_pixel_example:
  "mexp_row_blend 1 sample_row (rev sample_row) 8 1 31 0x3ff =
    map2 (\<lambda>a b. mexp_blend_px 1 (ucast a) (ucast b) 1 31 0x3ff) sample_row (rev sample_row) \<and>
   mexp_row_blend 1 [0x3ff] [0] 1 1 31 0x3f0 \<noteq>
     map2 (\<lambda>a b. mexp_blend_px 1 (ucast a) (ucast b) 1 31 0x3f0) [0x3ff :: u16] [0 :: u16]"
proof -
  have "\<forall>x\<in>set sample_row \<union> set (rev sample_row). ucast x \<le> (0x3ff :: u32)" by (simp add: sample_row_def)
  moreover have "length sample_row = 8" "length (rev sample_row) = 8" by (simp_all add: sample_row_def)
  moreover have "mexp_row_blend 1 [0x3ff] [0] 1 1 31 0x3f0 \<noteq>
     map2 (\<lambda>a b. mexp_blend_px 1 (ucast a) (ucast b) 1 31 0x3f0) [0x3ff :: u16] [0 :: u16]"
    by code_simp
  ultimately show ?thesis
    using rows_blend_pixel_by_pixel[of sample_row "rev sample_row" "0x3ff" 1 1 31] by simp
qed

text \<open>
  The running mean. With \<open>n\<close> exposures, each at most the white level, the accumulator is
  off their sum divided by \<open>n\<close> by no more than \<open>(n + 1) / 4\<close>, and never above white. The bound
  grows with \<open>n\<close>: the rounding of the steps does add up.
\<close>

lemma running_mean_error:
  assumes "unat v0 \<le> W" "\<forall>v\<in>set vs. unat v \<le> W" "W \<le> 65535" "1 + length vs \<le> 1000"
  shows "4 * \<bar>int (1 + length vs) * int (unat (mean_from 1 black (word_of_nat W) v0 vs)) - (\<Sum>v\<leftarrow>v0 # vs. int (unat v))\<bar> \<le>
      int (1 + length vs) * (int (1 + length vs) + 1) - 2 \<and>
    unat (mean_from 1 black (word_of_nat W) v0 vs) \<le> W"
  using mean_error[of v0 W vs 1 "int (unat v0)" black] assms by simp

lemma running_mean_error_example:
  "mean_from 1 31 1023 100 [91, 92, 93, 93, 92, 92, 91, 91] = 95 \<and>
   (\<Sum>v\<leftarrow>[100, 91, 92, 93, 93, 92, 92, 91, 91 :: u16]. int (unat v)) = 9 * 92 + 7 \<and>
   unat (mean_from 1 31 (word_of_nat 1023) 100 [91, 92, 93, 93, 92, 92, 91, 91]) \<le> 1023"
proof -
  have "mean_from 1 31 1023 100 [91, 92, 93, 93, 92, 92, 91, 91] = 95" by code_simp
  moreover have "(\<Sum>v\<leftarrow>[100, 91, 92, 93, 93, 92, 92, 91, 91 :: u16]. int (unat v)) = 9 * 92 + 7" by simp
  moreover have "unat (mean_from 1 31 (word_of_nat 1023) 100 [91, 92, 93, 93, 92, 92, 91, 91]) \<le> 1023"
    using running_mean_error[of 100 1023 "[91, 92, 93, 93, 92, 92, 91, 91]" 31] by simp
  ultimately show ?thesis by blast
qed

end
